(* ===== verification/Prelude.thy ===== *)
theory Prelude
  imports Main "HOL-Library.Word" "HOL-Library.Monad_Syntax"
begin

text \<open>
  Shared ground of the development: the types that name C's values on an LP64 platform, checked
  access to the object a pointer points into, and the generic lemmas on lists, options and words
  that the component theories use through the collections \<open>mem_simps\<close> and \<open>cstr_simps\<close>.

  Conventions used by every theory:
  \<^item> a pointer is the list of the bytes from the byte it points at to the end of its object, so
    that advancing the pointer is \<open>tl\<close> or \<open>drop\<close>; where several functions share one
    object, the object is one list and the pointers are offsets into it;
  \<^item> a read or a write outside the object is undefined behaviour in C and the value \<open>None\<close>
    here, so that a result \<open>Some r\<close> also says that every access was inside the object;
  \<^item> \<open>char\<close> and \<open>unsigned char\<close> are \<open>8 word\<close>, \<open>unsigned\<close> is \<open>32 word\<close>,
    \<open>unsigned long\<close>, \<open>uint64\<close> and \<open>size_t\<close> values that may wrap are \<open>64 word\<close>;
    sizes and indices bounded by an object are \<open>nat\<close>; an \<open>int\<close> that cannot overflow is
    \<open>int\<close>;
  \<^item> the destination of a \<open>fmt_\<close> or \<open>scan_\<close> routine that may be \<open>NULL\<close> is a
    \<open>bool\<close> (\<open>False\<close> for \<open>NULL\<close>) and the bytes stored through it are returned as a
    list.
\<close>

unbundle bit_operations_syntax

type_synonym byte = "8 word"
type_synonym uint16 = "16 word"
type_synonym uint32 = "32 word"
type_synonym uint64 = "64 word"

named_theorems mem_simps \<open>checked reads and writes\<close>
named_theorems cstr_simps \<open>the string routines on a terminated string\<close>

declare Option.bind_cong [fundef_cong]

subsection \<open>Checked access to an object\<close>

definition rd :: "'a list \<Rightarrow> nat \<Rightarrow> 'a option" where
  "rd m i = (if i < length m then Some (m ! i) else None)"

definition wr :: "'a list \<Rightarrow> nat \<Rightarrow> 'a \<Rightarrow> 'a list option" where
  "wr m i x = (if i < length m then Some (m[i := x]) else None)"

definition size_max :: nat where
  "size_max = 2 ^ 64 - 1"

lemma rd_Some_iff [mem_simps]: "rd m i = Some x \<longleftrightarrow> i < length m \<and> m ! i = x"
  by (auto simp: rd_def)

lemma rd_None_iff [mem_simps]: "rd m i = None \<longleftrightarrow> length m \<le> i"
  by (auto simp: rd_def)

lemma rd_in [simp]: "i < length m \<Longrightarrow> rd m i = Some (m ! i)"
  by (simp add: rd_def)

lemma rd_0 [simp]: "rd (x # xs) 0 = Some x"
  by (simp add: rd_def)

lemma rd_Nil [simp]: "rd [] i = None"
  by (simp add: rd_def)

lemma rd_Suc [simp]: "rd (x # xs) (Suc i) = rd xs i"
  by (simp add: rd_def)

lemma rd_1 [simp]: "rd (x # xs) 1 = rd xs 0"
  by (simp add: rd_def)

lemma rd_numeral [simp]: "rd (x # xs) (numeral k) = rd xs (pred_numeral k)"
  by (simp add: rd_def numeral_eq_Suc)

lemma rd_drop: "rd (drop n m) i = rd m (n + i)"
  by (auto simp: rd_def)

lemma rd_append_right: "rd (xs @ ys) (length xs + i) = rd ys i"
  by (simp add: rd_def)

lemma rd_append_left: "i < length xs \<Longrightarrow> rd (xs @ ys) i = rd xs i"
  by (simp add: rd_def nth_append)

lemma wr_Some_iff [mem_simps]: "wr m i x = Some m' \<longleftrightarrow> i < length m \<and> m' = m[i := x]"
  by (auto simp: wr_def)

lemma wr_in [simp]: "i < length m \<Longrightarrow> wr m i x = Some (m[i := x])"
  by (simp add: wr_def)

lemma wr_0 [simp]: "wr (y # ys) 0 x = Some (x # ys)"
  by (simp add: wr_def)

subsection \<open>Segments of a list\<close>

definition splice :: "'a list \<Rightarrow> nat \<Rightarrow> 'a list \<Rightarrow> 'a list" where
  "splice m p xs = take p m @ xs @ drop (p + length xs) m"

lemma splice_Nil [simp]: "splice m p [] = m"
  by (simp add: splice_def)

lemma length_splice [simp]: "p + length xs \<le> length m \<Longrightarrow> length (splice m p xs) = length m"
  by (simp add: splice_def)

lemma nth_splice:
  assumes "p + length xs \<le> length m" "i < length m"
  shows "splice m p xs ! i = (if p \<le> i \<and> i < p + length xs then xs ! (i - p) else m ! i)"
  using assms by (auto simp: splice_def nth_append min_def)

lemma takeWhile_nth_sat: "j < length (takeWhile P xs) \<Longrightarrow> P (xs ! j)"
  using takeWhile_nth[of j P xs] nth_mem[of j "takeWhile P xs"] set_takeWhileD[of _ P xs] by metis

lemma list_update_snoc_splice:
  "p + length xs < length m \<Longrightarrow>
     (splice m p xs)[p + length xs := x] = splice m p (xs @ [x])"
  by (rule nth_equalityI) (auto simp: nth_splice nth_list_update nth_append)

lemma length_takeWhile_eq_iff: "length (takeWhile P xs) = length xs \<longleftrightarrow> (\<forall>x \<in> set xs. P x)"
  by (induction xs) auto

lemma length_takeWhile_less_iff: "length (takeWhile P xs) < length xs \<longleftrightarrow> (\<exists>x \<in> set xs. \<not> P x)"
  using length_takeWhile_eq_iff[of P xs] length_takeWhile_le[of P xs] by (auto simp: le_less)

subsection \<open>C strings\<close>

text \<open>
  \<open>cstr w r\<close> is an object that holds the string \<open>w\<close>, its terminator and whatever bytes
  \<open>r\<close> follow; \<open>nonul w\<close> says that \<open>w\<close> has no terminator inside.
\<close>

definition nonul :: "byte list \<Rightarrow> bool" where
  "nonul w \<longleftrightarrow> (0::byte) \<notin> set w"

definition cstr :: "byte list \<Rightarrow> byte list \<Rightarrow> byte list" where
  "cstr w r = w @ 0 # r"

lemma nonul_Nil [simp]: "nonul []"
  by (simp add: nonul_def)

lemma nonul_Cons [simp]: "nonul (x # w) \<longleftrightarrow> x \<noteq> 0 \<and> nonul w"
  by (auto simp: nonul_def)

lemma nonul_append [simp]: "nonul (v @ w) \<longleftrightarrow> nonul v \<and> nonul w"
  by (auto simp: nonul_def)

lemma cstr_Nil [simp]: "cstr [] r = 0 # r"
  by (simp add: cstr_def)

lemma cstr_Cons [simp]: "cstr (x # w) r = x # cstr w r"
  by (simp add: cstr_def)

lemma length_cstr [simp]: "length (cstr w r) = length w + Suc (length r)"
  by (simp add: cstr_def)

lemma nth_cstr: "i < length w \<Longrightarrow> cstr w r ! i = w ! i"
  by (simp add: cstr_def nth_append)

lemma nth_cstr_end [simp]: "cstr w r ! length w = 0"
  by (simp add: cstr_def)

lemma rd_cstr: "i < length w \<Longrightarrow> rd (cstr w r) i = Some (w ! i)"
  by (simp add: nth_cstr)

lemma rd_cstr_end [simp]: "rd (cstr w r) (length w) = Some 0"
  by (simp add: rd_def)

lemma take_cstr: "take (length w) (cstr w r) = w"
  by (simp add: cstr_def)

lemma drop_cstr: "i \<le> length w \<Longrightarrow> drop i (cstr w r) = cstr (drop i w) r"
  by (simp add: cstr_def)

lemma nonul_drop: "nonul w \<Longrightarrow> nonul (drop i w)"
  using set_drop_subset[of i w] by (auto simp: nonul_def)

lemma nonul_nth: "nonul w \<Longrightarrow> i < length w \<Longrightarrow> w ! i \<noteq> 0"
  by (auto simp: nonul_def in_set_conv_nth)

text \<open>The bytes of a string literal, without its terminator.\<close>

definition ascii :: "string \<Rightarrow> byte list" where
  "ascii s = map of_char s"

lemma ascii_Nil [simp]: "ascii [] = []"
  and ascii_Cons [simp]: "ascii (c # s) = of_char c # ascii s"
  by (simp_all add: ascii_def)

subsection \<open>Words\<close>

lemma unat_lt_2p: "unat (x :: 'a::len word) < 2 ^ LENGTH('a)"
  by (rule unsigned_less)

lemma byte_lt_256: "unat (c :: byte) < 256"
  using unat_lt_2p[of c] by simp

lemma unat_add_small:
  "unat a + unat b < 2 ^ LENGTH('a) \<Longrightarrow> unat (a + b :: 'a::len word) = unat a + unat b"
  by (simp add: unat_word_ariths)

lemma unat_sub_small: "unat b \<le> unat a \<Longrightarrow> unat (a - b :: 'a::len word) = unat a - unat b"
  by (rule unat_sub) (simp add: word_le_nat_alt)

lemma unat_mult_small:
  "unat a * unat b < 2 ^ LENGTH('a) \<Longrightarrow> unat (a * b :: 'a::len word) = unat a * unat b"
  by (simp add: unat_word_ariths)

lemma unat_ucast_mod: "unat (ucast (x :: 'a::len word) :: 'b::len word) = unat x mod 2 ^ LENGTH('b)"
  by (simp add: unsigned_ucast_eq take_bit_eq_mod)

lemma unat_ucast_up:
  assumes "LENGTH('a) \<le> LENGTH('b)"
  shows "unat (ucast (x :: 'a::len word) :: 'b::len word) = unat x"
proof -
  have "unat x < 2 ^ LENGTH('b)"
    using unat_lt_2p[of x] assms by (meson order_less_le_trans power_increasing one_le_numeral)
  then show ?thesis by (simp add: unat_ucast_mod)
qed

lemma unat_shiftr: "unat (drop_bit k (x :: 'a::len word)) = unat x div 2 ^ k"
  by (subst unat_drop_bit_eq) (rule drop_bit_eq_div)

lemma unat_and_mask: "unat (x AND mask k :: 'a::len word) = unat x mod 2 ^ k"
proof -
  have "x AND mask k = take_bit k x" by (simp add: take_bit_eq_mask)
  then have "unat (x AND mask k) = take_bit k (unat x)" by (simp only: unsigned_take_bit_eq)
  then show ?thesis by (simp only: take_bit_eq_mod)
qed

lemma unat_mask_lt: "k < LENGTH('a) \<Longrightarrow> unat (mask k :: 'a::len word) = 2 ^ k - 1"
proof -
  assume "k < LENGTH('a)"
  then have "unat (mask k :: 'a word) = mask k" by (intro bit_eqI) (auto simp: bit_simps)
  then show ?thesis by (simp add: mask_eq_exp_minus_1)
qed

lemma unat_nonneg_sint: "0 \<le> sint (x :: 'a::len word) \<Longrightarrow> unat x = nat (sint x)"
proof -
  assume "0 \<le> sint x"
  moreover have "sint x < 2 ^ LENGTH('a)"
    by (rule less_le_trans[OF sint_lt]) (rule power_increasing, simp_all)
  ultimately have "uint x = sint x" unfolding uint_sint[of x] by (simp add: take_bit_int_eq_self)
  then show ?thesis by (simp add: unat_eq_nat_uint)
qed

lemma sint_neg_iff: "sint (x :: 'a::len word) < 0 \<longleftrightarrow> 2 ^ (LENGTH('a) - 1) \<le> unat x"
proof
  assume neg: "sint x < 0"
  show "2 ^ (LENGTH('a) - 1) \<le> unat x"
  proof (rule ccontr)
    assume "\<not> 2 ^ (LENGTH('a) - 1) \<le> unat x"
    then have "int (unat x) < 2 ^ (LENGTH('a) - 1)" by (metis not_le of_nat_less_numeral_power_cancel_iff)
    then have "uint x < 2 ^ (LENGTH('a) - 1)" by simp
    moreover have "- (2 ^ (LENGTH('a) - 1)) \<le> uint x" by (rule order_trans[of _ 0]) simp_all
    ultimately have "sint x = uint x"
      unfolding sint_uint One_nat_def[symmetric] by (intro signed_take_bit_int_eq_self)
    with neg show False by simp
  qed
next
  assume "2 ^ (LENGTH('a) - 1) \<le> unat x"
  then show "sint x < 0"
    using sint_lt[of x] unat_nonneg_sint[of x] by (metis nat_less_numeral_power_cancel_iff not_le)
qed

lemma byte_top_bit: "(c :: byte) AND 0x80 = 0 \<longleftrightarrow> unat c < 128"
proof -
  have "c AND 2 ^ 7 = 0 \<longleftrightarrow> \<not> bit c 7" by (rule and_exp_eq_0_iff_not_bit)
  also have "bit c 7 \<longleftrightarrow> bit (unat c) 7" by (simp add: bit_unsigned_iff)
  also have "\<dots> \<longleftrightarrow> odd (unat c div 2 ^ 7)" by (rule bit_iff_odd)
  also have "\<dots> \<longleftrightarrow> \<not> unat c < 128"
  proof (cases "unat c < 128")
    case False
    then have "unat c div 128 = 1" using byte_lt_256[of c] by (intro div_nat_eqI) simp_all
    then show ?thesis using False by simp
  qed simp
  finally show ?thesis by simp
qed

lemma byte_low_bits: "unat (c AND 0x7f :: byte) = unat c mod 128"
proof -
  have m: "(0x7f :: byte) = mask 7" by (simp add: mask_eq_exp_minus_1)
  show ?thesis unfolding m unat_and_mask by simp
qed

lemma all_bytes: "(\<forall>c::byte. P c) \<longleftrightarrow> list_all (\<lambda>n. P (word_of_nat n)) [0..<256]"
proof
  assume r: "list_all (\<lambda>n. P (word_of_nat n)) [0..<256]"
  show "\<forall>c::byte. P c"
  proof
    fix c :: byte
    have "P (word_of_nat (unat c))"
      using r byte_lt_256[of c] unfolding list_all_iff set_upt by (metis atLeastLessThan_iff le0)
    then show "P c" by simp
  qed
qed (simp add: list_all_iff)

lemma uint_diff_eq_0 [simp]: "uint (x :: 'a::len word) - uint y = 0 \<longleftrightarrow> x = y"
  by (simp add: word_uint_eq_iff)

end
