(* ===== verification/Comparator.thy ===== *)
theory Comparator
  imports Prelude "HOL-Library.List_Lexorder"
begin

text \<open>
  The contract of a three-way comparison routine as \<open>qsort\<close>, the sorted containers and the
  \<open>_equal\<close> wrappers rely on it: on the arguments of its domain the routine returns, and the sign
  of its result is the order of a key of the arguments.
  The comparison routines of \<open>src/lib/byte\<close>, \<open>src/lib/str\<close> and \<open>src/lib/case\<close>
  interpret the locale in their own theories; what a client needs follows here once.
\<close>

locale comparator =
  fixes cmp :: "'a \<Rightarrow> 'a \<Rightarrow> int option"
    and dom :: "'a \<Rightarrow> bool"
    and key :: "'a \<Rightarrow> 'k::linorder"
  assumes cmp_key:
    "dom x \<Longrightarrow> dom y \<Longrightarrow>
       \<exists>d. cmp x y = Some d \<and> (d < 0 \<longleftrightarrow> key x < key y) \<and> (d = 0 \<longleftrightarrow> key x = key y)"
begin

lemma cmp_returns: "dom x \<Longrightarrow> dom y \<Longrightarrow> \<exists>d. cmp x y = Some d"
  using cmp_key by blast

lemma cmp_neg: "dom x \<Longrightarrow> dom y \<Longrightarrow> cmp x y = Some d \<Longrightarrow> d < 0 \<longleftrightarrow> key x < key y"
  using cmp_key by fastforce

lemma cmp_zero: "dom x \<Longrightarrow> dom y \<Longrightarrow> cmp x y = Some d \<Longrightarrow> d = 0 \<longleftrightarrow> key x = key y"
  using cmp_key by fastforce

lemma cmp_pos: "dom x \<Longrightarrow> dom y \<Longrightarrow> cmp x y = Some d \<Longrightarrow> 0 < d \<longleftrightarrow> key y < key x"
  using cmp_neg[of x y d] cmp_zero[of x y d] by (metis less_linear not_less_iff_gr_or_eq)

lemma cmp_swap:
  assumes "dom x" "dom y" "cmp x y = Some d"
  obtains e where "cmp y x = Some e" "sgn e = - sgn d"
proof -
  obtain e where e: "cmp y x = Some e" using assms cmp_returns by blast
  have "(e < 0 \<longleftrightarrow> 0 < d) \<and> (e = 0 \<longleftrightarrow> d = 0)"
    using assms e cmp_neg[of y x e] cmp_zero[of y x e] cmp_pos[of x y d] cmp_zero[of x y d]
    by (metis (full_types))
  then have "sgn e = - sgn d" by (auto simp: sgn_if)
  with e show thesis using that by blast
qed

lemma cmp_trans:
  assumes "dom x" "dom y" "dom z"
    and "cmp x y = Some d" "d \<le> 0" "cmp y z = Some e" "e \<le> 0"
  obtains f where "cmp x z = Some f" "f \<le> 0"
proof -
  obtain f where f: "cmp x z = Some f" using assms cmp_returns by blast
  have "key x \<le> key y" "key y \<le> key z"
    using assms cmp_pos[of x y d] cmp_pos[of y z e] by (simp_all add: not_less[symmetric])
  then have "f \<le> 0"
    using assms f cmp_pos[of x z f] by (meson le_less_trans not_le order_trans)
  with f show thesis using that by blast
qed

end

end
