(* ===== verification/Pack.thy ===== *)
theory Pack
  imports Prelude
begin

text \<open>
  Fixed-width integers as bytes: \<open>src/lib/uint16\<close>, \<open>src/lib/uint32\<close> and
  \<open>src/lib/uint64\<close>, little and big endian.
  A \<open>_pack\<close> routine stores a fixed number of bytes at its destination, returned as a list; a
  \<open>_read\<close> or \<open>_unpack\<close> routine reads them back from the object it is given.
  The locale \<open>packing\<close> is the contract the wire formats of the program rely on; the TAI labels
  of theory \<open>Times\<close> interpret it too.
\<close>

subsection \<open>The contract\<close>

locale packing =
  fixes pack :: "'w \<Rightarrow> byte list"
    and unpack :: "byte list \<Rightarrow> 'w option"
    and width :: nat
  assumes length_pack: "length (pack v) = width"
    and unpack_pack: "unpack (pack v @ r) = Some v"
    and unpack_short: "length s < width \<Longrightarrow> unpack s = None"
    and pack_unpack: "width \<le> length s \<Longrightarrow> \<exists>v. unpack s = Some v \<and> pack v = take width s"
begin

lemma pack_inj: "pack v = pack w \<Longrightarrow> v = w"
  using unpack_pack[of v "[]"] unpack_pack[of w "[]"] by simp

lemma unpack_iff: "unpack s = Some v \<longleftrightarrow> (\<exists>r. s = pack v @ r)"
proof
  assume u: "unpack s = Some v"
  then have "width \<le> length s" using unpack_short by (metis not_le option.discI)
  then have "pack v = take width s" using pack_unpack u by fastforce
  then show "\<exists>r. s = pack v @ r" by (metis append_take_drop_id)
qed (auto simp: unpack_pack)

lemma pack_bij: "bij_betw pack UNIV {s. length s = width}"
proof (rule bij_betwI')
  show "pack v = pack w \<longleftrightarrow> v = w" for v w using pack_inj by blast
next
  fix s :: "byte list" assume "s \<in> {s. length s = width}"
  then show "\<exists>v \<in> UNIV. s = pack v" using pack_unpack[of s] by auto
qed (simp add: length_pack)

text \<open>A client that stores a sequence of values reads the sequence back.\<close>

fun unpack_seq :: "nat \<Rightarrow> byte list \<Rightarrow> 'w list option" where
  "unpack_seq 0 s = Some []"
| "unpack_seq (Suc n) s =
     do { v \<leftarrow> unpack s; vs \<leftarrow> unpack_seq n (drop width s); Some (v # vs) }"

lemma unpack_seq_pack: "unpack_seq (length vs) (concat (map pack vs) @ r) = Some vs"
  by (induction vs) (simp_all add: unpack_pack length_pack)

end

subsection \<open>The routines\<close>

definition uint16_pack :: "uint16 \<Rightarrow> byte list" where
  "uint16_pack i = [ucast i, ucast (drop_bit 8 i)]"

definition uint16_pack_big :: "uint16 \<Rightarrow> byte list" where
  "uint16_pack_big i = [ucast (drop_bit 8 i), ucast i]"

definition uint16_read :: "byte list \<Rightarrow> uint16 option" where
  "uint16_read s = do { a \<leftarrow> rd s 1; b \<leftarrow> rd s 0; Some (push_bit 8 (ucast a) OR ucast b) }"

definition uint16_read_big :: "byte list \<Rightarrow> uint16 option" where
  "uint16_read_big s = do { a \<leftarrow> rd s 0; b \<leftarrow> rd s 1; Some (push_bit 8 (ucast a) + ucast b) }"

definition uint16_unpack :: "byte list \<Rightarrow> uint16 option" where
  "uint16_unpack s = do { a \<leftarrow> rd s 1; b \<leftarrow> rd s 0; Some (push_bit 8 (ucast a) + ucast b) }"

definition uint16_unpack_big :: "byte list \<Rightarrow> uint16 option" where
  "uint16_unpack_big s = do { a \<leftarrow> rd s 0; b \<leftarrow> rd s 1; Some (push_bit 8 (ucast a) + ucast b) }"

definition uint32_pack :: "uint32 \<Rightarrow> byte list" where
  "uint32_pack i =
     (let o0 = ucast i; i = drop_bit 8 i; o1 = ucast i; i = drop_bit 8 i; o2 = ucast i;
          i = drop_bit 8 i; o3 = ucast i
      in [o0, o1, o2, o3])"

definition uint32_pack_big :: "uint32 \<Rightarrow> byte list" where
  "uint32_pack_big i =
     (let o3 = ucast i; i = drop_bit 8 i; o2 = ucast i; i = drop_bit 8 i; o1 = ucast i;
          i = drop_bit 8 i; o0 = ucast i
      in [o0, o1, o2, o3])"

definition uint32_of_bytes :: "byte \<Rightarrow> byte \<Rightarrow> byte \<Rightarrow> byte \<Rightarrow> uint32" where
  "uint32_of_bytes a b c d =
     push_bit 24 (ucast a) OR push_bit 16 (ucast b) OR push_bit 8 (ucast c) OR ucast d"

definition uint32_read :: "byte list \<Rightarrow> uint32 option" where
  "uint32_read s =
     do { a \<leftarrow> rd s 3; b \<leftarrow> rd s 2; c \<leftarrow> rd s 1; d \<leftarrow> rd s 0; Some (uint32_of_bytes a b c d) }"

definition uint32_read_big :: "byte list \<Rightarrow> uint32 option" where
  "uint32_read_big s =
     do { a \<leftarrow> rd s 0; b \<leftarrow> rd s 1; c \<leftarrow> rd s 2; d \<leftarrow> rd s 3; Some (uint32_of_bytes a b c d) }"

definition uint32_unpack :: "byte list \<Rightarrow> uint32 option" where
  "uint32_unpack s =
     do { a \<leftarrow> rd s 3; b \<leftarrow> rd s 2; c \<leftarrow> rd s 1; d \<leftarrow> rd s 0; Some (uint32_of_bytes a b c d) }"

definition uint32_unpack_big :: "byte list \<Rightarrow> uint32 option" where
  "uint32_unpack_big s =
     do { a \<leftarrow> rd s 0; b \<leftarrow> rd s 1; c \<leftarrow> rd s 2; d \<leftarrow> rd s 3; Some (uint32_of_bytes a b c d) }"

definition uint64_pack :: "uint64 \<Rightarrow> byte list" where
  "uint64_pack i = uint32_pack (ucast (i AND 0xffffffff)) @ uint32_pack (ucast (drop_bit 32 i))"

definition uint64_pack_big :: "uint64 \<Rightarrow> byte list" where
  "uint64_pack_big i =
     uint32_pack_big (ucast (drop_bit 32 i)) @ uint32_pack_big (ucast (i AND 0xffffffff))"

definition uint64_read :: "byte list \<Rightarrow> uint64 option" where
  "uint64_read s =
     do { lo \<leftarrow> uint32_read s; hi \<leftarrow> uint32_read (drop 4 s);
          Some (ucast lo OR push_bit 32 (ucast hi)) }"

definition uint64_read_big :: "byte list \<Rightarrow> uint64 option" where
  "uint64_read_big s =
     do { hi \<leftarrow> uint32_read_big s; lo \<leftarrow> uint32_read_big (drop 4 s);
          Some (push_bit 32 (ucast hi) OR ucast lo) }"

definition uint64_unpack :: "byte list \<Rightarrow> uint64 option" where
  "uint64_unpack s = uint64_read s"

definition uint64_unpack_big :: "byte list \<Rightarrow> uint64 option" where
  "uint64_unpack_big s = uint64_read_big s"

subsection \<open>Bits of bytes and of words\<close>

lemma byte_no_bit [simp]: "8 \<le> n \<Longrightarrow> \<not> bit (b :: byte) n"
  using bit_imp_le_length[of b n] by auto

lemma uint32_no_bit [simp]: "32 \<le> n \<Longrightarrow> \<not> bit (b :: uint32) n"
  using bit_imp_le_length[of b n] by auto

lemma byte_plus_or: "push_bit 8 (ucast (a :: byte)) + ucast (b :: byte) = (push_bit 8 (ucast a) OR ucast b :: uint16)"
  by (rule disjunctive_add_eq_or, rule bit_word_eqI) (auto simp: bit_simps)

lemma uint16_join:
  "push_bit 8 (ucast (ucast (drop_bit 8 i) :: byte)) OR ucast (ucast i :: byte) = (i :: uint16)"
  by (rule bit_word_eqI) (auto simp: bit_simps)

lemma uint16_hi:
  "ucast (drop_bit 8 (push_bit 8 (ucast a)) OR drop_bit 8 (ucast b) :: uint16) = (a :: byte)" for b :: byte
  by (rule bit_word_eqI) (auto simp: bit_simps)

lemma uint16_lo: "ucast (push_bit 8 (ucast a) OR ucast b :: uint16) = (b :: byte)" for a :: byte
  by (rule bit_word_eqI) (auto simp: bit_simps)

lemma uint32_join:
  "uint32_of_bytes (ucast (drop_bit 24 i)) (ucast (drop_bit 16 i)) (ucast (drop_bit 8 i)) (ucast i) = i"
proof (rule bit_word_eqI)
  fix n assume "n < LENGTH(32)"
  then consider "n < 8" | "8 \<le> n" "n < 16" | "16 \<le> n" "n < 24" | "24 \<le> n" "n < 32" by fastforce
  then show "bit (uint32_of_bytes (ucast (drop_bit 24 i)) (ucast (drop_bit 16 i)) (ucast (drop_bit 8 i)) (ucast i)) n = bit i n"
    by cases (auto simp: uint32_of_bytes_def bit_simps)
qed

lemma uint32_byte3: "ucast (drop_bit 24 (uint32_of_bytes a b c d)) = a"
  by (rule bit_word_eqI) (auto simp: uint32_of_bytes_def bit_simps)

lemma uint32_byte2: "ucast (drop_bit 16 (uint32_of_bytes a b c d)) = b"
  by (rule bit_word_eqI) (auto simp: uint32_of_bytes_def bit_simps)

lemma uint32_byte1: "ucast (drop_bit 8 (uint32_of_bytes a b c d)) = c"
  by (rule bit_word_eqI) (auto simp: uint32_of_bytes_def bit_simps)

lemma uint32_byte0: "ucast (uint32_of_bytes a b c d) = d"
  by (rule bit_word_eqI) (auto simp: uint32_of_bytes_def bit_simps)

lemmas uint32_bytes = uint32_join uint32_byte3 uint32_byte2 uint32_byte1 uint32_byte0

lemma mask32: "ucast (i AND 0xffffffff) = (ucast i :: uint32)" for i :: uint64
proof -
  have m: "(0xffffffff :: uint64) = mask 32" by (simp add: mask_eq_exp_minus_1)
  show ?thesis unfolding m by (rule bit_word_eqI) (auto simp: bit_simps)
qed

lemma uint64_join:
  "ucast (ucast i :: uint32) OR push_bit 32 (ucast (ucast (drop_bit 32 i) :: uint32)) = (i :: uint64)"
  by (rule bit_word_eqI) (auto simp: bit_simps)

lemma uint64_hi:
  "ucast (drop_bit 32 (ucast lo) OR drop_bit 32 (push_bit 32 (ucast hi)) :: uint64) = (hi :: uint32)"
  for lo :: uint32
  by (rule bit_word_eqI) (auto simp: bit_simps)

lemma uint64_lo: "ucast (ucast lo OR push_bit 32 (ucast hi) :: uint64) = (lo :: uint32)" for hi :: uint32
  by (rule bit_word_eqI) (auto simp: bit_simps)


subsection \<open>The routines keep the contract\<close>

lemma rd_prefix4:
  "length s < 4 \<or> (\<exists>a b c d r. s = a # b # c # d # r)"
proof (cases "length s < 4")
  case False
  then have "Suc (Suc (Suc (Suc 0))) \<le> length s" by simp
  then show ?thesis unfolding Suc_le_length_iff by blast
qed simp

lemma rd_prefix2: "length s < 2 \<or> (\<exists>a b r. s = a # b # r)"
proof (cases "length s < 2")
  case False
  then have "Suc (Suc 0) \<le> length s" by simp
  then show ?thesis unfolding Suc_le_length_iff by blast
qed simp

lemmas uint16_defs = uint16_pack_def uint16_pack_big_def uint16_read_def uint16_read_big_def
  uint16_unpack_def uint16_unpack_big_def

lemmas uint32_defs = uint32_pack_def uint32_pack_big_def uint32_read_def uint32_read_big_def
  uint32_unpack_def uint32_unpack_big_def

lemma uint16_unpack_read: "uint16_unpack s = uint16_read s" "uint16_unpack_big s = uint16_read_big s"
  by (simp_all add: uint16_defs byte_plus_or)

lemma uint32_unpack_read: "uint32_unpack s = uint32_read s" "uint32_unpack_big s = uint32_read_big s"
  by (simp_all add: uint32_defs)

interpretation u16: packing uint16_pack uint16_unpack 2
proof
  fix s :: "byte list"
  show "length s < 2 \<Longrightarrow> uint16_unpack s = None" by (auto simp: uint16_unpack_def rd_def)
  assume "2 \<le> length s"
  then show "\<exists>v. uint16_unpack s = Some v \<and> uint16_pack v = take 2 s"
    using rd_prefix2[of s] by (auto simp: uint16_defs byte_plus_or uint16_hi uint16_lo)
qed (simp_all add: uint16_defs byte_plus_or uint16_join)

interpretation u16b: packing uint16_pack_big uint16_unpack_big 2
proof
  fix s :: "byte list"
  show "length s < 2 \<Longrightarrow> uint16_unpack_big s = None" by (auto simp: uint16_unpack_big_def rd_def)
  assume "2 \<le> length s"
  then show "\<exists>v. uint16_unpack_big s = Some v \<and> uint16_pack_big v = take 2 s"
    using rd_prefix2[of s] by (auto simp: uint16_defs byte_plus_or uint16_hi uint16_lo)
qed (simp_all add: uint16_defs byte_plus_or uint16_join)

interpretation u32: packing uint32_pack uint32_unpack 4
proof
  fix s :: "byte list"
  show "length s < 4 \<Longrightarrow> uint32_unpack s = None" by (auto simp: uint32_unpack_def rd_def)
  assume "4 \<le> length s"
  then show "\<exists>v. uint32_unpack s = Some v \<and> uint32_pack v = take 4 s"
    using rd_prefix4[of s] by (auto simp: uint32_defs uint32_bytes Let_def)
qed (simp_all add: uint32_defs uint32_bytes Let_def)

interpretation u32b: packing uint32_pack_big uint32_unpack_big 4
proof
  fix s :: "byte list"
  show "length s < 4 \<Longrightarrow> uint32_unpack_big s = None" by (auto simp: uint32_unpack_big_def rd_def)
  assume "4 \<le> length s"
  then show "\<exists>v. uint32_unpack_big s = Some v \<and> uint32_pack_big v = take 4 s"
    using rd_prefix4[of s] by (auto simp: uint32_defs uint32_bytes Let_def)
qed (simp_all add: uint32_defs uint32_bytes Let_def)

lemmas uint64_defs = uint64_pack_def uint64_pack_big_def uint64_read_def uint64_read_big_def
  uint64_unpack_def uint64_unpack_big_def

lemma take_8_4: "take 8 s = take 4 s @ take 4 (drop 4 s)"
  using take_add[of 4 4 s] by simp

interpretation u64: packing uint64_pack uint64_unpack 8
proof
  fix s :: "byte list" and v :: uint64 and r :: "byte list"
  show "length (uint64_pack v) = 8" by (simp add: uint64_pack_def u32.length_pack)
  show "uint64_unpack (uint64_pack v @ r) = Some v"
    by (simp add: uint64_defs u32.length_pack mask32 u32.unpack_pack[unfolded uint32_unpack_read] uint64_join)
  show "length s < 8 \<Longrightarrow> uint64_unpack s = None"
    using u32.unpack_short[of s] u32.unpack_short[of "drop 4 s"]
    by (cases "length s < 4") (auto simp: uint64_defs uint32_unpack_read bind_eq_None_conv)
  assume "8 \<le> length s"
  then have "4 \<le> length s" "4 \<le> length (drop 4 s)" by simp_all
  then obtain lo hi where
    "uint32_read s = Some lo" "uint32_pack lo = take 4 s"
    "uint32_read (drop 4 s) = Some hi" "uint32_pack hi = take 4 (drop 4 s)"
    using u32.pack_unpack[of s] u32.pack_unpack[of "drop 4 s"] unfolding uint32_unpack_read by blast
  then show "\<exists>v. uint64_unpack s = Some v \<and> uint64_pack v = take 8 s"
    by (simp add: uint64_defs mask32 uint64_hi uint64_lo take_8_4)
qed

interpretation u64b: packing uint64_pack_big uint64_unpack_big 8
proof
  fix s :: "byte list" and v :: uint64 and r :: "byte list"
  show "length (uint64_pack_big v) = 8" by (simp add: uint64_pack_big_def u32b.length_pack)
  show "uint64_unpack_big (uint64_pack_big v @ r) = Some v"
    by (simp add: uint64_defs u32b.length_pack mask32 u32b.unpack_pack[unfolded uint32_unpack_read]
        or.commute[of "push_bit _ _"] uint64_join)
  show "length s < 8 \<Longrightarrow> uint64_unpack_big s = None"
    using u32b.unpack_short[of s] u32b.unpack_short[of "drop 4 s"]
    by (cases "length s < 4") (auto simp: uint64_defs uint32_unpack_read bind_eq_None_conv)
  assume "8 \<le> length s"
  then have "4 \<le> length s" "4 \<le> length (drop 4 s)" by simp_all
  then obtain lo hi where
    "uint32_read_big s = Some hi" "uint32_pack_big hi = take 4 s"
    "uint32_read_big (drop 4 s) = Some lo" "uint32_pack_big lo = take 4 (drop 4 s)"
    using u32b.pack_unpack[of s] u32b.pack_unpack[of "drop 4 s"] unfolding uint32_unpack_read by blast
  then show "\<exists>v. uint64_unpack_big s = Some v \<and> uint64_pack_big v = take 8 s"
    by (simp add: uint64_defs mask32 or.commute[of "push_bit _ _"] uint64_hi uint64_lo take_8_4)
qed

subsection \<open>Properties\<close>

text \<open>
  Packing and unpacking 64-bit integers are inverse in both byte orders: unpacking yields a value
  exactly on the objects that start with its packed bytes, and reads nothing else.
\<close>

theorem uint64_pack_exact:
  "(uint64_unpack s = Some v \<longleftrightarrow> (\<exists>r. s = uint64_pack v @ r)) \<and>
   (uint64_unpack_big s = Some v \<longleftrightarrow> (\<exists>r. s = uint64_pack_big v @ r))"
  using u64.unpack_iff u64b.unpack_iff by blast

end
