(* ===== verification/Times.thy ===== *)
theory Times
  imports Pack
begin

text \<open>
  TAI64 and TAI64NA labels: \<open>src/lib/tai\<close> and \<open>src/lib/taia\<close>.
  A \<open>taia\<close> value is well formed when its two fractions are below \<open>10^9\<close>; it then stands
  for a number of attoseconds, and the arithmetic of the library is arithmetic modulo the range of
  that number.
\<close>

record tai = tai_x :: uint64

record taia =
  taia_sec :: tai
  taia_nano :: uint32
  taia_atto :: uint32

subsection \<open>Seconds\<close>

definition tai_add :: "tai \<Rightarrow> tai \<Rightarrow> tai" where
  "tai_add u v = \<lparr>tai_x = tai_x u + tai_x v\<rparr>"

definition tai_sub :: "tai \<Rightarrow> tai \<Rightarrow> tai" where
  "tai_sub u v = \<lparr>tai_x = tai_x u - tai_x v\<rparr>"

definition tai_uint :: "uint32 \<Rightarrow> tai" where
  "tai_uint u = \<lparr>tai_x = ucast u\<rparr>"

definition tai_pack :: "tai \<Rightarrow> byte list" where
  "tai_pack t =
     (let x = tai_x t; s7 = ucast x; x = drop_bit 8 x; s6 = ucast x; x = drop_bit 8 x;
          s5 = ucast x; x = drop_bit 8 x; s4 = ucast x; x = drop_bit 8 x; s3 = ucast x;
          x = drop_bit 8 x; s2 = ucast x; x = drop_bit 8 x; s1 = ucast x; x = drop_bit 8 x;
          s0 = ucast x
      in [s0, s1, s2, s3, s4, s5, s6, s7])"

definition tai_unpack :: "byte list \<Rightarrow> tai option" where
  "tai_unpack s =
     do { s0 \<leftarrow> rd s 0; let x = (ucast s0 :: uint64);
          s1 \<leftarrow> rd s 1; let x = push_bit 8 x + ucast s1;
          s2 \<leftarrow> rd s 2; let x = push_bit 8 x + ucast s2;
          s3 \<leftarrow> rd s 3; let x = push_bit 8 x + ucast s3;
          s4 \<leftarrow> rd s 4; let x = push_bit 8 x + ucast s4;
          s5 \<leftarrow> rd s 5; let x = push_bit 8 x + ucast s5;
          s6 \<leftarrow> rd s 6; let x = push_bit 8 x + ucast s6;
          s7 \<leftarrow> rd s 7; let x = push_bit 8 x + ucast s7;
          Some \<lparr>tai_x = x\<rparr> }"

subsection \<open>Attoseconds\<close>

definition taia_add :: "taia \<Rightarrow> taia \<Rightarrow> taia" where
  "taia_add u v =
     (let sec = tai_x (taia_sec u) + tai_x (taia_sec v);
          nano = taia_nano u + taia_nano v;
          atto = taia_atto u + taia_atto v;
          (atto, nano) = (if atto > 999999999 then (atto - 1000000000, nano + 1) else (atto, nano));
          (nano, sec) = (if nano > 999999999 then (nano - 1000000000, sec + 1) else (nano, sec))
      in \<lparr>taia_sec = \<lparr>tai_x = sec\<rparr>, taia_nano = nano, taia_atto = atto\<rparr>)"

definition taia_sub :: "taia \<Rightarrow> taia \<Rightarrow> taia" where
  "taia_sub u v =
     (let unano = taia_nano u; uatto = taia_atto u;
          sec = tai_x (taia_sec u) - tai_x (taia_sec v);
          nano = unano - taia_nano v;
          atto = uatto - taia_atto v;
          (atto, nano) = (if atto > uatto then (atto + 1000000000, nano - 1) else (atto, nano));
          (nano, sec) = (if nano > unano then (nano + 1000000000, sec - 1) else (nano, sec))
      in \<lparr>taia_sec = \<lparr>tai_x = sec\<rparr>, taia_nano = nano, taia_atto = atto\<rparr>)"

definition taia_addsec :: "taia \<Rightarrow> 64 word \<Rightarrow> taia" where
  "taia_addsec u secs =
     \<lparr>taia_sec = \<lparr>tai_x = tai_x (taia_sec u) + secs\<rparr>, taia_nano = taia_nano u, taia_atto = taia_atto u\<rparr>"

definition taia_half :: "taia \<Rightarrow> taia" where
  "taia_half u =
     (let atto = drop_bit 1 (taia_atto u);
          atto = (if taia_nano u AND 1 \<noteq> 0 then atto + 500000000 else atto);
          nano = drop_bit 1 (taia_nano u);
          nano = (if tai_x (taia_sec u) AND 1 \<noteq> 0 then nano + 500000000 else nano);
          sec = drop_bit 1 (tai_x (taia_sec u))
      in \<lparr>taia_sec = \<lparr>tai_x = sec\<rparr>, taia_nano = nano, taia_atto = atto\<rparr>)"

definition taia_less :: "taia \<Rightarrow> taia \<Rightarrow> bool" where
  "taia_less t u =
     (if tai_x (taia_sec t) < tai_x (taia_sec u) then True
      else if tai_x (taia_sec t) > tai_x (taia_sec u) then False
      else if taia_nano t < taia_nano u then True
      else if taia_nano t > taia_nano u then False
      else taia_atto t < taia_atto u)"

definition taia_tai :: "taia \<Rightarrow> tai" where
  "taia_tai ta = taia_sec ta"

definition taia_uint :: "uint32 \<Rightarrow> taia" where
  "taia_uint s = \<lparr>taia_sec = \<lparr>tai_x = ucast s\<rparr>, taia_nano = 0, taia_atto = 0\<rparr>"

definition taia_pack :: "taia \<Rightarrow> byte list" where
  "taia_pack t =
     (let x = taia_atto t; s7 = ucast x; x = drop_bit 8 x; s6 = ucast x; x = drop_bit 8 x;
          s5 = ucast x; x = drop_bit 8 x; s4 = ucast x;
          x = taia_nano t; s3 = ucast x; x = drop_bit 8 x; s2 = ucast x; x = drop_bit 8 x;
          s1 = ucast x; x = drop_bit 8 x; s0 = ucast x
      in tai_pack (taia_sec t) @ [s0, s1, s2, s3, s4, s5, s6, s7])"

definition taia_unpack :: "byte list \<Rightarrow> taia option" where
  "taia_unpack s0 =
     do { sec \<leftarrow> tai_unpack s0;
          let s = drop 8 s0;
          a \<leftarrow> rd s 4; let x = (ucast a :: uint32);
          a \<leftarrow> rd s 5; let x = push_bit 8 x + ucast a;
          a \<leftarrow> rd s 6; let x = push_bit 8 x + ucast a;
          a \<leftarrow> rd s 7; let x = push_bit 8 x + ucast a;
          let atto = x;
          a \<leftarrow> rd s 0; let x = (ucast a :: uint32);
          a \<leftarrow> rd s 1; let x = push_bit 8 x + ucast a;
          a \<leftarrow> rd s 2; let x = push_bit 8 x + ucast a;
          a \<leftarrow> rd s 3; let x = push_bit 8 x + ucast a;
          Some \<lparr>taia_sec = sec, taia_nano = x, taia_atto = atto\<rparr> }"

subsection \<open>The number a label stands for\<close>

definition taia_wf :: "taia \<Rightarrow> bool" where
  "taia_wf t \<longleftrightarrow> unat (taia_nano t) < 10 ^ 9 \<and> unat (taia_atto t) < 10 ^ 9"

definition taia_val :: "taia \<Rightarrow> nat" where
  "taia_val t = unat (tai_x (taia_sec t)) * 10 ^ 18 + unat (taia_nano t) * 10 ^ 9 + unat (taia_atto t)"

definition taia_range :: nat where
  "taia_range = 2 ^ 64 * 10 ^ 18"

lemma mixed_radix_mod:
  "(r :: nat) < k \<Longrightarrow> (s * k + r) mod (m * k) = (s mod m) * k + r"
proof (cases "k = 0 \<or> m = 0")
  case False
  assume r: "r < k"
  have "s * k + r = (s div m) * (m * k) + ((s mod m) * k + r)"
    by (metis (no_types, lifting) add.assoc add_mult_distrib div_mult_mod_eq mult.assoc)
  moreover have "(s mod m) * k + r < m * k"
  proof -
    have "Suc (s mod m) * k \<le> m * k" using False by (intro mult_le_mono1) (simp add: Suc_leI)
    then show ?thesis using r by simp
  qed
  ultimately show ?thesis by (metis mod_less mod_mult_self3)
qed auto

definition carry_atto :: "taia \<Rightarrow> taia \<Rightarrow> nat" where
  "carry_atto u v = (if unat (taia_atto u) + unat (taia_atto v) \<ge> 10 ^ 9 then 1 else 0)"

definition carry_nano :: "taia \<Rightarrow> taia \<Rightarrow> nat" where
  "carry_nano u v =
     (if unat (taia_nano u) + unat (taia_nano v) + carry_atto u v \<ge> 10 ^ 9 then 1 else 0)"

lemma taia_add_fields:
  assumes "taia_wf u" "taia_wf v"
  shows "unat (taia_atto (taia_add u v)) =
           unat (taia_atto u) + unat (taia_atto v) - carry_atto u v * 10 ^ 9"
    and "unat (taia_nano (taia_add u v)) =
           unat (taia_nano u) + unat (taia_nano v) + carry_atto u v - carry_nano u v * 10 ^ 9"
    and "tai_x (taia_sec (taia_add u v)) =
           tai_x (taia_sec u) + tai_x (taia_sec v) + of_nat (carry_nano u v)"
  using assms
  by (auto simp: taia_wf_def taia_add_def carry_atto_def carry_nano_def Let_def word_less_nat_alt
      unat_add_small unat_sub_small word_le_nat_alt unat_word_ariths)

lemma taia_wf_add: "taia_wf u \<Longrightarrow> taia_wf v \<Longrightarrow> taia_wf (taia_add u v)"
  by (simp add: taia_wf_def taia_add_fields) (auto simp: taia_wf_def carry_atto_def carry_nano_def)

lemma taia_val_add:
  assumes "taia_wf u" "taia_wf v"
  shows "taia_val (taia_add u v) = (taia_val u + taia_val v) mod taia_range"
proof -
  let ?s = "unat (tai_x (taia_sec u)) + unat (tai_x (taia_sec v)) + carry_nano u v"
  let ?n = "unat (taia_nano (taia_add u v))" and ?a = "unat (taia_atto (taia_add u v))"
  have wf: "?n < 10 ^ 9" "?a < 10 ^ 9" using taia_wf_add[OF assms] by (simp_all add: taia_wf_def)
  have sec: "unat (tai_x (taia_sec (taia_add u v))) = ?s mod 2 ^ 64"
    using assms by (simp add: taia_add_fields unat_word_ariths unat_of_nat mod_add_left_eq carry_nano_def)
  have "taia_val u + taia_val v = ?s * 10 ^ 18 + (?n * 10 ^ 9 + ?a)"
    using assms by (simp add: taia_val_def taia_add_fields) (auto simp: carry_atto_def carry_nano_def)
  moreover have "?n * 10 ^ 9 + ?a < 10 ^ 18" using wf by simp
  ultimately have "(taia_val u + taia_val v) mod taia_range = (?s mod 2 ^ 64) * 10 ^ 18 + (?n * 10 ^ 9 + ?a)"
    unfolding taia_range_def by (metis mixed_radix_mod)
  then show ?thesis by (simp add: taia_val_def sec)
qed

definition borrow_atto :: "taia \<Rightarrow> taia \<Rightarrow> nat" where
  "borrow_atto u v = (if unat (taia_atto u) < unat (taia_atto v) then 1 else 0)"

definition borrow_nano :: "taia \<Rightarrow> taia \<Rightarrow> nat" where
  "borrow_nano u v = (if unat (taia_nano u) < unat (taia_nano v) + borrow_atto u v then 1 else 0)"

text \<open>A difference that wraps below zero compares greater than what it was taken from.\<close>

lemma wrapped_iff: "(x :: uint32) < x - y \<longleftrightarrow> x < y"
proof (cases "y \<le> x")
  case True
  then show ?thesis by (auto simp: word_less_nat_alt word_le_nat_alt unat_sub_small)
next
  case False
  have "unat y < 2 ^ 32" using unat_lt_2p[of y] by simp
  with False show ?thesis
    by (auto simp: word_less_nat_alt word_le_nat_alt unat_sub_if_size word_size)
qed

lemma borrow_step:
  fixes x y :: uint32
  assumes "unat x < 10 ^ 9" "unat y \<le> 10 ^ 9"
  shows "unat (if x < x - y then x - y + 1000000000 else x - y) =
         unat x + (if unat x < unat y then 10 ^ 9 else 0) - unat y"
proof (cases "x < y")
  case True
  have e: "x - y + 1000000000 = x + (1000000000 - y)" by simp
  have k: "unat (1000000000 - y) = 10 ^ 9 - unat y"
    using assms unat_sub_small[of y "1000000000 :: uint32"] by simp
  have "unat (x - y + 1000000000) = unat x + (10 ^ 9 - unat y)"
    unfolding e using assms k by (subst unat_add_small) auto
  with True assms show ?thesis unfolding wrapped_iff by (simp add: word_less_nat_alt)
next
  case False
  then show ?thesis unfolding wrapped_iff by (simp add: word_less_nat_alt unat_sub_small)
qed

lemma taia_sub_fields:
  assumes "taia_wf u" "taia_wf v"
  shows "unat (taia_atto (taia_sub u v)) =
           unat (taia_atto u) + borrow_atto u v * 10 ^ 9 - unat (taia_atto v)"
    and "unat (taia_nano (taia_sub u v)) =
           unat (taia_nano u) + borrow_nano u v * 10 ^ 9 - (unat (taia_nano v) + borrow_atto u v)"
    and "tai_x (taia_sec (taia_sub u v)) =
           tai_x (taia_sec u) - tai_x (taia_sec v) - of_nat (borrow_nano u v)"
proof -
  let ?y = "taia_nano v + of_nat (borrow_atto u v)"
  let ?n = "taia_nano u - ?y"
  have y: "unat ?y = unat (taia_nano v) + borrow_atto u v"
    using assms by (simp add: taia_wf_def unat_word_ariths borrow_atto_def)
  have nano: "(if taia_atto u < taia_atto u - taia_atto v then taia_nano u - taia_nano v - 1
               else taia_nano u - taia_nano v) = ?n"
    unfolding wrapped_iff by (simp add: borrow_atto_def word_less_nat_alt algebra_simps)
  have sub: "taia_sub u v =
     \<lparr>taia_sec = \<lparr>tai_x = (if taia_nano u < ?n then tai_x (taia_sec u) - tai_x (taia_sec v) - 1
                           else tai_x (taia_sec u) - tai_x (taia_sec v))\<rparr>,
      taia_nano = (if taia_nano u < ?n then ?n + 1000000000 else ?n),
      taia_atto = (if taia_atto u < taia_atto u - taia_atto v then taia_atto u - taia_atto v + 1000000000
                   else taia_atto u - taia_atto v)\<rparr>"
    unfolding nano[symmetric] by (simp add: taia_sub_def Let_def)
  show "unat (taia_atto (taia_sub u v)) =
           unat (taia_atto u) + borrow_atto u v * 10 ^ 9 - unat (taia_atto v)"
    using assms borrow_step[of "taia_atto u" "taia_atto v"]
    by (simp add: sub taia_wf_def borrow_atto_def)
  show "unat (taia_nano (taia_sub u v)) =
           unat (taia_nano u) + borrow_nano u v * 10 ^ 9 - (unat (taia_nano v) + borrow_atto u v)"
    using assms borrow_step[of "taia_nano u" ?y] y
    by (simp add: sub taia_wf_def borrow_nano_def borrow_atto_def)
  show "tai_x (taia_sec (taia_sub u v)) =
           tai_x (taia_sec u) - tai_x (taia_sec v) - of_nat (borrow_nano u v)"
    using y unfolding sub wrapped_iff by (simp add: word_less_nat_alt borrow_nano_def)
qed

lemma taia_wf_sub: "taia_wf u \<Longrightarrow> taia_wf v \<Longrightarrow> taia_wf (taia_sub u v)"
  by (simp add: taia_wf_def taia_sub_fields) (auto simp: taia_wf_def borrow_atto_def borrow_nano_def)

text \<open>What was subtracted and added again is there, field by field.\<close>

lemma taia_add_sub:
  assumes "taia_wf u" "taia_wf v"
  shows "taia_add (taia_sub u v) v = u"
proof -
  let ?d = "taia_sub u v"
  note wf = taia_wf_sub[OF assms] assms(2)
  have ca: "carry_atto ?d v = borrow_atto u v"
    using assms by (auto simp: carry_atto_def taia_sub_fields borrow_atto_def taia_wf_def)
  have cn: "carry_nano ?d v = borrow_nano u v"
    using assms by (auto simp: carry_nano_def ca taia_sub_fields borrow_nano_def borrow_atto_def taia_wf_def)
  have "unat (taia_atto (taia_add ?d v)) = unat (taia_atto u)"
    unfolding taia_add_fields[OF wf] ca using assms by (auto simp: taia_sub_fields borrow_atto_def taia_wf_def)
  moreover have "unat (taia_nano (taia_add ?d v)) = unat (taia_nano u)"
    unfolding taia_add_fields[OF wf] ca cn using assms
    by (auto simp: taia_sub_fields borrow_nano_def borrow_atto_def taia_wf_def)
  moreover have "tai_x (taia_sec (taia_add ?d v)) = tai_x (taia_sec u)"
    unfolding taia_add_fields[OF wf] cn using assms by (simp add: taia_sub_fields)
  ultimately show ?thesis by (cases u) (auto simp: word_unat_eq_iff intro!: taia.equality tai.equality)
qed

lemma odd_word_and_1: "((x :: 'a::len word) AND 1 \<noteq> 0) \<longleftrightarrow> odd (unat x)"
proof -
  have "x AND 1 = (if bit x 0 then 1 else 0)"
    by (rule bit_word_eqI) (auto simp: bit_simps bit_1_iff simp del: bit_0 intro!: gr0I)
  moreover have "bit x 0 \<longleftrightarrow> odd (unat x)"
    using bit_unsigned_iff[of x 0, where ?'a = nat] by (simp add: bit_0)
  ultimately show ?thesis by simp
qed

lemma taia_half_fields:
  assumes "taia_wf u"
  shows "unat (taia_atto (taia_half u)) =
           unat (taia_atto u) div 2 + (if odd (unat (taia_nano u)) then 500000000 else 0)"
    and "unat (taia_nano (taia_half u)) =
           unat (taia_nano u) div 2 + (if odd (unat (tai_x (taia_sec u))) then 500000000 else 0)"
    and "unat (tai_x (taia_sec (taia_half u))) = unat (tai_x (taia_sec u)) div 2"
  using assms
  by (auto simp: taia_wf_def taia_half_def Let_def odd_word_and_1 unat_add_small unat_div drop_bit_eq_div)

lemma taia_wf_half: "taia_wf u \<Longrightarrow> taia_wf (taia_half u)"
  by (simp add: taia_wf_def taia_half_fields) (auto simp: taia_wf_def)

lemma taia_val_half: "taia_wf u \<Longrightarrow> taia_val (taia_half u) = taia_val u div 2"
  by (auto simp: taia_val_def taia_half_fields elim!: evenE oddE)

lemma taia_less_iff:
  assumes "taia_wf t" "taia_wf u"
  shows "taia_less t u \<longleftrightarrow> taia_val t < taia_val u"
  using assms unfolding taia_less_def taia_val_def taia_wf_def word_less_nat_alt by (auto; linarith)

subsection \<open>Labels as bytes\<close>

lemma shift_in: "push_bit 8 (x :: uint64) + ucast (b :: byte) = push_bit 8 x OR ucast b"
  by (rule disjunctive_add_eq_or, rule bit_word_eqI) (auto simp: bit_simps)

lemma shift_in32: "push_bit 8 (x :: uint32) + ucast (b :: byte) = push_bit 8 x OR ucast b"
  by (rule disjunctive_add_eq_or, rule bit_word_eqI) (auto simp: bit_simps)

lemma tai_pack_uint64: "tai_pack t = uint64_pack_big (tai_x t)"
  by (auto simp: tai_pack_def uint64_pack_big_def uint32_pack_big_def Let_def mask32
      intro!: bit_word_eqI simp: bit_simps)


lemma tai_unpack_uint64: "tai_unpack s = map_option (\<lambda>x. \<lparr>tai_x = x\<rparr>) (uint64_read_big s)"
proof (cases "8 \<le> length s")
  case True
  then have "Suc (Suc (Suc (Suc (Suc (Suc (Suc (Suc 0))))))) \<le> length s" by simp
  then obtain a b c d e f g h r where s: "s = a # b # c # d # e # f # g # h # r"
    unfolding Suc_le_length_iff by blast
  let ?x = "push_bit 8 (push_bit 8 (push_bit 8 (push_bit 8 (push_bit 8 (push_bit 8 (push_bit 8
     (ucast a) OR ucast b) OR ucast c) OR ucast d) OR ucast e) OR ucast f) OR ucast g) OR ucast h :: uint64"
  have "?x = push_bit 32 (ucast (uint32_of_bytes a b c d)) OR ucast (uint32_of_bytes e f g h)"
  proof (rule bit_word_eqI)
    fix n assume "n < LENGTH(64)"
    then consider "n < 8" | "8 \<le> n" "n < 16" | "16 \<le> n" "n < 24" | "24 \<le> n" "n < 32"
      | "32 \<le> n" "n < 40" | "40 \<le> n" "n < 48" | "48 \<le> n" "n < 56" | "56 \<le> n" "n < 64" by fastforce
    then show "bit ?x n = bit (push_bit 32 (ucast (uint32_of_bytes a b c d)) OR
        ucast (uint32_of_bytes e f g h) :: uint64) n"
      by cases (auto simp: uint32_of_bytes_def bit_simps)
  qed
  then show ?thesis
    by (simp add: s tai_unpack_def uint64_read_big_def uint32_read_big_def shift_in del: push_bit_or)
next
  case False
  then have "rd s 7 = None" by (simp add: rd_def)
  then have "tai_unpack s = None" by (simp add: tai_unpack_def bind_eq_None_conv)
  moreover have "uint64_read_big s = None"
    using False u64b.unpack_short[of s] by (simp add: uint64_unpack_big_def)
  ultimately show ?thesis by simp
qed


interpretation tp: packing tai_pack tai_unpack 8
proof
  fix s :: "byte list" and v :: tai and r :: "byte list"
  show "length (tai_pack v) = 8" by (simp add: tai_pack_uint64 u64b.length_pack)
  show "tai_unpack (tai_pack v @ r) = Some v"
    using u64b.unpack_pack[of "tai_x v" r] by (simp add: tai_pack_uint64 tai_unpack_uint64 uint64_unpack_big_def)
  show "length s < 8 \<Longrightarrow> tai_unpack s = None"
    using u64b.unpack_short[of s] by (simp add: tai_unpack_uint64 uint64_unpack_big_def)
  assume "8 \<le> length s"
  then obtain x where "uint64_read_big s = Some x" "uint64_pack_big x = take 8 s"
    using u64b.pack_unpack[of s] by (auto simp: uint64_unpack_big_def)
  then show "\<exists>v. tai_unpack s = Some v \<and> tai_pack v = take 8 s"
    by (simp add: tai_pack_uint64 tai_unpack_uint64)
qed

text \<open>The two fractions are stored as two big endian words after the seconds.\<close>

lemma taia_pack_words:
  "taia_pack t = tai_pack (taia_sec t) @ uint32_pack_big (taia_nano t) @ uint32_pack_big (taia_atto t)"
  by (simp add: taia_pack_def uint32_pack_big_def Let_def)

lemma word_of_shifts:
  "push_bit 8 (push_bit 8 (push_bit 8 (ucast a) OR ucast b) OR ucast c) OR ucast d = uint32_of_bytes a b c d"
proof (rule bit_word_eqI)
  fix n assume "n < LENGTH(32)"
  then consider "n < 8" | "8 \<le> n" "n < 16" | "16 \<le> n" "n < 24" | "24 \<le> n" "n < 32" by fastforce
  then show "bit (push_bit 8 (push_bit 8 (push_bit 8 (ucast a) OR ucast b) OR ucast c) OR ucast d :: uint32) n =
      bit (uint32_of_bytes a b c d) n"
    by cases (auto simp: uint32_of_bytes_def bit_simps)
qed

lemma taia_unpack_words:
  "taia_unpack s =
     do { sec \<leftarrow> tai_unpack s; nano \<leftarrow> uint32_read_big (drop 8 s); atto \<leftarrow> uint32_read_big (drop 12 s);
          Some \<lparr>taia_sec = sec, taia_nano = nano, taia_atto = atto\<rparr> }"
proof (cases "16 \<le> length s")
  case True
  then have "Suc (Suc (Suc (Suc (Suc (Suc (Suc (Suc 0))))))) \<le> length (drop 8 s)" by simp
  then obtain a b c d e f g h r where s: "drop 8 s = a # b # c # d # e # f # g # h # r"
    unfolding Suc_le_length_iff by blast
  then have "drop 12 s = e # f # g # h # r" using drop_drop[of 4 8 s] by simp
  with s show ?thesis
    by (simp add: taia_unpack_def uint32_read_big_def shift_in32 word_of_shifts del: push_bit_or)
next
  case False
  then have "rd (drop 8 s) 7 = None" "rd (drop 12 s) 3 = None" by (simp_all add: rd_def)
  then show ?thesis by (auto simp: taia_unpack_def uint32_read_big_def bind_eq_None_conv split: bind_splits)
qed

interpretation tap: packing taia_pack taia_unpack 16
proof
  fix s :: "byte list" and v :: taia and r :: "byte list"
  show "length (taia_pack v) = 16" by (simp add: taia_pack_words tp.length_pack u32b.length_pack)
  show "taia_unpack (taia_pack v @ r) = Some v"
    by (simp add: taia_pack_words taia_unpack_words tp.unpack_pack tp.length_pack u32b.length_pack
        u32b.unpack_pack[unfolded uint32_unpack_read])
  show "length s < 16 \<Longrightarrow> taia_unpack s = None"
    using u32b.unpack_short[of "drop 12 s"] by (auto simp: taia_unpack_words uint32_unpack_read bind_eq_None_conv)
  assume "16 \<le> length s"
  then have "8 \<le> length s" "4 \<le> length (drop 8 s)" "4 \<le> length (drop 12 s)" by simp_all
  then obtain sec nano atto where
    "tai_unpack s = Some sec" "tai_pack sec = take 8 s"
    "uint32_read_big (drop 8 s) = Some nano" "uint32_pack_big nano = take 4 (drop 8 s)"
    "uint32_read_big (drop 12 s) = Some atto" "uint32_pack_big atto = take 4 (drop 12 s)"
    using tp.pack_unpack[of s] u32b.pack_unpack[of "drop 8 s"] u32b.pack_unpack[of "drop 12 s"]
    unfolding uint32_unpack_read by blast
  moreover have "take 16 s = take 8 s @ take 4 (drop 8 s) @ take 4 (drop 12 s)"
    using take_add[of 8 8 s] take_add[of 4 4 "drop 8 s"] drop_drop[of 4 8 s] by simp
  ultimately show "\<exists>v. taia_unpack s = Some v \<and> taia_pack v = take 16 s"
    by (simp add: taia_unpack_words taia_pack_words)
qed

subsection \<open>Properties\<close>

text \<open>
  \<open>taia_add\<close> adds time stamps: with fields in range the result has its fields in range and
  stands for the sum of the attoseconds, modulo the \<open>2^64\<close> seconds a label can hold.
\<close>

theorem taia_add_exact:
  assumes "taia_wf u" "taia_wf v"
  shows "taia_wf (taia_add u v) \<and> taia_val (taia_add u v) = (taia_val u + taia_val v) mod taia_range"
  using taia_wf_add[OF assms] taia_val_add[OF assms] by blast

theorem taia_add_exact_witness:
  "taia_wf (taia_add \<lparr>taia_sec = \<lparr>tai_x = 5\<rparr>, taia_nano = 999999999, taia_atto = 999999999\<rparr>
                      \<lparr>taia_sec = \<lparr>tai_x = 1\<rparr>, taia_nano = 0, taia_atto = 1\<rparr>)"
  using taia_add_exact[of "\<lparr>taia_sec = \<lparr>tai_x = 5\<rparr>, taia_nano = 999999999, taia_atto = 999999999\<rparr>"
      "\<lparr>taia_sec = \<lparr>tai_x = 1\<rparr>, taia_nano = 0, taia_atto = 1\<rparr>"]
  by (simp add: taia_wf_def word_less_nat_alt)

text \<open>
  \<open>taia_sub\<close> undoes \<open>taia_add\<close>, borrows across the fields included: adding what was
  subtracted gives the time stamp back, field by field.
\<close>

theorem taia_sub_then_add:
  assumes "taia_wf u" "taia_wf v"
  shows "taia_wf (taia_sub u v) \<and> taia_add (taia_sub u v) v = u"
  using taia_wf_sub[OF assms] taia_add_sub[OF assms] by blast

theorem taia_sub_then_add_witness:
  "taia_add (taia_sub \<lparr>taia_sec = \<lparr>tai_x = 5\<rparr>, taia_nano = 0, taia_atto = 0\<rparr>
                       \<lparr>taia_sec = \<lparr>tai_x = 1\<rparr>, taia_nano = 0, taia_atto = 1\<rparr>)
     \<lparr>taia_sec = \<lparr>tai_x = 1\<rparr>, taia_nano = 0, taia_atto = 1\<rparr> =
   \<lparr>taia_sec = \<lparr>tai_x = 5\<rparr>, taia_nano = 0, taia_atto = 0\<rparr>"
  using taia_sub_then_add[of "\<lparr>taia_sec = \<lparr>tai_x = 5\<rparr>, taia_nano = 0, taia_atto = 0\<rparr>"
      "\<lparr>taia_sec = \<lparr>tai_x = 1\<rparr>, taia_nano = 0, taia_atto = 1\<rparr>"]
  by (simp add: taia_wf_def word_less_nat_alt)

text \<open>
  \<open>taia_less\<close> compares the times two stamps stand for, and \<open>taia_half\<close> is half of a
  time, rounded down to an attosecond.
\<close>

theorem taia_order_and_half:
  assumes "taia_wf t" "taia_wf u"
  shows "(taia_less t u \<longleftrightarrow> taia_val t < taia_val u) \<and>
         taia_wf (taia_half u) \<and> taia_val (taia_half u) = taia_val u div 2"
  using taia_less_iff[OF assms] taia_wf_half[OF assms(2)] taia_val_half[OF assms(2)] by blast

theorem taia_order_and_half_witness:
  "taia_wf (taia_half \<lparr>taia_sec = \<lparr>tai_x = 3\<rparr>, taia_nano = 1, taia_atto = 1\<rparr>)"
  using taia_order_and_half[of "\<lparr>taia_sec = \<lparr>tai_x = 1\<rparr>, taia_nano = 0, taia_atto = 1\<rparr>"
      "\<lparr>taia_sec = \<lparr>tai_x = 3\<rparr>, taia_nano = 1, taia_atto = 1\<rparr>"]
  by (simp add: taia_wf_def word_less_nat_alt)

end
