(* ===== verification/Ranges.thy ===== *)
theory Ranges
  imports Times
begin

text \<open>
  Overflow-checked multiplication (\<open>src/lib/safemult\<close>, the portable bodies) and the buffer range
  checks built on it (\<open>src/lib/rangecheck.h\<close> and \<open>src/lib/safemult/range_*.c\<close>).
  A routine that reports an overflow by returning 0 and leaves its destination alone returns
  \<open>None\<close>; addresses and sizes are \<open>64 word\<close>, so that their sums wrap as in C.
\<close>

subsection \<open>Multiplication\<close>

definition umult16 :: "uint16 \<Rightarrow> uint16 \<Rightarrow> uint16 option" where
  "umult16 a b =
     (let x = (ucast a :: uint64) * ucast b in if x > 0xffff then None else Some (ucast (x AND 0xffff)))"

definition umult32 :: "uint32 \<Rightarrow> uint32 \<Rightarrow> uint32 option" where
  "umult32 a b =
     (let x = (ucast a :: uint64) * ucast b
      in if x > 0xffffffff then None else Some (ucast (x AND 0xffffffff)))"

definition umult64 :: "uint64 \<Rightarrow> uint64 \<Rightarrow> uint64 option" where
  "umult64 a b =
     (let ahi = ucast (drop_bit 32 a) :: uint32; alo = ucast (a AND 0xffffffff) :: uint32;
          bhi = ucast (drop_bit 32 b) :: uint32; blo = ucast (b AND 0xffffffff) :: uint32
      in if ahi \<noteq> 0 \<and> bhi \<noteq> 0 then None
         else let a = (ucast ahi :: uint64) * ucast blo + ucast alo * ucast bhi
              in if a > 0xffffffff then None
                 else let x = (ucast alo :: uint64) * ucast blo
                      in if x + push_bit 32 a < x then None else Some (x + push_bit 32 a))"

definition imult16 :: "16 word \<Rightarrow> 16 word \<Rightarrow> 16 word option" where
  "imult16 a b =
     (let x = (scast a :: 32 word) * scast b
      in if scast (ucast x :: 16 word) \<noteq> x then None else Some (ucast x))"

definition imult32 :: "32 word \<Rightarrow> 32 word \<Rightarrow> 32 word option" where
  "imult32 a b =
     (let x = (scast a :: 64 word) * scast b
      in if scast (ucast x :: 32 word) \<noteq> x then None else Some (ucast x))"

subsection \<open>Ranges\<close>

definition range_ptrinbuf :: "uint64 \<Rightarrow> uint64 \<Rightarrow> uint64 \<Rightarrow> bool" where
  "range_ptrinbuf buf len ptr \<longleftrightarrow> buf \<noteq> 0 \<and> buf + len > buf \<and> ptr - buf < len"

definition range_ptrinbuf2 :: "uint64 \<Rightarrow> uint64 \<Rightarrow> uint64 \<Rightarrow> bool" where
  "range_ptrinbuf2 lo hi ptr \<longleftrightarrow> lo \<noteq> 0 \<and> ptr \<ge> lo \<and> ptr < hi"

definition range_validbuf :: "uint64 \<Rightarrow> uint64 \<Rightarrow> bool" where
  "range_validbuf buf len \<longleftrightarrow> buf \<noteq> 0 \<and> buf + len \<ge> buf"

definition range_validbuf2 :: "uint64 \<Rightarrow> uint64 \<Rightarrow> bool" where
  "range_validbuf2 lo hi \<longleftrightarrow> lo \<noteq> 0 \<and> hi \<ge> lo"

definition range_bufinbuf :: "uint64 \<Rightarrow> uint64 \<Rightarrow> uint64 \<Rightarrow> uint64 \<Rightarrow> bool" where
  "range_bufinbuf buf1 len1 buf2 len2 \<longleftrightarrow>
     range_validbuf buf1 len1 \<and> range_validbuf buf2 len2 \<and> buf1 \<le> buf2 \<and> buf1 + len1 \<ge> buf2 + len2"

definition range_arrayinbuf :: "uint64 \<Rightarrow> uint64 \<Rightarrow> uint64 \<Rightarrow> uint64 \<Rightarrow> uint64 \<Rightarrow> bool" where
  "range_arrayinbuf buf1 len arraystart elements membersize =
     (case umult64 elements membersize of
        None \<Rightarrow> False
      | Some alen \<Rightarrow> range_bufinbuf buf1 len arraystart alen)"

function strinbuf_loop :: "(uint64 \<Rightarrow> byte) \<Rightarrow> uint64 \<Rightarrow> uint64 \<Rightarrow> uint64" where
  "strinbuf_loop mem x y = (if x < y \<and> mem x \<noteq> 0 then strinbuf_loop mem (x + 1) y else x)"
  by pat_completeness auto
termination
proof (relation "measure (\<lambda>(mem, x, y). unat y - unat x)")
  fix mem :: "uint64 \<Rightarrow> byte" and x y :: uint64
  assume "x < y \<and> mem x \<noteq> 0"
  then have lt: "unat x < unat y" by (simp add: word_less_nat_alt)
  then have "unat (x + 1) = unat x + 1"
    using unat_lt_2p[of y] by (simp add: unat_add_small)
  with lt show "((mem, x + 1, y), mem, x, y) \<in> measure (\<lambda>(mem, x, y). unat y - unat x)" by simp
qed simp

declare strinbuf_loop.simps [simp del]

definition range_strinbuf :: "(uint64 \<Rightarrow> byte) \<Rightarrow> uint64 \<Rightarrow> uint64 \<Rightarrow> uint64 \<Rightarrow> bool" where
  "range_strinbuf mem buf len stringstart =
     (if \<not> range_ptrinbuf buf len stringstart then False
      else let x = stringstart; y = x + len; x = strinbuf_loop mem x y in x < y)"

subsection \<open>Multiplication is exact or refused\<close>

lemma mask16: "ucast (x AND 0xffff) = (ucast x :: uint16)" for x :: uint64
proof -
  have m: "(0xffff :: uint64) = mask 16" by (simp add: mask_eq_exp_minus_1)
  show ?thesis unfolding m by (rule bit_word_eqI) (auto simp: bit_simps)
qed

lemma umult16_eq: "umult16 a b = (if unat a * unat b < 2 ^ 16 then Some (a * b) else None)"
proof -
  let ?x = "(ucast a :: uint64) * ucast b"
  have "unat a * unat b \<le> 65535 * 65535"
    using unat_lt_2p[of a] unat_lt_2p[of b] by (intro mult_le_mono) auto
  then have x: "unat ?x = unat a * unat b"
    by (subst unat_mult_small) (simp_all add: unat_ucast_up)
  then have "(ucast ?x :: uint16) = a * b"
    by (simp add: word_unat_eq_iff unat_ucast_mod unat_word_ariths)
  then show ?thesis using x by (auto simp: umult16_def Let_def word_less_nat_alt mask16)
qed

lemma umult32_eq: "umult32 a b = (if unat a * unat b < 2 ^ 32 then Some (a * b) else None)"
proof -
  let ?x = "(ucast a :: uint64) * ucast b"
  have "unat a * unat b \<le> 4294967295 * 4294967295"
    using unat_lt_2p[of a] unat_lt_2p[of b] by (intro mult_le_mono) auto
  then have x: "unat ?x = unat a * unat b"
    by (subst unat_mult_small) (simp_all add: unat_ucast_up)
  then have "(ucast ?x :: uint32) = a * b"
    by (simp add: word_unat_eq_iff unat_ucast_mod unat_word_ariths)
  then show ?thesis using x by (auto simp: umult32_def Let_def word_less_nat_alt mask32)
qed

text \<open>Schoolbook multiplication of two-digit numbers in base \<open>2^32\<close>.\<close>

lemma two_digit_product:
  fixes ah al bh bl :: nat
  defines "B \<equiv> 2 ^ 32"
  assumes "al < B" "bl < B" "ah = 0 \<or> bh = 0"
  shows "(ah * B + al) * (bh * B + bl) = (ah * bl + al * bh) * B + al * bl"
  using assms(4) by (auto simp: algebra_simps)

lemma shifted_sum:
  fixes A X :: uint64
  assumes "unat A < 2 ^ 32"
  shows "unat (X + push_bit 32 A) = (unat X + unat A * 2 ^ 32) mod 2 ^ 64"
    and "X + push_bit 32 A < X \<longleftrightarrow> 2 ^ 64 \<le> unat X + unat A * 2 ^ 32"
proof -
  have sh: "unat (push_bit 32 A) = unat A * 2 ^ 32"
    using assms by (simp add: push_bit_eq_mult unat_word_ariths)
  then show "unat (X + push_bit 32 A) = (unat X + unat A * 2 ^ 32) mod 2 ^ 64"
    by (simp add: unat_word_ariths)
  show "X + push_bit 32 A < X \<longleftrightarrow> 2 ^ 64 \<le> unat X + unat A * 2 ^ 32"
    using sh unat_lt_2p[of X] unat_lt_2p[of "push_bit 32 A"] by (auto simp: word_less_nat_alt unat_plus_if')
qed

lemma umult64_eq: "umult64 a b = (if unat a * unat b < 2 ^ 64 then Some (a * b) else None)"
proof -
  define ah where "ah = unat a div 2 ^ 32"
  define al where "al = unat a mod 2 ^ 32"
  define bh where "bh = unat b div 2 ^ 32"
  define bl where "bl = unat b mod 2 ^ 32"
  have a: "unat a = ah * 2 ^ 32 + al" and b: "unat b = bh * 2 ^ 32 + bl"
    by (simp_all only: ah_def al_def bh_def bl_def div_mult_mod_eq)
  have lt: "al < 2 ^ 32" "bl < 2 ^ 32" "ah < 2 ^ 32" "bh < 2 ^ 32"
    using unat_lt_2p[of a] unat_lt_2p[of b] by (auto simp: ah_def al_def bh_def bl_def)
  have ahi: "unat (ucast (drop_bit 32 a) :: uint32) = ah" "unat (ucast (drop_bit 32 b) :: uint32) = bh"
    using lt by (simp_all add: unat_ucast_mod unat_div drop_bit_eq_div ah_def bh_def)
  have alo: "unat (ucast a :: uint32) = al" "unat (ucast b :: uint32) = bl"
    by (simp_all add: unat_ucast_mod al_def bl_def)
  show ?thesis
  proof (cases "ah \<noteq> 0 \<and> bh \<noteq> 0")
    case True
    then have "2 ^ 32 * 2 ^ 32 \<le> unat a * unat b" unfolding a b by (intro mult_le_mono) auto
    then show ?thesis using True ahi by (simp add: umult64_def Let_def unat_eq_zero[symmetric] word_unat_eq_iff)
  next
    case False
    let ?m = "ah * bl + al * bh" and ?x = "al * bl"
    let ?A = "(ucast (ucast (drop_bit 32 a) :: uint32) :: uint64) * ucast (ucast b :: uint32) +
              ucast (ucast a :: uint32) * ucast (ucast (drop_bit 32 b) :: uint32)"
    let ?X = "(ucast (ucast a :: uint32) :: uint64) * ucast (ucast b :: uint32)"
    have prod: "unat a * unat b = ?m * 2 ^ 32 + ?x"
      unfolding a b using False lt by (intro two_digit_product) auto
    have "?x \<le> (2 ^ 32 - 1) * (2 ^ 32 - 1)" "ah * bl \<le> (2 ^ 32 - 1) * (2 ^ 32 - 1)"
      "al * bh \<le> (2 ^ 32 - 1) * (2 ^ 32 - 1)" using lt by (intro mult_le_mono; simp)+
    then have X: "unat ?X = ?x" and A: "unat ?A = ?m"
      using False ahi alo by (auto simp: unat_word_ariths unat_ucast_up)
    have ov: "?X + push_bit 32 ?A < ?X \<longleftrightarrow> 2 ^ 64 \<le> unat a * unat b" if "?m < 2 ^ 32"
      using that A X prod shifted_sum(2)[of ?A ?X] by (simp add: add.commute)
    have "?X + push_bit 32 ?A = a * b" if "?m < 2 ^ 32"
    proof -
      have "unat (?X + push_bit 32 ?A) = (unat a * unat b) mod 2 ^ 64"
        using that A X prod shifted_sum(1)[of ?A ?X] by (simp add: add.commute)
      then show ?thesis by (simp add: word_unat_eq_iff unat_word_ariths(2))
    qed
    moreover have "2 ^ 64 \<le> unat a * unat b" if "\<not> ?m < 2 ^ 32" using that prod by simp
    ultimately show ?thesis
      using False A ov ahi by (auto simp: umult64_def Let_def word_less_nat_alt mask32 unat_eq_0[symmetric])
  qed
qed

lemma narrow_iff:
  fixes x :: "'b::len word"
  assumes "LENGTH('a) < LENGTH('b)"
  shows "scast (ucast x :: 'a::len word) = x \<longleftrightarrow>
    - (2 ^ (LENGTH('a) - 1)) \<le> sint x \<and> sint x < 2 ^ (LENGTH('a) - 1)"
proof -
  have s: "sint (scast (ucast x :: 'a word) :: 'b word) = signed_take_bit (LENGTH('a) - 1) (sint x)"
    using assms by (intro bit_eqI) (auto simp: bit_simps min_def)
  have "scast (ucast x :: 'a word) = x \<longleftrightarrow> signed_take_bit (LENGTH('a) - 1) (sint x) = sint x"
    unfolding s[symmetric] by (auto intro: signed_word_eqI)
  then show ?thesis by (simp add: signed_take_bit_int_eq_self_iff)
qed

lemma sint_wide_product:
  fixes a b :: "'a::len word"
  assumes "2 * LENGTH('a) \<le> LENGTH('b)"
  shows "sint ((scast a :: 'b::len word) * scast b) = sint a * sint b"
proof -
  let ?k = "LENGTH('a) - 1"
  have ra: "\<bar>sint a\<bar> \<le> 2 ^ ?k" "\<bar>sint b\<bar> \<le> 2 ^ ?k"
    using sint_ge[of a] sint_lt[of a] sint_ge[of b] sint_lt[of b] by auto
  have "\<bar>sint a * sint b\<bar> \<le> 2 ^ ?k * 2 ^ ?k" unfolding abs_mult using ra by (intro mult_mono) auto
  also have "(2::int) ^ ?k * 2 ^ ?k < 2 ^ (LENGTH('b) - 1)"
  proof -
    have "0 < LENGTH('a)" by simp
    then have "?k + ?k < LENGTH('b) - 1" using assms by linarith
    then show ?thesis unfolding power_add[symmetric] by (rule power_strict_increasing) simp
  qed
  finally have r: "- (2 ^ (LENGTH('b) - 1)) \<le> sint a * sint b" "sint a * sint b < 2 ^ (LENGTH('b) - 1)"
    by (auto simp: abs_less_iff)
  have "(scast a :: 'b word) * scast b = word_of_int (sint a * sint b)" by (simp only: scast_eq of_int_mult)
  then show ?thesis using r by (simp only: signed_of_int of_int_eq_id id_apply One_nat_def signed_take_bit_int_eq_self)
qed

lemma of_int_take_bit_low:
  assumes "LENGTH('a) \<le> n"
  shows "(word_of_int (take_bit n i) :: 'a::len word) = word_of_int i"
  using assms by transfer simp

lemma ucast_wide_product: 
  fixes a b :: "'a::len word"
  assumes "LENGTH('a) \<le> LENGTH('b)"
  shows "ucast ((scast a :: 'b::len word) * scast b) = a * b"
proof -
  have "(scast a :: 'b word) * scast b = word_of_int (sint a * sint b)" by (simp only: scast_eq of_int_mult)
  then have "ucast ((scast a :: 'b word) * scast b) = (word_of_int (sint a * sint b) :: 'a word)"
    using assms by (simp only: unsigned_of_int of_nat_nat take_bit_nonnegative of_int_take_bit_low)
  then show ?thesis by (simp only: of_int_mult of_int_sint scast_id)
qed

lemma imult16_eq:
  "imult16 a b = (if - (2 ^ 15) \<le> sint a * sint b \<and> sint a * sint b < 2 ^ 15 then Some (a * b) else None)"
  using narrow_iff[where ?'a = 16 and ?'b = 32, of "scast a * scast b"]
    sint_wide_product[where ?'b = 32, of a b] ucast_wide_product[where ?'b = 32, of a b]
  by (simp add: imult16_def Let_def)

lemma imult32_eq:
  "imult32 a b = (if - (2 ^ 31) \<le> sint a * sint b \<and> sint a * sint b < 2 ^ 31 then Some (a * b) else None)"
  using narrow_iff[where ?'a = 32 and ?'b = 64, of "scast a * scast b"]
    sint_wide_product[where ?'b = 64, of a b] ucast_wide_product[where ?'b = 64, of a b]
  by (simp add: imult32_def Let_def)

subsection \<open>What the range checks decide\<close>

lemma no_wrap_iff: "(x :: uint64) \<le> x + y \<longleftrightarrow> unat x + unat y < 2 ^ 64"
  using unat_lt_2p[of x] unat_lt_2p[of y] by (auto simp: word_le_nat_alt unat_plus_if')

lemma no_wrap_strict_iff: "(x :: uint64) < x + y \<longleftrightarrow> 0 < unat y \<and> unat x + unat y < 2 ^ 64"
  using unat_lt_2p[of x] unat_lt_2p[of y] by (auto simp: word_less_nat_alt unat_plus_if')

lemma range_ptrinbuf_iff:
  "range_ptrinbuf buf len p \<longleftrightarrow>
     buf \<noteq> 0 \<and> unat buf + unat len < 2 ^ 64 \<and> unat buf \<le> unat p \<and> unat p < unat buf + unat len"
  using unat_lt_2p[of p] unat_lt_2p[of buf]
  unfolding range_ptrinbuf_def no_wrap_strict_iff by (auto simp: word_less_nat_alt unat_sub_if_size word_size)

lemma range_bufinbuf_iff:
  "range_bufinbuf b1 l1 b2 l2 \<longleftrightarrow>
     b1 \<noteq> 0 \<and> b2 \<noteq> 0 \<and> unat b1 + unat l1 < 2 ^ 64 \<and> unat b2 + unat l2 < 2 ^ 64 \<and>
     unat b1 \<le> unat b2 \<and> unat b2 + unat l2 \<le> unat b1 + unat l1"
  unfolding range_bufinbuf_def range_validbuf_def no_wrap_iff by (auto simp: word_le_nat_alt unat_add_small)

lemma range_arrayinbuf_iff:
  "range_arrayinbuf b l a n k \<longleftrightarrow>
     b \<noteq> 0 \<and> a \<noteq> 0 \<and> unat b + unat l < 2 ^ 64 \<and>
     unat b \<le> unat a \<and> unat a + unat n * unat k \<le> unat b + unat l"
proof (cases "unat n * unat k < 2 ^ 64")
  case True
  then show ?thesis
    by (auto simp: range_arrayinbuf_def umult64_eq range_bufinbuf_iff unat_mult_small)
next
  case False
  then show ?thesis by (auto simp: range_arrayinbuf_def umult64_eq)
qed


text \<open>
  The string checks take the end of the search from the string, not from the buffer: they may accept
  a string that ends behind the buffer.
\<close>

lemma strinbuf_loop_stops:
  assumes "\<And>j. j < k \<Longrightarrow> mem (x + of_nat j) \<noteq> 0" "mem (x + of_nat k) = 0" "unat x + k < 2 ^ 64"
  shows "strinbuf_loop mem x y = (if unat x + k < unat y then x + of_nat k else if x < y then y else x)"
  using assms
proof (induction k arbitrary: x)
  case 0
  then show ?case by (subst strinbuf_loop.simps) (auto simp: word_less_nat_alt)
next
  case (Suc k)
  have one: "unat (x + 1) = unat x + 1" using Suc.prems(3) by (simp add: unat_add_small)
  have IH: "strinbuf_loop mem (x + 1) y =
      (if unat (x + 1) + k < unat y then x + 1 + of_nat k else if x + 1 < y then y else x + 1)"
  proof (rule Suc.IH)
    show "mem (x + 1 + of_nat j) \<noteq> 0" if "j < k" for j
      using Suc.prems(1)[of "Suc j"] that by (simp add: algebra_simps)
    show "mem (x + 1 + of_nat k) = 0" using Suc.prems(2) by (simp add: algebra_simps)
    show "unat (x + 1) + k < 2 ^ 64" using Suc.prems(3) one by simp
  qed
  have "mem x \<noteq> 0" using Suc.prems(1)[of 0] by simp
  then show ?case
    using IH one by (subst strinbuf_loop.simps) (auto simp: word_less_nat_alt algebra_simps word_unat_eq_iff)
qed

lemma range_strinbuf_iff:
  assumes "\<And>j. j < k \<Longrightarrow> mem (s + of_nat j) \<noteq> 0" "mem (s + of_nat k) = 0" "unat s + k < 2 ^ 64"
  shows "range_strinbuf mem buf len s \<longleftrightarrow>
     range_ptrinbuf buf len s \<and> unat s + unat len < 2 ^ 64 \<and> k < unat len"
proof (cases "unat s + unat len < 2 ^ 64")
  case True
  then have y: "unat (s + len) = unat s + unat len" by (simp add: unat_add_small)
  have k: "unat (s + of_nat k) = unat s + k" using assms(3) by (simp add: unat_word_ariths unat_of_nat)
  show ?thesis
    using strinbuf_loop_stops[where mem = mem and x = s and k = k and y = "s + len", OF assms] True y k
    by (auto simp: range_strinbuf_def Let_def word_less_nat_alt)
next
  case False
  then have "\<not> s \<le> s + len" by (simp add: no_wrap_iff)
  then have "\<not> s < s + len" "strinbuf_loop mem s (s + len) = s"
    by (auto simp: strinbuf_loop.simps[of mem s])
  with False show ?thesis by (auto simp: range_strinbuf_def Let_def)
qed

subsection \<open>Properties\<close>

text \<open>
  C22. \<open>umult64\<close> multiplies with 32-bit halves: it returns the product when the product fits into
  64 bits and refuses in every other case, so that no caller computes with a wrapped size.
\<close>

theorem umult64_exact: "umult64 a b = (if unat a * unat b < 2 ^ 64 then Some (a * b) else None)"
  by (rule umult64_eq)

text \<open>
  \<open>range_arrayinbuf\<close> accepts an array exactly when all of it lies inside the buffer, without
  any sum or product wrapping around: there is no count and member size with which it is fooled.
\<close>

theorem range_arrayinbuf_exact:
  "range_arrayinbuf b l a n k \<longleftrightarrow>
     b \<noteq> 0 \<and> a \<noteq> 0 \<and> unat b + unat l < 2 ^ 64 \<and>
     unat b \<le> unat a \<and> unat a + unat n * unat k \<le> unat b + unat l"
  by (rule range_arrayinbuf_iff)

text \<open>
  \<open>range_strinbuf\<close> searches for the terminator in as many bytes from the string's start as
  the whole buffer is long. Its answer therefore only says that the string starts inside the buffer
  and is shorter than it: the terminator may lie behind the buffer's end.
\<close>

theorem range_strinbuf_from_string:
  assumes "\<forall>j < k. mem (s + of_nat j) \<noteq> 0" "mem (s + of_nat k) = 0" "unat s + k < 2 ^ 64"
  shows "range_strinbuf mem buf len s \<longleftrightarrow>
     range_ptrinbuf buf len s \<and> unat s + unat len < 2 ^ 64 \<and> k < unat len"
  using assms by (intro range_strinbuf_iff) simp_all

theorem range_strinbuf_from_string_witness:
  "range_strinbuf (\<lambda>p. if p = 20 then 0 else 1) 10 8 17"
proof -
  have "range_strinbuf (\<lambda>p. if p = 20 then 0 else 1) 10 8 17 \<longleftrightarrow>
      range_ptrinbuf 10 8 17 \<and> unat (17 :: uint64) + unat (8 :: uint64) < 2 ^ 64 \<and> 3 < unat (8 :: uint64)"
  proof (rule range_strinbuf_from_string)
    show "\<forall>j < 3. (if (17 :: uint64) + of_nat j = 20 then 0 else 1) \<noteq> (0 :: byte)"
      by (simp add: numeral_3_eq_3 less_Suc_eq)
  qed simp_all
  then show ?thesis by (simp add: range_ptrinbuf_def)
qed

end
