(* ===== verification/Numerals.thy ===== *)
theory Numerals
  imports Ranges
begin

text \<open>
  Positional numerals, the reference that the number formatters and scanners are compared with:
  the digits of a number without a leading zero, the value of a digit string, and two interfaces.
  \<open>numeral_base\<close> is what a digit alphabet promises; \<open>digit_scanner\<close> is what one step of a
  scanning loop promises: it accepts a digit exactly when the value so far still fits.
\<close>

subsection \<open>The digits of a number\<close>

function digs :: "nat \<Rightarrow> nat \<Rightarrow> nat list" where
  "digs b n = (if n < b \<or> b < 2 then [n] else digs b (n div b) @ [n mod b])"
  by pat_completeness auto
termination by (relation "measure snd") auto

declare digs.simps [simp del]

definition digs_val :: "nat \<Rightarrow> nat list \<Rightarrow> nat" where
  "digs_val b ds = foldl (\<lambda>a d. b * a + d) 0 ds"

lemma digs_small: "n < b \<Longrightarrow> digs b n = [n]"
  by (simp add: digs.simps)

lemma digs_step: "2 \<le> b \<Longrightarrow> b \<le> n \<Longrightarrow> digs b n = digs b (n div b) @ [n mod b]"
  by (subst digs.simps) simp

lemma digs_val_snoc [simp]: "digs_val b (ds @ [d]) = b * digs_val b ds + d"
  by (simp add: digs_val_def)

lemma digs_val_Nil [simp]: "digs_val b [] = 0"
  by (simp add: digs_val_def)

lemma digs_val_fold: "foldl (\<lambda>a d. b * a + d) v ds = v * b ^ length ds + digs_val b ds"
proof (induction ds rule: rev_induct)
  case (snoc d ds)
  then show ?case by (simp add: digs_val_def algebra_simps)
qed simp

lemma digs_val_Cons: "digs_val b (d # ds) = d * b ^ length ds + digs_val b ds"
  using digs_val_fold[of b d ds] by (simp add: digs_val_def)

lemma digs_val_digs: "2 \<le> b \<Longrightarrow> digs_val b (digs b n) = n"
proof (induction b n rule: digs.induct)
  case (1 b n)
  then show ?case
    using digs_val_snoc[of b "[]" n] by (cases "n < b") (simp_all add: digs_small digs_step)
qed

lemma digs_lt: "2 \<le> b \<Longrightarrow> d \<in> set (digs b n) \<Longrightarrow> d < b"
proof (induction b n rule: digs.induct)
  case (1 b n)
  then show ?case by (cases "n < b") (auto simp: digs_small digs_step)
qed

lemma digs_ne [simp]: "digs b n \<noteq> []"
  by (subst digs.simps) simp

lemma hd_digs: "2 \<le> b \<Longrightarrow> 0 < n \<Longrightarrow> hd (digs b n) \<noteq> 0"
proof (induction b n rule: digs.induct)
  case (1 b n)
  show ?case
  proof (cases "n < b")
    case True
    then show ?thesis using 1 by (simp add: digs_small)
  next
    case False
    then have "0 < n div b" using 1(2) by (simp add: div_greater_zero_iff)
    then show ?thesis using 1 False by (simp add: digs_step)
  qed
qed

lemma digs_val_lt: "\<forall>d \<in> set ds. d < b \<Longrightarrow> digs_val b ds < b ^ length ds"
proof (induction ds rule: rev_induct)
  case (snoc d ds)
  then have "digs_val b ds + 1 \<le> b ^ length ds" "d < b" by auto
  then have "b * (digs_val b ds + 1) \<le> b * b ^ length ds" by (intro mult_le_mono2) simp
  then show ?case using \<open>d < b\<close> by simp
qed simp

lemma length_digs_le: "2 \<le> b \<Longrightarrow> n < b ^ k \<Longrightarrow> 0 < k \<Longrightarrow> length (digs b n) \<le> k"
proof (induction b n arbitrary: k rule: digs.induct)
  case (1 b n)
  show ?case
  proof (cases "n < b")
    case False
    then have "k \<noteq> 1" using 1(3) by (intro notI) simp
    with 1(4) obtain j where k: "k = Suc (Suc j)" by (metis One_nat_def Suc_pred neq0_conv)
    then have "n div b < b ^ Suc j" using 1(2,3) by (simp add: less_mult_imp_div_less mult.commute)
    then show ?thesis using 1(1)[of "Suc j"] 1(2) False k by (simp add: digs_step)
  qed (use 1(4) in \<open>simp add: digs_small Suc_leI\<close>)
qed

subsection \<open>Digit strings\<close>

definition all_digits :: "(byte \<Rightarrow> nat option) \<Rightarrow> byte list \<Rightarrow> bool" where
  "all_digits dig w \<longleftrightarrow> list_all (\<lambda>c. dig c \<noteq> None) w"

definition str_val :: "nat \<Rightarrow> (byte \<Rightarrow> nat option) \<Rightarrow> byte list \<Rightarrow> nat" where
  "str_val b dig w = digs_val b (map (\<lambda>c. the (dig c)) w)"

lemma all_digits_Nil [simp]: "all_digits dig []"
  and all_digits_Cons [simp]: "all_digits dig (c # w) \<longleftrightarrow> dig c \<noteq> None \<and> all_digits dig w"
  and all_digits_append [simp]: "all_digits dig (v @ w) \<longleftrightarrow> all_digits dig v \<and> all_digits dig w"
  by (simp_all add: all_digits_def)

lemma str_val_Nil [simp]: "str_val b dig [] = 0"
  and str_val_snoc [simp]: "str_val b dig (w @ [c]) = b * str_val b dig w + the (dig c)"
  by (simp_all add: str_val_def)

lemma str_val_prefix_le: "1 \<le> b \<Longrightarrow> str_val b dig v \<le> str_val b dig (v @ w)"
proof (induction w rule: rev_induct)
  case (snoc c w)
  have "1 * str_val b dig (v @ w) \<le> b * str_val b dig (v @ w)" using snoc.prems by (rule mult_le_mono1)
  then show ?case using snoc.IH[OF snoc.prems] str_val_snoc[of b dig "v @ w" c]
    by (simp only: append_assoc mult_1)
qed simp

locale numeral_base =
  fixes b :: nat and chr :: "nat \<Rightarrow> byte" and dig :: "byte \<Rightarrow> nat option"
  assumes base_ge_2: "2 \<le> b"
    and dig_chr: "d < b \<Longrightarrow> dig (chr d) = Some d"
    and dig_lt: "dig c = Some d \<Longrightarrow> d < b"
begin

definition render :: "nat \<Rightarrow> byte list" where
  "render n = map chr (digs b n)"

lemma all_digits_render: "all_digits dig (render n)"
  using digs_lt[OF base_ge_2] by (fastforce simp: all_digits_def render_def list_all_iff dig_chr)

lemma str_val_render: "str_val b dig (render n) = n"
proof -
  have "map (\<lambda>c. the (dig c)) (render n) = map (\<lambda>d. d) (digs b n)"
    unfolding render_def map_map
  proof (rule map_cong[OF refl])
    show "((\<lambda>c. the (dig c)) \<circ> chr) d = d" if "d \<in> set (digs b n)" for d
      using dig_chr[of d] digs_lt[OF base_ge_2 that] by simp
  qed
  then show ?thesis by (simp add: str_val_def digs_val_digs[OF base_ge_2])
qed

lemma render_inj: "render m = render n \<longleftrightarrow> m = n"
  by (metis str_val_render)

lemma length_render_le: "n < b ^ k \<Longrightarrow> 0 < k \<Longrightarrow> length (render n) \<le> k"
  by (simp add: render_def length_digs_le[OF base_ge_2])

lemma render_ne: "render n \<noteq> []"
  by (simp add: render_def)

end

subsection \<open>Scanning loops\<close>

text \<open>
  The loop every number scanner runs: read the byte at the cursor, stop when it is not a digit or the
  value would not fit, otherwise fold it into the value and advance. \<open>scan_loopn\<close> is the variant
  with a limit on the number of bytes read.
\<close>

fun scan_loop :: "('l \<Rightarrow> byte \<Rightarrow> 'l option) \<Rightarrow> byte list \<Rightarrow> nat \<Rightarrow> 'l \<Rightarrow> (nat \<times> 'l) option" where
  "scan_loop step [] i l = None"
| "scan_loop step (c # tmp) i l =
     (case step l c of None \<Rightarrow> Some (i, l) | Some l' \<Rightarrow> scan_loop step tmp (i + 1) l')"

fun scan_loopn :: "('l \<Rightarrow> byte \<Rightarrow> 'l option) \<Rightarrow> nat \<Rightarrow> byte list \<Rightarrow> nat \<Rightarrow> 'l \<Rightarrow> (nat \<times> 'l) option" where
  "scan_loopn step 0 tmp i l = Some (i, l)"
| "scan_loopn step (Suc n) [] i l = None"
| "scan_loopn step (Suc n) (c # tmp) i l =
     (case step l c of None \<Rightarrow> Some (i, l) | Some l' \<Rightarrow> scan_loopn step n tmp (i + 1) l')"

text \<open>
  A scan that holds the value \<open>v\<close> ends before \<open>r\<close>: the next byte is no digit, or it is one
  too many.
\<close>

definition num_stuck :: "nat \<Rightarrow> (byte \<Rightarrow> nat option) \<Rightarrow> nat \<Rightarrow> nat \<Rightarrow> byte list \<Rightarrow> bool" where
  "num_stuck b dig maxv v r =
     (case r of [] \<Rightarrow> False
      | c # _ \<Rightarrow> (case dig c of None \<Rightarrow> True | Some d \<Rightarrow> maxv < b * v + d))"

lemma num_stuck_nondigit: "dig c = None \<Longrightarrow> num_stuck b dig maxv v (c # r)"
  by (simp add: num_stuck_def)

lemma num_stuckE:
  assumes "num_stuck b dig maxv v r"
  obtains c r' where "r = c # r'" "case dig c of None \<Rightarrow> True | Some d \<Rightarrow> maxv < b * v + d"
  using assms by (auto simp: num_stuck_def split: list.splits)

locale digit_scanner =
  fixes step :: "'l \<Rightarrow> byte \<Rightarrow> 'l option" and rep :: "'l \<Rightarrow> nat" and zero :: 'l
    and b :: nat and dig :: "byte \<Rightarrow> nat option" and maxv :: nat
  assumes rep_zero: "rep zero = 0"
    and base_pos: "1 \<le> b"
    and step_nondigit: "dig c = None \<Longrightarrow> step l c = None"
    and step_digit: "dig c = Some d \<Longrightarrow> rep l \<le> maxv \<Longrightarrow>
      map_option rep (step l c) = (if b * rep l + d \<le> maxv then Some (b * rep l + d) else None)"
begin

lemma step_Some:
  assumes "dig c = Some d" "rep l \<le> maxv" "b * rep l + d \<le> maxv"
  obtains l' where "step l c = Some l'" "rep l' = b * rep l + d"
  using step_digit[OF assms(1,2)] assms(3) by auto

lemma step_stuck: "num_stuck b dig maxv (rep l) (c # r) \<Longrightarrow> rep l \<le> maxv \<Longrightarrow> step l c = None"
  using step_digit[of c _ l] step_nondigit[of c l] by (auto simp: num_stuck_def split: option.splits)

text \<open>Running over a digit string whose value fits consumes it and holds its value.\<close>

lemma run:
  assumes "all_digits dig w" "str_val b dig w \<le> maxv"
  obtains l where "rep l = str_val b dig w"
    "\<And>i s. scan_loop step (w @ s) i zero = scan_loop step s (i + length w) l"
    "\<And>n i s. scan_loopn step (length w + n) (w @ s) i zero = scan_loopn step n s (i + length w) l"
  using assms
proof (induction w arbitrary: thesis rule: rev_induct)
  case Nil
  show ?case by (rule Nil.prems(1)[of zero]) (simp_all add: rep_zero)
next
  case (snoc c w)
  obtain d where d: "dig c = Some d" using snoc.prems(2) by auto
  have le: "str_val b dig w \<le> maxv" using str_val_prefix_le[OF base_pos, of dig w "[c]"] snoc.prems(3) by simp
  obtain l where l: "rep l = str_val b dig w"
    "\<And>i s. scan_loop step (w @ s) i zero = scan_loop step s (i + length w) l"
    "\<And>n i s. scan_loopn step (length w + n) (w @ s) i zero = scan_loopn step n s (i + length w) l"
    using snoc.IH[OF _ _ le] snoc.prems(2) by auto
  obtain l' where l': "step l c = Some l'" "rep l' = b * rep l + d"
    using step_Some[OF d, of l] l(1) le snoc.prems(3) d by auto
  have "scan_loopn step (length (w @ [c]) + n) ((w @ [c]) @ s) i zero =
      scan_loopn step n s (i + length (w @ [c])) l'" for n i s
    using l(3)[of "Suc n" "c # s" i] l'(1) by simp
  then show ?case using l l' d by (intro snoc.prems(1)[of l']) simp_all
qed

theorem scan_loop_exact:
  assumes "all_digits dig w" "str_val b dig w \<le> maxv" "num_stuck b dig maxv (str_val b dig w) r"
  obtains l where "scan_loop step (w @ r) 0 zero = Some (length w, l)" "rep l = str_val b dig w"
proof -
  obtain l where l: "rep l = str_val b dig w"
    "\<And>i s. scan_loop step (w @ s) i zero = scan_loop step s (i + length w) l"
    using run[OF assms(1,2)] by metis
  obtain c r' where r: "r = c # r'" using assms(3) by (auto elim: num_stuckE)
  have "step l c = None" using step_stuck[of l c r'] assms(2,3) l(1) r by simp
  then show ?thesis using l r by (intro that[of l]) simp_all
qed

text \<open>Every string with a byte that is no digit splits in this way.\<close>

lemma split_from:
  assumes "\<exists>c \<in> set s. dig c = None" "all_digits dig p" "str_val b dig p \<le> maxv"
  shows "\<exists>w r. s = w @ r \<and> all_digits dig (p @ w) \<and> str_val b dig (p @ w) \<le> maxv \<and>
    num_stuck b dig maxv (str_val b dig (p @ w)) r"
  using assms
proof (induction s arbitrary: p)
  case (Cons c s)
  show ?case
  proof (cases "num_stuck b dig maxv (str_val b dig p) (c # s)")
    case True
    then show ?thesis using Cons.prems by (intro exI[of _ "[]"] exI[of _ "c # s"]) simp
  next
    case False
    then have d: "dig c \<noteq> None" "str_val b dig (p @ [c]) \<le> maxv"
      by (auto simp: num_stuck_def split: option.splits)
    then obtain w r where "s = w @ r" "all_digits dig ((p @ [c]) @ w)"
      "str_val b dig ((p @ [c]) @ w) \<le> maxv" "num_stuck b dig maxv (str_val b dig ((p @ [c]) @ w)) r"
      using Cons.IH[of "p @ [c]"] Cons.prems by auto
    then show ?thesis by (intro exI[of _ "c # w"] exI[of _ r]) simp
  qed
qed simp

lemma split_exists:
  assumes "\<exists>c \<in> set s. dig c = None"
  obtains w r where "s = w @ r" "all_digits dig w" "str_val b dig w \<le> maxv" "num_stuck b dig maxv (str_val b dig w) r"
  using split_from[of s "[]"] assms by auto

theorem scan_loopn_exact:
  assumes "all_digits dig w" "str_val b dig w \<le> maxv" "length w \<le> n"
    "length w < n \<Longrightarrow> num_stuck b dig maxv (str_val b dig w) r"
  obtains l where "scan_loopn step n (w @ r) 0 zero = Some (length w, l)" "rep l = str_val b dig w"
proof -
  obtain l where l: "rep l = str_val b dig w"
    "\<And>n i s. scan_loopn step (length w + n) (w @ s) i zero = scan_loopn step n s (i + length w) l"
    using run[OF assms(1,2)] by metis
  obtain k where n: "n = length w + k" using assms(3) le_Suc_ex by blast
  have "scan_loopn step k r (length w) l = Some (length w, l)"
  proof (cases k)
    case (Suc k')
    then obtain c r' where r: "r = c # r'" using assms(4) n by (auto elim: num_stuckE)
    have "step l c = None" using step_stuck[of l c r'] assms(2,4) l(1) r n Suc by simp
    then show ?thesis using r Suc by simp
  qed simp
  then show ?thesis using l n by (intro that[of l]) simp_all
qed

end

end
