(* ===== verification/Bytes.thy ===== *)
theory Bytes
  imports Prelude Comparator
begin

text \<open>
  The \<open>byte_\<close> routines of \<open>src/lib/byte\<close>: searching, comparing, copying and trimming
  counted byte strings.
  A pointer that only walks forward is a list that loses its head; a counted string is the pointer
  and its length, so that a length beyond the object gives \<open>None\<close>.
  The routines that copy exist in two forms: between two objects, and inside one object, where the
  order of the single byte moves decides what an overlapping copy does.
\<close>

subsection \<open>Searching\<close>

fun byte_chr :: "byte list \<Rightarrow> nat \<Rightarrow> byte \<Rightarrow> nat option" where
  "byte_chr s 0 c = Some 0"
| "byte_chr [] (Suc n) c = None"
| "byte_chr (x # s) (Suc n) c = (if x = c then Some 0 else map_option Suc (byte_chr s n c))"

primrec byte_rchr_loop :: "byte list \<Rightarrow> nat \<Rightarrow> byte \<Rightarrow> nat \<Rightarrow> nat option" where
  "byte_rchr_loop s len c 0 = Some len"
| "byte_rchr_loop s len c (Suc t) =
     do { x \<leftarrow> rd s t; if x = c then Some t else byte_rchr_loop s len c t }"

definition byte_rchr :: "byte list \<Rightarrow> nat \<Rightarrow> byte \<Rightarrow> nat option" where
  "byte_rchr s len c = byte_rchr_loop s len c len"

fun byte_chrs :: "byte list \<Rightarrow> nat \<Rightarrow> byte list \<Rightarrow> nat \<Rightarrow> nat option" where
  "byte_chrs s 0 needle nl = Some 0"
| "byte_chrs [] (Suc n) needle nl = None"
| "byte_chrs (x # s) (Suc n) needle nl =
     do { k \<leftarrow> byte_chr needle nl x;
          if k < nl then Some 0 else map_option Suc (byte_chrs s n needle nl) }"

fun byte_chrns :: "byte list \<Rightarrow> nat \<Rightarrow> byte list \<Rightarrow> nat \<Rightarrow> nat option" where
  "byte_chrns s 0 charset setlen = Some 0"
| "byte_chrns [] (Suc n) charset setlen = None"
| "byte_chrns (x # s) (Suc n) charset setlen =
     do { k \<leftarrow> byte_chr charset setlen x;
          if k = setlen then Some 0 else map_option Suc (byte_chrns s n charset setlen) }"

text \<open>
  \<open>byte_rchrs\<close> remembers in \<open>found\<close> the start of the object, not the place of the match,
  and then returns the loop counter.
\<close>

primrec byte_rchrs_inner :: "byte \<Rightarrow> byte list \<Rightarrow> nat \<Rightarrow> nat \<Rightarrow> nat option \<Rightarrow> nat option option" where
  "byte_rchrs_inner x needles j 0 found = Some found"
| "byte_rchrs_inner x needles j (Suc k) found =
     do { y \<leftarrow> rd needles j;
          byte_rchrs_inner x needles (Suc j) k (if x = y then Some 0 else found) }"

primrec byte_rchrs_loop :: "byte list \<Rightarrow> nat \<Rightarrow> nat \<Rightarrow> byte list \<Rightarrow> nat \<Rightarrow> nat option \<Rightarrow> nat option" where
  "byte_rchrs_loop b i 0 needles nn found = Some i"
| "byte_rchrs_loop b i (Suc k) needles nn found =
     do { x \<leftarrow> rd b i; f \<leftarrow> byte_rchrs_inner x needles 0 nn found;
          byte_rchrs_loop b (Suc i) k needles nn f }"

definition byte_rchrs :: "byte list \<Rightarrow> nat \<Rightarrow> byte list \<Rightarrow> nat \<Rightarrow> nat option" where
  "byte_rchrs b len needles nn = byte_rchrs_loop b 0 len needles nn None"

text \<open>\<open>byte_count\<close> is unrolled four times and counts in an \<open>unsigned int\<close>.\<close>

definition count_step :: "byte \<Rightarrow> byte \<Rightarrow> uint32 \<Rightarrow> uint32" where
  "count_step x ch count = (if x = ch then count + 1 else count)"

fun byte_count_loop :: "byte list \<Rightarrow> nat \<Rightarrow> byte \<Rightarrow> uint32 \<Rightarrow> uint32 option" where
  "byte_count_loop t n ch count =
     (if n = 0 then Some count
      else do { a \<leftarrow> rd t 0;
                let count = count_step a ch count;
                if n = 1 then Some count
                else do { b \<leftarrow> rd t 1;
                          let count = count_step b ch count;
                          if n = 2 then Some count
                          else do { c \<leftarrow> rd t 2;
                                    let count = count_step c ch count;
                                    if n = 3 then Some count
                                    else do { d \<leftarrow> rd t 3;
                                              byte_count_loop (drop 4 t) (n - 4) ch
                                                (count_step d ch count) } } } })"

declare byte_count_loop.simps [simp del]

definition byte_count :: "byte list \<Rightarrow> nat \<Rightarrow> byte \<Rightarrow> nat option" where
  "byte_count s n c = map_option unat (byte_count_loop s n c 0)"

subsection \<open>Comparing\<close>

fun byte_diff :: "byte list \<Rightarrow> nat \<Rightarrow> byte list \<Rightarrow> int option" where
  "byte_diff a 0 b = Some 0"
| "byte_diff (x # a) (Suc n) (y # b) =
     (let r = uint x - uint y in if r \<noteq> 0 then Some r else byte_diff a n b)"
| "byte_diff a (Suc n) b = None"

definition byte_equal :: "byte list \<Rightarrow> nat \<Rightarrow> byte list \<Rightarrow> bool option" where
  "byte_equal s n t = map_option (\<lambda>d. d = 0) (byte_diff s n t)"

text \<open>\<open>x += 'a' - 'A'\<close> for an upper case letter, on the promoted \<open>unsigned char\<close>.\<close>

definition fold_case :: "byte \<Rightarrow> int" where
  "fold_case x = (if 65 \<le> uint x \<and> uint x \<le> 90 then uint x + 32 else uint x)"

fun byte_case_diff :: "byte list \<Rightarrow> nat \<Rightarrow> byte list \<Rightarrow> int option" where
  "byte_case_diff s 0 t = Some 0"
| "byte_case_diff (x # s) (Suc n) (y # t) =
     (if fold_case x \<noteq> fold_case y then Some (fold_case x - fold_case y) else byte_case_diff s n t)"
| "byte_case_diff s (Suc n) t = None"

definition byte_case_equal :: "byte list \<Rightarrow> nat \<Rightarrow> byte list \<Rightarrow> bool option" where
  "byte_case_equal s n t = map_option (\<lambda>d. d = 0) (byte_case_diff s n t)"

fun byte_case_start :: "byte list \<Rightarrow> nat \<Rightarrow> byte list \<Rightarrow> bool option" where
  "byte_case_start s len [] = None"
| "byte_case_start s len (y # t) =
     (if fold_case y = 0 then Some True
      else if len = 0 then Some False
      else case s of
             [] \<Rightarrow> None
           | x # s' \<Rightarrow> if fold_case x \<noteq> fold_case y then Some False
                       else byte_case_start s' (len - 1) t)"

subsection \<open>Substrings, prefixes and suffixes\<close>

fun byte_findb_loop :: "byte list \<Rightarrow> nat \<Rightarrow> byte list \<Rightarrow> nat \<Rightarrow> nat \<Rightarrow> nat \<Rightarrow> nat option" where
  "byte_findb_loop s hlen what wlen i 0 = Some hlen"
| "byte_findb_loop s hlen what wlen i (Suc k) =
     do { e \<leftarrow> byte_equal s wlen what;
          if e then Some i else byte_findb_loop (tl s) hlen what wlen (Suc i) k }"

definition byte_findb :: "byte list \<Rightarrow> nat \<Rightarrow> byte list \<Rightarrow> nat \<Rightarrow> nat option" where
  "byte_findb s hlen what wlen =
     (if hlen < wlen then Some hlen
      else let last = hlen - wlen in byte_findb_loop s hlen what wlen 0 (last + 1))"

definition byte_startb :: "byte list \<Rightarrow> nat \<Rightarrow> byte list \<Rightarrow> nat \<Rightarrow> bool option" where
  "byte_startb b blen x xlen = (if blen \<ge> xlen then byte_equal b xlen x else Some False)"

definition byte_endb :: "byte list \<Rightarrow> nat \<Rightarrow> byte list \<Rightarrow> nat \<Rightarrow> bool option" where
  "byte_endb b blen x xlen =
     (if blen \<ge> xlen then byte_equal (drop (blen - xlen) b) xlen x else Some False)"

subsection \<open>Writing\<close>

primrec byte_fill_loop :: "byte list \<Rightarrow> nat \<Rightarrow> nat \<Rightarrow> byte \<Rightarrow> byte list option" where
  "byte_fill_loop m o' 0 c = Some m"
| "byte_fill_loop m o' (Suc n) c = do { m' \<leftarrow> wr m o' c; byte_fill_loop m' (Suc o') n c }"

definition byte_fill :: "byte list \<Rightarrow> nat \<Rightarrow> byte \<Rightarrow> byte list option" where
  "byte_fill out len c = byte_fill_loop out 0 len c"

definition byte_zero :: "byte list \<Rightarrow> nat \<Rightarrow> byte list option" where
  "byte_zero out len = byte_fill_loop out 0 len 0"

text \<open>Copying between two objects: \<open>o'\<close> and \<open>i\<close> are the offsets of the pointers.\<close>

primrec byte_copy :: "byte list \<Rightarrow> nat \<Rightarrow> nat \<Rightarrow> byte list \<Rightarrow> nat \<Rightarrow> byte list option" where
  "byte_copy out o' 0 src i = Some out"
| "byte_copy out o' (Suc n) src i =
     do { x \<leftarrow> rd src i; m \<leftarrow> wr out o' x; byte_copy m (Suc o') n src (Suc i) }"

primrec byte_copyr :: "byte list \<Rightarrow> nat \<Rightarrow> nat \<Rightarrow> byte list \<Rightarrow> nat \<Rightarrow> byte list option" where
  "byte_copyr out o' 0 src i = Some out"
| "byte_copyr out o' (Suc n) src i =
     do { x \<leftarrow> rd src (i + n); m \<leftarrow> wr out (o' + n) x; byte_copyr m o' n src i }"

text \<open>Copying inside one object, upwards and downwards.\<close>

primrec byte_copy_within :: "byte list \<Rightarrow> nat \<Rightarrow> nat \<Rightarrow> nat \<Rightarrow> byte list option" where
  "byte_copy_within m o' 0 i = Some m"
| "byte_copy_within m o' (Suc n) i =
     do { x \<leftarrow> rd m i; m' \<leftarrow> wr m o' x; byte_copy_within m' (Suc o') n (Suc i) }"

primrec byte_copyr_within :: "byte list \<Rightarrow> nat \<Rightarrow> nat \<Rightarrow> nat \<Rightarrow> byte list option" where
  "byte_copyr_within m o' 0 i = Some m"
| "byte_copyr_within m o' (Suc n) i =
     do { x \<leftarrow> rd m (i + n); m' \<leftarrow> wr m (o' + n) x; byte_copyr_within m' o' n i }"

primrec byte_ccopy_loop :: "byte list \<Rightarrow> nat \<Rightarrow> nat \<Rightarrow> byte list \<Rightarrow> byte \<Rightarrow> (byte list \<times> nat) option" where
  "byte_ccopy_loop a b 0 src c = Some (a, b)"
| "byte_ccopy_loop a b (Suc count) src c =
     do { x \<leftarrow> rd src b; a' \<leftarrow> wr a b x;
          if x = c then Some (a', b + 1) else byte_ccopy_loop a' (Suc b) count src c }"

definition byte_ccopy :: "byte list \<Rightarrow> nat \<Rightarrow> byte list \<Rightarrow> byte \<Rightarrow> (byte list \<times> nat) option" where
  "byte_ccopy dst count src c = byte_ccopy_loop dst 0 count src c"

fun byte_lower :: "byte list \<Rightarrow> nat \<Rightarrow> byte list option" where
  "byte_lower s 0 = Some s"
| "byte_lower [] (Suc n) = None"
| "byte_lower (c # s) (Suc n) =
     map_option ((#) (if 65 \<le> c \<and> c \<le> 90 then c + 32 else c)) (byte_lower s n)"

fun byte_upper :: "byte list \<Rightarrow> nat \<Rightarrow> byte list option" where
  "byte_upper s 0 = Some s"
| "byte_upper [] (Suc n) = None"
| "byte_upper (c # s) (Suc n) =
     map_option ((#) (if 97 \<le> c \<and> c \<le> 122 then c - 32 else c)) (byte_upper s n)"

fun byte_replace :: "byte list \<Rightarrow> nat \<Rightarrow> byte \<Rightarrow> byte \<Rightarrow> byte list option" where
  "byte_replace x 0 before after = Some x"
| "byte_replace [] (Suc n) before after = None"
| "byte_replace (c # x) (Suc n) before after =
     map_option ((#) (if c = before then after else c)) (byte_replace x n before after)"

subsection \<open>Trimming\<close>

fun byte_triml :: "byte list \<Rightarrow> nat \<Rightarrow> byte list \<Rightarrow> nat \<Rightarrow> (byte list \<times> nat) option" where
  "byte_triml x 0 charset charsetlen = Some (x, 0)"
| "byte_triml [] (Suc n) charset charsetlen = None"
| "byte_triml (c # x) (Suc n) charset charsetlen =
     do { k \<leftarrow> byte_chr charset charsetlen c;
          if k = charsetlen then Some (c # x, Suc n) else byte_triml x n charset charsetlen }"

primrec byte_trimr :: "byte list \<Rightarrow> nat \<Rightarrow> byte list \<Rightarrow> nat \<Rightarrow> nat option" where
  "byte_trimr x 0 trimchars trimcharslen = Some 0"
| "byte_trimr x (Suc n) trimchars trimcharslen =
     do { c \<leftarrow> rd x n; k \<leftarrow> byte_chr trimchars trimcharslen c;
          if k = trimcharslen then Some (Suc n) else byte_trimr x n trimchars trimcharslen }"

definition byte_trim :: "byte list \<Rightarrow> nat \<Rightarrow> byte list \<Rightarrow> nat \<Rightarrow> (byte list \<times> nat) option" where
  "byte_trim x n trimchars trimcharslen =
     do { (x', n') \<leftarrow> byte_triml x n trimchars trimcharslen;
          n'' \<leftarrow> byte_trimr x' n' trimchars trimcharslen;
          Some (x', n'') }"


subsection \<open>What the searches return\<close>

lemma byte_chr_takeWhile [mem_simps]:
  "n \<le> length s \<Longrightarrow> byte_chr s n c = Some (length (takeWhile (\<lambda>x. x \<noteq> c) (take n s)))"
  by (induction s n c rule: byte_chr.induct) auto

lemma byte_chr_less_iff:
  "n \<le> length s \<Longrightarrow> length (takeWhile (\<lambda>x. x \<noteq> c) (take n s)) < n \<longleftrightarrow> c \<in> set (take n s)"
  using length_takeWhile_less_iff[of "\<lambda>x. x \<noteq> c" "take n s"] by auto

lemma byte_chr_eq_iff:
  "n \<le> length s \<Longrightarrow> length (takeWhile (\<lambda>x. x \<noteq> c) (take n s)) = n \<longleftrightarrow> c \<notin> set (take n s)"
  using length_takeWhile_eq_iff[of "\<lambda>x. x \<noteq> c" "take n s"] by auto

lemma byte_rchr_loop_spec:
  "t \<le> length s \<Longrightarrow> \<exists>r. byte_rchr_loop s len c t = Some r \<and>
     (c \<in> set (take t s) \<longrightarrow> r < t \<and> s ! r = c \<and> (\<forall>j. r < j \<and> j < t \<longrightarrow> s ! j \<noteq> c)) \<and>
     (c \<notin> set (take t s) \<longrightarrow> r = len)"
proof (induction t)
  case (Suc t)
  then obtain r where r: "byte_rchr_loop s len c t = Some r"
     "c \<in> set (take t s) \<longrightarrow> r < t \<and> s ! r = c \<and> (\<forall>j. r < j \<and> j < t \<longrightarrow> s ! j \<noteq> c)"
     "c \<notin> set (take t s) \<longrightarrow> r = len"
    by auto
  have tk: "set (take (Suc t) s) = insert (s ! t) (set (take t s))"
    using Suc.prems by (simp add: take_Suc_conv_app_nth)
  show ?case
  proof (cases "s ! t = c")
    case True then show ?thesis using Suc.prems tk by auto
  next
    case False
    then have eq: "byte_rchr_loop s len c (Suc t) = Some r" using Suc.prems r(1) by simp
    show ?thesis unfolding eq using False tk r(2,3) by (auto simp: less_Suc_eq)
  qed
qed simp

lemma byte_chrs_takeWhile:
  "n \<le> length s \<Longrightarrow> nl \<le> length set' \<Longrightarrow>
     byte_chrs s n set' nl = Some (length (takeWhile (\<lambda>x. x \<notin> set (take nl set')) (take n s)))"
  by (induction s n set' nl rule: byte_chrs.induct)
     (auto simp: byte_chr_takeWhile byte_chr_less_iff)

lemma byte_chrns_takeWhile:
  "n \<le> length s \<Longrightarrow> nl \<le> length set' \<Longrightarrow>
     byte_chrns s n set' nl = Some (length (takeWhile (\<lambda>x. x \<in> set (take nl set')) (take n s)))"
  by (induction s n set' nl rule: byte_chrns.induct)
     (auto simp: byte_chr_takeWhile byte_chr_eq_iff)

lemma byte_rchrs_inner_returns:
  "j + k \<le> length needles \<Longrightarrow> \<exists>f. byte_rchrs_inner x needles j k found = Some f"
  by (induction k arbitrary: j found) auto

lemma byte_rchrs_loop_len:
  "i + k \<le> length b \<Longrightarrow> nn \<le> length needles \<Longrightarrow>
     byte_rchrs_loop b i k needles nn found = Some (i + k)"
proof (induction k arbitrary: i found)
  case (Suc k)
  obtain f where "byte_rchrs_inner (b ! i) needles 0 nn found = Some f"
    using Suc.prems byte_rchrs_inner_returns[of 0 nn needles "b ! i" found] by auto
  with Suc show ?case by simp
qed simp

lemma byte_count_loop_eq:
  "n \<le> length t \<Longrightarrow>
     byte_count_loop t n ch c = Some (c + of_nat (count_list (take n t) ch))"
proof (induction t n ch c rule: byte_count_loop.induct)
  case (1 t n ch c)
  consider "n = 0" | "n = 1" | "n = 2" | "n = 3" | "n \<ge> 4" by linarith
  then show ?case
  proof cases
    case 5
    then have "Suc (Suc (Suc (Suc 0))) \<le> length t" using "1.prems" by simp
    then obtain a1 a2 a3 a4 r where t: "t = a1 # a2 # a3 # a4 # r"
      unfolding Suc_le_length_iff by blast
    obtain k where n: "n = k + 4" using 5 by (metis add.commute le_iff_add)
    show ?thesis
      using 1 t n by (subst byte_count_loop.simps) (auto simp: count_step_def numeral_eq_Suc algebra_simps)
  qed (use "1.prems" in \<open>subst byte_count_loop.simps,
        auto simp: count_step_def numeral_eq_Suc Suc_le_length_iff algebra_simps\<close>)+
qed

lemma byte_count_eq:
  "n \<le> length s \<Longrightarrow> byte_count s n c = Some (count_list (take n s) c mod 2 ^ 32)"
  by (simp add: byte_count_def byte_count_loop_eq unat_of_nat)

subsection \<open>What the comparisons return\<close>

lemma byte_diff_key:
  "n \<le> length a \<Longrightarrow> n \<le> length b \<Longrightarrow>
     \<exists>d. byte_diff a n b = Some d \<and> (d < 0 \<longleftrightarrow> take n a < take n b) \<and>
         (d = 0 \<longleftrightarrow> take n a = take n b)"
  by (induction a n b rule: byte_diff.induct)
     (auto simp: Let_def word_less_def word_uint_eq_iff)

interpretation bd: comparator "\<lambda>a b. byte_diff a n b" "\<lambda>a. n \<le> length a" "take n" for n
  by unfold_locales (rule byte_diff_key)

lemma byte_equal_iff:
  "n \<le> length a \<Longrightarrow> n \<le> length b \<Longrightarrow> byte_equal a n b = Some (take n a = take n b)"
  using byte_diff_key[of n a b] by (auto simp: byte_equal_def)

lemma byte_case_diff_key:
  "n \<le> length a \<Longrightarrow> n \<le> length b \<Longrightarrow>
     \<exists>d. byte_case_diff a n b = Some d \<and> (d < 0 \<longleftrightarrow> map fold_case (take n a) < map fold_case (take n b)) \<and>
         (d = 0 \<longleftrightarrow> map fold_case (take n a) = map fold_case (take n b))"
  by (induction a n b rule: byte_case_diff.induct) auto

interpretation bcd: comparator "\<lambda>a b. byte_case_diff a n b" "\<lambda>a. n \<le> length a"
    "\<lambda>a. map fold_case (take n a)" for n
  by unfold_locales (rule byte_case_diff_key)

lemma byte_case_equal_iff:
  "n \<le> length a \<Longrightarrow> n \<le> length b \<Longrightarrow>
     byte_case_equal a n b = Some (map fold_case (take n a) = map fold_case (take n b))"
  using byte_case_diff_key[of n a b] by (auto simp: byte_case_equal_def)

subsection \<open>Substrings\<close>

text \<open>\<open>occurs_at what s i\<close>: the string \<open>what\<close> stands at offset \<open>i\<close> of \<open>s\<close>.\<close>

definition occurs_at :: "'a list \<Rightarrow> 'a list \<Rightarrow> nat \<Rightarrow> bool" where
  "occurs_at what s i \<longleftrightarrow> i + length what \<le> length s \<and> take (length what) (drop i s) = what"

lemma byte_findb_loop_spec:
  assumes "k + wlen \<le> length s + 1" "wlen \<le> length what"
  shows "\<exists>r. byte_findb_loop s hlen what wlen i k = Some r \<and>
     ((r = hlen \<and> (\<forall>j < k. \<not> occurs_at (take wlen what) s j)) \<or>
      (\<exists>j < k. r = i + j \<and> occurs_at (take wlen what) s j \<and>
                (\<forall>j' < j. \<not> occurs_at (take wlen what) s j')))"
  using assms
proof (induction k arbitrary: s i)
  case (Suc k)
  have at0: "occurs_at (take wlen what) s 0 \<longleftrightarrow> take wlen s = take wlen what"
    using Suc.prems by (auto simp: occurs_at_def min_absorb2)
  have eq: "byte_equal s wlen what = Some (take wlen s = take wlen what)"
    using Suc.prems by (simp add: byte_equal_iff)
  show ?case
  proof (cases "take wlen s = take wlen what")
    case True
    then show ?thesis using eq at0 by (intro exI[of _ i]) auto
  next
    case False
    have shift: "occurs_at (take wlen what) (tl s) j \<longleftrightarrow> occurs_at (take wlen what) s (Suc j)" if "j < k" for j
      using that Suc.prems by (cases s) (auto simp: occurs_at_def)
    obtain r where r: "byte_findb_loop (tl s) hlen what wlen (Suc i) k = Some r"
       "(r = hlen \<and> (\<forall>j < k. \<not> occurs_at (take wlen what) (tl s) j)) \<or>
        (\<exists>j < k. r = Suc i + j \<and> occurs_at (take wlen what) (tl s) j \<and>
                (\<forall>j' < j. \<not> occurs_at (take wlen what) (tl s) j'))"
      using Suc.IH[of "tl s" "Suc i"] Suc.prems by (cases s) auto
    have run: "byte_findb_loop s hlen what wlen i (Suc k) = Some r" using False eq r(1) by simp
    from r(2) show ?thesis
    proof
      assume "r = hlen \<and> (\<forall>j < k. \<not> occurs_at (take wlen what) (tl s) j)"
      then show ?thesis using run shift at0 False
        by (auto simp: less_Suc_eq_0_disj)
    next
      assume "\<exists>j < k. r = Suc i + j \<and> occurs_at (take wlen what) (tl s) j \<and>
                (\<forall>j' < j. \<not> occurs_at (take wlen what) (tl s) j')"
      then obtain j where j: "j < k" "r = i + Suc j" "occurs_at (take wlen what) s (Suc j)"
        "\<forall>j' < j. \<not> occurs_at (take wlen what) s (Suc j')"
        using shift by auto
      then have "\<forall>j' < Suc j. \<not> occurs_at (take wlen what) s j'"
        using at0 False by (auto simp: less_Suc_eq_0_disj)
      with j run show ?thesis by auto
    qed
  qed
qed simp

lemma occurs_at_take:
  "n \<le> length s \<Longrightarrow> i + length w \<le> n \<Longrightarrow> occurs_at w (take n s) i \<longleftrightarrow> occurs_at w s i"
  by (auto simp: occurs_at_def drop_take min_absorb1)

lemma byte_findb_spec:
  assumes "hlen \<le> length s" "wlen \<le> length what"
  shows "\<exists>r. byte_findb s hlen what wlen = Some r \<and>
     (if \<exists>j. occurs_at (take wlen what) (take hlen s) j
      then occurs_at (take wlen what) (take hlen s) r \<and>
           (\<forall>j < r. \<not> occurs_at (take wlen what) (take hlen s) j)
      else r = hlen)"
proof (cases "hlen < wlen")
  case True
  then have "\<not> occurs_at (take wlen what) (take hlen s) j" for j
    using assms by (auto simp: occurs_at_def min_absorb1)
  with True show ?thesis by (auto simp: byte_findb_def)
next
  case False
  let ?k = "hlen - wlen + 1"
  have out: "occurs_at (take wlen what) (take hlen s) j \<longleftrightarrow> j < ?k \<and> occurs_at (take wlen what) s j" for j
    using assms False occurs_at_take[of hlen s j "take wlen what"]
    by (cases "j < ?k") (auto simp: occurs_at_def min_absorb1 min_absorb2)
  obtain r where "byte_findb_loop s hlen what wlen 0 ?k = Some r"
     "(r = hlen \<and> (\<forall>j < ?k. \<not> occurs_at (take wlen what) s j)) \<or>
      (\<exists>j < ?k. r = 0 + j \<and> occurs_at (take wlen what) s j \<and>
                (\<forall>j' < j. \<not> occurs_at (take wlen what) s j'))"
    using byte_findb_loop_spec[of ?k wlen s what hlen 0] assms False by auto
  then show ?thesis using False by (auto simp: byte_findb_def out)
qed

lemma byte_startb_iff:
  "blen \<le> length b \<Longrightarrow> xlen \<le> length x \<Longrightarrow>
     byte_startb b blen x xlen = Some (\<exists>r. take blen b = take xlen x @ r)"
  by (auto simp: byte_startb_def byte_equal_iff)
     (metis append_take_drop_id min.absorb1 take_take, metis append_eq_conv_conj length_take min.absorb1 min.absorb2 take_take,
      metis le_add1 length_append length_take min.absorb2)

lemma byte_endb_iff:
  "blen \<le> length b \<Longrightarrow> xlen \<le> length x \<Longrightarrow>
     byte_endb b blen x xlen = Some (\<exists>r. take blen b = r @ take xlen x)"
proof (cases "xlen \<le> blen")
  case True
  assume le: "blen \<le> length b" "xlen \<le> length x"
  have seg: "take xlen (drop (blen - xlen) b) = drop (blen - xlen) (take blen b)"
    using True by (simp add: drop_take)
  have "take xlen (drop (blen - xlen) b) = take xlen x \<longleftrightarrow> (\<exists>r. take blen b = r @ take xlen x)"
  proof
    assume "take xlen (drop (blen - xlen) b) = take xlen x"
    then show "\<exists>r. take blen b = r @ take xlen x"
      using seg append_take_drop_id[of "blen - xlen" "take blen b"] by metis
  next
    assume "\<exists>r. take blen b = r @ take xlen x"
    then obtain r where r: "take blen b = r @ take xlen x" by blast
    then have "length r = blen - xlen" using le True
      by (metis add_diff_cancel_right' length_append length_take min.absorb2)
    then show "take xlen (drop (blen - xlen) b) = take xlen x" using r seg by simp
  qed
  with True le show ?thesis by (simp add: byte_endb_def byte_equal_iff)
next
  case False
  assume le: "blen \<le> length b" "xlen \<le> length x"
  then have "take blen b \<noteq> r @ take xlen x" for r
    using False by (metis le_add2 length_append length_take min.absorb2)
  with False show ?thesis by (simp add: byte_endb_def)
qed

subsection \<open>What the writing routines leave\<close>

lemma splice_Cons:
  "p < length m \<Longrightarrow> splice m p (x # xs) = splice (m[p := x]) (Suc p) xs"
  by (simp add: splice_def take_Suc_conv_app_nth drop_update_cancel)

lemma byte_fill_loop_eq:
  "p + n \<le> length m \<Longrightarrow> byte_fill_loop m p n c = Some (splice m p (replicate n c))"
proof (induction n arbitrary: m p)
  case 0 then show ?case by (simp add: splice_def)
next
  case (Suc n) then show ?case by (simp add: splice_Cons)
qed

lemma byte_fill_eq: "n \<le> length m \<Longrightarrow> byte_fill m n c = Some (replicate n c @ drop n m)"
  by (simp add: byte_fill_def byte_fill_loop_eq splice_def)

lemma byte_copy_eq:
  "p + n \<le> length m \<Longrightarrow> i + n \<le> length src \<Longrightarrow>
     byte_copy m p n src i = Some (splice m p (take n (drop i src)))"
proof (induction n arbitrary: m p i)
  case 0 then show ?case by (simp add: splice_def)
next
  case (Suc n)
  then have "take (Suc n) (drop i src) = src ! i # take n (drop (Suc i) src)"
    by (simp add: Cons_nth_drop_Suc[symmetric])
  with Suc show ?case by (simp add: splice_Cons)
qed

lemma byte_copy_overrun:
  "length m < p + n \<or> length src < i + n \<Longrightarrow> byte_copy m p n src i = None \<or> n = 0"
proof (induction n arbitrary: m p i)
  case (Suc n)
  show ?case
  proof (cases "i < length src \<and> p < length m")
    case True
    then have "byte_copy (m[p := src ! i]) (Suc p) n src (Suc i) = None \<or> n = 0"
      using Suc.prems by (intro Suc.IH) auto
    moreover have "n \<noteq> 0" using True Suc.prems by auto
    ultimately show ?thesis using True by simp
  qed (auto simp: rd_def wr_def)
qed simp

text \<open>
  An overlapping copy is right when it never overwrites a byte it has still to read: upwards towards
  lower addresses, downwards towards higher ones.
\<close>

lemma byte_copy_within_eq:
  assumes "p + n \<le> length m" "i + n \<le> length m" "p \<le> i \<or> i + n \<le> p"
  shows "byte_copy_within m p n i = Some (splice m p (take n (drop i m)))"
  using assms
proof (induction n arbitrary: m p i)
  case 0 then show ?case by (simp add: splice_def)
next
  case (Suc n)
  let ?m = "m[p := m ! i]"
  have seg: "take (Suc n) (drop i m) = m ! i # take n (drop (Suc i) m)"
    using Suc.prems by (simp add: Cons_nth_drop_Suc[symmetric])
  have rest: "take n (drop (Suc i) ?m) = take n (drop (Suc i) m)"
    using Suc.prems by (intro nth_equalityI) (auto simp: nth_list_update)
  have "byte_copy_within ?m (Suc p) n (Suc i) = Some (splice ?m (Suc p) (take n (drop (Suc i) ?m)))"
    using Suc.prems by (intro Suc.IH) auto
  then show ?case using Suc.prems seg rest by (simp add: splice_Cons)
qed

lemma splice_snoc:
  "p + length xs < length m \<Longrightarrow> splice m p (xs @ [x]) = splice (m[p + length xs := x]) p xs"
  by (rule nth_equalityI) (auto simp: nth_splice nth_append nth_list_update)

lemma byte_copyr_within_eq:
  assumes "p + n \<le> length m" "i + n \<le> length m" "i \<le> p \<or> p + n \<le> i"
  shows "byte_copyr_within m p n i = Some (splice m p (take n (drop i m)))"
  using assms
proof (induction n arbitrary: m)
  case 0 then show ?case by (simp add: splice_def)
next
  case (Suc n)
  let ?m = "m[p + n := m ! (i + n)]"
  have seg: "take (Suc n) (drop i m) = take n (drop i m) @ [m ! (i + n)]"
    using Suc.prems by (simp add: take_Suc_conv_app_nth)
  have rest: "take n (drop i ?m) = take n (drop i m)"
    using Suc.prems by (intro nth_equalityI) (auto simp: nth_list_update)
  have IH: "byte_copyr_within ?m p n i = Some (splice ?m p (take n (drop i ?m)))"
    using Suc.prems by (intro Suc.IH) auto
  have "splice m p (take n (drop i m) @ [m ! (i + n)]) = splice ?m p (take n (drop i m))"
    using Suc.prems splice_snoc[of p "take n (drop i m)" m] by (simp add: min_absorb2)
  with IH show ?case using Suc.prems seg rest by simp
qed

lemma byte_copyr_eq:
  "p + n \<le> length m \<Longrightarrow> i + n \<le> length src \<Longrightarrow>
     byte_copyr m p n src i = Some (splice m p (take n (drop i src)))"
proof (induction n arbitrary: m)
  case 0 then show ?case by (simp add: splice_def)
next
  case (Suc n)
  have "splice m p (take n (drop i src) @ [src ! (i + n)]) =
      splice (m[p + n := src ! (i + n)]) p (take n (drop i src))"
    using Suc.prems splice_snoc[of p "take n (drop i src)" m] by (simp add: min_absorb2)
  then show ?case using Suc by (simp add: wr_def take_Suc_conv_app_nth)
qed

lemma byte_ccopy_loop_spec:
  assumes "b + n \<le> length a" "b + n \<le> length src"
  shows "byte_ccopy_loop a b n src c =
    (let k = length (takeWhile (\<lambda>x. x \<noteq> c) (take n (drop b src)));
         j = (if k < n then k + 1 else n)
     in Some (splice a b (take j (drop b src)), b + j))"
  using assms
proof (induction n arbitrary: a b)
  case 0 then show ?case by (simp add: splice_def)
next
  case (Suc n)
  have seg: "drop b src = src ! b # drop (Suc b) src" using Suc.prems by (simp add: Cons_nth_drop_Suc)
  have b: "b < length a" using Suc.prems by simp
  have IH: "byte_ccopy_loop (a[b := src ! b]) (Suc b) n src c =
    (let k = length (takeWhile (\<lambda>x. x \<noteq> c) (take n (drop (Suc b) src)));
         j = (if k < n then k + 1 else n)
     in Some (splice (a[b := src ! b]) (Suc b) (take j (drop (Suc b) src)), Suc b + j))"
    using Suc.prems by (intro Suc.IH) auto
  show ?case
    using Suc.prems b IH unfolding seg
    by (simp add: splice_Cons Let_def)
qed

lemma byte_lower_eq:
  "n \<le> length s \<Longrightarrow> byte_lower s n =
     Some (map (\<lambda>c. if 65 \<le> c \<and> c \<le> 90 then c + 32 else c) (take n s) @ drop n s)"
  by (induction s n rule: byte_lower.induct) auto

lemma byte_upper_eq:
  "n \<le> length s \<Longrightarrow> byte_upper s n =
     Some (map (\<lambda>c. if 97 \<le> c \<and> c \<le> 122 then c - 32 else c) (take n s) @ drop n s)"
  by (induction s n rule: byte_upper.induct) auto

lemma byte_replace_eq:
  "n \<le> length x \<Longrightarrow> byte_replace x n before after =
     Some (map (\<lambda>c. if c = before then after else c) (take n x) @ drop n x)"
  by (induction x n before after rule: byte_replace.induct) auto

text \<open>Lowering makes a string that no further lowering changes and that compares equal to it.\<close>

lemma lower_byte_fold: "fold_case (if 65 \<le> c \<and> c \<le> 90 then c + 32 else c) = fold_case c"
  by (auto simp: fold_case_def word_le_def uint_word_ariths)

subsection \<open>What trimming leaves\<close>

lemma byte_triml_eq:
  "n \<le> length x \<Longrightarrow> k \<le> length cs \<Longrightarrow> byte_triml x n cs k =
     (let i = length (takeWhile (\<lambda>c. c \<in> set (take k cs)) (take n x)) in Some (drop i x, n - i))"
  by (induction x n cs k rule: byte_triml.induct) (auto simp: byte_chr_takeWhile byte_chr_eq_iff Let_def)

lemma byte_trimr_eq:
  "n \<le> length x \<Longrightarrow> k \<le> length cs \<Longrightarrow> byte_trimr x n cs k =
     Some (n - length (takeWhile (\<lambda>c. c \<in> set (take k cs)) (rev (take n x))))"
proof (induction n)
  case (Suc n)
  then show ?case
    by (simp add: byte_chr_takeWhile byte_chr_eq_iff take_Suc_conv_app_nth)
qed simp

lemma byte_trim_returns:
  assumes "n \<le> length x" "k \<le> length cs"
  shows "\<exists>p l. byte_trim x n cs k = Some (drop p x, l) \<and> p + l \<le> n \<and>
    (\<forall>j < p. x ! j \<in> set (take k cs)) \<and> (\<forall>j. p + l \<le> j \<and> j < n \<longrightarrow> x ! j \<in> set (take k cs)) \<and>
    (0 < l \<longrightarrow> x ! p \<notin> set (take k cs) \<and> x ! (p + l - 1) \<notin> set (take k cs))"
proof -
  let ?P = "\<lambda>c. c \<in> set (take k cs)"
  define p where "p = length (takeWhile ?P (take n x))"
  define y where "y = take (n - p) (drop p x)"
  define q where "q = length (takeWhile ?P (rev y))"
  have p: "p \<le> n" using assms length_takeWhile_le[of ?P "take n x"] by (simp add: p_def)
  have ly: "length y = n - p" using assms p by (simp add: y_def)
  have q: "q \<le> n - p" using length_takeWhile_le[of ?P "rev y"] ly by (simp add: q_def)
  have run: "byte_trim x n cs k = Some (drop p x, n - p - q)"
    using assms p unfolding byte_trim_def
    by (simp add: byte_triml_eq byte_trimr_eq Let_def p_def[symmetric] y_def[symmetric] q_def[symmetric])
  have yn: "y ! j = x ! (p + j)" if "j < n - p" for j using that assms p by (simp add: y_def)
  have 1: "\<forall>j < p. x ! j \<in> set (take k cs)"
    using takeWhile_nth_sat[of _ ?P "take n x"] p by (auto simp: p_def)
  have 2: "x ! j \<in> set (take k cs)" if j: "p + (n - p - q) \<le> j" "j < n" for j
  proof -
    have lt: "n - 1 - j < q" "n - 1 - j < length (rev y)" using j p q ly by auto
    then have "?P (rev y ! (n - 1 - j))" using takeWhile_nth_sat[of _ ?P "rev y"] by (simp add: q_def)
    then show ?thesis using lt j p ly by (simp add: rev_nth yn)
  qed
  have 3: "x ! p \<notin> set (take k cs)" if "0 < n - p - q"
    using nth_length_takeWhile[of ?P "take n x"] that assms by (simp add: p_def)
  have 4: "x ! (p + (n - p - q) - 1) \<notin> set (take k cs)" if pos: "0 < n - p - q"
    using nth_length_takeWhile[of ?P "rev y"] pos ly by (simp add: q_def[symmetric] rev_nth yn)
  show ?thesis using run 1 2 3 4 p q by (intro exI[of _ p] exI[of _ "n - p - q"]) auto
qed

subsection \<open>Properties\<close>

text \<open>
  Copying inside one object is a move: \<open>byte_copy\<close> is right whenever the destination does
  not start inside the source behind its first byte, \<open>byte_copyr\<close> whenever the source does not
  start inside the destination behind its first byte. Together they cover every overlap.
\<close>

theorem byte_copy_moves:
  assumes "p + n \<le> length m" "i + n \<le> length m"
  shows "(p \<le> i \<or> i + n \<le> p \<longrightarrow> byte_copy_within m p n i = Some (splice m p (take n (drop i m)))) \<and>
         (i \<le> p \<or> p + n \<le> i \<longrightarrow> byte_copyr_within m p n i = Some (splice m p (take n (drop i m))))"
  using byte_copy_within_eq[of p n m i] byte_copyr_within_eq[of p n m i] assms by blast

theorem byte_copy_moves_witness:
  "byte_copy_within [1, 2, 3, 4] 0 3 1 = Some [2, 3, 4, 4] \<and>
   byte_copyr_within [1, 2, 3, 4] 1 3 0 = Some [1, 1, 2, 3]"
  using byte_copy_moves[of 0 3 "[1, 2, 3, 4]" 1] byte_copy_moves[of 1 3 "[1, 2, 3, 4]" 0]
  by (simp add: splice_def)

text \<open>
  \<open>byte_findb\<close> returns the offset of the first occurrence of the needle in the haystack, and
  the length of the haystack when there is none; it reads neither of them out of bounds.
\<close>

theorem byte_findb_first:
  assumes "hlen \<le> length s" "wlen \<le> length what"
  shows "\<exists>r. byte_findb s hlen what wlen = Some r \<and>
     (if \<exists>j. occurs_at (take wlen what) (take hlen s) j
      then occurs_at (take wlen what) (take hlen s) r \<and>
           (\<forall>j < r. \<not> occurs_at (take wlen what) (take hlen s) j)
      else r = hlen)"
  using byte_findb_spec[OF assms] .

theorem byte_findb_first_witness:
  "\<exists>r. byte_findb [7, 8, 9, 8, 9] 5 [8, 9] 2 = Some r \<and>
     (if \<exists>j. occurs_at (take 2 [8, 9 :: byte]) (take 5 [7, 8, 9, 8, 9]) j
      then occurs_at (take 2 [8, 9 :: byte]) (take 5 [7, 8, 9, 8, 9]) r \<and>
           (\<forall>j < r. \<not> occurs_at (take 2 [8, 9 :: byte]) (take 5 [7, 8, 9, 8, 9]) j)
      else r = 5)"
  by (rule byte_findb_first) simp_all

text \<open>
  The sign of \<open>byte_diff\<close> is the lexicographic order of the two blocks, compared as unsigned
  bytes: it is negative, zero or positive exactly when the first is smaller, equal or greater.
\<close>

theorem byte_diff_order:
  assumes "n \<le> length a" "n \<le> length b"
  shows "\<exists>d. byte_diff a n b = Some d \<and> (d < 0 \<longleftrightarrow> take n a < take n b) \<and>
     (d = 0 \<longleftrightarrow> take n a = take n b) \<and> (0 < d \<longleftrightarrow> take n b < take n a)"
  using bd.cmp_key[OF assms] bd.cmp_pos[OF assms] by blast

theorem byte_diff_order_witness:
  "\<exists>d. byte_diff [1, 0xff] 2 [1, 2] = Some d \<and> (d < 0 \<longleftrightarrow> take 2 [1, 0xff] < take 2 [1, 2 :: byte]) \<and>
     (d = 0 \<longleftrightarrow> take 2 [1, 0xff] = take 2 [1, 2 :: byte]) \<and> (0 < d \<longleftrightarrow> take 2 [1, 2 :: byte] < take 2 [1, 0xff])"
  by (rule byte_diff_order) simp_all

end
