(* ===== verification/Strs.thy ===== *)
theory Strs
  imports Bytes "HOL-Library.Sublist"
begin

text \<open>
  The \<open>str_\<close> routines of \<open>src/lib/str\<close> on terminated strings and the case-insensitive
  \<open>case_\<close> routines of \<open>src/lib/case\<close>.
  A string is the object from the pointer on; running off its end without a terminator is
  \<open>None\<close>.
  The lemmas are stated on objects \<open>cstr w r\<close>: the string \<open>w\<close>, its terminator, anything.
\<close>

subsection \<open>Length and searching\<close>

fun str_len :: "byte list \<Rightarrow> nat option" where
  "str_len [] = None"
| "str_len (x # t) = (if x = 0 then Some 0 else map_option Suc (str_len t))"

fun str_chr :: "byte list \<Rightarrow> byte \<Rightarrow> nat option" where
  "str_chr [] c = None"
| "str_chr (x # t) c = (if x = 0 \<or> x = c then Some 0 else map_option Suc (str_chr t c))"

fun str_rchr_loop :: "byte list \<Rightarrow> byte \<Rightarrow> nat \<Rightarrow> nat option \<Rightarrow> nat option" where
  "str_rchr_loop [] needle i found = None"
| "str_rchr_loop (x # t) needle i found =
     (if x = 0 then Some (case found of Some f \<Rightarrow> f | None \<Rightarrow> i)
      else str_rchr_loop t needle (Suc i) (if x = needle then Some i else found))"

definition str_rchr :: "byte list \<Rightarrow> byte \<Rightarrow> nat option" where
  "str_rchr s needle = str_rchr_loop s needle 0 None"

primrec needle_hit :: "byte \<Rightarrow> byte list \<Rightarrow> nat \<Rightarrow> nat \<Rightarrow> bool option" where
  "needle_hit x needles i 0 = Some False"
| "needle_hit x needles i (Suc k) =
     do { y \<leftarrow> rd needles i; if x = y then Some True else needle_hit x needles (Suc i) k }"

fun str_chrs :: "byte list \<Rightarrow> byte list \<Rightarrow> nat \<Rightarrow> nat option" where
  "str_chrs [] needles nn = None"
| "str_chrs (x # t) needles nn =
     (if x = 0 then Some 0
      else do { h \<leftarrow> needle_hit x needles 0 nn;
                if h then Some 0 else map_option Suc (str_chrs t needles nn) })"

fun str_rchrs_loop :: "byte list \<Rightarrow> byte list \<Rightarrow> nat \<Rightarrow> nat \<Rightarrow> nat option \<Rightarrow> nat option" where
  "str_rchrs_loop [] needles nn i found = None"
| "str_rchrs_loop (x # s) needles nn i found =
     (if x = 0 then Some (case found of Some f \<Rightarrow> f | None \<Rightarrow> i)
      else do { h \<leftarrow> needle_hit x needles 0 nn;
                str_rchrs_loop s needles nn (Suc i) (if h then Some i else found) })"

definition str_rchrs :: "byte list \<Rightarrow> byte list \<Rightarrow> nat \<Rightarrow> nat option" where
  "str_rchrs s needles nn = str_rchrs_loop s needles nn 0 None"

text \<open>\<open>str_basename\<close> on a platform whose separator is \<open>'/'\<close>: the offset of the result.\<close>

definition str_basename :: "byte list \<Rightarrow> nat option" where
  "str_basename s =
     do { n \<leftarrow> str_rchr s 47;
          if n \<noteq> 0 then do { x \<leftarrow> rd s n; if x \<noteq> 0 then Some (n + 1) else Some 0 }
          else Some 0 }"

fun str_is_loop :: "byte list \<Rightarrow> (byte \<Rightarrow> bool) \<Rightarrow> bool option" where
  "str_is_loop [] pred = None"
| "str_is_loop (x # s) pred =
     (if x = 0 then Some True else if \<not> pred x then Some False else str_is_loop s pred)"

definition str_is :: "byte list \<Rightarrow> (byte \<Rightarrow> bool) \<Rightarrow> bool option" where
  "str_is s pred = do { x \<leftarrow> rd s 0; if x = 0 then Some False else str_is_loop s pred }"

text \<open>\<open>str_triml\<close> stops at the first byte that \<^emph>\<open>is\<close> in the set.\<close>

fun str_triml :: "byte list \<Rightarrow> byte list \<Rightarrow> nat \<Rightarrow> byte list option" where
  "str_triml [] charset charsetlen = None"
| "str_triml (x # s) charset charsetlen =
     (if x = 0 then Some (x # s)
      else do { k \<leftarrow> byte_chr charset charsetlen x;
                if k \<noteq> charsetlen then Some (x # s) else str_triml s charset charsetlen })"

subsection \<open>Comparing\<close>

fun str_diff :: "byte list \<Rightarrow> byte list \<Rightarrow> int option" where
  "str_diff (x # s) (y # t) =
     (let j = uint x - uint y in if j \<noteq> 0 then Some j else if y = 0 then Some j else str_diff s t)"
| "str_diff s t = None"

definition str_equal :: "byte list \<Rightarrow> byte list \<Rightarrow> bool option" where
  "str_equal s t = map_option (\<lambda>d. d = 0) (str_diff s t)"

fun str_diffn :: "byte list \<Rightarrow> byte list \<Rightarrow> nat \<Rightarrow> int option" where
  "str_diffn s t 0 = Some 0"
| "str_diffn (x # s) (y # t) (Suc n) =
     (let j = uint x - uint y in if j \<noteq> 0 then Some j else if y = 0 then Some j else str_diffn s t n)"
| "str_diffn s t (Suc n) = None"

fun str_startb :: "byte list \<Rightarrow> byte list \<Rightarrow> nat \<Rightarrow> bool option" where
  "str_startb a x 0 = Some True"
| "str_startb (c # a) (d # x) (Suc n) = (if c \<noteq> d then Some False else str_startb a x n)"
| "str_startb a x (Suc n) = None"

definition str_start :: "byte list \<Rightarrow> byte list \<Rightarrow> bool option" where
  "str_start a b = do { n \<leftarrow> str_len b; str_startb a b n }"

definition str_endb :: "byte list \<Rightarrow> byte list \<Rightarrow> nat \<Rightarrow> bool option" where
  "str_endb a x n =
     do { alen \<leftarrow> str_len a;
          if alen \<ge> n then byte_equal (drop (alen - n) a) n x else Some False }"

definition str_end :: "byte list \<Rightarrow> byte list \<Rightarrow> bool option" where
  "str_end a b = do { n \<leftarrow> str_len b; str_endb a b n }"

text \<open>
  The case-insensitive \<open>str_case_\<close> routines read plain \<open>char\<close>s, which are signed.
\<close>

definition fold_schar :: "byte \<Rightarrow> int" where
  "fold_schar c = (let x = sint c in if 65 \<le> x \<and> x \<le> 90 then x + 32 else x)"

fun str_case_diff :: "byte list \<Rightarrow> byte list \<Rightarrow> int option" where
  "str_case_diff (c # s) (d # t) =
     (let x = fold_schar c; y = fold_schar d
      in if x \<noteq> y \<or> x = 0 \<or> y = 0 then Some (x - y) else str_case_diff s t)"
| "str_case_diff s t = None"

definition str_case_equal :: "byte list \<Rightarrow> byte list \<Rightarrow> bool option" where
  "str_case_equal s t = map_option (\<lambda>d. d = 0) (str_case_diff s t)"

fun str_case_diffn :: "byte list \<Rightarrow> byte list \<Rightarrow> nat \<Rightarrow> int option" where
  "str_case_diffn s t 0 = Some 0"
| "str_case_diffn (c # s) (d # t) (Suc n) =
     (let x = fold_schar c; y = fold_schar d
      in if n = 0 \<or> x \<noteq> y \<or> x = 0 \<or> y = 0 then Some (x - y) else str_case_diffn s t n)"
| "str_case_diffn s t (Suc n) = None"

fun str_case_start :: "byte list \<Rightarrow> byte list \<Rightarrow> bool option" where
  "str_case_start (c # s) (d # t) =
     (let x = fold_schar c; y = fold_schar d
      in if x = 0 then Some False else if y = 0 then Some True
         else if x \<noteq> y then Some False else str_case_start s t)"
| "str_case_start s t = None"

subsection \<open>Finding a string in a string\<close>

function findb_inner :: "byte list \<Rightarrow> byte list \<Rightarrow> nat \<Rightarrow> nat \<Rightarrow> bool option" where
  "findb_inner x b n j =
     (if j < length x \<and> j < length b then
        if x ! j = b ! j then if Suc j = n then Some True else findb_inner x b n (Suc j)
        else Some False
      else None)"
  by pat_completeness auto
termination
  by (relation "measure (\<lambda>(x, b, n, j). length x - j)") auto

declare findb_inner.simps [simp del]

primrec str_findb_loop :: "byte list \<Rightarrow> byte list \<Rightarrow> nat \<Rightarrow> nat \<Rightarrow> nat \<Rightarrow> nat \<Rightarrow> nat option" where
  "str_findb_loop s1 x n len i 0 = Some len"
| "str_findb_loop s1 x n len i (Suc k) =
     do { h \<leftarrow> findb_inner x (drop i s1) n 0;
          if h then Some i else str_findb_loop s1 x n len (Suc i) k }"

definition str_findb :: "byte list \<Rightarrow> byte list \<Rightarrow> nat \<Rightarrow> nat option" where
  "str_findb s1 x n =
     do { len \<leftarrow> str_len s1;
          if len \<ge> n then str_findb_loop s1 x n len 0 (len - n + 1) else Some len }"

definition str_find :: "byte list \<Rightarrow> byte list \<Rightarrow> nat option" where
  "str_find s what = do { n \<leftarrow> str_len what; str_findb s what n }"

primrec str_rfindb_loop :: "byte list \<Rightarrow> byte list \<Rightarrow> nat \<Rightarrow> nat \<Rightarrow> nat \<Rightarrow> nat option" where
  "str_rfindb_loop s1 x n len 0 = Some len"
| "str_rfindb_loop s1 x n len (Suc p) =
     do { h \<leftarrow> findb_inner x (drop p s1) n 0;
          if h then Some p else str_rfindb_loop s1 x n len p }"

definition str_rfindb :: "byte list \<Rightarrow> byte list \<Rightarrow> nat \<Rightarrow> nat option" where
  "str_rfindb s1 x n =
     do { len \<leftarrow> str_len s1;
          if n = 0 then Some len
          else do { x0 \<leftarrow> rd x 0;
                    if x0 = 0 then Some len
                    else str_rfindb_loop s1 x n len (if n \<le> len then len - n + 1 else 0) } }"

definition str_rfind :: "byte list \<Rightarrow> byte list \<Rightarrow> nat option" where
  "str_rfind s what = do { n \<leftarrow> str_len what; str_rfindb s what n }"

subsection \<open>Copying\<close>

text \<open>The destination is an object and an offset; the copied string lies in another object.\<close>

fun str_copy_loop :: "byte list \<Rightarrow> nat \<Rightarrow> byte list \<Rightarrow> (byte list \<times> nat) option" where
  "str_copy_loop out s [] = None"
| "str_copy_loop out s (x # t) =
     do { out' \<leftarrow> wr out s x; if x = 0 then Some (out', s) else str_copy_loop out' (Suc s) t }"

definition str_copy :: "byte list \<Rightarrow> byte list \<Rightarrow> (byte list \<times> nat) option" where
  "str_copy out src = str_copy_loop out 0 src"

definition str_cat :: "byte list \<Rightarrow> byte list \<Rightarrow> (byte list \<times> nat) option" where
  "str_cat out src = do { len \<leftarrow> str_len out; str_copy_loop out len src }"

fun str_copyn_loop :: "byte list \<Rightarrow> nat \<Rightarrow> byte list \<Rightarrow> nat \<Rightarrow> (byte list \<times> nat) option" where
  "str_copyn_loop out s t 0 = do { out' \<leftarrow> wr out s 0; Some (out', s) }"
| "str_copyn_loop out s [] (Suc n) = None"
| "str_copyn_loop out s (x # t) (Suc n) =
     do { out' \<leftarrow> wr out s x; if x = 0 then Some (out', s) else str_copyn_loop out' (Suc s) t n }"

definition str_copyn :: "byte list \<Rightarrow> byte list \<Rightarrow> nat \<Rightarrow> (byte list \<times> nat) option" where
  "str_copyn out src n = str_copyn_loop out 0 src n"

fun str_copyb_loop :: "byte list \<Rightarrow> nat \<Rightarrow> byte list \<Rightarrow> nat \<Rightarrow> (byte list \<times> nat) option" where
  "str_copyb_loop out s t 0 = Some (out, s)"
| "str_copyb_loop out s [] (Suc n) = None"
| "str_copyb_loop out s (x # t) (Suc n) =
     do { out' \<leftarrow> wr out s x; if x = 0 then Some (out', s) else str_copyb_loop out' (Suc s) t n }"

definition str_copyb :: "byte list \<Rightarrow> byte list \<Rightarrow> nat \<Rightarrow> (byte list \<times> nat) option" where
  "str_copyb out src n = str_copyb_loop out 0 src n"

fun catn_skip :: "byte list \<Rightarrow> nat \<Rightarrow> nat option" where
  "catn_skip [] n = None"
| "catn_skip (x # s) 0 = Some 0"
| "catn_skip (x # s) (Suc n) = (if x = 0 then Some 0 else map_option Suc (catn_skip s n))"

definition str_catn :: "byte list \<Rightarrow> byte list \<Rightarrow> nat \<Rightarrow> (byte list \<times> nat) option" where
  "str_catn out src n =
     do { len \<leftarrow> catn_skip out n; str_copyn_loop out len src (n - len) }"

fun str_lower :: "byte list \<Rightarrow> byte list option" where
  "str_lower [] = None"
| "str_lower (c # s) =
     (let x = sint c in
      if x = 0 then Some (c # s)
      else map_option ((#) (if 65 \<le> x \<and> x \<le> 90 then word_of_int (x + 97 - 65) else c)) (str_lower s))"

text \<open>
  The two routines that allocate: \<open>mem\<close> is what \<open>malloc\<close> returned, \<open>None\<close> for
  \<open>NULL\<close> and otherwise an object of the requested size with arbitrary contents.
\<close>

definition str_ndup :: "byte list option \<Rightarrow> byte list \<Rightarrow> nat \<Rightarrow> byte list option option" where
  "str_ndup mem s n =
     (case mem of None \<Rightarrow> Some None
      | Some r \<Rightarrow> do { r \<leftarrow> byte_copy r 0 n s 0; r \<leftarrow> wr r n 0; Some (Some r) })"

definition str_dup :: "byte list option \<Rightarrow> byte list \<Rightarrow> byte list option option" where
  "str_dup mem s =
     do { len \<leftarrow> str_len s;
          case mem of None \<Rightarrow> Some None
          | Some r \<Rightarrow> do { r \<leftarrow> byte_copy r 0 (len + 1) s 0; Some (Some r) } }"

subsection \<open>Case-insensitive routines on unsigned characters\<close>

definition case_fold :: "byte \<Rightarrow> byte" where
  "case_fold c = (let x = c - 65 in if x \<le> 90 - 65 then x + 97 else x + 65)"

fun case_diffb :: "byte list \<Rightarrow> nat \<Rightarrow> byte list \<Rightarrow> int option" where
  "case_diffb s 0 t = Some 0"
| "case_diffb (c # s) (Suc n) (d # t) =
     (let x = case_fold c; y = case_fold d
      in if x \<noteq> y then Some (uint x - uint y) else case_diffb s n t)"
| "case_diffb s (Suc n) t = None"

fun case_diffs :: "byte list \<Rightarrow> byte list \<Rightarrow> int option" where
  "case_diffs (c # s) (d # t) =
     (let x = case_fold c; y = case_fold d
      in if x \<noteq> y \<or> x = 0 then Some (uint x - uint y) else case_diffs s t)"
| "case_diffs s t = None"

fun case_starts :: "byte list \<Rightarrow> byte list \<Rightarrow> bool option" where
  "case_starts s [] = None"
| "case_starts s (d # t) =
     (if d = 0 then Some True
      else case s of
             [] \<Rightarrow> None
           | c # s' \<Rightarrow> (let x = case_fold c; y = case_fold d
                        in if x \<noteq> y \<or> x = 0 then Some False else case_starts s' t))"

primrec case_findb_loop :: "byte list \<Rightarrow> nat \<Rightarrow> byte list \<Rightarrow> nat \<Rightarrow> nat \<Rightarrow> nat \<Rightarrow> nat option" where
  "case_findb_loop s hlen what wlen i 0 = Some hlen"
| "case_findb_loop s hlen what wlen i (Suc k) =
     do { d \<leftarrow> case_diffb (drop i s) wlen what;
          if d = 0 then Some i else case_findb_loop s hlen what wlen (Suc i) k }"

definition case_findb :: "byte list \<Rightarrow> nat \<Rightarrow> byte list \<Rightarrow> nat \<Rightarrow> nat option" where
  "case_findb s hlen what wlen =
     (if hlen < wlen then Some hlen
      else let last = hlen - wlen in case_findb_loop s hlen what wlen 0 (last + 1))"

definition case_finds :: "byte list \<Rightarrow> nat \<Rightarrow> byte list \<Rightarrow> nat option" where
  "case_finds s hlen what = do { n \<leftarrow> str_len what; case_findb s hlen what n }"

definition case_find :: "byte list \<Rightarrow> byte list \<Rightarrow> nat option" where
  "case_find s what = do { n \<leftarrow> str_len s; case_finds s n what }"

definition case_lowerc :: "int \<Rightarrow> int" where
  "case_lowerc c = (if 65 \<le> c \<and> c \<le> 90 then c + (97 - 65) else c)"

fun case_lowerb :: "byte list \<Rightarrow> nat \<Rightarrow> byte list option" where
  "case_lowerb s 0 = Some s"
| "case_lowerb [] (Suc n) = None"
| "case_lowerb (c # s) (Suc n) =
     (let x = c - 65 in map_option ((#) (if x \<le> 90 - 65 then x + 97 else c)) (case_lowerb s n))"

fun case_lowers :: "byte list \<Rightarrow> byte list option" where
  "case_lowers [] = None"
| "case_lowers (c # s) =
     (if c = 0 then Some (c # s)
      else let x = c - 65 in map_option ((#) (if x \<le> 90 - 65 then x + 97 else c)) (case_lowers s))"

text \<open>The routines of \<open>byte.h\<close> that take a terminated string.\<close>

definition byte_starts :: "byte list \<Rightarrow> nat \<Rightarrow> byte list \<Rightarrow> bool option" where
  "byte_starts x n s = do { k \<leftarrow> str_len s; byte_startb x n s k }"

definition byte_ends :: "byte list \<Rightarrow> nat \<Rightarrow> byte list \<Rightarrow> bool option" where
  "byte_ends x n s = do { k \<leftarrow> str_len s; byte_endb x n s k }"

definition byte_finds :: "byte list \<Rightarrow> nat \<Rightarrow> byte list \<Rightarrow> nat option" where
  "byte_finds s hlen what = do { k \<leftarrow> str_len what; byte_findb s hlen what k }"

subsection \<open>Lengths and searches on a terminated string\<close>

lemma str_len_cstr [simp, cstr_simps]: "nonul w \<Longrightarrow> str_len (cstr w r) = Some (length w)"
  by (induction w) auto

lemma str_len_SomeD:
  "str_len s = Some n \<Longrightarrow> \<exists>r. s = cstr (take n s) r \<and> nonul (take n s) \<and> n < length s"
  by (induction s arbitrary: n rule: str_len.induct) (auto split: if_splits)

lemma str_len_None_iff: "str_len s = None \<longleftrightarrow> nonul s"
  by (induction s rule: str_len.induct) auto

lemma str_chr_cstr [cstr_simps]:
  "nonul w \<Longrightarrow> str_chr (cstr w r) c = Some (length (takeWhile (\<lambda>x. x \<noteq> c) w))"
  by (induction w) auto

lemma str_rchr_loop_cstr:
  "nonul w \<Longrightarrow> \<exists>k. str_rchr_loop (cstr w r) c i found = Some k \<and>
     (c \<in> set w \<longrightarrow> (\<exists>j. k = i + j \<and> j < length w \<and> w ! j = c \<and> c \<notin> set (drop (Suc j) w))) \<and>
     (c \<notin> set w \<longrightarrow> k = (case found of Some f \<Rightarrow> f | None \<Rightarrow> i + length w))"
proof (induction w arbitrary: i found)
  case (Cons x w)
  let ?f = "if x = c then Some i else found"
  obtain k where k: "str_rchr_loop (cstr w r) c (Suc i) ?f = Some k"
    "c \<in> set w \<Longrightarrow> \<exists>j. k = Suc i + j \<and> j < length w \<and> w ! j = c \<and> c \<notin> set (drop (Suc j) w)"
    "c \<notin> set w \<Longrightarrow> k = (case ?f of Some f \<Rightarrow> f | None \<Rightarrow> Suc i + length w)"
    using Cons.IH[of "Suc i" ?f] Cons.prems by auto
  have run: "str_rchr_loop (cstr (x # w) r) c i found = Some k" using Cons.prems k(1) by auto
  show ?case
  proof (cases "c \<in> set w")
    case True
    then obtain j where "k = Suc i + j" "j < length w" "w ! j = c" "c \<notin> set (drop (Suc j) w)"
      using k(2) by blast
    then show ?thesis using run True by (intro exI[of _ k]) (auto intro!: exI[of _ "Suc j"])
  next
    case False
    then show ?thesis using run k(3) by (intro exI[of _ k]) (auto split: option.splits)
  qed
qed (auto split: option.splits)

lemma str_rchr_cstr:
  assumes "nonul w"
  obtains k where "str_rchr (cstr w r) c = Some k"
    "c \<in> set w \<Longrightarrow> k < length w \<and> w ! k = c \<and> c \<notin> set (drop (Suc k) w)"
    "c \<notin> set w \<Longrightarrow> k = length w"
  using str_rchr_loop_cstr[OF assms, of r c 0 None] by (auto simp: str_rchr_def)

lemma needle_hit_iff:
  "i + k \<le> length needles \<Longrightarrow> needle_hit x needles i k = Some (x \<in> set (take k (drop i needles)))"
proof (induction k arbitrary: i)
  case (Suc k)
  then have "drop i needles = needles ! i # drop (Suc i) needles" by (simp add: Cons_nth_drop_Suc)
  with Suc show ?case by auto
qed simp

lemma str_chrs_cstr [cstr_simps]:
  "nonul w \<Longrightarrow> nn \<le> length needles \<Longrightarrow>
     str_chrs (cstr w r) needles nn = Some (length (takeWhile (\<lambda>x. x \<notin> set (take nn needles)) w))"
  by (induction w) (auto simp: needle_hit_iff)

lemma str_triml_cstr:
  "nonul w \<Longrightarrow> n \<le> length cs \<Longrightarrow>
     str_triml (cstr w r) cs n = Some (cstr (dropWhile (\<lambda>x. x \<notin> set (take n cs)) w) r)"
  by (induction w) (auto simp: byte_chr_takeWhile byte_chr_eq_iff)

lemma str_is_cstr: "nonul w \<Longrightarrow> str_is (cstr w r) p = Some (w \<noteq> [] \<and> (\<forall>x \<in> set w. p x))"
proof -
  have loop: "nonul v \<Longrightarrow> str_is_loop (cstr v r) p = Some (\<forall>x \<in> set v. p x)" for v
    by (induction v) auto
  assume "nonul w"
  then show ?thesis using loop[of w] by (cases w) (auto simp: str_is_def)
qed

subsection \<open>Comparisons of terminated strings\<close>

lemma str_diff_cstr:
  "nonul v \<Longrightarrow> nonul w \<Longrightarrow>
     \<exists>d. str_diff (cstr v r) (cstr w q) = Some d \<and> (d < 0 \<longleftrightarrow> v < w) \<and> (d = 0 \<longleftrightarrow> v = w)"
proof (induction v arbitrary: w)
  case Nil
  have pos: "y \<noteq> 0 \<Longrightarrow> 0 < uint y" for y :: byte by (simp add: word_neq_0_conv word_less_def)
  from Nil show ?case by (cases w) (auto simp: Let_def pos unsigned_eq_0_iff)
next
  case (Cons x v)
  then show ?case by (cases w) (auto simp: Let_def word_less_def word_uint_eq_iff)
qed

text \<open>The terminated strings, as the domain of the string comparisons, and their text.\<close>

definition terminated :: "byte list \<Rightarrow> bool" where
  "terminated s \<longleftrightarrow> 0 \<in> set s"

definition text_of :: "byte list \<Rightarrow> byte list" where
  "text_of s = takeWhile (\<lambda>x. x \<noteq> 0) s"

lemma terminatedE:
  assumes "terminated s"
  obtains w r where "s = cstr w r" "nonul w" "text_of s = w"
proof -
  let ?w = "takeWhile (\<lambda>x. x \<noteq> 0) s"
  obtain u r where "s = u @ 0 # r" "0 \<notin> set u"
    using split_list_first[of 0 s] assms by (auto simp: terminated_def)
  then have "s = cstr ?w r" by (auto simp: cstr_def takeWhile_append)
  moreover have "nonul ?w" by (auto simp: nonul_def dest: set_takeWhileD)
  ultimately show thesis using that by (simp add: text_of_def)
qed

lemma text_of_cstr [simp]: "nonul w \<Longrightarrow> text_of (cstr w r) = w"
  by (induction w) (auto simp: text_of_def)

lemma terminated_cstr [simp]: "terminated (cstr w r)"
  by (simp add: terminated_def cstr_def)

interpretation sd: comparator str_diff terminated text_of
  by unfold_locales (metis str_diff_cstr terminatedE)

lemma str_equal_cstr [cstr_simps]:
  "nonul v \<Longrightarrow> nonul w \<Longrightarrow> str_equal (cstr v r) (cstr w q) = Some (v = w)"
  using str_diff_cstr[of v w r q] by (auto simp: str_equal_def)

lemma str_diffn_take:
  "nonul v \<Longrightarrow> nonul w \<Longrightarrow>
     \<exists>d. str_diffn (cstr v r) (cstr w q) n = Some d \<and> (d = 0 \<longleftrightarrow> take n v = take n w)"
proof (induction n arbitrary: v w)
  case (Suc n)
  then show ?case by (cases v; cases w) (auto simp: Let_def word_uint_eq_iff)
qed simp

lemma str_startb_prefix:
  "n \<le> length b \<Longrightarrow> nonul b \<Longrightarrow> nonul a \<Longrightarrow>
     str_startb (cstr a r) (cstr b q) n = Some (prefix (take n b) a)"
proof (induction n arbitrary: a b)
  case (Suc n)
  then show ?case by (cases a; cases b) auto
qed simp

lemma str_start_cstr [cstr_simps]:
  "nonul a \<Longrightarrow> nonul b \<Longrightarrow> str_start (cstr a r) (cstr b q) = Some (prefix b a)"
  using str_startb_prefix[of "length b" b a r q] by (simp add: str_start_def)

lemma take_drop_cstr:
  "i + n \<le> length w \<Longrightarrow> take n (drop i (cstr w r)) = take n (drop i w)"
  by (simp add: cstr_def)

lemma str_end_cstr [cstr_simps]:
  assumes "nonul a" "nonul b"
  shows "str_end (cstr a r) (cstr b q) = Some (suffix b a)"
proof (cases "length b \<le> length a")
  case True
  then have "byte_equal (drop (length a - length b) (cstr a r)) (length b) (cstr b q) =
      Some (drop (length a - length b) a = b)"
    by (simp add: byte_equal_iff take_drop_cstr take_cstr)
  moreover have "drop (length a - length b) a = b \<longleftrightarrow> suffix b a"
    using True by (auto simp: suffix_def) (metis append_take_drop_id)
  ultimately show ?thesis using True assms by (simp add: str_end_def str_endb_def)
next
  case False
  then have "\<not> suffix b a" using suffix_length_le by blast
  with False assms show ?thesis by (simp add: str_end_def str_endb_def)
qed

lemma fold_schar_0 [simp]: "fold_schar c = 0 \<longleftrightarrow> c = 0"
  by (auto simp: fold_schar_def Let_def signed_eq_0_iff)

lemma fold_schar_nul [simp]: "fold_schar 0 = 0"
  by simp

lemma str_case_diff_cstr:
  "nonul v \<Longrightarrow> nonul w \<Longrightarrow>
     \<exists>d. str_case_diff (cstr v r) (cstr w q) = Some d \<and>
         (d < 0 \<longleftrightarrow> map fold_schar v @ [0] < map fold_schar w @ [0]) \<and>
         (d = 0 \<longleftrightarrow> map fold_schar v = map fold_schar w)"
proof (induction v arbitrary: w)
  case Nil
  then show ?case by (cases w) (auto simp: Let_def eq_commute[of 0])
next
  case (Cons x v)
  then show ?case by (cases w) (auto simp: Let_def)
qed

interpretation scd: comparator str_case_diff terminated "\<lambda>s. map fold_schar (text_of s) @ [0]"
proof
  fix x y assume "terminated x" "terminated y"
  then obtain v r w q where "x = cstr v r" "y = cstr w q" "nonul v" "nonul w"
    by (metis terminatedE)
  then show "\<exists>d. str_case_diff x y = Some d \<and>
      (d < 0 \<longleftrightarrow> map fold_schar (text_of x) @ [0] < map fold_schar (text_of y) @ [0]) \<and>
      (d = 0 \<longleftrightarrow> map fold_schar (text_of x) @ [0] = map fold_schar (text_of y) @ [0])"
    using str_case_diff_cstr[of v w r q] by simp
qed

lemma str_case_start_cstr:
  "nonul a \<Longrightarrow> nonul b \<Longrightarrow>
     str_case_start (cstr a r) (cstr b q) =
       Some (strict_prefix (map fold_schar b) (map fold_schar a))"
proof (induction b arbitrary: a)
  case Nil then show ?case by (cases a) auto
next
  case (Cons y b) then show ?case by (cases a) (auto simp: Let_def)
qed

subsection \<open>Finding a string\<close>

lemma findb_inner_spec:
  assumes "j < n" "n \<le> length x" "n \<le> length b"
  shows "findb_inner x b n j = Some (take (n - j) (drop j x) = take (n - j) (drop j b))"
  using assms
proof (induction x b n j rule: findb_inner.induct)
  case (1 x b n j)
  have x: "drop j x = x ! j # drop (Suc j) x" and b: "drop j b = b ! j # drop (Suc j) b"
    using "1.prems" by (simp_all add: Cons_nth_drop_Suc)
  show ?case
  proof (cases "Suc j = n")
    case True
    with "1.prems" show ?thesis
      unfolding x b by (subst findb_inner.simps) auto
  next
    case False
    then have nj: "n - j = Suc (n - Suc j)" using "1.prems" by simp
    show ?thesis
      using 1 False unfolding x b nj by (subst findb_inner.simps) auto
  qed
qed

text \<open>
  Reading through the strings stops at the first difference, so a needle longer than what is left
  of the string is never read past the terminator.
\<close>

lemma findb_inner_at_end:
  assumes "nonul x" "j \<le> length b" "take j x = take j b" "length b < n" "n \<le> length x"
  shows "findb_inner (cstr x r) (cstr b q) n j = Some False"
  using assms
proof (induction "length b - j" arbitrary: j)
  case 0
  then have j: "j = length b" by simp
  moreover have "cstr x r ! j \<noteq> 0" using 0 j by (simp add: nth_cstr nonul_nth)
  moreover have "j < length x" using 0 j by simp
  ultimately show ?case by (subst findb_inner.simps) auto
next
  case (Suc d)
  then have j: "j < length b" "j < length x" by auto
  show ?case
  proof (cases "x ! j = b ! j")
    case True
    then have "take (Suc j) x = take (Suc j) b" using Suc.prems j by (simp add: take_Suc_conv_app_nth)
    then have "findb_inner (cstr x r) (cstr b q) n (Suc j) = Some False"
      using Suc.hyps(2) Suc.prems j by (intro Suc.hyps(1)) auto
    with j Suc.prems True show ?thesis by (subst findb_inner.simps) (simp add: nth_cstr)
  next
    case False
    with j show ?thesis by (subst findb_inner.simps) (simp add: nth_cstr)
  qed
qed

lemma findb_inner_cstr:
  assumes "nonul x" "x \<noteq> []" "i \<le> length w"
  shows "findb_inner (cstr x r) (drop i (cstr w q)) (length x) 0 = Some (occurs_at x w i)"
proof (cases "i + length x \<le> length w")
  case True
  then have "findb_inner (cstr x r) (drop i (cstr w q)) (length x) 0 =
      Some (take (length x) (cstr x r) = take (length x) (drop i (cstr w q)))"
    using assms by (subst findb_inner_spec) auto
  with True show ?thesis by (auto simp: take_cstr take_drop_cstr occurs_at_def)
next
  case False
  then show ?thesis
    using assms findb_inner_at_end[of x 0 "drop i w" "length x" r q]
    by (simp add: drop_cstr occurs_at_def)
qed

lemma str_findb_loop_spec:
  assumes "nonul x" "x \<noteq> []" "i + k \<le> Suc (length w)"
  shows "\<exists>p. str_findb_loop (cstr w q) (cstr x r) (length x) len i k = Some p \<and>
     ((p = len \<and> (\<forall>j. i \<le> j \<and> j < i + k \<longrightarrow> \<not> occurs_at x w j)) \<or>
      (i \<le> p \<and> p < i + k \<and> occurs_at x w p \<and> (\<forall>j. i \<le> j \<and> j < p \<longrightarrow> \<not> occurs_at x w j)))"
  using assms
proof (induction k arbitrary: i)
  case (Suc k)
  have inner: "findb_inner (cstr x r) (drop i (cstr w q)) (length x) 0 = Some (occurs_at x w i)"
    using Suc.prems by (intro findb_inner_cstr) auto
  show ?case
  proof (cases "occurs_at x w i")
    case True with inner show ?thesis by auto
  next
    case False
    obtain p where p: "str_findb_loop (cstr w q) (cstr x r) (length x) len (Suc i) k = Some p"
      "(p = len \<and> (\<forall>j. Suc i \<le> j \<and> j < Suc i + k \<longrightarrow> \<not> occurs_at x w j)) \<or>
       (Suc i \<le> p \<and> p < Suc i + k \<and> occurs_at x w p \<and> (\<forall>j. Suc i \<le> j \<and> j < p \<longrightarrow> \<not> occurs_at x w j))"
      using Suc.IH[of "Suc i"] Suc.prems by auto
    have less: "i \<le> j \<longleftrightarrow> j = i \<or> Suc i \<le> j" for j by auto
    from p False inner show ?thesis by (intro exI[of _ p]) (auto simp: less)
  qed
qed auto

lemma str_find_cstr:
  assumes "nonul w" "nonul x" "x \<noteq> []"
  obtains p where "str_find (cstr w q) (cstr x r) = Some p"
    "(\<exists>j. occurs_at x w j) \<Longrightarrow> occurs_at x w p \<and> (\<forall>j < p. \<not> occurs_at x w j)"
    "\<not> (\<exists>j. occurs_at x w j) \<Longrightarrow> p = length w"
proof (cases "length x \<le> length w")
  case True
  let ?k = "length w - length x + 1"
  obtain p where p: "str_findb_loop (cstr w q) (cstr x r) (length x) (length w) 0 ?k = Some p"
    "(p = length w \<and> (\<forall>j < ?k. \<not> occurs_at x w j)) \<or>
     (p < ?k \<and> occurs_at x w p \<and> (\<forall>j < p. \<not> occurs_at x w j))"
    using str_findb_loop_spec[of x 0 ?k w q r "length w"] assms True by auto
  have lim: "occurs_at x w j \<Longrightarrow> j < ?k" for j by (auto simp: occurs_at_def)
  have "str_find (cstr w q) (cstr x r) = Some p"
    using p(1) assms True by (simp add: str_find_def str_findb_def)
  then show thesis using that p(2) lim by blast
next
  case False
  then have "\<not> occurs_at x w j" for j by (auto simp: occurs_at_def)
  with False assms that show thesis by (auto simp: str_find_def str_findb_def)
qed

text \<open>
  With an empty needle the inner loop compares a byte before it tests its counter: at the end of the
  string the two terminators match and it runs on past both of them.
\<close>

lemma str_find_empty: "nonul w \<Longrightarrow> str_find (cstr w q) [0] = None"
proof -
  assume w: "nonul w"
  have inner: "findb_inner [0] (drop i (cstr w q)) 0 0 =
      (if i < length w then Some False else None)" if "i \<le> length w" for i
    using that w by (subst findb_inner.simps, subst findb_inner.simps) (auto simp: nth_cstr nonul_nth)
  have "i + k = Suc (length w) \<Longrightarrow> 0 < k \<Longrightarrow> str_findb_loop (cstr w q) [0] 0 len i k = None" for i k len
  proof (induction k arbitrary: i)
    case (Suc k)
    then show ?case using inner[of i] by (cases k) auto
  qed simp
  from this[of 0 "Suc (length w)" "length w"] show ?thesis
    using w by (simp add: str_find_def str_findb_def del: str_findb_loop.simps)
qed

subsection \<open>Copying strings\<close>

lemma str_copy_loop_cstr:
  "nonul w \<Longrightarrow> p + length w < length m \<Longrightarrow>
     str_copy_loop m p (cstr w r) = Some (splice m p (w @ [0]), p + length w)"
  by (induction w arbitrary: m p) (auto simp: splice_Cons)

lemma str_copy_cstr:
  "nonul w \<Longrightarrow> length w < length m \<Longrightarrow>
     str_copy m (cstr w r) = Some (cstr w (drop (Suc (length w)) m), length w)"
  using str_copy_loop_cstr[of w 0 m r] by (simp add: str_copy_def splice_def cstr_def)

lemma str_cat_cstr:
  assumes "nonul v" "nonul w" "length w \<le> length r"
  shows "str_cat (cstr v r) (cstr w q) = Some (cstr (v @ w) (drop (length w) r), length v + length w)"
proof -
  have "splice (cstr v r) (length v) (w @ [0]) = cstr (v @ w) (drop (length w) r)"
    by (simp add: splice_def cstr_def)
  then show ?thesis
    using assms str_copy_loop_cstr[of w "length v" "cstr v r" q] by (simp add: str_cat_def)
qed

lemma str_copyn_loop_cstr:
  "nonul w \<Longrightarrow> p + min n (length w) < length m \<Longrightarrow>
     str_copyn_loop m p (cstr w r) n = Some (splice m p (take n w @ [0]), p + min n (length w))"
proof (induction w arbitrary: m p n)
  case Nil then show ?case by (cases n) (auto simp: splice_Cons)
next
  case (Cons x w) then show ?case by (cases n) (auto simp: splice_Cons)
qed

lemma str_copyb_loop_cstr:
  "nonul w \<Longrightarrow> p + min n (Suc (length w)) \<le> length m \<Longrightarrow>
     str_copyb_loop m p (cstr w r) n = Some (splice m p (take n (w @ [0])), p + min n (length w))"
proof (induction w arbitrary: m p n)
  case Nil then show ?case by (cases n) (auto simp: splice_Cons)
next
  case (Cons x w) then show ?case by (cases n) (auto simp: splice_Cons)
qed

lemma catn_skip_cstr: "nonul w \<Longrightarrow> catn_skip (cstr w r) n = Some (min n (length w))"
proof (induction w arbitrary: n)
  case Nil then show ?case by (cases n) auto
next
  case (Cons x w) then show ?case by (cases n) auto
qed

lemma str_ndup_eq:
  "n \<le> length s \<Longrightarrow> length r = n + 1 \<Longrightarrow> str_ndup (Some r) s n = Some (Some (take n s @ [0]))"
  by (auto simp: str_ndup_def byte_copy_eq splice_def list_update_append min_absorb2 length_Suc_conv_rev)

lemma str_dup_cstr:
  "nonul w \<Longrightarrow> length r = length w + 1 \<Longrightarrow> str_dup (Some r) (cstr w q) = Some (Some (cstr w []))"
proof -
  assume a: "nonul w" "length r = length w + 1"
  have "splice r 0 (take (length w + 1) (cstr w q)) = cstr w []"
    using a by (simp add: splice_def cstr_def)
  then show ?thesis
    using a byte_copy_eq[of 0 "length w + 1" r 0 "cstr w q"]
    by (simp add: str_dup_def del: byte_copy.simps)
qed

subsection \<open>Case-insensitive routines\<close>

lemma case_fold_eq: "case_fold c = (if 65 \<le> c \<and> c \<le> 90 then c + 32 else c)"
  by (auto simp: case_fold_def Let_def word_le_nat_alt unat_sub_if_size word_size split: if_splits)

lemma case_fold_0 [simp]: "case_fold c = 0 \<longleftrightarrow> c = 0"
  by (auto simp: case_fold_eq word_le_def word_uint_eq_iff uint_word_ariths)

lemma case_fold_nul [simp]: "case_fold 0 = 0"
  by simp

lemma case_diffb_key:
  "n \<le> length a \<Longrightarrow> n \<le> length b \<Longrightarrow>
     \<exists>d. case_diffb a n b = Some d \<and> (d < 0 \<longleftrightarrow> map case_fold (take n a) < map case_fold (take n b)) \<and>
         (d = 0 \<longleftrightarrow> map case_fold (take n a) = map case_fold (take n b))"
  by (induction a n b rule: case_diffb.induct) (auto simp: Let_def word_less_def word_uint_eq_iff)

interpretation cdb: comparator "\<lambda>a b. case_diffb a n b" "\<lambda>a. n \<le> length a"
    "\<lambda>a. map case_fold (take n a)" for n
  by unfold_locales (rule case_diffb_key)

lemma case_diffs_cstr:
  "nonul v \<Longrightarrow> nonul w \<Longrightarrow>
     \<exists>d. case_diffs (cstr v r) (cstr w q) = Some d \<and>
         (d < 0 \<longleftrightarrow> map case_fold v < map case_fold w) \<and> (d = 0 \<longleftrightarrow> map case_fold v = map case_fold w)"
proof (induction v arbitrary: w)
  case Nil
  have pos: "y \<noteq> 0 \<Longrightarrow> 0 < uint (case_fold y)" for y
    by (metis case_fold_0 uint_0_iff uint_ge_0 order_le_imp_less_or_eq)
  from Nil show ?case by (cases w) (auto simp: Let_def pos uint_0_iff eq_commute[of 0])
next
  case (Cons x v)
  then show ?case
    by (cases w) (auto simp: Let_def word_less_def uint_0_iff simp flip: word_uint_eq_iff)
qed

interpretation cds: comparator case_diffs terminated "\<lambda>s. map case_fold (text_of s)"
proof
  fix x y assume "terminated x" "terminated y"
  then obtain v r w q where "x = cstr v r" "y = cstr w q" "nonul v" "nonul w"
    by (metis terminatedE)
  then show "\<exists>d. case_diffs x y = Some d \<and>
      (d < 0 \<longleftrightarrow> map case_fold (text_of x) < map case_fold (text_of y)) \<and>
      (d = 0 \<longleftrightarrow> map case_fold (text_of x) = map case_fold (text_of y))"
    using case_diffs_cstr[of v w r q] by simp
qed

lemma case_starts_cstr:
  "nonul a \<Longrightarrow> nonul b \<Longrightarrow>
     case_starts (cstr a r) (cstr b q) = Some (prefix (map case_fold b) (map case_fold a))"
proof (induction b arbitrary: a)
  case (Cons y b)
  then show ?case by (cases a) (auto simp: Let_def eq_commute[of 0])
qed simp

lemma case_lowerb_eq:
  "n \<le> length s \<Longrightarrow> case_lowerb s n = Some (map case_fold (take n s) @ drop n s)"
  by (induction s n rule: case_lowerb.induct) (auto simp: Let_def case_fold_def)

lemma case_lowers_cstr: "nonul w \<Longrightarrow> case_lowers (cstr w r) = Some (cstr (map case_fold w) r)"
  by (induction w) (auto simp: Let_def case_fold_def)

text \<open>\<open>byte_lower\<close> and \<open>case_lowerb\<close>, written differently, are the same routine.\<close>

lemma byte_lower_case_lowerb: "n \<le> length s \<Longrightarrow> byte_lower s n = case_lowerb s n"
  by (simp add: byte_lower_eq case_lowerb_eq case_fold_eq)

lemma case_findb_loop_spec:
  assumes "i + k + wlen \<le> Suc (length s)" "wlen \<le> length what"
  defines "hit \<equiv> occurs_at (map case_fold (take wlen what)) (map case_fold s)"
  shows "\<exists>p. case_findb_loop s hlen what wlen i k = Some p \<and>
     ((p = hlen \<and> (\<forall>j. i \<le> j \<and> j < i + k \<longrightarrow> \<not> hit j)) \<or>
      (i \<le> p \<and> p < i + k \<and> hit p \<and> (\<forall>j. i \<le> j \<and> j < p \<longrightarrow> \<not> hit j)))"
  using assms(1)
proof (induction k arbitrary: i)
  case (Suc k)
  obtain d where d: "case_diffb (drop i s) wlen what = Some d"
    "d = 0 \<longleftrightarrow> map case_fold (take wlen (drop i s)) = map case_fold (take wlen what)"
    using case_diffb_key[of wlen "drop i s" what] Suc.prems assms(2) by fastforce
  then have hit: "d = 0 \<longleftrightarrow> hit i"
    using Suc.prems assms(2) by (auto simp: hit_def occurs_at_def take_map drop_map min_absorb2)
  show ?case
  proof (cases "hit i")
    case True with d(1) hit show ?thesis by auto
  next
    case False
    have less: "i \<le> j \<longleftrightarrow> j = i \<or> Suc i \<le> j" for j by auto
    from Suc.IH[of "Suc i"] Suc.prems False d(1) hit show ?thesis by (auto simp: less)
  qed
qed auto

subsection \<open>Properties\<close>

text \<open>
  \<open>str_find\<close> with a needle that is not empty returns the offset of its first occurrence, and
  the length of the string when there is none.
\<close>

theorem str_find_first:
  assumes "nonul w" "nonul x" "x \<noteq> []"
  shows "\<exists>p. str_find (cstr w q) (cstr x r) = Some p \<and>
     (if \<exists>j. occurs_at x w j then occurs_at x w p \<and> (\<forall>j < p. \<not> occurs_at x w j) else p = length w)"
  using str_find_cstr[OF assms, of q r] by metis

theorem str_find_first_witness:
  "\<exists>p. str_find (cstr (ascii ''foobarbar'') []) (cstr (ascii ''bar'') [1]) = Some p \<and>
     (if \<exists>j. occurs_at (ascii ''bar'') (ascii ''foobarbar'') j
      then occurs_at (ascii ''bar'') (ascii ''foobarbar'') p \<and>
           (\<forall>j < p. \<not> occurs_at (ascii ''bar'') (ascii ''foobarbar'') j)
      else p = length (ascii ''foobarbar''))"
  by (rule str_find_first) simp_all

text \<open>
  \<open>str_cat\<close> on a destination with room for both texts leaves their concatenation there,
  terminated, touches no byte behind the new terminator, and returns the new length.
\<close>

theorem str_cat_appends:
  assumes "nonul v" "nonul w" "length w \<le> length r"
  shows "str_cat (cstr v r) (cstr w q) = Some (cstr (v @ w) (drop (length w) r), length v + length w)"
  using str_cat_cstr[OF assms] .

theorem str_cat_appends_witness:
  "str_cat (cstr (ascii ''ab'') [9, 9, 9]) (cstr (ascii ''c'') []) = Some (cstr (ascii ''abc'') [9, 9], 3)"
  using str_cat_appends[of "ascii ''ab''" "ascii ''c''" "[9, 9, 9]" "[]"] by simp

text \<open>
  The sign of \<open>case_diffs\<close> is the lexicographic order of the two strings with their ASCII
  letters folded: an order for sorting that identifies exactly the strings equal up to case.
\<close>

theorem case_diffs_order:
  assumes "nonul v" "nonul w"
  shows "\<exists>d. case_diffs (cstr v r) (cstr w q) = Some d \<and>
     (d < 0 \<longleftrightarrow> map case_fold v < map case_fold w) \<and> (d = 0 \<longleftrightarrow> map case_fold v = map case_fold w)"
  using case_diffs_cstr[OF assms] .

theorem case_diffs_order_witness:
  "\<exists>d. case_diffs (cstr (ascii ''aB'') []) (cstr (ascii ''Ab'') [7]) = Some d \<and>
     (d < 0 \<longleftrightarrow> map case_fold (ascii ''aB'') < map case_fold (ascii ''Ab'')) \<and>
     (d = 0 \<longleftrightarrow> map case_fold (ascii ''aB'') = map case_fold (ascii ''Ab''))"
  by (rule case_diffs_order) simp_all

text \<open>
  \<open>str_case_start(a, b)\<close> answers whether \<open>b\<close> is a strict prefix of \<open>a\<close> up to case:
  it tests for the end of \<open>a\<close> before the end of \<open>b\<close>, so that a string does not start with
  itself.
\<close>

theorem str_case_start_strict:
  assumes "nonul a" "nonul b"
  shows "str_case_start (cstr a r) (cstr b q) = Some (strict_prefix (map fold_schar b) (map fold_schar a))"
  using str_case_start_cstr[OF assms] .

theorem str_case_start_strict_witness:
  "str_case_start (cstr (ascii ''ab'') []) (cstr (ascii ''ab'') []) = Some False"
  using str_case_start_strict[of "ascii ''ab''" "ascii ''ab''" "[]" "[]"] by simp

text \<open>
  \<open>str_triml\<close> skips the leading characters that are not in the set it is given and stops at
  the first that is: the opposite of what \<open>byte_triml\<close> does with the same arguments.
\<close>

theorem str_triml_inverted:
  assumes "nonul w" "n \<le> length cs"
  shows "str_triml (cstr w r) cs n = Some (cstr (dropWhile (\<lambda>x. x \<notin> set (take n cs)) w) r)"
  using str_triml_cstr[OF assms] .

theorem str_triml_inverted_witness:
  "str_triml (cstr (ascii ''  ab'') []) (ascii '' '') 1 = Some (cstr (ascii ''  ab'') []) \<and>
   str_triml (cstr (ascii ''ab cd'') []) (ascii '' '') 1 = Some (cstr (ascii '' cd'') [])"
  using str_triml_inverted[of "ascii ''  ab''" 1 "ascii '' ''" "[]"]
    str_triml_inverted[of "ascii ''ab cd''" 1 "ascii '' ''" "[]"] by simp

end
