(* ===== verification/Fmt.thy ===== *)
theory Fmt
  imports Numerals Strs
begin

text \<open>
  The formatters of \<open>src/lib/fmt\<close>: numbers in base 8, 10 and 16, signs, padding, hex dumps of
  bytes and the human-readable sizes. A formatter takes whether its destination is there
  (\<open>False\<close> is \<open>FMT_LEN\<close>, the \<open>NULL\<close> destination that only asks for the length) and
  returns the count it returns in C with the bytes it stores from \<open>dest\<close> on. The numeral loops
  store from the last digit to the first, as \<open>*--dest\<close> does. A store through a \<open>NULL\<close>
  destination, a read outside the source and the negation of the least \<open>long\<close> are \<open>None\<close>.
\<close>

subsection \<open>Decimal\<close>

function ulong_len :: "uint64 \<Rightarrow> nat \<Rightarrow> nat" where
  "ulong_len tmp len = (if tmp > 9 then ulong_len (tmp div 10) (len + 1) else len)"
  by pat_completeness auto
termination
proof (relation "measure (\<lambda>(tmp, len). unat tmp)")
  fix tmp :: uint64 and len :: nat
  assume "tmp > 9"
  then show "((tmp div 10, len + 1), tmp, len) \<in> measure (\<lambda>(tmp, len). unat tmp)"
    by (simp add: word_less_nat_alt unat_div)
qed simp

primrec ulong_store :: "nat \<Rightarrow> uint64 \<Rightarrow> byte list \<Rightarrow> byte list" where
  "ulong_store 0 tmp dest = dest"
| "ulong_store (Suc len2) tmp dest = ulong_store len2 (tmp div 10) ((ucast (tmp mod 10) + 0x30) # dest)"

definition fmt_ulong :: "bool \<Rightarrow> uint64 \<Rightarrow> nat \<times> byte list" where
  "fmt_ulong dest i =
     (let len = ulong_len i 1 in (len, if dest then ulong_store len i [] else []))"

definition fmt_ulonglong :: "bool \<Rightarrow> uint64 \<Rightarrow> nat \<times> byte list" where
  "fmt_ulonglong dest i =
     (let len = ulong_len i 1 in (len, if dest then ulong_store len i [] else []))"

definition fmt_ulong0 :: "bool \<Rightarrow> uint64 \<Rightarrow> nat \<Rightarrow> nat \<times> byte list" where
  "fmt_ulong0 dest i pad =
     (let len = ulong_len i 1
      in if dest
         then (len + (pad - len), replicate (pad - len) 0x30 @ snd (fmt_ulong True i))
         else (if len < pad then pad else len, []))"

definition fmt_long :: "bool \<Rightarrow> uint64 \<Rightarrow> (nat \<times> byte list) option" where
  "fmt_long dest i =
     (if sint i < 0
      then if i = 0x8000000000000000 then None
           else let r = fmt_ulong dest (- i)
                in Some (fst r + 1, if dest then 0x2d # snd r else [])
      else Some (fmt_ulong dest i))"

definition fmt_longlong :: "bool \<Rightarrow> uint64 \<Rightarrow> (nat \<times> byte list) option" where
  "fmt_longlong dest i =
     (if sint i < 0
      then if i = 0x8000000000000000 then None
           else let r = fmt_ulonglong dest (- i)
                in Some (fst r + 1, if dest then 0x2d # snd r else [])
      else Some (fmt_ulonglong dest i))"

definition fmt_minus :: "bool \<Rightarrow> int \<Rightarrow> nat \<times> byte list" where
  "fmt_minus dest i = (if i < 0 then (1, if dest then [0x2d] else []) else (0, []))"

definition fmt_plusminus :: "bool \<Rightarrow> int \<Rightarrow> nat \<times> byte list" where
  "fmt_plusminus dest i =
     (if i \<noteq> 0 then (1, if dest then [if i \<ge> 0 then 0x2b else 0x2d] else []) else (0, []))"

subsection \<open>Powers of two\<close>

text \<open>The length and store loops that base 8 and base 16 share, for a digit of \<open>k\<close> bits.\<close>

function shift_len :: "nat \<Rightarrow> uint64 \<Rightarrow> nat \<Rightarrow> nat" where
  "shift_len k tmp len =
     (if tmp > mask k \<and> 0 < k then shift_len k (drop_bit k tmp) (len + 1) else len)"
  by pat_completeness auto
termination
proof (relation "measure (\<lambda>(k, tmp, len). unat tmp)")
  fix k :: nat and tmp :: uint64 and len :: nat
  assume a: "tmp > mask k \<and> 0 < k"
  then have "0 < unat tmp" by (auto simp: word_less_nat_alt)
  then have "unat tmp div 2 ^ k < unat tmp" using a by (intro div_less_dividend one_less_power) auto
  then show "((k, drop_bit k tmp, len + 1), k, tmp, len) \<in> measure (\<lambda>(k, tmp, len). unat tmp)"
    by (simp add: unat_shiftr)
qed simp

function shift_store :: "nat \<Rightarrow> (uint64 \<Rightarrow> byte) \<Rightarrow> uint64 \<Rightarrow> byte list \<Rightarrow> byte list" where
  "shift_store k digit tmp dest =
     (let dest = digit (tmp AND mask k) # dest; tmp' = drop_bit k tmp
      in if tmp' = 0 \<or> k = 0 then dest else shift_store k digit tmp' dest)"
  by pat_completeness auto
termination
proof (relation "measure (\<lambda>(k, digit, tmp, dest). unat tmp)")
  fix k :: nat and digit :: "uint64 \<Rightarrow> byte" and tmp tmp' :: uint64 and dest dest' :: "byte list"
  assume a: "tmp' = drop_bit k tmp" "\<not> (tmp' = 0 \<or> k = 0)"
  then have "0 < unat tmp" by (metis drop_bit_of_0 gr0I unat_eq_zero)
  then have "unat tmp div 2 ^ k < unat tmp" using a by (intro div_less_dividend one_less_power) auto
  then show "((k, digit, tmp', dest'), k, digit, tmp, dest) \<in> measure (\<lambda>(k, digit, tmp, dest). unat tmp)"
    using a by (simp add: unat_shiftr)
qed simp

declare ulong_len.simps [simp del] shift_len.simps [simp del] shift_store.simps [simp del]

definition tohex :: "uint64 \<Rightarrow> byte" where
  "tohex c = ucast (if c \<ge> 10 then c - 10 + 0x61 else c + 0x30)"

definition tooct :: "uint64 \<Rightarrow> byte" where
  "tooct c = ucast (c + 0x30)"

definition fmt_xlong :: "bool \<Rightarrow> uint64 \<Rightarrow> nat \<times> byte list" where
  "fmt_xlong dest i = (shift_len 4 i 1, if dest then shift_store 4 tohex i [] else [])"

definition fmt_xlonglong :: "bool \<Rightarrow> uint64 \<Rightarrow> nat \<times> byte list" where
  "fmt_xlonglong dest i = (shift_len 4 i 1, if dest then shift_store 4 tohex i [] else [])"

definition fmt_xlong0 :: "bool \<Rightarrow> uint64 \<Rightarrow> nat \<Rightarrow> (nat \<times> byte list) option" where
  "fmt_xlong0 dest num n =
     (let len = fst (fmt_xlong False num)
      in if len < n
         then if dest
              then Some (n - len + fst (fmt_xlong True num),
                         replicate (n - len) 0x30 @ snd (fmt_xlong True num))
              else None
         else Some (fmt_xlong dest num))"

definition fmt_8long :: "bool \<Rightarrow> uint64 \<Rightarrow> nat \<times> byte list" where
  "fmt_8long dest i = (shift_len 3 i 1, if dest then shift_store 3 tooct i [] else [])"

definition fmt_octal :: "bool \<Rightarrow> uint64 \<Rightarrow> nat \<times> byte list" where
  "fmt_octal dest i = (shift_len 3 i 1, if dest then shift_store 3 tooct i [] else [])"

definition fmt_tohex :: "byte \<Rightarrow> byte" where
  "fmt_tohex c = (if sint c \<ge> 10 then c - 10 + 0x61 else c + 0x30)"

subsection \<open>Strings, padding and repetition\<close>

definition fmt_str :: "bool \<Rightarrow> byte list \<Rightarrow> (nat \<times> byte list) option" where
  "fmt_str out inp =
     do { n \<leftarrow> str_len inp; Some (n, if out then take n inp @ [0] else []) }"

fun fmt_strn :: "bool \<Rightarrow> byte list \<Rightarrow> nat \<Rightarrow> (nat \<times> byte list) option" where
  "fmt_strn out [] limit = None"
| "fmt_strn out (c # t) limit =
     (if c = 0 \<or> limit = 0 then Some (0, [])
      else do { (n, w) \<leftarrow> fmt_strn out t (limit - 1); Some (n + 1, if out then c # w else w) })"

fun fmt_strm_loop :: "bool \<Rightarrow> byte list list \<Rightarrow> nat \<Rightarrow> byte list \<Rightarrow> (nat \<times> byte list) option" where
  "fmt_strm_loop dest [] n w = Some (n, w)"
| "fmt_strm_loop dest (s # a) n w =
     do { (inc, v) \<leftarrow> fmt_str dest s;
          if n + inc > size_max then Some (size_max, w)
          else fmt_strm_loop dest a (n + inc) (take n w @ v) }"

definition fmt_strm_internal :: "bool \<Rightarrow> byte list list \<Rightarrow> (nat \<times> byte list) option" where
  "fmt_strm_internal dest a = fmt_strm_loop dest a 0 []"

primrec pad_spaces :: "nat \<Rightarrow> nat \<Rightarrow> byte list \<Rightarrow> byte list" where
  "pad_spaces 0 mx dest = dest"
| "pad_spaces (Suc todo) mx dest =
     (if length dest > mx then dest else pad_spaces todo mx (dest @ [0x20]))"

primrec pad_copy :: "nat \<Rightarrow> nat \<Rightarrow> byte list \<Rightarrow> byte list \<Rightarrow> byte list option" where
  "pad_copy 0 mx dest src = Some dest"
| "pad_copy (Suc todo) mx dest src =
     (if length dest > mx then Some dest
      else do { c \<leftarrow> rd src 0; pad_copy todo mx (dest @ [c]) (tl src) })"

definition fmt_pad ::
  "bool \<Rightarrow> byte list \<Rightarrow> uint64 \<Rightarrow> uint64 \<Rightarrow> uint64 \<Rightarrow> (nat \<times> byte list) option" where
  "fmt_pad dest src srclen padlen maxlen =
     (if sint srclen < 0 \<or> sint padlen < 0 \<or> sint maxlen < 0 then Some (0, [])
      else let todo = sint (padlen - srclen)
           in if \<not> dest
              then let sum = if srclen > padlen then srclen else padlen
                   in Some (unat (if sum > maxlen then maxlen else sum), [])
              else let w = pad_spaces (nat todo) (unat maxlen) [];
                       todo = (if srclen > maxlen then maxlen else srclen)
                   in do { w \<leftarrow> pad_copy (unat todo) (unat maxlen) w src; Some (length w, w) })"

text \<open>\<open>fmt_fill\<close> leaves the first \<open>srclen\<close> bytes alone; the bytes returned follow them.\<close>

primrec fill_spaces :: "nat \<Rightarrow> nat \<Rightarrow> nat \<Rightarrow> byte list \<Rightarrow> byte list" where
  "fill_spaces 0 srclen mx dest = dest"
| "fill_spaces (Suc todo) srclen mx dest =
     (if srclen + length dest > mx then dest else fill_spaces todo srclen mx (dest @ [0x20]))"

definition fmt_fill :: "bool \<Rightarrow> uint64 \<Rightarrow> uint64 \<Rightarrow> uint64 \<Rightarrow> nat \<times> byte list" where
  "fmt_fill dest srclen padlen maxlen =
     (if sint padlen < 0 \<or> sint maxlen < 0 then (0, [])
      else if srclen > maxlen then (unat maxlen, [])
      else if \<not> dest
      then let sum = if srclen > padlen then srclen else padlen
           in (unat (if sum > maxlen then maxlen else sum), [])
      else let w = fill_spaces (nat (sint (padlen - srclen))) (unat srclen) (unat maxlen) []
           in (unat srclen + length w, w))"

primrec fmt_repeat_loop :: "nat \<Rightarrow> byte list \<Rightarrow> byte list \<Rightarrow> byte list" where
  "fmt_repeat_loop 0 src w = w"
| "fmt_repeat_loop (Suc n) src w = fmt_repeat_loop n src (w @ src)"

definition fmt_repeat :: "byte list \<Rightarrow> int \<Rightarrow> (nat \<times> byte list) option" where
  "fmt_repeat src n =
     do { slen \<leftarrow> str_len src;
          if n < 0 then None
          else let w = fmt_repeat_loop (nat n) (take slen src) [] in Some (length w, w) }"

subsection \<open>Bytes in hex\<close>

definition hexchars :: "byte list" where
  "hexchars = ascii ''0123456789abcdef''"

primrec hexb_loop :: "nat \<Rightarrow> byte list \<Rightarrow> byte list option" where
  "hexb_loop 0 buf = Some []"
| "hexb_loop (Suc n) buf =
     do { c \<leftarrow> rd buf 0; w \<leftarrow> hexb_loop n (tl buf);
          Some (hexchars ! unat (signed_drop_bit 4 c AND 15) # hexchars ! unat (c AND 15) # w) }"

definition fmt_hexb :: "bool \<Rightarrow> byte list \<Rightarrow> uint32 \<Rightarrow> (uint32 \<times> byte list) option" where
  "fmt_hexb out d len =
     (if out then do { w \<leftarrow> hexb_loop (unat len) d; Some (len * 2, w) } else Some (len * 2, []))"

primrec hexbs_loop :: "nat \<Rightarrow> bool \<Rightarrow> byte list \<Rightarrow> byte list option" where
  "hexbs_loop 0 first buf = Some []"
| "hexbs_loop (Suc n) first buf =
     do { c \<leftarrow> rd buf 0; w \<leftarrow> hexbs_loop n False (tl buf);
          Some ((if first then [] else [0x20]) @
                hexchars ! unat (signed_drop_bit 4 c AND 15) # hexchars ! unat (c AND 15) # w) }"

definition fmt_hexbs :: "bool \<Rightarrow> byte list \<Rightarrow> uint32 \<Rightarrow> (uint32 \<times> byte list) option" where
  "fmt_hexbs out d len =
     (if out then do { w \<leftarrow> hexbs_loop (unat len) True d; Some (len * 3 - 1, w) }
      else Some (len * 3 - 1, []))"

subsection \<open>Human-readable sizes\<close>

definition human_store :: "bool \<Rightarrow> uint64 \<Rightarrow> byte \<Rightarrow> nat \<times> byte list" where
  "human_store dest l unit =
     (if \<not> dest then (fst (fmt_ulong False l) + 2, [])
      else let (i, w) = fmt_ulong True (l div 10)
           in (i + 3, w @ [0x2e, ucast (l mod 10) + 0x30, unit]))"

definition fmt_human :: "bool \<Rightarrow> uint64 \<Rightarrow> nat \<times> byte list" where
  "fmt_human dest l =
     (if l < 1000 then fmt_ulong dest l
      else if l > 1000000000000 then human_store dest ((l div 1000 + 50000000) div 100000000) 0x54
      else if l > 1000000000 then human_store dest ((l + 50000000) div 100000000) 0x47
      else if l > 1000000 then human_store dest ((l + 50000) div 100000) 0x4d
      else human_store dest ((l + 50) div 100) 0x6b)"

definition fmt_humank :: "bool \<Rightarrow> uint64 \<Rightarrow> nat \<times> byte list" where
  "fmt_humank dest l =
     (if l < 1000 then fmt_ulong dest l
      else if l > 1024 * 1024 * 1024 * 1024
      then human_store dest
             ((l + 1024 * 1024 * 1024 * 1024 div 20) div (1024 * 1024 * 1024 * 1024 div 10)) 0x54
      else if l > 1024 * 1024 * 1024
      then human_store dest ((l + 1024 * 1024 * 1024 div 20) div (1024 * 1024 * 1024 div 10)) 0x47
      else if l > 1024 * 1024
      then human_store dest ((l + 1024 * 1024 div 20) div (1024 * 1024 div 10)) 0x4d
      else human_store dest ((l + 1024 div 20) div (1024 div 10)) 0x6b)"

subsection \<open>The digit alphabets\<close>

definition dec_chr :: "nat \<Rightarrow> byte" where
  "dec_chr d = of_nat d + 0x30"

definition dec_dig :: "byte \<Rightarrow> nat option" where
  "dec_dig c = (if c - 0x30 < 10 then Some (unat (c - 0x30)) else None)"

definition oct_dig :: "byte \<Rightarrow> nat option" where
  "oct_dig c = (if c - 0x30 < 8 then Some (unat (c - 0x30)) else None)"

definition hex_chr :: "nat \<Rightarrow> byte" where
  "hex_chr d = (if d < 10 then of_nat d + 0x30 else of_nat d + 0x57)"

definition hex_dig :: "byte \<Rightarrow> nat option" where
  "hex_dig c =
     (if 0x30 \<le> c \<and> c \<le> 0x39 then Some (unat c - 0x30)
      else if 0x41 \<le> c \<and> c \<le> 0x46 then Some (unat c - 0x37)
      else if 0x61 \<le> c \<and> c \<le> 0x66 then Some (unat c - 0x57)
      else None)"

interpretation dec: numeral_base 10 dec_chr dec_dig
proof unfold_locales
  show "dec_dig (dec_chr d) = Some d" if "d < 10" for d
    using that by (simp add: dec_dig_def dec_chr_def word_less_nat_alt unat_of_nat)
  show "d < 10" if "dec_dig c = Some d" for c d
    using that by (auto simp: dec_dig_def word_less_nat_alt split: if_splits)
qed simp

interpretation octal: numeral_base 8 dec_chr oct_dig
proof unfold_locales
  show "oct_dig (dec_chr d) = Some d" if "d < 8" for d
    using that by (simp add: oct_dig_def dec_chr_def word_less_nat_alt unat_of_nat)
  show "d < 8" if "oct_dig c = Some d" for c d
    using that by (auto simp: oct_dig_def word_less_nat_alt split: if_splits)
qed simp

lemma unat_hex_chr: "d < 16 \<Longrightarrow> unat (hex_chr d) = (if d < 10 then d + 0x30 else d + 0x57)"
  by (simp add: hex_chr_def unat_word_ariths unat_of_nat)

interpretation hex: numeral_base 16 hex_chr hex_dig
proof unfold_locales
  show "hex_dig (hex_chr d) = Some d" if "d < 16" for d
    using that by (simp add: hex_dig_def unat_hex_chr word_le_nat_alt)
  show "d < 16" if "hex_dig c = Some d" for c d
    using that by (auto simp: hex_dig_def word_le_nat_alt split: if_splits)
qed simp

subsection \<open>The numeral loops write the digits of the number\<close>

lemma ulong_len_eq: "ulong_len tmp len = len + length (digs 10 (unat tmp)) - 1"
proof (induction tmp len rule: ulong_len.induct)
  case (1 tmp len)
  show ?case
  proof (cases "tmp > 9")
    case True
    then have "10 \<le> unat tmp" by (simp add: word_less_nat_alt)
    then show ?thesis using 1[OF True] True
      by (simp add: ulong_len.simps[of tmp len] digs_step unat_div)
  next
    case False
    then have "unat tmp < 10" by (simp add: word_less_nat_alt)
    then show ?thesis using False by (simp add: ulong_len.simps[of tmp len] digs_small)
  qed
qed

lemma ucast_digit: "(ucast (tmp mod 10 :: uint64) :: byte) = of_nat (unat tmp mod 10)"
proof -
  have "unat tmp mod 10 < 256" by (rule less_trans[of _ 10]) simp_all
  then show ?thesis by (simp add: word_unat_eq_iff unat_ucast_mod unat_mod unat_of_nat)
qed

lemma ulong_store_eq:
  "ulong_store (length (digs 10 (unat tmp))) tmp dest = dec.render (unat tmp) @ dest"
proof (induction "unat tmp" arbitrary: tmp dest rule: less_induct)
  case less
  show ?case
  proof (cases "unat tmp < 10")
    case True
    then show ?thesis
      by (simp add: dec.render_def digs_small dec_chr_def ucast_digit)
  next
    case False
    then have "ulong_store (length (digs 10 (unat (tmp div 10)))) (tmp div 10) (d # dest) =
        dec.render (unat (tmp div 10)) @ d # dest" for d
      by (intro less) (simp add: unat_div)
    then show ?thesis using False
      by (simp add: dec.render_def digs_step dec_chr_def ucast_digit unat_div)
  qed
qed

lemma fmt_ulong_eq:
  "fmt_ulong dest i = (length (dec.render (unat i)), if dest then dec.render (unat i) else [])"
  using ulong_store_eq[of i "[]"] by (simp add: fmt_ulong_def ulong_len_eq dec.render_def)

lemma fmt_ulonglong_eq: "fmt_ulonglong = fmt_ulong"
  by (simp add: fun_eq_iff fmt_ulonglong_def fmt_ulong_def)

lemma shift_len_eq:
  assumes "0 < k" "k < 64"
  shows "shift_len k tmp len = len + length (digs (2 ^ k) (unat tmp)) - 1"
  using assms
proof (induction k tmp len rule: shift_len.induct)
  case (1 k tmp len)
  have b: "(2::nat) \<le> 2 ^ k" using power_increasing[of 1 k "2::nat"] 1(2) by simp
  have gt: "tmp > mask k \<longleftrightarrow> 2 ^ k \<le> unat tmp"
    using 1(3) b by (simp add: word_less_nat_alt unat_mask_lt) linarith
  show ?case
  proof (cases "tmp > mask k")
    case True
    then show ?thesis using 1 True gt b
      by (simp add: shift_len.simps[of k tmp len] digs_step unat_shiftr)
  next
    case False
    then show ?thesis using gt by (simp add: shift_len.simps[of k tmp len] digs_small)
  qed
qed

lemma shift_store_eq:
  assumes "0 < k" "k < 64" "\<And>d. d < 2 ^ k \<Longrightarrow> digit (of_nat d) = chr d"
  shows "shift_store k digit tmp dest = map chr (digs (2 ^ k) (unat tmp)) @ dest"
  using assms
proof (induction k digit tmp dest rule: shift_store.induct)
  case (1 k digit tmp dest)
  have b: "(2::nat) \<le> 2 ^ k" using power_increasing[of 1 k "2::nat"] 1(2) by simp
  have "(of_nat (unat tmp mod 2 ^ k) :: uint64) = tmp AND mask k"
    unfolding unat_and_mask[symmetric] by simp
  then have d: "digit (tmp AND mask k) = chr (unat tmp mod 2 ^ k)"
    using 1(4)[of "unat tmp mod 2 ^ k"] by simp
  have sh: "drop_bit k tmp = 0 \<longleftrightarrow> unat tmp < 2 ^ k"
    by (simp add: unat_eq_0[symmetric] unat_shiftr div_eq_0_iff)
  show ?case
  proof (cases "drop_bit k tmp = 0")
    case True
    then show ?thesis using d sh by (simp add: shift_store.simps[of k] digs_small)
  next
    case False
    then have "shift_store k digit (drop_bit k tmp) (digit (tmp AND mask k) # dest) =
        map chr (digs (2 ^ k) (unat (drop_bit k tmp))) @ digit (tmp AND mask k) # dest"
      using 1 by (intro 1(1)) auto
    then show ?thesis using False 1(2) d sh b
      by (simp add: shift_store.simps[of k _ tmp] digs_step unat_shiftr Let_def)
  qed
qed

lemma tohex_of_nat: "d < 16 \<Longrightarrow> tohex (of_nat d) = hex_chr d"
  by (auto simp: tohex_def hex_chr_def word_le_nat_alt word_unat_eq_iff unat_ucast_mod unat_word_ariths unat_of_nat unat_sub_if_size word_size)

lemma tooct_of_nat: "d < 8 \<Longrightarrow> tooct (of_nat d) = dec_chr d"
  by (simp add: tooct_def dec_chr_def word_unat_eq_iff unat_ucast_mod unat_word_ariths unat_of_nat)

lemma fmt_xlong_eq:
  "fmt_xlong dest i = (length (hex.render (unat i)), if dest then hex.render (unat i) else [])"
  using shift_store_eq[of 4 tohex hex_chr i "[]"]
  by (simp add: fmt_xlong_def shift_len_eq hex.render_def tohex_of_nat)

lemma fmt_8long_eq:
  "fmt_8long dest i = (length (octal.render (unat i)), if dest then octal.render (unat i) else [])"
  using shift_store_eq[of 3 tooct dec_chr i "[]"]
  by (simp add: fmt_8long_def shift_len_eq octal.render_def tooct_of_nat)

lemma fmt_xlonglong_eq: "fmt_xlonglong = fmt_xlong"
  by (simp add: fun_eq_iff fmt_xlonglong_def fmt_xlong_def)

lemma fmt_octal_eq: "fmt_octal = fmt_8long"
  by (simp add: fun_eq_iff fmt_octal_def fmt_8long_def)

lemmas fmt_num_eq = fmt_ulong_eq fmt_ulonglong_eq fmt_xlong_eq fmt_xlonglong_eq fmt_8long_eq fmt_octal_eq

subsection \<open>The contract of a formatter\<close>

text \<open>
  What callers that size a buffer first rely on: with the \<open>NULL\<close> destination the routine stores
  nothing and returns the number of bytes that the same call with a destination stores.
\<close>

locale formatter =
  fixes f :: "bool \<Rightarrow> 'a \<Rightarrow> (nat \<times> byte list) option" and ok :: "'a \<Rightarrow> bool"
  assumes sizing: "ok x \<Longrightarrow> \<exists>n. f False x = Some (n, [])"
    and writing: "ok x \<Longrightarrow> f False x = Some (n, v) \<Longrightarrow> \<exists>w. f True x = Some (n, w) \<and> length w = n"
begin

lemma two_pass: "ok x \<Longrightarrow> \<exists>w. f False x = Some (length w, []) \<and> f True x = Some (length w, w)"
  using sizing[of x] writing[of x] by fastforce

text \<open>Two formatters in a row fill exactly the space that their lengths add up to.\<close>

lemma two_pass_append:
  assumes "ok x" "ok y"
  shows "\<exists>v w. f True x = Some (length v, v) \<and> f True y = Some (length w, w) \<and>
    map_option fst (f False x) = Some (length v) \<and> map_option fst (f False y) = Some (length w)"
  using two_pass[OF assms(1)] two_pass[OF assms(2)] by auto

end

lemma formatter_total:
  assumes "\<And>x. f False x = (length (w x), [])" "\<And>x. f True x = (length (w x), w x)"
  shows "formatter (\<lambda>d x. Some (f d x)) (\<lambda>_. True)"
  using assms by unfold_locales auto

interpretation fmt_u: formatter "\<lambda>d i. Some (fmt_ulong d i)" "\<lambda>_. True"
  by (rule formatter_total) (simp_all add: fmt_num_eq)

interpretation fmt_x: formatter "\<lambda>d i. Some (fmt_xlong d i)" "\<lambda>_. True"
  by (rule formatter_total) (simp_all add: fmt_num_eq)

interpretation fmt_o: formatter "\<lambda>d i. Some (fmt_8long d i)" "\<lambda>_. True"
  by (rule formatter_total) (simp_all add: fmt_num_eq)

interpretation fmt_pm: formatter "\<lambda>d i. Some (fmt_plusminus d i)" "\<lambda>_. True"
  by unfold_locales (auto simp: fmt_plusminus_def)

interpretation fmt_mi: formatter "\<lambda>d i. Some (fmt_minus d i)" "\<lambda>_. True"
  by unfold_locales (auto simp: fmt_minus_def)

lemma fmt_ulong0_eq:
  "fmt_ulong0 dest i pad =
     (max pad (length (dec.render (unat i))),
      if dest then replicate (pad - length (dec.render (unat i))) 0x30 @ dec.render (unat i) else [])"
  by (auto simp: fmt_ulong0_def ulong_len_eq fmt_num_eq dec.render_def Let_def max_def)

interpretation fmt_u0: formatter "\<lambda>d (i, pad). Some (fmt_ulong0 d i pad)" "\<lambda>_. True"
  by unfold_locales (auto simp: fmt_ulong0_eq)

lemma unat_uminus_neg: "sint (i :: uint64) < 0 \<Longrightarrow> unat (- i) = nat (- sint i)"
proof -
  assume neg: "sint i < 0"
  have "uint (- i) = (- sint i) mod 2 ^ 64"
    by (simp add: uint_word_ariths(4) sint_uint signed_take_bit_eq_take_bit_shift take_bit_eq_mod mod_simps)
  moreover have "- (2 ^ 63) \<le> sint i" using sint_ge[of i] by simp
  ultimately show ?thesis using neg by (simp add: unat_eq_nat_uint)
qed

lemma fmt_long_eq:
  assumes "i \<noteq> 0x8000000000000000"
  shows "fmt_long dest i =
    (let w = (if sint i < 0 then 0x2d # dec.render (nat (- sint i)) else dec.render (nat (sint i)))
     in Some (length w, if dest then w else []))"
proof (cases "sint i < 0")
  case True
  then show ?thesis using assms by (simp add: fmt_long_def Let_def fmt_num_eq unat_uminus_neg)
next
  case False
  then have "unat i = nat (sint i)" by (simp add: unat_nonneg_sint)
  then show ?thesis using False by (simp add: fmt_long_def Let_def fmt_num_eq)
qed

lemma fmt_longlong_eq: "fmt_longlong = fmt_long"
  by (simp add: fun_eq_iff fmt_longlong_def fmt_long_def fmt_ulonglong_eq)

interpretation fmt_l: formatter fmt_long "\<lambda>i. i \<noteq> 0x8000000000000000"
  by unfold_locales (auto simp: fmt_long_eq Let_def)

lemma fmt_xlong0_eq:
  "fmt_xlong0 True num n =
     Some (max n (length (hex.render (unat num))),
           replicate (n - length (hex.render (unat num))) 0x30 @ hex.render (unat num))"
  by (auto simp: fmt_xlong0_def fmt_num_eq Let_def)

lemma fmt_xlong0_null: "fmt_xlong0 False num n = None \<longleftrightarrow> length (hex.render (unat num)) < n"
  by (simp add: fmt_xlong0_def fmt_num_eq Let_def)

lemma fmt_str_cstr: "nonul w \<Longrightarrow> fmt_str out (cstr w r) = Some (length w, if out then w @ [0] else [])"
  by (simp add: fmt_str_def cstr_simps take_cstr)

lemma fmt_strm_loop_cstr:
  assumes "\<forall>w \<in> set ws. nonul w" "n + length (concat ws) \<le> size_max" "n \<le> length v"
  shows "fmt_strm_loop True (map (\<lambda>w. cstr w (r w)) ws) n v =
      Some (n + length (concat ws), if ws = [] then v else take n v @ concat ws @ [0])"
  using assms
proof (induction ws arbitrary: n v)
  case (Cons w ws)
  then have "n + length w \<le> size_max" "nonul w" by simp_all
  moreover have "fmt_strm_loop True (map (\<lambda>w. cstr w (r w)) ws) (n + length w) (take n v @ w @ [0]) =
      Some (n + length w + length (concat ws), take n v @ w @ concat ws @ [0])"
    using Cons.prems by (subst Cons.IH) auto
  ultimately show ?case by (simp add: fmt_str_cstr)
qed simp

lemma fmt_strm_internal_cstr:
  assumes "\<forall>w \<in> set ws. nonul w" "length (concat ws) \<le> size_max" "ws \<noteq> []"
  shows "fmt_strm_internal True (map (\<lambda>w. cstr w (r w)) ws) = Some (length (concat ws), concat ws @ [0])"
  using fmt_strm_loop_cstr[of ws 0 "[]" r] assms by (simp add: fmt_strm_internal_def)

lemma fmt_repeat_loop_eq: "fmt_repeat_loop n src w = w @ concat (replicate n src)"
  by (induction n arbitrary: w) simp_all

lemma fmt_repeat_eq:
  "nonul w \<Longrightarrow> 0 \<le> n \<Longrightarrow>
     fmt_repeat (cstr w r) n = Some (nat n * length w, concat (replicate (nat n) w))"
  by (simp add: fmt_repeat_def cstr_simps take_cstr fmt_repeat_loop_eq length_concat sum_list_replicate)

subsection \<open>Padding\<close>

lemma pad_spaces_eq: "pad_spaces todo mx w = w @ replicate (min todo (Suc mx - length w)) 0x20"
proof (induction todo arbitrary: w)
  case (Suc todo)
  then show ?case
    by (auto simp: min_def Suc_diff_le replicate_app_Cons_same simp flip: replicate_Suc)
qed simp

lemma fill_spaces_eq:
  "fill_spaces todo s mx w = w @ replicate (min todo (Suc mx - (s + length w))) 0x20"
proof (induction todo arbitrary: w)
  case (Suc todo)
  then show ?case
    by (auto simp: min_def Suc_diff_le replicate_app_Cons_same simp flip: replicate_Suc)
qed simp

lemma pad_copy_eq:
  "pad_copy todo mx w src =
     (let k = min todo (Suc mx - length w)
      in if k \<le> length src then Some (w @ take k src) else None)"
proof (induction todo arbitrary: w src)
  case (Suc todo)
  then show ?case
    by (cases src) (auto simp: Let_def min_def Suc_diff_le rd_def)
qed simp

lemma nat_sint_diff:
  assumes "unat (a :: uint64) < 2 ^ 63" "unat b < 2 ^ 63"
  shows "nat (sint (a - b)) = unat a - unat b"
proof (cases "unat b \<le> unat a")
  case True
  then have d: "unat (a - b) = unat a - unat b" by (rule unat_sub_small)
  then have "0 \<le> sint (a - b)" using assms by (simp add: sint_neg_iff flip: not_less)
  then show ?thesis using d by (simp add: unat_nonneg_sint)
next
  case False
  then have "unat (a - b) = 2 ^ 64 + unat a - unat b" by (simp add: unat_sub_if_size word_size)
  then have "\<not> unat (a - b) < 2 ^ 63" using False assms by simp
  then have "sint (a - b) < 0" by (simp add: sint_neg_iff)
  then show ?thesis using False by simp
qed

lemma fmt_pad_eq:
  assumes "unat srclen < 2 ^ 63" "unat padlen < 2 ^ 63" "unat maxlen < 2 ^ 63" "unat srclen \<le> length src"
  shows "fmt_pad True src srclen padlen maxlen =
    (let sp = min (unat padlen - unat srclen) (Suc (unat maxlen));
         k = min (min (unat srclen) (unat maxlen)) (Suc (unat maxlen) - sp)
     in Some (sp + k, replicate sp 0x20 @ take k src))"
proof -
  have "\<not> sint srclen < 0" "\<not> sint padlen < 0" "\<not> sint maxlen < 0"
    using assms by (simp_all add: sint_neg_iff)
  moreover have "unat (if srclen > maxlen then maxlen else srclen) = min (unat srclen) (unat maxlen)"
    by (simp add: word_less_nat_alt min_def)
  ultimately show ?thesis
    using assms by (auto simp: fmt_pad_def Let_def nat_sint_diff pad_spaces_eq pad_copy_eq)
qed

lemma fmt_pad_null:
  assumes "unat srclen < 2 ^ 63" "unat padlen < 2 ^ 63" "unat maxlen < 2 ^ 63"
  shows "fmt_pad False src srclen padlen maxlen =
    Some (min (max (unat srclen) (unat padlen)) (unat maxlen), [])"
proof -
  have "\<not> sint srclen < 0" "\<not> sint padlen < 0" "\<not> sint maxlen < 0"
    using assms by (simp_all add: sint_neg_iff)
  then show ?thesis by (auto simp: fmt_pad_def Let_def word_less_nat_alt)
qed

text \<open>When the result fits it is the source, right-justified; otherwise one byte too many is stored.\<close>

lemma fmt_pad_fits:
  assumes "unat maxlen < 2 ^ 63" "unat srclen \<le> unat maxlen" "unat padlen \<le> unat maxlen"
    "unat srclen \<le> length src"
  shows "fmt_pad True src srclen padlen maxlen =
    Some (max (unat srclen) (unat padlen),
          replicate (unat padlen - unat srclen) 0x20 @ take (unat srclen) src)"
  using assms by (subst fmt_pad_eq) (auto simp: Let_def)

lemma fmt_pad_overrun:
  assumes "unat srclen < 2 ^ 63" "unat padlen < 2 ^ 63" "unat maxlen < 2 ^ 63" "unat srclen \<le> length src"
    "unat srclen < unat padlen" "unat maxlen < unat padlen"
  shows "map_option fst (fmt_pad True src srclen padlen maxlen) = Some (Suc (unat maxlen))"
  using assms by (subst fmt_pad_eq) (auto simp: Let_def)

lemma fmt_fill_eq:
  assumes "unat padlen < 2 ^ 63" "unat maxlen < 2 ^ 63" "unat srclen \<le> unat maxlen"
  shows "fmt_fill True srclen padlen maxlen =
    (let sp = min (unat padlen - unat srclen) (Suc (unat maxlen) - unat srclen)
     in (unat srclen + sp, replicate sp 0x20))"
proof -
  have "\<not> sint padlen < 0" "\<not> sint maxlen < 0" "\<not> srclen > maxlen"
    using assms by (simp_all add: sint_neg_iff word_less_nat_alt)
  then show ?thesis using assms by (simp add: fmt_fill_def Let_def nat_sint_diff fill_spaces_eq)
qed

subsection \<open>Bytes in hex\<close>

definition hexpair :: "byte \<Rightarrow> byte list" where
  "hexpair c = [hex_chr (unat c div 16), hex_chr (unat c mod 16)]"

lemma hexchars_nth:
  assumes "n < 16"
  shows "hexchars ! n = hex_chr n"
proof -
  have e: "hexchars = map hex_chr [0..<16]" by (simp add: hexchars_def hex_chr_def upt_rec)
  have n: "[0..<16] ! n = n" using nth_upt[of 0 n 16] assms by (simp only: add_0)
  have "map hex_chr [0..<16] ! n = hex_chr ([0..<16] ! n)" by (rule nth_map) (simp only: length_upt assms diff_zero)
  then show ?thesis by (simp only: e n)
qed

lemma low_nibble: "unat (c AND 15 :: byte) = unat c mod 16"
proof -
  have m: "(15 :: byte) = mask 4" by (simp add: mask_eq_exp_minus_1)
  show ?thesis unfolding m unat_and_mask by simp
qed

lemma high_nibble: "unat (signed_drop_bit 4 (c :: byte)) mod 16 = unat c div 16"
proof -
  have m: "(15 :: byte) = mask 4" by (simp add: mask_eq_exp_minus_1)
  have "signed_drop_bit 4 c AND 15 = drop_bit 4 c" unfolding m
    by (rule bit_word_eqI) (auto simp: bit_simps)
  then have "unat (signed_drop_bit 4 c AND 15) = unat c div 2 ^ 4" by (simp only: unat_shiftr)
  then show ?thesis by (simp add: low_nibble)
qed

lemma nibbles_lt: "unat (c :: byte) div 16 < 16" "unat c mod 16 < 16"
  using byte_lt_256[of c] by (simp_all add: less_mult_imp_div_less)

lemma hexb_loop_eq: "n \<le> length d \<Longrightarrow> hexb_loop n d = Some (concat (map hexpair (take n d)))"
proof (induction n arbitrary: d)
  case (Suc n)
  then show ?case
    by (cases d) (simp_all add: high_nibble low_nibble hexchars_nth nibbles_lt hexpair_def)
qed simp

lemma hexb_loop_None: "length d < n \<Longrightarrow> hexb_loop n d = None"
proof (induction n arbitrary: d)
  case (Suc n)
  then show ?case by (cases d) (simp_all add: bind_eq_None_conv)
qed simp

lemma fmt_hexb_eq:
  "unat len \<le> length d \<Longrightarrow> fmt_hexb True d len = Some (len * 2, concat (map hexpair (take (unat len) d)))"
  by (simp add: fmt_hexb_def hexb_loop_eq)

subsection \<open>Human-readable sizes\<close>

lemma render_step: "10 \<le> n \<Longrightarrow> dec.render n = dec.render (n div 10) @ [dec_chr (n mod 10)]"
  by (simp add: dec.render_def digs_step)

lemma human_store_eq:
  "human_store True l unit =
     (length (dec.render (unat l div 10)) + 3, dec.render (unat l div 10) @ [0x2e, dec_chr (unat l mod 10), unit])"
  by (simp add: human_store_def fmt_num_eq unat_div dec_chr_def ucast_digit)

lemma human_store_null: "10 \<le> unat l \<Longrightarrow> human_store False l unit = (fst (human_store True l unit), [])"
  by (simp add: human_store_eq) (simp add: human_store_def fmt_num_eq render_step)

interpretation fmt_h: formatter "\<lambda>d l. Some (fmt_human d l)" "\<lambda>_. True"
proof unfold_locales
  have ge: "10 \<le> unat ((l + 50) div 100)" if "1000 \<le> unat l" "unat l \<le> 1000000" for l :: uint64
    using that by (simp add: unat_div unat_add_small)
  have geM: "10 \<le> unat ((l + 50000) div 100000)" if "1000000 \<le> unat l" "unat l \<le> 1000000000" for l :: uint64
    using that by (simp add: unat_div unat_add_small)
  have geG: "10 \<le> unat ((l + 50000000) div 100000000)" if "1000000000 \<le> unat l" "unat l \<le> 1000000000000" for l :: uint64
    using that by (simp add: unat_div unat_add_small)
  have geT: "10 \<le> unat ((l div 1000 + 50000000) div 100000000)" if "1000000000000 \<le> unat l" for l :: uint64
    using that unat_lt_2p[of l] by (simp add: unat_div unat_add_small)
  have *: "snd (fmt_human False l) = [] \<and> fst (fmt_human False l) = fst (fmt_human True l) \<and>
      length (snd (fmt_human True l)) = fst (fmt_human True l)" for l
    using human_store_null[OF ge] human_store_null[OF geM] human_store_null[OF geG] human_store_null[OF geT]
    by (auto simp: fmt_human_def fmt_num_eq human_store_eq word_less_nat_alt)
  show "\<exists>n. Some (fmt_human False x) = Some (n, [])" for x
    using *[of x] by (metis prod.collapse)
  show "\<exists>w. Some (fmt_human True x) = Some (n, w) \<and> length w = n"
    if "Some (fmt_human False x) = Some (n, v)" for x n v
    using *[of x] that by (metis fst_conv option.inject prod.collapse)
qed

lemma fmt_humank_wraps:
  "fmt_humank True 0xffffffffffffffff = (4, ascii ''0.0T'')" "fst (fmt_humank False 0xffffffffffffffff) = 3"
  by (simp_all add: fmt_humank_def human_store_def fmt_num_eq dec.render_def digs_small dec_chr_def)

subsection \<open>Properties\<close>

text \<open>
  \<open>fmt_pad\<close> right-justifies: when source and padding fit into \<open>maxlen\<close>, it stores the
  spaces and the source and returns the larger of the two lengths.
\<close>

theorem fmt_pad_right_justifies:
  assumes "unat maxlen < 2 ^ 63" "unat srclen \<le> unat maxlen" "unat padlen \<le> unat maxlen"
    "unat srclen \<le> length src"
  shows "fmt_pad True src srclen padlen maxlen =
    Some (max (unat srclen) (unat padlen),
          replicate (unat padlen - unat srclen) 0x20 @ take (unat srclen) src)"
  using fmt_pad_fits[OF assms] .

theorem fmt_pad_right_justifies_witness:
  "fmt_pad True (ascii ''foo'') 3 4 8 = Some (4, ascii '' foo'')"
  using fmt_pad_right_justifies[of 8 3 4 "ascii ''foo''"] by simp

text \<open>
  \<open>fmt_pad\<close> that has to truncate stores one byte more than \<open>maxlen\<close>: its loops stop at
  \<open>dest > max\<close> instead of \<open>dest >= max\<close>.
\<close>

theorem fmt_pad_overruns:
  assumes "unat srclen < 2 ^ 63" "unat padlen < 2 ^ 63" "unat maxlen < 2 ^ 63" "unat srclen \<le> length src"
    "unat srclen < unat padlen" "unat maxlen < unat padlen"
  shows "map_option fst (fmt_pad True src srclen padlen maxlen) = Some (unat maxlen + 1)"
  using fmt_pad_overrun[OF assms] by simp

theorem fmt_pad_overruns_witness:
  "map_option fst (fmt_pad True (ascii ''foo'') 3 5 2) = Some (2 + 1)"
  using fmt_pad_overruns[of 3 5 2 "ascii ''foo''"] by simp

end
