(* ===== verification/Scan.thy ===== *)
theory Scan
  imports Fmt
begin

text \<open>
  The scanners of \<open>src/lib/scan\<close>: numbers of every width and base with their overflow checks,
  signs, hex digits, netstrings, varints, ASN.1 lengths and tags, and the skipping routines. A
  scanner takes the bytes from its source pointer to the end of the object and returns the number of
  bytes it consumed with the value it stores; a destination that the C code leaves alone is
  \<open>None\<close> inside the result, and a read outside the source makes the whole result \<open>None\<close>.
  The loops are \<open>scan_loop\<close> and \<open>scan_loopn\<close> of \<open>Numerals\<close>, and each scanner brings its
  own step with the overflow check the source writes out for it.
\<close>

subsection \<open>Unsigned decimal\<close>

text \<open>The three bodies of \<open>scan_ulongn\<close>: with a 128-bit type, for a 32-bit \<open>long\<close>, portable.\<close>

definition ulongn_step128 :: "uint64 \<Rightarrow> byte \<Rightarrow> uint64 option" where
  "ulongn_step128 l c =
     (let c = c - 0x30
      in if c < 10
         then let L = (ucast l :: 128 word) * 10 + ucast c
              in if drop_bit 64 L \<noteq> 0 then None else Some (ucast L)
         else None)"

definition ulongn_step32 :: "uint32 \<Rightarrow> byte \<Rightarrow> uint32 option" where
  "ulongn_step32 l c =
     (let c = c - 0x30
      in if c < 10
         then let L = (ucast l :: uint64) * 10 + ucast c
              in if ucast (ucast L :: uint32) \<noteq> L then None else Some (ucast L)
         else None)"

definition ulongn_step :: "uint64 \<Rightarrow> byte \<Rightarrow> uint64 option" where
  "ulongn_step l c =
     (let c = c - 0x30
      in if c < 10
         then let n = push_bit 3 l
              in if drop_bit 3 n \<noteq> l then None
                 else if n + push_bit 1 l + ucast c < n then None
                 else Some (n + push_bit 1 l + ucast c)
         else None)"

definition scan_ulongn :: "byte list \<Rightarrow> nat \<Rightarrow> (nat \<times> uint64) option" where
  "scan_ulongn src n = scan_loopn ulongn_step128 n src 0 0"

definition scan_ulongn_ilp32 :: "byte list \<Rightarrow> nat \<Rightarrow> (nat \<times> uint32) option" where
  "scan_ulongn_ilp32 src n = scan_loopn ulongn_step32 n src 0 0"

definition scan_ulongn_portable :: "byte list \<Rightarrow> nat \<Rightarrow> (nat \<times> uint64 option) option" where
  "scan_ulongn_portable src n =
     do { (k, l) \<leftarrow> scan_loopn ulongn_step n src 0 0; Some (k, if k \<noteq> 0 then Some l else None) }"

definition scan_ulong :: "byte list \<Rightarrow> (nat \<times> uint64) option" where
  "scan_ulong src = scan_ulongn src size_max"

definition ulonglong_step :: "uint64 \<Rightarrow> byte \<Rightarrow> uint64 option" where
  "ulonglong_step l c =
     (let c = c - 0x30
      in if c < 10
         then let n = push_bit 3 l
              in if drop_bit 3 n \<noteq> l then None
                 else if n + push_bit 1 l < n then None
                 else let n = n + push_bit 1 l
                      in if n + ucast c < n then None else Some (n + ucast c)
         else None)"

definition scan_ulonglong :: "byte list \<Rightarrow> (nat \<times> uint64 option) option" where
  "scan_ulonglong src =
     do { (k, l) \<leftarrow> scan_loop ulonglong_step src 0 0; Some (k, if k \<noteq> 0 then Some l else None) }"

definition uint_step :: "uint32 \<Rightarrow> byte \<Rightarrow> uint32 option" where
  "uint_step l c =
     (if sint c \<ge> 0x30 \<and> sint c \<le> 0x39
      then let tmp = (ucast l :: uint64) * 10 + scast c - 0x30
           in if ucast (ucast tmp :: uint32) \<noteq> tmp then None else Some (ucast tmp)
      else None)"

definition scan_uint :: "byte list \<Rightarrow> (nat \<times> uint32 option) option" where
  "scan_uint src =
     do { (k, l) \<leftarrow> scan_loop uint_step src 0 0; Some (k, if k > 0 then Some l else None) }"

definition ushort_step :: "uint16 \<Rightarrow> byte \<Rightarrow> uint16 option" where
  "ushort_step l c =
     (if sint c \<ge> 0x30 \<and> sint c \<le> 0x39
      then let tmp = (ucast l :: uint64) * 10 + scast c - 0x30
           in if ucast (ucast tmp :: uint16) \<noteq> tmp then None else Some (ucast tmp)
      else None)"

definition scan_ushort :: "byte list \<Rightarrow> (nat \<times> uint16 option) option" where
  "scan_ushort src =
     do { (k, l) \<leftarrow> scan_loop ushort_step src 0 0; Some (k, if k > 0 then Some l else None) }"

subsection \<open>Octal\<close>

definition oct_step :: "'a::len word \<Rightarrow> byte \<Rightarrow> 'a word option" where
  "oct_step l c =
     (let c = c - 0x30
      in if c < 8
         then if drop_bit (LENGTH('a) - 3) l \<noteq> 0 then None else Some (l * 8 + ucast c)
         else None)"

definition scan_8longn :: "byte list \<Rightarrow> nat \<Rightarrow> (nat \<times> uint64) option" where
  "scan_8longn src n = scan_loopn oct_step n src 0 0"

definition scan_8long :: "byte list \<Rightarrow> (nat \<times> uint64) option" where
  "scan_8long src = scan_8longn src size_max"

definition scan_octal :: "byte list \<Rightarrow> (nat \<times> uint64) option" where
  "scan_octal src = scan_loop oct_step src 0 0"

definition scan_8int :: "byte list \<Rightarrow> (nat \<times> uint32) option" where
  "scan_8int src = scan_loop oct_step src 0 0"

definition scan_8short :: "byte list \<Rightarrow> (nat \<times> uint16) option" where
  "scan_8short src = scan_loop oct_step src 0 0"

subsection \<open>Hexadecimal\<close>

definition scan_fromhex :: "byte \<Rightarrow> int" where
  "scan_fromhex c =
     (let c = c - 0x30
      in if c \<le> 9 then uint c
         else let c = (c AND NOT 0x20) - (0x41 - 0x30)
              in if c < 6 then uint c + 10 else -1)"

definition hex_step :: "'a::len word \<Rightarrow> byte \<Rightarrow> 'a word option" where
  "hex_step l c =
     (if drop_bit (LENGTH('a) - 4) l = 0
      then let c = word_of_int (scan_fromhex c) :: byte
           in if c < 16 then Some (push_bit 4 l + ucast c) else None
      else None)"

definition hex_step_unchecked :: "uint64 \<Rightarrow> byte \<Rightarrow> uint64 option" where
  "hex_step_unchecked l c =
     (let c = word_of_int (scan_fromhex c) :: byte
      in if c < 16 then Some (push_bit 4 l + ucast c) else None)"

definition scan_xlongn :: "byte list \<Rightarrow> nat \<Rightarrow> (nat \<times> uint64) option" where
  "scan_xlongn src n = scan_loopn hex_step n src 0 0"

definition scan_xlong :: "byte list \<Rightarrow> (nat \<times> uint64) option" where
  "scan_xlong src = scan_loop hex_step_unchecked src 0 0"

definition scan_xlonglong :: "byte list \<Rightarrow> (nat \<times> uint64) option" where
  "scan_xlonglong src = scan_loop hex_step_unchecked src 0 0"

definition scan_xint :: "byte list \<Rightarrow> (nat \<times> uint32) option" where
  "scan_xint src = scan_loop hex_step src 0 0"

definition scan_xshort :: "byte list \<Rightarrow> (nat \<times> uint16) option" where
  "scan_xshort src = scan_loopn hex_step 4 src 0 0"

definition scan_xchar :: "byte list \<Rightarrow> (nat \<times> byte) option" where
  "scan_xchar src = scan_loopn hex_step 2 src 0 0"

subsection \<open>Signed decimal\<close>

definition scan_sign :: "byte list \<Rightarrow> (bool \<times> byte list \<times> nat) option" where
  "scan_sign src =
     do { c \<leftarrow> rd src 0;
          Some (if c = 0x2d then (True, tl src, 1) else if c = 0x2b then (False, tl src, 1)
                else (False, src, 0)) }"

definition signed_step :: "bool \<Rightarrow> 'a::len word \<Rightarrow> byte \<Rightarrow> 'a word option" where
  "signed_step neg l c =
     (let c = c - 0x30
      in if c < 10
         then let n = push_bit 3 l
              in if drop_bit 3 n \<noteq> l then None
                 else if n + push_bit 1 l < n then None
                 else let n = n + push_bit 1 l
                      in if n + ucast c < n then None
                         else let n = n + ucast c
                              in if n > drop_bit 1 (- 1) + (if neg then 1 else 0) then None else Some n
         else None)"

definition store_signed :: "bool \<Rightarrow> 'a::len word \<Rightarrow> 'a word option" where
  "store_signed neg l =
     (if neg then if l = push_bit (LENGTH('a) - 1) 1 then None else Some (- l) else Some l)"

definition scan_int :: "byte list \<Rightarrow> (nat \<times> uint32 option) option" where
  "scan_int src =
     do { (neg, tmp, o1) \<leftarrow> scan_sign src;
          (k, l) \<leftarrow> scan_loop (signed_step neg) tmp 0 0;
          if k = 0 then Some (0, None)
          else do { v \<leftarrow> store_signed neg l; Some (o1 + k, Some v) } }"

definition scan_longn :: "byte list \<Rightarrow> nat \<Rightarrow> (nat \<times> uint64 option) option" where
  "scan_longn src n =
     (if n = 0 then Some (0, None)
      else do { (neg, tmp, o1) \<leftarrow> scan_sign src;
                (k, l) \<leftarrow> scan_loopn (signed_step neg) (n - 1) tmp 0 0;
                if k = 0 then Some (0, None)
                else do { v \<leftarrow> store_signed neg l; Some (o1 + k, Some v) } })"

definition scan_long :: "byte list \<Rightarrow> (nat \<times> uint64 option) option" where
  "scan_long src = scan_longn src size_max"

text \<open>
  \<open>scan_short\<close> computes \<open>n + (l << 1)\<close> and \<open>n + c\<close> in \<open>int\<close>, so that its two sums
  cannot wrap; only the casts back to \<open>unsigned short\<close> cut them.
\<close>

definition short_step :: "bool \<Rightarrow> uint16 \<Rightarrow> byte \<Rightarrow> uint16 option" where
  "short_step neg l c =
     (let c = c - 0x30
      in if c < 10
         then let n = push_bit 3 l
              in if drop_bit 3 n \<noteq> l then None
                 else if uint n + 2 * sint l < uint n then None
                 else let n = word_of_int (uint n + 2 * sint l) :: uint16
                      in if uint n + uint c < uint n then None
                         else let n = word_of_int (uint n + uint c) :: uint16
                              in if uint n > 32767 + (if neg then 1 else 0) then None else Some n
         else None)"

definition scan_short :: "byte list \<Rightarrow> (nat \<times> uint16 option) option" where
  "scan_short src =
     do { (neg, tmp, o1) \<leftarrow> scan_sign src;
          (k, l) \<leftarrow> scan_loop (short_step neg) tmp 0 0;
          if k = 0 then Some (0, None)
          else Some (o1 + k, Some (if neg then - l else l)) }"

definition scan_longlong :: "byte list \<Rightarrow> (nat \<times> uint64 option) option" where
  "scan_longlong src =
     do { c \<leftarrow> rd src 0;
          let neg = (c = 0x2d);
          let o1 = (if c = 0x2d \<or> c = 0x2b then 1 else 0);
          (i, l) \<leftarrow> scan_ulonglong (drop o1 src);
          case l of
            None \<Rightarrow> Some (0, None)
          | Some l \<Rightarrow>
              let (l, i) = (if l > 0x7fffffffffffffff + (if neg then 1 else 0) then (l div 10, i - 1) else (l, i))
              in Some (i + o1, if i + o1 \<noteq> 0 then Some (if c = 0x2d then - l else l) else None) }"

definition scan_plusminus :: "byte list \<Rightarrow> (nat \<times> int) option" where
  "scan_plusminus src =
     do { c \<leftarrow> rd src 0;
          Some (if c = 0x2d then (1, -1) else if c = 0x2b then (1, 1) else (0, 1)) }"

subsection \<open>Netstrings, human-readable sizes\<close>

text \<open>The scanned netstring is the offset and the length of its text inside the input.\<close>

definition scan_netstring :: "byte list \<Rightarrow> nat \<Rightarrow> (nat \<times> (nat \<times> nat) option) option" where
  "scan_netstring inp len =
     do { (n, l) \<leftarrow> scan_ulongn inp len;
          if n = 0 \<or> of_nat n + 2 + l < l \<or> unat (of_nat n + 2 + l :: uint64) > len then Some (0, None)
          else do { c \<leftarrow> rd inp n;
                    if c \<noteq> 0x3a then Some (0, None)
                    else do { d \<leftarrow> rd inp (n + unat l + 1);
                              if d \<noteq> 0x2c then Some (0, None)
                              else Some (unat (of_nat n + 2 + l :: uint64), Some (n + 1, unat l)) } } }"

definition scan_human :: "byte list \<Rightarrow> uint64 \<Rightarrow> (nat \<times> uint64) option" where
  "scan_human src dest =
     do { (n, l) \<leftarrow> scan_ulonglong src;
          let dest = (case l of None \<Rightarrow> dest | Some v \<Rightarrow> v);
          c \<leftarrow> rd src n;
          Some (if c = 0x47 then (n + 1, dest * 1024 * 1024 * 1024)
                else if c = 0x4d then (n + 1, dest * 1024 * 1024)
                else if c = 0x4b \<or> c = 0x6b then (n + 1, dest * 1024)
                else (n, dest)) }"

subsection \<open>Variable-length integers\<close>

text \<open>
  \<open>(in[i] & 0x7f) << (i * 7)\<close> shifts an \<open>int\<close>: a shift by 32 or more, or one that leaves the
  \<open>int\<close>, is undefined.
\<close>

function varint_loop :: "byte list \<Rightarrow> nat \<Rightarrow> nat \<Rightarrow> uint64 \<Rightarrow> (nat \<times> uint64 option) option" where
  "varint_loop inp len i l =
     (if i < len
      then do { c \<leftarrow> rd inp i;
                let v = uint (c AND 0x7f) * 2 ^ (i * 7);
                if i * 7 \<ge> 32 \<or> v \<ge> 2 ^ 31 then None
                else let l = l + word_of_int v
                     in if c AND 0x80 = 0 then Some (i + 1, Some l) else varint_loop inp len (i + 1) l }
      else Some (0, None))"
  by pat_completeness auto
termination by (relation "measure (\<lambda>(inp, len, i, l). len - i)") auto

definition scan_varint :: "byte list \<Rightarrow> nat \<Rightarrow> (nat \<times> uint64 option) option" where
  "scan_varint inp len = (if len = 0 then Some (0, None) else varint_loop inp len 0 0)"

definition scan_pb_tag :: "byte list \<Rightarrow> nat \<Rightarrow> (nat \<times> (uint64 \<times> byte) option) option" where
  "scan_pb_tag inp len =
     do { (n, l) \<leftarrow> scan_varint inp len;
          case l of None \<Rightarrow> Some (0, None) | Some l \<Rightarrow> Some (n, Some (drop_bit 3 l, ucast (l AND 7))) }"

definition scan_pb_type0_sint :: "byte list \<Rightarrow> nat \<Rightarrow> (nat \<times> uint64 option) option" where
  "scan_pb_type0_sint inp len =
     do { (n, m) \<leftarrow> scan_varint inp len;
          case m of None \<Rightarrow> Some (0, None) | Some m \<Rightarrow> Some (n, Some ((- (m AND 1)) XOR drop_bit 1 m)) }"

definition scan_pb_type1_fixed64 :: "byte list \<Rightarrow> nat \<Rightarrow> (nat \<times> uint64 option) option" where
  "scan_pb_type1_fixed64 inp len =
     (if len < 8 then Some (0, None) else do { d \<leftarrow> uint64_unpack inp; Some (8, Some d) })"

definition scan_pb_type5_fixed32 :: "byte list \<Rightarrow> nat \<Rightarrow> (nat \<times> uint32 option) option" where
  "scan_pb_type5_fixed32 inp len =
     (if len < 4 then Some (0, None) else do { d \<leftarrow> uint32_unpack inp; Some (4, Some d) })"

subsection \<open>ASN.1\<close>

fun derlength_loop :: "byte list \<Rightarrow> nat \<Rightarrow> nat \<Rightarrow> uint64 \<Rightarrow> uint64 option" where
  "derlength_loop src i 0 l = Some l"
| "derlength_loop src i (Suc n) l =
     do { c \<leftarrow> rd src i; derlength_loop src (i + 1) n (l * 256 + ucast c) }"

text \<open>
  \<open>c = *src\<close> sign-extends a \<open>char\<close>, so that \<open>c\<close> is the byte only up to its upper bits;
  the test \<open>len >= -(size_t)src\<close> asks whether the input would wrap around the address space, and
  \<open>wraps\<close> is its outcome.
\<close>

definition scan_asn1derlengthvalue :: "bool \<Rightarrow> byte list \<Rightarrow> nat \<Rightarrow> (nat \<times> uint64 option) option" where
  "scan_asn1derlengthvalue wraps src len =
     do { b \<leftarrow> rd src 0;
          let c = (scast b :: uint32);
          if len = 0 \<or> wraps then Some (0, None)
          else if c AND 0x80 = 0 then Some (1, Some (ucast c))
          else let c = c AND 0x7f
               in if c = 0 then Some (0, None)
                  else do { d \<leftarrow> rd src 1;
                            if d = 0 then Some (0, None)
                            else if c > 8 then Some (0, None)
                            else if unat (c + 1) > len then Some (0, None)
                            else do { l \<leftarrow> derlength_loop src 2 (unat c - 1) (ucast d);
                                      if l < 0x7f then Some (0, None)
                                      else Some (unat c + 1, Some l) } } }"

text \<open>When the value is refused, \<open>l\<close> keeps whatever it held: \<open>junk\<close>.\<close>

definition scan_asn1derlength :: "bool \<Rightarrow> uint64 \<Rightarrow> byte list \<Rightarrow> nat \<Rightarrow> (nat \<times> uint64 option) option" where
  "scan_asn1derlength wraps junk src len =
     do { (i, v) \<leftarrow> scan_asn1derlengthvalue wraps src len;
          let l = (case v of None \<Rightarrow> junk | Some l \<Rightarrow> l);
          Some (if l > of_nat len - of_nat i then (0, None) else (i, Some l)) }"

function dertag_loop :: "byte list \<Rightarrow> nat \<Rightarrow> nat \<Rightarrow> uint64 \<Rightarrow> (nat \<times> uint64 option) option" where
  "dertag_loop src len n l =
     (if n < len
      then if drop_bit 57 l \<noteq> 0 then Some (0, None)
           else do { c \<leftarrow> rd src n;
                     let l = (push_bit 7 l OR ucast (c AND 0x7f));
                     if c AND 0x80 = 0 then Some (n + 1, Some l) else dertag_loop src len (n + 1) l }
      else Some (0, None))"
  by pat_completeness auto
termination by (relation "measure (\<lambda>(src, len, n, l). len - n)") auto

definition scan_asn1dertag :: "byte list \<Rightarrow> nat \<Rightarrow> (nat \<times> uint64 option) option" where
  "scan_asn1dertag src len =
     (if len = 0 then Some (0, None)
      else do { c \<leftarrow> rd src 0;
                if c = 0x80 then Some (0, None) else dertag_loop src len 0 0 })"

text \<open>The writers of the same encodings (\<open>src/lib/fmt\<close>).\<close>

fun derlength_bytes :: "uint64 \<Rightarrow> nat \<Rightarrow> nat \<Rightarrow> nat" where
  "derlength_bytes l i 0 = i"
| "derlength_bytes l i (Suc n) = (if drop_bit (i * 8) l = 0 then i else derlength_bytes l (i + 1) n)"

definition fmt_asn1derlength :: "bool \<Rightarrow> uint64 \<Rightarrow> nat \<times> byte list" where
  "fmt_asn1derlength dest l =
     (if l < 128 then (1, if dest then [ucast (l AND 0x7f)] else [])
      else let i = derlength_bytes l 1 7
           in (i + 1,
               if dest
               then of_nat (0x80 + i) # map (\<lambda>j. ucast (drop_bit (j * 8) l AND 0xff)) (rev [0..<i])
               else []))"

function dertag_count :: "uint64 \<Rightarrow> nat \<Rightarrow> nat" where
  "dertag_count t n = (if t > 0x7f then dertag_count (drop_bit 7 t) (n + 1) else n)"
  by pat_completeness auto
termination
proof (relation "measure (\<lambda>(t, n). unat t)")
  fix t :: uint64 and n :: nat
  assume "t > 0x7f"
  then have "0 < unat t" by (auto simp: word_less_nat_alt)
  then show "((drop_bit 7 t, n + 1), t, n) \<in> measure (\<lambda>(t, n). unat t)"
    by (simp add: unat_shiftr)
qed simp

primrec dertag_store :: "nat \<Rightarrow> bool \<Rightarrow> uint64 \<Rightarrow> byte list \<Rightarrow> byte list" where
  "dertag_store 0 first l w = w"
| "dertag_store (Suc n) first l w =
     dertag_store n False (drop_bit 7 l) (((if first then 0 else 0x80) OR ucast (l AND 0x7f)) # w)"

definition fmt_asn1dertag :: "bool \<Rightarrow> uint64 \<Rightarrow> nat \<times> byte list" where
  "fmt_asn1dertag dest l =
     (let n = dertag_count l 1 in (n, if dest then dertag_store n True l [] else []))"

subsection \<open>Skipping\<close>

primrec charset_find :: "byte \<Rightarrow> byte list \<Rightarrow> byte option" where
  "charset_find t [] = None"
| "charset_find t (i # is) = (if i = 0 \<or> i = t then Some i else charset_find t is)"

fun scan_charsetnskip :: "byte list \<Rightarrow> byte list \<Rightarrow> nat \<Rightarrow> nat option" where
  "scan_charsetnskip t charset 0 = Some 0"
| "scan_charsetnskip [] charset (Suc limit) = None"
| "scan_charsetnskip (c # t) charset (Suc limit) =
     do { i \<leftarrow> charset_find c charset;
          if i \<noteq> c then Some 0 else map_option Suc (scan_charsetnskip t charset limit) }"

fun scan_noncharsetnskip :: "byte list \<Rightarrow> byte list \<Rightarrow> nat \<Rightarrow> nat option" where
  "scan_noncharsetnskip t charset 0 = Some 0"
| "scan_noncharsetnskip [] charset (Suc limit) = None"
| "scan_noncharsetnskip (c # t) charset (Suc limit) =
     do { i \<leftarrow> charset_find c charset;
          if i = c then Some 0 else map_option Suc (scan_noncharsetnskip t charset limit) }"

definition isspace :: "byte \<Rightarrow> bool" where
  "isspace c \<longleftrightarrow> c = 0x20 \<or> (9 \<le> c \<and> c \<le> 13)"

definition isalpha :: "byte \<Rightarrow> bool" where
  "isalpha c \<longleftrightarrow> (0x41 \<le> c \<and> c \<le> 0x5a) \<or> (0x61 \<le> c \<and> c \<le> 0x7a)"

fun scan_skip :: "(byte \<Rightarrow> bool) \<Rightarrow> byte list \<Rightarrow> nat \<Rightarrow> nat option" where
  "scan_skip p t 0 = Some 0"
| "scan_skip p [] (Suc limit) = None"
| "scan_skip p (c # t) (Suc limit) = (if p c then map_option Suc (scan_skip p t limit) else Some 0)"

definition scan_whitenskip :: "byte list \<Rightarrow> nat \<Rightarrow> nat option" where
  "scan_whitenskip s limit = scan_skip isspace s limit"

definition scan_nonwhitenskip :: "byte list \<Rightarrow> nat \<Rightarrow> nat option" where
  "scan_nonwhitenskip s limit = scan_skip (\<lambda>c. \<not> isspace c) s limit"

definition scan_line :: "byte list \<Rightarrow> nat \<Rightarrow> nat option" where
  "scan_line s limit = scan_skip (\<lambda>c. \<not> (c = 0x0a \<or> c = 0x0d)) s limit"

definition scan_lineskip :: "byte list \<Rightarrow> nat \<Rightarrow> nat option" where
  "scan_lineskip s limit =
     do { n \<leftarrow> scan_skip (\<lambda>c. c \<noteq> 0x0a) s limit; Some (if n < limit then n + 1 else n) }"

definition scan_eolskip :: "byte list \<Rightarrow> nat \<Rightarrow> nat option" where
  "scan_eolskip s limit =
     (if 1 < limit
      then do { a \<leftarrow> rd s 0;
                if a = 0x0d
                then do { b \<leftarrow> rd s 1; Some (if b = 0x0a then 2 else if a = 0x0a then 1 else 0) }
                else Some (if a = 0x0a then 1 else 0) }
      else if 0 < limit then do { a \<leftarrow> rd s 0; Some (if a = 0x0a then 1 else 0) }
      else Some 0)"

function ansi_loop :: "byte list \<Rightarrow> nat \<Rightarrow> nat \<Rightarrow> nat option" where
  "ansi_loop s limit i =
     (let i = i + 1
      in if i < limit
         then do { c \<leftarrow> rd s i; if \<not> isalpha c then ansi_loop s limit i else Some i }
         else Some i)"
  by pat_completeness auto
termination by (relation "measure (\<lambda>(s, limit, i). limit - i)") auto

definition scan_ansiskip :: "byte list \<Rightarrow> nat \<Rightarrow> nat option" where
  "scan_ansiskip s limit =
     do { c \<leftarrow> rd s 0;
          if c = 0x1b \<and> 1 < limit
          then do { d \<leftarrow> rd s 1;
                    if d = 0x5b
                    then do { i \<leftarrow> ansi_loop s limit 1;
                              let i = i + 1;
                              if i < limit then do { e \<leftarrow> rd s i; Some (if e = 0x7e then i + 1 else i) }
                              else Some i }
                    else Some 0 }
          else Some 0 }"

function ansilen_loop :: "byte list \<Rightarrow> nat \<Rightarrow> nat \<Rightarrow> nat \<Rightarrow> nat option" where
  "ansilen_loop inp slen i len =
     (if i < slen
      then do { p \<leftarrow> scan_ansiskip (drop i inp) (slen - i);
                if p > 0 then ansilen_loop inp slen (i + p) len
                else ansilen_loop inp slen (i + 1) (len + 1) }
      else Some len)"
  by pat_completeness auto
termination by (relation "measure (\<lambda>(inp, slen, i, len). slen - i)") auto

definition str_ansilen :: "byte list \<Rightarrow> nat option" where
  "str_ansilen inp = do { slen \<leftarrow> str_len inp; ansilen_loop inp slen 0 0 }"

declare varint_loop.simps [simp del] dertag_loop.simps [simp del] dertag_count.simps [simp del]
  ansi_loop.simps [simp del] ansilen_loop.simps [simp del]

subsection \<open>The overflow checks are exact\<close>

lemma word_add_wraps: "(x :: 'a::len word) + y < x \<longleftrightarrow> 2 ^ LENGTH('a) \<le> unat x + unat y"
proof -
  have "unat x < 2 ^ LENGTH('a)" "unat y < 2 ^ LENGTH('a)" by (rule unat_lt_2p)+
  then show ?thesis unfolding word_less_nat_alt unat_plus_if' by (simp only: split: if_split) linarith
qed

lemma unat_shiftl: "unat (push_bit k (l :: 'a::len word)) = unat l * 2 ^ k mod 2 ^ LENGTH('a)"
  by (simp only: unsigned_push_bit_eq take_bit_eq_mod push_bit_eq_mult[of k "unat l"])

lemma shl_fits:
  "drop_bit k (push_bit k l) = l \<longleftrightarrow> unat l * 2 ^ k < 2 ^ LENGTH('a)" for l :: "'a::len word"
proof -
  have eq: "drop_bit k (push_bit k l) = l \<longleftrightarrow> (unat l * 2 ^ k mod 2 ^ LENGTH('a)) div 2 ^ k = unat l"
    by (simp only: word_unat_eq_iff unat_shiftr unat_shiftl)
  show ?thesis
  proof
    assume "drop_bit k (push_bit k l) = l"
    then have "unat l * 2 ^ k \<le> unat l * 2 ^ k mod 2 ^ LENGTH('a)"
      unfolding eq by (metis div_times_less_eq_dividend)
    also have "\<dots> < 2 ^ LENGTH('a)" by simp
    finally show "unat l * 2 ^ k < 2 ^ LENGTH('a)" .
  next
    assume "unat l * 2 ^ k < 2 ^ LENGTH('a)"
    then show "drop_bit k (push_bit k l) = l" unfolding eq by simp
  qed
qed

text \<open>The digit is folded in by \<open>l * 8 + l * 2 + c\<close>, each sum checked for a wrap-around.\<close>

lemma times_ten:
  fixes l :: "'a::len word"
  assumes "2 \<le> LENGTH('a)" "unat l * 8 < 2 ^ LENGTH('a)"
  shows "unat (push_bit 3 l) = 8 * unat l" "unat (l * 2) = 2 * unat l"
    "push_bit 3 l + l * 2 < push_bit 3 l \<longleftrightarrow> 2 ^ LENGTH('a) \<le> 10 * unat l"
    "10 * unat l < 2 ^ LENGTH('a) \<Longrightarrow> unat (push_bit 3 l + l * 2) = 10 * unat l"
proof -
  have two: "unat (2 :: 'a word) = 2"
    using assms(1) power_increasing[of 2 "LENGTH('a)" "2::nat"] by (simp add: unsigned_numeral take_bit_eq_mod)
  show a: "unat (push_bit 3 l) = 8 * unat l" "unat (l * 2) = 2 * unat l"
    using assms by (simp_all add: unat_shiftl unat_word_ariths two)
  show "push_bit 3 l + l * 2 < push_bit 3 l \<longleftrightarrow> 2 ^ LENGTH('a) \<le> 10 * unat l"
    by (simp add: word_add_wraps a)
  show "unat (push_bit 3 l + l * 2) = 10 * unat l" if "10 * unat l < 2 ^ LENGTH('a)"
    using that by (subst unat_add_small) (simp_all add: a)
qed

lemma dec_dig_None: "dec_dig c = None \<longleftrightarrow> \<not> c - 0x30 < 10"
  and dec_dig_Some: "dec_dig c = Some d \<longleftrightarrow> c - 0x30 < 10 \<and> d = unat (c - 0x30)"
  and oct_dig_None: "oct_dig c = None \<longleftrightarrow> \<not> c - 0x30 < 8"
  and oct_dig_Some: "oct_dig c = Some d \<longleftrightarrow> c - 0x30 < 8 \<and> d = unat (c - 0x30)"
  by (auto simp: dec_dig_def oct_dig_def)

lemma ulongn_step128_eq:
  assumes "dec_dig c = Some d"
  shows "map_option unat (ulongn_step128 l c) =
    (if 10 * unat l + d \<le> 2 ^ 64 - 1 then Some (10 * unat l + d) else None)"
proof -
  let ?L = "(ucast l :: 128 word) * 10 + ucast (c - 0x30)"
  have c: "c - 0x30 < 10" "d = unat (c - 0x30)" "d < 10"
    using assms by (simp_all add: dec_dig_Some word_less_nat_alt)
  have L: "unat ?L = 10 * unat l + d"
    using unat_lt_2p[of l] c by (simp add: unat_word_ariths unat_ucast_up)
  have hi: "drop_bit 64 ?L \<noteq> 0 \<longleftrightarrow> 2 ^ 64 \<le> 10 * unat l + d"
    unfolding unat_eq_0[symmetric] unat_shiftr L by (simp add: div_eq_0_iff not_less)
  show ?thesis
    using c hi L by (auto simp: ulongn_step128_def Let_def unat_ucast_mod)
qed

interpretation dec128: digit_scanner ulongn_step128 unat 0 10 dec_dig "2 ^ 64 - 1"
proof unfold_locales
  show "ulongn_step128 l c = None" if "dec_dig c = None" for l c
    using that by (simp add: dec_dig_None ulongn_step128_def)
qed (simp_all add: ulongn_step128_eq)

lemma ulongn_step_eq:
  assumes "dec_dig c = Some d"
  shows "map_option unat (ulongn_step l c) =
    (if 10 * unat l + d \<le> 2 ^ 64 - 1 then Some (10 * unat l + d) else None)"
proof (cases "unat l * 8 < 2 ^ 64")
  case True
  let ?n = "push_bit 3 l" and ?m = "l * 2" and ?c = "ucast (c - 0x30) :: uint64"
  have c: "c - 0x30 < 10" "unat ?c = d" "d < 10"
    using assms by (simp_all add: dec_dig_Some word_less_nat_alt unat_ucast_up)
  have n: "unat ?n = 8 * unat l" "unat ?m = 2 * unat l" using times_ten[of l] True by simp_all
  then have "unat (?m + ?c) = 2 * unat l + d" using True c by (subst unat_add_small) simp_all
  then have "?n + ?m + ?c < ?n \<longleftrightarrow> 2 ^ 64 \<le> 10 * unat l + d" "unat (?n + ?m + ?c) = (10 * unat l + d) mod 2 ^ 64"
    using n word_add_wraps[of ?n "?m + ?c"] c by (simp_all add: add.assoc unat_word_ariths)
  then show ?thesis using c True by (auto simp: ulongn_step_def Let_def shl_fits)
next
  case False
  then show ?thesis using assms by (auto simp: ulongn_step_def Let_def shl_fits)
qed

interpretation dec64: digit_scanner ulongn_step unat 0 10 dec_dig "2 ^ 64 - 1"
proof unfold_locales
  show "ulongn_step l c = None" if "dec_dig c = None" for l c
    using that by (simp add: dec_dig_None ulongn_step_def)
qed (simp_all add: ulongn_step_eq)

lemma signed_sum_eq:
  fixes l :: "'a::len word"
  assumes "dec_dig c = Some d" "8 \<le> LENGTH('a)"
  shows "map_option unat
     (let n = push_bit 3 l
      in if drop_bit 3 n \<noteq> l then None
         else if n + push_bit 1 l < n then None
         else let n = n + push_bit 1 l
              in if n + ucast (c - 0x30) < n then None else Some (n + ucast (c - 0x30))) =
    (if 10 * unat l + d < 2 ^ LENGTH('a) then Some (10 * unat l + d) else None)"
proof (cases "10 * unat l < 2 ^ LENGTH('a)")
  case True
  let ?n = "push_bit 3 l + l * 2" and ?c = "ucast (c - 0x30) :: 'a word"
  have u: "unat l * 8 < 2 ^ LENGTH('a)" using True by simp
  have c: "unat ?c = d" using assms by (simp add: dec_dig_Some unat_ucast_up)
  have n: "unat ?n = 10 * unat l" "\<not> ?n < push_bit 3 l"
    using times_ten(3,4)[OF _ u] assms(2) True by simp_all
  have "?n + ?c < ?n \<longleftrightarrow> 2 ^ LENGTH('a) \<le> 10 * unat l + d" by (simp add: word_add_wraps n c)
  moreover have "unat (?n + ?c) = 10 * unat l + d" if "10 * unat l + d < 2 ^ LENGTH('a)"
    using that by (subst unat_add_small) (simp_all add: n c)
  ultimately show ?thesis using n u by (auto simp: Let_def shl_fits)
next
  case False
  then show ?thesis
    using times_ten(3)[of l] assms(2) by (cases "unat l * 8 < 2 ^ LENGTH('a)") (auto simp: Let_def shl_fits)
qed

lemma ulonglong_step_eq:
  "dec_dig c = Some d \<Longrightarrow> map_option unat (ulonglong_step l c) =
    (if 10 * unat l + d \<le> 2 ^ 64 - 1 then Some (10 * unat l + d) else None)"
  using signed_sum_eq[of c d l] by (auto simp: ulonglong_step_def dec_dig_Some Let_def)

interpretation decll: digit_scanner ulonglong_step unat 0 10 dec_dig "2 ^ 64 - 1"
proof unfold_locales
  show "ulonglong_step l c = None" if "dec_dig c = None" for l c
    using that by (simp add: dec_dig_None ulonglong_step_def)
qed (simp_all add: ulonglong_step_eq)

lemma unat_minus_one_eq: "unat (- 1 :: 'a::len word) = 2 ^ LENGTH('a) - 1"
  by (simp add: unsigned_minus_1_eq_mask mask_eq_exp_minus_1)

text \<open>A digit of \<open>char\<close> type, compared as a signed value.\<close>

lemma sdigit_iff: "sint (c :: byte) \<ge> 0x30 \<and> sint c \<le> 0x39 \<longleftrightarrow> dec_dig c \<noteq> None"
proof (cases "sint c < 0")
  case True
  then have "128 \<le> unat c" by (simp add: sint_neg_iff)
  then show ?thesis using True by (simp add: dec_dig_None word_less_nat_alt unat_sub_if_size word_size)
next
  case False
  define n where "n = unat c"
  have "sint c = int n" "n < 128"
    using False sint_neg_iff[of c] by (simp_all add: n_def unat_nonneg_sint)
  then show ?thesis
    by (auto simp: dec_dig_None word_less_nat_alt unat_sub_if_size word_size n_def[symmetric])
qed

lemma sdigit_val:
  assumes "dec_dig c = Some d"
  shows "unat ((x :: uint64) * 10 + scast c - 0x30) = (unat x * 10 + d) mod 2 ^ 64"
proof -
  have c: "c - 0x30 < 10" "d = unat (c - 0x30)" using assms by (simp_all add: dec_dig_Some)
  then have "unat c = d + 0x30"
    using byte_lt_256[of c] by (auto simp: word_less_nat_alt unat_sub_if_size word_size split: if_splits)
  moreover have "0 \<le> sint c" using sdigit_iff[of c] assms by simp
  ultimately have "sint c = int (d + 0x30)" by (simp add: unat_nonneg_sint)
  then have s: "(scast c :: uint64) = of_nat d + 0x30" by (simp add: scast_eq)
  have "x * 10 + scast c - 0x30 = of_nat (unat x * 10 + d)" unfolding s by simp
  then show ?thesis by (simp only: unsigned_of_nat take_bit_eq_mod) simp
qed

lemma narrow_ne: "ucast (ucast x :: 'b::len word) \<noteq> (x :: uint64) \<longleftrightarrow> 2 ^ LENGTH('b) \<le> unat x"
  if "LENGTH('b) \<le> 64"
proof -
  have "ucast (ucast x :: 'b word) = x \<longleftrightarrow> unat x mod 2 ^ LENGTH('b) = unat x"
  proof -
    have "LENGTH('b) \<le> LENGTH(64)" using that by simp
    then show ?thesis
      unfolding word_unat_eq_iff by (subst unat_ucast_up) (simp_all only: unat_ucast_mod)
  qed
  also have "\<dots> \<longleftrightarrow> unat x < 2 ^ LENGTH('b)" by (metis mod_less mod_less_divisor zero_less_numeral zero_less_power)
  finally show ?thesis by (simp add: not_less)
qed

lemma uint_step_eq:
  assumes "dec_dig c = Some d"
  shows "map_option unat (uint_step l c) =
    (if 10 * unat l + d \<le> 2 ^ 32 - 1 then Some (10 * unat l + d) else None)"
proof -
  let ?t = "(ucast l :: uint64) * 10 + scast c - 0x30"
  have "d < 10" using dec.dig_lt[OF assms] .
  then have t: "unat ?t = 10 * unat l + d"
    using sdigit_val[OF assms, of "ucast l"] unat_lt_2p[of l] by (simp add: unat_ucast_up)
  then show ?thesis
    using assms sdigit_iff[of c] narrow_ne[where ?'b = 32, of ?t]
    by (auto simp: uint_step_def Let_def unat_ucast_mod)
qed

interpretation dec32: digit_scanner uint_step unat 0 10 dec_dig "2 ^ 32 - 1"
proof unfold_locales
  show "uint_step l c = None" if "dec_dig c = None" for l c
    using that sdigit_iff[of c] by (auto simp: uint_step_def)
qed (simp_all add: uint_step_eq)

lemma ushort_step_eq:
  assumes "dec_dig c = Some d"
  shows "map_option unat (ushort_step l c) =
    (if 10 * unat l + d \<le> 2 ^ 16 - 1 then Some (10 * unat l + d) else None)"
proof -
  let ?t = "(ucast l :: uint64) * 10 + scast c - 0x30"
  have "d < 10" using dec.dig_lt[OF assms] .
  then have t: "unat ?t = 10 * unat l + d"
    using sdigit_val[OF assms, of "ucast l"] unat_lt_2p[of l] by (simp add: unat_ucast_up)
  then show ?thesis
    using assms sdigit_iff[of c] narrow_ne[where ?'b = 16, of ?t]
    by (auto simp: ushort_step_def Let_def unat_ucast_mod)
qed

interpretation dec16: digit_scanner ushort_step unat 0 10 dec_dig "2 ^ 16 - 1"
proof unfold_locales
  show "ushort_step l c = None" if "dec_dig c = None" for l c
    using that sdigit_iff[of c] by (auto simp: ushort_step_def)
qed (simp_all add: ushort_step_eq)

lemma ulongn_step32_eq:
  assumes "dec_dig c = Some d"
  shows "map_option unat (ulongn_step32 l c) =
    (if 10 * unat l + d \<le> 2 ^ 32 - 1 then Some (10 * unat l + d) else None)"
proof -
  let ?t = "(ucast l :: uint64) * 10 + ucast (c - 0x30)"
  have c: "d < 10" "c - 0x30 < 10" "d = unat (c - 0x30)"
    using dec.dig_lt[OF assms] assms by (simp_all add: dec_dig_Some)
  then have t: "unat ?t = 10 * unat l + d"
    using unat_lt_2p[of l] by (simp add: unat_word_ariths unat_ucast_up)
  then show ?thesis
    using c(2) narrow_ne[where ?'b = 32, of ?t] by (auto simp: ulongn_step32_def Let_def unat_ucast_mod)
qed

interpretation dec32l: digit_scanner ulongn_step32 unat 0 10 dec_dig "2 ^ 32 - 1"
proof unfold_locales
  show "ulongn_step32 l c = None" if "dec_dig c = None" for l c
    using that by (simp add: dec_dig_None ulongn_step32_def)
qed (simp_all add: ulongn_step32_eq)

subsection \<open>Shifts of the value\<close>

text \<open>Adding a digit of \<open>k\<close> bits to a value whose upper \<open>k\<close> bits are empty.\<close>

lemma shift_in_digit:
  fixes l :: "'a::len word"
  assumes "k \<le> LENGTH('a)" "8 \<le> LENGTH('a)" "unat (x :: byte) < 2 ^ k"
  shows "drop_bit (LENGTH('a) - k) l = 0 \<longleftrightarrow> 2 ^ k * unat l + unat x \<le> 2 ^ LENGTH('a) - 1"
    and "drop_bit (LENGTH('a) - k) l = 0 \<Longrightarrow> unat (push_bit k l + ucast x) = 2 ^ k * unat l + unat x"
proof -
  have pw: "(2::nat) ^ LENGTH('a) = 2 ^ (LENGTH('a) - k) * 2 ^ k"
    using assms(1) by (simp flip: power_add)
  have hi: "drop_bit (LENGTH('a) - k) l = 0 \<longleftrightarrow> unat l < 2 ^ (LENGTH('a) - k)"
    unfolding unat_eq_0[symmetric] unat_shiftr by (simp add: div_eq_0_iff)
  have lt: "unat l * 2 ^ k + unat x < 2 ^ LENGTH('a)" if "unat l < 2 ^ (LENGTH('a) - k)"
  proof -
    have "(unat l + 1) * 2 ^ k \<le> 2 ^ LENGTH('a)" unfolding pw using that by (intro mult_le_mono1) simp
    then show ?thesis using assms(3) by simp
  qed
  have ge: "2 ^ LENGTH('a) \<le> unat l * 2 ^ k" if "\<not> unat l < 2 ^ (LENGTH('a) - k)"
    unfolding pw using that by (intro mult_le_mono1) simp
  show "drop_bit (LENGTH('a) - k) l = 0 \<longleftrightarrow> 2 ^ k * unat l + unat x \<le> 2 ^ LENGTH('a) - 1"
  proof (cases "unat l < 2 ^ (LENGTH('a) - k)")
    case True
    then have "2 ^ k * unat l + unat x < 2 ^ LENGTH('a)" using lt by (simp only: mult.commute)
    then show ?thesis unfolding hi using True by linarith
  next
    case False
    then have "2 ^ LENGTH('a) \<le> 2 ^ k * unat l" using ge by (simp only: mult.commute not_False_eq_True)
    then have "\<not> 2 ^ k * unat l + unat x \<le> 2 ^ LENGTH('a) - 1"
      using zero_less_power[of "2::nat" "LENGTH('a)"] by linarith
    then show ?thesis unfolding hi using False by blast
  qed
  show "unat (push_bit k l + ucast x) = 2 ^ k * unat l + unat x" if "drop_bit (LENGTH('a) - k) l = 0"
  proof -
    have s: "unat l * 2 ^ k + unat x < 2 ^ LENGTH('a)" using that lt hi by blast
    then have "unat (push_bit k l) = unat l * 2 ^ k" by (simp add: unat_shiftl)
    then show ?thesis using s assms(2) by (subst unat_add_small) (simp_all add: unat_ucast_up mult.commute)
  qed
qed

lemma oct_step_eq:
  fixes l :: "'a::len word"
  assumes "oct_dig c = Some d" "8 \<le> LENGTH('a)"
  shows "map_option unat (oct_step l c) =
    (if 8 * unat l + d \<le> 2 ^ LENGTH('a) - 1 then Some (8 * unat l + d) else None)"
proof -
  have c: "c - 0x30 < 8" "d = unat (c - 0x30)" using assms by (simp_all add: oct_dig_Some)
  then have "unat (c - 0x30) < 2 ^ 3" by (simp add: word_less_nat_alt)
  note s = shift_in_digit[OF _ assms(2) this, of l]
  have "push_bit 3 l + ucast (c - 0x30) = l * 8 + ucast (c - 0x30)" by (simp add: push_bit_eq_mult)
  then show ?thesis using s c assms(2) by (auto simp: oct_step_def Let_def)
qed

lemma oct_scanner:
  assumes "8 \<le> LENGTH('a::len)"
  shows "digit_scanner (oct_step :: 'a word \<Rightarrow> _) unat 0 8 oct_dig (2 ^ LENGTH('a) - 1)"
proof unfold_locales
  show "oct_step l c = None" if "oct_dig c = None" for l :: "'a word" and c
    using that by (simp add: oct_dig_None oct_step_def)
qed (use assms in \<open>auto simp: oct_step_eq\<close>)

interpretation oct64: digit_scanner "oct_step :: uint64 \<Rightarrow> _" unat 0 8 oct_dig "2 ^ 64 - 1"
  using oct_scanner[where ?'a = 64] by simp

interpretation oct32: digit_scanner "oct_step :: uint32 \<Rightarrow> _" unat 0 8 oct_dig "2 ^ 32 - 1"
  using oct_scanner[where ?'a = 32] by simp

interpretation oct16: digit_scanner "oct_step :: uint16 \<Rightarrow> _" unat 0 8 oct_dig "2 ^ 16 - 1"
  using oct_scanner[where ?'a = 16] by simp

text \<open>The branch-saving hex digit test agrees with the plain one that its comment gives.\<close>

lemma scan_fromhex_table:
  "\<forall>c. scan_fromhex c = (case hex_dig c of Some d \<Rightarrow> int d | None \<Rightarrow> -1)"
  unfolding all_bytes by code_simp

lemma scan_fromhex_eq: "scan_fromhex c = (case hex_dig c of Some d \<Rightarrow> int d | None \<Rightarrow> -1)"
  using scan_fromhex_table by blast

lemma hex_value:
  "word_of_int (scan_fromhex c) < (16 :: byte) \<longleftrightarrow> hex_dig c \<noteq> None"
  "hex_dig c = Some d \<Longrightarrow> unat (word_of_int (scan_fromhex c) :: byte) = d"
  using hex.dig_lt[of c]
  by (auto simp: scan_fromhex_eq word_less_nat_alt unat_of_nat unat_minus_one_eq split: option.splits)

lemma hex_step_eq:
  fixes l :: "'a::len word"
  assumes "hex_dig c = Some d" "8 \<le> LENGTH('a)"
  shows "map_option unat (hex_step l c) =
    (if 16 * unat l + d \<le> 2 ^ LENGTH('a) - 1 then Some (16 * unat l + d) else None)"
proof -
  have "unat (word_of_int (scan_fromhex c) :: byte) < 2 ^ 4"
    using hex_value(2)[OF assms(1)] hex.dig_lt[OF assms(1)] by simp
  note s = shift_in_digit[OF _ assms(2) this, of l]
  show ?thesis
    using s hex_value(1)[of c] hex_value(2)[OF assms(1)] assms by (auto simp: hex_step_def Let_def)
qed

lemma hex_scanner:
  assumes "8 \<le> LENGTH('a::len)"
  shows "digit_scanner (hex_step :: 'a word \<Rightarrow> _) unat 0 16 hex_dig (2 ^ LENGTH('a) - 1)"
proof unfold_locales
  show "hex_step l c = None" if "hex_dig c = None" for l :: "'a word" and c
    using that hex_value(1)[of c] by (simp add: hex_step_def)
qed (use assms in \<open>auto simp: hex_step_eq\<close>)

interpretation hex64: digit_scanner "hex_step :: uint64 \<Rightarrow> _" unat 0 16 hex_dig "2 ^ 64 - 1"
  using hex_scanner[where ?'a = 64] by simp

interpretation hex32: digit_scanner "hex_step :: uint32 \<Rightarrow> _" unat 0 16 hex_dig "2 ^ 32 - 1"
  using hex_scanner[where ?'a = 32] by simp

interpretation hex16: digit_scanner "hex_step :: uint16 \<Rightarrow> _" unat 0 16 hex_dig "2 ^ 16 - 1"
  using hex_scanner[where ?'a = 16] by simp

interpretation hex8: digit_scanner "hex_step :: byte \<Rightarrow> _" unat 0 16 hex_dig "2 ^ 8 - 1"
  using hex_scanner[where ?'a = 8] by simp

subsection \<open>Signed steps\<close>

lemma signed_step_eq:
  fixes l :: "'a::len word"
  assumes "dec_dig c = Some d" "8 \<le> LENGTH('a)"
  shows "map_option unat (signed_step neg l c) =
    (if 10 * unat l + d \<le> 2 ^ (LENGTH('a) - 1) - 1 + (if neg then 1 else 0)
     then Some (10 * unat l + d) else None)"
proof -
  let ?M = "drop_bit 1 (- 1 :: 'a word) + (if neg then 1 else 0)"
  let ?m = "2 ^ (LENGTH('a) - 1) - 1 + (if neg then 1 else 0) :: nat"
  obtain H :: nat where H: "H = 2 ^ (LENGTH('a) - 1)" by simp
  have half: "2 ^ LENGTH('a) = 2 * H"
    unfolding H using assms(2) by (metis One_nat_def Suc_pred len_gt_0 power_Suc)
  have pos: "1 \<le> H" unfolding H by simp
  have "unat (drop_bit 1 (- 1 :: 'a word)) = (2 * H - 1) div 2"
    unfolding unat_shiftr unat_minus_one_eq half by simp
  also have "\<dots> = H - 1" using pos by linarith
  finally have D: "unat (drop_bit 1 (- 1 :: 'a word)) = H - 1" .
  have M: "unat ?M = ?m"
  proof (cases neg)
    case True
    have "unat (drop_bit 1 (- 1 :: 'a word) + 1) = H - 1 + 1"
      using D half pos by (subst unat_add_small) simp_all
    then show ?thesis using True by (simp only: H if_True)
  qed (simp only: D H if_False add_0_right)
  have ml: "?m < 2 ^ LENGTH('a)" unfolding half H[symmetric] using pos by (simp split: if_split) linarith
  have "map_option unat (signed_step neg l c) =
      (case map_option unat (let n = push_bit 3 l
        in if drop_bit 3 n \<noteq> l then None
           else if n + push_bit 1 l < n then None
           else let n = n + push_bit 1 l
                in if n + ucast (c - 0x30) < n then None else Some (n + ucast (c - 0x30))) of
         None \<Rightarrow> None | Some u \<Rightarrow> if u > ?m then None else Some u)"
    using assms(1) M by (auto simp: signed_step_def dec_dig_Some Let_def word_less_nat_alt)
  also have "\<dots> = (if 10 * unat l + d \<le> ?m then Some (10 * unat l + d) else None)"
    unfolding signed_sum_eq[OF assms] using ml by auto
  finally show ?thesis .
qed

lemma signed_scanner:
  assumes "8 \<le> LENGTH('a::len)"
  shows "digit_scanner (signed_step neg :: 'a word \<Rightarrow> _) unat 0 10 dec_dig
    (2 ^ (LENGTH('a) - 1) - 1 + (if neg then 1 else 0))"
proof unfold_locales
  show "signed_step neg l c = None" if "dec_dig c = None" for l :: "'a word" and c
    using that by (simp add: dec_dig_None signed_step_def)
qed (use assms in \<open>auto simp: signed_step_eq\<close>)

interpretation neg64: digit_scanner "signed_step True :: uint64 \<Rightarrow> _" unat 0 10 dec_dig "2 ^ 63"
  using signed_scanner[where ?'a = 64, of True] by simp

interpretation pos64: digit_scanner "signed_step False :: uint64 \<Rightarrow> _" unat 0 10 dec_dig "2 ^ 63 - 1"
  using signed_scanner[where ?'a = 64, of False] by simp

interpretation neg32: digit_scanner "signed_step True :: uint32 \<Rightarrow> _" unat 0 10 dec_dig "2 ^ 31"
  using signed_scanner[where ?'a = 32, of True] by simp

interpretation pos32: digit_scanner "signed_step False :: uint32 \<Rightarrow> _" unat 0 10 dec_dig "2 ^ 31 - 1"
  using signed_scanner[where ?'a = 32, of False] by simp

subsection \<open>What the scanners return\<close>

lemma unat_eq_of_nat: "unat (l :: 'a::len word) = n \<Longrightarrow> l = of_nat n"
  by auto

lemma render_le_20: "length (dec.render (unat (i :: uint64))) \<le> 20"
  using unat_lt_2p[of i] by (intro dec.length_render_le) simp_all

lemma render_le_16: "length (hex.render (unat (i :: uint64))) \<le> 16"
  using unat_lt_2p[of i] by (intro hex.length_render_le) simp_all

lemma scan_ulongn_exact:
  assumes "all_digits dec_dig w" "str_val 10 dec_dig w \<le> 2 ^ 64 - 1" "length w \<le> n"
    "length w < n \<Longrightarrow> num_stuck 10 dec_dig (2 ^ 64 - 1) (str_val 10 dec_dig w) r"
  shows "scan_ulongn (w @ r) n = Some (length w, of_nat (str_val 10 dec_dig w))"
  using dec128.scan_loopn_exact[OF assms] unfolding scan_ulongn_def by (metis unat_eq_of_nat)

lemma scan_ulong_exact:
  assumes "all_digits dec_dig w" "str_val 10 dec_dig w \<le> 2 ^ 64 - 1" "length w < size_max"
    "num_stuck 10 dec_dig (2 ^ 64 - 1) (str_val 10 dec_dig w) r"
  shows "scan_ulong (w @ r) = Some (length w, of_nat (str_val 10 dec_dig w))"
  unfolding scan_ulong_def using assms by (intro scan_ulongn_exact) simp_all

lemma scan_ulong_fmt:
  "dec_dig c = None \<Longrightarrow>
     scan_ulong (snd (fmt_ulong True i) @ c # r) = Some (fst (fmt_ulong True i), i)"
  using scan_ulong_exact[OF dec.all_digits_render, of "unat i" "c # r"] render_le_20[of i] unat_lt_2p[of i]
  by (simp add: fmt_num_eq dec.str_val_render num_stuck_nondigit size_max_def)

lemma ulongn_steps_agree: "ulongn_step l c = ulongn_step128 l c"
proof (cases "dec_dig c")
  case None
  then show ?thesis by (simp add: dec64.step_nondigit dec128.step_nondigit)
next
  case (Some d)
  then have "map_option unat (ulongn_step l c) = map_option unat (ulongn_step128 l c)"
    by (simp add: ulongn_step_eq ulongn_step128_eq)
  then show ?thesis by (auto simp: map_option_case word_unat_eq_iff split: option.splits)
qed

lemma scan_ulongn_portable_eq:
  "scan_ulongn_portable src n =
     map_option (\<lambda>(k, l). (k, if k \<noteq> 0 then Some l else None)) (scan_ulongn src n)"
proof -
  have "ulongn_step = ulongn_step128" by (simp add: fun_eq_iff ulongn_steps_agree)
  then show ?thesis
    by (cases "scan_ulongn src n") (auto simp: scan_ulongn_portable_def scan_ulongn_def)
qed

lemma scan_ulonglong_exact:
  assumes "all_digits dec_dig w" "str_val 10 dec_dig w \<le> 2 ^ 64 - 1"
    "num_stuck 10 dec_dig (2 ^ 64 - 1) (str_val 10 dec_dig w) r"
  shows "scan_ulonglong (w @ r) =
    Some (length w, if w = [] then None else Some (of_nat (str_val 10 dec_dig w)))"
proof -
  have "scan_loop ulonglong_step (w @ r) 0 0 = Some (length w, of_nat (str_val 10 dec_dig w))"
    using decll.scan_loop_exact[OF assms] by (metis unat_eq_of_nat)
  then show ?thesis by (simp add: scan_ulonglong_def)
qed

lemma scan_ulonglong_fmt:
  "dec_dig c = None \<Longrightarrow>
     scan_ulonglong (snd (fmt_ulonglong True i) @ c # r) = Some (fst (fmt_ulonglong True i), Some i)"
  using scan_ulonglong_exact[OF dec.all_digits_render, of "unat i" "c # r"] unat_lt_2p[of i] dec.render_ne
  by (simp add: fmt_num_eq dec.str_val_render num_stuck_nondigit)

lemma scan_uint_exact:
  assumes "all_digits dec_dig w" "str_val 10 dec_dig w \<le> 2 ^ 32 - 1"
    "num_stuck 10 dec_dig (2 ^ 32 - 1) (str_val 10 dec_dig w) r"
  shows "scan_uint (w @ r) =
    Some (length w, if w = [] then None else Some (of_nat (str_val 10 dec_dig w)))"
proof -
  have "scan_loop uint_step (w @ r) 0 0 = Some (length w, of_nat (str_val 10 dec_dig w))"
    using dec32.scan_loop_exact[OF assms] by (metis unat_eq_of_nat)
  then show ?thesis by (simp add: scan_uint_def)
qed

lemma scan_ushort_exact:
  assumes "all_digits dec_dig w" "str_val 10 dec_dig w \<le> 2 ^ 16 - 1"
    "num_stuck 10 dec_dig (2 ^ 16 - 1) (str_val 10 dec_dig w) r"
  shows "scan_ushort (w @ r) =
    Some (length w, if w = [] then None else Some (of_nat (str_val 10 dec_dig w)))"
proof -
  have "scan_loop ushort_step (w @ r) 0 0 = Some (length w, of_nat (str_val 10 dec_dig w))"
    using dec16.scan_loop_exact[OF assms] by (metis unat_eq_of_nat)
  then show ?thesis by (simp add: scan_ushort_def)
qed

lemma scan_octal_exact:
  assumes "all_digits oct_dig w" "str_val 8 oct_dig w \<le> 2 ^ 64 - 1" "num_stuck 8 oct_dig (2 ^ 64 - 1) (str_val 8 oct_dig w) r"
  shows "scan_octal (w @ r) = Some (length w, of_nat (str_val 8 oct_dig w))"
  using oct64.scan_loop_exact[OF assms] unfolding scan_octal_def by (metis unat_eq_of_nat)

lemma scan_octal_fmt:
  "oct_dig c = None \<Longrightarrow>
     scan_octal (snd (fmt_octal True i) @ c # r) = Some (fst (fmt_octal True i), i)"
  using scan_octal_exact[OF octal.all_digits_render, of "unat i" "c # r"] unat_lt_2p[of i]
  by (simp add: fmt_num_eq octal.str_val_render num_stuck_nondigit)

lemma scan_8int_exact:
  assumes "all_digits oct_dig w" "str_val 8 oct_dig w \<le> 2 ^ 32 - 1" "num_stuck 8 oct_dig (2 ^ 32 - 1) (str_val 8 oct_dig w) r"
  shows "scan_8int (w @ r) = Some (length w, of_nat (str_val 8 oct_dig w))"
  using oct32.scan_loop_exact[OF assms] unfolding scan_8int_def by (metis unat_eq_of_nat)

lemma scan_8short_exact:
  assumes "all_digits oct_dig w" "str_val 8 oct_dig w \<le> 2 ^ 16 - 1" "num_stuck 8 oct_dig (2 ^ 16 - 1) (str_val 8 oct_dig w) r"
  shows "scan_8short (w @ r) = Some (length w, of_nat (str_val 8 oct_dig w))"
  using oct16.scan_loop_exact[OF assms] unfolding scan_8short_def by (metis unat_eq_of_nat)

lemma scan_xlongn_exact:
  assumes "all_digits hex_dig w" "str_val 16 hex_dig w \<le> 2 ^ 64 - 1" "length w \<le> n"
    "length w < n \<Longrightarrow> num_stuck 16 hex_dig (2 ^ 64 - 1) (str_val 16 hex_dig w) r"
  shows "scan_xlongn (w @ r) n = Some (length w, of_nat (str_val 16 hex_dig w))"
  using hex64.scan_loopn_exact[OF assms] unfolding scan_xlongn_def by (metis unat_eq_of_nat)

lemma scan_xint_exact:
  assumes "all_digits hex_dig w" "str_val 16 hex_dig w \<le> 2 ^ 32 - 1" "num_stuck 16 hex_dig (2 ^ 32 - 1) (str_val 16 hex_dig w) r"
  shows "scan_xint (w @ r) = Some (length w, of_nat (str_val 16 hex_dig w))"
  using hex32.scan_loop_exact[OF assms] unfolding scan_xint_def by (metis unat_eq_of_nat)

lemma scan_xchar_exact:
  assumes "all_digits hex_dig w" "str_val 16 hex_dig w \<le> 2 ^ 8 - 1" "length w \<le> 2"
    "length w < 2 \<Longrightarrow> num_stuck 16 hex_dig (2 ^ 8 - 1) (str_val 16 hex_dig w) r"
  shows "scan_xchar (w @ r) = Some (length w, of_nat (str_val 16 hex_dig w))"
  using hex8.scan_loopn_exact[OF assms] unfolding scan_xchar_def by (metis unat_eq_of_nat)

lemma scan_xshort_exact:
  assumes "all_digits hex_dig w" "str_val 16 hex_dig w \<le> 2 ^ 16 - 1" "length w \<le> 4"
    "length w < 4 \<Longrightarrow> num_stuck 16 hex_dig (2 ^ 16 - 1) (str_val 16 hex_dig w) r"
  shows "scan_xshort (w @ r) = Some (length w, of_nat (str_val 16 hex_dig w))"
  using hex16.scan_loopn_exact[OF assms] unfolding scan_xshort_def by (metis unat_eq_of_nat)

text \<open>The unchecked hex scanners take every digit and reduce the value modulo \<open>2^64\<close>.\<close>

lemma hex_unchecked_run:
  assumes "all_digits hex_dig w"
  shows "scan_loop hex_step_unchecked (w @ s) i 0 =
    scan_loop hex_step_unchecked s (i + length w) (of_nat (str_val 16 hex_dig w))"
  using assms
proof (induction w arbitrary: s rule: rev_induct)
  case (snoc c w)
  then obtain d where d: "hex_dig c = Some d" by auto
  then have "hex_step_unchecked (of_nat v) c = Some (of_nat (16 * v + d))" for v
  proof -
    have u: "unat (word_of_int (scan_fromhex c) :: byte) = d" by (rule hex_value(2)[OF d])
    have "(ucast (word_of_int (scan_fromhex c) :: byte) :: uint64) = of_nat d"
      using arg_cong[OF u, of "of_nat :: nat \<Rightarrow> uint64"] by simp
    then show ?thesis using hex_value(1)[of c] d by (simp add: hex_step_unchecked_def push_bit_eq_mult Let_def)
  qed
  then show ?case using snoc d by simp
qed simp

lemma scan_xlong_exact:
  assumes "all_digits hex_dig w" "hex_dig c = None"
  shows "scan_xlong (w @ c # r) = Some (length w, of_nat (str_val 16 hex_dig w))"
  using hex_unchecked_run[OF assms(1), of "c # r" 0] assms(2) hex_value(1)[of c]
  by (simp add: scan_xlong_def hex_step_unchecked_def)

lemma scan_xlong_fmt:
  "hex_dig c = None \<Longrightarrow>
     scan_xlong (snd (fmt_xlong True i) @ c # r) = Some (fst (fmt_xlong True i), i)"
  using scan_xlong_exact[OF hex.all_digits_render, of c "unat i" r]
  by (simp add: fmt_num_eq hex.str_val_render)

lemma scan_short_wraps: "scan_short (cstr (ascii ''70000'') r) = Some (5, Some 4464)"
  by (simp add: scan_short_def scan_sign_def short_step_def Let_def)

subsection \<open>Signed numbers\<close>

lemma scan_sign_minus: "scan_sign (0x2d # s) = Some (True, s, 1)"
  and scan_sign_plus: "scan_sign (0x2b # s) = Some (False, s, 1)"
  by (simp_all add: scan_sign_def)

lemma scan_sign_digit: "dec_dig c \<noteq> None \<Longrightarrow> scan_sign (c # s) = Some (False, c # s, 0)"
  by (auto simp: scan_sign_def dec_dig_def)

text \<open>A sign, or none, in front of a digit string.\<close>

lemma scan_sign_split:
  assumes "all_digits dec_dig w" "w \<noteq> []" "sg \<in> {[], [0x2b], [0x2d]}"
  shows "scan_sign (sg @ w @ r) = Some (sg = [0x2d], w @ r, length sg)"
proof -
  obtain c v where w: "w = c # v" using assms(2) by (cases w) auto
  show ?thesis using assms scan_sign_digit[of c "v @ r"] by (auto simp: w scan_sign_minus scan_sign_plus)
qed

lemma scan_int_exact:
  assumes "all_digits dec_dig w" "w \<noteq> []" "sg \<in> {[], [0x2b], [0x2d]}" "str_val 10 dec_dig w \<le> 2 ^ 31 - 1"
    "num_stuck 10 dec_dig (if sg = [0x2d] then 2 ^ 31 else 2 ^ 31 - 1) (str_val 10 dec_dig w) r"
  shows "scan_int (sg @ w @ r) = Some (length sg + length w,
    Some (if sg = [0x2d] then - of_nat (str_val 10 dec_dig w) else of_nat (str_val 10 dec_dig w)))"
proof -
  let ?v = "str_val 10 dec_dig w"
  obtain l :: uint32 where l: "scan_loop (signed_step (sg = [0x2d])) (w @ r) 0 0 = Some (length w, l)" "unat l = ?v"
  proof (cases "sg = [0x2d]")
    case True
    have le: "?v \<le> 2 ^ 31" using assms(4) by simp
    have st: "num_stuck 10 dec_dig (2 ^ 31) ?v r" using assms(5) True by simp
    show ?thesis using neg32.scan_loop_exact[OF assms(1) le st] that True by auto
  next
    case False
    have le: "?v \<le> 2 ^ 31 - 1" using assms(4) by simp
    have st: "num_stuck 10 dec_dig (2 ^ 31 - 1) ?v r" using assms(5) False by simp
    show ?thesis using pos32.scan_loop_exact[OF assms(1) le st] that False by auto
  qed
  then have "l \<noteq> 0x80000000" "l = of_nat ?v" using assms(4) by (auto simp: unat_eq_of_nat)
  then show ?thesis
    using l(1) scan_sign_split[OF assms(1-3), of r] assms(2)
    by (simp add: scan_int_def store_signed_def push_bit_eq_mult)
qed

lemma scan_longn_exact:
  assumes "all_digits dec_dig w" "w \<noteq> []" "sg \<in> {[], [0x2b], [0x2d]}" "str_val 10 dec_dig w \<le> 2 ^ 63 - 1"
    "length w < n"
    "length w < n - 1 \<Longrightarrow>
       num_stuck 10 dec_dig (if sg = [0x2d] then 2 ^ 63 else 2 ^ 63 - 1) (str_val 10 dec_dig w) r"
  shows "scan_longn (sg @ w @ r) n = Some (length sg + length w,
    Some (if sg = [0x2d] then - of_nat (str_val 10 dec_dig w) else of_nat (str_val 10 dec_dig w)))"
proof -
  let ?v = "str_val 10 dec_dig w"
  have ln: "length w \<le> n - 1" using assms(5) by simp
  obtain l :: uint64 where l: "scan_loopn (signed_step (sg = [0x2d])) (n - 1) (w @ r) 0 0 = Some (length w, l)" "unat l = ?v"
  proof (cases "sg = [0x2d]")
    case True
    have le: "?v \<le> 2 ^ 63" using assms(4) by simp
    have st: "num_stuck 10 dec_dig (2 ^ 63) ?v r" if "length w < n - 1" using assms(6) True that by simp
    show ?thesis using neg64.scan_loopn_exact[OF assms(1) le ln st] that True by auto
  next
    case False
    have le: "?v \<le> 2 ^ 63 - 1" using assms(4) by simp
    have st: "num_stuck 10 dec_dig (2 ^ 63 - 1) ?v r" if "length w < n - 1" using assms(6) False that by simp
    show ?thesis using pos64.scan_loopn_exact[OF assms(1) le ln st] that False by auto
  qed
  then have "l \<noteq> 0x8000000000000000" "l = of_nat ?v" using assms(4) by (auto simp: unat_eq_of_nat)
  then show ?thesis
    using l(1) scan_sign_split[OF assms(1-3), of r] assms(2,5)
    by (simp add: scan_longn_def store_signed_def push_bit_eq_mult)
qed

text \<open>Scanning what \<open>fmt_long\<close> wrote returns the number; the least \<open>long\<close> is excluded there.\<close>

lemma scan_long_fmt:
  assumes "i \<noteq> 0x8000000000000000" "dec_dig c = None"
  shows "\<exists>n w. fmt_long True i = Some (n, w) \<and> scan_long (w @ c # r) = Some (n, Some i)"
proof -
  define sg where "sg = (if sint i < 0 then [0x2d] else [] :: byte list)"
  define v where "v = nat \<bar>sint i\<bar>"
  have ge: "- (2 ^ 63) \<le> sint i" "sint i < 2 ^ 63" using sint_ge[of i] sint_lt[of i] by simp_all
  have "sint i \<noteq> - (2 ^ 63)"
  proof
    assume "sint i = - (2 ^ 63)"
    then have "word_of_int (sint i) = (word_of_int (- (2 ^ 63)) :: uint64)" by (rule arg_cong)
    with assms(1) show False by simp
  qed
  with ge have v: "v \<le> 2 ^ 63 - 1" by (auto simp: v_def)
  have f: "fmt_long True i = Some (length sg + length (dec.render v), sg @ dec.render v)"
    using assms(1) by (simp add: fmt_long_eq Let_def sg_def v_def)
  have "length (dec.render v) \<le> 20" using v by (intro dec.length_render_le) simp_all
  then have "scan_longn (sg @ dec.render v @ c # r) size_max =
      Some (length sg + length (dec.render v), Some (if sg = [0x2d] then - of_nat v else of_nat v))"
    using scan_longn_exact[OF dec.all_digits_render dec.render_ne, of sg v size_max "c # r"] v assms(2)
    by (simp add: sg_def dec.str_val_render num_stuck_nondigit size_max_def)
  moreover have "(if sg = [0x2d] then - of_nat v else of_nat v) = i"
    by (simp add: sg_def v_def)
  ultimately show ?thesis using f by (simp add: scan_long_def)
qed

text \<open>A number without a sign is cut one digit short of the limit.\<close>

lemma scan_longn_short: "scan_longn (ascii ''12'') 2 = Some (1, Some 1)"
  by (simp add: scan_longn_def scan_sign_def signed_step_def store_signed_def Let_def)

subsection \<open>Netstrings\<close>

lemma scan_loopn_total:
  "n \<le> length s \<Longrightarrow> \<exists>k l. scan_loopn step n s i l0 = Some (i + k, l) \<and> k \<le> n"
proof (induction n arbitrary: s i l0)
  case (Suc n)
  then obtain c t where s: "s = c # t" "n \<le> length t" by (cases s) auto
  show ?case
  proof (cases "step l0 c")
    case (Some l')
    then show ?thesis using Suc.IH[OF s(2), of "i + 1" l'] s(1) by force
  qed (use s in auto)
qed simp

lemma scan_netstring_safe:
  assumes "len \<le> length inp" "len < 2 ^ 63"
  obtains (refused) "scan_netstring inp len = Some (0, None)"
  | (accepted) p l where "scan_netstring inp len = Some (p + l + 1, Some (p, l))" "p + l + 1 \<le> len"
      "inp ! (p - 1) = 0x3a" "0 < p" "inp ! (p + l) = 0x2c"
proof -
  obtain n v where u: "scan_ulongn inp len = Some (n, v)" "n \<le> len"
    using scan_loopn_total[OF assms(1), of ulongn_step128 0 0] by (auto simp: scan_ulongn_def)
  let ?e = "of_nat n + 2 + v :: uint64"
  show ?thesis
  proof (cases "n = 0 \<or> ?e < v \<or> unat ?e > len")
    case True
    then show ?thesis using u refused by (auto simp: scan_netstring_def)
  next
    case False
    then have ok: "n \<noteq> 0" "\<not> ?e < v" "unat ?e \<le> len" by simp_all
    have n2: "unat (of_nat n + 2 :: uint64) = n + 2"
      using u(2) assms(2) by (simp add: unat_word_ariths unat_of_nat)
    have nw: "\<not> v + (of_nat n + 2) < v" using ok(2) by (simp only: add.commute not_False_eq_True)
    have "unat (of_nat n + 2 :: uint64) + unat v < 2 ^ 64"
      using nw unfolding word_add_wraps by simp
    then have e: "unat ?e = n + 2 + unat v" using n2 by (subst unat_add_small) simp_all
    then have in_range: "n < length inp" "n + unat v + 1 < length inp" using ok assms(1) by simp_all
    show ?thesis
    proof (cases "inp ! n = 0x3a \<and> inp ! (n + unat v + 1) = 0x2c")
      case True
      then show ?thesis
        using accepted[of "n + 1" "unat v"] u(1) False e ok in_range by (simp add: scan_netstring_def)
    next
      case nok: False
      then show ?thesis using refused u(1) False in_range by (auto simp: scan_netstring_def)
    qed
  qed
qed

subsection \<open>Properties\<close>

text \<open>
  C35. \<open>scan_ulongn\<close> is greedy and never overflows: on a digit string whose value fits into an
  \<open>unsigned long\<close>, followed by a byte that is no digit or one digit too many, it consumes exactly
  the digits and stores their value; a limit shorter than the input is respected.
\<close>

theorem scan_ulongn_greedy:
  assumes "all_digits dec_dig w" "str_val 10 dec_dig w \<le> 2 ^ 64 - 1" "length w \<le> n"
    "length w < n \<longrightarrow> num_stuck 10 dec_dig (2 ^ 64 - 1) (str_val 10 dec_dig w) r"
  shows "scan_ulongn (w @ r) n = Some (length w, of_nat (str_val 10 dec_dig w))"
  using assms by (intro scan_ulongn_exact) simp_all

theorem scan_ulongn_greedy_witness:
  "scan_ulongn (ascii ''18446744073709551615'' @ ascii ''0'') 30 = Some (20, 0xffffffffffffffff)"
  using scan_ulongn_greedy[of "ascii ''18446744073709551615''" 30 "ascii ''0''"]
  by (simp add: dec_dig_def str_val_def digs_val_def num_stuck_def)

text \<open>
  The three-way overflow test of the portable body of \<open>scan_ulongn\<close> agrees with the 128-bit
  body on every input; the two differ only in leaving the destination alone when there is no digit.
\<close>

theorem scan_ulongn_bodies_agree:
  "scan_ulongn_portable src n =
     map_option (\<lambda>(k, l). (k, if k \<noteq> 0 then Some l else None)) (scan_ulongn src n)"
  by (rule scan_ulongn_portable_eq)

text \<open>
  Unsigned numbers survive formatting and scanning in base 10, 8 and 16, for all 64-bit values and
  whatever follows the digits, as long as it does not continue them.
\<close>

theorem scan_fmt_unsigned:
  assumes "dec_dig c = None" "oct_dig c = None" "hex_dig c = None"
  shows "scan_ulong (snd (fmt_ulong True i) @ c # r) = Some (fst (fmt_ulong True i), i) \<and>
     scan_octal (snd (fmt_octal True i) @ c # r) = Some (fst (fmt_octal True i), i) \<and>
     scan_xlong (snd (fmt_xlong True i) @ c # r) = Some (fst (fmt_xlong True i), i)"
  using scan_ulong_fmt[OF assms(1)] scan_octal_fmt[OF assms(2)] scan_xlong_fmt[OF assms(3)] by blast

theorem scan_fmt_unsigned_witness:
  "scan_ulong (snd (fmt_ulong True 4711) @ 0x20 # []) = Some (fst (fmt_ulong True 4711), 4711)"
  using scan_fmt_unsigned[of "0x20" 4711 "[]"] by (simp add: dec_dig_def oct_dig_def hex_dig_def)

text \<open>
  Signed numbers survive \<open>fmt_long\<close> and \<open>scan_long\<close>, all but the least \<open>long\<close>, whose
  negation is undefined in the formatter.
\<close>

theorem scan_fmt_signed:
  assumes "i \<noteq> 0x8000000000000000" "dec_dig c = None"
  shows "\<exists>n w. fmt_long True i = Some (n, w) \<and> scan_long (w @ c # r) = Some (n, Some i)"
  using scan_long_fmt[OF assms] .

theorem scan_fmt_signed_witness:
  "\<exists>n w. fmt_long True (- 42) = Some (n, w) \<and> scan_long (w @ 0 # [7]) = Some (n, Some (- 42))"
  by (rule scan_fmt_signed) (simp_all add: dec_dig_def)

text \<open>
  \<open>scan_short\<close> misses overflows: it tests for a wrap-around on sums that are computed in
  \<open>int\<close> and cut to 16 bits afterwards, so that "70000" is accepted as 4464.
\<close>

theorem scan_short_accepts_overflow: "scan_short (cstr (ascii ''70000'') r) = Some (5, Some 4464)"
  by (rule scan_short_wraps)

text \<open>
  C17. \<open>scan_netstring\<close> is safe on every input of \<open>len\<close> bytes: it reads inside them, and either
  refuses or reports a text that lies between its colon and its comma inside the input.
\<close>

theorem scan_netstring_stays_inside:
  assumes "len \<le> length inp" "len < 2 ^ 63"
  shows "scan_netstring inp len = Some (0, None) \<or>
    (\<exists>p l. scan_netstring inp len = Some (p + l + 1, Some (p, l)) \<and> p + l + 1 \<le> len \<and> 0 < p \<and>
       inp ! (p - 1) = 0x3a \<and> inp ! (p + l) = 0x2c)"
  by (rule scan_netstring_safe[OF assms]) auto

theorem scan_netstring_stays_inside_witness:
  "scan_netstring (ascii ''3:abc,'') 6 = Some (0, None) \<or>
    (\<exists>p l. scan_netstring (ascii ''3:abc,'') 6 = Some (p + l + 1, Some (p, l)) \<and> p + l + 1 \<le> 6 \<and> 0 < p \<and>
       ascii ''3:abc,'' ! (p - 1) = 0x3a \<and> ascii ''3:abc,'' ! (p + l) = 0x2c)"
  by (rule scan_netstring_stays_inside) simp_all

end
