(* ===== verification/Encodings.thy ===== *)
theory Encodings
  imports Scan
begin

text \<open>
  The self-delimiting encodings that \<open>Scan\<close> defines: a well-formed netstring is accepted whatever
  follows it, ASN.1 tags and lengths come back as they were written, and the skipping routines return
  the length of the longest matching prefix.
\<close>

subsection \<open>Netstrings\<close>

definition netstring :: "byte list \<Rightarrow> byte list" where
  "netstring t = dec.render (length t) @ [0x3a] @ t @ [0x2c]"

lemma scan_netstring_complete:
  assumes "length (netstring t) \<le> len" "len < 2 ^ 63"
  shows "scan_netstring (netstring t @ r) len =
    Some (length (netstring t), Some (length (dec.render (length t)) + 1, length t))"
proof -
  let ?d = "dec.render (length t)"
  have colon: "dec_dig 0x3a = None" by (simp add: dec_dig_def)
  have tl: "length t < 2 ^ 63" using assms by (simp add: netstring_def)
  then have "length ?d \<le> 20" by (intro dec.length_render_le) simp_all
  have u: "scan_ulongn (?d @ 0x3a # t @ 0x2c # r) len = Some (length ?d, of_nat (length t))"
    using scan_ulongn_exact[OF dec.all_digits_render, of "length t" len "0x3a # t @ 0x2c # r"] assms tl colon
    by (simp add: dec.str_val_render num_stuck_nondigit netstring_def)
  have l: "unat (of_nat (length t) :: uint64) = length t" using tl by (simp add: unat_of_nat)
  have e: "unat (of_nat (length ?d) + 2 + of_nat (length t) :: uint64) = length ?d + 2 + length t"
    using \<open>length ?d \<le> 20\<close> tl by (simp add: unat_word_ariths unat_of_nat)
  then have nw: "\<not> of_nat (length ?d) + 2 + of_nat (length t) < (of_nat (length t) :: uint64)"
    using l by (simp add: word_less_nat_alt)
  show ?thesis
    using u e nw l assms(1) dec.render_ne[of "length t"]
    by (simp add: scan_netstring_def netstring_def nth_append rd_def)
qed

subsection \<open>ASN.1 tags\<close>

text \<open>A tag is its base 128 digits, every one but the last marked with the top bit.\<close>

lemma dertag_count_eq: "dertag_count t n = n + length (digs 128 (unat t)) - 1"
proof (induction t n rule: dertag_count.induct)
  case (1 t n)
  show ?case
  proof (cases "t > 0x7f")
    case True
    then have "128 \<le> unat t" by (simp add: word_less_nat_alt)
    then show ?thesis using 1[OF True] True
      by (simp add: dertag_count.simps[of t n] digs_step unat_shiftr)
  next
    case False
    then have "unat t < 128" by (simp add: word_less_nat_alt)
    then show ?thesis using False by (simp add: dertag_count.simps[of t n] digs_small)
  qed
qed

definition der_more :: "nat \<Rightarrow> byte" where
  "der_more d = 0x80 OR of_nat d"

lemma low7: "(ucast (l AND 0x7f :: uint64) :: byte) = of_nat (unat l mod 128)"
proof -
  have m: "(0x7f :: uint64) = mask 7" by (simp add: mask_eq_exp_minus_1)
  have "unat (l AND 0x7f) = unat l mod 128" unfolding m unat_and_mask by simp
  then show ?thesis by (metis of_nat_unat)
qed

lemma dertag_store_more:
  "dertag_store (length (digs 128 (unat l))) False l w = map der_more (digs 128 (unat l)) @ w"
proof (induction "unat l" arbitrary: l w rule: less_induct)
  case less
  show ?case
  proof (cases "unat l < 128")
    case True
    then show ?thesis by (simp add: digs_small low7 der_more_def)
  next
    case False
    then have "dertag_store (length (digs 128 (unat (drop_bit 7 l)))) False (drop_bit 7 l) (d # w) =
        map der_more (digs 128 (unat (drop_bit 7 l))) @ d # w" for d
      by (intro less) (simp add: unat_shiftr)
    then show ?thesis using False by (simp add: digs_step low7 der_more_def unat_shiftr)
  qed
qed

lemma fmt_asn1dertag_eq:
  "fmt_asn1dertag True l =
     (length (digs 128 (unat l)),
      (if unat l < 128 then [] else map der_more (digs 128 (unat l div 128))) @ [of_nat (unat l mod 128)])"
  using dertag_store_more[of "drop_bit 7 l"]
  by (auto simp: fmt_asn1dertag_def dertag_count_eq digs_small digs_step low7 unat_shiftr)

lemma unat_der_more: "d < 128 \<Longrightarrow> unat (der_more d) = 128 + d"
proof -
  assume d: "d < 128"
  then have "0x80 AND (of_nat d :: byte) = 0"
    using byte_top_bit[of "of_nat d"] by (simp add: unat_of_nat and.commute)
  then have "der_more d = 0x80 + of_nat d" by (simp add: der_more_def disjunctive_add_eq_or)
  then show ?thesis using d by (simp add: unat_word_ariths unat_of_nat)
qed

lemma shl7_or:
  fixes l :: uint64 and c :: byte
  assumes "unat l < 2 ^ 57"
  shows "unat (push_bit 7 l OR ucast (c AND 0x7f)) = 128 * unat l + unat c mod 128"
proof -
  have c: "unat (ucast (c AND 0x7f) :: uint64) = unat c mod 128"
    using byte_low_bits[of c] by (simp add: unat_ucast_up)
  have "push_bit 7 l AND ucast (c AND 0x7f) = (0 :: uint64)"
  proof (rule bit_word_eqI)
    fix n
    have "bit (0x7f :: byte) n \<longleftrightarrow> n < 7"
      using bit_mask_iff[where ?'a = byte, of 7 n] by (auto simp: mask_eq_exp_minus_1)
    then show "bit (push_bit 7 l AND ucast (c AND 0x7f)) n \<longleftrightarrow> bit (0 :: uint64) n"
      by (auto simp: bit_simps)
  qed
  then have "push_bit 7 l OR ucast (c AND 0x7f) = push_bit 7 l + ucast (c AND 0x7f)"
    by (simp add: disjunctive_add_eq_or)
  moreover have "unat (push_bit 7 l) = 128 * unat l" using assms by (simp add: unat_shiftl)
  moreover have "unat c mod 128 < 128" by simp
  ultimately show ?thesis using c assms by (simp only:) (subst unat_add_small, simp_all)
qed

text \<open>The scanning loop holds the value of the digits it has passed.\<close>

lemma dertag_loop_run:
  assumes "\<forall>d \<in> set ds. d < 128" "e < 128" "unat l * 128 ^ (length ds + 1) + digs_val 128 (ds @ [e]) < 2 ^ 64"
    "src = pre @ map der_more ds @ of_nat e # r" "length pre + length ds < len"
  shows "dertag_loop src len (length pre) l =
    Some (length pre + length ds + 1, Some (of_nat (unat l * 128 ^ (length ds + 1) + digs_val 128 (ds @ [e]))))"
  using assms
proof (induction ds arbitrary: pre l)
  case Nil
  have l57: "unat l < 2 ^ 57" using Nil.prems(3) by simp
  then have "drop_bit 57 l = 0" unfolding unat_eq_0[symmetric] unat_shiftr by simp
  moreover have "rd src (length pre) = Some (of_nat e)" using Nil.prems(4) rd_append_right[of pre _ 0] by simp
  moreover have "of_nat e AND (0x80 :: byte) = 0" using Nil.prems(2) by (simp add: byte_top_bit unat_of_nat)
  moreover have "push_bit 7 l OR ucast (of_nat e AND (0x7f :: byte)) = of_nat (128 * unat l + e)"
    using shl7_or[OF l57, of "of_nat e"] Nil.prems(2) by (intro unat_eq_of_nat) (simp add: unat_of_nat)
  ultimately show ?case
    using Nil.prems(5) by (subst dertag_loop.simps) (simp add: digs_val_def mult.commute)
next
  case (Cons d ds)
  let ?l = "push_bit 7 l OR ucast (der_more d AND 0x7f) :: uint64"
  have big: "unat l * 128 * 128 \<le> unat l * 128 ^ (length (d # ds) + 1)"
    using power_increasing[of 2 "length (d # ds) + 1" "128::nat"] by (simp add: power2_eq_square)
  then have "unat l * 128 * 128 < 2 ^ 64" using Cons.prems(3) by linarith
  then have l57: "unat l < 2 ^ 57" by simp
  then have hi: "drop_bit 57 l = 0" unfolding unat_eq_0[symmetric] unat_shiftr by simp
  have d: "d < 128" using Cons.prems(1) by simp
  have ul: "unat ?l = 128 * unat l + d" using shl7_or[OF l57, of "der_more d"] d by (simp add: unat_der_more)
  have val: "unat ?l * 128 ^ (length ds + 1) + digs_val 128 (ds @ [e]) =
      unat l * 128 ^ (length (d # ds) + 1) + digs_val 128 ((d # ds) @ [e])"
    unfolding ul using digs_val_Cons[of 128 d "ds @ [e]"] by (simp add: algebra_simps)
  have "dertag_loop src len (length (pre @ [der_more d])) ?l =
      Some (length (pre @ [der_more d]) + length ds + 1,
        Some (of_nat (unat ?l * 128 ^ (length ds + 1) + digs_val 128 (ds @ [e]))))"
    using Cons.prems val by (intro Cons.IH) auto
  moreover have "rd src (length pre) = Some (der_more d)" using Cons.prems(4) rd_append_right[of pre _ 0] by simp
  moreover have "der_more d AND 0x80 \<noteq> 0" using d by (simp add: byte_top_bit unat_der_more)
  ultimately show ?case
    unfolding val using Cons.prems(5) hi by (subst dertag_loop.simps) (simp add: Let_def)
qed

lemma scan_asn1dertag_fmt:
  assumes "fst (fmt_asn1dertag True l) \<le> len"
  shows "scan_asn1dertag (snd (fmt_asn1dertag True l) @ r) len = Some (fst (fmt_asn1dertag True l), Some l)"
proof -
  define ds where "ds = (if unat l < 128 then [] else digs 128 (unat l div 128))"
  define e where "e = unat l mod 128"
  have all: "ds @ [e] = digs 128 (unat l)" by (auto simp: ds_def e_def digs_small digs_step)
  then have v: "digs_val 128 (ds @ [e]) = unat l" by (simp add: digs_val_digs)
  have lt: "\<forall>d \<in> set ds. d < 128" using digs_lt[of 128 _ "unat l div 128"] by (auto simp: ds_def)
  have "length (digs 128 (unat l)) = length ds + 1" using arg_cong[OF all, of length] by simp
  then have n: "fst (fmt_asn1dertag True l) = length ds + 1" by (simp add: fmt_asn1dertag_eq)
  have w: "snd (fmt_asn1dertag True l) = map der_more ds @ [of_nat e]"
    by (simp add: fmt_asn1dertag_eq ds_def e_def)
  have "hd (map der_more ds @ [of_nat e]) \<noteq> 0x80"
  proof (cases "unat l < 128")
    case True
    then show ?thesis by (simp add: ds_def e_def word_unat_eq_iff unat_of_nat unat_ucast_mod)
  next
    case False
    then have "hd ds \<noteq> 0" using hd_digs[of 128 "unat l div 128"]
      by (simp add: ds_def div_greater_zero_iff)
    moreover obtain d es where ds: "ds = d # es" using False by (cases ds) (simp_all add: ds_def)
    ultimately show ?thesis using lt by (auto dest: arg_cong[of _ _ unat] simp: unat_der_more)
  qed
  moreover have "rd (map der_more ds @ of_nat e # r) 0 = Some (hd (map der_more ds @ [of_nat e]))"
    by (cases ds) simp_all
  moreover have "dertag_loop (map der_more ds @ of_nat e # r) len 0 0 = Some (length ds + 1, Some l)"
    using dertag_loop_run[OF lt, of e 0 "map der_more ds @ of_nat e # r" "[]" r len] assms n unat_lt_2p[of l]
    unfolding v by (simp add: e_def)
  ultimately show ?thesis using assms n w by (simp add: scan_asn1dertag_def)
qed

subsection \<open>ASN.1 lengths\<close>

text \<open>A length of 128 or more is its base 256 digits behind their count.\<close>

lemma derlength_bytes_eq:
  assumes "1 \<le> i" "length (digs 256 (unat l)) \<le> i + n" "i \<le> length (digs 256 (unat l))"
  shows "derlength_bytes l i n = length (digs 256 (unat l))"
  using assms
proof (induction n arbitrary: i)
  case (Suc n)
  have p: "(2::nat) ^ (i * 8) = 256 ^ i" using power_mult[of "2::nat" 8 i] by (simp add: mult.commute)
  have z: "drop_bit (i * 8) l = 0 \<longleftrightarrow> unat l < 256 ^ i"
    unfolding unat_eq_0[symmetric] unat_shiftr p by (simp add: div_eq_0_iff)
  show ?case
  proof (cases "unat l < 256 ^ i")
    case True
    then have "length (digs 256 (unat l)) \<le> i" using Suc.prems(1) by (intro length_digs_le) simp_all
    then show ?thesis using True z Suc.prems by simp
  next
    case False
    then have "i \<noteq> length (digs 256 (unat l))"
      using digs_val_lt[of "digs 256 (unat l)" 256] digs_lt[of 256 _ "unat l"] by (auto simp: digs_val_digs)
    then show ?thesis using False z Suc by simp
  qed
qed simp

lemma digs_positions: "2 \<le> b \<Longrightarrow> digs b n = map (\<lambda>j. n div b ^ j mod b) (rev [0..<length (digs b n)])"
proof (induction b n rule: digs.induct)
  case (1 b n)
  show ?case
  proof (cases "n < b")
    case False
    have up: "rev [0..<Suc m] = map Suc (rev [0..<m]) @ [0]" for m
      by (simp add: upt_conv_Cons rev_map del: upt_Suc flip: map_Suc_upt)
    have "digs b (n div b) = map (\<lambda>j. n div b ^ Suc j mod b) (rev [0..<length (digs b (n div b))])"
      using 1 False by (simp add: div_mult2_eq mult.commute)
    then show ?thesis using False 1(2) by (simp add: digs_step up del: upt_Suc) (simp add: comp_def)
  qed (simp add: digs_small)
qed

lemma derlength_loop_run:
  assumes "\<forall>d \<in> set ds. d < 256" "src = pre @ map of_nat ds @ r"
  shows "derlength_loop src (length pre) (length ds) (of_nat v) =
    Some (of_nat (foldl (\<lambda>a d. 256 * a + d) v ds))"
  using assms
proof (induction ds arbitrary: pre v)
  case (Cons d ds)
  have "rd src (length pre) = Some (of_nat d)" using Cons.prems(2) rd_append_right[of pre _ 0] by simp
  moreover have "(ucast (of_nat d :: byte) :: uint64) = of_nat d"
    using Cons.prems(1) by (intro unat_eq_of_nat) (simp add: unat_ucast_up unat_of_nat)
  moreover have "derlength_loop src (length (pre @ [of_nat d])) (length ds) (of_nat (256 * v + d)) =
      Some (of_nat (foldl (\<lambda>a d. 256 * a + d) (256 * v + d) ds))"
    using Cons.prems by (intro Cons.IH) auto
  ultimately show ?case by (simp add: mult.commute)
qed simp

lemma byte_at: "(ucast (drop_bit (j * 8) l AND 0xff :: uint64) :: byte) = of_nat (unat l div 256 ^ j mod 256)"
proof -
  have m: "(0xff :: uint64) = mask 8" by (simp add: mask_eq_exp_minus_1)
  have p: "(2::nat) ^ (j * 8) = 256 ^ j" using power_mult[of "2::nat" 8 j] by (simp add: mult.commute)
  have "unat (drop_bit (j * 8) l AND 0xff) = unat l div 256 ^ j mod 256"
    unfolding m unat_and_mask unat_shiftr p by simp
  then show ?thesis by (metis of_nat_unat)
qed

lemma fmt_asn1derlength_eq:
  "fmt_asn1derlength True l =
     (if unat l < 128 then (1, [of_nat (unat l)])
      else (length (digs 256 (unat l)) + 1,
            of_nat (0x80 + length (digs 256 (unat l))) # map of_nat (digs 256 (unat l))))"
proof (cases "unat l < 128")
  case True
  then show ?thesis by (simp add: fmt_asn1derlength_def word_less_nat_alt low7)
next
  case False
  have "length (digs 256 (unat l)) \<le> 8" using unat_lt_2p[of l] by (intro length_digs_le) simp_all
  then have "derlength_bytes l 1 7 = length (digs 256 (unat l))"
    using digs_ne[of 256 "unat l"] by (intro derlength_bytes_eq) (auto simp: Suc_le_eq simp del: digs_ne)
  moreover have "map of_nat (digs 256 (unat l)) =
      map (\<lambda>j. ucast (drop_bit (j * 8) l AND 0xff) :: byte) (rev [0..<length (digs 256 (unat l))])"
    unfolding byte_at by (subst digs_positions) (simp_all add: comp_def)
  ultimately show ?thesis using False by (simp add: fmt_asn1derlength_def word_less_nat_alt Let_def)
qed

lemma scast_top_bit: "(scast (b :: byte) :: uint32) AND 0x80 = 0 \<longleftrightarrow> unat b < 128"
proof -
  have "(scast b :: uint32) AND 2 ^ 7 = 0 \<longleftrightarrow> \<not> bit (scast b :: uint32) 7"
    by (rule and_exp_eq_0_iff_not_bit)
  also have "bit (scast b :: uint32) 7 \<longleftrightarrow> bit b 7" by (simp add: bit_simps)
  also have "\<not> bit b 7 \<longleftrightarrow> b AND 2 ^ 7 = 0" by (rule and_exp_eq_0_iff_not_bit[symmetric])
  finally show ?thesis by (simp add: byte_top_bit)
qed

lemma scast_low_bits: "unat ((scast (b :: byte) :: uint32) AND 0x7f) = unat b mod 128"
proof -
  have m: "(0x7f :: uint32) = mask 7" "(0x7f :: byte) = mask 7" by (simp_all add: mask_eq_exp_minus_1)
  have "(scast b :: uint32) AND 0x7f = ucast (b AND 0x7f)" unfolding m
    by (rule bit_word_eqI) (auto simp: bit_simps min_def)
  then show ?thesis by (simp add: unat_ucast_up byte_low_bits)
qed

lemma scast_small: "unat (b :: byte) < 128 \<Longrightarrow> (scast b :: uint32) = ucast b"
proof -
  assume "unat b < 128"
  then have "0 \<le> sint b" using sint_neg_iff[of b] by simp
  then have "sint b = int (unat b)" using unat_nonneg_sint[of b] by (simp only: nat_0_le)
  then have "sint b = uint b" by simp
  then show ?thesis by (simp only: scast_eq ucast_eq)
qed

lemma scan_asn1derlengthvalue_fmt:
  assumes "fst (fmt_asn1derlength True l) \<le> len" "\<not> wraps"
  shows "scan_asn1derlengthvalue wraps (snd (fmt_asn1derlength True l) @ r) len =
    Some (fst (fmt_asn1derlength True l), Some l)"
proof (cases "unat l < 128")
  case True
  let ?b = "of_nat (unat l) :: byte"
  have b: "unat ?b = unat l" using True by (simp add: unat_ucast_mod)
  then have "(ucast (scast ?b :: uint32) :: uint64) = l"
    using True by (simp add: scast_small word_unat_eq_iff unat_ucast_up)
  moreover have "(scast ?b :: uint32) AND 0x80 = 0" using True b by (simp only: scast_top_bit)
  ultimately show ?thesis
    using True assms by (simp add: scan_asn1derlengthvalue_def fmt_asn1derlength_eq Let_def)
next
  case False
  define ds where "ds = digs 256 (unat l)"
  obtain d es where ds: "ds = d # es" using digs_ne[of 256 "unat l"] by (cases ds) (auto simp: ds_def)
  have len8: "length ds \<le> 8" unfolding ds_def using unat_lt_2p[of l] by (intro length_digs_le) simp_all
  let ?b = "of_nat (0x80 + length ds) :: byte" and ?c = "(scast (of_nat (0x80 + length ds) :: byte) :: uint32) AND 0x7f"
  have b: "unat ?b = 0x80 + length ds" using len8 by (simp add: unat_word_ariths unat_of_nat)
  have c: "unat ?c = length ds" unfolding scast_low_bits b using len8 by simp
  have top: "\<not> (scast ?b :: uint32) AND 0x80 = 0" unfolding scast_top_bit b by simp
  have lt: "\<forall>x \<in> set ds. x < 256" using digs_lt[of 256 _ "unat l"] by (auto simp: ds_def)
  have d: "d \<noteq> 0" using hd_digs[of 256 "unat l"] False by (simp flip: ds_def add: ds)
  have "derlength_loop (?b # map of_nat ds @ r) (length [?b, of_nat d]) (length es) (of_nat d) =
      Some (of_nat (foldl (\<lambda>a d. 256 * a + d) d es))"
    using lt by (intro derlength_loop_run) (simp_all add: ds)
  moreover have "foldl (\<lambda>a d. 256 * a + d) d es = unat l"
    using digs_val_digs[of 256 "unat l"] by (simp flip: ds_def add: ds digs_val_def)
  ultimately have run: "derlength_loop (?b # map of_nat ds @ r) 2 (length es) (of_nat d) = Some l"
    by (simp add: numeral_2_eq_2)
  have "(ucast (of_nat d :: byte) :: uint64) = of_nat d"
    using lt ds by (intro unat_eq_of_nat) (simp add: unat_ucast_up unat_of_nat)
  moreover have "(of_nat d :: byte) \<noteq> 0" using d lt ds by (simp add: word_unat_eq_iff unat_of_nat)
  moreover have "\<not> l < 0x7f" using False by (simp add: word_less_nat_alt)
  moreover have "?c \<noteq> 0" "\<not> ?c > 8" "unat (?c + 1) = length ds + 1"
    using c len8 ds by (auto simp: word_less_nat_alt unat_word_ariths unat_eq_0[symmetric])
  moreover have "rd (map of_nat ds @ r) 0 = Some (of_nat d :: byte)" by (simp add: ds)
  ultimately show ?thesis
    using False assms top c run
    by (simp add: scan_asn1derlengthvalue_def fmt_asn1derlength_eq Let_def ds ds_def[symmetric] del: of_nat_add)
qed

subsection \<open>Properties\<close>

text \<open>
  Every well-formed netstring is accepted, whatever follows it: the scanner reports its text and
  its length in full.
\<close>

theorem scan_netstring_accepts:
  assumes "length (netstring t) \<le> len" "len < 2 ^ 63"
  shows "scan_netstring (netstring t @ r) len =
    Some (length (netstring t), Some (length (dec.render (length t)) + 1, length t))"
  using scan_netstring_complete[OF assms] .

theorem scan_netstring_accepts_witness:
  "scan_netstring (ascii ''3:abc,'' @ [0]) 6 = Some (6, Some (2, 3))"
  using scan_netstring_accepts[of "ascii ''abc''" 6 "[0]"]
  by (simp add: netstring_def dec.render_def digs_small dec_chr_def)

text \<open>
  ASN.1 tags come back as they were written: for every 64-bit value \<open>scan_asn1dertag\<close> reads
  what \<open>fmt_asn1dertag\<close> stored and consumes exactly its bytes.
\<close>

theorem asn1dertag_round_trip:
  assumes "fst (fmt_asn1dertag True l) \<le> len"
  shows "scan_asn1dertag (snd (fmt_asn1dertag True l) @ r) len = Some (fst (fmt_asn1dertag True l), Some l)"
  using scan_asn1dertag_fmt[OF assms] .

theorem asn1dertag_round_trip_witness:
  "scan_asn1dertag (snd (fmt_asn1dertag True 0xc2) @ [1]) 5 = Some (fst (fmt_asn1dertag True 0xc2), Some 0xc2)"
  by (rule asn1dertag_round_trip) (simp add: fmt_asn1dertag_eq digs_step digs_small)

text \<open>
  ASN.1 lengths come back as they were written, in the short form and in the long form, for every
  64-bit length.
\<close>

theorem asn1derlength_round_trip:
  assumes "fst (fmt_asn1derlength True l) \<le> len" "\<not> wraps"
  shows "scan_asn1derlengthvalue wraps (snd (fmt_asn1derlength True l) @ r) len =
    Some (fst (fmt_asn1derlength True l), Some l)"
  using scan_asn1derlengthvalue_fmt[OF assms] .

theorem asn1derlength_round_trip_witness:
  "scan_asn1derlengthvalue False (snd (fmt_asn1derlength True 0x123) @ [1]) 5 =
    Some (fst (fmt_asn1derlength True 0x123), Some 0x123)"
  by (rule asn1derlength_round_trip) (simp_all add: fmt_asn1derlength_eq digs_step digs_small)

end
