(* ===== verification/Utf8.thy ===== *)
theory Utf8
  imports Encodings
begin

text \<open>
  UTF-8: \<open>fmt_utf8\<close> (\<open>src/lib/fmt/fmt_utf8.c\<close>), \<open>scan_utf8\<close> and \<open>scan_utf8_sem\<close>
  (\<open>src/lib/scan\<close>). The decoder is shown to accept exactly what the encoder writes: every value up
  to \<open>0x3ffffff\<close> comes back, and an accepted sequence of at most five bytes is the encoding of the
  value it stands for, so that overlong forms are refused.
\<close>

subsection \<open>Encoding\<close>

lemma unat_shl5_or:
  fixes i :: uint64
  assumes "unat i < 2 ^ 59"
  shows "unat (push_bit 5 i OR 0x1f) = 32 * unat i + 31"
proof -
  have m: "(0x1f :: uint64) = mask 5" by (simp add: mask_eq_exp_minus_1)
  have "push_bit 5 i AND 0x1f = 0" unfolding m by (rule bit_word_eqI) (auto simp: bit_simps)
  then have "push_bit 5 i OR 0x1f = push_bit 5 i + 0x1f" by (simp add: disjunctive_add_eq_or)
  moreover have "unat (push_bit 5 i) = 32 * unat i" using assms by (simp add: unat_shiftl)
  ultimately show ?thesis using assms by (simp only:) (subst unat_add_small, simp_all)
qed

primrec utf8_tail :: "uint32 \<Rightarrow> nat \<Rightarrow> byte list" where
  "utf8_tail n 0 = []"
| "utf8_tail n (Suc j) = (0x80 OR ucast (drop_bit (j * 6) n AND 0x3f)) # utf8_tail n j"

definition utf8_store :: "uint32 \<Rightarrow> nat \<Rightarrow> byte list" where
  "utf8_store n j = (signed_drop_bit (j - 1) 0xc0 OR ucast (drop_bit (j * 6) n)) # utf8_tail n j"

function fmt_utf8_loop :: "bool \<Rightarrow> uint32 \<Rightarrow> uint64 \<Rightarrow> nat \<Rightarrow> nat \<times> byte list" where
  "fmt_utf8_loop dest n i j =
     (if i < 0x7fffffff
      then if i \<ge> ucast n
           then let j = j - 1 in (j + 1, if dest then utf8_store n j else [])
           else fmt_utf8_loop dest n (push_bit 5 i OR 0x1f) (j + 1)
      else (0, []))"
  by pat_completeness auto
termination
proof (relation "measure (\<lambda>(dest, n, i, j). 0x7fffffff - unat i)")
  fix dest :: bool and n :: uint32 and i :: uint64 and j :: nat
  assume "i < 0x7fffffff"
  then have i: "unat i < 0x7fffffff" by (simp add: word_less_nat_alt)
  then have "unat (push_bit 5 i OR 0x1f) = 32 * unat i + 31" by (intro unat_shl5_or) simp
  with i show "((dest, n, push_bit 5 i OR 0x1f, j + 1), dest, n, i, j)
      \<in> measure (\<lambda>(dest, n, i, j). 0x7fffffff - unat i)" by simp
qed simp

declare fmt_utf8_loop.simps [simp del]

definition fmt_utf8 :: "bool \<Rightarrow> uint32 \<Rightarrow> nat \<times> byte list" where
  "fmt_utf8 dest n =
     (if n \<le> 0x7f then (1, if dest then [ucast n] else []) else fmt_utf8_loop dest n 0x3f 1)"

subsection \<open>Decoding\<close>

text \<open>
  The count of the leading one bits of the first byte shifts \<open>i\<close> left; 32 shifts empty an
  \<open>unsigned\<close>, so that 32 rounds are as many as the C loop can make.
\<close>

primrec utf8_lead :: "nat \<Rightarrow> uint32 \<Rightarrow> nat \<Rightarrow> uint32 \<times> nat" where
  "utf8_lead 0 i k = (i, k)"
| "utf8_lead (Suc rounds) i k =
     (if i AND 0x80 \<noteq> 0 then utf8_lead rounds (push_bit 1 i) (k + 1) else (i, k))"

fun utf8_cont :: "byte list \<Rightarrow> nat \<Rightarrow> uint32 \<Rightarrow> uint32 option option" where
  "utf8_cont inp 0 i = Some (Some i)"
| "utf8_cont [] (Suc k) i = None"
| "utf8_cont (c # inp) (Suc k) i =
     (if c AND 0xc0 \<noteq> 0x80 then Some None
      else utf8_cont inp k (push_bit 6 i OR ucast (c AND 0x3f)))"

definition utf8_min :: "nat \<Rightarrow> uint32" where
  "utf8_min k = push_bit (k * 5 - 4 + (if k = 2 then 1 else 0)) 1"

text \<open>The value is what is stored when \<open>num\<close> is not \<open>NULL\<close>.\<close>

definition scan_utf8 :: "byte list \<Rightarrow> nat \<Rightarrow> (nat \<times> uint32 option) option" where
  "scan_utf8 inp len =
     (if len = 0 then Some (0, None)
      else do { b \<leftarrow> rd inp 0;
                let i = (ucast b :: uint32);
                if i \<ge> 0xfe \<or> i AND 0xc0 = 0x80 then Some (0, None)
                else let (i, k) = utf8_lead 32 i 0
                     in if k = 0 then Some (1, Some i)
                        else if k > len then Some (0, None)
                        else let i = drop_bit k (i AND 0xff); m = utf8_min k
                             in do { r \<leftarrow> utf8_cont (tl inp) (k - 1) i;
                                     case r of
                                       None \<Rightarrow> Some (0, None)
                                     | Some i \<Rightarrow> if i < m then Some (0, None) else Some (k, Some i) } })"

definition scan_utf8_sem :: "byte list \<Rightarrow> nat \<Rightarrow> (nat \<times> uint32 option) option" where
  "scan_utf8_sem inp len =
     do { (r, num) \<leftarrow> scan_utf8 inp len;
          case num of
            None \<Rightarrow> Some (r, num)
          | Some n \<Rightarrow>
              if 0xd800 \<le> n \<and> n \<le> 0xdfff then Some (0, num)
              else if n AND 0xfffe = 0xfffe then Some (0, num)
              else if 0xfdd0 \<le> n \<and> n \<le> 0xfdef then Some (0, num)
              else Some (r, num) }"

subsection \<open>The bytes of an encoding\<close>

text \<open>With \<open>j\<close> continuation bytes an encoding carries \<open>5 j + 6\<close> bits.\<close>

definition cont_byte :: "nat \<Rightarrow> byte" where
  "cont_byte d = of_nat (0x80 + d)"

definition lead_byte :: "nat \<Rightarrow> nat \<Rightarrow> byte" where
  "lead_byte j q = of_nat (256 - 2 ^ (7 - j) + q)"

lemma cont_byte_eq: "0x80 OR ucast (drop_bit (j * 6) n AND 0x3f :: uint32) = cont_byte (unat n div 64 ^ j mod 64)"
proof -
  have m: "(0x3f :: uint32) = mask 6" by (simp add: mask_eq_exp_minus_1)
  have p: "(2::nat) ^ (j * 6) = 64 ^ j" using power_mult[of "2::nat" 6 j] by (simp add: mult.commute)
  let ?d = "unat n div 64 ^ j mod 64"
  have "unat (drop_bit (j * 6) n AND 0x3f) = ?d" unfolding m unat_and_mask unat_shiftr p by simp
  then have c: "(ucast (drop_bit (j * 6) n AND 0x3f) :: byte) = of_nat ?d" by (metis of_nat_unat)
  have d: "?d < 64" by simp
  then have "unat (of_nat ?d :: byte) = ?d" by (simp only: unat_of_nat) simp
  then have "of_nat ?d AND (0x80 :: byte) = 0" using d by (simp add: byte_top_bit)
  then have "0x80 OR (of_nat ?d :: byte) = 0x80 + of_nat ?d"
    by (simp add: disjunctive_add_eq_or and.commute)
  then show ?thesis unfolding c cont_byte_def by simp
qed

lemma utf8_tail_eq: "utf8_tail n j = map (\<lambda>i. cont_byte (unat n div 64 ^ i mod 64)) (rev [0..<j])"
  by (induction j) (simp_all add: cont_byte_eq)

text \<open>The 62 lead bytes, as the encoder builds them and as the decoder takes them apart.\<close>

definition lead_ok :: "nat \<Rightarrow> nat \<Rightarrow> bool" where
  "lead_ok j q \<longleftrightarrow>
     (signed_drop_bit (j - 1) 0xc0 OR of_nat q = lead_byte j q) \<and>
     (let b = (ucast (lead_byte j q) :: uint32); (i, k) = utf8_lead 32 b 0
      in \<not> b \<ge> 0xfe \<and> b AND 0xc0 \<noteq> 0x80 \<and> k = j + 1 \<and> drop_bit k (i AND 0xff) = of_nat q)"

lemma lead_table: "list_all (\<lambda>j. list_all (lead_ok j) [0..<2 ^ (6 - j)]) [1..<6]"
  by code_simp

lemma lead_okI: "1 \<le> j \<Longrightarrow> j \<le> 5 \<Longrightarrow> q < 2 ^ (6 - j) \<Longrightarrow> lead_ok j q"
  using lead_table by (auto simp: list_all_iff)

lemma ascii_byte:
  assumes "unat (b :: byte) < 128"
  shows "\<not> (ucast b :: uint32) \<ge> 0xfe" "(ucast b :: uint32) AND 0xc0 \<noteq> 0x80"
    "utf8_lead 32 (ucast b) 0 = (ucast b, 0)"
proof -
  have u: "unat (ucast b :: uint32) = unat b" by (simp add: unat_ucast_up)
  show "\<not> (ucast b :: uint32) \<ge> 0xfe" using assms u by (simp add: word_le_nat_alt)
  have "\<not> bit (ucast b :: uint32) 7"
    using assms byte_top_bit[of b] and_exp_eq_0_iff_not_bit[of b 7] by (simp add: bit_simps)
  then have z: "(ucast b :: uint32) AND 2 ^ 7 = 0" by (simp only: and_exp_eq_0_iff_not_bit not_False_eq_True)
  then show "utf8_lead 32 (ucast b) 0 = (ucast b, 0)" by (simp add: numeral_eq_Suc)
  show "(ucast b :: uint32) AND 0xc0 \<noteq> 0x80"
  proof
    assume "(ucast b :: uint32) AND 0xc0 = 0x80"
    then have "((ucast b :: uint32) AND 0xc0) AND 0x80 = 0x80" by simp
    then show False using z by (simp add: and.assoc)
  qed
qed

subsection \<open>The encoder\<close>

lemma fmt_utf8_stop: "fmt_utf8_loop dest n 0x7fffffff j = (0, [])"
  by (subst fmt_utf8_loop.simps) simp

lemma fmt_utf8_round1: "fmt_utf8_loop dest n 0x3f (Suc 0) =
    (if unat n \<le> 0x3f then (1, if dest then utf8_store n 0 else []) else fmt_utf8_loop dest n 0x7ff 2)"
  by (subst fmt_utf8_loop.simps) (simp add: word_le_nat_alt unat_ucast_up flip: numeral_2_eq_2)

lemma fmt_utf8_round2: "fmt_utf8_loop dest n 0x7ff 2 =
    (if unat n \<le> 0x7ff then (2, if dest then utf8_store n 1 else []) else fmt_utf8_loop dest n 0xffff 3)"
  by (subst fmt_utf8_loop.simps) (simp add: word_le_nat_alt unat_ucast_up)

lemma fmt_utf8_round3: "fmt_utf8_loop dest n 0xffff 3 =
    (if unat n \<le> 0xffff then (3, if dest then utf8_store n 2 else []) else fmt_utf8_loop dest n 0x1fffff 4)"
  by (subst fmt_utf8_loop.simps) (simp add: word_le_nat_alt unat_ucast_up)

lemma fmt_utf8_round4: "fmt_utf8_loop dest n 0x1fffff 4 =
    (if unat n \<le> 0x1fffff then (4, if dest then utf8_store n 3 else []) else fmt_utf8_loop dest n 0x3ffffff 5)"
  by (subst fmt_utf8_loop.simps) (simp add: word_le_nat_alt unat_ucast_up)

lemma fmt_utf8_round5: "fmt_utf8_loop dest n 0x3ffffff 5 =
    (if unat n \<le> 0x3ffffff then (5, if dest then utf8_store n 4 else []) else (0, []))"
  by (subst fmt_utf8_loop.simps) (simp add: word_le_nat_alt unat_ucast_up fmt_utf8_stop)

lemmas fmt_utf8_rounds = fmt_utf8_round1 fmt_utf8_round2 fmt_utf8_round3 fmt_utf8_round4 fmt_utf8_round5

text \<open>The number of continuation bytes of a value, as the lengths of the encodings give it.\<close>

definition utf8_conts :: "nat \<Rightarrow> nat" where
  "utf8_conts n = (if n \<le> 0x7f then 0 else if n \<le> 0x7ff then 1 else if n \<le> 0xffff then 2
     else if n \<le> 0x1fffff then 3 else 4)"

lemma fmt_utf8_eq:
  "fmt_utf8 dest n =
     (if unat n \<le> 0x7f then (1, if dest then [of_nat (unat n)] else [])
      else if unat n \<le> 0x3ffffff
      then (utf8_conts (unat n) + 1, if dest then utf8_store n (utf8_conts (unat n)) else [])
      else (0, []))"
  by (simp add: fmt_utf8_def fmt_utf8_rounds utf8_conts_def word_le_nat_alt)

lemma utf8_conts_bounds:
  assumes "0x7f < n" "n \<le> 0x3ffffff"
  shows "1 \<le> utf8_conts n" "utf8_conts n \<le> 4" "n div 64 ^ utf8_conts n < 2 ^ (6 - utf8_conts n)"
    "2 ^ (5 * utf8_conts n + 1 + (if utf8_conts n = 1 then 1 else 0)) \<le> n"
  using assms by (auto simp: utf8_conts_def less_mult_imp_div_less)

lemma utf8_store_eq:
  assumes "1 \<le> j" "j \<le> 5" "unat n div 64 ^ j < 2 ^ (6 - j)"
  shows "utf8_store n j = lead_byte j (unat n div 64 ^ j) #
    map (\<lambda>i. cont_byte (unat n div 64 ^ i mod 64)) (rev [0..<j])"
proof -
  have p: "(2::nat) ^ (j * 6) = 64 ^ j" using power_mult[of "2::nat" 6 j] by (simp add: mult.commute)
  have "unat (drop_bit (j * 6) n) = unat n div 64 ^ j" unfolding unat_shiftr p ..
  then have "(ucast (drop_bit (j * 6) n) :: byte) = of_nat (unat n div 64 ^ j)" by (metis of_nat_unat)
  then show ?thesis using lead_okI[OF assms] by (simp add: utf8_store_def utf8_tail_eq lead_ok_def)
qed

subsection \<open>The decoder\<close>

lemma cont_byte_props:
  assumes "d < 64"
  shows "cont_byte d AND 0xc0 = 0x80" "unat (ucast (cont_byte d AND 0x3f) :: uint32) = d"
proof -
  have "list_all (\<lambda>d. cont_byte d AND 0xc0 = 0x80 \<and> unat (cont_byte d AND 0x3f) = d) [0..<64]" by code_simp
  then show "cont_byte d AND 0xc0 = 0x80" "unat (ucast (cont_byte d AND 0x3f) :: uint32) = d"
    using assms by (auto simp: list_all_iff unat_ucast_up)
qed

lemma shl6_or:
  fixes i :: uint32 and c :: byte
  assumes "unat i < 2 ^ 26"
  shows "unat (push_bit 6 i OR ucast (c AND 0x3f)) = 64 * unat i + unat (c AND 0x3f)"
proof -
  have m: "(0x3f :: byte) = mask 6" by (simp add: mask_eq_exp_minus_1)
  have lt: "unat (c AND 0x3f) < 64" unfolding m unat_and_mask by simp
  have "push_bit 6 i AND ucast (c AND 0x3f) = (0 :: uint32)"
    unfolding m by (rule bit_word_eqI) (auto simp: bit_simps)
  then have "push_bit 6 i OR ucast (c AND 0x3f) = push_bit 6 i + ucast (c AND 0x3f)"
    by (simp add: disjunctive_add_eq_or)
  moreover have "unat (push_bit 6 i) = 64 * unat i" using assms by (simp add: unat_shiftl)
  ultimately show ?thesis using lt assms by (simp only:) (subst unat_add_small, simp_all add: unat_ucast_up)
qed

text \<open>Reading \<open>k\<close> continuation bytes of digits base 64 behind a value.\<close>

lemma utf8_cont_run:
  assumes "\<forall>d \<in> set ds. d < 64" "unat i * 64 ^ length ds + digs_val 64 ds < 2 ^ 32"
  shows "utf8_cont (map cont_byte ds @ r) (length ds) i =
    Some (Some (of_nat (unat i * 64 ^ length ds + digs_val 64 ds)))"
  using assms
proof (induction ds arbitrary: i)
  case (Cons d ds)
  let ?i = "push_bit 6 i OR ucast (cont_byte d AND 0x3f) :: uint32"
  have "unat i * 64 \<le> unat i * 64 ^ length (d # ds)" by simp
  then have "unat i * 64 < 2 ^ 32" using Cons.prems(2) by linarith
  then have "unat i < 2 ^ 26" by simp
  then have u: "unat ?i = 64 * unat i + d"
    using shl6_or[of i "cont_byte d"] cont_byte_props(2)[of d] Cons.prems(1) by (simp add: unat_ucast_up)
  have v: "unat ?i * 64 ^ length ds + digs_val 64 ds = unat i * 64 ^ length (d # ds) + digs_val 64 (d # ds)"
    unfolding u digs_val_Cons by (simp add: algebra_simps)
  then have "utf8_cont (map cont_byte ds @ r) (length ds) ?i =
      Some (Some (of_nat (unat ?i * 64 ^ length ds + digs_val 64 ds)))"
    using Cons.prems by (intro Cons.IH) simp_all
  then show ?case using v cont_byte_props(1)[of d] Cons.prems(1) by simp
qed simp

lemma digs_val_positions: "digs_val b (map (\<lambda>i. n div b ^ i mod b) (rev [0..<j])) = n mod b ^ j"
proof (induction j)
  case (Suc j)
  have "n mod b ^ Suc j = b ^ j * (n div b ^ j mod b) + n mod b ^ j"
    unfolding power_Suc2 by (rule mod_mult2_eq)
  then show ?case using Suc by (simp add: digs_val_Cons mult.commute)
qed simp

lemma positions_digs_val:
  assumes "\<forall>d \<in> set ds. d < b" "0 < b"
  shows "map (\<lambda>i. (q * b ^ length ds + digs_val b ds) div b ^ i mod b) (rev [0..<length ds]) = ds"
  using assms
proof (induction ds arbitrary: q)
  case (Cons d ds)
  let ?v = "q * b ^ length (d # ds) + digs_val b (d # ds)"
  have v: "?v = (q * b + d) * b ^ length ds + digs_val b ds" by (simp add: digs_val_Cons algebra_simps)
  have "digs_val b ds < b ^ length ds" using Cons.prems by (intro digs_val_lt) simp
  then have "?v div b ^ length ds mod b = d" unfolding v using Cons.prems by simp
  moreover have "map (\<lambda>i. ?v div b ^ i mod b) (rev [0..<length ds]) = ds"
    unfolding v using Cons.prems by (intro Cons.IH) simp_all
  ultimately show ?case by simp
qed simp

text \<open>The decoder on the bytes of an encoding.\<close>

lemma scan_utf8_bytes:
  assumes "1 \<le> j" "j \<le> 5" "q < 2 ^ (6 - j)" "\<forall>d \<in> set ds. d < 64" "length ds = j" "j < len"
  shows "scan_utf8 (lead_byte j q # map cont_byte ds @ r) len =
    (let v = q * 64 ^ j + digs_val 64 ds
     in if v < 2 ^ (5 * j + 1 + (if j = 1 then 1 else 0)) then Some (0, None)
        else Some (j + 1, Some (of_nat v)))"
proof -
  let ?b = "ucast (lead_byte j q) :: uint32" and ?v = "q * 64 ^ j + digs_val 64 ds"
  let ?e = "5 * j + 1 + (if j = 1 then 1 else 0)"
  obtain i k where ik: "utf8_lead 32 ?b 0 = (i, k)" by (cases "utf8_lead 32 ?b 0")
  have ok: "\<not> ?b \<ge> 0xfe" "?b AND 0xc0 \<noteq> 0x80" "k = j + 1" "drop_bit k (i AND 0xff) = of_nat q"
    using lead_okI[OF assms(1-3)] ik by (auto simp: lead_ok_def Let_def)
  have "(2::nat) ^ (6 - j) \<le> 2 ^ 5" using assms(1) by (intro power_increasing) simp_all
  then have q: "q < 2 ^ 5" using assms(3) by (rule less_le_trans[rotated])
  have vlt: "?v < 2 ^ 31"
  proof -
    have "digs_val 64 ds < 64 ^ j" using digs_val_lt[OF assms(4)] assms(5) by simp
    then have "?v < (q + 1) * 64 ^ j" by simp
    also have "\<dots> \<le> 2 ^ (6 - j) * 64 ^ j" using assms(3) by (intro mult_le_mono1) simp
    also have "\<dots> = 2 ^ (6 - j + 6 * j)" by (simp add: power_add power_mult)
    also have "\<dots> \<le> 2 ^ 31" using assms(1,2) by (intro power_increasing) simp_all
    finally show ?thesis .
  qed
  have uq: "unat (of_nat q :: uint32) = q" using q by (simp add: unat_of_nat)
  have run: "utf8_cont (map cont_byte ds @ r) j (of_nat q) = Some (Some (of_nat ?v))"
    using utf8_cont_run[OF assms(4), of "of_nat q" r] vlt assms(5) by (simp only: uq) simp
  have uv: "unat (of_nat ?v :: uint32) = ?v" using vlt by (simp only: unat_of_nat) simp
  have e: "k * 5 - 4 + (if k = 2 then 1 else 0) = ?e" using ok(3) assms(1) by simp
  have "?e \<le> 26" using assms(2) by simp
  then have "(2::nat) ^ ?e \<le> 2 ^ 26" by (intro power_increasing) simp_all
  then have m: "unat (push_bit ?e 1 :: uint32) = 2 ^ ?e" by (simp only: unat_shiftl) simp
  define V :: uint32 where "V = of_nat ?v"
  have cmp: "V < utf8_min k \<longleftrightarrow> ?v < 2 ^ ?e" unfolding word_less_nat_alt V_def utf8_min_def uv e m ..
  have k: "k - 1 = j" "k \<noteq> 0" "\<not> len < k" using ok(3) assms(6) by simp_all
  have "scan_utf8 (lead_byte j q # map cont_byte ds @ r) len =
      (if V < utf8_min k then Some (0, None) else Some (k, Some V))"
    using ik ok(1,2,4) k run[folded V_def] assms(6) unfolding scan_utf8_def
    by (simp add: Let_def del: One_nat_def)
  then show ?thesis unfolding cmp unfolding V_def ok(3) Let_def .
qed

lemma scan_utf8_fmt:
  assumes "unat n \<le> 0x3ffffff" "fst (fmt_utf8 True n) \<le> len"
  shows "scan_utf8 (snd (fmt_utf8 True n) @ r) len = Some (fst (fmt_utf8 True n), Some n)"
proof (cases "unat n \<le> 0x7f")
  case True
  then have b: "unat (of_nat (unat n) :: byte) = unat n" by (simp add: unat_ucast_mod)
  then have "(ucast (of_nat (unat n) :: byte) :: uint32) = n"
    by (simp only: word_unat_eq_iff unat_ucast_up[where ?'a = 8 and ?'b = 32, simplified])
  then show ?thesis using ascii_byte[of "of_nat (unat n)"] b True assms(2)
    by (simp add: fmt_utf8_eq scan_utf8_def Let_def del: of_nat_unat)
next
  case False
  define j where "j = utf8_conts (unat n)"
  define ds where "ds = map (\<lambda>i. unat n div 64 ^ i mod 64) (rev [0..<j])"
  have j: "1 \<le> j" "j \<le> 4" "unat n div 64 ^ j < 2 ^ (6 - j)"
      "2 ^ (5 * j + 1 + (if j = 1 then 1 else 0)) \<le> unat n"
    using utf8_conts_bounds[of "unat n"] False assms(1) by (simp_all only: j_def not_le)
  have f: "fmt_utf8 True n = (j + 1, lead_byte j (unat n div 64 ^ j) # map cont_byte ds)"
    using False assms(1) j utf8_store_eq[of j n] by (simp add: fmt_utf8_eq j_def[symmetric] ds_def comp_def)
  have v: "unat n div 64 ^ j * 64 ^ j + digs_val 64 ds = unat n"
    unfolding ds_def digs_val_positions by (rule div_mult_mod_eq)
  have "\<not> unat n < 2 ^ (5 * j + 1 + (if j = 1 then 1 else 0))" using j(4) by simp
  then have "scan_utf8 (lead_byte j (unat n div 64 ^ j) # map cont_byte ds @ r) len = Some (j + 1, Some n)"
    using scan_utf8_bytes[of j "unat n div 64 ^ j" ds len r] j assms(2) f
    unfolding v Let_def by (simp add: ds_def)
  then show ?thesis using f by simp
qed

subsection \<open>What the decoder accepts\<close>

lemma cont_byte_of:
  assumes "c AND 0xc0 = (0x80 :: byte)"
  shows "c = cont_byte (unat (c AND 0x3f))" "unat (c AND 0x3f) < 64"
proof -
  have m: "(0x3f :: byte) = mask 6" by (simp add: mask_eq_exp_minus_1)
  show lt: "unat (c AND 0x3f) < 64" unfolding m unat_and_mask by simp
  have "c = (c AND 0xc0) + (c AND 0x3f)"
  proof -
    have "(c AND 0xc0) AND (c AND 0x3f) = c AND (0xc0 AND 0x3f)" by (simp add: and.left_commute and.assoc)
    then have "(c AND 0xc0) + (c AND 0x3f) = (c AND 0xc0) OR (c AND 0x3f)" by (simp add: disjunctive_add_eq_or)
    also have "\<dots> = c AND (0xc0 OR 0x3f)" by (simp only: bit.conj_disj_distrib)
    also have "\<dots> = c"
    proof -
      have f: "(0xc0 OR 0x3f :: byte) = mask 8" by (simp add: mask_eq_exp_minus_1)
      show ?thesis unfolding f word_unat_eq_iff unat_and_mask using byte_lt_256[of c] by simp
    qed
    finally show ?thesis by simp
  qed
  then show "c = cont_byte (unat (c AND 0x3f))" using assms by (simp add: cont_byte_def)
qed

lemma utf8_cont_accepts:
  assumes "utf8_cont inp k i = Some (Some v)"
  shows "\<exists>ds. length ds = k \<and> k \<le> length inp \<and> (\<forall>d \<in> set ds. d < 64) \<and> take k inp = map cont_byte ds"
  using assms
proof (induction inp k i rule: utf8_cont.induct)
  case (3 c inp k i)
  then have c: "c AND 0xc0 = 0x80" by (auto split: if_splits)
  then obtain ds where "length ds = k" "k \<le> length inp" "\<forall>d \<in> set ds. d < 64" "take k inp = map cont_byte ds"
    using 3 by auto
  then show ?case using cont_byte_of[OF c] by (intro exI[of _ "unat (c AND 0x3f) # ds"]) auto
qed auto

text \<open>A first byte that the decoder does not refuse is below 128 or one of the 62 lead bytes.\<close>

lemma lead_cases:
  assumes "\<not> (ucast (b :: byte) :: uint32) \<ge> 0xfe" "(ucast b :: uint32) AND 0xc0 \<noteq> 0x80"
  obtains (one) "unat b < 128" | (more) j q where "1 \<le> j" "j \<le> 5" "q < 2 ^ (6 - j)" "b = lead_byte j q"
proof -
  have lt: "unat b < 0xfe" using assms(1) by (simp add: word_le_nat_alt unat_ucast_up)
  have ge: "unat b < 128 \<or> 0xc0 \<le> unat b"
  proof (rule ccontr)
    assume "\<not> ?thesis"
    then have r: "unat b \<in> set [128..<192]" unfolding set_upt atLeastLessThan_iff by linarith
    have "list_all (\<lambda>n. (ucast (of_nat n :: byte) :: uint32) AND 0xc0 = 0x80) [128..<192]" by code_simp
    then have "(ucast (of_nat (unat b) :: byte) :: uint32) AND 0xc0 = 0x80"
      using r unfolding list_all_iff by blast
    then show False using assms(2) by simp
  qed
  have mk: thesis if "s = 256 - 2 ^ (7 - j)" "s \<le> unat b" "unat b < s + 2 ^ (6 - j)" "1 \<le> j" "j \<le> 5" for j s
  proof -
    have "lead_byte j (unat b - s) = of_nat (unat b)"
      unfolding lead_byte_def that(1)[symmetric] using that(2) by (simp only: le_add_diff_inverse)
    then show thesis using that by (intro more[of j "unat b - s"]) (auto simp: less_diff_conv2)
  qed
  consider "unat b < 128" | "192 \<le> unat b" "unat b < 224" | "224 \<le> unat b" "unat b < 240"
    | "240 \<le> unat b" "unat b < 248" | "248 \<le> unat b" "unat b < 252" | "252 \<le> unat b" "unat b < 254"
    using lt ge by linarith
  then show thesis
    using one mk[of 192 1] mk[of 224 2] mk[of 240 3] mk[of 248 4] mk[of 252 5] by cases simp_all
qed

lemma utf8_conts_of:
  assumes "1 \<le> j" "j \<le> 4" "2 ^ (5 * j + 1 + (if j = 1 then 1 else 0)) \<le> v" "v < 2 ^ (5 * j + 6)"
  shows "utf8_conts v = j" "0x7f < v" "v \<le> 0x3ffffff"
proof -
  have "j = 1 \<or> j = 2 \<or> j = 3 \<or> j = 4" using assms by linarith
  then show "utf8_conts v = j" "0x7f < v" "v \<le> 0x3ffffff" using assms by (auto simp: utf8_conts_def)
qed

lemma scan_utf8_sound:
  assumes "scan_utf8 inp len = Some (k, Some n)" "k \<le> 5"
  shows "fmt_utf8 True n = (k, take k inp)" "k \<le> len" "k \<le> length inp"
proof -
  have len: "len \<noteq> 0" using assms(1) by (intro notI) (simp add: scan_utf8_def)
  obtain b s where inp: "inp = b # s" using assms(1) len by (cases inp) (auto simp: scan_utf8_def)
  have b: "\<not> (ucast b :: uint32) \<ge> 0xfe" "(ucast b :: uint32) AND 0xc0 \<noteq> 0x80"
    using assms(1) len by (auto simp: scan_utf8_def inp Let_def split: if_splits)
  have "fmt_utf8 True n = (k, take k inp) \<and> k \<le> len \<and> k \<le> length inp"
    using b
  proof (cases rule: lead_cases)
    case one
    then have "k = 1" "n = ucast b" using assms(1) len ascii_byte[OF one] by (auto simp: scan_utf8_def inp)
    then show ?thesis
      using one len by (auto simp: fmt_utf8_eq unat_ucast_up inp)
  next
    case (more j q)
    obtain i k' where ik: "utf8_lead 32 (ucast b) 0 = (i, k')" by (cases "utf8_lead 32 (ucast b :: uint32) 0")
    have k': "k' = j + 1" using lead_okI[OF more(1-3)] ik more(4) by (simp add: lead_ok_def Let_def)
    have acc: "k = k'" "\<not> len < k'" "\<exists>i v. utf8_cont s (k' - 1) i = Some (Some v)"
      using assms(1) b len k' ik by (auto simp: scan_utf8_def inp Let_def split: if_splits option.splits bind_splits)
    then obtain ds where ds: "length ds = j" "j \<le> length s" "\<forall>d \<in> set ds. d < 64" "take j s = map cont_byte ds"
      using utf8_cont_accepts[of s j] k' by (metis add_diff_cancel_right')
    then have s: "inp = lead_byte j q # map cont_byte ds @ drop j s"
      using append_take_drop_id[of j s] by (simp add: inp more(4))
    let ?v = "q * 64 ^ j + digs_val 64 ds"
    have j4: "j \<le> 4" using acc(1) k' assms(2) by simp
    have r: "\<not> ?v < 2 ^ (5 * j + 1 + (if j = 1 then 1 else 0))" "n = of_nat ?v"
      using assms(1) scan_utf8_bytes[OF more(1-3) ds(3,1), of len "drop j s"] acc(2) k'
      unfolding s Let_def by (auto split: if_splits)
    have "digs_val 64 ds < 64 ^ j" using digs_val_lt[OF ds(3)] ds(1) by simp
    then have qv: "?v div 64 ^ j = q" by simp
    have "?v < 2 ^ (6 - j) * 64 ^ j"
      using \<open>digs_val 64 ds < 64 ^ j\<close> more(3) by (metis qv div_less_iff_less_mult zero_less_numeral zero_less_power)
    also have "\<dots> = 2 ^ (6 - j + 6 * j)" by (simp add: power_add power_mult)
    also have "6 - j + 6 * j = 5 * j + 6" using j4 by simp
    finally have vlt: "?v < 2 ^ (5 * j + 6)" .
    note c = utf8_conts_of[OF more(1) j4 _ vlt, OF r(1)[unfolded not_less]]
    have u: "unat n = ?v" using c(3) unfolding r(2) by (simp only: unat_of_nat) simp
    have "map (\<lambda>i. cont_byte (?v div 64 ^ i mod 64)) (rev [0..<j]) =
        map cont_byte (map (\<lambda>i. ?v div 64 ^ i mod 64) (rev [0..<j]))" by simp
    also have "map (\<lambda>i. ?v div 64 ^ i mod 64) (rev [0..<j]) = ds"
      using positions_digs_val[OF ds(3), of q] ds(1) by simp
    finally have "utf8_store n j = lead_byte j q # map cont_byte ds"
      using utf8_store_eq[of j n] more(1-3) unfolding u qv by simp
    then show ?thesis
      using c acc k' s ds(1) u by (simp add: fmt_utf8_eq)
  qed
  then show "fmt_utf8 True n = (k, take k inp)" "k \<le> len" "k \<le> length inp" by blast+
qed

subsection \<open>Properties\<close>

text \<open>
  C21. UTF-8 round trip: every value up to \<open>0x3ffffff\<close>, so every Unicode code point, is decoded
  from its encoding, which is consumed exactly, whatever follows it.
\<close>

theorem utf8_round_trip:
  assumes "unat n \<le> 0x3ffffff" "fst (fmt_utf8 True n) \<le> len"
  shows "scan_utf8 (snd (fmt_utf8 True n) @ r) len = Some (fst (fmt_utf8 True n), Some n)"
  using scan_utf8_fmt[OF assms] .

theorem utf8_round_trip_witness:
  "scan_utf8 (snd (fmt_utf8 True 0x1f4a9) @ [0]) 5 = Some (fst (fmt_utf8 True 0x1f4a9), Some 0x1f4a9)"
  by (rule utf8_round_trip) (simp_all add: fmt_utf8_eq utf8_conts_def)

text \<open>
  C1. UTF-8 is canonical: a sequence of up to five bytes that \<open>scan_utf8\<close> accepts is the encoding
  that \<open>fmt_utf8\<close> gives to the value it stands for. In particular overlong forms are refused, and
  the sequence lies inside the input.
\<close>

theorem utf8_canonical:
  assumes "scan_utf8 inp len = Some (k, Some n)" "k \<le> 5"
  shows "fmt_utf8 True n = (k, take k inp) \<and> k \<le> len \<and> k \<le> length inp"
  using scan_utf8_sound[OF assms] by blast

theorem utf8_canonical_witness: "fmt_utf8 True 0xe9 = (2, [0xc3, 0xa9])"
proof -
  have "scan_utf8 [0xc3, 0xa9, 0x20] 3 = Some (2, Some 0xe9)"
    by code_simp
  then show ?thesis using utf8_canonical[of "[0xc3, 0xa9, 0x20]" 3 2 "0xe9"] by simp
qed

end
