(* ===== verification/Textcode.thy ===== *)
theory Textcode
  imports Utf8
begin

text \<open>
  The text encodings of \<open>src/lib/textcode\<close> that work byte by byte: URL encoding, quoted-printable,
  LDAP escapes, C escapes and hex dumps. A decoder returns how many bytes of its source it consumed
  and the bytes it stored, cut to the length that it reports through \<open>destlen\<close>; its destination is
  there unless the routine says otherwise. The interface \<open>bytewise_codec\<close> states what a decoder
  owes to one encoded byte; the round trips of whole texts follow from it once for all encodings.
\<close>

subsection \<open>Encoders\<close>

text \<open>
  The loop of the encoders, for the way one byte is written out. A total beyond half the address
  space is answered with \<open>(size_t)-1\<close>.
\<close>

fun fmt_each ::
  "(byte \<Rightarrow> byte list) \<Rightarrow> bool \<Rightarrow> byte list \<Rightarrow> nat \<Rightarrow> nat \<Rightarrow> byte list \<Rightarrow> (nat \<times> byte list) option" where
  "fmt_each enc dest s 0 written w = Some (written, w)"
| "fmt_each enc dest [] (Suc n) written w = None"
| "fmt_each enc dest (c # s) (Suc n) written w =
     (let e = enc c; written = written + length e; w = (if dest then w @ e else w)
      in if written > size_max div 2 then Some (size_max, w) else fmt_each enc dest s n written w)"

definition hex_escape :: "byte \<Rightarrow> byte \<Rightarrow> byte list" where
  "hex_escape mark c = [mark, fmt_tohex (drop_bit 4 c), fmt_tohex (c AND 15)]"

text \<open>\<open>escapeme[str_chr(escapeme, c)] == c\<close>: the terminator counts as a member.\<close>

definition listed :: "byte list \<Rightarrow> byte \<Rightarrow> bool" where
  "listed escapeme c \<longleftrightarrow> c \<in> set escapeme \<or> c = 0"

definition issafe :: "byte \<Rightarrow> bool" where
  "issafe c \<longleftrightarrow> (0x41 \<le> c \<and> c \<le> 0x5a) \<or> (0x61 \<le> c \<and> c \<le> 0x7a) \<or> (0x30 \<le> c \<and> c \<le> 0x39) \<or>
     c \<in> set (ascii ''$/.=~-_'')"

definition urlencode_byte :: "byte list \<Rightarrow> byte \<Rightarrow> byte list" where
  "urlencode_byte escapeme c = (if \<not> issafe c \<or> listed escapeme c then hex_escape 0x25 c else [c])"

definition fmt_urlencoded2 :: "bool \<Rightarrow> byte list \<Rightarrow> nat \<Rightarrow> byte list \<Rightarrow> (nat \<times> byte list) option" where
  "fmt_urlencoded2 dest src len escapeme = fmt_each (urlencode_byte escapeme) dest src len 0 []"

definition fmt_urlencoded :: "bool \<Rightarrow> byte list \<Rightarrow> nat \<Rightarrow> (nat \<times> byte list) option" where
  "fmt_urlencoded dest src len = fmt_urlencoded2 dest src len []"

definition qp_byte :: "byte list \<Rightarrow> byte \<Rightarrow> byte list" where
  "qp_byte escapeme c =
     (if c AND 0x80 \<noteq> 0 \<or> c < 0x20 \<or> c = 0x3d \<or> listed escapeme c then hex_escape 0x3d c else [c])"

definition fmt_quotedprintable2 :: "bool \<Rightarrow> byte list \<Rightarrow> nat \<Rightarrow> byte list \<Rightarrow> (nat \<times> byte list) option" where
  "fmt_quotedprintable2 dest src len escapeme = fmt_each (qp_byte escapeme) dest src len 0 []"

definition fmt_quotedprintable :: "bool \<Rightarrow> byte list \<Rightarrow> nat \<Rightarrow> (nat \<times> byte list) option" where
  "fmt_quotedprintable dest src len = fmt_quotedprintable2 dest src len []"

definition ldap_byte :: "byte \<Rightarrow> byte list" where
  "ldap_byte c =
     (if c = 0x2a \<or> c = 0x28 \<or> c = 0x29 \<or> c = 0 \<or> c = 0x5c \<or> c < 0x20 then hex_escape 0x5c c else [c])"

definition fmt_ldapescape :: "bool \<Rightarrow> byte list \<Rightarrow> nat \<Rightarrow> (nat \<times> byte list) option" where
  "fmt_ldapescape dest src len = fmt_each ldap_byte dest src len 0 []"

definition ldap_byte2 :: "byte list \<Rightarrow> byte \<Rightarrow> byte list" where
  "ldap_byte2 escapeme c =
     (if c = 0x5c \<or> c < 0x20 \<or> listed escapeme c then hex_escape 0x5c c else [c])"

definition fmt_ldapescape2 :: "bool \<Rightarrow> byte list \<Rightarrow> nat \<Rightarrow> byte list \<Rightarrow> (nat \<times> byte list) option" where
  "fmt_ldapescape2 dest src len escapeme = fmt_each (ldap_byte2 escapeme) dest src len 0 []"

definition cescape_byte :: "byte list \<Rightarrow> byte \<Rightarrow> byte list" where
  "cescape_byte escapeme c =
     (if c = 0x07 then [0x5c, 0x61] else if c = 0x08 then [0x5c, 0x62]
      else if c = 0x1b then [0x5c, 0x65] else if c = 0x0c then [0x5c, 0x66]
      else if c = 0x0a then [0x5c, 0x6e] else if c = 0x0d then [0x5c, 0x72]
      else if c = 0x09 then [0x5c, 0x74] else if c = 0x0b then [0x5c, 0x76]
      else if c = 0x5c then [0x5c, 0x5c]
      else if c < 0x20 \<or> listed escapeme c
      then [0x5c, 0x78, fmt_tohex (drop_bit 4 c), fmt_tohex (c AND 15)]
      else [c])"

definition fmt_cescape2 :: "bool \<Rightarrow> byte list \<Rightarrow> nat \<Rightarrow> byte list \<Rightarrow> (nat \<times> byte list) option" where
  "fmt_cescape2 dest src len escapeme = fmt_each (cescape_byte escapeme) dest src len 0 []"

definition fmt_cescape :: "bool \<Rightarrow> byte list \<Rightarrow> nat \<Rightarrow> (nat \<times> byte list) option" where
  "fmt_cescape dest src len = fmt_cescape2 dest src len []"

definition hexdump_byte :: "byte \<Rightarrow> byte list" where
  "hexdump_byte c = [fmt_tohex (drop_bit 4 c), fmt_tohex (c AND 15)]"

definition fmt_hexdump :: "bool \<Rightarrow> byte list \<Rightarrow> nat \<Rightarrow> (nat \<times> byte list) option" where
  "fmt_hexdump dest src len =
     (if \<not> dest then Some (if len > size_max div 2 then size_max else len * 2, [])
      else if len \<le> length src
      then Some (2 * len, concat (map hexdump_byte (take len src)))
      else None)"

definition fold_byte :: "byte \<Rightarrow> byte" where
  "fold_byte c = (if c = 0x20 \<or> c = 0x09 \<or> c = 0x0a then 0x5f else c)"

definition fmt_foldwhitespace :: "bool \<Rightarrow> byte list \<Rightarrow> nat \<Rightarrow> (nat \<times> byte list) option" where
  "fmt_foldwhitespace dest src len =
     (if len \<le> length src then Some (len, if dest then map fold_byte (take len src) else []) else None)"

subsection \<open>Decoders\<close>

text \<open>Two hex digits at the cursor, or that one of them is missing.\<close>

definition hex_pair :: "byte list \<Rightarrow> byte option option" where
  "hex_pair s =
     do { a \<leftarrow> rd s 0;
          let j = scan_fromhex a;
          if j < 0 then Some None
          else do { b \<leftarrow> rd s 1;
                    let k = scan_fromhex b;
                    if k < 0 then Some None
                    else Some (Some (word_of_int (j * 16) OR word_of_int k)) } }"

fun inner_scan_urlencoded :: "bool \<Rightarrow> byte list \<Rightarrow> (nat \<times> byte list) option" where
  "inner_scan_urlencoded pls [] = None"
| "inner_scan_urlencoded pls (c # s) =
     (if c = 0 then Some (0, [])
      else if c = 0x25
      then do { h \<leftarrow> hex_pair s;
                case h of None \<Rightarrow> Some (0, [])
                | Some d \<Rightarrow> do { (i, w) \<leftarrow> inner_scan_urlencoded pls (drop 2 s); Some (i + 3, d # w) } }
      else if c = 0x2b \<and> pls
      then do { (i, w) \<leftarrow> inner_scan_urlencoded pls s; Some (i + 1, 0x20 # w) }
      else if c \<le> 0x20 \<or> c = 0x3f \<or> c = 0x26 then Some (0, [])
      else do { (i, w) \<leftarrow> inner_scan_urlencoded pls s; Some (i + 1, c # w) })"

definition scan_urlencoded :: "byte list \<Rightarrow> (nat \<times> byte list) option" where
  "scan_urlencoded src = inner_scan_urlencoded True src"

definition scan_urlencoded2 :: "byte list \<Rightarrow> (nat \<times> byte list) option" where
  "scan_urlencoded2 src = inner_scan_urlencoded False src"

fun scan_quotedprintable :: "byte list \<Rightarrow> (nat \<times> byte list) option" where
  "scan_quotedprintable [] = None"
| "scan_quotedprintable (c # s) =
     (if c = 0 then Some (0, [])
      else if c = 0x3d
      then do { h \<leftarrow> hex_pair s;
                case h of None \<Rightarrow> Some (0, [])
                | Some d \<Rightarrow> do { (i, w) \<leftarrow> scan_quotedprintable (drop 2 s); Some (i + 3, d # w) } }
      else do { (i, w) \<leftarrow> scan_quotedprintable s; Some (i + 1, c # w) })"

fun scan_ldapescape :: "byte list \<Rightarrow> (nat \<times> byte list) option" where
  "scan_ldapescape [] = None"
| "scan_ldapescape (c # s) =
     (if c = 0 then Some (0, [])
      else if c = 0x5c
      then do { h \<leftarrow> hex_pair s;
                case h of None \<Rightarrow> Some (0, [])
                | Some d \<Rightarrow> do { (i, w) \<leftarrow> scan_ldapescape (drop 2 s); Some (i + 3, d # w) } }
      else do { (i, w) \<leftarrow> scan_ldapescape s; Some (i + 1, c # w) })"

fun scan_hexdump :: "byte list \<Rightarrow> (nat \<times> byte list) option" where
  "scan_hexdump [] = None"
| "scan_hexdump (c # s) =
     (if c = 0 then Some (0, [])
      else do { h \<leftarrow> hex_pair (c # s);
                case h of None \<Rightarrow> Some (0, [])
                | Some d \<Rightarrow> do { (i, w) \<leftarrow> scan_hexdump (tl s); Some (i + 2, d # w) } })"

subsection \<open>Hex escapes\<close>

lemma fmt_tohex_nibble: "unat x < 16 \<Longrightarrow> fmt_tohex x = hex_chr (unat x)"
proof -
  assume x: "unat x < 16"
  then have "\<not> sint x < 0" by (simp add: sint_neg_iff)
  then have "10 \<le> sint x \<longleftrightarrow> \<not> unat x < 10"
    using unat_nonneg_sint[of x] by (simp add: nat_less_iff not_less)
  then show ?thesis by (simp add: fmt_tohex_def hex_chr_def)
qed

lemma scan_fromhex_chr: "d < 16 \<Longrightarrow> scan_fromhex (hex_chr d) = int d"
  by (simp add: scan_fromhex_eq hex.dig_chr)

lemma nibbles_or: "of_nat (unat c div 16) * 16 OR of_nat (unat c mod 16) = (c :: byte)"
proof -
  have "drop_bit 4 c = of_nat (unat c div 2 ^ 4)" by (rule unat_eq_of_nat) (rule unat_shiftr)
  then have "of_nat (unat c div 16) * 16 = push_bit 4 (drop_bit 4 c)" by (simp add: push_bit_eq_mult)
  moreover have "of_nat (unat c mod 16) = c AND mask 4"
    using unat_eq_of_nat[OF unat_and_mask[of c 4]] by simp
  ultimately show ?thesis by (simp only:) (rule bit_word_eqI, auto simp: bit_simps)
qed

lemma hexdump_byte_eq: "hexdump_byte c = hexpair c"
  using nibbles_lt[of c] by (simp add: hexdump_byte_def hexpair_def fmt_tohex_nibble unat_shiftr low_nibble)

lemma hex_escape_eq: "hex_escape mark c = mark # hexpair c"
  using hexdump_byte_eq[of c] by (simp add: hex_escape_def hexdump_byte_def)

lemma hex_pair_hexpair: "hex_pair (hexpair c @ s) = Some (Some c)"
  using nibbles_lt[of c] by (simp add: hex_pair_def hexpair_def scan_fromhex_chr nibbles_or)

lemma hexpair_Cons: obtains a b where "hexpair c = [a, b]" "\<forall>s. hex_pair (a # b # s) = Some (Some c)"
proof (rule that[OF hexpair_def])
  show "\<forall>s. hex_pair (hex_chr (unat c div 16) # hex_chr (unat c mod 16) # s) = Some (Some c)"
    using hex_pair_hexpair[of c] by (simp add: hexpair_def)
qed

subsection \<open>The encoding loop\<close>

lemma fmt_each_eq:
  assumes "n \<le> length s" "written + length (concat (map enc (take n s))) \<le> size_max div 2"
  shows "fmt_each enc dest s n written w =
    Some (written + length (concat (map enc (take n s))),
          if dest then w @ concat (map enc (take n s)) else w)"
  using assms
proof (induction n arbitrary: s written w)
  case (Suc n)
  then obtain c t where s: "s = c # t" "n \<le> length t" by (cases s) auto
  then show ?case using Suc.IH[of t] Suc.prems by (simp add: Let_def)
qed simp

lemma fmt_each_too_long:
  assumes "n \<le> length s" "size_max div 2 < written + length (concat (map enc (take n s)))"
    "written \<le> size_max div 2"
  shows "\<exists>v. fmt_each enc dest s n written w = Some (size_max, v)"
  using assms
proof (induction n arbitrary: s written w)
  case (Suc n)
  then obtain c t where s: "s = c # t" "n \<le> length t" by (cases s) auto
  then show ?case using Suc.IH[of t "written + length (enc c)"] Suc.prems by (auto simp: Let_def)
qed simp

text \<open>Every encoder sizes its output exactly.\<close>

lemma each_formatter:
  "formatter (\<lambda>dest (src, len). fmt_each enc dest src len 0 [])
     (\<lambda>(src, len). len \<le> length src \<and> length (concat (map enc (take len src))) \<le> size_max div 2)"
  by unfold_locales (auto simp: fmt_each_eq)

interpretation fmt_url: formatter "\<lambda>dest (src, len). fmt_urlencoded dest src len"
  "\<lambda>(src, len). len \<le> length src \<and> length (concat (map (urlencode_byte []) (take len src))) \<le> size_max div 2"
  using each_formatter unfolding fmt_urlencoded_def fmt_urlencoded2_def .

interpretation fmt_qp: formatter "\<lambda>dest (src, len). fmt_quotedprintable dest src len"
  "\<lambda>(src, len). len \<le> length src \<and> length (concat (map (qp_byte []) (take len src))) \<le> size_max div 2"
  using each_formatter unfolding fmt_quotedprintable_def fmt_quotedprintable2_def .

interpretation fmt_ldap: formatter "\<lambda>dest (src, len). fmt_ldapescape dest src len"
  "\<lambda>(src, len). len \<le> length src \<and> length (concat (map ldap_byte (take len src))) \<le> size_max div 2"
  using each_formatter unfolding fmt_ldapescape_def .

interpretation fmt_c: formatter "\<lambda>dest (src, len). fmt_cescape dest src len"
  "\<lambda>(src, len). len \<le> length src \<and> length (concat (map (cescape_byte []) (take len src))) \<le> size_max div 2"
  using each_formatter unfolding fmt_cescape_def fmt_cescape2_def .

subsection \<open>The contract of a bytewise codec\<close>

locale bytewise_codec =
  fixes enc :: "byte \<Rightarrow> byte list" and scan :: "byte list \<Rightarrow> (nat \<times> byte list) option"
    and ok :: "byte \<Rightarrow> bool"
  assumes scan_stop: "scan (0 # r) = Some (0, [])"
    and scan_enc: "ok c \<Longrightarrow> scan (enc c @ s) = map_option (\<lambda>(i, w). (length (enc c) + i, c # w)) (scan s)"
begin

lemma scan_encs:
  "list_all ok t \<Longrightarrow> scan (concat (map enc t) @ s) =
     map_option (\<lambda>(i, w). (length (concat (map enc t)) + i, t @ w)) (scan s)"
proof (induction t)
  case Nil
  then show ?case by (cases "scan s") auto
next
  case (Cons c t)
  then show ?case by (cases "scan s") (auto simp: scan_enc)
qed

lemma round_trip:
  "list_all ok t \<Longrightarrow> scan (concat (map enc t) @ 0 # r) = Some (length (concat (map enc t)), t)"
  by (simp add: scan_encs scan_stop)

lemma encs_inj: "list_all ok t \<Longrightarrow> list_all ok u \<Longrightarrow> concat (map enc t) = concat (map enc u) \<Longrightarrow> t = u"
  by (metis round_trip option.inject prod.inject)

end

interpretation urlcodec: bytewise_codec "urlencode_byte ex" "inner_scan_urlencoded pls" "\<lambda>_. True"
proof unfold_locales
  fix c s
  show "inner_scan_urlencoded pls (urlencode_byte ex c @ s) =
      map_option (\<lambda>(i, w). (length (urlencode_byte ex c) + i, c # w)) (inner_scan_urlencoded pls s)"
  proof (cases "\<not> issafe c \<or> listed ex c")
    case True
    obtain a b where h: "hexpair c = [a, b]" "\<forall>s. hex_pair (a # b # s) = Some (Some c)" by (rule hexpair_Cons[of c])
    then show ?thesis using True
      by (cases "inner_scan_urlencoded pls s") (auto simp: urlencode_byte_def hex_escape_eq)
  next
    case False
    then have "issafe c" by simp
    then have "c \<noteq> 0" "c \<noteq> 0x25" "c \<noteq> 0x2b" "\<not> c \<le> 0x20" "c \<noteq> 0x3f" "c \<noteq> 0x26"
      by (auto simp: issafe_def word_le_nat_alt)
    then show ?thesis using False
      by (cases "inner_scan_urlencoded pls s") (auto simp: urlencode_byte_def)
  qed
qed simp

interpretation qpcodec: bytewise_codec "qp_byte ex" scan_quotedprintable "\<lambda>_. True"
proof unfold_locales
  fix c s
  obtain a b where h: "hexpair c = [a, b]" "\<forall>s. hex_pair (a # b # s) = Some (Some c)" by (rule hexpair_Cons[of c])
  then show "scan_quotedprintable (qp_byte ex c @ s) =
      map_option (\<lambda>(i, w). (length (qp_byte ex c) + i, c # w)) (scan_quotedprintable s)"
    by (cases "scan_quotedprintable s") (auto simp: qp_byte_def hex_escape_eq listed_def)
qed simp

interpretation ldapcodec: bytewise_codec ldap_byte scan_ldapescape "\<lambda>_. True"
proof unfold_locales
  fix c s
  obtain a b where h: "hexpair c = [a, b]" "\<forall>s. hex_pair (a # b # s) = Some (Some c)" by (rule hexpair_Cons[of c])
  then show "scan_ldapescape (ldap_byte c @ s) =
      map_option (\<lambda>(i, w). (length (ldap_byte c) + i, c # w)) (scan_ldapescape s)"
    by (cases "scan_ldapescape s") (auto simp: ldap_byte_def hex_escape_eq)
qed simp

interpretation ldapcodec2: bytewise_codec "ldap_byte2 ex" scan_ldapescape "\<lambda>_. True"
proof unfold_locales
  fix c s
  obtain a b where h: "hexpair c = [a, b]" "\<forall>s. hex_pair (a # b # s) = Some (Some c)" by (rule hexpair_Cons[of c])
  then show "scan_ldapescape (ldap_byte2 ex c @ s) =
      map_option (\<lambda>(i, w). (length (ldap_byte2 ex c) + i, c # w)) (scan_ldapescape s)"
    by (cases "scan_ldapescape s") (auto simp: ldap_byte2_def hex_escape_eq listed_def)
qed simp

lemma hex_chr_ne_0: "d < 16 \<Longrightarrow> hex_chr d \<noteq> 0"
  using unat_hex_chr[of d] by (auto simp: word_unat_eq_iff split: if_splits)

interpretation hexcodec: bytewise_codec hexdump_byte scan_hexdump "\<lambda>_. True"
proof unfold_locales
  fix c s
  obtain a b where h: "hexpair c = [a, b]" "\<forall>s. hex_pair (a # b # s) = Some (Some c)" by (rule hexpair_Cons[of c])
  have "a \<noteq> 0" using h(1) hex_chr_ne_0[of "unat c div 16"] nibbles_lt[of c] by (auto simp: hexpair_def)
  then show "scan_hexdump (hexdump_byte c @ s) =
      map_option (\<lambda>(i, w). (length (hexdump_byte c) + i, c # w)) (scan_hexdump s)"
    using h by (cases "scan_hexdump s") (auto simp: hexdump_byte_eq)
qed simp

subsection \<open>Properties\<close>

text \<open>
  URL encoding round trip: \<open>scan_urlencoded\<close> and \<open>scan_urlencoded2\<close> give back every
  text, of any bytes, that \<open>fmt_urlencoded\<close> encoded, and consume exactly its encoding.
\<close>

theorem urlencoded_round_trip:
  assumes "len \<le> length src" "length (concat (map (urlencode_byte []) (take len src))) \<le> size_max div 2"
  shows "\<exists>w. fmt_urlencoded True src len = Some (length w, w) \<and>
    scan_urlencoded (w @ 0 # r) = Some (length w, take len src) \<and>
    scan_urlencoded2 (w @ 0 # r) = Some (length w, take len src)"
  using assms urlcodec.round_trip[of "take len src" True "[]" r] urlcodec.round_trip[of "take len src" False "[]" r]
  by (simp add: fmt_urlencoded_def fmt_urlencoded2_def fmt_each_eq scan_urlencoded_def scan_urlencoded2_def list_all_iff)

theorem urlencoded_round_trip_witness:
  "\<exists>w. fmt_urlencoded True [0x61, 0x20, 0] 3 = Some (length w, w) \<and>
    scan_urlencoded (w @ 0 # []) = Some (length w, take 3 [0x61, 0x20, 0]) \<and>
    scan_urlencoded2 (w @ 0 # []) = Some (length w, take 3 [0x61, 0x20, 0])"
  by (rule urlencoded_round_trip)
     (simp_all add: urlencode_byte_def issafe_def listed_def hex_escape_def size_max_def word_le_nat_alt)

text \<open>
  Quoted-printable and LDAP escapes round trip, for texts of any bytes: what the decoder returns is
  the text that was encoded, byte for byte.
\<close>

theorem quoted_and_ldap_round_trip:
  assumes "len \<le> length src"
    "length (concat (map (qp_byte []) (take len src))) \<le> size_max div 2"
    "length (concat (map ldap_byte (take len src))) \<le> size_max div 2"
  shows "\<exists>v w. fmt_quotedprintable True src len = Some (length v, v) \<and>
    scan_quotedprintable (v @ 0 # r) = Some (length v, take len src) \<and>
    fmt_ldapescape True src len = Some (length w, w) \<and>
    scan_ldapescape (w @ 0 # r) = Some (length w, take len src)"
  using assms qpcodec.round_trip[of "take len src" "[]" r] ldapcodec.round_trip[of "take len src" r]
  by (simp add: fmt_quotedprintable_def fmt_quotedprintable2_def fmt_ldapescape_def fmt_each_eq list_all_iff)

theorem quoted_and_ldap_round_trip_witness:
  "\<exists>v w. fmt_quotedprintable True [0x3d, 0, 0x41] 3 = Some (length v, v) \<and>
    scan_quotedprintable (v @ 0 # []) = Some (length v, take 3 [0x3d, 0, 0x41]) \<and>
    fmt_ldapescape True [0x3d, 0, 0x41] 3 = Some (length w, w) \<and>
    scan_ldapescape (w @ 0 # []) = Some (length w, take 3 [0x3d, 0, 0x41])"
  by (rule quoted_and_ldap_round_trip)
     (simp_all add: qp_byte_def ldap_byte_def listed_def hex_escape_def size_max_def word_less_nat_alt)

text \<open>
  Hex dumps round trip: two digits per byte, and \<open>scan_hexdump\<close> reads the bytes back.
\<close>

theorem hexdump_round_trip:
  assumes "fmt_hexdump True src len = Some (n, w)"
  shows "n = 2 * len \<and> scan_hexdump (w @ 0 # r) = Some (n, take len src)"
proof -
  have "length (hexdump_byte c) = 2" for c by (simp add: hexdump_byte_def)
  then have "length (concat (map hexdump_byte t)) = 2 * length t" for t by (induction t) simp_all
  then show ?thesis
    using assms hexcodec.round_trip[of "take len src" r]
    by (auto simp: fmt_hexdump_def list_all_iff split: if_splits)
qed

theorem hexdump_round_trip_witness: "scan_hexdump (ascii ''00ff'' @ 0 # []) = Some (4, [0, 0xff])"
proof -
  have "fmt_hexdump True [0, 0xff] 2 = Some (4, ascii ''00ff'')" by code_simp
  then show ?thesis using hexdump_round_trip[of "[0, 0xff]" 2 4 "ascii ''00ff''" "[]"] by simp
qed

end
