(* ===== verification/Cescape.thy ===== *)
theory Cescape
  imports Textcode
begin

text \<open>
  The C string unescaping of \<open>src/lib/textcode/scan_cescape.c\<close> and its round trip with
  \<open>fmt_cescape2\<close>. The result is the number of source bytes consumed, the count that
  \<open>destlen\<close> reports and the bytes stored; the two differ for the \<open>NULL\<close> destination, and there
  the octal escapes are not counted.
\<close>

primrec hex_run :: "nat \<Rightarrow> byte list \<Rightarrow> uint32 \<Rightarrow> uint32 option option" where
  "hex_run 0 s k = Some (Some k)"
| "hex_run (Suc n) s k =
     do { a \<leftarrow> rd s 0;
          let c = (word_of_int (scan_fromhex a) :: byte);
          if c \<ge> 16 then Some None else hex_run n (tl s) (k * 16 + ucast c) }"

primrec oct_run :: "nat \<Rightarrow> byte list \<Rightarrow> uint32 \<Rightarrow> nat \<Rightarrow> (uint32 \<times> nat) option" where
  "oct_run 0 s k j = Some (k, j)"
| "oct_run (Suc n) s k j =
     do { a \<leftarrow> rd s 0;
          let l = (ucast a - 0x30 :: uint32);
          if l < 8 then oct_run n (tl s) (k * 8 + l) (j + 1) else Some (k, j) }"

definition simple_escape :: "byte \<Rightarrow> byte option" where
  "simple_escape d =
     (if d = 0x61 then Some 0x07 else if d = 0x62 then Some 0x08 else if d = 0x65 then Some 0x1b
      else if d = 0x66 then Some 0x0c else if d = 0x6e then Some 0x0a else if d = 0x72 then Some 0x0d
      else if d = 0x74 then Some 0x09 else if d = 0x76 then Some 0x0b else if d = 0x5c then Some 0x5c
      else None)"

text \<open>
  One escape behind a backslash: the bytes consumed, backslash included, the count added to
  \<open>written\<close> and the bytes stored, or that the scan ends in an error.
\<close>

definition cescape_step :: "bool \<Rightarrow> byte list \<Rightarrow> (nat \<times> nat \<times> byte list) option option" where
  "cescape_step dest s =
     do { d \<leftarrow> rd s 0;
          case simple_escape d of
            Some c \<Rightarrow> Some (Some (2, 1, [c]))
          | None \<Rightarrow>
              if d = 0x78
              then do { x \<leftarrow> rd s 1;
                        y \<leftarrow> rd s 2;
                        let a = (word_of_int (scan_fromhex x) :: byte);
                        let b = (word_of_int (scan_fromhex y) :: byte);
                        Some (Some (if a < 16
                                    then if b < 16 then (4, 1, [push_bit 4 a + b]) else (3, 1, [a])
                                    else (2, 1, [0x5c]))) }
              else if d = 0x75 \<or> d = 0x55
              then do { k \<leftarrow> hex_run (if d = 0x55 then 8 else 4) (tl s) 0;
                        case k of
                          None \<Rightarrow> Some None
                        | Some k \<Rightarrow>
                            let (n, w) = fmt_utf8 dest k
                            in Some (Some (if d = 0x55 then 10 else 6, n, w)) }
              else if 0x30 \<le> d \<and> d \<le> 0x37
              then do { (k, j) \<leftarrow> oct_run 3 s 0 1;
                        Some (Some (j, if dest then 1 else 0, [ucast k])) }
              else Some (Some (1, 1, [0x5c])) }"

function scan_cescape :: "bool \<Rightarrow> byte list \<Rightarrow> (nat \<times> nat \<times> byte list) option" where
  "scan_cescape dest [] = None"
| "scan_cescape dest (c # s) =
     (if c = 0 then Some (0, 0, [])
      else if c = 0x5c
      then do { r \<leftarrow> cescape_step dest s;
                case r of
                  None \<Rightarrow> Some (0, 0, [])
                | Some (k, n, w) \<Rightarrow>
                    do { (i, m, v) \<leftarrow> scan_cescape dest (drop (k - 1) s);
                         Some (k + i, n + m, if dest then w @ v else []) } }
      else if c = 0x22 then Some (0, 0, [])
      else do { (i, m, v) \<leftarrow> scan_cescape dest s; Some (1 + i, 1 + m, if dest then c # v else []) })"
  by pat_completeness auto
termination by (relation "measure (\<lambda>(dest, s). length s)") auto

subsection \<open>Round trip\<close>

lemma simple_escape_x: "simple_escape 0x78 = None"
  by (simp add: simple_escape_def)

lemma cescape_step_hex:
  "cescape_step True (0x78 # hexpair c @ s) = Some (Some (4, 1, [c]))"
proof -
  have n: "unat c div 16 < 16" "unat c mod 16 < 16" by (rule nibbles_lt)+
  have v: "word_of_int (scan_fromhex (hex_chr d)) < (16 :: byte)"
    "word_of_int (scan_fromhex (hex_chr d)) = (of_nat d :: byte)" if "d < 16" for d
    using that by (simp_all add: scan_fromhex_chr word_less_nat_alt unat_of_nat)
  have "push_bit 4 (of_nat (unat c div 16)) + of_nat (unat c mod 16) = (of_nat (unat c div 16 * 16 + unat c mod 16) :: byte)"
    unfolding of_nat_add of_nat_mult by (simp add: push_bit_eq_mult)
  also have "\<dots> = c" unfolding div_mult_mod_eq[of "unat c" 16] by (simp only: of_nat_unat ucast_id)
  finally show ?thesis
    using n v(1)[OF n(1)] v(1)[OF n(2)] v(2)[OF n(1)] v(2)[OF n(2)]
    by (simp add: cescape_step_def simple_escape_x hexpair_def Let_def)
qed

lemma cescape_byte_cases:
  obtains (plain) "cescape_byte ex c = [c]" "c \<noteq> 0" "c \<noteq> 0x5c" "0x22 \<in> set ex \<longrightarrow> c \<noteq> 0x22"
  | (simple) d where "cescape_byte ex c = [0x5c, d]" "simple_escape d = Some c"
  | (hexed) "cescape_byte ex c = 0x5c # 0x78 # hexpair c"
proof (cases "c \<in> {0x07, 0x08, 0x1b, 0x0c, 0x0a, 0x0d, 0x09, 0x0b, 0x5c}")
  case True
  then show ?thesis using simple by (auto simp: cescape_byte_def simple_escape_def)
next
  case no_simple: False
  show ?thesis
  proof (cases "c < 0x20 \<or> listed ex c")
    case True
    then have "cescape_byte ex c = 0x5c # 0x78 # hexpair c"
      using no_simple hexdump_byte_eq[of c] by (auto simp: cescape_byte_def hexdump_byte_def)
    then show ?thesis by (rule hexed)
  next
    case False
    then show ?thesis using plain no_simple by (auto simp: cescape_byte_def listed_def)
  qed
qed

interpretation ccodec: bytewise_codec "cescape_byte ex"
  "\<lambda>s. map_option (\<lambda>(i, n, w). (i, w)) (scan_cescape True s)" "\<lambda>c. c \<noteq> 0x22 \<or> 0x22 \<in> set ex"
proof unfold_locales
  fix c :: byte and s
  assume ok: "c \<noteq> 0x22 \<or> 0x22 \<in> set ex"
  show "map_option (\<lambda>(i, n, w). (i, w)) (scan_cescape True (cescape_byte ex c @ s)) =
      map_option (\<lambda>(i, w). (length (cescape_byte ex c) + i, c # w))
        (map_option (\<lambda>(i, n, w). (i, w)) (scan_cescape True s))"
  proof (cases rule: cescape_byte_cases[of ex c])
    case plain
    then show ?thesis using ok by (cases "scan_cescape True s") auto
  next
    case (simple d)
    then have "cescape_step True (d # s) = Some (Some (2, 1, [c]))" by (simp add: cescape_step_def)
    then show ?thesis using simple(1) by (cases "scan_cescape True s") auto
  next
    case hexed
    then show ?thesis using cescape_step_hex[of c s] by (cases "scan_cescape True s") (auto simp: hexpair_def)
  qed
qed simp

lemma scan_cescape_null_octal: "scan_cescape False (cstr [0x5c, 0x31, 0x30, 0x31] r) = Some (4, 0, [])"
  by (simp add: cescape_step_def simple_escape_def numeral_3_eq_3 Let_def word_le_nat_alt)

subsection \<open>Properties\<close>

text \<open>
  C escapes round trip for every text when the double quote, at which the decoder stops, is among
  the characters to escape; without that it holds for the texts that have no double quote.
\<close>

theorem cescape_round_trip:
  assumes "len \<le> length src" "length (concat (map (cescape_byte ex) (take len src))) \<le> size_max div 2"
    "0x22 \<in> set ex \<or> 0x22 \<notin> set (take len src)"
  shows "\<exists>w. fmt_cescape2 True src len ex = Some (length w, w) \<and>
    map_option (\<lambda>(i, n, v). (i, v)) (scan_cescape True (w @ 0 # r)) = Some (length w, take len src)"
proof -
  have "list_all (\<lambda>c. c \<noteq> 0x22 \<or> 0x22 \<in> set ex) (take len src)" using assms(3) by (auto simp: list_all_iff)
  then show ?thesis
    using assms(1,2) ccodec.round_trip[of ex "take len src" r] by (simp add: fmt_cescape2_def fmt_each_eq)
qed

theorem cescape_round_trip_witness:
  "\<exists>w. fmt_cescape2 True [0x22, 0x0a, 1, 0xff] 4 [0x22] = Some (length w, w) \<and>
    map_option (\<lambda>(i, n, v). (i, v)) (scan_cescape True (w @ 0 # [])) = Some (length w, take 4 [0x22, 0x0a, 1, 0xff])"
  by (rule cescape_round_trip)
     (simp_all add: cescape_byte_def listed_def size_max_def word_less_nat_alt)

end
