(* ===== verification/Base64.thy ===== *)
theory Base64
  imports Textcode
begin

text \<open>
  Base64 with the two alphabets of \<open>src/lib/textcode\<close>: \<open>fmt_base64\<close> (padded),
  \<open>fmt_base64url\<close> (not padded), \<open>scan_base64\<close> and \<open>scan_base64url\<close>. The bit buffers are
  16-bit words as in C. Encoder and decoder are compared through the value of the bytes they have
  passed: the sextets written and the bits that wait in the buffer hold exactly the bits read.
\<close>

definition base64 :: "byte list" where
  "base64 = ascii ''ABCDEFGHIJKLMNOPQRSTUVWXYZabcdefghijklmnopqrstuvwxyz0123456789+/=''"

definition base64url :: "byte list" where
  "base64url = ascii ''ABCDEFGHIJKLMNOPQRSTUVWXYZabcdefghijklmnopqrstuvwxyz0123456789-_=''"

subsection \<open>Encoding\<close>

fun b64_emit :: "byte list \<Rightarrow> uint16 \<Rightarrow> nat \<Rightarrow> byte list \<Rightarrow> nat \<times> byte list" where
  "b64_emit alpha temp bits dest =
     (if bits > 6
      then b64_emit alpha temp (bits - 6) (dest @ [alpha ! unat (drop_bit (bits - 6) temp AND 63)])
      else (bits, dest))"

declare b64_emit.simps [simp del]

fun b64_bytes :: "byte list \<Rightarrow> byte list \<Rightarrow> uint16 \<Rightarrow> nat \<Rightarrow> byte list \<Rightarrow> uint16 \<times> nat \<times> byte list" where
  "b64_bytes alpha [] temp bits dest = (temp, bits, dest)"
| "b64_bytes alpha (c # s) temp bits dest =
     (let temp = push_bit 8 temp + ucast c; (bits, dest) = b64_emit alpha temp (bits + 8) dest
      in b64_bytes alpha s temp bits dest)"

definition b64_flush :: "byte list \<Rightarrow> uint16 \<times> nat \<times> byte list \<Rightarrow> byte list" where
  "b64_flush alpha st =
     (case st of (temp, bits, dest) \<Rightarrow>
        if bits \<noteq> 0 then dest @ [alpha ! unat (push_bit (6 - bits) temp AND 63)] else dest)"

definition b64_len :: "nat \<Rightarrow> nat" where
  "b64_len len = (if len > size_max div 2 then size_max else (len + 2) div 3 * 4)"

definition fmt_base64 :: "bool \<Rightarrow> byte list \<Rightarrow> nat \<Rightarrow> (nat \<times> byte list) option" where
  "fmt_base64 dest src len =
     (if \<not> dest then Some (b64_len len, [])
      else if length src < len then None
      else let w = b64_flush base64 (b64_bytes base64 (take len src) 0 0 []);
               w = w @ replicate ((4 - length w mod 4) mod 4) 0x3d
           in Some (length w, w))"

definition fmt_base64url :: "bool \<Rightarrow> byte list \<Rightarrow> nat \<Rightarrow> (nat \<times> byte list) option" where
  "fmt_base64url dest src len =
     (if \<not> dest then Some (b64_len len, [])
      else if length src < len then None
      else let w = b64_flush base64url (b64_bytes base64url (take len src) 0 0 [])
           in Some (length w, w))"

subsection \<open>Decoding\<close>

definition b64_alnum :: "byte \<Rightarrow> int option" where
  "b64_alnum x =
     (if 0x41 \<le> x \<and> x \<le> 0x5a then Some (uint x - 0x41)
      else if 0x61 \<le> x \<and> x \<le> 0x7a then Some (uint x - 0x61 + 26)
      else if 0x30 \<le> x \<and> x \<le> 0x39 then Some (uint x - 0x30 + 26 + 26)
      else None)"

definition base64_dec :: "byte \<Rightarrow> int" where
  "base64_dec x =
     (case b64_alnum x of Some v \<Rightarrow> v
      | None \<Rightarrow> if x = 0x2b then 62 else if x = 0x2f then 63 else -1)"

definition scan_base64url_decimal :: "byte \<Rightarrow> int" where
  "scan_base64url_decimal x =
     (case b64_alnum x of Some v \<Rightarrow> v
      | None \<Rightarrow> if x = 0x2d then 62 else if x = 0x5f then 63 else -1)"

fun skip_padding :: "byte list \<Rightarrow> nat \<Rightarrow> nat option" where
  "skip_padding [] k = None"
| "skip_padding (c # s) k = (if c = 0x3d \<and> k mod 4 \<noteq> 0 then skip_padding s (k + 1) else Some k)"

text \<open>
  \<open>k\<close> is \<open>s - src\<close>, \<open>w\<close> the bytes stored so far (\<open>i\<close> of them), and \<open>(j, orig)\<close>
  the count and the position that the routine would report.
\<close>

fun scan_base64_loop ::
  "byte list \<Rightarrow> nat \<Rightarrow> uint16 \<Rightarrow> nat \<Rightarrow> byte list \<Rightarrow> nat \<times> nat \<Rightarrow> (nat \<times> byte list) option" where
  "scan_base64_loop [] k tmp bits w (j, orig) = None"
| "scan_base64_loop (c # s) k tmp bits w (j, orig) =
     (let a = base64_dec c
      in if a < 0
         then do { k' \<leftarrow> skip_padding (c # s) k;
                   if tmp AND (push_bit bits 1 - 1) = 0 \<or> c = 0x3d
                   then Some (k', w) else Some (orig, take j w) }
         else let tmp = push_bit 6 tmp OR word_of_int a; bits = bits + 6
              in if bits \<ge> 8
                 then let bits = bits - 8; w = w @ [ucast (drop_bit bits tmp)]
                      in scan_base64_loop s (k + 1) tmp bits w
                           (if bits = 0 then (length w, k + 1) else (j, orig))
                 else scan_base64_loop s (k + 1) tmp bits w (j, orig))"

definition scan_base64 :: "byte list \<Rightarrow> (nat \<times> byte list) option" where
  "scan_base64 src = scan_base64_loop src 0 0 0 [] (0, 0)"

fun scan_base64url_loop :: "byte list \<Rightarrow> nat \<Rightarrow> uint16 \<Rightarrow> nat \<Rightarrow> byte list \<Rightarrow> (nat \<times> byte list) option" where
  "scan_base64url_loop [] k tmp bits w = None"
| "scan_base64url_loop (c # s) k tmp bits w =
     (let a = scan_base64url_decimal c
      in if a < 0 then Some (k, w)
         else let tmp = push_bit 6 tmp OR word_of_int a; bits = bits + 6
              in if bits \<ge> 8
                 then scan_base64url_loop s (k + 1) tmp (bits - 8) (w @ [ucast (drop_bit (bits - 8) tmp)])
                 else scan_base64url_loop s (k + 1) tmp bits w)"

definition scan_base64url :: "byte list \<Rightarrow> (nat \<times> byte list) option" where
  "scan_base64url src = scan_base64url_loop src 0 0 0 []"

subsection \<open>The alphabets\<close>

text \<open>What an alphabet and its digit function owe each other.\<close>

locale base64_alphabet =
  fixes alpha :: "byte list" and decode :: "byte \<Rightarrow> int"
  assumes decode_alpha: "d < 64 \<Longrightarrow> decode (alpha ! d) = int d"
begin

definition text_of_sextets :: "nat list \<Rightarrow> byte list" where
  "text_of_sextets ds = map (\<lambda>d. alpha ! d) ds"

lemma decode_text: "\<forall>d \<in> set ds. d < 64 \<Longrightarrow> map decode (text_of_sextets ds) = map int ds"
  by (simp add: text_of_sextets_def decode_alpha)

end

lemma base64_table: "list_all (\<lambda>d. base64_dec (base64 ! d) = int d) [0..<64]"
  by code_simp

lemma base64url_table: "list_all (\<lambda>d. scan_base64url_decimal (base64url ! d) = int d) [0..<64]"
  by code_simp

interpretation b64: base64_alphabet base64 base64_dec
  using base64_table by unfold_locales (auto simp: list_all_iff)

interpretation b64url: base64_alphabet base64url scan_base64url_decimal
  using base64url_table by unfold_locales (auto simp: list_all_iff)

subsection \<open>What the encoder writes\<close>

abbreviation bytes_val :: "byte list \<Rightarrow> nat" where
  "bytes_val w \<equiv> digs_val 256 (map unat w)"

lemma split_top_bits:
  assumes "k \<le> n"
  shows "(t :: nat) mod 2 ^ n = t div 2 ^ k mod 2 ^ (n - k) * 2 ^ k + t mod 2 ^ k"
proof -
  have "(2::nat) ^ n = 2 ^ k * 2 ^ (n - k)" using assms by (simp flip: power_add)
  then show ?thesis by (simp add: mod_mult2_eq mult.commute)
qed

lemma sextet: "unat (x AND 63 :: uint16) = unat x mod 64"
proof -
  have m: "(63 :: uint16) = mask 6" by (simp add: mask_eq_exp_minus_1)
  show ?thesis unfolding m unat_and_mask by simp
qed

lemma b64_emit_eq:
  obtains es bits' where "b64_emit alpha temp bits dest = (bits', dest @ map (\<lambda>d. alpha ! d) es)"
    "\<forall>d \<in> set es. d < 64" "bits' \<le> 6" "6 * length es + bits' = bits" "0 < bits \<Longrightarrow> 0 < bits'"
    "\<And>ds. digs_val 64 (ds @ es) * 2 ^ bits' + unat temp mod 2 ^ bits' =
           digs_val 64 ds * 2 ^ bits + unat temp mod 2 ^ bits"
proof (induction alpha temp bits dest arbitrary: thesis rule: b64_emit.induct)
  case (1 alpha temp bits dest)
  show ?case
  proof (cases "bits > 6")
    case False
    then show ?thesis by (intro 1(2)[of bits "[]"]) (simp_all add: b64_emit.simps[of alpha temp bits])
  next
    case True
    define e where "e = unat temp div 2 ^ (bits - 6) mod 64"
    have e: "unat (drop_bit (bits - 6) temp AND 63) = e" by (simp add: sextet unat_shiftr e_def)
    obtain es bits' where IH: "b64_emit alpha temp (bits - 6) (dest @ [alpha ! e]) =
        (bits', (dest @ [alpha ! e]) @ map (\<lambda>d. alpha ! d) es)"
      "\<forall>d \<in> set es. d < 64" "bits' \<le> 6" "6 * length es + bits' = bits - 6" "0 < bits - 6 \<Longrightarrow> 0 < bits'"
      "\<And>ds. digs_val 64 (ds @ es) * 2 ^ bits' + unat temp mod 2 ^ bits' =
             digs_val 64 ds * 2 ^ (bits - 6) + unat temp mod 2 ^ (bits - 6)"
      using 1(1)[OF True] unfolding e by blast
    have pw: "(2::nat) ^ bits = 64 * 2 ^ (bits - 6)"
      using True power_add[of "2::nat" 6 "bits - 6"] by simp
    have md: "unat temp mod 2 ^ bits = e * 2 ^ (bits - 6) + unat temp mod 2 ^ (bits - 6)"
      using True split_top_bits[of "bits - 6" bits "unat temp"] by (simp add: e_def)
    have v: "digs_val 64 (ds @ e # es) * 2 ^ bits' + unat temp mod 2 ^ bits' =
        digs_val 64 ds * 2 ^ bits + unat temp mod 2 ^ bits" for ds
      using IH(6)[of "ds @ [e]"] unfolding md unfolding pw by (simp add: algebra_simps)
    show ?thesis
    proof (rule 1(2))
      show "b64_emit alpha temp bits dest = (bits', dest @ map (\<lambda>d. alpha ! d) (e # es))"
        using True e IH(1) by (simp add: b64_emit.simps[of alpha temp bits])
      show "\<forall>d \<in> set (e # es). d < 64" using IH(2) by (simp add: e_def)
      show "bits' \<le> 6" "6 * length (e # es) + bits' = bits" "0 < bits'" using IH(3-5) True by simp_all
    qed (rule v)
  qed
qed

lemma append_bits:
  assumes "k + n \<le> 16" "unat (x :: uint16) < 2 ^ k"
  shows "unat (push_bit k t + x :: uint16) mod 2 ^ (n + k) = unat t mod 2 ^ n * 2 ^ k + unat x"
proof -
  have "unat (push_bit k t + x) = (unat t * 2 ^ k + unat x) mod 2 ^ 16"
    by (simp add: unat_word_ariths unat_shiftl mod_simps)
  moreover have "(2::nat) ^ (n + k) dvd 2 ^ 16" using assms(1) by (intro le_imp_power_dvd) simp
  ultimately have "unat (push_bit k t + x) mod 2 ^ (n + k) = (unat t * 2 ^ k + unat x) mod 2 ^ (n + k)"
    by (simp only: mod_mod_cancel)
  also have "\<dots> = (unat t * 2 ^ k + unat x) div 2 ^ k mod 2 ^ n * 2 ^ k + (unat t * 2 ^ k + unat x) mod 2 ^ k"
    using split_top_bits[of k "n + k"] by simp
  also have "\<dots> = unat t mod 2 ^ n * 2 ^ k + unat x" using assms(2) by simp
  finally show ?thesis .
qed

lemma b64_bytes_eq:
  assumes "bits \<le> 6"
  obtains es temp' bits' where
    "b64_bytes alpha s temp bits dest = (temp', bits', dest @ map (\<lambda>d. alpha ! d) es)"
    "\<forall>d \<in> set es. d < 64" "bits' \<le> 6" "6 * length es + bits' = bits + 8 * length s"
    "0 < bits + length s \<Longrightarrow> 0 < bits'"
    "\<And>ds. digs_val 64 (ds @ es) * 2 ^ bits' + unat temp' mod 2 ^ bits' =
           (digs_val 64 ds * 2 ^ bits + unat temp mod 2 ^ bits) * 256 ^ length s + bytes_val s"
  using assms
proof (induction s arbitrary: temp bits dest thesis)
  case Nil
  then show ?case by (intro Nil(1)[of temp bits "[]"]) simp_all
next
  case (Cons c s)
  let ?t = "push_bit 8 temp + ucast c :: uint16"
  obtain es bits' where em: "b64_emit alpha ?t (bits + 8) dest = (bits', dest @ map (\<lambda>d. alpha ! d) es)"
    "\<forall>d \<in> set es. d < 64" "bits' \<le> 6" "6 * length es + bits' = bits + 8" "0 < bits'"
    "\<And>ds. digs_val 64 (ds @ es) * 2 ^ bits' + unat ?t mod 2 ^ bits' =
           digs_val 64 ds * 2 ^ (bits + 8) + unat ?t mod 2 ^ (bits + 8)"
    using b64_emit_eq[of alpha ?t "bits + 8" dest] by (metis add_gr_0 zero_less_numeral)
  obtain es' temp' bits'' where IH:
    "b64_bytes alpha s ?t bits' (dest @ map (\<lambda>d. alpha ! d) es) =
       (temp', bits'', (dest @ map (\<lambda>d. alpha ! d) es) @ map (\<lambda>d. alpha ! d) es')"
    "\<forall>d \<in> set es'. d < 64" "bits'' \<le> 6" "6 * length es' + bits'' = bits' + 8 * length s"
    "0 < bits' + length s \<Longrightarrow> 0 < bits''"
    "\<And>ds. digs_val 64 (ds @ es') * 2 ^ bits'' + unat temp' mod 2 ^ bits'' =
           (digs_val 64 ds * 2 ^ bits' + unat ?t mod 2 ^ bits') * 256 ^ length s + bytes_val s"
    using Cons.IH[OF _ em(3)] by blast
  have t: "unat ?t mod 2 ^ (bits + 8) = unat temp mod 2 ^ bits * 256 + unat c"
    using append_bits[of 8 bits "ucast c" temp] Cons.prems(2) byte_lt_256[of c] by (simp add: unat_ucast_up)
  have v: "digs_val 64 (ds @ es @ es') * 2 ^ bits'' + unat temp' mod 2 ^ bits'' =
      (digs_val 64 ds * 2 ^ bits + unat temp mod 2 ^ bits) * 256 ^ length (c # s) + bytes_val (c # s)" for ds
    using IH(6)[of "ds @ es"] unfolding append_assoc em(6) t by (simp add: digs_val_Cons power_add algebra_simps)
  show ?case
  proof (rule Cons.prems(1))
    show "b64_bytes alpha (c # s) temp bits dest = (temp', bits'', dest @ map (\<lambda>d. alpha ! d) (es @ es'))"
      using em(1) IH(1) by simp
    show "\<forall>d \<in> set (es @ es'). d < 64" using em(2) IH(2) by auto
    show "bits'' \<le> 6" "6 * length (es @ es') + bits'' = bits + 8 * length (c # s)" "0 < bits''"
      using IH(3-5) em(4,5) by simp_all
  qed (rule v)
qed

text \<open>The sextets of a whole text: its bits, filled up with zeros.\<close>

lemma b64_sextets:
  obtains ds pad where "b64_flush alpha (b64_bytes alpha s 0 0 []) = map (\<lambda>d. alpha ! d) ds"
    "\<forall>d \<in> set ds. d < 64" "pad < 6" "6 * length ds = 8 * length s + pad"
    "digs_val 64 ds = bytes_val s * 2 ^ pad"
proof -
  obtain es t b where e: "b64_bytes alpha s 0 0 [] = (t, b, map (\<lambda>d. alpha ! d) es)"
    "\<forall>d \<in> set es. d < 64" "b \<le> 6" "6 * length es + b = 8 * length s" "0 < length s \<Longrightarrow> 0 < b"
    "digs_val 64 es * 2 ^ b + unat t mod 2 ^ b = bytes_val s"
  proof (rule b64_bytes_eq[of 0 alpha s 0 "[]"])
    fix es t b
    assume *: "b64_bytes alpha s 0 0 [] = (t, b, [] @ map (\<lambda>d. alpha ! d) es)"
      "\<forall>d \<in> set es. d < 64" "b \<le> 6" "6 * length es + b = 0 + 8 * length s" "0 < 0 + length s \<Longrightarrow> 0 < b"
      "\<And>ds. digs_val 64 (ds @ es) * 2 ^ b + unat t mod 2 ^ b =
        (digs_val 64 ds * 2 ^ 0 + unat (0 :: uint16) mod 2 ^ 0) * 256 ^ length s + bytes_val s"
    show thesis using *(1-5) *(6)[of "[]"] by (intro that[of t b es]) simp_all
  qed simp
  show thesis
  proof (cases "b = 0")
    case True
    then show thesis using e by (intro that[of es 0]) (auto simp: b64_flush_def)
  next
    case False
    define x where "x = unat t mod 2 ^ b * 2 ^ (6 - b)"
    have pw: "(64::nat) = 2 ^ (6 - b) * 2 ^ b" using e(3) power_add[of "2::nat" "6 - b" b] by simp
    have "unat (push_bit (6 - b) t AND 63) = unat t * 2 ^ (6 - b) mod 2 ^ 16 mod 64" by (simp add: sextet unat_shiftl)
    also have "\<dots> = unat t * 2 ^ (6 - b) mod 64" by (simp add: mod_mod_cancel)
    also have "\<dots> = x" unfolding pw x_def by (simp add: mult_mod_right mult.commute)
    finally have s: "unat (push_bit (6 - b) t AND 63) = x" .
    have "x < 64" unfolding pw x_def by (simp add: mult.commute)
    moreover have "digs_val 64 (es @ [x]) = bytes_val s * 2 ^ (6 - b)"
      unfolding e(6)[symmetric] digs_val_snoc x_def by (subst pw) (simp add: algebra_simps)
    ultimately show thesis
      using e False s by (intro that[of "es @ [x]" "6 - b"]) (auto simp: b64_flush_def)
  qed
qed

subsection \<open>What the decoder reads\<close>

lemma or_is_plus:
  fixes t :: uint16
  assumes "d < 64"
  shows "push_bit 6 t OR of_nat d = push_bit 6 t + of_nat d"
proof -
  have d: "(of_nat d :: uint16) = of_nat d AND mask 6"
    unfolding word_unat_eq_iff unat_and_mask using assms by (simp add: unat_of_nat)
  have "push_bit 6 t AND (of_nat d AND mask 6) = 0" by (rule bit_word_eqI) (auto simp: bit_simps)
  then have "push_bit 6 t AND of_nat d = 0" by (simp only: d[symmetric])
  then show ?thesis by (simp add: disjunctive_add_eq_or)
qed

text \<open>One sextet enters the bit buffer; a byte leaves it when it holds eight bits or more.\<close>

lemma sextet_in:
  fixes t :: uint16
  assumes "bits < 8" "d < 64"
  defines "t' \<equiv> push_bit 6 t OR of_nat d"
  shows "unat t' mod 2 ^ (bits + 6) = unat t mod 2 ^ bits * 64 + d"
proof -
  have "unat (of_nat d :: uint16) = d" using assms(2) by (simp add: unat_of_nat)
  then show ?thesis
    unfolding t'_def or_is_plus[OF assms(2)] using append_bits[of 6 bits "of_nat d" t] assms(1,2) by simp
qed

lemma byte_out:
  fixes t :: uint16
  assumes "8 \<le> n" "n \<le> 16"
  shows "unat t mod 2 ^ n = unat (ucast (drop_bit (n - 8) t) :: byte) * 2 ^ (n - 8) + unat t mod 2 ^ (n - 8)"
  using assms split_top_bits[of "n - 8" n "unat t"] by (simp add: unat_ucast_mod unat_shiftr)

text \<open>
  The state after the sextets \<open>ds\<close>: the bytes out, the bits in the buffer and their value; both
  decoders run through the same states.
\<close>

definition b64_state :: "nat list \<Rightarrow> uint16 \<Rightarrow> nat \<Rightarrow> byte list \<Rightarrow> bool" where
  "b64_state ds tmp bits w \<longleftrightarrow> bits < 8 \<and> 8 * length w + bits = 6 * length ds \<and>
     bytes_val w * 2 ^ bits + unat tmp mod 2 ^ bits = digs_val 64 ds"

lemma b64_state_init: "b64_state [] 0 0 []"
  by (simp add: b64_state_def)

lemma b64_state_step:
  assumes "b64_state ds tmp bits w" "d < 64"
  defines "t' \<equiv> push_bit 6 tmp OR of_nat d"
  shows "bits + 6 < 8 \<Longrightarrow> b64_state (ds @ [d]) t' (bits + 6) w"
    and "8 \<le> bits + 6 \<Longrightarrow> b64_state (ds @ [d]) t' (bits + 6 - 8) (w @ [ucast (drop_bit (bits + 6 - 8) t')])"
proof -
  have st: "bits < 8" "8 * length w + bits = 6 * length ds"
    "bytes_val w * 2 ^ bits + unat tmp mod 2 ^ bits = digs_val 64 ds"
    using assms(1) by (simp_all add: b64_state_def)
  have inn: "unat t' mod 2 ^ (bits + 6) = unat tmp mod 2 ^ bits * 64 + d"
    unfolding t'_def by (rule sextet_in[OF st(1) assms(2)])
  have val: "bytes_val w * 2 ^ (bits + 6) + unat t' mod 2 ^ (bits + 6) = digs_val 64 (ds @ [d])"
    unfolding inn digs_val_snoc st(3)[symmetric] by (simp add: power_add algebra_simps)
  then show "b64_state (ds @ [d]) t' (bits + 6) w" if "bits + 6 < 8"
    using that st(2) by (simp add: b64_state_def)
  show "b64_state (ds @ [d]) t' (bits + 6 - 8) (w @ [ucast (drop_bit (bits + 6 - 8) t')])" if ge: "8 \<le> bits + 6"
  proof -
    let ?n = "bits + 6 - 8" and ?b = "ucast (drop_bit (bits + 6 - 8) t') :: byte"
    have pw: "(2::nat) ^ (bits + 6) = 256 * 2 ^ ?n" using ge power_add[of "2::nat" 8 ?n] by (simp add: add.commute)
    have "unat t' mod 2 ^ (bits + 6) = unat ?b * 2 ^ ?n + unat t' mod 2 ^ ?n"
      using byte_out[of "bits + 6" t'] ge st(1) by simp
    then have "bytes_val (w @ [?b]) * 2 ^ ?n + unat t' mod 2 ^ ?n = digs_val 64 (ds @ [d])"
      using val pw by (simp add: algebra_simps)
    then show ?thesis using st(1,2) ge by (simp add: b64_state_def)
  qed
qed

lemma scan_base64url_run:
  assumes "\<forall>d \<in> set es. d < 64" "b64_state ds tmp bits w"
  shows "\<exists>tmp' bits' w'. scan_base64url_loop (map (\<lambda>d. base64url ! d) es @ s) k tmp bits w =
     scan_base64url_loop s (k + length es) tmp' bits' w' \<and> b64_state (ds @ es) tmp' bits' w'"
  using assms
proof (induction es arbitrary: ds tmp bits w k)
  case Nil
  then show ?case by auto
next
  case (Cons d es)
  have d: "d < 64" "scan_base64url_decimal (base64url ! d) = int d"
    using Cons.prems(1) b64url.decode_alpha[of d] by simp_all
  let ?t = "push_bit 6 tmp OR of_nat d :: uint16"
  obtain b1 w1 where st: "b64_state (ds @ [d]) ?t b1 w1"
    "scan_base64url_loop (map (\<lambda>d. base64url ! d) (d # es) @ s) k tmp bits w =
     scan_base64url_loop (map (\<lambda>d. base64url ! d) es @ s) (k + 1) ?t b1 w1"
    using b64_state_step[OF Cons.prems(2) d(1)] d(2)
    by (cases "8 \<le> bits + 6") (auto simp: Let_def)
  show ?case using Cons.IH[OF _ st(1), of "k + 1"] Cons.prems(1) unfolding st(2) by simp
qed

lemma scan_base64_run:
  assumes "\<forall>d \<in> set es. d < 64" "b64_state ds tmp bits w"
  shows "\<exists>tmp' bits' w' jo'. scan_base64_loop (map (\<lambda>d. base64 ! d) es @ s) k tmp bits w jo =
     scan_base64_loop s (k + length es) tmp' bits' w' jo' \<and> b64_state (ds @ es) tmp' bits' w'"
  using assms
proof (induction es arbitrary: ds tmp bits w k jo)
  case Nil
  then show ?case by (intro exI[of _ tmp] exI[of _ bits] exI[of _ w] exI[of _ jo]) simp
next
  case (Cons d es)
  have d: "d < 64" "base64_dec (base64 ! d) = int d"
    using Cons.prems(1) b64.decode_alpha[of d] by simp_all
  let ?t = "push_bit 6 tmp OR of_nat d :: uint16"
  obtain b1 w1 jo1 where st: "b64_state (ds @ [d]) ?t b1 w1"
    "scan_base64_loop (map (\<lambda>d. base64 ! d) (d # es) @ s) k tmp bits w jo =
     scan_base64_loop (map (\<lambda>d. base64 ! d) es @ s) (k + 1) ?t b1 w1 jo1"
    using b64_state_step[OF Cons.prems(2) d(1)] d(2)
    by (cases "8 \<le> bits + 6"; cases jo) (auto simp: Let_def)
  show ?case using Cons.IH[OF _ st(1), of "k + 1" jo1] Cons.prems(1) unfolding st(2) by simp
qed

text \<open>Reading back the sextets of a text leaves nothing but zeros in the buffer.\<close>

lemma bytes_val_inj: "length v = length w \<Longrightarrow> bytes_val v = bytes_val w \<Longrightarrow> v = w"
proof -
  assume a: "length v = length w" "bytes_val v = bytes_val w"
  have "map unat u = map (\<lambda>i. bytes_val u div 256 ^ i mod 256) (rev [0..<length u])" for u :: "byte list"
    using positions_digs_val[of "map unat u" 256 0] byte_lt_256 by simp
  then have "map unat v = map unat w" using a by metis
  moreover have "inj (unat :: byte \<Rightarrow> nat)" by (rule injI) (simp add: word_unat_eq_iff)
  ultimately show "v = w" by (simp only: inj_map_eq_map)
qed

lemma b64_state_final:
  assumes "b64_state ds tmp bits w" "pad < 6" "6 * length ds = 8 * length s + pad"
    "digs_val 64 ds = bytes_val s * 2 ^ pad"
  shows "w = s" "bits = pad" "unat tmp mod 2 ^ bits = 0"
proof -
  have st: "bits < 8" "8 * length w + bits = 8 * length s + pad"
    "bytes_val w * 2 ^ bits + unat tmp mod 2 ^ bits = bytes_val s * 2 ^ pad"
    using assms by (simp_all add: b64_state_def)
  have len: "length w = length s" "bits = pad" using st(1,2) assms(2) by presburger+
  have "(bytes_val w * 2 ^ pad + unat tmp mod 2 ^ pad) div 2 ^ pad = bytes_val w" by simp
  then have v: "bytes_val w = bytes_val s" unfolding st(3)[unfolded len(2)] by simp
  show "w = s" using len(1) v by (rule bytes_val_inj)
  show "bits = pad" by (rule len(2))
  show "unat tmp mod 2 ^ bits = 0" using st(3) v len(2) by simp
qed

lemma scan_base64url_fmt:
  assumes "scan_base64url_decimal c < 0" "fmt_base64url True src len = Some (n, w)"
  shows "scan_base64url (w @ c # r) = Some (n, take len src)"
proof -
  let ?s = "take len src"
  obtain ds pad where ds: "b64_flush base64url (b64_bytes base64url ?s 0 0 []) = map (\<lambda>d. base64url ! d) ds"
    "\<forall>d \<in> set ds. d < 64" "pad < 6" "6 * length ds = 8 * length ?s + pad" "digs_val 64 ds = bytes_val ?s * 2 ^ pad"
    by (rule b64_sextets)
  have w: "w = map (\<lambda>d. base64url ! d) ds" "n = length ds"
    using assms(2) ds(1) by (auto simp: fmt_base64url_def Let_def split: if_splits)
  obtain tmp bits v where run: "scan_base64url_loop (map (\<lambda>d. base64url ! d) ds @ c # r) 0 0 0 [] =
      scan_base64url_loop (c # r) (length ds) tmp bits v" "b64_state ds tmp bits v"
    using scan_base64url_run[OF ds(2) b64_state_init, of "c # r" 0] by auto
  have "v = ?s" by (rule b64_state_final(1)[OF run(2) ds(3-5)])
  then show ?thesis using run(1) assms(1) w by (simp add: scan_base64url_def)
qed

lemma skip_padding_run:
  "k mod 4 \<noteq> 0 \<Longrightarrow> skip_padding (replicate (4 - k mod 4) 0x3d @ c # r) k = Some (k + (4 - k mod 4))"
proof -
  assume k: "k mod 4 \<noteq> 0"
  have "skip_padding (replicate p 0x3d @ c # r) k = Some (k + p)" if "k mod 4 = 4 - p" "p \<le> 3" "0 < p" for p k
    using that
  proof (induction p arbitrary: k)
    case (Suc p)
    show ?case
    proof (cases "p = 0")
      case True
      then have "(k + 1) mod 4 = 0" using Suc.prems(1) by presburger
      then show ?thesis using Suc.prems True by simp
    next
      case False
      then have "(k + 1) mod 4 = 4 - p" using Suc.prems by presburger
      then show ?thesis using Suc.IH[of "k + 1"] Suc.prems False by simp
    qed
  qed simp
  then show ?thesis using k by simp
qed

lemma scan_base64_fmt:
  assumes "base64_dec c < 0" "c \<noteq> 0x3d" "fmt_base64 True src len = Some (n, w)"
  shows "scan_base64 (w @ c # r) = Some (n, take len src)"
proof -
  let ?s = "take len src"
  obtain ds pad where ds: "b64_flush base64 (b64_bytes base64 ?s 0 0 []) = map (\<lambda>d. base64 ! d) ds"
    "\<forall>d \<in> set ds. d < 64" "pad < 6" "6 * length ds = 8 * length ?s + pad" "digs_val 64 ds = bytes_val ?s * 2 ^ pad"
    by (rule b64_sextets)
  let ?p = "(4 - length ds mod 4) mod 4"
  have w: "w = map (\<lambda>d. base64 ! d) ds @ replicate ?p 0x3d" "n = length ds + ?p"
    using assms(3) ds(1) by (auto simp: fmt_base64_def Let_def split: if_splits)
  define t where "t = replicate ?p 0x3d @ c # r"
  obtain tmp bits v jo where run: "scan_base64_loop (map (\<lambda>d. base64 ! d) ds @ t) 0 0 0 [] (0, 0) =
      scan_base64_loop t (length ds) tmp bits v jo" "b64_state ds tmp bits v"
    using scan_base64_run[OF ds(2) b64_state_init, of t 0 "(0, 0)"] by auto
  note fin = b64_state_final[OF run(2) ds(3-5)]
  have "tmp AND (push_bit bits 1 - 1) = 0"
  proof -
    have "push_bit bits 1 - 1 = (mask bits :: uint16)" by (simp add: mask_eq_decr_exp push_bit_eq_mult)
    then show ?thesis using fin(3) by (simp only: unat_and_mask[symmetric] unat_eq_0)
  qed
  moreover have "skip_padding t (length ds) = Some (length ds + ?p)"
  proof (cases "length ds mod 4 = 0")
    case True
    then show ?thesis using assms(2) by (simp add: t_def)
  next
    case False
    then show ?thesis using skip_padding_run[OF False, of c r] by (simp add: t_def)
  qed
  moreover obtain x y where t: "t = x # y" "base64_dec x < 0"
    using assms(1) by (cases ?p) (auto simp: t_def base64_dec_def b64_alnum_def word_le_nat_alt)
  ultimately have "scan_base64_loop t (length ds) tmp bits v jo = Some (length ds + ?p, v)"
    by (cases jo) simp
  then show ?thesis using run(1) w fin(1) by (simp add: scan_base64_def t_def)
qed

subsection \<open>Properties\<close>

text \<open>
  C13. Base64 round trip: \<open>scan_base64\<close> returns the bytes that \<open>fmt_base64\<close> encoded, of any
  number, and consumes the encoding with its padding, when the byte behind is not of the alphabet.
\<close>

theorem base64_round_trip:
  assumes "fmt_base64 True src len = Some (n, w)" "base64_dec c < 0" "c \<noteq> 0x3d"
  shows "scan_base64 (w @ c # r) = Some (n, take len src)"
  using scan_base64_fmt[OF assms(2,3,1)] .

theorem base64_round_trip_witness:
  "scan_base64 (ascii ''Zm5vcmQ='' @ 0 # []) = Some (8, ascii ''fnord'')"
proof -
  have "fmt_base64 True (ascii ''fnord'') 5 = Some (8, ascii ''Zm5vcmQ='')" by code_simp
  moreover have "base64_dec 0 < 0" by code_simp
  ultimately show ?thesis using base64_round_trip[of "ascii ''fnord''" 5 8 "ascii ''Zm5vcmQ=''" 0 "[]"] by simp
qed

text \<open>
  The URL-safe alphabet round trips without padding: \<open>scan_base64url\<close> returns the bytes that
  \<open>fmt_base64url\<close> encoded and consumes exactly their encoding.
\<close>

theorem base64url_round_trip:
  assumes "fmt_base64url True src len = Some (n, w)" "scan_base64url_decimal c < 0"
  shows "scan_base64url (w @ c # r) = Some (n, take len src)"
  using scan_base64url_fmt[OF assms(2,1)] .

theorem base64url_round_trip_witness:
  "scan_base64url (ascii ''_-8'' @ 0x3d # []) = Some (3, [0xff, 0xef])"
proof -
  have "fmt_base64url True [0xff, 0xef] 2 = Some (3, ascii ''_-8'')" by code_simp
  moreover have "scan_base64url_decimal 0x3d < 0" by code_simp
  ultimately show ?thesis using base64url_round_trip[of "[0xff, 0xef]" 2 3 "ascii ''_-8''" "0x3d" "[]"] by simp
qed

end
