(* ===== verification/Sinks.thy ===== *)
theory Sinks
  imports Scan
begin

text \<open>
  The contract of the structures that text is appended to, a dynamic string or an output buffer, and
  what their clients get from it.  \<open>holds s w\<close> says that the sink \<open>s\<close> has taken the text
  \<open>w\<close>; \<open>put s buf n\<close> appends the first \<open>n\<close> bytes of \<open>buf\<close> and reports whether it
  could; \<open>cap\<close> bounds the text; \<open>sure s\<close> says that the environment will not refuse.
\<close>

locale byte_sink =
  fixes holds :: "'s \<Rightarrow> byte list \<Rightarrow> bool"
    and put :: "'s \<Rightarrow> byte list \<Rightarrow> nat \<Rightarrow> (bool \<times> 's) option"
    and cap :: nat
    and sure :: "'s \<Rightarrow> bool"
  assumes put_law: "holds s w \<Longrightarrow> n \<le> length buf \<Longrightarrow> length w + n < cap \<Longrightarrow>
    \<exists>ok s' w'. put s buf n = Some (ok, s') \<and> holds s' w' \<and> (ok \<longrightarrow> w' = w @ take n buf) \<and>
      (sure s \<longrightarrow> ok \<and> sure s')"
begin

text \<open>A client that puts one block after the other and gives up at the first refusal.\<close>

fun put_blocks :: "'s \<Rightarrow> byte list list \<Rightarrow> (bool \<times> 's) option" where
  "put_blocks s [] = Some (True, s)"
| "put_blocks s (b # bs) =
     do { (ok, s) \<leftarrow> put s b (length b); if ok then put_blocks s bs else Some (False, s) }"

lemma put_blocks_law:
  "holds s w \<Longrightarrow> length w + length (concat bs) < cap \<Longrightarrow>
     \<exists>ok s' w'. put_blocks s bs = Some (ok, s') \<and> holds s' w' \<and> (ok \<longrightarrow> w' = w @ concat bs) \<and> (sure s \<longrightarrow> ok \<and> sure s')"
proof (induction bs arbitrary: s w)
  case (Cons b bs)
  obtain ok s1 w1 where p: "put s b (length b) = Some (ok, s1)" "holds s1 w1"
      "ok \<longrightarrow> w1 = w @ b" "sure s \<longrightarrow> ok \<and> sure s1"
    using put_law[OF Cons.prems(1), of "length b" b] Cons.prems(2) by auto
  show ?case
  proof (cases ok)
    case True
    then show ?thesis using Cons.IH[OF p(2)] Cons.prems(2) p by auto
  next
    case False
    then show ?thesis using p by auto
  qed
qed auto

lemma put_bytes_law:
  assumes "holds s w" "length w + length ws < cap"
  shows "\<exists>ok s' w'. put_blocks s (map (\<lambda>c. [c]) ws) = Some (ok, s') \<and> holds s' w' \<and>
           (ok \<longrightarrow> w' = w @ ws) \<and> (sure s \<longrightarrow> ok \<and> sure s')"
  using put_blocks_law[OF assms(1), of "map (\<lambda>c. [c]) ws"] assms(2) by simp

text \<open>Strings: the sink's \<open>puts\<close> measures its argument.\<close>

definition puts :: "'s \<Rightarrow> byte list \<Rightarrow> (bool \<times> 's) option" where
  "puts s x = do { n \<leftarrow> str_len x; put s x n }"

fun putm :: "'s \<Rightarrow> byte list list \<Rightarrow> (bool \<times> 's) option" where
  "putm s [] = Some (True, s)"
| "putm s (x # xs) = do { (ok, s) \<leftarrow> puts s x; if ok then putm s xs else Some (False, s) }"

lemma puts_law:
  assumes "holds s w" "nonul x" "length w + length x < cap"
  shows "\<exists>ok s' w'. puts s (cstr x r) = Some (ok, s') \<and> holds s' w' \<and> (ok \<longrightarrow> w' = w @ x) \<and> (sure s \<longrightarrow> ok \<and> sure s')"
  using put_law[OF assms(1), of "length x" "cstr x r"] assms by (simp add: puts_def take_cstr)

lemma putm_law:
  "holds s w \<Longrightarrow> list_all nonul xs \<Longrightarrow> length w + length (concat xs) < cap \<Longrightarrow>
     \<exists>ok s' w'. putm s (map (\<lambda>x. cstr x []) xs) = Some (ok, s') \<and> holds s' w' \<and>
       (ok \<longrightarrow> w' = w @ concat xs) \<and> (sure s \<longrightarrow> ok \<and> sure s')"
proof (induction xs arbitrary: s w)
  case (Cons x xs)
  obtain ok s1 w1 where p: "puts s (cstr x []) = Some (ok, s1)" "holds s1 w1"
      "ok \<longrightarrow> w1 = w @ x" "sure s \<longrightarrow> ok \<and> sure s1"
    using puts_law[OF Cons.prems(1), of x "[]"] Cons.prems by auto
  show ?case
  proof (cases ok)
    case True
    then show ?thesis using Cons.IH[OF p(2)] Cons.prems p by auto
  next
    case False
    then show ?thesis using p by auto
  qed
qed auto

end

end
