(* ===== verification/Stralloc.thy ===== *)
theory Stralloc
  imports Sinks
begin

text \<open>
  The dynamic string \<open>stralloc\<close> (\<open>src/lib/stralloc\<close>): allocation, copying, appending.
  The record has the three fields of the C structure; \<open>sa_s\<close> is \<open>None\<close> for \<open>NULL\<close> and
  otherwise the whole heap object.  A routine returns its result together with the structure it leaves
  behind, and \<open>None\<close> for undefined behaviour.

  An allocator \<open>al\<close> says which requests the C library meets and what fresh memory holds; the
  length of a block is always the length that was asked for.  Allocation may fail in every call.
  A source pointer never points into the destination string.
\<close>

subsection \<open>The C library's allocator\<close>

type_synonym allocator = "nat \<Rightarrow> byte list option"

definition malloc :: "allocator \<Rightarrow> nat \<Rightarrow> byte list option" where
  "malloc al n = map_option (\<lambda>b. take n (b @ replicate n 0)) (al n)"

definition realloc :: "allocator \<Rightarrow> byte list \<Rightarrow> nat \<Rightarrow> byte list option" where
  "realloc al m n = map_option (\<lambda>b. take n m @ drop (length m) b) (malloc al n)"

definition grants :: "allocator \<Rightarrow> bool" where
  "grants al \<longleftrightarrow> (\<forall>n. al n \<noteq> None)"

text \<open>An allocator that always has memory.\<close>

definition plenty :: allocator where
  "plenty n = Some []"

lemma grants_plenty [simp]: "grants plenty"
  by (simp add: grants_def plenty_def)

subsection \<open>The structure\<close>

record stralloc =
  sa_s :: "byte list option"
  sa_len :: uint64
  sa_a :: uint64

definition sa_mem :: "stralloc \<Rightarrow> byte list" where
  "sa_mem sa = (case sa_s sa of None \<Rightarrow> [] | Some m \<Rightarrow> m)"

definition sa_store :: "stralloc \<Rightarrow> byte list \<Rightarrow> stralloc" where
  "sa_store sa m = sa\<lparr>sa_s := map_option (\<lambda>_. m) (sa_s sa)\<rparr>"

definition stralloc_init :: "stralloc \<Rightarrow> stralloc" where
  "stralloc_init sa = \<lparr>sa_s = None, sa_len = 0, sa_a = 0\<rparr>"

definition stralloc_zero :: "stralloc \<Rightarrow> stralloc" where
  "stralloc_zero sa = sa\<lparr>sa_len := 0\<rparr>"

definition stralloc_free :: "stralloc \<Rightarrow> stralloc" where
  "stralloc_free sa = sa\<lparr>sa_s := None\<rparr>"

subsection \<open>Making room\<close>

definition stralloc_ready :: "allocator \<Rightarrow> stralloc \<Rightarrow> uint64 \<Rightarrow> (bool \<times> stralloc) option" where
  "stralloc_ready al sa len =
     (let wanted = len + drop_bit 3 len + 30
      in if sa_s sa \<noteq> None \<and> sa_a sa \<ge> len then Some (True, sa)
         else if sa_a sa = 0 \<or> sa_s sa = None then
           (case malloc al (unat wanted) of
              None \<Rightarrow> Some (False, sa)
            | Some tmp \<Rightarrow>
                do { tmp \<leftarrow> (case sa_s sa of
                                Some m \<Rightarrow> byte_copy tmp 0 (unat len) m 0
                              | None \<Rightarrow> byte_zero tmp (unat wanted));
                     Some (True, sa\<lparr>sa_a := wanted, sa_s := Some tmp\<rparr>) })
         else
           (case realloc al (sa_mem sa) (unat wanted) of
              None \<Rightarrow> Some (False, sa)
            | Some tmp \<Rightarrow> Some (True, sa\<lparr>sa_a := wanted, sa_s := Some tmp\<rparr>)))"

definition stralloc_readyplus :: "allocator \<Rightarrow> stralloc \<Rightarrow> uint64 \<Rightarrow> (bool \<times> stralloc) option" where
  "stralloc_readyplus al sa len =
     (if sa_s sa \<noteq> None then
        if sa_len sa + len < len then Some (False, sa) else stralloc_ready al sa (sa_len sa + len)
      else stralloc_ready al sa len)"

text \<open>
  \<open>stralloc_ready_tuned\<close> reports \<open>EINVAL\<close> and \<open>ERANGE\<close> through \<open>errno\<close>; a
  failed \<open>realloc\<close> leaves \<open>s\<close> at \<open>NULL\<close>.
\<close>

definition stralloc_ready_tuned ::
  "allocator \<Rightarrow> stralloc \<Rightarrow> uint64 \<Rightarrow> uint64 \<Rightarrow> uint64 \<Rightarrow> uint64 \<Rightarrow> bool \<times> stralloc" where
  "stralloc_ready_tuned al sa n base a b =
     (if b = 0 then (False, sa)
      else let t = n + base + a * n div b
           in if t < n then (False, sa)
              else case sa_s sa of
                     None \<Rightarrow>
                       (case malloc al (unat t) of
                          None \<Rightarrow> (False, sa)
                        | Some m \<Rightarrow> (True, sa\<lparr>sa_s := Some m, sa_a := t\<rparr>))
                   | Some m \<Rightarrow>
                       if n > sa_a sa then
                         (case realloc al m (unat t) of
                            None \<Rightarrow> (False, sa\<lparr>sa_s := None\<rparr>)
                          | Some m' \<Rightarrow> (True, sa\<lparr>sa_s := Some m', sa_a := t\<rparr>))
                       else (True, sa))"

subsection \<open>Copying and appending\<close>

definition stralloc_copyb ::
  "allocator \<Rightarrow> stralloc \<Rightarrow> byte list \<Rightarrow> uint64 \<Rightarrow> (bool \<times> stralloc) option" where
  "stralloc_copyb al sa buf len =
     do { (ok, sa) \<leftarrow> stralloc_ready al sa len;
          if ok then
            do { let sa = sa\<lparr>sa_len := len\<rparr>;
                 m \<leftarrow> byte_copy (sa_mem sa) 0 (unat len) buf 0;
                 Some (True, sa_store sa m) }
          else Some (False, sa) }"

definition stralloc_copys :: "allocator \<Rightarrow> stralloc \<Rightarrow> byte list \<Rightarrow> (bool \<times> stralloc) option" where
  "stralloc_copys al sa buf = do { n \<leftarrow> str_len buf; stralloc_copyb al sa buf (of_nat n) }"

definition stralloc_copy :: "allocator \<Rightarrow> stralloc \<Rightarrow> stralloc \<Rightarrow> (bool \<times> stralloc) option" where
  "stralloc_copy al sa sa2 = stralloc_copyb al sa (sa_mem sa2) (sa_len sa2)"

definition stralloc_catb ::
  "allocator \<Rightarrow> stralloc \<Rightarrow> byte list \<Rightarrow> uint64 \<Rightarrow> (bool \<times> stralloc) option" where
  "stralloc_catb al sa buf len =
     do { (ok, sa) \<leftarrow> stralloc_readyplus al sa len;
          if ok then
            do { m \<leftarrow> byte_copy (sa_mem sa) (unat (sa_len sa)) (unat len) buf 0;
                 Some (True, (sa_store sa m)\<lparr>sa_len := sa_len sa + len\<rparr>) }
          else Some (False, sa) }"

definition stralloc_cats :: "allocator \<Rightarrow> stralloc \<Rightarrow> byte list \<Rightarrow> (bool \<times> stralloc) option" where
  "stralloc_cats al sa buf = do { n \<leftarrow> str_len buf; stralloc_catb al sa buf (of_nat n) }"

definition stralloc_cat :: "allocator \<Rightarrow> stralloc \<Rightarrow> stralloc \<Rightarrow> (bool \<times> stralloc) option" where
  "stralloc_cat al sa sa2 = stralloc_catb al sa (sa_mem sa2) (sa_len sa2)"

definition stralloc_append :: "allocator \<Rightarrow> stralloc \<Rightarrow> byte list \<Rightarrow> (bool \<times> stralloc) option" where
  "stralloc_append al sa src =
     do { (ok, sa) \<leftarrow> stralloc_readyplus al sa 1;
          if ok then
            do { x \<leftarrow> rd src 0; m \<leftarrow> wr (sa_mem sa) (unat (sa_len sa)) x;
                 Some (True, (sa_store sa m)\<lparr>sa_len := sa_len sa + 1\<rparr>) }
          else Some (False, sa) }"

definition stralloc_0 :: "allocator \<Rightarrow> stralloc \<Rightarrow> (bool \<times> stralloc) option" where
  "stralloc_0 al sa = stralloc_append al sa [0]"

definition stralloc_catc :: "allocator \<Rightarrow> stralloc \<Rightarrow> byte \<Rightarrow> (bool \<times> stralloc) option" where
  "stralloc_catc al sa c =
     do { (ok, sa) \<leftarrow> stralloc_ready al sa (sa_len sa + 1);
          if ok then
            do { m \<leftarrow> wr (sa_mem sa) (unat (sa_len sa)) c;
                 Some (True, (sa_store sa m)\<lparr>sa_len := sa_len sa + 1\<rparr>) }
          else Some (False, sa) }"

definition stralloc_nul :: "allocator \<Rightarrow> stralloc \<Rightarrow> (bool \<times> stralloc) option" where
  "stralloc_nul al sa =
     do { (ok, sa) \<leftarrow> stralloc_readyplus al sa 1;
          if \<not> ok then Some (False, sa)
          else do { m \<leftarrow> wr (sa_mem sa) (unat (sa_len sa)) 0; Some (True, sa_store sa m) } }"

text \<open>The variable arguments of \<open>stralloc_catm_internal\<close> are the list of the strings.\<close>

primrec catm_total :: "byte list list \<Rightarrow> uint64 \<Rightarrow> uint64 option" where
  "catm_total [] n = Some n"
| "catm_total (s # ss) n = do { k \<leftarrow> str_len s; catm_total ss (n + of_nat k) }"

primrec catm_loop :: "allocator \<Rightarrow> stralloc \<Rightarrow> byte list list \<Rightarrow> (bool \<times> stralloc) option" where
  "catm_loop al sa [] = Some (True, sa)"
| "catm_loop al sa (s # ss) =
     do { (ok, sa) \<leftarrow> stralloc_cats al sa s; if ok then catm_loop al sa ss else Some (False, sa) }"

definition stralloc_catm_internal ::
  "allocator \<Rightarrow> stralloc \<Rightarrow> byte list list \<Rightarrow> (bool \<times> stralloc) option" where
  "stralloc_catm_internal al sa ss =
     do { n \<leftarrow> catm_total ss 0;
          (_, sa) \<leftarrow> stralloc_readyplus al sa n;
          catm_loop al sa ss }"

definition stralloc_erase :: "allocator \<Rightarrow> stralloc \<Rightarrow> (bool \<times> stralloc) option" where
  "stralloc_erase al sa =
     do { (ok, sa) \<leftarrow> stralloc_ready al sa 1;
          if \<not> ok then Some (False, sa)
          else do { m \<leftarrow> wr (sa_mem sa) 0 0x5a; Some (True, (sa_store sa m)\<lparr>sa_len := 0\<rparr>) } }"

subsection \<open>Giving memory back\<close>

text \<open>\<open>realloc\<close> of \<open>NULL\<close> is \<open>malloc\<close>, which is what \<open>sa_mem\<close> of it gives.\<close>

definition stralloc_trunc :: "allocator \<Rightarrow> stralloc \<Rightarrow> uint64 \<Rightarrow> (bool \<times> stralloc) option" where
  "stralloc_trunc al sa n =
     (case realloc al (sa_mem sa) (unat (n + 1)) of
        None \<Rightarrow> Some (False, sa\<lparr>sa_s := None\<rparr>)
      | Some m \<Rightarrow> do { m \<leftarrow> wr m (unat n) 0; Some (True, sa\<lparr>sa_s := Some m, sa_len := n\<rparr>) })"

definition stralloc_shrink :: "allocator \<Rightarrow> stralloc \<Rightarrow> bool \<times> stralloc" where
  "stralloc_shrink al sa =
     (if sa_a sa > sa_len sa then
        (case realloc al (sa_mem sa) (unat (sa_len sa)) of
           None \<Rightarrow> (False, sa\<lparr>sa_s := None\<rparr>)
         | Some m \<Rightarrow> (True, sa\<lparr>sa_s := Some m, sa_a := sa_len sa\<rparr>))
      else (True, sa))"

text \<open>
  \<open>stralloc_moveb\<close> hands over the object; \<open>stralloc_move\<close> takes over that of another string
  and returns both strings.
\<close>

definition stralloc_moveb :: "stralloc \<Rightarrow> byte list option \<times> uint64 \<times> stralloc" where
  "stralloc_moveb from = (sa_s from, sa_len from, from\<lparr>sa_s := None, sa_len := 0, sa_a := 0\<rparr>)"

definition stralloc_move :: "stralloc \<Rightarrow> stralloc \<Rightarrow> stralloc \<times> stralloc" where
  "stralloc_move to from =
     (let to = (if sa_a to = 0 then to\<lparr>sa_s := None\<rparr> else to);
          to = stralloc_free to;
          to = to\<lparr>sa_s := sa_s from, sa_a := sa_a from, sa_len := sa_len from\<rparr>
      in (to, stralloc_init from))"

subsection \<open>What a string stands for\<close>

text \<open>
  \<open>sa_is sa w\<close>: the structure owns its object, \<open>len\<close> and \<open>a\<close> lie inside it, and it
  holds the text \<open>w\<close>.  \<open>sa_room sa w n\<close>: it is allocated and has room for \<open>n\<close> bytes
  in all.
\<close>

definition sa_wf :: "stralloc \<Rightarrow> bool" where
  "sa_wf sa \<longleftrightarrow>
     (case sa_s sa of
        None \<Rightarrow> sa_len sa = 0
      | Some m \<Rightarrow> 0 < sa_a sa \<and> unat (sa_a sa) \<le> length m \<and> sa_len sa \<le> sa_a sa)"

definition sa_text :: "stralloc \<Rightarrow> byte list" where
  "sa_text sa = take (unat (sa_len sa)) (sa_mem sa)"

definition sa_is :: "stralloc \<Rightarrow> byte list \<Rightarrow> bool" where
  "sa_is sa w \<longleftrightarrow> sa_wf sa \<and> sa_text sa = w"

definition sa_room :: "stralloc \<Rightarrow> byte list \<Rightarrow> nat \<Rightarrow> bool" where
  "sa_room sa w n \<longleftrightarrow> sa_is sa w \<and> sa_s sa \<noteq> None \<and> n \<le> unat (sa_a sa)"

definition sa_max :: nat where
  "sa_max = 2 ^ 63"

lemma length_malloc: "malloc al n = Some b \<Longrightarrow> length b = n"
  by (auto simp: malloc_def)

lemma realloc_Some: "realloc al m n = Some b \<Longrightarrow> length b = n \<and> take (min n (length m)) b = take n m"
  by (auto simp: realloc_def min_def dest: length_malloc)

lemma grants_malloc: "grants al \<Longrightarrow> malloc al n \<noteq> None" "grants al \<Longrightarrow> realloc al m n \<noteq> None"
  by (simp_all add: grants_def malloc_def realloc_def)

lemma wanted_unat:
  assumes "unat n < sa_max"
  shows "unat (n + drop_bit 3 n + 30 :: uint64) = unat n + unat n div 8 + 30"
proof -
  have d: "unat (drop_bit 3 n) = unat n div 8" by (simp add: unat_shiftr)
  have "unat n + unat n div 8 + 30 < 2 ^ 64" using assms by (simp add: sa_max_def)
  then have e: "unat (n + drop_bit 3 n) = unat n + unat n div 8" by (simp add: unat_add_small d)
  show ?thesis by (subst unat_add_small) (use assms in \<open>simp_all add: e sa_max_def\<close>)
qed

lemma word_le_unat: "(x :: 'a::len word) \<le> y \<Longrightarrow> unat x \<le> unat y"
  by (simp add: word_le_nat_alt)

lemma sa_is_len:
  assumes "sa_is sa w"
  shows "unat (sa_len sa) = length w"
proof (cases "sa_s sa")
  case None
  then show ?thesis using assms by (auto simp: sa_is_def sa_wf_def sa_text_def sa_mem_def)
next
  case (Some m)
  then have "unat (sa_len sa) \<le> length m" "w = take (unat (sa_len sa)) m"
    using assms by (auto simp: sa_is_def sa_wf_def sa_text_def sa_mem_def dest: word_le_unat)
  then show ?thesis by simp
qed

lemma sa_is_text: "sa_is sa w \<Longrightarrow> take (length w) (sa_mem sa) = w"
  by (metis sa_is_def sa_is_len sa_text_def)

lemma sa_is_mem: "sa_is sa w \<Longrightarrow> \<exists>r. sa_mem sa = w @ r"
  using append_take_drop_id[of "length w" "sa_mem sa"] by (metis sa_is_text)

lemma sa_is_le_mem: "sa_is sa w \<Longrightarrow> length w \<le> length (sa_mem sa)"
  using sa_is_mem by fastforce

lemma sa_room_is: "sa_room sa w n \<Longrightarrow> sa_is sa w"
  by (simp add: sa_room_def)

lemma sa_room_mem: "sa_room sa w n \<Longrightarrow> n \<le> length (sa_mem sa)"
  by (auto simp: sa_room_def sa_is_def sa_wf_def sa_mem_def)

lemma sa_store_simps [simp]:
  "sa_len (sa_store sa m) = sa_len sa" "sa_a (sa_store sa m) = sa_a sa"
  "sa_s (sa_store sa m) = map_option (\<lambda>_. m) (sa_s sa)"
  by (simp_all add: sa_store_def)

lemma sa_mem_upd [simp]: "sa_mem (sa\<lparr>sa_len := n\<rparr>) = sa_mem sa"
  by (simp add: sa_mem_def)

lemma sa_is_updI:
  assumes "sa_room sa w n" "length m = length (sa_mem sa)" "take (unat l) m = w'" "unat l \<le> n"
  shows "sa_is ((sa_store sa m)\<lparr>sa_len := l\<rparr>) w'"
  using assms by (auto simp: sa_room_def sa_is_def sa_wf_def sa_text_def sa_mem_def word_le_nat_alt)



text \<open>The result of an operation that may run out of memory: it then leaves the string alone.\<close>

definition sa_out :: "allocator \<Rightarrow> stralloc \<Rightarrow> (bool \<times> stralloc) option \<Rightarrow> (stralloc \<Rightarrow> bool) \<Rightarrow> bool" where
  "sa_out al sa r P \<longleftrightarrow>
     (\<exists>ok sa'. r = Some (ok, sa') \<and> (if ok then P sa' else sa' = sa) \<and> (grants al \<longrightarrow> ok))"

lemma sa_out_ok [intro]: "P sa' \<Longrightarrow> sa_out al sa (Some (True, sa')) P"
  by (auto simp: sa_out_def)

lemma sa_out_fail: "\<not> grants al \<Longrightarrow> sa_out al sa (Some (False, sa)) P"
  by (auto simp: sa_out_def)

lemma sa_out_mono: "sa_out al sa r P \<Longrightarrow> (\<And>sa'. P sa' \<Longrightarrow> Q sa') \<Longrightarrow> sa_out al sa r Q"
  by (fastforce simp: sa_out_def)

lemma sa_out_bind:
  assumes "sa_out al sa r P" "\<And>sa'. P sa' \<Longrightarrow> sa_out al sa (f (True, sa')) Q"
    "f (False, sa) = Some (False, sa)"
  shows "sa_out al sa (r \<bind> f) Q"
proof -
  obtain ok sa' where r: "r = Some (ok, sa')" "if ok then P sa' else sa' = sa" "grants al \<longrightarrow> ok"
    using assms(1) by (auto simp: sa_out_def)
  show ?thesis
  proof (cases ok)
    case True
    then show ?thesis using assms(2)[of sa'] r by simp
  next
    case False
    then show ?thesis using r assms(3) sa_out_fail[of al sa Q] by simp
  qed
qed

lemma stralloc_ready_malloc:
  assumes "sa_s sa = None" "sa_len sa = 0" "unat n < sa_max"
  shows "sa_out al sa (stralloc_ready al sa n) (\<lambda>sa'. sa_room sa' [] (unat n))"
proof -
  let ?w = "n + drop_bit 3 n + 30"
  have un: "unat ?w = unat n + unat n div 8 + 30" by (rule wanted_unat) fact
  then have pos: "0 < ?w" by (simp add: word_less_nat_alt)
  show ?thesis
  proof (cases "malloc al (unat ?w)")
    case None
    then have "stralloc_ready al sa n = Some (False, sa)" using assms by (simp add: stralloc_ready_def)
    then show ?thesis using None grants_malloc sa_out_fail by metis
  next
    case (Some b)
    then have z: "byte_zero b (unat ?w) = Some (replicate (unat ?w) 0)"
      using length_malloc[OF Some] by (simp add: byte_zero_def byte_fill_loop_eq splice_def)
    then have r: "stralloc_ready al sa n =
        Some (True, sa\<lparr>sa_a := ?w, sa_s := Some (replicate (unat ?w) 0)\<rparr>)"
      using assms Some by (simp add: stralloc_ready_def Let_def)
    show ?thesis unfolding r using assms un pos
      by (intro sa_out_ok) (simp add: sa_room_def sa_is_def sa_wf_def sa_text_def)
  qed
qed

lemma stralloc_ready_realloc:
  assumes "sa_is sa w" "sa_s sa = Some m" "sa_a sa < n" "unat n < sa_max"
  shows "sa_out al sa (stralloc_ready al sa n) (\<lambda>sa'. sa_room sa' w (unat n))"
proof -
  let ?w = "n + drop_bit 3 n + 30"
  have un: "unat ?w = unat n + unat n div 8 + 30" by (rule wanted_unat) fact
  then have pos: "0 < ?w" by (simp add: word_less_nat_alt)
  have wf: "0 < sa_a sa" "unat (sa_a sa) \<le> length m" "sa_len sa \<le> sa_a sa"
    using assms by (auto simp: sa_is_def sa_wf_def)
  have lt: "unat (sa_len sa) \<le> unat ?w" "unat (sa_len sa) \<le> length m"
    using wf un assms(3) by (simp_all add: word_le_nat_alt word_less_nat_alt)
  have guard: "sa_a sa \<noteq> 0" "\<not> n \<le> sa_a sa" using wf assms by auto
  show ?thesis
  proof (cases "realloc al m (unat ?w)")
    case None
    then have "stralloc_ready al sa n = Some (False, sa)"
      using assms guard by (simp add: stralloc_ready_def Let_def sa_mem_def)
    then show ?thesis using None grants_malloc sa_out_fail by metis
  next
    case (Some b)
    have r: "stralloc_ready al sa n = Some (True, sa\<lparr>sa_a := ?w, sa_s := Some b\<rparr>)"
      using assms guard Some by (simp add: stralloc_ready_def Let_def sa_mem_def)
    have "take (unat (sa_len sa)) (take (min (unat ?w) (length m)) b) = take (unat (sa_len sa)) (take (unat ?w) m)"
      using realloc_Some[OF Some] by simp
    then have t: "take (unat (sa_len sa)) b = take (unat (sa_len sa)) m" using lt by (simp add: min_absorb1)
    show ?thesis unfolding r using assms un pos lt realloc_Some[OF Some]
      by (intro sa_out_ok) (simp add: sa_room_def sa_is_def sa_wf_def sa_text_def sa_mem_def t word_le_nat_alt)
  qed
qed

lemma stralloc_ready_room:
  assumes "sa_is sa w" "unat n < sa_max"
  shows "sa_out al sa (stralloc_ready al sa n) (\<lambda>sa'. sa_room sa' w (unat n))"
proof (cases "sa_s sa")
  case None
  then have "w = []" "sa_len sa = 0" using assms by (auto simp: sa_is_def sa_wf_def sa_text_def)
  then show ?thesis using stralloc_ready_malloc[OF None] assms by simp
next
  case (Some m)
  show ?thesis
  proof (cases "n \<le> sa_a sa")
    case True
    then have "stralloc_ready al sa n = Some (True, sa)" using Some by (simp add: stralloc_ready_def)
    then show ?thesis using Some True assms by (auto simp: sa_room_def word_le_nat_alt)
  qed (use stralloc_ready_realloc[OF assms(1) Some _ assms(2)] in auto)
qed

lemma stralloc_readyplus_room:
  assumes "sa_is sa w" "length w + unat n < sa_max"
  shows "sa_out al sa (stralloc_readyplus al sa n) (\<lambda>sa'. sa_room sa' w (length w + unat n))"
proof (cases "sa_s sa")
  case None
  then have "w = []" using assms by (auto simp: sa_is_def sa_text_def sa_mem_def)
  then show ?thesis using None stralloc_ready_room[OF assms(1), of n al] assms
    by (simp add: stralloc_readyplus_def)
next
  case (Some m)
  have u: "unat (sa_len sa + n) = length w + unat n"
    using assms sa_is_len[OF assms(1)] by (subst unat_add_small) (simp_all add: sa_max_def)
  then have "\<not> sa_len sa + n < n" by (simp add: word_less_nat_alt)
  then show ?thesis using Some stralloc_ready_room[OF assms(1), of "sa_len sa + n" al] assms u
    by (simp add: stralloc_readyplus_def)
qed

subsection \<open>Copying and appending are right\<close>

lemma take_splice_end:
  "p + length x \<le> length m \<Longrightarrow> take (p + length x) (splice m p x) = take p m @ x"
  by (simp add: splice_def)

lemma sa_room_append:
  assumes "sa_room sa w (length w + length x)" "unat l = length w + length x"
  shows "sa_is ((sa_store sa (splice (sa_mem sa) (length w) x))\<lparr>sa_len := l\<rparr>) (w @ x)"
  using assms(1)
proof (rule sa_is_updI)
  have le: "length w + length x \<le> length (sa_mem sa)" by (rule sa_room_mem) fact
  then show "length (splice (sa_mem sa) (length w) x) = length (sa_mem sa)" by simp
  show "take (unat l) (splice (sa_mem sa) (length w) x) = w @ x"
    using take_splice_end[OF le] sa_is_text[OF sa_room_is[OF assms(1)]] by (simp add: assms(2))
qed (simp add: assms(2))

lemma sa_store_len [simp]: "sa_store (sa\<lparr>sa_len := n\<rparr>) m = (sa_store sa m)\<lparr>sa_len := n\<rparr>"
  by (simp add: sa_store_def)

lemma sa_store_same [simp]: "(sa_store sa m)\<lparr>sa_len := sa_len sa\<rparr> = sa_store sa m"
  by (cases sa) (simp add: sa_store_def)

lemma sa_out_then:
  assumes "sa_out al sa r P" "\<And>sa'. P sa' \<Longrightarrow> sa_out al sa (g sa') Q"
  shows "sa_out al sa (do { (ok, sa') \<leftarrow> r; if ok then g sa' else Some (False, sa') }) Q"
    "sa_out al sa (do { (ok, sa') \<leftarrow> r; if \<not> ok then Some (False, sa') else g sa' }) Q"
  using assms by (auto intro!: sa_out_bind[OF assms(1)])

lemma stralloc_catb_out:
  assumes "sa_is sa w" "unat n \<le> length buf" "length w + unat n < sa_max"
  shows "sa_out al sa (stralloc_catb al sa buf n) (\<lambda>sa'. sa_is sa' (w @ take (unat n) buf))"
  unfolding stralloc_catb_def
proof (rule sa_out_then[OF stralloc_readyplus_room[OF assms(1,3)]], goal_cases)
  case (1 sa')
  have len: "unat (sa_len sa') = length w" using 1 by (simp add: sa_room_is sa_is_len)
  then have l: "unat (sa_len sa' + n) = length w + unat n"
    using assms(3) by (subst unat_add_small) (simp_all add: sa_max_def)
  have "byte_copy (sa_mem sa') (length w) (unat n) buf 0 =
      Some (splice (sa_mem sa') (length w) (take (unat n) buf))"
    using byte_copy_eq[of "length w" "unat n" "sa_mem sa'" 0 buf] assms(2) sa_room_mem[OF 1] by simp
  moreover have "sa_is ((sa_store sa' (splice (sa_mem sa') (length w) (take (unat n) buf)))
      \<lparr>sa_len := sa_len sa' + n\<rparr>) (w @ take (unat n) buf)"
    by (rule sa_room_append) (use 1 l assms(2) in simp_all)
  ultimately show ?case by (simp add: len sa_out_ok)
qed

lemma stralloc_copyb_out:
  assumes "sa_is sa w" "unat n \<le> length buf" "unat n < sa_max"
  shows "sa_out al sa (stralloc_copyb al sa buf n) (\<lambda>sa'. sa_is sa' (take (unat n) buf))"
  unfolding stralloc_copyb_def
proof (rule sa_out_then[OF stralloc_ready_room[OF assms(1,3)]], goal_cases)
  case (1 sa')
  have mem: "unat n \<le> length (sa_mem sa')" by (rule sa_room_mem) fact
  have "byte_copy (sa_mem sa') 0 (unat n) buf 0 = Some (splice (sa_mem sa') 0 (take (unat n) buf))"
    using byte_copy_eq[of 0 "unat n" "sa_mem sa'" 0 buf] assms(2) mem by simp
  moreover have "sa_is ((sa_store sa' (splice (sa_mem sa') 0 (take (unat n) buf)))\<lparr>sa_len := n\<rparr>)
      (take (unat n) buf)"
    by (rule sa_is_updI[OF 1]) (use mem assms(2) in \<open>simp_all add: splice_def\<close>)
  ultimately show ?case by (simp add: sa_out_ok)
qed

text \<open>One byte at the end.\<close>

lemma sa_room_snoc:
  assumes "sa_room sa w (Suc (length w))" "Suc (length w) < sa_max"
  shows "\<exists>m. wr (sa_mem sa) (unat (sa_len sa)) c = Some m \<and>
           sa_is ((sa_store sa m)\<lparr>sa_len := sa_len sa + 1\<rparr>) (w @ [c])"
proof -
  have len: "unat (sa_len sa) = length w" using assms by (simp add: sa_room_is sa_is_len)
  then have l: "unat (sa_len sa + 1) = length w + length [c]"
    using assms(2) by (subst unat_add_small) (simp_all add: sa_max_def)
  have mem: "Suc (length w) \<le> length (sa_mem sa)" by (rule sa_room_mem) fact
  have "wr (sa_mem sa) (unat (sa_len sa)) c = Some (splice (sa_mem sa) (length w) [c])"
    using mem list_update_snoc_splice[of "length w" "[]" "sa_mem sa" c] by (simp add: len)
  then show ?thesis using sa_room_append[of sa w "[c]", OF _ l] assms by simp
qed

lemma stralloc_append_out:
  assumes "sa_is sa w" "src \<noteq> []" "Suc (length w) < sa_max"
  shows "sa_out al sa (stralloc_append al sa src) (\<lambda>sa'. sa_is sa' (w @ [hd src]))"
proof -
  have u: "length w + unat (1 :: uint64) < sa_max" using assms by simp
  have x: "rd src 0 = Some (hd src)" using assms by (simp add: hd_conv_nth)
  show ?thesis unfolding stralloc_append_def
  proof (rule sa_out_then[OF stralloc_readyplus_room[OF assms(1) u]], goal_cases)
    case (1 sa')
    then show ?case using sa_room_snoc[of sa' w "hd src"] assms x by (auto simp: sa_out_ok)
  qed
qed

lemma stralloc_catc_out:
  assumes "sa_is sa w" "Suc (length w) < sa_max"
  shows "sa_out al sa (stralloc_catc al sa c) (\<lambda>sa'. sa_is sa' (w @ [c]))"
proof -
  have u: "unat (sa_len sa + 1) = Suc (length w)"
    using assms sa_is_len[OF assms(1)] by (subst unat_add_small) (simp_all add: sa_max_def)
  show ?thesis unfolding stralloc_catc_def
  proof (rule sa_out_then[OF stralloc_ready_room[OF assms(1)]], goal_cases)
    case (2 sa')
    then show ?case using sa_room_snoc[of sa' w c] assms u by (auto simp: sa_out_ok)
  qed (use u assms in simp)
qed

text \<open>\<open>stralloc_nul\<close> makes the text a C string and does not count the terminator.\<close>

lemma stralloc_nul_out:
  assumes "sa_is sa w" "Suc (length w) < sa_max"
  shows "sa_out al sa (stralloc_nul al sa) (\<lambda>sa'. sa_is sa' w \<and> (\<exists>r. sa_mem sa' = cstr w r))"
proof -
  have u: "length w + unat (1 :: uint64) < sa_max" using assms by simp
  show ?thesis unfolding stralloc_nul_def
  proof (rule sa_out_then[OF stralloc_readyplus_room[OF assms(1) u]], goal_cases)
    case (1 sa')
    have len: "unat (sa_len sa') = length w" using 1 by (simp add: sa_room_is sa_is_len)
    have mem: "Suc (length w) \<le> length (sa_mem sa')" using sa_room_mem[OF 1] by simp
    obtain r where r: "sa_mem sa' = w @ r" using sa_is_mem[OF sa_room_is[OF 1]] by blast
    with mem obtain x r' where x: "sa_mem sa' = w @ x # r'" by (cases r) auto
    let ?m = "(sa_mem sa')[length w := 0]"
    have "wr (sa_mem sa') (unat (sa_len sa')) 0 = Some ?m" using mem by (simp add: len)
    moreover have "sa_is ((sa_store sa' ?m)\<lparr>sa_len := sa_len sa'\<rparr>) w"
      using 1 by (rule sa_is_updI) (use x len in simp_all)
    moreover have "sa_mem (sa_store sa' ?m) = cstr w r'"
      using 1 x by (auto simp: sa_mem_def sa_room_def cstr_def)
    ultimately show ?case by (auto intro!: sa_out_ok)
  qed
qed

subsection \<open>Strings as sinks\<close>

lemma unat_of_nat_sa: "n < sa_max \<Longrightarrow> unat (of_nat n :: uint64) = n"
  by (simp add: unat_of_nat sa_max_def)

interpretation sa_sink: byte_sink sa_is "\<lambda>sa b n. stralloc_catb al sa b (of_nat n)" sa_max "\<lambda>_. grants al"
  for al
proof
  fix sa w n and buf :: "byte list"
  assume a: "sa_is sa w" "n \<le> length buf" "length w + n < sa_max"
  then have n: "unat (of_nat n :: uint64) = n" by (simp add: unat_of_nat_sa)
  then have "sa_out al sa (stralloc_catb al sa buf (of_nat n)) (\<lambda>sa'. sa_is sa' (w @ take n buf))"
    using stralloc_catb_out[OF a(1), of "of_nat n" buf al] a by simp
  then show "\<exists>ok s' w'. stralloc_catb al sa buf (of_nat n) = Some (ok, s') \<and> sa_is s' w' \<and>
      (ok \<longrightarrow> w' = w @ take n buf) \<and> (grants al \<longrightarrow> ok \<and> grants al)"
    using a(1) by (fastforce simp: sa_out_def split: if_splits)
qed

lemma stralloc_cats_puts: "stralloc_cats al = sa_sink.puts al"
  by (simp add: stralloc_cats_def sa_sink.puts_def fun_eq_iff)

lemma catm_loop_putm: "catm_loop al sa ss = sa_sink.putm al sa ss"
  by (induction ss arbitrary: sa)
    (auto simp: stralloc_cats_puts intro!: Option.bind_cong split: prod.splits)

lemma stralloc_cats_out:
  assumes "sa_is sa w" "nonul x" "length w + length x < sa_max"
  shows "sa_out al sa (stralloc_cats al sa (cstr x r)) (\<lambda>sa'. sa_is sa' (w @ x))"
proof -
  have "unat (of_nat (length x) :: uint64) = length x" using assms by (simp add: unat_of_nat_sa)
  then show ?thesis using stralloc_catb_out[OF assms(1), of "of_nat (length x)" "cstr x r" al] assms
    by (simp add: stralloc_cats_def take_cstr)
qed

lemma stralloc_copys_out:
  assumes "sa_is sa w" "nonul x" "length x < sa_max"
  shows "sa_out al sa (stralloc_copys al sa (cstr x r)) (\<lambda>sa'. sa_is sa' x)"
proof -
  have "unat (of_nat (length x) :: uint64) = length x" using assms by (simp add: unat_of_nat_sa)
  then show ?thesis using stralloc_copyb_out[OF assms(1), of "of_nat (length x)" "cstr x r" al] assms
    by (simp add: stralloc_copys_def take_cstr)
qed

lemma stralloc_cat_out:
  assumes "sa_is sa w" "sa_is sa2 x" "length w + length x < sa_max"
  shows "sa_out al sa (stralloc_cat al sa sa2) (\<lambda>sa'. sa_is sa' (w @ x))"
  using stralloc_catb_out[OF assms(1), of "sa_len sa2" "sa_mem sa2" al] assms
    sa_is_len[OF assms(2)] sa_is_le_mem[OF assms(2)] sa_is_text[OF assms(2)]
  by (simp add: stralloc_cat_def)

lemma stralloc_copy_out:
  assumes "sa_is sa w" "sa_is sa2 x" "length x < sa_max"
  shows "sa_out al sa (stralloc_copy al sa sa2) (\<lambda>sa'. sa_is sa' x)"
  using stralloc_copyb_out[OF assms(1), of "sa_len sa2" "sa_mem sa2" al] assms
    sa_is_len[OF assms(2)] sa_is_le_mem[OF assms(2)] sa_is_text[OF assms(2)]
  by (simp add: stralloc_copy_def)

lemma catm_total_eq:
  "list_all nonul xs \<Longrightarrow> catm_total (map (\<lambda>x. cstr x []) xs) n = Some (n + of_nat (length (concat xs)))"
  by (induction xs arbitrary: n) auto

lemma stralloc_catm_out:
  assumes "sa_is sa w" "list_all nonul xs" "length w + length (concat xs) < sa_max"
  shows "\<exists>ok sa' w'. stralloc_catm_internal al sa (map (\<lambda>x. cstr x []) xs) = Some (ok, sa') \<and>
           sa_is sa' w' \<and> (ok \<longrightarrow> w' = w @ concat xs) \<and> (grants al \<longrightarrow> ok)"
proof -
  let ?n = "of_nat (length (concat xs)) :: uint64"
  have n: "unat ?n = length (concat xs)" using assms by (simp add: unat_of_nat_sa)
  obtain ok sa1 where r: "stralloc_readyplus al sa ?n = Some (ok, sa1)" "sa_is sa1 w"
    using stralloc_readyplus_room[OF assms(1), of ?n al] n assms
    by (auto simp: sa_out_def sa_room_def split: if_splits)
  show ?thesis
    using sa_sink.putm_law[OF r(2) assms(2,3), of al] r(1) catm_total_eq[OF assms(2), of 0]
    by (simp add: stralloc_catm_internal_def catm_loop_putm)
qed

subsection \<open>The other operations on a whole string\<close>

lemma stralloc_init_is: "sa_is (stralloc_init sa) []"
  by (simp add: sa_is_def sa_wf_def sa_text_def sa_mem_def stralloc_init_def)

lemma stralloc_zero_is: "sa_is sa w \<Longrightarrow> sa_is (stralloc_zero sa) []"
  by (auto simp: sa_is_def sa_wf_def sa_text_def sa_mem_def stralloc_zero_def split: option.splits)

lemma stralloc_erase_out:
  assumes "sa_is sa w"
  shows "sa_out al sa (stralloc_erase al sa) (\<lambda>sa'. sa_is sa' [])"
proof -
  have u: "unat (1 :: uint64) < sa_max" by (simp add: sa_max_def)
  show ?thesis unfolding stralloc_erase_def
  proof (rule sa_out_then[OF stralloc_ready_room[OF assms u]], goal_cases)
    case (1 sa')
    have "sa_is ((sa_store sa' ((sa_mem sa')[0 := 0x5a]))\<lparr>sa_len := 0\<rparr>) []"
      by (rule sa_is_updI[OF 1]) simp_all
    moreover have "wr (sa_mem sa') 0 0x5a = Some ((sa_mem sa')[0 := 0x5a])"
      using sa_room_mem[OF 1] by (intro wr_in) (simp add: Suc_le_eq)
    ultimately show ?case by (simp add: sa_out_ok)
  qed
qed

lemma stralloc_move_eq: "stralloc_move to from = (from, stralloc_init from)"
  by (simp add: stralloc_move_def Let_def stralloc_free_def)

text \<open>
  \<open>stralloc_shrink\<close> keeps a text that is not empty; the block it leaves is exactly as long as
  the text.
\<close>

lemma stralloc_shrink_is:
  assumes "sa_is sa w" "w \<noteq> []" "stralloc_shrink al sa = (True, sa')"
  shows "sa_is sa' w \<and> sa_a sa' = sa_len sa"
proof (cases "sa_a sa > sa_len sa")
  case True
  then obtain m where m: "realloc al (sa_mem sa) (unat (sa_len sa)) = Some m"
      "sa' = sa\<lparr>sa_s := Some m, sa_a := sa_len sa\<rparr>"
    using assms(3) by (auto simp: stralloc_shrink_def split: option.splits)
  have len: "unat (sa_len sa) = length w" by (rule sa_is_len) fact
  have "take (min (length w) (length (sa_mem sa))) m = take (length w) (sa_mem sa)"
    using realloc_Some[OF m(1)] len by simp
  then have "take (length w) m = w"
    using sa_is_le_mem[OF assms(1)] sa_is_text[OF assms(1)] by (simp add: min_absorb1)
  moreover have "0 < sa_len sa" using len assms(2) by (metis length_greater_0_conv unat_gt_0 word_gt_0)
  ultimately show ?thesis using realloc_Some[OF m(1)] len m(2)
    by (simp add: sa_is_def sa_wf_def sa_text_def sa_mem_def)
next
  case False
  obtain m where "sa_s sa = Some m" using assms(1,2) by (cases "sa_s sa") (auto simp: sa_is_def sa_text_def sa_mem_def)
  then show ?thesis using False assms by (auto simp: stralloc_shrink_def sa_is_def sa_wf_def)
qed

subsection \<open>Properties\<close>

text \<open>
  \<open>stralloc_catb\<close> appends: on a string that holds \<open>w\<close> it either stores the bytes behind
  \<open>w\<close>, inside the string's object, or reports that memory ran out and leaves the string as it
  was; it never reports that when the allocator meets every request.
\<close>
theorem stralloc_catb_appends:
  assumes "sa_is sa w" "unat n \<le> length buf" "length w + unat n < sa_max"
  shows "\<exists>ok sa'. stralloc_catb al sa buf n = Some (ok, sa') \<and>
           (if ok then sa_is sa' (w @ take (unat n) buf) else sa' = sa) \<and> (grants al \<longrightarrow> ok)"
  using stralloc_catb_out[OF assms] by (simp only: sa_out_def)

theorem stralloc_catb_appends_witness:
  "\<exists>ok sa'. stralloc_catb (\<lambda>n. Some []) \<lparr>sa_s = None, sa_len = 0, sa_a = 0\<rparr> [97, 98] 2 = Some (ok, sa') \<and>
     (if ok then sa_is sa' ([] @ take (unat (2 :: uint64)) [97, 98]) else sa' = \<lparr>sa_s = None, sa_len = 0, sa_a = 0\<rparr>) \<and>
     (grants (\<lambda>n. Some []) \<longrightarrow> ok)"
  by (rule stralloc_catb_appends) (simp_all add: sa_is_def sa_wf_def sa_text_def sa_mem_def sa_max_def)

text \<open>
  \<open>stralloc_catm\<close> appends all of its strings, without their terminators, when it returns 1,
  and it does so whenever memory does not run out.
\<close>
theorem stralloc_catm_appends:
  assumes "sa_is sa w" "list_all nonul xs" "length w + length (concat xs) < sa_max"
  shows "\<exists>ok sa' w'. stralloc_catm_internal al sa (map (\<lambda>x. cstr x []) xs) = Some (ok, sa') \<and>
           sa_is sa' w' \<and> (ok \<longrightarrow> w' = w @ concat xs) \<and> (grants al \<longrightarrow> ok)"
  by (rule stralloc_catm_out) fact+

theorem stralloc_catm_appends_witness:
  "\<exists>ok sa' w'. stralloc_catm_internal (\<lambda>n. Some []) \<lparr>sa_s = None, sa_len = 0, sa_a = 0\<rparr>
       [[97, 0], [98, 99, 0]] = Some (ok, sa') \<and>
     sa_is sa' w' \<and> (ok \<longrightarrow> w' = [97, 98, 99]) \<and> ok"
  using stralloc_catm_appends[of "\<lparr>sa_s = None, sa_len = 0, sa_a = 0\<rparr>" "[]" "[[97], [98, 99]]" "\<lambda>n. Some []"]
  by (simp add: sa_is_def sa_wf_def sa_text_def sa_mem_def sa_max_def grants_def)

text \<open>
  \<open>stralloc_trunc\<close> shrinks the object and leaves \<open>a\<close> as it was, so that the next append
  that fits into the old \<open>a\<close> writes outside the object: a string of 10 bytes cut to 2 and
  extended by 8 is undefined behaviour.
\<close>
theorem stralloc_trunc_then_append_overruns:
  "(do { (_, sa) \<leftarrow> stralloc_copyb (\<lambda>n. Some []) \<lparr>sa_s = None, sa_len = 0, sa_a = 0\<rparr> (replicate 10 97) 10;
         (_, sa) \<leftarrow> stralloc_trunc (\<lambda>n. Some []) sa 2;
         stralloc_catb (\<lambda>n. Some []) sa (replicate 8 98) 8 }) = None"
  by code_simp

text \<open>
  A string that borrows its text (\<open>a\<close> is 0, \<open>s\<close> is not \<open>NULL\<close>) cannot be extended
  past its object: to move it into memory of its own \<open>stralloc_ready\<close> copies as many bytes as
  are asked for, not as many as there are.
\<close>
theorem stralloc_ready_borrowed_overreads:
  assumes "sa_s sa = Some m" "sa_a sa = 0" "length m < unat n" "grants al"
  shows "stralloc_ready al sa n = None"
proof -
  obtain b where "malloc al (unat (n + drop_bit 3 n + 30)) = Some b" using assms(4) grants_malloc(1) by blast
  moreover have "0 < n" using assms(3) by (simp add: word_less_nat_alt)
  ultimately show ?thesis using assms byte_copy_overrun[of b 0 "unat n" m 0]
    by (simp add: stralloc_ready_def Let_def)
qed

theorem stralloc_ready_borrowed_overreads_witness:
  "stralloc_ready (\<lambda>n. Some []) \<lparr>sa_s = Some [97, 0], sa_len = 1, sa_a = 0\<rparr> 5 = None"
  by (rule stralloc_ready_borrowed_overreads[of _ "[97, 0]"]) (simp_all add: grants_def)

subsection \<open>With memory always granted\<close>

text \<open>The operations an allocator that never refuses gives.\<close>

lemma sa_granted:
  assumes "grants al" "sa_out al sa r P"
  shows "\<exists>sa'. r = Some (True, sa') \<and> P sa'"
  using assms by (auto simp: sa_out_def)

lemma cats_granted:
  assumes "grants al" "sa_is sa w" "nonul x" "length w + length x < sa_max"
  shows "\<exists>sa'. stralloc_cats al sa (cstr x r) = Some (True, sa') \<and> sa_is sa' (w @ x)"
  using sa_granted[OF assms(1) stralloc_cats_out[OF assms(2-)]] .

lemma catb_granted:
  assumes "grants al" "sa_is sa w" "length w + length x < sa_max"
  shows "\<exists>sa'. stralloc_catb al sa (x @ r) (of_nat (length x)) = Some (True, sa') \<and> sa_is sa' (w @ x)"
proof -
  have "unat (of_nat (length x) :: uint64) = length x" using assms(3) by (simp add: unat_of_nat_sa)
  then show ?thesis using sa_granted[OF assms(1) stralloc_catb_out[OF assms(2), of "of_nat (length x)" "x @ r"]] assms(3)
    by simp
qed

lemma catc_granted:
  assumes "grants al" "sa_is sa w" "Suc (length w) < sa_max"
  shows "\<exists>sa'. stralloc_catc al sa c = Some (True, sa') \<and> sa_is sa' (w @ [c])"
  using sa_granted[OF assms(1) stralloc_catc_out[OF assms(2-)]] .

lemma nul_granted:
  assumes "grants al" "sa_is sa w" "Suc (length w) < sa_max"
  shows "\<exists>sa'. stralloc_nul al sa = Some (True, sa') \<and> sa_is sa' w \<and> (\<exists>r. sa_mem sa' = cstr w r)"
  using sa_granted[OF assms(1) stralloc_nul_out[OF assms(2-)]] .

lemma copyb_granted:
  assumes "grants al" "sa_is sa w" "length x < sa_max"
  shows "\<exists>sa'. stralloc_copyb al sa (x @ r) (of_nat (length x)) = Some (True, sa') \<and> sa_is sa' x"
proof -
  have "unat (of_nat (length x) :: uint64) = length x" using assms(3) by (simp add: unat_of_nat_sa)
  then show ?thesis using sa_granted[OF assms(1) stralloc_copyb_out[OF assms(2), of "of_nat (length x)" "x @ r"]] assms(3)
    by simp
qed

end
