(* ===== verification/StrallocEdit.thy ===== *)
theory StrallocEdit
  imports Stralloc
begin

text \<open>
  Editing a dynamic string in place (\<open>src/lib/stralloc\<close>): inserting, removing and replacing
  parts, cutting its end, reversing it and mapping its bytes.  Moves inside the string's object are the
  overlapping copies of \<open>byte_copy\<close> and \<open>byte_copyr\<close>.
\<close>

subsection \<open>Inserting and removing\<close>

definition stralloc_insertb ::
  "allocator \<Rightarrow> stralloc \<Rightarrow> byte list \<Rightarrow> uint64 \<Rightarrow> uint64 \<Rightarrow> (bool \<times> stralloc) option" where
  "stralloc_insertb al sa s pos n =
     (if pos \<ge> sa_len sa then stralloc_catb al sa s n
      else do { (ok, sa) \<leftarrow> stralloc_readyplus al sa n;
                if \<not> ok then Some (False, sa)
                else do { m \<leftarrow> byte_copyr_within (sa_mem sa) (unat (pos + n)) (unat (sa_len sa - pos)) (unat pos);
                          m \<leftarrow> byte_copy m (unat pos) (unat n) s 0;
                          Some (True, (sa_store sa m)\<lparr>sa_len := sa_len sa + n\<rparr>) } })"

definition stralloc_inserts ::
  "allocator \<Rightarrow> stralloc \<Rightarrow> byte list \<Rightarrow> uint64 \<Rightarrow> (bool \<times> stralloc) option" where
  "stralloc_inserts al sa s pos = do { n \<leftarrow> str_len s; stralloc_insertb al sa s pos (of_nat n) }"

definition stralloc_insert ::
  "allocator \<Rightarrow> stralloc \<Rightarrow> stralloc \<Rightarrow> uint64 \<Rightarrow> (bool \<times> stralloc) option" where
  "stralloc_insert al sa other pos = stralloc_insertb al sa (sa_mem other) pos (sa_len other)"

definition stralloc_prependb ::
  "allocator \<Rightarrow> stralloc \<Rightarrow> byte list \<Rightarrow> uint64 \<Rightarrow> (bool \<times> stralloc) option" where
  "stralloc_prependb al sa s n = stralloc_insertb al sa s 0 n"

definition stralloc_prepends :: "allocator \<Rightarrow> stralloc \<Rightarrow> byte list \<Rightarrow> (bool \<times> stralloc) option" where
  "stralloc_prepends al sa s = do { n \<leftarrow> str_len s; stralloc_prependb al sa s (of_nat n) }"

definition stralloc_prepend :: "allocator \<Rightarrow> stralloc \<Rightarrow> stralloc \<Rightarrow> (bool \<times> stralloc) option" where
  "stralloc_prepend al sa other = stralloc_prependb al sa (sa_mem other) (sa_len other)"

definition stralloc_remove :: "stralloc \<Rightarrow> uint64 \<Rightarrow> uint64 \<Rightarrow> (uint64 \<times> stralloc) option" where
  "stralloc_remove sa pos n =
     (if pos + 1 > sa_len sa then Some (-1, sa)
      else if pos + n \<ge> sa_len sa then Some (sa_len sa - pos, sa\<lparr>sa_len := pos\<rparr>)
      else do { m \<leftarrow> byte_copy_within (sa_mem sa) (unat pos) (unat (sa_len sa - (pos + n))) (unat (pos + n));
                Some (n, (sa_store sa m)\<lparr>sa_len := sa_len sa - n\<rparr>) })"

text \<open>
  The part both replacing routines share: the text behind the replaced piece moves, then the new piece
  is stored.  A failed \<open>assert\<close> ends the program; here it is \<open>None\<close>.
\<close>

definition replace_piece :: "stralloc \<Rightarrow> nat \<Rightarrow> nat \<Rightarrow> byte list \<Rightarrow> nat \<Rightarrow> stralloc option" where
  "replace_piece sa p len to tolen =
     (let rest = unat (sa_len sa) - p - len
      in do { sa \<leftarrow>
                (if len < tolen then
                   do { m \<leftarrow> byte_copyr_within (sa_mem sa) (p + tolen) rest (p + len);
                        Some ((sa_store sa m)\<lparr>sa_len := sa_len sa + of_nat (tolen - len)\<rparr>) }
                 else if len > tolen then
                   do { m \<leftarrow> byte_copy_within (sa_mem sa) (p + tolen) rest (p + len);
                        Some ((sa_store sa m)\<lparr>sa_len := sa_len sa - of_nat (len - tolen)\<rparr>) }
                 else Some sa);
              if tolen \<noteq> 0 then do { m \<leftarrow> byte_copy (sa_mem sa) p tolen to 0; Some (sa_store sa m) }
              else Some sa })"

definition stralloc_replace ::
  "allocator \<Rightarrow> stralloc \<Rightarrow> uint64 \<Rightarrow> uint64 \<Rightarrow> byte list \<Rightarrow> uint64 \<Rightarrow> (bool \<times> stralloc) option" where
  "stralloc_replace al sa pos len to tolen =
     (if \<not> pos + len \<le> sa_len sa then None
      else do { (ok, sa) \<leftarrow> (if tolen > len then stralloc_readyplus al sa (tolen - len) else Some (True, sa));
                if \<not> ok then Some (False, sa)
                else map_option (Pair True) (replace_piece sa (unat pos) (unat len) to (unat tolen)) })"

text \<open>
  The loop of \<open>stralloc_replaces\<close> does not end for an empty \<open>from\<close> while memory lasts.
\<close>

partial_function (option) replaces_loop ::
  "allocator \<Rightarrow> stralloc \<Rightarrow> byte list \<Rightarrow> nat \<Rightarrow> byte list \<Rightarrow> nat \<Rightarrow> nat \<Rightarrow> (bool \<times> stralloc) option" where
  "replaces_loop al sa from flen to tlen p =
     (if p < unat (sa_len sa) then
        do { i \<leftarrow> byte_findb (drop p (sa_mem sa)) (unat (sa_len sa) - p) from flen;
             let p = p + i;
             if p = unat (sa_len sa) then Some (True, sa)
             else
               do { (ok, sa) \<leftarrow> (if tlen > flen then stralloc_readyplus al sa (of_nat (tlen - flen)) else Some (True, sa));
                    if \<not> ok then Some (False, sa)
                    else do { sa \<leftarrow> replace_piece sa p flen to tlen;
                              replaces_loop al sa from flen to tlen (p + tlen) } } }
      else Some (True, sa))"

definition stralloc_replaces ::
  "allocator \<Rightarrow> stralloc \<Rightarrow> byte list \<Rightarrow> byte list \<Rightarrow> (bool \<times> stralloc) option" where
  "stralloc_replaces al sa from to =
     do { flen \<leftarrow> str_len from; tlen \<leftarrow> str_len to; replaces_loop al sa from flen to tlen 0 }"

partial_function (option) subst_loop ::
  "allocator \<Rightarrow> stralloc \<Rightarrow> byte list \<Rightarrow> nat \<Rightarrow> nat \<Rightarrow> byte list \<Rightarrow> nat \<Rightarrow> byte list \<Rightarrow> (bool \<times> stralloc) option" where
  "subst_loop al out b len i from plen to =
     (if i < len then
        do { hit \<leftarrow> (if i + plen \<le> len then byte_equal from plen (drop i b) else Some False);
             if hit then
               do { (ok, out) \<leftarrow> stralloc_cats al out to;
                    if \<not> ok then Some (False, out) else subst_loop al out b len (i + plen) from plen to }
             else
               do { (ok, out) \<leftarrow> stralloc_append al out (drop i b);
                    if \<not> ok then Some (False, out) else subst_loop al out b len (Suc i) from plen to } }
      else Some (True, out))"

definition stralloc_subst ::
  "allocator \<Rightarrow> stralloc \<Rightarrow> byte list \<Rightarrow> nat \<Rightarrow> byte list \<Rightarrow> byte list \<Rightarrow> (bool \<times> stralloc) option" where
  "stralloc_subst al out b len from to =
     do { plen \<leftarrow> str_len from; subst_loop al out b len 0 from plen to }"

fun remove_all_loop :: "byte list \<Rightarrow> nat \<Rightarrow> nat \<Rightarrow> nat \<Rightarrow> byte list \<Rightarrow> nat \<Rightarrow> (byte list \<times> nat) option" where
  "remove_all_loop m t x 0 delchars dlen = Some (m, t)"
| "remove_all_loop m t x (Suc i) delchars dlen =
     do { c \<leftarrow> rd m x;
          k \<leftarrow> byte_chr delchars dlen c;
          if k = dlen then do { m \<leftarrow> wr m t c; remove_all_loop m (Suc t) (Suc x) i delchars dlen }
          else remove_all_loop m t (Suc x) i delchars dlen }"

definition stralloc_remove_all :: "stralloc \<Rightarrow> byte list \<Rightarrow> nat \<Rightarrow> stralloc option" where
  "stralloc_remove_all sa delchars dlen =
     (if sa_s sa = None then Some sa
      else do { (m, t) \<leftarrow> remove_all_loop (sa_mem sa) 0 0 (unat (sa_len sa)) delchars dlen;
                Some ((sa_store sa m)\<lparr>sa_len := of_nat t\<rparr>) })"

subsection \<open>Cutting the end\<close>

definition stralloc_chop :: "stralloc \<Rightarrow> (int \<times> stralloc) option" where
  "stralloc_chop sa =
     (if sa_len sa = 0 then Some (-1, sa)
      else let sa = sa\<lparr>sa_len := sa_len sa - 1\<rparr>
           in do { c \<leftarrow> rd (sa_mem sa) (unat (sa_len sa)); Some (uint c, sa) })"

definition stralloc_chomp :: "stralloc \<Rightarrow> (nat \<times> stralloc) option" where
  "stralloc_chomp sa =
     (let max = sa_len sa
      in if max > 0 then
           let max = max - 1
           in do { x \<leftarrow> rd (sa_mem sa) (unat max);
                   if x = 10 \<or> x = 13 then
                     do { crlf \<leftarrow> (if x = 10 \<and> max > 1
                                     then map_option (\<lambda>y. y = 13) (rd (sa_mem sa) (unat (max - 1))) else Some False);
                          if crlf then Some (2, sa\<lparr>sa_len := sa_len sa - 2\<rparr>)
                          else Some (1, sa\<lparr>sa_len := sa_len sa - 1\<rparr>) }
                   else Some (0, sa) }
         else Some (0, sa))"

definition stralloc_trimr :: "stralloc \<Rightarrow> byte list \<Rightarrow> nat \<Rightarrow> stralloc option" where
  "stralloc_trimr sa trimchars n =
     (if sa_s sa = None then Some sa
      else do { l \<leftarrow> byte_trimr (sa_mem sa) (unat (sa_len sa)) trimchars n; Some (sa\<lparr>sa_len := of_nat l\<rparr>) })"

definition stralloc_endb :: "stralloc \<Rightarrow> byte list \<Rightarrow> uint64 \<Rightarrow> bool option" where
  "stralloc_endb sa x len =
     (if sa_len sa \<ge> len then byte_equal (drop (unat (sa_len sa - len)) (sa_mem sa)) (unat len) x
      else Some False)"

definition stralloc_removesuffixb :: "stralloc \<Rightarrow> byte list \<Rightarrow> uint64 \<Rightarrow> (bool \<times> stralloc) option" where
  "stralloc_removesuffixb sa x len =
     do { e \<leftarrow> (if len \<noteq> 0 then stralloc_endb sa x len else Some False);
          if e then Some (True, sa\<lparr>sa_len := sa_len sa - len\<rparr>) else Some (False, sa) }"

definition stralloc_removesuffixs :: "stralloc \<Rightarrow> byte list \<Rightarrow> (bool \<times> stralloc) option" where
  "stralloc_removesuffixs sa x = do { n \<leftarrow> str_len x; stralloc_removesuffixb sa x (of_nat n) }"

subsection \<open>Reversing and mapping\<close>

primrec reverse_loop :: "nat \<Rightarrow> byte list \<Rightarrow> nat \<Rightarrow> nat \<Rightarrow> byte list option" where
  "reverse_loop 0 s len i = Some s"
| "reverse_loop (Suc n) s len i =
     do { tmp \<leftarrow> rd s i; y \<leftarrow> rd s (len - 1 - i);
          s \<leftarrow> wr s i y; s \<leftarrow> wr s (len - 1 - i) tmp;
          reverse_loop n s len (Suc i) }"

definition stralloc_reverse :: "stralloc \<Rightarrow> stralloc option" where
  "stralloc_reverse sa =
     map_option (sa_store sa) (reverse_loop (unat (drop_bit 1 (sa_len sa))) (sa_mem sa) (unat (sa_len sa)) 0)"

definition stralloc_lower :: "stralloc \<Rightarrow> stralloc option" where
  "stralloc_lower sa = map_option (sa_store sa) (byte_lower (sa_mem sa) (unat (sa_len sa)))"

definition stralloc_upper :: "stralloc \<Rightarrow> stralloc option" where
  "stralloc_upper sa = map_option (sa_store sa) (byte_upper (sa_mem sa) (unat (sa_len sa)))"

definition stralloc_replacec :: "stralloc \<Rightarrow> byte \<Rightarrow> byte \<Rightarrow> stralloc option" where
  "stralloc_replacec sa before after =
     map_option (sa_store sa) (byte_replace (sa_mem sa) (unat (sa_len sa)) before after)"

text \<open>\<open>isprint\<close> of the C locale, on a \<open>char\<close> that may be negative.\<close>

definition isprint :: "byte \<Rightarrow> bool" where
  "isprint c \<longleftrightarrow> 0x20 \<le> c \<and> c \<le> 0x7e"

fun non_printable_loop :: "byte list \<Rightarrow> nat \<Rightarrow> nat \<Rightarrow> byte \<Rightarrow> byte list option" where
  "non_printable_loop s i 0 ch = Some s"
| "non_printable_loop s i (Suc k) ch =
     do { c \<leftarrow> rd s i;
          s \<leftarrow> (if \<not> isprint c then wr s i ch else Some s);
          non_printable_loop s (Suc i) k ch }"

text \<open>The counter is an \<open>unsigned int\<close>: it never reaches a length of \<open>2^32\<close> or more.\<close>

definition stralloc_replace_non_printable :: "stralloc \<Rightarrow> byte \<Rightarrow> stralloc option" where
  "stralloc_replace_non_printable sa ch =
     (if 2 ^ 32 \<le> unat (sa_len sa) then None
      else map_option (sa_store sa) (non_printable_loop (sa_mem sa) 0 (unat (sa_len sa)) ch))"

subsection \<open>Edits inside the text\<close>

lemma sa_is_editI:
  assumes "sa_is sa w" "length m = length (sa_mem sa)" "unat l \<le> length w" "take (unat l) m = w'"
  shows "sa_is ((sa_store sa m)\<lparr>sa_len := l\<rparr>) w'"
proof (cases "sa_s sa")
  case None
  then have "w = []" using assms(1) by (auto simp: sa_is_def sa_text_def sa_mem_def)
  then show ?thesis using assms None by (auto simp: sa_is_def sa_wf_def sa_text_def sa_mem_def word_unat_eq_iff)
next
  case (Some m')
  then have "sa_room sa w (length w)"
    using assms(1) sa_is_len[OF assms(1)] by (auto simp: sa_room_def sa_is_def sa_wf_def word_le_nat_alt)
  then show ?thesis using assms by (intro sa_is_updI) auto
qed

lemma sa_is_storeI:
  assumes "sa_is sa w" "length m = length (sa_mem sa)" "take (length w) m = w'"
  shows "sa_is (sa_store sa m) w'"
  using sa_is_editI[of sa w m "sa_len sa" w'] assms by (simp add: sa_is_len)

lemma sa_is_cut:
  assumes "sa_is sa w" "unat l \<le> length w"
  shows "sa_is (sa\<lparr>sa_len := l\<rparr>) (take (unat l) w)"
proof -
  have "(sa_store sa (sa_mem sa))\<lparr>sa_len := l\<rparr> = sa\<lparr>sa_len := l\<rparr>"
    by (cases "sa_s sa") (auto simp: sa_store_def sa_mem_def)
  moreover have "take (unat l) (sa_mem sa) = take (unat l) w"
    using sa_is_mem[OF assms(1)] assms(2) by auto
  ultimately show ?thesis using sa_is_editI[OF assms(1) refl assms(2)] by metis
qed

text \<open>A routine that rewrites the text and leaves the rest of the object alone.\<close>

lemma sa_rewrite_is:
  assumes "sa_is sa w" "\<And>r. g (w @ r) (length w) = Some (w' @ r)" "length w' = length w"
  shows "\<exists>sa'. map_option (sa_store sa) (g (sa_mem sa) (unat (sa_len sa))) = Some sa' \<and> sa_is sa' w'"
proof -
  obtain r where r: "sa_mem sa = w @ r" using sa_is_mem[OF assms(1)] by blast
  have "sa_is (sa_store sa (w' @ r)) w'"
    by (rule sa_is_storeI[OF assms(1)]) (simp_all add: r assms(3)[symmetric])
  then show ?thesis by (simp add: sa_is_len[OF assms(1)] r assms(2))
qed

lemma stralloc_lower_is:
  "sa_is sa w \<Longrightarrow>
     \<exists>sa'. stralloc_lower sa = Some sa' \<and> sa_is sa' (map (\<lambda>c. if 65 \<le> c \<and> c \<le> 90 then c + 32 else c) w)"
  unfolding stralloc_lower_def by (rule sa_rewrite_is) (simp_all add: byte_lower_eq)

lemma stralloc_upper_is:
  "sa_is sa w \<Longrightarrow>
     \<exists>sa'. stralloc_upper sa = Some sa' \<and> sa_is sa' (map (\<lambda>c. if 97 \<le> c \<and> c \<le> 122 then c - 32 else c) w)"
  unfolding stralloc_upper_def by (rule sa_rewrite_is) (simp_all add: byte_upper_eq)

lemma stralloc_replacec_is:
  "sa_is sa w \<Longrightarrow>
     \<exists>sa'. stralloc_replacec sa b a = Some sa' \<and> sa_is sa' (map (\<lambda>c. if c = b then a else c) w)"
  unfolding stralloc_replacec_def
  by (rule sa_rewrite_is[where g = "\<lambda>m n. byte_replace m n b a"]) (simp_all add: byte_replace_eq)

lemma non_printable_loop_eq:
  "non_printable_loop (p @ w @ r) (length p) (length w) ch =
     Some (p @ map (\<lambda>c. if isprint c then c else ch) w @ r)"
proof (induction w arbitrary: p)
  case (Cons c w)
  show ?case using Cons.IH[of "p @ [c]"] Cons.IH[of "p @ [ch]"] by (simp add: wr_def)
qed simp

lemma stralloc_replace_non_printable_is:
  assumes "sa_is sa w" "length w < 2 ^ 32"
  shows "\<exists>sa'. stralloc_replace_non_printable sa ch = Some sa' \<and>
           sa_is sa' (map (\<lambda>c. if isprint c then c else ch) w)"
  using sa_rewrite_is[OF assms(1), where g = "\<lambda>m n. non_printable_loop m 0 n ch"] assms
    non_printable_loop_eq[of "[]" w _ ch]
  by (simp add: stralloc_replace_non_printable_def sa_is_len)

text \<open>Each step of the reversal swaps the outermost bytes that are left.\<close>

lemma reverse_loop_eq:
  "n = length w div 2 \<Longrightarrow>
     reverse_loop n (p @ w @ r) (length p + length w + length p) (length p) = Some (p @ rev w @ r)"
proof (induction n arbitrary: p w r)
  case 0
  then have "length w = 0 \<or> length w = 1" by arith
  then show ?case by (auto simp: length_Suc_conv)
next
  case (Suc n)
  then obtain x u where u: "w = x # u" by (cases w) auto
  with Suc.prems obtain v y where v: "w = x # v @ [y]" by (cases u rule: rev_cases) auto
  have "length v div 2 = n" using Suc.prems v by simp
  then show ?case using Suc.IH[of v "p @ [y]" "x # r"] v
    by (simp add: nth_append list_update_append)
qed

lemma stralloc_reverse_is:
  assumes "sa_is sa w"
  shows "\<exists>sa'. stralloc_reverse sa = Some sa' \<and> sa_is sa' (rev w)"
  unfolding stralloc_reverse_def
  by (rule sa_rewrite_is[OF assms, where g = "\<lambda>m n. reverse_loop (unat (drop_bit 1 (sa_len sa))) m n 0"])
    (use reverse_loop_eq[of "length w div 2" w "[]"] in \<open>simp_all add: sa_is_len[OF assms] unat_shiftr\<close>)

subsection \<open>Inserting, removing and replacing\<close>

text \<open>
  The piece \<open>x\<close> of the text \<open>u @ x @ v\<close> becomes \<open>y\<close>: first \<open>v\<close> moves, upwards
  with \<open>byte_copyr\<close> or downwards with \<open>byte_copy\<close>, then \<open>y\<close> is stored.
\<close>

lemma move_tail:
  assumes "m = u @ x @ v @ r" "length u + k + length v \<le> length m"
  shows "length x \<le> k \<Longrightarrow>
      byte_copyr_within m (length u + k) (length v) (length u + length x) = Some (splice m (length u + k) v)"
    "k \<le> length x \<Longrightarrow>
      byte_copy_within m (length u + k) (length v) (length u + length x) = Some (splice m (length u + k) v)"
proof -
  have v: "take (length v) (drop (length u + length x) m) = v" by (simp add: assms(1))
  have le: "length u + length x + length v \<le> length m" by (simp add: assms(1))
  show "length x \<le> k \<Longrightarrow>
      byte_copyr_within m (length u + k) (length v) (length u + length x) = Some (splice m (length u + k) v)"
    using byte_copyr_within_eq[of "length u + k" "length v" m "length u + length x"] assms(2) le v by auto
  show "k \<le> length x \<Longrightarrow>
      byte_copy_within m (length u + k) (length v) (length u + length x) = Some (splice m (length u + k) v)"
    using byte_copy_within_eq[of "length u + k" "length v" m "length u + length x"] assms(2) le v by auto
qed

lemma store_piece:
  assumes "length u + length y + length v \<le> length m" "take (length u) m = u" "take (length y) src = y"
    "length y \<le> length src"
  shows "\<exists>m'. byte_copy (splice m (length u + length y) v) (length u) (length y) src 0 = Some m' \<and>
           length m' = length m \<and> take (length u + length y + length v) m' = u @ y @ v"
proof -
  let ?m = "splice m (length u + length y) v"
  have "byte_copy ?m (length u) (length y) src 0 = Some (splice ?m (length u) y)"
    using byte_copy_eq[of "length u" "length y" ?m 0 src] assms by simp
  then show ?thesis using assms by (simp add: splice_def)
qed

lemma stralloc_insertb_out:
  assumes sa: "sa_is sa w" and n: "unat n \<le> length s" "length w + unat n < sa_max"
  shows "sa_out al sa (stralloc_insertb al sa s pos n)
           (\<lambda>sa'. sa_is sa' (take (unat pos) w @ take (unat n) s @ drop (unat pos) w))"
proof (cases "pos \<ge> sa_len sa")
  case True
  then have "length w \<le> unat pos" using sa_is_len[OF sa] by (simp add: word_le_nat_alt)
  then show ?thesis using True stralloc_catb_out[OF sa n] by (simp add: stralloc_insertb_def)
next
  case False
  then have lt: "unat pos < length w" using sa_is_len[OF sa] by (simp add: word_le_nat_alt)
  let ?u = "take (unat pos) w" and ?v = "drop (unat pos) w" and ?y = "take (unat n) s"
  have ul: "length ?u = unat pos" and yl: "length ?y = unat n" and vl: "length ?v = length w - unat pos"
    using lt n by simp_all
  show ?thesis unfolding stralloc_insertb_def if_not_P[OF False]
  proof (rule sa_out_then(2)[OF stralloc_readyplus_room[OF sa n(2)]], goal_cases)
    case (1 sa')
    have len: "unat (sa_len sa') = length w" using 1 by (simp add: sa_room_is sa_is_len)
    have l: "unat (sa_len sa' + n) = length w + unat n" and pn: "unat (pos + n) = unat pos + unat n"
      using n(2) len lt by (subst unat_add_small; simp add: sa_max_def)+
    have d: "unat (sa_len sa' - pos) = length w - unat pos" using lt len by (subst unat_sub_small) simp_all
    obtain r where "sa_mem sa' = w @ r" using sa_is_mem[OF sa_room_is[OF 1]] by blast
    then have m: "sa_mem sa' = ?u @ [] @ ?v @ r" by simp
    then have tu: "take (length ?u) (sa_mem sa') = ?u" using lt by (simp add: min_def)
    have fits: "length ?u + length ?y + length ?v \<le> length (sa_mem sa')"
      using sa_room_mem[OF 1] lt n by simp
    obtain m' where m': "byte_copy (splice (sa_mem sa') (unat pos + unat n) ?v) (unat pos) (unat n) s 0 = Some m'"
        "length m' = length (sa_mem sa')" "take (length w + unat n) m' = ?u @ ?y @ ?v"
      using store_piece[OF fits tu, of s] n lt unfolding ul yl vl by (auto simp: add.commute)
    have "sa_is ((sa_store sa' m')\<lparr>sa_len := sa_len sa' + n\<rparr>) (?u @ ?y @ ?v)"
      by (rule sa_is_updI[OF 1 m'(2)]) (simp_all add: l m'(3))
    then show ?case
      using move_tail(1)[OF m, of "unat n"] fits m'(1) unfolding ul yl vl
      by (simp add: pn d sa_out_ok)
  qed
qed

lemma stralloc_remove_is:
  assumes sa: "sa_is sa w" and p: "unat pos < length w" "unat pos + unat n < 2 ^ 64"
  shows "\<exists>sa'. stralloc_remove sa pos n = Some (of_nat (min (unat n) (length w - unat pos)), sa') \<and>
           sa_is sa' (take (unat pos) w @ drop (unat pos + unat n) w)"
proof -
  have len: "unat (sa_len sa) = length w" by (rule sa_is_len) fact
  have lt64: "length w < 2 ^ 64" using unat_lt_2p[of "sa_len sa"] len by simp
  have p1: "unat (pos + 1) = unat pos + 1" using p lt64 by (subst unat_add_small) simp_all
  have pn: "unat (pos + n) = unat pos + unat n" using p by (subst unat_add_small) simp_all
  have g: "\<not> pos + 1 > sa_len sa" using p p1 len by (simp add: word_less_nat_alt)
  show ?thesis
  proof (cases "pos + n \<ge> sa_len sa")
    case True
    then have ge: "length w \<le> unat pos + unat n" using pn len by (simp add: word_le_nat_alt)
    have "sa_len sa - pos = of_nat (length w - unat pos)"
      using p len lt64 by (simp add: word_unat_eq_iff unat_sub_small unat_of_nat del: of_nat_diff)
    then show ?thesis using True g ge sa_is_cut[OF sa, of pos] p by (simp add: stralloc_remove_def)
  next
    case False
    then have lt: "unat pos + unat n < length w" using pn len by (simp add: word_le_nat_alt)
    let ?u = "take (unat pos) w" and ?x = "take (unat n) (drop (unat pos) w)" and ?v = "drop (unat pos + unat n) w"
    obtain r where r: "sa_mem sa = w @ r" using sa_is_mem[OF sa] by blast
    have "w = ?u @ ?x @ ?v"
      using append_take_drop_id[of "unat n" "drop (unat pos) w"] by (simp add: add.commute)
    then have m: "sa_mem sa = ?u @ ?x @ ?v @ r" using r by (metis append_assoc)
    have d: "unat (sa_len sa - (pos + n)) = length ?v" using lt len pn by (subst unat_sub_small) simp_all
    have d2: "unat (sa_len sa - n) = length w - unat n" using lt len by (subst unat_sub_small) simp_all
    let ?m = "splice (sa_mem sa) (unat pos) ?v"
    have c: "byte_copy_within (sa_mem sa) (unat pos) (length ?v) (unat pos + unat n) = Some ?m"
      using move_tail(2)[OF m, of 0] lt by (simp add: r)
    have "sa_is ((sa_store sa ?m)\<lparr>sa_len := sa_len sa - n\<rparr>) (?u @ ?v)"
      by (rule sa_is_editI[OF sa]) (use lt in \<open>simp_all add: r d2 splice_def\<close>)
    moreover have "min (unat n) (length w - unat pos) = unat n" using lt by linarith
    ultimately show ?thesis using False g c d pn by (simp add: stralloc_remove_def)
  qed
qed

lemma replace_piece_is:
  assumes room: "sa_room sa (u @ x @ v) (length u + length y + length v)"
    and y: "take (length y) to = y" "length y \<le> length to"
    and small: "length u + length y + length v < sa_max"
  shows "\<exists>sa'. replace_piece sa (length u) (length x) to (length y) = Some sa' \<and> sa_is sa' (u @ y @ v)"
proof -
  let ?w = "u @ x @ v" and ?n = "length u + length y + length v"
  have sa: "sa_is sa ?w" by (rule sa_room_is) fact
  have len: "unat (sa_len sa) = length ?w" by (rule sa_is_len) fact
  obtain r where m: "sa_mem sa = u @ x @ v @ r" using sa_is_mem[OF sa] by auto
  have fits: "?n \<le> length (sa_mem sa)" by (rule sa_room_mem) fact
  have tu: "take (length u) (sa_mem sa) = u" by (simp add: m)
  let ?m = "splice (sa_mem sa) (length u + length y) v"
  obtain m' where m': "byte_copy ?m (length u) (length y) to 0 = Some m'"
      "length m' = length (sa_mem sa)" "take ?n m' = u @ y @ v"
    using store_piece[OF fits tu y] by auto
  define l where "l = (if length x < length y then sa_len sa + of_nat (length y - length x)
                       else sa_len sa - of_nat (length x - length y))"
  have xm: "length ?w < 2 ^ 64" using unat_lt_2p[of "sa_len sa"] len by simp
  have ym: "length y - length x < 2 ^ 64" "length x - length y < 2 ^ 64"
    using small xm by (simp_all add: sa_max_def)
  have l: "unat l = ?n"
  proof (cases "length x < length y")
    case True
    then show ?thesis using small ym len unfolding l_def
      by (simp add: unat_add_small unat_of_nat sa_max_def del: of_nat_diff)
  next
    case False
    then show ?thesis using ym len unfolding l_def by (simp add: unat_sub_small unat_of_nat del: of_nat_diff)
  qed
  let ?sa = "(sa_store sa ?m)\<lparr>sa_len := l\<rparr>"
  have moved: "(if length x < length y then
         do { m \<leftarrow> byte_copyr_within (sa_mem sa) (length u + length y) (length v) (length u + length x);
              Some ((sa_store sa m)\<lparr>sa_len := sa_len sa + of_nat (length y - length x)\<rparr>) }
       else if length x > length y then
         do { m \<leftarrow> byte_copy_within (sa_mem sa) (length u + length y) (length v) (length u + length x);
              Some ((sa_store sa m)\<lparr>sa_len := sa_len sa - of_nat (length x - length y)\<rparr>) }
       else Some sa) = Some ?sa"
  proof (cases "length x = length y")
    case True
    then have "?m = sa_mem sa" by (simp add: m splice_def)
    then have "sa_store sa ?m = sa" using room by (auto simp: sa_store_def sa_mem_def sa_room_def)
    then show ?thesis using True by (simp add: l_def)
  next
    case False
    then show ?thesis using move_tail[OF m, of "length y"] fits by (auto simp: l_def simp del: of_nat_diff)
  qed
  have copied: "byte_copy (sa_mem ?sa) (length u) (length y) to 0 = Some m'"
    using m'(1) room by (auto simp: sa_mem_def sa_room_def)
  have st: "sa_store (sa_store sa a) c = sa_store sa c" for a c
    by (cases "sa_s sa") (simp_all add: sa_store_def)
  have rest: "unat (sa_len sa) - length u - length x = length v" by (simp add: len)
  have "replace_piece sa (length u) (length x) to (length y) =
      Some (if length y \<noteq> 0 then sa_store ?sa m' else ?sa)"
    unfolding replace_piece_def Let_def rest moved using copied by simp
  moreover have "sa_is ((sa_store sa m')\<lparr>sa_len := l\<rparr>) (u @ y @ v)"
    by (rule sa_is_updI[OF room m'(2)]) (simp_all add: l m'(3))
  moreover have "length y = 0 \<Longrightarrow> m' = ?m" using m'(1) by simp
  ultimately show ?thesis by (auto simp: st)
qed

lemma stralloc_replace_out:
  assumes sa: "sa_is sa w" and p: "unat pos + unat len \<le> length w" "unat tolen \<le> length to"
    and small: "length w + unat tolen < sa_max"
  shows "sa_out al sa (stralloc_replace al sa pos len to tolen)
           (\<lambda>sa'. sa_is sa' (take (unat pos) w @ take (unat tolen) to @ drop (unat pos + unat len) w))"
proof -
  let ?u = "take (unat pos) w" and ?x = "take (unat len) (drop (unat pos) w)"
    and ?v = "drop (unat pos + unat len) w" and ?y = "take (unat tolen) to"
  have w: "w = ?u @ ?x @ ?v"
    using append_take_drop_id[of "unat len" "drop (unat pos) w"] by (simp add: add.commute)
  have l: "length ?u = unat pos" "length ?x = unat len" "length ?y = unat tolen" using p by simp_all
  have wl: "unat (sa_len sa) = length w" by (rule sa_is_len) fact
  have "unat (pos + len) = unat pos + unat len"
    using p wl unat_lt_2p[of "sa_len sa"] by (subst unat_add_small) simp_all
  then have g: "pos + len \<le> sa_len sa" using p wl by (simp add: word_le_nat_alt)
  let ?n = "length ?u + length ?y + length ?v"
  have sm: "?n < sa_max" using p small by (simp add: min_absorb2)
  have piece: "sa_out al sa (map_option (Pair True) (replace_piece sa' (unat pos) (unat len) to (unat tolen)))
      (\<lambda>sa'. sa_is sa' (?u @ ?y @ ?v))" if "sa_room sa' w ?n" for sa'
  proof -
    have "sa_room sa' (?u @ ?x @ ?v) ?n" using that w by metis
    then obtain sa'' where "replace_piece sa' (unat pos) (unat len) to (unat tolen) = Some sa''" "sa_is sa'' (?u @ ?y @ ?v)"
      using replace_piece_is[OF _ _ _ sm, of sa' ?x to] p l by auto
    then show ?thesis by (simp add: sa_out_ok)
  qed
  show ?thesis
  proof (cases "tolen > len")
    case True
    then have lt: "unat len < unat tolen" by (simp add: word_less_nat_alt)
    then have d: "unat (tolen - len) = unat tolen - unat len" by (simp add: unat_sub_small)
    have small': "length w + unat (tolen - len) < sa_max" using small d by simp
    have n: "length w + unat (tolen - len) = ?n" using p lt d by simp
    show ?thesis using True g sa_out_then(2)[OF stralloc_readyplus_room[OF sa small'] piece] n
      by (simp add: stralloc_replace_def)
  next
    case False
    then have le: "unat tolen \<le> unat len" by (simp add: word_less_nat_alt)
    show ?thesis
    proof (cases "sa_s sa")
      case None
      then have "w = []" using sa by (auto simp: sa_is_def sa_text_def sa_mem_def)
      then have "unat pos = 0" "unat len = 0" "unat tolen = 0" using p le by simp_all
      then show ?thesis using False g sa \<open>w = []\<close> by (simp add: stralloc_replace_def replace_piece_def sa_out_ok)
    next
      case (Some m)
      then have "sa_room sa w ?n"
        using sa wl p le by (auto simp: sa_room_def sa_is_def sa_wf_def word_le_nat_alt)
      then show ?thesis using False g piece[of sa] by (simp add: stralloc_replace_def)
    qed
  qed
qed

subsection \<open>Replacing every occurrence\<close>

text \<open>What replacing means: from the left, occurrences do not overlap.\<close>

fun replace_all :: "byte list \<Rightarrow> byte list \<Rightarrow> byte list \<Rightarrow> byte list" where
  "replace_all f t [] = []"
| "replace_all f t (c # w) =
     (if f \<noteq> [] \<and> take (length f) (c # w) = f then t @ replace_all f t (drop (length f) (c # w))
      else c # replace_all f t w)"

declare replace_all.simps [simp del]

lemma replace_all_Nil [simp]: "replace_all f t [] = []"
  by (simp add: replace_all.simps)

lemma replace_all_hit:
  assumes "f \<noteq> []"
  shows "replace_all f t (f @ w) = t @ replace_all f t w"
proof -
  obtain c f' where "f = c # f'" using assms by (cases f) auto
  then show ?thesis by (simp add: replace_all.simps)
qed

lemma replace_all_miss:
  "\<forall>j < length u. \<not> occurs_at f (u @ w) j \<Longrightarrow> replace_all f t (u @ w) = u @ replace_all f t w"
proof (induction u)
  case (Cons c u)
  have "\<not> occurs_at f (u @ w) j" if "j < length u" for j
    using Cons.prems that by (auto simp: occurs_at_def dest!: spec[of _ "Suc j"])
  moreover have "take (length f) (c # u @ w) \<noteq> f"
    using Cons.prems by (auto simp: occurs_at_def dest!: spec[of _ 0])
  ultimately show ?case using Cons.IH by (simp add: replace_all.simps)
qed simp

lemma byte_findb_split:
  assumes "f \<noteq> []" "n \<le> length s" "take (length f) what = f"
  shows "(\<exists>u v. take n s = u @ f @ v \<and> byte_findb s n what (length f) = Some (length u) \<and>
            (\<forall>j < length u. \<not> occurs_at f (u @ f @ v) j)) \<or>
         (byte_findb s n what (length f) = Some n \<and> (\<forall>j. \<not> occurs_at f (take n s) j))"
proof -
  have "length f \<le> length what" using assms(3) by (metis length_take min.cobounded2 nat_le_linear take_all)
  then obtain r where r: "byte_findb s n what (length f) = Some r"
      "if \<exists>j. occurs_at f (take n s) j
       then occurs_at f (take n s) r \<and> (\<forall>j < r. \<not> occurs_at f (take n s) j) else r = n"
    using byte_findb_spec[of n s "length f" what, unfolded assms(3)] assms(2) by auto
  show ?thesis
  proof (cases "\<exists>j. occurs_at f (take n s) j")
    case True
    let ?u = "take r (take n s)" and ?v = "drop (r + length f) (take n s)"
    have o: "occurs_at f (take n s) r" and first: "\<forall>j < r. \<not> occurs_at f (take n s) j"
      using r(2) unfolding if_P[OF True] by simp_all
    have "r + length f \<le> length (take n s)" using o unfolding occurs_at_def by (rule conjunct1)
    then have lu: "length ?u = r" by simp
    have "take n s = ?u @ take (length f) (drop r (take n s)) @ ?v"
      using append_take_drop_id[of "length f" "drop r (take n s)"] append_take_drop_id[of r "take n s"]
      by (metis add.commute drop_drop)
    moreover have "take (length f) (drop r (take n s)) = f" using o unfolding occurs_at_def by (rule conjunct2)
    ultimately have "take n s = ?u @ f @ ?v" by metis
    then show ?thesis using r(1) first lu by metis
  next
    case False
    then show ?thesis using r(1) r(2) unfolding if_not_P[OF False] by blast
  qed
qed

lemma replaces_step:
  assumes "sa_is sa (d @ u @ f @ v)" "take (length t) to = t" "length t \<le> length to"
    and small: "length d + length u + length f + length v + length t < sa_max"
  shows "sa_out al sa
     (do { (ok, sa) \<leftarrow> (if length t > length f then stralloc_readyplus al sa (of_nat (length t - length f))
                        else Some (True, sa));
           if \<not> ok then Some (False, sa)
           else map_option (Pair True) (replace_piece sa (length (d @ u)) (length f) to (length t)) })
     (\<lambda>sa'. sa_is sa' ((d @ u) @ t @ v))"
proof -
  let ?w = "(d @ u) @ f @ v" and ?n = "length (d @ u) + length t + length v"
  have sa: "sa_is sa ?w" using assms(1) by simp
  have piece: "sa_out al sa (map_option (Pair True) (replace_piece sa' (length (d @ u)) (length f) to (length t)))
      (\<lambda>sa'. sa_is sa' ((d @ u) @ t @ v))" if "sa_room sa' ?w ?n" for sa'
    using replace_piece_is[OF that assms(2,3)] small by (auto simp: sa_out_ok)
  show ?thesis
  proof (cases "length t > length f")
    case True
    let ?k = "of_nat (length t - length f) :: uint64"
    have k: "unat ?k = length t - length f" using small by (intro unat_of_nat_sa) simp
    have n: "length ?w + unat ?k = ?n" unfolding k using True by simp
    have small': "length ?w + unat ?k < sa_max" unfolding n using small by simp
    show ?thesis unfolding if_P[OF True]
      by (rule sa_out_then(2)[OF stralloc_readyplus_room[OF sa small'] piece]) (simp only: n)
  next
    case False
    show ?thesis
    proof (cases "sa_s sa")
      case None
      then have "d = []" "u = []" "f = []" "v = []" using sa by (auto simp: sa_is_def sa_text_def sa_mem_def)
      then show ?thesis using False sa by (simp add: replace_piece_def sa_out_ok)
    next
      case (Some m)
      then have "sa_room sa ?w ?n"
        using sa False sa_is_len[OF sa] by (auto simp: sa_room_def sa_is_def sa_wf_def word_le_nat_alt)
      then show ?thesis using False piece[of sa] by simp
    qed
  qed
qed

text \<open>
  With a non-empty \<open>from\<close> the loop ends: every turn takes an occurrence off the text that is left.
\<close>

lemma replaces_loop_is:
  assumes f: "f \<noteq> []" "take (length f) from = f" and t: "take (length t) to = t" "length t \<le> length to"
  shows "sa_is sa (d @ w) \<Longrightarrow> length d + length w * Suc (length t) + length t < sa_max \<Longrightarrow>
    \<exists>ok sa' w'. replaces_loop al sa from (length f) to (length t) (length d) = Some (ok, sa') \<and>
      sa_is sa' w' \<and> (ok \<longrightarrow> w' = d @ replace_all f t w) \<and> (grants al \<longrightarrow> ok)"
proof (induction "length w" arbitrary: sa d w rule: less_induct)
  case less
  note sa = less.prems(1) and small = less.prems(2)
  have len: "unat (sa_len sa) = length d + length w" using sa_is_len[OF sa] by simp
  obtain r where r: "sa_mem sa = d @ w @ r" using sa_is_mem[OF sa] by auto
  show ?case
  proof (cases "w = []")
    case True
    then show ?thesis using sa len by (subst replaces_loop.simps) auto
  next
    case False
    have tw: "take (length w) (w @ r) = w" and lw: "length w \<le> length (w @ r)" by simp_all
    consider (hit) u v where "w = u @ f @ v" "byte_findb (w @ r) (length w) from (length f) = Some (length u)"
        "\<forall>j < length u. \<not> occurs_at f (u @ f @ v) j"
      | (miss) "byte_findb (w @ r) (length w) from (length f) = Some (length w)" "\<forall>j. \<not> occurs_at f w j"
      using byte_findb_split[OF f(1) lw f(2), unfolded tw] by blast
    then show ?thesis
    proof cases
      case miss
      then have "replace_all f t w = w" using replace_all_miss[of w f "[]" t] by simp
      then show ?thesis using miss sa len r False by (subst replaces_loop.simps) auto
    next
      case hit
      have sm: "length d + length u + length f + length v + length t < sa_max"
        using small hit(1) by (simp add: algebra_simps)
      define step where "step = do { (ok, sa) \<leftarrow> (if length t > length f
            then stralloc_readyplus al sa (of_nat (length t - length f)) else Some (True, sa));
          if \<not> ok then Some (False, sa)
          else map_option (Pair True) (replace_piece sa (length (d @ u)) (length f) to (length t)) }"
      have "sa_is sa (d @ u @ f @ v)" using sa hit(1) by simp
      from replaces_step[OF this t sm, of al]
      have out: "sa_out al sa step (\<lambda>sa'. sa_is sa' ((d @ u) @ t @ v))" by (simp only: step_def)
      have lt: "length u < length w" using hit(1) f(1) by simp
      have run: "replaces_loop al sa from (length f) to (length t) (length d) =
          do { (ok, sa) \<leftarrow> step;
               if \<not> ok then Some (False, sa)
               else replaces_loop al sa from (length f) to (length t) (length (d @ u @ t)) }"
        using hit(2) len r lt False
        by (subst replaces_loop.simps)
          (auto simp: step_def add.assoc Let_def bind_map_option comp_def intro!: Option.bind_cong split: if_splits)
      obtain ok sa1 where o: "step = Some (ok, sa1)" "if ok then sa_is sa1 ((d @ u @ t) @ v) else sa1 = sa"
          "grants al \<longrightarrow> ok" using out by (auto simp: sa_out_def)
      show ?thesis
      proof (cases ok)
        case False
        then show ?thesis using run o sa by auto
      next
        case True
        have "length (d @ u @ t) + length v * Suc (length t) + length t < sa_max"
          using small hit(1) f(1) by (cases f) (simp_all add: algebra_simps)
        moreover have "length v < length w" "sa_is sa1 ((d @ u @ t) @ v)" using o True hit(1) f(1) by simp_all
        ultimately obtain ok' sa2 w' where
          "replaces_loop al sa1 from (length f) to (length t) (length (d @ u @ t)) = Some (ok', sa2)"
          "sa_is sa2 w'" "ok' \<longrightarrow> w' = (d @ u @ t) @ replace_all f t v" "grants al \<longrightarrow> ok'"
          using less.hyps[of v sa1 "d @ u @ t"] by blast
        moreover have "replace_all f t w = u @ t @ replace_all f t v"
          using replace_all_miss[OF hit(3)] replace_all_hit[OF f(1)] hit(1) by simp
        ultimately show ?thesis using run o True by auto
      qed
    qed
  qed
qed

lemma subst_loop_is:
  assumes f: "f \<noteq> []" "take (length f) from = f" and t: "nonul t" and b: "len \<le> length b"
  shows "sa_is out w \<Longrightarrow> i \<le> len \<Longrightarrow> length w + (len - i) * Suc (length t) < sa_max \<Longrightarrow>
    \<exists>ok out' w'. subst_loop al out b len i from (length f) (cstr t rt) = Some (ok, out') \<and>
      sa_is out' w' \<and> (ok \<longrightarrow> w' = w @ replace_all f t (drop i (take len b))) \<and> (grants al \<longrightarrow> ok)"
proof (induction "len - i" arbitrary: out w i rule: less_induct)
  case less
  note out = less.prems(1)
  have lf: "length f \<le> length from" using f(2) by (metis length_take min.cobounded2 nat_le_linear take_all)
  show ?case
  proof (cases "i < len")
    case False
    then show ?thesis using out by (subst subst_loop.simps) auto
  next
    case True
    let ?rest = "drop i (take len b)"
    have ne: "?rest = b ! i # drop (Suc i) (take len b)" using True b by (simp add: Cons_nth_drop_Suc[symmetric])
    have pos: "len - i = Suc (len - Suc i)" using True by simp
    define hit where "hit \<longleftrightarrow> i + length f \<le> len \<and> take (length f) (drop i b) = f"
    have eval: "(if i + length f \<le> len then byte_equal from (length f) (drop i b) else Some False) = Some hit"
      using byte_equal_iff[of "length f" "from" "drop i b"] lf b unfolding hit_def f(2) by auto
    have hit_rest: "hit \<longleftrightarrow> take (length f) ?rest = f"
    proof
      assume h: "take (length f) ?rest = f"
      then have le: "length f \<le> length ?rest" by (metis length_take min.cobounded1)
      then have "take (length f) (drop i (take len b)) = take (length f) (drop i b)"
        by (simp add: drop_take min_absorb1)
      then show hit using h le True b by (simp add: hit_def)
    qed (auto simp: hit_def drop_take min_absorb1)
    show ?thesis
    proof (cases hit)
      case h: True
      have il: "i + length f \<le> len" using h by (simp add: hit_def)
      have small: "length w + length t < sa_max" using less.prems(3) pos by (simp add: algebra_simps)
      obtain ok o1 where o: "stralloc_cats al out (cstr t rt) = Some (ok, o1)"
          "if ok then sa_is o1 (w @ t) else o1 = out" "grants al \<longrightarrow> ok"
        using stralloc_cats_out[OF out t small, of al rt] by (auto simp: sa_out_def)
      have "length (w @ t) + (len - (i + length f)) * Suc (length t) < sa_max"
      proof -
        have "(len - (i + length f)) * Suc (length t) + length f * Suc (length t) = (len - i) * Suc (length t)"
          using il by (simp add: add_mult_distrib[symmetric] del: mult_Suc_right)
        moreover have "length t \<le> length f * Suc (length t)" using f(1) by (cases f) simp_all
        ultimately show ?thesis using less.prems(3) by simp
      qed
      moreover have "len - (i + length f) < len - i" using il f(1) True by (cases f) simp_all
      ultimately have ih: "sa_is o1 (w @ t) \<Longrightarrow> \<exists>ok out' w'.
          subst_loop al o1 b len (i + length f) from (length f) (cstr t rt) = Some (ok, out') \<and> sa_is out' w' \<and>
          (ok \<longrightarrow> w' = (w @ t) @ replace_all f t (drop (i + length f) (take len b))) \<and> (grants al \<longrightarrow> ok)"
        using less.hyps[of "i + length f" o1 "w @ t"] il by blast
      have ra: "replace_all f t ?rest = t @ replace_all f t (drop (i + length f) (take len b))"
        using h hit_rest f(1) replace_all_hit[OF f(1), of t "drop (length f) ?rest"]
        by (metis append_take_drop_id drop_drop add.commute)
      show ?thesis using o ih True eval h out
        by (subst subst_loop.simps) (cases ok, auto simp: ra)
    next
      case h: False
      have small: "Suc (length w) < sa_max" using less.prems(3) pos by (simp add: algebra_simps)
      have hd: "drop i b \<noteq> []" "hd (drop i b) = b ! i" using True b by (simp_all add: hd_drop_conv_nth)
      obtain ok o1 where o: "stralloc_append al out (drop i b) = Some (ok, o1)"
          "if ok then sa_is o1 (w @ [b ! i]) else o1 = out" "grants al \<longrightarrow> ok"
        using stralloc_append_out[OF out hd(1) small, of al] hd(2) by (auto simp: sa_out_def)
      have ih: "sa_is o1 (w @ [b ! i]) \<Longrightarrow> \<exists>ok out' w'.
          subst_loop al o1 b len (Suc i) from (length f) (cstr t rt) = Some (ok, out') \<and> sa_is out' w' \<and>
          (ok \<longrightarrow> w' = (w @ [b ! i]) @ replace_all f t (drop (Suc i) (take len b))) \<and> (grants al \<longrightarrow> ok)"
        using less.hyps[of "Suc i" o1 "w @ [b ! i]"] less.prems(3) pos True by simp
      have ra: "replace_all f t ?rest = b ! i # replace_all f t (drop (Suc i) (take len b))"
        using h hit_rest unfolding ne by (simp add: replace_all.simps)
      show ?thesis using o ih True eval h out
        by (subst subst_loop.simps) (cases ok, auto simp: ra)
    qed
  qed
qed

subsection \<open>Removing bytes, cutting the end\<close>

lemma remove_all_loop_eq:
  assumes "dlen \<le> length del"
  shows "remove_all_loop (u @ g @ w @ r) (length u) (length u + length g) (length w) del dlen =
    Some (u @ filter (\<lambda>c. c \<notin> set (take dlen del)) w @
            drop (length (filter (\<lambda>c. c \<notin> set (take dlen del)) w)) (g @ w) @ r,
          length u + length (filter (\<lambda>c. c \<notin> set (take dlen del)) w))"
proof (induction w arbitrary: u g)
  case (Cons c w)
  have rd: "rd (u @ g @ (c # w) @ r) (length u + length g) = Some c" by (simp add: rd_def nth_append)
  have chr: "(byte_chr del dlen c = Some dlen) = (c \<notin> set (take dlen del))"
    "byte_chr del dlen c = Some (length (takeWhile (\<lambda>x. x \<noteq> c) (take dlen del)))"
    using assms byte_chr_takeWhile[OF assms, of c] byte_chr_eq_iff[OF assms, of c] by simp_all
  show ?case
  proof (cases "c \<in> set (take dlen del)")
    case True
    then have "length (takeWhile (\<lambda>x. x \<noteq> c) (take dlen del)) \<noteq> dlen" using chr by auto
    then show ?thesis using True Cons.IH[of u "g @ [c]"] rd chr(2) by simp
  next
    case False
    then have e: "byte_chr del dlen c = Some dlen" using chr by simp
    have w: "wr (u @ g @ (c # w) @ r) (length u) c = Some ((u @ [c]) @ tl (g @ [c]) @ w @ r)"
      by (cases g) (simp_all add: wr_def)
    have l: "length (tl (g @ [c])) = length g" by simp
    show ?thesis using False rd e w Cons.IH[of "u @ [c]" "tl (g @ [c])"] unfolding l by (cases g) simp_all
  qed
qed simp

lemma stralloc_remove_all_is:
  assumes "sa_is sa w" "dlen \<le> length del"
  shows "\<exists>sa'. stralloc_remove_all sa del dlen = Some sa' \<and> sa_is sa' (filter (\<lambda>c. c \<notin> set (take dlen del)) w)"
proof (cases "sa_s sa")
  case None
  then show ?thesis using assms(1) by (auto simp: stralloc_remove_all_def sa_is_def sa_text_def sa_mem_def)
next
  case (Some m)
  let ?f = "filter (\<lambda>c. c \<notin> set (take dlen del)) w"
  obtain r where r: "sa_mem sa = w @ r" using sa_is_mem[OF assms(1)] by blast
  have len: "unat (sa_len sa) = length w" by (rule sa_is_len) fact
  have le: "length ?f \<le> length w" by (rule length_filter_le)
  have "length ?f < 2 ^ 64" using le_less_trans[OF le] len unat_lt_2p[of "sa_len sa"] by simp
  then have l: "unat (of_nat (length ?f) :: uint64) = length ?f" by (simp add: unat_of_nat)
  let ?m = "?f @ drop (length ?f) w @ r"
  have "stralloc_remove_all sa del dlen = Some ((sa_store sa ?m)\<lparr>sa_len := of_nat (length ?f)\<rparr>)"
    using remove_all_loop_eq[OF assms(2), of "[]" "[]" w r] Some by (simp add: stralloc_remove_all_def len r)
  moreover have "length ?m = length (sa_mem sa)" using le unfolding r length_append length_drop by linarith
  then have "sa_is ((sa_store sa ?m)\<lparr>sa_len := of_nat (length ?f)\<rparr>) ?f"
    by (rule sa_is_editI[OF assms(1)]) (simp_all add: l)
  ultimately show ?thesis by blast
qed

lemma sa_len_minus:
  assumes "sa_is sa w" "k \<le> length w"
  shows "unat (sa_len sa - of_nat k) = length w - k"
proof -
  have len: "unat (sa_len sa) = length w" by (rule sa_is_len) fact
  then have "unat (of_nat k :: uint64) = k"
    using assms(2) unat_lt_2p[of "sa_len sa"] by (simp add: unat_of_nat)
  then show ?thesis using assms(2) len by (simp add: unat_sub_small)
qed

lemma sa_is_drop_end:
  "sa_is sa w \<Longrightarrow> k \<le> length w \<Longrightarrow> sa_is (sa\<lparr>sa_len := sa_len sa - of_nat k\<rparr>) (take (length w - k) w)"
  using sa_is_cut[of sa w "sa_len sa - of_nat k"] by (simp add: sa_len_minus)

lemma sa_len_eq_0: "sa_is sa w \<Longrightarrow> sa_len sa = 0 \<longleftrightarrow> w = []"
  using sa_is_len[of sa w] by (auto simp: word_unat_eq_iff)

lemma stralloc_chop_is:
  assumes "sa_is sa (w @ [c])"
  shows "\<exists>sa'. stralloc_chop sa = Some (uint c, sa') \<and> sa_is sa' w"
proof -
  obtain r where r: "sa_mem sa = w @ c # r" using sa_is_mem[OF assms] by auto
  have l: "unat (sa_len sa - 1) = length w" using sa_len_minus[OF assms, of 1] by simp
  have ne: "sa_len sa \<noteq> 0" using sa_len_eq_0[OF assms] by simp
  show ?thesis using sa_is_drop_end[OF assms, of 1] ne l by (simp add: stralloc_chop_def r rd_def)
qed

text \<open>
  \<open>stralloc_chomp\<close> takes off a line end.  A carriage return in front of the newline goes too, but
  only when a byte precedes it: a string that is just the two bytes keeps its carriage return.
\<close>

definition chomp_count :: "byte list \<Rightarrow> nat" where
  "chomp_count w =
     (if w \<noteq> [] \<and> (last w = 10 \<or> last w = 13) then
        if last w = 10 \<and> length w > 2 \<and> w ! (length w - 2) = 13 then 2 else 1
      else 0)"

lemma stralloc_chomp_is:
  assumes "sa_is sa w"
  shows "\<exists>sa'. stralloc_chomp sa = Some (chomp_count w, sa') \<and> sa_is sa' (take (length w - chomp_count w) w)"
proof (cases "w = []")
  case True
  then show ?thesis using assms sa_len_eq_0[OF assms] by (simp add: stralloc_chomp_def chomp_count_def)
next
  case False
  obtain r where r: "sa_mem sa = w @ r" using sa_is_mem[OF assms] by auto
  have pos: "0 < sa_len sa" using sa_len_eq_0[OF assms] False by (simp add: word_gt_0)
  have l: "unat (sa_len sa - 1) = length w - 1" using sa_len_minus[OF assms, of 1] False by (simp add: Suc_le_eq)
  have x: "rd (sa_mem sa) (unat (sa_len sa - 1)) = Some (last w)"
    using False by (cases w rule: rev_cases) (simp_all add: l r rd_def)
  have g: "sa_len sa - 1 > 1 \<longleftrightarrow> length w > 2" using l by (auto simp: word_less_nat_alt)
  have y: "rd (sa_mem sa) (unat (sa_len sa - 1 - 1)) = Some (w ! (length w - 2))" if "length w > 2"
  proof -
    have "unat (sa_len sa - 1 - 1) = length w - 2" using that l by (subst unat_sub_small) simp_all
    then show ?thesis using that by (simp add: r rd_def nth_append)
  qed
  have one: "sa_is (sa\<lparr>sa_len := sa_len sa - 1\<rparr>) (take (length w - 1) w)"
    using sa_is_drop_end[OF assms, of 1] False by (simp add: Suc_le_eq)
  have two: "sa_is (sa\<lparr>sa_len := sa_len sa - 2\<rparr>) (take (length w - 2) w)" if "length w > 2"
    using sa_is_drop_end[OF assms, of 2] that by simp
  show ?thesis using pos x g y one two assms False
    by (cases "length w > 2") (auto simp: stralloc_chomp_def Let_def chomp_count_def)
qed

lemma stralloc_trimr_is:
  assumes "sa_is sa w" "k \<le> length cs"
  shows "\<exists>sa'. stralloc_trimr sa cs k = Some sa' \<and>
           sa_is sa' (take (length w - length (takeWhile (\<lambda>c. c \<in> set (take k cs)) (rev w))) w)"
proof (cases "sa_s sa")
  case None
  then show ?thesis using assms(1) by (auto simp: stralloc_trimr_def sa_is_def sa_text_def sa_mem_def)
next
  case (Some m)
  let ?l = "length w - length (takeWhile (\<lambda>c. c \<in> set (take k cs)) (rev w))"
  obtain r where r: "sa_mem sa = w @ r" using sa_is_mem[OF assms(1)] by blast
  have len: "unat (sa_len sa) = length w" by (rule sa_is_len) fact
  then have "?l < 2 ^ 64" using unat_lt_2p[of "sa_len sa"] by simp
  then have l: "unat (of_nat ?l :: uint64) = ?l" by (simp add: unat_of_nat)
  have "stralloc_trimr sa cs k = Some (sa\<lparr>sa_len := of_nat ?l\<rparr>)"
    using Some byte_trimr_eq[of "length w" "w @ r" k cs] assms(2) by (simp add: stralloc_trimr_def len r)
  then show ?thesis using sa_is_cut[OF assms(1), of "of_nat ?l"] l by simp
qed

lemma stralloc_endb_eq:
  assumes "sa_is sa w" "unat n \<le> length x"
  shows "stralloc_endb sa x n = Some (unat n \<le> length w \<and> drop (length w - unat n) w = take (unat n) x)"
proof -
  obtain r where r: "sa_mem sa = w @ r" using sa_is_mem[OF assms(1)] by blast
  have len: "unat (sa_len sa) = length w" by (rule sa_is_len) fact
  show ?thesis
  proof (cases "n \<le> sa_len sa")
    case True
    then have le: "unat n \<le> length w" using len by (simp add: word_le_nat_alt)
    have "unat (sa_len sa - n) = length w - unat n" using le len by (subst unat_sub_small) simp_all
    then show ?thesis using True le assms(2) r byte_equal_iff[of "unat n" "drop (length w - unat n) (w @ r)" x]
      by (simp add: stralloc_endb_def)
  next
    case False
    then show ?thesis using len by (simp add: stralloc_endb_def word_le_nat_alt)
  qed
qed

lemma stralloc_removesuffixb_is:
  assumes "sa_is sa w" "unat n \<le> length x" "n \<noteq> 0"
  shows "\<exists>ok sa'. stralloc_removesuffixb sa x n = Some (ok, sa') \<and>
    (if ok then w = take (length w - unat n) w @ take (unat n) x \<and> sa_is sa' (take (length w - unat n) w)
     else sa' = sa \<and> (\<nexists>v. w = v @ take (unat n) x))"
proof (cases "unat n \<le> length w \<and> drop (length w - unat n) w = take (unat n) x")
  case True
  then have "w = take (length w - unat n) w @ take (unat n) x" by (metis append_take_drop_id)
  then show ?thesis using True assms stralloc_endb_eq[OF assms(1,2)] sa_is_drop_end[OF assms(1), of "unat n"]
    by (auto simp: stralloc_removesuffixb_def)
next
  case False
  then have "\<nexists>v. w = v @ take (unat n) x" using assms(2) by auto
  then show ?thesis using False assms stralloc_endb_eq[OF assms(1,2)] by (auto simp: stralloc_removesuffixb_def)
qed

subsection \<open>Programs over a string\<close>

text \<open>
  A sequence of calls on one string, each with an allocator of its own, against the same sequence on
  lists.  \<open>op_text\<close> is the effect a call promises, \<open>op_ok\<close> the precondition it puts on its
  arguments, \<open>op_grows\<close> by how much the text can grow.
\<close>

datatype sa_op =
    Copyb "byte list" uint64
  | Catb "byte list" uint64
  | Catc byte
  | Insertb "byte list" uint64 uint64
  | Replace uint64 uint64 "byte list" uint64
  | Remove uint64 uint64
  | RemoveAll "byte list" nat
  | Reverse
  | Lower
  | Chomp
  | Trimr "byte list" nat
  | Zero

definition sure :: "stralloc option \<Rightarrow> (bool \<times> stralloc) option" where
  "sure r = map_option (Pair True) r"

primrec sa_apply :: "allocator \<Rightarrow> sa_op \<Rightarrow> stralloc \<Rightarrow> (bool \<times> stralloc) option" where
  "sa_apply al (Copyb buf n) sa = stralloc_copyb al sa buf n"
| "sa_apply al (Catb buf n) sa = stralloc_catb al sa buf n"
| "sa_apply al (Catc c) sa = stralloc_catc al sa c"
| "sa_apply al (Insertb s pos n) sa = stralloc_insertb al sa s pos n"
| "sa_apply al (Replace pos len to tolen) sa = stralloc_replace al sa pos len to tolen"
| "sa_apply al (Remove pos n) sa = sure (map_option snd (stralloc_remove sa pos n))"
| "sa_apply al (RemoveAll del n) sa = sure (stralloc_remove_all sa del n)"
| "sa_apply al Reverse sa = sure (stralloc_reverse sa)"
| "sa_apply al Lower sa = sure (stralloc_lower sa)"
| "sa_apply al Chomp sa = sure (map_option snd (stralloc_chomp sa))"
| "sa_apply al (Trimr cs n) sa = sure (stralloc_trimr sa cs n)"
| "sa_apply al Zero sa = Some (True, stralloc_zero sa)"

primrec op_text :: "sa_op \<Rightarrow> byte list \<Rightarrow> byte list" where
  "op_text (Copyb buf n) w = take (unat n) buf"
| "op_text (Catb buf n) w = w @ take (unat n) buf"
| "op_text (Catc c) w = w @ [c]"
| "op_text (Insertb s pos n) w = take (unat pos) w @ take (unat n) s @ drop (unat pos) w"
| "op_text (Replace pos len to tolen) w =
     take (unat pos) w @ take (unat tolen) to @ drop (unat pos + unat len) w"
| "op_text (Remove pos n) w = take (unat pos) w @ drop (unat pos + unat n) w"
| "op_text (RemoveAll del n) w = filter (\<lambda>c. c \<notin> set (take n del)) w"
| "op_text Reverse w = rev w"
| "op_text Lower w = map (\<lambda>c. if 65 \<le> c \<and> c \<le> 90 then c + 32 else c) w"
| "op_text Chomp w = take (length w - chomp_count w) w"
| "op_text (Trimr cs n) w = take (length w - length (takeWhile (\<lambda>c. c \<in> set (take n cs)) (rev w))) w"
| "op_text Zero w = []"

fun op_ok :: "sa_op \<Rightarrow> byte list \<Rightarrow> bool" where
  "op_ok (Copyb buf n) w \<longleftrightarrow> unat n \<le> length buf"
| "op_ok (Catb buf n) w \<longleftrightarrow> unat n \<le> length buf"
| "op_ok (Insertb s pos n) w \<longleftrightarrow> unat n \<le> length s"
| "op_ok (Replace pos len to tolen) w \<longleftrightarrow> unat tolen \<le> length to \<and> unat pos + unat len \<le> length w"
| "op_ok (Remove pos n) w \<longleftrightarrow> unat pos < length w \<and> unat pos + unat n < 2 ^ 64"
| "op_ok (RemoveAll del n) w \<longleftrightarrow> n \<le> length del"
| "op_ok (Trimr cs n) w \<longleftrightarrow> n \<le> length cs"
| "op_ok _ w \<longleftrightarrow> True"

fun op_grows :: "sa_op \<Rightarrow> nat" where
  "op_grows (Copyb buf n) = unat n"
| "op_grows (Catb buf n) = unat n"
| "op_grows (Catc c) = 1"
| "op_grows (Insertb s pos n) = unat n"
| "op_grows (Replace pos len to tolen) = unat tolen"
| "op_grows _ = 0"

lemma sa_out_sure:
  "\<exists>sa'. r = Some sa' \<and> P sa' \<Longrightarrow> sa_out al sa (sure r) P"
  by (auto simp: sure_def)

lemma sa_apply_out:
  assumes "sa_is sa w" "op_ok opn w" "length w + op_grows opn < sa_max"
  shows "sa_out al sa (sa_apply al opn sa) (\<lambda>sa'. sa_is sa' (op_text opn w))"
proof (cases opn)
  case (Remove pos n)
  then show ?thesis using stralloc_remove_is[OF assms(1), of pos n] assms(2) by (auto intro!: sa_out_sure)
next
  case Chomp
  then show ?thesis using stralloc_chomp_is[OF assms(1)] by (auto intro!: sa_out_sure)
qed (use assms in \<open>auto intro!: stralloc_copyb_out stralloc_catb_out stralloc_catc_out stralloc_insertb_out
    stralloc_replace_out stralloc_zero_is sa_out_sure stralloc_remove_all_is stralloc_reverse_is
    stralloc_lower_is stralloc_trimr_is\<close>)

lemma op_text_grows: "op_ok opn w \<Longrightarrow> length (op_text opn w) \<le> length w + op_grows opn"
  by (cases opn) (auto intro: le_trans[OF length_filter_le])

primrec sa_run :: "(allocator \<times> sa_op) list \<Rightarrow> stralloc \<Rightarrow> (bool list \<times> stralloc) option" where
  "sa_run [] sa = Some ([], sa)"
| "sa_run (x # xs) sa =
     do { (ok, sa) \<leftarrow> sa_apply (fst x) (snd x) sa;
          (oks, sa) \<leftarrow> sa_run xs sa;
          Some (ok # oks, sa) }"

text \<open>The calls that failed have no effect; every call meets its precondition.\<close>

fun text_run :: "sa_op list \<Rightarrow> bool list \<Rightarrow> byte list \<Rightarrow> byte list" where
  "text_run (x # xs) (ok # oks) w = text_run xs oks (if ok then op_text x w else w)"
| "text_run _ _ w = w"

fun ops_ok :: "sa_op list \<Rightarrow> byte list \<Rightarrow> bool" where
  "ops_ok [] w \<longleftrightarrow> True"
| "ops_ok (x # xs) w \<longleftrightarrow> op_ok x w \<and> ops_ok xs (op_text x w) \<and> ops_ok xs w"

lemma sa_run_is:
  "sa_is sa w \<Longrightarrow> ops_ok (map snd xs) w \<Longrightarrow> length w + sum_list (map (\<lambda>x. op_grows (snd x)) xs) < sa_max \<Longrightarrow>
     \<exists>oks sa'. sa_run xs sa = Some (oks, sa') \<and> sa_is sa' (text_run (map snd xs) oks w) \<and>
       ((\<forall>x \<in> set xs. grants (fst x)) \<longrightarrow> oks = replicate (length xs) True)"
proof (induction xs arbitrary: sa w)
  case (Cons x xs)
  obtain ok sa1 where s: "sa_apply (fst x) (snd x) sa = Some (ok, sa1)"
      "if ok then sa_is sa1 (op_text (snd x) w) else sa1 = sa" "grants (fst x) \<longrightarrow> ok"
    using sa_apply_out[OF Cons.prems(1), of "snd x" "fst x"] Cons.prems(2,3) by (auto simp: sa_out_def)
  let ?w = "if ok then op_text (snd x) w else w"
  have "length ?w + sum_list (map (\<lambda>x. op_grows (snd x)) xs) < sa_max"
    using Cons.prems(2,3) op_text_grows[of "snd x" w] by auto
  moreover have "sa_is sa1 ?w" "ops_ok (map snd xs) ?w" using s(2) Cons.prems by (cases ok; simp)+
  ultimately obtain oks sa2 where "sa_run xs sa1 = Some (oks, sa2)" "sa_is sa2 (text_run (map snd xs) oks ?w)"
      "(\<forall>x \<in> set xs. grants (fst x)) \<longrightarrow> oks = replicate (length xs) True"
    using Cons.IH[of sa1 ?w] by blast
  then show ?case using s by auto
qed simp

subsection \<open>Properties\<close>

text \<open>
  C4. Programs over a dynamic string refine programs over lists: whatever sequence of copies, appends,
  insertions, replacements, removals and cuts is run on a fresh string, and whenever memory runs out in
  between, no call leaves the string's object, the string is well-formed at the end, and it holds the
  list that the calls that succeeded make.  All of them succeed when memory lasts.
\<close>
theorem stralloc_programs_refine:
  assumes "ops_ok (map snd xs) []" "sum_list (map (\<lambda>x. op_grows (snd x)) xs) < sa_max"
  shows "\<exists>oks sa'. sa_run xs (stralloc_init sa) = Some (oks, sa') \<and>
           sa_is sa' (text_run (map snd xs) oks []) \<and>
           ((\<forall>x \<in> set xs. grants (fst x)) \<longrightarrow> oks = replicate (length xs) True)"
  using sa_run_is[OF stralloc_init_is assms(1)] assms(2) by simp

theorem stralloc_programs_refine_witness:
  "\<exists>oks sa'. sa_run [(\<lambda>n. Some [], Catb [1, 2, 3] 3), (\<lambda>n. None, Insertb [9] 1 1), (\<lambda>n. Some [], Reverse)]
       (stralloc_init \<lparr>sa_s = None, sa_len = 0, sa_a = 0\<rparr>) = Some (oks, sa') \<and>
     sa_is sa' (text_run [Catb [1, 2, 3] 3, Insertb [9] 1 1, Reverse] oks [])"
  using stralloc_programs_refine[of "[(\<lambda>n. Some [], Catb [1, 2, 3] 3), (\<lambda>n. None, Insertb [9] 1 1),
      (\<lambda>n. Some [], Reverse)]" "\<lparr>sa_s = None, sa_len = 0, sa_a = 0\<rparr>"]
  by (auto simp: sa_max_def)

text \<open>
  C34. \<open>stralloc_replaces\<close> and \<open>stralloc_subst\<close> replace every occurrence of a string that is
  not empty, from the left and without overlaps: the one in place, the other while it appends to a
  string.  Both loops end.
\<close>
theorem stralloc_replaces_all:
  assumes "f \<noteq> []" "nonul f" "nonul t" "sa_is sa w" "sa_is out v"
    "length v + length w * Suc (length t) + length t < sa_max"
  shows "(\<exists>ok sa' w'. stralloc_replaces al sa (cstr f rf) (cstr t rt) = Some (ok, sa') \<and> sa_is sa' w' \<and>
            (ok \<longrightarrow> w' = replace_all f t w) \<and> (grants al \<longrightarrow> ok)) \<and>
         (\<exists>ok out' w'. stralloc_subst al out w (length w) (cstr f rf) (cstr t rt) = Some (ok, out') \<and>
            sa_is out' w' \<and> (ok \<longrightarrow> w' = v @ replace_all f t w) \<and> (grants al \<longrightarrow> ok))"
proof
  show "\<exists>ok sa' w'. stralloc_replaces al sa (cstr f rf) (cstr t rt) = Some (ok, sa') \<and> sa_is sa' w' \<and>
      (ok \<longrightarrow> w' = replace_all f t w) \<and> (grants al \<longrightarrow> ok)"
    using replaces_loop_is[OF assms(1), of "cstr f rf" t "cstr t rt" sa "[]" w al] assms
    by (simp add: stralloc_replaces_def take_cstr)
  show "\<exists>ok out' w'. stralloc_subst al out w (length w) (cstr f rf) (cstr t rt) = Some (ok, out') \<and>
      sa_is out' w' \<and> (ok \<longrightarrow> w' = v @ replace_all f t w) \<and> (grants al \<longrightarrow> ok)"
    using subst_loop_is[OF assms(1) _ assms(3), of "cstr f rf" "length w" w out v 0 al rt] assms
    by (simp add: stralloc_subst_def take_cstr)
qed

theorem stralloc_replaces_all_witness:
  "(\<exists>ok sa' w'. stralloc_replaces (\<lambda>n. Some []) \<lparr>sa_s = Some [1, 2, 1, 7], sa_len = 3, sa_a = 4\<rparr> (cstr [1] []) (cstr [5, 6] []) =
       Some (ok, sa') \<and> sa_is sa' w' \<and> (ok \<longrightarrow> w' = replace_all [1] [5, 6] [1, 2, 1]) \<and> (grants (\<lambda>n. Some []) \<longrightarrow> ok)) \<and>
   (\<exists>ok out' w'. stralloc_subst (\<lambda>n. Some []) \<lparr>sa_s = None, sa_len = 0, sa_a = 0\<rparr> [1, 2, 1] (length [1 :: byte, 2, 1])
       (cstr [1] []) (cstr [5, 6] []) = Some (ok, out') \<and>
       sa_is out' w' \<and> (ok \<longrightarrow> w' = [] @ replace_all [1] [5, 6] [1, 2, 1]) \<and> (grants (\<lambda>n. Some []) \<longrightarrow> ok))"
  by (rule stralloc_replaces_all)
    (simp_all add: sa_is_def sa_wf_def sa_text_def sa_mem_def sa_max_def word_le_nat_alt word_less_nat_alt)

text \<open>
  \<open>stralloc_chomp\<close> removes one line end, except that a string consisting of a carriage return
  and a newline loses the newline only: the test for the carriage return is off by one.
\<close>
theorem stralloc_chomp_keeps_lone_cr:
  "stralloc_chomp \<lparr>sa_s = Some [13, 10, 0, 0], sa_len = 2, sa_a = 4\<rparr> =
     Some (1, \<lparr>sa_s = Some [13, 10, 0, 0], sa_len = 1, sa_a = 4\<rparr>) \<and>
   stralloc_chomp \<lparr>sa_s = Some [65, 13, 10, 0], sa_len = 3, sa_a = 4\<rparr> =
     Some (2, \<lparr>sa_s = Some [65, 13, 10, 0], sa_len = 1, sa_a = 4\<rparr>)"
  by code_simp

end
