(* ===== verification/StrallocQuery.thy ===== *)
theory StrallocQuery
  imports StrallocEdit
begin

text \<open>
  Comparing and searching dynamic strings, and appending numbers to them (\<open>src/lib/stralloc\<close>).
  Where the code narrows a length to \<open>int\<close> or \<open>unsigned\<close>, so does the model; a difference
  that leaves the range of \<open>int\<close> is undefined.
\<close>

subsection \<open>Comparing\<close>

definition int_of_size :: "uint64 \<Rightarrow> int" where
  "int_of_size n = sint (ucast n :: uint32)"

definition int_sub :: "int \<Rightarrow> int \<Rightarrow> int option" where
  "int_sub a b = (if - (2 ^ 31) \<le> a - b \<and> a - b < 2 ^ 31 then Some (a - b) else None)"

function diff_loop :: "byte list \<Rightarrow> nat \<Rightarrow> byte list \<Rightarrow> nat \<Rightarrow> nat \<Rightarrow> int option" where
  "diff_loop a alen b blen i =
     (if i \<ge> alen then Some (if i = blen then 0 else -1)
      else if i = blen then Some 1
      else do { x \<leftarrow> rd a i; y \<leftarrow> rd b i;
                if uint x - uint y \<noteq> 0 then Some (uint x - uint y) else diff_loop a alen b blen (Suc i) })"
  by pat_completeness auto
termination by (relation "measure (\<lambda>(a, alen, b, blen, i). alen - i)") auto

declare diff_loop.simps [simp del]

definition stralloc_diff :: "stralloc \<Rightarrow> stralloc \<Rightarrow> int option" where
  "stralloc_diff a b = diff_loop (sa_mem a) (unat (sa_len a)) (sa_mem b) (unat (sa_len b)) 0"

definition stralloc_equal :: "stralloc \<Rightarrow> stralloc \<Rightarrow> bool option" where
  "stralloc_equal sa1 sa2 = map_option (\<lambda>d. d = 0) (stralloc_diff sa1 sa2)"

function diffs_loop :: "byte list \<Rightarrow> nat \<Rightarrow> byte list \<Rightarrow> nat \<Rightarrow> int option" where
  "diffs_loop a alen b i =
     (if i \<ge> alen then do { y \<leftarrow> rd b i; Some (if y = 0 then 0 else -1) }
      else do { y \<leftarrow> rd b i;
                if y = 0 then Some 1
                else do { x \<leftarrow> rd a i;
                          if uint x - uint y \<noteq> 0 then Some (uint x - uint y) else diffs_loop a alen b (Suc i) } })"
  by pat_completeness auto
termination by (relation "measure (\<lambda>(a, alen, b, i). alen - i)") auto

declare diffs_loop.simps [simp del]

definition stralloc_diffs :: "stralloc \<Rightarrow> byte list \<Rightarrow> int option" where
  "stralloc_diffs a b = diffs_loop (sa_mem a) (unat (sa_len a)) b 0"

definition stralloc_equals :: "stralloc \<Rightarrow> byte list \<Rightarrow> bool option" where
  "stralloc_equals sa s = map_option (\<lambda>d. d = 0) (stralloc_diffs sa s)"

definition stralloc_diffb :: "stralloc \<Rightarrow> byte list \<Rightarrow> uint32 \<Rightarrow> int option" where
  "stralloc_diffb sa d dlen =
     (let len = (if sa_len sa > ucast dlen then ucast dlen else sa_len sa)
      in do { r \<leftarrow> byte_diff (sa_mem sa) (unat len) d;
              if r \<noteq> 0 then Some r else int_sub (int_of_size (sa_len sa)) (sint dlen) })"

definition stralloc_equalb :: "stralloc \<Rightarrow> byte list \<Rightarrow> uint32 \<Rightarrow> bool option" where
  "stralloc_equalb sa d dlen = map_option (\<lambda>d. d = 0) (stralloc_diffb sa d dlen)"

definition stralloc_case_diff :: "stralloc \<Rightarrow> stralloc \<Rightarrow> int option" where
  "stralloc_case_diff sa1 sa2 =
     (let len = (if sa_len sa1 > sa_len sa2 then sa_len sa2 else sa_len sa1)
      in do { r \<leftarrow> byte_case_diff (sa_mem sa1) (unat len) (sa_mem sa2);
              if r \<noteq> 0 then Some r else int_sub (int_of_size (sa_len sa1)) (int_of_size (sa_len sa2)) })"

definition stralloc_case_equal :: "stralloc \<Rightarrow> stralloc \<Rightarrow> bool option" where
  "stralloc_case_equal sa1 sa2 = map_option (\<lambda>d. d = 0) (stralloc_case_diff sa1 sa2)"

definition stralloc_case_diffs :: "stralloc \<Rightarrow> byte list \<Rightarrow> int option" where
  "stralloc_case_diffs sa s =
     do { n \<leftarrow> str_len s;
          let s_len = (of_nat n :: uint32);
          let len = (if sa_len sa > ucast s_len then ucast s_len else sa_len sa);
          r \<leftarrow> byte_case_diff (sa_mem sa) (unat len) s;
          if r \<noteq> 0 then Some r else int_sub (int_of_size (sa_len sa)) (sint s_len) }"

definition stralloc_case_equals :: "stralloc \<Rightarrow> byte list \<Rightarrow> bool option" where
  "stralloc_case_equals sa s = map_option (\<lambda>d. d = 0) (stralloc_case_diffs sa s)"

subsection \<open>Prefixes and suffixes\<close>

definition stralloc_starts :: "stralloc \<Rightarrow> byte list \<Rightarrow> bool option" where
  "stralloc_starts sa s =
     do { n \<leftarrow> str_len s;
          let len = of_nat n;
          if len \<le> sa_len sa then map_option (\<lambda>d. d = 0) (byte_diff (sa_mem sa) (unat len) s) else Some False }"

definition stralloc_startb :: "stralloc \<Rightarrow> byte list \<Rightarrow> uint64 \<Rightarrow> bool option" where
  "stralloc_startb sa p len =
     (if sa_len sa \<ge> len then byte_equal (sa_mem sa) (unat len) p else Some False)"

definition stralloc_start :: "stralloc \<Rightarrow> stralloc \<Rightarrow> bool option" where
  "stralloc_start sa p =
     (let len = sa_len p in if sa_len sa \<ge> len then byte_equal (sa_mem p) (unat len) (sa_mem sa) else Some False)"

definition stralloc_endsb :: "stralloc \<Rightarrow> byte list \<Rightarrow> uint64 \<Rightarrow> bool option" where
  "stralloc_endsb sa x n =
     (if sa_len sa \<ge> n then byte_equal (drop (unat (sa_len sa - n)) (sa_mem sa)) (unat n) x else Some False)"

definition stralloc_ends :: "stralloc \<Rightarrow> stralloc \<Rightarrow> bool option" where
  "stralloc_ends sa x = stralloc_endsb sa (sa_mem x) (sa_len x)"

definition stralloc_case_start :: "stralloc \<Rightarrow> stralloc \<Rightarrow> bool option" where
  "stralloc_case_start sa p =
     (let n = ucast (sa_len p) :: uint32
      in if sa_len sa < ucast n then Some False else byte_case_equal (sa_mem sa) (unat n) (sa_mem p))"

definition stralloc_case_starts :: "stralloc \<Rightarrow> byte list \<Rightarrow> bool option" where
  "stralloc_case_starts sa p =
     do { k \<leftarrow> str_len p;
          let n = (of_nat k :: uint32);
          if sa_len sa < ucast n then Some False else byte_case_equal (sa_mem sa) (unat n) p }"

definition stralloc_case_end :: "stralloc \<Rightarrow> stralloc \<Rightarrow> bool option" where
  "stralloc_case_end sa x =
     (let n = ucast (sa_len sa) :: uint32; k = ucast (sa_len x) :: uint32
      in if n < k then Some False
         else byte_case_equal (drop (unat n - unat k) (sa_mem sa)) (unat k) (sa_mem x))"

subsection \<open>Searching\<close>

definition stralloc_findb :: "stralloc \<Rightarrow> byte list \<Rightarrow> nat \<Rightarrow> nat option" where
  "stralloc_findb sa what len =
     (let n = unat (sa_len sa)
      in if n < len then Some n
         else let last = n - len in byte_findb_loop (sa_mem sa) n what len 0 (last + 1))"

definition stralloc_find :: "stralloc \<Rightarrow> stralloc \<Rightarrow> nat option" where
  "stralloc_find sa what = stralloc_findb sa (sa_mem what) (unat (sa_len what))"

definition stralloc_finds :: "stralloc \<Rightarrow> byte list \<Rightarrow> nat option" where
  "stralloc_finds sa what = do { n \<leftarrow> str_len what; stralloc_findb sa what n }"

definition stralloc_contains :: "stralloc \<Rightarrow> byte list \<Rightarrow> bool option" where
  "stralloc_contains sa what = map_option (\<lambda>r. r \<noteq> unat (sa_len sa)) (stralloc_finds sa what)"

definition stralloc_chr :: "stralloc \<Rightarrow> byte \<Rightarrow> nat option" where
  "stralloc_chr sa c = byte_chr (sa_mem sa) (unat (sa_len sa)) c"

definition stralloc_rchr :: "stralloc \<Rightarrow> byte \<Rightarrow> nat option" where
  "stralloc_rchr sa c = byte_rchr (sa_mem sa) (unat (sa_len sa)) c"

definition stralloc_count :: "stralloc \<Rightarrow> byte \<Rightarrow> nat option" where
  "stralloc_count sa c = byte_count (sa_mem sa) (unat (sa_len sa)) c"

subsection \<open>Appending numbers\<close>

text \<open>What a formatter stores behind the text, and the length it adds.\<close>

definition sa_emit :: "stralloc \<Rightarrow> byte list \<Rightarrow> stralloc option" where
  "sa_emit sa w =
     do { m \<leftarrow> byte_copy (sa_mem sa) (unat (sa_len sa)) (length w) w 0;
          Some ((sa_store sa m)\<lparr>sa_len := sa_len sa + of_nat (length w)\<rparr>) }"

definition stralloc_catulong0 :: "allocator \<Rightarrow> stralloc \<Rightarrow> uint64 \<Rightarrow> nat \<Rightarrow> (bool \<times> stralloc) option" where
  "stralloc_catulong0 al sa i n =
     do { (ok, sa) \<leftarrow> stralloc_readyplus al sa (of_nat (fst (fmt_ulong0 False i n)));
          if ok then map_option (Pair True) (sa_emit sa (snd (fmt_ulong0 True i n))) else Some (False, sa) }"

definition stralloc_catulong :: "allocator \<Rightarrow> stralloc \<Rightarrow> uint64 \<Rightarrow> (bool \<times> stralloc) option" where
  "stralloc_catulong al sa ul = stralloc_catulong0 al sa ul 0"

definition stralloc_catuint0 :: "allocator \<Rightarrow> stralloc \<Rightarrow> uint32 \<Rightarrow> uint32 \<Rightarrow> (bool \<times> stralloc) option" where
  "stralloc_catuint0 al sa u n = stralloc_catulong0 al sa (ucast u) (unat n)"

definition stralloc_catuint :: "allocator \<Rightarrow> stralloc \<Rightarrow> uint32 \<Rightarrow> (bool \<times> stralloc) option" where
  "stralloc_catuint al sa ui = stralloc_catulong0 al sa (ucast ui) 0"

text \<open>
  The sign comes from \<open>fmt_minus\<close>, which takes an \<open>int\<close>: the \<open>long\<close> is narrowed.
\<close>

definition stralloc_catlong0 :: "allocator \<Rightarrow> stralloc \<Rightarrow> uint64 \<Rightarrow> nat \<Rightarrow> (bool \<times> stralloc) option" where
  "stralloc_catlong0 al sa i n =
     (let s = int_of_size i
      in do { (ok, sa) \<leftarrow> stralloc_readyplus al sa (of_nat (fst (fmt_minus False s) + fst (fmt_ulong0 False i n)));
              if ok then
                do { sa \<leftarrow> sa_emit sa (snd (fmt_minus True s));
                     u \<leftarrow> (if sint i \<ge> 0 then Some i else if i = 0x8000000000000000 then None else Some (- i));
                     sa \<leftarrow> sa_emit sa (snd (fmt_ulong0 True u n));
                     Some (True, sa) }
              else Some (False, sa) })"

definition stralloc_catlong :: "allocator \<Rightarrow> stralloc \<Rightarrow> uint64 \<Rightarrow> (bool \<times> stralloc) option" where
  "stralloc_catlong al sa l = stralloc_catlong0 al sa l 0"

definition stralloc_catint0 :: "allocator \<Rightarrow> stralloc \<Rightarrow> uint32 \<Rightarrow> uint32 \<Rightarrow> (bool \<times> stralloc) option" where
  "stralloc_catint0 al sa i n = stralloc_catlong0 al sa (scast i) (unat n)"

definition stralloc_catint :: "allocator \<Rightarrow> stralloc \<Rightarrow> uint32 \<Rightarrow> (bool \<times> stralloc) option" where
  "stralloc_catint al sa i = stralloc_catlong0 al sa (scast i) 0"

definition stralloc_catxlong :: "allocator \<Rightarrow> stralloc \<Rightarrow> uint64 \<Rightarrow> (bool \<times> stralloc) option" where
  "stralloc_catxlong al sa u =
     do { (ok, sa) \<leftarrow> stralloc_readyplus al sa (of_nat (fst (fmt_xlong False u)));
          if \<not> ok then Some (False, sa) else map_option (Pair True) (sa_emit sa (snd (fmt_xlong True u))) }"

definition stralloc_catxlong0 :: "allocator \<Rightarrow> stralloc \<Rightarrow> uint64 \<Rightarrow> uint32 \<Rightarrow> (bool \<times> stralloc) option" where
  "stralloc_catxlong0 al sa n pad =
     (let i = fst (fmt_xlong False n); p = unat pad
      in do { (ok, sa) \<leftarrow> stralloc_readyplus al sa (of_nat (if i > p then i else p));
              if \<not> ok then Some (False, sa)
              else let p = (if i < p then p - i else 0)
                   in map_option (Pair True) (sa_emit sa (replicate p 0x30 @ snd (fmt_xlong True n))) })"

text \<open>The length is doubled in an \<open>unsigned\<close>, the formatter stores all the digits.\<close>

definition stralloc_cathexb :: "allocator \<Rightarrow> stralloc \<Rightarrow> byte list \<Rightarrow> uint32 \<Rightarrow> (bool \<times> stralloc) option" where
  "stralloc_cathexb al sa d n =
     (let len = push_bit 1 n
      in do { (ok, sa) \<leftarrow> stralloc_readyplus al sa (ucast len);
              if \<not> ok then Some (False, sa)
              else do { (_, w) \<leftarrow> fmt_hexb True d n;
                        m \<leftarrow> byte_copy (sa_mem sa) (unat (sa_len sa)) (length w) w 0;
                        Some (True, (sa_store sa m)\<lparr>sa_len := sa_len sa + ucast len\<rparr>) } })"

subsection \<open>Word boundaries\<close>

fun decamelize_loop :: "allocator \<Rightarrow> byte list \<Rightarrow> stralloc \<Rightarrow> byte \<Rightarrow> stralloc option" where
  "decamelize_loop al [] sa sep = None"
| "decamelize_loop al (c # x) sa sep =
     (if c = 0 then Some sa
      else do { (_, sa) \<leftarrow> stralloc_catb al sa (c # x) 1;
                d \<leftarrow> (if 0x61 \<le> c \<and> c \<le> 0x7a then rd x 0 else Some 0);
                if 0x61 \<le> c \<and> c \<le> 0x7a \<and> 0x41 \<le> d \<and> d \<le> 0x5a then
                  do { (_, sa) \<leftarrow> stralloc_catc al sa sep;
                       (_, sa) \<leftarrow> stralloc_catc al sa (d + 0x20);
                       decamelize_loop al (tl x) sa sep }
                else decamelize_loop al x sa sep })"

definition stralloc_decamelize :: "allocator \<Rightarrow> byte list \<Rightarrow> stralloc \<Rightarrow> byte \<Rightarrow> stralloc option" where
  "stralloc_decamelize al s sa sep = decamelize_loop al s sa sep"

definition str_decamelize :: "allocator \<Rightarrow> byte list \<Rightarrow> byte \<Rightarrow> byte list option option" where
  "str_decamelize al s sep =
     do { out \<leftarrow> stralloc_decamelize al s (stralloc_init \<lparr>sa_s = None, sa_len = 0, sa_a = 0\<rparr>) sep;
          (_, out) \<leftarrow> stralloc_nul al out;
          Some (sa_s out) }"

subsection \<open>The comparisons are orders\<close>

lemma Nil_less_iff: "[] < (xs :: 'k::linorder list) \<longleftrightarrow> xs \<noteq> []"
  by (cases xs) auto

lemma list_less_prefix:
  fixes a b :: "'k::linorder list"
  shows "a < b \<longleftrightarrow> take (min (length a) (length b)) a < take (min (length a) (length b)) b \<or>
     (take (min (length a) (length b)) a = take (min (length a) (length b)) b \<and> length a < length b)"
  by (induction a b rule: list_induct2') auto

lemma list_eq_prefix:
  "a = b \<longleftrightarrow> take (min (length a) (length b)) a = take (min (length a) (length b)) b \<and> length a = length b"
  by (induction a b rule: list_induct2') auto

lemma diff_loop_key:
  "i \<le> alen \<Longrightarrow> i \<le> blen \<Longrightarrow> alen \<le> length a \<Longrightarrow> blen \<le> length b \<Longrightarrow>
     \<exists>d. diff_loop a alen b blen i = Some d \<and>
       (d < 0 \<longleftrightarrow> drop i (take alen a) < drop i (take blen b)) \<and>
       (d = 0 \<longleftrightarrow> drop i (take alen a) = drop i (take blen b))"
proof (induction a alen b blen i rule: diff_loop.induct)
  case (1 a alen b blen i)
  show ?case
  proof (cases "i = alen \<or> i = blen")
    case True
    then show ?thesis using 1(2-) by (subst diff_loop.simps) (auto simp: not_le Nil_less_iff)
  next
    case False
    then have lt: "i < alen" "i < blen" using 1(2-) by auto
    have d: "drop i (take alen a) = a ! i # drop (Suc i) (take alen a)"
      "drop i (take blen b) = b ! i # drop (Suc i) (take blen b)"
      using lt 1(4,5) by (simp_all add: Cons_nth_drop_Suc[symmetric])
    have r: "rd a i = Some (a ! i)" "rd b i = Some (b ! i)" using lt 1(4,5) by simp_all
    show ?thesis
    proof (cases "a ! i = b ! i")
      case True
      then show ?thesis using 1(1)[OF _ _ r] 1(4,5) lt d r
        by (subst diff_loop.simps) (simp add: not_le)
    next
      case ne: False
      then have "uint (a ! i) \<noteq> uint (b ! i)" by (simp add: word_uint_eq_iff)
      then show ?thesis using ne lt d r
        by (subst diff_loop.simps) (auto simp: word_less_def)
    qed
  qed
qed

lemma stralloc_diff_key:
  assumes "sa_wf x" "sa_wf y"
  shows "\<exists>d. stralloc_diff x y = Some d \<and> (d < 0 \<longleftrightarrow> sa_text x < sa_text y) \<and> (d = 0 \<longleftrightarrow> sa_text x = sa_text y)"
proof -
  have "unat (sa_len z) \<le> length (sa_mem z)" if "sa_wf z" for z
    using that sa_is_len[of z "sa_text z"] sa_is_le_mem[of z "sa_text z"] by (simp add: sa_is_def)
  then show ?thesis using diff_loop_key[of 0 "unat (sa_len x)" "unat (sa_len y)" "sa_mem x" "sa_mem y"] assms
    by (simp add: stralloc_diff_def sa_text_def)
qed

interpretation sad: comparator stralloc_diff sa_wf sa_text
  by unfold_locales (rule stralloc_diff_key)

lemma stralloc_equal_iff: "sa_is x v \<Longrightarrow> sa_is y w \<Longrightarrow> stralloc_equal x y = Some (v = w)"
  using stralloc_diff_key[of x y] by (auto simp: stralloc_equal_def sa_is_def)

lemma diffs_loop_key:
  assumes "nonul w"
  shows "i \<le> alen \<Longrightarrow> i \<le> length w \<Longrightarrow> alen \<le> length a \<Longrightarrow>
     \<exists>d. diffs_loop a alen (cstr w r) i = Some d \<and>
       (d < 0 \<longleftrightarrow> drop i (take alen a) < drop i w) \<and> (d = 0 \<longleftrightarrow> drop i (take alen a) = drop i w)"
proof (induction "alen - i" arbitrary: i)
  case 0
  then have i: "i = alen" by simp
  show ?case
  proof (cases "i = length w")
    case True
    then show ?thesis using i by (subst diffs_loop.simps) simp
  next
    case False
    then have lt: "i < length w" using 0 by simp
    then have "rd (cstr w r) i = Some (w ! i)" "w ! i \<noteq> 0" "drop i w \<noteq> []"
      using assms by (simp_all add: rd_cstr nth_cstr nonul_nth)
    then show ?thesis using i by (subst diffs_loop.simps) (auto simp: Nil_less_iff)
  qed
next
  case (Suc k)
  then have lt: "i < alen" by simp
  have d: "drop i (take alen a) = a ! i # drop (Suc i) (take alen a)" "rd a i = Some (a ! i)"
    using lt Suc.prems by (simp_all add: Cons_nth_drop_Suc[symmetric])
  show ?case
  proof (cases "i = length w")
    case True
    then show ?thesis using lt d by (subst diffs_loop.simps) simp
  next
    case False
    then have iw: "i < length w" using Suc.prems by simp
    have w: "drop i w = w ! i # drop (Suc i) w" "rd (cstr w r) i = Some (w ! i)" "w ! i \<noteq> 0"
      using iw assms by (simp_all add: Cons_nth_drop_Suc[symmetric] rd_cstr nth_cstr nonul_nth)
    show ?thesis
    proof (cases "a ! i = w ! i")
      case True
      then show ?thesis using Suc.hyps(1)[of "Suc i"] Suc.hyps(2) Suc.prems lt iw d w
        by (subst diffs_loop.simps) simp
    next
      case ne: False
      then have "uint (a ! i) \<noteq> uint (w ! i)" by (simp add: word_uint_eq_iff)
      then show ?thesis using ne lt d w by (subst diffs_loop.simps) (auto simp: word_less_def)
    qed
  qed
qed

lemma stralloc_diffs_key:
  assumes "sa_is sa v" "nonul w"
  shows "\<exists>d. stralloc_diffs sa (cstr w r) = Some d \<and> (d < 0 \<longleftrightarrow> v < w) \<and> (d = 0 \<longleftrightarrow> v = w)"
  using diffs_loop_key[OF assms(2), of 0 "length v" "sa_mem sa" r] sa_is_le_mem[OF assms(1)]
    sa_is_text[OF assms(1)] sa_is_len[OF assms(1)]
  by (simp add: stralloc_diffs_def)

lemma unat_min_word: "unat (if a > b then b else a :: uint64) = min (unat a) (unat b)"
  by (auto simp: word_less_nat_alt min_def)

lemma int_of_size_small:
  assumes "unat n < 2 ^ 31"
  shows "int_of_size n = int (unat n)"
proof -
  let ?u = "ucast n :: uint32"
  have u: "unat ?u = unat n" using assms by (simp add: unat_ucast_mod)
  then have "0 \<le> sint ?u" using assms sint_neg_iff[of ?u] by simp
  then have "int (unat ?u) = sint ?u" using unat_nonneg_sint[of ?u] by simp
  then show ?thesis using u by (simp add: int_of_size_def)
qed

lemma int_sub_small: "a < 2 ^ 31 \<Longrightarrow> b < 2 ^ 31 \<Longrightarrow> int_sub (int a) (int b) = Some (int a - int b)"
  by (simp add: int_sub_def)

lemma stralloc_case_diff_key:
  assumes "sa_is x v" "sa_is y w" "length v < 2 ^ 31" "length w < 2 ^ 31"
  shows "\<exists>d. stralloc_case_diff x y = Some d \<and> (d < 0 \<longleftrightarrow> map fold_case v < map fold_case w) \<and>
           (d = 0 \<longleftrightarrow> map fold_case v = map fold_case w)"
proof -
  let ?n = "min (length v) (length w)"
  have l: "unat (sa_len x) = length v" "unat (sa_len y) = length w" using assms sa_is_len by blast+
  obtain rx ry where m: "sa_mem x = v @ rx" "sa_mem y = w @ ry" using assms sa_is_mem by blast
  obtain d where d: "byte_case_diff (v @ rx) ?n (w @ ry) = Some d"
      "d < 0 \<longleftrightarrow> map fold_case (take ?n v) < map fold_case (take ?n w)"
      "d = 0 \<longleftrightarrow> map fold_case (take ?n v) = map fold_case (take ?n w)"
    using byte_case_diff_key[of ?n "v @ rx" "w @ ry"] min.cobounded1[of "length v" "length w"]
      min.cobounded2[of "length v" "length w"] by (auto simp: trans_le_add1)
  have s: "int_sub (int_of_size (sa_len x)) (int_of_size (sa_len y)) = Some (int (length v) - int (length w))"
    using assms l by (simp add: int_of_size_small int_sub_small)
  have "stralloc_case_diff x y = Some (if d \<noteq> 0 then d else int (length v) - int (length w))"
    using d(1) s by (simp add: stralloc_case_diff_def unat_min_word l m)
  then show ?thesis
    using d(2,3) list_less_prefix[of "map fold_case v" "map fold_case w"]
      list_eq_prefix[of "map fold_case v" "map fold_case w"]
    by (auto simp: take_map)
qed

interpretation sacd: comparator stralloc_case_diff "\<lambda>sa. sa_wf sa \<and> length (sa_text sa) < 2 ^ 31"
    "\<lambda>sa. map fold_case (sa_text sa)"
  by unfold_locales (rule stralloc_case_diff_key, auto simp: sa_is_def)

subsection \<open>Prefixes, suffixes, occurrences\<close>

lemma stralloc_startb_eq:
  assumes "sa_is sa w" "unat n \<le> length x"
  shows "stralloc_startb sa x n = Some (unat n \<le> length w \<and> take (unat n) w = take (unat n) x)"
proof -
  obtain r where r: "sa_mem sa = w @ r" using sa_is_mem[OF assms(1)] by blast
  have "n \<le> sa_len sa \<longleftrightarrow> unat n \<le> length w" using sa_is_len[OF assms(1)] by (simp add: word_le_nat_alt)
  then show ?thesis using assms(2) byte_equal_iff[of "unat n" "w @ r" x] by (auto simp: stralloc_startb_def r)
qed

lemma stralloc_endsb_eq:
  assumes "sa_is sa w" "unat n \<le> length x"
  shows "stralloc_endsb sa x n = Some (unat n \<le> length w \<and> drop (length w - unat n) w = take (unat n) x)"
  using stralloc_endb_eq[OF assms] by (simp add: stralloc_endsb_def stralloc_endb_def)

lemma stralloc_findb_eq: "stralloc_findb sa what len = byte_findb (sa_mem sa) (unat (sa_len sa)) what len"
  by (simp add: stralloc_findb_def byte_findb_def Let_def)

lemma stralloc_contains_iff:
  assumes "sa_is sa w" "nonul x" "x \<noteq> []"
  shows "stralloc_contains sa (cstr x r) = Some (\<exists>u v. w = u @ x @ v)"
proof -
  obtain m where m: "sa_mem sa = w @ m" using sa_is_mem[OF assms(1)] by blast
  have f: "stralloc_finds sa (cstr x r) = byte_findb (w @ m) (length w) (cstr x r) (length x)"
    using assms by (simp add: stralloc_finds_def stralloc_findb_eq m sa_is_len)
  have t: "take (length w) (w @ m) = w" "length w \<le> length (w @ m)" by simp_all
  have no: "\<nexists>u v. w = u @ x @ v" if "\<forall>j. \<not> occurs_at x w j"
  proof
    assume "\<exists>u v. w = u @ x @ v"
    then obtain u v where "w = u @ x @ v" by blast
    then have "occurs_at x w (length u)" by (simp add: occurs_at_def)
    then show False using that by blast
  qed
  show ?thesis
    using byte_findb_split[OF assms(3) t(2) take_cstr, of r, unfolded t(1)] no assms(3) sa_is_len[OF assms(1)]
    by (auto simp: stralloc_contains_def f) blast
qed

subsection \<open>Appending numbers is right\<close>

lemma sa_emit_room:
  assumes "sa_room sa w (length w + length x)" "length w + length x < sa_max"
  shows "\<exists>sa'. sa_emit sa x = Some sa' \<and> sa_is sa' (w @ x)"
proof -
  have len: "unat (sa_len sa) = length w" using assms by (simp add: sa_room_is sa_is_len)
  have x: "unat (of_nat (length x) :: uint64) = length x" using assms(2) by (intro unat_of_nat_sa) simp
  have l: "unat (sa_len sa + of_nat (length x)) = length w + length x"
    using assms(2) len x by (subst unat_add_small) (simp_all add: sa_max_def)
  have "byte_copy (sa_mem sa) (length w) (length x) x 0 = Some (splice (sa_mem sa) (length w) x)"
    using byte_copy_eq[of "length w" "length x" "sa_mem sa" 0 x] sa_room_mem[OF assms(1)] by simp
  then show ?thesis using sa_room_append[OF assms(1) l] by (simp add: sa_emit_def len)
qed

lemma stralloc_catulong0_out:
  assumes "sa_is sa w" "length w + max n (length (dec.render (unat i))) < sa_max"
  shows "sa_out al sa (stralloc_catulong0 al sa i n)
     (\<lambda>sa'. sa_is sa' (w @ replicate (n - length (dec.render (unat i))) 0x30 @ dec.render (unat i)))"
proof -
  let ?d = "dec.render (unat i)" and ?k = "of_nat (max n (length (dec.render (unat i)))) :: uint64"
  let ?x = "replicate (n - length ?d) 0x30 @ ?d"
  have k: "unat ?k = max n (length ?d)" using assms(2) by (intro unat_of_nat_sa) linarith
  have lx: "length ?x = max n (length ?d)" by simp
  have small: "length w + unat ?k < sa_max" using assms(2) k by simp
  show ?thesis unfolding stralloc_catulong0_def fmt_ulong0_eq fst_conv
  proof (rule sa_out_then[OF stralloc_readyplus_room[OF assms(1) small]], goal_cases)
    case (1 sa')
    then have "sa_room sa' w (length w + length ?x)" by (simp only: k lx)
    then show ?case using sa_emit_room[of sa' w ?x] assms(2) lx by (auto intro!: sa_out_ok)
  qed
qed

lemma stralloc_catxlong_out:
  assumes "sa_is sa w" "length w + length (hex.render (unat u)) < sa_max"
  shows "sa_out al sa (stralloc_catxlong al sa u) (\<lambda>sa'. sa_is sa' (w @ hex.render (unat u)))"
proof -
  let ?d = "hex.render (unat u)"
  have k: "unat (of_nat (length ?d) :: uint64) = length ?d" using assms(2) by (intro unat_of_nat_sa) simp
  have small: "length w + unat (of_nat (length ?d) :: uint64) < sa_max" using assms(2) k by simp
  show ?thesis unfolding stralloc_catxlong_def fmt_xlong_eq fst_conv
  proof (rule sa_out_then[OF stralloc_readyplus_room[OF assms(1) small]], goal_cases)
    case (1 sa')
    then show ?case using sa_emit_room[of sa' w ?d] assms(2) k by (auto intro!: sa_out_ok)
  qed
qed

lemma length_dec_mono:
  assumes "m \<le> n"
  shows "length (dec.render m) \<le> length (dec.render n)"
proof -
  have "n < 10 ^ length (digs 10 n)"
    using digs_val_lt[of "digs 10 n" 10] digs_lt[of 10 _ n] digs_val_digs[of 10 n] by simp
  then have "m < 10 ^ length (dec.render n)" using assms by (simp add: dec.render_def)
  then show ?thesis using dec.render_ne[of n] by (intro dec.length_render_le) auto
qed

lemma int_of_size_sint:
  assumes "- (2 ^ 31) \<le> sint i" "sint i < 2 ^ 31"
  shows "int_of_size i = sint i"
proof -
  have "(ucast :: uint64 \<Rightarrow> uint32) = scast" by (rule down_cast_same) (simp add: is_down)
  then have "(ucast i :: uint32) = scast i" by (rule fun_cong)
  then have "int_of_size i = sint (word_of_int (sint i) :: uint32)" by (simp only: int_of_size_def scast_eq)
  also have "\<dots> = signed_take_bit 31 (sint i)" unfolding sint_sbintrunc' by simp
  also have "\<dots> = sint i" using assms by (intro signed_take_bit_int_eq_self) simp_all
  finally show ?thesis .
qed

text \<open>Numbers in the range of \<open>int\<close> are written with their sign.\<close>

lemma stralloc_catlong0_out:
  assumes sa: "sa_is sa w" and i: "- (2 ^ 31) \<le> sint i" "sint i < 2 ^ 31"
    and small: "length w + 1 + max n (length (dec.render (unat i))) < sa_max"
  shows "sa_out al sa (stralloc_catlong0 al sa i n)
     (\<lambda>sa'. sa_is sa' (w @ (if sint i < 0 then [0x2d] else []) @
        replicate (n - length (dec.render (nat \<bar>sint i\<bar>))) 0x30 @ dec.render (nat \<bar>sint i\<bar>)))"
proof -
  let ?s = "if sint i < 0 then [0x2d] else [] :: byte list" and ?d = "dec.render (nat \<bar>sint i\<bar>)"
  let ?u = "if sint i \<ge> 0 then i else - i"
  have fm: "fmt_minus True (sint i) = (length ?s, ?s)" "fst (fmt_minus False (sint i)) = length ?s"
    by (simp_all add: fmt_minus_def)
  have u: "unat ?u = nat \<bar>sint i\<bar>"
    using unat_nonneg_sint[of i] unat_uminus_neg[of i] by auto
  have guard: "(if sint i \<ge> 0 then Some i else if i = 0x8000000000000000 then None else Some (- i)) = Some ?u"
    using i by auto
  have "nat \<bar>sint i\<bar> \<le> unat i"
  proof (cases "sint i < 0")
    case True
    then have "2 ^ 63 \<le> unat i" using sint_neg_iff[of i] by simp
    moreover have "nat \<bar>sint i\<bar> \<le> 2 ^ 31" using i by (simp add: nat_le_iff)
    ultimately show ?thesis by simp
  next
    case False
    then show ?thesis using unat_nonneg_sint[of i] by simp
  qed
  then have mono: "length ?d \<le> length (dec.render (unat i))" by (rule length_dec_mono)
  let ?k = "length ?s + max n (length (dec.render (unat i)))" and ?x = "replicate (n - length ?d) 0x30 @ ?d"
  have sl: "length ?s \<le> 1" by simp
  have k: "unat (of_nat ?k :: uint64) = ?k" using small sl by (intro unat_of_nat_sa) linarith
  have sm: "length w + unat (of_nat ?k :: uint64) < sa_max" unfolding k using small sl by linarith
  have xl: "length ?x \<le> max n (length (dec.render (unat i)))" using mono by simp
  show ?thesis
    unfolding stralloc_catlong0_def Let_def int_of_size_sint[OF i] fm fmt_ulong0_eq fst_conv snd_conv if_True guard
  proof (rule sa_out_then(1)[OF stralloc_readyplus_room[OF sa sm]], goal_cases)
    case (1 sa')
    have "sa_room sa' w (length w + length ?s)" using 1 unfolding k by (auto simp: sa_room_def)
    moreover have "length w + length ?s < sa_max" using small sl by linarith
    ultimately obtain s1 where s1: "sa_emit sa' ?s = Some s1" "sa_is s1 (w @ ?s)"
      using sa_emit_room[of sa' w ?s] by blast
    have "sa_a s1 = sa_a sa'" "sa_s s1 \<noteq> None"
      using s1(1) 1 by (auto simp: sa_emit_def sa_room_def split: Option.bind_splits)
    then have "sa_room s1 (w @ ?s) (length (w @ ?s) + length ?x)"
      using 1 s1(2) xl unfolding k by (auto simp: sa_room_def)
    moreover have "length (w @ ?s) + length ?x < sa_max"
      using small sl xl unfolding length_append[of w] by linarith
    ultimately obtain s2 where "sa_emit s1 ?x = Some s2" "sa_is s2 ((w @ ?s) @ ?x)"
      using sa_emit_room[of s1 "w @ ?s" ?x] by blast
    then show ?case using s1(1) u by (cases "sint i < 0") (simp_all add: sa_out_ok)
  qed
qed

subsection \<open>Properties\<close>

text \<open>
  \<open>stralloc_catlong\<close> takes its sign from the number narrowed to \<open>int\<close>: it writes
  -3000000000 for 3000000000, and 4294967296 for its negative.
\<close>
theorem stralloc_catlong_wrong_sign:
  "map_option (sa_text \<circ> snd) (stralloc_catlong (\<lambda>n. Some []) \<lparr>sa_s = None, sa_len = 0, sa_a = 0\<rparr> 3000000000) =
     Some (ascii ''-3000000000'') \<and>
   map_option (sa_text \<circ> snd) (stralloc_catlong (\<lambda>n. Some []) \<lparr>sa_s = None, sa_len = 0, sa_a = 0\<rparr> (- 4294967296)) =
     Some (ascii ''4294967296'')"
  by code_simp

end
