(* ===== verification/Buffer.thy ===== *)
theory Buffer
  imports StrallocQuery
begin

text \<open>
  Output through a \<open>buffer\<close> (\<open>src/lib/buffer\<close>): putting, flushing, and the routines that
  put numbers, strings and padding.  A routine returns its result, the buffer and the device behind it.

  The device stands for the descriptor and the operation \<open>op\<close> of the structure.  Its script has
  the replies of the next calls: \<open>Wrote k\<close> accepts at most \<open>k\<close> bytes, \<open>Fail e\<close> is an
  error with \<open>errno\<close> \<open>e\<close>.  Once the script is used up the device accepts all it is given, so
  that every finite run of a real descriptor is a script.  \<open>errno\<close> keeps its value over a call
  that succeeds.
\<close>

subsection \<open>The device\<close>

datatype reply = Wrote nat | Fail nat

record dev =
  replies :: "reply list"
  taken :: "byte list"
  errno :: nat

definition EINTR :: nat where
  "EINTR = 4"

text \<open>The loop of \<open>buffer_stubborn\<close>, on the replies that are left.\<close>

fun stubborn_loop :: "reply list \<Rightarrow> byte list \<Rightarrow> nat \<Rightarrow> byte list \<Rightarrow> nat \<Rightarrow> (int \<times> dev) option" where
  "stubborn_loop rs buf 0 out err = Some (0, \<lparr>replies = rs, taken = out, errno = err\<rparr>)"
| "stubborn_loop [] buf len out err =
     (if len \<le> length buf then Some (0, \<lparr>replies = [], taken = out @ take len buf, errno = err\<rparr>) else None)"
| "stubborn_loop (Wrote k # rs) buf len out err =
     (let w = min k len
      in if length buf < w then None
         else if w = 0 then
           if err = EINTR then stubborn_loop rs buf len out err
           else Some (-1, \<lparr>replies = rs, taken = out, errno = err\<rparr>)
         else stubborn_loop rs (drop w buf) (len - w) (out @ take w buf) err)"
| "stubborn_loop (Fail e # rs) buf len out err =
     (if e = EINTR then stubborn_loop rs buf len out e
      else Some (-1, \<lparr>replies = rs, taken = out, errno = e\<rparr>))"

definition buffer_stubborn :: "dev \<Rightarrow> byte list \<Rightarrow> nat \<Rightarrow> (int \<times> dev) option" where
  "buffer_stubborn d buf len = stubborn_loop (replies d) buf len (taken d) 0"

subsection \<open>The buffer\<close>

record buffer =
  bx :: "byte list"
  bp :: uint64
  bn :: uint64
  ba :: uint64

type_synonym 'r put_result = "('r \<times> buffer \<times> dev) option"

definition buffer_init :: "buffer \<Rightarrow> byte list \<Rightarrow> uint64 \<Rightarrow> buffer" where
  "buffer_init b y ylen = b\<lparr>bx := y, ba := ylen, bp := 0, bn := 0\<rparr>"

definition buffer_flush :: "buffer \<Rightarrow> dev \<Rightarrow> int put_result" where
  "buffer_flush b d =
     (let p = bp b
      in if p = 0 then Some (0, b, d)
         else let b = b\<lparr>bp := 0\<rparr>
              in do { (r, d) \<leftarrow> buffer_stubborn d (bx b) (unat p); Some (if r > 0 then 0 else r, b, d) })"

definition buffer_put :: "buffer \<Rightarrow> dev \<Rightarrow> byte list \<Rightarrow> uint64 \<Rightarrow> int put_result" where
  "buffer_put b d buf len =
     do { (r, b, d) \<leftarrow>
            (if len > ba b - bp b then
               do { (r, b, d) \<leftarrow> buffer_flush b d;
                    if r = -1 then Some (Some (-1), b, d)
                    else if len > ba b then
                      do { (r, d) \<leftarrow> buffer_stubborn d buf (unat len);
                           Some (Some (if r < 0 then -1 else 0), b, d) }
                    else Some (None, b, d) }
             else Some (None, b, d));
          case r of
            Some r \<Rightarrow> Some (r, b, d)
          | None \<Rightarrow> do { x \<leftarrow> byte_copy (bx b) (unat (bp b)) (unat len) buf 0;
                        Some (0, b\<lparr>bx := x, bp := bp b + len\<rparr>, d) } }"

definition buffer_putc :: "buffer \<Rightarrow> dev \<Rightarrow> byte \<Rightarrow> int put_result" where
  "buffer_putc b d c =
     do { (r, b, d) \<leftarrow>
            (if ba b = bp b then
               do { (r, b, d) \<leftarrow> buffer_flush b d;
                    if r = -1 then Some (Some (-1), b, d)
                    else if ba b = 0 then
                      do { (r, d) \<leftarrow> buffer_stubborn d [c] 1; Some (Some (if r < 0 then -1 else 0), b, d) }
                    else Some (None, b, d) }
             else Some (None, b, d));
          case r of
            Some r \<Rightarrow> Some (r, b, d)
          | None \<Rightarrow> do { x \<leftarrow> wr (bx b) (unat (bp b)) c; Some (0, b\<lparr>bx := x, bp := bp b + 1\<rparr>, d) } }"

text \<open>
  \<open>buffer_putalign\<close> fills the buffer to its end before each flush; with an empty buffer and
  something to put it does not end, which is \<open>None\<close>.
\<close>

partial_function (option) buffer_putalign :: "buffer \<Rightarrow> dev \<Rightarrow> byte list \<Rightarrow> uint64 \<Rightarrow> int put_result" where
  "buffer_putalign b d buf len =
     (let tmp = ba b - bp b
      in if len > tmp then
           do { x \<leftarrow> byte_copy (bx b) (unat (bp b)) (unat tmp) buf 0;
                let b = b\<lparr>bx := x, bp := bp b + tmp\<rparr>;
                (r, b, d) \<leftarrow> buffer_flush b d;
                if r < 0 then Some (-1, b, d) else buffer_putalign b d (drop (unat tmp) buf) (len - tmp) }
         else do { x \<leftarrow> byte_copy (bx b) (unat (bp b)) (unat len) buf 0;
                   Some (0, b\<lparr>bx := x, bp := bp b + len\<rparr>, d) })"

text \<open>
  \<open>buffer_putflush\<close>.  The flag \<open>gather\<close> stands for the condition of the branch with \<open>writev\<close>:
  compiled with \<open>HAVE_WRITEV\<close> and without \<open>_DEBUG\<close>, not native Windows, and \<open>op\<close> is
  \<open>write\<close>.  The buffered bytes and the new ones are then offered in one call, which takes the next
  reply of the device and is repeated while it is interrupted.
\<close>

fun writev_loop :: "reply list \<Rightarrow> byte list \<Rightarrow> byte list \<Rightarrow> nat \<Rightarrow> int \<times> dev" where
  "writev_loop [] v out err = (int (length v), \<lparr>replies = [], taken = out @ v, errno = err\<rparr>)"
| "writev_loop (Wrote k # rs) v out err =
     (int (min k (length v)), \<lparr>replies = rs, taken = out @ take k v, errno = err\<rparr>)"
| "writev_loop (Fail e # rs) v out err =
     (if e = EINTR then writev_loop rs v out e else (-1, \<lparr>replies = rs, taken = out, errno = e\<rparr>))"

text \<open>
  What follows a write of \<open>w\<close> bytes that is not all: the rest of the buffer and then, of the new
  bytes, as many as the buffer held (\<open>v[0].iov_len\<close>); or, when the whole buffer went out, the rest of
  the new bytes, and the buffer stays as it is.
\<close>

definition putflush_partial :: "buffer \<Rightarrow> dev \<Rightarrow> byte list \<Rightarrow> uint64 \<Rightarrow> uint64 \<Rightarrow> int put_result" where
  "putflush_partial b d x len w =
     (if w < bp b then
        do { (r, d) \<leftarrow> buffer_stubborn d (drop (unat w) (bx b)) (unat (bp b - w));
             if r \<noteq> 0 then Some (-1, b, d)
             else do { (r, d) \<leftarrow> buffer_stubborn d x (unat (bp b));
                       Some (if r \<noteq> 0 then (-1, b, d) else (0, b\<lparr>bp := 0\<rparr>, d)) } }
      else let w = w - bp b
           in do { (r, d) \<leftarrow> buffer_stubborn d (drop (unat w) x) (unat (len - w)); Some (r, b, d) })"

definition buffer_putflush :: "bool \<Rightarrow> buffer \<Rightarrow> dev \<Rightarrow> byte list \<Rightarrow> uint64 \<Rightarrow> int put_result" where
  "buffer_putflush gather b d x len =
     (if bp b = 0 then do { (r, d) \<leftarrow> buffer_stubborn d x (unat len); Some (r, b, d) }
      else if gather then
        if length (bx b) < unat (bp b) \<or> length x < unat len then None
        else let (w, d) = writev_loop (replies d) (take (unat (bp b)) (bx b) @ take (unat len) x) (taken d) (errno d)
             in if w < 0 then Some (-1, b, d)
                else if of_int w \<noteq> bp b + len then putflush_partial b d x len (of_int w)
                else Some (0, b\<lparr>bp := 0\<rparr>, d)
      else do { (r, b, d) \<leftarrow> buffer_put b d x len;
                if r < 0 then Some (-1, b, d)
                else do { (r, b, d) \<leftarrow> buffer_flush b d; Some (if r < 0 then -1 else 0, b, d) } })"

subsection \<open>Strings\<close>

definition buffer_puts :: "buffer \<Rightarrow> dev \<Rightarrow> byte list \<Rightarrow> int put_result" where
  "buffer_puts b d x = do { n \<leftarrow> str_len x; buffer_put b d x (of_nat n) }"

definition buffer_putsflush :: "bool \<Rightarrow> buffer \<Rightarrow> dev \<Rightarrow> byte list \<Rightarrow> int put_result" where
  "buffer_putsflush gather b d x = do { n \<leftarrow> str_len x; buffer_putflush gather b d x (of_nat n) }"

definition buffer_putsalign :: "buffer \<Rightarrow> dev \<Rightarrow> byte list \<Rightarrow> int put_result" where
  "buffer_putsalign b d x = do { n \<leftarrow> str_len x; buffer_putalign b d x (of_nat n) }"

definition buffer_putsa :: "buffer \<Rightarrow> dev \<Rightarrow> stralloc \<Rightarrow> int put_result" where
  "buffer_putsa b d sa = buffer_put b d (sa_mem sa) (sa_len sa)"

definition buffer_putsaflush :: "bool \<Rightarrow> buffer \<Rightarrow> dev \<Rightarrow> stralloc \<Rightarrow> int put_result" where
  "buffer_putsaflush gather b d sa = buffer_putflush gather b d (sa_mem sa) (sa_len sa)"

definition buffer_putspace :: "buffer \<Rightarrow> dev \<Rightarrow> int put_result" where
  "buffer_putspace b d = buffer_put b d [0x20] 1"

definition buffer_putnlflush :: "bool \<Rightarrow> buffer \<Rightarrow> dev \<Rightarrow> int put_result" where
  "buffer_putnlflush gather b d = buffer_putflush gather b d [10] 1"

primrec buffer_putm_internal :: "buffer \<Rightarrow> dev \<Rightarrow> byte list list \<Rightarrow> int put_result" where
  "buffer_putm_internal b d [] = Some (0, b, d)"
| "buffer_putm_internal b d (s # ss) =
     do { (r, b, d) \<leftarrow> buffer_puts b d s;
          if r = -1 then Some (-1, b, d) else buffer_putm_internal b d ss }"

definition buffer_putm_internal_flush :: "buffer \<Rightarrow> dev \<Rightarrow> byte list list \<Rightarrow> int put_result" where
  "buffer_putm_internal_flush b d ss =
     do { (r, b, d) \<leftarrow> buffer_putm_internal b d ss; (_, b, d) \<leftarrow> buffer_flush b d; Some (r, b, d) }"

primrec put_times :: "nat \<Rightarrow> buffer \<Rightarrow> dev \<Rightarrow> byte list \<Rightarrow> uint64 \<Rightarrow> int put_result" where
  "put_times 0 b d s len = Some (0, b, d)"
| "put_times (Suc n) b d s len =
     do { (r, b, d) \<leftarrow> buffer_put b d s len; if r < 0 then Some (-1, b, d) else put_times n b d s len }"

definition buffer_putnc :: "buffer \<Rightarrow> dev \<Rightarrow> byte \<Rightarrow> int \<Rightarrow> int put_result" where
  "buffer_putnc b d c ntimes = put_times (nat ntimes) b d [c] 1"

definition buffer_putns :: "buffer \<Rightarrow> dev \<Rightarrow> byte list \<Rightarrow> int \<Rightarrow> int put_result" where
  "buffer_putns b d s ntimes = do { len \<leftarrow> str_len s; put_times (nat ntimes) b d s (of_nat len) }"

definition buffer_putnspace :: "buffer \<Rightarrow> dev \<Rightarrow> int \<Rightarrow> int put_result" where
  "buffer_putnspace b d n =
     (if n > 0 then buffer_put b d (replicate (nat n) 0x20) (of_int n) else Some (0, b, d))"

text \<open>The widths narrow to \<open>int\<close> where they are passed to \<open>buffer_putnspace\<close>.\<close>

definition buffer_putspad :: "buffer \<Rightarrow> dev \<Rightarrow> byte list \<Rightarrow> uint64 \<Rightarrow> int put_result" where
  "buffer_putspad b d x pad =
     do { len \<leftarrow> str_len x; alen \<leftarrow> str_ansilen x;
          (r, b, d) \<leftarrow> (if len > 0 then buffer_put b d x (of_nat len) else Some (0, b, d));
          if r < 0 then Some (-1, b, d)
          else do { (r, b, d) \<leftarrow> (if of_nat alen < pad then buffer_putnspace b d (int_of_size (pad - of_nat alen))
                                  else Some (0, b, d));
                    Some (if r < 0 then -1 else 0, b, d) } }"

definition buffer_putspadstart :: "buffer \<Rightarrow> dev \<Rightarrow> byte list \<Rightarrow> uint64 \<Rightarrow> int put_result" where
  "buffer_putspadstart b d x pad =
     do { len \<leftarrow> str_len x; alen \<leftarrow> str_ansilen x;
          (r, b, d) \<leftarrow> (if of_nat alen < pad then buffer_putnspace b d (int_of_size (pad - of_nat alen))
                        else Some (0, b, d));
          if r < 0 then Some (-1, b, d)
          else do { (r, b, d) \<leftarrow> (if len > 0 then buffer_put b d x (of_nat len) else Some (0, b, d));
                    Some (if r < 0 then -1 else 0, b, d) } }"

text \<open>\<open>buffer_putstr\<close> ignores the results of its calls; \<open>None\<close> is \<open>NULL\<close>.\<close>

definition buffer_putstr :: "buffer \<Rightarrow> dev \<Rightarrow> byte list option \<Rightarrow> (buffer \<times> dev) option" where
  "buffer_putstr b d x =
     (case x of
        Some x \<Rightarrow>
          do { (_, b, d) \<leftarrow> buffer_putc b d 0x22; (_, b, d) \<leftarrow> buffer_puts b d x;
               (_, b, d) \<leftarrow> buffer_putc b d 0x22; Some (b, d) }
      | None \<Rightarrow> do { (_, b, d) \<leftarrow> buffer_puts b d (cstr (ascii ''NULL'') []); Some (b, d) })"

subsection \<open>Numbers\<close>

definition put_formatted :: "buffer \<Rightarrow> dev \<Rightarrow> nat \<times> byte list \<Rightarrow> int put_result" where
  "put_formatted b d f = buffer_put b d (snd f) (of_nat (fst f))"

definition buffer_putulong :: "buffer \<Rightarrow> dev \<Rightarrow> uint64 \<Rightarrow> int put_result" where
  "buffer_putulong b d l = put_formatted b d (fmt_ulong True l)"

definition buffer_putulonglong :: "buffer \<Rightarrow> dev \<Rightarrow> uint64 \<Rightarrow> int put_result" where
  "buffer_putulonglong b d i = put_formatted b d (fmt_ulonglong True i)"

definition buffer_put8long :: "buffer \<Rightarrow> dev \<Rightarrow> uint64 \<Rightarrow> int put_result" where
  "buffer_put8long b d l = put_formatted b d (fmt_8long True l)"

definition buffer_putxlong :: "buffer \<Rightarrow> dev \<Rightarrow> uint64 \<Rightarrow> int put_result" where
  "buffer_putxlong b d l = put_formatted b d (fmt_xlong True l)"

definition buffer_putxlonglong :: "buffer \<Rightarrow> dev \<Rightarrow> uint64 \<Rightarrow> int put_result" where
  "buffer_putxlonglong b d l = put_formatted b d (fmt_xlonglong True l)"

definition buffer_putlong :: "buffer \<Rightarrow> dev \<Rightarrow> uint64 \<Rightarrow> int put_result" where
  "buffer_putlong b d l = do { f \<leftarrow> fmt_long True l; put_formatted b d f }"

definition buffer_putlonglong :: "buffer \<Rightarrow> dev \<Rightarrow> uint64 \<Rightarrow> int put_result" where
  "buffer_putlonglong b d i = do { f \<leftarrow> fmt_longlong True i; put_formatted b d f }"

text \<open>Padding with blanks on the left, then the digits.\<close>

definition put_padded :: "buffer \<Rightarrow> dev \<Rightarrow> nat \<times> byte list \<Rightarrow> int \<Rightarrow> int put_result" where
  "put_padded b d f pad =
     do { (r, b, d) \<leftarrow> (if int (fst f) < pad then buffer_putnspace b d (pad - int (fst f)) else Some (0, b, d));
          if r < 0 then Some (-1, b, d) else put_formatted b d f }"

definition buffer_putulong0 :: "buffer \<Rightarrow> dev \<Rightarrow> uint64 \<Rightarrow> int \<Rightarrow> int put_result" where
  "buffer_putulong0 b d l pad = put_padded b d (fmt_ulong True l) pad"

definition buffer_putlong0 :: "buffer \<Rightarrow> dev \<Rightarrow> uint64 \<Rightarrow> int \<Rightarrow> int put_result" where
  "buffer_putlong0 b d l pad = do { f \<leftarrow> fmt_long True l; put_padded b d f pad }"

text \<open>
  \<open>pad - n\<close> wraps as a \<open>size_t\<close> and narrows back to the \<open>int\<close> it would be: a width that
  is too small gives a count that is not positive.
\<close>

definition put_filled :: "buffer \<Rightarrow> dev \<Rightarrow> nat \<times> byte list \<Rightarrow> byte \<Rightarrow> int \<Rightarrow> int put_result" where
  "put_filled b d f c pad =
     do { (r, b, d) \<leftarrow> buffer_putnc b d c (int_of_size (of_int pad - of_nat (fst f)));
          if r < 0 then Some (-1, b, d) else put_formatted b d f }"

definition buffer_putulonglongpad :: "buffer \<Rightarrow> dev \<Rightarrow> uint64 \<Rightarrow> int \<Rightarrow> int put_result" where
  "buffer_putulonglongpad b d l pad = put_filled b d (fmt_ulonglong True l) 0x20 pad"

definition buffer_putxlong0 :: "buffer \<Rightarrow> dev \<Rightarrow> uint64 \<Rightarrow> int \<Rightarrow> int put_result" where
  "buffer_putxlong0 b d l pad = put_filled b d (fmt_xlong True l) 0x30 pad"

definition buffer_putxlonglong0 :: "buffer \<Rightarrow> dev \<Rightarrow> uint64 \<Rightarrow> int \<Rightarrow> int put_result" where
  "buffer_putxlonglong0 b d l pad = put_filled b d (fmt_xlonglong True l) 0x30 pad"

subsection \<open>What has been put\<close>

definition willing :: "reply list \<Rightarrow> bool" where
  "willing rs \<longleftrightarrow> (\<forall>r \<in> set rs. case r of Wrote k \<Rightarrow> 0 < k | Fail e \<Rightarrow> e = EINTR)"

text \<open>The call of \<open>writev\<close> takes all of its \<open>m\<close> bytes at once, or fails.\<close>

fun takes_all :: "reply list \<Rightarrow> nat \<Rightarrow> bool" where
  "takes_all [] m \<longleftrightarrow> True"
| "takes_all (Wrote k # rs) m \<longleftrightarrow> m \<le> k"
| "takes_all (Fail e # rs) m \<longleftrightarrow> (e = EINTR \<longrightarrow> takes_all rs m)"

definition bf_wf :: "buffer \<Rightarrow> bool" where
  "bf_wf b \<longleftrightarrow> unat (ba b) \<le> length (bx b) \<and> bp b \<le> ba b"

definition bf_text :: "buffer \<times> dev \<Rightarrow> byte list" where
  "bf_text bd = taken (snd bd) @ take (unat (bp (fst bd))) (bx (fst bd))"

definition bf_holds :: "buffer \<times> dev \<Rightarrow> byte list \<Rightarrow> bool" where
  "bf_holds bd w \<longleftrightarrow> bf_wf (fst bd) \<and> bf_text bd = w"

lemma willing_Cons:
  "willing (r # rs) \<longleftrightarrow> (case r of Wrote k \<Rightarrow> 0 < k | Fail e \<Rightarrow> e = EINTR) \<and> willing rs"
  by (simp add: willing_def)

text \<open>
  \<open>buffer_stubborn\<close> delivers everything or an initial part; a device that makes progress gets
  everything, however small its bites and however often it is interrupted.
\<close>

lemma stubborn_loop_spec:
  "len \<le> length buf \<Longrightarrow>
     \<exists>r d k. stubborn_loop rs buf len out err = Some (r, d) \<and> taken d = out @ take k buf \<and> k \<le> len \<and>
       (r = 0 \<or> r = -1) \<and> (r = 0 \<longrightarrow> k = len) \<and> (willing rs \<longrightarrow> r = 0 \<and> willing (replies d))"
proof (induction rs buf len out err rule: stubborn_loop.induct)
  case (1 rs buf out err)
  then show ?case by auto
next
  case (2 buf len out err)
  then show ?case by (auto simp: willing_def)
next
  case (3 k rs buf len out err)
  let ?w = "min k (Suc len)"
  show ?case
  proof (cases "k = 0")
    case True
    then show ?thesis using 3(1)[of ?w] 3(3) by (fastforce simp: willing_Cons)
  next
    case False
    then have w: "?w \<noteq> 0" "?w \<le> Suc len" by simp_all
    then have "Suc len - ?w \<le> length (drop ?w buf)" using 3(3) by simp
    then obtain r d j where "stubborn_loop rs (drop ?w buf) (Suc len - ?w) (out @ take ?w buf) err = Some (r, d)"
        "taken d = (out @ take ?w buf) @ take j (drop ?w buf)" "j \<le> Suc len - ?w" "r = 0 \<or> r = -1"
        "r = 0 \<longrightarrow> j = Suc len - ?w" "willing rs \<longrightarrow> r = 0 \<and> willing (replies d)"
      using 3(2)[of ?w] 3(3) w by (auto simp: not_less)
    moreover have "take ?w buf @ take j (drop ?w buf) = take (?w + j) buf" by (simp add: take_add)
    ultimately show ?thesis using w 3(3) False
      by (intro exI[of _ r] exI[of _ d] exI[of _ "?w + j"]) (auto simp: willing_Cons Let_def not_less)
  qed
next
  case (4 e rs buf len out err)
  then show ?case by (fastforce simp: willing_Cons)
qed

lemma buffer_stubborn_spec:
  assumes "len \<le> length buf"
  shows "\<exists>r d' k. buffer_stubborn d buf len = Some (r, d') \<and> taken d' = taken d @ take k buf \<and> k \<le> len \<and>
       (r = 0 \<or> r = -1) \<and> (r = 0 \<longrightarrow> k = len) \<and> (willing (replies d) \<longrightarrow> r = 0 \<and> willing (replies d'))"
  unfolding buffer_stubborn_def using assms by (rule stubborn_loop_spec)

lemma buffer_stubborn_willing:
  assumes "len \<le> length buf" "willing (replies d)"
  shows "\<exists>d'. buffer_stubborn d buf len = Some (0, d') \<and> taken d' = taken d @ take len buf \<and> willing (replies d')"
  using buffer_stubborn_spec[OF assms(1), of d] assms(2) by auto

lemma bf_wf_len: "bf_wf b \<Longrightarrow> unat (bp b) \<le> length (bx b)"
  by (auto simp: bf_wf_def word_le_nat_alt)

lemma buffer_flush_spec:
  assumes "bf_holds (b, d) w"
  shows "\<exists>r b' d' k. buffer_flush b d = Some (r, b', d') \<and> b' = b\<lparr>bp := 0\<rparr> \<and> taken d' = take k w \<and>
       length (taken d) \<le> k \<and> (r = 0 \<or> r = -1) \<and> (r = 0 \<longrightarrow> taken d' = w) \<and>
       (willing (replies d) \<longrightarrow> r = 0 \<and> willing (replies d'))"
proof (cases "bp b = 0")
  case True
  then have "b\<lparr>bp := 0\<rparr> = b" by (cases b) simp
  then show ?thesis using True assms
    by (auto simp: buffer_flush_def bf_holds_def bf_text_def intro!: exI[of _ "length (taken d)"])
next
  case False
  have wf: "unat (bp b) \<le> length (bx b)" and w: "w = taken d @ take (unat (bp b)) (bx b)"
    using assms by (auto simp: bf_holds_def bf_text_def bf_wf_len)
  obtain r d' k where s: "buffer_stubborn d (bx b) (unat (bp b)) = Some (r, d')"
      "taken d' = taken d @ take k (bx b)" "k \<le> unat (bp b)" "r = 0 \<or> r = -1" "r = 0 \<longrightarrow> k = unat (bp b)"
      "willing (replies d) \<longrightarrow> r = 0 \<and> willing (replies d')"
    using buffer_stubborn_spec[OF wf, of d] by blast
  have k: "taken d' = take (length (taken d) + k) w" using s(2,3) w by (simp add: min_absorb1)
  have run: "buffer_flush b d = Some (r, b\<lparr>bp := 0\<rparr>, d')" using False s(1,4) by (auto simp: buffer_flush_def Let_def)
  have "r = 0 \<longrightarrow> taken d' = w" using s(2,5) w by simp
  then show ?thesis using run k s(4,6) le_add1 by blast
qed

lemma bf_holds_flushed:
  "bf_holds (b, d) w \<Longrightarrow> bf_holds (b\<lparr>bp := 0\<rparr>, d') (taken d')"
  by (simp add: bf_holds_def bf_wf_def bf_text_def)

text \<open>Storing at the end of a buffer that has room.\<close>

lemma bf_holds_store:
  assumes "bf_holds (b, d) w" "unat (bp b) + length v \<le> unat (ba b)"
  shows "bf_holds (b\<lparr>bx := splice (bx b) (unat (bp b)) v, bp := bp b + of_nat (length v)\<rparr>, d) (w @ v)"
proof -
  have v: "unat (of_nat (length v) :: uint64) = length v"
    using assms(2) unat_lt_2p[of "ba b"] by (simp add: unat_of_nat)
  have p: "unat (bp b + of_nat (length v)) = unat (bp b) + length v"
    using assms(2) unat_lt_2p[of "ba b"] v by (subst unat_add_small) simp_all
  have "unat (bp b) + length v \<le> length (bx b)" using assms by (auto simp: bf_holds_def bf_wf_def)
  then show ?thesis using assms p
    by (auto simp: bf_holds_def bf_wf_def bf_text_def word_le_nat_alt splice_def)
qed

lemma buffer_put_fits:
  assumes "bf_holds (b, d) w" "unat n \<le> length buf" "unat (bp b) + unat n \<le> unat (ba b)"
  shows "\<exists>x. byte_copy (bx b) (unat (bp b)) (unat n) buf 0 = Some x \<and>
           bf_holds (b\<lparr>bx := x, bp := bp b + n\<rparr>, d) (w @ take (unat n) buf)"
proof -
  have "unat (bp b) + unat n \<le> length (bx b)" using assms by (auto simp: bf_holds_def bf_wf_def)
  then show ?thesis
    using byte_copy_eq[of "unat (bp b)" "unat n" "bx b" 0 buf] bf_holds_store[OF assms(1), of "take (unat n) buf"] assms
    by simp
qed

lemma buffer_put_spec:
  assumes "bf_holds (b, d) w" "unat n \<le> length buf"
  shows "\<exists>r b' d' w'. buffer_put b d buf n = Some (r, b', d') \<and> bf_holds (b', d') w' \<and> (r = 0 \<or> r = -1) \<and>
     (r = 0 \<longrightarrow> w' = w @ take (unat n) buf) \<and> (\<exists>k. w' = take k (w @ take (unat n) buf)) \<and>
     (willing (replies d) \<longrightarrow> r = 0 \<and> willing (replies d'))"
proof (cases "n > ba b - bp b")
  case False
  have "bp b \<le> ba b" using assms(1) by (simp add: bf_holds_def bf_wf_def)
  then have "unat (bp b) + unat n \<le> unat (ba b)"
    using False by (simp add: word_less_nat_alt unat_sub_small word_le_nat_alt)
  then obtain x where "byte_copy (bx b) (unat (bp b)) (unat n) buf 0 = Some x"
      "bf_holds (b\<lparr>bx := x, bp := bp b + n\<rparr>, d) (w @ take (unat n) buf)"
    using buffer_put_fits[OF assms] by blast
  moreover from this have "buffer_put b d buf n = Some (0, b\<lparr>bx := x, bp := bp b + n\<rparr>, d)"
    using False by (simp add: buffer_put_def)
  ultimately show ?thesis using take_all[of "w @ take (unat n) buf"] by (metis order_refl)
next
  case True
  obtain r d' k where f: "buffer_flush b d = Some (r, b\<lparr>bp := 0\<rparr>, d')" "taken d' = take k w"
      "r = 0 \<or> r = -1" "r = 0 \<longrightarrow> taken d' = w" "willing (replies d) \<longrightarrow> r = 0 \<and> willing (replies d')"
    using buffer_flush_spec[OF assms(1)] by blast
  let ?b = "b\<lparr>bp := 0\<rparr>"
  have h: "bf_holds (?b, d') (taken d')" by (rule bf_holds_flushed) fact
  show ?thesis
  proof (cases "r = 0")
    case bad: False
    then have "buffer_put b d buf n = Some (-1, ?b, d')" using True f(1,3) by (simp add: buffer_put_def)
    moreover have "take k w = take (min k (length w)) (w @ take (unat n) buf)" by (simp add: min_def)
    ultimately show ?thesis using h f bad by (metis)
  next
    case good: True
    show ?thesis
    proof (cases "n > ba b")
      case big: True
      obtain r2 d2 j where s: "buffer_stubborn d' buf (unat n) = Some (r2, d2)" "taken d2 = taken d' @ take j buf"
          "j \<le> unat n" "r2 = 0 \<or> r2 = -1" "r2 = 0 \<longrightarrow> j = unat n"
          "willing (replies d') \<longrightarrow> r2 = 0 \<and> willing (replies d2)"
        using buffer_stubborn_spec[OF assms(2), of d'] by blast
      have "buffer_put b d buf n = Some (r2, ?b, d2)" using True good big f(1) s(1,4) by (auto simp: buffer_put_def)
      moreover have "bf_holds (?b, d2) (taken d2)" by (rule bf_holds_flushed) fact
      moreover have "taken d2 = take (length w + j) (w @ take (unat n) buf)"
        using s(2,3) f(4) good by (simp add: min_absorb1)
      moreover have "r2 = 0 \<longrightarrow> taken d2 = w @ take (unat n) buf" using s f good by simp
      ultimately show ?thesis using s(4,6) f(5) by blast
    next
      case fits: False
      then obtain x where "byte_copy (bx ?b) (unat (bp ?b)) (unat n) buf 0 = Some x"
          "bf_holds (?b\<lparr>bx := x, bp := bp ?b + n\<rparr>, d') (w @ take (unat n) buf)"
        using buffer_put_fits[OF h assms(2)] f(4) good by (auto simp: word_less_nat_alt)
      moreover from this have "buffer_put b d buf n = Some (0, ?b\<lparr>bx := x, bp := bp ?b + n\<rparr>, d')"
        using True good fits f(1) by (simp add: buffer_put_def)
      ultimately show ?thesis using f(5) take_all[of "w @ take (unat n) buf"] by (metis order_refl)
    qed
  qed
qed

subsection \<open>Buffers as sinks\<close>

definition bf_put :: "buffer \<times> dev \<Rightarrow> byte list \<Rightarrow> nat \<Rightarrow> (bool \<times> buffer \<times> dev) option" where
  "bf_put bd buf n = map_option (\<lambda>(r, bd). (r = 0, bd)) (buffer_put (fst bd) (snd bd) buf (of_nat n))"

interpretation bf_sink: byte_sink bf_holds bf_put sa_max "\<lambda>bd. willing (replies (snd bd))"
proof
  fix bd :: "buffer \<times> dev" and w n and buf :: "byte list"
  assume a: "bf_holds bd w" "n \<le> length buf" "length w + n < sa_max"
  obtain b d where bd: "bd = (b, d)" by (cases bd)
  have n: "unat (of_nat n :: uint64) = n" using a(3) by (intro unat_of_nat_sa) simp
  obtain r b' d' w' where "buffer_put b d buf (of_nat n) = Some (r, b', d')" "bf_holds (b', d') w'"
      "r = 0 \<longrightarrow> w' = w @ take n buf" "willing (replies d) \<longrightarrow> r = 0 \<and> willing (replies d')"
    using buffer_put_spec[of b d w "of_nat n" buf] a(1,2) bd n by auto
  then show "\<exists>ok s' w'. bf_put bd buf n = Some (ok, s') \<and> bf_holds s' w' \<and> (ok \<longrightarrow> w' = w @ take n buf) \<and>
      (willing (replies (snd bd)) \<longrightarrow> ok \<and> willing (replies (snd s')))"
    by (auto simp: bf_put_def bd)
qed

text \<open>The routines that put several pieces do what the sink's clients do.\<close>

lemma buffer_puts_sink: "map_option (\<lambda>(r, bd). (r = 0, bd)) (buffer_puts b d x) = bf_sink.puts (b, d) x"
  by (cases "str_len x") (simp_all add: buffer_puts_def bf_sink.puts_def bf_put_def)

lemma buffer_put_result: "buffer_put b d buf n = Some (r, b', d') \<Longrightarrow> r = 0 \<or> r = -1"
  by (auto simp: buffer_put_def split: Option.bind_splits if_splits option.splits prod.splits)

lemma buffer_puts_result: "buffer_puts b d x = Some (r, b', d') \<Longrightarrow> r = 0 \<or> r = -1"
  by (auto simp: buffer_puts_def dest: buffer_put_result split: Option.bind_splits)

lemma buffer_putm_sink:
  "map_option (\<lambda>(r, bd). (r = 0, bd)) (buffer_putm_internal b d ss) = bf_sink.putm (b, d) ss"
proof (induction ss arbitrary: b d)
  case (Cons s ss)
  show ?case
  proof (cases "buffer_puts b d s")
    case None
    then show ?thesis using buffer_puts_sink[of b d s] by (simp split: prod.splits)
  next
    case (Some x)
    obtain r b' d' where x: "x = (r, b', d')" by (cases x)
    then have "bf_sink.puts (b, d) s = Some (r = 0, b', d')" using buffer_puts_sink[of b d s] Some by simp
    moreover have "r = 0 \<or> r = -1" using buffer_puts_result Some x by simp
    ultimately show ?thesis using Cons.IH[of b' d'] Some x by auto
  qed
qed simp

lemma buffer_putc_spec:
  assumes "bf_holds (b, d) w"
  shows "\<exists>r b' d' w'. buffer_putc b d c = Some (r, b', d') \<and> bf_holds (b', d') w' \<and> (r = 0 \<or> r = -1) \<and>
     (r = 0 \<longrightarrow> w' = w @ [c]) \<and> (willing (replies d) \<longrightarrow> r = 0 \<and> willing (replies d'))"
proof -
  have le: "bp b \<le> ba b" using assms by (simp add: bf_holds_def bf_wf_def)
  have store: "\<exists>x. wr (bx b') (unat (bp b')) c = Some x \<and> bf_holds (b'\<lparr>bx := x, bp := bp b' + 1\<rparr>, d') (v @ [c])"
    if "bf_holds (b', d') v" "unat (bp b') < unat (ba b')" for b' d' v
  proof -
    have "unat (bp b') < length (bx b')" using that by (auto simp: bf_holds_def bf_wf_def)
    then have "wr (bx b') (unat (bp b')) c = Some (splice (bx b') (unat (bp b')) [c])"
      using list_update_snoc_splice[of "unat (bp b')" "[]" "bx b'" c] by simp
    then show ?thesis using bf_holds_store[OF that(1), of "[c]"] that(2) by simp
  qed
  show ?thesis
  proof (cases "ba b = bp b")
    case False
    then have "unat (bp b) < unat (ba b)" using le by (metis word_unat_eq_iff word_le_nat_alt le_neq_implies_less)
    then show ?thesis using False store[OF assms] by (auto simp: buffer_putc_def)
  next
    case True
    obtain r d' where f: "buffer_flush b d = Some (r, b\<lparr>bp := 0\<rparr>, d')" "r = 0 \<or> r = -1" "r = 0 \<longrightarrow> taken d' = w"
        "willing (replies d) \<longrightarrow> r = 0 \<and> willing (replies d')"
      using buffer_flush_spec[OF assms] by blast
    have h: "bf_holds (b\<lparr>bp := 0\<rparr>, d') (taken d')" by (rule bf_holds_flushed) fact
    obtain r2 d2 j where s: "buffer_stubborn d' [c] 1 = Some (r2, d2)" "taken d2 = taken d' @ take j [c]"
        "r2 = 0 \<or> r2 = -1" "r2 = 0 \<longrightarrow> j = 1" "willing (replies d') \<longrightarrow> r2 = 0 \<and> willing (replies d2)"
      using buffer_stubborn_spec[of 1 "[c]" d'] by auto
    have h2: "bf_holds (b\<lparr>bp := 0\<rparr>, d2) (taken d2)" by (rule bf_holds_flushed) fact
    consider "r \<noteq> 0" | "r = 0" "ba b = 0" | "r = 0" "ba b \<noteq> 0" by blast
    then show ?thesis
    proof cases
      case 1
      then show ?thesis using True f h by (auto simp: buffer_putc_def)
    next
      case 2
      then show ?thesis using True f s h2 by (auto simp: buffer_putc_def)
    next
      case 3
      then have "unat (bp (b\<lparr>bp := 0\<rparr>)) < unat (ba (b\<lparr>bp := 0\<rparr>))" by (simp add: unat_gt_0)
      then show ?thesis using True 3 f store[OF h] by (auto simp: buffer_putc_def)
    qed
  qed
qed

lemma writev_loop_all:
  "takes_all rs (length v) \<Longrightarrow>
     \<exists>w d. writev_loop rs v out err = (w, d) \<and>
       (w = int (length v) \<and> taken d = out @ v \<or> w = -1 \<and> taken d = out) \<and>
       (willing rs \<longrightarrow> w \<noteq> -1 \<and> willing (replies d))"
  by (induction rs v out err rule: writev_loop.induct) (auto simp: willing_Cons willing_def)

lemma buffer_putflush_gathers:
  assumes "bf_holds (b, d) w" "unat n \<le> length buf" "bp b \<noteq> 0" "takes_all (replies d) (unat (bp b) + unat n)"
  shows "\<exists>r b' d'. buffer_putflush True b d buf n = Some (r, b', d') \<and> bf_wf b' \<and> (r = 0 \<or> r = -1) \<and>
     (r = 0 \<longrightarrow> bp b' = 0 \<and> taken d' = w @ take (unat n) buf) \<and>
     (willing (replies d) \<longrightarrow> r = 0 \<and> willing (replies d'))"
proof -
  let ?v = "take (unat (bp b)) (bx b) @ take (unat n) buf"
  have wf: "bf_wf b" "unat (bp b) \<le> length (bx b)" and w: "w = taken d @ take (unat (bp b)) (bx b)"
    using assms(1) by (auto simp: bf_holds_def bf_text_def bf_wf_len)
  have len: "length ?v = unat (bp b) + unat n" using wf(2) assms(2) by simp
  have "bf_wf (b\<lparr>bp := 0\<rparr>)" using wf(1) by (simp add: bf_wf_def)
  moreover obtain m d' where "writev_loop (replies d) ?v (taken d) (errno d) = (m, d')"
      "m = int (length ?v) \<and> taken d' = taken d @ ?v \<or> m = -1 \<and> taken d' = taken d"
      "willing (replies d) \<longrightarrow> m \<noteq> -1 \<and> willing (replies d')"
    using writev_loop_all[of "replies d" ?v "taken d" "errno d"] assms(4) len by auto
  moreover have "\<not> int (length ?v) < 0" by linarith
  moreover have "of_int (int (length ?v)) = bp b + n" unfolding len by simp
  ultimately show ?thesis using assms(2,3) wf w by (auto simp: buffer_putflush_def simp del: length_append)
qed

lemma buffer_putflush_spec:
  assumes "bf_holds (b, d) w" "unat n \<le> length buf"
    "gather \<longrightarrow> bp b = 0 \<or> takes_all (replies d) (unat (bp b) + unat n)"
  shows "\<exists>r b' d'. buffer_putflush gather b d buf n = Some (r, b', d') \<and> bf_wf b' \<and> (r = 0 \<or> r = -1) \<and>
     (r = 0 \<longrightarrow> bp b' = 0 \<and> taken d' = w @ take (unat n) buf) \<and>
     (willing (replies d) \<longrightarrow> r = 0 \<and> willing (replies d'))"
proof (cases "bp b = 0")
  case True
  then have w: "taken d = w" and wf: "bf_wf b" using assms(1) by (auto simp: bf_holds_def bf_text_def)
  obtain r d' k where "buffer_stubborn d buf (unat n) = Some (r, d')" "taken d' = taken d @ take k buf"
      "r = 0 \<or> r = -1" "r = 0 \<longrightarrow> k = unat n" "willing (replies d) \<longrightarrow> r = 0 \<and> willing (replies d')"
    using buffer_stubborn_spec[OF assms(2), of d] by blast
  then show ?thesis using True w wf by (auto simp: buffer_putflush_def)
next
  case False
  show ?thesis
  proof (cases gather)
    case True
    then show ?thesis using buffer_putflush_gathers[OF assms(1,2) False] assms(3) False by simp
  next
    case plain: False
    obtain r b1 d1 w1 where p: "buffer_put b d buf n = Some (r, b1, d1)" "bf_holds (b1, d1) w1" "r = 0 \<or> r = -1"
        "r = 0 \<longrightarrow> w1 = w @ take (unat n) buf" "willing (replies d) \<longrightarrow> r = 0 \<and> willing (replies d1)"
      using buffer_put_spec[OF assms(1,2)] by blast
    obtain r2 d2 where f: "buffer_flush b1 d1 = Some (r2, b1\<lparr>bp := 0\<rparr>, d2)" "r2 = 0 \<or> r2 = -1"
        "r2 = 0 \<longrightarrow> taken d2 = w1" "willing (replies d1) \<longrightarrow> r2 = 0 \<and> willing (replies d2)"
      using buffer_flush_spec[OF p(2)] by blast
    have "bf_wf b1" "bf_wf (b1\<lparr>bp := 0\<rparr>)" using p(2) by (auto simp: bf_holds_def bf_wf_def)
    then show ?thesis using False plain p f by (auto simp: buffer_putflush_def)
  qed
qed

text \<open>After a partial \<open>writev\<close>.\<close>

lemma take_apart: "m \<le> n \<Longrightarrow> take m x @ take (n - m) (drop m x) = take n x"
  using take_add[of m "n - m" x] by simp

lemma putflush_partial_behind:
  assumes "unat (bp b) \<le> unat w" "unat w < unat (bp b) + unat n" "unat n \<le> length x" "willing (replies d)"
  shows "\<exists>d'. putflush_partial b d x n w = Some (0, b, d') \<and> willing (replies d') \<and>
     taken d' = taken d @ take (unat n - (unat w - unat (bp b))) (drop (unat w - unat (bp b)) x)"
proof -
  have "unat (w - bp b) = unat w - unat (bp b)" "\<not> w < bp b" "unat (n - (w - bp b)) = unat n - (unat w - unat (bp b))"
    using assms(1,2) by (simp_all add: unat_sub_small word_le_nat_alt word_less_nat_alt)
  then show ?thesis
    using buffer_stubborn_willing[of "unat n - (unat w - unat (bp b))" "drop (unat w - unat (bp b)) x" d]
      assms(4) diff_le_mono[OF assms(3)] by (auto simp: putflush_partial_def Let_def)
qed

lemma putflush_partial_within:
  assumes "unat w < unat (bp b)" "unat (bp b) \<le> length (bx b)" "unat (bp b) \<le> length x" "willing (replies d)"
  shows "\<exists>d'. putflush_partial b d x n w = Some (0, b\<lparr>bp := 0\<rparr>, d') \<and>
     taken d' = taken d @ take (unat (bp b) - unat w) (drop (unat w) (bx b)) @ take (unat (bp b)) x"
proof -
  have "w < bp b" "unat (bp b - w) = unat (bp b) - unat w"
    using assms(1) by (simp_all add: unat_sub_small word_less_nat_alt)
  moreover obtain d1 where d1: "buffer_stubborn d (drop (unat w) (bx b)) (unat (bp b) - unat w) = Some (0, d1)"
      "taken d1 = taken d @ take (unat (bp b) - unat w) (drop (unat w) (bx b))" "willing (replies d1)"
    using buffer_stubborn_willing[of "unat (bp b) - unat w" "drop (unat w) (bx b)" d] assms(4) diff_le_mono[OF assms(2)] by auto
  ultimately show ?thesis using buffer_stubborn_willing[OF assms(3) d1(3)] by (auto simp: putflush_partial_def)
qed

text \<open>Numbers: what the formatter stored is put, with its padding in front.\<close>

lemma put_formatted_spec:
  assumes "bf_holds (b, d) w" "length x < sa_max"
  shows "\<exists>r b' d' w'. put_formatted b d (length x, x) = Some (r, b', d') \<and> bf_holds (b', d') w' \<and>
     (r = 0 \<or> r = -1) \<and> (r = 0 \<longrightarrow> w' = w @ x) \<and> (willing (replies d) \<longrightarrow> r = 0 \<and> willing (replies d'))"
  using buffer_put_spec[OF assms(1), of "of_nat (length x)" x] assms(2)
  by (auto simp: put_formatted_def unat_of_nat_sa)

lemma buffer_putnspace_spec:
  assumes "bf_holds (b, d) w" "n < int sa_max"
  shows "\<exists>r b' d' w'. buffer_putnspace b d n = Some (r, b', d') \<and> bf_holds (b', d') w' \<and> (r = 0 \<or> r = -1) \<and>
     (r = 0 \<longrightarrow> w' = w @ replicate (nat n) 0x20) \<and> (willing (replies d) \<longrightarrow> r = 0 \<and> willing (replies d'))"
proof (cases "n > 0")
  case True
  then have "unat (of_int n :: uint64) = nat n" using assms(2) unat_of_nat_sa[of "nat n"] by simp
  then show ?thesis using True buffer_put_spec[OF assms(1), of "of_int n" "replicate (nat n) 0x20"]
    by (auto simp: buffer_putnspace_def)
next
  case False
  then show ?thesis using assms(1) by (auto simp: buffer_putnspace_def)
qed

lemma put_padded_spec:
  assumes "bf_holds (b, d) w" "length x < sa_max" "pad < int sa_max"
  shows "\<exists>r b' d' w'. put_padded b d (length x, x) pad = Some (r, b', d') \<and> bf_holds (b', d') w' \<and>
     (r = 0 \<or> r = -1) \<and> (r = 0 \<longrightarrow> w' = w @ replicate (nat pad - length x) 0x20 @ x) \<and>
     (willing (replies d) \<longrightarrow> r = 0 \<and> willing (replies d'))"
proof -
  let ?n = "pad - int (length x)"
  have n: "nat ?n = nat pad - length x" by (simp add: nat_diff_distrib')
  obtain r b1 d1 w1 where p: "(if int (length x) < pad then buffer_putnspace b d ?n else Some (0, b, d)) = Some (r, b1, d1)"
      "bf_holds (b1, d1) w1" "r = 0 \<or> r = -1" "r = 0 \<longrightarrow> w1 = w @ replicate (nat pad - length x) 0x20"
      "willing (replies d) \<longrightarrow> r = 0 \<and> willing (replies d1)"
  proof (cases "int (length x) < pad")
    case True
    then show ?thesis using that buffer_putnspace_spec[OF assms(1), of ?n] assms(3) n by auto
  next
    case False
    then have "nat pad - length x = 0" by simp
    then show ?thesis using that[of 0 b d w] False assms(1) by simp
  qed
  show ?thesis
  proof (cases "r = 0")
    case True
    then show ?thesis using p put_formatted_spec[OF p(2) assms(2)] by (auto simp: put_padded_def)
  next
    case False
    then show ?thesis using p by (auto simp: put_padded_def)
  qed
qed

lemma buffer_putulong_spec:
  assumes "bf_holds (b, d) w"
  shows "\<exists>r b' d' w'. buffer_putulong b d l = Some (r, b', d') \<and> bf_holds (b', d') w' \<and>
     (r = 0 \<or> r = -1) \<and> (r = 0 \<longrightarrow> w' = w @ dec.render (unat l)) \<and>
     (willing (replies d) \<longrightarrow> r = 0 \<and> willing (replies d'))"
proof -
  have "unat l < 10 ^ 20" using unat_lt_2p[of l] by simp
  then have "length (dec.render (unat l)) \<le> 20" by (intro dec.length_render_le) simp_all
  then show ?thesis using put_formatted_spec[OF assms, of "dec.render (unat l)"]
    by (simp add: buffer_putulong_def fmt_num_eq sa_max_def)
qed

subsection \<open>Runs of output calls\<close>

text \<open>One successful call, labelled with the text it was given, and sequences of such calls.\<close>

inductive bf_step :: "buffer \<times> dev \<Rightarrow> byte list \<Rightarrow> buffer \<times> dev \<Rightarrow> bool" where
  step_put: "buffer_put b d buf n = Some (0, b', d') \<Longrightarrow> unat n \<le> length buf \<Longrightarrow>
    bf_step (b, d) (take (unat n) buf) (b', d')"
| step_putc: "buffer_putc b d c = Some (0, b', d') \<Longrightarrow> bf_step (b, d) [c] (b', d')"
| step_putflush: "buffer_putflush gather b d buf n = Some (0, b', d') \<Longrightarrow> unat n \<le> length buf \<Longrightarrow>
    (gather \<longrightarrow> bp b = 0 \<or> takes_all (replies d) (unat (bp b) + unat n)) \<Longrightarrow>
    bf_step (b, d) (take (unat n) buf) (b', d')"
| step_flush: "buffer_flush b d = Some (0, b', d') \<Longrightarrow> bf_step (b, d) [] (b', d')"

inductive bf_run :: "buffer \<times> dev \<Rightarrow> byte list \<Rightarrow> buffer \<times> dev \<Rightarrow> bool" where
  run_done: "bf_run s [] s"
| run_more: "bf_run s v s' \<Longrightarrow> bf_step s' w s'' \<Longrightarrow> bf_run s (v @ w) s''"

inductive_cases bf_stepE: "bf_step s w s'"

lemma bf_step_holds: "bf_step s w s' \<Longrightarrow> bf_holds s v \<Longrightarrow> bf_holds s' (v @ w)"
proof (induction rule: bf_step.induct)
  case (step_put b d buf n b' d')
  then show ?case using buffer_put_spec[of b d v n buf] by fastforce
next
  case (step_putc b d c b' d')
  then show ?case using buffer_putc_spec[of b d v c] by fastforce
next
  case (step_putflush gather b d buf n b' d')
  then show ?case using buffer_putflush_spec[of b d v n buf gather] by (fastforce simp: bf_holds_def bf_text_def)
next
  case (step_flush b d b' d')
  then show ?case using buffer_flush_spec[of b d v] bf_holds_flushed[of b d v] by fastforce
qed

lemma bf_run_holds: "bf_run s w s' \<Longrightarrow> bf_holds s v \<Longrightarrow> bf_holds s' (v @ w)"
proof (induction rule: bf_run.induct)
  case (run_more s v' s' w s'')
  then show ?case using bf_step_holds[of s' w s'' "v @ v'"] by simp
qed simp

subsection \<open>Properties\<close>

text \<open>
  C2. A buffer loses, repeats and reorders nothing: after any sequence of successful calls of
  \<open>buffer_put\<close>, \<open>buffer_putc\<close>, \<open>buffer_flush\<close> and \<open>buffer_putflush\<close>, what the device has taken
  followed by what is still in the buffer is what was there before followed by the text of the calls,
  so the device has an initial part of it, and all of it after a flush.  \<open>buffer_putflush\<close> is taken
  with and without its \<open>writev\<close> branch; a call of \<open>writev\<close> on a buffer that is not empty has to
  take all it is offered at once (\<open>takes_all\<close>), as the code does not recover from a partial one.
\<close>
theorem buffer_output_exact:
  assumes "bf_run (b, d) w (b', d')" "bf_wf b"
  shows "bf_wf b' \<and> taken d' @ take (unat (bp b')) (bx b') = taken d @ take (unat (bp b)) (bx b) @ w \<and>
         (buffer_flush b' d' = Some (0, b'', d'') \<longrightarrow> taken d'' = taken d @ take (unat (bp b)) (bx b) @ w)"
proof -
  have h: "bf_holds (b', d') (taken d @ take (unat (bp b)) (bx b) @ w)"
    using bf_run_holds[OF assms(1), of "taken d @ take (unat (bp b)) (bx b)"] assms(2)
    by (simp add: bf_holds_def bf_text_def)
  moreover have "taken d'' = taken d @ take (unat (bp b)) (bx b) @ w" if "buffer_flush b' d' = Some (0, b'', d'')"
    using buffer_flush_spec[OF h] that by auto
  ultimately show ?thesis by (simp add: bf_holds_def bf_text_def)
qed

theorem buffer_output_exact_witness:
  "taken \<lparr>replies = [Fail EINTR], taken = [7, 8, 9, 5], errno = 0\<rparr> @
     take (unat (0 :: uint64)) [9, 8 :: byte] = [] @ take (unat (0 :: uint64)) [0, 0] @ [7, 8, 9, 5]"
proof -
  let ?d0 = "\<lparr>replies = [Wrote 3, Wrote 2, Fail EINTR], taken = [], errno = 0\<rparr>"
  let ?d1 = "\<lparr>replies = [Wrote 2, Fail EINTR], taken = [7, 8], errno = 0\<rparr>"
  let ?d2 = "\<lparr>replies = [Fail EINTR], taken = [7, 8, 9, 5], errno = 0\<rparr>"
  let ?b0 = "\<lparr>bx = [0, 0], bp = 0, bn = 0, ba = 2\<rparr>" and ?b1 = "\<lparr>bx = [7, 8], bp = 2, bn = 0, ba = 2\<rparr>"
  let ?b2 = "\<lparr>bx = [9, 8], bp = 1, bn = 0, ba = 2\<rparr>" and ?b3 = "\<lparr>bx = [9, 8], bp = 0, bn = 0, ba = 2\<rparr>"
  have "buffer_put ?b0 ?d0 [7, 8] 2 = Some (0, ?b1, ?d0)" by code_simp
  then have s1: "bf_step (?b0, ?d0) [7, 8] (?b1, ?d0)" using step_put[of ?b0 ?d0 "[7, 8]" 2 ?b1 ?d0] by simp
  have "buffer_putc ?b1 ?d0 9 = Some (0, ?b2, ?d1)" by code_simp
  then have s2: "bf_step (?b1, ?d0) [9] (?b2, ?d1)" by (rule step_putc)
  have "buffer_putflush True ?b2 ?d1 [5] 1 = Some (0, ?b3, ?d2)" by code_simp
  then have s3: "bf_step (?b2, ?d1) [5] (?b3, ?d2)" using step_putflush[of True ?b2 ?d1 "[5]" 1 ?b3 ?d2] by simp
  have "bf_run (?b0, ?d0) ([] @ [7, 8]) (?b1, ?d0)" by (rule run_more[OF run_done s1])
  then have "bf_run (?b0, ?d0) (([] @ [7, 8]) @ [9]) (?b2, ?d1)" using s2 by (rule run_more)
  then have "bf_run (?b0, ?d0) ((([] @ [7, 8]) @ [9]) @ [5]) (?b3, ?d2)" using s3 by (rule run_more)
  from buffer_output_exact[OF this, of ?b3 ?d2] show ?thesis by (simp add: bf_wf_def)
qed

text \<open>
  C37. After a partial \<open>writev\<close> on a buffer that is not empty \<open>buffer_putflush\<close> returns 0 on a device
  that makes progress, but does not do its work.  When the call took the whole buffer, the text is
  delivered but the buffer is not emptied, and the next flush delivers the buffered bytes again.
  When it took less, the rest of the buffer is delivered and then as many bytes at \<open>x\<close> as the
  buffer held instead of \<open>len\<close>: with fewer of them new bytes are lost, with more of them bytes behind
  the new ones are delivered (where there are some).
\<close>
theorem buffer_putflush_partial_write:
  assumes "bf_wf b" "bp b \<noteq> 0" "unat n \<le> length x" "replies d = Wrote k # rs" "willing rs"
    "k < unat (bp b) + unat n" "unat (bp b) + unat n < 2 ^ 64"
  shows "(unat (bp b) \<le> k \<longrightarrow>
            (\<exists>d1 d2. buffer_putflush True b d x n = Some (0, b, d1) \<and>
               taken d1 = taken d @ take (unat (bp b)) (bx b) @ take (unat n) x \<and>
               buffer_flush b d1 = Some (0, b\<lparr>bp := 0\<rparr>, d2) \<and>
               taken d2 = taken d1 @ take (unat (bp b)) (bx b))) \<and>
         (k < unat (bp b) \<and> unat (bp b) \<le> length x \<longrightarrow>
            (\<exists>d1. buffer_putflush True b d x n = Some (0, b\<lparr>bp := 0\<rparr>, d1) \<and>
               taken d1 = taken d @ take (unat (bp b)) (bx b) @ take (unat (bp b)) x))"
proof -
  let ?p = "unat (bp b)"
  let ?d = "\<lparr>replies = rs, taken = taken d @ take k (take ?p (bx b) @ take (unat n) x), errno = errno d\<rparr>"
  have p: "?p \<le> length (bx b)" using assms(1) by (rule bf_wf_len)
  have k: "unat (of_nat k :: uint64) = k" using assms(6,7) by (simp add: unat_of_nat)
  have "unat (bp b + n) = ?p + unat n" using assms(7) by (intro unat_add_small) simp
  then have "of_nat k \<noteq> bp b + n" using k assms(6) by auto
  then have run: "buffer_putflush True b d x n = putflush_partial b ?d x n (of_nat k)"
    using assms(2,3,4,6) p by (simp add: buffer_putflush_def min_absorb1)
  show ?thesis
  proof (intro conjI impI)
    assume le: "?p \<le> k"
    obtain d1 where d1: "putflush_partial b ?d x n (of_nat k) = Some (0, b, d1)"
        "taken d1 = taken ?d @ take (unat n - (k - ?p)) (drop (k - ?p) x)" "willing (replies d1)"
      using putflush_partial_behind[of b "of_nat k" n x ?d] k le assms(3,5,6) by (auto simp del: take_append)
    have "taken d1 = taken d @ take ?p (bx b) @ take (unat n) x"
      using d1(2) take_apart[of "k - ?p" "unat n" x] le p assms(6) by (simp add: min_absorb1 min_absorb2)
    moreover obtain d2 where "buffer_flush b d1 = Some (0, b\<lparr>bp := 0\<rparr>, d2)" "taken d2 = taken d1 @ take ?p (bx b)"
      using buffer_flush_spec[of b d1 "taken d1 @ take ?p (bx b)"] assms(1) d1(3) by (auto simp: bf_holds_def bf_text_def)
    ultimately show "\<exists>d1 d2. buffer_putflush True b d x n = Some (0, b, d1) \<and>
        taken d1 = taken d @ take ?p (bx b) @ take (unat n) x \<and>
        buffer_flush b d1 = Some (0, b\<lparr>bp := 0\<rparr>, d2) \<and> taken d2 = taken d1 @ take ?p (bx b)"
      using run d1(1) by auto
  next
    assume lt: "k < ?p \<and> ?p \<le> length x"
    then show "\<exists>d1. buffer_putflush True b d x n = Some (0, b\<lparr>bp := 0\<rparr>, d1) \<and>
        taken d1 = taken d @ take ?p (bx b) @ take ?p x"
      using putflush_partial_within[of "of_nat k" b x ?d n] run k p assms(5) take_apart[of k ?p "bx b"]
      by (auto simp: min_absorb1)
  qed
qed

theorem buffer_putflush_partial_write_witness:
  "(\<exists>d1 d2. buffer_putflush True \<lparr>bx = [7, 8, 0], bp = 2, bn = 0, ba = 3\<rparr>
       \<lparr>replies = [Wrote 3], taken = [], errno = 0\<rparr> [5, 6] 2 = Some (0, \<lparr>bx = [7, 8, 0], bp = 2, bn = 0, ba = 3\<rparr>, d1) \<and>
     taken d1 = [7, 8, 5, 6] \<and>
     buffer_flush \<lparr>bx = [7, 8, 0], bp = 2, bn = 0, ba = 3\<rparr> d1 = Some (0, \<lparr>bx = [7, 8, 0], bp = 0, bn = 0, ba = 3\<rparr>, d2) \<and>
     taken d2 = [7, 8, 5, 6, 7, 8]) \<and>
   (\<exists>d1. buffer_putflush True \<lparr>bx = [7, 0], bp = 1, bn = 0, ba = 2\<rparr>
       \<lparr>replies = [Wrote 0], taken = [], errno = 0\<rparr> [5, 6] 2 = Some (0, \<lparr>bx = [7, 0], bp = 0, bn = 0, ba = 2\<rparr>, d1) \<and>
     taken d1 = [7, 5])"
  using buffer_putflush_partial_write[of "\<lparr>bx = [7, 8, 0], bp = 2, bn = 0, ba = 3\<rparr>" 2 "[5, 6]"
      "\<lparr>replies = [Wrote 3], taken = [], errno = 0\<rparr>" 3 "[]"]
    buffer_putflush_partial_write[of "\<lparr>bx = [7, 0], bp = 1, bn = 0, ba = 2\<rparr>" 2 "[5, 6]"
      "\<lparr>replies = [Wrote 0], taken = [], errno = 0\<rparr>" 0 "[]"]
  by (fastforce simp: bf_wf_def willing_def)

text \<open>
  A device that always makes progress gets everything: \<open>buffer_putm_internal_flush\<close> returns 0
  and has delivered the buffered text and all of its strings, however small the writes the device
  accepts, however often it is interrupted, and whatever the size of the buffer.
\<close>
theorem buffer_putmflush_delivers:
  assumes "bf_wf b" "list_all nonul xs" "willing (replies d)"
    "length (taken d) + unat (bp b) + length (concat xs) < sa_max"
  shows "\<exists>b' d'. buffer_putm_internal_flush b d (map (\<lambda>x. cstr x []) xs) = Some (0, b', d') \<and>
           taken d' = taken d @ take (unat (bp b)) (bx b) @ concat xs"
proof -
  let ?w = "taken d @ take (unat (bp b)) (bx b)"
  have h: "bf_holds (b, d) ?w" using assms(1) by (simp add: bf_holds_def bf_text_def)
  have "length ?w + length (concat xs) < sa_max" using assms(4) bf_wf_len[OF assms(1)] by simp
  then obtain b1 d1 where p: "bf_sink.putm (b, d) (map (\<lambda>x. cstr x []) xs) = Some (True, b1, d1)"
      "bf_holds (b1, d1) (?w @ concat xs)" "willing (replies d1)"
    using bf_sink.putm_law[OF h assms(2)] assms(3) by auto
  then obtain r where r: "buffer_putm_internal b d (map (\<lambda>x. cstr x []) xs) = Some (r, b1, d1)" "r = 0"
    using buffer_putm_sink[of b d "map (\<lambda>x. cstr x []) xs"] by auto
  show ?thesis using buffer_flush_spec[OF p(2)] p(3) r by (auto simp: buffer_putm_internal_flush_def)
qed

theorem buffer_putmflush_delivers_witness:
  "\<exists>b' d'. buffer_putm_internal_flush \<lparr>bx = [0, 0], bp = 0, bn = 0, ba = 2\<rparr>
       \<lparr>replies = [Wrote 1, Fail EINTR], taken = [], errno = 0\<rparr> (map (\<lambda>x. cstr x []) [[65], [66, 67]]) =
       Some (0, b', d') \<and> taken d' = [65, 66, 67]"
  using buffer_putmflush_delivers[of "\<lparr>bx = [0, 0], bp = 0, bn = 0, ba = 2\<rparr>" "[[65], [66, 67]]"
      "\<lparr>replies = [Wrote 1, Fail EINTR], taken = [], errno = 0\<rparr>"]
  by (simp add: bf_wf_def willing_def sa_max_def)

end
