(* ===== verification/BufferIn.thy ===== *)
theory BufferIn
  imports Buffer
begin

text \<open>
  Input through a \<open>buffer\<close> (\<open>src/lib/buffer\<close> and the token readers of
  \<open>src/lib/stralloc\<close>).  The source stands for the descriptor and the operation \<open>op\<close>: its
  script has the replies of the next reads, \<open>Data c\<close> for bytes that have arrived (a read takes as
  many as it asked for and leaves the others), \<open>RFail e\<close> for an error.  An empty \<open>Data\<close> and
  the end of the script are the end of the file; the operations of buffers over memory, which always
  return 0, and an \<open>op\<close> that is \<open>NULL\<close> are an empty script.
  The bytes a routine stores through its destination are returned as a list.
\<close>

subsection \<open>The source\<close>

datatype rreply = Data "byte list" | RFail nat

record src =
  rreplies :: "rreply list"
  rerrno :: nat

fun stubborn_read_loop :: "rreply list \<Rightarrow> nat \<Rightarrow> nat \<Rightarrow> int \<times> byte list \<times> src" where
  "stubborn_read_loop [] len err = (0, [], \<lparr>rreplies = [], rerrno = err\<rparr>)"
| "stubborn_read_loop (Data c # rs) len err =
     (let k = min len (length c); rest = drop k c
      in (int k, take k c, \<lparr>rreplies = if rest = [] then rs else Data rest # rs, rerrno = err\<rparr>))"
| "stubborn_read_loop (RFail e # rs) len err =
     (if e = EINTR then stubborn_read_loop rs len e else (-1, [], \<lparr>rreplies = rs, rerrno = e\<rparr>))"

definition buffer_stubborn_read :: "src \<Rightarrow> nat \<Rightarrow> int \<times> byte list \<times> src" where
  "buffer_stubborn_read s len = stubborn_read_loop (rreplies s) len (rerrno s)"

subsection \<open>Filling the buffer\<close>

type_synonym 'r get_result = "('r \<times> buffer \<times> src) option"

definition buffer_frombuf :: "buffer \<Rightarrow> byte list \<Rightarrow> uint64 \<Rightarrow> buffer" where
  "buffer_frombuf b x l = b\<lparr>bx := x, bp := 0, bn := l, ba := l\<rparr>"

definition buffer_fromsa :: "buffer \<Rightarrow> stralloc \<Rightarrow> buffer" where
  "buffer_fromsa b sa = buffer_frombuf b (sa_mem sa) (sa_len sa)"

definition buffer_fromstr :: "buffer \<Rightarrow> byte list \<Rightarrow> uint64 \<Rightarrow> buffer" where
  "buffer_fromstr b s len = b\<lparr>bx := s, bp := 0, bn := len, ba := len + 1\<rparr>"

definition buffer_feed :: "buffer \<Rightarrow> src \<Rightarrow> int get_result" where
  "buffer_feed b s =
     (if bp b = bn b then
        let (w, c, s) = buffer_stubborn_read s (unat (ba b))
        in if w < 0 then Some (-1, b, s)
           else if length (bx b) < length c then None
           else let b = b\<lparr>bx := splice (bx b) 0 c, bn := of_int w, bp := 0\<rparr> in Some (sint (bn b - bp b), b, s)
      else Some (sint (bn b - bp b), b, s))"

text \<open>
  \<open>buffer_prefetch\<close> first moves what is left to the front when the request would reach the end of
  the space; \<open>mm\<close> says that the buffer is a mapped file, which cannot be refilled.  The result
  and the count of each read are an \<open>int\<close>.  Every read of the loop adds a byte, so \<open>n + 1\<close>
  rounds are enough.
\<close>

primrec prefetch_loop :: "nat \<Rightarrow> buffer \<Rightarrow> src \<Rightarrow> uint64 \<Rightarrow> int get_result" where
  "prefetch_loop 0 b s n = None"
| "prefetch_loop (Suc fuel) b s n =
     (if bn b < bp b + n then
        let (r, c, s) = buffer_stubborn_read s (unat (ba b - bn b)); w = int_of_size (of_int r)
        in if length (bx b) < unat (bn b) + length c then None
           else let b = b\<lparr>bx := splice (bx b) (unat (bn b)) c\<rparr>
                in if w < 0 then Some (-1, b, s)
                   else let b = b\<lparr>bn := bn b + of_int w\<rparr>
                        in if w = 0 then Some (int_of_size (bn b - bp b), b, s) else prefetch_loop fuel b s n
      else Some (int_of_size (bn b - bp b), b, s))"

definition buffer_prefetch :: "bool \<Rightarrow> buffer \<Rightarrow> src \<Rightarrow> uint64 \<Rightarrow> int get_result" where
  "buffer_prefetch mm b s n =
     (if bp b \<noteq> 0 \<and> bp b + n \<ge> ba b \<and> mm then Some (int_of_size (bn b - bp b), b, s)
      else do { b \<leftarrow> (if bp b \<noteq> 0 \<and> bp b + n \<ge> ba b then
                         do { x \<leftarrow> byte_copy_within (bx b) 0 (unat (bn b - bp b)) (unat (bp b));
                              Some (b\<lparr>bx := x, bn := bn b - bp b, bp := 0\<rparr>) }
                       else Some b);
                let n = (if bp b + n \<ge> ba b then ba b - bp b else n);
                if n = 0 then Some (-1, b, s) else prefetch_loop (unat n + 1) b s n })"

definition buffer_freshen :: "buffer \<Rightarrow> src \<Rightarrow> int get_result" where
  "buffer_freshen b s =
     do { let bytes = bn b - bp b;
          b \<leftarrow> (if bp b > 0 \<and> bytes \<noteq> 0 then
                   do { x \<leftarrow> byte_copy_within (bx b) 0 (unat (bn b - bp b)) (unat (bp b));
                        Some (b\<lparr>bx := x, bn := bn b - bp b, bp := 0\<rparr>) }
                 else Some b);
          let b = (if bp b = bn b then b\<lparr>bp := 0, bn := 0\<rparr> else b);
          if bn b < ba b then
            let (w, c, s) = buffer_stubborn_read s (unat (ba b - bn b))
            in if length (bx b) < unat (bn b) + length c then None
               else let b = (if w > 0 then b\<lparr>bx := splice (bx b) (unat (bn b)) c, bn := bn b + of_int w\<rparr> else b)
                    in if w = -1 then Some (-1, b, s) else Some (int_of_size (bn b - bp b), b, s)
          else Some (int_of_size (bn b - bp b), b, s) }"

subsection \<open>Reading\<close>

definition ssize :: "nat \<Rightarrow> nat" where
  "ssize len = (if 2 ^ 63 \<le> len then 2 ^ 63 - 1 else len)"

function get_loop :: "nat \<Rightarrow> byte list \<Rightarrow> buffer \<Rightarrow> src \<Rightarrow> (int \<times> byte list) get_result" where
  "get_loop len out b s =
     (if len = 0 then Some ((int (length out), out), b, s)
      else do { (blen, b, s) \<leftarrow> buffer_feed b s;
                if blen < 0 then Some ((blen, out), b, s)
                else if blen = 0 then Some ((int (length out), out), b, s)
                else let k = (if blen \<ge> int len then len else nat blen)
                     in if length (bx b) < unat (bp b) + k then None
                        else get_loop (len - k) (out @ take k (drop (unat (bp b)) (bx b)))
                               (b\<lparr>bp := bp b + of_nat k\<rparr>) s })"
  by pat_completeness auto
termination by (relation "measure (\<lambda>(len, out, b, s). len)") (auto split: if_splits)

declare get_loop.simps [simp del]

definition buffer_get :: "buffer \<Rightarrow> src \<Rightarrow> nat \<Rightarrow> (int \<times> byte list) get_result" where
  "buffer_get b s len = get_loop (ssize len) [] b s"

text \<open>The byte is meaningful when the result is 1.\<close>

definition buffer_getc :: "buffer \<Rightarrow> src \<Rightarrow> (int \<times> byte) get_result" where
  "buffer_getc b s =
     do { (blen, b, s) \<leftarrow> (if bp b = bn b then buffer_feed b s else Some (1, b, s));
          if blen \<le> 0 then Some ((blen, 0), b, s)
          else do { c \<leftarrow> rd (bx b) (unat (bp b)); Some ((1, c), b\<lparr>bp := bp b + 1\<rparr>, s) } }"

primrec getn_loop :: "nat \<Rightarrow> byte list \<Rightarrow> buffer \<Rightarrow> src \<Rightarrow> (int \<times> byte list) get_result" where
  "getn_loop 0 out b s = Some ((int (length out), out), b, s)"
| "getn_loop (Suc n) out b s =
     do { ((r, c), b, s) \<leftarrow> buffer_getc b s;
          if r < 0 then Some ((r, out), b, s)
          else if r = 0 then Some ((int (length out), out), b, s)
          else getn_loop n (out @ [c]) b s }"

definition buffer_getn :: "buffer \<Rightarrow> src \<Rightarrow> nat \<Rightarrow> (int \<times> byte list) get_result" where
  "buffer_getn b s len = getn_loop (ssize len) [] b s"

definition buffer_peekc :: "bool \<Rightarrow> buffer \<Rightarrow> src \<Rightarrow> (int \<times> byte) get_result" where
  "buffer_peekc mm b s =
     do { (r, b, s) \<leftarrow> buffer_prefetch mm b s 1;
          if r > 0 then do { c \<leftarrow> rd (bx b) (unat (bp b)); Some ((1, c), b, s) } else Some ((r, 0), b, s) }"

definition buffer_peek :: "bool \<Rightarrow> buffer \<Rightarrow> src \<Rightarrow> byte list option get_result" where
  "buffer_peek mm b s =
     do { (r, b, s) \<leftarrow> buffer_prefetch mm b s 1;
          Some (if r \<le> 0 then None else Some (drop (unat (bp b)) (bx b)), b, s) }"

definition buffer_seek :: "buffer \<Rightarrow> uint64 \<Rightarrow> buffer" where
  "buffer_seek b len =
     (let n = bp b + len; n = (if n < bp b then bp b else n); n = (if n > bn b then bn b else n)
      in b\<lparr>bp := n\<rparr>)"

definition buffer_skipc :: "buffer \<Rightarrow> src \<Rightarrow> int get_result" where
  "buffer_skipc b s =
     do { (r, b, s) \<leftarrow> (if bp b = bn b then buffer_feed b s else Some (1, b, s));
          if r \<le> 0 then Some (r, b, s)
          else if bp b < bn b then Some (1, b\<lparr>bp := bp b + 1\<rparr>, s) else Some (0, b, s) }"

text \<open>\<open>buffer_skipn\<close> compares the result of the refill, an \<open>int\<close>, as a \<open>size_t\<close>.\<close>

definition buffer_skipn :: "bool \<Rightarrow> buffer \<Rightarrow> src \<Rightarrow> uint64 \<Rightarrow> int get_result" where
  "buffer_skipn mm b s n =
     do { (short, b, s) \<leftarrow>
            (if bp b + n > bn b
             then map_option (\<lambda>(r, b, s). (of_int r < n, b, s)) (buffer_prefetch mm b s n)
             else Some (False, b, s));
          if short then Some (0, b, s)
          else if bp b + n \<le> bn b then Some (int_of_size n, b\<lparr>bp := bp b + n\<rparr>, s)
          else Some (0, b, s) }"

text \<open>Both skip loops consume the byte that stops them; the results count it, in an \<open>int\<close>.\<close>

partial_function (option) skip_loop :: "(byte \<Rightarrow> bool option) \<Rightarrow> int \<Rightarrow> buffer \<Rightarrow> src \<Rightarrow> int get_result" where
  "skip_loop stop n b s =
     do { (r, b, s) \<leftarrow> (if bp b = bn b then buffer_feed b s else Some (1, b, s));
          if r \<le> 0 then Some (r, b, s)
          else if n = 2 ^ 31 - 1 then None
          else do { c \<leftarrow> rd (bx b) (unat (bp b));
                    let b = b\<lparr>bp := bp b + 1\<rparr>;
                    e \<leftarrow> stop c;
                    if e then Some (n + 1, b, s) else skip_loop stop (n + 1) b s } }"

definition buffer_skip_until :: "buffer \<Rightarrow> src \<Rightarrow> byte list \<Rightarrow> nat \<Rightarrow> int get_result" where
  "buffer_skip_until b s charset setlen =
     skip_loop (\<lambda>c. map_option (\<lambda>k. k < setlen) (byte_chr charset setlen c)) 0 b s"

definition buffer_skip_pred :: "buffer \<Rightarrow> src \<Rightarrow> (byte \<Rightarrow> bool) \<Rightarrow> int get_result" where
  "buffer_skip_pred b s pred = skip_loop (\<lambda>c. Some (\<not> pred c)) 0 b s"

definition is_space :: "byte \<Rightarrow> bool" where
  "is_space c \<longleftrightarrow> c \<in> {0x20, 9, 11, 13, 10, 0}"

definition buffer_skipspace :: "buffer \<Rightarrow> src \<Rightarrow> int get_result" where
  "buffer_skipspace b s = buffer_skip_pred b s is_space"

subsection \<open>Tokens\<close>

text \<open>The branch for a single separator copies from chunk to chunk with \<open>byte_ccopy\<close>.\<close>

function token1_loop :: "nat \<Rightarrow> byte \<Rightarrow> byte list \<Rightarrow> buffer \<Rightarrow> src \<Rightarrow> (int \<times> byte list) get_result" where
  "token1_loop len sep out b s =
     (if length out < len then
        do { (n, b, s) \<leftarrow> buffer_feed b s;
             if n \<le> 0 then Some ((int (length out), out), b, s)
             else let n = min (nat n) (len - length out)
                  in do { (x, i) \<leftarrow> byte_ccopy (replicate n 0) n (drop (unat (bp b)) (bx b)) sep;
                          if i < n then Some ((int (length out + i), out @ take i x), b\<lparr>bp := bp b + of_nat i\<rparr>, s)
                          else if length x \<noteq> n then None
                          else token1_loop len sep (out @ x) (b\<lparr>bp := bp b + of_nat n\<rparr>) s } }
      else Some ((int (length out), out), b, s))"
  by pat_completeness auto
termination by (relation "measure (\<lambda>(len, sep, out, b, s). len - length out)") auto

declare token1_loop.simps [simp del]

primrec tokens_loop :: "nat \<Rightarrow> byte list \<Rightarrow> nat \<Rightarrow> byte list \<Rightarrow> buffer \<Rightarrow> src \<Rightarrow> (int \<times> byte list) get_result" where
  "tokens_loop 0 charset setlen out b s = Some ((int (length out), out), b, s)"
| "tokens_loop (Suc n) charset setlen out b s =
     do { ((r, c), b, s) \<leftarrow> buffer_getc b s;
          if r < 0 then Some ((r, out), b, s)
          else if r = 0 then Some ((int (length out), out @ [0]), b, s)
          else do { k \<leftarrow> byte_chr charset setlen c;
                    if k < setlen then Some ((int (length out), out @ [c]), b, s)
                    else tokens_loop n charset setlen (out @ [c]) b s } }"

definition buffer_get_token ::
  "buffer \<Rightarrow> src \<Rightarrow> nat \<Rightarrow> byte list \<Rightarrow> nat \<Rightarrow> (int \<times> byte list) get_result" where
  "buffer_get_token b s len charset setlen =
     (if setlen = 1 then do { sep \<leftarrow> rd charset 0; token1_loop (ssize len) sep [] b s }
      else tokens_loop (ssize len) charset setlen [] b s)"

definition buffer_getline :: "buffer \<Rightarrow> src \<Rightarrow> nat \<Rightarrow> (int \<times> byte list) get_result" where
  "buffer_getline b s len = buffer_get_token b s len [10] 1"

primrec until_loop :: "nat \<Rightarrow> byte list \<Rightarrow> nat \<Rightarrow> byte list \<Rightarrow> buffer \<Rightarrow> src \<Rightarrow> (int \<times> byte list) get_result" where
  "until_loop 0 charset setlen out b s = Some ((int (length out), out), b, s)"
| "until_loop (Suc n) charset setlen out b s =
     do { ((r, c), b, s) \<leftarrow> buffer_getc b s;
          if r < 0 then Some ((r, out), b, s)
          else if r = 0 then Some ((int (length out), out @ [0]), b, s)
          else do { k \<leftarrow> byte_chr charset setlen c;
                    if k < setlen then Some ((int (length out + 1), out @ [c]), b, s)
                    else until_loop n charset setlen (out @ [c]) b s } }"

definition buffer_get_until ::
  "buffer \<Rightarrow> src \<Rightarrow> nat \<Rightarrow> byte list \<Rightarrow> nat \<Rightarrow> (int \<times> byte list) get_result" where
  "buffer_get_until b s len charset setlen =
     map_option (\<lambda>((r, x), bs). ((int_of_size (of_int r), x), bs)) (until_loop len charset setlen [] b s)"

text \<open>The counter of \<open>buffer_get_token_pred\<close> is an \<open>unsigned int\<close>: it never reaches a larger limit.\<close>

partial_function (option) token_pred_loop ::
  "nat \<Rightarrow> (byte list \<Rightarrow> uint32 \<Rightarrow> bool) \<Rightarrow> uint32 \<Rightarrow> byte list \<Rightarrow> buffer \<Rightarrow> src \<Rightarrow> (int \<times> byte list) get_result" where
  "token_pred_loop len p blen out b s =
     (if unat blen < len then
        do { ((r, c), b, s) \<leftarrow> buffer_getc b s;
             if r < 0 then Some ((r, out), b, s)
             else if r = 0 then Some ((uint blen, out), b, s)
             else if p (drop (length out - unat blen) (out @ [c])) (blen + 1) then Some ((uint blen, out @ [c]), b, s)
             else token_pred_loop len p (blen + 1) (out @ [c]) b s }
      else Some ((uint blen, out), b, s))"

definition buffer_get_token_pred ::
  "buffer \<Rightarrow> src \<Rightarrow> nat \<Rightarrow> (byte list \<Rightarrow> uint32 \<Rightarrow> bool) \<Rightarrow> (int \<times> byte list) get_result" where
  "buffer_get_token_pred b s len p = token_pred_loop len p 0 [] b s"

subsection \<open>Tokens into a dynamic string\<close>

text \<open>
  The separator is stored too.  \<open>stralloc_APPEND\<close> after a successful \<open>stralloc_readyplus\<close> is
  a plain store.
\<close>

definition sa_push :: "stralloc \<Rightarrow> byte \<Rightarrow> stralloc option" where
  "sa_push sa c =
     do { m \<leftarrow> wr (sa_mem sa) (unat (sa_len sa)) c; Some ((sa_store sa m)\<lparr>sa_len := sa_len sa + 1\<rparr>) }"

partial_function (option) token_sa_loop ::
  "allocator \<Rightarrow> byte list \<Rightarrow> nat \<Rightarrow> stralloc \<Rightarrow> buffer \<Rightarrow> src \<Rightarrow> (int \<times> stralloc) get_result" where
  "token_sa_loop al charset setlen sa b s =
     do { (ok, sa) \<leftarrow> stralloc_readyplus al sa 1;
          if \<not> ok then Some ((-1, sa), b, s)
          else do { ((r, x), b, s) \<leftarrow> buffer_getc b s;
                    if r = -1 then Some ((-1, sa), b, s)
                    else if r = 0 then Some ((0, sa), b, s)
                    else do { sa \<leftarrow> sa_push sa x;
                              k \<leftarrow> byte_chr charset setlen x;
                              if k < setlen then Some ((1, sa), b, s)
                              else token_sa_loop al charset setlen sa b s } } }"

definition buffer_get_token_sa ::
  "allocator \<Rightarrow> buffer \<Rightarrow> src \<Rightarrow> stralloc \<Rightarrow> byte list \<Rightarrow> nat \<Rightarrow> (int \<times> stralloc) get_result" where
  "buffer_get_token_sa al b s sa charset setlen = token_sa_loop al charset setlen sa b s"

definition buffer_get_new_token_sa ::
  "allocator \<Rightarrow> buffer \<Rightarrow> src \<Rightarrow> stralloc \<Rightarrow> byte list \<Rightarrow> nat \<Rightarrow> (int \<times> stralloc) get_result" where
  "buffer_get_new_token_sa al b s sa charset setlen =
     buffer_get_token_sa al b s (stralloc_zero sa) charset setlen"

definition buffer_getline_sa :: "allocator \<Rightarrow> buffer \<Rightarrow> src \<Rightarrow> stralloc \<Rightarrow> (int \<times> stralloc) get_result" where
  "buffer_getline_sa al b s sa = buffer_get_token_sa al b s sa [10] 1"

text \<open>The predicate of \<open>buffer_get_token_sa_pred\<close> sees the string so far and may give up with -1.\<close>

partial_function (option) token_sa_pred_loop ::
  "allocator \<Rightarrow> (stralloc \<Rightarrow> int) \<Rightarrow> stralloc \<Rightarrow> buffer \<Rightarrow> src \<Rightarrow> (int \<times> stralloc) get_result" where
  "token_sa_pred_loop al p sa b s =
     do { (ok, sa) \<leftarrow> stralloc_readyplus al sa 1;
          if \<not> ok then Some ((-1, sa), b, s)
          else do { ((r, x), b, s) \<leftarrow> buffer_getc b s;
                    if r = -1 then Some ((-1, sa), b, s)
                    else if r = 0 then Some ((0, sa), b, s)
                    else do { sa \<leftarrow> sa_push sa x;
                              if p sa = -1 then Some ((-1, sa), b, s)
                              else if p sa = 1 then Some ((0, sa), b, s)
                              else token_sa_pred_loop al p sa b s } } }"

definition buffer_get_token_sa_pred ::
  "allocator \<Rightarrow> buffer \<Rightarrow> src \<Rightarrow> stralloc \<Rightarrow> (stralloc \<Rightarrow> int) \<Rightarrow> (int \<times> stralloc) get_result" where
  "buffer_get_token_sa_pred al b s sa p = token_sa_pred_loop al p sa b s"

definition buffer_get_new_token_sa_pred ::
  "allocator \<Rightarrow> buffer \<Rightarrow> src \<Rightarrow> stralloc \<Rightarrow> (stralloc \<Rightarrow> int) \<Rightarrow> (int \<times> stralloc) get_result" where
  "buffer_get_new_token_sa_pred al b s sa p = buffer_get_token_sa_pred al b s (stralloc_zero sa) p"

text \<open>
  \<open>buffer_gettok_sa\<close> looks at each byte before it takes it, so the separator stays in the buffer.
  \<open>buffer_getln\<close> copies a chunk at a time and reports in \<open>gotit\<close> whether the line was ended.
\<close>

partial_function (option) gettok_sa_loop ::
  "bool \<Rightarrow> allocator \<Rightarrow> byte list \<Rightarrow> nat \<Rightarrow> uint64 \<Rightarrow> stralloc \<Rightarrow> buffer \<Rightarrow> src \<Rightarrow> (int \<times> stralloc) get_result" where
  "gettok_sa_loop mm al charset setlen i sa b s =
     do { ((r, c), b, s) \<leftarrow> buffer_peekc mm b s;
          if r \<le> 0 then Some ((0, sa), b, s)
          else do { k \<leftarrow> byte_chr charset setlen c;
                    if k < setlen then Some ((int_of_size i, sa), b, s)
                    else do { (ok, sa) \<leftarrow> stralloc_readyplus al sa 1;
                              if \<not> ok then Some ((-1, sa), b, s)
                              else do { sa \<leftarrow> sa_push sa c;
                                        (r, b, s) \<leftarrow> buffer_skipc b s;
                                        if r \<le> 0 then Some ((0, sa), b, s)
                                        else gettok_sa_loop mm al charset setlen (i + 1) sa b s } } } }"

definition buffer_gettok_sa ::
  "bool \<Rightarrow> allocator \<Rightarrow> buffer \<Rightarrow> src \<Rightarrow> stralloc \<Rightarrow> byte list \<Rightarrow> nat \<Rightarrow> (int \<times> stralloc) get_result" where
  "buffer_gettok_sa mm al b s sa charset setlen = gettok_sa_loop mm al charset setlen 0 sa b s"

partial_function (option) getln_loop ::
  "allocator \<Rightarrow> byte \<Rightarrow> stralloc \<Rightarrow> buffer \<Rightarrow> src \<Rightarrow> (int \<times> bool \<times> stralloc) get_result" where
  "getln_loop al termchar sa b s =
     do { (r, b, s) \<leftarrow> buffer_feed b s;
          let r = int_of_size (of_int r);
          if r < 0 then Some ((-1, False, sa), b, s)
          else if r = 0 then Some ((0, False, sa), b, s)
          else do { let p = drop (unat (bp b)) (bx b);
                    off \<leftarrow> byte_chr p (nat r) termchar;
                    let r = (if off \<noteq> nat r then off + 1 else nat r);
                    (ok, sa) \<leftarrow> stralloc_catb al sa p (of_nat r);
                    if \<not> ok then Some ((-1, False, sa), b, s)
                    else let b = b\<lparr>bp := bp b + of_nat r\<rparr>
                         in if off \<noteq> r then Some ((0, True, sa), b, s) else getln_loop al termchar sa b s } }"

definition buffer_getln ::
  "allocator \<Rightarrow> buffer \<Rightarrow> src \<Rightarrow> stralloc \<Rightarrow> byte \<Rightarrow> (int \<times> bool \<times> stralloc) get_result" where
  "buffer_getln al b s sa termchar =
     do { (ok, sa) \<leftarrow> stralloc_ready al sa 0;
          if \<not> ok then Some ((-1, False, sa), b, s) else getln_loop al termchar (sa\<lparr>sa_len := 0\<rparr>) b s }"

definition buffer_getnewline_sa :: "allocator \<Rightarrow> buffer \<Rightarrow> src \<Rightarrow> stralloc \<Rightarrow> (int \<times> stralloc) get_result" where
  "buffer_getnewline_sa al b s sa = buffer_getline_sa al b s (stralloc_zero sa)"

subsection \<open>Copying a buffer to another\<close>

partial_function (option) buffer_copy :: "buffer \<Rightarrow> dev \<Rightarrow> buffer \<Rightarrow> src \<Rightarrow> (int \<times> (buffer \<times> dev) \<times> buffer \<times> src) option" where
  "buffer_copy out d b s =
     do { (n, b, s) \<leftarrow> buffer_feed b s;
          if n < 0 then Some (-2, (out, d), b, s)
          else if n = 0 then Some (0, (out, d), b, s)
          else do { (r, out, d) \<leftarrow> buffer_put out d (drop (unat (bp b)) (bx b)) (of_int n);
                    if r = -1 then Some (-3, (out, d), b, s)
                    else buffer_copy out d (b\<lparr>bp := bp b + of_int n\<rparr>) s } }"

subsection \<open>The stream a buffer reads from\<close>

text \<open>
  \<open>pending\<close> has the bytes that arrive before the end of the file or an error, \<open>fate\<close> what the
  first read after them returns.
\<close>

fun pending :: "rreply list \<Rightarrow> byte list" where
  "pending [] = []"
| "pending (Data c # rs) = (if c = [] then [] else c @ pending rs)"
| "pending (RFail e # rs) = (if e = EINTR then pending rs else [])"

fun fate :: "rreply list \<Rightarrow> int" where
  "fate [] = 0"
| "fate (Data c # rs) = (if c = [] then 0 else fate rs)"
| "fate (RFail e # rs) = (if e = EINTR then fate rs else -1)"

definition bi_wf :: "buffer \<Rightarrow> bool" where
  "bi_wf b \<longleftrightarrow> bp b \<le> bn b \<and> bn b \<le> ba b \<and> 0 < ba b \<and> unat (ba b) < 2 ^ 63 \<and> unat (ba b) \<le> length (bx b)"

definition bi_held :: "buffer \<Rightarrow> byte list" where
  "bi_held b = drop (unat (bp b)) (take (unat (bn b)) (bx b))"

definition bi_rest :: "buffer \<times> src \<Rightarrow> byte list" where
  "bi_rest bs = bi_held (fst bs) @ pending (rreplies (snd bs))"

definition bi_fate :: "buffer \<times> src \<Rightarrow> int" where
  "bi_fate bs = fate (rreplies (snd bs))"

lemma fate_cases: "fate rs = 0 \<or> fate rs = -1"
  by (induction rs rule: fate.induct) auto

lemma stubborn_read_end:
  "pending rs = [] \<Longrightarrow> \<exists>s. stubborn_read_loop rs len err = (fate rs, [], s)"
  by (induction rs len err rule: stubborn_read_loop.induct) (auto split: if_splits)

lemma stubborn_read_more:
  "pending rs \<noteq> [] \<Longrightarrow> 0 < len \<Longrightarrow>
     \<exists>c s. stubborn_read_loop rs len err = (int (length c), c, s) \<and> c \<noteq> [] \<and> length c \<le> len \<and>
       pending rs = c @ pending (rreplies s) \<and> fate (rreplies s) = fate rs"
proof (induction rs len err rule: stubborn_read_loop.induct)
  case (2 c rs len err)
  then have "c \<noteq> []" by (auto split: if_splits)
  then have "take (min len (length c)) c \<noteq> []" "length (take (min len (length c)) c) = min len (length c)"
    using 2(2) by auto
  then show ?case using \<open>c \<noteq> []\<close>
    by (intro exI[of _ "take (min len (length c)) c"]) (auto simp: Let_def min_def)
qed (auto split: if_splits)

lemma unat_bn_bp: "bi_wf b \<Longrightarrow> unat (bn b - bp b) = unat (bn b) - unat (bp b)"
  by (simp add: bi_wf_def unat_sub_small word_le_nat_alt)

lemma bi_wf_le:
  assumes "bi_wf b"
  shows "unat (bp b) \<le> unat (bn b)" "unat (bn b) \<le> unat (ba b)" "unat (bn b) \<le> length (bx b)" "unat (bn b) < 2 ^ 63"
  using assms by (auto simp: bi_wf_def word_le_nat_alt)

lemma length_bi_held: "bi_wf b \<Longrightarrow> length (bi_held b) = unat (bn b) - unat (bp b)"
  using bi_wf_le(3)[of b] by (simp add: bi_held_def)

lemma bi_held_empty: "bi_wf b \<Longrightarrow> bi_held b = [] \<longleftrightarrow> bp b = bn b"
  using length_bi_held[of b] bi_wf_le(1)[of b] by (auto simp: word_unat_eq_iff length_0_conv[symmetric] simp del: length_0_conv)

lemma sint_small: "unat (x :: uint64) < 2 ^ 63 \<Longrightarrow> sint x = int (unat x)"
  using sint_neg_iff[of x] unat_nonneg_sint[of x] by fastforce

lemma sint_held: "bi_wf b \<Longrightarrow> sint (bn b - bp b) = int (length (bi_held b))"
  using bi_wf_le[of b] by (subst sint_small) (simp_all add: unat_bn_bp length_bi_held)

text \<open>A refill finds the next bytes of the stream, or its end.\<close>

lemma buffer_feed_more:
  assumes "bi_wf b" "bi_rest (b, s) \<noteq> []"
  shows "\<exists>b' s'. buffer_feed b s = Some (int (length (bi_held b')), b', s') \<and> bi_wf b' \<and> bi_held b' \<noteq> [] \<and>
           bi_rest (b', s') = bi_rest (b, s) \<and> bi_fate (b', s') = bi_fate (b, s)"
proof (cases "bp b = bn b")
  case False
  then show ?thesis using assms bi_held_empty sint_held by (simp add: buffer_feed_def)
next
  case True
  have a: "0 < unat (ba b)" using assms(1) by (simp add: bi_wf_def word_less_nat_alt)
  have "pending (rreplies s) \<noteq> []" using True assms bi_held_empty[of b] by (simp add: bi_rest_def)
  then obtain c s' where r: "buffer_stubborn_read s (unat (ba b)) = (int (length c), c, s')" "c \<noteq> []"
      "length c \<le> unat (ba b)" "pending (rreplies s) = c @ pending (rreplies s')" "fate (rreplies s') = fate (rreplies s)"
    using stubborn_read_more[OF _ a, of "rreplies s" "rerrno s"] by (auto simp: buffer_stubborn_read_def)
  have room: "length c \<le> length (bx b)" "length c < 2 ^ 63" using assms(1) r(3) by (auto simp: bi_wf_def)
  let ?b = "b\<lparr>bx := splice (bx b) 0 c, bn := of_nat (length c), bp := 0\<rparr>"
  have n: "unat (of_nat (length c) :: uint64) = length c" using room(2) by (simp add: unat_of_nat_sa sa_max_def)
  have wf: "bi_wf ?b" using assms(1) room r(3) n by (simp add: bi_wf_def word_le_nat_alt)
  have held: "bi_held ?b = c" using room n by (simp add: bi_held_def splice_def)
  have "buffer_feed b s = Some (sint (bn ?b - bp ?b), ?b, s')" using True r(1) room by (simp add: buffer_feed_def Let_def not_less)
  then have "buffer_feed b s = Some (int (length c), ?b, s')" using sint_held[OF wf] held by simp
  then show ?thesis using wf held r bi_held_empty[OF assms(1)] True by (simp add: bi_rest_def bi_fate_def)
qed

lemma buffer_feed_end:
  assumes "bi_wf b" "bi_rest (b, s) = []"
  shows "\<exists>b' s'. buffer_feed b s = Some (bi_fate (b, s), b', s') \<and> bi_wf b'"
proof -
  have e: "bp b = bn b" "pending (rreplies s) = []" using assms bi_held_empty[OF assms(1)] by (auto simp: bi_rest_def)
  obtain s' where "buffer_stubborn_read s (unat (ba b)) = (fate (rreplies s), [], s')"
    using stubborn_read_end[OF e(2)] by (auto simp: buffer_stubborn_read_def)
  moreover have "bi_wf (b\<lparr>bx := splice (bx b) 0 [], bn := 0, bp := 0\<rparr>)" using assms(1) by (simp add: bi_wf_def)
  ultimately show ?thesis using e fate_cases[of "rreplies s"] assms(1)
    by (auto simp: buffer_feed_def Let_def bi_fate_def)
qed

text \<open>Taking \<open>k\<close> bytes that are there.\<close>

lemma bi_take:
  assumes "bi_wf b" "k \<le> length (bi_held b)"
  shows "bi_wf (b\<lparr>bp := bp b + of_nat k\<rparr>)" "bi_held (b\<lparr>bp := bp b + of_nat k\<rparr>) = drop k (bi_held b)"
    "take k (drop (unat (bp b)) (bx b)) = take k (bi_held b)" "unat (bp b) + k \<le> length (bx b)"
proof -
  have k: "unat (bp b) + k \<le> unat (bn b)" "unat (bn b) \<le> length (bx b)" "unat (bn b) < 2 ^ 63"
    using assms bi_wf_le[OF assms(1)] by (simp_all add: length_bi_held)
  then have u: "unat (bp b + of_nat k) = unat (bp b) + k"
    by (subst unat_add_small) (simp_all add: unat_of_nat_sa sa_max_def)
  show "bi_wf (b\<lparr>bp := bp b + of_nat k\<rparr>)" using assms(1) k u by (simp add: bi_wf_def word_le_nat_alt)
  show "bi_held (b\<lparr>bp := bp b + of_nat k\<rparr>) = drop k (bi_held b)" using u by (simp add: bi_held_def add.commute)
  show "take k (drop (unat (bp b)) (bx b)) = take k (bi_held b)" using k by (simp add: bi_held_def drop_take min_def)
  show "unat (bp b) + k \<le> length (bx b)" using k by simp
qed

subsection \<open>Sources of bytes\<close>

text \<open>
  What the readers rely on: a routine that takes the next byte of what is left, and at the end
  returns 0 or -1.
\<close>

locale byte_source =
  fixes ok :: "'s \<Rightarrow> bool"
    and rest :: "'s \<Rightarrow> byte list"
    and ends :: "'s \<Rightarrow> int"
    and "next" :: "'s \<Rightarrow> ((int \<times> byte) \<times> 's) option"
  assumes next_byte: "ok s \<Longrightarrow> rest s = c # cs \<Longrightarrow>
      \<exists>s'. next s = Some ((1, c), s') \<and> ok s' \<and> rest s' = cs \<and> ends s' = ends s"
    and next_end: "ok s \<Longrightarrow> rest s = [] \<Longrightarrow> \<exists>c s'. next s = Some ((ends s, c), s') \<and> ok s'"
    and ends_cases: "ends s = 0 \<or> ends s = -1"
begin

text \<open>A client that takes bytes until one satisfies \<open>stop\<close>, at most \<open>n\<close>; it keeps that byte too.\<close>

primrec take_until :: "(byte \<Rightarrow> bool) \<Rightarrow> nat \<Rightarrow> byte list \<Rightarrow> 's \<Rightarrow> ((int \<times> byte list) \<times> 's) option" where
  "take_until stop 0 out s = Some ((1, out), s)"
| "take_until stop (Suc n) out s =
     do { ((r, c), s) \<leftarrow> next s;
          if r \<le> 0 then Some ((r, out), s)
          else if stop c then Some ((2, out @ [c]), s)
          else take_until stop n (out @ [c]) s }"

lemma take_until_spec:
  "ok s \<Longrightarrow>
     (let w = takeWhile (\<lambda>c. \<not> stop c) (rest s) in
      if n \<le> length w then \<exists>s'. take_until stop n out s = Some ((1, out @ take n (rest s)), s') \<and> ok s' \<and>
                              rest s' = drop n (rest s) \<and> ends s' = ends s
      else if w = rest s then \<exists>s'. take_until stop n out s = Some ((ends s, out @ w), s') \<and> ok s'
      else \<exists>s'. take_until stop n out s = Some ((2, out @ take (Suc (length w)) (rest s)), s') \<and> ok s' \<and>
                rest s' = drop (Suc (length w)) (rest s) \<and> ends s' = ends s)"
proof (induction n arbitrary: out s)
  case (Suc n)
  show ?case
  proof (cases "rest s")
    case Nil
    then show ?thesis using next_end[OF Suc.prems] ends_cases[of s] by auto
  next
    case (Cons c cs)
    obtain s' where s: "next s = Some ((1, c), s')" "ok s'" "rest s' = cs" "ends s' = ends s"
      using next_byte[OF Suc.prems Cons] by blast
    show ?thesis
    proof (cases "stop c")
      case True
      then show ?thesis using s Cons by (auto simp: Let_def)
    next
      case False
      then show ?thesis using s Cons Suc.IH[OF s(2), of "out @ [c]"] by (auto simp: Let_def split: if_splits)
    qed
  qed
qed auto

end

lemma buffer_getc_byte:
  assumes "bi_wf b" "bi_rest (b, s) = c # cs"
  shows "\<exists>b' s'. buffer_getc b s = Some ((1, c), b', s') \<and> bi_wf b' \<and> bi_rest (b', s') = cs \<and>
           bi_fate (b', s') = bi_fate (b, s)"
proof -
  have "\<exists>r b1 s1. (if bp b = bn b then buffer_feed b s else Some (1, b, s)) = Some (r, b1, s1) \<and> 0 < r \<and> bi_wf b1 \<and>
      bi_held b1 \<noteq> [] \<and> bi_rest (b1, s1) = c # cs \<and> bi_fate (b1, s1) = bi_fate (b, s)"
  proof (cases "bp b = bn b")
    case True
    then show ?thesis using buffer_feed_more[OF assms(1), of s] assms(2) by force
  next
    case False
    then show ?thesis using assms bi_held_empty by auto
  qed
  then obtain r b1 s1 where f: "(if bp b = bn b then buffer_feed b s else Some (1, b, s)) = Some (r, b1, s1)" "0 < r"
      "bi_wf b1" "bi_held b1 \<noteq> []" "bi_rest (b1, s1) = c # cs" "bi_fate (b1, s1) = bi_fate (b, s)"
    by blast
  then obtain w where w: "bi_held b1 = c # w" "cs = w @ pending (rreplies s1)"
    by (cases "bi_held b1") (auto simp: bi_rest_def)
  have t: "bi_wf (b1\<lparr>bp := bp b1 + 1\<rparr>)" "bi_held (b1\<lparr>bp := bp b1 + 1\<rparr>) = w"
      "take 1 (drop (unat (bp b1)) (bx b1)) = [c]" "unat (bp b1) < length (bx b1)"
    using bi_take[OF f(3), of 1] w(1) by auto
  then have "rd (bx b1) (unat (bp b1)) = Some c" by (simp add: take_Suc hd_drop_conv_nth)
  then have "buffer_getc b s = Some ((1, c), b1\<lparr>bp := bp b1 + 1\<rparr>, s1)" using f(1,2) by (simp add: buffer_getc_def)
  then show ?thesis using t w f by (simp add: bi_rest_def bi_fate_def)
qed

lemma buffer_getc_end:
  assumes "bi_wf b" "bi_rest (b, s) = []"
  shows "\<exists>c b' s'. buffer_getc b s = Some ((bi_fate (b, s), c), b', s') \<and> bi_wf b'"
proof -
  have "bp b = bn b" using assms bi_held_empty by (simp add: bi_rest_def)
  then show ?thesis using buffer_feed_end[OF assms] fate_cases[of "rreplies s"]
    by (auto simp: buffer_getc_def bi_fate_def)
qed

interpretation bi: byte_source "\<lambda>bs. bi_wf (fst bs)" bi_rest bi_fate "\<lambda>(b, s). buffer_getc b s"
proof (unfold_locales, goal_cases)
  case (1 bs c cs)
  then show ?case using buffer_getc_byte[of "fst bs" "snd bs"] by (auto split: prod.splits)
next
  case (2 bs)
  then show ?case using buffer_getc_end[of "fst bs" "snd bs"] by (auto split: prod.splits)
next
  case (3 bs)
  show ?case by (simp add: bi_fate_def fate_cases)
qed

subsection \<open>The readers\<close>

lemma getn_loop_take:
  "getn_loop n out b s =
     map_option (\<lambda>((r, w), bs). ((if r < 0 then r else int (length w), w), bs)) (bi.take_until (\<lambda>_. False) n out (b, s))"
  by (induction n arbitrary: out b s) (auto split: Option.bind_split prod.split)

lemma get_loop_spec:
  assumes "bi_wf b"
  shows "\<exists>b' s'. get_loop len out b s =
       Some ((if len \<le> length (bi_rest (b, s)) \<or> bi_fate (b, s) = 0 then int (length out + min len (length (bi_rest (b, s)))) else -1,
              out @ take len (bi_rest (b, s))), b', s') \<and> bi_wf b' \<and>
       (len \<le> length (bi_rest (b, s)) \<longrightarrow> bi_rest (b', s') = drop len (bi_rest (b, s)) \<and> bi_fate (b', s') = bi_fate (b, s))"
  using assms
proof (induction len arbitrary: out b s rule: less_induct)
  case (less len)
  let ?w = "bi_rest (b, s)"
  show ?case
  proof (cases "len = 0 \<or> ?w = []")
    case True
    then show ?thesis
      using less.prems buffer_feed_end[OF less.prems, of s] fate_cases[of "rreplies s"]
      by (subst get_loop.simps) (auto simp: bi_fate_def)
  next
    case False
    obtain b1 s1 where f: "buffer_feed b s = Some (int (length (bi_held b1)), b1, s1)" "bi_wf b1" "bi_held b1 \<noteq> []"
        "bi_rest (b1, s1) = ?w" "bi_fate (b1, s1) = bi_fate (b, s)"
      using buffer_feed_more[OF less.prems, of s] False by blast
    let ?k = "min len (length (bi_held b1))"
    let ?b = "b1\<lparr>bp := bp b1 + of_nat ?k\<rparr>"
    have t: "bi_wf ?b" "bi_held ?b = drop ?k (bi_held b1)" "take ?k (drop (unat (bp b1)) (bx b1)) = take ?k (bi_held b1)"
        "unat (bp b1) + ?k \<le> length (bx b1)"
      using bi_take[OF f(2), of ?k] by simp_all
    have w: "?w = bi_held b1 @ pending (rreplies s1)" unfolding f(4)[symmetric] by (simp add: bi_rest_def)
    have r: "bi_rest (?b, s1) = drop ?k ?w" "bi_fate (?b, s1) = bi_fate (b, s)" "take ?k (bi_held b1) = take ?k ?w"
      using t(2) f(5) unfolding w by (simp_all add: bi_rest_def bi_fate_def)
    have k: "?k \<le> length ?w" "0 < ?k" using f(3) False unfolding w by auto
    have run: "get_loop len out b s = get_loop (len - ?k) (out @ take ?k ?w) ?b s1"
    proof -
      have "(if int len \<le> int (length (bi_held b1)) then len else nat (int (length (bi_held b1)))) = ?k" by simp
      then show ?thesis using False f(1,3) t(3,4) r(3) by (subst get_loop.simps) (simp add: Let_def not_less del: of_nat_min)
    qed
    have "take ?k ?w @ take (len - ?k) (drop ?k ?w) = take len ?w" by (metis min.cobounded1 le_add_diff_inverse take_add)
    then show ?thesis unfolding run using less.IH[of "len - ?k" ?b "out @ take ?k ?w" s1] k t(1) r(1,2)
      by (auto simp: min_def split: if_splits)
  qed
qed

lemma byte_chr_set:
  assumes "k \<le> length cs"
  shows "\<exists>i. byte_chr cs k c = Some i \<and> (i < k \<longleftrightarrow> c \<in> set (take k cs))"
  using assms 
  by (induction cs k c rule: byte_chr.induct) (fastforce split: if_splits)+

lemma until_loop_take:
  assumes "setlen \<le> length charset"
  shows "until_loop n charset setlen out b s =
     map_option (\<lambda>((r, w), bs). ((if r < 0 then r else int (length w), if r = 0 then w @ [0] else w), bs))
       (bi.take_until (\<lambda>c. c \<in> set (take setlen charset)) n out (b, s))"
proof (induction n arbitrary: out b s)
  case (Suc n)
  have chr: "\<exists>i. byte_chr charset setlen c = Some i \<and> (i < setlen \<longleftrightarrow> c \<in> set (take setlen charset))" for c
    by (rule byte_chr_set) fact
  show ?case
  proof (cases "buffer_getc b s")
    case (Some x)
    obtain r c b' s' where x: "x = ((r, c), b', s')" by (cases x) auto
    show ?thesis using Suc.IH[of "out @ [c]" b' s'] Some x chr[of c] by auto
  qed simp
qed simp

lemma sa_push_is:
  assumes "sa_room sa w (length w + 1)" "length w + 1 < sa_max"
  shows "\<exists>sa'. sa_push sa c = Some sa' \<and> sa_is sa' (w @ [c])"
proof -
  have len: "unat (sa_len sa) = length w" using assms(1) by (simp add: sa_room_is sa_is_len)
  have l: "unat (sa_len sa + 1) = length w + 1"
    using assms(2) len by (subst unat_add_small) (simp_all add: sa_max_def)
  have lt: "length w < length (sa_mem sa)" using sa_room_mem[OF assms(1)] by simp
  then have "wr (sa_mem sa) (length w) c = Some (splice (sa_mem sa) (length w) [c])"
    using list_update_snoc_splice[of "length w" "[]" "sa_mem sa" c] by simp
  then show ?thesis using sa_room_append[of sa w "[c]" "sa_len sa + 1"] assms(1) l len by (simp add: sa_push_def)
qed

text \<open>A token is read up to its separator, which is stored as well, or to the end of the stream.\<close>

lemma token_sa_loop_spec:
  assumes "grants al" "setlen \<le> length charset" "bi_wf b" "sa_is sa w" "length w + length (bi_rest (b, s)) + 1 < sa_max"
    "t = takeWhile (\<lambda>c. c \<notin> set (take setlen charset)) (bi_rest (b, s))"
  shows "\<exists>r sa' b' s'. token_sa_loop al charset setlen sa b s = Some ((r, sa'), b', s') \<and> bi_wf b' \<and>
     (if t = bi_rest (b, s) then r = bi_fate (b, s) \<and> sa_is sa' (w @ t)
      else r = 1 \<and> sa_is sa' (w @ take (Suc (length t)) (bi_rest (b, s))) \<and>
           bi_rest (b', s') = drop (Suc (length t)) (bi_rest (b, s)) \<and> bi_fate (b', s') = bi_fate (b, s))"
  using assms(3-)
proof (induction "bi_rest (b, s)" arbitrary: b s sa w t)
  case Nil
  obtain sa1 where sa1: "stralloc_readyplus al sa 1 = Some (True, sa1)" "sa_room sa1 w (length w + 1)"
    using stralloc_readyplus_room[OF Nil.prems(2), of 1 al] Nil.prems(3) assms(1) by (auto simp: sa_out_def)
  obtain c b' s' where g: "buffer_getc b s = Some ((bi_fate (b, s), c), b', s')" "bi_wf b'"
    using buffer_getc_end[OF Nil.prems(1) Nil.hyps[symmetric]] by blast
  have e: "bi_fate (b, s) = 0 \<or> bi_fate (b, s) = -1" by (simp add: bi_fate_def fate_cases)
  show ?case using e
    by (subst token_sa_loop.simps) (use Nil sa1 g sa_room_is[OF sa1(2)] in auto)
next
  case (Cons c cs)
  have rest: "bi_rest (b, s) = c # cs" using Cons.hyps by simp
  obtain sa1 where sa1: "stralloc_readyplus al sa 1 = Some (True, sa1)" "sa_room sa1 w (length w + 1)"
    using stralloc_readyplus_room[OF Cons.prems(2), of 1 al] Cons.prems(3) assms(1) by (auto simp: sa_out_def)
  obtain b1 s1 where g: "buffer_getc b s = Some ((1, c), b1, s1)" "bi_wf b1" "bi_rest (b1, s1) = cs"
      "bi_fate (b1, s1) = bi_fate (b, s)"
    using buffer_getc_byte[OF Cons.prems(1) rest] by blast
  obtain sa2 where sa2: "sa_push sa1 c = Some sa2" "sa_is sa2 (w @ [c])"
    using sa_push_is[OF sa1(2)] Cons.prems(3) by auto
  obtain i where i: "byte_chr charset setlen c = Some i" "i < setlen \<longleftrightarrow> c \<in> set (take setlen charset)"
    using byte_chr_set[OF assms(2)] by blast
  show ?case
  proof (cases "c \<in> set (take setlen charset)")
    case True
    then have "token_sa_loop al charset setlen sa b s = Some ((1, sa2), b1, s1)"
      by (subst token_sa_loop.simps) (use sa1 g sa2 i in simp)
    then show ?thesis using True g sa2 Cons.prems(4) rest by simp
  next
    case False
    then have run: "token_sa_loop al charset setlen sa b s = token_sa_loop al charset setlen sa2 b1 s1"
      by (subst token_sa_loop.simps) (use sa1 g sa2 i in simp)
    have "length (w @ [c]) + length (bi_rest (b1, s1)) + 1 < sa_max" using Cons.prems(3) rest g(3) by simp
    from Cons.hyps(1)[OF g(3)[symmetric] g(2) sa2(2) this refl]
    obtain r sa' b' s' where z: "token_sa_loop al charset setlen sa2 b1 s1 = Some ((r, sa'), b', s')" "bi_wf b'"
        "let u = takeWhile (\<lambda>c. c \<notin> set (take setlen charset)) cs in
         if u = cs then r = bi_fate (b, s) \<and> sa_is sa' (w @ c # u)
         else r = 1 \<and> sa_is sa' (w @ c # take (Suc (length u)) cs) \<and>
              bi_rest (b', s') = drop (Suc (length u)) cs \<and> bi_fate (b', s') = bi_fate (b, s)"
      unfolding g(3,4) Let_def append_assoc append_Cons append_Nil by blast
    then show ?thesis unfolding run rest using False Cons.prems(4) rest
      by (intro exI[of _ r] exI[of _ sa'] exI[of _ b'] exI[of _ s']) (simp add: Let_def)
  qed
qed

lemma int_of_size_nat:
  assumes "n < 2 ^ 31"
  shows "int_of_size (of_nat n) = int n"
proof -
  have u: "unat (ucast (of_nat n :: uint64) :: uint32) = n"
    using assms by (simp add: unsigned_ucast_eq unat_of_nat take_bit_nat_eq_self)
  then have "0 \<le> sint (ucast (of_nat n :: uint64) :: uint32)"
    using sint_neg_iff[of "ucast (of_nat n :: uint64) :: uint32"] assms by simp
  then show ?thesis using unat_nonneg_sint[of "ucast (of_nat n :: uint64) :: uint32"] u
    by (simp add: int_of_size_def)
qed

lemma int_of_size_neg1: "int_of_size (-1) = -1"
  by code_simp

lemma int_of_size_held:
  assumes "bi_wf b" "unat (ba b) < 2 ^ 31"
  shows "int_of_size (bn b - bp b) = int (length (bi_held b))"
  using assms bi_wf_le[OF assms(1)] by (subst int_of_size_small) (simp_all add: unat_bn_bp length_bi_held)

text \<open>Appending what a read brought.\<close>

lemma bi_append:
  assumes "bi_wf b" "unat (bn b) + length c \<le> unat (ba b)"
  shows "bi_wf (b\<lparr>bx := splice (bx b) (unat (bn b)) c, bn := bn b + of_nat (length c)\<rparr>)"
    "bi_held (b\<lparr>bx := splice (bx b) (unat (bn b)) c, bn := bn b + of_nat (length c)\<rparr>) = bi_held b @ c"
    "unat (bn b) + length c \<le> length (bx b)" "unat (bn b + of_nat (length c)) = unat (bn b) + length c"
proof -
  have le: "unat (bn b) + length c \<le> length (bx b)" "unat (bn b) + length c < 2 ^ 63"
    using assms by (auto simp: bi_wf_def)
  then show u: "unat (bn b + of_nat (length c)) = unat (bn b) + length c"
    by (subst unat_add_small) (simp_all add: unat_of_nat_sa sa_max_def)
  show "unat (bn b) + length c \<le> length (bx b)" by (rule le)
  show "bi_wf (b\<lparr>bx := splice (bx b) (unat (bn b)) c, bn := bn b + of_nat (length c)\<rparr>)"
    using assms u le bi_wf_le(1)[OF assms(1)] by (simp add: bi_wf_def word_le_nat_alt)
  show "bi_held (b\<lparr>bx := splice (bx b) (unat (bn b)) c, bn := bn b + of_nat (length c)\<rparr>) = bi_held b @ c"
    using u take_splice_end[OF le(1)] bi_wf_le(1)[OF assms(1)] bi_wf_le(3)[OF assms(1)] by (simp add: bi_held_def)
qed

definition bi_fetched :: "buffer \<times> src \<Rightarrow> nat \<Rightarrow> int get_result \<Rightarrow> bool" where
  "bi_fetched bs n r \<longleftrightarrow> (\<exists>b' s'. bi_wf b' \<and>
     (if n \<le> length (bi_rest bs)
      then r = Some (int (length (bi_held b')), b', s') \<and> n \<le> length (bi_held b') \<and>
           bi_rest (b', s') = bi_rest bs \<and> bi_fate (b', s') = bi_fate bs
      else r = Some (if bi_fate bs = 0 then int (length (bi_rest bs)) else -1, b', s') \<and> bi_held b' = bi_rest bs))"

lemma prefetch_loop_spec:
  assumes "bi_wf b" "unat (ba b) < 2 ^ 31" "unat (bp b) + unat n \<le> unat (ba b)"
    "unat (bp b) + unat n - unat (bn b) < fuel"
  shows "bi_fetched (b, s) (unat n) (prefetch_loop fuel b s n)"
  using assms
proof (induction fuel arbitrary: b s)
  case (Suc fuel)
  have p: "unat (bp b + n) = unat (bp b) + unat n" using Suc.prems by (subst unat_add_small) auto
  have held: "length (bi_held b) = unat (bn b) - unat (bp b)" by (rule length_bi_held) fact
  have res: "int_of_size (bn b - bp b) = int (length (bi_held b))" by (rule int_of_size_held) (use Suc.prems in auto)
  show ?case
  proof (cases "bn b < bp b + n")
    case False
    then have "unat n \<le> length (bi_held b)" using p held by (simp add: word_less_nat_alt)
    then show ?thesis using False Suc.prems(1) res by (auto simp: bi_fetched_def bi_rest_def)
  next
    case True
    then have lt: "unat (bn b) < unat (bp b) + unat n" using p by (simp add: word_less_nat_alt)
    have room: "unat (ba b - bn b) = unat (ba b) - unat (bn b)" by (rule unat_sub_small) (use bi_wf_le(2)[OF Suc.prems(1)] in simp)
    then have pos: "0 < unat (ba b - bn b)" using lt Suc.prems(3) by simp
    show ?thesis
    proof (cases "pending (rreplies s) = []")
      case nomore: True
      then obtain s' where r: "buffer_stubborn_read s (unat (ba b - bn b)) = (fate (rreplies s), [], s')"
        using stubborn_read_end[OF nomore] by (auto simp: buffer_stubborn_read_def)
      have rest: "bi_rest (b, s) = bi_held b" using nomore by (simp add: bi_rest_def)
      have short: "\<not> unat n \<le> length (bi_held b)" using lt held bi_wf_le(1)[OF Suc.prems(1)] by simp
      have "prefetch_loop (Suc fuel) b s n = Some (if fate (rreplies s) = 0 then int (length (bi_held b)) else -1, b, s')"
        using True r fate_cases[of "rreplies s"] res bi_wf_le(3)[OF Suc.prems(1)]
        by (auto simp: Let_def not_less int_of_size_neg1 int_of_size_nat[of 0, simplified])
      then show ?thesis using short rest Suc.prems(1) by (auto simp: bi_fetched_def bi_fate_def)
    next
      case more: False
      obtain c s' where r: "buffer_stubborn_read s (unat (ba b - bn b)) = (int (length c), c, s')" "c \<noteq> []"
          "length c \<le> unat (ba b) - unat (bn b)" "pending (rreplies s) = c @ pending (rreplies s')" "fate (rreplies s') = fate (rreplies s)"
        using stubborn_read_more[OF more pos, of "rerrno s"] room by (auto simp: buffer_stubborn_read_def)
      let ?b = "b\<lparr>bx := splice (bx b) (unat (bn b)) c, bn := bn b + of_nat (length c)\<rparr>"
      have ap: "bi_wf ?b" "bi_held ?b = bi_held b @ c" "unat (bn b) + length c \<le> length (bx b)"
          "unat (bn b + of_nat (length c)) = unat (bn b) + length c"
        using bi_append[OF Suc.prems(1), of c] r(3) bi_wf_le(2)[OF Suc.prems(1)] by auto
      have "int_of_size (of_nat (length c)) = int (length c)" using r(3) Suc.prems(2) by (intro int_of_size_nat) simp
      then have run: "prefetch_loop (Suc fuel) b s n = prefetch_loop fuel ?b s' n"
        using True r(1,2) ap(3) by (simp add: Let_def not_less)
      have keep: "bi_rest (?b, s') = bi_rest (b, s)" "bi_fate (?b, s') = bi_fate (b, s)"
        using ap(2) r(4,5) by (simp_all add: bi_rest_def bi_fate_def)
      have "bi_fetched (?b, s') (unat n) (prefetch_loop fuel ?b s' n)"
        using Suc.prems ap r(2) lt by (intro Suc.IH) (auto simp: neq_Nil_conv)
      then show ?thesis unfolding run unfolding bi_fetched_def keep .
    qed
  qed
qed simp

lemma bi_compact:
  assumes "bi_wf b"
  shows "\<exists>x. byte_copy_within (bx b) 0 (unat (bn b - bp b)) (unat (bp b)) = Some x \<and>
           bi_wf (b\<lparr>bx := x, bn := bn b - bp b, bp := 0\<rparr>) \<and>
           bi_held (b\<lparr>bx := x, bn := bn b - bp b, bp := 0\<rparr>) = bi_held b"
proof -
  let ?n = "unat (bn b) - unat (bp b)"
  have le: "unat (bp b) \<le> unat (bn b)" "unat (bn b) \<le> length (bx b)" using bi_wf_le[OF assms] by auto
  let ?x = "splice (bx b) 0 (take ?n (drop (unat (bp b)) (bx b)))"
  have n: "unat (bn b - bp b) = ?n" by (rule unat_bn_bp) fact
  have c: "byte_copy_within (bx b) 0 ?n (unat (bp b)) = Some ?x" using le by (intro byte_copy_within_eq) auto
  have h: "take ?n ?x = bi_held b" using le by (simp add: splice_def bi_held_def drop_take)
  have "unat (bn b - bp b) \<le> unat (ba b)" using n bi_wf_le(2)[OF assms] by simp
  moreover have "unat (ba b) \<le> length ?x" using assms le by (simp add: bi_wf_def)
  ultimately have "bi_wf (b\<lparr>bx := ?x, bn := bn b - bp b, bp := 0\<rparr>)" using assms by (simp add: bi_wf_def word_le_nat_alt)
  then show ?thesis using c h n by (simp add: bi_held_def)
qed

lemma buffer_prefetch_spec:
  assumes "bi_wf b" "unat (ba b) < 2 ^ 31" "0 < n" "unat n < 2 ^ 63"
  shows "bi_fetched (b, s) (min (unat n) (unat (ba b))) (buffer_prefetch False b s n)"
proof -
  have a: "0 < unat (ba b)" "unat (bp b) \<le> unat (ba b)" using assms(1) bi_wf_le[OF assms(1)] by (auto simp: bi_wf_def word_less_nat_alt)
  have p: "unat (bp b + n) = unat (bp b) + unat n" using assms a by (subst unat_add_small) auto
  define move where "move \<longleftrightarrow> bp b \<noteq> 0 \<and> ba b \<le> bp b + n"
  obtain b1 where b1: "(if move then do { x \<leftarrow> byte_copy_within (bx b) 0 (unat (bn b - bp b)) (unat (bp b));
                              Some (b\<lparr>bx := x, bn := bn b - bp b, bp := 0\<rparr>) } else Some b) = Some b1"
      "bi_wf b1" "bi_held b1 = bi_held b" "ba b1 = ba b" "bp b1 = (if move then 0 else bp b)"
    using bi_compact[OF assms(1)] assms(1) by (cases move) auto
  let ?n = "if bp b1 + n \<ge> ba b1 then ba b1 - bp b1 else n"
  have m: "unat ?n = min (unat n) (unat (ba b))"
  proof (cases "bp b1 = 0")
    case True
    then show ?thesis using b1(4) by (simp add: word_le_nat_alt min_def)
  next
    case False
    then have "bp b1 = bp b" "\<not> ba b \<le> bp b + n" using b1(5) by (auto simp: move_def split: if_splits)
    then show ?thesis using b1(4) p by (auto simp: word_le_nat_alt)
  qed
  have fits: "unat (bp b1) + unat ?n \<le> unat (ba b1)"
  proof (cases "bp b1 = 0")
    case False
    then have "bp b1 = bp b" "\<not> ba b \<le> bp b + n" using b1(5) by (auto simp: move_def split: if_splits)
    then show ?thesis using b1(4) p by (auto simp: word_le_nat_alt)
  qed (use m b1(4) in simp)
  have "0 < unat ?n" unfolding m using a(1) assms(3) by (simp add: word_less_nat_alt)
  then have "?n \<noteq> 0" by (rule contrapos_pn) (simp only: unat_0 less_irrefl not_False_eq_True)
  then have "buffer_prefetch False b s n = prefetch_loop (unat ?n + 1) b1 s ?n"
    using b1(1) by (auto simp: buffer_prefetch_def Let_def move_def simp del: not_le)
  moreover have "bi_fetched (b1, s) (unat ?n) (prefetch_loop (unat ?n + 1) b1 s ?n)"
    using b1 assms(2) fits bi_wf_le(1)[OF b1(2)] by (intro prefetch_loop_spec) simp_all
  moreover have "bi_rest (b1, s) = bi_rest (b, s)" "bi_fate (b1, s) = bi_fate (b, s)"
    using b1(3) by (simp_all add: bi_rest_def bi_fate_def)
  ultimately show ?thesis unfolding m by (simp only: bi_fetched_def)
qed

text \<open>Copying from buffer to buffer until the end of the stream.\<close>

lemma buffer_copy_spec:
  assumes "bi_wf b" "bf_holds (o', d) w" "willing (replies d)"
  shows "\<exists>o2 d2 b2 s2. buffer_copy o' d b s = Some (if bi_fate (b, s) = 0 then 0 else -2, (o2, d2), b2, s2) \<and>
           bf_holds (o2, d2) (w @ bi_rest (b, s)) \<and> willing (replies d2)"
  using assms
proof (induction "length (bi_rest (b, s))" arbitrary: b s o' d w rule: less_induct)
  case less
  show ?case
  proof (cases "bi_rest (b, s) = []")
    case True
    show ?thesis by (subst buffer_copy.simps)
      (use True buffer_feed_end[OF less.prems(1) True] fate_cases[of "rreplies s"] less.prems in \<open>auto simp: bi_fate_def\<close>)
  next
    case False
    obtain b1 s1 where f: "buffer_feed b s = Some (int (length (bi_held b1)), b1, s1)" "bi_wf b1" "bi_held b1 \<noteq> []"
        "bi_rest (b1, s1) = bi_rest (b, s)" "bi_fate (b1, s1) = bi_fate (b, s)"
      using buffer_feed_more[OF less.prems(1), of s] False by blast
    let ?k = "length (bi_held b1)"
    let ?b = "b1\<lparr>bp := bp b1 + of_nat ?k\<rparr>"
    have t: "bi_wf ?b" "bi_held ?b = []" "take ?k (drop (unat (bp b1)) (bx b1)) = bi_held b1"
        "?k \<le> length (drop (unat (bp b1)) (bx b1))"
      using bi_take[OF f(2), of ?k] by simp_all
    have u: "unat (of_nat ?k :: uint64) = ?k"
      using length_bi_held[OF f(2)] bi_wf_le(4)[OF f(2)] by (simp add: unat_of_nat_sa sa_max_def)
    obtain o1 d1 where p: "buffer_put o' d (drop (unat (bp b1)) (bx b1)) (of_nat ?k) = Some (0, o1, d1)"
        "bf_holds (o1, d1) (w @ bi_held b1)" "willing (replies d1)"
      using buffer_put_spec[OF less.prems(2), of "of_nat ?k" "drop (unat (bp b1)) (bx b1)"] less.prems(3) u t(3,4) by auto
    have run: "buffer_copy o' d b s = buffer_copy o1 d1 ?b s1"
      by (subst buffer_copy.simps) (use f(1,3) p(1) in simp)
    have w: "bi_rest (b, s) = bi_held b1 @ bi_rest (?b, s1)" "bi_fate (?b, s1) = bi_fate (b, s)"
      unfolding f(4)[symmetric] using t(2) f(5) by (simp_all add: bi_rest_def bi_fate_def)
    then have "length (bi_rest (?b, s1)) < length (bi_rest (b, s))" using f(3) by simp
    from less.hyps[OF this t(1) p(2,3)] show ?thesis unfolding run w by simp
  qed
qed

text \<open>\<open>buffer_getln\<close> takes a line chunk by chunk.\<close>

lemma takeWhile_neq_split: "z \<in> set h \<Longrightarrow> \<exists>v. h = takeWhile (\<lambda>c. c \<noteq> z) h @ z # v"
  by (induction h) auto

lemma takeWhile_neq_length: "length (takeWhile (\<lambda>c. c \<noteq> z) h) \<noteq> length h \<longleftrightarrow> z \<in> set h"
  by (induction h) auto

lemma getln_round:
  assumes "grants al" "bi_wf b" "unat (ba b) < 2 ^ 31" "sa_is sa w" "length w + length (bi_rest (b, s)) < sa_max"
    "bi_rest (b, s) \<noteq> []"
  shows "\<exists>h r sa1 b1 s1. h \<noteq> [] \<and> bi_rest (b, s) = h @ pending (rreplies s1) \<and>
     r = (if z \<in> set h then length (takeWhile (\<lambda>c. c \<noteq> z) h) + 1 else length h) \<and>
     getln_loop al z sa b s = (if z \<in> set h then Some ((0, True, sa1), b1, s1) else getln_loop al z sa1 b1 s1) \<and>
     sa_is sa1 (w @ take r h) \<and> bi_wf b1 \<and> ba b1 = ba b \<and>
     bi_rest (b1, s1) = drop r h @ pending (rreplies s1) \<and> bi_fate (b1, s1) = bi_fate (b, s)"
proof -
  obtain b1 s1 where f: "buffer_feed b s = Some (int (length (bi_held b1)), b1, s1)" "bi_wf b1" "bi_held b1 \<noteq> []"
      "bi_rest (b1, s1) = bi_rest (b, s)" "bi_fate (b1, s1) = bi_fate (b, s)"
    using buffer_feed_more[OF assms(2,6)] by blast
  have ba: "ba b1 = ba b" using f(1) by (auto simp: buffer_feed_def Let_def split: if_splits prod.splits)
  let ?h = "bi_held b1" and ?p = "drop (unat (bp b1)) (bx b1)"
  have small: "length ?h < 2 ^ 31" using length_bi_held[OF f(2)] bi_wf_le(2)[OF f(2)] ba assms(3) by simp
  have hp: "take (length ?h) ?p = ?h" "length ?h \<le> length ?p" using bi_take[OF f(2), of "length ?h"] by auto
  let ?off = "length (takeWhile (\<lambda>c. c \<noteq> z) ?h)"
  have off: "byte_chr ?p (length ?h) z = Some ?off" using hp byte_chr_takeWhile[OF hp(2), of z] by simp
  have found: "?off \<noteq> length ?h \<longleftrightarrow> z \<in> set ?h" by (rule takeWhile_neq_length)
  define r where "r = (if z \<in> set ?h then ?off + 1 else length ?h)"
  have "?off \<le> length ?h" by (rule length_takeWhile_le)
  then have rle: "r \<le> length ?h" using found unfolding r_def by (cases "z \<in> set ?h") simp_all
  have ru: "unat (of_nat r :: uint64) = r" using rle small by (intro unat_of_nat_sa) (simp add: sa_max_def)
  have rest: "bi_rest (b, s) = ?h @ pending (rreplies s1)" unfolding f(4)[symmetric] by (simp add: bi_rest_def)
  have "sa_out al sa (stralloc_catb al sa ?p (of_nat r)) (\<lambda>sa'. sa_is sa' (w @ take r ?h))"
    using stralloc_catb_out[OF assms(4), of "of_nat r" ?p al] rle hp(2) assms(5) rest
    unfolding ru bi_take(3)[OF f(2) rle] by simp
  then obtain sa1 where sa1: "stralloc_catb al sa ?p (of_nat r) = Some (True, sa1)" "sa_is sa1 (w @ take r ?h)"
    using assms(1) by (auto simp: sa_out_def)
  let ?b = "b1\<lparr>bp := bp b1 + of_nat r\<rparr>"
  have "getln_loop al z sa b s = (if z \<in> set ?h then Some ((0, True, sa1), ?b, s1) else getln_loop al z sa1 ?b s1)"
    by (subst getln_loop.simps)
      (use f(1,3) int_of_size_nat[OF small] off sa1(1) found r_def in \<open>auto simp: Let_def\<close>)
  moreover have "bi_wf ?b" "bi_held ?b = drop r ?h" using bi_take[OF f(2) rle] by auto
  ultimately show ?thesis using f(3,5) rest sa1(2) ba r_def
    by (intro exI[of _ ?h] exI[of _ r] exI[of _ sa1] exI[of _ ?b] exI[of _ s1]) (simp add: bi_rest_def bi_fate_def)
qed

lemma getln_loop_spec:
  assumes "grants al" "bi_wf b" "unat (ba b) < 2 ^ 31" "sa_is sa w" "length w + length (bi_rest (b, s)) < sa_max"
    "t = takeWhile (\<lambda>c. c \<noteq> z) (bi_rest (b, s))"
  shows "\<exists>r g sa' b' s'. getln_loop al z sa b s = Some ((r, g, sa'), b', s') \<and> bi_wf b' \<and>
     (if t = bi_rest (b, s) then r = bi_fate (b, s) \<and> \<not> g \<and> sa_is sa' (w @ t)
      else r = 0 \<and> g \<and> sa_is sa' (w @ t @ [z]) \<and> bi_rest (b', s') = drop (Suc (length t)) (bi_rest (b, s)))"
  using assms(2-)
proof (induction "length (bi_rest (b, s))" arbitrary: b s sa w t rule: less_induct)
  case less
  show ?case
  proof (cases "bi_rest (b, s) = []")
    case True
    then have t: "t = []" using less.prems(5) by simp
    obtain b' s' where f: "buffer_feed b s = Some (bi_fate (b, s), b', s')" "bi_wf b'" using buffer_feed_end[OF less.prems(1) True] by blast
    show ?thesis unfolding t True by (subst getln_loop.simps)
      (use f fate_cases[of "rreplies s"] less.prems int_of_size_neg1 int_of_size_nat[of 0] in \<open>auto simp: bi_fate_def Let_def\<close>)
  next
    case False
    obtain h k sa1 b1 s1 where h: "h \<noteq> []" "bi_rest (b, s) = h @ pending (rreplies s1)"
        "k = (if z \<in> set h then length (takeWhile (\<lambda>c. c \<noteq> z) h) + 1 else length h)"
        "getln_loop al z sa b s = (if z \<in> set h then Some ((0, True, sa1), b1, s1) else getln_loop al z sa1 b1 s1)"
        "sa_is sa1 (w @ take k h)" "bi_wf b1" "ba b1 = ba b" "bi_rest (b1, s1) = drop k h @ pending (rreplies s1)"
        "bi_fate (b1, s1) = bi_fate (b, s)"
      using getln_round[OF assms(1) less.prems(1-4) False] by blast
    show ?thesis
    proof (cases "z \<in> set h")
      case nz: False
      let ?p = "pending (rreplies s1)"
      have t: "t = h @ takeWhile (\<lambda>c. c \<noteq> z) ?p" unfolding less.prems(5) h(2) using nz by (intro takeWhile_append2) auto
      have rest': "bi_rest (b1, s1) = ?p" and sa2: "sa_is sa1 (w @ h)" using h(3,5,8) nz by simp_all
      have side: "length (bi_rest (b1, s1)) < length (bi_rest (b, s))" "unat (ba b1) < 2 ^ 31"
          "length (w @ h) + length (bi_rest (b1, s1)) < sa_max"
        using h(1,2,7) less.prems(2,4) rest' by simp_all
      from less.hyps[OF side(1) h(6) side(2) sa2 side(3) refl] obtain r g sa' b' s' where
          ih: "getln_loop al z sa1 b1 s1 = Some ((r, g, sa'), b', s')" "bi_wf b'"
          "let u = takeWhile (\<lambda>c. c \<noteq> z) ?p in
           if u = ?p then r = bi_fate (b, s) \<and> \<not> g \<and> sa_is sa' (w @ h @ u)
           else r = 0 \<and> g \<and> sa_is sa' (w @ h @ u @ [z]) \<and> bi_rest (b', s') = drop (Suc (length u)) ?p"
        unfolding rest' h(9) Let_def append_assoc by blast
      then show ?thesis unfolding h(2,4) t using nz
        by (intro exI[of _ r] exI[of _ g] exI[of _ sa'] exI[of _ b'] exI[of _ s']) (simp add: Let_def)
    next
      case True
      have t: "t = takeWhile (\<lambda>c. c \<noteq> z) h" unfolding less.prems(5) h(2) by (rule takeWhile_append1[OF True]) simp
      obtain v where v: "h = t @ z # v" using takeWhile_neq_split[OF True] t by metis
      have k: "k = Suc (length t)" using h(3) True t by simp
      have "take k h = t @ [z]" "drop k h = v" "t \<noteq> h @ pending (rreplies s1)" unfolding k by (simp_all add: v)
      then show ?thesis unfolding h(2,4) using True h(5,6,8) k v
        by (intro exI[of _ 0] exI[of _ True] exI[of _ sa1] exI[of _ b1] exI[of _ s1]) simp
    qed
  qed
qed

lemma getn_loop_spec:
  assumes "bi_wf b"
  shows "\<exists>b' s'. getn_loop len [] b s =
       Some ((if len \<le> length (bi_rest (b, s)) \<or> bi_fate (b, s) = 0 then int (min len (length (bi_rest (b, s)))) else -1,
              take len (bi_rest (b, s))), b', s') \<and>
       (len \<le> length (bi_rest (b, s)) \<longrightarrow> bi_rest (b', s') = drop len (bi_rest (b, s)))"
proof -
  have all: "takeWhile (\<lambda>c. \<not> False) (bi_rest (b, s)) = bi_rest (b, s)" by simp
  have e: "bi_fate (b, s) = 0 \<or> bi_fate (b, s) = -1" by (simp add: bi_fate_def fate_cases)
  note spec = bi.take_until_spec[of "(b, s)" "\<lambda>_. False" len "[]", unfolded all Let_def]
  show ?thesis
  proof (cases "len \<le> length (bi_rest (b, s))")
    case True
    then obtain b' s' where "bi.take_until (\<lambda>_. False) len [] (b, s) = Some ((1, take len (bi_rest (b, s))), b', s')"
        "bi_rest (b', s') = drop len (bi_rest (b, s))"
      using spec assms by auto
    then show ?thesis unfolding getn_loop_take using True by simp
  next
    case False
    then obtain b' s' where "bi.take_until (\<lambda>_. False) len [] (b, s) = Some ((bi_fate (b, s), bi_rest (b, s)), b', s')"
      using spec assms by auto
    then show ?thesis unfolding getn_loop_take using False e by auto
  qed
qed

subsection \<open>Properties\<close>

text \<open>
  C18. \<open>buffer_get\<close>, which copies chunk by chunk, and \<open>buffer_getn\<close>, which takes byte by
  byte, read the same: the next \<open>len\<close> bytes of the stream, whatever the sizes of the buffer and
  of the reads and however often these are interrupted.  When the stream is shorter both return what
  there is, with its length, or -1 if it ends in an error; otherwise the stream goes on right after.
  The manual page of \<open>buffer_get\<close> says otherwise: that it returns what the buffer holds, without
  reading on, when this is less than \<open>len\<close>.
\<close>
theorem buffer_get_reads:
  assumes "bi_wf b" "len < 2 ^ 63" "w = bi_rest (b, s)"
  shows "\<exists>r b1 s1 b2 s2. buffer_get b s len = Some ((r, take len w), b1, s1) \<and>
           buffer_getn b s len = Some ((r, take len w), b2, s2) \<and>
           r = (if len \<le> length w \<or> bi_fate (b, s) = 0 then int (min len (length w)) else -1) \<and>
           (len \<le> length w \<longrightarrow> bi_rest (b1, s1) = drop len w \<and> bi_rest (b2, s2) = drop len w)"
proof -
  have z: "ssize len = len" using assms(2) by (simp add: ssize_def)
  obtain b1 s1 where g: "get_loop len [] b s =
      Some ((if len \<le> length w \<or> bi_fate (b, s) = 0 then int (min len (length w)) else -1, take len w), b1, s1)"
      "len \<le> length w \<longrightarrow> bi_rest (b1, s1) = drop len w"
    using get_loop_spec[OF assms(1), of len "[]" s] assms(3) by auto
  obtain b2 s2 where n: "getn_loop len [] b s =
      Some ((if len \<le> length w \<or> bi_fate (b, s) = 0 then int (min len (length w)) else -1, take len w), b2, s2)"
      "len \<le> length w \<longrightarrow> bi_rest (b2, s2) = drop len w"
    using getn_loop_spec[OF assms(1), of len s] assms(3) by auto
  show ?thesis unfolding buffer_get_def buffer_getn_def z g(1) n(1) using g(2) n(2) by simp
qed

theorem buffer_get_reads_witness:
  "\<exists>r b1 s1 b2 s2.
     buffer_get \<lparr>bx = [0, 0], bp = 0, bn = 0, ba = 2\<rparr> \<lparr>rreplies = [Data [7, 8, 9], RFail EINTR], rerrno = 0\<rparr> 5 =
       Some ((r, [7, 8, 9]), b1, s1) \<and>
     buffer_getn \<lparr>bx = [0, 0], bp = 0, bn = 0, ba = 2\<rparr> \<lparr>rreplies = [Data [7, 8, 9], RFail EINTR], rerrno = 0\<rparr> 5 =
       Some ((r, [7, 8, 9]), b2, s2) \<and> r = 3"
  using buffer_get_reads[of "\<lparr>bx = [0, 0], bp = 0, bn = 0, ba = 2\<rparr>" 5 "[7, 8, 9]"
      "\<lparr>rreplies = [Data [7, 8, 9], RFail EINTR], rerrno = 0\<rparr>"]
  by (simp add: bi_wf_def bi_rest_def bi_held_def bi_fate_def)

text \<open>
  \<open>buffer_prefetch\<close> makes the next bytes visible without taking any: afterwards at least
  \<open>n\<close> bytes of the stream are in the buffer, or as many as the buffer has room for, and the
  stream is unchanged; if it ends earlier, all that is left is in the buffer.
\<close>
theorem buffer_prefetch_keeps:
  assumes "bi_wf b" "unat (ba b) < 2 ^ 31" "0 < n" "unat n < 2 ^ 63" "w = bi_rest (b, s)"
  shows "\<exists>b' s'. bi_wf b' \<and>
     (if min (unat n) (unat (ba b)) \<le> length w
      then buffer_prefetch False b s n = Some (int (length (bi_held b')), b', s') \<and>
           min (unat n) (unat (ba b)) \<le> length (bi_held b') \<and> bi_rest (b', s') = w
      else buffer_prefetch False b s n = Some (if bi_fate (b, s) = 0 then int (length w) else -1, b', s') \<and> bi_held b' = w)"
  using buffer_prefetch_spec[OF assms(1-4), of s] unfolding bi_fetched_def assms(5) by meson

theorem buffer_prefetch_keeps_witness:
  "\<exists>b' s'. buffer_prefetch False \<lparr>bx = [1, 2, 3], bp = 2, bn = 3, ba = 3\<rparr> \<lparr>rreplies = [Data [4], Data [5, 6]], rerrno = 0\<rparr> 2 =
       Some (int (length (bi_held b')), b', s') \<and> 2 \<le> length (bi_held b') \<and> bi_rest (b', s') = [3, 4, 5, 6]"
  using buffer_prefetch_keeps[of "\<lparr>bx = [1, 2, 3], bp = 2, bn = 3, ba = 3\<rparr>" 2 "[3, 4, 5, 6]"
      "\<lparr>rreplies = [Data [4], Data [5, 6]], rerrno = 0\<rparr>"]
  by (simp add: bi_wf_def bi_rest_def bi_held_def) blast

text \<open>
  C23. The two line readers agree: \<open>buffer_getnewline_sa\<close>, which appends byte by byte, and
  \<open>buffer_getln\<close>, which appends the part of each chunk up to the newline, both leave the next
  line with its newline in the string and the stream at the byte after it.
\<close>
theorem buffer_lines_agree:
  assumes "grants al" "bi_wf b" "unat (ba b) < 2 ^ 31" "sa_is sa w" "bi_rest (b, s) = u @ 10 # v" "10 \<notin> set u"
    "length (u @ 10 # v) + 1 < sa_max"
  shows "\<exists>sa1 b1 s1 sa2 b2 s2. buffer_getnewline_sa al b s sa = Some ((1, sa1), b1, s1) \<and>
           buffer_getln al b s sa 10 = Some ((0, True, sa2), b2, s2) \<and>
           sa_text sa1 = u @ [10] \<and> sa_text sa2 = u @ [10] \<and> bi_rest (b1, s1) = v \<and> bi_rest (b2, s2) = v"
proof -
  have t: "takeWhile (\<lambda>c. c \<noteq> 10) (u @ 10 # v) = u" using assms(6) by (subst takeWhile_append2) auto
  have small: "length ([] :: byte list) + length (bi_rest (b, s)) + 1 < sa_max"
      "length ([] :: byte list) + length (bi_rest (b, s)) < sa_max" using assms(5,7) by simp_all
  have "sa_is (stralloc_zero sa) []" by (rule stralloc_zero_is) fact
  from token_sa_loop_spec[OF assms(1) _ assms(2) this small(1) refl, of 1 "[10]"]
  obtain sa1 b1 s1 where a: "buffer_getnewline_sa al b s sa = Some ((1, sa1), b1, s1)" "sa_is sa1 (u @ [10])" "bi_rest (b1, s1) = v"
    using t assms(5) by (auto simp: buffer_getnewline_sa_def buffer_getline_sa_def buffer_get_token_sa_def)
  obtain sa0 where r: "stralloc_ready al sa 0 = Some (True, sa0)" "sa_room sa0 w 0"
    using stralloc_ready_room[OF assms(4), of 0 al] assms(1) by (auto simp: sa_out_def sa_max_def)
  have "sa_is (sa0\<lparr>sa_len := 0\<rparr>) []" using stralloc_zero_is[OF sa_room_is[OF r(2)]] by (simp add: stralloc_zero_def)
  from getln_loop_spec[OF assms(1-3) this small(2) refl, of 10]
  obtain sa2 b2 s2 where "buffer_getln al b s sa 10 = Some ((0, True, sa2), b2, s2)" "sa_is sa2 (u @ [10])" "bi_rest (b2, s2) = v"
    using t assms(5) r(1) by (auto simp: buffer_getln_def)
  then show ?thesis using a by (simp add: sa_is_def)
qed

theorem buffer_lines_agree_witness:
  "\<exists>sa1 b1 s1 sa2 b2 s2.
     buffer_getnewline_sa (\<lambda>n. Some (replicate n 0)) \<lparr>bx = [0, 0], bp = 0, bn = 0, ba = 2\<rparr>
       \<lparr>rreplies = [Data [97, 98, 99, 10, 100]], rerrno = 0\<rparr> \<lparr>sa_s = None, sa_len = 0, sa_a = 0\<rparr> = Some ((1, sa1), b1, s1) \<and>
     buffer_getln (\<lambda>n. Some (replicate n 0)) \<lparr>bx = [0, 0], bp = 0, bn = 0, ba = 2\<rparr>
       \<lparr>rreplies = [Data [97, 98, 99, 10, 100]], rerrno = 0\<rparr> \<lparr>sa_s = None, sa_len = 0, sa_a = 0\<rparr> 10 = Some ((0, True, sa2), b2, s2) \<and>
     sa_text sa1 = [97, 98, 99, 10] \<and> sa_text sa2 = [97, 98, 99, 10] \<and> bi_rest (b1, s1) = [100] \<and> bi_rest (b2, s2) = [100]"
  using buffer_lines_agree[of "\<lambda>n. Some (replicate n 0)" "\<lparr>bx = [0, 0], bp = 0, bn = 0, ba = 2\<rparr>"
      "\<lparr>sa_s = None, sa_len = 0, sa_a = 0\<rparr>" "[]" "\<lparr>rreplies = [Data [97, 98, 99, 10, 100]], rerrno = 0\<rparr>"
      "[97, 98, 99]" "[100]"]
  by (simp add: bi_wf_def bi_rest_def bi_held_def grants_def sa_is_def sa_wf_def sa_text_def sa_max_def)

text \<open>
  C11. \<open>buffer_copy\<close> followed by a flush delivers the whole stream: when the source ends
  regularly and the device makes progress, the copy returns 0 and the device has taken what the
  output buffer held and then every byte of the input, whatever the sizes of both buffers.
\<close>
theorem buffer_copy_delivers:
  assumes "bi_wf b" "bi_fate (b, s) = 0" "bf_wf out" "willing (replies d)"
  shows "\<exists>o1 d1 b1 s1 o2 d2. buffer_copy out d b s = Some (0, (o1, d1), b1, s1) \<and> buffer_flush o1 d1 = Some (0, o2, d2) \<and>
           taken d2 = taken d @ take (unat (bp out)) (bx out) @ bi_rest (b, s)"
proof -
  have "bf_holds (out, d) (taken d @ take (unat (bp out)) (bx out))" using assms(3) by (simp add: bf_holds_def bf_text_def)
  from buffer_copy_spec[OF assms(1) this assms(4), of s] obtain o1 d1 b1 s1 where
      c: "buffer_copy out d b s = Some (0, (o1, d1), b1, s1)" "willing (replies d1)"
        "bf_holds (o1, d1) ((taken d @ take (unat (bp out)) (bx out)) @ bi_rest (b, s))"
    using assms(2) by auto
  then show ?thesis using buffer_flush_spec[OF c(3)] by auto
qed

theorem buffer_copy_delivers_witness:
  "\<exists>o1 d1 b1 s1 o2 d2. buffer_copy \<lparr>bx = [1, 0, 0], bp = 1, bn = 0, ba = 3\<rparr> \<lparr>replies = [Wrote 1, Fail EINTR], taken = [], errno = 0\<rparr>
       \<lparr>bx = [0, 0], bp = 0, bn = 0, ba = 2\<rparr> \<lparr>rreplies = [Data [2, 3, 4]], rerrno = 0\<rparr> = Some (0, (o1, d1), b1, s1) \<and>
     buffer_flush o1 d1 = Some (0, o2, d2) \<and> taken d2 = [1, 2, 3, 4]"
  using buffer_copy_delivers[of "\<lparr>bx = [0, 0], bp = 0, bn = 0, ba = 2\<rparr>" "\<lparr>rreplies = [Data [2, 3, 4]], rerrno = 0\<rparr>"
      "\<lparr>bx = [1, 0, 0], bp = 1, bn = 0, ba = 3\<rparr>" "\<lparr>replies = [Wrote 1, Fail EINTR], taken = [], errno = 0\<rparr>"]
  by (simp add: bi_wf_def bf_wf_def bi_rest_def bi_held_def bi_fate_def willing_def)

text \<open>
  Where \<open>buffer_getline\<close> does not read a line: a newline that is the last byte of a chunk is not
  noticed, so two lines come back as one.
\<close>
lemma buffer_getline_joins_lines:
  "map_option fst (buffer_getline \<lparr>bx = [0, 0], bp = 0, bn = 0, ba = 2\<rparr>
     \<lparr>rreplies = [Data [97, 10], Data [98]], rerrno = 0\<rparr> 9) = Some (3, [97, 10, 98])"
proof -
  have s: "ssize 9 = 9" by (simp add: ssize_def)
  have "map_option fst (token1_loop 9 10 [] \<lparr>bx = [0, 0], bp = 0, bn = 0, ba = 2\<rparr>
     \<lparr>rreplies = [Data [97, 10], Data [98]], rerrno = 0\<rparr>) = Some (3, [97, 10, 98])"
    by code_simp
  then show ?thesis by (simp add: buffer_getline_def buffer_get_token_def s)
qed

lemma buffer_skipspace_eats:
  "buffer_skipspace \<lparr>bx = [32, 97, 98], bp = 0, bn = 3, ba = 3\<rparr> s = Some (2, \<lparr>bx = [32, 97, 98], bp = 2, bn = 3, ba = 3\<rparr>, s)"
  unfolding buffer_skipspace_def buffer_skip_pred_def
  by (subst skip_loop.simps, simp add: is_space_def, subst skip_loop.simps, simp)

end
