(* ===== verification/Array.thy ===== *)
theory Array
  imports BufferIn Ranges
begin

text \<open>
  The growable array \<open>array\<close> (\<open>src/lib/array\<close>): objects of one size in a block that is
  enlarged on demand.  The record has the fields of the C structure without \<open>headroom\<close>, which no
  routine uses; \<open>ar_p\<close> is the whole block or \<open>None\<close> for \<open>NULL\<close>.  Pointers into the block are
  offsets, the inner \<open>None\<close> is the pointer 0 the routines return for an error, the outer one undefined
  behaviour.  An array that has failed has a negative \<open>allocated\<close>.
\<close>

subsection \<open>The structure\<close>

type_synonym int64 = "64 word"

record array =
  ar_p :: "byte list option"
  allocated :: int64
  initialized :: uint64

definition ar_mem :: "array \<Rightarrow> byte list" where
  "ar_mem x = (case ar_p x of None \<Rightarrow> [] | Some m \<Rightarrow> m)"

definition array_init :: array where
  "array_init = \<lparr>ar_p = None, allocated = 0, initialized = 0\<rparr>"

definition array_fail :: "array \<Rightarrow> array" where
  "array_fail x = x\<lparr>ar_p := None, initialized := 0, allocated := -1\<rparr>"

definition array_reset :: "array \<Rightarrow> array" where
  "array_reset x = x\<lparr>ar_p := None, allocated := 0, initialized := 0\<rparr>"

definition array_trunc :: "array \<Rightarrow> array" where
  "array_trunc x = x\<lparr>initialized := 0\<rparr>"

definition array_bytes :: "array \<Rightarrow> int64" where
  "array_bytes x = (if sint (allocated x) < 0 then -1 else initialized x)"

definition array_failed :: "array \<Rightarrow> bool" where
  "array_failed x \<longleftrightarrow> array_bytes x = -1"

text \<open>Division by zero is undefined.\<close>

definition array_length :: "array \<Rightarrow> uint64 \<Rightarrow> int64 option" where
  "array_length x membersize =
     (if sint (allocated x) < 0 then Some (-1)
      else if membersize = 0 then None else Some (initialized x div membersize))"

definition array_start :: "array \<Rightarrow> nat option" where
  "array_start x = map_option (\<lambda>_. 0) (ar_p x)"

definition array_end :: "array \<Rightarrow> nat option" where
  "array_end x = map_option (\<lambda>_. unat (initialized x)) (ar_p x)"

subsection \<open>Allocation and access\<close>

text \<open>The sum \<open>pos + 1\<close> is one of signed integers: it must not overflow.\<close>

definition array_allocate :: "allocator \<Rightarrow> array \<Rightarrow> uint64 \<Rightarrow> int64 \<Rightarrow> (nat option \<times> array) option" where
  "array_allocate al x membersize pos =
     (if sint (allocated x) < 0 then Some (None, x)
      else if sint pos = 2 ^ 63 - 1 then None
      else if sint pos + 1 < 1 then Some (None, x)
      else case umult64 membersize (pos + 1) of
        None \<Rightarrow> Some (None, x)
      | Some wanted \<Rightarrow>
          do { r \<leftarrow>
                 (if wanted > initialized x then
                    do { r \<leftarrow>
                           (if wanted \<ge> allocated x then
                              let wanted = (if membersize < 8 then (wanted + 127) AND (-128)
                                            else (wanted + 4095) AND (-4096))
                              in if wanted < 128 then Some None
                                 else case realloc al (ar_mem x) (unat wanted) of
                                   None \<Rightarrow> Some None
                                 | Some tmp \<Rightarrow>
                                     do { m \<leftarrow> byte_fill_loop tmp (unat (initialized x)) (unat (wanted - initialized x)) 0;
                                          Some (Some (x\<lparr>ar_p := Some m, allocated := wanted\<rparr>)) }
                            else Some (Some x));
                         Some (map_option (\<lambda>x. x\<lparr>initialized := (pos + 1) * membersize\<rparr>) r) }
                  else Some (Some x));
               case r of
                 None \<Rightarrow> Some (None, x)
               | Some x \<Rightarrow> Some (map_option (\<lambda>_. unat (pos * membersize)) (ar_p x), x) })"

definition array_get :: "array \<Rightarrow> uint64 \<Rightarrow> int64 \<Rightarrow> nat option option" where
  "array_get x membersize pos =
     (if sint pos = 2 ^ 63 - 1 then None
      else if sint pos + 1 < 1 then Some None
      else case umult64 membersize pos of
        None \<Rightarrow> Some None
      | Some wanted \<Rightarrow>
          Some (if sint wanted \<ge> sint (allocated x) \<or> wanted \<ge> initialized x then None
                else map_option (\<lambda>_. unat (pos * membersize)) (ar_p x)))"

definition array_truncate :: "array \<Rightarrow> uint64 \<Rightarrow> int64 \<Rightarrow> array" where
  "array_truncate x membersize len =
     (if sint len < 0 then x
      else case umult64 membersize len of
        None \<Rightarrow> x
      | Some wanted \<Rightarrow> if wanted > initialized x then x else x\<lparr>initialized := wanted\<rparr>)"

subsection \<open>Appending\<close>

definition array_catb :: "allocator \<Rightarrow> array \<Rightarrow> byte list \<Rightarrow> uint64 \<Rightarrow> array option" where
  "array_catb al to from' len =
     (if len = 0 then Some to
      else if sint (allocated to) < 0 then Some to
      else if initialized to + len < initialized to then Some (array_fail to)
      else let l = initialized to
           in do { (r, to) \<leftarrow> array_allocate al to 1 (initialized to + len - 1);
                   case r of
                     None \<Rightarrow> Some (array_fail to)
                   | Some _ \<Rightarrow>
                       do { m \<leftarrow> byte_copy (ar_mem to) (unat l) (unat (initialized to - l)) from' 0;
                            Some (to\<lparr>ar_p := Some m\<rparr>) } })"

definition array_cat :: "allocator \<Rightarrow> array \<Rightarrow> array \<Rightarrow> array option" where
  "array_cat al to from' =
     (if sint (allocated from') < 0 then Some (array_fail to)
      else array_catb al to (ar_mem from') (initialized from'))"

definition array_cats :: "allocator \<Rightarrow> array \<Rightarrow> byte list \<Rightarrow> array option" where
  "array_cats al to from' = do { n \<leftarrow> str_len from'; array_catb al to from' (of_nat n) }"

definition array_cats0 :: "allocator \<Rightarrow> array \<Rightarrow> byte list \<Rightarrow> array option" where
  "array_cats0 al to from' = do { n \<leftarrow> str_len from'; array_catb al to from' (of_nat n + 1) }"

definition array_cat0 :: "allocator \<Rightarrow> array \<Rightarrow> array option" where
  "array_cat0 al to = array_catb al to [0] 1"

definition array_cate :: "allocator \<Rightarrow> array \<Rightarrow> array \<Rightarrow> int64 \<Rightarrow> int64 \<Rightarrow> array option" where
  "array_cate al to from' pos stop =
     (if sint pos < 0 \<or> sint stop < sint pos then Some (array_fail to)
      else if length (ar_mem from') < unat pos then None
      else array_catb al to (drop (unat pos) (ar_mem from')) (stop - pos))"

subsection \<open>Comparison and search\<close>

definition array_equal :: "array \<Rightarrow> array \<Rightarrow> bool option" where
  "array_equal x y =
     (if initialized x \<noteq> initialized y then Some False
      else byte_equal (ar_mem x) (unat (initialized x)) (ar_mem y))"

text \<open>The offset of the first equal member and its number, or \<open>None\<close>; \<open>n\<close> members are left.\<close>

primrec member_loop :: "nat \<Rightarrow> nat \<Rightarrow> byte list \<Rightarrow> nat \<Rightarrow> byte list \<Rightarrow> nat option option" where
  "member_loop 0 i s membersize data = Some None"
| "member_loop (Suc n) i s membersize data =
     do { e \<leftarrow> byte_equal s membersize data;
          if e then Some (Some i) else member_loop n (i + 1) (drop membersize s) membersize data }"

definition array_find :: "array \<Rightarrow> uint64 \<Rightarrow> byte list \<Rightarrow> nat option option" where
  "array_find a membersize data =
     do { n \<leftarrow> array_length a membersize;
          r \<leftarrow> member_loop (unat n) 0 (ar_mem a) (unat membersize) data;
          Some (map_option (\<lambda>i. i * unat membersize) r) }"

definition array_indexof :: "array \<Rightarrow> uint64 \<Rightarrow> byte list \<Rightarrow> int64 option" where
  "array_indexof a membersize data =
     do { n \<leftarrow> array_length a membersize;
          r \<leftarrow> member_loop (nat (sint n)) 0 (ar_mem a) (unat membersize) data;
          Some (case r of None \<Rightarrow> -1 | Some i \<Rightarrow> of_nat i) }"

subsection \<open>Replacing members\<close>

text \<open>
  The tail behind the deleted members moves to where the enlarged array ends.  A difference with or
  a copy from the pointer 0 is undefined.
\<close>

definition array_splice ::
  "allocator \<Rightarrow> array \<Rightarrow> uint64 \<Rightarrow> uint64 \<Rightarrow> uint64 \<Rightarrow> uint64 \<Rightarrow> byte list \<Rightarrow> (int64 \<times> array) option" where
  "array_splice al a membersize start del insert' x =
     do { len \<leftarrow> array_length a membersize;
          let del = (if start + del > len then len - start else del);
          let newlen = len - del + insert';
          i \<leftarrow> Some (if insert' = 0 then Some 0 else umult64 membersize insert');
          case i of
            None \<Rightarrow> Some (-1, a)
          | Some i \<Rightarrow>
              do { a \<leftarrow>
                     (if insert' \<noteq> del then
                        do { s \<leftarrow> array_get a membersize (start + del);
                             s \<leftarrow> s;
                             let bytes = unat (initialized a) - s;
                             (newend, a) \<leftarrow> array_allocate al a membersize newlen;
                             newend \<leftarrow> newend;
                             if bytes = 0 then Some a
                             else if newend < bytes then None
                             else do { s \<leftarrow> array_get a membersize (start + del);
                                       s \<leftarrow> s;
                                       m \<leftarrow> (if insert' > del then byte_copyr_within (ar_mem a) (newend - bytes) bytes s
                                              else byte_copy_within (ar_mem a) (newend - bytes) bytes s);
                                       Some (a\<lparr>ar_p := Some m\<rparr>) } }
                      else Some a);
                   a \<leftarrow> (if insert' \<noteq> 0 then
                            do { s \<leftarrow> array_get a membersize start;
                                 s \<leftarrow> s;
                                 m \<leftarrow> byte_copy (ar_mem a) s (unat i) x 0;
                                 Some (a\<lparr>ar_p := Some m\<rparr>) }
                          else Some a);
                   Some (newlen, array_truncate a membersize newlen) } }"

subsection \<open>Reading an array through a buffer\<close>

definition buffer_fromarray :: "buffer \<Rightarrow> array \<Rightarrow> buffer" where
  "buffer_fromarray b a =
     (if array_failed a then buffer_frombuf b [] 0 else buffer_frombuf b (ar_mem a) (initialized a))"

subsection \<open>The invariant\<close>

text \<open>
  An array that has not failed owns a block of at least \<open>allocated\<close> bytes, of which the first
  \<open>initialized\<close> are in use.  It is \<open>clean\<close> when the bytes behind them are zero.
\<close>

definition ar_ok :: "array \<Rightarrow> bool" where
  "ar_ok x \<longleftrightarrow> unat (allocated x) < 2 ^ 63 \<and> initialized x \<le> allocated x \<and>
     (case ar_p x of None \<Rightarrow> allocated x = 0 | Some m \<Rightarrow> 0 < allocated x \<and> length m = unat (allocated x))"

definition ar_text :: "array \<Rightarrow> byte list" where
  "ar_text x = take (unat (initialized x)) (ar_mem x)"

definition ar_is :: "array \<Rightarrow> byte list \<Rightarrow> bool" where
  "ar_is x w \<longleftrightarrow> ar_ok x \<and> ar_text x = w"

definition ar_clean :: "array \<Rightarrow> bool" where
  "ar_clean x \<longleftrightarrow> (\<forall>c \<in> set (drop (unat (initialized x)) (ar_mem x)). c = 0)"

lemma ar_mem_length: "ar_ok x \<Longrightarrow> length (ar_mem x) = unat (allocated x)"
  by (auto simp: ar_ok_def ar_mem_def split: option.splits)

lemma ar_is_len: "ar_is x w \<Longrightarrow> unat (initialized x) = length w"
  using ar_mem_length[of x] by (auto simp: ar_is_def ar_text_def ar_ok_def word_le_nat_alt)

lemma ar_is_mem: "ar_is x w \<Longrightarrow> take (length w) (ar_mem x) = w"
  by (metis ar_is_def ar_is_len ar_text_def)

lemma ar_not_failed: "ar_ok x \<Longrightarrow> \<not> sint (allocated x) < 0"
  using sint_neg_iff[of "allocated x"] by (simp add: ar_ok_def)

lemma round_up_bounds:
  fixes w :: uint64
  assumes "unat w + 2 ^ k \<le> 2 ^ 64" "k < 64"
  shows "unat w \<le> unat ((w + mask k) AND NOT (mask k))" "unat ((w + mask k) AND NOT (mask k)) < unat w + 2 ^ k"
proof -
  let ?x = "w + mask k"
  have m: "unat (mask k :: uint64) = 2 ^ k - 1"  using assms(2) by (intro unat_mask_lt) simp
  have p: "(1 :: nat) \<le> 2 ^ k" by simp
  have "unat w + unat (mask k :: uint64) < 2 ^ 64" using assms(1) m p by linarith
  then have x: "unat ?x = unat w + (2 ^ k - 1)" using m by (simp add: unat_add_small)
  have split: "(?x AND NOT (mask k)) + take_bit k ?x = ?x"
  proof -
    have "(?x AND NOT (mask k)) + (?x AND mask k) = (?x AND NOT (mask k)) OR (?x AND mask k)"
      by (rule disjunctive_add) (simp add: bit_and_iff bit_not_iff)
    then show ?thesis by (simp add: take_bit_eq_mask flip: bit.conj_disj_distrib)
  qed
  have t: "unat (take_bit k ?x) < 2 ^ k" by (simp add: unsigned_take_bit_eq)
  have le: "take_bit k ?x \<le> ?x" by (simp add: word_le_nat_alt unsigned_take_bit_eq)
  have "unat (?x AND NOT (mask k)) = unat ?x - unat (take_bit k ?x)"
    using split le by (metis add_diff_cancel_right' unat_sub)
  then show "unat w \<le> unat (?x AND NOT (mask k))" "unat (?x AND NOT (mask k)) < unat w + 2 ^ k"
    using x t p by linarith+
qed

lemma grow_block:
  assumes "ar_is x w" "unat (allocated x) \<le> unat n" "realloc al (ar_mem x) (unat n) = Some tmp"
  shows "byte_fill_loop tmp (unat (initialized x)) (unat (n - initialized x)) 0 = Some (w @ replicate (unat n - length w) 0)"
proof -
  have len: "unat (initialized x) = length w" "length w \<le> length (ar_mem x)" "length (ar_mem x) = unat (allocated x)"
    using ar_is_len[OF assms(1)] ar_mem_length[of x] assms(1) by (auto simp: ar_is_def ar_ok_def word_le_nat_alt)
  have tmp: "length tmp = unat n" "take (length (ar_mem x)) tmp = ar_mem x"
    using realloc_Some[OF assms(3)] assms(2) len(3) by (simp_all add: min_absorb2)
  have d: "unat (n - initialized x) = unat n - length w" using assms(2) len by (subst unat_sub_small) auto
  have "take (length w) tmp = take (length w) (take (length (ar_mem x)) tmp)" using len(2) by (simp add: min_absorb1)
  also have "\<dots> = w" unfolding tmp(2) by (rule ar_is_mem) fact
  finally have "splice tmp (length w) (replicate (unat n - length w) 0) = w @ replicate (unat n - length w) 0"
    using tmp(1) assms(2) len by (simp add: splice_def)
  then show ?thesis using byte_fill_loop_eq[of "length w" "unat n - length w" tmp 0] tmp(1) d len assms(2) by simp
qed

text \<open>What a successful allocation leaves behind: the old bytes, and zeros up to the end of the object.\<close>

definition ar_grown :: "array \<Rightarrow> byte list \<Rightarrow> nat \<Rightarrow> array \<Rightarrow> bool" where
  "ar_grown x w n x' \<longleftrightarrow> ar_ok x' \<and> ar_p x' \<noteq> None \<and> length (ar_text x') = max (length w) n \<and> take (length w) (ar_text x') = w \<and>
     (ar_clean x \<longrightarrow> ar_text x' = w @ replicate (n - length w) 0 \<and> ar_clean x')"

lemma ar_grown_block:
  assumes "length w \<le> unat i" "unat i \<le> unat n" "0 < unat n" "unat n < 2 ^ 63"
  shows "ar_grown x w (unat i) (x\<lparr>ar_p := Some (w @ replicate (unat n - length w) 0), allocated := n, initialized := i\<rparr>)"
  using assms by (auto simp: ar_grown_def ar_ok_def ar_text_def ar_mem_def ar_clean_def word_le_nat_alt word_less_nat_alt max_absorb2)

lemma ar_grown_inside:
  assumes "ar_is x w" "length w \<le> unat i" "unat i \<le> unat (allocated x)" "0 < unat i"
  shows "ar_grown x w (unat i) (x\<lparr>initialized := i\<rparr>)"
proof -
  have ok: "ar_ok x" and len: "unat (initialized x) = length w" "length (ar_mem x) = unat (allocated x)"
    using assms(1) ar_is_len[OF assms(1)] ar_mem_length by (auto simp: ar_is_def)
  have p: "ar_p x \<noteq> None" using ok assms(3,4) by (auto simp: ar_ok_def split: option.splits)
  have mem: "ar_mem (x\<lparr>initialized := i\<rparr>) = ar_mem x" by (simp add: ar_mem_def)
  have w: "take (length w) (take (unat i) (ar_mem x)) = w" using assms(2) ar_is_mem[OF assms(1)] by (simp add: min_absorb1)
  have "take (unat i) (ar_mem x) = w @ replicate (unat i - length w) 0 \<and> ar_clean (x\<lparr>initialized := i\<rparr>)" if "ar_clean x"
  proof -
    let ?d = "drop (length w) (ar_mem x)"
    have z: "\<forall>c \<in> set ?d. c = 0" using that len(1) by (simp add: ar_clean_def)
    have d: "?d = replicate (unat (allocated x) - length w) 0" using z len(2) by (intro replicate_eqI) auto
    have m: "ar_mem x = w @ replicate (unat (allocated x) - length w) 0"
      using append_take_drop_id[of "length w" "ar_mem x"] ar_is_mem[OF assms(1)] d by simp
    show ?thesis unfolding ar_clean_def mem m using assms(2,3) by auto
  qed
  then show ?thesis using ok p len w assms(2,3) mem
    by (auto simp: ar_grown_def ar_text_def ar_ok_def word_le_nat_alt max_absorb2)
qed

lemma ar_grown_same:
  assumes "ar_is x w" "n \<le> length w" "0 < length w"
  shows "ar_grown x w n x"
  using assms ar_is_len[OF assms(1)] by (cases "ar_p x") (auto simp: ar_grown_def ar_is_def max_absorb1 ar_text_def ar_mem_def)

text \<open>The block that the rounding asks for.\<close>

lemma round_wanted:
  fixes w ms :: uint64
  assumes "unat w + 4096 \<le> 2 ^ 63" "0 < unat w"
  defines "n \<equiv> if ms < (8 :: uint64) then (w + 127) AND (-128) else (w + 4095) AND (-4096)"
  shows "unat w \<le> unat n" "unat n < 2 ^ 63" "\<not> n < 128"
proof -
  have m: "(127 :: uint64) = mask 7" "(4095 :: uint64) = mask 12" "(-128 :: uint64) = NOT (mask 7)" "(-4096 :: uint64) = NOT (mask 12)"
    by (simp_all add: mask_eq_exp_minus_1 not_eq_complement)
  have b: "unat w \<le> unat ((w + mask k) AND NOT (mask k)) \<and> unat ((w + mask k) AND NOT (mask k)) < unat w + 2 ^ k"
    if "k = 7 \<or> k = 12" for k
    using round_up_bounds[of w k] assms(1) that by auto
  have low: "take_bit 7 n = 0" unfolding n_def m by (rule bit_eqI) (auto simp: bit_simps)
  show le: "unat w \<le> unat n" "unat n < 2 ^ 63" using b[of 7] b[of 12] assms(1) unfolding n_def m by auto
  show "\<not> n < 128"
  proof
    assume "n < 128"
    then have "unat n < 2 ^ 7" by (simp add: word_less_nat_alt)
    then have "take_bit 7 (unat n) = unat n" by (rule take_bit_nat_eq_self)
    then have "unat n = unat (take_bit 7 n)" by (simp only: unsigned_take_bit_eq)
    then show False using low le(1) assms(2) by simp
  qed
qed

lemma array_allocate_spec:
  assumes "ar_is x w" "0 < unat ms" "(unat pos + 1) * unat ms + 4096 \<le> 2 ^ 63"
  shows "\<exists>r x'. array_allocate al x ms pos = Some (r, x') \<and>
     (case r of None \<Rightarrow> x' = x \<and> \<not> grants al
      | Some off \<Rightarrow> off = unat pos * unat ms \<and> ar_grown x w ((unat pos + 1) * unat ms) x')"
proof -
  let ?n = "(unat pos + 1) * unat ms"
  have len: "unat (initialized x) = length w" by (rule ar_is_len) fact
  have "unat pos + 1 \<le> ?n" using mult_le_mono2[of 1 "unat ms" "unat pos + 1"] assms(2) by simp
  then have pos: "unat pos + 1 < 2 ^ 63" using assms(3) by linarith
  have sp: "sint pos = int (unat pos)" using pos by (intro sint_small) simp
  have p1: "unat (pos + 1) = unat pos + 1" using pos by (subst unat_add_small) simp_all
  have um: "umult64 ms (pos + 1) = Some (ms * (pos + 1))" "unat (ms * (pos + 1)) = ?n"
    using assms(3) p1 by (auto simp: umult64_eq unat_mult_small mult.commute)
  have um2: "(pos + 1) * ms = ms * (pos + 1)" "unat (pos * ms) = unat pos * unat ms"
    using assms(3) by (auto simp: mult.commute intro!: unat_mult_small)
  have guards: "(sint (allocated x) < 0) = False" "(sint pos = 2 ^ 63 - 1) = False" "(sint pos + 1 < 1) = False"
  proof -
    have "int (unat pos + 1) < int (2 ^ 63)" using pos by (simp only: of_nat_less_iff)
    then have "sint pos + 1 < 2 ^ 63" unfolding sp by (simp only: of_nat_add of_nat_1 of_nat_power of_nat_numeral)
    moreover have "0 \<le> sint pos" unfolding sp by simp
    ultimately show "(sint pos = 2 ^ 63 - 1) = False" "(sint pos + 1 < 1) = False" by auto
  qed (use ar_not_failed[of x] assms(1) in \<open>simp add: ar_is_def\<close>)
  let ?off = "map_option (\<lambda>_. unat pos * unat ms)"
  have run: "array_allocate al x ms pos =
      do { r \<leftarrow>
             (if ms * (pos + 1) > initialized x then
                do { r \<leftarrow>
                       (if ms * (pos + 1) \<ge> allocated x then
                          let wanted = (if ms < 8 then (ms * (pos + 1) + 127) AND (-128) else (ms * (pos + 1) + 4095) AND (-4096))
                          in if wanted < 128 then Some None
                             else case realloc al (ar_mem x) (unat wanted) of
                               None \<Rightarrow> Some None
                             | Some tmp \<Rightarrow>
                                 do { m \<leftarrow> byte_fill_loop tmp (unat (initialized x)) (unat (wanted - initialized x)) 0;
                                      Some (Some (x\<lparr>ar_p := Some m, allocated := wanted\<rparr>)) }
                        else Some (Some x));
                     Some (map_option (\<lambda>x. x\<lparr>initialized := ms * (pos + 1)\<rparr>) r) }
              else Some (Some x));
           case r of None \<Rightarrow> Some (None, x) | Some x \<Rightarrow> Some (?off (ar_p x), x) }"
    by (simp only: array_allocate_def guards um(1) um2 if_False option.case)
  have grown: "\<exists>r x'. f = Some (r, x') \<and>
      (case r of None \<Rightarrow> x' = x \<and> \<not> grants al | Some off \<Rightarrow> off = unat pos * unat ms \<and> ar_grown x w ?n x')"
    if "f = Some (?off (ar_p x'), x')" "ar_grown x w ?n x'" for f x'
    using that by (auto simp: ar_grown_def)
  consider "?n \<le> length w" | "length w < ?n" "?n < unat (allocated x)" | "length w < ?n" "unat (allocated x) \<le> ?n" by linarith
  then show ?thesis
  proof cases
    case 1
    then have "0 < length w" using assms(2) by (metis le_zero_eq length_greater_0_conv list.size(3) mult_eq_0_iff neq0_conv add_is_0 one_neq_zero)
    then show ?thesis using 1 ar_grown_same[OF assms(1) 1] unfolding run
      by (intro grown) (simp_all add: word_less_nat_alt len um(2))
  next
    case 2
    let ?x = "x\<lparr>initialized := ms * (pos + 1)\<rparr>"
    have "ar_grown x w ?n ?x" using ar_grown_inside[OF assms(1), of "ms * (pos + 1)"] 2 um(2) assms(2) by simp
    moreover have "array_allocate al x ms pos = Some (?off (ar_p ?x), ?x)" unfolding run
      using 2 by (simp add: word_less_nat_alt word_le_nat_alt len um(2))
    ultimately show ?thesis using grown by blast
  next
    case 3
    define n where "n = (if ms < 8 then (ms * (pos + 1) + 127) AND (-128) else (ms * (pos + 1) + 4095) AND (-4096))"
    have pre: "unat (ms * (pos + 1)) + 4096 \<le> 2 ^ 63" "0 < unat (ms * (pos + 1))" using assms(2,3) um(2) by simp_all
    note n = round_wanted[OF pre, of ms, folded n_def, unfolded um(2)]
    show ?thesis
    proof (cases "realloc al (ar_mem x) (unat n)")
      case None
      then have "array_allocate al x ms pos = Some (None, x)" unfolding run n_def[symmetric]
        using 3 n by (simp add: word_less_nat_alt word_le_nat_alt len um(2))
      then show ?thesis using grants_malloc(2)[of al "ar_mem x" "unat n"] None by auto
    next
      case (Some tmp)
      let ?x = "x\<lparr>ar_p := Some (w @ replicate (unat n - length w) 0), allocated := n, initialized := ms * (pos + 1)\<rparr>"
      have g: "ar_grown x w ?n ?x" using ar_grown_block[of w "ms * (pos + 1)" n x] 3 n um(2) by simp
      have "array_allocate al x ms pos = Some (?off (ar_p ?x), ?x)" unfolding run n_def[symmetric]
        using 3 n Some grow_block[OF assms(1) _ Some] by (simp add: word_less_nat_alt word_le_nat_alt len um(2) Let_def)
      then show ?thesis using grown[OF _ g] by blast
    qed
  qed
qed

subsection \<open>Storing, appending and getting\<close>

lemma take_drop_inside: "i + n \<le> k \<Longrightarrow> take n (drop i (take k m)) = take n (drop i m)"
  by (simp add: drop_take min_def)

lemma take_splice_inside:
  assumes "p + length v \<le> k" "k \<le> length m"
  shows "take k (splice m p v) = splice (take k m) p v"
proof (cases "k \<le> p")
  case True
  then have "length v = 0" "p = k" using assms(1) by linarith+
  then show ?thesis by simp
qed (use assms in \<open>auto simp: splice_def min_def drop_take\<close>)

lemma ar_store:
  assumes "ar_is x w" "ar_p x \<noteq> None" "p + length v \<le> length w"
  shows "ar_is (x\<lparr>ar_p := Some (splice (ar_mem x) p v)\<rparr>) (splice w p v)"
proof -
  have ok: "ar_ok x" and len: "unat (initialized x) = length w" "length (ar_mem x) = unat (allocated x)"
      "length w \<le> length (ar_mem x)"
    using assms(1) ar_is_len[OF assms(1)] ar_mem_length[of x] by (auto simp: ar_is_def ar_ok_def word_le_nat_alt)
  have "take (length w) (splice (ar_mem x) p v) = splice w p v"
    using take_splice_inside[OF assms(3) len(3)] ar_is_mem[OF assms(1)] by simp
  then show ?thesis using ok len assms(2,3)
    by (auto simp: ar_is_def ar_text_def ar_ok_def ar_mem_def split: option.splits)
qed

lemma ar_grown_is: "ar_grown x w n x' \<Longrightarrow> ar_is x' (ar_text x')"
  by (simp add: ar_grown_def ar_is_def)

lemma array_catb_spec:
  assumes "ar_is x w" "unat n \<le> length buf" "length w + unat n + 4096 \<le> 2 ^ 63"
  shows "\<exists>x'. array_catb al x buf n = Some x' \<and> (x' = array_fail x \<and> \<not> grants al \<or> ar_is x' (w @ take (unat n) buf))"
proof (cases "n = 0")
  case True
  then show ?thesis using assms(1) by (simp add: array_catb_def)
next
  case False
  then have n: "0 < unat n" by (simp add: unat_gt_0)
  have len: "unat (initialized x) = length w" by (rule ar_is_len) fact
  have s: "unat (initialized x + n) = length w + unat n" using len assms(3) by (subst unat_add_small) simp_all
  then have pos: "unat (initialized x + n - 1) + 1 = length w + unat n" using n by (subst unat_sub_small) simp_all
  have guards: "\<not> sint (allocated x) < 0" "\<not> initialized x + n < initialized x"
    using ar_not_failed assms(1) s len by (auto simp: ar_is_def word_less_nat_alt)
  obtain r x' where a: "array_allocate al x 1 (initialized x + n - 1) = Some (r, x')"
      "case r of None \<Rightarrow> x' = x \<and> \<not> grants al | Some off \<Rightarrow> ar_grown x w (length w + unat n) x'"
    using array_allocate_spec[OF assms(1), of 1 "initialized x + n - 1" al] pos assms(3) by (auto split: option.splits)
  show ?thesis
  proof (cases r)
    case None
    then show ?thesis using a guards False by (simp add: array_catb_def)
  next
    case (Some off)
    then have g: "ar_grown x w (length w + unat n) x'" using a(2) by simp
    then have t: "length (ar_text x') = length w + unat n" "take (length w) (ar_text x') = w" "ar_p x' \<noteq> None"
      by (auto simp: ar_grown_def max_absorb2)
    have i: "unat (initialized x') = length w + unat n" "length w + unat n \<le> length (ar_mem x')"
      using ar_is_len[OF ar_grown_is[OF g]] t(1) by (auto simp: ar_text_def)
    have k: "unat (initialized x' - initialized x) = unat n" using i len by (subst unat_sub_small) simp_all
    have "byte_copy (ar_mem x') (length w) (unat n) buf 0 = Some (splice (ar_mem x') (length w) (take (unat n) buf))"
      using byte_copy_eq[of "length w" "unat n" "ar_mem x'" 0 buf] i(2) assms(2) by simp
    moreover have "splice (ar_text x') (length w) (take (unat n) buf) = w @ take (unat n) buf"
      using t(1,2) assms(2) by (simp add: splice_def)
    moreover have "ar_is (x'\<lparr>ar_p := Some (splice (ar_mem x') (length w) (take (unat n) buf))\<rparr>)
        (splice (ar_text x') (length w) (take (unat n) buf))"
      using t assms(2) by (intro ar_store ar_grown_is[OF g]) auto
    ultimately show ?thesis using a(1) Some guards False k len by (simp add: array_catb_def Let_def)
  qed
qed

text \<open>An array is a sink: once it has failed it takes nothing more and says so.\<close>

definition ar_holds :: "array \<Rightarrow> byte list \<Rightarrow> bool" where
  "ar_holds x w \<longleftrightarrow> ar_is x w \<or> sint (allocated x) < 0"

definition ar_put :: "allocator \<Rightarrow> array \<Rightarrow> byte list \<Rightarrow> nat \<Rightarrow> (bool \<times> array) option" where
  "ar_put al x buf n = map_option (\<lambda>x'. (\<not> sint (allocated x') < 0, x')) (array_catb al x buf (of_nat n))"

interpretation ar_sink: byte_sink ar_holds "ar_put al" "2 ^ 63 - 4095" "\<lambda>x. grants al \<and> \<not> sint (allocated x) < 0"
proof
  fix x w n and buf :: "byte list"
  assume a: "ar_holds x w" "n \<le> length buf" "length w + n < 2 ^ 63 - 4095"
  show "\<exists>ok x' w'. ar_put al x buf n = Some (ok, x') \<and> ar_holds x' w' \<and> (ok \<longrightarrow> w' = w @ take n buf) \<and>
      (grants al \<and> \<not> sint (allocated x) < 0 \<longrightarrow> ok \<and> grants al \<and> \<not> sint (allocated x') < 0)"
  proof (cases "sint (allocated x) < 0")
    case True
    then show ?thesis by (auto simp: ar_put_def array_catb_def ar_holds_def)
  next
    case False
    then have x: "ar_is x w" using a(1) by (simp add: ar_holds_def)
    have n: "unat (of_nat n :: uint64) = n" using a(3) by (intro unat_of_nat_sa) (simp add: sa_max_def)
    obtain x' where c: "array_catb al x buf (of_nat n) = Some x'"
        "x' = array_fail x \<and> \<not> grants al \<or> ar_is x' (w @ take n buf)"
      using array_catb_spec[OF x, of "of_nat n" buf al] n a(2,3) by auto
    have "sint (allocated (array_fail x)) < 0" by (simp add: array_fail_def)
    moreover have "\<not> sint (allocated x') < 0" if "ar_is x' (w @ take n buf)" using that ar_not_failed by (simp add: ar_is_def)
    ultimately show ?thesis using c by (auto simp: ar_put_def ar_holds_def)
  qed
qed

lemma array_get_spec:
  assumes "ar_is x w" "0 < unat ms" "unat ms dvd length w" "unat pos < 2 ^ 63 - 1"
  shows "array_get x ms pos = Some (if (unat pos + 1) * unat ms \<le> length w then Some (unat pos * unat ms) else None)"
proof -
  have len: "unat (initialized x) = length w" by (rule ar_is_len) fact
  have ok: "unat (allocated x) < 2 ^ 63" "length w \<le> unat (allocated x)" "0 < length w \<longrightarrow> ar_p x \<noteq> None"
    using assms(1) len by (auto simp: ar_is_def ar_ok_def word_le_nat_alt split: option.splits)
  have sp: "sint pos = int (unat pos)" using assms(4) by (intro sint_small) simp
  have "int (unat pos) < int (2 ^ 63 - 1)" using assms(4) by (simp only: of_nat_less_iff)
  then have guards: "sint pos \<noteq> 2 ^ 63 - 1" "\<not> sint pos + 1 < 1" unfolding sp by (simp_all del: uint_nat)
  obtain k where k: "length w = k * unat ms" using assms(3) by (metis dvdE mult.commute)
  have fit: "(unat pos + 1) * unat ms \<le> length w \<longleftrightarrow> unat pos * unat ms < length w"
    unfolding k using assms(2) by (metis mult_le_cancel2 mult_less_cancel2 Suc_eq_plus1 Suc_le_eq)
  show ?thesis
  proof (cases "unat ms * unat pos < 2 ^ 64")
    case False
    then have "\<not> unat pos * unat ms < length w" using ok by (simp add: mult.commute)
    then show ?thesis using False guards fit by (simp add: array_get_def umult64_eq)
  next
    case True
    then have u: "unat (ms * pos) = unat pos * unat ms" "unat (pos * ms) = unat pos * unat ms"
      by (auto simp: unat_mult_small mult.commute)
    have "(sint (ms * pos) \<ge> sint (allocated x) \<or> ms * pos \<ge> initialized x) \<longleftrightarrow> \<not> unat pos * unat ms < length w"
    proof (cases "unat pos * unat ms < length w")
      case lt: True
      then have "unat (ms * pos) < 2 ^ 63" "unat (ms * pos) < unat (allocated x)" using ok u by linarith+
      then have "sint (ms * pos) < sint (allocated x)" using sint_small ok(1) by (metis of_nat_less_iff)
      then show ?thesis using lt u len by (simp add: word_le_nat_alt)
    next
      case False
      then show ?thesis using u len by (simp add: word_le_nat_alt)
    qed
    then show ?thesis using True guards fit u ok(3) by (auto simp: array_get_def umult64_eq)
  qed
qed

subsection \<open>Truncation and replacement of members\<close>

lemma array_truncate_spec:
  assumes "ar_is x w" "unat len * unat ms \<le> length w" "unat len < 2 ^ 63"
  shows "ar_is (array_truncate x ms len) (take (unat len * unat ms) w)"
proof -
  have len: "unat (initialized x) = length w" by (rule ar_is_len) fact
  have small: "length w < 2 ^ 63" using assms(1) len by (auto simp: ar_is_def ar_ok_def word_le_nat_alt)
  have u: "umult64 ms len = Some (ms * len)" "unat (ms * len) = unat len * unat ms"
    using assms(2) small by (auto simp: umult64_eq unat_mult_small mult.commute)
  have sl: "\<not> sint len < 0" using assms(3) sint_neg_iff[of len] by simp
  have "array_truncate x ms len = x\<lparr>initialized := ms * len\<rparr>"
    using u assms(2) len sl by (auto simp: array_truncate_def word_less_nat_alt)
  moreover have "take (unat len * unat ms) (ar_mem x) = take (unat len * unat ms) w"
    using ar_is_mem[OF assms(1)] assms(2) by (metis min.absorb1 take_take)
  moreover have "ms * len \<le> allocated x" using assms(1,2) u(2) len by (auto simp: ar_is_def ar_ok_def word_le_nat_alt)
  ultimately show ?thesis using assms(1) u(2) by (cases "ar_p x") (auto simp: ar_is_def ar_ok_def ar_text_def ar_mem_def)
qed

lemma array_move:
  assumes "ar_is a w" "ar_p a \<noteq> None" "s + n \<le> length w" "t + n \<le> length w" "if up then s \<le> t else t \<le> s"
  shows "\<exists>m. (if up then byte_copyr_within (ar_mem a) t n s else byte_copy_within (ar_mem a) t n s) = Some m \<and>
     ar_is (a\<lparr>ar_p := Some m\<rparr>) (splice w t (take n (drop s w)))"
proof -
  have le: "length w \<le> length (ar_mem a)" using ar_is_mem[OF assms(1)] by (metis length_take min.cobounded1)
  have d: "take n (drop s (ar_mem a)) = take n (drop s w)"
    using take_drop_inside[OF assms(3), of "ar_mem a"] ar_is_mem[OF assms(1)] by simp
  have "(if up then byte_copyr_within (ar_mem a) t n s else byte_copy_within (ar_mem a) t n s) =
      Some (splice (ar_mem a) t (take n (drop s w)))"
    using byte_copyr_within_eq[of t n "ar_mem a" s] byte_copy_within_eq[of t n "ar_mem a" s] assms(3-5) le d by auto
  moreover have "ar_is (a\<lparr>ar_p := Some (splice (ar_mem a) t (take n (drop s w)))\<rparr>) (splice w t (take n (drop s w)))"
    using assms by (intro ar_store) auto
  ultimately show ?thesis by blast
qed

text \<open>The last step of \<open>array_splice\<close>: the new members are stored and the array is cut.\<close>

definition splice_end :: "array \<Rightarrow> uint64 \<Rightarrow> uint64 \<Rightarrow> uint64 \<Rightarrow> nat \<Rightarrow> byte list \<Rightarrow> uint64 \<Rightarrow> (int64 \<times> array) option" where
  "splice_end a ms start ins i x newlen =
     do { a \<leftarrow> (if ins \<noteq> 0 then
                   do { s \<leftarrow> array_get a ms start; s \<leftarrow> s; m \<leftarrow> byte_copy (ar_mem a) s i x 0; Some (a\<lparr>ar_p := Some m\<rparr>) }
                 else Some a);
          Some (newlen, array_truncate a ms newlen) }"

lemma splice_end_spec:
  assumes "ar_is a w" "ar_p a \<noteq> None" "0 < unat ms" "unat ms dvd length w" "unat newlen < 2 ^ 63"
    "unat newlen * unat ms \<le> length w" "i = unat ins * unat ms" "(unat start + unat ins) * unat ms \<le> length w" "i \<le> length x"
  shows "\<exists>a'. splice_end a ms start ins i x newlen = Some (newlen, a') \<and>
     ar_is a' (take (unat newlen * unat ms) (splice w (unat start * unat ms) (take i x)))"
proof (cases "ins = 0")
  case True
  then show ?thesis using array_truncate_spec[OF assms(1,6,5)] assms(7) by (simp add: splice_end_def)
next
  case False
  then have ins: "1 \<le> unat ins" by (simp add: Suc_le_eq unat_gt_0)
  have "(unat start + 1) * unat ms \<le> (unat start + unat ins) * unat ms" using ins by (intro mult_le_mono1) simp
  then have fit: "(unat start + 1) * unat ms \<le> length w" using assms(8) by linarith
  have le: "length w \<le> length (ar_mem a)" "length w < 2 ^ 63"
    using ar_is_mem[OF assms(1)] assms(1) ar_is_len[OF assms(1)]
    by (metis length_take min.cobounded1) (use assms(1) ar_is_len[OF assms(1)] in \<open>auto simp: ar_is_def ar_ok_def word_le_nat_alt\<close>)
  have "unat start + 1 \<le> (unat start + 1) * unat ms" using assms(3) by (cases "unat ms") simp_all
  then have "unat start < 2 ^ 63 - 1" using fit le(2) by linarith
  then have g: "array_get a ms start = Some (Some (unat start * unat ms))"
    using array_get_spec[OF assms(1,3,4)] fit by simp
  have room: "unat start * unat ms + i \<le> length w" using assms(7,8) by (simp add: add_mult_distrib)
  have c: "byte_copy (ar_mem a) (unat start * unat ms) i x 0 = Some (splice (ar_mem a) (unat start * unat ms) (take i x))"
    using byte_copy_eq[of "unat start * unat ms" i "ar_mem a" 0 x] room le(1) assms(9) by simp
  have "ar_is (a\<lparr>ar_p := Some (splice (ar_mem a) (unat start * unat ms) (take i x))\<rparr>) (splice w (unat start * unat ms) (take i x))"
    using assms room by (intro ar_store) auto
  then show ?thesis using array_truncate_spec[of _ _ newlen ms] assms(5,6,9) room False g c by (simp add: splice_end_def)
qed

text \<open>Its middle step: the tail moves to where the new length puts it.\<close>

definition splice_shift :: "allocator \<Rightarrow> array \<Rightarrow> uint64 \<Rightarrow> uint64 \<Rightarrow> uint64 \<Rightarrow> bool \<Rightarrow> array option" where
  "splice_shift al a ms pos newlen up =
     do { s \<leftarrow> array_get a ms pos;
          s \<leftarrow> s;
          let bytes = unat (initialized a) - s;
          (newend, a) \<leftarrow> array_allocate al a ms newlen;
          newend \<leftarrow> newend;
          if bytes = 0 then Some a
          else if newend < bytes then None
          else do { s \<leftarrow> array_get a ms pos;
                    s \<leftarrow> s;
                    m \<leftarrow> (if up then byte_copyr_within (ar_mem a) (newend - bytes) bytes s
                           else byte_copy_within (ar_mem a) (newend - bytes) bytes s);
                    Some (a\<lparr>ar_p := Some m\<rparr>) } }"

lemma array_splice_unfold:
  assumes "array_length a ms = Some len" "\<not> start + del > len" "ins = 0 \<and> i = 0 \<or> umult64 ms ins = Some i"
  shows "array_splice al a ms start del ins x =
     do { a \<leftarrow>
            (if ins \<noteq> del then
               splice_shift al a ms (start + del) (len - del + ins) (ins > del)
             else Some a);
          splice_end a ms start ins (unat i) x (len - del + ins) }"
  using assms by (auto simp: array_splice_def splice_end_def splice_shift_def Let_def intro!: arg_cong2[where f = Option.bind])

lemma array_splice_shift:
  assumes "ar_is a w" "length w = n * unat ms" "0 < unat ms" "unat pos < n" "unat pos \<le> unat to + n" "grants al"
    "(unat newlen + 1) * unat ms + 4096 \<le> 2 ^ 63" "unat newlen + unat pos = unat to + n" "up = (unat pos \<le> unat to)"
  shows "\<exists>a' w'. splice_shift al a ms pos newlen up = Some a' \<and>
     ar_is a' w' \<and> ar_p a' \<noteq> None \<and> unat ms dvd length w' \<and> unat newlen * unat ms \<le> length w' \<and>
     take (min (unat pos) (unat to) * unat ms) w' = take (min (unat pos) (unat to) * unat ms) w \<and>
     take (unat newlen * unat ms - unat to * unat ms) (drop (unat to * unat ms) w') = drop (unat pos * unat ms) w"
proof -
  let ?M = "unat ms"
  have small: "n * ?M < 2 ^ 63" using assms(1,2) ar_is_len[OF assms(1)] by (auto simp: ar_is_def ar_ok_def word_le_nat_alt)
  have "n \<le> n * ?M" using assms(3) by (cases ?M) simp_all
  then have p63: "unat pos < 2 ^ 63 - 1" using assms(4) small by linarith
  have g1: "array_get a ms pos = Some (Some (unat pos * ?M))"
    using array_get_spec[OF assms(1,3) _ p63] assms(2,4) by (simp add: Suc_leI mult_le_mono1 flip: mult_Suc)
  let ?bytes = "n * ?M - unat pos * ?M"
  have bytes: "unat (initialized a) - unat pos * ?M = ?bytes" "0 < ?bytes"
    using ar_is_len[OF assms(1)] assms(2,3,4) by (simp_all add: mult_less_mono1)
  obtain r a1 where al: "array_allocate al a ms newlen = Some (Some (unat newlen * ?M), a1)" "ar_grown a w ((unat newlen + 1) * ?M) a1"
    using array_allocate_spec[OF assms(1,3,7), of al] assms(6) by (auto split: option.splits)
  let ?u = "ar_text a1"
  have u: "ar_is a1 ?u" "ar_p a1 \<noteq> None" "length ?u = max (n * ?M) ((unat newlen + 1) * ?M)" "take (n * ?M) ?u = w"
    using ar_grown_is[OF al(2)] al(2) assms(2) by (auto simp: ar_grown_def)
  have dvd: "?M dvd length ?u" unfolding u(3) by (simp add: max_def)
  have g2: "array_get a1 ms pos = Some (Some (unat pos * ?M))"
  proof -
    have "(unat pos + 1) * ?M \<le> n * ?M" using assms(4) by (intro mult_le_mono1) simp
    then show ?thesis using array_get_spec[OF u(1) assms(3) dvd p63] u(3) by simp
  qed
  have to: "unat newlen * ?M - ?bytes = unat to * ?M" "\<not> unat newlen * ?M < ?bytes" "unat to * ?M + ?bytes = unat newlen * ?M"
  proof -
    have "unat newlen * ?M + unat pos * ?M = unat to * ?M + n * ?M" using assms(8) by (metis add_mult_distrib)
    then show "unat newlen * ?M - ?bytes = unat to * ?M" "\<not> unat newlen * ?M < ?bytes" "unat to * ?M + ?bytes = unat newlen * ?M"
      using bytes(2) by linarith+
  qed
  have inside: "unat pos * ?M + ?bytes \<le> length ?u" "unat to * ?M + ?bytes \<le> length ?u"
  proof -
    have "n * ?M \<le> length ?u" "unat newlen * ?M \<le> length ?u" unfolding u(3) by (simp_all add: le_max_iff_disj)
    then show "unat pos * ?M + ?bytes \<le> length ?u" "unat to * ?M + ?bytes \<le> length ?u" using to(3) bytes(2) by linarith+
  qed
  obtain m where m: "(if up then byte_copyr_within (ar_mem a1) (unat to * ?M) ?bytes (unat pos * ?M)
        else byte_copy_within (ar_mem a1) (unat to * ?M) ?bytes (unat pos * ?M)) = Some m"
      "ar_is (a1\<lparr>ar_p := Some m\<rparr>) (splice ?u (unat to * ?M) (take ?bytes (drop (unat pos * ?M) ?u)))"
    using array_move[OF u(1,2) inside, of up] assms(9) by (auto simp: mult_le_mono1)
  have tail: "take ?bytes (drop (unat pos * ?M) ?u) = drop (unat pos * ?M) w"
    using u(4) by (metis drop_take)
  let ?w = "splice ?u (unat to * ?M) (drop (unat pos * ?M) w)"
  have len: "length (drop (unat pos * ?M) w) = ?bytes" using assms(2) by simp
  have "length ?w = length ?u" using inside(2) len by simp
  moreover have "take (min (unat pos) (unat to) * ?M) ?w = take (min (unat pos) (unat to) * ?M) w"
  proof -
    have "min (unat pos) (unat to) * ?M \<le> unat to * ?M" "min (unat pos) (unat to) * ?M \<le> n * ?M"
      using assms(4) by (auto intro!: mult_le_mono1)
    then have "take (min (unat pos) (unat to) * ?M) ?w = take (min (unat pos) (unat to) * ?M) (take (n * ?M) ?u)"
      using inside(2) by (simp add: splice_def min_absorb1)
    then show ?thesis by (simp only: u(4))
  qed
  moreover have "take (unat newlen * ?M - unat to * ?M) (drop (unat to * ?M) ?w) = drop (unat pos * ?M) w"
    using inside(2) len to(3) by (simp add: splice_def)
  moreover have "unat newlen * ?M \<le> length ?u" using inside(2) to(3) by linarith
  moreover have nz: "(?bytes = 0) = False" using bytes(2) by simp
  ultimately show ?thesis using m(2) dvd unfolding tail splice_shift_def
    by (simp only: g1 g2 al(1) bytes(1) m(1) nz to(1,2) Option.bind.bind_lunit Let_def prod.case if_False)
      (intro exI[of _ "a1\<lparr>ar_p := Some m\<rparr>"] exI[of _ ?w], simp)
qed

lemma take_shorter:
  assumes "take k a = take k b" "j \<le> k"
  shows "take j a = take j b"
proof -
  have "take j (take k a) = take j (take k b)" using assms(1) by simp
  then show ?thesis using assms(2) by (simp add: min_absorb1)
qed

lemma take_splice_tail:
  assumes "take p w' = take p w" "p + length v \<le> n" "n \<le> length w'" "take (n - (p + length v)) (drop (p + length v) w') = t"
  shows "take n (splice w' p v) = take p w @ v @ t"
proof -
  have "length (take p w') = p" using assms(2,3) by simp
  then show ?thesis using assms by (simp add: splice_def)
qed

lemma array_splice_spec:
  assumes "ar_is a w" "length w = n * unat ms" "0 < unat ms" "unat start + unat del < n" "unat ins * unat ms \<le> length x"
    "grants al" "(n + unat ins + 1) * unat ms + 4096 \<le> 2 ^ 63"
  shows "\<exists>a'. array_splice al a ms start del ins x = Some (of_nat (n - unat del + unat ins), a') \<and>
     ar_is a' (take (unat start * unat ms) w @ take (unat ins * unat ms) x @ drop ((unat start + unat del) * unat ms) w)"
proof -
  let ?M = "unat ms" and ?len = "initialized a div ms"
  have "n + unat ins + 1 \<le> (n + unat ins + 1) * ?M" using assms(3) by (cases ?M) simp_all
  then have small: "n + unat ins + 1 < 2 ^ 63" using assms(7) by linarith
  have len: "unat ?len = n" using ar_is_len[OF assms(1)] assms(2,3) by (simp add: unat_div)
  have ms: "ms \<noteq> 0" using assms(3) by auto
  have al: "array_length a ms = Some ?len" using ar_not_failed[of a] assms(1) ms by (simp add: array_length_def ar_is_def)
  have sd: "unat (start + del) = unat start + unat del" "unat (start + ins) = unat start + unat ins"
    using assms(4) small by (subst unat_add_small; simp)+
  have dn: "unat (?len - del) = n - unat del" using assms(4) len by (subst unat_sub_small) simp_all
  have nl: "unat (?len - del + ins) = n - unat del + unat ins" using dn small by (subst unat_add_small) simp_all
  have guard: "\<not> start + del > ?len" using sd(1) len assms(4) by (simp add: word_less_nat_alt)
  have insb: "unat ins * ?M \<le> (n + unat ins + 1) * ?M" by (intro mult_le_mono1) simp
  have i: "ins = 0 \<and> ms * ins = 0 \<or> umult64 ms ins = Some (ms * ins)" "unat (ms * ins) = unat ins * ?M"
    using insb assms(7) by (auto simp: umult64_eq unat_mult_small mult.commute)
  have xb: "unat (ms * ins) \<le> length x" using i(2) assms(5) by simp
  have nlb: "unat (?len - del + ins) < 2 ^ 63" using nl small by linarith
  note run = array_splice_unfold[OF al guard i(1), of al x]
  let ?res = "take (unat start * ?M) w @ take (unat ins * ?M) x @ drop ((unat start + unat del) * ?M) w"
  have fin: "\<exists>a''. splice_end a' ms start ins (unat (ms * ins)) x (?len - del + ins) = Some (?len - del + ins, a'') \<and> ar_is a'' ?res"
    if w': "ar_is a' w'" "ar_p a' \<noteq> None" "?M dvd length w'" "unat (?len - del + ins) * ?M \<le> length w'"
      "take (unat start * ?M) w' = take (unat start * ?M) w"
      "take (unat (?len - del + ins) * ?M - (unat start + unat ins) * ?M) (drop ((unat start + unat ins) * ?M) w') =
         drop ((unat start + unat del) * ?M) w" for a' w'
  proof -
    have "unat start + unat ins \<le> unat (?len - del + ins)" using nl assms(4) by simp
    then have le: "(unat start + unat ins) * ?M \<le> unat (?len - del + ins) * ?M" by (rule mult_le_mono1)
    obtain a'' where e: "splice_end a' ms start ins (unat (ms * ins)) x (?len - del + ins) = Some (?len - del + ins, a'')"
        "ar_is a'' (take (unat (?len - del + ins) * ?M) (splice w' (unat start * ?M) (take (unat (ms * ins)) x)))"
      using splice_end_spec[OF w'(1,2) assms(3) w'(3) nlb w'(4) i(2) order_trans[OF le w'(4)] xb] by blast
    have "take (unat (?len - del + ins) * ?M) (splice w' (unat start * ?M) (take (unat (ms * ins)) x)) = ?res"
      unfolding i(2) using le assms(5) w'(4-) by (intro take_splice_tail) (simp_all add: add_mult_distrib)
    then show ?thesis using e by simp
  qed
  have nw: "of_nat (n - unat del + unat ins) = ?len - del + ins" unfolding nl[symmetric] by simp
  show ?thesis
  proof (cases "ins = del")
    case True
    have "ar_p a \<noteq> None" using ar_is_len[OF assms(1)] assms(1,2,3,4) by (auto simp: ar_is_def ar_text_def ar_mem_def split: option.splits)
    moreover have "unat (?len - del + ins) = n" using nl True assms(4) by simp
    ultimately show ?thesis unfolding run nw using fin[OF assms(1)] True assms(2) by auto
  next
    case False
    then have up: "(ins > del) = (unat (start + del) \<le> unat (start + ins))"
      using sd by (auto simp: word_less_nat_alt word_unat_eq_iff)
    have bound: "(unat (?len - del + ins) + 1) * ?M + 4096 \<le> 2 ^ 63"
    proof -
      have "unat (?len - del + ins) + 1 \<le> n + unat ins + 1" using nl by simp
      from mult_le_mono1[OF this, of ?M] show ?thesis using assms(7) by linarith
    qed
    have pre: "unat (start + del) < n" "unat (start + del) \<le> unat (start + ins) + n"
        "unat (?len - del + ins) + unat (start + del) = unat (start + ins) + n"
      using sd nl assms(4) by simp_all
    have mn: "unat start * ?M \<le> min (unat (start + del)) (unat (start + ins)) * ?M" using sd by (intro mult_le_mono1) simp
    obtain a' w' where s: "splice_shift al a ms (start + del) (?len - del + ins) (ins > del) = Some a'"
        "ar_is a' w'" "ar_p a' \<noteq> None" "?M dvd length w'" "unat (?len - del + ins) * ?M \<le> length w'"
        "take (min (unat (start + del)) (unat (start + ins)) * ?M) w' = take (min (unat (start + del)) (unat (start + ins)) * ?M) w"
        "take (unat (?len - del + ins) * ?M - unat (start + ins) * ?M) (drop (unat (start + ins) * ?M) w') = drop (unat (start + del) * ?M) w"
      using array_splice_shift[OF assms(1,2,3) pre(1,2) assms(6) bound pre(3) up] by blast
    have "take (unat start * ?M) w' = take (unat start * ?M) w" by (rule take_shorter[OF s(6) mn])
    then show ?thesis unfolding run nw using fin[OF s(2-5)] s(1,7) sd False by simp
  qed
qed

subsection \<open>Properties\<close>

text \<open>
  \<open>array_allocate\<close> keeps its promise to arrays whose unused bytes are zero: it returns object number
  \<open>pos\<close>, inside the bytes in use, after extending these with zeros up to the end of that object and
  no further; or it returns 0 without touching the array, which happens only when memory runs out.  The
  unused bytes are still zero afterwards.
\<close>
theorem array_allocate_zeroes:
  assumes "ar_is x w" "ar_clean x" "0 < unat ms" "(unat pos + 1) * unat ms + 4096 \<le> 2 ^ 63"
  shows "\<exists>r x'. array_allocate al x ms pos = Some (r, x') \<and>
     (case r of None \<Rightarrow> x' = x \<and> \<not> grants al
      | Some off \<Rightarrow> off = unat pos * unat ms \<and> ar_is x' (w @ replicate ((unat pos + 1) * unat ms - length w) 0) \<and> ar_clean x')"
  using array_allocate_spec[OF assms(1,3,4), of al] assms(2) by (fastforce simp: ar_grown_def ar_is_def split: option.splits)

theorem array_allocate_zeroes_witness:
  "\<exists>x'. array_allocate (\<lambda>n. Some (replicate n 7)) array_init 4 2 = Some (Some 8, x') \<and> ar_is x' (replicate 12 0) \<and> ar_clean x'"
proof -
  have "ar_is array_init []" "ar_clean array_init"
    by (simp_all add: ar_is_def ar_ok_def array_init_def ar_text_def ar_mem_def ar_clean_def)
  moreover have "grants (\<lambda>n. Some (replicate n 7))" by (simp add: grants_def)
  ultimately show ?thesis
    using array_allocate_zeroes[of array_init "[]" 4 2 "\<lambda>n. Some (replicate n 7)"] by (auto split: option.splits)
qed

text \<open>
  C15. \<open>array_splice\<close> replaces: when members remain behind the deleted ones and memory is granted, the
  array afterwards holds the members in front, the new ones and the members behind, in this order and
  nothing else, whether it grows or shrinks, and the result is the new number of members.
\<close>
theorem array_splice_replaces:
  assumes "ar_is a w" "length w = n * unat ms" "0 < unat ms" "unat start + unat del < n" "unat ins * unat ms \<le> length x"
    "grants al" "(n + unat ins + 1) * unat ms + 4096 \<le> 2 ^ 63"
  shows "\<exists>a'. array_splice al a ms start del ins x = Some (of_nat (n - unat del + unat ins), a') \<and>
     ar_is a' (take (unat start * unat ms) w @ take (unat ins * unat ms) x @ drop ((unat start + unat del) * unat ms) w)"
  using assms by (rule array_splice_spec)

theorem array_splice_replaces_witness:
  "\<exists>a'. array_splice (\<lambda>n. Some (replicate n 0)) \<lparr>ar_p = Some [1, 2, 3, 4, 5, 6, 0, 0], allocated = 8, initialized = 6\<rparr> 2 1 1 2 [7, 8, 9, 10] =
     Some (4, a') \<and> ar_is a' [1, 2, 7, 8, 9, 10, 5, 6]"
  using array_splice_replaces[of "\<lparr>ar_p = Some [1, 2, 3, 4, 5, 6, 0, 0], allocated = 8, initialized = 6\<rparr>" "[1, 2, 3, 4, 5, 6]" 3 2 1 1 2
      "[7, 8, 9, 10]" "\<lambda>n. Some (replicate n 0)"]
  by (simp add: ar_is_def ar_ok_def ar_text_def ar_mem_def grants_def)

text \<open>
  Where nothing remains behind the deleted members, as when members are appended, \<open>array_splice\<close>
  computes with the pointer 0 that \<open>array_get\<close> returns for the end of the array.
\<close>
lemma array_splice_at_end:
  assumes "ar_is a w" "length w = n * unat ms" "0 < unat ms" "unat start + unat del = n" "ins \<noteq> del" "n < 2 ^ 63 - 1"
    "ins = 0 \<and> i = 0 \<or> umult64 ms ins = Some i"
  shows "array_splice al a ms start del ins x = None"
proof -
  let ?len = "initialized a div ms"
  have len: "unat ?len = n" using ar_is_len[OF assms(1)] assms(2,3) by (simp add: unat_div)
  have sd: "unat (start + del) = n" using assms(4,6) by (subst unat_add_small) simp_all
  have ms: "ms \<noteq> 0" using assms(3) by auto
  have al: "array_length a ms = Some ?len" using ar_not_failed[of a] assms(1) ms by (simp add: array_length_def ar_is_def)
  have guard: "\<not> start + del > ?len" using sd len by (simp add: word_less_nat_alt)
  have "array_get a ms (start + del) = Some None"
    using array_get_spec[OF assms(1,3), of "start + del"] assms(2,3,6) sd by simp
  then show ?thesis unfolding array_splice_unfold[OF al guard assms(7)] using assms(5) by (simp add: splice_shift_def)
qed

text \<open>
  The zeros are not promised after \<open>array_trunc\<close>: the bytes that were in use come back with the next
  allocation that fits.
\<close>
lemma array_trunc_leaves_bytes:
  "\<exists>x'. array_allocate al (array_trunc \<lparr>ar_p = Some [5, 6, 7, 8], allocated = 4, initialized = 3\<rparr>) 1 1 = Some (Some 1, x') \<and> ar_text x' = [5, 6]"
  by (simp add: array_allocate_def array_trunc_def umult64_eq ar_text_def ar_mem_def)

end
