(* ===== verification/Critbit.thy ===== *)
theory Critbit
  imports Stralloc "HOL-Library.Sublist"
begin

text \<open>
  The crit-bit tree of \<open>src/lib/cb\<close>: a set of byte strings in a binary tree whose inner nodes name
  the bit, as a byte number and a mask with that bit cleared, in which their two subtrees differ first.

  A tagged pointer of the C code is a constructor of the type \<open>critbit\<close>, whose leaves carry the key
  and a value; the set of \<open>src/lib/cb\<close> has no values (\<open>unit\<close>), the map of
  \<open>src/lib/cbmap\<close>, in its own theory, has.  A pointer to a child slot (\<open>iter\<close>) is the path of
  the branches that lead to it from the root.  Keys are at most \<open>keylen\<close> bytes of the caller's
  object, and reading them beyond that object is \<open>None\<close>; so is a failed \<open>assert\<close>.

  The invariant \<open>cb_wf\<close> says of every inner node that its mask names one bit \<open>n\<close>, that the keys
  of both subtrees agree on the bits before \<open>n\<close>, and that they differ in \<open>n\<close>.  From it follow the
  order of the leaves, that the walk along a key ends at a leaf with the longest common prefix, and
  with that every operation's effect on the set of keys.
\<close>

subsection \<open>The tree\<close>

datatype 'v critbit =
    External "byte list" 'v
  | Internal nat byte "'v critbit" "'v critbit"

text \<open>The contents of the slot at a path, and storing through a pointer to it.\<close>

fun cb_slot :: "'v critbit \<Rightarrow> bool list \<Rightarrow> 'v critbit" where
  "cb_slot t [] = t"
| "cb_slot (Internal by mk l r) (b # p) = cb_slot (if b then r else l) p"
| "cb_slot (External k v) (b # p) = External k v"

fun cb_store :: "'v critbit \<Rightarrow> bool list \<Rightarrow> 'v critbit \<Rightarrow> 'v critbit" where
  "cb_store t [] n = n"
| "cb_store (Internal by mk l r) (b # p) n =
     (if b then Internal by mk l (cb_store r p n) else Internal by mk (cb_store l p n) r)"
| "cb_store (External k v) (b # p) n = External k v"

definition cb_branch :: "byte \<Rightarrow> byte \<Rightarrow> bool" where
  "cb_branch mk c \<longleftrightarrow> (1 + unat (c OR mk)) div 256 = 1"

definition cb_turn :: "byte list \<Rightarrow> nat \<Rightarrow> nat \<Rightarrow> byte \<Rightarrow> bool option" where
  "cb_turn key keylen by mk =
     (if keylen \<le> by then Some False else do { c \<leftarrow> rd key by; Some (cb_branch mk c) })"

definition cb_less :: "nat \<times> byte \<Rightarrow> nat \<times> byte \<Rightarrow> bool" where
  "cb_less a b \<longleftrightarrow> fst a < fst b \<or> fst a = fst b \<and> snd a < snd b"

text \<open>The mask of the highest bit in which two bytes differ, computed in an \<open>unsigned int\<close>.\<close>

definition cb_critmask :: "byte \<Rightarrow> byte \<Rightarrow> byte" where
  "cb_critmask a b =
     (let m = (ucast a XOR ucast b :: uint32);
          m = m OR drop_bit 1 m;
          m = m OR drop_bit 2 m;
          m = m OR drop_bit 4 m
      in ucast ((m AND NOT (drop_bit 1 m)) XOR 0xFF))"

subsection \<open>Bits of a key\<close>

definition kbit :: "byte list \<Rightarrow> nat \<Rightarrow> bool" where
  "kbit k i \<longleftrightarrow> i div 8 < length k \<and> bit (k ! (i div 8)) (7 - i mod 8)"

definition cb_mask :: "nat \<Rightarrow> byte" where
  "cb_mask n = NOT (push_bit (7 - n mod 8) 1)"

definition agree :: "nat \<Rightarrow> byte list \<Rightarrow> byte list \<Rightarrow> bool" where
  "agree n j k \<longleftrightarrow> (\<forall>i<n. kbit j i = kbit k i)"

lemma agree_refl [simp]: "agree n k k"
  by (simp add: agree_def)

lemma agree_sym: "agree n j k \<longleftrightarrow> agree n k j"
  by (auto simp: agree_def)

lemma agree_trans: "agree n i j \<Longrightarrow> agree n j k \<Longrightarrow> agree n i k"
  by (simp add: agree_def)

lemma agree_le: "agree n j k \<Longrightarrow> m \<le> n \<Longrightarrow> agree m j k"
  by (auto simp: agree_def)

lemma agreeD: "agree n j k \<Longrightarrow> i < n \<Longrightarrow> kbit j i = kbit k i"
  by (simp add: agree_def)

lemma bit_index:
  fixes b i :: nat
  assumes "b < 8"
  shows "(8 * i + (7 - b)) div 8 = i" "(8 * i + (7 - b)) mod 8 = 7 - b"
  using assms mod_mult_self4[of 8 i "7 - b"] by simp_all

lemma unat_byte_255: "unat (x :: byte) = 255 \<longleftrightarrow> x = - 1"
proof -
  have "unat (- 1 :: byte) = 255" by code_simp
  then show ?thesis by (metis unsigned_word_eqI)
qed

lemma byte_eq_bits: "(x :: byte) = y \<longleftrightarrow> (\<forall>n<8. bit x n = bit y n)"
  by (auto intro: bit_word_eqI)

lemma cb_branch_mask: "cb_branch (cb_mask n) c \<longleftrightarrow> bit c (7 - n mod 8)"
proof -
  let ?b = "7 - n mod 8"
  have "cb_branch (cb_mask n) c \<longleftrightarrow> unat (c OR cb_mask n) = 255"
    using unsigned_less[of "c OR cb_mask n", where 'a = nat] by (auto simp: cb_branch_def)
  also have "\<dots> \<longleftrightarrow> c OR cb_mask n = - 1"
    by (rule unat_byte_255)
  also have "\<dots> \<longleftrightarrow> bit c ?b"
    by (auto simp: cb_mask_def byte_eq_bits bit_simps dest: spec[of _ ?b])
  finally show ?thesis .
qed

lemma no_bit: "8 \<le> i \<Longrightarrow> \<not> bit (a :: byte) i"
  using bit_imp_le_length[of a i] by fastforce

lemma bit_critmask:
  fixes a c :: byte
  assumes "i < 8"
  shows "bit (cb_critmask a c) i \<longleftrightarrow>
    \<not> ((\<exists>j<8. bit (a XOR c) (i + j)) \<and> \<not> (\<exists>j<8. bit (a XOR c) (i + 1 + j)))"
proof -
  have 255: "bit (255 :: uint32) i"
    using assms bit_mask_iff[of 8 i, where 'a = "32 word"] by (simp add: mask_eq_exp_minus_1)
  have ex: "(\<exists>j<8. P j) \<longleftrightarrow> P 0 \<or> P 1 \<or> P 2 \<or> P 3 \<or> P 4 \<or> P 5 \<or> P 6 \<or> P (7::nat)" for P
    by (auto simp: eval_nat_numeral less_Suc_eq)
  show ?thesis
    using assms 255 unfolding cb_critmask_def Let_def ex
    by (simp add: bit_simps add.commute add.left_commute eval_nat_numeral)
qed

lemma critmask_highest:
  assumes b: "b < 8" "bit a b \<noteq> bit c b" and above: "\<And>j. b < j \<Longrightarrow> j < 8 \<Longrightarrow> bit a j = bit c j"
  shows "cb_critmask a c = NOT (push_bit b 1)"
proof (rule bit_word_eqI)
  fix i assume "i < LENGTH(8)"
  then have i: "i < 8" by simp
  have same: "bit a j = bit c j" if "b < j" for j
    using above[of j] no_bit[of j a] no_bit[of j c] that by (cases "j < 8") auto
  have "(\<exists>j<8. bit (a XOR c) (i + j)) \<and> \<not> (\<exists>j<8. bit (a XOR c) (i + 1 + j)) \<longleftrightarrow> i = b"
  proof
    assume *: "(\<exists>j<8. bit (a XOR c) (i + j)) \<and> \<not> (\<exists>j<8. bit (a XOR c) (i + 1 + j))"
    then obtain j where "bit (a XOR c) (i + j)" by blast
    then have "\<not> b < i" using same[of "i + j"] by (auto simp: bit_simps)
    moreover have "\<not> i < b"
      using * b by (auto simp: bit_simps dest!: spec[of _ "b - i - 1"])
    ultimately show "i = b" by simp
  next
    assume "i = b"
    then show "(\<exists>j<8. bit (a XOR c) (i + j)) \<and> \<not> (\<exists>j<8. bit (a XOR c) (i + 1 + j))"
      using b same by (auto simp: bit_simps intro!: exI[of _ 0])
  qed
  then show "bit (cb_critmask a c) i = bit (NOT (push_bit b 1) :: byte) i"
    using i b bit_critmask[OF i, of a c] by (auto simp: bit_simps)
qed

text \<open>Two bytes that differ do so in a highest bit.\<close>

lemma highest_difference:
  fixes a c :: byte
  assumes "a \<noteq> c"
  obtains b where "b < 8" "bit a b \<noteq> bit c b" "\<And>j. b < j \<Longrightarrow> j < 8 \<Longrightarrow> bit a j = bit c j"
proof -
  let ?D = "{b. b < 8 \<and> bit a b \<noteq> bit c b}"
  have "?D \<noteq> {}" using assms by (auto simp: byte_eq_bits)
  then have "Max ?D \<in> ?D" "\<And>j. j \<in> ?D \<Longrightarrow> j \<le> Max ?D"
    using Max_in[of ?D] Max_ge[of ?D] by fastforce+
  then show thesis using that[of "Max ?D"] by fastforce
qed

text \<open>Bytes that agree above a bit are ordered by it.\<close>

lemma byte_less_by_bit:
  fixes a c :: byte
  assumes "b < 8" "\<not> bit a b" "bit c b" "\<And>j. b < j \<Longrightarrow> j < 8 \<Longrightarrow> bit a j = bit c j"
  shows "a < c"
proof -
  have "drop_bit (Suc b) a = drop_bit (Suc b) c"
  proof (rule bit_word_eqI)
    fix j
    show "bit (drop_bit (Suc b) a) j = bit (drop_bit (Suc b) c) j"
      using assms(4)[of "Suc b + j"] no_bit[of "Suc b + j" a] no_bit[of "Suc b + j" c]
      by (cases "Suc b + j < 8") (auto simp: bit_simps)
  qed
  then have "unat a div 2 ^ Suc b = unat c div 2 ^ Suc b"
    by (metis unat_drop_bit_eq drop_bit_eq_div)
  moreover have "\<not> odd (unat a div 2 ^ b)" "odd (unat c div 2 ^ b)"
    using assms(2,3) by (simp_all add: bit_unsigned_iff bit_iff_odd[symmetric])
  ultimately have "unat a div 2 ^ b < unat c div 2 ^ b"
    by (metis div_mult2_eq power_Suc2 even_two_times_div_two odd_two_times_div_two_succ less_add_one)
  then show ?thesis
    by (metis div_le_mono leD le_less_linear word_less_nat_alt)
qed

text \<open>The same for keys: agreeing on \<open>8 * m\<close> bits is agreeing on \<open>m\<close> bytes.\<close>

lemma agree_take:
  assumes "agree n j k" "8 * m \<le> n" "m \<le> length j" "m \<le> length k"
  shows "take m j = take m k"
proof (rule nth_equalityI)
  fix i assume i: "i < length (take m j)"
  have "j ! i = k ! i"
    unfolding byte_eq_bits
  proof (intro allI impI)
    fix b :: nat assume b: "b < 8"
    have "kbit j (8 * i + (7 - b)) = kbit k (8 * i + (7 - b))"
      using agreeD[OF assms(1)] assms(2) i by auto
    then show "bit (j ! i) b = bit (k ! i) b"
      using i b assms(3,4) unfolding kbit_def bit_index[OF b] by auto
  qed
  then show "take m j ! i = take m k ! i" using i by simp
qed (use assms in simp)

lemma take_agree:
  assumes "take m j = take m k" "m \<le> length j" "m \<le> length k"
  shows "agree (8 * m) j k"
proof -
  have "j ! i = k ! i" if "i < m" for i using assms(1) that nth_take by metis
  then show ?thesis using assms(2,3) by (auto simp: agree_def kbit_def less_mult_imp_div_less)
qed

lemma agree_bit_less:
  assumes "agree n j k" "\<not> kbit j n" "kbit k n" "n div 8 < length j"
  shows "j < k"
proof -
  let ?m = "n div 8"
  have k: "?m < length k" using assms(3) by (simp add: kbit_def)
  have "take ?m j = take ?m k" using agree_take[OF assms(1)] assms(4) k by simp
  moreover have "j ! ?m < k ! ?m"
  proof (rule byte_less_by_bit[of "7 - n mod 8"])
    fix b :: nat assume b: "7 - n mod 8 < b" "b < 8"
    then have "8 * ?m + (7 - b) < n" using div_mult_mod_eq[of n 8] by linarith
    then have "kbit j (8 * ?m + (7 - b)) = kbit k (8 * ?m + (7 - b))" by (rule agreeD[OF assms(1)])
    then show "bit (j ! ?m) b = bit (k ! ?m) b"
      using assms(4) k unfolding kbit_def bit_index[OF b(2)] using b by simp
  qed (use assms k in \<open>simp_all add: kbit_def\<close>)
  ultimately show ?thesis
    using assms(4) k id_take_nth_drop[of ?m j] id_take_nth_drop[of ?m k]
    by (metis append_eq_append_conv List_Lexorder.Cons_less_Cons lexord_append_leftI list_less_def)
qed

subsection \<open>The invariant\<close>

fun cb_list :: "'v critbit \<Rightarrow> (byte list \<times> 'v) list" where
  "cb_list (External k v) = [(k, v)]"
| "cb_list (Internal by mk l r) = cb_list l @ cb_list r"

definition cb_keys :: "'v critbit \<Rightarrow> byte list set" where
  "cb_keys t = fst ` set (cb_list t)"

lemma cb_keys_simps [simp]:
  "cb_keys (External k v) = {k}"
  "cb_keys (Internal by mk l r) = cb_keys l \<union> cb_keys r"
  by (auto simp: cb_keys_def)

lemma cb_keys_nonempty: "cb_keys t \<noteq> {}"
  by (induction t) auto

fun cb_wf :: "'v critbit \<Rightarrow> bool" where
  "cb_wf (External k v) = True"
| "cb_wf (Internal by mk l r) =
     (\<exists>n. by = n div 8 \<and> mk = cb_mask n \<and>
        (\<forall>j\<in>cb_keys l. by < length j \<and> \<not> kbit j n) \<and> (\<forall>k\<in>cb_keys r. kbit k n) \<and>
        (\<forall>j\<in>cb_keys l. \<forall>k\<in>cb_keys r. agree n j k) \<and> cb_wf l \<and> cb_wf r)"

lemma cb_wf_node:
  assumes "cb_wf (Internal y mk l r)"
  obtains n where "y = n div 8" "mk = cb_mask n" "\<forall>j\<in>cb_keys l. y < length j \<and> \<not> kbit j n"
    "\<forall>k\<in>cb_keys r. kbit k n" "\<forall>j\<in>cb_keys l. \<forall>k\<in>cb_keys r. agree n j k" "cb_wf l" "cb_wf r"
  using assms by auto

lemma cb_wf_agree:
  assumes "\<forall>j\<in>cb_keys l. \<forall>k\<in>cb_keys r. agree n j k" "i \<in> cb_keys l \<union> cb_keys r" "j \<in> cb_keys l \<union> cb_keys r"
  shows "agree n i j"
proof -
  obtain a c where "a \<in> cb_keys l" "c \<in> cb_keys r"
    using cb_keys_nonempty[of l] cb_keys_nonempty[of r] by blast
  then show ?thesis using assms agree_trans agree_sym by (metis Un_iff)
qed

text \<open>The number of the bit a node tests is determined by its two fields.\<close>

lemma cb_mask_inj: "m div 8 = n div 8 \<Longrightarrow> cb_mask m = cb_mask n \<Longrightarrow> m = n"
proof -
  assume "m div 8 = n div 8" and eq: "cb_mask m = cb_mask n"
  have "7 - m mod 8 = 7 - n mod 8"
    using arg_cong[OF eq, of "\<lambda>w. bit w (7 - m mod 8)"] by (auto simp: cb_mask_def bit_simps)
  then have "m mod 8 = n mod 8" using mod_less_divisor[of 8 m] mod_less_divisor[of 8 n] by linarith
  with \<open>m div 8 = n div 8\<close> show "m = n" by (metis div_mult_mod_eq)
qed

lemma cb_less_pos: "cb_less (m div 8, cb_mask m) (n div 8, cb_mask n) \<longleftrightarrow> m < n"
proof -
  have table: "\<forall>a\<in>set [0..<8]. \<forall>b\<in>set [0..<8].
      NOT (push_bit (7 - a) 1 :: byte) < NOT (push_bit (7 - b) 1) \<longleftrightarrow> a < b"
    by code_simp
  have "cb_mask m < cb_mask n \<longleftrightarrow> m mod 8 < n mod 8"
    using table[THEN bspec, THEN bspec, of "m mod 8" "n mod 8"] by (simp add: cb_mask_def)
  moreover have "m < n \<longleftrightarrow> m div 8 < n div 8 \<or> m div 8 = n div 8 \<and> m mod 8 < n mod 8"
    using div_mult_mod_eq[of m 8] div_mult_mod_eq[of n 8] mod_less_divisor[of 8 m] mod_less_divisor[of 8 n]
    by linarith
  ultimately show ?thesis by (simp add: cb_less_def)
qed

lemma cb_turn_kbit:
  assumes "keylen \<le> length key"
  shows "cb_turn key keylen (n div 8) (cb_mask n) = Some (kbit (take keylen key) n)"
  using assms by (simp add: cb_turn_def cb_branch_mask kbit_def)

subsection \<open>Walking along a key\<close>

text \<open>The branches that the bits of a key choose, and where they lead.\<close>

fun cb_trail :: "(nat \<Rightarrow> byte \<Rightarrow> bool) \<Rightarrow> 'v critbit \<Rightarrow> bool list" where
  "cb_trail f (External k v) = []"
| "cb_trail f (Internal by mk l r) =
     (let b = f by mk in b # cb_trail f (if b then r else l))"

fun cb_leaf_of :: "(nat \<Rightarrow> byte \<Rightarrow> bool) \<Rightarrow> 'v critbit \<Rightarrow> byte list \<times> 'v" where
  "cb_leaf_of f (External k v) = (k, v)"
| "cb_leaf_of f (Internal by mk l r) = cb_leaf_of f (if f by mk then r else l)"

definition key_bits :: "byte list \<Rightarrow> nat \<Rightarrow> byte \<Rightarrow> bool" where
  "key_bits k by mk \<longleftrightarrow> by < length k \<and> cb_branch mk (k ! by)"

lemma key_bits_mask [simp]: "key_bits k (n div 8) (cb_mask n) \<longleftrightarrow> kbit k n"
  by (simp add: key_bits_def cb_branch_mask kbit_def)

abbreviation cb_best :: "byte list \<Rightarrow> 'v critbit \<Rightarrow> byte list \<times> 'v" where
  "cb_best k \<equiv> cb_leaf_of (key_bits k)"

lemma cb_leaf_in: "cb_leaf_of f t \<in> set (cb_list t)"
  by (induction t) auto

lemma cb_leaf_key: "fst (cb_leaf_of f t) \<in> cb_keys t"
  using cb_leaf_in[of f t] by (auto simp: cb_keys_def)

text \<open>No key of the tree agrees with the one looked for on more bits than the leaf found.\<close>

lemma cb_best_agrees:
  "cb_wf t \<Longrightarrow> j \<in> cb_keys t \<Longrightarrow> agree p k j \<Longrightarrow> agree p k (fst (cb_best k t))"
proof (induction t)
  case (External x v)
  then show ?case by simp
next
  case (Internal y mk l r)
  obtain n where n: "y = n div 8" "mk = cb_mask n" "\<forall>j\<in>cb_keys l. y < length j \<and> \<not> kbit j n"
    "\<forall>k\<in>cb_keys r. kbit k n" "\<forall>j\<in>cb_keys l. \<forall>k\<in>cb_keys r. agree n j k" "cb_wf l" "cb_wf r"
    using cb_wf_node[OF Internal.prems(1)] by blast
  have s: "fst (cb_best k (Internal y mk l r)) \<in> cb_keys l \<union> cb_keys r"
    using cb_leaf_key[of "key_bits k" "Internal y mk l r"] by simp
  show ?case
  proof (cases "p \<le> n")
    case True
    have "agree n j (fst (cb_best k (Internal y mk l r)))"
      using cb_wf_agree[OF n(5)] s Internal.prems(2) by simp
    then show ?thesis using Internal.prems(3) True agree_le agree_trans by blast
  next
    case False
    then have "kbit k n = kbit j n" using Internal.prems(3) agreeD by simp
    then show ?thesis using Internal n by auto
  qed
qed

lemma cb_best_found: "cb_wf t \<Longrightarrow> k \<in> cb_keys t \<Longrightarrow> fst (cb_best k t) = k"
  by (induction t) auto

lemma cb_wf_long:
  assumes "cb_wf (Internal y mk l r)" "j \<in> cb_keys l \<union> cb_keys r"
  shows "y < length j"
  using cb_wf_node[OF assms(1)] assms(2) kbit_def by (metis Un_iff)

lemma cb_best_prefix:
  "cb_wf t \<Longrightarrow> j \<in> cb_keys t \<Longrightarrow> prefix k j \<Longrightarrow> prefix k (fst (cb_best k t))"
proof (induction t)
  case (External x v)
  then show ?case by simp
next
  case (Internal y mk l r)
  obtain n where n: "y = n div 8" "mk = cb_mask n" "\<forall>j\<in>cb_keys l. y < length j \<and> \<not> kbit j n"
    "\<forall>k\<in>cb_keys r. kbit k n" "\<forall>j\<in>cb_keys l. \<forall>k\<in>cb_keys r. agree n j k" "cb_wf l" "cb_wf r"
    using cb_wf_node[OF Internal.prems(1)] by blast
  have j: "take (length k) j = k" "length k \<le> length j"
    using Internal.prems(3) by (auto simp: prefix_def)
  let ?s = "fst (cb_best k (Internal y mk l r))"
  have s: "?s \<in> cb_keys l \<union> cb_keys r"
    using cb_leaf_key[of "key_bits k" "Internal y mk l r"] by simp
  show ?case
  proof (cases "length k \<le> y")
    case True
    then have "length k \<le> length ?s" using cb_wf_long[OF Internal.prems(1) s] by simp
    moreover have "8 * length k \<le> n" using True n(1) by simp
    moreover have "agree n j ?s" using cb_wf_agree[OF n(5)] s Internal.prems(2) by simp
    ultimately have "take (length k) j = take (length k) ?s" using agree_take j(2) by blast
    then show ?thesis using j by (metis take_is_prefix)
  next
    case False
    then have "kbit k n = kbit j n"
      using Internal.prems(3) n(1) by (auto simp: prefix_def kbit_def nth_append)
    then show ?thesis using Internal n by auto
  qed
qed

lemma cb_wf_sorted: "cb_wf t \<Longrightarrow> sorted_wrt (<) (map fst (cb_list t))"
proof (induction t)
  case (Internal y mk l r)
  obtain n where n: "y = n div 8" "mk = cb_mask n" "\<forall>j\<in>cb_keys l. y < length j \<and> \<not> kbit j n"
    "\<forall>k\<in>cb_keys r. kbit k n" "\<forall>j\<in>cb_keys l. \<forall>k\<in>cb_keys r. agree n j k" "cb_wf l" "cb_wf r"
    using cb_wf_node[OF Internal.prems(1)] by blast
  have "\<forall>j\<in>cb_keys l. \<forall>k\<in>cb_keys r. j < k" using n agree_bit_less by blast
  then show ?case using Internal.IH n by (auto simp: sorted_wrt_append cb_keys_def)
qed simp

lemma cb_wf_distinct: "cb_wf t \<Longrightarrow> distinct (map fst (cb_list t))"
  using cb_wf_sorted strict_sorted_iff by blast

subsection \<open>Grafting a key\<close>

text \<open>
  The tree with a new inner node for bit \<open>d\<close> put in front of the first node on the trail that tests a
  later bit, its other child being the leaf \<open>x\<close>.
\<close>

definition cb_join :: "nat \<Rightarrow> bool \<Rightarrow> 'v critbit \<Rightarrow> 'v critbit \<Rightarrow> 'v critbit" where
  "cb_join d b x t = (if b then Internal (d div 8) (cb_mask d) t x else Internal (d div 8) (cb_mask d) x t)"

fun cb_stop :: "(nat \<Rightarrow> byte \<Rightarrow> bool) \<Rightarrow> nat \<Rightarrow> byte \<Rightarrow> 'v critbit \<Rightarrow> bool list" where
  "cb_stop f y mk (External k v) = []"
| "cb_stop f y mk (Internal y' mk' l r) =
     (if cb_less (y', mk') (y, mk) then f y' mk' # cb_stop f y mk (if f y' mk' then r else l) else [])"

lemma cb_slot_keys: "cb_keys (cb_slot t p) \<subseteq> cb_keys t"
  by (induction t p rule: cb_slot.induct) auto

lemma cb_stop_prefix: "prefix (cb_stop f y mk t) (cb_trail f t)"
  by (induction t) auto

lemma cb_join_wf:
  assumes t: "cb_wf t" "\<forall>j\<in>cb_keys t. agree d k j \<and> kbit j d \<noteq> kbit k d \<and> d div 8 < length j"
    and k: "d div 8 < length k"
  shows "cb_wf (cb_join d (kbit k d) (External k v) t)"
  using assms by (auto simp: cb_join_def agree_sym[of d _ k] intro!: exI[of _ d])

lemma cb_join_list: "set (cb_list (cb_join d b (External k v) t)) = insert (k, v) (set (cb_list t))"
  by (auto simp: cb_join_def)

lemma cb_keys_of: "set (cb_list t) = insert (k, v) (set (cb_list u)) \<Longrightarrow> cb_keys t = insert k (cb_keys u)"
  by (auto simp: cb_keys_def)

definition cb_graft :: "byte list \<Rightarrow> 'v \<Rightarrow> nat \<Rightarrow> 'v critbit \<Rightarrow> 'v critbit" where
  "cb_graft k v d t =
     (let p = cb_stop (key_bits k) (d div 8) (cb_mask d) t
      in cb_store t p (cb_join d (kbit k d) (External k v) (cb_slot t p)))"

text \<open>Bit \<open>d\<close> is the first in which a key differs from the leaf its bits lead to.\<close>

definition cb_splits :: "byte list \<Rightarrow> nat \<Rightarrow> byte list \<Rightarrow> bool" where
  "cb_splits k d s \<longleftrightarrow> agree d k s \<and> kbit s d \<noteq> kbit k d \<and> d div 8 < length k \<and> d div 8 < length s"

lemma cb_splits_all:
  assumes "cb_wf t" "cb_splits k d (fst (cb_best k t))" "j \<in> cb_keys t"
    and stop: "cb_stop (key_bits k) (d div 8) (cb_mask d) t = []"
  shows "cb_splits k d j"
proof (cases t)
  case (External x v)
  then show ?thesis using assms by simp
next
  case (Internal y mk l r)
  let ?s = "fst (cb_best k t)"
  obtain n where n: "y = n div 8" "mk = cb_mask n" "\<forall>j\<in>cb_keys l. y < length j \<and> \<not> kbit j n"
    "\<forall>k\<in>cb_keys r. kbit k n" "\<forall>j\<in>cb_keys l. \<forall>k\<in>cb_keys r. agree n j k" "cb_wf l" "cb_wf r"
    using cb_wf_node assms(1) Internal by blast
  have s: "?s \<in> cb_keys t" by (rule cb_leaf_key)
  have "\<not> n < d" using stop Internal n cb_less_pos[of n d] by (auto split: if_splits)
  moreover have "kbit ?s n = kbit k n"
    using n Internal cb_leaf_key[of "key_bits k" l] cb_leaf_key[of "key_bits k" r] by auto
  then have "n \<noteq> d" using assms(2) by (auto simp: cb_splits_def)
  ultimately have d: "d < n" by simp
  have js: "agree n ?s j" using cb_wf_agree[OF n(5)] s assms(3) Internal by simp
  have "y < length j" using cb_wf_long assms(1,3) Internal by (metis cb_keys_simps(2))
  then have "d div 8 < length j" using d n(1) div_le_mono[of d n 8] by linarith
  then show ?thesis
    using assms(2) agreeD[OF js d] agree_le[OF js] agree_trans[of d k ?s j] d by (auto simp: cb_splits_def)
qed

lemma cb_graft_ok:
  "cb_wf t \<Longrightarrow> cb_splits k d (fst (cb_best k t)) \<Longrightarrow>
   cb_wf (cb_graft k v d t) \<and> set (cb_list (cb_graft k v d t)) = insert (k, v) (set (cb_list t))"
proof (induction t)
  case (External x w)
  then show ?case
    using cb_join_wf[of "External x w" d k v] cb_join_list[of d "kbit k d" k v "External x w"]
    by (simp add: cb_graft_def cb_splits_def)
next
  case (Internal y mk l r)
  let ?t = "Internal y mk l r"
  show ?case
  proof (cases "cb_stop (key_bits k) (d div 8) (cb_mask d) ?t = []")
    case True
    have "\<forall>j\<in>cb_keys ?t. cb_splits k d j" using cb_splits_all[OF Internal.prems _ True] by blast
    moreover have "d div 8 < length k" using Internal.prems(2) by (simp add: cb_splits_def)
    moreover have "cb_graft k v d ?t = cb_join d (kbit k d) (External k v) ?t"
      unfolding cb_graft_def True by simp
    ultimately show ?thesis
      using cb_join_wf[OF Internal.prems(1), of d k v] cb_join_list[of d "kbit k d" k v ?t]
      unfolding cb_splits_def by simp
  next
    case False
    obtain n where n: "y = n div 8" "mk = cb_mask n" "\<forall>j\<in>cb_keys l. y < length j \<and> \<not> kbit j n"
      "\<forall>k\<in>cb_keys r. kbit k n" "\<forall>j\<in>cb_keys l. \<forall>k\<in>cb_keys r. agree n j k" "cb_wf l" "cb_wf r"
      using cb_wf_node[OF Internal.prems(1)] by blast
    have d: "n < d" using False n(1,2) cb_less_pos[of n d] by (auto split: if_splits)
    then have k: "agree n k (fst (cb_best k ?t))" "y < length k"
      using Internal.prems(2) n(1) agree_le[of d] div_le_mono[of n d 8] by (auto simp: cb_splits_def)
    have others: "\<forall>j\<in>cb_keys ?t. agree n j k"
      using cb_wf_agree[OF n(5)] k(1) cb_leaf_key[of "key_bits k" ?t]
      by (metis agree_trans agree_sym cb_keys_simps(2))
    have step: "cb_graft k v d ?t =
        (if kbit k n then Internal y mk l (cb_graft k v d r) else Internal y mk (cb_graft k v d l) r)"
      using n(1,2) d by (simp add: cb_graft_def cb_less_pos Let_def)
    show ?thesis
    proof (cases "kbit k n")
      case True
      then have IH: "cb_wf (cb_graft k v d r)"
          "set (cb_list (cb_graft k v d r)) = insert (k, v) (set (cb_list r))"
        using Internal.IH(2) Internal.prems(2) n by auto
      then show ?thesis
        using step n True others k(2) cb_keys_of[OF IH(2)] by (auto intro!: exI[of _ n])
    next
      case F: False
      then have IH: "cb_wf (cb_graft k v d l)"
          "set (cb_list (cb_graft k v d l)) = insert (k, v) (set (cb_list l))"
        using Internal.IH(1) Internal.prems(2) n by auto
      then show ?thesis
        using step n F others k(2) cb_keys_of[OF IH(2)] agree_sym by (auto intro!: exI[of _ n])
    qed
  qed
qed

text \<open>The bit to split at comes from the first byte in which two keys differ.\<close>

lemma cb_split_at:
  assumes "take i k = take i s" "i < length k" "i < length s" "k ! i \<noteq> s ! i"
  obtains d where "d div 8 = i" "cb_critmask (k ! i) (s ! i) = cb_mask d" "cb_splits k d s"
proof -
  obtain b where b: "b < 8" "bit (k ! i) b \<noteq> bit (s ! i) b"
    and above: "\<And>j. b < j \<Longrightarrow> j < 8 \<Longrightarrow> bit (k ! i) j = bit (s ! i) j"
    using highest_difference[OF assms(4)] by blast
  let ?d = "8 * i + (7 - b)"
  have d: "?d div 8 = i" "7 - ?d mod 8 = b" using bit_index[OF b(1)] b(1) by simp_all
  have "agree ?d k s"
    unfolding agree_def
  proof (intro allI impI)
    fix j assume j: "j < ?d"
    show "kbit k j = kbit s j"
    proof (cases "j < 8 * i")
      case True
      then show ?thesis using take_agree[OF assms(1)] assms(2,3) agreeD by simp
    next
      case False
      then have q: "j div 8 = i" using j by (intro div_nat_eqI) simp_all
      then have "j = 8 * i + j mod 8" by (metis mult_div_mod_eq)
      then have "b < 7 - j mod 8" using j b(1) by linarith
      then show ?thesis using q above[of "7 - j mod 8"] assms(2,3) by (simp add: kbit_def)
    qed
  qed
  moreover have "cb_critmask (k ! i) (s ! i) = cb_mask ?d"
    unfolding cb_mask_def d(2) using critmask_highest[OF b above] by blast
  ultimately show thesis
    using that[of ?d] d b(2) assms(2,3) unfolding cb_splits_def kbit_def d by auto
qed

lemma cb_critmask_sym: "cb_critmask a c = cb_critmask c a"
  by (simp add: cb_critmask_def xor.commute Let_def)

text \<open>Keys neither of which is a prefix of the other differ in a byte.\<close>

lemma lcp_induct [case_names both left right]:
  assumes "\<And>x xs y ys. (x = y \<Longrightarrow> P xs ys) \<Longrightarrow> P (x # xs) (y # ys)" "\<And>s. P [] s" "\<And>k. P k []"
  shows "P k s"
  by (induction k s rule: longest_common_prefix.induct) (simp_all add: assms)

lemma lcp_apart:
  assumes "\<not> prefix k s" "\<not> prefix s k"
  defines "i \<equiv> length (longest_common_prefix k s)"
  shows "i < length k" "i < length s" "take i k = take i s" "k ! i \<noteq> s ! i"
proof -
  let ?p = "longest_common_prefix k s"
  obtain k' s' where eq: "k = ?p @ k'" "s = ?p @ s'"
    using longest_common_prefix_prefix1[of k s] longest_common_prefix_prefix2[of k s] by (auto simp: prefix_def)
  have ne: "k' \<noteq> []" "s' \<noteq> []"
    using eq assms(1,2) by (metis append_Nil2 longest_common_prefix_prefix1 longest_common_prefix_prefix2)+
  have len: "length k = i + length k'" "length s = i + length s'"
    using arg_cong[OF eq(1), of length] arg_cong[OF eq(2), of length] by (simp_all add: i_def)
  then show ik: "i < length k" and is': "i < length s" using ne by simp_all
  show tk: "take i k = take i s"
    using eq unfolding i_def by (metis append_eq_conv_conj)
  show "k ! i \<noteq> s ! i"
  proof
    assume "k ! i = s ! i"
    then have "take (Suc i) k = take (Suc i) s" using tk ik is' by (simp add: take_Suc_conv_app_nth)
    then have "prefix (take (Suc i) k) ?p"
      by (intro longest_common_prefix_max_prefix) (metis take_is_prefix)+
    then show False using prefix_length_le[of "take (Suc i) k" ?p] ik by (simp add: i_def)
  qed
qed

subsection \<open>The nodes on a trail\<close>

lemma cb_wf_child_pos:
  assumes "cb_wf (Internal y mk l r)" "y = n div 8" "mk = cb_mask n"
    and "Internal y' mk' l' r' = l \<or> Internal y' mk' l' r' = r" "y' = m div 8" "mk' = cb_mask m"
  shows "n < m"
proof -
  let ?c = "Internal y' mk' l' r'"
  obtain n' where n': "y = n' div 8" "mk = cb_mask n'" "\<forall>j\<in>cb_keys l. y < length j \<and> \<not> kbit j n'"
    "\<forall>k\<in>cb_keys r. kbit k n'" "\<forall>j\<in>cb_keys l. \<forall>k\<in>cb_keys r. agree n' j k" "cb_wf l" "cb_wf r"
    using cb_wf_node[OF assms(1)] by blast
  then have n: "n' = n" using assms(2,3) cb_mask_inj by blast
  have c: "cb_wf ?c" using assms(4) n'(6,7) by auto
  obtain m' where m': "y' = m' div 8" "mk' = cb_mask m'" "\<forall>j\<in>cb_keys l'. y' < length j \<and> \<not> kbit j m'"
    "\<forall>k\<in>cb_keys r'. kbit k m'" "\<forall>j\<in>cb_keys l'. \<forall>k\<in>cb_keys r'. agree m' j k" "cb_wf l'" "cb_wf r'"
    using cb_wf_node[OF c] by blast
  then have m: "m' = m" using assms(5,6) cb_mask_inj by blast
  obtain j k where jk: "j \<in> cb_keys l'" "k \<in> cb_keys r'"
    using cb_keys_nonempty[of l'] cb_keys_nonempty[of r'] by blast
  then have in_c: "j \<in> cb_keys ?c" "k \<in> cb_keys ?c" by auto
  then have "agree n j k" using cb_wf_agree[OF n'(5)] assms(4) n by blast
  moreover have "kbit j n = kbit k n" using in_c assms(4) n'(3,4) n by blast
  moreover have "kbit j m \<noteq> kbit k m" using jk m' m by blast
  ultimately show ?thesis using agreeD[of n j k m] by (metis linorder_neqE_nat)
qed

fun cb_prev :: "(nat \<Rightarrow> byte \<Rightarrow> bool) \<Rightarrow> (nat \<times> byte) option \<Rightarrow> 'v critbit \<Rightarrow> (nat \<times> byte) option" where
  "cb_prev f q (External k v) = q"
| "cb_prev f q (Internal y mk l r) = cb_prev f (Some (y, mk)) (if f y mk then r else l)"

lemma cb_prev_mono:
  "cb_wf (Internal y mk l r) \<Longrightarrow> y = n div 8 \<Longrightarrow> mk = cb_mask n \<Longrightarrow>
   \<exists>m. cb_prev f q (Internal y mk l r) = Some (m div 8, cb_mask m) \<and> n \<le> m"
proof (induction "Internal y mk l r" arbitrary: y mk l r n q rule: measure_induct_rule[of size])
  case less
  let ?c = "if f y mk then r else l"
  show ?case
  proof (cases ?c)
    case (External k v)
    then show ?thesis using less.prems by auto
  next
    case (Internal y' mk' l' r')
    then have c: "Internal y' mk' l' r' = l \<or> Internal y' mk' l' r' = r" by (auto split: if_splits)
    then have wf: "cb_wf (Internal y' mk' l' r')" using less.prems(1) by auto
    then obtain m where m: "y' = m div 8" "mk' = cb_mask m" using cb_wf_node by blast
    have "size (Internal y' mk' l' r') < size (Internal y mk l r)" using c by auto
    from less.hyps[OF this wf m, of "Some (y, mk)"] obtain k where
      "cb_prev f (Some (y, mk)) (Internal y' mk' l' r') = Some (k div 8, cb_mask k)" "m \<le> k" by blast
    then show ?thesis
      using cb_wf_child_pos[OF less.prems c m] Internal by (auto intro!: exI[of _ k])
  qed
qed

lemma cb_wf_nodeI:
  assumes "y = n div 8" "mk = cb_mask n" "\<forall>j\<in>cb_keys l. y < length j \<and> \<not> kbit j n"
    "\<forall>k\<in>cb_keys r. kbit k n" "\<forall>j\<in>cb_keys l. \<forall>k\<in>cb_keys r. agree n j k" "cb_wf l" "cb_wf r"
  shows "cb_wf (Internal y mk l r)"
  using assms by auto

text \<open>A key and the leaf it leads to have the same bit at the last node of the trail.\<close>

lemma cb_prev_leaf:
  "cb_wf t \<Longrightarrow> cb_prev (key_bits k) q t = Some (m div 8, cb_mask m) \<Longrightarrow> (\<forall>x v. t \<noteq> External x v) \<Longrightarrow>
   kbit (fst (cb_best k t)) m = kbit k m"
proof (induction t arbitrary: q)
  case (Internal y mk l r)
  obtain n where n: "y = n div 8" "mk = cb_mask n" "\<forall>j\<in>cb_keys l. y < length j \<and> \<not> kbit j n"
    "\<forall>k\<in>cb_keys r. kbit k n" "\<forall>j\<in>cb_keys l. \<forall>k\<in>cb_keys r. agree n j k" "cb_wf l" "cb_wf r"
    using cb_wf_node[OF Internal.prems(1)] by blast
  let ?c = "if key_bits k y mk then r else l"
  have best: "cb_best k (Internal y mk l r) = cb_best k ?c" by simp
  have prev: "cb_prev (key_bits k) (Some (y, mk)) ?c = Some (m div 8, cb_mask m)"
    using Internal.prems(2) by simp
  show ?case
  proof (cases ?c)
    case (External x v)
    then have "n = m" using prev n(1,2) cb_mask_inj[of n m] by simp
    moreover have "kbit x n = kbit k n"
      using External n(1-4) by (metis cb_keys_simps(1) insertI1 key_bits_mask)
    ultimately show ?thesis unfolding best External by simp
  next
    case I: (Internal y' mk' l' r')
    then show ?thesis
      using Internal.IH n(6,7) prev unfolding best by (cases "key_bits k y mk") auto
  qed
qed simp

text \<open>
  When the last node on the trail tests an earlier bit than \<open>d\<close>, all do, and the new node belongs at
  the leaf; when it tests a later one, the search for the first such node ends before the leaf.
\<close>

lemma cb_stop_is_trail:
  "cb_wf t \<Longrightarrow> cb_prev f q t = Some (m div 8, cb_mask m) \<or> cb_prev f q t = None \<Longrightarrow> m < d \<or> cb_prev f q t = None \<Longrightarrow>
   cb_stop f (d div 8) (cb_mask d) t = cb_trail f t"
proof (induction t arbitrary: q)
  case (Internal y mk l r)
  obtain n where n: "y = n div 8" "mk = cb_mask n" "cb_wf l" "cb_wf r"
    using cb_wf_node[OF Internal.prems(1)] by blast
  obtain m' where m': "cb_prev f q (Internal y mk l r) = Some (m' div 8, cb_mask m')" "n \<le> m'"
    using cb_prev_mono[OF Internal.prems(1) n(1,2)] by blast
  then have "m' div 8 = m div 8 \<and> cb_mask m' = cb_mask m" "m < d"
    using Internal.prems(2,3) by (metis option.distinct(1) option.inject prod.inject)+
  then have "n \<le> m" "m < d" using m'(2) cb_mask_inj by blast+
  then have "cb_less (y, mk) (d div 8, cb_mask d)" using n(1,2) cb_less_pos by simp
  then show ?case
    using Internal.IH(1)[OF n(3), of "Some (y, mk)"] Internal.IH(2)[OF n(4), of "Some (y, mk)"] Internal.prems(2,3)
    by (simp add: Let_def split: if_splits)
qed simp

fun cb_stops :: "(nat \<Rightarrow> byte \<Rightarrow> bool) \<Rightarrow> nat \<times> byte \<Rightarrow> 'v critbit \<Rightarrow> bool" where
  "cb_stops f q (External k v) = False"
| "cb_stops f q (Internal y mk l r) = (cb_less (y, mk) q \<longrightarrow> cb_stops f q (if f y mk then r else l))"

lemma cb_stops_early:
  "cb_wf t \<Longrightarrow> cb_prev f q t = Some (m div 8, cb_mask m) \<Longrightarrow> d < m \<Longrightarrow> (\<forall>k v. t \<noteq> External k v) \<Longrightarrow>
   cb_stops f (d div 8, cb_mask d) t"
proof (induction t arbitrary: q)
  case (Internal y mk l r)
  obtain n where n: "y = n div 8" "mk = cb_mask n" "cb_wf l" "cb_wf r"
    using cb_wf_node[OF Internal.prems(1)] by blast
  let ?c = "if f y mk then r else l"
  have "cb_stops f (d div 8, cb_mask d) ?c" if less: "cb_less (y, mk) (d div 8, cb_mask d)"
  proof (cases ?c)
    case (External k v)
    then have "n = m" using Internal.prems(2) n cb_mask_inj[of n m] by simp
    then show ?thesis using less n Internal.prems(3) cb_less_pos[of n d] by simp
  next
    case (Internal y' mk' l' r')
    then show ?thesis using Internal.IH Internal.prems n by (auto split: if_splits)
  qed
  then show ?case by simp
qed simp

subsection \<open>Cutting a leaf\<close>

text \<open>The tree without the leaf at the end of the trail: its sibling takes the place of their parent.\<close>

fun cb_cut :: "(nat \<Rightarrow> byte \<Rightarrow> bool) \<Rightarrow> 'v critbit \<Rightarrow> 'v critbit option" where
  "cb_cut f (External k v) = None"
| "cb_cut f (Internal y mk l r) =
     (if f y mk then Some (case cb_cut f r of None \<Rightarrow> l | Some r' \<Rightarrow> Internal y mk l r')
      else Some (case cb_cut f l of None \<Rightarrow> r | Some l' \<Rightarrow> Internal y mk l' r))"

fun cb_entries :: "'v critbit option \<Rightarrow> (byte list \<times> 'v) list" where
  "cb_entries None = []"
| "cb_entries (Some t) = cb_list t"

lemma cb_cut_list:
  "cb_wf t \<Longrightarrow> set (cb_entries (cb_cut f t)) = set (cb_list t) - {cb_leaf_of f t}"
proof (induction t)
  case (Internal y mk l r)
  obtain n where n: "y = n div 8" "mk = cb_mask n" "\<forall>j\<in>cb_keys l. y < length j \<and> \<not> kbit j n"
    "\<forall>k\<in>cb_keys r. kbit k n" "\<forall>j\<in>cb_keys l. \<forall>k\<in>cb_keys r. agree n j k" "cb_wf l" "cb_wf r"
    using cb_wf_node[OF Internal.prems(1)] by blast
  have apart: "x \<notin> set (cb_list l) \<or> x \<notin> set (cb_list r)" for x
    using n(3,4) unfolding cb_keys_def by blast
  show ?case
  proof (cases "f y mk")
    case True
    have "set (cb_entries (cb_cut f (Internal y mk l r))) = set (cb_list l) \<union> set (cb_entries (cb_cut f r))"
      using True by (auto split: option.splits)
    also have "\<dots> = set (cb_list l) \<union> (set (cb_list r) - {cb_leaf_of f r})" by (simp only: Internal.IH(2)[OF n(7)])
    also have "\<dots> = (set (cb_list l) \<union> set (cb_list r)) - {cb_leaf_of f r}"
      using apart[of "cb_leaf_of f r"] cb_leaf_in[of f r] by blast
    also have "\<dots> = set (cb_list (Internal y mk l r)) - {cb_leaf_of f (Internal y mk l r)}"
      using True by simp
    finally show ?thesis .
  next
    case False
    have "set (cb_entries (cb_cut f (Internal y mk l r))) = set (cb_entries (cb_cut f l)) \<union> set (cb_list r)"
      using False by (auto split: option.splits)
    also have "\<dots> = (set (cb_list l) - {cb_leaf_of f l}) \<union> set (cb_list r)" by (simp only: Internal.IH(1)[OF n(6)])
    also have "\<dots> = (set (cb_list l) \<union> set (cb_list r)) - {cb_leaf_of f l}"
      using apart[of "cb_leaf_of f l"] cb_leaf_in[of f l] by blast
    also have "\<dots> = set (cb_list (Internal y mk l r)) - {cb_leaf_of f (Internal y mk l r)}"
      using False by simp
    finally show ?thesis .
  qed
qed simp

lemma cb_cut_wf: "cb_wf t \<Longrightarrow> cb_cut f t = Some t' \<Longrightarrow> cb_wf t'"
proof (induction t arbitrary: t')
  case (Internal y mk l r)
  obtain n where n: "y = n div 8" "mk = cb_mask n" "\<forall>j\<in>cb_keys l. y < length j \<and> \<not> kbit j n"
    "\<forall>k\<in>cb_keys r. kbit k n" "\<forall>j\<in>cb_keys l. \<forall>k\<in>cb_keys r. agree n j k" "cb_wf l" "cb_wf r"
    using cb_wf_node[OF Internal.prems(1)] by blast
  have sub: "cb_keys u \<subseteq> cb_keys t" if "cb_wf t" "cb_cut f t = Some u" for t u :: "'a critbit"
    using cb_cut_list[OF that(1), of f] that(2) by (auto simp: cb_keys_def)
  show ?case
  proof (cases "f y mk")
    case True
    show ?thesis
    proof (cases "cb_cut f r")
      case None
      then show ?thesis using True Internal.prems(2) n(6,7) by simp
    next
      case (Some u)
      then have "t' = Internal y mk l u" using True Internal.prems(2) by simp
      moreover have "cb_wf u" "cb_keys u \<subseteq> cb_keys r"
        using Internal.IH(2)[OF n(7) Some] sub[OF n(7) Some] .
      ultimately show ?thesis using n cb_wf_nodeI[of y n mk l u] by blast
    qed
  next
    case False
    show ?thesis
    proof (cases "cb_cut f l")
      case None
      then show ?thesis using False Internal.prems(2) n(6,7) by simp
    next
      case (Some u)
      then have "t' = Internal y mk u r" using False Internal.prems(2) by simp
      moreover have "cb_wf u" "cb_keys u \<subseteq> cb_keys l"
        using Internal.IH(1)[OF n(6) Some] sub[OF n(6) Some] .
      ultimately show ?thesis using n cb_wf_nodeI[of y n mk u r] by blast
    qed
  qed
qed simp

text \<open>In terms of paths: the parent's slot receives the other child.\<close>

lemma cb_cut_path:
  "cb_cut f t =
     (if cb_trail f t = [] then None
      else Some (cb_store t (butlast (cb_trail f t)) (cb_slot t (butlast (cb_trail f t) @ [\<not> last (cb_trail f t)]))))"
proof (induction t)
  case (Internal y mk l r)
  then show ?case by (auto simp: Let_def split: if_splits)
qed simp

subsection \<open>Keys with a prefix\<close>

lemma prefix_kbit: "prefix k j \<Longrightarrow> n div 8 < length k \<Longrightarrow> kbit j n = kbit k n"
  by (auto simp: prefix_def kbit_def nth_append)

text \<open>Below a node that tests a bit of the prefix, one child holds all keys with the prefix.\<close>

lemma cb_prefix_child:
  assumes "cb_wf (Internal y mk l r)" "y < length k"
  shows "filter (\<lambda>e. prefix k (fst e)) (cb_list (Internal y mk l r)) =
         filter (\<lambda>e. prefix k (fst e)) (cb_list (if key_bits k y mk then r else l))"
proof -
  obtain n where n: "y = n div 8" "mk = cb_mask n" "\<forall>j\<in>cb_keys l. y < length j \<and> \<not> kbit j n"
    "\<forall>k\<in>cb_keys r. kbit k n" "\<forall>j\<in>cb_keys l. \<forall>k\<in>cb_keys r. agree n j k" "cb_wf l" "cb_wf r"
    using cb_wf_node[OF assms(1)] by blast
  have "\<not> prefix k j" if "j \<in> cb_keys (if kbit k n then l else r)" for j
    using that n(3,4) prefix_kbit[of k j n] assms(2) unfolding n(1) by (cases "kbit k n") (metis (full_types))+
  then have "filter (\<lambda>e. prefix k (fst e)) (cb_list (if key_bits k y mk then l else r)) = []"
    unfolding n(1,2) filter_empty_conv cb_keys_def key_bits_mask by blast
  then show ?thesis by auto
qed

text \<open>Below one that tests a later bit, all keys have the prefix or none has.\<close>

lemma cb_prefix_all:
  assumes "cb_wf (Internal y mk l r)" "length k \<le> y" "i \<in> cb_keys l \<union> cb_keys r" "j \<in> cb_keys l \<union> cb_keys r"
  shows "prefix k i \<longleftrightarrow> prefix k j"
proof -
  obtain n where n: "y = n div 8" "\<forall>j\<in>cb_keys l. \<forall>k\<in>cb_keys r. agree n j k"
    using cb_wf_node[OF assms(1)] by metis
  have "length k \<le> length i" "length k \<le> length j"
    using cb_wf_long[OF assms(1)] assms(2-4) by fastforce+
  then have "take (length k) i = take (length k) j"
    using agree_take[OF cb_wf_agree[OF n(2) assms(3,4)]] assms(2) n(1) by simp
  then show ?thesis by (metis append_eq_conv_conj prefix_def take_is_prefix)
qed

end
