(* ===== verification/Dictionary.thy ===== *)
theory Dictionary
  imports Prelude
begin

text \<open>
  The contract of the containers that map keys to values: what a lookup returns after an insertion or
  a deletion, and what the return codes say.  The crit-bit trees, the hash sets and the hash maps
  interpret the locales in their own theories, for the keys (\<open>univ\<close>) for which their code keeps the
  contract.  A client that runs a sequence of updates gets the map that the same updates of a
  mathematical map give, once and for all of them.
\<close>

datatype ('k, 'v) dict_op = Put 'k 'v | Del 'k

fun op_key :: "('k, 'v) dict_op \<Rightarrow> 'k" where
  "op_key (Put k v) = k"
| "op_key (Del k) = k"

fun map_step :: "('k, 'v) dict_op \<Rightarrow> ('k \<Rightarrow> 'v option) \<Rightarrow> ('k \<Rightarrow> 'v option)" where
  "map_step (Put k v) m = m(k := Some v)"
| "map_step (Del k) m = m(k := None)"

locale key_store =
  fixes inv :: "'s \<Rightarrow> bool"
    and view :: "'s \<Rightarrow> 'k \<Rightarrow> 'v option"
    and univ :: "'k set"
    and put :: "'s \<Rightarrow> 'k \<Rightarrow> 'v \<Rightarrow> (int \<times> 's) option"
    and get :: "'s \<Rightarrow> 'k \<Rightarrow> 'v option option"
    and fresh :: int
    and old :: int
  assumes get_law: "inv s \<Longrightarrow> k \<in> univ \<Longrightarrow> get s k = Some (view s k)"
    and put_law: "inv s \<Longrightarrow> k \<in> univ \<Longrightarrow>
      \<exists>s'. put s k v = Some (if view s k = None then fresh else old, s') \<and> inv s' \<and> view s' = (view s)(k := Some v)"
begin

fun puts :: "'s \<Rightarrow> ('k \<times> 'v) list \<Rightarrow> 's option" where
  "puts s [] = Some s"
| "puts s ((k, v) # kvs) = do { (_, s') \<leftarrow> put s k v; puts s' kvs }"

lemma puts_view:
  assumes "inv s" "fst ` set kvs \<subseteq> univ"
  shows "\<exists>s'. puts s kvs = Some s' \<and> inv s' \<and> view s' = fold (\<lambda>(k, v) m. m(k := Some v)) kvs (view s)"
  using assms
proof (induction kvs arbitrary: s)
  case (Cons e kvs)
  obtain k v where e: "e = (k, v)" by (cases e)
  obtain r s1 where "put s k v = Some (r, s1)" "inv s1" "view s1 = (view s)(k := Some v)"
    using put_law[of s k v] Cons.prems e by auto
  then show ?case using Cons.IH[of s1] Cons.prems(2) e by simp
qed simp

lemma get_after_put:
  assumes "inv s" "k \<in> univ" "j \<in> univ" "put s k v = Some (r, s')"
  shows "get s' j = Some (if j = k then Some v else view s j)"
  using put_law[OF assms(1,2), of v] assms(3,4) get_law[of s' j] by auto

end

locale dictionary = key_store inv view univ put get fresh old
  for inv :: "'s \<Rightarrow> bool" and view :: "'s \<Rightarrow> 'k \<Rightarrow> 'v option" and univ put get fresh old +
  fixes del :: "'s \<Rightarrow> 'k \<Rightarrow> (int \<times> 's) option"
    and found :: int
    and missing :: int
  assumes del_law: "inv s \<Longrightarrow> k \<in> univ \<Longrightarrow>
      \<exists>s'. del s k = Some (if view s k = None then missing else found, s') \<and> inv s' \<and> view s' = (view s)(k := None)"
begin

fun step :: "'s \<Rightarrow> ('k, 'v) dict_op \<Rightarrow> (int \<times> 's) option" where
  "step s (Put k v) = put s k v"
| "step s (Del k) = del s k"

fun run :: "'s \<Rightarrow> ('k, 'v) dict_op list \<Rightarrow> 's option" where
  "run s [] = Some s"
| "run s (x # xs) = do { (_, s') \<leftarrow> step s x; run s' xs }"

lemma step_refines:
  "inv s \<Longrightarrow> op_key x \<in> univ \<Longrightarrow> \<exists>r s'. step s x = Some (r, s') \<and> inv s' \<and> view s' = map_step x (view s)"
  using put_law del_law by (cases x) fastforce+

lemma run_refines:
  assumes "inv s" "\<forall>x\<in>set xs. op_key x \<in> univ"
  shows "\<exists>s'. run s xs = Some s' \<and> inv s' \<and> view s' = fold map_step xs (view s)"
  using assms
proof (induction xs arbitrary: s)
  case (Cons x xs)
  obtain r s1 where s1: "step s x = Some (r, s1)" "inv s1" "view s1 = map_step x (view s)"
    using step_refines[of s x] Cons.prems by auto
  show ?case using Cons.IH[OF s1(2)] Cons.prems(2) s1 by simp
qed simp

lemma get_after_run:
  assumes "inv s" "\<forall>x\<in>set xs. op_key x \<in> univ" "k \<in> univ"
  shows "\<exists>s'. run s xs = Some s' \<and> inv s' \<and> get s' k = Some (fold map_step xs (view s) k)"
  using run_refines[OF assms(1,2)] get_law[OF _ assms(3)] by force

end

end
