(* ===== verification/Cb.thy ===== *)
theory Cb
  imports Critbit Dictionary Strs
begin

text \<open>
  The operations of \<open>src/lib/cb\<close> on a crit-bit tree of keys: insertion, lookup, removal, the keys
  with a prefix, and the pairs of a string and a value that callers store as keys.  An external node
  is the key it holds: the length word in front of the key is the length of the list.

  \<open>cb_insert\<close> needs keys of which none is a prefix of another; callers that pass strings with
  their terminator satisfy this.  Without it the code reads beyond the shorter key.
\<close>

record critbit_tree =
  cb_root :: "unit critbit option"

definition CB_SUCCESS :: int where "CB_SUCCESS = 0"
definition CB_EXISTS :: int where "CB_EXISTS = 1"
definition CB_NOTFOUND :: int where "CB_NOTFOUND = 2"

definition make_external_node :: "allocator \<Rightarrow> byte list \<Rightarrow> nat \<Rightarrow> unit critbit option" where
  "make_external_node al key keylen =
     do { data \<leftarrow> malloc al (8 + keylen);
          if keylen = 0 then None
          else do { data \<leftarrow> byte_copy data 8 keylen key 0; Some (External (drop 8 data) ()) } }"

subsection \<open>Insertion\<close>

fun cb_insert_walk :: "byte list \<Rightarrow> nat \<Rightarrow> (nat \<times> byte) option \<Rightarrow> bool list \<Rightarrow> 'v critbit
    \<Rightarrow> ((nat \<times> byte) option \<times> bool list \<times> byte list) option" where
  "cb_insert_walk key keylen prev iter (External k v) = Some (prev, iter, k)"
| "cb_insert_walk key keylen prev iter (Internal y mk l r) =
     do { branch \<leftarrow> cb_turn key keylen y mk;
          cb_insert_walk key keylen (Some (y, mk)) (iter @ [branch]) (if branch then r else l) }"

text \<open>\<open>byte\<close> is an \<open>unsigned int\<close>, the lengths are \<open>size_t\<close>.\<close>

fun cb_common :: "nat \<Rightarrow> nat \<Rightarrow> uint32 \<Rightarrow> byte list \<Rightarrow> byte list
    \<Rightarrow> (uint32 \<times> byte list \<times> byte list) option" where
  "cb_common keylen len n (x # ikey) (y # iptr) =
     (if unat n < keylen \<and> unat n < len \<and> x = y then cb_common keylen len (n + 1) ikey iptr
      else Some (n, x # ikey, y # iptr))"
| "cb_common keylen len n ikey iptr =
     (if unat n < keylen \<and> unat n < len then None else Some (n, ikey, iptr))"

fun cb_insert_seek :: "byte list \<Rightarrow> nat \<times> byte \<Rightarrow> bool list \<Rightarrow> 'v critbit \<Rightarrow> bool list option" where
  "cb_insert_seek key node iter (External k v) = None"
| "cb_insert_seek key node iter (Internal y mk l r) =
     (if cb_less (y, mk) node then
        do { c \<leftarrow> rd key y;
             cb_insert_seek key node (iter @ [cb_branch mk c]) (if cb_branch mk c then r else l) }
      else Some iter)"

definition cb_insert :: "allocator \<Rightarrow> critbit_tree \<Rightarrow> byte list \<Rightarrow> nat \<Rightarrow> (int \<times> critbit_tree) option" where
  "cb_insert al cb key keylen =
     (case cb_root cb of
        None \<Rightarrow> do { n \<leftarrow> make_external_node al key keylen; Some (CB_SUCCESS, cb\<lparr>cb_root := Some n\<rparr>) }
      | Some t \<Rightarrow>
          do { (prev, iter, str) \<leftarrow> cb_insert_walk key keylen None [] t;
               (n, ikey, iptr) \<leftarrow> cb_common keylen (length str) 0 key str;
               if unat n = keylen \<and> unat n = length str then Some (CB_EXISTS, cb)
               else do {
                 _ \<leftarrow> malloc al 32;
                 x \<leftarrow> rd ikey 0;
                 y \<leftarrow> rd iptr 0;
                 let mk = cb_critmask x y;
                 let node = (unat n, mk);
                 iter \<leftarrow> (case prev of
                            None \<Rightarrow> Some iter
                          | Some p \<Rightarrow> if cb_less node p then cb_insert_seek key node [] t else Some iter);
                 let branch = cb_branch mk x;
                 e \<leftarrow> make_external_node al key keylen;
                 let old = cb_slot t iter;
                 let new = (if branch then Internal (unat n) mk old e else Internal (unat n) mk e old);
                 Some (CB_SUCCESS, cb\<lparr>cb_root := Some (cb_store t iter new)\<rparr>) } })"

subsection \<open>Lookup and removal\<close>

fun cb_find_walk :: "byte list \<Rightarrow> nat \<Rightarrow> 'v critbit \<Rightarrow> byte list option" where
  "cb_find_walk key keylen (External k v) = Some k"
| "cb_find_walk key keylen (Internal y mk l r) =
     do { branch \<leftarrow> cb_turn key keylen y mk; cb_find_walk key keylen (if branch then r else l) }"

definition cb_find :: "critbit_tree \<Rightarrow> byte list \<Rightarrow> nat \<Rightarrow> byte list option option" where
  "cb_find cb key keylen =
     (case cb_root cb of
        None \<Rightarrow> Some None
      | Some t \<Rightarrow>
          do { str \<leftarrow> cb_find_walk key keylen t;
               if length str \<ge> keylen then
                 do { d \<leftarrow> byte_diff key keylen str; Some (if d = 0 then Some str else None) }
               else Some None })"

text \<open>
  \<open>cb_erase\<close> keeps the slot of the last inner node (\<open>iter\<close>), that node's other child and the
  branch taken; \<open>here\<close> is the path of the slot \<open>ptr\<close> was read from.
\<close>

fun cb_erase_walk :: "byte list \<Rightarrow> nat \<Rightarrow> (bool list \<times> 'v critbit) option \<Rightarrow> bool list \<Rightarrow> 'v critbit
    \<Rightarrow> ((bool list \<times> 'v critbit) option \<times> byte list) option" where
  "cb_erase_walk key keylen up here (External k v) = Some (up, k)"
| "cb_erase_walk key keylen up here (Internal y mk l r) =
     do { branch \<leftarrow> cb_turn key keylen y mk;
          cb_erase_walk key keylen (Some (here, if branch then l else r)) (here @ [branch]) (if branch then r else l) }"

definition cb_erase :: "critbit_tree \<Rightarrow> byte list \<Rightarrow> nat \<Rightarrow> (int \<times> critbit_tree) option" where
  "cb_erase cb key keylen =
     (case cb_root cb of
        None \<Rightarrow> Some (CB_NOTFOUND, cb)
      | Some t \<Rightarrow>
          do { (up, str) \<leftarrow> cb_erase_walk key keylen None [] t;
               d \<leftarrow> (if length str = keylen then byte_diff key (length str) str else Some 1);
               if d = 0 then
                 Some (CB_SUCCESS, cb\<lparr>cb_root := (case up of
                                                  Some (iter, other) \<Rightarrow> Some (cb_store t iter other)
                                                | None \<Rightarrow> None)\<rparr>)
               else Some (CB_NOTFOUND, cb) })"

subsection \<open>Keys with a prefix\<close>

fun cb_top_walk :: "byte list \<Rightarrow> nat \<Rightarrow> 'v critbit \<Rightarrow> 'v critbit \<Rightarrow> 'v critbit option" where
  "cb_top_walk key keylen tp (External k v) = Some (External k v)"
| "cb_top_walk key keylen tp (Internal y mk l r) =
     (if keylen \<le> y then Some tp
      else do { c \<leftarrow> rd key y;
                cb_top_walk key keylen (Internal y mk l r) (if cb_branch mk c then r else l) })"

definition cb_find_top_i :: "critbit_tree \<Rightarrow> byte list \<Rightarrow> nat \<Rightarrow> unit critbit option option" where
  "cb_find_top_i cb key keylen =
     (case cb_root cb of None \<Rightarrow> Some None | Some t \<Rightarrow> map_option Some (cb_top_walk key keylen t t))"

definition cb_match :: "byte list \<Rightarrow> nat \<Rightarrow> byte list \<Rightarrow> bool option" where
  "cb_match key keylen str =
     (if length str \<ge> keylen then map_option (\<lambda>d. d = 0) (byte_diff key keylen str) else Some False)"

text \<open>The results stored so far are a list; its length is \<open>next\<close>.\<close>

fun cb_find_prefix_i :: "'v critbit \<Rightarrow> byte list \<Rightarrow> nat \<Rightarrow> int \<Rightarrow> byte list list \<times> int
    \<Rightarrow> (byte list list \<times> int) option" where
  "cb_find_prefix_i (External str v) key keylen numresults (results, offset) =
     (if int (length results) > numresults then None
      else if int (length results) = numresults then Some (results, offset)
      else do { hit \<leftarrow> cb_match key keylen str;
                Some (if hit then if offset > 0 then (results, offset - 1) else (results @ [str], offset)
                      else (results, offset)) })"
| "cb_find_prefix_i (Internal y mk l r) key keylen numresults (results, offset) =
     (if int (length results) > numresults then None
      else if int (length results) = numresults then Some (results, offset)
      else do { (results, offset) \<leftarrow> cb_find_prefix_i l key keylen numresults (results, offset);
                if numresults > int (length results) then cb_find_prefix_i r key keylen numresults (results, offset)
                else Some (results, offset) })"

definition cb_find_prefix :: "critbit_tree \<Rightarrow> byte list \<Rightarrow> nat \<Rightarrow> int \<Rightarrow> int \<Rightarrow> byte list list option" where
  "cb_find_prefix cb key keylen numresults offset =
     (if numresults > 0 then
        do { tp \<leftarrow> cb_find_top_i cb key keylen;
             case tp of
               None \<Rightarrow> Some []
             | Some t \<Rightarrow> map_option fst (cb_find_prefix_i t key keylen numresults ([], offset)) }
      else Some [])"

fun cb_foreach_i :: "'v critbit \<Rightarrow> byte list \<Rightarrow> nat \<Rightarrow> ('d \<Rightarrow> byte list \<Rightarrow> 'd \<times> int) \<Rightarrow> 'd \<Rightarrow> ('d \<times> int) option" where
  "cb_foreach_i (External m v) key keylen match_cb data =
     do { hit \<leftarrow> cb_match key keylen m; Some (if hit then match_cb data m else (data, 0)) }"
| "cb_foreach_i (Internal y mk l r) key keylen match_cb data =
     do { (data, result) \<leftarrow> cb_foreach_i l key keylen match_cb data;
          if result = 0 then cb_foreach_i r key keylen match_cb data else Some (data, result) }"

definition cb_foreach :: "critbit_tree \<Rightarrow> byte list \<Rightarrow> nat \<Rightarrow> ('d \<Rightarrow> byte list \<Rightarrow> 'd \<times> int) \<Rightarrow> 'd \<Rightarrow> ('d \<times> int) option" where
  "cb_foreach cb key keylen match_cb data =
     do { tp \<leftarrow> cb_find_top_i cb key keylen;
          case tp of None \<Rightarrow> Some (data, 0) | Some t \<Rightarrow> cb_foreach_i t key keylen match_cb data }"

subsection \<open>Clearing; pairs\<close>

text \<open>\<open>cb_free_node\<close> gives the number of blocks it frees.\<close>

fun cb_free_node :: "'v critbit \<Rightarrow> nat" where
  "cb_free_node (External k v) = 1"
| "cb_free_node (Internal y mk l r) = cb_free_node l + cb_free_node r + 1"

definition cb_clear :: "critbit_tree \<Rightarrow> nat \<times> critbit_tree" where
  "cb_clear cb = (case cb_root cb of None \<Rightarrow> (0, cb) | Some t \<Rightarrow> (cb_free_node t, cb\<lparr>cb_root := None\<rparr>))"

text \<open>\<open>same\<close> says that \<open>out\<close> is \<open>key\<close>.\<close>

definition cb_new_kv :: "byte list \<Rightarrow> nat \<Rightarrow> byte list \<Rightarrow> nat \<Rightarrow> bool \<Rightarrow> byte list \<Rightarrow> (nat \<times> byte list) option" where
  "cb_new_kv key keylen val len same out =
     do { m \<leftarrow> (if same then Some out else byte_copyr out 0 keylen key 0);
          m \<leftarrow> wr m keylen 0;
          m \<leftarrow> byte_copyr m (keylen + 1) len val 0;
          Some (len + keylen + 1, m) }"

definition cb_get_kv :: "byte list \<Rightarrow> byte list \<Rightarrow> nat \<Rightarrow> byte list option" where
  "cb_get_kv kv val len = do { n \<leftarrow> str_len kv; byte_copyr val 0 len kv (n + 1) }"

definition cb_get_kv_ex :: "byte list \<Rightarrow> nat option" where
  "cb_get_kv_ex kv = do { n \<leftarrow> str_len kv; Some (n + 1) }"

lemma unat_of_nat32: "n < 2 ^ 32 \<Longrightarrow> unat (of_nat n :: uint32) = n"
  by (simp add: unsigned_of_nat take_bit_nat_eq_self)

subsection \<open>The loops follow the bits of the key\<close>

lemma cb_turn_bits:
  "keylen \<le> length key \<Longrightarrow> cb_turn key keylen y mk = Some (key_bits (take keylen key) y mk)"
  by (auto simp: cb_turn_def key_bits_def)

lemma cb_insert_walk_eq:
  assumes "keylen \<le> length key"
  defines "f \<equiv> key_bits (take keylen key)"
  shows "cb_insert_walk key keylen prev iter t = Some (cb_prev f prev t, iter @ cb_trail f t, fst (cb_leaf_of f t))"
  unfolding f_def using assms(1)
  by (induction t arbitrary: prev iter) (auto simp: cb_turn_bits Let_def)

lemma cb_find_walk_eq:
  "keylen \<le> length key \<Longrightarrow> cb_find_walk key keylen t = Some (fst (cb_best (take keylen key) t))"
  by (induction t) (auto simp: cb_turn_bits)

lemma cb_erase_walk_eq:
  assumes "keylen \<le> length key"
  defines "f \<equiv> key_bits (take keylen key)"
  shows "cb_erase_walk key keylen up here t =
    Some (if cb_trail f t = [] then up
          else Some (here @ butlast (cb_trail f t), cb_slot t (butlast (cb_trail f t) @ [\<not> last (cb_trail f t)])),
          fst (cb_leaf_of f t))"
  unfolding f_def using assms(1)
  by (induction t arbitrary: up here) (auto simp: cb_turn_bits Let_def)

lemma cb_insert_seek_eq:
  assumes "fst node < keylen" "keylen \<le> length key"
  defines "f \<equiv> key_bits (take keylen key)"
  shows "cb_stops f node t \<Longrightarrow> cb_insert_seek key node iter t = Some (iter @ cb_stop f (fst node) (snd node) t)"
proof (induction t arbitrary: iter)
  case (Internal y mk l r)
  show ?case
  proof (cases "cb_less (y, mk) node")
    case True
    then have "y < keylen" using assms(1) by (auto simp: cb_less_def)
    then have "rd key y = Some (key ! y)" "cb_branch mk (key ! y) = f y mk"
      using assms(2) by (auto simp: f_def key_bits_def)
    then show ?thesis using True Internal by auto
  qed simp
qed simp

lemma cb_common_eq:
  fixes p k s r :: "byte list"
  assumes "length p + length k < 2 ^ 32"
  shows "cb_common (length p + length k) (length p + length s) (of_nat (length p)) (k @ r) s =
     (let i = length (longest_common_prefix k s)
      in Some (of_nat (length p + i), drop i (k @ r), drop i s))"
  using assms
proof (induction k s arbitrary: p rule: lcp_induct)
  case (both x xs y ys)
  have n: "unat (of_nat (length p) :: uint32) = length p"
    using both(2) by (simp add: unat_of_nat32)
  show ?case
  proof (cases "x = y")
    case True
    then show ?thesis using both(1)[OF True, of "p @ [x]"] both(2) n by (simp add: Let_def add.commute)
  next
    case False
    then show ?thesis using n by simp
  qed
next
  case (left s)
  have "unat (of_nat (length p) :: uint32) = length p" using left by (simp add: unat_of_nat32)
  then show ?case by (cases r; cases s) auto
next
  case (right k)
  have "unat (of_nat (length p) :: uint32) = length p" using right by (simp add: unat_of_nat32)
  then show ?case by (cases "k @ r") auto
qed

lemma make_external_node_eq:
  assumes "grants al" "0 < length k"
  shows "make_external_node al (k @ r) (length k) = Some (External k ())"
proof -
  obtain data where d: "malloc al (8 + length k) = Some data"
    using grants_malloc(1)[OF assms(1)] by blast
  then have "length data = 8 + length k" by (rule length_malloc)
  then show ?thesis using d assms(2) byte_copy_eq[of 8 "length k" data 0 "k @ r"]
    by (simp add: make_external_node_def splice_def)
qed

subsection \<open>The set of keys\<close>

definition cb_ok :: "critbit_tree \<Rightarrow> bool" where
  "cb_ok cb \<longleftrightarrow> (case cb_root cb of None \<Rightarrow> True | Some t \<Rightarrow> cb_wf t)"

definition cb_elems :: "critbit_tree \<Rightarrow> byte list list" where
  "cb_elems cb = map fst (cb_entries (cb_root cb))"

lemma cb_elems_Some: "cb_root cb = Some t \<Longrightarrow> set (cb_elems cb) = cb_keys t"
  by (simp add: cb_elems_def cb_keys_def)

definition related :: "byte list \<Rightarrow> byte list \<Rightarrow> bool" where
  "related j k \<longleftrightarrow> prefix j k \<or> prefix k j"

lemma cb_insert_present:
  assumes "cb_root cb = Some t" "cb_wf t" "k \<in> cb_keys t" "length k < 2 ^ 32"
  shows "cb_insert al cb (k @ r) (length k) = Some (CB_EXISTS, cb)"
proof -
  have lcp: "longest_common_prefix k k = k"
    using longest_common_prefix_max_prefix[of k k k] longest_common_prefix_prefix1[of k k]
    by (simp add: prefix_order.eq_iff)
  have "cb_common (length k) (length k) 0 (k @ r) k = Some (of_nat (length k), r, [])"
    using cb_common_eq[of "[]" k k r] assms(4) lcp by (simp add: Let_def)
  then show ?thesis
    using assms cb_best_found[OF assms(2,3)]
    by (simp add: cb_insert_def cb_insert_walk_eq unat_of_nat32)
qed

lemma cb_insert_iter:
  assumes "cb_wf t" "cb_splits k d (fst (cb_best k t))"
  shows "(case cb_prev (key_bits k) None t of None \<Rightarrow> Some (cb_trail (key_bits k) t)
      | Some p \<Rightarrow> if cb_less (d div 8, cb_mask d) p then cb_insert_seek (k @ r) (d div 8, cb_mask d) [] t
                  else Some (cb_trail (key_bits k) t)) =
    Some (cb_stop (key_bits k) (d div 8) (cb_mask d) t)"
proof (cases t)
  case (External x v)
  then show ?thesis by simp
next
  case (Internal y mk l r')
  let ?f = "key_bits k"
  obtain n where n: "y = n div 8" "mk = cb_mask n" using cb_wf_node assms(1) Internal by blast
  obtain m where m: "cb_prev ?f None t = Some (m div 8, cb_mask m)"
    using cb_prev_mono[of y mk l r' n ?f None] assms(1) n Internal by blast
  have len: "d div 8 < length k" using assms(2) by (simp add: cb_splits_def)
  show ?thesis
  proof (cases "d < m")
    case True
    have "cb_stops ?f (d div 8, cb_mask d) t" using cb_stops_early[OF assms(1) m True] Internal by simp
    then show ?thesis
      using cb_insert_seek_eq[of "(d div 8, cb_mask d)" "length k" "k @ r" t "[]"] len m True cb_less_pos[of d m]
      by simp
  next
    case False
    have "m \<noteq> d"
      using cb_prev_leaf[OF assms(1) m] assms(2) Internal by (auto simp: cb_splits_def)
    then have "cb_stop ?f (d div 8) (cb_mask d) t = cb_trail ?f t"
      using cb_stop_is_trail[OF assms(1), of ?f None m d] m False by simp
    then show ?thesis using m False cb_less_pos[of d m] by simp
  qed
qed

lemma cb_insert_absent:
  assumes "grants al" "cb_root cb = Some t" "cb_wf t" "0 < length k" "length k < 2 ^ 32"
    and apart: "\<forall>j\<in>cb_keys t. \<not> related j k"
  shows "\<exists>d. cb_splits k d (fst (cb_best k t)) \<and>
    cb_insert al cb (k @ r) (length k) = Some (CB_SUCCESS, cb\<lparr>cb_root := Some (cb_graft k () d t)\<rparr>)"
proof -
  let ?s = "fst (cb_best k t)" let ?i = "length (longest_common_prefix k ?s)"
  have ap: "\<not> prefix k ?s" "\<not> prefix ?s k"
    using apart cb_leaf_key[of "key_bits k" t] by (auto simp: related_def)
  obtain d where d: "d div 8 = ?i" "cb_critmask (k ! ?i) (?s ! ?i) = cb_mask d" "cb_splits k d ?s"
    using cb_split_at[OF lcp_apart(3,1,2,4)[OF ap]] .
  let ?y = "d div 8"
  have i: "?y < length k" "?y < length ?s" using d(3) by (simp_all add: cb_splits_def)
  have com: "cb_common (length k) (length ?s) 0 (k @ r) ?s = Some (of_nat ?y, drop ?y (k @ r), drop ?y ?s)"
    using cb_common_eq[of "[]" k ?s r] assms(5) by (simp add: Let_def d(1))
  have n: "unat (of_nat ?y :: uint32) = ?y" using i(1) assms(5) by (intro unat_of_nat32) simp
  have rds: "rd (drop ?y (k @ r)) 0 = Some (k ! ?y)" "rd (drop ?y ?s) 0 = Some (?s ! ?y)"
    using i by (simp_all add: rd_def nth_append)
  have mk: "cb_critmask (k ! ?y) (?s ! ?y) = cb_mask d" using d(1,2) by simp
  have br: "cb_branch (cb_mask d) (k ! ?y) = kbit k d"
    using i(1) by (simp add: cb_branch_mask kbit_def)
  obtain b32 where b32: "malloc al 32 = Some b32" using grants_malloc(1)[OF assms(1)] by blast
  have walk: "cb_insert_walk (k @ r) (length k) None [] t =
      Some (cb_prev (key_bits k) None t, cb_trail (key_bits k) t, ?s)"
    by (simp add: cb_insert_walk_eq)
  have "cb_insert al cb (k @ r) (length k) = Some (CB_SUCCESS, cb\<lparr>cb_root := Some (cb_graft k () d t)\<rparr>)"
    using i(1)
    unfolding cb_insert_def assms(2) option.case walk bind.bind_lunit prod.case com n b32 rds mk Let_def br
      cb_insert_iter[OF assms(3) d(3)] make_external_node_eq[OF assms(1,4)]
    by (simp add: cb_graft_def cb_join_def Let_def)
  then show ?thesis using d(3) by blast
qed

lemma cb_ok_sorted: "cb_ok cb \<Longrightarrow> sorted_wrt (<) (cb_elems cb)"
  by (cases "cb_root cb") (auto simp: cb_ok_def cb_elems_def cb_wf_sorted)

lemma cb_insert_effect:
  assumes "grants al" "cb_ok cb" "0 < length k" "length k < 2 ^ 32"
    and apart: "\<forall>j\<in>set (cb_elems cb). related j k \<longrightarrow> j = k"
  shows "\<exists>cb'. cb_insert al cb (k @ r) (length k) =
      Some (if k \<in> set (cb_elems cb) then CB_EXISTS else CB_SUCCESS, cb') \<and>
    cb_ok cb' \<and> set (cb_elems cb') = insert k (set (cb_elems cb))"
proof (cases "cb_root cb")
  case None
  then show ?thesis
    using make_external_node_eq[OF assms(1,3)] by (simp add: cb_insert_def cb_elems_def cb_ok_def)
next
  case (Some t)
  then have wf: "cb_wf t" and elems: "set (cb_elems cb) = cb_keys t"
    using assms(2) by (simp_all add: cb_ok_def cb_elems_Some)
  show ?thesis
  proof (cases "k \<in> cb_keys t")
    case True
    then show ?thesis
      using cb_insert_present[OF Some wf True assms(4)] assms(2) elems by (auto simp: insert_absorb)
  next
    case False
    then have "\<forall>j\<in>cb_keys t. \<not> related j k" using apart elems by auto
    then obtain d where d: "cb_splits k d (fst (cb_best k t))"
      "cb_insert al cb (k @ r) (length k) = Some (CB_SUCCESS, cb\<lparr>cb_root := Some (cb_graft k () d t)\<rparr>)"
      using cb_insert_absent[OF assms(1) Some wf assms(3,4)] by blast
    have "cb_wf (cb_graft k () d t)" "cb_keys (cb_graft k () d t) = insert k (cb_keys t)"
      using cb_graft_ok[OF wf d(1), of "()"] cb_keys_of[of "cb_graft k () d t" k "()" t] by simp_all
    then show ?thesis using d(2) False elems by (simp add: cb_ok_def cb_elems_Some)
  qed
qed

lemma byte_diff_zero:
  assumes "n \<le> length a" "n \<le> length b"
  shows "\<exists>d. byte_diff a n b = Some d \<and> (d = 0 \<longleftrightarrow> take n a = take n b)"
  using byte_diff_key[OF assms] by blast

lemma cb_match_iff: "keylen \<le> length key \<Longrightarrow> cb_match key keylen str = Some (prefix (take keylen key) str)"
proof (cases "keylen \<le> length str")
  case True
  assume "keylen \<le> length key"
  moreover from this have "take keylen key = take keylen str \<longleftrightarrow> prefix (take keylen key) str"
    using True by (metis append_eq_conv_conj length_take min.absorb2 prefix_def take_is_prefix)
  ultimately show ?thesis using True byte_diff_zero[of keylen key str] by (auto simp: cb_match_def)
next
  case False
  assume "keylen \<le> length key"
  then show ?thesis using False by (auto simp: cb_match_def dest: prefix_length_le)
qed

lemma cb_find_effect:
  assumes "cb_ok cb"
  shows "\<exists>r'. cb_find cb (k @ r) (length k) = Some r' \<and>
     (case r' of None \<Rightarrow> \<forall>j\<in>set (cb_elems cb). \<not> prefix k j
      | Some s \<Rightarrow> s \<in> set (cb_elems cb) \<and> prefix k s)"
proof (cases "cb_root cb")
  case None
  then show ?thesis by (simp add: cb_find_def cb_elems_def)
next
  case (Some t)
  let ?s = "fst (cb_best k t)"
  have wf: "cb_wf t" using assms Some by (simp add: cb_ok_def)
  have "cb_find cb (k @ r) (length k) = Some (if prefix k ?s then Some ?s else None)"
    using Some cb_match_iff[of "length k" "k @ r" ?s]
    by (auto simp: cb_find_def cb_find_walk_eq cb_match_def split: if_splits)
  then show ?thesis
    using cb_best_prefix[OF wf] cb_leaf_key[of "key_bits k" t] Some by (auto simp: cb_elems_Some)
qed

lemma fst_minus_unit: "fst ` (S - {(k, ())}) = fst ` S - {k}"
  by force

lemma cb_erase_effect:
  assumes "cb_ok cb"
  shows "\<exists>cb'. cb_erase cb (k @ r) (length k) =
      Some (if k \<in> set (cb_elems cb) then CB_SUCCESS else CB_NOTFOUND, cb') \<and>
    cb_ok cb' \<and> set (cb_elems cb') = set (cb_elems cb) - {k}"
proof (cases "cb_root cb")
  case None
  then show ?thesis by (simp add: cb_erase_def cb_elems_def cb_ok_def)
next
  case (Some t)
  let ?s = "fst (cb_best k t)" let ?f = "key_bits k" let ?p = "cb_trail ?f t"
  have wf: "cb_wf t" using assms Some by (simp add: cb_ok_def)
  have iff: "?s = k \<longleftrightarrow> k \<in> cb_keys t" using cb_best_found[OF wf] cb_leaf_key by metis
  let ?up = "if ?p = [] then None else Some (butlast ?p, cb_slot t (butlast ?p @ [\<not> last ?p]))"
  have walk: "cb_erase_walk (k @ r) (length k) None [] t = Some (?up, ?s)"
    by (simp add: cb_erase_walk_eq)
  obtain d where d: "(if length ?s = length k then byte_diff (k @ r) (length ?s) ?s else Some 1) = Some d"
      "d = 0 \<longleftrightarrow> ?s = k"
  proof (cases "length ?s = length k")
    case True
    then show thesis using that byte_diff_zero[of "length ?s" "k @ r" ?s] by auto
  next
    case False
    then have "?s \<noteq> k" by (intro notI) simp
    then show thesis using False that[of 1] by simp
  qed
  have cut: "(case ?up of Some (iter, u) \<Rightarrow> Some (cb_store t iter u) | None \<Rightarrow> None) = cb_cut ?f t"
    unfolding cb_cut_path by simp
  have "cb_erase cb (k @ r) (length k) =
      Some (if k \<in> cb_keys t then (CB_SUCCESS, cb\<lparr>cb_root := cb_cut ?f t\<rparr>) else (CB_NOTFOUND, cb))"
    unfolding cb_erase_def Some option.case(2) walk bind.bind_lunit prod.case d(1) cut using d(2) iff by simp
  moreover have "cb_ok (cb\<lparr>cb_root := cb_cut ?f t\<rparr>)"
    using cb_cut_wf[OF wf] by (cases "cb_cut ?f t") (auto simp: cb_ok_def)
  moreover have "set (cb_elems (cb\<lparr>cb_root := cb_cut ?f t\<rparr>)) = cb_keys t - {k}" if "k \<in> cb_keys t"
  proof -
    have "cb_best k t = (k, ())" using iff that by (cases "cb_best k t") simp
    then have "set (cb_entries (cb_cut ?f t)) = set (cb_list t) - {(k, ())}"
      using cb_cut_list[OF wf, of ?f] by simp
    then show ?thesis by (simp add: cb_elems_def cb_keys_def fst_minus_unit del: cb_cut.simps)
  qed
  ultimately show ?thesis
    using assms cb_elems_Some[OF Some] by (cases "k \<in> cb_keys t") simp_all
qed

subsection \<open>Listing by prefix\<close>

lemma cb_top_walk_eq:
  assumes "keylen \<le> length key" "cb_wf t"
  defines "k \<equiv> take keylen key"
  shows "\<exists>u. cb_top_walk key keylen tp t = Some u \<and>
    (u = tp \<or> filter (\<lambda>e. prefix k (fst e)) (cb_list u) = filter (\<lambda>e. prefix k (fst e)) (cb_list t))"
  using assms(2)
proof (induction t arbitrary: tp)
  case (Internal y mk l r)
  show ?case
  proof (cases "keylen \<le> y")
    case False
    let ?c = "if key_bits k y mk then r else l"
    have len: "length k = keylen" using assms(1) by (simp add: k_def)
    have "rd key y = Some (key ! y)" "cb_branch mk (key ! y) = key_bits k y mk"
      using False assms(1) by (auto simp: key_bits_def k_def)
    then have step: "cb_top_walk key keylen tp (Internal y mk l r) = cb_top_walk key keylen (Internal y mk l r) ?c"
      using False by simp
    have "cb_wf ?c" using Internal.prems by auto
    then obtain u where u: "cb_top_walk key keylen (Internal y mk l r) ?c = Some u"
        "u = Internal y mk l r \<or> filter (\<lambda>e. prefix k (fst e)) (cb_list u) = filter (\<lambda>e. prefix k (fst e)) (cb_list ?c)"
      using Internal.IH by (cases "key_bits k y mk") (simp_all, blast+)
    then show ?thesis
      using step cb_prefix_child[OF Internal.prems, of k] False len by auto
  qed simp
qed simp

lemma cb_find_top_eq:
  assumes "cb_ok cb"
  shows "\<exists>u. cb_find_top_i cb (k @ r) (length k) = Some u \<and>
    filter (prefix k) (map fst (cb_entries u)) = filter (prefix k) (cb_elems cb)"
proof (cases "cb_root cb")
  case (Some t)
  have "cb_wf t" using assms Some by (simp add: cb_ok_def)
  from cb_top_walk_eq[OF _ this, of "length k" "k @ r" t]
  obtain u where "cb_top_walk (k @ r) (length k) t t = Some u"
    "filter (\<lambda>e. prefix k (fst e)) (cb_list u) = filter (\<lambda>e. prefix k (fst e)) (cb_list t)" by auto
  then show ?thesis using Some by (simp add: cb_find_top_i_def cb_elems_def filter_map comp_def)
qed (simp add: cb_find_top_i_def cb_elems_def)

text \<open>What the collection makes of the keys with the prefix, in the order they are met.\<close>

fun collect :: "int \<Rightarrow> byte list list \<Rightarrow> byte list list \<times> int \<Rightarrow> byte list list \<times> int" where
  "collect num [] s = s"
| "collect num (x # xs) (res, off) =
     (if int (length res) = num then (res, off)
      else collect num xs (if off > 0 then (res, off - 1) else (res @ [x], off)))"

lemma collect_full: "int (length res) = num \<Longrightarrow> collect num xs (res, off) = (res, off)"
  by (cases xs) auto

lemma collect_append: "collect num (xs @ ys) s = collect num ys (collect num xs s)"
  by (induction num xs s rule: collect.induct) (auto simp: collect_full)

lemma collect_le: "int (length (fst s)) \<le> num \<Longrightarrow> int (length (fst (collect num xs s))) \<le> num"
  by (induction num xs s rule: collect.induct) auto

lemma collect_eq:
  "int (length res) \<le> num \<Longrightarrow> 0 \<le> off \<Longrightarrow>
   fst (collect num xs (res, off)) = res @ take (nat (num - int (length res))) (drop (nat off) xs)"
proof (induction xs arbitrary: res off)
  case (Cons x xs)
  show ?case
  proof (cases "int (length res) = num")
    case False
    then obtain m where m: "nat (num - int (length res)) = Suc m" "nat (num - (1 + int (length res))) = m"
      using Cons.prems(1) by (metis Suc_nat_eq_nat_zadd1 add.commute diff_add_cancel diff_diff_eq zle_diff1_eq
          add_increasing2 diff_ge_0_iff_ge nat_eq_iff le_add_same_cancel1 order_le_less zless_iff_Suc_zadd of_nat_Suc nat_int)
    show ?thesis
    proof (cases "off > 0")
      case True
      then have "nat off = Suc (nat (off - 1))" by simp
      then show ?thesis using Cons.IH[of res "off - 1"] Cons.prems(1) False True by simp
    next
      case F: False
      then have "off = 0" using Cons.prems(2) by simp
      then show ?thesis using Cons.IH[of "res @ [x]" 0] Cons.prems(1) False m by simp
    qed
  qed simp
qed simp

lemma cb_find_prefix_i_eq:
  assumes "keylen \<le> length key"
  shows "int (length (fst s)) \<le> num \<Longrightarrow> cb_find_prefix_i t key keylen num s =
    Some (collect num (filter (prefix (take keylen key)) (map fst (cb_list t))) s)"
proof (induction t arbitrary: s)
  case (External x v)
  then show ?case using assms by (cases s) (auto simp: cb_match_iff)
next
  case (Internal y mk l r)
  obtain res off where s: "s = (res, off)" by (cases s)
  let ?h = "\<lambda>t. filter (prefix (take keylen key)) (map fst (cb_list t))"
  obtain res1 off1 where c: "collect num (?h l) (res, off) = (res1, off1)" by (cases "collect num (?h l) (res, off)")
  have le: "int (length res1) \<le> num" using collect_le[of "(res, off)" num "?h l"] c Internal.prems s by simp
  have hits: "?h (Internal y mk l r) = ?h l @ ?h r" by simp
  have IH: "cb_find_prefix_i l key keylen num (res, off) = Some (res1, off1)"
      "cb_find_prefix_i r key keylen num (res1, off1) = Some (collect num (?h r) (res1, off1))"
    using Internal.IH(1)[of s] Internal.IH(2)[of "(res1, off1)"] Internal.prems s c le by simp_all
  show ?case
  proof (cases "int (length res) = num")
    case True
    then show ?thesis unfolding hits s by (simp add: collect_full)
  next
    case False
    then show ?thesis
      unfolding hits collect_append s c cb_find_prefix_i.simps IH
      using Internal.prems s IH(2) le by (auto simp: not_less collect_full)
  qed
qed

subsection \<open>Visiting by prefix\<close>

fun visit_until :: "('d \<Rightarrow> byte list \<Rightarrow> 'd \<times> int) \<Rightarrow> byte list list \<Rightarrow> 'd \<Rightarrow> 'd \<times> int" where
  "visit_until f [] d = (d, 0)"
| "visit_until f (x # xs) d = (let (d', r) = f d x in if r = 0 then visit_until f xs d' else (d', r))"

lemma visit_until_append:
  "visit_until f (xs @ ys) d =
     (let (d', r) = visit_until f xs d in if r = 0 then visit_until f ys d' else (d', r))"
  by (induction xs arbitrary: d) (auto split: prod.splits)

lemma cb_foreach_i_eq:
  "keylen \<le> length key \<Longrightarrow> cb_foreach_i t key keylen f d =
     Some (visit_until f (filter (prefix (take keylen key)) (map fst (cb_list t))) d)"
  by (induction t arbitrary: d) (auto simp: cb_match_iff visit_until_append split: prod.splits)

subsection \<open>Strings as keys\<close>

text \<open>Strings with their terminator: none is a prefix of another, so the tree is a dictionary of them.\<close>

definition str_keys :: "byte list set" where
  "str_keys = {w @ [0] | w. nonul w \<and> Suc (length w) < 2 ^ 32}"

lemma str_keys_iff: "k \<in> str_keys \<longleftrightarrow> k \<noteq> [] \<and> last k = 0 \<and> nonul (butlast k) \<and> length k < 2 ^ 32"
  by (cases k rule: rev_cases) (auto simp: str_keys_def)

lemma str_keys_apart: "j \<in> str_keys \<Longrightarrow> k \<in> str_keys \<Longrightarrow> prefix j k \<Longrightarrow> j = k"
proof -
  assume "j \<in> str_keys" "k \<in> str_keys" "prefix j k"
  then obtain v w r where eq: "j = v @ [0]" "k = w @ [0]" "nonul v" "nonul w" "w @ [0] = v @ [0] @ r"
    by (auto simp: str_keys_def prefix_def)
  then have "r = []" by (cases r rule: rev_cases) auto
  then show "j = k" using eq by simp
qed

definition cb_view :: "critbit_tree \<Rightarrow> byte list \<Rightarrow> unit option" where
  "cb_view cb k = (if k \<in> set (cb_elems cb) then Some () else None)"

definition cb_str_ok :: "critbit_tree \<Rightarrow> bool" where
  "cb_str_ok cb \<longleftrightarrow> cb_ok cb \<and> set (cb_elems cb) \<subseteq> str_keys"

definition cb_has :: "critbit_tree \<Rightarrow> byte list \<Rightarrow> unit option option" where
  "cb_has cb k = map_option (map_option (\<lambda>_. ())) (cb_find cb k (length k))"

lemma cb_insert_str:
  assumes "grants al" "cb_str_ok cb" "k \<in> str_keys"
  shows "\<exists>cb'. cb_insert al cb k (length k) = Some (if cb_view cb k = None then CB_SUCCESS else CB_EXISTS, cb') \<and>
    cb_str_ok cb' \<and> cb_view cb' = (cb_view cb)(k := Some ())"
proof -
  have "\<forall>j\<in>set (cb_elems cb). related j k \<longrightarrow> j = k"
    using assms(2,3) str_keys_apart unfolding cb_str_ok_def related_def by blast
  then obtain cb' where "cb_insert al cb (k @ []) (length k) =
      Some (if k \<in> set (cb_elems cb) then CB_EXISTS else CB_SUCCESS, cb')"
    "cb_ok cb'" "set (cb_elems cb') = insert k (set (cb_elems cb))"
    using cb_insert_effect[OF assms(1), of cb k "[]"] assms(2,3) unfolding cb_str_ok_def str_keys_iff by blast
  then show ?thesis
    using assms(2,3) by (auto simp: cb_view_def cb_str_ok_def fun_eq_iff)
qed

lemma cb_find_str:
  assumes "cb_str_ok cb" "k \<in> str_keys"
  shows "cb_has cb k = Some (cb_view cb k)"
proof -
  obtain r where r: "cb_find cb (k @ []) (length k) = Some r"
    "case r of None \<Rightarrow> \<forall>j\<in>set (cb_elems cb). \<not> prefix k j | Some s \<Rightarrow> s \<in> set (cb_elems cb) \<and> prefix k s"
    using cb_find_effect[of cb k "[]"] assms(1) unfolding cb_str_ok_def by blast
  have "r = None \<longleftrightarrow> k \<notin> set (cb_elems cb)"
  proof (cases r)
    case None
    then show ?thesis using r(2) by auto
  next
    case (Some s)
    then have "s \<in> set (cb_elems cb)" "prefix k s" using r(2) by simp_all
    then show ?thesis using assms str_keys_apart[of k s] Some unfolding cb_str_ok_def by auto
  qed
  then show ?thesis using r(1) by (auto simp: cb_has_def cb_view_def)
qed

lemma cb_erase_str:
  assumes "cb_str_ok cb"
  shows "\<exists>cb'. cb_erase cb k (length k) = Some (if cb_view cb k = None then CB_NOTFOUND else CB_SUCCESS, cb') \<and>
    cb_str_ok cb' \<and> cb_view cb' = (cb_view cb)(k := None)"
proof -
  obtain cb' where "cb_erase cb (k @ []) (length k) =
      Some (if k \<in> set (cb_elems cb) then CB_SUCCESS else CB_NOTFOUND, cb')"
    "cb_ok cb'" "set (cb_elems cb') = set (cb_elems cb) - {k}"
    using cb_erase_effect[of cb k "[]"] assms unfolding cb_str_ok_def by blast
  then show ?thesis using assms by (intro exI[of _ cb']) (auto simp: cb_view_def cb_str_ok_def fun_eq_iff)
qed

lemma cb_dictionary:
  assumes "grants al"
  shows "dictionary cb_str_ok cb_view str_keys (\<lambda>cb k (_ :: unit). cb_insert al cb k (length k)) cb_has
    CB_SUCCESS CB_EXISTS (\<lambda>cb k. cb_erase cb k (length k)) CB_SUCCESS CB_NOTFOUND"
proof
  fix s k and v :: unit
  assume s: "cb_str_ok s" "k \<in> str_keys"
  show "cb_has s k = Some (cb_view s k)" by (rule cb_find_str[OF s])
  show "\<exists>s'. cb_insert al s k (length k) = Some (if cb_view s k = None then CB_SUCCESS else CB_EXISTS, s') \<and>
      cb_str_ok s' \<and> cb_view s' = (cb_view s)(k := Some v)"
    using cb_insert_str[OF assms s] by simp
  show "\<exists>s'. cb_erase s k (length k) = Some (if cb_view s k = None then CB_NOTFOUND else CB_SUCCESS, s') \<and>
      cb_str_ok s' \<and> cb_view s' = (cb_view s)(k := None)"
    by (rule cb_erase_str[OF s(1)])
qed

interpretation cbd: dictionary cb_str_ok cb_view str_keys "\<lambda>cb k (_ :: unit). cb_insert plenty cb k (length k)" cb_has
  CB_SUCCESS CB_EXISTS "\<lambda>cb k. cb_erase cb k (length k)" CB_SUCCESS CB_NOTFOUND
  by (rule cb_dictionary) simp

text \<open>The pairs: the value stored behind a string is the value read back.\<close>

lemma cb_kv_round_trip:
  assumes "nonul key" "length key + 1 + length val \<le> length out" "length val \<le> length dst"
  shows "\<exists>kv. cb_new_kv (key @ r) (length key) (val @ r') (length val) False out =
       Some (length val + length key + 1, kv) \<and> kv = key @ [0] @ val @ drop (length key + 1 + length val) out \<and>
     cb_get_kv kv dst (length val) = Some (val @ drop (length val) dst) \<and> cb_get_kv_ex kv = Some (length key + 1)"
proof -
  let ?kv = "key @ [0] @ val @ drop (length key + 1 + length val) out"
  have "byte_copyr out 0 (length key) (key @ r) 0 = Some (key @ drop (length key) out)"
    using assms(2) byte_copyr_eq[of 0 "length key" out 0 "key @ r"] by (simp add: splice_def)
  moreover have "wr (key @ drop (length key) out) (length key) 0 = Some (key @ [0] @ drop (length key + 1) out)"
    using assms(2) Cons_nth_drop_Suc[of "length key" out] by (simp add: wr_def list_update_append)
      (metis list_update_code(2))
  moreover have "byte_copyr (key @ [0] @ drop (length key + 1) out) (length key + 1) (length val) (val @ r') 0 = Some ?kv"
    using assms(2) byte_copyr_eq[of "length key + 1" "length val" "key @ [0] @ drop (length key + 1) out" 0 "val @ r'"]
    by (simp add: splice_def add.commute)
  ultimately have new: "cb_new_kv (key @ r) (length key) (val @ r') (length val) False out =
      Some (length val + length key + 1, ?kv)"
    by (simp add: cb_new_kv_def)
  have len: "str_len ?kv = Some (length key)"
    using str_len_cstr[OF assms(1), of "val @ drop (length key + 1 + length val) out"] by (simp add: cstr_def)
  then have "cb_get_kv ?kv dst (length val) = Some (val @ drop (length val) dst)"
    using assms(3) byte_copyr_eq[of 0 "length val" dst "length key + 1" ?kv] by (simp add: cb_get_kv_def splice_def)
  then show ?thesis using new len by (simp add: cb_get_kv_ex_def)
qed

text \<open>The walk along an extension of a stored key ends at that key.\<close>

lemma cb_best_extension: "cb_wf t \<Longrightarrow> j \<in> cb_keys t \<Longrightarrow> prefix j k \<Longrightarrow> fst (cb_best k t) = j"
proof (induction t)
  case (Internal y mk l r)
  obtain n where n: "y = n div 8" "mk = cb_mask n" "\<forall>j\<in>cb_keys l. y < length j \<and> \<not> kbit j n"
    "\<forall>k\<in>cb_keys r. kbit k n" "\<forall>j\<in>cb_keys l. \<forall>k\<in>cb_keys r. agree n j k" "cb_wf l" "cb_wf r"
    using cb_wf_node[OF Internal.prems(1)] by blast
  have "y < length j" using cb_wf_long Internal.prems(1,2) by simp
  then have "kbit k n = kbit j n" using prefix_kbit[OF Internal.prems(3), of n] n(1) by simp
  then show ?case using Internal n by auto
qed simp

lemma cb_free_node_count: "cb_free_node t + 1 = 2 * length (cb_list t)"
  by (induction t) auto

subsection \<open>Claims\<close>

text \<open>
  C19. Inserting into a crit-bit tree: given memory and a key that neither extends a stored key nor is
  extended by one, \<open>cb_insert\<close> returns, reports whether the key was there, keeps the tree well
  formed and adds exactly that key.
\<close>

theorem cb_insert_exact:
  assumes "grants al" "cb_ok cb" "0 < length k" "length k < 2 ^ 32"
    and "\<forall>j\<in>set (cb_elems cb). related j k \<longrightarrow> j = k"
  shows "\<exists>cb'. cb_insert al cb (k @ r) (length k) =
      Some (if k \<in> set (cb_elems cb) then CB_EXISTS else CB_SUCCESS, cb') \<and>
    cb_ok cb' \<and> set (cb_elems cb') = insert k (set (cb_elems cb))"
  using assms by (rule cb_insert_effect)

definition cb_sample :: critbit_tree where
  "cb_sample = \<lparr>cb_root = Some (Internal 0 0xFE (External [96, 0] ()) (External [97, 0] ()))\<rparr>"

lemma cb_sample_ok: "cb_ok cb_sample" "cb_elems cb_sample = [[96, 0], [97, 0]]"
proof -
  have "agree 7 [96, 0] [97, 0] \<and> \<not> kbit [96, 0] 7 \<and> kbit [97, 0] 7 \<and> (0xFE :: byte) = cb_mask 7"
    unfolding agree_def by code_simp
  then show "cb_ok cb_sample" by (auto simp: cb_sample_def cb_ok_def intro!: exI[of _ 7])
qed (simp add: cb_sample_def cb_elems_def)

theorem cb_insert_exact_witness:
  "\<exists>cb'. cb_insert plenty cb_sample ([98, 0] @ []) (length [98, 0 :: byte]) =
      Some (if [98, 0] \<in> set (cb_elems cb_sample) then CB_EXISTS else CB_SUCCESS, cb') \<and>
    cb_ok cb' \<and> set (cb_elems cb') = insert [98, 0] (set (cb_elems cb_sample))"
  by (rule cb_insert_exact) (simp_all add: cb_sample_ok related_def)

text \<open>
  C12. Any sequence of insertions and removals of strings with their terminators gives the set that the same
  sequence gives mathematically, and a lookup afterwards answers as that set does.
\<close>

theorem cb_programs_refine:
  assumes "grants al" "cb_str_ok cb" "\<forall>x\<in>set xs. op_key x \<in> str_keys" "k \<in> str_keys"
  shows "\<exists>cb'. dictionary.run (\<lambda>cb k _. cb_insert al cb k (length k)) (\<lambda>cb k. cb_erase cb k (length k)) cb xs = Some cb' \<and>
    cb_str_ok cb' \<and> cb_has cb' k = Some (fold map_step xs (cb_view cb) k)"
  by (rule dictionary.get_after_run[OF cb_dictionary[OF assms(1)] assms(2-4)])

theorem cb_programs_refine_witness:
  "\<exists>cb'. dictionary.run (\<lambda>cb k _. cb_insert plenty cb k (length k)) (\<lambda>cb k. cb_erase cb k (length k))
      \<lparr>cb_root = None\<rparr> [Put [97, 0] (), Put [98, 0] (), Del [97, 0]] = Some cb' \<and>
    cb_str_ok cb' \<and>
    cb_has cb' [98, 0] = Some (fold map_step [Put [97, 0] (), Put [98, 0] (), Del [97, 0]] (cb_view \<lparr>cb_root = None\<rparr>) [98, 0])"
  by (rule cb_programs_refine) (simp_all add: cb_str_ok_def cb_ok_def cb_elems_def str_keys_iff)

text \<open>
  Lookup: \<open>cb_find\<close> returns a stored key that begins with the key asked for, and NULL exactly when
  there is none.
\<close>

theorem cb_find_exact:
  assumes "cb_ok cb"
  shows "\<exists>r'. cb_find cb (k @ r) (length k) = Some r' \<and>
     (case r' of None \<Rightarrow> \<forall>j\<in>set (cb_elems cb). \<not> prefix k j
      | Some s \<Rightarrow> s \<in> set (cb_elems cb) \<and> prefix k s)"
  using assms by (rule cb_find_effect)

theorem cb_find_exact_witness:
  "\<exists>r'. cb_find cb_sample ([97] @ []) (length [97 :: byte]) = Some r' \<and>
     (case r' of None \<Rightarrow> \<forall>j\<in>set (cb_elems cb_sample). \<not> prefix [97] j
      | Some s \<Rightarrow> s \<in> set (cb_elems cb_sample) \<and> prefix [97] s)"
  by (rule cb_find_exact) (rule cb_sample_ok)

text \<open>
  C20. Listing: the keys of the tree are in increasing byte order, and \<open>cb_find_prefix\<close> gives those with
  the prefix in that order, from number \<open>offset\<close> on and at most \<open>numresults\<close>.
\<close>

theorem cb_find_prefix_lists:
  assumes "cb_ok cb" "0 \<le> offset"
  shows "sorted_wrt (<) (cb_elems cb) \<and>
    cb_find_prefix cb (k @ r) (length k) numresults offset =
      Some (take (nat numresults) (drop (nat offset) (filter (prefix k) (cb_elems cb))))"
proof
  show "sorted_wrt (<) (cb_elems cb)" using assms(1) by (rule cb_ok_sorted)
  obtain u where u: "cb_find_top_i cb (k @ r) (length k) = Some u"
    "filter (prefix k) (map fst (cb_entries u)) = filter (prefix k) (cb_elems cb)"
    using cb_find_top_eq[OF assms(1)] by blast
  show "cb_find_prefix cb (k @ r) (length k) numresults offset =
      Some (take (nat numresults) (drop (nat offset) (filter (prefix k) (cb_elems cb))))"
  proof (cases u)
    case None
    then show ?thesis using u(1) by (simp add: cb_find_prefix_def flip: u(2))
  next
    case (Some t)
    then show ?thesis
      using u cb_find_prefix_i_eq[of "length k" "k @ r" "([], offset)" numresults t]
        collect_eq[of "[]" numresults offset "filter (prefix k) (map fst (cb_list t))"] assms(2)
      by (simp add: cb_find_prefix_def)
  qed
qed

theorem cb_find_prefix_lists_witness:
  "sorted_wrt (<) (cb_elems cb_sample) \<and>
    cb_find_prefix cb_sample ([] @ []) (length ([] :: byte list)) 10 1 =
      Some (take (nat 10) (drop (nat 1) (filter (prefix []) (cb_elems cb_sample))))"
  by (rule cb_find_prefix_lists) (simp_all add: cb_sample_ok)

text \<open>
  Visiting: \<open>cb_foreach\<close> calls the function on the keys with the prefix, in order, until it returns
  something other than 0, and returns that.
\<close>

theorem cb_foreach_visits:
  assumes "cb_ok cb"
  shows "cb_foreach cb (k @ r) (length k) f d = Some (visit_until f (filter (prefix k) (cb_elems cb)) d)"
proof -
  obtain u where u: "cb_find_top_i cb (k @ r) (length k) = Some u"
    "filter (prefix k) (map fst (cb_entries u)) = filter (prefix k) (cb_elems cb)"
    using cb_find_top_eq[OF assms] by blast
  show ?thesis
  proof (cases u)
    case None
    then show ?thesis using u(1) by (simp add: cb_foreach_def flip: u(2))
  next
    case (Some t)
    then show ?thesis
      using u cb_foreach_i_eq[of "length k" "k @ r" t f d] by (simp add: cb_foreach_def)
  qed
qed

theorem cb_foreach_visits_witness:
  "cb_foreach cb_sample ([97] @ []) (length [97 :: byte]) (\<lambda>n s. (n + length s, 0)) 0 =
     Some (visit_until (\<lambda>n s. (n + length s, 0)) (filter (prefix [97]) (cb_elems cb_sample)) 0)"
  by (rule cb_foreach_visits) (rule cb_sample_ok)

text \<open>
  A key that extends a stored one cannot be inserted: the code compares the byte behind the stored
  key, which is outside its block.
\<close>

theorem cb_insert_extension_overreads:
  assumes "cb_ok cb" "j \<in> set (cb_elems cb)" "prefix j k" "j \<noteq> k" "length k < 2 ^ 32"
  shows "cb_insert al cb (k @ r) (length k) = None"
proof -
  obtain t where t: "cb_root cb = Some t" using assms(2) by (cases "cb_root cb") (auto simp: cb_elems_def)
  then have wf: "cb_wf t" and best: "fst (cb_best k t) = j"
    using assms cb_best_extension[of t j k] by (auto simp: cb_ok_def cb_elems_Some)
  have "longest_common_prefix k j = j"
    using longest_common_prefix_max_prefix[of j k j] longest_common_prefix_prefix2[of k j] assms(3)
    by (simp add: prefix_order.eq_iff)
  then have com: "cb_common (length k) (length j) 0 (k @ r) j = Some (of_nat (length j), drop (length j) (k @ r), [])"
    using cb_common_eq[of "[]" k j r] assms(5) by (simp add: Let_def)
  have "length j < length k" using assms(3,4) by (auto simp: prefix_def)
  then show ?thesis
    using assms(5) t by (simp add: cb_insert_def cb_insert_walk_eq best com unat_of_nat32 Option.bind_eq_None_conv)
qed

theorem cb_insert_extension_overreads_witness:
  "cb_insert plenty cb_sample ([97, 0, 1] @ []) (length [97, 0, 1 :: byte]) = None"
  by (rule cb_insert_extension_overreads[of _ "[97, 0]"]) (simp_all add: cb_sample_ok)

end
