(* ===== verification/Cbmap.thy ===== *)
theory Cbmap
  imports Cb
begin

text \<open>
  The map of \<open>src/lib/cbmap\<close>: a second crit-bit tree, whose data nodes hold a key and a value and
  which counts its entries.  Allocation may fail in every operation that needs it; a function that
  returns a pointer gives \<open>Some None\<close> for NULL.  The model is of maps made by \<open>cbmap_new\<close>, whose
  keys and values are copies.

  As for \<open>cb\<close>, no key may be a proper prefix of another; here a key that is extended by a stored
  one is taken for it and replaces its value, and one that extends a stored key is compared beyond its
  end.
\<close>

record cbmap =
  cm_root :: "byte list critbit option"
  cm_count :: uint64

definition INSERT_OUT_OF_MEMORY :: int where "INSERT_OUT_OF_MEMORY = 0"
definition INSERT_OK :: int where "INSERT_OK = 1"
definition INSERT_UPDATED :: int where "INSERT_UPDATED = 2"
definition NOT_FOUND :: int where "NOT_FOUND = 0"
definition FOUND :: int where "FOUND = 1"

definition cbmap_new :: "allocator \<Rightarrow> cbmap option" where
  "cbmap_new al = map_option (\<lambda>_. \<lparr>cm_root = None, cm_count = 0\<rparr>) (malloc al 48)"

definition cbmap_count :: "cbmap \<Rightarrow> uint64" where
  "cbmap_count map' = cm_count map'"

definition cbmap_default_allocator :: "allocator \<Rightarrow> byte list \<Rightarrow> nat \<Rightarrow> byte list option option" where
  "cbmap_default_allocator al data data_len =
     (case malloc al data_len of
        None \<Rightarrow> Some None
      | Some data_copy \<Rightarrow> map_option Some (byte_copy data_copy 0 data_len data 0))"

definition cbmap_data_node_new :: "allocator \<Rightarrow> byte list \<Rightarrow> nat \<Rightarrow> byte list \<Rightarrow> nat
    \<Rightarrow> byte list critbit option option" where
  "cbmap_data_node_new al key key_len val val_len =
     (case malloc al 32 of
        None \<Rightarrow> Some None
      | Some _ \<Rightarrow>
          do { v \<leftarrow> cbmap_default_allocator al val val_len;
               case v of
                 None \<Rightarrow> Some None
               | Some v \<Rightarrow>
                   do { k \<leftarrow> cbmap_default_allocator al key key_len;
                        Some (map_option (\<lambda>k. External k v) k) } })"

definition cbmap_internal_node_new :: "allocator \<Rightarrow> unit option" where
  "cbmap_internal_node_new al = map_option (\<lambda>_. ()) (malloc al 24)"

subsection \<open>Lookup\<close>

definition cbmap_turn :: "byte list \<Rightarrow> nat \<Rightarrow> nat \<Rightarrow> byte \<Rightarrow> bool option" where
  "cbmap_turn key key_len y otherbits =
     do { c \<leftarrow> (if y < key_len then rd key y else Some 0); Some (cb_branch otherbits c) }"

fun cbmap_walk :: "byte list \<Rightarrow> nat \<Rightarrow> 'v critbit \<Rightarrow> (byte list \<times> 'v) option" where
  "cbmap_walk key key_len (External k v) = Some (k, v)"
| "cbmap_walk key key_len (Internal y mk l r) =
     do { direction \<leftarrow> cbmap_turn key key_len y mk; cbmap_walk key key_len (if direction then r else l) }"

definition cbmap_get :: "cbmap \<Rightarrow> byte list \<Rightarrow> nat \<Rightarrow> byte list option option" where
  "cbmap_get map' key key_len =
     (case cm_root map' of
        None \<Rightarrow> Some None
      | Some p \<Rightarrow>
          do { (k, v) \<leftarrow> cbmap_walk key key_len p;
               if length k = key_len then
                 do { d \<leftarrow> byte_diff k key_len key; Some (if d = 0 then Some v else None) }
               else Some None })"

subsection \<open>Insertion\<close>

text \<open>
  The first byte in which the two keys differ; \<open>newbyte\<close> is an \<open>unsigned int\<close>, so that the loop
  over a key of \<open>2\<^sup>3\<^sup>2\<close> bytes or more that finds no difference starts again and never ends.
\<close>

primrec cbmap_differ :: "byte list \<Rightarrow> byte list \<Rightarrow> nat \<Rightarrow> nat \<Rightarrow> nat option option" where
  "cbmap_differ dkey key newbyte 0 = Some None"
| "cbmap_differ dkey key newbyte (Suc n) =
     do { a \<leftarrow> rd dkey newbyte; b \<leftarrow> rd key newbyte;
          if a \<noteq> b then Some (Some newbyte) else cbmap_differ dkey key (Suc newbyte) n }"

definition cbmap_newbyte :: "byte list \<Rightarrow> byte list \<Rightarrow> nat \<Rightarrow> nat option option" where
  "cbmap_newbyte dkey key key_len =
     do { r \<leftarrow> cbmap_differ dkey key 0 (min key_len (2 ^ 32));
          if r = None \<and> key_len \<ge> 2 ^ 32 then None else Some r }"

definition cbmap_data_node_update_value :: "allocator \<Rightarrow> byte list \<Rightarrow> byte list \<Rightarrow> nat \<Rightarrow> byte list option option" where
  "cbmap_data_node_update_value al old val val_len =
     do { d \<leftarrow> (if length old = val_len then byte_diff old val_len val else Some 1);
          if d = 0 then Some (Some old) else cbmap_default_allocator al val val_len }"

fun cbmap_trail :: "byte list \<Rightarrow> nat \<Rightarrow> 'v critbit \<Rightarrow> bool list option" where
  "cbmap_trail key key_len (External k v) = Some []"
| "cbmap_trail key key_len (Internal y mk l r) =
     do { direction \<leftarrow> cbmap_turn key key_len y mk;
          map_option ((#) direction) (cbmap_trail key key_len (if direction then r else l)) }"

fun cbmap_seek :: "byte list \<Rightarrow> nat \<Rightarrow> nat \<Rightarrow> byte \<Rightarrow> 'v critbit \<Rightarrow> bool list option" where
  "cbmap_seek key key_len newbyte newotherbits (External k v) = Some []"
| "cbmap_seek key key_len newbyte newotherbits (Internal y mk l r) =
     (if y > newbyte then Some []
      else if y = newbyte \<and> mk > newotherbits then Some []
      else do { direction \<leftarrow> cbmap_turn key key_len y mk;
                map_option ((#) direction) (cbmap_seek key key_len newbyte newotherbits (if direction then r else l)) })"

definition cbmap_insert :: "allocator \<Rightarrow> cbmap \<Rightarrow> byte list \<Rightarrow> nat \<Rightarrow> byte list \<Rightarrow> nat \<Rightarrow> (int \<times> cbmap) option" where
  "cbmap_insert al map' key key_len val val_len =
     (case cm_root map' of
        None \<Rightarrow>
          do { data \<leftarrow> cbmap_data_node_new al key key_len val val_len;
               Some (case data of
                       None \<Rightarrow> (INSERT_OUT_OF_MEMORY, map')
                     | Some e \<Rightarrow> (INSERT_OK, \<lparr>cm_root = Some e, cm_count = cm_count map' + 1\<rparr>)) }
      | Some t \<Rightarrow>
          do { (dkey, dvalue) \<leftarrow> cbmap_walk key key_len t;
               differ \<leftarrow> cbmap_newbyte dkey key key_len;
               case differ of
                 None \<Rightarrow>
                   do { result \<leftarrow> cbmap_data_node_update_value al dvalue val val_len;
                        here \<leftarrow> cbmap_trail key key_len t;
                        Some (case result of
                                None \<Rightarrow> (INSERT_OUT_OF_MEMORY, map')
                              | Some v \<Rightarrow> (INSERT_UPDATED, map'\<lparr>cm_root := Some (cb_store t here (External dkey v))\<rparr>)) }
               | Some newbyte \<Rightarrow>
                   do { c \<leftarrow> rd dkey newbyte;
                        b \<leftarrow> rd key newbyte;
                        let newotherbits = cb_critmask c b;
                        let newdirection = cb_branch newotherbits c;
                        case cbmap_internal_node_new al of
                          None \<Rightarrow> Some (INSERT_OUT_OF_MEMORY, map')
                        | Some _ \<Rightarrow>
                            do { newdata \<leftarrow> cbmap_data_node_new al key key_len val val_len;
                                 case newdata of
                                   None \<Rightarrow> Some (INSERT_OUT_OF_MEMORY, map')
                                 | Some e \<Rightarrow>
                                     do { at \<leftarrow> cbmap_seek key key_len newbyte newotherbits t;
                                          let old = cb_slot t at;
                                          let newnode = (if newdirection then Internal newbyte newotherbits e old
                                                         else Internal newbyte newotherbits old e);
                                          Some (INSERT_OK, \<lparr>cm_root = Some (cb_store t at newnode),
                                                            cm_count = cm_count map' + 1\<rparr>) } } } })"

subsection \<open>Removal\<close>

fun cbmap_delete_walk :: "byte list \<Rightarrow> nat \<Rightarrow> (bool list \<times> 'v critbit) option \<Rightarrow> bool list \<Rightarrow> 'v critbit
    \<Rightarrow> ((bool list \<times> 'v critbit) option \<times> byte list) option" where
  "cbmap_delete_walk key key_len whereq wherep (External k v) = Some (whereq, k)"
| "cbmap_delete_walk key key_len whereq wherep (Internal y mk l r) =
     do { direction \<leftarrow> cbmap_turn key key_len y mk;
          cbmap_delete_walk key key_len (Some (wherep, if direction then l else r)) (wherep @ [direction])
            (if direction then r else l) }"

definition cbmap_delete :: "cbmap \<Rightarrow> byte list \<Rightarrow> nat \<Rightarrow> (int \<times> cbmap) option" where
  "cbmap_delete map' key key_len =
     (case cm_root map' of
        None \<Rightarrow> Some (0, map')
      | Some t \<Rightarrow>
          do { (whereq, k) \<leftarrow> cbmap_delete_walk key key_len None [] t;
               d \<leftarrow> (if length k \<noteq> key_len then Some 1 else byte_diff k key_len key);
               if d \<noteq> 0 then Some (NOT_FOUND, map')
               else Some (FOUND, \<lparr>cm_root = (case whereq of None \<Rightarrow> None | Some (at, other) \<Rightarrow> Some (cb_store t at other)),
                                  cm_count = cm_count map' - 1\<rparr>) })"

fun cbmap_recursive_delete :: "'v critbit \<Rightarrow> nat" where
  "cbmap_recursive_delete (External k v) = 3"
| "cbmap_recursive_delete (Internal y mk l r) = cbmap_recursive_delete l + cbmap_recursive_delete r + 1"

definition cbmap_destroy :: "cbmap option \<Rightarrow> nat \<times> cbmap option" where
  "cbmap_destroy map' =
     (case map' of
        None \<Rightarrow> (0, None)
      | Some m \<Rightarrow> ((case cm_root m of None \<Rightarrow> 0 | Some t \<Rightarrow> cbmap_recursive_delete t) + 1, None))"

subsection \<open>Visiting\<close>

text \<open>The visitor is a function on its own state; it returns 1 to go on.\<close>

fun cbmap_visit :: "'v critbit \<Rightarrow> ('d \<Rightarrow> byte list \<Rightarrow> 'v \<Rightarrow> 'd \<times> int) \<Rightarrow> 'd \<Rightarrow> 'd \<times> int" where
  "cbmap_visit (External k v) visitor_fn d = visitor_fn d k v"
| "cbmap_visit (Internal y mk l r) visitor_fn d =
     (let (d, r1) = cbmap_visit l visitor_fn d
      in if r1 \<noteq> 1 then (d, 0)
         else let (d, r2) = cbmap_visit r visitor_fn d in if r2 \<noteq> 1 then (d, 0) else (d, 1))"

fun cbmap_top_walk :: "byte list \<Rightarrow> nat \<Rightarrow> 'v critbit \<Rightarrow> 'v critbit \<Rightarrow> ('v critbit \<times> byte list) option" where
  "cbmap_top_walk key n tp (External k v) = Some (tp, k)"
| "cbmap_top_walk key n tp (Internal y mk l r) =
     do { direction \<leftarrow> cbmap_turn key n y mk;
          let p = (if direction then r else l);
          cbmap_top_walk key n (if y < n then p else tp) p }"

primrec cbmap_same :: "byte list \<Rightarrow> byte list \<Rightarrow> nat \<Rightarrow> nat \<Rightarrow> bool option" where
  "cbmap_same dkey key i 0 = Some True"
| "cbmap_same dkey key i (Suc n) =
     do { a \<leftarrow> rd dkey i; b \<leftarrow> rd key i; if a \<noteq> b then Some False else cbmap_same dkey key (Suc i) n }"

definition cbmap_visit_prefix :: "cbmap \<Rightarrow> byte list \<Rightarrow> nat \<Rightarrow> ('d \<Rightarrow> byte list \<Rightarrow> byte list \<Rightarrow> 'd \<times> int) \<Rightarrow> 'd
    \<Rightarrow> ('d \<times> int) option" where
  "cbmap_visit_prefix map' key_prefix key_prefix_len visitor_fn d =
     (case cm_root map' of
        None \<Rightarrow> Some (d, 1)
      | Some t \<Rightarrow>
          do { (tp, k) \<leftarrow> cbmap_top_walk key_prefix key_prefix_len t t;
               same \<leftarrow> cbmap_same k key_prefix 0 key_prefix_len;
               Some (if same then cbmap_visit tp visitor_fn d else (d, 1)) })"

definition cbmap_visit_all :: "cbmap \<Rightarrow> ('d \<Rightarrow> byte list \<Rightarrow> byte list \<Rightarrow> 'd \<times> int) \<Rightarrow> 'd \<Rightarrow> ('d \<times> int) option" where
  "cbmap_visit_all map' visitor_fn d = cbmap_visit_prefix map' [0] 0 visitor_fn d"

subsection \<open>The loops follow the bits of the key\<close>

lemma cbmap_turn_bits:
  assumes "keylen \<le> length key" "mk = cb_mask n"
  shows "cbmap_turn key keylen y mk = Some (key_bits (take keylen key) y mk)"
  using assms by (auto simp: cbmap_turn_def key_bits_def cb_branch_mask)

lemma cb_wf_childI: "cb_wf (Internal y mk l r) \<Longrightarrow> cb_wf (if b then r else l)"
  by auto

lemma cb_wf_children: "cb_wf (Internal y mk l r) \<Longrightarrow> cb_wf l \<and> cb_wf r"
  by auto

lemma cbmap_turn_wf:
  "keylen \<le> length key \<Longrightarrow> cb_wf (Internal y mk l r) \<Longrightarrow>
     cbmap_turn key keylen y mk = Some (key_bits (take keylen key) y mk)"
  using cbmap_turn_bits cb_wf_node by metis

lemma cbmap_walk_eq:
  "keylen \<le> length key \<Longrightarrow> cb_wf t \<Longrightarrow> cbmap_walk key keylen t = Some (cb_best (take keylen key) t)"
proof (induction t)
  case (Internal y mk l r)
  then show ?case using cb_wf_children[OF Internal.prems(2)] by (auto simp: cbmap_turn_wf simp del: cb_wf.simps)
qed simp

lemma cbmap_trail_eq:
  "keylen \<le> length key \<Longrightarrow> cb_wf t \<Longrightarrow> cbmap_trail key keylen t = Some (cb_trail (key_bits (take keylen key)) t)"
proof (induction t)
  case (Internal y mk l r)
  then show ?case using cb_wf_children[OF Internal.prems(2)] by (auto simp: cbmap_turn_wf Let_def simp del: cb_wf.simps)
qed simp

lemma cbmap_delete_walk_eq:
  assumes "keylen \<le> length key"
  defines "f \<equiv> key_bits (take keylen key)"
  shows "cb_wf t \<Longrightarrow> cbmap_delete_walk key keylen up here t =
    Some (if cb_trail f t = [] then up
          else Some (here @ butlast (cb_trail f t), cb_slot t (butlast (cb_trail f t) @ [\<not> last (cb_trail f t)])),
          fst (cb_leaf_of f t))"
proof (induction t arbitrary: up here)
  case (Internal y mk l r)
  have "cbmap_turn key keylen y mk = Some (f y mk)"
    unfolding f_def using assms(1) Internal.prems by (rule cbmap_turn_wf)
  moreover have "cb_wf (if f y mk then r else l)" using Internal.prems by (rule cb_wf_childI)
  ultimately show ?case using Internal.IH by (auto simp: Let_def)
qed simp

lemma cb_splits_ne:
  assumes "cb_wf (Internal y mk l r)" "y = n div 8" "mk = cb_mask n" "cb_splits k d (fst (cb_best k (Internal y mk l r)))"
  shows "n \<noteq> d"
proof -
  let ?c = "if kbit k n then r else l"
  obtain n' where n': "y = n' div 8" "mk = cb_mask n'" "\<forall>j\<in>cb_keys l. \<not> kbit j n'" "\<forall>k\<in>cb_keys r. kbit k n'"
    using cb_wf_node[OF assms(1)] by metis
  then have "n' = n" using assms(2,3) cb_mask_inj by blast
  moreover have "fst (cb_best k (Internal y mk l r)) \<in> cb_keys ?c"
    using cb_leaf_key[of "key_bits k" ?c] assms(2,3) by simp
  ultimately have "kbit (fst (cb_best k (Internal y mk l r))) n = kbit k n"
    using n'(3,4) by (cases "kbit k n") auto
  then show ?thesis using assms(4) by (auto simp: cb_splits_def)
qed

lemma cbmap_seek_eq:
  assumes "keylen \<le> length key"
  defines "k \<equiv> take keylen key"
  shows "cb_wf t \<Longrightarrow> cb_splits k d (fst (cb_best k t)) \<Longrightarrow>
    cbmap_seek key keylen (d div 8) (cb_mask d) t = Some (cb_stop (key_bits k) (d div 8) (cb_mask d) t)"
proof (induction t)
  case (Internal y mk l r)
  obtain n where n: "y = n div 8" "mk = cb_mask n" using cb_wf_node[OF Internal.prems(1)] by blast
  have ne: "n \<noteq> d" by (rule cb_splits_ne[OF Internal.prems(1) n Internal.prems(2)])
  have test: "y > d div 8 \<or> y = d div 8 \<and> mk > cb_mask d \<longleftrightarrow> d < n"
    using cb_less_pos[of d n] n by (auto simp: cb_less_def)
  have turn: "cbmap_turn key keylen y mk = Some (key_bits k y mk)"
    unfolding k_def using assms(1) Internal.prems(1) by (rule cbmap_turn_wf)
  show ?case
  proof (cases "d < n")
    case True
    then have "\<not> cb_less (y, mk) (d div 8, cb_mask d)" using n cb_less_pos[of n d] by simp
    then show ?thesis using True test by (auto simp del: cb_wf.simps)
  next
    case False
    then have "cb_less (y, mk) (d div 8, cb_mask d)" using n ne cb_less_pos[of n d] by simp
    then show ?thesis
      using False test turn Internal cb_wf_children[OF Internal.prems(1)]
      by (auto simp del: cb_wf.simps split: if_splits)
  qed
qed simp

lemma cbmap_differ_eq:
  "cbmap_differ (p @ s) (p @ k @ r) (length p) (length k) =
     (let i = length (longest_common_prefix k s)
      in if i = length k then Some None else if i = length s then None else Some (Some (length p + i)))"
proof (induction k s arbitrary: p rule: lcp_induct)
  case (both x xs y ys)
  show ?case
  proof (cases "x = y")
    case True
    then show ?thesis using both[OF True, of "p @ [x]"] by (simp add: Let_def nth_append)
  next
    case False
    then show ?thesis by (simp add: nth_append)
  qed
next
  case (right k)
  then show ?case by (cases k) (simp_all add: rd_def)
qed simp

lemma cbmap_newbyte_eq:
  assumes "length k < 2 ^ 32"
  shows "cbmap_newbyte s (k @ r) (length k) =
     (let i = length (longest_common_prefix k s)
      in if i = length k then Some None else if i = length s then None else Some (Some i))"
  using assms cbmap_differ_eq[of "[]" s k r] by (auto simp: cbmap_newbyte_def Let_def)

lemma lcp_length_iff: "length (longest_common_prefix k s) = length k \<longleftrightarrow> prefix k s"
proof
  assume "length (longest_common_prefix k s) = length k"
  then have "longest_common_prefix k s = k"
    using longest_common_prefix_prefix1[of k s] by (metis append_eq_append_conv append_Nil2 prefix_def)
  then show "prefix k s" using longest_common_prefix_prefix2[of k s] by simp
next
  assume "prefix k s"
  then have "prefix k (longest_common_prefix k s)" by (simp add: longest_common_prefix_max_prefix)
  then show "length (longest_common_prefix k s) = length k"
    using longest_common_prefix_prefix1[of k s] prefix_order.antisym by metis
qed

lemma cbmap_default_allocator_eq:
  assumes "n \<le> length data"
  shows "cbmap_default_allocator al data n = Some (if malloc al n = None then None else Some (take n data))"
proof (cases "malloc al n")
  case (Some b)
  then show ?thesis
    using length_malloc[OF Some] byte_copy_eq[of 0 n b 0 data] assms
    by (simp add: cbmap_default_allocator_def splice_def)
qed (simp add: cbmap_default_allocator_def)

lemma cbmap_data_node_new_eq:
  assumes "grants al"
  shows "cbmap_data_node_new al (k @ r) (length k) (v @ r') (length v) = Some (Some (External k v))"
  using grants_malloc(1)[OF assms] cbmap_default_allocator_eq[of "length v" "v @ r'" al]
    cbmap_default_allocator_eq[of "length k" "k @ r" al]
  by (auto simp: cbmap_data_node_new_def split: option.splits)

lemma cbmap_update_value_eq:
  assumes "grants al"
  shows "cbmap_data_node_update_value al old (v @ r') (length v) = Some (Some v)"
proof (cases "length old = length v")
  case True
  then obtain d where "byte_diff old (length v) (v @ r') = Some d" "d = 0 \<longleftrightarrow> old = v"
    using byte_diff_zero[of "length v" old "v @ r'"] by auto
  then show ?thesis
    using True grants_malloc(1)[OF assms, of "length v"] cbmap_default_allocator_eq[of "length v" "v @ r'" al]
    by (auto simp: cbmap_data_node_update_value_def)
next
  case False
  then show ?thesis
    using grants_malloc(1)[OF assms, of "length v"] cbmap_default_allocator_eq[of "length v" "v @ r'" al]
    by (auto simp: cbmap_data_node_update_value_def)
qed

subsection \<open>Replacing a value\<close>

lemma cb_set_value_keys: "cb_keys (cb_store t (cb_trail f t) (External (fst (cb_leaf_of f t)) v)) = cb_keys t"
  by (induction t) (auto simp: Let_def)

lemma cb_set_value_wf: "cb_wf t \<Longrightarrow> cb_wf (cb_store t (cb_trail f t) (External (fst (cb_leaf_of f t)) v))"
proof (induction t)
  case (Internal y mk l r)
  let ?u = "\<lambda>t. cb_store t (cb_trail f t) (External (fst (cb_leaf_of f t)) v)"
  obtain n where n: "y = n div 8" "mk = cb_mask n" "\<forall>j\<in>cb_keys l. y < length j \<and> \<not> kbit j n"
    "\<forall>k\<in>cb_keys r. kbit k n" "\<forall>j\<in>cb_keys l. \<forall>k\<in>cb_keys r. agree n j k" "cb_wf l" "cb_wf r"
    using cb_wf_node[OF Internal.prems] by blast
  have "cb_wf (Internal y mk l (?u r))" "cb_wf (Internal y mk (?u l) r)"
    using n(3-7) Internal.IH by (intro cb_wf_nodeI[OF n(1,2)]; simp add: cb_set_value_keys)+
  then show ?case by (simp add: Let_def del: cb_wf.simps)
qed simp

lemma cb_set_value_list:
  "cb_wf t \<Longrightarrow> set (cb_list (cb_store t (cb_trail f t) (External (fst (cb_leaf_of f t)) v))) =
     insert (fst (cb_leaf_of f t), v) (set (cb_list t) - {cb_leaf_of f t})"
proof (induction t)
  case (Internal y mk l r)
  obtain n where n: "\<forall>j\<in>cb_keys l. \<not> kbit j n" "\<forall>k\<in>cb_keys r. kbit k n" "cb_wf l" "cb_wf r"
    using cb_wf_node[OF Internal.prems] by metis
  have apart: "x \<notin> set (cb_list l) \<or> x \<notin> set (cb_list r)" for x
    using n(1,2) unfolding cb_keys_def by blast
  show ?case
  proof (cases "f y mk")
    case True
    then show ?thesis
      using Internal.IH(2)[OF n(4)] apart[of "cb_leaf_of f r"] cb_leaf_in[of f r] by (simp add: Let_def insert_Diff_if) blast
  next
    case False
    then show ?thesis
      using Internal.IH(1)[OF n(3)] apart[of "cb_leaf_of f l"] cb_leaf_in[of f l] by (simp add: Let_def insert_Diff_if) blast
  qed
qed simp

subsection \<open>The map\<close>

definition cm_entries :: "cbmap \<Rightarrow> (byte list \<times> byte list) list" where
  "cm_entries m = cb_entries (cm_root m)"

definition cm_view :: "cbmap \<Rightarrow> byte list \<Rightarrow> byte list option" where
  "cm_view m = map_of (cm_entries m)"

definition cm_ok :: "cbmap \<Rightarrow> bool" where
  "cm_ok m \<longleftrightarrow> (case cm_root m of None \<Rightarrow> True | Some t \<Rightarrow> cb_wf t) \<and> cm_count m = of_nat (length (cm_entries m))"

lemma cm_ok_distinct: "cm_ok m \<Longrightarrow> distinct (map fst (cm_entries m))"
  by (cases "cm_root m") (auto simp: cm_ok_def cm_entries_def cb_wf_distinct)

lemma cm_dom: "dom (cm_view m) = fst ` set (cm_entries m)"
  by (simp add: cm_view_def dom_map_of_conv_image_fst)

lemma map_of_replaced:
  assumes "distinct (map fst xs)" "distinct (map fst ys)" "set ys = S \<union> {e \<in> set xs. fst e \<noteq> k}"
    and "S = {} \<and> w = None \<or> (\<exists>v. S = {(k, v)} \<and> w = Some v)"
  shows "map_of ys = (map_of xs)(k := w)"
proof (rule ext)
  fix x
  have "map_of ys x = Some y \<longleftrightarrow> ((map_of xs)(k := w)) x = Some y" for y
    using assms by (auto simp: map_of_eq_Some_iff)
  then show "map_of ys x = ((map_of xs)(k := w)) x" by (metis not_Some_eq)
qed

lemma length_replaced:
  assumes "distinct (map fst xs)" "distinct (map fst ys)" "set ys = S \<union> {e \<in> set xs. fst e \<noteq> k}" "S \<subseteq> {(k, v)}"
  shows "length ys + (if k \<in> fst ` set xs then 1 else 0) = length xs + (if S = {} then 0 else 1)"
proof -
  have "length ys = card (fst ` set ys)" "length xs = card (fst ` set xs)"
    using distinct_card[OF assms(1)] distinct_card[OF assms(2)] by simp_all
  moreover have "fst ` set ys = (if S = {} then {} else {k}) \<union> (fst ` set xs - {k})"
  proof -
    have "fst ` S = (if S = {} then {} else {k})" using subset_singletonD[OF assms(4)] by auto
    moreover have "fst ` {e \<in> set xs. fst e \<noteq> k} = fst ` set xs - {k}" by auto
    ultimately show ?thesis unfolding assms(3) image_Un by simp
  qed
  moreover have "0 < card (fst ` set xs)" if "k \<in> fst ` set xs"
    using that card_gt_0_iff[of "fst ` set xs"] by auto
  ultimately show ?thesis
    by (cases "k \<in> fst ` set xs"; cases "S = {}") (simp_all add: card_Diff_singleton_if insert_absorb)
qed

lemma cb_list_but:
  assumes "cb_wf t" "(k, v) \<in> set (cb_list t)"
  shows "set (cb_list t) - {(k, v)} = {e \<in> set (cb_list t). fst e \<noteq> k}"
  using assms(2) cb_wf_distinct[OF assms(1)] by (auto dest: eq_key_imp_eq_value)

lemma cm_new_tree:
  assumes "cm_ok m" "cb_wf t" "set (cb_list t) = {(k, v)} \<union> {e \<in> set (cm_entries m). fst e \<noteq> k}"
    and "c = (if cm_view m k = None then cm_count m + 1 else cm_count m)"
  shows "cm_ok \<lparr>cm_root = Some t, cm_count = c\<rparr> \<and> cm_view \<lparr>cm_root = Some t, cm_count = c\<rparr> = (cm_view m)(k := Some v)"
proof -
  note d = cm_ok_distinct[OF assms(1)] cb_wf_distinct[OF assms(2)] assms(3)
  have "length (cb_list t) + (if k \<in> fst ` set (cm_entries m) then 1 else 0) = length (cm_entries m) + 1"
    using length_replaced[OF d, of v] by simp
  then have "of_nat (length (cb_list t)) = c"
    using assms(1,4) cm_dom[of m] by (cases "cm_view m k") (auto simp: cm_ok_def domIff[symmetric] split: if_splits)
  moreover have "map_of (cb_list t) = (cm_view m)(k := Some v)"
    unfolding cm_view_def by (rule map_of_replaced[OF d]) simp
  ultimately show ?thesis using assms(2) by (simp add: cm_ok_def cm_view_def cm_entries_def)
qed

lemma cbmap_insert_effect:
  assumes "grants al" "cm_ok m" "length k < 2 ^ 32" "\<forall>j\<in>dom (cm_view m). related j k \<longrightarrow> j = k"
  shows "\<exists>m'. cbmap_insert al m (k @ r) (length k) (v @ r') (length v) =
      Some (if cm_view m k = None then INSERT_OK else INSERT_UPDATED, m') \<and>
    cm_ok m' \<and> cm_view m' = (cm_view m)(k := Some v)"
proof (cases "cm_root m")
  case None
  then have "cm_entries m = []" by (simp add: cm_entries_def)
  then show ?thesis
    using None assms(2) cm_new_tree[OF assms(2), of "External k v" k v "cm_count m + 1"]
      cbmap_data_node_new_eq[OF assms(1), of k r v r'] by (simp add: cbmap_insert_def cm_view_def)
next
  case (Some t)
  let ?f = "key_bits k"
  have ent: "cm_entries m = cb_list t" by (simp add: cm_entries_def Some)
  have wf: "cb_wf t" using assms(2) Some by (simp add: cm_ok_def)
  have dom: "dom (cm_view m) = cb_keys t" by (simp add: cm_dom ent cb_keys_def)
  obtain s old where s: "cb_best k t = (s, old)" by (cases "cb_best k t")
  have walk: "cbmap_walk (k @ r) (length k) t = Some (s, old)"
    using cbmap_walk_eq[of "length k" "k @ r" t] wf s by simp
  have trail: "cbmap_trail (k @ r) (length k) t = Some (cb_trail ?f t)"
    using cbmap_trail_eq[of "length k" "k @ r" t] wf by simp
  show ?thesis
  proof (cases "k \<in> cb_keys t")
    case True
    then have sk: "s = k" using cb_best_found[OF wf True] s by simp
    then have in_t: "(k, old) \<in> set (cb_list t)" using cb_leaf_in[of ?f t] s by simp
    have same: "cbmap_newbyte k (k @ r) (length k) = Some None"
      using cbmap_newbyte_eq[OF assms(3), of k r] lcp_length_iff[of k k] by (simp add: Let_def)
    let ?t = "cb_store t (cb_trail ?f t) (External k v)"
    have t': "cb_wf ?t" "set (cb_list ?t) = {(k, v)} \<union> {e \<in> set (cm_entries m). fst e \<noteq> k}"
      using cb_set_value_wf[OF wf, of ?f v] cb_set_value_list[OF wf, of ?f v] cb_list_but[OF wf in_t] s sk ent
      by simp_all
    have pres: "cm_view m k \<noteq> None" using True dom by (auto simp: domIff[symmetric])
    have "cbmap_insert al m (k @ r) (length k) (v @ r') (length v) =
        Some (INSERT_UPDATED, \<lparr>cm_root = Some ?t, cm_count = cm_count m\<rparr>)"
      using Some walk sk same trail cbmap_update_value_eq[OF assms(1), of old v r'] by (simp add: cbmap_insert_def)
    then show ?thesis using cm_new_tree[OF assms(2) t', of "cm_count m"] pres by (auto split: option.splits)
  next
    case False
    then have ap: "\<not> prefix k s" "\<not> prefix s k"
      using assms(4) dom cb_leaf_key[of ?f t] s by (auto simp: related_def)
    let ?i = "length (longest_common_prefix k s)"
    note i = lcp_apart[OF ap]
    obtain d where d: "d div 8 = ?i" "cb_critmask (k ! ?i) (s ! ?i) = cb_mask d" "cb_splits k d s"
      using cb_split_at[OF i(3,1,2,4)] .
    have nb: "cbmap_newbyte s (k @ r) (length k) = Some (Some (d div 8))"
      using cbmap_newbyte_eq[OF assms(3), of s r] i(1,2) d(1) by (simp add: Let_def)
    have rds: "rd s (d div 8) = Some (s ! (d div 8))" "rd (k @ r) (d div 8) = Some (k ! (d div 8))"
      using i(1,2) d(1) by (simp_all add: rd_def nth_append)
    have mk: "cb_critmask (s ! (d div 8)) (k ! (d div 8)) = cb_mask d"
      using d(1,2) cb_critmask_sym by metis
    have br: "cb_branch (cb_mask d) (s ! (d div 8)) = (\<not> kbit k d)"
      using d(3) by (auto simp: cb_branch_mask kbit_def cb_splits_def)
    have seek: "cbmap_seek (k @ r) (length k) (d div 8) (cb_mask d) t = Some (cb_stop ?f (d div 8) (cb_mask d) t)"
      using cbmap_seek_eq[of "length k" "k @ r" t d] wf d(3) s by simp
    obtain u where u: "cbmap_internal_node_new al = Some u"
      using grants_malloc(1)[OF assms(1), of 24] by (auto simp: cbmap_internal_node_new_def)
    have "cbmap_insert al m (k @ r) (length k) (v @ r') (length v) =
        Some (INSERT_OK, \<lparr>cm_root = Some (cb_graft k v d t), cm_count = cm_count m + 1\<rparr>)"
      unfolding cbmap_insert_def Some option.case walk bind.bind_lunit prod.case nb rds mk br Let_def u seek
        cbmap_data_node_new_eq[OF assms(1)]
      by (simp add: cb_graft_def cb_join_def Let_def)
    moreover have "cb_wf (cb_graft k v d t)"
      "set (cb_list (cb_graft k v d t)) = {(k, v)} \<union> {e \<in> set (cm_entries m). fst e \<noteq> k}"
      using cb_graft_ok[OF wf, of k d v] d(3) s False ent by (auto simp: cb_keys_def)
    moreover have "cm_view m k = None" using False dom by (metis domIff)
    ultimately show ?thesis using cm_new_tree[OF assms(2), of "cb_graft k v d t" k v "cm_count m + 1"] by simp
  qed
qed

lemma cbmap_get_effect:
  assumes "cm_ok m"
  shows "cbmap_get m (k @ r) (length k) = Some (cm_view m k)"
proof (cases "cm_root m")
  case None
  then show ?thesis by (simp add: cbmap_get_def cm_view_def cm_entries_def)
next
  case (Some t)
  have wf: "cb_wf t" using assms Some by (simp add: cm_ok_def)
  obtain s v where s: "cb_best k t = (s, v)" by (cases "cb_best k t")
  then have in_t: "(s, v) \<in> set (cb_list t)" using cb_leaf_in[of "key_bits k" t] by simp
  have view: "cm_view m = map_of (cb_list t)" by (simp add: cm_view_def cm_entries_def Some)
  have "cm_view m k = (if s = k then Some v else None)"
    using cb_best_found[OF wf, of k] s in_t cb_wf_distinct[OF wf] map_of_eq_None_iff[of "cb_list t" k]
    unfolding view cb_keys_def by (auto simp: map_of_eq_Some_iff)
  moreover have "cbmap_get m (k @ r) (length k) = Some (if s = k then Some v else None)"
    using Some cbmap_walk_eq[of "length k" "k @ r" t] wf s byte_diff_zero[of "length k" s "k @ r"]
    by (auto simp: cbmap_get_def)
  ultimately show ?thesis by simp
qed

lemma cbmap_delete_effect:
  assumes "cm_ok m"
  shows "\<exists>m'. cbmap_delete m (k @ r) (length k) = Some (if cm_view m k = None then NOT_FOUND else FOUND, m') \<and>
    cm_ok m' \<and> cm_view m' = (cm_view m)(k := None)"
proof (cases "cm_root m")
  case None
  then show ?thesis using assms by (auto simp: cbmap_delete_def cm_view_def cm_entries_def NOT_FOUND_def fun_eq_iff)
next
  case (Some t)
  let ?f = "key_bits k" let ?p = "cb_trail ?f t"
  have wf: "cb_wf t" using assms Some by (simp add: cm_ok_def)
  have ent: "cm_entries m = cb_list t" by (simp add: cm_entries_def Some)
  obtain s v where s: "cb_best k t = (s, v)" by (cases "cb_best k t")
  then have in_t: "(s, v) \<in> set (cb_list t)" using cb_leaf_in[of ?f t] by simp
  have dom: "cm_view m k \<noteq> None \<longleftrightarrow> s = k"
  proof -
    have "cm_view m k \<noteq> None \<longleftrightarrow> k \<in> cb_keys t" using cm_dom[of m] ent unfolding cb_keys_def by (metis domIff)
    also have "\<dots> \<longleftrightarrow> s = k" using cb_best_found[OF wf, of k] cb_leaf_key[of ?f t] s by auto
    finally show ?thesis .
  qed
  let ?up = "if ?p = [] then None else Some (butlast ?p, cb_slot t (butlast ?p @ [\<not> last ?p]))"
  have walk: "cbmap_delete_walk (k @ r) (length k) None [] t = Some (?up, s)"
    using cbmap_delete_walk_eq[of "length k" "k @ r" t None "[]"] wf s by simp
  have cut: "(case ?up of None \<Rightarrow> None | Some (at, u) \<Rightarrow> Some (cb_store t at u)) = cb_cut ?f t"
    unfolding cb_cut_path by simp
  obtain d where d: "(if length s \<noteq> length k then Some 1 else byte_diff s (length k) (k @ r)) = Some d" "d = 0 \<longleftrightarrow> s = k"
  proof (cases "length s = length k")
    case True
    then show thesis using that byte_diff_zero[of "length k" s "k @ r"] by auto
  next
    case False
    then have "s \<noteq> k" by (intro notI) simp
    then show thesis using False that[of 1] by simp
  qed
  let ?m = "\<lparr>cm_root = cb_cut ?f t, cm_count = cm_count m - 1\<rparr>"
  have del: "cbmap_delete m (k @ r) (length k) = Some (if s = k then (FOUND, ?m) else (NOT_FOUND, m))"
    unfolding cbmap_delete_def Some option.case(2) walk bind.bind_lunit prod.case d(1) cut using d(2) by simp
  show ?thesis
  proof (cases "s = k")
    case True
    have set: "set (cm_entries ?m) = {} \<union> {e \<in> set (cm_entries m). fst e \<noteq> k}"
      using cb_cut_list[OF wf, of ?f] cb_list_but[OF wf in_t] s True by (simp add: cm_entries_def Some)
    have wf': "case cm_root ?m of None \<Rightarrow> True | Some t \<Rightarrow> cb_wf t"
      using cb_cut_wf[OF wf] by (cases "cb_cut ?f t") auto
    then have dist: "distinct (map fst (cm_entries ?m))"
      by (cases "cb_cut ?f t") (auto simp: cm_entries_def cb_wf_distinct)
    have "length (cm_entries ?m) + 1 = length (cm_entries m)"
      using length_replaced[OF cm_ok_distinct[OF assms] dist set, of v] in_t True ent by (force split: if_splits)
    then have "of_nat (length (cm_entries ?m)) = cm_count m - 1"
      using assms unfolding cm_ok_def by (metis add_diff_cancel_right' of_nat_1 of_nat_add)
    then have "cm_ok ?m" using wf' by (simp add: cm_ok_def)
    moreover have "cm_view ?m = (cm_view m)(k := None)"
      unfolding cm_view_def by (rule map_of_replaced[OF cm_ok_distinct[OF assms] dist set]) simp
    ultimately show ?thesis using del True dom by (auto split: option.splits)
  next
    case False
    then show ?thesis using del dom assms by (auto simp: fun_eq_iff)
  qed
qed

definition cm_str_ok :: "cbmap \<Rightarrow> bool" where
  "cm_str_ok m \<longleftrightarrow> cm_ok m \<and> dom (cm_view m) \<subseteq> str_keys"

lemma cm_dictionary:
  assumes "grants al"
  shows "dictionary cm_str_ok cm_view str_keys (\<lambda>m k v. cbmap_insert al m k (length k) v (length v))
    (\<lambda>m k. cbmap_get m k (length k)) INSERT_OK INSERT_UPDATED (\<lambda>m k. cbmap_delete m k (length k)) FOUND NOT_FOUND"
proof
  fix s k v
  assume s: "cm_str_ok s" and k: "k \<in> str_keys"
  then have ok: "cm_ok s" and dom: "dom (cm_view s) \<subseteq> str_keys" by (simp_all add: cm_str_ok_def)
  show "cbmap_get s k (length k) = Some (cm_view s k)" using cbmap_get_effect[OF ok, of k "[]"] by simp
  have "\<forall>j\<in>dom (cm_view s). related j k \<longrightarrow> j = k"
    using dom k str_keys_apart unfolding related_def by blast
  then obtain m' where "cbmap_insert al s (k @ []) (length k) (v @ []) (length v) =
      Some (if cm_view s k = None then INSERT_OK else INSERT_UPDATED, m')" "cm_ok m'" "cm_view m' = (cm_view s)(k := Some v)"
    using cbmap_insert_effect[OF assms ok] k unfolding str_keys_iff by blast
  then show "\<exists>s'. cbmap_insert al s k (length k) v (length v) =
        Some (if cm_view s k = None then INSERT_OK else INSERT_UPDATED, s') \<and>
      cm_str_ok s' \<and> cm_view s' = (cm_view s)(k := Some v)"
    using dom k by (auto simp: cm_str_ok_def)
  obtain m2 where "cbmap_delete s (k @ []) (length k) = Some (if cm_view s k = None then NOT_FOUND else FOUND, m2)"
    "cm_ok m2" "cm_view m2 = (cm_view s)(k := None)"
    using cbmap_delete_effect[OF ok] by blast
  then show "\<exists>s'. cbmap_delete s k (length k) = Some (if cm_view s k = None then NOT_FOUND else FOUND, s') \<and>
      cm_str_ok s' \<and> cm_view s' = (cm_view s)(k := None)"
    using dom by (auto simp: cm_str_ok_def)
qed

interpretation cmd: dictionary cm_str_ok cm_view str_keys "\<lambda>m k v. cbmap_insert plenty m k (length k) v (length v)"
  "\<lambda>m k. cbmap_get m k (length k)" INSERT_OK INSERT_UPDATED "\<lambda>m k. cbmap_delete m k (length k)" FOUND NOT_FOUND
  by (rule cm_dictionary) simp

subsection \<open>Visiting the entries\<close>

fun visits :: "('d \<Rightarrow> byte list \<Rightarrow> 'v \<Rightarrow> 'd \<times> int) \<Rightarrow> (byte list \<times> 'v) list \<Rightarrow> 'd \<Rightarrow> 'd \<times> bool" where
  "visits f [] d = (d, True)"
| "visits f ((k, v) # es) d = (let (d', r) = f d k v in if r = 1 then visits f es d' else (d', False))"

lemma visits_append:
  "visits f (xs @ ys) d = (let (d', go) = visits f xs d in if go then visits f ys d' else (d', False))"
  by (induction xs arbitrary: d) (auto split: prod.splits)

lemma cbmap_visit_eq:
  "fst (cbmap_visit t f d) = fst (visits f (cb_list t) d) \<and> (snd (cbmap_visit t f d) = 1 \<longleftrightarrow> snd (visits f (cb_list t) d))"
proof (induction t arbitrary: d)
  case (External k v)
  then show ?case by (auto split: prod.splits)
next
  case (Internal y mk l r)
  obtain d1 r1 where l: "cbmap_visit l f d = (d1, r1)" by fastforce
  obtain d2 r2 where r: "cbmap_visit r f d1 = (d2, r2)" by fastforce
  show ?case
    using Internal.IH(1)[of d] Internal.IH(2)[of d1] l r
    by (auto simp: visits_append split: prod.splits)
qed

lemma cbmap_top_stays:
  assumes "keylen \<le> length key"
  shows "cb_wf t \<Longrightarrow> (\<forall>y mk l r. t = Internal y mk l r \<longrightarrow> keylen \<le> y) \<Longrightarrow>
    cbmap_top_walk key keylen tp t = Some (tp, fst (cb_best (take keylen key) t))"
proof (induction t)
  case (Internal y mk l r)
  let ?b = "key_bits (take keylen key) y mk" let ?c = "if ?b then r else l"
  have y: "keylen \<le> y" using Internal.prems(2) by blast
  have wf: "cb_wf ?c" using Internal.prems(1) by (rule cb_wf_childI)
  have deep: "keylen \<le> y'" if c: "?c = Internal y' mk' l' r'" for y' mk' l' r'
  proof -
    obtain n where n: "y = n div 8" "mk = cb_mask n" using cb_wf_node[OF Internal.prems(1)] by blast
    obtain m where m: "y' = m div 8" "mk' = cb_mask m" using cb_wf_node wf c by metis
    have "Internal y' mk' l' r' = l \<or> Internal y' mk' l' r' = r" using c by (auto split: if_splits)
    then have "n < m" by (rule cb_wf_child_pos[OF Internal.prems(1) n _ m])
    then show ?thesis using y n m div_le_mono[of n m 8] by linarith
  qed
  have IH: "cbmap_top_walk key keylen tp ?c = Some (tp, fst (cb_best (take keylen key) ?c))"
    using Internal.IH wf deep by (cases ?b) auto
  have "cbmap_top_walk key keylen tp (Internal y mk l r) = cbmap_top_walk key keylen tp ?c"
    using cbmap_turn_wf[OF assms Internal.prems(1)] y by (simp add: Let_def)
  then show ?case using IH by simp
qed simp

lemma cbmap_top_eq:
  assumes "keylen \<le> length key"
  defines "k \<equiv> take keylen key"
  shows "cb_wf t \<Longrightarrow> \<exists>u. cbmap_top_walk key keylen t t = Some (u, fst (cb_best k t)) \<and> cb_wf u \<and>
    fst (cb_best k t) \<in> cb_keys u \<and> (\<forall>y mk l r. u = Internal y mk l r \<longrightarrow> keylen \<le> y) \<and>
    filter (\<lambda>e. prefix k (fst e)) (cb_list u) = filter (\<lambda>e. prefix k (fst e)) (cb_list t)"
proof (induction t)
  case (Internal y mk l r)
  let ?t = "Internal y mk l r" let ?c = "if key_bits k y mk then r else l"
  have turn: "cbmap_turn key keylen y mk = Some (key_bits k y mk)"
    unfolding k_def using assms(1) Internal.prems by (rule cbmap_turn_wf)
  show ?case
  proof (cases "keylen \<le> y")
    case True
    then have "cbmap_top_walk key keylen ?t ?t = Some (?t, fst (cb_best k ?t))"
      unfolding k_def by (intro cbmap_top_stays[OF assms(1) Internal.prems]) simp
    then show ?thesis using True Internal.prems cb_leaf_key[of "key_bits k" ?t] by blast
  next
    case False
    then have step: "cbmap_top_walk key keylen ?t ?t = cbmap_top_walk key keylen ?c ?c"
      using turn by (simp add: Let_def)
    have "cb_wf ?c" using Internal.prems by (rule cb_wf_childI)
    then obtain u where u: "cbmap_top_walk key keylen ?c ?c = Some (u, fst (cb_best k ?c))" "cb_wf u"
      "fst (cb_best k ?c) \<in> cb_keys u" "\<forall>y mk l r. u = Internal y mk l r \<longrightarrow> keylen \<le> y"
      "filter (\<lambda>e. prefix k (fst e)) (cb_list u) = filter (\<lambda>e. prefix k (fst e)) (cb_list ?c)"
      using Internal.IH by (cases "key_bits k y mk") (simp_all, blast+)
    have "y < length k" using False assms(1) by (simp add: k_def)
    then show ?thesis
      using u step cb_prefix_child[OF Internal.prems, of k] by (intro exI[of _ u]) simp
  qed
qed simp

lemma cbmap_same_eq:
  "cbmap_same (p @ s) (p @ k @ r) (length p) (length k) =
     (if prefix k s then Some True else if prefix s k then None else Some False)"
proof (induction k s arbitrary: p rule: lcp_induct)
  case (both x xs y ys)
  then show ?case using both[of "p @ [x]"] by (cases "x = y") (auto simp: nth_append)
next
  case (right k)
  then show ?case by (cases k) (simp_all add: rd_def)
qed simp

lemma cbmap_visit_prefix_effect:
  assumes "cm_ok m" "\<forall>j\<in>dom (cm_view m). prefix j k \<longrightarrow> j = k"
  shows "\<exists>res. cbmap_visit_prefix m (k @ r) (length k) f d = Some res \<and>
    (fst res, snd res = 1) = visits f (filter (\<lambda>e. prefix k (fst e)) (cm_entries m)) d"
proof (cases "cm_root m")
  case None
  then show ?thesis by (simp add: cbmap_visit_prefix_def cm_entries_def)
next
  case (Some t)
  let ?P = "\<lambda>e. prefix k (fst e)" let ?s = "fst (cb_best k t)"
  have wf: "cb_wf t" and ent: "cm_entries m = cb_list t"
    using assms(1) Some by (simp_all add: cm_ok_def cm_entries_def)
  have "?s \<in> dom (cm_view m)" using cb_leaf_key[of "key_bits k" t] by (simp add: cm_dom ent cb_keys_def)
  then have short: "prefix ?s k \<Longrightarrow> prefix k ?s" using assms(2) by auto
  obtain u where u: "cbmap_top_walk (k @ r) (length k) t t = Some (u, ?s)" "cb_wf u" "?s \<in> cb_keys u"
    "\<forall>y mk l r. u = Internal y mk l r \<longrightarrow> length k \<le> y" "filter ?P (cb_list u) = filter ?P (cb_list t)"
    using cbmap_top_eq[of "length k" "k @ r" t] wf by auto
  have run: "cbmap_visit_prefix m (k @ r) (length k) f d = Some (if prefix k ?s then cbmap_visit u f d else (d, 1))"
    using Some u(1) cbmap_same_eq[of "[]" ?s k r] short by (auto simp: cbmap_visit_prefix_def)
  show ?thesis
  proof (cases "prefix k ?s")
    case True
    have "\<forall>j\<in>cb_keys u. prefix k j"
    proof (cases u)
      case (Internal y mk l r')
      then show ?thesis
        using cb_prefix_all[of y mk l r' k ?s] True u(2,3,4) by (simp del: cb_wf.simps)
    qed (use True u(3) in simp)
    then have "filter ?P (cb_list u) = cb_list u" by (auto simp: cb_keys_def filter_id_conv)
    then show ?thesis using run True u(5) ent cbmap_visit_eq[of u f d] by (auto simp: prod_eq_iff)
  next
    case False
    then have "filter ?P (cb_list t) = []"
      using cb_best_prefix[OF wf] by (auto simp: filter_empty_conv cb_keys_def)
    then show ?thesis using run False ent by simp
  qed
qed

subsection \<open>Claims\<close>

text \<open>
  C3. Any sequence of insertions and deletions of strings with their terminators behaves as the same
  sequence of updates of a mathematical map: \<open>cbmap_get\<close> afterwards returns what that map has, and the
  count is the number of its entries.
\<close>

theorem cbmap_programs_refine:
  assumes "grants al" "cm_str_ok m" "\<forall>x\<in>set xs. op_key x \<in> str_keys"
  shows "\<exists>m'. dictionary.run (\<lambda>m k v. cbmap_insert al m k (length k) v (length v)) (\<lambda>m k. cbmap_delete m k (length k)) m xs = Some m' \<and>
    cm_str_ok m' \<and> cm_view m' = fold map_step xs (cm_view m) \<and> cbmap_count m' = of_nat (card (dom (cm_view m'))) \<and>
    (\<forall>k. cbmap_get m' (k @ r) (length k) = Some (cm_view m' k))"
proof -
  obtain m' where m': "dictionary.run (\<lambda>m k v. cbmap_insert al m k (length k) v (length v)) (\<lambda>m k. cbmap_delete m k (length k)) m xs = Some m'"
    "cm_str_ok m'" "cm_view m' = fold map_step xs (cm_view m)"
    using dictionary.run_refines[OF cm_dictionary[OF assms(1)] assms(2,3)] by blast
  have ok: "cm_ok m'" using m'(2) by (simp add: cm_str_ok_def)
  have "length (cm_entries m') = card (dom (cm_view m'))"
    using distinct_card[OF cm_ok_distinct[OF ok]] by (simp add: cm_dom)
  then show ?thesis using m' ok cbmap_get_effect[OF ok] by (auto simp: cm_ok_def cbmap_count_def)
qed

theorem cbmap_programs_refine_witness:
  "\<exists>m'. dictionary.run (\<lambda>m k v. cbmap_insert plenty m k (length k) v (length v)) (\<lambda>m k. cbmap_delete m k (length k))
      \<lparr>cm_root = None, cm_count = 0\<rparr> [Put [97, 0] [1], Put [98, 0] [2], Del [97, 0], Put [98, 0] [3]] = Some m' \<and>
    cm_str_ok m' \<and>
    cm_view m' = fold map_step [Put [97, 0] [1], Put [98, 0] [2], Del [97, 0], Put [98, 0] [3]]
      (cm_view \<lparr>cm_root = None, cm_count = 0\<rparr>) \<and>
    cbmap_count m' = of_nat (card (dom (cm_view m'))) \<and> (\<forall>k. cbmap_get m' (k @ []) (length k) = Some (cm_view m' k))"
  by (rule cbmap_programs_refine) (simp_all add: cm_str_ok_def cm_ok_def cm_view_def cm_entries_def str_keys_iff)

text \<open>
  C29. When \<open>cbmap_insert\<close> reports that memory ran out, the map is as it was, whichever of the allocations
  failed.
\<close>

theorem cbmap_insert_no_memory:
  assumes "cbmap_insert al m key key_len val val_len = Some (INSERT_OUT_OF_MEMORY, m')"
  shows "m' = m"
  using assms
  by (auto simp: cbmap_insert_def INSERT_OUT_OF_MEMORY_def INSERT_OK_def INSERT_UPDATED_def Let_def
      split: option.splits Option.bind_splits prod.splits)

theorem cbmap_insert_no_memory_witness:
  "cbmap_insert (\<lambda>n. if n = 2 then None else Some []) \<lparr>cm_root = None, cm_count = 0\<rparr> [97, 0] 2 [1] 1 =
     Some (INSERT_OUT_OF_MEMORY, \<lparr>cm_root = None, cm_count = 0\<rparr>) \<and>
   \<lparr>cm_root = None, cm_count = 0\<rparr> = \<lparr>cm_root = None :: byte list critbit option, cm_count = 0\<rparr>"
proof -
  have "cbmap_insert (\<lambda>n. if n = 2 then None else Some []) \<lparr>cm_root = None, cm_count = 0\<rparr> [97, 0] 2 [1] 1 =
     Some (INSERT_OUT_OF_MEMORY, \<lparr>cm_root = None, cm_count = 0\<rparr>)"
    by code_simp
  from this cbmap_insert_no_memory[OF this] show ?thesis by simp
qed

text \<open>
  C30. Provided that no stored key is a proper prefix of the prefix searched for (the code then reads past
  that key), \<open>cbmap_visit_prefix\<close> calls the visitor on exactly the entries whose key has the prefix, in
  the order of their keys, until it returns something other than 1, and returns 1 exactly when it did
  not.
\<close>
theorem cbmap_visit_prefix_exact:
  assumes "cm_ok m" "\<forall>j\<in>dom (cm_view m). prefix j k \<longrightarrow> j = k"
  shows "\<exists>res. cbmap_visit_prefix m (k @ r) (length k) f d = Some res \<and>
    (fst res, snd res = 1) = visits f (filter (\<lambda>e. prefix k (fst e)) (cm_entries m)) d"
  using assms by (rule cbmap_visit_prefix_effect)

definition cm_sample :: cbmap where
  "cm_sample = \<lparr>cm_root = Some (Internal 0 0xFE (External [96, 0] [1]) (External [97, 0] [2])), cm_count = 2\<rparr>"

lemma cm_sample_ok: "cm_ok cm_sample" "cm_entries cm_sample = [([96, 0], [1]), ([97, 0], [2])]"
proof -
  have "agree 7 [96, 0] [97, 0] \<and> \<not> kbit [96, 0] 7 \<and> kbit [97, 0] 7 \<and> (0xFE :: byte) = cb_mask 7"
    unfolding agree_def by code_simp
  then show "cm_ok cm_sample" by (auto simp: cm_sample_def cm_ok_def cm_entries_def intro!: exI[of _ 7])
qed (simp add: cm_sample_def cm_entries_def)

theorem cbmap_visit_prefix_exact_witness:
  "\<exists>res. cbmap_visit_prefix cm_sample ([97] @ []) (length [97 :: byte]) (\<lambda>d k v. (d @ v, 1)) [] = Some res \<and>
    (fst res, snd res = 1) = visits (\<lambda>d k v. (d @ v, 1)) (filter (\<lambda>e. prefix [97] (fst e)) (cm_entries cm_sample)) []"
  by (rule cbmap_visit_prefix_exact) (simp_all add: cm_sample_ok cm_dom)

text \<open>
  A key that is a proper prefix of the stored key its bits lead to is not inserted: the stored key keeps
  its place and gets the new value.
\<close>

theorem cbmap_insert_prefix_updates:
  assumes "grants al" "cm_root m = Some (External s old)" "prefix k s" "k \<noteq> s" "length k < 2 ^ 32"
  shows "\<exists>m'. cbmap_insert al m (k @ r) (length k) (v @ r') (length v) = Some (INSERT_UPDATED, m') \<and>
    cm_entries m' = [(s, v)] \<and> cbmap_get m' (k @ r) (length k) = Some None"
proof -
  have nb: "cbmap_newbyte s (k @ r) (length k) = Some None"
    using cbmap_newbyte_eq[OF assms(5), of s r] lcp_length_iff[of k s] assms(3) by (simp add: Let_def)
  have "length s \<noteq> length k" using assms(3,4) by (auto simp: prefix_def)
  then show ?thesis
    using assms(2) nb cbmap_update_value_eq[OF assms(1), of old v r']
    by (simp add: cbmap_insert_def cm_entries_def cbmap_get_def)
qed

theorem cbmap_insert_prefix_updates_witness:
  "\<exists>m'. cbmap_insert plenty \<lparr>cm_root = Some (External [97, 98] [1]), cm_count = 1\<rparr> ([97] @ []) (length [97 :: byte]) ([2] @ []) (length [2 :: byte]) =
      Some (INSERT_UPDATED, m') \<and>
    cm_entries m' = [([97, 98], [2])] \<and> cbmap_get m' ([97] @ []) (length [97 :: byte]) = Some None"
  by (rule cbmap_insert_prefix_updates[of _ _ _ "[1]"]) simp_all

end
