(* ===== verification/Hashset.thy ===== *)
theory Hashset
  imports Dictionary BufferIn Cb
begin

text \<open>
  The hash set of \<open>src/lib/set\<close>: an array of buckets, each the head of a chain, in which equal
  values are stored once.  A slot of the array is the list of its chain; the empty list is a head whose
  \<open>value\<close> is NULL.  A bucket keeps the value, whose length is its \<open>size\<close>, and its hash.

  The hash function is a parameter of the set as it is in the C structure; \<open>set_hashfunc\<close> is the one
  \<open>set_init\<close> chooses.  A failed \<open>assert\<close> is \<open>None\<close>; all allocations of \<open>set_add\<close> are
  asserted.  The table doubles when more than three quarters of its slots are in use, and the
  insertions into the new table may double it again, so \<open>set_add\<close> carries the number of doublings
  it may still make: 32 always suffice, since \<open>len\<close> is a 32-bit number.
\<close>

record bucket =
  bk_value :: "byte list"
  bk_hash :: uint32

type_synonym hashfn = "byte list \<Rightarrow> nat \<Rightarrow> uint32 option"

record hset =
  hs_entries :: uint32
  hs_overflow :: uint32
  hs_len :: uint32
  hs_hash :: "hashfn option"
  hs_array :: "bucket list list option"

primrec set_hash_loop :: "byte list \<Rightarrow> nat \<Rightarrow> nat \<Rightarrow> uint32 \<Rightarrow> uint32 option" where
  "set_hash_loop x i 0 hash = Some hash"
| "set_hash_loop x i (Suc n) hash =
     do { c \<leftarrow> rd x i; set_hash_loop x (Suc i) n ((push_bit 5 hash + hash) + ucast c) }"

definition set_hashfunc :: hashfn where
  "set_hashfunc x len = set_hash_loop x 0 len 5381"

definition set_calloc :: "allocator \<Rightarrow> uint32 \<Rightarrow> bucket list list option" where
  "set_calloc al len = map_option (\<lambda>_. replicate (unat len) []) (malloc al (unat len * 32))"

definition BASE_SIZE :: uint32 where "BASE_SIZE = 1024"

definition set_init :: "allocator \<Rightarrow> hashfn option \<Rightarrow> hset option" where
  "set_init al hash_fp =
     do { a \<leftarrow> set_calloc al BASE_SIZE;
          Some \<lparr>hs_entries = 0, hs_overflow = 0, hs_len = BASE_SIZE,
                hs_hash = Some (case hash_fp of None \<Rightarrow> set_hashfunc | Some h \<Rightarrow> h), hs_array = Some a\<rparr> }"

definition set_size :: "hset \<Rightarrow> uint32" where
  "set_size s = hs_entries s"

definition set_hash :: "hset \<Rightarrow> byte list \<Rightarrow> nat \<Rightarrow> uint32 option" where
  "set_hash s x len = do { h \<leftarrow> hs_hash s; h x len }"

definition set_index :: "hset \<Rightarrow> byte list \<Rightarrow> nat \<Rightarrow> uint32 option" where
  "set_index s val sz = do { hash \<leftarrow> set_hash s val sz; Some (hash AND (hs_len s - 1)) }"

subsection \<open>Membership\<close>

fun set_has_loop :: "bucket list \<Rightarrow> byte list \<Rightarrow> nat \<Rightarrow> uint32 \<Rightarrow> bool option" where
  "set_has_loop [] val sz hash = Some False"
| "set_has_loop (b # bs) val sz hash =
     (if sz = length (bk_value b) \<and> bk_hash b = hash then
        do { d \<leftarrow> byte_diff (bk_value b) sz val;
             if d = 0 then Some True else set_has_loop bs val sz hash }
      else set_has_loop bs val sz hash)"

definition set_has :: "hset \<Rightarrow> byte list \<Rightarrow> nat \<Rightarrow> bool option" where
  "set_has s val sz =
     do { hash \<leftarrow> set_hash s val sz;
          if hs_len s = 0 then None
          else do { a \<leftarrow> hs_array s; b \<leftarrow> rd a (unat (hash mod hs_len s)); set_has_loop b val sz hash } }"

subsection \<open>Insertion\<close>

definition set_bucket_new :: "allocator \<Rightarrow> byte list \<Rightarrow> nat \<Rightarrow> uint32 \<Rightarrow> bucket option" where
  "set_bucket_new al val sz hash =
     do { m \<leftarrow> malloc al sz; m \<leftarrow> byte_copy m 0 sz val 0; Some \<lparr>bk_value = m, bk_hash = hash\<rparr> }"

definition set_place :: "allocator \<Rightarrow> hset \<Rightarrow> byte list \<Rightarrow> nat \<Rightarrow> hset option" where
  "set_place al s val sz =
     do { hash \<leftarrow> set_hash s val sz;
          a \<leftarrow> hs_array s;
          let index = unat (hash AND (hs_len s - 1));
          b \<leftarrow> rd a index;
          if b = [] then
            do { e \<leftarrow> set_bucket_new al val sz hash;
                 Some (s\<lparr>hs_array := Some (a[index := [e]]), hs_entries := hs_entries s + 1\<rparr>) }
          else
            do { _ \<leftarrow> malloc al 32;
                 e \<leftarrow> set_bucket_new al val sz hash;
                 Some (s\<lparr>hs_array := Some (a[index := b @ [e]]), hs_overflow := hs_overflow s + 1,
                         hs_entries := hs_entries s + 1\<rparr>) } }"

primrec set_rehash :: "(hset \<Rightarrow> byte list \<Rightarrow> nat \<Rightarrow> (int \<times> hset) option) \<Rightarrow> bucket list \<Rightarrow> hset \<Rightarrow> hset option" where
  "set_rehash add [] new_set = Some new_set"
| "set_rehash add (b # bs) new_set =
     do { (_, s) \<leftarrow> add new_set (bk_value b) (length (bk_value b)); set_rehash add bs s }"

definition set_realloc :: "(hset \<Rightarrow> byte list \<Rightarrow> nat \<Rightarrow> (int \<times> hset) option) \<Rightarrow> allocator \<Rightarrow> hset \<Rightarrow> hset option" where
  "set_realloc add al s =
     do { let len = hs_len s * 2;
          a \<leftarrow> set_calloc al len;
          old \<leftarrow> hs_array s;
          set_rehash add (concat old)
            \<lparr>hs_entries = 0, hs_overflow = 0, hs_len = len, hs_hash = hs_hash s, hs_array = Some a\<rparr> }"

primrec set_add_n :: "nat \<Rightarrow> allocator \<Rightarrow> hset \<Rightarrow> byte list \<Rightarrow> nat \<Rightarrow> (int \<times> hset) option" where
  "set_add_n 0 al s val sz = None"
| "set_add_n (Suc n) al s val sz =
     do { s \<leftarrow> (if hs_entries s = 0 \<and> hs_len s = 0 \<and> hs_array s = None \<and> hs_hash s = None then set_init al None
                else Some s);
          there \<leftarrow> set_has s val sz;
          if there then Some (2, s)
          else do { s \<leftarrow> (if 4 * unat (hs_entries s - hs_overflow s) > 3 * unat (hs_len s)
                          then set_realloc (set_add_n n al) al s else Some s);
                    s \<leftarrow> set_place al s val sz;
                    Some (1, s) } }"

definition set_add :: "allocator \<Rightarrow> hset \<Rightarrow> byte list \<Rightarrow> nat \<Rightarrow> (int \<times> hset) option" where
  "set_add al s val sz = set_add_n 33 al s val sz"

definition set_adds :: "allocator \<Rightarrow> hset \<Rightarrow> byte list \<Rightarrow> (int \<times> hset) option" where
  "set_adds al s str = do { n \<leftarrow> str_len str; set_add al s str n }"

definition set_addsa :: "allocator \<Rightarrow> hset \<Rightarrow> stralloc \<Rightarrow> (int \<times> hset) option" where
  "set_addsa al s sa = set_add al s (sa_mem sa) (unat (sa_len sa))"

definition set_has_sa :: "hset \<Rightarrow> stralloc \<Rightarrow> bool option" where
  "set_has_sa s sa = set_has s (sa_mem sa) (unat (sa_len sa))"

subsection \<open>Removal\<close>

text \<open>
  \<open>set_find\<close> returns NULL, the address of one of its own local variables (when the head of the chain
  matches) or the address of the \<open>next\<close> field in front of the bucket.  In an unused slot it compares with the NULL value when size and hash are 0.
\<close>

datatype set_ref = RefNull | RefLocal | RefNext nat nat

fun set_find_bucket :: "bucket list \<Rightarrow> nat \<Rightarrow> nat \<Rightarrow> byte list \<Rightarrow> nat \<Rightarrow> uint32 \<Rightarrow> set_ref option" where
  "set_find_bucket [] i pos val sz hash = Some RefNull"
| "set_find_bucket (b # bs) i pos val sz hash =
     (if sz = length (bk_value b) \<and> bk_hash b = hash then
        do { d \<leftarrow> byte_diff (bk_value b) sz val;
             if d = 0 then Some (if pos = 0 then RefLocal else RefNext i pos)
             else set_find_bucket bs i (Suc pos) val sz hash }
      else set_find_bucket bs i (Suc pos) val sz hash)"

definition set_find :: "hset \<Rightarrow> byte list \<Rightarrow> nat \<Rightarrow> set_ref option" where
  "set_find s val sz =
     do { hash \<leftarrow> set_hash s val sz;
          if hs_len s = 0 then None
          else do { a \<leftarrow> hs_array s;
                    let i = unat (hash mod hs_len s);
                    b \<leftarrow> rd a i;
                    if b = [] \<and> sz = 0 \<and> hash = 0 then None else set_find_bucket b i 0 val sz hash } }"

definition set_delete :: "hset \<Rightarrow> byte list \<Rightarrow> nat \<Rightarrow> (int \<times> hset) option" where
  "set_delete s val sz =
     do { ptr \<leftarrow> set_find s val sz;
          case ptr of
            RefNull \<Rightarrow> None
          | RefLocal \<Rightarrow> None
          | RefNext i pos \<Rightarrow>
              do { a \<leftarrow> hs_array s;
                   b \<leftarrow> rd a i;
                   Some (1, s\<lparr>hs_array := Some (a[i := take pos b @ drop (Suc pos) b])\<rparr>) } }"

definition set_clear :: "hset \<Rightarrow> hset option" where
  "set_clear s = do { a \<leftarrow> hs_array s;
     Some (s\<lparr>hs_array := Some (map (\<lambda>_. []) a), hs_overflow := 0, hs_entries := 0\<rparr>) }"

text \<open>The number of blocks \<open>set_free_array\<close> releases: every value, every bucket behind a head, the array.\<close>

definition set_free_array :: "hset \<Rightarrow> nat option" where
  "set_free_array s = map_option (\<lambda>a. sum_list (map (\<lambda>b. length b + (length b - 1)) a) + 1) (hs_array s)"

definition set_free :: "hset \<Rightarrow> nat option" where
  "set_free s = set_free_array s"

subsection \<open>Iteration\<close>

record set_iterator =
  it_index :: nat
  it_current :: "(nat \<times> nat) option"

text \<open>The search for the next head that holds a value, from slot \<open>index\<close> on.\<close>

fun it_seek :: "bucket list list \<Rightarrow> nat \<Rightarrow> nat option" where
  "it_seek [] index = None"
| "it_seek (b # bs) index = (if b \<noteq> [] then Some index else it_seek bs (Suc index))"

definition set_iterator_init :: "hset \<Rightarrow> int \<times> set_iterator" where
  "set_iterator_init s =
     (case hs_array s of
        None \<Rightarrow> (0, \<lparr>it_index = 0, it_current = None\<rparr>)
      | Some a \<Rightarrow>
          (case it_seek a 0 of
             None \<Rightarrow> (0, \<lparr>it_index = 0, it_current = None\<rparr>)
           | Some i \<Rightarrow> (1, \<lparr>it_index = i, it_current = Some (i, 0)\<rparr>)))"

definition set_iterator_next :: "hset \<Rightarrow> set_iterator \<Rightarrow> (int \<times> set_iterator) option" where
  "set_iterator_next s it =
     (case it_current it of
        None \<Rightarrow> Some (0, it)
      | Some (i, pos) \<Rightarrow>
          do { a \<leftarrow> hs_array s;
               b \<leftarrow> rd a i;
               Some (if Suc pos < length b then (1, it\<lparr>it_current := Some (i, Suc pos)\<rparr>)
                     else case it_seek (drop (Suc (it_index it)) a) (Suc (it_index it)) of
                            None \<Rightarrow> (3, it\<lparr>it_current := None\<rparr>)
                          | Some j \<Rightarrow> (1, \<lparr>it_index = j, it_current = Some (j, 0)\<rparr>)) })"

definition set_iterator_value :: "hset \<Rightarrow> set_iterator \<Rightarrow> byte list option option" where
  "set_iterator_value s it =
     (case it_current it of
        None \<Rightarrow> Some None
      | Some (i, pos) \<Rightarrow> do { a \<leftarrow> hs_array s; b \<leftarrow> rd a i; e \<leftarrow> rd b pos; Some (Some (bk_value e)) })"

definition set_iterator_erase :: "set_iterator \<Rightarrow> int" where
  "set_iterator_erase it = (if it_current it = None then 0 else 1)"

fun it_find :: "bucket list \<Rightarrow> nat \<Rightarrow> byte list \<Rightarrow> nat \<Rightarrow> nat option option" where
  "it_find [] pos x n = Some None"
| "it_find (b # bs) pos x n =
     (if n = length (bk_value b) then
        do { eq \<leftarrow> byte_equal (bk_value b) n x; if eq then Some (Some pos) else it_find bs (Suc pos) x n }
      else it_find bs (Suc pos) x n)"

definition set_iterator_find :: "hset \<Rightarrow> set_iterator \<Rightarrow> byte list \<Rightarrow> nat \<Rightarrow> (int \<times> set_iterator) option" where
  "set_iterator_find s it x n =
     (case it_current it of
        None \<Rightarrow> Some (0, it)
      | Some (i, pos) \<Rightarrow>
          do { a \<leftarrow> hs_array s;
               b \<leftarrow> rd a i;
               r \<leftarrow> it_find (drop pos b) pos x n;
               Some (if r = None then 0 else 1, it\<lparr>it_current := map_option (Pair i) r\<rparr>) })"

text \<open>The loop of the macro \<open>set_foreach\<close>: the values the iterator gives, in order.\<close>

partial_function (option) foreach_values :: "hset \<Rightarrow> set_iterator \<Rightarrow> byte list list option" where
  "foreach_values s it =
     do { x \<leftarrow> set_iterator_value s it;
          case x of
            None \<Rightarrow> Some []
          | Some v \<Rightarrow> do { (_, it') \<leftarrow> set_iterator_next s it; vs \<leftarrow> foreach_values s it'; Some (v # vs) } }"

definition set_foreach :: "hset \<Rightarrow> byte list list option" where
  "set_foreach s = foreach_values s (snd (set_iterator_init s))"

subsection \<open>Operations on whole sets\<close>

text \<open>The set that is read and the set that is changed are different objects.\<close>

fun set_cat_loop :: "allocator \<Rightarrow> byte list list \<Rightarrow> int \<Rightarrow> hset \<Rightarrow> (int \<times> hset) option" where
  "set_cat_loop al [] r s = Some (r, s)"
| "set_cat_loop al (x # xs) r s =
     do { there \<leftarrow> set_has s x (length x);
          if there then set_cat_loop al xs r s
          else do { (_, s) \<leftarrow> set_add al s x (length x); set_cat_loop al xs (r + 1) s } }"

definition set_cat :: "allocator \<Rightarrow> hset \<Rightarrow> hset \<Rightarrow> (int \<times> hset) option" where
  "set_cat al s other = do { xs \<leftarrow> set_foreach other; set_cat_loop al xs 0 s }"

fun set_sub_loop :: "allocator \<Rightarrow> hset \<Rightarrow> byte list list \<Rightarrow> int \<Rightarrow> hset \<Rightarrow> (int \<times> hset) option" where
  "set_sub_loop al b [] r c = Some (r, c)"
| "set_sub_loop al b (x # xs) r c =
     do { there \<leftarrow> set_has b x (length x);
          if there then set_sub_loop al b xs r c
          else do { (_, c) \<leftarrow> set_add al c x (length x); set_sub_loop al b xs (r + 1) c } }"

definition set_sub :: "allocator \<Rightarrow> hset \<Rightarrow> hset \<Rightarrow> hset \<Rightarrow> (int \<times> hset) option" where
  "set_sub al a b c = do { xs \<leftarrow> set_foreach a; set_sub_loop al b xs 0 c }"

fun set_filter_loop :: "allocator \<Rightarrow> (byte list \<Rightarrow> int) \<Rightarrow> int \<Rightarrow> byte list list \<Rightarrow> int \<Rightarrow> hset \<Rightarrow> (int \<times> hset) option" where
  "set_filter_loop al pred magic [] r out = Some (r, out)"
| "set_filter_loop al pred magic (x # xs) r out =
     (if magic = pred x then
        do { (_, out) \<leftarrow> set_add al out x (length x); set_filter_loop al pred magic xs (r + 1) out }
      else set_filter_loop al pred magic xs r out)"

definition set_filter :: "allocator \<Rightarrow> hset \<Rightarrow> hset \<Rightarrow> (byte list \<Rightarrow> int) \<Rightarrow> (int \<times> hset) option" where
  "set_filter al s out pred = do { xs \<leftarrow> set_foreach s; set_filter_loop al pred 1 xs 0 out }"

definition set_filter_out :: "allocator \<Rightarrow> hset \<Rightarrow> hset \<Rightarrow> (byte list \<Rightarrow> int) \<Rightarrow> (int \<times> hset) option" where
  "set_filter_out al s out pred = do { xs \<leftarrow> set_foreach s; set_filter_loop al pred 0 xs 0 out }"

definition set_at_n :: "hset \<Rightarrow> nat \<Rightarrow> byte list option option" where
  "set_at_n s pos = do { xs \<leftarrow> set_foreach s; Some (if pos < length xs then Some (xs ! pos) else None) }"

text \<open>The array of pointers is a list of values; \<open>None\<close> in it is NULL.\<close>

fun set_toarray_loop :: "byte list option list \<Rightarrow> nat \<Rightarrow> byte list list \<Rightarrow> byte list option list option" where
  "set_toarray_loop arr i [] = Some arr"
| "set_toarray_loop arr i (x # xs) = do { arr \<leftarrow> wr arr i (Some x); set_toarray_loop arr (Suc i) xs }"

definition set_toarray :: "allocator \<Rightarrow> hset \<Rightarrow> byte list option list option" where
  "set_toarray al s =
     do { let n = unat (hs_entries s + 1);
          _ \<leftarrow> malloc al (8 * n);
          a \<leftarrow> hs_array s;
          arr \<leftarrow> set_toarray_loop (replicate n None) 0 (map bk_value (concat a));
          wr arr (unat (hs_entries s)) None }"

fun fmt_set_loop :: "byte list \<Rightarrow> nat \<Rightarrow> byte list list \<Rightarrow> byte list" where
  "fmt_set_loop sep i [] = []"
| "fmt_set_loop sep i (x # xs) = (if i > 0 then sep else []) @ x @ fmt_set_loop sep (Suc i) xs"

definition fmt_set :: "bool \<Rightarrow> hset \<Rightarrow> byte list \<Rightarrow> (nat \<times> byte list) option" where
  "fmt_set out s separator =
     do { slen \<leftarrow> str_len separator;
          xs \<leftarrow> set_foreach s;
          let w = fmt_set_loop (take slen separator) 0 xs;
          Some (length w, if out then w else []) }"

definition stralloc_catset :: "allocator \<Rightarrow> stralloc \<Rightarrow> hset \<Rightarrow> byte list \<Rightarrow> (nat \<times> stralloc) option" where
  "stralloc_catset al sa s separator =
     do { (n, _) \<leftarrow> fmt_set False s separator;
          (_, sa) \<leftarrow> stralloc_readyplus al sa (of_nat n);
          (n, w) \<leftarrow> fmt_set True s separator;
          sa \<leftarrow> sa_emit sa w;
          Some (n, sa) }"

fun buffer_putset_loop :: "buffer \<Rightarrow> dev \<Rightarrow> byte list \<Rightarrow> uint64 \<Rightarrow> nat \<Rightarrow> byte list list \<Rightarrow> (buffer \<times> dev) option" where
  "buffer_putset_loop b d sep seplen i [] = Some (b, d)"
| "buffer_putset_loop b d sep seplen i (x # xs) =
     do { let w = rev (dropWhile (\<lambda>c. c = 0) (rev x));
          (b, d) \<leftarrow> (if i > 0 then map_option snd (buffer_put b d sep seplen) else Some (b, d));
          (b, d) \<leftarrow> map_option snd (buffer_put b d w (of_nat (length w)));
          buffer_putset_loop b d sep seplen (Suc i) xs }"

definition buffer_putset :: "buffer \<Rightarrow> dev \<Rightarrow> hset \<Rightarrow> byte list \<Rightarrow> uint64 \<Rightarrow> (buffer \<times> dev) option" where
  "buffer_putset b d s sep seplen =
     do { xs \<leftarrow> set_foreach s; buffer_putset_loop b d sep seplen 0 xs }"

subsection \<open>The invariant\<close>

text \<open>
  What the set relies on of its hash function: it returns on every block, and its value depends on the
  bytes of the value only.
\<close>

definition hash_ok :: "hashfn \<Rightarrow> (byte list \<Rightarrow> uint32) \<Rightarrow> bool" where
  "hash_ok H g \<longleftrightarrow> (\<forall>v r. H (v @ r) (length v) = Some (g v))"

definition hs_slots :: "hset \<Rightarrow> bucket list list" where
  "hs_slots s = (case hs_array s of None \<Rightarrow> [] | Some a \<Rightarrow> a)"

definition hs_vals :: "hset \<Rightarrow> byte list list" where
  "hs_vals s = map bk_value (concat (hs_slots s))"

definition slot_ok :: "(byte list \<Rightarrow> uint32) \<Rightarrow> nat \<Rightarrow> nat \<Rightarrow> bucket list \<Rightarrow> bool" where
  "slot_ok g k i bs \<longleftrightarrow> distinct (map bk_value bs) \<and>
     (\<forall>b\<in>set bs. bk_hash b = g (bk_value b) \<and> take_bit k (unat (bk_hash b)) = i)"

definition chained :: "bucket list list \<Rightarrow> nat" where
  "chained a = sum_list (map (\<lambda>b. length b - 1) a)"

definition hs_ok :: "(byte list \<Rightarrow> uint32) \<Rightarrow> nat \<Rightarrow> hset \<Rightarrow> bool" where
  "hs_ok g k s \<longleftrightarrow> k < 32 \<and> hs_len s = 2 ^ k \<and> hs_array s \<noteq> None \<and> length (hs_slots s) = 2 ^ k \<and>
     (\<exists>H. hs_hash s = Some H \<and> hash_ok H g) \<and>
     (\<forall>i<2 ^ k. slot_ok g k i (hs_slots s ! i)) \<and>
     hs_entries s = of_nat (length (concat (hs_slots s))) \<and> hs_overflow s = of_nat (chained (hs_slots s))"

lemma hs_okD:
  assumes "hs_ok g k s"
  shows "k < 32" "hs_len s = 2 ^ k" "hs_array s = Some (hs_slots s)" "length (hs_slots s) = 2 ^ k"
    "set_hash s (v @ r) (length v) = Some (g v)" "i < 2 ^ k \<Longrightarrow> slot_ok g k i (hs_slots s ! i)"
    "hs_entries s = of_nat (length (concat (hs_slots s)))" "hs_overflow s = of_nat (chained (hs_slots s))"
  using assms by (auto simp: hs_ok_def hash_ok_def set_hash_def hs_slots_def)

lemma hash_index:
  assumes "k < 32"
  shows "unat (x mod 2 ^ k :: uint32) = take_bit k (unat x)" "unat (x AND (2 ^ k - 1) :: uint32) = take_bit k (unat x)"
    "take_bit k (unat x) < 2 ^ k"
proof -
  show "unat (x mod 2 ^ k :: uint32) = take_bit k (unat x)"
    by (metis take_bit_eq_mod unsigned_take_bit_eq)
  show "unat (x AND (2 ^ k - 1) :: uint32) = take_bit k (unat x)"
    by (metis mask_eq_exp_minus_1 take_bit_eq_mask unsigned_take_bit_eq)
qed simp

lemma unat_pow32: "k < 32 \<Longrightarrow> unat (2 ^ k :: uint32) = 2 ^ k"
  using unat_of_nat32[of "2 ^ k"] power_strict_increasing[of k 32 "2 :: nat"] by simp

lemma set_has_loop_eq:
  "\<forall>b\<in>set bs. bk_hash b = g (bk_value b) \<Longrightarrow>
     set_has_loop bs (v @ r) (length v) (g v) = Some (v \<in> bk_value ` set bs)"
proof (induction bs)
  case (Cons b bs)
  show ?case
  proof (cases "length v = length (bk_value b)")
    case True
    then obtain d where "byte_diff (bk_value b) (length v) (v @ r) = Some d" "d = 0 \<longleftrightarrow> bk_value b = v"
      using byte_diff_zero[of "length v" "bk_value b" "v @ r"] by auto
    then show ?thesis using Cons True by auto
  next
    case False
    then show ?thesis using Cons by auto
  qed
qed simp

lemma hs_in_slot:
  assumes "hs_ok g k s"
  shows "v \<in> set (hs_vals s) \<longleftrightarrow> v \<in> bk_value ` set (hs_slots s ! take_bit k (unat (g v)))"
proof
  let ?a = "hs_slots s" let ?i = "take_bit k (unat (g v))"
  assume "v \<in> set (hs_vals s)"
  then obtain bs b where b: "bs \<in> set ?a" "b \<in> set bs" "bk_value b = v" by (auto simp: hs_vals_def)
  then obtain i where i: "i < 2 ^ k" "bs = ?a ! i" using hs_okD(4)[OF assms] by (metis in_set_conv_nth)
  have "slot_ok g k i bs" using hs_okD(6)[OF assms i(1)] i(2) by simp
  then have "i = ?i" using b by (auto simp: slot_ok_def)
  then show "v \<in> bk_value ` set (?a ! ?i)" using b i by blast
next
  let ?a = "hs_slots s" let ?i = "take_bit k (unat (g v))"
  assume "v \<in> bk_value ` set (?a ! ?i)"
  moreover have "?i < length ?a" using hs_okD(4)[OF assms] by simp
  ultimately show "v \<in> set (hs_vals s)" by (force simp: hs_vals_def)
qed

lemma set_has_eq:
  assumes "hs_ok g k s"
  shows "set_has s (v @ r) (length v) = Some (v \<in> set (hs_vals s))"
proof -
  note d = hs_okD[OF assms]
  let ?i = "take_bit k (unat (g v))"
  have i: "?i < 2 ^ k" by simp
  have ne: "hs_len s \<noteq> 0" using unat_pow32[OF d(1)] d(2) by (metis power_not_zero unat_0 zero_neq_numeral)
  have "\<forall>b\<in>set (hs_slots s ! ?i). bk_hash b = g (bk_value b)" using d(6)[OF i] by (simp add: slot_ok_def)
  then have "set_has_loop (hs_slots s ! ?i) (v @ r) (length v) (g v) = Some (v \<in> set (hs_vals s))"
    using set_has_loop_eq hs_in_slot[OF assms] by simp
  then show ?thesis using d(2,3,4,5) ne i hash_index(1)[OF d(1)] by (simp add: set_has_def)
qed

subsection \<open>Insertion\<close>

lemma used_slots: "length (concat a) = chained a + length (filter (\<lambda>b. b \<noteq> []) a)"
  by (induction a) (auto simp: chained_def Suc_diff_le length_greater_0_conv[symmetric] simp del: length_greater_0_conv)

lemma hs_used:
  assumes "hs_ok g k s" "length (concat (hs_slots s)) < 2 ^ 32"
  shows "unat (hs_entries s - hs_overflow s) = length (filter (\<lambda>b. b \<noteq> []) (hs_slots s))"
proof -
  let ?a = "hs_slots s" let ?u = "length (filter (\<lambda>b. b \<noteq> []) ?a)"
  have "hs_entries s - hs_overflow s = of_nat ?u"
    using hs_okD(7,8)[OF assms(1)] used_slots[of ?a] by simp
  moreover have "?u < 2 ^ 32" using used_slots[of ?a] assms(2) by simp
  ultimately show ?thesis by (simp add: unat_of_nat32)
qed

lemma concat_update:
  "i < length a \<Longrightarrow> set (concat (a[i := a ! i @ [e]])) = insert e (set (concat a)) \<and>
     length (concat (a[i := a ! i @ [e]])) = Suc (length (concat a))"
  by (induction a arbitrary: i) (auto split: nat.splits)

lemma chained_update:
  "i < length a \<Longrightarrow> chained (a[i := a ! i @ [e]]) = chained a + (if a ! i = [] then 0 else 1)"
proof (induction a arbitrary: i)
  case (Cons b a)
  show ?case
  proof (cases i)
    case 0
    then show ?thesis by (cases b) (simp_all add: chained_def)
  next
    case (Suc j)
    then show ?thesis using Cons.IH[of j] Cons.prems by (simp add: chained_def)
  qed
qed simp

lemma set_bucket_new_eq:
  assumes "grants al"
  shows "set_bucket_new al (v @ r) (length v) h = Some \<lparr>bk_value = v, bk_hash = h\<rparr>"
proof -
  obtain m where m: "malloc al (length v) = Some m" using grants_malloc(1)[OF assms] by blast
  then show ?thesis
    using length_malloc[OF m] byte_copy_eq[of 0 "length v" m 0 "v @ r"] by (simp add: set_bucket_new_def splice_def)
qed

lemma set_place_ok:
  assumes "grants al" "hs_ok g k s" "v \<notin> set (hs_vals s)"
  shows "\<exists>s'. set_place al s (v @ r) (length v) = Some s' \<and> hs_ok g k s' \<and> set (hs_vals s') = insert v (set (hs_vals s))"
proof -
  note d = hs_okD[OF assms(2)]
  let ?i = "take_bit k (unat (g v))" let ?a = "hs_slots s" let ?e = "\<lparr>bk_value = v, bk_hash = g v\<rparr>"
  let ?b = "?a ! ?i" let ?a' = "?a[?i := ?b @ [?e]]"
  let ?s = "s\<lparr>hs_array := Some ?a', hs_overflow := hs_overflow s + (if ?b = [] then 0 else 1),
              hs_entries := hs_entries s + 1\<rparr>"
  have i: "?i < length ?a" using d(4) by simp
  obtain m where m: "malloc al 32 = Some m" using grants_malloc(1)[OF assms(1)] by blast
  have "set_place al s (v @ r) (length v) = Some ?s"
    using d(2,3,5) i hash_index(2)[OF d(1)] m set_bucket_new_eq[OF assms(1), of v r "g v"]
    by (cases "?b = []") (simp_all add: set_place_def Let_def)
  moreover have slots: "hs_slots ?s = ?a'" by (simp add: hs_slots_def)
  moreover have "slot_ok g k j (?a' ! j)" if "j < 2 ^ k" for j
    using d(6)[OF that] hs_in_slot[OF assms(2), of v] assms(3) that d(4) by (cases "j = ?i") (auto simp: slot_ok_def)
  then have "hs_ok g k ?s"
    using assms(2) concat_update[OF i, of ?e] chained_update[OF i, of ?e] slots d(4,7,8)
    unfolding hs_ok_def by (simp add: add.commute)
  moreover have "set (hs_vals ?s) = insert v (set (hs_vals s))"
    using concat_update[OF i, of ?e] slots by (simp add: hs_vals_def)
  ultimately show ?thesis by blast
qed

lemma hs_empty_ok:
  assumes "k < 32" "hash_ok H g"
  shows "hs_ok g k \<lparr>hs_entries = 0, hs_overflow = 0, hs_len = 2 ^ k, hs_hash = Some H, hs_array = Some (replicate (2 ^ k) [])\<rparr>"
  using assms by (auto simp: hs_ok_def hs_slots_def slot_ok_def chained_def sum_list_replicate concat_replicate_trivial)

lemma set_calloc_eq: "grants al \<Longrightarrow> k < 32 \<Longrightarrow> set_calloc al (2 ^ k) = Some (replicate (2 ^ k) [])"
  using grants_malloc(1)[of al] by (auto simp: set_calloc_def unat_pow32)

text \<open>Insertions that keep the invariant and add their value fill a table from a list.\<close>

definition adds :: "(byte list \<Rightarrow> uint32) \<Rightarrow> nat \<Rightarrow> byte list set \<Rightarrow> (hset \<Rightarrow> byte list \<Rightarrow> nat \<Rightarrow> (int \<times> hset) option) \<Rightarrow> bool" where
  "adds g K V add \<longleftrightarrow> (\<forall>s k v. hs_ok g k s \<longrightarrow> K \<le> k \<longrightarrow> insert v (set (hs_vals s)) \<subseteq> V \<longrightarrow>
     (\<exists>n s' k'. add s v (length v) = Some (n, s') \<and> hs_ok g k' s' \<and> K \<le> k' \<and> set (hs_vals s') = insert v (set (hs_vals s))))"

lemma set_rehash_ok:
  assumes "adds g K V add"
  shows "hs_ok g k s \<Longrightarrow> K \<le> k \<Longrightarrow> set (hs_vals s) \<union> bk_value ` set bs \<subseteq> V \<Longrightarrow>
      \<exists>s' k'. set_rehash add bs s = Some s' \<and> hs_ok g k' s' \<and> K \<le> k' \<and> set (hs_vals s') = set (hs_vals s) \<union> bk_value ` set bs"
proof (induction bs arbitrary: s k)
  case (Cons b bs)
  have "insert (bk_value b) (set (hs_vals s)) \<subseteq> V" using Cons.prems(3) by auto
  then obtain n s1 k1 where s1: "add s (bk_value b) (length (bk_value b)) = Some (n, s1)" "hs_ok g k1 s1" "K \<le> k1"
      "set (hs_vals s1) = insert (bk_value b) (set (hs_vals s))"
    using assms[unfolded adds_def, rule_format, OF Cons.prems(1,2)] by blast
  have "set (hs_vals s1) \<union> bk_value ` set bs \<subseteq> V" using s1(4) Cons.prems(3) by auto
  from Cons.IH[OF s1(2,3) this] obtain s2 k2 where "set_rehash add bs s1 = Some s2" "hs_ok g k2 s2" "K \<le> k2"
    "set (hs_vals s2) = set (hs_vals s1) \<union> bk_value ` set bs" by blast
  then show ?case using s1(1,4) by auto
qed auto

lemma set_realloc_ok:
  assumes "grants al" "hs_ok g k s" "k < 31" "adds g (Suc k) V add" "set (hs_vals s) \<subseteq> V"
  shows "\<exists>s' k'. set_realloc add al s = Some s' \<and> hs_ok g k' s' \<and> k < k' \<and> set (hs_vals s') = set (hs_vals s)"
proof -
  note d = hs_okD[OF assms(2)]
  obtain H where H: "hs_hash s = Some H" "hash_ok H g" using assms(2) by (auto simp: hs_ok_def)
  let ?n = "\<lparr>hs_entries = 0, hs_overflow = 0, hs_len = 2 ^ Suc k, hs_hash = Some H, hs_array = Some (replicate (2 ^ Suc k) [])\<rparr>"
  have ok: "hs_ok g (Suc k) ?n" using assms(3) H(2) by (intro hs_empty_ok) simp_all
  have vals: "hs_vals ?n = []" by (simp add: hs_vals_def hs_slots_def concat_replicate_trivial)
  have "set (hs_vals ?n) \<union> bk_value ` set (concat (hs_slots s)) \<subseteq> V"
    unfolding vals using assms(5) by (simp add: hs_vals_def)
  from set_rehash_ok[OF assms(4) ok order.refl this] obtain s' k' where
    s': "set_rehash add (concat (hs_slots s)) ?n = Some s'" "hs_ok g k' s'" "Suc k \<le> k'"
      "set (hs_vals s') = set (hs_vals s)" unfolding vals by (auto simp: hs_vals_def)
  have "set_calloc al (2 ^ k * 2) = Some (replicate (2 ^ Suc k) [])"
    using set_calloc_eq[OF assms(1), of "Suc k"] assms(3) by (simp add: mult.commute)
  then have "set_realloc add al s = Some s'"
    using d(2,3) H(1) s'(1) by (simp add: set_realloc_def Let_def mult.commute)
  then show ?thesis using s' by auto
qed

lemma realloc_small:
  fixes u :: nat
  assumes "3 * 2 ^ k < 4 * u" "u \<le> 2 ^ 30"
  shows "k < 31"
proof (rule ccontr)
  assume "\<not> k < 31"
  then have "(2 :: nat) ^ 31 \<le> 2 ^ k" by (intro power_increasing) auto
  then show False using assms by simp
qed

lemma distinct_concat_keyed:
  "\<forall>i<length a. distinct (a ! i) \<and> (\<forall>x\<in>set (a ! i). f x = n + i) \<Longrightarrow> distinct (concat a)"
proof (induction a arbitrary: n)
  case (Cons b a)
  have tl: "\<forall>i<length a. distinct (a ! i) \<and> (\<forall>x\<in>set (a ! i). f x = Suc n + i)"
    using Cons.prems by (auto dest: spec[of _ "Suc _"])
  have "f x \<noteq> n" if x: "x \<in> set (concat a)" for x
  proof -
    obtain bs where "bs \<in> set a" "x \<in> set bs" using x by auto
    then obtain i where "i < length a" "x \<in> set (a ! i)" by (metis in_set_conv_nth)
    then have "f x = Suc n + i" using tl by blast
    then show ?thesis by simp
  qed
  then show ?case using Cons.IH[OF tl] Cons.prems by (fastforce dest: spec[of _ 0])
qed simp

lemma hs_distinct:
  assumes "hs_ok g k s"
  shows "distinct (hs_vals s)"
proof -
  have "distinct (concat (map (map bk_value) (hs_slots s)))"
  proof (rule distinct_concat_keyed[where f = "\<lambda>v. take_bit k (unat (g v))" and n = 0], intro allI impI)
    fix i assume "i < length (map (map bk_value) (hs_slots s))"
    then have i: "i < 2 ^ k" using hs_okD(4)[OF assms] by simp
    have "\<forall>b\<in>set (hs_slots s ! i). take_bit k (unat (g (bk_value b))) = i"
      using hs_okD(6)[OF assms i] unfolding slot_ok_def by metis
    then show "distinct (map (map bk_value) (hs_slots s) ! i) \<and>
        (\<forall>v\<in>set (map (map bk_value) (hs_slots s) ! i). take_bit k (unat (g v)) = 0 + i)"
      using hs_okD(4)[OF assms] hs_okD(6)[OF assms i] i unfolding slot_ok_def by simp
  qed
  then show ?thesis by (simp add: hs_vals_def map_concat)
qed

lemma set_add_n_step:
  assumes "grants al" "hs_ok g k s" "finite V" "card V \<le> 2 ^ 30" "insert v (set (hs_vals s)) \<subseteq> V"
    and add: "k < 31 \<Longrightarrow> adds g (Suc k) V (set_add_n n al)"
  shows "\<exists>s' k'. set_add_n (Suc n) al s (v @ r) (length v) = Some (if v \<in> set (hs_vals s) then 2 else 1, s') \<and>
      hs_ok g k' s' \<and> k \<le> k' \<and> set (hs_vals s') = insert v (set (hs_vals s))"
proof (cases "v \<in> set (hs_vals s)")
  case True
  then show ?thesis
    using assms(2) hs_okD(3)[OF assms(2)] set_has_eq[OF assms(2), of v r] by (auto simp: insert_absorb)
next
  case False
  let ?u = "length (filter (\<lambda>b. b \<noteq> []) (hs_slots s))"
  let ?grow = "4 * unat (hs_entries s - hs_overflow s) > 3 * unat (hs_len s)"
  have "length (concat (hs_slots s)) = card (set (hs_vals s))"
    using distinct_card[OF hs_distinct[OF assms(2)]] by (simp add: hs_vals_def)
  also have "\<dots> \<le> 2 ^ 30" using card_mono[OF assms(3), of "set (hs_vals s)"] assms(4,5) by simp
  finally have le: "length (concat (hs_slots s)) \<le> 2 ^ 30" .
  have used: "unat (hs_entries s - hs_overflow s) = ?u" "?u \<le> 2 ^ 30"
    using hs_used[OF assms(2)] le used_slots[of "hs_slots s"] by auto
  obtain s1 k1 where s1: "(if ?grow then set_realloc (set_add_n n al) al s else Some s) = Some s1"
    "hs_ok g k1 s1" "k \<le> k1" "set (hs_vals s1) = set (hs_vals s)"
  proof (cases ?grow)
    case True
    then have "k < 31"
      using realloc_small[of k ?u] used hs_okD(1,2)[OF assms(2)] unat_pow32[of k] by simp
    then show thesis
      using set_realloc_ok[OF assms(1,2) _ add] assms(5) True that by (auto simp: less_imp_le)
  next
    case False
    then show thesis using that assms(2) by auto
  qed
  obtain s2 where "set_place al s1 (v @ r) (length v) = Some s2" "hs_ok g k1 s2" "set (hs_vals s2) = insert v (set (hs_vals s))"
    using set_place_ok[OF assms(1) s1(2), of v r] s1(4) False by auto
  then show ?thesis
    using s1(1,3) False hs_okD(3)[OF assms(2)] set_has_eq[OF assms(2), of v r] by auto
qed

lemma set_add_n_ok:
  assumes "grants al" "finite V" "card V \<le> 2 ^ 30"
  shows "hs_ok g k s \<Longrightarrow> 31 \<le> k + n \<Longrightarrow> insert v (set (hs_vals s)) \<subseteq> V \<Longrightarrow>
    \<exists>s' k'. set_add_n (Suc n) al s (v @ r) (length v) = Some (if v \<in> set (hs_vals s) then 2 else 1, s') \<and>
      hs_ok g k' s' \<and> k \<le> k' \<and> set (hs_vals s') = insert v (set (hs_vals s))"
proof (induction n arbitrary: s k v r)
  case 0
  show ?case by (rule set_add_n_step[OF assms(1) 0(1) assms(2,3) 0(3)]) (use 0(2) in simp)
next
  case (Suc n)
  have "adds g (Suc k) V (set_add_n (Suc n) al)"
    unfolding adds_def
  proof (intro allI impI)
    fix s' k' v'
    assume *: "hs_ok g k' s'" "Suc k \<le> k'" "insert v' (set (hs_vals s')) \<subseteq> V"
    have "31 \<le> k' + n" using *(2) Suc.prems(2) by simp
    from Suc.IH[OF *(1) this *(3), of "[]"] *(2)
    show "\<exists>m s'' k''. set_add_n (Suc n) al s' v' (length v') = Some (m, s'') \<and> hs_ok g k'' s'' \<and> Suc k \<le> k'' \<and>
        set (hs_vals s'') = insert v' (set (hs_vals s'))"
      by (metis append_Nil2 order.trans)
  qed
  then show ?case by (intro set_add_n_step[OF assms(1) Suc.prems(1) assms(2,3) Suc.prems(3)])
qed

subsection \<open>Iteration\<close>

lemma it_seek_eq:
  "it_seek a n = (if concat a = [] then None
     else Some (n + length (takeWhile (\<lambda>b. b = []) a)))"
  by (induction a arbitrary: n) auto

lemma drop_to_used:
  "concat a \<noteq> [] \<Longrightarrow> \<exists>b bs. dropWhile (\<lambda>b. b = []) a = b # bs \<and> b \<noteq> [] \<and> concat a = b @ concat bs"
  by (induction a) auto

lemma foreach_values_at:
  assumes "hs_array s = Some a"
  shows "i < length a \<Longrightarrow> pos < length (a ! i) \<Longrightarrow>
    foreach_values s \<lparr>it_index = i, it_current = Some (i, pos)\<rparr> =
      Some (map bk_value (drop pos (a ! i) @ concat (drop (Suc i) a)))"
proof (induction "length (drop pos (a ! i) @ concat (drop (Suc i) a))" arbitrary: i pos rule: less_induct)
  case less
  let ?it = "\<lparr>it_index = i, it_current = Some (i, pos)\<rparr>"
  have val: "set_iterator_value s ?it = Some (Some (bk_value (a ! i ! pos)))"
    using less.prems assms by (simp add: set_iterator_value_def)
  have hd: "drop pos (a ! i) = a ! i ! pos # drop (Suc pos) (a ! i)" using less.prems(2) by (simp add: Cons_nth_drop_Suc)
  show ?case
  proof (cases "Suc pos < length (a ! i)")
    case True
    then have "set_iterator_next s ?it = Some (1, \<lparr>it_index = i, it_current = Some (i, Suc pos)\<rparr>)"
      using less.prems(1) assms by (simp add: set_iterator_next_def)
    moreover have "foreach_values s \<lparr>it_index = i, it_current = Some (i, Suc pos)\<rparr> =
        Some (map bk_value (drop (Suc pos) (a ! i) @ concat (drop (Suc i) a)))"
      using less.hyps[of "Suc pos" i] less.prems(1) True hd by simp
    ultimately show ?thesis using val hd by (subst foreach_values.simps) simp
  next
    case False
    then have tl: "drop (Suc pos) (a ! i) = []" by simp
    show ?thesis
    proof (cases "concat (drop (Suc i) a) = []")
      case True
      then have "set_iterator_next s ?it = Some (3, \<lparr>it_index = i, it_current = None\<rparr>)"
        using less.prems(1) assms False by (simp add: set_iterator_next_def it_seek_eq del: concat_eq_Nil_conv)
      moreover have "foreach_values s \<lparr>it_index = i, it_current = None\<rparr> = Some []"
        by (subst foreach_values.simps) (simp add: set_iterator_value_def)
      ultimately show ?thesis using val hd tl True by (subst foreach_values.simps) (simp del: concat_eq_Nil_conv)
    next
      case F: False
      let ?w = "takeWhile (\<lambda>b. b = []) (drop (Suc i) a)" let ?j = "Suc i + length ?w"
      obtain b bs where b: "dropWhile (\<lambda>b. b = []) (drop (Suc i) a) = b # bs" "b \<noteq> []"
          "concat (drop (Suc i) a) = b @ concat bs"
        using drop_to_used[OF F] by blast
      have "drop (Suc i) a = ?w @ b # bs" using takeWhile_dropWhile_id[of "\<lambda>b. b = []" "drop (Suc i) a"] b(1) by simp
      then have "drop ?j a = b # bs" by (metis add.commute append_eq_conv_conj drop_drop)
      then have j: "?j < length a" "a ! ?j = b" "drop (Suc ?j) a = bs"
        by (metis drop_all leI list.discI, metis nth_via_drop, metis drop_Suc list.sel(3) tl_drop)
      have next': "set_iterator_next s ?it = Some (1, \<lparr>it_index = ?j, it_current = Some (?j, 0)\<rparr>)"
        using less.prems(1) assms False F by (simp add: set_iterator_next_def it_seek_eq del: concat_eq_Nil_conv)
      have "length (drop 0 (a ! ?j) @ concat (drop (Suc ?j) a)) < length (drop pos (a ! i) @ concat (drop (Suc i) a))"
        using j b(3) hd by simp
      from less.hyps[OF this j(1)] have "foreach_values s \<lparr>it_index = ?j, it_current = Some (?j, 0)\<rparr> =
          Some (map bk_value (concat (drop (Suc i) a)))"
        using j b(2,3) by simp
      then show ?thesis using val hd tl next' by (subst foreach_values.simps) simp
    qed
  qed
qed

lemma set_foreach_eq:
  assumes "hs_array s = Some a"
  shows "set_foreach s = Some (map bk_value (concat a))"
proof (cases "concat a = []")
  case True
  then have "snd (set_iterator_init s) = \<lparr>it_index = 0, it_current = None\<rparr>"
    using assms by (simp add: set_iterator_init_def it_seek_eq del: concat_eq_Nil_conv)
  then show ?thesis
    unfolding set_foreach_def by (subst foreach_values.simps) (simp add: set_iterator_value_def True del: concat_eq_Nil_conv)
next
  case False
  let ?w = "takeWhile (\<lambda>b. b = []) a" let ?j = "length ?w"
  obtain b bs where b: "dropWhile (\<lambda>b. b = []) a = b # bs" "b \<noteq> []" "concat a = b @ concat bs"
    using drop_to_used[OF False] by blast
  have "a = ?w @ b # bs" using takeWhile_dropWhile_id[of "\<lambda>b. b = []" a] b(1) by simp
  then have "drop ?j a = b # bs" by (metis append_eq_conv_conj)
  then have j: "?j < length a" "a ! ?j = b" "drop (Suc ?j) a = bs"
    by (metis drop_all leI list.discI, metis nth_via_drop, metis drop_Suc list.sel(3) tl_drop)
  have "snd (set_iterator_init s) = \<lparr>it_index = ?j, it_current = Some (?j, 0)\<rparr>"
    using assms False by (simp add: set_iterator_init_def it_seek_eq del: concat_eq_Nil_conv)
  then show ?thesis
    unfolding set_foreach_def using foreach_values_at[OF assms j(1), of 0] j b(2,3) by simp
qed

subsection \<open>Whole-set operations\<close>

lemma set_add_ok:
  assumes "grants al" "hs_ok g k s" "card (insert v (set (hs_vals s))) \<le> 2 ^ 30"
  shows "\<exists>s' k'. set_add al s (v @ r) (length v) = Some (if v \<in> set (hs_vals s) then 2 else 1, s') \<and>
      hs_ok g k' s' \<and> set (hs_vals s') = insert v (set (hs_vals s))"
proof -
  have "set_add al s (v @ r) (length v) = set_add_n (Suc 32) al s (v @ r) (length v)"
    by (simp add: set_add_def del: set_add_n.simps)
  then show ?thesis using set_add_n_ok[OF assms(1) _ assms(3,2), of 32 v r] by (auto simp del: set_add_n.simps)
qed

lemma hs_size:
  assumes "hs_ok g k s"
  shows "set_size s = of_nat (card (set (hs_vals s)))"
  using distinct_card[OF hs_distinct[OF assms]] hs_okD(7)[OF assms] by (simp add: set_size_def hs_vals_def)

lemma set_foreach_vals: "hs_ok g k s \<Longrightarrow> set_foreach s = Some (hs_vals s)"
  using set_foreach_eq hs_okD(3) by (simp add: hs_vals_def)

lemma set_cat_loop_ok:
  assumes "grants al"
  shows "hs_ok g k s \<Longrightarrow> card (set (hs_vals s) \<union> set xs) \<le> 2 ^ 30 \<Longrightarrow>
    \<exists>s' k'. set_cat_loop al xs r s = Some (r + int (card (set xs - set (hs_vals s))), s') \<and> hs_ok g k' s' \<and>
      set (hs_vals s') = set (hs_vals s) \<union> set xs"
proof (induction xs arbitrary: r s k)
  case (Cons x xs)
  let ?V = "set (hs_vals s)"
  have has: "set_has s x (length x) = Some (x \<in> ?V)" using set_has_eq[OF Cons.prems(1), of x "[]"] by simp
  show ?case
  proof (cases "x \<in> ?V")
    case True
    then have "?V \<union> set (x # xs) = ?V \<union> set xs" "set (x # xs) - ?V = set xs - ?V" by auto
    then show ?thesis using Cons.IH[OF Cons.prems(1), of r] Cons.prems(2) has True by simp
  next
    case False
    have "card (insert x ?V) \<le> card (?V \<union> set (x # xs))" by (intro card_mono) auto
    then have "card (insert x ?V) \<le> 2 ^ 30" using Cons.prems(2) by (rule order.trans)
    then obtain s1 k1 where s1: "set_add al s x (length x) = Some (1, s1)" "hs_ok g k1 s1" "set (hs_vals s1) = insert x ?V"
      using set_add_ok[OF assms Cons.prems(1), of x "[]"] False by auto
    have u: "set (hs_vals s1) \<union> set xs = ?V \<union> set (x # xs)" using s1(3) by auto
    obtain s2 k2 where s2: "set_cat_loop al xs (r + 1) s1 = Some (r + 1 + int (card (set xs - set (hs_vals s1))), s2)"
      "hs_ok g k2 s2" "set (hs_vals s2) = set (hs_vals s1) \<union> set xs"
      using Cons.IH[OF s1(2), of "r + 1"] Cons.prems(2) unfolding u by blast
    have "set (x # xs) - ?V = insert x (set xs - set (hs_vals s1))" using s1(3) False by auto
    then have "int (card (set (x # xs) - ?V)) = 1 + int (card (set xs - set (hs_vals s1)))"
      using s1(3) by (simp add: card_insert_if)
    then have "set_cat_loop al (x # xs) r s = Some (r + int (card (set (x # xs) - ?V)), s2)"
      using has False s1(1) s2(1) by simp
    then show ?thesis using s2(2,3) unfolding u by blast
  qed
qed auto

lemma set_sub_loop_ok:
  assumes "grants al" "hs_ok h j b"
  shows "hs_ok g k c \<Longrightarrow> card (set (hs_vals c) \<union> set xs) \<le> 2 ^ 30 \<Longrightarrow>
    \<exists>c' k' n. set_sub_loop al b xs r c = Some (n, c') \<and> hs_ok g k' c' \<and>
      set (hs_vals c') = set (hs_vals c) \<union> (set xs - set (hs_vals b)) \<and> n = r + int (length (filter (\<lambda>x. x \<notin> set (hs_vals b)) xs))"
proof (induction xs arbitrary: r c k)
  case (Cons x xs)
  have has: "set_has b x (length x) = Some (x \<in> set (hs_vals b))" using set_has_eq[OF assms(2), of x "[]"] by simp
  show ?case
  proof (cases "x \<in> set (hs_vals b)")
    case True
    have "card (set (hs_vals c) \<union> set xs) \<le> card (set (hs_vals c) \<union> set (x # xs))" by (intro card_mono) auto
    then have "card (set (hs_vals c) \<union> set xs) \<le> 2 ^ 30" using Cons.prems(2) by (rule order.trans)
    then show ?thesis using Cons.IH[OF Cons.prems(1), of r] has True by (simp add: insert_Diff_if)
  next
    case False
    have "card (insert x (set (hs_vals c))) \<le> card (set (hs_vals c) \<union> set (x # xs))" by (intro card_mono) auto
    then have "card (insert x (set (hs_vals c))) \<le> 2 ^ 30" using Cons.prems(2) by (rule order.trans)
    then obtain m s1 k1 where s1: "set_add al c x (length x) = Some (m, s1)" "hs_ok g k1 s1" "set (hs_vals s1) = insert x (set (hs_vals c))"
      using set_add_ok[OF assms(1) Cons.prems(1), of x "[]"] by auto
    have u: "set (hs_vals s1) \<union> set xs = set (hs_vals c) \<union> set (x # xs)" using s1(3) by auto
    obtain s2 k2 where "set_sub_loop al b xs (r + 1) s1 = Some (r + 1 + int (length (filter (\<lambda>x. x \<notin> set (hs_vals b)) xs)), s2)"
      "hs_ok g k2 s2" "set (hs_vals s2) = set (hs_vals s1) \<union> (set xs - set (hs_vals b))"
      using Cons.IH[OF s1(2), of "r + 1"] Cons.prems(2) unfolding u by blast
    then show ?thesis using has False s1(1,3) by auto
  qed
qed auto

subsection \<open>Hash sets as key stores\<close>

definition hs_view :: "hset \<Rightarrow> byte list \<Rightarrow> unit option" where
  "hs_view s v = (if v \<in> set (hs_vals s) then Some () else None)"

definition hs_inv :: "(byte list \<Rightarrow> uint32) \<Rightarrow> byte list set \<Rightarrow> hset \<Rightarrow> bool" where
  "hs_inv g U s \<longleftrightarrow> (\<exists>k. hs_ok g k s) \<and> set (hs_vals s) \<subseteq> U"

definition hs_has :: "hset \<Rightarrow> byte list \<Rightarrow> unit option option" where
  "hs_has s v = map_option (\<lambda>b. if b then Some () else None) (set_has s v (length v))"

lemma hs_key_store:
  assumes "grants al" "finite U" "card U \<le> 2 ^ 30"
  shows "key_store (hs_inv g U) hs_view U (\<lambda>s v (_ :: unit). set_add al s v (length v)) hs_has 1 2"
proof
  fix s v and u :: unit
  assume s: "hs_inv g U s" and v: "v \<in> U"
  then obtain k where k: "hs_ok g k s" "insert v (set (hs_vals s)) \<subseteq> U" by (auto simp: hs_inv_def)
  show "hs_has s v = Some (hs_view s v)"
    using set_has_eq[OF k(1), of v "[]"] by (simp add: hs_has_def hs_view_def)
  have "card (insert v (set (hs_vals s))) \<le> 2 ^ 30" using card_mono[OF assms(2) k(2)] assms(3) by simp
  from set_add_ok[OF assms(1) k(1) this, of "[]"] obtain s' k' where
    s': "set_add al s v (length v) = Some (if v \<in> set (hs_vals s) then 2 else 1, s')" "hs_ok g k' s'"
      "set (hs_vals s') = insert v (set (hs_vals s))" by auto
  then have "hs_inv g U s'" "hs_view s' = (hs_view s)(v := Some u)"
    using k(2) by (auto simp: hs_inv_def hs_view_def fun_eq_iff)
  then show "\<exists>s'. set_add al s v (length v) = Some (if hs_view s v = None then 1 else 2, s') \<and> hs_inv g U s' \<and>
      hs_view s' = (hs_view s)(v := Some u)"
    using s'(1) by (simp add: hs_view_def)
qed

definition djb_hash :: "byte list \<Rightarrow> uint32" where
  "djb_hash v = foldl (\<lambda>h c. (push_bit 5 h + h) + ucast c) 5381 v"

lemma set_hash_loop_eq:
  "set_hash_loop (p @ v @ r) (length p) (length v) h = Some (foldl (\<lambda>h c. (push_bit 5 h + h) + ucast c) h v)"
proof (induction v arbitrary: p h)
  case (Cons c v)
  then show ?case using Cons.IH[of "p @ [c]"] by (simp add: nth_append)
qed simp

lemma set_hashfunc_ok: "hash_ok set_hashfunc djb_hash"
  using set_hash_loop_eq[of "[]"] by (simp add: hash_ok_def set_hashfunc_def djb_hash_def)

text \<open>The bytes as strings of length one are a universe that the code can hold.\<close>

definition one_byte :: "byte list set" where
  "one_byte = (\<lambda>c. [c]) ` UNIV"

lemma one_byte_small: "finite one_byte" "card one_byte \<le> 2 ^ 30"
  using card_image_le[of "UNIV :: byte set" "\<lambda>c. [c]"] by (auto simp: one_byte_def card_word)

interpretation hsk: key_store "hs_inv djb_hash one_byte" hs_view one_byte "\<lambda>s v (_ :: unit). set_add plenty s v (length v)"
  hs_has 1 2
  by (rule hs_key_store[OF grants_plenty one_byte_small])

lemma set_init_ok:
  assumes "grants al"
  shows "\<exists>s. set_init al None = Some s \<and> hs_ok djb_hash 10 s \<and> hs_vals s = []"
  using set_calloc_eq[OF assms, of 10] hs_empty_ok[OF _ set_hashfunc_ok, of 10]
  by (simp add: set_init_def BASE_SIZE_def hs_vals_def hs_slots_def concat_replicate_trivial)

text \<open>What \<open>set_find\<close> finds, and that \<open>set_delete\<close> can use none of it but a bucket in a chain.\<close>

lemma set_find_bucket_eq:
  "\<forall>b\<in>set bs. bk_hash b = g (bk_value b) \<Longrightarrow> \<exists>p. set_find_bucket bs i pos (v @ r) (length v) (g v) = Some p \<and>
     (v \<notin> bk_value ` set bs \<longrightarrow> p = RefNull) \<and> (pos = 0 \<longrightarrow> bs \<noteq> [] \<longrightarrow> bk_value (hd bs) = v \<longrightarrow> p = RefLocal)"
proof (induction bs arbitrary: pos)
  case (Cons b bs)
  obtain p where p: "set_find_bucket bs i (Suc pos) (v @ r) (length v) (g v) = Some p" "v \<notin> bk_value ` set bs \<longrightarrow> p = RefNull"
    using Cons.IH[of "Suc pos"] Cons.prems by auto
  show ?case
  proof (cases "length v = length (bk_value b)")
    case True
    then obtain d where "byte_diff (bk_value b) (length v) (v @ r) = Some d" "d = 0 \<longleftrightarrow> bk_value b = v"
      using byte_diff_zero[of "length v" "bk_value b" "v @ r"] by auto
    then show ?thesis using Cons.prems True p by auto
  next
    case False
    then show ?thesis using p by auto
  qed
qed simp

subsection \<open>Claims\<close>

text \<open>
  C10. Adding to a hash set: given memory and at most \<open>2\<^sup>3\<^sup>0\<close> values, \<open>set_add\<close> returns, however often
  the table has to double, says whether the value is new, and the set has exactly that value more.
\<close>

theorem set_add_exact:
  assumes "grants al" "hs_ok g k s" "card (insert v (set (hs_vals s))) \<le> 2 ^ 30"
  shows "\<exists>s' k'. set_add al s (v @ r) (length v) = Some (if v \<in> set (hs_vals s) then 2 else 1, s') \<and>
      hs_ok g k' s' \<and> set (hs_vals s') = insert v (set (hs_vals s)) \<and>
      set_size s' = of_nat (card (set (hs_vals s')))"
  using set_add_ok[OF assms] hs_size by blast

theorem set_add_exact_witness:
  "\<exists>s. set_init plenty None = Some s \<and>
    (\<exists>s' k'. set_add plenty s ([97] @ []) (length [97 :: byte]) = Some (if [97] \<in> set (hs_vals s) then 2 else 1, s') \<and>
      hs_ok djb_hash k' s' \<and> set (hs_vals s') = insert [97] (set (hs_vals s)) \<and>
      set_size s' = of_nat (card (set (hs_vals s'))))"
proof -
  obtain s where s: "set_init plenty None = Some s" "hs_ok djb_hash 10 s" "hs_vals s = []"
    using set_init_ok[OF grants_plenty] by blast
  have "card (insert [97] (set (hs_vals s))) \<le> 2 ^ 30" using s(3) by simp
  from s(1) set_add_exact[OF grants_plenty s(2) this, of "[]"] show ?thesis by blast
qed

text \<open>
  Membership: \<open>set_has\<close> answers whether the value is in the set, also for a value given inside a
  longer block.
\<close>

theorem set_has_exact:
  assumes "hs_ok g k s"
  shows "set_has s (v @ r) (length v) = Some (v \<in> set (hs_vals s))"
  using assms by (rule set_has_eq)

theorem set_has_exact_witness:
  "\<exists>s. set_init plenty None = Some s \<and> set_has s ([97] @ [98]) (length [97 :: byte]) = Some ([97] \<in> set (hs_vals s))"
  using set_init_ok[OF grants_plenty] set_has_exact[of djb_hash 10 _ "[97]" "[98]"] by blast

text \<open>
  C28. Iteration ends and gives every value of the set exactly once.
\<close>

theorem set_foreach_complete:
  assumes "hs_ok g k s"
  shows "\<exists>vs. set_foreach s = Some vs \<and> distinct vs \<and> set vs = set (hs_vals s) \<and> of_nat (length vs) = set_size s"
  using set_foreach_vals[OF assms] hs_distinct[OF assms] hs_size[OF assms] distinct_card[OF hs_distinct[OF assms]] by simp

theorem set_foreach_complete_witness:
  "\<exists>s s1 s2 vs. set_init plenty None = Some s \<and> set_add plenty s ([97] @ []) (length [97 :: byte]) = Some (1, s1) \<and>
     set_add plenty s1 ([98] @ []) (length [98 :: byte]) = Some (1, s2) \<and>
     set_foreach s2 = Some vs \<and> distinct vs \<and> set vs = {[97], [98]} \<and> of_nat (length vs) = set_size s2"
proof -
  obtain s where s: "set_init plenty None = Some s" "hs_ok djb_hash 10 s" "hs_vals s = []"
    using set_init_ok[OF grants_plenty] by blast
  have "card (insert [97] (set (hs_vals s))) \<le> 2 ^ 30" using s(3) by simp
  from set_add_ok[OF grants_plenty s(2) this, of "[]"] obtain s1 k1 where
    s1: "set_add plenty s ([97] @ []) (length [97 :: byte]) = Some (1, s1)" "hs_ok djb_hash k1 s1" "set (hs_vals s1) = {[97]}"
    using s(3) by auto
  have "card (insert [98] (set (hs_vals s1))) \<le> 2 ^ 30" using s1(3) by simp
  from set_add_ok[OF grants_plenty s1(2) this, of "[]"] obtain s2 k2 where
    s2: "set_add plenty s1 ([98] @ []) (length [98 :: byte]) = Some (1, s2)" "hs_ok djb_hash k2 s2" "set (hs_vals s2) = {[97], [98]}"
    using s1(3) by auto
  obtain vs where "set_foreach s2 = Some vs" "distinct vs" "set vs = set (hs_vals s2)" "of_nat (length vs) = set_size s2"
    using set_foreach_complete[OF s2(2)] by blast
  then show ?thesis using s(1) s1(1) s2(1,3) by auto
qed

text \<open>
  Union and difference: \<open>set_cat\<close> adds the values of the other set and returns how many were new;
  \<open>set_sub\<close> adds to \<open>c\<close> the values of \<open>a\<close> that are not in \<open>b\<close> and returns their number.
\<close>

theorem set_union_difference:
  assumes "grants al" "hs_ok ga ka a" "hs_ok gb kb b" "hs_ok gc kc c"
    and "card (set (hs_vals a) \<union> set (hs_vals b)) \<le> 2 ^ 30" "card (set (hs_vals c) \<union> set (hs_vals a)) \<le> 2 ^ 30"
  shows "(\<exists>a' k'. set_cat al a b = Some (int (card (set (hs_vals b) - set (hs_vals a))), a') \<and> hs_ok ga k' a' \<and>
      set (hs_vals a') = set (hs_vals a) \<union> set (hs_vals b)) \<and>
    (\<exists>c' k'. set_sub al a b c = Some (int (card (set (hs_vals a) - set (hs_vals b))), c') \<and> hs_ok gc k' c' \<and>
      set (hs_vals c') = set (hs_vals c) \<union> (set (hs_vals a) - set (hs_vals b)))"
proof
  show "\<exists>a' k'. set_cat al a b = Some (int (card (set (hs_vals b) - set (hs_vals a))), a') \<and> hs_ok ga k' a' \<and>
      set (hs_vals a') = set (hs_vals a) \<union> set (hs_vals b)"
    using set_cat_loop_ok[OF assms(1,2,5), of 0] set_foreach_vals[OF assms(3)] by (simp add: set_cat_def)
  have "length (filter (\<lambda>x. x \<notin> set (hs_vals b)) (hs_vals a)) = card (set (hs_vals a) - set (hs_vals b))"
    using distinct_card[of "filter (\<lambda>x. x \<notin> set (hs_vals b)) (hs_vals a)"] hs_distinct[OF assms(2)]
    by (simp add: set_diff_eq)
  then show "\<exists>c' k'. set_sub al a b c = Some (int (card (set (hs_vals a) - set (hs_vals b))), c') \<and> hs_ok gc k' c' \<and>
      set (hs_vals c') = set (hs_vals c) \<union> (set (hs_vals a) - set (hs_vals b))"
    using set_sub_loop_ok[OF assms(1,3,4,6), of 0] set_foreach_vals[OF assms(2)] by (auto simp: set_sub_def)
qed

theorem set_union_difference_witness:
  "\<exists>s. set_init plenty None = Some s \<and>
    (\<exists>a' k'. set_cat plenty s s = Some (int (card (set (hs_vals s) - set (hs_vals s))), a') \<and> hs_ok djb_hash k' a' \<and>
      set (hs_vals a') = set (hs_vals s) \<union> set (hs_vals s)) \<and>
    (\<exists>c' k'. set_sub plenty s s s = Some (int (card (set (hs_vals s) - set (hs_vals s))), c') \<and> hs_ok djb_hash k' c' \<and>
      set (hs_vals c') = set (hs_vals s) \<union> (set (hs_vals s) - set (hs_vals s)))"
proof -
  obtain s where s: "set_init plenty None = Some s" "hs_ok djb_hash 10 s" "hs_vals s = []"
    using set_init_ok[OF grants_plenty] by blast
  have c: "card (set (hs_vals s) \<union> set (hs_vals s)) \<le> 2 ^ 30" using s(3) by simp
  from s(1) set_union_difference[OF grants_plenty s(2) s(2) s(2) c c] show ?thesis by blast
qed

text \<open>
  \<open>set_delete\<close> is undefined for every value that is not in the set (it reads through NULL) and for
  every value that is the first of its chain (it reads an expired local variable).
\<close>

theorem set_delete_undefined:
  assumes "hs_ok g k s"
    and "v \<notin> set (hs_vals s) \<or> (let bs = hs_slots s ! take_bit k (unat (g v)) in bs \<noteq> [] \<and> bk_value (hd bs) = v)"
  shows "set_delete s (v @ r) (length v) = None"
proof -
  note d = hs_okD[OF assms(1)]
  let ?i = "take_bit k (unat (g v))" let ?bs = "hs_slots s ! ?i"
  have i: "?i < 2 ^ k" by simp
  have ne: "hs_len s \<noteq> 0" using unat_pow32[OF d(1)] d(2) by (metis power_not_zero unat_0 zero_neq_numeral)
  have "\<forall>b\<in>set ?bs. bk_hash b = g (bk_value b)" using d(6)[OF i] by (simp add: slot_ok_def)
  from set_find_bucket_eq[OF this, of ?i 0 v r] obtain p where
    p: "set_find_bucket ?bs ?i 0 (v @ r) (length v) (g v) = Some p" "v \<notin> bk_value ` set ?bs \<longrightarrow> p = RefNull"
      "?bs \<noteq> [] \<longrightarrow> bk_value (hd ?bs) = v \<longrightarrow> p = RefLocal" by auto
  then have "p = RefNull \<or> p = RefLocal" using assms(2) hs_in_slot[OF assms(1), of v] by (auto simp: Let_def)
  moreover have "set_find s (v @ r) (length v) = Some p \<or> set_find s (v @ r) (length v) = None"
    using d(2,3,4,5) ne i hash_index(1)[OF d(1)] p(1) by (auto simp: set_find_def Let_def)
  ultimately show ?thesis by (auto simp: set_delete_def)
qed

theorem set_delete_undefined_witness:
  "\<exists>s. set_init plenty None = Some s \<and> set_delete s ([97] @ []) (length [97 :: byte]) = None"
proof -
  obtain s where s: "set_init plenty None = Some s" "hs_ok djb_hash 10 s" "hs_vals s = []"
    using set_init_ok[OF grants_plenty] by blast
  have "[97] \<notin> set (hs_vals s)" using s(3) by simp
  from s(1) set_delete_undefined[OF s(2) disjI1[OF this], of "[]"] show ?thesis by blast
qed

end
