(* ===== verification/Charbuf.thy ===== *)
theory Charbuf
  imports BufferIn
begin

text \<open>
  Character buffers (\<open>src/lib/charbuf\<close>): a small window over an input from which characters are
  looked at before they are taken, with the line, column and offset of the next character.  The
  bit fields \<open>p\<close> (characters held) and \<open>a\<close> (size of the window) are 12 bits wide, \<open>err\<close> is only
  ever 0 or 1.  The operation \<open>op\<close> and the union of \<open>fd\<close> and \<open>ptr\<close> are the datatype
  \<open>charop\<close>: a descriptor with the script of \<open>BufferIn\<close>, or the string left to read.  A
  failed \<open>assert\<close> and a loop that does not end are \<open>None\<close>, as undefined behaviour is.
  \<open>charbuf_close\<close> and the debugging output are not modelled.
\<close>

subsection \<open>The structure and its input\<close>

type_synonym uint12 = "12 word"

datatype charop = Fd src | Str "byte list"

record charloc =
  loc_line :: uint32
  loc_column :: uint32

record charbuf =
  chrs :: "byte list"
  ch_p :: uint12
  ch_a :: uint12
  ch_eof :: bool
  ch_err :: bool
  ch_op :: charop
  ch_loc :: charloc
  ch_offset :: uint64

definition charbuf_readstr :: "byte list \<Rightarrow> nat \<Rightarrow> (int \<times> byte list \<times> byte list) option" where
  "charbuf_readstr src len =
     do { c \<leftarrow> rd src 0;
          n \<leftarrow> (if c = 0 then Some 0 else str_len src);
          let n = (if n > len then len else n);
          Some (int n, take n src, drop n src) }"

text \<open>The loop around the operation: a read that a signal interrupted is done again.\<close>

fun charbuf_read_loop :: "rreply list \<Rightarrow> nat \<Rightarrow> nat \<Rightarrow> int \<times> byte list \<times> src" where
  "charbuf_read_loop [] len err = (0, [], \<lparr>rreplies = [], rerrno = err\<rparr>)"
| "charbuf_read_loop (Data c # rs) len err =
     (let k = min len (length c); rest = drop k c
      in (int k, take k c, \<lparr>rreplies = if rest = [] then rs else Data rest # rs, rerrno = err\<rparr>))"
| "charbuf_read_loop (RFail e # rs) len err =
     (if e = EINTR then charbuf_read_loop rs len 0 else (-1, [], \<lparr>rreplies = rs, rerrno = e\<rparr>))"

definition charbuf_op :: "charop \<Rightarrow> nat \<Rightarrow> (int \<times> byte list \<times> charop) option" where
  "charbuf_op s len =
     (case s of
        Fd s \<Rightarrow> (let (r, c, s) = charbuf_read_loop (rreplies s) len (rerrno s) in Some (r, c, Fd s))
      | Str s \<Rightarrow> map_option (\<lambda>(r, c, s). (r, c, Str s)) (charbuf_readstr s len))"

definition charbuf_stubborn_read :: "charbuf \<Rightarrow> uint64 \<Rightarrow> (int \<times> charbuf) option" where
  "charbuf_stubborn_read b most =
     (if ch_eof b then Some (0, b)
      else if ch_err b then Some (-1, b)
      else do { let n = of_int (uint (ch_a b) - uint (ch_p b));
                let n = (if n \<ge> most then most else n);
                (ret, c, s) \<leftarrow> charbuf_op (ch_op b) (unat n);
                if length (chrs b) < unat (ch_p b) + length c then None
                else let b = b\<lparr>chrs := splice (chrs b) (unat (ch_p b)) c, ch_op := s\<rparr>
                     in Some (ret, if ret < 0 then b\<lparr>ch_err := True\<rparr>
                                   else if ret = 0 then b\<lparr>ch_eof := True\<rparr> else b) })"

subsection \<open>Set-up\<close>

definition charbuf_init :: "allocator \<Rightarrow> charop \<Rightarrow> uint32 \<Rightarrow> charbuf" where
  "charbuf_init al s lookahead =
     (let a = ucast ((lookahead + 7) AND NOT 7)
      in \<lparr>chrs = (case malloc al (unat a) of None \<Rightarrow> [] | Some m \<Rightarrow> m), ch_p = 0, ch_a = a, ch_eof = False,
          ch_err = False, ch_op = s, ch_loc = \<lparr>loc_line = 0, loc_column = 0\<rparr>, ch_offset = 0\<rparr>)"

definition charbuf_froms :: "allocator \<Rightarrow> byte list \<Rightarrow> uint32 \<Rightarrow> charbuf" where
  "charbuf_froms al s lookahead = charbuf_init al (Str s) lookahead"

definition charbuf_free :: "charbuf \<Rightarrow> charbuf" where
  "charbuf_free b = b\<lparr>chrs := [], ch_a := 0, ch_p := 0\<rparr>"

definition charbuf_done :: "charbuf \<Rightarrow> bool" where
  "charbuf_done b \<longleftrightarrow> ch_eof b \<or> ch_err b"

subsection \<open>Looking and taking\<close>

type_synonym 'r ch_result = "('r \<times> charbuf) option"

text \<open>The character stored through \<open>ch\<close> is meaningful when the result is positive.\<close>

partial_function (option) charbuf_peekc :: "charbuf \<Rightarrow> (int \<times> byte) ch_result" where
  "charbuf_peekc b =
     (if ch_p b \<noteq> 0 then do { c \<leftarrow> rd (chrs b) 0; Some ((1, c), b) }
      else do { (ret, b) \<leftarrow> charbuf_stubborn_read b 1;
                if ret > 0 then charbuf_peekc (b\<lparr>ch_p := of_int ret\<rparr>) else Some ((ret, 0), b) })"

definition charbuf_peek :: "charbuf \<Rightarrow> int ch_result" where
  "charbuf_peek b =
     do { ((ret, _), b) \<leftarrow> charbuf_peekc b;
          if ret > 0 then do { c \<leftarrow> rd (chrs b) 0; Some (uint c, b) } else Some (ret, b) }"

definition loc_step :: "byte \<Rightarrow> charloc \<Rightarrow> charloc" where
  "loc_step c l =
     (if c = 10 then l\<lparr>loc_column := 0, loc_line := loc_line l + 1\<rparr> else l\<lparr>loc_column := loc_column l + 1\<rparr>)"

partial_function (option) charbuf_skipc :: "charbuf \<Rightarrow> (int \<times> byte) ch_result" where
  "charbuf_skipc b =
     (if ch_p b \<noteq> 0 then
        do { c \<leftarrow> rd (chrs b) 0;
             let b = b\<lparr>ch_loc := loc_step c (ch_loc b), ch_p := ch_p b - 1\<rparr>;
             m \<leftarrow> (if ch_p b > 0 then byte_copy_within (chrs b) 0 (unat (ch_p b)) 1 else Some (chrs b));
             Some ((1, c), b\<lparr>chrs := m, ch_offset := ch_offset b + 1\<rparr>) }
      else do { (ret, b) \<leftarrow> charbuf_stubborn_read b 1;
                if ret > 0 then charbuf_skipc (b\<lparr>ch_p := of_int ret\<rparr>) else Some ((ret, 0), b) })"

text \<open>\<open>charbuf_skip\<close> returns the character it took, so a zero byte looks like the end of the input.\<close>

definition charbuf_skip :: "charbuf \<Rightarrow> int ch_result" where
  "charbuf_skip b = do { ((ret, ch), b) \<leftarrow> charbuf_skipc b; Some (if ret > 0 then uint ch else ret, b) }"

definition charbuf_get :: "charbuf \<Rightarrow> int ch_result" where
  "charbuf_get b = do { (ret, b) \<leftarrow> charbuf_peek b; if ret > 0 then charbuf_skip b else Some (ret, b) }"

definition charbuf_getc :: "charbuf \<Rightarrow> (int \<times> byte) ch_result" where
  "charbuf_getc b =
     do { ((ret, ch), b) \<leftarrow> charbuf_peekc b;
          if ret > 0 then do { (_, b) \<leftarrow> charbuf_skip b; Some ((ret, ch), b) } else Some ((ret, ch), b) }"

definition charbuf_next :: "charbuf \<Rightarrow> int ch_result" where
  "charbuf_next b = do { (ret, b) \<leftarrow> charbuf_skip b; if ret > 0 then charbuf_peek b else Some (ret, b) }"

definition charbuf_nextc :: "charbuf \<Rightarrow> (int \<times> byte) ch_result" where
  "charbuf_nextc b = do { (ret, b) \<leftarrow> charbuf_skip b; if ret > 0 then charbuf_peekc b else Some ((ret, 0), b) }"

text \<open>
  \<open>charbuf_peekn\<close> asserts that the window can hold \<open>n\<close> characters and one more; \<open>n - p\<close>
  is computed as an \<open>unsigned int\<close>.  The result \<open>None\<close> inside is the null pointer.
\<close>

partial_function (option) peekn_loop :: "uint32 \<Rightarrow> charbuf \<Rightarrow> byte list option ch_result" where
  "peekn_loop n b =
     (if ucast (ch_p b) = n then Some (Some (chrs b), b)
      else do { (r, b) \<leftarrow> charbuf_stubborn_read b (ucast (n - ucast (ch_p b)));
                if r > 0 then peekn_loop n (b\<lparr>ch_p := ch_p b + of_int r\<rparr>) else Some (None, b) })"

definition charbuf_peekn :: "charbuf \<Rightarrow> uint32 \<Rightarrow> byte list option ch_result" where
  "charbuf_peekn b n = (if n < ucast (ch_a b) then peekn_loop n b else None)"

subsection \<open>Skipping and collecting\<close>

text \<open>The predicates get the character and its index, the argument \<open>ptr\<close> is part of them.\<close>

type_synonym chpred = "byte \<Rightarrow> uint64 \<Rightarrow> bool"

primrec charbuf_skipn_loop :: "nat \<Rightarrow> nat \<Rightarrow> charbuf \<Rightarrow> nat ch_result" where
  "charbuf_skipn_loop 0 pos b = Some (pos, b)"
| "charbuf_skipn_loop (Suc n) pos b =
     do { ((ret, _), b) \<leftarrow> charbuf_peekc b;
          if ret > 0 then
            do { (ret, b) \<leftarrow> charbuf_skip b;
                 if ret > 0 then charbuf_skipn_loop n (pos + 1) b else Some (pos, b) }
          else Some (pos, b) }"

definition charbuf_skipn :: "charbuf \<Rightarrow> nat \<Rightarrow> nat ch_result" where
  "charbuf_skipn b n = charbuf_skipn_loop n 0 b"

partial_function (option) skip_until_loop :: "byte \<Rightarrow> uint64 \<Rightarrow> charbuf \<Rightarrow> int ch_result" where
  "skip_until_loop c n b =
     do { (ret, b) \<leftarrow> charbuf_peek b;
          if ret \<le> 0 then Some (ret, b)
          else if ret = uint c then Some (sint n, b)
          else do { (ret, b) \<leftarrow> charbuf_skip b;
                    if ret \<le> 0 then Some (ret, b) else skip_until_loop c (n + 1) b } }"

definition charbuf_skip_until :: "charbuf \<Rightarrow> byte \<Rightarrow> int ch_result" where
  "charbuf_skip_until b c = skip_until_loop c 0 b"

partial_function (option) pred_skip_loop :: "chpred \<Rightarrow> uint64 \<Rightarrow> charbuf \<Rightarrow> int ch_result" where
  "pred_skip_loop pred n b =
     do { ((ret, ch), b) \<leftarrow> charbuf_peekc b;
          if ret \<le> 0 then Some (ret, b)
          else if pred ch n then
            do { (r, b) \<leftarrow> charbuf_skip b;
                 if r > 0 then pred_skip_loop pred (n + 1) b else Some (sint (n + 1), b) }
          else Some (sint n, b) }"

definition charbuf_pred_skip :: "charbuf \<Rightarrow> chpred \<Rightarrow> int ch_result" where
  "charbuf_pred_skip b pred = pred_skip_loop pred 0 b"

partial_function (option) lookahead_loop :: "chpred \<Rightarrow> uint64 \<Rightarrow> charbuf \<Rightarrow> int ch_result" where
  "lookahead_loop pred n b =
     do { (v, b) \<leftarrow> charbuf_peekn b (ucast (n + 1));
          case v of
            None \<Rightarrow> Some (sint n, b)
          | Some v \<Rightarrow> do { c \<leftarrow> rd v (unat n);
                           if pred c n then lookahead_loop pred (n + 1) b else Some (sint n, b) } }"

definition charbuf_pred_lookahead :: "charbuf \<Rightarrow> chpred \<Rightarrow> int ch_result" where
  "charbuf_pred_lookahead b pred = lookahead_loop pred 0 b"

definition stralloc_CATC :: "allocator \<Rightarrow> stralloc \<Rightarrow> byte \<Rightarrow> stralloc option" where
  "stralloc_CATC al sa c =
     do { sa \<leftarrow> (if sa_len sa \<ge> sa_a sa then map_option snd (stralloc_readyplus al sa 1) else Some sa);
          sa_push sa c }"

partial_function (option) pred_get_loop :: "allocator \<Rightarrow> chpred \<Rightarrow> stralloc \<Rightarrow> charbuf \<Rightarrow> stralloc ch_result" where
  "pred_get_loop al pred sa b =
     do { ((ret, c), b) \<leftarrow> charbuf_peekc b;
          if ret > 0 \<and> pred c (sa_len sa) then
            do { sa \<leftarrow> stralloc_CATC al sa c;
                 (r, b) \<leftarrow> charbuf_skip b;
                 if r > 0 then pred_get_loop al pred sa b else Some (sa, b) }
          else Some (sa, b) }"

definition charbuf_pred_get :: "allocator \<Rightarrow> charbuf \<Rightarrow> stralloc \<Rightarrow> chpred \<Rightarrow> (int \<times> stralloc) ch_result" where
  "charbuf_pred_get al b sa pred =
     do { (_, sa) \<leftarrow> stralloc_ready al (stralloc_zero sa) 2;
          (sa, b) \<leftarrow> pred_get_loop al pred sa b;
          (_, sa) \<leftarrow> stralloc_nul al sa;
          Some ((sint (sa_len sa), sa), b) }"

definition charbuf_is_ctype :: "(byte \<Rightarrow> bool) \<Rightarrow> chpred" where
  "charbuf_is_ctype fn c pos = fn c"

definition charbuf_skip_ws :: "charbuf \<Rightarrow> int ch_result" where
  "charbuf_skip_ws b = charbuf_pred_skip b (charbuf_is_ctype isspace)"

definition charbuf_is_samechar :: "byte \<Rightarrow> chpred" where
  "charbuf_is_samechar other c pos \<longleftrightarrow> pos = 0 \<and> c = other"

definition charbuf_skip_ifeq :: "charbuf \<Rightarrow> byte \<Rightarrow> int ch_result" where
  "charbuf_skip_ifeq b c = charbuf_pred_skip b (charbuf_is_samechar c)"

text \<open>
  \<open>charbuf_skip_ifset\<close> goes on after an error of \<open>charbuf_peekc\<close>, which leaves \<open>junk\<close>,
  whatever its uninitialised variable held.
\<close>

definition charbuf_skip_ifset :: "byte \<Rightarrow> charbuf \<Rightarrow> byte list \<Rightarrow> nat \<Rightarrow> int ch_result" where
  "charbuf_skip_ifset junk b cs setlen =
     do { ((ret, c), b) \<leftarrow> charbuf_peekc b;
          if ret = 0 then Some (0, b)
          else do { let c = (if ret > 0 then c else junk);
                    k \<leftarrow> byte_chr cs setlen c;
                    if k = setlen then Some (0, b) else charbuf_skip b } }"

subsection \<open>The text ahead\<close>

text \<open>
  What a character buffer stands for: the characters that are left, how the input ends, and the
  place of the next character.  \<open>ch_wf\<close> is the invariant of an initialised buffer.
\<close>

record reader =
  ahead :: "byte list"
  ending :: int
  place :: charloc
  taken :: uint64

fun charop_pending :: "charop \<Rightarrow> byte list" where
  "charop_pending (Fd s) = pending (rreplies s)"
| "charop_pending (Str s) = takeWhile (\<lambda>c. c \<noteq> 0) s"

fun charop_fate :: "charop \<Rightarrow> int" where
  "charop_fate (Fd s) = fate (rreplies s)"
| "charop_fate (Str s) = 0"

fun charop_ok :: "charop \<Rightarrow> bool" where
  "charop_ok (Fd s) = True"
| "charop_ok (Str s) = (0 \<in> set s)"

definition ch_wf :: "charbuf \<Rightarrow> bool" where
  "ch_wf b \<longleftrightarrow> unat (ch_p b) \<le> unat (ch_a b) \<and> 0 < unat (ch_a b) \<and> unat (ch_a b) \<le> length (chrs b) \<and> charop_ok (ch_op b)"

definition ch_held :: "charbuf \<Rightarrow> byte list" where
  "ch_held b = take (unat (ch_p b)) (chrs b)"

definition ch_more :: "charbuf \<Rightarrow> byte list" where
  "ch_more b = (if charbuf_done b then [] else charop_pending (ch_op b))"

definition ch_fate :: "charbuf \<Rightarrow> int" where
  "ch_fate b = (if ch_eof b then 0 else if ch_err b then -1 else charop_fate (ch_op b))"

definition ch_abs :: "charbuf \<Rightarrow> reader" where
  "ch_abs b = \<lparr>ahead = ch_held b @ ch_more b, ending = ch_fate b, place = ch_loc b, taken = ch_offset b\<rparr>"

definition advance :: "reader \<Rightarrow> reader" where
  "advance r = r\<lparr>ahead := tl (ahead r), place := loc_step (hd (ahead r)) (place r), taken := taken r + 1\<rparr>"

lemma read_loop_stubborn:
  "\<exists>e. charbuf_read_loop rs len err =
     (let (r, c, s) = stubborn_read_loop rs len err' in (r, c, s\<lparr>rerrno := e\<rparr>))"
  by (induction rs len err arbitrary: err' rule: charbuf_read_loop.induct) (auto simp: Let_def)

lemma charop_fate_cases: "charop_fate s = 0 \<or> charop_fate s = -1"
  using fate_cases by (cases s) auto

lemma ch_fate_cases: "ch_fate b = 0 \<or> ch_fate b = -1"
  using charop_fate_cases by (simp add: ch_fate_def)

lemma str_len_terminated: "0 \<in> set s \<Longrightarrow> str_len s = Some (length (takeWhile (\<lambda>c. c \<noteq> 0) s))"
  by (induction s) auto

lemma readstr_eq:
  "0 \<in> set s \<Longrightarrow> charbuf_readstr s len =
     (let n = min len (length (takeWhile (\<lambda>c. c \<noteq> 0) s)) in Some (int n, take n s, drop n s))"
  by (cases s) (auto simp: charbuf_readstr_def str_len_terminated Let_def min_def)

lemma takeWhile_split:
  assumes "n \<le> length (takeWhile P s)"
  shows "take n s = take n (takeWhile P s)" "takeWhile P (drop n s) = drop n (takeWhile P s)"
    "set s \<subseteq> set (takeWhile P s) \<union> set (drop n s)"
proof -
  show a: "take n s = take n (takeWhile P s)" "takeWhile P (drop n s) = drop n (takeWhile P s)"
    using assms by (induction s arbitrary: n) (auto simp: take_Cons' drop_Cons' split: if_splits)
  show "set s \<subseteq> set (takeWhile P s) \<union> set (drop n s)"
    using a(1) set_take_subset[of n "takeWhile P s"] by (metis Un_mono append_take_drop_id order_refl set_append)
qed

lemma charbuf_op_more:
  assumes "charop_ok s" "charop_pending s \<noteq> []" "0 < len"
  shows "\<exists>c s'. charbuf_op s len = Some (int (length c), c, s') \<and> c \<noteq> [] \<and> length c \<le> len \<and>
           charop_pending s = c @ charop_pending s' \<and> charop_fate s' = charop_fate s \<and> charop_ok s'"
proof (cases s)
  case (Fd x)
  obtain c y where r: "stubborn_read_loop (rreplies x) len (rerrno x) = (int (length c), c, y)" "c \<noteq> []" "length c \<le> len"
      "pending (rreplies x) = c @ pending (rreplies y)" "fate (rreplies y) = fate (rreplies x)"
    using stubborn_read_more[of "rreplies x" len "rerrno x"] assms Fd by auto
  obtain e where "charbuf_read_loop (rreplies x) len (rerrno x) = (int (length c), c, y\<lparr>rerrno := e\<rparr>)"
    using read_loop_stubborn[of "rreplies x" len "rerrno x" "rerrno x"] r(1) by auto
  then show ?thesis using Fd r
    by (intro exI[of _ c] exI[of _ "Fd (y\<lparr>rerrno := e\<rparr>)"]) (simp add: charbuf_op_def)
next
  case (Str x)
  define n where "n = min len (length (takeWhile (\<lambda>c. c \<noteq> 0) x))"
  have n: "n \<le> length (takeWhile (\<lambda>c. c \<noteq> 0) x)" "0 < n" "n \<le> len" "n \<le> length x"
    using assms Str length_takeWhile_le[of "\<lambda>c. c \<noteq> 0" x] by (auto simp: n_def)
  have z: "0 \<in> set (drop n x)"
    using takeWhile_split(3)[OF n(1)] assms(1) Str set_takeWhileD[of 0 "\<lambda>c. c \<noteq> 0" x] by auto
  have "charbuf_op s len = Some (int n, take n x, Str (drop n x))"
    using Str assms readstr_eq[of x len] by (simp add: charbuf_op_def Let_def n_def)
  then show ?thesis using n z takeWhile_split[OF n(1)] Str
    by (intro exI[of _ "take n x"] exI[of _ "Str (drop n x)"]) (auto simp: min_def)
qed

lemma charbuf_op_end:
  assumes "charop_ok s" "charop_pending s = []"
  shows "\<exists>s'. charbuf_op s len = Some (charop_fate s, [], s') \<and> charop_ok s'"
proof (cases s)
  case (Fd x)
  then show ?thesis using assms stubborn_read_end[of "rreplies x" len "rerrno x"]
      read_loop_stubborn[of "rreplies x" len "rerrno x" "rerrno x"] by (auto simp: charbuf_op_def)
next
  case (Str x)
  then show ?thesis using assms readstr_eq[of x len] by (auto simp: charbuf_op_def)
qed

text \<open>A read adds characters that were still to come to the window, or finds the end.\<close>

lemma unat_uint12: "unat (x :: uint12) < 4096"
  using unat_lt_2p[of x] by simp

lemma ch_room:
  assumes "ch_wf b"
  shows "unat (of_int (uint (ch_a b) - uint (ch_p b)) :: uint64) = unat (ch_a b) - unat (ch_p b)"
proof -
  have e: "uint (ch_a b) - uint (ch_p b) = int (unat (ch_a b) - unat (ch_p b))"
    using assms by (simp add: ch_wf_def of_nat_diff)
  have k: "unat (ch_a b) - unat (ch_p b) < 2 ^ 64" using unat_uint12[of "ch_a b"] by simp
  have "unat (of_int (int k) :: uint64) = k" if "k < 2 ^ 64" for k
    using that by (simp add: unat_of_nat take_bit_nat_eq_self)
  then show ?thesis unfolding e using k .
qed

lemma unat_of_nat12: "n < 4096 \<Longrightarrow> unat (of_nat n :: uint12) = n"
  by (simp add: unat_of_nat take_bit_nat_eq_self)

lemma ch_read_more:
  assumes "ch_wf b" "unat (ch_p b) < unat (ch_a b)" "0 < most" "ch_more b \<noteq> []"
  shows "\<exists>k b'. charbuf_stubborn_read b most = Some (int k, b') \<and> 0 < k \<and> k \<le> unat most \<and>
           ch_p b' = ch_p b \<and> ch_a b' = ch_a b \<and> unat (ch_p b) + k \<le> unat (ch_a b) \<and>
           unat (ch_p b + of_nat k) = unat (ch_p b) + k \<and>
           ch_wf (b'\<lparr>ch_p := ch_p b + of_nat k\<rparr>) \<and> ch_abs (b'\<lparr>ch_p := ch_p b + of_nat k\<rparr>) = ch_abs b"
proof -
  define n where "n = unat (if of_int (uint (ch_a b) - uint (ch_p b)) \<ge> most then most else of_int (uint (ch_a b) - uint (ch_p b)))"
  have n: "n = min (unat most) (unat (ch_a b) - unat (ch_p b))"
    using ch_room[OF assms(1)] by (auto simp: n_def word_le_nat_alt min_def)
  have "0 < n" using assms(2,3) by (simp add: n word_less_nat_alt)
  moreover have d: "\<not> charbuf_done b" "charop_pending (ch_op b) \<noteq> []" "charop_ok (ch_op b)"
    using assms(1,4) by (auto simp: ch_more_def ch_wf_def split: if_splits)
  ultimately obtain c s where c: "charbuf_op (ch_op b) n = Some (int (length c), c, s)" "c \<noteq> []" "length c \<le> n"
      "charop_pending (ch_op b) = c @ charop_pending s" "charop_fate s = charop_fate (ch_op b)" "charop_ok s"
    using charbuf_op_more by blast
  have l: "unat (ch_p b) + length c \<le> unat (ch_a b)" "unat (ch_p b) + length c \<le> length (chrs b)"
    using c(3) n assms(1,2) by (auto simp: ch_wf_def)
  then have u: "unat (ch_p b + of_nat (length c)) = unat (ch_p b) + length c"
    using unat_uint12[of "ch_a b"] by (subst unat_add_small) (simp_all add: unat_of_nat12)
  define b' where "b' = b\<lparr>chrs := splice (chrs b) (unat (ch_p b)) c, ch_op := s\<rparr>"
  have "charbuf_stubborn_read b most = Some (int (length c), b')"
    unfolding charbuf_stubborn_read_def Let_def n_def[symmetric]
    using d(1) c(1,2) l(2) by (simp add: charbuf_done_def b'_def not_less)
  moreover have "ch_wf (b'\<lparr>ch_p := ch_p b + of_nat (length c)\<rparr>)" using assms(1) l u c(6) by (simp add: ch_wf_def b'_def)
  moreover have "ch_abs (b'\<lparr>ch_p := ch_p b + of_nat (length c)\<rparr>) = ch_abs b"
    using d(1) l u c(4,5) 
    by (simp add: ch_abs_def ch_held_def ch_more_def ch_fate_def charbuf_done_def b'_def splice_def)
  moreover have "ch_p b' = ch_p b" "ch_a b' = ch_a b" "0 < length c" "length c \<le> unat most"
    using c(2,3) n by (auto simp: b'_def)
  ultimately show ?thesis using l(1) u by blast
qed

lemma ch_read_end:
  assumes "ch_wf b" "ch_more b = []"
  shows "\<exists>b'. charbuf_stubborn_read b most = Some (ch_fate b, b') \<and> ch_wf b' \<and> ch_abs b' = ch_abs b \<and>
           ch_p b' = ch_p b \<and> ch_a b' = ch_a b \<and> charbuf_done b' \<and> ch_more b' = []"
proof (cases "charbuf_done b")
  case True
  then show ?thesis using assms by (auto simp: charbuf_stubborn_read_def charbuf_done_def ch_fate_def)
next
  case False
  define n where "n = unat (if of_int (uint (ch_a b) - uint (ch_p b)) \<ge> most then most else of_int (uint (ch_a b) - uint (ch_p b)))"
  obtain s where s: "charbuf_op (ch_op b) n = Some (charop_fate (ch_op b), [], s)" "charop_ok s"
    using charbuf_op_end[of "ch_op b" n] assms False by (auto simp: ch_wf_def ch_more_def)
  define b' where "b' = b\<lparr>ch_op := s, ch_err := charop_fate (ch_op b) = -1, ch_eof := charop_fate (ch_op b) = 0\<rparr>"
  have e: "\<not> ch_eof b" "\<not> ch_err b" using False by (simp_all add: charbuf_done_def)
  have f: "ch_fate b = charop_fate (ch_op b)" "charop_fate (ch_op b) = 0 \<or> charop_fate (ch_op b) = -1" "ch_fate b' = ch_fate b"
    using e charop_fate_cases[of "ch_op b"] by (auto simp: ch_fate_def b'_def)
  have "unat (ch_p b) \<le> length (chrs b)" using assms(1) by (simp add: ch_wf_def)
  then have "charbuf_stubborn_read b most = Some (ch_fate b, b')"
    unfolding f(1) charbuf_stubborn_read_def Let_def n_def[symmetric] using e s(1) f(2) by (auto simp: b'_def not_less)
  moreover have "ch_more b' = []" "charbuf_done b'" using f(2) by (auto simp: ch_more_def charbuf_done_def b'_def)
  moreover have "ch_wf b'" "ch_held b' = ch_held b" using assms(1) s(2) by (simp_all add: ch_wf_def ch_held_def b'_def)
  ultimately show ?thesis using assms(2) f(3) by (simp add: ch_abs_def) (simp add: b'_def)
qed

lemma ch_more_empty:
  assumes "ch_wf b" "ch_p b = 0"
  shows "ch_more b = ahead (ch_abs b)"
  using assms by (simp add: ch_abs_def ch_held_def)

lemma ch_held_some:
  assumes "ch_wf b" "ch_p b \<noteq> 0"
  shows "\<exists>c cs. ahead (ch_abs b) = c # cs \<and> rd (chrs b) 0 = Some c \<and> cs = take (unat (ch_p b) - 1) (tl (chrs b)) @ ch_more b"
proof -
  have "0 < unat (ch_p b)" "unat (ch_p b) \<le> length (chrs b)" using assms by (auto simp: ch_wf_def unat_gt_0)
  then show ?thesis by (cases "chrs b") (auto simp: ch_abs_def ch_held_def take_Cons')
qed

text \<open>The characters held after a look at the next one.\<close>

definition looked :: "charbuf \<Rightarrow> uint12" where
  "looked b = (if ch_p b = 0 \<and> ch_more b \<noteq> [] then 1 else ch_p b)"

lemma ch_fill:
  assumes "ch_wf b" "ch_p b = 0" "ch_more b \<noteq> []"
  shows "\<exists>b'. charbuf_stubborn_read b 1 = Some (1, b') \<and> ch_wf (b'\<lparr>ch_p := 1\<rparr>) \<and> ch_abs (b'\<lparr>ch_p := 1\<rparr>) = ch_abs b \<and>
           ch_a b' = ch_a b"
proof -
  have "unat (ch_p b) < unat (ch_a b)" using assms(1,2) by (simp add: ch_wf_def)
  then obtain k b' where c: "charbuf_stubborn_read b 1 = Some (int k, b')" "0 < k" "k \<le> 1"
      "ch_a b' = ch_a b" "ch_wf (b'\<lparr>ch_p := ch_p b + of_nat k\<rparr>)" "ch_abs (b'\<lparr>ch_p := ch_p b + of_nat k\<rparr>) = ch_abs b"
    using ch_read_more[OF assms(1), of 1] assms(3) by auto
  moreover from c(2,3) have "k = 1" by linarith
  ultimately show ?thesis using assms(2) by (intro exI[of _ b']) simp
qed

lemma peekc_spec:
  assumes "ch_wf b"
  shows "\<exists>b'. charbuf_peekc b = Some (case ahead (ch_abs b) of [] \<Rightarrow> (ch_fate b, 0) | c # _ \<Rightarrow> (1, c), b') \<and>
           ch_wf b' \<and> ch_abs b' = ch_abs b \<and> ch_p b' = looked b \<and> ch_a b' = ch_a b"
proof (cases "ch_p b = 0")
  case False
  then show ?thesis using ch_held_some[OF assms False] assms by (subst charbuf_peekc.simps) (auto simp: looked_def)
next
  case True
  show ?thesis
  proof (cases "ch_more b = []")
    case e: True
    then show ?thesis using ch_read_end[OF assms e, of 1] True ch_more_empty[OF assms True] ch_fate_cases[of b]
      by (subst charbuf_peekc.simps) (auto simp: looked_def)
  next
    case False
    obtain b' where b': "charbuf_stubborn_read b 1 = Some (1, b')" "ch_wf (b'\<lparr>ch_p := 1\<rparr>)" "ch_abs (b'\<lparr>ch_p := 1\<rparr>) = ch_abs b"
        "ch_a b' = ch_a b"
      using ch_fill[OF assms True False] by blast
    have "charbuf_peekc b = charbuf_peekc (b'\<lparr>ch_p := 1\<rparr>)" using b'(1) True by (subst charbuf_peekc.simps) simp
    then show ?thesis using ch_held_some[OF b'(2)] b' True False
      by (subst (asm) (2) charbuf_peekc.simps) (auto simp: looked_def)
  qed
qed

lemma skipc_held:
  assumes "ch_wf b" "ch_p b \<noteq> 0"
  shows "\<exists>b'. charbuf_skipc b = Some ((1, hd (ahead (ch_abs b))), b') \<and> ch_wf b' \<and> ch_abs b' = advance (ch_abs b) \<and>
           ch_p b' = ch_p b - 1 \<and> ch_a b' = ch_a b"
proof -
  obtain c cs where c: "ahead (ch_abs b) = c # cs" "rd (chrs b) 0 = Some c" "cs = take (unat (ch_p b) - 1) (tl (chrs b)) @ ch_more b"
    using ch_held_some[OF assms] by blast
  have p: "unat (ch_p b - 1) = unat (ch_p b) - 1" using assms(2) by (simp add: unat_sub_small word_le_nat_alt unat_gt_0 Suc_le_eq)
  have l: "unat (ch_p b) \<le> length (chrs b)" "0 < unat (ch_p b)" using assms by (auto simp: ch_wf_def unat_gt_0)
  define m where "m = (if ch_p b - 1 > 0 then splice (chrs b) 0 (take (unat (ch_p b - 1)) (drop 1 (chrs b))) else chrs b)"
  have m: "length m = length (chrs b)" "take (unat (ch_p b - 1)) m = take (unat (ch_p b) - 1) (tl (chrs b))"
    using l p by (auto simp: m_def splice_def drop_Suc word_less_nat_alt min_def)
  have "(if ch_p b - 1 > 0 then byte_copy_within (chrs b) 0 (unat (ch_p b - 1)) 1 else Some (chrs b)) = Some m"
    using l p byte_copy_within_eq[of 0 "unat (ch_p b - 1)" "chrs b" 1] by (auto simp: m_def)
  then have "charbuf_skipc b = Some ((1, c), b\<lparr>ch_loc := loc_step c (ch_loc b), ch_p := ch_p b - 1, chrs := m, ch_offset := ch_offset b + 1\<rparr>)"
    using assms(2) c(2) by (subst charbuf_skipc.simps) (auto simp add: Let_def simp del: One_nat_def split: if_splits)
  moreover have "ch_abs (b\<lparr>ch_loc := loc_step c (ch_loc b), ch_p := ch_p b - 1, chrs := m, ch_offset := ch_offset b + 1\<rparr>) = advance (ch_abs b)"
    using c m by (simp add: advance_def ch_abs_def ch_held_def ch_more_def charbuf_done_def ch_fate_def)
  moreover have "unat (ch_p b) - Suc 0 \<le> unat (ch_a b)" using assms(1) by (simp add: ch_wf_def le_diff_conv)
  ultimately show ?thesis using c(1) assms(1) m(1) p by (simp add: ch_wf_def)
qed

lemma skipc_spec:
  assumes "ch_wf b"
  shows "\<exists>b'. charbuf_skipc b = Some (case ahead (ch_abs b) of [] \<Rightarrow> (ch_fate b, 0) | c # _ \<Rightarrow> (1, c), b') \<and>
           ch_wf b' \<and> ch_abs b' = (if ahead (ch_abs b) = [] then ch_abs b else advance (ch_abs b)) \<and>
           ch_p b' = (if ahead (ch_abs b) = [] then ch_p b else looked b - 1) \<and> ch_a b' = ch_a b"
proof (cases "ch_p b = 0")
  case False
  then show ?thesis using ch_held_some[OF assms False] skipc_held[OF assms False] by (auto simp: looked_def)
next
  case True
  show ?thesis
  proof (cases "ch_more b = []")
    case e: True
    then show ?thesis using ch_read_end[OF assms e, of 1] True ch_more_empty[OF assms True] ch_fate_cases[of b]
      by (subst charbuf_skipc.simps) auto
  next
    case False
    obtain b' where b': "charbuf_stubborn_read b 1 = Some (1, b')" "ch_wf (b'\<lparr>ch_p := 1\<rparr>)" "ch_abs (b'\<lparr>ch_p := 1\<rparr>) = ch_abs b"
        "ch_a b' = ch_a b"
      using ch_fill[OF assms True False] by blast
    have "charbuf_skipc b = charbuf_skipc (b'\<lparr>ch_p := 1\<rparr>)" using b'(1) True by (subst charbuf_skipc.simps) simp
    then show ?thesis using ch_held_some[OF b'(2)] skipc_held[OF b'(2)] b' True False by (auto simp: looked_def)
  qed
qed

subsection \<open>The operations on the text ahead\<close>

text \<open>
  \<open>stands b a r k\<close>: \<open>b\<close> has a window of \<open>a\<close> characters, stands for \<open>r\<close> and holds at
  most \<open>k\<close> characters.
\<close>

definition stands :: "charbuf \<Rightarrow> uint12 \<Rightarrow> reader \<Rightarrow> nat \<Rightarrow> bool" where
  "stands b a r k \<longleftrightarrow> ch_wf b \<and> ch_a b = a \<and> ch_abs b = r \<and> unat (ch_p b) \<le> k"

definition left :: "reader \<Rightarrow> reader" where
  "left r = (if ahead r = [] then r else advance r)"

lemma stands_mono: "stands b a r k \<Longrightarrow> k \<le> k' \<Longrightarrow> stands b a r k'"
  by (simp add: stands_def)

lemma stands_ending: "stands b a r k \<Longrightarrow> ending r = 0 \<or> ending r = -1"
  using ch_fate_cases[of b] by (auto simp: stands_def ch_abs_def)

lemma advance_simps [simp]:
  "ahead (advance r) = tl (ahead r)" "ending (advance r) = ending r" "taken (advance r) = taken r + 1"
  by (simp_all add: advance_def)

lemma unat_looked: "unat (looked b) \<le> max 1 (unat (ch_p b))"
  by (simp add: looked_def)

lemma unat_looked_minus:
  assumes "ch_wf b" "ahead (ch_abs b) \<noteq> []"
  shows "unat (looked b - 1) = unat (ch_p b) - 1"
proof (cases "ch_p b = 0")
  case True
  then show ?thesis using assms ch_more_empty[OF assms(1)] by (simp add: looked_def)
next
  case False
  then show ?thesis by (simp add: looked_def unat_sub_small word_le_nat_alt unat_gt_0 Suc_le_eq)
qed

lemma peekc_is:
  assumes "stands b a r k"
  shows "\<exists>b'. charbuf_peekc b = Some (case ahead r of [] \<Rightarrow> (ending r, 0) | c # _ \<Rightarrow> (1, c), b') \<and>
           stands b' a r (max 1 k)"
proof -
  have e: "ch_fate b = ending r" using assms by (auto simp: stands_def ch_abs_def)
  have b: "ch_wf b" "ch_abs b = r" "ch_a b = a" "unat (ch_p b) \<le> k" using assms by (simp_all add: stands_def)
  obtain b' where "charbuf_peekc b = Some (case ahead r of [] \<Rightarrow> (ending r, 0) | c # _ \<Rightarrow> (1, c), b')"
      "ch_wf b'" "ch_abs b' = r" "ch_p b' = looked b" "ch_a b' = a"
    using peekc_spec[OF b(1), unfolded e b(2,3)] by auto
  then show ?thesis using unat_looked[of b] b(4) by (auto simp: stands_def)
qed

lemma skipc_is:
  assumes "stands b a r k"
  shows "\<exists>b'. charbuf_skipc b = Some (case ahead r of [] \<Rightarrow> (ending r, 0) | c # _ \<Rightarrow> (1, c), b') \<and>
           stands b' a (left r) (k - 1)"
proof -
  have e: "ch_fate b = ending r" using assms by (auto simp: stands_def ch_abs_def)
  have b: "ch_wf b" "ch_abs b = r" "ch_a b = a" "unat (ch_p b) \<le> k" using assms by (simp_all add: stands_def)
  obtain b' where b': "charbuf_skipc b = Some (case ahead r of [] \<Rightarrow> (ending r, 0) | c # _ \<Rightarrow> (1, c), b')"
      "ch_wf b'" "ch_abs b' = left r" "ch_p b' = (if ahead r = [] then ch_p b else looked b - 1)" "ch_a b' = a"
    using skipc_spec[OF b(1), unfolded e b(2,3)] unfolding left_def by blast
  have "unat (ch_p b') \<le> k - 1"
  proof (cases "ahead r = []")
    case True
    then have "ch_p b = 0" using ch_held_some[OF b(1)] b(2) by fastforce
    then show ?thesis using True b' by simp
  next
    case False
    then show ?thesis using unat_looked_minus[OF b(1)] b b' by simp
  qed
  then show ?thesis using b' by (auto simp: stands_def)
qed

lemma skip_is:
  assumes "stands b a r k"
  shows "\<exists>b'. charbuf_skip b = Some (case ahead r of [] \<Rightarrow> ending r | c # _ \<Rightarrow> uint c, b') \<and> stands b' a (left r) (k - 1)"
  using skipc_is[OF assms] stands_ending[OF assms] by (auto simp: charbuf_skip_def split: list.splits)

lemma peek_is:
  assumes "stands b a r k"
  shows "\<exists>b'. charbuf_peek b = Some (case ahead r of [] \<Rightarrow> ending r | c # _ \<Rightarrow> uint c, b') \<and> stands b' a r (max 1 k)"
proof -
  obtain b' where b': "charbuf_peekc b = Some (case ahead r of [] \<Rightarrow> (ending r, 0) | c # _ \<Rightarrow> (1, c), b')"
      "stands b' a r (max 1 k)"
    using peekc_is[OF assms] by blast
  show ?thesis
  proof (cases "ahead r")
    case Nil
    then show ?thesis using b' stands_ending[OF assms] by (auto simp: charbuf_peek_def)
  next
    case (Cons c cs)
    have w: "ch_wf b'" "ch_abs b' = r" using b'(2) by (simp_all add: stands_def)
    have b: "ch_wf b" "ch_abs b = r" using assms by (simp_all add: stands_def)
    have "ch_p b' = looked b" using peekc_spec[OF b(1)] b'(1) by auto
    moreover have "looked b \<noteq> 0" using ch_more_empty[OF b(1)] b(2) Cons by (auto simp: looked_def)
    ultimately have "ch_p b' \<noteq> 0" by simp
    then have "rd (chrs b') 0 = Some c" using ch_held_some[OF w(1)] w(2) Cons by auto
    then show ?thesis using b' Cons by (auto simp: charbuf_peek_def)
  qed
qed

lemma nextc_is:
  assumes "stands b a r k" "ahead r = c # cs" "c \<noteq> 0"
  shows "\<exists>b'. charbuf_nextc b = Some (case cs of [] \<Rightarrow> (ending r, 0) | d # _ \<Rightarrow> (1, d), b') \<and> stands b' a (advance r) (max 1 (k - 1))"
proof -
  obtain b1 where b1: "charbuf_skip b = Some (uint c, b1)" "stands b1 a (advance r) (k - 1)"
    using skip_is[OF assms(1)] assms(2) by (auto simp: left_def)
  have "0 < uint c" using assms(3) by (simp add: word_neq_0_conv word_less_def)
  then show ?thesis using b1 peekc_is[OF b1(2)] assms(2) by (auto simp: charbuf_nextc_def split: list.splits)
qed

lemma getc_is:
  assumes "stands b a r k"
  shows "\<exists>b'. charbuf_getc b = Some (case ahead r of [] \<Rightarrow> (ending r, 0) | c # _ \<Rightarrow> (1, c), b') \<and>
           stands b' a (left r) (max 1 k)"
proof -
  obtain b' where b': "charbuf_peekc b = Some (case ahead r of [] \<Rightarrow> (ending r, 0) | c # _ \<Rightarrow> (1, c), b')"
      "stands b' a r (max 1 k)"
    using peekc_is[OF assms] by blast
  obtain b2 where b2: "charbuf_skip b' = Some (case ahead r of [] \<Rightarrow> ending r | c # _ \<Rightarrow> uint c, b2)" "stands b2 a (left r) (max 1 k - 1)"
    using skip_is[OF b'(2)] by blast
  show ?thesis
  proof (cases "ahead r")
    case Nil
    then show ?thesis using b' stands_ending[OF assms] by (auto simp: charbuf_getc_def left_def)
  next
    case (Cons c cs)
    have "stands b2 a (left r) (max 1 k)" using b2(2) by (rule stands_mono) simp
    then show ?thesis using b' b2(1) Cons by (simp add: charbuf_getc_def)
  qed
qed

text \<open>A character buffer is a source of bytes like a \<open>buffer\<close>.\<close>

interpretation chi: byte_source ch_wf "\<lambda>b. ahead (ch_abs b)" ch_fate charbuf_getc
proof (unfold_locales, goal_cases)
  case (1 b c cs)
  have "stands b (ch_a b) (ch_abs b) (unat (ch_p b))" using 1 by (simp add: stands_def)
  then obtain b' where "charbuf_getc b = Some ((1, c), b')" "stands b' (ch_a b) (advance (ch_abs b)) (max 1 (unat (ch_p b)))"
    using getc_is[of b] 1(2) by (fastforce simp: left_def)
  moreover from this have "ch_fate b' = ch_fate b" 
    using advance_simps(2)[of "ch_abs b"] reader.select_convs(2) unfolding stands_def by (metis ch_abs_def)
  ultimately show ?case using 1(2) by (auto simp: stands_def)
next
  case (2 b)
  have "stands b (ch_a b) (ch_abs b) (unat (ch_p b))" using 2 by (simp add: stands_def)
  then show ?case using getc_is[of b] 2(2) by (fastforce simp: stands_def ch_abs_def)
next
  case (3 b)
  show ?case by (rule ch_fate_cases)
qed

subsection \<open>Runs of characters\<close>

text \<open>
  \<open>run pred n w\<close> is the part of \<open>w\<close> a loop with the predicate takes, when \<open>n\<close> is the
  index of its first character: a zero byte is taken but ends the run.  \<open>past n r\<close> is \<open>r\<close>
  after \<open>n\<close> characters.
\<close>

fun run :: "chpred \<Rightarrow> uint64 \<Rightarrow> byte list \<Rightarrow> byte list" where
  "run pred n [] = []"
| "run pred n (c # cs) = (if pred c n then c # (if c = 0 then [] else run pred (n + 1) cs) else [])"

definition past :: "nat \<Rightarrow> reader \<Rightarrow> reader" where
  "past n r = (advance ^^ n) r"

lemma past_0 [simp]: "past 0 r = r"
  by (simp add: past_def)

lemma past_Suc [simp]: "past (Suc n) r = past n (advance r)"
  by (simp add: past_def funpow_swap1)

lemma past_past: "past m (past n r) = past (m + n) r"
  by (simp add: past_def funpow_add)

lemma past_simps [simp]:
  "ahead (past n r) = drop n (ahead r)" "ending (past n r) = ending r" "taken (past n r) = taken r + of_nat n"
  by (induction n arbitrary: r) (simp_all add: drop_Suc)

lemma place_past: "n \<le> length (ahead r) \<Longrightarrow> place (past n r) = fold loc_step (take n (ahead r)) (place r)"
proof (induction n arbitrary: r)
  case (Suc n)
  then show ?case by (cases "ahead r") (simp_all add: advance_def)
qed simp

lemma run_prefix: "\<exists>v. w = run pred n w @ v"
  by (induction pred n w rule: run.induct) auto

lemma length_run: "length (run pred n w) \<le> length w"
  using run_prefix[of w pred n] by (metis le_add1 length_append)

lemma take_run: "take (length (run pred n w)) w = run pred n w"
  using run_prefix[of w pred n] by (metis append_eq_conv_conj)

lemma run_whole: "length (run pred n w) = length w \<longleftrightarrow> run pred n w = w"
  using take_run[of pred n w] by (metis take_all order_refl)

lemma pred_skip_loop_is:
  "stands b a r k \<Longrightarrow>
     \<exists>b'. pred_skip_loop pred n b =
            Some (if run pred n (ahead r) = ahead r \<and> nonul (ahead r) then ending r
                  else sint (n + of_nat (length (run pred n (ahead r)))), b') \<and>
          stands b' a (past (length (run pred n (ahead r))) r) (max 1 (k - length (run pred n (ahead r))))"
proof (induction "ahead r" arbitrary: b r k n)
  case Nil
  then show ?case using peekc_is[OF Nil(2)] stands_ending[OF Nil(2)] by (subst pred_skip_loop.simps) auto
next
  case (Cons c cs)
  note h = Cons(2)[symmetric]
  obtain b1 where b1: "charbuf_peekc b = Some ((1, c), b1)" "stands b1 a r (max 1 k)"
    using peekc_is[OF Cons(3)] h by auto
  show ?case
  proof (cases "pred c n")
    case False
    then show ?thesis using b1 h by (subst pred_skip_loop.simps) simp
  next
    case True
    obtain b2 where b2: "charbuf_skip b1 = Some (uint c, b2)" "stands b2 a (advance r) (max 1 k - 1)"
      using skip_is[OF b1(2)] h by (auto simp: left_def)
    have b2': "stands b2 a (advance r) (k - 1)" using b2(2) by (rule stands_mono) simp
    show ?thesis
    proof (cases "c = 0")
      case z: True
      have "stands b2 a (advance r) (max 1 (k - 1))" using b2' by (rule stands_mono) simp
      then show ?thesis using b1 b2 True h z by (subst pred_skip_loop.simps) simp
    next
      case False
      then have pos: "0 < uint c" by (simp add: word_neq_0_conv word_less_def)
      have t: "cs = ahead (advance r)" using h by simp
      obtain b' where "pred_skip_loop pred (n + 1) b2 =
            Some (if run pred (n + 1) cs = cs \<and> nonul cs then ending r
                  else sint (n + 1 + of_nat (length (run pred (n + 1) cs))), b')"
          "stands b' a (past (length (run pred (n + 1) cs)) (advance r)) (max 1 (k - 1 - length (run pred (n + 1) cs)))"
        using Cons(1)[OF t b2', of "n + 1"] unfolding t[symmetric] advance_simps(2) by blast
      moreover have "pred_skip_loop pred n b = pred_skip_loop pred (n + 1) b2"
        using b1 b2 True pos by (subst pred_skip_loop.simps) simp
      ultimately show ?thesis using h True False by (simp add: ac_simps)
    qed
  qed
qed

lemma CATC_granted:
  assumes "grants al" "sa_is sa w" "Suc (length w) < sa_max" "sa_s sa \<noteq> None \<or> sa_a sa = 0"
  shows "\<exists>sa'. stralloc_CATC al sa c = Some sa' \<and> sa_is sa' (w @ [c]) \<and> sa_s sa' \<noteq> None"
proof -
  have "\<exists>sa'. (if sa_len sa \<ge> sa_a sa then map_option snd (stralloc_readyplus al sa 1) else Some sa) = Some sa' \<and>
      sa_room sa' w (length w + 1)"
  proof (cases "sa_len sa \<ge> sa_a sa")
    case True
    then show ?thesis
      using sa_granted[OF assms(1) stralloc_readyplus_room[OF assms(2), of 1 al]] assms(3) by auto
  next
    case False
    moreover have "sa_s sa \<noteq> None" using assms(4) False by auto
    moreover have "Suc (length w) \<le> unat (sa_a sa)" using False sa_is_len[OF assms(2)] by (simp add: word_le_nat_alt)
    ultimately show ?thesis using assms(2) by (simp add: sa_room_def)
  qed
  then obtain sa1 where sa1: "(if sa_len sa \<ge> sa_a sa then map_option snd (stralloc_readyplus al sa 1) else Some sa) = Some sa1"
      "sa_room sa1 w (length w + 1)"
    by blast
  obtain sa2 where sa2: "sa_push sa1 c = Some sa2" "sa_is sa2 (w @ [c])" using sa_push_is[OF sa1(2)] assms(3) by auto
  moreover have "sa_s sa2 \<noteq> None" using sa2(2) by (auto simp: sa_is_def sa_wf_def sa_text_def split: option.splits)
  ultimately show ?thesis using sa1(1) unfolding stralloc_CATC_def by simp
qed

lemma pred_get_loop_is:
  assumes "grants al"
  shows "stands b a r k \<Longrightarrow> sa_is sa w \<Longrightarrow> sa_s sa \<noteq> None \<Longrightarrow> length w + length (ahead r) < sa_max \<Longrightarrow>
     \<exists>sa' b'. pred_get_loop al pred sa b = Some (sa', b') \<and> sa_is sa' (w @ run pred (of_nat (length w)) (ahead r)) \<and>
          stands b' a (past (length (run pred (of_nat (length w)) (ahead r))) r) (max 1 k)"
proof (induction "ahead r" arbitrary: b r k sa w)
  case Nil
  then show ?case using peekc_is[OF Nil(2)] stands_ending[OF Nil(2)] by (subst pred_get_loop.simps) auto
next
  case (Cons c cs)
  note h = Cons(2)[symmetric]
  have len: "sa_len sa = of_nat (length w)" using sa_is_len[OF Cons(4)] by (metis of_nat_unat ucast_id)
  obtain b1 where b1: "charbuf_peekc b = Some ((1, c), b1)" "stands b1 a r (max 1 k)"
    using peekc_is[OF Cons(3)] h by auto
  show ?case
  proof (cases "pred c (of_nat (length w))")
    case False
    then show ?thesis using b1 h len Cons(4) by (subst pred_get_loop.simps) simp
  next
    case True
    obtain b2 where b2: "charbuf_skip b1 = Some (uint c, b2)" "stands b2 a (advance r) (max 1 k - 1)"
      using skip_is[OF b1(2)] h by (auto simp: left_def)
    have b2': "stands b2 a (advance r) (max 1 k)" using b2(2) by (rule stands_mono) simp
    obtain sa1 where sa1: "stralloc_CATC al sa c = Some sa1" "sa_is sa1 (w @ [c])" "sa_s sa1 \<noteq> None"
      using CATC_granted[OF assms Cons(4)] Cons(5,6) h by fastforce
    show ?thesis
    proof (cases "c = 0")
      case z: True
      then show ?thesis using b1 b2 b2' sa1 True h len by (subst pred_get_loop.simps) simp
    next
      case False
      then have pos: "0 < uint c" by (simp add: word_neq_0_conv word_less_def)
      have t: "cs = ahead (advance r)" using h by simp
      have l: "length (w @ [c]) + length (ahead (advance r)) < sa_max" using Cons(6) h by simp
      obtain sa' b' where "pred_get_loop al pred sa1 b2 = Some (sa', b')"
          "sa_is sa' ((w @ [c]) @ run pred (of_nat (length (w @ [c]))) cs)"
          "stands b' a (past (length (run pred (of_nat (length (w @ [c]))) cs)) (advance r)) (max 1 k)"
        using Cons(1)[OF t b2' sa1(2,3) l] unfolding t[symmetric] by auto
      moreover have "pred_get_loop al pred sa b = pred_get_loop al pred sa1 b2"
        using b1 b2 sa1 True pos len by (subst pred_get_loop.simps) simp
      ultimately show ?thesis using h True False by (simp add: ac_simps)
    qed
  qed
qed

subsection \<open>Looking further ahead\<close>

lemma unat_ucast12 [simp]: "unat (ucast (x :: uint12) :: uint32) = unat x"
  using unat_uint12[of x] by (simp add: unsigned_ucast_eq take_bit_nat_eq_self)

lemma ucast12_eq: "ucast (x :: uint12) = (n :: uint32) \<longleftrightarrow> unat x = unat n"
  by (metis unat_ucast12 word_unat_eq_iff)

lemma unat_wanted:
  assumes "unat (x :: uint12) \<le> unat (n :: uint32)"
  shows "unat (ucast (n - ucast x) :: uint64) = unat n - unat x"
proof -
  have "unat (n - ucast x) = unat n - unat x" using assms by (subst unat_sub_small) simp_all
  moreover have "unat (n - ucast x) < 2 ^ 32" using unat_lt_2p[of "n - ucast x"] by simp
  ultimately show ?thesis by (simp add: unsigned_ucast_eq take_bit_nat_eq_self)
qed

lemma length_ch_held: "ch_wf b \<Longrightarrow> length (ch_held b) = unat (ch_p b)"
  by (simp add: ch_held_def ch_wf_def)

lemma peekn_loop_is:
  assumes "unat n < unat a"
  shows "stands b a r (unat n) \<Longrightarrow>
     \<exists>v b'. peekn_loop n b = Some (v, b') \<and> stands b' a r (unat n) \<and>
       (if unat n \<le> length (ahead r) then \<exists>u. v = Some (take (unat n) (ahead r) @ u) else v = None)"
proof (induction "unat n - unat (ch_p b)" arbitrary: b rule: less_induct)
  case less
  have b: "ch_wf b" "ch_a b = a" "ch_abs b = r" "unat (ch_p b) \<le> unat n" using less.prems by (simp_all add: stands_def)
  have r: "ahead r = ch_held b @ ch_more b" using b(3) by (auto simp: ch_abs_def)
  show ?case
  proof (cases "unat (ch_p b) = unat n")
    case True
    have "chrs b = take (unat n) (ahead r) @ drop (unat n) (chrs b)"
      using True r length_ch_held[OF b(1)] by (simp add: ch_held_def)
    moreover have "unat n \<le> length (ahead r)" using True r length_ch_held[OF b(1)] by simp
    moreover have "ucast (ch_p b) = n" using True by (simp add: ucast12_eq)
    ultimately show ?thesis using less.prems by (subst peekn_loop.simps) auto
  next
    case False
    let ?m = "ucast (n - ucast (ch_p b)) :: uint64"
    have m: "unat ?m = unat n - unat (ch_p b)" by (rule unat_wanted[OF b(4)])
    have ne: "ucast (ch_p b) \<noteq> n" using False by (simp add: ucast12_eq)
    show ?thesis
    proof (cases "ch_more b = []")
      case True
      obtain b' where b': "charbuf_stubborn_read b ?m = Some (ch_fate b, b')" "ch_wf b'" "ch_abs b' = ch_abs b"
          "ch_p b' = ch_p b" "ch_a b' = ch_a b"
        using ch_read_end[OF b(1) True] by blast
      have "\<not> unat n \<le> length (ahead r)" using r True length_ch_held[OF b(1)] False b(4) by simp
      then show ?thesis using ne b' b ch_fate_cases[of b] by (subst peekn_loop.simps) (auto simp: stands_def)
    next
      case more: False
      have "unat (ch_p b) < unat (ch_a b)" "0 < ?m" using assms b False m by (auto simp: word_less_nat_alt)
      then obtain k b' where b': "charbuf_stubborn_read b ?m = Some (int k, b')" "0 < k" "k \<le> unat ?m" "ch_p b' = ch_p b"
          "ch_a b' = ch_a b" "unat (ch_p b + of_nat k) = unat (ch_p b) + k" "ch_wf (b'\<lparr>ch_p := ch_p b + of_nat k\<rparr>)"
          "ch_abs (b'\<lparr>ch_p := ch_p b + of_nat k\<rparr>) = ch_abs b"
        using ch_read_more[OF b(1) _ _ more] by blast
      let ?b = "b'\<lparr>ch_p := ch_p b + of_nat k\<rparr>"
      have "peekn_loop n b = peekn_loop n ?b" using ne b'(1,2,4) by (subst peekn_loop.simps) simp
      moreover have "stands ?b a r (unat n)" using b' b m by (simp add: stands_def)
      moreover have "unat n - unat (ch_p ?b) < unat n - unat (ch_p b)" using b'(2,3,6) m by simp
      ultimately show ?thesis using less.hyps[of ?b] by simp
    qed
  qed
qed

lemma peekn_is:
  assumes "stands b a r k" "k \<le> unat n" "unat n < unat a"
  shows "\<exists>v b'. charbuf_peekn b n = Some (v, b') \<and> stands b' a r (unat n) \<and>
       (if unat n \<le> length (ahead r) then \<exists>u. v = Some (take (unat n) (ahead r) @ u) else v = None)"
proof -
  have "n < ucast (ch_a b)" using assms(1,3) by (simp add: stands_def word_less_nat_alt)
  then show ?thesis using peekn_loop_is[OF assms(3) stands_mono[OF assms(1,2)]] by (simp add: charbuf_peekn_def)
qed

text \<open>
  The characters that satisfy the predicate at their index; nothing is taken.  The window has to
  hold one more.
\<close>

fun prefix_run :: "chpred \<Rightarrow> uint64 \<Rightarrow> byte list \<Rightarrow> nat" where
  "prefix_run pred n [] = 0"
| "prefix_run pred n (c # cs) = (if pred c n then Suc (prefix_run pred (n + 1) cs) else 0)"

lemma lookahead_loop_is:
  assumes "n + prefix_run pred (of_nat n) (drop n (ahead r)) + 1 < unat a" "n \<le> length (ahead r)"
    and "stands b a r k" "k \<le> n + 1"
  shows "\<exists>b'. lookahead_loop pred (of_nat n) b = Some (int (n + prefix_run pred (of_nat n) (drop n (ahead r))), b') \<and>
       stands b' a r (n + prefix_run pred (of_nat n) (drop n (ahead r)) + 1)"
  using assms
proof (induction "length (ahead r) - n" arbitrary: n b k)
  case (0 n)
  have a: "n + 1 < unat a" "n + 1 < 4096" using 0(2,3) unat_uint12[of a] by simp_all
  then have n: "unat (ucast (of_nat n + 1 :: uint64) :: uint32) = n + 1" "sint (of_nat n :: uint64) = int n"
    by (simp_all add: unsigned_ucast_eq unat_of_nat take_bit_nat_eq_self unat_word_ariths sint_small)
  have "drop n (ahead r) = []" using 0(1) by simp
  then show ?case using peekn_is[OF 0(4), of "ucast (of_nat n + 1 :: uint64)"] 0(1,5) a n
    by (subst lookahead_loop.simps) auto
next
  case (Suc m n)
  have a: "n + 1 < unat a" "n + 1 < 4096" using Suc(3,4) unat_uint12[of a] by simp_all
  then have n: "unat (ucast (of_nat n + 1 :: uint64) :: uint32) = n + 1" "sint (of_nat n :: uint64) = int n" "unat (of_nat n :: uint64) = n"
    by (simp_all add: unsigned_ucast_eq unat_of_nat take_bit_nat_eq_self unat_word_ariths sint_small)
  have l: "n < length (ahead r)" using Suc(2) by simp
  obtain u b1 where b1: "charbuf_peekn b (ucast (of_nat n + 1 :: uint64)) = Some (Some (take (n + 1) (ahead r) @ u), b1)"
      "stands b1 a r (n + 1)"
    using peekn_is[OF Suc(5), of "ucast (of_nat n + 1 :: uint64)"] Suc(6) a n l by auto
  have d: "drop n (ahead r) = ahead r ! n # drop (n + 1) (ahead r)" using l by (simp add: Cons_nth_drop_Suc)
  have rd: "rd (take (n + 1) (ahead r) @ u) n = Some (ahead r ! n)" using l by (simp add: nth_append)
  show ?case
  proof (cases "pred (ahead r ! n) (of_nat n)")
    case False
    then show ?thesis using b1 rd n d by (subst lookahead_loop.simps) simp
  next
    case True
    have e: "of_nat (n + 1) = (of_nat n + 1 :: uint64)" by simp
    have p: "prefix_run pred (of_nat n) (drop n (ahead r)) = Suc (prefix_run pred (of_nat (n + 1)) (drop (n + 1) (ahead r)))"
      using True d by (simp add: add.commute)
    have "lookahead_loop pred (of_nat n) b = lookahead_loop pred (of_nat (n + 1)) b1"
      using b1(1) rd n(3) True by (subst lookahead_loop.simps) (simp add: e add.commute)
    then show ?thesis using Suc(1)[of "n + 1" b1 "n + 1"] Suc(2,3) l b1(2) unfolding p by simp
  qed
qed

subsection \<open>The remaining operations\<close>

lemma run_ctype: "\<not> fn 0 \<Longrightarrow> run (charbuf_is_ctype fn) n w = takeWhile fn w"
  by (induction w arbitrary: n) (auto simp: charbuf_is_ctype_def)

lemma skip_ws_is:
  assumes "stands b a r k"
  shows "\<exists>b' v. charbuf_skip_ws b = Some (v, b') \<and> stands b' a (past (length (takeWhile isspace (ahead r))) r) (max 1 (k - length (takeWhile isspace (ahead r))))"
proof -
  have "run (charbuf_is_ctype isspace) 0 (ahead r) = takeWhile isspace (ahead r)"
    by (rule run_ctype) (simp add: isspace_def)
  then show ?thesis using pred_skip_loop_is[OF assms, of "charbuf_is_ctype isspace" 0]
    unfolding charbuf_skip_ws_def charbuf_pred_skip_def by metis
qed

lemma skip_ifeq_is:
  assumes "stands b a r k" "c \<noteq> 0"
  shows "\<exists>b'. charbuf_skip_ifeq b c =
       Some (if ahead r = [] \<or> ahead r = [c] then ending r else if hd (ahead r) = c then 1 else 0, b') \<and>
     (if ahead r \<noteq> [] \<and> hd (ahead r) = c then stands b' a (advance r) (max 1 (k - 1)) else stands b' a r (max 1 k))"
proof (cases "ahead r")
  case Nil
  then show ?thesis using pred_skip_loop_is[OF assms(1), of "charbuf_is_samechar c" 0]
    by (simp add: charbuf_skip_ifeq_def charbuf_pred_skip_def)
next
  case (Cons d ds)
  have e: "run (charbuf_is_samechar c) 1 ds = []" by (cases ds) (simp_all add: charbuf_is_samechar_def)
  then have "run (charbuf_is_samechar c) 0 (ahead r) = (if d = c then [d] else [])"
    using Cons assms(2) by (simp add: charbuf_is_samechar_def)
  then show ?thesis using pred_skip_loop_is[OF assms(1), of "charbuf_is_samechar c" 0] Cons assms(2)
    by (cases "d = c") (auto simp: charbuf_skip_ifeq_def charbuf_pred_skip_def)
qed

lemma skip_ifset_is:
  assumes "stands b a r k" "setlen \<le> length cs" "ahead r = c # w"
  shows "\<exists>b'. charbuf_skip_ifset junk b cs setlen = Some (if c \<in> set (take setlen cs) then uint c else 0, b') \<and>
     (if c \<in> set (take setlen cs) then stands b' a (advance r) (max 1 k - 1) else stands b' a r (max 1 k))"
proof -
  obtain b1 where b1: "charbuf_peekc b = Some ((1, c), b1)" "stands b1 a r (max 1 k)" using peekc_is[OF assms(1)] assms(3) by auto
  obtain i where i: "byte_chr cs setlen c = Some i" "i < setlen \<longleftrightarrow> c \<in> set (take setlen cs)"
    using byte_chr_set[OF assms(2), of c] by blast
  moreover have "i \<le> setlen"
    using i(1) assms(2) length_takeWhile_le[of "\<lambda>x. x \<noteq> c" "take setlen cs"] by (simp add: byte_chr_takeWhile)
  moreover obtain b2 where "charbuf_skip b1 = Some (uint c, b2)" "stands b2 a (advance r) (max 1 k - 1)"
    using skip_is[OF b1(2)] assms(3) by (auto simp: left_def)
  ultimately show ?thesis using b1 by (cases "i = setlen") (auto simp: charbuf_skip_ifset_def)
qed

lemma skip_until_loop_is:
  "stands b a r k \<Longrightarrow> c \<noteq> 0 \<Longrightarrow> takeWhile (\<lambda>x. x \<noteq> c) (ahead r) = w \<Longrightarrow> nonul w \<Longrightarrow>
     \<exists>b'. skip_until_loop c n b = Some (if w = ahead r then ending r else sint (n + of_nat (length w)), b') \<and>
          stands b' a (past (length w) r) (max 1 k)"
proof (induction "ahead r" arbitrary: b r k n w)
  case Nil
  then show ?case using peek_is[OF Nil(2)] stands_ending[OF Nil(2)] by (subst skip_until_loop.simps) auto
next
  case (Cons d ds)
  note h = Cons(2)[symmetric]
  obtain b1 where b1: "charbuf_peek b = Some (uint d, b1)" "stands b1 a r (max 1 k)" using peek_is[OF Cons(3)] h by auto
  have dz: "d \<noteq> 0" using Cons(4-6) h by (auto split: if_splits)
  then have pos: "0 < uint d" by (simp add: word_neq_0_conv word_less_def)
  show ?case
  proof (cases "d = c")
    case True
    then show ?thesis using b1 h pos Cons(5) by (subst skip_until_loop.simps) auto
  next
    case False
    obtain b2 where b2: "charbuf_skip b1 = Some (uint d, b2)" "stands b2 a (advance r) (max 1 k - 1)"
      using skip_is[OF b1(2)] h by (auto simp: left_def)
    have b2': "stands b2 a (advance r) k" using b2(2) by (rule stands_mono) simp
    obtain v where v: "w = d # v" "takeWhile (\<lambda>x. x \<noteq> c) ds = v" "nonul v" using Cons(5,6) h False by auto
    have t: "ds = ahead (advance r)" using h by simp
    obtain b' where "skip_until_loop c (n + 1) b2 = Some (if v = ds then ending r else sint (n + 1 + of_nat (length v)), b')"
        "stands b' a (past (length v) (advance r)) (max 1 k)"
      using Cons(1)[OF t b2' Cons(4) _ v(3), of "n + 1"] v(2) t unfolding t[symmetric] advance_simps(2) by blast
    moreover have "skip_until_loop c n b = skip_until_loop c (n + 1) b2"
      using b1 b2 False pos by (subst skip_until_loop.simps) (simp add: word_uint_eq_iff)
    ultimately show ?thesis using h v by (simp add: ac_simps)
  qed
qed

lemma skipn_loop_is:
  "stands b a r k \<Longrightarrow> nonul (take n (ahead r)) \<Longrightarrow> 
     \<exists>b'. charbuf_skipn_loop n i b = Some (i + min n (length (ahead r)), b') \<and> stands b' a (past (min n (length (ahead r))) r) (k - min n (length (ahead r)))"
proof (induction n arbitrary: i b r k)
  case (Suc n)
  obtain b1 where b1: "charbuf_peekc b = Some (case ahead r of [] \<Rightarrow> (ending r, 0) | c # _ \<Rightarrow> (1, c), b1)" "stands b1 a r (max 1 k)"
    using peekc_is[OF Suc.prems(1)] by blast
  show ?case
  proof (cases "ahead r")
    case Nil
    have "ch_p b1 = 0" using b1(2) ch_held_some[of b1] Nil by (fastforce simp: stands_def)
    then have "stands b1 a r k" using b1(2) by (simp add: stands_def)
    then show ?thesis using b1(1) Nil stands_ending[OF Suc.prems(1)] by auto
  next
    case (Cons c cs)
    then have c: "0 < uint c" using Suc.prems(2) by (simp add: word_neq_0_conv word_less_def)
    obtain b2 where b2: "charbuf_skip b1 = Some (uint c, b2)" "stands b2 a (advance r) (max 1 k - 1)"
      using skip_is[OF b1(2)] Cons by (auto simp: left_def)
    have "stands b2 a (advance r) (k - 1)" using b2(2) by (rule stands_mono) simp
    then show ?thesis using Suc.IH[of b2 "advance r" "k - 1" "i + 1"] Suc.prems(2) b1 b2 c Cons by (auto simp: min_Suc_Suc)
  qed
qed simp

text \<open>A fresh buffer stands for its whole input, when the window has not been cut to nothing.\<close>

definition window :: "uint32 \<Rightarrow> uint12" where
  "window lookahead = ucast ((lookahead + 7) AND NOT 7)"

definition fresh :: "charop \<Rightarrow> reader" where
  "fresh s = \<lparr>ahead = charop_pending s, ending = charop_fate s, place = \<lparr>loc_line = 0, loc_column = 0\<rparr>, taken = 0\<rparr>"

lemma charbuf_init_stands:
  assumes "grants al" "charop_ok s" "window n \<noteq> 0"
  shows "stands (charbuf_init al s n) (window n) (fresh s) 0"
proof -
  obtain m where m: "malloc al (unat (window n)) = Some m" "length m = unat (window n)"
    using assms(1) by (force simp: grants_def malloc_def)
  have "charbuf_init al s n = \<lparr>chrs = m, ch_p = 0, ch_a = window n, ch_eof = False,
      ch_err = False, ch_op = s, ch_loc = \<lparr>loc_line = 0, loc_column = 0\<rparr>, ch_offset = 0\<rparr>"
    using m(1) unfolding charbuf_init_def window_def[symmetric] Let_def by simp
  then show ?thesis using m(2) assms(2,3)
    by (simp add: stands_def ch_wf_def ch_abs_def ch_held_def ch_more_def charbuf_done_def ch_fate_def fresh_def unat_gt_0)
qed

subsection \<open>What the buffer guarantees\<close>

text \<open>The line and column after some text.\<close>

definition loc_after :: "byte list \<Rightarrow> charloc \<Rightarrow> charloc" where
  "loc_after w l =
     (if 10 \<in> set w then \<lparr>loc_line = loc_line l + of_nat (count_list w 10),
                            loc_column = of_nat (length (takeWhile (\<lambda>c. c \<noteq> 10) (rev w)))\<rparr>
      else l\<lparr>loc_column := loc_column l + of_nat (length w)\<rparr>)"

lemma fold_loc_step: "fold loc_step w l = loc_after w l"
proof (induction w rule: rev_induct)
  case (snoc c w)
  have "10 \<notin> set w \<Longrightarrow> count_list w 10 = 0" by (simp add: count_list_0_iff)
  then show ?case using snoc by (auto simp: loc_after_def loc_step_def)
qed (simp add: loc_after_def)

lemma past_eq:
  assumes "n \<le> length (ahead r)"
  shows "past n r = \<lparr>ahead = drop n (ahead r), ending = ending r, place = loc_after (take n (ahead r)) (place r),
                     taken = taken r + of_nat n\<rparr>"
  using place_past[OF assms] by (intro reader.equality) (simp_all add: fold_loc_step)

text \<open>
  C31. \<open>charbuf_pred_get\<close> collects exactly the run of characters its predicate accepts at their index:
  the string holds them and a terminator, the characters after them are still ahead whatever the
  reads deliver and however often they are interrupted, and the line, the column and the offset are
  those of the next character.  A zero byte is taken and ends the run.
\<close>
theorem charbuf_pred_get_exact:
  assumes "grants al" "ch_wf b" "sa_is sa v" "length (ahead (ch_abs b)) + 1 < sa_max"
  shows "\<exists>sa' b'. charbuf_pred_get al b sa pred = Some ((int (length (run pred 0 (ahead (ch_abs b)))), sa'), b') \<and>
     sa_is sa' (run pred 0 (ahead (ch_abs b))) \<and> (\<exists>u. sa_mem sa' = cstr (run pred 0 (ahead (ch_abs b))) u) \<and> ch_wf b' \<and>
     ch_abs b' = \<lparr>ahead = drop (length (run pred 0 (ahead (ch_abs b)))) (ahead (ch_abs b)), ending = ch_fate b,
                  place = loc_after (run pred 0 (ahead (ch_abs b))) (ch_loc b),
                  taken = ch_offset b + of_nat (length (run pred 0 (ahead (ch_abs b))))\<rparr>"
proof -
  define w where "w = run pred 0 (ahead (ch_abs b))"
  have w: "length w \<le> length (ahead (ch_abs b))" "take (length w) (ahead (ch_abs b)) = w"
    unfolding w_def by (rule length_run, rule take_run)
  have st: "stands b (ch_a b) (ch_abs b) (unat (ch_p b))" using assms(2) by (simp add: stands_def)
  have z: "sa_is (stralloc_zero sa) []" using assms(3)
    by (auto simp: sa_is_def sa_wf_def sa_text_def stralloc_zero_def sa_mem_def split: option.splits)
  have u: "unat (2 :: uint64) < sa_max" by (simp add: sa_max_def)
  obtain sa1 where sa1: "stralloc_ready al (stralloc_zero sa) 2 = Some (True, sa1)" "sa_room sa1 [] 2"
    using sa_granted[OF assms(1) stralloc_ready_room[OF z u]] by auto
  obtain sa2 b2 where b2: "pred_get_loop al pred sa1 b = Some (sa2, b2)" "sa_is sa2 w" "stands b2 (ch_a b) (past (length w) (ch_abs b)) (max 1 (unat (ch_p b)))"
    using pred_get_loop_is[OF assms(1) st, of sa1 "[]" pred] sa1(2) assms(4) by (auto simp: sa_room_def w_def)
  obtain sa3 where sa3: "stralloc_nul al sa2 = Some (True, sa3)" "sa_is sa3 w" "\<exists>u. sa_mem sa3 = cstr w u"
    using nul_granted[OF assms(1) b2(2)] w(1) assms(4) by auto
  have "sint (sa_len sa3) = int (length w)"
    using sa_is_len[OF sa3(2)] w(1) assms(4) by (subst sint_small) (simp_all add: sa_max_def)
  moreover have "ch_abs b2 = \<lparr>ahead = drop (length w) (ahead (ch_abs b)), ending = ch_fate b,
      place = loc_after w (ch_loc b), taken = ch_offset b + of_nat (length w)\<rparr>"
    using b2(3) w past_eq[OF w(1)] by (simp add: stands_def) (simp add: ch_abs_def)
  ultimately show ?thesis using sa1 b2 sa3 unfolding w_def[symmetric]
    by (auto simp: charbuf_pred_get_def stands_def)
qed

text \<open>
  C33. \<open>charbuf_pred_lookahead\<close> counts the characters ahead that its predicate accepts and takes
  none of them: the text, the line, the column and the offset are as before.  The window has to be
  larger than the count by two, and not hold more than one character already.
\<close>
theorem charbuf_lookahead_exact:
  assumes "ch_wf b" "ch_p b \<le> 1" "prefix_run pred 0 (ahead (ch_abs b)) + 1 < unat (ch_a b)"
  shows "\<exists>b'. charbuf_pred_lookahead b pred = Some (int (prefix_run pred 0 (ahead (ch_abs b))), b') \<and>
           ch_wf b' \<and> ch_abs b' = ch_abs b"
proof -
  have "stands b (ch_a b) (ch_abs b) 1" using assms(1,2) by (simp add: stands_def word_le_nat_alt)
  then show ?thesis using lookahead_loop_is[of 0 pred "ch_abs b" "ch_a b" b 1] assms(3)
    by (auto simp: charbuf_pred_lookahead_def stands_def)
qed

lemma window_8: "window 8 = 8" "window 1 = 8"
  by (simp_all add: window_def)

lemma froms_wf:
  assumes "nonul w"
  shows "stands (charbuf_froms plenty (cstr w u) 8) 8 (fresh (Str (cstr w u))) 0" "charop_pending (Str (cstr w u)) = w"
proof -
  have "takeWhile (\<lambda>c. c \<noteq> 0) (cstr w u) = w" using assms by (induction w) auto
  moreover have "charop_ok (Str (cstr w u))" by (simp add: cstr_def)
  ultimately show "stands (charbuf_froms plenty (cstr w u) 8) 8 (fresh (Str (cstr w u))) 0" "charop_pending (Str (cstr w u)) = w"
    using charbuf_init_stands[OF grants_plenty, of _ 8] by (simp_all add: charbuf_froms_def window_8 charop_ok.simps(2))
qed

theorem charbuf_pred_get_exact_witness:
  "\<exists>sa' b'. charbuf_pred_get plenty (charbuf_froms plenty [97, 98, 10, 99, 32, 100, 0] 8) \<lparr>sa_s = None, sa_len = 0, sa_a = 0\<rparr>
       (\<lambda>c _. c \<noteq> 32) = Some ((4, sa'), b') \<and> sa_is sa' [97, 98, 10, 99] \<and>
     ch_abs b' = \<lparr>ahead = [32, 100], ending = 0, place = \<lparr>loc_line = 1, loc_column = 1\<rparr>, taken = 4\<rparr>"
proof -
  define b where "b = charbuf_froms plenty [97, 98, 10, 99, 32, 100, 0] 8"
  have "stands b 8 (fresh (Str [97, 98, 10, 99, 32, 100, 0])) 0"
    using froms_wf(1)[of "[97, 98, 10, 99, 32, 100]" "[]"] by (simp add: b_def)
  then have b: "ch_wf b" "ch_abs b = \<lparr>ahead = [97, 98, 10, 99, 32, 100], ending = 0, place = \<lparr>loc_line = 0, loc_column = 0\<rparr>, taken = 0\<rparr>"
    by (simp_all add: stands_def fresh_def)
  have l: "length (ahead (ch_abs b)) + 1 < sa_max" unfolding b(2) by (simp add: sa_max_def)
  have sa: "sa_is \<lparr>sa_s = None, sa_len = 0, sa_a = 0\<rparr> []" by (simp add: sa_is_def sa_wf_def sa_text_def)
  have w: "run (\<lambda>c _. c \<noteq> 32) 0 (ahead (ch_abs b)) = [97, 98, 10, 99]" unfolding b(2) by simp
  have p: "loc_after [97, 98, 10, 99] (ch_loc b) = \<lparr>loc_line = 1, loc_column = 1\<rparr>" "ch_offset b = 0" "ch_fate b = 0"
    using b(2) by (simp_all add: ch_abs_def loc_after_def)
  show ?thesis
    using charbuf_pred_get_exact[OF grants_plenty b(1) sa l, of "\<lambda>c _. c \<noteq> 32", unfolded w p]
    unfolding b_def[symmetric] b(2) by auto
qed

theorem charbuf_lookahead_exact_witness:
  "\<exists>b'. charbuf_pred_lookahead (charbuf_froms plenty [97, 97, 98, 0] 8) (\<lambda>c _. c = 97) = Some (2, b') \<and>
     ch_abs b' = fresh (Str [97, 97, 98, 0])"
proof -
  define b where "b = charbuf_froms plenty [97, 97, 98, 0] 8"
  have "stands b 8 (fresh (Str [97, 97, 98, 0])) 0" using froms_wf(1)[of "[97, 97, 98]" "[]"] by (simp add: b_def)
  then have b: "ch_wf b" "ch_abs b = fresh (Str [97, 97, 98, 0])" "ch_a b = 8" "ch_p b = 0"
    by (simp_all add: stands_def unat_eq_0)
  have r: "prefix_run (\<lambda>c _. c = 97) 0 (ahead (ch_abs b)) = 2" unfolding b(2) by (simp add: fresh_def)
  have p: "ch_p b \<le> 1" "prefix_run (\<lambda>c _. c = 97) 0 (ahead (ch_abs b)) + 1 < unat (ch_a b)"
    unfolding r b(3,4) by simp_all
  show ?thesis using charbuf_lookahead_exact[OF b(1) p, unfolded r] unfolding b_def[symmetric] b(2) by auto
qed

text \<open>Looking at fewer characters than are held.\<close>

lemma charbuf_op_none:
  assumes "charop_ok s" "charop_pending s \<noteq> []"
  shows "\<exists>s'. charbuf_op s 0 = Some (0, [], s') \<and> charop_ok s'"
proof (cases s)
  case (Fd x)
  have "pending rs \<noteq> [] \<Longrightarrow> \<exists>s'. charbuf_read_loop rs 0 err = (0, [], s')" for rs err
    by (induction rs "0 :: nat" err rule: charbuf_read_loop.induct) (auto split: if_splits)
  then obtain y where "charbuf_read_loop (rreplies x) 0 (rerrno x) = (0, [], y)" using Fd assms by fastforce
  then show ?thesis using Fd by (auto simp: charbuf_op_def)
next
  case (Str x)
  then show ?thesis using assms readstr_eq[of x 0] by (auto simp: charbuf_op_def)
qed

lemma read_full:
  assumes "ch_wf b" "ch_p b = ch_a b" "ch_more b \<noteq> []" "0 < most"
  shows "\<exists>b'. charbuf_stubborn_read b most = Some (0, b') \<and> ch_wf b' \<and> ch_held b' = ch_held b \<and> ch_eof b'"
proof -
  have d: "\<not> charbuf_done b" "charop_pending (ch_op b) \<noteq> []" "charop_ok (ch_op b)"
    using assms(1,3) by (auto simp: ch_more_def ch_wf_def split: if_splits)
  obtain s where s: "charbuf_op (ch_op b) 0 = Some (0, [], s)" "charop_ok s" using charbuf_op_none[OF d(3,2)] by blast
  have "unat (ch_p b) \<le> length (chrs b)" using assms(1) by (simp add: ch_wf_def)
  then have "charbuf_stubborn_read b most = Some (0, b\<lparr>ch_op := s, ch_eof := True\<rparr>)"
    using d(1) s assms(2,4) by (auto simp: charbuf_stubborn_read_def charbuf_done_def Let_def not_less)
  then show ?thesis using assms(1) s(2) by (simp add: ch_wf_def ch_held_def)
qed

lemma peekn_loop_past:
  "ch_wf b \<Longrightarrow> unat n < unat (ch_p b) \<Longrightarrow> unat (ch_a b) < length (ahead (ch_abs b)) \<Longrightarrow>
     \<exists>b'. peekn_loop n b = Some (None, b') \<and> ch_wf b' \<and> ahead (ch_abs b') = take (unat (ch_a b)) (ahead (ch_abs b)) \<and>
       ending (ch_abs b') = 0"
proof (induction "unat (ch_a b) - unat (ch_p b)" arbitrary: b rule: less_induct)
  case less
  let ?m = "ucast (n - ucast (ch_p b)) :: uint64"
  have ah: "ahead (ch_abs b) = ch_held b @ ch_more b" by (simp add: ch_abs_def)
  have more: "ch_more b \<noteq> []" using less.prems(1,3) ah length_ch_held[of b] by (auto simp: ch_wf_def)
  have ne: "ucast (ch_p b) \<noteq> n" using less.prems(2) by (auto simp: ucast12_eq)
  have "0 < unat (n - ucast (ch_p b))" "unat (n - ucast (ch_p b)) < 2 ^ 32"
    using ne unat_lt_2p[of "n - ucast (ch_p b)"] by (auto simp: unat_gt_0)
  then have m: "0 < ?m" by (simp add: unsigned_ucast_eq word_less_nat_alt take_bit_nat_eq_self)
  show ?case
  proof (cases "unat (ch_p b) < unat (ch_a b)")
    case True
    obtain k b' where b': "charbuf_stubborn_read b ?m = Some (int k, b')" "0 < k" "ch_p b' = ch_p b"
        "ch_a b' = ch_a b" "unat (ch_p b) + k \<le> unat (ch_a b)" "unat (ch_p b + of_nat k) = unat (ch_p b) + k"
        "ch_wf (b'\<lparr>ch_p := ch_p b + of_nat k\<rparr>)" "ch_abs (b'\<lparr>ch_p := ch_p b + of_nat k\<rparr>) = ch_abs b"
      using ch_read_more[OF less.prems(1) True m more] by blast
    let ?b = "b'\<lparr>ch_p := ch_p b + of_nat k\<rparr>"
    have "peekn_loop n b = peekn_loop n ?b" using ne b'(1-3) by (subst peekn_loop.simps) simp
    moreover have "unat (ch_a ?b) - unat (ch_p ?b) < unat (ch_a b) - unat (ch_p b)" using b'(2,4-6) by simp
    ultimately show ?thesis using less.hyps[of ?b] less.prems b' by simp
  next
    case False
    then have "ch_p b = ch_a b" using less.prems(1) by (simp add: ch_wf_def word_unat_eq_iff)
    then obtain b' where b': "charbuf_stubborn_read b ?m = Some (0, b')" "ch_wf b'" "ch_held b' = ch_held b" "ch_eof b'"
      using read_full[OF less.prems(1) _ more m] by blast
    have "ch_held b = take (unat (ch_a b)) (ahead (ch_abs b))"
      using ah length_ch_held[OF less.prems(1)] \<open>ch_p b = ch_a b\<close> by simp
    then show ?thesis using ne b' by (subst peekn_loop.simps) (auto simp: ch_abs_def ch_more_def ch_fate_def charbuf_done_def)
  qed
qed

text \<open>
  \<open>charbuf_peekn\<close> loses input when fewer characters are asked for than are already held: it
  fills its window, reads once more with no room left, takes the empty result for the end of the
  file and returns the null pointer.  Everything behind the window is gone.
\<close>
theorem charbuf_peekn_loses_input:
  assumes "ch_wf b" "unat n < unat (ch_p b)" "unat (ch_a b) < length (ahead (ch_abs b))"
  shows "\<exists>b'. charbuf_peekn b n = Some (None, b') \<and> ch_wf b' \<and>
     ahead (ch_abs b') = take (unat (ch_a b)) (ahead (ch_abs b)) \<and> ending (ch_abs b') = 0"
proof -
  have "n < ucast (ch_a b)" using assms(1,2) by (simp add: ch_wf_def word_less_nat_alt)
  then show ?thesis using peekn_loop_past[OF assms] by (simp add: charbuf_peekn_def)
qed

theorem charbuf_peekn_loses_input_witness:
  "\<exists>b'. charbuf_peekn \<lparr>chrs = [97, 98, 99, 0, 0, 0, 0, 0], ch_p = 3, ch_a = 8, ch_eof = False, ch_err = False,
       ch_op = Str [100, 101, 102, 103, 104, 105, 106, 0], ch_loc = \<lparr>loc_line = 0, loc_column = 0\<rparr>, ch_offset = 0\<rparr> 2 = Some (None, b') \<and>
     ahead (ch_abs b') = [97, 98, 99, 100, 101, 102, 103, 104] \<and> ending (ch_abs b') = 0"
proof -
  define b where "b = \<lparr>chrs = [97, 98, 99, 0, 0, 0, 0, 0], ch_p = 3, ch_a = 8, ch_eof = False, ch_err = False,
      ch_op = Str [100, 101, 102, 103, 104, 105, 106, 0], ch_loc = \<lparr>loc_line = 0, loc_column = 0\<rparr>, ch_offset = 0\<rparr>"
  have w: "ch_wf b" by (simp add: b_def ch_wf_def)
  have r: "ahead (ch_abs b) = [97, 98, 99, 100, 101, 102, 103, 104, 105, 106]" "ch_a b = 8" "ch_p b = 3"
    by (simp_all add: b_def ch_abs_def ch_held_def ch_more_def charbuf_done_def)
  have "unat (2 :: uint32) < unat (ch_p b)" "unat (ch_a b) < length (ahead (ch_abs b))" unfolding r by simp_all
  then show ?thesis using charbuf_peekn_loses_input[OF w, of 2] unfolding b_def[symmetric] r by auto
qed

text \<open>
  C36. \<open>charbuf_skip_ifeq\<close> takes the next character exactly when it is the one asked for, but its
  result does not say so at the end of the input: it is that of looking at the character after it,
  0 for the last one.
\<close>
theorem charbuf_skip_ifeq_exact:
  assumes "ch_wf b" "c \<noteq> 0" "ahead (ch_abs b) = d # w"
  shows "\<exists>b'. charbuf_skip_ifeq b c = Some (if d \<noteq> c then 0 else if w = [] then ch_fate b else 1, b') \<and> ch_wf b' \<and>
     ch_abs b' = (if d = c then past 1 (ch_abs b) else ch_abs b)"
proof -
  have st: "stands b (ch_a b) (ch_abs b) (unat (ch_p b))" using assms(1) by (simp add: stands_def)
  have "ending (ch_abs b) = ch_fate b" by (simp add: ch_abs_def)
  then show ?thesis using skip_ifeq_is[OF st assms(2)] assms(3) by (auto simp: stands_def)
qed

theorem charbuf_skip_ifeq_exact_witness:
  "\<exists>b'. charbuf_skip_ifeq (charbuf_froms plenty [93, 0] 8) 93 = Some (0, b') \<and> ahead (ch_abs b') = []"
proof -
  define b where "b = charbuf_froms plenty [93, 0] 8"
  have "stands b 8 (fresh (Str [93, 0])) 0" using froms_wf(1)[of "[93]" "[]"] by (simp add: b_def)
  then have b: "ch_wf b" "ahead (ch_abs b) = 93 # []" "ch_fate b = 0" by (auto simp: stands_def fresh_def ch_abs_def)
  have "(93 :: byte) \<noteq> 0" by simp
  from charbuf_skip_ifeq_exact[OF b(1) this b(2)] show ?thesis using b(2,3) unfolding b_def[symmetric] by auto
qed

end
