(* ===== verification/Hmap.thy ===== *)
theory Hmap
  imports Strs Dictionary "HOL-Library.AList"
begin

text \<open>
  The hash map of \<open>src/lib/hmap\<close>, which \<open>map.h\<close> gives to the JSON and XML trees: a table of
  \<open>bucket_size\<close> tuples, one per bucket, further tuples of a bucket linked to it in a ring
  (\<open>hash_next\<close>, \<open>hash_prev\<close>), and all tuples in use linked in a second ring in the order in
  which they were added (\<open>next\<close>, \<open>prev\<close>).  Tuples live in memory: address \<open>i\<close> below
  \<open>bucket_size\<close> is the tuple \<open>i\<close> of the table, the others were allocated one by one, and
  reading or writing through \<open>NULL\<close> or a freed tuple is \<open>None\<close>.  The array \<open>key\<close> and
  \<open>key_len\<close> are one list, empty for a tuple not in use.  A pointer to a
  value is the bytes from there to the end of the object: \<open>hmap_set\<close> and \<open>hmap_add\<close> copy a block of
  \<open>d_len\<close> bytes, a custom pointer is kept as it is.  A floating-point number is its bytes.  Whether the
  allocations of a call succeed is an argument.
\<close>

subsection \<open>Tuples and their links\<close>

datatype hmap_data_type = T_INT | T_UINT | T_INT64 | T_UINT64 | T_DOUBLE | T_CHARS | T_CUSTOM | T_TUPLE

datatype hvals = Val_int int | Val_uint uint32 | Val_longlong int | Val_ulonglong uint64
  | Val_double "byte list option" | Val_chars "byte list option" | Val_custom "byte list option"

record links =
  lk_next :: "nat option"
  lk_prev :: "nat option"

record tuple =
  t_list :: links
  t_hash :: links
  t_key :: "byte list"
  t_secondary :: bool
  t_index :: nat
  t_data_len :: nat
  t_data :: "byte list option"
  t_data_type :: hmap_data_type
  t_vals :: "hvals"

type_synonym tuples = "nat \<Rightarrow> tuple option"

definition MAX_SIZE_KEY :: nat where
  "MAX_SIZE_KEY = 1024"

definition no_links :: links where
  "no_links = \<lparr>lk_next = None, lk_prev = None\<rparr>"

text \<open>A tuple of zero bytes, as \<open>calloc\<close> gives it.\<close>

definition zero_tuple :: "tuple" where
  "zero_tuple = \<lparr>t_list = no_links, t_hash = no_links, t_key = [], t_secondary = False, t_index = 0, t_data_len = 0,
     t_data = None, t_data_type = T_INT, t_vals = Val_int 0\<rparr>"

definition t_mod :: "tuples \<Rightarrow> nat \<Rightarrow> (tuple \<Rightarrow> tuple) \<Rightarrow> tuples option" where
  "t_mod m a f = (case m a of None \<Rightarrow> None | Some t \<Rightarrow> Some (m(a \<mapsto> f t)))"

text \<open>
  The macros \<open>HDB_LIST_APPEND\<close> and \<open>HDB_HASH_APPEND\<close>, \<open>HDB_LIST_REMOVE\<close> and
  \<open>HDB_HASH_REMOVE\<close> differ only in the links they work on.
\<close>

definition ring_append ::
  "(tuple \<Rightarrow> links) \<Rightarrow> ((links \<Rightarrow> links) \<Rightarrow> tuple \<Rightarrow> tuple) \<Rightarrow> tuples \<Rightarrow> nat option \<Rightarrow> nat \<Rightarrow> (tuples \<times> nat option) option" where
  "ring_append lnk upd m first item =
     (case first of
        None \<Rightarrow> do { m \<leftarrow> t_mod m item (upd (\<lambda>l. l\<lparr>lk_next := Some item, lk_prev := Some item\<rparr>)); Some (m, Some item) }
      | Some f \<Rightarrow>
          do { t \<leftarrow> m f;
               m \<leftarrow> t_mod m item (upd (\<lambda>l. l\<lparr>lk_prev := lk_prev (lnk t)\<rparr>));
               m \<leftarrow> t_mod m item (upd (\<lambda>l. l\<lparr>lk_next := Some f\<rparr>));
               t \<leftarrow> m f;
               q \<leftarrow> lk_prev (lnk t);
               m \<leftarrow> t_mod m q (upd (\<lambda>l. l\<lparr>lk_next := Some item\<rparr>));
               m \<leftarrow> t_mod m f (upd (\<lambda>l. l\<lparr>lk_prev := Some item\<rparr>));
               Some (m, Some f) })"

definition ring_unlink ::
  "(tuple \<Rightarrow> links) \<Rightarrow> ((links \<Rightarrow> links) \<Rightarrow> tuple \<Rightarrow> tuple) \<Rightarrow> tuples \<Rightarrow> nat \<Rightarrow> tuples option" where
  "ring_unlink lnk upd m item =
     do { t \<leftarrow> m item;
          n \<leftarrow> lk_next (lnk t);
          m \<leftarrow> t_mod m n (upd (\<lambda>l. l\<lparr>lk_prev := lk_prev (lnk t)\<rparr>));
          t \<leftarrow> m item;
          p \<leftarrow> lk_prev (lnk t);
          t_mod m p (upd (\<lambda>l. l\<lparr>lk_next := lk_next (lnk t)\<rparr>)) }"

definition ring_remove ::
  "(tuple \<Rightarrow> links) \<Rightarrow> ((links \<Rightarrow> links) \<Rightarrow> tuple \<Rightarrow> tuple) \<Rightarrow> tuples \<Rightarrow> nat option \<Rightarrow> nat \<Rightarrow> (tuples \<times> nat option) option" where
  "ring_remove lnk upd m first item =
     do { t \<leftarrow> m item;
          (m, first) \<leftarrow>
            (if first = Some item then
               if lk_next (lnk t) = first then Some (m, None)
               else map_option (\<lambda>m. (m, lk_next (lnk t))) (ring_unlink lnk upd m item)
             else map_option (\<lambda>m. (m, first)) (ring_unlink lnk upd m item));
          m \<leftarrow> t_mod m item (upd (\<lambda>_. no_links));
          Some (m, first) }"

subsection \<open>The map\<close>

definition HMAP_SUCCESS :: int where "HMAP_SUCCESS = 0"
definition HMAP_ALLOCATED_ERROR :: int where "HMAP_ALLOCATED_ERROR = -100"
definition HMAP_KEY_EMPTY :: int where "HMAP_KEY_EMPTY = -404"
definition HMAP_TUPLE_NOT_FOUND :: int where "HMAP_TUPLE_NOT_FOUND = -405"
definition HMAP_TUPLE_ALREADY_EXIST :: int where "HMAP_TUPLE_ALREADY_EXIST = -407"
definition HMAP_DATA_TYPE_INVALID :: int where "HMAP_DATA_TYPE_INVALID = -406"

record hmap_db =
  tuple_count :: int
  secondary_tuple_count :: int
  bucket_size :: nat
  list_tuple :: "nat option"
  tuples :: "tuples"
  unused :: nat

text \<open>\<open>unused\<close> is the next address an allocation gives.\<close>

definition hmap_init :: "nat \<Rightarrow> hmap_db" where
  "hmap_init n = \<lparr>tuple_count = 0, secondary_tuple_count = 0, bucket_size = n, list_tuple = None,
     tuples = (\<lambda>a. if a < n then Some zero_tuple else None), unused = n\<rparr>"

fun hash_loop :: "byte list \<Rightarrow> nat \<Rightarrow> uint32 \<Rightarrow> uint32 option" where
  "hash_loop key 0 h = Some h"
| "hash_loop [] (Suc n) h = None"
| "hash_loop (c # key) (Suc n) h =
     (let h = h + ucast c; h = h + push_bit 10 h; h = h XOR drop_bit 6 h in hash_loop key n h)"

definition hmap_hash :: "byte list \<Rightarrow> nat \<Rightarrow> nat option" where
  "hmap_hash key len =
     do { h \<leftarrow> hash_loop key len 0;
          let h = h + push_bit 3 h;
          let h = h XOR drop_bit 11 h;
          let h = h + push_bit 15 h;
          Some (unat (h AND 0x7FFFFFFF)) }"

definition hmap_cmp :: "byte list \<Rightarrow> nat \<Rightarrow> byte list \<Rightarrow> nat \<Rightarrow> int option" where
  "hmap_cmp v1 v1_len v2 v2_len = (if v1_len \<noteq> v2_len then Some (-1) else byte_diff v1 v1_len v2)"

text \<open>
  The two loops of \<open>hmap_search\<close> both follow the ring of the bucket; the inner one starts again
  at each tuple of the outer one.
\<close>

partial_function (option) search_from :: "tuples \<Rightarrow> byte list \<Rightarrow> nat \<Rightarrow> nat \<Rightarrow> nat \<Rightarrow> nat option option" where
  "search_from m key k_len itr a =
     do { t \<leftarrow> m a;
          d \<leftarrow> hmap_cmp (t_key t) (length (t_key t)) key k_len;
          if d = 0 then Some (Some a)
          else if lk_next (t_hash t) = Some itr then Some None
          else case lk_next (t_hash t) of None \<Rightarrow> Some None | Some b \<Rightarrow> search_from m key k_len itr b }"

partial_function (option) search_loop :: "tuples \<Rightarrow> byte list \<Rightarrow> nat \<Rightarrow> nat \<Rightarrow> nat \<Rightarrow> nat option option" where
  "search_loop m key k_len root itr =
     do { r \<leftarrow> search_from m key k_len itr itr;
          if r \<noteq> None then Some r
          else do { t \<leftarrow> m itr;
                    if lk_next (t_hash t) = Some root then Some None
                    else case lk_next (t_hash t) of None \<Rightarrow> Some None | Some b \<Rightarrow> search_loop m key k_len root b } }"

text \<open>A size of 0 makes the remainder undefined.  The tuple found is stored through \<open>data\<close>.\<close>

definition hmap_index :: "hmap_db \<Rightarrow> byte list \<Rightarrow> nat \<Rightarrow> nat option" where
  "hmap_index db key k_len =
     do { h \<leftarrow> hmap_hash key k_len; if bucket_size db = 0 then None else Some (h mod bucket_size db) }"

definition hmap_search :: "hmap_db \<Rightarrow> byte list \<Rightarrow> nat \<Rightarrow> (int \<times> nat option) option" where
  "hmap_search db key k_len =
     do { index \<leftarrow> hmap_index db key k_len;
          if k_len = 0 then Some (HMAP_KEY_EMPTY, None)
          else do { r \<leftarrow> search_loop (tuples db) key k_len index index;
                    Some (if r = None then HMAP_TUPLE_NOT_FOUND else HMAP_SUCCESS, r) } }"

text \<open>The variable arguments of \<open>hmap_add\<close>: the data type and the value, for a block its length too.\<close>

datatype harg = Arg_int int | Arg_uint uint32 | Arg_int64 int | Arg_uint64 uint64 | Arg_double "byte list"
  | Arg_chars "byte list" nat | Arg_custom "byte list option" | Arg_tuple

fun arg_type :: "harg \<Rightarrow> hmap_data_type" where
  "arg_type (Arg_int i) = T_INT"
| "arg_type (Arg_uint u) = T_UINT"
| "arg_type (Arg_int64 i) = T_INT64"
| "arg_type (Arg_uint64 u) = T_UINT64"
| "arg_type (Arg_double d) = T_DOUBLE"
| "arg_type (Arg_chars v n) = T_CHARS"
| "arg_type (Arg_custom p) = T_CUSTOM"
| "arg_type Arg_tuple = T_TUPLE"

text \<open>
  \<open>HMAP_SET_DATA\<close>: the changed tuple, or the error to return.  A block is copied and gets a zero
  byte behind it.
\<close>

fun set_data :: "bool \<Rightarrow> harg \<Rightarrow> tuple \<Rightarrow> (int + tuple) option" where
  "set_data ok (Arg_int i) t = Some (Inr (t\<lparr>t_vals := Val_int i\<rparr>))"
| "set_data ok (Arg_uint u) t = Some (Inr (t\<lparr>t_vals := Val_uint u\<rparr>))"
| "set_data ok (Arg_int64 i) t = Some (Inr (t\<lparr>t_vals := Val_longlong i\<rparr>))"
| "set_data ok (Arg_uint64 u) t = Some (Inr (t\<lparr>t_vals := Val_ulonglong u\<rparr>))"
| "set_data ok (Arg_double d) t = Some (Inr (t\<lparr>t_vals := Val_double (Some d)\<rparr>))"
| "set_data ok (Arg_chars data d_len) t =
     (if ok then
        do { p \<leftarrow> byte_copy (replicate (d_len + 1) 0) 0 d_len data 0;
             p \<leftarrow> wr p d_len 0;
             Some (Inr (t\<lparr>t_vals := Val_chars (Some p), t_data_len := d_len\<rparr>)) }
      else Some (Inl HMAP_ALLOCATED_ERROR))"
| "set_data ok (Arg_custom p) t = Some (Inr (t\<lparr>t_vals := Val_custom p\<rparr>))"
| "set_data ok Arg_tuple t = Some (Inl HMAP_DATA_TYPE_INVALID)"

definition put_key :: "byte list \<Rightarrow> nat \<Rightarrow> byte list option" where
  "put_key key k_len = (if k_len < MAX_SIZE_KEY \<and> k_len \<le> length key then Some (take k_len key) else None)"

text \<open>Linking the tuple of the table for a new key.\<close>

definition link_primary :: "hmap_db \<Rightarrow> tuples \<Rightarrow> nat \<Rightarrow> hmap_db option" where
  "link_primary db m index =
     do { t \<leftarrow> m index;
          m \<leftarrow> (if t_hash t = no_links then t_mod m index (t_hash_update (\<lambda>_. \<lparr>lk_next = Some index, lk_prev = Some index\<rparr>))
                 else map_option fst (ring_append t_hash t_hash_update m (Some index) index));
          (m, l) \<leftarrow> ring_append t_list t_list_update m (list_tuple db) index;
          Some (db\<lparr>tuples := m, list_tuple := l\<rparr>) }"

definition link_secondary :: "hmap_db \<Rightarrow> nat \<Rightarrow> tuple \<Rightarrow> hmap_db option" where
  "link_secondary db index t =
     do { let a = unused db;
          (m, l) \<leftarrow> ring_append t_list t_list_update ((tuples db)(a \<mapsto> t)) (list_tuple db) a;
          (m, _) \<leftarrow> ring_append t_hash t_hash_update m (Some index) a;
          Some (db\<lparr>tuples := m, list_tuple := l, unused := a + 1, secondary_tuple_count := secondary_tuple_count db + 1\<rparr>) }"

text \<open>
  \<open>tuple_ok\<close> and \<open>data_ok\<close> say whether the allocations of a tuple and of the block are met.
  When the block is refused for a tuple of the table, \<open>free\<close> is called on that tuple: for the first
  one this gives back the whole table, for any other it is undefined.  A refused tuple is cleared
  before the pointer is checked.  The argument \<open>dup_flag\<close> is not used.
\<close>

definition hmap_add :: "bool \<Rightarrow> bool \<Rightarrow> hmap_db \<Rightarrow> byte list \<Rightarrow> nat \<Rightarrow> harg \<Rightarrow> (int \<times> hmap_db) option" where
  "hmap_add tuple_ok data_ok db key k_len arg =
     do { index \<leftarrow> hmap_index db key k_len;
          if k_len = 0 then Some (HMAP_KEY_EMPTY, db)
          else do {
            (r, _) \<leftarrow> hmap_search db key k_len;
            if r = HMAP_SUCCESS then Some (HMAP_TUPLE_ALREADY_EXIST, db)
            else if r = HMAP_TUPLE_NOT_FOUND then do {
              root \<leftarrow> tuples db index;
              if t_key root = [] then do {
                new_tuple \<leftarrow> set_data data_ok arg root;
                case new_tuple of
                   Inl e \<Rightarrow> if e = HMAP_DATA_TYPE_INVALID then Some (e, db)
                           else if index = 0 then Some (e, db\<lparr>tuples := (\<lambda>a. if a < bucket_size db then None else tuples db a)\<rparr>)
                           else None
                 | Inr t \<Rightarrow> do {
                     k \<leftarrow> put_key key k_len;
                     db \<leftarrow> link_primary db ((tuples db)(index \<mapsto>
                             t\<lparr>t_key := k, t_index := index, t_secondary := False, t_data_type := arg_type arg\<rparr>)) index;
                     Some (int index, db\<lparr>tuple_count := tuple_count db + 1\<rparr>) } }
              else if \<not> tuple_ok then None
              else do {
                new_tuple \<leftarrow> set_data data_ok arg zero_tuple;
                case new_tuple of
                   Inl e \<Rightarrow> Some (e, db\<lparr>unused := unused db + 1\<rparr>)
                 | Inr t \<Rightarrow> do {
                     k \<leftarrow> put_key key k_len;
                     db \<leftarrow> link_secondary db index
                             (t\<lparr>t_key := k, t_index := index, t_secondary := True, t_data_type := arg_type arg\<rparr>);
                     Some (int index, db\<lparr>tuple_count := tuple_count db + 1\<rparr>) } } }
            else Some (r, db) } }"

text \<open>
  \<open>hmap_set_chars\<close> and \<open>hmap_set_stralloc\<close> add strings; the empty one fails an assertion.  A
  dynamic string is the text it holds.
\<close>

definition hmap_set_chars :: "bool \<Rightarrow> bool \<Rightarrow> hmap_db \<Rightarrow> byte list \<Rightarrow> byte list \<Rightarrow> (int \<times> hmap_db) option" where
  "hmap_set_chars tuple_ok data_ok db key data =
     do { k \<leftarrow> str_len key;
          d \<leftarrow> str_len data;
          if k = 0 \<or> d = 0 then None else hmap_add tuple_ok data_ok db key k (Arg_chars data d) }"

definition hmap_set_stralloc :: "bool \<Rightarrow> bool \<Rightarrow> hmap_db \<Rightarrow> byte list \<Rightarrow> byte list \<Rightarrow> (int \<times> hmap_db) option" where
  "hmap_set_stralloc tuple_ok data_ok db key data =
     (if key = [] \<or> data = [] then None else hmap_add tuple_ok data_ok db key (length key) (Arg_chars data (length data)))"

definition hmap_add_tuple_with_data :: "bool \<Rightarrow> hmap_db \<Rightarrow> byte list \<Rightarrow> nat \<Rightarrow> byte list option \<Rightarrow> (int \<times> hmap_db) option" where
  "hmap_add_tuple_with_data tuple_ok db key k_len data =
     do { index \<leftarrow> hmap_index db key k_len;
          if k_len = 0 then Some (HMAP_KEY_EMPTY, db)
          else do {
            (r, _) \<leftarrow> hmap_search db key k_len;
            if r = HMAP_SUCCESS then Some (HMAP_TUPLE_ALREADY_EXIST, db)
            else if r = HMAP_TUPLE_NOT_FOUND then do {
              root \<leftarrow> tuples db index;
              if t_key root = [] then do {
                k \<leftarrow> put_key key k_len;
                db \<leftarrow> link_primary db ((tuples db)(index \<mapsto>
                        root\<lparr>t_data := data, t_data_len := size_max, t_key := k, t_index := index, t_secondary := False\<rparr>)) index;
                Some (int index, db\<lparr>tuple_count := tuple_count db + 1\<rparr>) }
              else if \<not> tuple_ok then Some (HMAP_ALLOCATED_ERROR, db)
              else do {
                k \<leftarrow> put_key key k_len;
                db \<leftarrow> link_secondary db index
                        (zero_tuple\<lparr>t_data := data, t_data_len := size_max, t_key := k, t_index := index, t_secondary := True\<rparr>);
                Some (int index, db\<lparr>tuple_count := tuple_count db + 1\<rparr>) } }
            else Some (r, db) } }"

fun hmap_free_data :: "tuple \<Rightarrow> int \<times> tuple" where
  "hmap_free_data t =
     (case t_data_type t of
        T_INT \<Rightarrow> (HMAP_SUCCESS, t\<lparr>t_vals := Val_int 0\<rparr>)
      | T_UINT \<Rightarrow> (HMAP_SUCCESS, t\<lparr>t_vals := Val_uint 0\<rparr>)
      | T_INT64 \<Rightarrow> (HMAP_SUCCESS, t\<lparr>t_vals := Val_longlong 0\<rparr>)
      | T_UINT64 \<Rightarrow> (HMAP_SUCCESS, t\<lparr>t_vals := Val_ulonglong 0\<rparr>)
      | T_DOUBLE \<Rightarrow> (HMAP_SUCCESS, t\<lparr>t_vals := Val_double None\<rparr>)
      | T_CHARS \<Rightarrow> (HMAP_SUCCESS, t\<lparr>t_vals := Val_chars None\<rparr>)
      | T_CUSTOM \<Rightarrow> (HMAP_SUCCESS, t\<lparr>t_vals := Val_custom None\<rparr>)
      | T_TUPLE \<Rightarrow> (HMAP_DATA_TYPE_INVALID, t))"

text \<open>The result of \<open>hmap_set\<close> is the tuple, \<open>None\<close> for the null pointer.\<close>

definition hmap_set :: "bool \<Rightarrow> bool \<Rightarrow> hmap_db \<Rightarrow> byte list \<Rightarrow> nat \<Rightarrow> byte list \<Rightarrow> nat \<Rightarrow> (nat option \<times> hmap_db) option" where
  "hmap_set tuple_ok data_ok db key k_len data d_len =
     (if k_len = 0 then Some (None, db)
      else do {
        (r, p) \<leftarrow> hmap_search db key k_len;
        case p of
          Some a \<Rightarrow> do {
            t \<leftarrow> tuples db a;
            let t = snd (hmap_free_data t);
            if data_ok then
              do { p \<leftarrow> byte_copy (replicate d_len 0) 0 d_len data 0;
                   Some (Some a, db\<lparr>tuples := (tuples db)(a \<mapsto> t\<lparr>t_vals := Val_chars (Some p), t_data_len := d_len\<rparr>)\<rparr>) }
            else Some (None, db\<lparr>tuples := (tuples db)(a \<mapsto> t\<lparr>t_vals := Val_chars None\<rparr>)\<rparr>) }
        | None \<Rightarrow> do {
            (_, db) \<leftarrow> hmap_add tuple_ok data_ok db key k_len (Arg_chars data d_len);
            (_, p) \<leftarrow> hmap_search db key k_len;
            Some (p, db) } })"

text \<open>
  \<open>hmap_get\<close> reads the union as the pointer \<open>val_chars\<close>: of a block or a custom pointer that
  is what was stored, of a scalar it is not a pointer.
\<close>

definition hmap_get :: "hmap_db \<Rightarrow> byte list \<Rightarrow> nat \<Rightarrow> byte list option option" where
  "hmap_get db key keylen =
     do { (r, p) \<leftarrow> hmap_search db key keylen;
          case p of
            None \<Rightarrow> Some None
          | Some a \<Rightarrow> do { t \<leftarrow> tuples db a;
                           case t_vals t of Val_chars v \<Rightarrow> Some v | Val_custom v \<Rightarrow> Some v | _ \<Rightarrow> None } }"

definition hmap_is_locate :: "hmap_db \<Rightarrow> byte list \<Rightarrow> nat \<Rightarrow> int option" where
  "hmap_is_locate db key k_len = map_option fst (hmap_search db key k_len)"

definition hmap_delete :: "hmap_db \<Rightarrow> byte list \<Rightarrow> nat \<Rightarrow> (int \<times> hmap_db) option" where
  "hmap_delete db key k_len =
     do { (r, p) \<leftarrow> hmap_search db key k_len;
          case p of
            None \<Rightarrow> Some (r, db)
          | Some a \<Rightarrow> do {
              (m, l) \<leftarrow> ring_remove t_list t_list_update (tuples db) (list_tuple db) a;
              t \<leftarrow> m a;
              db \<leftarrow>
                (if t_index t = a then
                   do { m \<leftarrow> t_mod m a (\<lambda>t. (snd (hmap_free_data (t\<lparr>t_key := []\<rparr>)))\<lparr>t_data := None, t_data_len := 0\<rparr>);
                        Some (db\<lparr>tuples := m, list_tuple := l\<rparr>) }
                 else
                   do { (m, _) \<leftarrow> ring_remove t_hash t_hash_update m (Some (t_index t)) a;
                        Some (db\<lparr>tuples := m(a := None), list_tuple := l,
                                secondary_tuple_count := secondary_tuple_count db - 1\<rparr>) });
              Some (r, db\<lparr>tuple_count := tuple_count db - 1\<rparr>) } }"

text \<open>Only a tuple with \<open>data\<close> has its key cleared by \<open>hmap_truncate\<close>.\<close>

partial_function (option) hmap_truncate :: "hmap_db \<Rightarrow> hmap_db option" where
  "hmap_truncate db =
     (case list_tuple db of
        None \<Rightarrow> Some db
      | Some a \<Rightarrow> do {
          (m, l) \<leftarrow> ring_remove t_list t_list_update (tuples db) (Some a) a;
          t \<leftarrow> m a;
          let t = snd (hmap_free_data t);
          let t = (if t_data t \<noteq> None then t\<lparr>t_data := None, t_key := []\<rparr> else t);
          hmap_truncate (db\<lparr>tuples := m(a := if t_secondary t then None else Some t), list_tuple := l\<rparr>) })"

definition hmap_destroy :: "hmap_db \<Rightarrow> int option" where
  "hmap_destroy db = do { _ \<leftarrow> hmap_truncate db; Some 0 }"

partial_function (option) size_loop :: "tuples \<Rightarrow> nat option \<Rightarrow> nat option \<Rightarrow> uint64 \<Rightarrow> uint64 option" where
  "size_loop m first p n =
     (case p of
        None \<Rightarrow> Some n
      | Some a \<Rightarrow> do { t \<leftarrow> m a;
                       if lk_next (t_list t) = first then Some n
                       else size_loop m first (lk_next (t_list t)) (n + 1) })"

definition hmap_size :: "hmap_db \<Rightarrow> uint64 option" where
  "hmap_size db = size_loop (tuples db) (list_tuple db) (list_tuple db) 0"

definition hmap_count :: "hmap_db \<Rightarrow> uint64" where
  "hmap_count db = of_int (tuple_count db)"

text \<open>The loop of \<open>hmap_foreach\<close>: the tuples it visits.\<close>

partial_function (option) tuples_loop :: "tuples \<Rightarrow> nat option \<Rightarrow> nat \<Rightarrow> nat list option" where
  "tuples_loop m first a =
     do { t \<leftarrow> m a;
          if first = lk_next (t_list t) then Some [a]
          else case lk_next (t_list t) of
                 None \<Rightarrow> Some [a]
               | Some b \<Rightarrow> do { as \<leftarrow> tuples_loop m first b; Some (a # as) } }"

definition hmap_foreach :: "hmap_db \<Rightarrow> nat list option" where
  "hmap_foreach db = (case list_tuple db of None \<Rightarrow> Some [] | Some a \<Rightarrow> tuples_loop (tuples db) (Some a) a)"

partial_function (option) distance_loop :: "tuples \<Rightarrow> nat option \<Rightarrow> nat option \<Rightarrow> int \<Rightarrow> (nat option \<times> int) option" where
  "distance_loop m to a n =
     (case a of
        None \<Rightarrow> Some (a, n)
      | Some x \<Rightarrow> if a = to then Some (a, n)
                  else do { t \<leftarrow> m x;
                            if lk_next (t_list t) = a then Some (a, n)
                            else distance_loop m to (lk_next (t_list t)) (n + 1) })"

definition hmap_distance :: "tuples \<Rightarrow> nat option \<Rightarrow> nat option \<Rightarrow> int option" where
  "hmap_distance m it1 it2 =
     do { (a, n) \<leftarrow> distance_loop m it2 it1 0;
          if a = it2 then Some n
          else do { (b, n) \<leftarrow> distance_loop m it1 it2 0;
                    Some (if b = it1 then n else -1) } }"

subsection \<open>Rings\<close>

text \<open>
  Links as two functions from an address to the next and the one before; a ring is a list of
  addresses, each linked to the one behind it and the last one to the first.
\<close>

fun path :: "(nat \<Rightarrow> nat option) \<Rightarrow> (nat \<Rightarrow> nat option) \<Rightarrow> nat list \<Rightarrow> bool" where
  "path N P (a # b # as) \<longleftrightarrow> N a = Some b \<and> P b = Some a \<and> path N P (b # as)"
| "path N P _ \<longleftrightarrow> True"

definition ring :: "(nat \<Rightarrow> nat option) \<Rightarrow> (nat \<Rightarrow> nat option) \<Rightarrow> nat list \<Rightarrow> bool" where
  "ring N P as \<longleftrightarrow> distinct as \<and> (as \<noteq> [] \<longrightarrow> path N P (as @ [hd as]))"

lemma path_append:
  "as \<noteq> [] \<Longrightarrow> bs \<noteq> [] \<Longrightarrow> path N P (as @ bs) \<longleftrightarrow>
     path N P as \<and> N (last as) = Some (hd bs) \<and> P (hd bs) = Some (last as) \<and> path N P bs"
proof (induction as)
  case (Cons a as)
  then show ?case by (cases as; cases bs) auto
qed simp

lemma path_cong:
  "path N P as \<Longrightarrow> (\<And>a. a \<in> set (butlast as) \<Longrightarrow> N' a = N a) \<Longrightarrow> (\<And>a. a \<in> set (tl as) \<Longrightarrow> P' a = P a) \<Longrightarrow> path N' P' as"
  by (induction N P as rule: path.induct) auto

lemma ring_two:
  assumes "as \<noteq> []" "bs \<noteq> []"
  shows "ring N P (as @ bs) \<longleftrightarrow> distinct (as @ bs) \<and> path N P as \<and> path N P bs \<and>
     N (last as) = Some (hd bs) \<and> P (hd bs) = Some (last as) \<and> N (last bs) = Some (hd as) \<and> P (hd as) = Some (last bs)"
  using assms path_append[of "as @ bs" "[hd as]" N P] path_append[of as bs N P] by (auto simp: ring_def)

lemma ring_rotate: "ring N P (as @ bs) \<Longrightarrow> ring N P (bs @ as)"
  by (cases "as = []"; cases "bs = []") (auto simp: ring_two)

lemma ring_single: "ring N P [a] \<longleftrightarrow> N a = Some a \<and> P a = Some a"
  by (simp add: ring_def)

lemma butlast_distinct: "distinct as \<Longrightarrow> as \<noteq> [] \<Longrightarrow> last as \<notin> set (butlast as)"
  by (metis append_butlast_last_id distinct_append distinct.simps(2) disjoint_iff list.set_intros(1))

lemma tl_distinct: "distinct as \<Longrightarrow> as \<noteq> [] \<Longrightarrow> hd as \<notin> set (tl as)"
  by (cases as) auto

lemma ring_path: "ring N P as \<Longrightarrow> as \<noteq> [] \<Longrightarrow> path N P as \<and> N (last as) = Some (hd as) \<and> P (hd as) = Some (last as)"
  using path_append[of as "[hd as]" N P] by (simp add: ring_def)

lemma ringI: "distinct as \<Longrightarrow> path N P as \<Longrightarrow> (as \<noteq> [] \<Longrightarrow> N (last as) = Some (hd as) \<and> P (hd as) = Some (last as)) \<Longrightarrow> ring N P as"
  using path_append[of as "[hd as]" N P] by (cases "as = []") (auto simp: ring_def)

lemma ring_snoc:
  assumes "ring N P as" "as \<noteq> []" "p \<notin> set as"
  shows "ring (N(p := Some (hd as), last as := Some p)) (P(p := Some (last as), hd as := Some p)) (as @ [p])"
proof -
  let ?N = "N(p := Some (hd as), last as := Some p)" and ?P = "P(p := Some (last as), hd as := Some p)"
  have d: "distinct as" using assms(1) by (simp add: ring_def)
  have "path ?N ?P as"
  proof (rule path_cong[of N P])
    show "path N P as" using ring_path[OF assms(1,2)] by simp
    show "?N a = N a" if "a \<in> set (butlast as)" for a using that butlast_distinct[OF d assms(2)] assms(3) by (auto dest: in_set_butlastD)
    show "?P a = P a" if "a \<in> set (tl as)" for a using that tl_distinct[OF d assms(2)] assms(2,3) by (auto dest: list.set_sel(2))
  qed
  then show ?thesis using assms d by (subst ring_two) auto
qed

lemma ring_drop:
  assumes "ring N P (as @ p # bs)" "as @ bs \<noteq> []"
  shows "\<exists>q n. N p = Some n \<and> P p = Some q \<and> n \<in> set (as @ bs) \<and> q \<in> set (as @ bs) \<and> n = hd (bs @ as) \<and>
    ring (N(q := Some n)) (P(n := Some q)) (as @ bs)"
proof -
  let ?z = "bs @ as"
  have z: "ring N P (?z @ [p])" "?z \<noteq> []" using ring_rotate[of N P "as" "p # bs"] ring_rotate[of N P "[p]" "bs @ as"] assms by auto
  then have l: "distinct ?z" "path N P ?z" "N p = Some (hd ?z)" "P p = Some (last ?z)"
    using ring_two[OF z(2), of "[p]" N P] by auto
  let ?N = "N(last ?z := Some (hd ?z))" and ?P = "P(hd ?z := Some (last ?z))"
  have "path ?N ?P ?z"
  proof (rule path_cong[OF l(2)])
    show "?N a = N a" if "a \<in> set (butlast ?z)" for a using that butlast_distinct[OF l(1) z(2)] by (metis fun_upd_other)
    show "?P a = P a" if "a \<in> set (tl ?z)" for a using that tl_distinct[OF l(1) z(2)] by (metis fun_upd_other)
  qed
  then have "ring ?N ?P ?z" using l(1) by (intro ringI) auto
  then have "ring ?N ?P (as @ bs)" by (rule ring_rotate)
  moreover have "hd ?z \<in> set (as @ bs)" "last ?z \<in> set (as @ bs)" using z(2) hd_in_set[of ?z] last_in_set[of ?z] by auto
  ultimately show ?thesis using l by blast
qed

subsection \<open>The macros on a ring\<close>

definition nx :: "(tuple \<Rightarrow> links) \<Rightarrow> tuples \<Rightarrow> nat \<Rightarrow> nat option" where
  "nx lnk m a = (case m a of None \<Rightarrow> None | Some t \<Rightarrow> lk_next (lnk t))"

definition pv :: "(tuple \<Rightarrow> links) \<Rightarrow> tuples \<Rightarrow> nat \<Rightarrow> nat option" where
  "pv lnk m a = (case m a of None \<Rightarrow> None | Some t \<Rightarrow> lk_prev (lnk t))"

text \<open>\<open>relinked upd m m' A\<close>: only links of tuples in \<open>A\<close> differ.\<close>

definition relinked :: "((links \<Rightarrow> links) \<Rightarrow> tuple \<Rightarrow> tuple) \<Rightarrow> tuples \<Rightarrow> tuples \<Rightarrow> nat set \<Rightarrow> bool" where
  "relinked upd m m' A \<longleftrightarrow>
     (\<forall>a. (a \<notin> A \<longrightarrow> m' a = m a) \<and> (m' a = None \<longleftrightarrow> m a = None) \<and> (\<forall>t. m a = Some t \<longrightarrow> (\<exists>f. m' a = Some (upd f t))))"

locale ring_links =
  fixes lnk :: "tuple \<Rightarrow> links"
    and upd :: "(links \<Rightarrow> links) \<Rightarrow> tuple \<Rightarrow> tuple"
  assumes lnk_upd: "lnk (upd f t) = f (lnk t)"
    and upd_upd: "upd f (upd g t) = upd (f \<circ> g) t"
    and upd_id: "upd id t = t"
begin

lemma relinked_refl: "relinked upd m m A"
proof -
  have "\<exists>f. t = upd f t" for t using upd_id[of t] by metis
  then show ?thesis by (auto simp: relinked_def)
qed

lemma relinked_trans:
  assumes "relinked upd m m1 A" "relinked upd m1 m2 B" "A \<union> B \<subseteq> C"
  shows "relinked upd m m2 C"
  unfolding relinked_def
proof (intro allI conjI impI)
  fix a t
  show "m2 a = m a" if "a \<notin> C"
  proof -
    have "a \<notin> A" "a \<notin> B" using assms(3) that by auto
    then show ?thesis using assms(1,2) by (simp add: relinked_def)
  qed
  show "m2 a = None \<longleftrightarrow> m a = None" using assms(1,2) by (simp add: relinked_def)
  assume t: "m a = Some t"
  obtain f where f: "m1 a = Some (upd f t)" using assms(1) t unfolding relinked_def by blast
  obtain g where "m2 a = Some (upd g (upd f t))" using assms(2) f unfolding relinked_def by blast
  then show "\<exists>f. m2 a = Some (upd f t)" using upd_upd[of g f t] by auto
qed

lemma t_mod_upd:
  assumes "m a \<noteq> None"
  shows "\<exists>m'. t_mod m a (upd f) = Some m' \<and> relinked upd m m' {a} \<and>
     (\<forall>b. b \<noteq> a \<longrightarrow> m' b = m b) \<and> (\<exists>t. m a = Some t \<and> m' a = Some (upd f t))"
proof -
  have "\<exists>f. t = upd f t" for t using upd_id[of t] by metis
  then show ?thesis using assms by (auto simp: t_mod_def relinked_def)
qed

lemma mod_next:
  assumes "m a \<noteq> None"
  shows "\<exists>m'. t_mod m a (upd (\<lambda>l. l\<lparr>lk_next := v\<rparr>)) = Some m' \<and> relinked upd m m' {a} \<and>
     nx lnk m' = (nx lnk m)(a := v) \<and> pv lnk m' = pv lnk m"
proof -
  obtain m' t where m': "t_mod m a (upd (\<lambda>l. l\<lparr>lk_next := v\<rparr>)) = Some m'" "relinked upd m m' {a}"
      "\<forall>b. b \<noteq> a \<longrightarrow> m' b = m b" "m a = Some t" "m' a = Some (upd (\<lambda>l. l\<lparr>lk_next := v\<rparr>) t)"
    using t_mod_upd[of m a "\<lambda>l. l\<lparr>lk_next := v\<rparr>"] assms by blast
  have "nx lnk m' b = ((nx lnk m)(a := v)) b" "pv lnk m' b = pv lnk m b" for b
    using m'(3-5) by (cases "b = a"; simp add: nx_def pv_def lnk_upd)+
  then show ?thesis using m'(1,2) by blast
qed

lemma mod_prev:
  assumes "m a \<noteq> None"
  shows "\<exists>m'. t_mod m a (upd (\<lambda>l. l\<lparr>lk_prev := v\<rparr>)) = Some m' \<and> relinked upd m m' {a} \<and>
     pv lnk m' = (pv lnk m)(a := v) \<and> nx lnk m' = nx lnk m"
proof -
  obtain m' t where m': "t_mod m a (upd (\<lambda>l. l\<lparr>lk_prev := v\<rparr>)) = Some m'" "relinked upd m m' {a}"
      "\<forall>b. b \<noteq> a \<longrightarrow> m' b = m b" "m a = Some t" "m' a = Some (upd (\<lambda>l. l\<lparr>lk_prev := v\<rparr>) t)"
    using t_mod_upd[of m a "\<lambda>l. l\<lparr>lk_prev := v\<rparr>"] assms by blast
  have "pv lnk m' b = ((pv lnk m)(a := v)) b" "nx lnk m' b = nx lnk m b" for b
    using m'(3-5) by (cases "b = a"; simp add: nx_def pv_def lnk_upd)+
  then show ?thesis using m'(1,2) by blast
qed

lemma pv_load: "pv lnk m a = Some q \<Longrightarrow> \<exists>t. m a = Some t \<and> lk_prev (lnk t) = Some q"
  by (auto simp: pv_def split: option.splits)

lemma nx_load: "nx lnk m a = Some q \<Longrightarrow> \<exists>t. m a = Some t \<and> lk_next (lnk t) = Some q"
  by (auto simp: nx_def split: option.splits)

lemma relinked_some: "relinked upd m m' A \<Longrightarrow> m a \<noteq> None \<Longrightarrow> m' a \<noteq> None"
  by (auto simp: relinked_def)

end

lemma ring_linked:
  assumes "ring N P as" "a \<in> set as"
  shows "(\<exists>k. N a = Some k) \<and> (\<exists>k. P a = Some k)"
proof -
  obtain xs ys where s: "as = xs @ a # ys" using split_list[OF assms(2)] by blast
  have "ring N P ((a # ys) @ xs)" "ring N P ((ys @ xs) @ [a])"
    using ring_rotate[of N P xs "a # ys"] ring_rotate[of N P "[a]" "ys @ xs"] assms(1) s by simp_all
  then show ?thesis using ring_path[of N P "(a # ys) @ xs"] ring_path[of N P "(ys @ xs) @ [a]"] by simp
qed

context ring_links
begin

lemma append_empty:
  assumes "m p \<noteq> None"
  shows "\<exists>m'. ring_append lnk upd m None p = Some (m', Some p) \<and> ring (nx lnk m') (pv lnk m') [p] \<and> relinked upd m m' {p}"
proof -
  obtain m' t where m': "t_mod m p (upd (\<lambda>l. l\<lparr>lk_next := Some p, lk_prev := Some p\<rparr>)) = Some m'" "relinked upd m m' {p}"
      "m' p = Some (upd (\<lambda>l. l\<lparr>lk_next := Some p, lk_prev := Some p\<rparr>) t)"
    using t_mod_upd[of m p] assms by blast
  then show ?thesis by (auto simp: ring_append_def ring_single nx_def pv_def lnk_upd)
qed

lemma append_ring:
  assumes "ring (nx lnk m) (pv lnk m) as" "as \<noteq> []" "p \<notin> set as" "m p \<noteq> None"
  shows "\<exists>m'. ring_append lnk upd m (Some (hd as)) p = Some (m', Some (hd as)) \<and>
     ring (nx lnk m') (pv lnk m') (as @ [p]) \<and> relinked upd m m' (insert p (set as))"
proof -
  let ?f = "hd as" and ?q = "last as"
  have r: "nx lnk m ?q = Some ?f" "pv lnk m ?f = Some ?q" using ring_path[OF assms(1,2)] by simp_all
  have s: "?f \<in> set as" "?q \<in> set as" "?f \<noteq> p" "?q \<noteq> p" using assms(2,3) by auto
  obtain t where t: "m ?f = Some t" "lk_prev (lnk t) = Some ?q" using pv_load[OF r(2)] by blast
  obtain m1 where m1: "t_mod m p (upd (\<lambda>l. l\<lparr>lk_prev := Some ?q\<rparr>)) = Some m1" "relinked upd m m1 {p}"
      "pv lnk m1 = (pv lnk m)(p := Some ?q)" "nx lnk m1 = nx lnk m"
    using mod_prev[of m p] assms(4) by blast
  have "m1 p \<noteq> None" by (rule relinked_some[OF m1(2) assms(4)])
  then obtain m2 where m2: "t_mod m1 p (upd (\<lambda>l. l\<lparr>lk_next := Some ?f\<rparr>)) = Some m2" "relinked upd m1 m2 {p}"
      "nx lnk m2 = (nx lnk m1)(p := Some ?f)" "pv lnk m2 = pv lnk m1"
    using mod_next[of m1 p "Some ?f"] by blast
  have "pv lnk m2 ?f = Some ?q" using m1(3) m2(4) r(2) s(3) by simp
  then obtain t2 where t2: "m2 ?f = Some t2" "lk_prev (lnk t2) = Some ?q" using pv_load by blast
  have "nx lnk m2 ?q = Some ?f" using m1(4) m2(3) r(1) s(4) by simp
  then have "m2 ?q \<noteq> None" using nx_load by blast
  then obtain m3 where m3: "t_mod m2 ?q (upd (\<lambda>l. l\<lparr>lk_next := Some p\<rparr>)) = Some m3" "relinked upd m2 m3 {?q}"
      "nx lnk m3 = (nx lnk m2)(?q := Some p)" "pv lnk m3 = pv lnk m2"
    using mod_next[of m2 ?q "Some p"] by blast
  have "m3 ?f \<noteq> None" using relinked_some[OF m3(2)] t2(1) by simp
  then obtain m4 where m4: "t_mod m3 ?f (upd (\<lambda>l. l\<lparr>lk_prev := Some p\<rparr>)) = Some m4" "relinked upd m3 m4 {?f}"
      "pv lnk m4 = (pv lnk m3)(?f := Some p)" "nx lnk m4 = nx lnk m3"
    using mod_prev[of m3 ?f "Some p"] by blast
  have "relinked upd m m2 {p}" by (rule relinked_trans[OF m1(2) m2(2)]) simp
  then have "relinked upd m m3 {p, ?q}" by (rule relinked_trans[OF _ m3(2)]) simp
  then have "relinked upd m m4 (insert p (set as))" by (rule relinked_trans[OF _ m4(2)]) (use s in auto)
  moreover have "ring_append lnk upd m (Some ?f) p = Some (m4, Some ?f)"
    using t m1(1) m2(1) t2 m3(1) m4(1) by (simp add: ring_append_def)
  moreover have "ring (nx lnk m4) (pv lnk m4) (as @ [p])"
    using ring_snoc[OF assms(1-3)] m1(3,4) m2(3,4) m3(3,4) m4(3,4) by simp
  ultimately show ?thesis by blast
qed

lemma append_list:
  assumes "ring (nx lnk m) (pv lnk m) as" "p \<notin> set as" "m p \<noteq> None"
  shows "\<exists>m'. ring_append lnk upd m (if as = [] then None else Some (hd as)) p = Some (m', Some (hd (as @ [p]))) \<and>
     ring (nx lnk m') (pv lnk m') (as @ [p]) \<and> relinked upd m m' (insert p (set as))"
  using append_empty[of m p] assms(3) append_ring[OF assms(1) _ assms(2,3)] by (cases "as = []") auto

lemma unlink_ring:
  assumes "ring (nx lnk m) (pv lnk m) (as @ p # bs)" "as @ bs \<noteq> []"
  shows "\<exists>m'. ring_unlink lnk upd m p = Some m' \<and> ring (nx lnk m') (pv lnk m') (as @ bs) \<and>
     relinked upd m m' (set (as @ bs)) \<and> nx lnk m p = Some (hd (bs @ as))"
proof -
  obtain q n where qn: "nx lnk m p = Some n" "pv lnk m p = Some q" "n \<in> set (as @ bs)" "q \<in> set (as @ bs)" "n = hd (bs @ as)"
      "ring ((nx lnk m)(q := Some n)) ((pv lnk m)(n := Some q)) (as @ bs)"
    using ring_drop[OF assms] by blast
  have ne: "p \<noteq> n" "p \<noteq> q" using assms(1) qn(3,4) by (auto simp: ring_def)
  obtain t where t: "m p = Some t" "lk_next (lnk t) = Some n" "lk_prev (lnk t) = Some q"
    using nx_load[OF qn(1)] pv_load[OF qn(2)] by auto
  have "n \<in> set (as @ p # bs)" "q \<in> set (as @ p # bs)" using qn(3,4) by auto
  then have "\<exists>k. pv lnk m n = Some k" "\<exists>k. nx lnk m q = Some k" using ring_linked[OF assms(1)] by blast+
  then have mn: "m n \<noteq> None" "m q \<noteq> None" using pv_load nx_load by blast+
  obtain m1 where m1: "t_mod m n (upd (\<lambda>l. l\<lparr>lk_prev := Some q\<rparr>)) = Some m1" "relinked upd m m1 {n}"
      "pv lnk m1 = (pv lnk m)(n := Some q)" "nx lnk m1 = nx lnk m"
    using mod_prev[of m n "Some q"] mn by blast
  have t1: "m1 p = Some t" using m1(2) ne t(1) by (simp add: relinked_def)
  have "m1 q \<noteq> None" by (rule relinked_some[OF m1(2) mn(2)])
  then obtain m2 where m2: "t_mod m1 q (upd (\<lambda>l. l\<lparr>lk_next := Some n\<rparr>)) = Some m2" "relinked upd m1 m2 {q}"
      "nx lnk m2 = (nx lnk m1)(q := Some n)" "pv lnk m2 = pv lnk m1"
    using mod_next[of m1 q "Some n"] by blast
  have "relinked upd m m2 (set (as @ bs))" by (rule relinked_trans[OF m1(2) m2(2)]) (use qn in auto)
  moreover have "ring_unlink lnk upd m p = Some m2" using t t1 m1(1) m2(1) by (simp add: ring_unlink_def)
  ultimately show ?thesis using qn m1(3,4) m2(3,4) by (intro exI[of _ m2]) simp
qed

end

lemma ring_cong:
  assumes "ring N P as" "\<And>a. a \<in> set as \<Longrightarrow> N' a = N a" "\<And>a. a \<in> set as \<Longrightarrow> P' a = P a"
  shows "ring N' P' as"
proof (cases "as = []")
  case False
  have r: "path N P as" "N (last as) = Some (hd as)" "P (hd as) = Some (last as)" "distinct as"
    using ring_path[OF assms(1) False] assms(1) by (simp_all add: ring_def)
  have "path N' P' as"
  proof (rule path_cong[OF r(1)])
    show "N' a = N a" if "a \<in> set (butlast as)" for a using that assms(2) by (blast dest: in_set_butlastD)
    show "P' a = P a" if "a \<in> set (tl as)" for a using that assms(3) False by (blast dest: list.set_sel(2)[rotated])
  qed
  then show ?thesis using r assms(2)[of "last as"] assms(3)[of "hd as"] False by (intro ringI) simp_all
qed (simp add: ring_def)

lemma relinked_mono: "relinked upd m m' A \<Longrightarrow> A \<subseteq> B \<Longrightarrow> relinked upd m m' B"
  unfolding relinked_def by blast

context ring_links
begin

lemma nx_outside: "relinked upd m m' A \<Longrightarrow> a \<notin> A \<Longrightarrow> nx lnk m' a = nx lnk m a \<and> pv lnk m' a = pv lnk m a"
  by (simp add: relinked_def nx_def pv_def)

lemma remove_ring:
  assumes "ring (nx lnk m) (pv lnk m) (as @ p # bs)"
  shows "\<exists>m'. ring_remove lnk upd m (Some (hd (as @ p # bs))) p = Some (m', if as @ bs = [] then None else Some (hd (as @ bs))) \<and>
     ring (nx lnk m') (pv lnk m') (as @ bs) \<and> relinked upd m m' (set (as @ p # bs)) \<and> nx lnk m' p = None \<and> pv lnk m' p = None"
proof -
  have d: "distinct (as @ p # bs)" using assms by (simp add: ring_def)
  obtain t where t: "m p = Some t" using ring_linked[OF assms, of p] nx_load by fastforce
  have "\<exists>m1. (if Some (hd (as @ p # bs)) = Some p then
               if lk_next (lnk t) = Some (hd (as @ p # bs)) then Some (m, None)
               else map_option (\<lambda>m. (m, lk_next (lnk t))) (ring_unlink lnk upd m p)
             else map_option (\<lambda>m. (m, Some (hd (as @ p # bs)))) (ring_unlink lnk upd m p)) =
        Some (m1, if as @ bs = [] then None else Some (hd (as @ bs))) \<and>
      ring (nx lnk m1) (pv lnk m1) (as @ bs) \<and> relinked upd m m1 (set (as @ bs))"
  proof (cases "as @ bs = []")
    case True
    then have "lk_next (lnk t) = Some p" using assms t by (simp add: ring_single nx_def)
    then show ?thesis using True relinked_refl[of m "{}"] by (simp add: ring_def)
  next
    case False
    obtain m1 where m1: "ring_unlink lnk upd m p = Some m1" "ring (nx lnk m1) (pv lnk m1) (as @ bs)"
        "relinked upd m m1 (set (as @ bs))" "nx lnk m p = Some (hd (bs @ as))"
      using unlink_ring[OF assms False] by blast
    have n: "lk_next (lnk t) = Some (hd (bs @ as))" using m1(4) t by (simp add: nx_def)
    have "hd (bs @ as) \<noteq> p" using False d by (cases bs; cases as) auto
    then show ?thesis using m1 n d False by (cases as) auto
  qed
  then obtain m1 where m1: "(if Some (hd (as @ p # bs)) = Some p then
               if lk_next (lnk t) = Some (hd (as @ p # bs)) then Some (m, None)
               else map_option (\<lambda>m. (m, lk_next (lnk t))) (ring_unlink lnk upd m p)
             else map_option (\<lambda>m. (m, Some (hd (as @ p # bs)))) (ring_unlink lnk upd m p)) =
        Some (m1, if as @ bs = [] then None else Some (hd (as @ bs)))"
      "ring (nx lnk m1) (pv lnk m1) (as @ bs)" "relinked upd m m1 (set (as @ bs))"
    by blast
  have "m1 p \<noteq> None" using relinked_some[OF m1(3), of p] t by simp
  then obtain m2 s where m2: "t_mod m1 p (upd (\<lambda>_. no_links)) = Some m2" "relinked upd m1 m2 {p}" "m2 p = Some (upd (\<lambda>_. no_links) s)"
    using t_mod_upd[of m1 p] by blast
  have "ring (nx lnk m2) (pv lnk m2) (as @ bs)"
  proof (rule ring_cong[OF m1(2)])
    fix a assume "a \<in> set (as @ bs)"
    then have "a \<notin> {p}" using d by auto
    then show "nx lnk m2 a = nx lnk m1 a" "pv lnk m2 a = pv lnk m1 a" using nx_outside[OF m2(2)] by blast+
  qed
  moreover have "relinked upd m m2 (set (as @ p # bs))" by (rule relinked_trans[OF m1(3) m2(2)]) auto
  moreover have "nx lnk m2 p = None" "pv lnk m2 p = None" using m2(3) by (simp_all add: nx_def pv_def lnk_upd no_links_def)
  moreover have "ring_remove lnk upd m (Some (hd (as @ p # bs))) p = Some (m2, if as @ bs = [] then None else Some (hd (as @ bs)))"
    unfolding ring_remove_def using t m1(1) m2(1) by (simp del: hd_append)
  ultimately show ?thesis by blast
qed

text \<open>Appending a tuple that is the ring: it stays alone.\<close>

lemma append_self:
  assumes "ring (nx lnk m) (pv lnk m) [p]"
  shows "\<exists>m'. ring_append lnk upd m (Some p) p = Some (m', Some p) \<and> ring (nx lnk m') (pv lnk m') [p] \<and> relinked upd m m' {p}"
proof -
  have "nx lnk m p = Some p" "pv lnk m p = Some p" using assms by (simp_all add: ring_single)
  then obtain t where t: "m p = Some t" "lnk t = \<lparr>lk_next = Some p, lk_prev = Some p\<rparr>"
    using nx_load[of m p p] pv_load[of m p p] by (auto intro: links.equality)
  have u: "upd (\<lambda>l. l\<lparr>lk_prev := Some p\<rparr>) (upd (\<lambda>l. l\<lparr>lk_next := Some p\<rparr>) (upd (\<lambda>l. l\<lparr>lk_next := Some p\<rparr>) (upd (\<lambda>l. l\<lparr>lk_prev := Some p\<rparr>) t))) =
      upd ((\<lambda>l. l\<lparr>lk_prev := Some p\<rparr>) \<circ> ((\<lambda>l. l\<lparr>lk_next := Some p\<rparr>) \<circ> ((\<lambda>l. l\<lparr>lk_next := Some p\<rparr>) \<circ> (\<lambda>l. l\<lparr>lk_prev := Some p\<rparr>)))) t"
    (is "?u = _") by (simp add: upd_upd o_assoc)
  have "ring_append lnk upd m (Some p) p = Some (m(p \<mapsto> ?u), Some p)"
    using t by (simp add: ring_append_def t_mod_def lnk_upd)
  moreover have "ring (nx lnk (m(p \<mapsto> ?u))) (pv lnk (m(p \<mapsto> ?u))) [p]"
    by (simp add: ring_single nx_def pv_def lnk_upd)
  moreover have "relinked upd m (m(p \<mapsto> ?u)) {p}"
  proof -
    have "\<exists>f. s = upd f s" for s using upd_id[of s] by metis
    then show ?thesis using t(1) u by (auto simp: relinked_def)
  qed
  ultimately show ?thesis by blast
qed

end

interpretation tl: ring_links t_list t_list_update
  by unfold_locales (simp_all add: id_def comp_def)

interpretation th: ring_links t_hash t_hash_update
  by unfold_locales (simp_all add: id_def comp_def)

text \<open>What a tuple holds beside its links.\<close>

definition contents :: "tuples \<Rightarrow> tuples" where
  "contents m a = map_option (\<lambda>t. t\<lparr>t_list := no_links, t_hash := no_links\<rparr>) (m a)"

lemma relinked_list:
  assumes "relinked t_list_update m m' A"
  shows "contents m' = contents m" "nx t_hash m' = nx t_hash m" "pv t_hash m' = pv t_hash m"
proof -
  have "contents m' a = contents m a \<and> nx t_hash m' a = nx t_hash m a \<and> pv t_hash m' a = pv t_hash m a" for a
  proof (cases "m a")
    case None
    then have "m' a = None" using assms by (simp add: relinked_def)
    then show ?thesis using None by (simp add: contents_def nx_def pv_def)
  next
    case (Some t)
    then obtain f where "m' a = Some (t_list_update f t)" using assms unfolding relinked_def by blast
    then show ?thesis using Some by (simp add: contents_def nx_def pv_def)
  qed
  then show "contents m' = contents m" "nx t_hash m' = nx t_hash m" "pv t_hash m' = pv t_hash m" by auto
qed

lemma relinked_hash:
  assumes "relinked t_hash_update m m' A"
  shows "contents m' = contents m" "nx t_list m' = nx t_list m" "pv t_list m' = pv t_list m"
proof -
  have "contents m' a = contents m a \<and> nx t_list m' a = nx t_list m a \<and> pv t_list m' a = pv t_list m a" for a
  proof (cases "m a")
    case None
    then have "m' a = None" using assms by (simp add: relinked_def)
    then show ?thesis using None by (simp add: contents_def nx_def pv_def)
  next
    case (Some t)
    then obtain f where "m' a = Some (t_hash_update f t)" using assms unfolding relinked_def by blast
    then show ?thesis using Some by (simp add: contents_def nx_def pv_def)
  qed
  then show "contents m' = contents m" "nx t_list m' = nx t_list m" "pv t_list m' = pv t_list m" by auto
qed

subsection \<open>Searching a bucket\<close>

definition key_at :: "tuples \<Rightarrow> nat \<Rightarrow> byte list" where
  "key_at m a = (case m a of None \<Rightarrow> [] | Some t \<Rightarrow> t_key t)"

lemma hmap_cmp_iff:
  assumes "n = length k"
  shows "\<exists>d. hmap_cmp v (length v) (k @ u) n = Some d \<and> (d = 0 \<longleftrightarrow> v = k)"
proof (cases "length v = n")
  case True
  then show ?thesis using byte_diff_key[of n v "k @ u"] assms by (auto simp: hmap_cmp_def)
next
  case False
  then show ?thesis using assms by (auto simp: hmap_cmp_def)
qed

lemma search_from_path:
  assumes "path (nx t_hash m) (pv t_hash m) (as @ [itr])" "as \<noteq> []" "itr \<notin> set (List.tl as)"
  shows "search_from m (k @ u) (length k) itr (hd as) = Some (List.find (\<lambda>a. key_at m a = k) as)"
  using assms
proof (induction as)
  case (Cons a as)
  have n: "nx t_hash m a = Some (hd (as @ [itr]))" using Cons.prems(1) by (cases as) simp_all
  obtain t where t: "m a = Some t" "lk_next (t_hash t) = Some (hd (as @ [itr]))" using th.nx_load[OF n] by blast
  obtain d where d: "hmap_cmp (t_key t) (length (t_key t)) (k @ u) (length k) = Some d" "d = 0 \<longleftrightarrow> t_key t = k"
    using hmap_cmp_iff[OF refl] by blast
  have ka: "key_at m a = t_key t" using t(1) by (simp add: key_at_def)
  show ?case
  proof (cases "as = []")
    case True
    then show ?thesis using t d ka by (subst search_from.simps) auto
  next
    case False
    then have h: "hd (as @ [itr]) = hd as" "hd as \<noteq> itr" using Cons.prems(3) by (auto dest: hd_in_set)
    have "path (nx t_hash m) (pv t_hash m) (as @ [itr])" using Cons.prems(1) False by (cases as) simp_all
    moreover have "itr \<notin> set (List.tl as)" using Cons.prems(3) False list.set_sel(2)[of as] by auto
    ultimately have "search_from m (k @ u) (length k) itr (hd as) = Some (List.find (\<lambda>a. key_at m a = k) as)"
      using Cons.IH False by simp
    then show ?thesis using t d ka h by (subst search_from.simps) auto
  qed
qed simp

lemma search_from_ring:
  assumes "ring (nx t_hash m) (pv t_hash m) as" "as \<noteq> []"
  shows "search_from m (k @ u) (length k) (hd as) (hd as) = Some (List.find (\<lambda>a. key_at m a = k) as)"
proof (rule search_from_path[OF _ assms(2)])
  show "path (nx t_hash m) (pv t_hash m) (as @ [hd as])" "hd as \<notin> set (List.tl as)"
    using assms tl_distinct[of as] by (simp_all add: ring_def)
qed

lemma search_loop_none:
  assumes "ring (nx t_hash m) (pv t_hash m) (us @ as)" "as \<noteq> []" "List.find (\<lambda>a. key_at m a = k) (us @ as) = None"
  shows "search_loop m (k @ u) (length k) (hd (us @ as)) (hd as) = Some None"
  using assms
proof (induction as arbitrary: us)
  case (Cons a as)
  have rot: "ring (nx t_hash m) (pv t_hash m) (a # as @ us)" using ring_rotate[OF Cons.prems(1)] by simp
  have "List.find (\<lambda>a. key_at m a = k) (a # as @ us) = None" using Cons.prems(3) by (auto simp: find_None_iff)
  then have s: "search_from m (k @ u) (length k) a a = Some None" using search_from_ring[OF rot, of k u] by simp
  have n: "nx t_hash m a = Some (hd (as @ us @ [a]))"
    using rot by (cases as; cases us) (auto simp: ring_def)
  obtain t where t: "m a = Some t" "lk_next (t_hash t) = Some (hd (as @ us @ [a]))" using th.nx_load[OF n] by blast
  show ?case
  proof (cases as)
    case Nil
    then have "hd (as @ us @ [a]) = hd (us @ [a])" by simp
    then show ?thesis using Nil s t by (subst search_loop.simps) simp
  next
    case (Cons b bs)
    have "b \<noteq> hd (us @ a # as)"
    proof -
      have "distinct (us @ a # as)" using Cons.prems(1) by (simp add: ring_def)
      then show ?thesis using Cons by (cases us) auto
    qed
    moreover have "search_loop m (k @ u) (length k) (hd ((us @ [a]) @ as)) (hd as) = Some None"
      using Cons.IH[of "us @ [a]"] Cons.prems Cons by simp
    ultimately show ?thesis using s t Cons by (subst search_loop.simps) simp
  qed
qed simp

lemma search_loop_ring:
  assumes "ring (nx t_hash m) (pv t_hash m) as" "as \<noteq> []"
  shows "search_loop m (k @ u) (length k) (hd as) (hd as) = Some (List.find (\<lambda>a. key_at m a = k) as)"
proof (cases "List.find (\<lambda>a. key_at m a = k) as")
  case None
  then show ?thesis using search_loop_none[of m "[]" as] assms by simp
next
  case (Some a)
  then show ?thesis using search_from_ring[OF assms, of k u] by (subst search_loop.simps) simp
qed

lemma search_loop_unlinked:
  assumes "m i = Some t" "t_hash t = no_links" "t_key t = []" "k \<noteq> []"
  shows "search_loop m (k @ u) (length k) i i = Some None"
proof -
  have d: "hmap_cmp [] 0 (k @ u) (length k) = Some (-1)" using assms(4) by (simp add: hmap_cmp_def)
  then have "search_from m (k @ u) (length k) i i = Some None"
    using assms by (subst search_from.simps) (simp add: no_links_def)
  then show ?thesis using assms by (subst search_loop.simps) (simp add: no_links_def)
qed

lemma foreach_path:
  assumes "path (nx t_list m) (pv t_list m) (as @ [f])" "as \<noteq> []" "f \<notin> set (List.tl as)"
  shows "tuples_loop m (Some f) (hd as) = Some as"
  using assms
proof (induction as)
  case (Cons a as)
  have n: "nx t_list m a = Some (hd (as @ [f]))" using Cons.prems(1) by (cases as) simp_all
  obtain t where t: "m a = Some t" "lk_next (t_list t) = Some (hd (as @ [f]))" using tl.nx_load[OF n] by blast
  show ?case
  proof (cases "as = []")
    case True
    then show ?thesis using t by (subst tuples_loop.simps) simp
  next
    case False
    then have h: "hd (as @ [f]) = hd as" "hd as \<noteq> f" using Cons.prems(3) by (auto dest: hd_in_set)
    have "path (nx t_list m) (pv t_list m) (as @ [f])" using Cons.prems(1) False by (cases as) simp_all
    moreover have "f \<notin> set (List.tl as)" using Cons.prems(3) False list.set_sel(2)[of as] by auto
    ultimately show ?thesis using Cons.IH False t h by (subst tuples_loop.simps) auto
  qed
qed simp

lemma foreach_ring:
  assumes "ring (nx t_list (tuples db)) (pv t_list (tuples db)) as" "list_tuple db = (if as = [] then None else Some (hd as))"
  shows "hmap_foreach db = Some as"
proof (cases "as = []")
  case False
  have "tuples_loop (tuples db) (Some (hd as)) (hd as) = Some as"
    using assms(1) False tl_distinct[of as] by (intro foreach_path) (simp_all add: ring_def)
  then show ?thesis using assms(2) False by (simp add: hmap_foreach_def)
qed (use assms in \<open>simp add: hmap_foreach_def\<close>)

lemma size_path:
  assumes "path (nx t_list m) (pv t_list m) (as @ [f])" "as \<noteq> []" "f \<notin> set (List.tl as)"
  shows "size_loop m (Some f) (Some (hd as)) n = Some (n + of_nat (length as - 1))"
  using assms
proof (induction as arbitrary: n)
  case (Cons a as)
  have x: "nx t_list m a = Some (hd (as @ [f]))" using Cons.prems(1) by (cases as) simp_all
  obtain t where t: "m a = Some t" "lk_next (t_list t) = Some (hd (as @ [f]))" using tl.nx_load[OF x] by blast
  show ?case
  proof (cases "as = []")
    case True
    then show ?thesis using t by (subst size_loop.simps) simp
  next
    case False
    then have h: "hd (as @ [f]) = hd as" "hd as \<noteq> f" using Cons.prems(3) by (auto dest: hd_in_set)
    have p: "path (nx t_list m) (pv t_list m) (as @ [f])" using Cons.prems(1) False by (cases as) simp_all
    have q: "f \<notin> set (List.tl as)" using Cons.prems(3) False list.set_sel(2)[of as] by auto
    have l: "length as = Suc (length as - 1)" using False by (cases as) simp_all
    have "size_loop m (Some f) (Some (hd as)) (n + 1) = Some (n + 1 + of_nat (length as - 1))" by (rule Cons.IH[OF p False q])
    moreover have "(of_nat (length as) :: uint64) = of_nat (length as - 1) + 1" by (subst l) simp
    ultimately show ?thesis using t h by (subst size_loop.simps) simp
  qed
qed simp

subsection \<open>The invariant\<close>

text \<open>
  \<open>L\<close> are the tuples in use in the order of the list, \<open>B i\<close> the ring of bucket \<open>i\<close>, empty
  as long as its tuple in the table has no links.
\<close>

definition bucket_of :: "nat \<Rightarrow> byte list \<Rightarrow> nat" where
  "bucket_of n k = (case hmap_hash k (length k) of None \<Rightarrow> 0 | Some h \<Rightarrow> h mod n)"

text \<open>The block of a value: its bytes, with a zero byte behind them where \<open>hmap_add\<close> made it.\<close>

definition block_of :: "byte list \<Rightarrow> byte list \<Rightarrow> bool" where
  "block_of v p \<longleftrightarrow> p = v \<or> p = v @ [0]"

definition points_to :: "byte list option \<Rightarrow> byte list option \<Rightarrow> bool" where
  "points_to p v \<longleftrightarrow> (case v of None \<Rightarrow> p = None | Some v \<Rightarrow> \<exists>q. p = Some q \<and> block_of v q)"

definition sound_tuple :: "nat \<Rightarrow> tuple \<Rightarrow> bool" where
  "sound_tuple n t \<longleftrightarrow> length (t_key t) < MAX_SIZE_KEY \<and> t_index t = bucket_of n (t_key t) \<and>
     t_data_type t = T_CHARS \<and> (\<exists>p. t_vals t = Val_chars (Some p) \<and> block_of (take (t_data_len t) p) p)"

definition hm_shape :: "nat \<Rightarrow> nat \<Rightarrow> tuples \<Rightarrow> nat list \<Rightarrow> (nat \<Rightarrow> nat list) \<Rightarrow> bool" where
  "hm_shape n u C L B \<longleftrightarrow>
     0 < n \<and> n \<le> u \<and> (\<forall>a. C a \<noteq> None \<longrightarrow> a < u) \<and> (\<forall>i<n. C i \<noteq> None) \<and>
     (\<forall>i<n. B i \<noteq> [] \<longrightarrow> hd (B i) = i) \<and> (\<forall>i<n. B i = [] \<longrightarrow> key_at C i = []) \<and>
     (\<forall>i<n. \<forall>a\<in>set (List.tl (B i)). n \<le> a \<and> key_at C a \<noteq> []) \<and>
     (\<forall>i<n. \<forall>a\<in>set (B i). \<exists>t. C a = Some t \<and> t_index t = i) \<and>
     (\<forall>a. a \<in> set L \<longleftrightarrow> key_at C a \<noteq> []) \<and>
     (\<forall>a t. C a = Some t \<longrightarrow> t_key t \<noteq> [] \<longrightarrow> t_index t < n \<and> a \<in> set (B (t_index t)) \<and> sound_tuple n t) \<and>
     (\<forall>a b. key_at C a = key_at C b \<longrightarrow> key_at C a \<noteq> [] \<longrightarrow> a = b)"

definition hm_wf :: "hmap_db \<Rightarrow> nat list \<Rightarrow> (nat \<Rightarrow> nat list) \<Rightarrow> bool" where
  "hm_wf db L B \<longleftrightarrow>
     ring (nx t_list (tuples db)) (pv t_list (tuples db)) L \<and> list_tuple db = (if L = [] then None else Some (hd L)) \<and>
     (\<forall>i<bucket_size db. ring (nx t_hash (tuples db)) (pv t_hash (tuples db)) (B i)) \<and>
     (\<forall>i<bucket_size db. B i = [] \<longrightarrow> nx t_hash (tuples db) i = None \<and> pv t_hash (tuples db) i = None) \<and>
     hm_shape (bucket_size db) (unused db) (contents (tuples db)) L B"

text \<open>A bucket whose first tuple is not in use has no others: every history without a deletion is of this kind.\<close>

definition hm_clean :: "hmap_db \<Rightarrow> (nat \<Rightarrow> nat list) \<Rightarrow> bool" where
  "hm_clean db B \<longleftrightarrow> (\<forall>i<bucket_size db. key_at (tuples db) i = [] \<longrightarrow> B i = [] \<or> B i = [i])"

definition hm_ok :: "hmap_db \<Rightarrow> bool" where
  "hm_ok db \<longleftrightarrow> (\<exists>L B. hm_wf db L B \<and> hm_clean db B)"

text \<open>The value of a tuple are the \<open>data_len\<close> bytes of its block.\<close>

definition val_at :: "tuples \<Rightarrow> nat \<Rightarrow> byte list" where
  "val_at m a = (case m a of Some t \<Rightarrow> (case t_vals t of Val_chars (Some p) \<Rightarrow> take (t_data_len t) p | _ \<Rightarrow> undefined) | None \<Rightarrow> undefined)"

text \<open>The pairs a loop over the map visits.\<close>

definition hm_items :: "hmap_db \<Rightarrow> (byte list \<times> byte list) list" where
  "hm_items db = (case hmap_foreach db of None \<Rightarrow> [] | Some as \<Rightarrow> map (\<lambda>a. (key_at (tuples db) a, val_at (tuples db) a)) as)"

definition map_key :: "byte list \<Rightarrow> bool" where
  "map_key k \<longleftrightarrow> k \<noteq> [] \<and> length k < MAX_SIZE_KEY"

lemma key_at_contents [simp]: "key_at (contents m) = key_at m"
  by (auto simp: key_at_def contents_def fun_eq_iff split: option.splits)

lemma hm_items_wf: "hm_wf db L B \<Longrightarrow> hm_items db = map (\<lambda>a. (key_at (tuples db) a, val_at (tuples db) a)) L"
  using foreach_ring[of db L] by (simp add: hm_items_def hm_wf_def)

lemma hash_loop_prefix: "\<exists>h'. \<forall>u. hash_loop (k @ u) (length k) h = Some h'"
  by (induction k arbitrary: h) (auto simp: Let_def)

lemma hmap_index_is: "0 < bucket_size db \<Longrightarrow> hmap_index db (k @ u) (length k) = Some (bucket_of (bucket_size db) k)"
proof -
  obtain h where h: "\<forall>u. hash_loop (k @ u) (length k) 0 = Some h" using hash_loop_prefix by blast
  then have "hash_loop k (length k) 0 = Some h" using h[rule_format, of "[]"] by simp
  then show "0 < bucket_size db \<Longrightarrow> ?thesis" using h by (simp add: hmap_index_def hmap_hash_def bucket_of_def Let_def)
qed

lemma bucket_of_less: "0 < n \<Longrightarrow> bucket_of n k < n"
  by (simp add: bucket_of_def split: option.splits)

lemma contents_Some: "m a = Some t \<Longrightarrow> contents m a = Some (t\<lparr>t_list := no_links, t_hash := no_links\<rparr>)"
  by (simp add: contents_def)

lemma shapeD:
  assumes "hm_shape n u C L B"
  shows "0 < n" "n \<le> u" "\<And>a. C a \<noteq> None \<Longrightarrow> a < u" "\<And>i. i < n \<Longrightarrow> C i \<noteq> None"
    "\<And>i. i < n \<Longrightarrow> B i \<noteq> [] \<Longrightarrow> hd (B i) = i" "\<And>i. i < n \<Longrightarrow> B i = [] \<Longrightarrow> key_at C i = []"
    "\<And>i a. i < n \<Longrightarrow> a \<in> set (List.tl (B i)) \<Longrightarrow> n \<le> a \<and> key_at C a \<noteq> []"
    "\<And>i a. i < n \<Longrightarrow> a \<in> set (B i) \<Longrightarrow> \<exists>t. C a = Some t \<and> t_index t = i"
    "\<And>a. a \<in> set L \<longleftrightarrow> key_at C a \<noteq> []"
    "\<And>a t. C a = Some t \<Longrightarrow> t_key t \<noteq> [] \<Longrightarrow> t_index t < n \<and> a \<in> set (B (t_index t)) \<and> sound_tuple n t"
    "\<And>a b. key_at C a = key_at C b \<Longrightarrow> key_at C a \<noteq> [] \<Longrightarrow> a = b"
  using assms unfolding hm_shape_def by blast+

text \<open>The search finds exactly the tuple in use with the key.\<close>

lemma hmap_search_wf:
  assumes "hm_wf db L B" "k \<noteq> []"
  shows "\<exists>p. hmap_search db (k @ u) (length k) = Some (if p = None then HMAP_TUPLE_NOT_FOUND else HMAP_SUCCESS, p) \<and>
     (\<forall>a. p = Some a \<longleftrightarrow> key_at (tuples db) a = k)"
proof -
  let ?m = "tuples db" and ?i = "bucket_of (bucket_size db) k"
  have sh: "hm_shape (bucket_size db) (unused db) (contents ?m) L B" using assms(1) by (simp add: hm_wf_def)
  have i: "?i < bucket_size db" using shapeD(1)[OF sh] by (rule bucket_of_less)
  have inB: "a \<in> set (B ?i)" if a: "key_at ?m a = k" for a
  proof -
    obtain t where t: "?m a = Some t" "t_key t = k" using a assms(2) by (auto simp: key_at_def split: option.splits)
    have "sound_tuple (bucket_size db) (t\<lparr>t_list := no_links, t_hash := no_links\<rparr>)" "a \<in> set (B (t_index t))"
      using shapeD(10)[OF sh contents_Some[of ?m a t, OF t(1)]] t(2) assms(2) by simp_all
    then show ?thesis using t(2) by (simp add: sound_tuple_def)
  qed
  have "search_loop ?m (k @ u) (length k) ?i ?i = Some (List.find (\<lambda>a. key_at ?m a = k) (B ?i))"
  proof (cases "B ?i = []")
    case True
    obtain t where t: "?m ?i = Some t" using shapeD(4)[OF sh i] by (auto simp: contents_def)
    have "t_key t = []" using shapeD(6)[OF sh i True] t by (simp add: key_at_def)
    moreover have "t_hash t = no_links"
      using assms(1) i True t by (auto simp: hm_wf_def nx_def pv_def no_links_def intro: links.equality)
    ultimately show ?thesis using search_loop_unlinked[of ?m ?i t k u] t assms(2) True by simp
  next
    case False
    have "ring (nx t_hash ?m) (pv t_hash ?m) (B ?i)" using assms(1) i by (simp add: hm_wf_def)
    then show ?thesis using search_loop_ring[OF _ False, of ?m k u] shapeD(5)[OF sh i False] by simp
  qed
  then have s: "hmap_search db (k @ u) (length k) = Some (if List.find (\<lambda>a. key_at ?m a = k) (B ?i) = None then HMAP_TUPLE_NOT_FOUND else HMAP_SUCCESS, List.find (\<lambda>a. key_at ?m a = k) (B ?i))"
    using hmap_index_is[OF shapeD(1)[OF sh], of k u] assms(2) by (simp add: hmap_search_def)
  moreover have "List.find (\<lambda>a. key_at ?m a = k) (B ?i) = Some a \<longleftrightarrow> key_at ?m a = k" for a
  proof
    show "key_at ?m a = k" if "List.find (\<lambda>a. key_at ?m a = k) (B ?i) = Some a" using that by (auto simp: find_Some_iff)
    assume a: "key_at ?m a = k"
    then have "List.find (\<lambda>a. key_at ?m a = k) (B ?i) \<noteq> None" using inB[OF a] by (auto simp: find_None_iff)
    then obtain b where b: "List.find (\<lambda>a. key_at ?m a = k) (B ?i) = Some b" "key_at ?m b = k" by (auto simp: find_Some_iff)
    have "b = a" using shapeD(11)[OF sh, of b a] a b(2) assms(2) by simp
    then show "List.find (\<lambda>a. key_at ?m a = k) (B ?i) = Some a" using b(1) by simp
  qed
  ultimately show ?thesis by blast
qed

subsection \<open>Adding and replacing\<close>

lemma nx_upd_same:
  assumes "m a = Some t" "lnk t' = lnk t"
  shows "nx lnk (m(a \<mapsto> t')) = nx lnk m" "pv lnk (m(a \<mapsto> t')) = pv lnk m"
  using assms by (auto simp: nx_def pv_def fun_eq_iff)

lemma contents_upd: "contents (m(a \<mapsto> t)) = (contents m)(a \<mapsto> t\<lparr>t_list := no_links, t_hash := no_links\<rparr>)"
  by (auto simp: contents_def fun_eq_iff)

lemma shapeI:
  assumes "0 < n" "n \<le> u" "\<And>a. C a \<noteq> None \<Longrightarrow> a < u" "\<And>i. i < n \<Longrightarrow> C i \<noteq> None"
    "\<And>i. i < n \<Longrightarrow> B i \<noteq> [] \<Longrightarrow> hd (B i) = i" "\<And>i. i < n \<Longrightarrow> B i = [] \<Longrightarrow> key_at C i = []"
    "\<And>i a. i < n \<Longrightarrow> a \<in> set (List.tl (B i)) \<Longrightarrow> n \<le> a \<and> key_at C a \<noteq> []"
    "\<And>i a. i < n \<Longrightarrow> a \<in> set (B i) \<Longrightarrow> \<exists>t. C a = Some t \<and> t_index t = i"
    "\<And>a. a \<in> set L \<longleftrightarrow> key_at C a \<noteq> []"
    "\<And>a t. C a = Some t \<Longrightarrow> t_key t \<noteq> [] \<Longrightarrow> t_index t < n \<and> a \<in> set (B (t_index t)) \<and> sound_tuple n t"
    "\<And>a b. key_at C a = key_at C b \<Longrightarrow> key_at C a \<noteq> [] \<Longrightarrow> a = b"
  shows "hm_shape n u C L B"
  using assms unfolding hm_shape_def by simp

lemma shape_replace:
  assumes "hm_shape n u C L B" "C a = Some t" "t_key t' = t_key t" "t_index t' = t_index t" "sound_tuple n t \<Longrightarrow> sound_tuple n t'"
  shows "hm_shape n u (C(a \<mapsto> t')) L B"
proof -
  note s = shapeD[OF assms(1)]
  have k: "key_at (C(a \<mapsto> t')) = key_at C" using assms(2,3) by (auto simp: key_at_def fun_eq_iff)
  have N: "(C(a \<mapsto> t')) b \<noteq> None \<longleftrightarrow> C b \<noteq> None" for b using assms(2) by simp
  show ?thesis
  proof (rule shapeI, unfold k N)
    show "\<exists>r. (C(a \<mapsto> t')) b = Some r \<and> t_index r = i" if "i < n" "b \<in> set (B i)" for i b
      using s(8)[of i b] that assms(2,4) by (cases "b = a") auto
    show "t_index r < n \<and> b \<in> set (B (t_index r)) \<and> sound_tuple n r" if "(C(a \<mapsto> t')) b = Some r" "t_key r \<noteq> []" for b r
    proof (cases "b = a")
      case True
      then show ?thesis using s(10)[OF assms(2)] assms(3-5) that by simp
    qed (use s(10)[of b r] that in simp)
  qed (fact s)+
qed

text \<open>A tuple of the table is in its own ring only.\<close>

lemma shape_root:
  assumes "hm_shape n u C L B" "i < n" "j < n" "i \<in> set (B j)"
  shows "i = j"
proof (rule ccontr)
  assume "i \<noteq> j"
  then have "i \<in> set (List.tl (B j))" using assms(4) shapeD(5)[OF assms(1,3)] by (cases "B j") auto
  then show False using shapeD(7)[OF assms(1,3)] assms(2) by fastforce
qed

lemma shape_primary:
  assumes "hm_shape n u C L B" "i < n" "key_at C i = []" "B i = [] \<or> B i = [i]" "\<And>a. key_at C a \<noteq> t_key t"
    and "t_key t \<noteq> []" "t_index t = i" "sound_tuple n t"
  shows "hm_shape n u (C(i \<mapsto> t)) (L @ [i]) (B(i := [i]))"
proof -
  note s = shapeD[OF assms(1)]
  let ?C = "C(i \<mapsto> t)" and ?B = "B(i := [i])"
  have k: "key_at ?C a = (if a = i then t_key t else key_at C a)" for a by (simp add: key_at_def)
  show ?thesis
  proof (rule shapeI)
    show "0 < n" "n \<le> u" by (fact s)+
    show "a < u" if "?C a \<noteq> None" for a using that s(2) s(3)[of a] assms(2) by (cases "a = i") auto
    show "?C j \<noteq> None" if "j < n" for j using that s(4)[of j] by simp
    show "hd (?B j) = j" if "j < n" "?B j \<noteq> []" for j using that s(5)[of j] by (cases "j = i") simp_all
    show "key_at ?C j = []" if "j < n" "?B j = []" for j using that s(6)[of j] k by (cases "j = i") simp_all
    show "n \<le> a \<and> key_at ?C a \<noteq> []" if "j < n" "a \<in> set (List.tl (?B j))" for j a
      using that s(7)[of j a] assms(2) k by (cases "j = i") (auto split: if_splits)
    show "\<exists>r. ?C b = Some r \<and> t_index r = j" if "j < n" "b \<in> set (?B j)" for j b
    proof (cases "j = i")
      case False
      then have "b \<in> set (B j)" using that(2) by simp
      moreover from this have "b \<noteq> i" using shape_root[OF assms(1,2) that(1)] False by blast
      ultimately show ?thesis using s(8)[of j b] that(1) by simp
    qed (use that assms(7) in simp)
    show "a \<in> set (L @ [i]) \<longleftrightarrow> key_at ?C a \<noteq> []" for a using s(9)[of a] assms(6) k by auto
    show "t_index r < n \<and> b \<in> set (?B (t_index r)) \<and> sound_tuple n r" if r: "?C b = Some r" "t_key r \<noteq> []" for b r
    proof (cases "b = i")
      case False
      have q: "t_index r < n" "b \<in> set (B (t_index r))" "sound_tuple n r" using s(10)[of b r] r False by simp_all
      moreover have "t_index r \<noteq> i" using q(2) assms(4) False by auto
      ultimately show ?thesis by simp
    qed (use r assms(2,7,8) in simp)
    show "a = b" if "key_at ?C a = key_at ?C b" "key_at ?C a \<noteq> []" for a b
      using that s(11)[of a b] assms(5)[of a] assms(5)[of b] k by (auto split: if_splits)
  qed
qed

lemma shape_secondary:
  assumes "hm_shape n u C L B" "i < n" "key_at C i \<noteq> []" "\<And>a. key_at C a \<noteq> t_key t"
    and "t_key t \<noteq> []" "t_index t = i" "sound_tuple n t"
  shows "hm_shape n (Suc u) (C(u \<mapsto> t)) (L @ [u]) (B(i := B i @ [u]))"
proof -
  note s = shapeD[OF assms(1)]
  let ?C = "C(u \<mapsto> t)" and ?B = "B(i := B i @ [u])"
  have k: "key_at ?C a = (if a = u then t_key t else key_at C a)" for a by (simp add: key_at_def)
  have u: "C u = None" using s(3)[of u] by blast
  have B: "B i \<noteq> []" using s(6)[OF assms(2)] assms(3) by blast
  have nu: "u \<notin> set (B j)" if "j < n" for j using s(8)[OF that, of u] u by auto
  show ?thesis
  proof (rule shapeI)
    show "0 < n" "n \<le> Suc u" using s(1,2) by simp_all
    show "a < Suc u" if "?C a \<noteq> None" for a using that s(3)[of a] by (cases "a = u") auto
    show "?C j \<noteq> None" if "j < n" for j using that s(4)[of j] by simp
    show "hd (?B j) = j" if "j < n" "?B j \<noteq> []" for j using that s(5)[of j] B by (cases "j = i") simp_all
    show "key_at ?C j = []" if "j < n" "?B j = []" for j using that s(2) s(6)[of j] k by (cases "j = i") simp_all
    show "n \<le> a \<and> key_at ?C a \<noteq> []" if "j < n" "a \<in> set (List.tl (?B j))" for j a
      using that s(2) s(7)[of j a] B assms(5) k by (cases "j = i") (auto split: if_splits)
    show "\<exists>r. ?C b = Some r \<and> t_index r = j" if "j < n" "b \<in> set (?B j)" for j b
      using s(8)[OF that(1), of b] that nu[OF that(1)] assms(6) by (cases "b = u"; cases "j = i") auto
    show "a \<in> set (L @ [u]) \<longleftrightarrow> key_at ?C a \<noteq> []" for a using s(9)[of a] assms(5) k by auto
    show "t_index r < n \<and> b \<in> set (?B (t_index r)) \<and> sound_tuple n r" if r: "?C b = Some r" "t_key r \<noteq> []" for b r
      using s(10)[of b r] r assms(2,6,7) by (cases "b = u") auto
    show "a = b" if "key_at ?C a = key_at ?C b" "key_at ?C a \<noteq> []" for a b
      using that s(11)[of a b] assms(4)[of a] assms(4)[of b] k by (auto split: if_splits)
  qed
qed

lemma val_at_contents [simp]: "val_at (contents m) = val_at m"
  by (auto simp: val_at_def contents_def fun_eq_iff split: option.splits hvals.splits)

lemma key_at_load: "key_at m a = k \<Longrightarrow> k \<noteq> [] \<Longrightarrow> \<exists>t. m a = Some t \<and> t_key t = k"
  by (auto simp: key_at_def split: option.splits)

lemma hm_wf_tuple:
  assumes "hm_wf db L B" "tuples db a = Some t" "t_key t \<noteq> []"
  shows "t_index t < bucket_size db \<and> a \<in> set (B (t_index t)) \<and> sound_tuple (bucket_size db) t"
proof -
  have sh: "hm_shape (bucket_size db) (unused db) (contents (tuples db)) L B" using assms(1) by (simp add: hm_wf_def)
  show ?thesis using shapeD(10)[OF sh, of a "t\<lparr>t_list := no_links, t_hash := no_links\<rparr>"] assms(2,3)
    by (auto simp: contents_def sound_tuple_def)
qed

lemma hm_wf_vals:
  assumes "hm_wf db L B" "tuples db a = Some t" "t_key t \<noteq> []"
    and "t' = t\<lparr>t_vals := Val_chars (Some v), t_data_len := length v\<rparr>"
  shows "hm_wf (db\<lparr>tuples := (tuples db)(a \<mapsto> t')\<rparr>) L B" "key_at ((tuples db)(a \<mapsto> t')) = key_at (tuples db)"
    "val_at ((tuples db)(a \<mapsto> t')) = (val_at (tuples db))(a := v)"
proof -
  let ?m = "tuples db"
  let ?c = "\<lambda>t. t\<lparr>t_list := no_links, t_hash := no_links\<rparr>"
  have sh: "hm_shape (bucket_size db) (unused db) (contents ?m) L B" using assms(1) by (simp add: hm_wf_def)
  have n: "nx t_list (?m(a \<mapsto> t')) = nx t_list ?m" "pv t_list (?m(a \<mapsto> t')) = pv t_list ?m"
      "nx t_hash (?m(a \<mapsto> t')) = nx t_hash ?m" "pv t_hash (?m(a \<mapsto> t')) = pv t_hash ?m"
    using assms(4) by (auto intro!: nx_upd_same[of ?m a t] assms(2))
  have "hm_shape (bucket_size db) (unused db) ((contents ?m)(a \<mapsto> ?c t')) L B"
    by (rule shape_replace[OF sh, of a "?c t"]) (use assms(2,4) in \<open>simp_all add: contents_def sound_tuple_def block_of_def\<close>)
  then show "hm_wf (db\<lparr>tuples := ?m(a \<mapsto> t')\<rparr>) L B" using assms(1) n by (simp add: hm_wf_def contents_upd)
  show "key_at (?m(a \<mapsto> t')) = key_at ?m" using assms(2,4) by (auto simp: key_at_def fun_eq_iff)
  show "val_at (?m(a \<mapsto> t')) = (val_at ?m)(a := v)" using assms(4) by (auto simp: val_at_def fun_eq_iff)
qed

lemma shape_key_cases:
  assumes "hm_wf db L B" "hm_clean db B" "i < bucket_size db" "key_at (tuples db) i = []"
  shows "B i = [] \<or> B i = [i]"
  using assms by (simp add: hm_clean_def)

text \<open>The tuple of the table for a new key.\<close>

lemma link_primary_wf:
  assumes "hm_wf db L B" "hm_clean db B" "i < bucket_size db" "key_at (tuples db) i = []" "tuples db i = Some r"
    and "t_list t = t_list r" "t_hash t = t_hash r" "t_key t \<noteq> []" "t_index t = i" "sound_tuple (bucket_size db) t"
    and "\<And>a. key_at (tuples db) a \<noteq> t_key t"
  shows "\<exists>db'. link_primary db ((tuples db)(i \<mapsto> t)) i = Some db' \<and> hm_wf db' (L @ [i]) (B(i := [i])) \<and>
     hm_clean db' (B(i := [i])) \<and> i \<notin> set L \<and> contents (tuples db') = contents ((tuples db)(i \<mapsto> t)) \<and>
     bucket_size db' = bucket_size db"
proof -
  let ?m = "tuples db" and ?n = "bucket_size db"
  let ?c = "\<lambda>t. t\<lparr>t_list := no_links, t_hash := no_links\<rparr>"
  define m1 where "m1 = ?m(i \<mapsto> t)"
  have sh: "hm_shape ?n (unused db) (contents ?m) L B" using assms(1) by (simp add: hm_wf_def)
  have n1: "nx t_list m1 = nx t_list ?m" "pv t_list m1 = pv t_list ?m" "nx t_hash m1 = nx t_hash ?m" "pv t_hash m1 = pv t_hash ?m"
    unfolding m1_def using assms(6,7) by (auto intro!: nx_upd_same[of ?m i r] assms(5))
  have Bi: "B i = [] \<or> B i = [i]" by (rule shape_key_cases[OF assms(1-4)])
  have iL: "i \<notin> set L" using shapeD(9)[OF sh, of i] assms(4) by simp
  have "\<exists>m2. (if t_hash t = no_links then t_mod m1 i (t_hash_update (\<lambda>_. \<lparr>lk_next = Some i, lk_prev = Some i\<rparr>))
                 else map_option fst (ring_append t_hash t_hash_update m1 (Some i) i)) = Some m2 \<and>
      relinked t_hash_update m1 m2 {i} \<and> ring (nx t_hash m2) (pv t_hash m2) [i]"
  proof (cases "B i = []")
    case True
    then have "t_hash r = no_links" using assms(1,3,5) by (auto simp: hm_wf_def nx_def pv_def no_links_def intro: links.equality)
    moreover obtain m2 s where "t_mod m1 i (t_hash_update (\<lambda>_. \<lparr>lk_next = Some i, lk_prev = Some i\<rparr>)) = Some m2"
        "relinked t_hash_update m1 m2 {i}" "m2 i = Some (t_hash_update (\<lambda>_. \<lparr>lk_next = Some i, lk_prev = Some i\<rparr>) s)"
      using th.t_mod_upd[of m1 i "\<lambda>_. \<lparr>lk_next = Some i, lk_prev = Some i\<rparr>"] by (auto simp: m1_def)
    ultimately show ?thesis using assms(7) by (auto simp: ring_single nx_def pv_def)
  next
    case False
    then have r: "ring (nx t_hash m1) (pv t_hash m1) [i]" using Bi assms(1,3) n1 by (auto simp: hm_wf_def)
    then have "lk_next (t_hash t) = Some i" by (simp add: ring_single nx_def m1_def)
    then have "t_hash t \<noteq> no_links" by (auto simp: no_links_def)
    then show ?thesis using th.append_self[OF r] by auto
  qed
  then obtain m2 where m2: "(if t_hash t = no_links then t_mod m1 i (t_hash_update (\<lambda>_. \<lparr>lk_next = Some i, lk_prev = Some i\<rparr>))
                 else map_option fst (ring_append t_hash t_hash_update m1 (Some i) i)) = Some m2"
      "relinked t_hash_update m1 m2 {i}" "ring (nx t_hash m2) (pv t_hash m2) [i]"
    by blast
  have r2: "ring (nx t_list m2) (pv t_list m2) L" using assms(1) n1 relinked_hash[OF m2(2)] by (simp add: hm_wf_def)
  have lt: "list_tuple db = (if L = [] then None else Some (hd L))" using assms(1) by (simp add: hm_wf_def)
  have "m2 i \<noteq> None" using th.relinked_some[OF m2(2), of i] by (simp add: m1_def)
  then obtain m3 where m3: "ring_append t_list t_list_update m2 (list_tuple db) i = Some (m3, Some (hd (L @ [i])))"
      "ring (nx t_list m3) (pv t_list m3) (L @ [i])" "relinked t_list_update m2 m3 (insert i (set L))"
    using tl.append_list[OF r2 iL] unfolding lt by blast
  define db' where "db' = db\<lparr>tuples := m3, list_tuple := Some (hd (L @ [i]))\<rparr>"
  have C: "contents m3 = contents m1" using relinked_list(1)[OF m3(3)] relinked_hash(1)[OF m2(2)] by simp
  have "link_primary db m1 i = Some db'" using m2(1) m3(1) unfolding link_primary_def by (simp add: m1_def db'_def)
  moreover have "hm_shape ?n (unused db) (contents m3) (L @ [i]) (B(i := [i]))"
    unfolding C m1_def contents_upd
    by (rule shape_primary[OF sh assms(3)]) (use assms(4,8-11) Bi in \<open>simp_all add: sound_tuple_def\<close>)
  moreover have "ring (nx t_hash m3) (pv t_hash m3) ((B(i := [i])) j) \<and>
      ((B(i := [i])) j = [] \<longrightarrow> nx t_hash m3 j = None \<and> pv t_hash m3 j = None)" if j: "j < ?n" for j
  proof (cases "j = i")
    case True
    then show ?thesis using m2(3) relinked_list(2,3)[OF m3(3)] by simp
  next
    case False
    have o: "nx t_hash m3 a = nx t_hash ?m a \<and> pv t_hash m3 a = pv t_hash ?m a" if "a \<noteq> i" for a
      using th.nx_outside[OF m2(2), of a] that relinked_list(2,3)[OF m3(3)] n1 by simp
    have ne: "a \<noteq> i" if "a \<in> set (B j)" for a using shape_root[OF sh assms(3) j] that False by blast
    have r: "ring (nx t_hash ?m) (pv t_hash ?m) (B j)" "B j = [] \<longrightarrow> nx t_hash ?m j = None \<and> pv t_hash ?m j = None"
      using assms(1) j by (simp_all add: hm_wf_def)
    have "ring (nx t_hash m3) (pv t_hash m3) (B j)"
      by (rule ring_cong[OF r(1)]) (use ne o in blast)+
    then show ?thesis using o[OF False] r(2) False by simp
  qed
  moreover have "hm_clean db' (B(i := [i]))"
  proof -
    have "key_at m3 = key_at m1" using C key_at_contents by metis
    then have "key_at m3 j = key_at ?m j" if "j \<noteq> i" for j using that by (simp add: m1_def key_at_def)
    then show ?thesis using assms(2) by (auto simp: hm_clean_def db'_def)
  qed
  ultimately show ?thesis using m3(2) C iL unfolding m1_def[symmetric] by (intro exI[of _ db']) (auto simp: hm_wf_def db'_def)
qed

text \<open>A further tuple in the ring of a bucket in use.\<close>

lemma link_secondary_wf:
  assumes "hm_wf db L B" "hm_clean db B" "i < bucket_size db" "key_at (tuples db) i \<noteq> []"
    and "t_key t \<noteq> []" "t_index t = i" "sound_tuple (bucket_size db) t" "\<And>a. key_at (tuples db) a \<noteq> t_key t"
  shows "\<exists>db'. link_secondary db i t = Some db' \<and> hm_wf db' (L @ [unused db]) (B(i := B i @ [unused db])) \<and>
     hm_clean db' (B(i := B i @ [unused db])) \<and> unused db \<notin> set L \<and>
     contents (tuples db') = contents ((tuples db)(unused db \<mapsto> t)) \<and> bucket_size db' = bucket_size db"
proof -
  let ?m = "tuples db" and ?n = "bucket_size db" and ?u = "unused db"
  define m1 where "m1 = ?m(?u \<mapsto> t)"
  have sh: "hm_shape ?n ?u (contents ?m) L B" using assms(1) by (simp add: hm_wf_def)
  have u: "?m ?u = None" using shapeD(3)[OF sh, of ?u] by (cases "?m ?u") (auto simp: contents_def)
  have uL: "?u \<notin> set L" using shapeD(9)[OF sh, of ?u] u by (simp add: key_at_def)
  have uB: "?u \<notin> set (B j)" if "j < ?n" for j using shapeD(8)[OF sh that, of ?u] u by (auto simp: contents_def)
  have o1: "nx lnk m1 a = nx lnk ?m a" "pv lnk m1 a = pv lnk ?m a" if "a \<noteq> ?u" for lnk a
    using that by (simp_all add: m1_def nx_def pv_def)
  have r1: "ring (nx t_list m1) (pv t_list m1) L"
  proof (rule ring_cong)
    show "ring (nx t_list ?m) (pv t_list ?m) L" using assms(1) by (simp add: hm_wf_def)
    fix a assume "a \<in> set L"
    then have "a \<noteq> ?u" using uL by blast
    then show "nx t_list m1 a = nx t_list ?m a" "pv t_list m1 a = pv t_list ?m a" by (rule o1)+
  qed
  have lt: "list_tuple db = (if L = [] then None else Some (hd L))" using assms(1) by (simp add: hm_wf_def)
  have "m1 ?u \<noteq> None" by (simp add: m1_def)
  then obtain m2 where m2: "ring_append t_list t_list_update m1 (list_tuple db) ?u = Some (m2, Some (hd (L @ [?u])))"
      "ring (nx t_list m2) (pv t_list m2) (L @ [?u])" "relinked t_list_update m1 m2 (insert ?u (set L))"
    using tl.append_list[OF r1 uL] unfolding lt by blast
  have h2: "nx t_hash m2 a = nx t_hash ?m a" "pv t_hash m2 a = pv t_hash ?m a" if "a \<noteq> ?u" for a
    using o1[OF that] relinked_list(2,3)[OF m2(3)] by simp_all
  have rB: "ring (nx t_hash m2) (pv t_hash m2) (B j)" if "j < ?n" for j
  proof (rule ring_cong)
    show "ring (nx t_hash ?m) (pv t_hash ?m) (B j)" using assms(1) that by (simp add: hm_wf_def)
    fix a assume "a \<in> set (B j)"
    then have "a \<noteq> ?u" using uB[OF that] by blast
    then show "nx t_hash m2 a = nx t_hash ?m a" "pv t_hash m2 a = pv t_hash ?m a" by (rule h2)+
  qed
  have Bi: "B i \<noteq> []" "hd (B i) = i" using shapeD(5,6)[OF sh assms(3)] assms(4) by auto
  have "m2 ?u \<noteq> None" using tl.relinked_some[OF m2(3), of ?u] by (simp add: m1_def)
  then obtain m3 where m3: "ring_append t_hash t_hash_update m2 (Some i) ?u = Some (m3, Some i)"
      "ring (nx t_hash m3) (pv t_hash m3) (B i @ [?u])" "relinked t_hash_update m2 m3 (insert ?u (set (B i)))"
    using th.append_ring[OF rB[OF assms(3)] Bi(1) uB[OF assms(3)]] unfolding Bi(2) by blast
  define db' where "db' = db\<lparr>tuples := m3, list_tuple := Some (hd (L @ [?u])), unused := ?u + 1, secondary_tuple_count := secondary_tuple_count db + 1\<rparr>"
  have C: "contents m3 = contents m1" using relinked_list(1)[OF m2(3)] relinked_hash(1)[OF m3(3)] by simp
  have "link_secondary db i t = Some db'" using m2(1) m3(1) unfolding link_secondary_def m1_def by (simp add: db'_def Let_def)
  moreover have "hm_shape ?n (Suc ?u) (contents m3) (L @ [?u]) (B(i := B i @ [?u]))"
    unfolding C m1_def contents_upd
    by (rule shape_secondary[OF sh assms(3)]) (use assms(4-8) in \<open>simp_all add: sound_tuple_def\<close>)
  moreover have "ring (nx t_list m3) (pv t_list m3) (L @ [?u])" using m2(2) relinked_hash(2,3)[OF m3(3)] by simp
  moreover have "ring (nx t_hash m3) (pv t_hash m3) ((B(i := B i @ [?u])) j) \<and>
      ((B(i := B i @ [?u])) j = [] \<longrightarrow> nx t_hash m3 j = None \<and> pv t_hash m3 j = None)" if j: "j < ?n" for j
  proof (cases "j = i")
    case True
    then show ?thesis using m3(2) by simp
  next
    case False
    have dis: "a \<notin> insert ?u (set (B i))" if "a \<in> set (B j)" for a
      using shapeD(8)[OF sh j that] shapeD(8)[OF sh assms(3), of a] False uB[OF j] that by auto
    have "ring (nx t_hash m3) (pv t_hash m3) (B j)"
      by (rule ring_cong[OF rB[OF j]]) (use th.nx_outside[OF m3(3)] dis in blast)+
    moreover have "nx t_hash m3 j = None \<and> pv t_hash m3 j = None" if e: "B j = []"
    proof -
      have "j \<noteq> ?u" using j shapeD(2)[OF sh] by simp
      moreover have "j \<notin> set (B i)" using shape_root[OF sh j assms(3)] False by blast
      ultimately show ?thesis using th.nx_outside[OF m3(3), of j] h2[of j] assms(1) j e by (simp add: hm_wf_def)
    qed
    ultimately show ?thesis using False by simp
  qed
  moreover have "hm_clean db' (B(i := B i @ [?u]))"
  proof -
    have "key_at m3 = key_at m1" using C key_at_contents by metis
    then have "key_at m3 j = key_at ?m j" if "j < ?n" for j using that shapeD(2)[OF sh] by (simp add: m1_def key_at_def)
    then show ?thesis using assms(2,4) by (auto simp: hm_clean_def db'_def)
  qed
  ultimately show ?thesis using C uL unfolding m1_def[symmetric] by (intro exI[of _ db']) (auto simp: hm_wf_def db'_def)
qed

lemma link_primary_count: "link_primary db m i = Some db' \<Longrightarrow> tuple_count db' = tuple_count db"
  by (auto simp: link_primary_def split: Option.bind_splits if_splits)

lemma link_secondary_count: "link_secondary db i t = Some db' \<Longrightarrow> tuple_count db' = tuple_count db"
  by (auto simp: link_secondary_def Let_def split: Option.bind_splits)

lemma block_copied:
  "n \<le> length v \<Longrightarrow> byte_copy (replicate (n + m) 0) 0 n v 0 = Some (take n v @ replicate m 0)"
  by (subst byte_copy_eq) (simp_all add: splice_def)

lemma set_data_chars:
  "n \<le> length v \<Longrightarrow> set_data True (Arg_chars v n) t = Some (Inr (t\<lparr>t_vals := Val_chars (Some (take n v @ [0])), t_data_len := n\<rparr>))"
proof -
  assume n: "n \<le> length v"
  then have "byte_copy (replicate (n + 1) 0) 0 n v 0 = Some (take n v @ [0])" using block_copied[of n v 1] by simp
  then show ?thesis using n by (simp add: list_update_append del: replicate_Suc)
qed

declare set_data.simps(6) [simp del]

lemma hmap_add_wf:
  assumes "hm_wf db L B" "hm_clean db B" "map_key k" "\<And>a. key_at (tuples db) a \<noteq> k" "d \<le> length v"
  shows "\<exists>db' p B' t. hmap_add True True db (k @ u) (length k) (Arg_chars v d) = Some (int (bucket_of (bucket_size db) k), db') \<and>
     hm_wf db' (L @ [p]) B' \<and> hm_clean db' B' \<and> p \<notin> set L \<and> contents (tuples db') = contents ((tuples db)(p \<mapsto> t)) \<and>
     t_key t = k \<and> t_vals t = Val_chars (Some (take d v @ [0])) \<and> t_data_len t = d \<and> bucket_size db' = bucket_size db \<and>
     tuple_count db' = tuple_count db + 1 \<and>
     B' = B(bucket_of (bucket_size db) k := (if key_at (tuples db) (bucket_of (bucket_size db) k) = [] then [bucket_of (bucket_size db) k]
              else B (bucket_of (bucket_size db) k) @ [p])) \<and>
     (key_at (tuples db) (bucket_of (bucket_size db) k) = [] \<longrightarrow> p = bucket_of (bucket_size db) k)"
proof -
  let ?m = "tuples db" and ?n = "bucket_size db"
  let ?i = "bucket_of ?n k"
  have sh: "hm_shape ?n (unused db) (contents ?m) L B" using assms(1) by (simp add: hm_wf_def)
  have i: "?i < ?n" using shapeD(1)[OF sh] by (rule bucket_of_less)
  have k: "k \<noteq> []" "length k < MAX_SIZE_KEY" using assms(3) by (simp_all add: map_key_def)
  have idx: "hmap_index db (k @ u) (length k) = Some ?i" using hmap_index_is[OF shapeD(1)[OF sh]] .
  have se: "hmap_search db (k @ u) (length k) = Some (HMAP_TUPLE_NOT_FOUND, None)"
  proof -
    obtain p where p: "hmap_search db (k @ u) (length k) = Some (if p = None then HMAP_TUPLE_NOT_FOUND else HMAP_SUCCESS, p)"
        "\<forall>a. p = Some a \<longleftrightarrow> key_at ?m a = k"
      using hmap_search_wf[OF assms(1) k(1)] by blast
    then have "p = None" using assms(4) by (cases p) auto
    then show ?thesis using p(1) by simp
  qed
  have pk: "put_key (k @ u) (length k) = Some k" using k(2) by (simp add: put_key_def)
  obtain r where r: "?m ?i = Some r" using shapeD(4)[OF sh i] by (auto simp: contents_def)
  have codes: "HMAP_TUPLE_NOT_FOUND \<noteq> HMAP_SUCCESS" by (simp add: HMAP_TUPLE_NOT_FOUND_def HMAP_SUCCESS_def)
  show ?thesis
  proof (cases "t_key r = []")
    case True
    define t where "t = r\<lparr>t_vals := Val_chars (Some (take d v @ [0])), t_data_len := d, t_key := k, t_index := ?i, t_secondary := False, t_data_type := T_CHARS\<rparr>"
    have t: "t_list t = t_list r" "t_hash t = t_hash r" "t_key t = k" "t_index t = ?i" "sound_tuple ?n t" "t_vals t = Val_chars (Some (take d v @ [0])) \<and> t_data_len t = d"
      using k assms(5) by (simp_all add: t_def sound_tuple_def block_of_def)
    have kr: "key_at ?m ?i = []" using True r by (simp add: key_at_def)
    obtain db' where db': "link_primary db (?m(?i \<mapsto> t)) ?i = Some db'" "hm_wf db' (L @ [?i]) (B(?i := [?i]))" "hm_clean db' (B(?i := [?i]))"
        "?i \<notin> set L" "contents (tuples db') = contents (?m(?i \<mapsto> t))" "bucket_size db' = ?n"
      using link_primary_wf[OF assms(1,2) i kr r t(1,2) _ t(4,5)] t(3) k(1) assms(4) by blast
    have run: "hmap_add True True db (k @ u) (length k) (Arg_chars v d) = Some (int ?i, db'\<lparr>tuple_count := tuple_count db' + 1\<rparr>)"
      using idx k(1) se r True pk db'(1) codes by (simp add: hmap_add_def t_def set_data_chars[OF assms(5)])
    have wf: "hm_wf (db'\<lparr>tuple_count := tuple_count db' + 1\<rparr>) (L @ [?i]) (B(?i := [?i]))"
        "hm_clean (db'\<lparr>tuple_count := tuple_count db' + 1\<rparr>) (B(?i := [?i]))"
      using db'(2,3) by (simp_all add: hm_wf_def hm_clean_def)
    show ?thesis using run wf db'(4-6) t(3,6) kr link_primary_count[OF db'(1)]
      by (intro exI[of _ "db'\<lparr>tuple_count := tuple_count db' + 1\<rparr>"] exI[of _ ?i] exI[of _ "B(?i := [?i])"] exI[of _ t]) simp
  next
    case False
    define t where "t = zero_tuple\<lparr>t_vals := Val_chars (Some (take d v @ [0])), t_data_len := d, t_key := k, t_index := ?i, t_secondary := True, t_data_type := T_CHARS\<rparr>"
    have t: "t_key t = k" "t_index t = ?i" "sound_tuple ?n t" "t_vals t = Val_chars (Some (take d v @ [0])) \<and> t_data_len t = d"
      using k assms(5) by (simp_all add: t_def sound_tuple_def block_of_def)
    have kr: "key_at ?m ?i \<noteq> []" using False r by (simp add: key_at_def)
    let ?B = "B(?i := B ?i @ [unused db])"
    obtain db' where db': "link_secondary db ?i t = Some db'" "hm_wf db' (L @ [unused db]) ?B" "hm_clean db' ?B"
        "unused db \<notin> set L" "contents (tuples db') = contents (?m(unused db \<mapsto> t))" "bucket_size db' = ?n"
      using link_secondary_wf[OF assms(1,2) i kr _ t(2,3)] t(1) k(1) assms(4) by blast
    have run: "hmap_add True True db (k @ u) (length k) (Arg_chars v d) = Some (int ?i, db'\<lparr>tuple_count := tuple_count db' + 1\<rparr>)"
      using idx k(1) se r False pk db'(1) codes by (simp add: hmap_add_def t_def set_data_chars[OF assms(5)])
    have wf: "hm_wf (db'\<lparr>tuple_count := tuple_count db' + 1\<rparr>) (L @ [unused db]) ?B"
        "hm_clean (db'\<lparr>tuple_count := tuple_count db' + 1\<rparr>) ?B"
      using db'(2,3) by (simp_all add: hm_wf_def hm_clean_def)
    show ?thesis using run wf db'(4-6) t(1,4) kr link_secondary_count[OF db'(1)]
      by (intro exI[of _ "db'\<lparr>tuple_count := tuple_count db' + 1\<rparr>"] exI[of _ "unused db"] exI[of _ ?B] exI[of _ t]) simp
  qed
qed

subsection \<open>The map is a dictionary\<close>

lemma update_map:
  assumes "a \<in> set as" "inj_on f (set as)" "distinct as"
  shows "AList.update (f a) v (map (\<lambda>b. (f b, g b)) as) = map (\<lambda>b. (f b, (g(a := v)) b)) as"
  using assms
proof (induction as)
  case (Cons b as)
  show ?case
  proof (cases "b = a")
    case True
    then have "map (\<lambda>b. (f b, (g(a := v)) b)) as = map (\<lambda>b. (f b, g b)) as" using Cons.prems(3) by auto
    then show ?thesis using True by simp
  next
    case False
    then have "f b \<noteq> f a" using Cons.prems by (auto simp: inj_on_def)
    then show ?thesis using False Cons by auto
  qed
qed simp

lemma update_new: "k \<notin> fst ` set al \<Longrightarrow> AList.update k v al = al @ [(k, v)]"
  by (induction al) auto

lemma hm_wf_inj: "hm_wf db L B \<Longrightarrow> inj_on (key_at (tuples db)) (set L)"
proof (rule inj_onI)
  fix a b assume h: "hm_wf db L B" "a \<in> set L" "b \<in> set L" "key_at (tuples db) a = key_at (tuples db) b"
  have sh: "hm_shape (bucket_size db) (unused db) (contents (tuples db)) L B" using h(1) by (simp add: hm_wf_def)
  show "a = b" using shapeD(11)[OF sh, of a b] shapeD(9)[OF sh, of a] h(2,4) by simp
qed

lemma hm_wf_live:
  assumes "hm_wf db L B"
  shows "a \<in> set L \<longleftrightarrow> key_at (tuples db) a \<noteq> []"
proof -
  have sh: "hm_shape (bucket_size db) (unused db) (contents (tuples db)) L B" using assms by (simp add: hm_wf_def)
  show ?thesis using shapeD(9)[OF sh, of a] by simp
qed

lemma hm_items_key:
  assumes "hm_wf db L B"
  shows "k \<in> fst ` set (hm_items db) \<longleftrightarrow> k \<noteq> [] \<and> (\<exists>a. key_at (tuples db) a = k)"
  unfolding hm_items_wf[OF assms] using hm_wf_live[OF assms] by (auto simp: image_iff)

lemma hm_items_get:
  assumes "hm_wf db L B" "key_at (tuples db) a = k" "k \<noteq> []"
  shows "map_of (hm_items db) k = Some (val_at (tuples db) a)"
proof -
  have a: "a \<in> set L" using hm_wf_live[OF assms(1)] assms(2,3) by simp
  have "distinct L" using assms(1) by (simp add: hm_wf_def ring_def)
  then have "distinct (map fst (hm_items db))"
    unfolding hm_items_wf[OF assms(1)] using hm_wf_inj[OF assms(1)] by (simp add: distinct_map comp_def)
  moreover have "(k, val_at (tuples db) a) \<in> set (hm_items db)" unfolding hm_items_wf[OF assms(1)] using a assms(2) by auto
  ultimately show ?thesis by simp
qed

lemma hmap_set_replace:
  assumes "hm_wf db L B" "map_key k" "key_at (tuples db) a = k" "d \<le> length v"
  shows "\<exists>db'. hmap_set tok True db (k @ u) (length k) v d = Some (Some a, db') \<and> hm_wf db' L B \<and>
     hm_items db' = AList.update k (take d v) (hm_items db) \<and> bucket_size db' = bucket_size db \<and>
     key_at (tuples db') = key_at (tuples db) \<and> tuple_count db' = tuple_count db"
proof -
  have k: "k \<noteq> []" using assms(2) by (simp add: map_key_def)
  obtain t where t: "tuples db a = Some t" "t_key t = k" using key_at_load[OF assms(3) k] by blast
  obtain p where p: "hmap_search db (k @ u) (length k) = Some (if p = None then HMAP_TUPLE_NOT_FOUND else HMAP_SUCCESS, p)"
      "p = Some a"
    using hmap_search_wf[OF assms(1) k] assms(3) by blast
  have so: "sound_tuple (bucket_size db) t" using hm_wf_tuple[OF assms(1) t(1)] t(2) k by simp
  define t' where "t' = t\<lparr>t_vals := Val_chars (Some (take d v)), t_data_len := length (take d v)\<rparr>"
  have dL: "distinct L" using assms(1) by (simp add: hm_wf_def ring_def)
  have "hmap_set tok True db (k @ u) (length k) v d = Some (Some a, db\<lparr>tuples := (tuples db)(a \<mapsto> t')\<rparr>)"
    using k p t(1) so block_copied[OF assms(4), of 0] assms(4) by (simp add: hmap_set_def sound_tuple_def t'_def Let_def min_absorb2)
  moreover have wf: "hm_wf (db\<lparr>tuples := (tuples db)(a \<mapsto> t')\<rparr>) L B" "key_at ((tuples db)(a \<mapsto> t')) = key_at (tuples db)"
      "val_at ((tuples db)(a \<mapsto> t')) = (val_at (tuples db))(a := take d v)"
    using hm_wf_vals[OF assms(1) t(1) _ t'_def] t(2) k by auto
  moreover have "hm_items (db\<lparr>tuples := (tuples db)(a \<mapsto> t')\<rparr>) = AList.update k (take d v) (hm_items db)"
    using update_map[OF _ hm_wf_inj[OF assms(1)] dL, of a "take d v" "val_at (tuples db)"] hm_wf_live[OF assms(1), of a] assms(3) k wf
    by (simp add: hm_items_wf[OF assms(1)] hm_items_wf[OF wf(1)])
  ultimately show ?thesis by simp
qed

lemma hmap_set_new:
  assumes "hm_wf db L B" "hm_clean db B" "map_key k" "\<And>a. key_at (tuples db) a \<noteq> k" "d \<le> length v"
  shows "\<exists>db' p B'. hmap_set True True db (k @ u) (length k) v d = Some (Some p, db') \<and> hm_wf db' (L @ [p]) B' \<and> hm_clean db' B' \<and>
     hm_items db' = hm_items db @ [(k, take d v)] \<and> bucket_size db' = bucket_size db \<and> tuple_count db' = tuple_count db + 1 \<and>
     B' = B(bucket_of (bucket_size db) k := (if key_at (tuples db) (bucket_of (bucket_size db) k) = [] then [bucket_of (bucket_size db) k]
              else B (bucket_of (bucket_size db) k) @ [p])) \<and>
     (key_at (tuples db) (bucket_of (bucket_size db) k) = [] \<longrightarrow> p = bucket_of (bucket_size db) k) \<and>
     key_at (tuples db') = (key_at (tuples db))(p := k)"
proof -
  have k: "k \<noteq> []" using assms(3) by (simp add: map_key_def)
  have se: "hmap_search db (k @ u) (length k) = Some (HMAP_TUPLE_NOT_FOUND, None)"
  proof -
    obtain p where p: "hmap_search db (k @ u) (length k) = Some (if p = None then HMAP_TUPLE_NOT_FOUND else HMAP_SUCCESS, p)"
        "\<forall>a. p = Some a \<longleftrightarrow> key_at (tuples db) a = k"
      using hmap_search_wf[OF assms(1) k] by blast
    then have "p = None" using assms(4) by (cases p) auto
    then show ?thesis using p(1) by simp
  qed
  obtain db' p B' t where d: "hmap_add True True db (k @ u) (length k) (Arg_chars v d) = Some (int (bucket_of (bucket_size db) k), db')"
      "hm_wf db' (L @ [p]) B'" "hm_clean db' B'" "p \<notin> set L" "contents (tuples db') = contents ((tuples db)(p \<mapsto> t))"
      "t_key t = k" "t_vals t = Val_chars (Some (take d v @ [0])) \<and> t_data_len t = d" "bucket_size db' = bucket_size db"
      "B' = B(bucket_of (bucket_size db) k := (if key_at (tuples db) (bucket_of (bucket_size db) k) = [] then [bucket_of (bucket_size db) k]
              else B (bucket_of (bucket_size db) k) @ [p]))"
      "key_at (tuples db) (bucket_of (bucket_size db) k) = [] \<longrightarrow> p = bucket_of (bucket_size db) k" "tuple_count db' = tuple_count db + 1"
    using hmap_add_wf[OF assms, of u] by blast
  have ka: "key_at (tuples db') = (key_at (tuples db))(p := k)" "val_at (tuples db') = (val_at (tuples db))(p := take d v)"
  proof -
    have "key_at (tuples db') = key_at ((tuples db)(p \<mapsto> t))" "val_at (tuples db') = val_at ((tuples db)(p \<mapsto> t))"
      using d(5) key_at_contents val_at_contents by metis+
    then show "key_at (tuples db') = (key_at (tuples db))(p := k)" "val_at (tuples db') = (val_at (tuples db))(p := take d v)"
      using d(6,7) assms(5) by (auto simp: key_at_def val_at_def fun_eq_iff)
  qed
  obtain p' where "hmap_search db' (k @ u) (length k) = Some (if p' = None then HMAP_TUPLE_NOT_FOUND else HMAP_SUCCESS, p')" "p' = Some p"
    using hmap_search_wf[OF d(2) k] ka(1) by (metis fun_upd_same)
  then have "hmap_set True True db (k @ u) (length k) v d = Some (Some p, db')" using k se d(1) by (simp add: hmap_set_def)
  moreover have "hm_items db' = hm_items db @ [(k, take d v)]"
    unfolding hm_items_wf[OF d(2)] hm_items_wf[OF assms(1)] ka using d(4) by auto
  ultimately show ?thesis using d(2,3,8-11) ka(1) by blast
qed

lemma hmap_set_ok:
  assumes "hm_ok db" "map_key k" "d \<le> length v"
  shows "\<exists>p db'. hmap_set True True db (k @ u) (length k) v d = Some (Some p, db') \<and> hm_ok db' \<and>
     hm_items db' = AList.update k (take d v) (hm_items db) \<and> bucket_size db' = bucket_size db \<and>
     tuple_count db' = tuple_count db + (if k \<in> fst ` set (hm_items db) then 0 else 1)"
proof -
  obtain L B where w: "hm_wf db L B" "hm_clean db B" using assms(1) by (auto simp: hm_ok_def)
  show ?thesis
  proof (cases "\<exists>a. key_at (tuples db) a = k")
    case True
    then obtain a where a: "key_at (tuples db) a = k" by blast
    obtain db' where "hmap_set True True db (k @ u) (length k) v d = Some (Some a, db')" "hm_wf db' L B"
        "hm_items db' = AList.update k (take d v) (hm_items db)" "bucket_size db' = bucket_size db" "key_at (tuples db') = key_at (tuples db)"
        "tuple_count db' = tuple_count db"
      using hmap_set_replace[OF w(1) assms(2) a assms(3)] by blast
    moreover have "k \<in> fst ` set (hm_items db)" using hm_items_key[OF w(1)] a assms(2) by (auto simp: map_key_def)
    moreover from calculation have "hm_clean db' B" using w(2) by (simp add: hm_clean_def)
    ultimately show ?thesis unfolding hm_ok_def by auto
  next
    case False
    then have no: "\<And>a. key_at (tuples db) a \<noteq> k" by blast
    have "k \<notin> fst ` set (hm_items db)" using hm_items_key[OF w(1)] no by blast
    then show ?thesis using hmap_set_new[OF w assms(2) no assms(3), of u] unfolding hm_ok_def by (auto simp: update_new)
  qed
qed

text \<open>What a caller reads: the \<open>data_len\<close> bytes of the block of the tuple that is found.\<close>

definition hm_value :: "hmap_db \<Rightarrow> byte list \<Rightarrow> byte list option option" where
  "hm_value db k =
     do { (r, p) \<leftarrow> hmap_search db k (length k);
          case p of
            None \<Rightarrow> Some None
          | Some a \<Rightarrow> do { t \<leftarrow> tuples db a;
                           case t_vals t of Val_chars (Some p) \<Rightarrow> Some (Some (take (t_data_len t) p)) | _ \<Rightarrow> None } }"

lemma hmap_get_wf:
  assumes "hm_wf db L B" "map_key k"
  shows "hm_value db k = Some (map_of (hm_items db) k)"
    "\<exists>q. hmap_get db k (length k) = Some q \<and> points_to q (map_of (hm_items db) k)"
proof -
  have k: "k \<noteq> []" using assms(2) by (simp add: map_key_def)
  obtain p where p: "hmap_search db k (length k) = Some (if p = None then HMAP_TUPLE_NOT_FOUND else HMAP_SUCCESS, p)"
      "\<forall>a. p = Some a \<longleftrightarrow> key_at (tuples db) a = k"
    using hmap_search_wf[OF assms(1) k, of "[]"] by auto
  have "hm_value db k = Some (map_of (hm_items db) k) \<and>
      (\<exists>q. hmap_get db k (length k) = Some q \<and> points_to q (map_of (hm_items db) k))"
  proof (cases p)
    case None
    then have "k \<notin> fst ` set (hm_items db)" using p(2) hm_items_key[OF assms(1)] by auto
    then have "map_of (hm_items db) k = None" by (simp add: map_of_eq_None_iff)
    then show ?thesis using p(1) None by (simp add: hmap_get_def hm_value_def points_to_def)
  next
    case (Some a)
    then have ka: "key_at (tuples db) a = k" using p(2) by blast
    obtain t where t: "tuples db a = Some t" "t_key t = k" using key_at_load[OF ka k] by blast
    obtain v where v: "t_vals t = Val_chars (Some v)" "block_of (take (t_data_len t) v) v"
      using hm_wf_tuple[OF assms(1) t(1)] t(2) k by (auto simp: sound_tuple_def)
    then have "val_at (tuples db) a = take (t_data_len t) v" using t(1) by (simp add: val_at_def)
    then show ?thesis using p(1) Some t(1) v hm_items_get[OF assms(1) ka k]
      by (simp add: hmap_get_def hm_value_def points_to_def)
  qed
  then show "hm_value db k = Some (map_of (hm_items db) k)"
    "\<exists>q. hmap_get db k (length k) = Some q \<and> points_to q (map_of (hm_items db) k)" by blast+
qed

interpretation hm: key_store hm_ok "\<lambda>db. map_of (hm_items db)" "Collect map_key"
  "\<lambda>db k v. map_option (\<lambda>(p, db). (if p = None then 0 else 1, db)) (hmap_set True True db k (length k) v (length v))"
  hm_value 1 1
proof (unfold_locales, goal_cases)
  case (1 db k)
  then show ?case using hmap_get_wf(1)[of db _ _ k] by (auto simp: hm_ok_def)
next
  case (2 db k v)
  then obtain p db' where "hmap_set True True db k (length k) v (length v) = Some (Some p, db')" "hm_ok db'"
      "hm_items db' = AList.update k v (hm_items db)"
    using hmap_set_ok[of db k "length v" v "[]"] by auto
  then show ?case by (auto simp: update_conv')
qed

lemma hmap_init_wf:
  assumes "0 < n"
  shows "hm_wf (hmap_init n) [] (\<lambda>_. [])" "hm_clean (hmap_init n) (\<lambda>_. [])" "hm_items (hmap_init n) = []"
proof -
  have k: "key_at (contents (tuples (hmap_init n))) a = []" "nx t_hash (tuples (hmap_init n)) a = None" "pv t_hash (tuples (hmap_init n)) a = None" for a
    by (simp_all add: key_at_def hmap_init_def zero_tuple_def nx_def pv_def no_links_def)
  have "hm_shape n n (contents (tuples (hmap_init n))) [] (\<lambda>_. [])"
  proof (rule shapeI)
    show "t_index t < n \<and> a \<in> set [] \<and> sound_tuple n t" if "contents (tuples (hmap_init n)) a = Some t" "t_key t \<noteq> []" for a t
      using k(1)[of a, unfolded key_at_def] that by simp
  qed (use assms k(1) in \<open>auto simp: contents_def hmap_init_def split: if_splits\<close>)
  then show "hm_wf (hmap_init n) [] (\<lambda>_. [])" using k by (simp add: hm_wf_def ring_def) (simp add: hmap_init_def)
  show "hm_clean (hmap_init n) (\<lambda>_. [])" by (simp add: hm_clean_def)
  show "hm_items (hmap_init n) = []" by (simp add: hm_items_def hmap_foreach_def hmap_init_def)
qed

subsection \<open>Deleting\<close>

lemma shape_dead:
  assumes "hm_shape n u C L B" "a < n" "key_at C a \<noteq> []" "C a = Some t" "t_key t' = []" "t_index t' = t_index t" "set L' = set L - {a}"
  shows "hm_shape n u (C(a \<mapsto> t')) L' B"
proof -
  note s = shapeD[OF assms(1)]
  let ?C = "C(a \<mapsto> t')"
  have k: "key_at ?C b = (if b = a then [] else key_at C b)" for b using assms(5) by (simp add: key_at_def)
  have N: "?C b \<noteq> None \<longleftrightarrow> C b \<noteq> None" for b using assms(4) by simp
  show ?thesis
  proof (rule shapeI, unfold N)
    show "key_at ?C j = []" if "j < n" "B j = []" for j using s(6)[OF that] k by simp
    show "n \<le> b \<and> key_at ?C b \<noteq> []" if "j < n" "b \<in> set (List.tl (B j))" for j b
      using s(7)[OF that] assms(2) k[of b] by auto
    show "\<exists>r. ?C b = Some r \<and> t_index r = j" if "j < n" "b \<in> set (B j)" for j b
      using s(8)[OF that] assms(4,6) by (cases "b = a") auto
    show "b \<in> set L' \<longleftrightarrow> key_at ?C b \<noteq> []" for b using s(9)[of b] assms(7) k[of b] by auto
    show "t_index r < n \<and> b \<in> set (B (t_index r)) \<and> sound_tuple n r" if "?C b = Some r" "t_key r \<noteq> []" for b r
      using s(10)[of b r] that assms(5) by (cases "b = a") auto
    show "b = c" if "key_at ?C b = key_at ?C c" "key_at ?C b \<noteq> []" for b c
      using s(11)[of b c] that k[of b] k[of c] by (auto split: if_splits)
  qed (fact s)+
qed

lemma shape_gone:
  assumes "hm_shape n u C L B" "i < n" "B i = xs @ a # ys" "xs \<noteq> []" "distinct (B i)" "C a = Some t" "t_key t \<noteq> []" "set L' = set L - {a}"
  shows "hm_shape n u (C(a := None)) L' (B(i := xs @ ys))"
proof -
  note s = shapeD[OF assms(1)]
  let ?C = "C(a := None)" and ?B = "B(i := xs @ ys)"
  have k: "key_at ?C b = (if b = a then [] else key_at C b)" for b by (simp add: key_at_def)
  have an: "n \<le> a" "t_index t = i" using s(7)[OF assms(2), of a] s(8)[OF assms(2), of a] assms(3,4,6) by (cases xs; auto)+
  have sub: "b \<in> set (B j) \<and> b \<noteq> a" if "j < n" "b \<in> set (?B j)" for j b
    using that s(8)[OF that(1), of a] assms(3,5,6) an(2) by (cases "j = i") auto
  have subt: "b \<in> set (List.tl (B j)) \<and> b \<noteq> a" if "j < n" "b \<in> set (List.tl (?B j))" for j b
  proof (cases "j = i")
    case True
    then have "b \<in> set (List.tl xs @ ys)" using that(2) assms(4) by (cases xs) auto
    then show ?thesis using True assms(3-5) by (cases xs) auto
  next
    case False
    then show ?thesis using sub[OF that(1), of b] that(2) list.set_sel(2)[of "B j" b] by (cases "B j") auto
  qed
  show ?thesis
  proof (rule shapeI)
    show "0 < n" "n \<le> u" by (fact s)+
    show "b < u" if "?C b \<noteq> None" for b using that s(3)[of b] by (auto split: if_splits)
    show "?C j \<noteq> None" if "j < n" for j using s(4)[OF that] an(1) that by auto
    show "hd (?B j) = j" if "j < n" "?B j \<noteq> []" for j using s(5)[OF that(1)] that assms(3,4) by (cases "j = i"; cases xs) auto
    show "key_at ?C j = []" if "j < n" "?B j = []" for j using s(6)[OF that(1)] that assms(4) k by (cases "j = i") auto
    show "n \<le> b \<and> key_at ?C b \<noteq> []" if "j < n" "b \<in> set (List.tl (?B j))" for j b
      using subt[OF that] s(7)[OF that(1), of b] k[of b] by simp
    show "\<exists>r. ?C b = Some r \<and> t_index r = j" if "j < n" "b \<in> set (?B j)" for j b
      using sub[OF that] s(8)[OF that(1), of b] by simp
    show "b \<in> set L' \<longleftrightarrow> key_at ?C b \<noteq> []" for b using s(9)[of b] assms(8) k[of b] by auto
    show "t_index r < n \<and> b \<in> set (?B (t_index r)) \<and> sound_tuple n r" if r: "?C b = Some r" "t_key r \<noteq> []" for b r
    proof -
      have b: "b \<noteq> a" "C b = Some r" using r(1) by (auto split: if_splits)
      then show ?thesis using s(10)[OF b(2) r(2)] assms(3) by auto
    qed
    show "b = c" if "key_at ?C b = key_at ?C c" "key_at ?C b \<noteq> []" for b c
      using s(11)[of b c] that k[of b] k[of c] by (auto split: if_splits)
  qed
qed

lemma contents_drop: "contents (m(a := None)) = (contents m)(a := None)"
  by (auto simp: contents_def)

text \<open>The tuple of the table keeps its place in the ring, any other is taken out and freed.\<close>

lemma hmap_delete_wf:
  assumes "hm_wf db L B" "map_key k" "L = as @ a # bs" "key_at (tuples db) a = k"
  shows "\<exists>db' B'. hmap_delete db (k @ u) (length k) = Some (HMAP_SUCCESS, db') \<and> hm_wf db' (as @ bs) B' \<and>
     (\<forall>b. b \<noteq> a \<longrightarrow> key_at (tuples db') b = key_at (tuples db) b \<and> val_at (tuples db') b = val_at (tuples db) b) \<and>
     bucket_size db' = bucket_size db \<and> (a < bucket_size db \<longrightarrow> B' = B) \<and> key_at (tuples db') a = [] \<and>
     tuple_count db' = tuple_count db - 1"
proof -
  let ?m = "tuples db" and ?n = "bucket_size db"
  have sh: "hm_shape ?n (unused db) (contents ?m) L B" using assms(1) by (simp add: hm_wf_def)
  have k: "k \<noteq> []" using assms(2) by (simp add: map_key_def)
  obtain t where t: "?m a = Some t" "t_key t = k" using key_at_load[OF assms(4) k] by blast
  have ti: "t_index t < ?n" "a \<in> set (B (t_index t))" "sound_tuple ?n t" using hm_wf_tuple[OF assms(1) t(1)] t(2) k by simp_all
  have se: "hmap_search db (k @ u) (length k) = Some (HMAP_SUCCESS, Some a)"
    using hmap_search_wf[OF assms(1) k, of u] assms(4) by (metis option.distinct(1))
  have d: "distinct L" and r: "ring (nx t_list ?m) (pv t_list ?m) (as @ a # bs)" and lt: "list_tuple db = Some (hd (as @ a # bs))"
    using assms(1,3) by (simp_all add: hm_wf_def ring_def)
  have L': "set (as @ bs) = set L - {a}" using d assms(3) by auto
  obtain m1 where m1: "ring_remove t_list t_list_update ?m (Some (hd (as @ a # bs))) a = Some (m1, if as @ bs = [] then None else Some (hd (as @ bs)))"
      "ring (nx t_list m1) (pv t_list m1) (as @ bs)" "relinked t_list_update ?m m1 (set (as @ a # bs))"
    using tl.remove_ring[OF r] by blast
  note rl = relinked_list[OF m1(3)]
  obtain f where f: "m1 a = Some (t_list_update f t)" using m1(3) t(1) unfolding relinked_def by blast
  have C: "contents ?m a = Some (t\<lparr>t_list := no_links, t_hash := no_links\<rparr>)" using t(1) by (simp add: contents_def)
  have kv: "(\<forall>b. b \<noteq> a \<longrightarrow> key_at m' b = key_at ?m b \<and> val_at m' b = val_at ?m b)" if "\<And>b. b \<noteq> a \<Longrightarrow> contents m' b = contents ?m b" for m'
  proof (intro allI impI)
    fix b assume "b \<noteq> a"
    then have "contents m' b = contents ?m b" by (rule that)
    then have "key_at (contents m') b = key_at (contents ?m) b" "val_at (contents m') b = val_at (contents ?m) b"
      by (simp_all only: key_at_def val_at_def)
    then show "key_at m' b = key_at ?m b \<and> val_at m' b = val_at ?m b" by simp
  qed
  show ?thesis
  proof (cases "t_index t = a")
    case True
    then have an: "a < ?n" using ti(1) by simp
    define t' where "t' = (snd (hmap_free_data ((t_list_update f t)\<lparr>t_key := []\<rparr>)))\<lparr>t_data := None, t_data_len := 0\<rparr>"
    have t': "t_list t' = t_list (t_list_update f t)" "t_hash t' = t_hash t" "t_key t' = []" "t_index t' = t_index t"
      using ti(3) by (simp_all add: t'_def sound_tuple_def)
    define db' where "db' = db\<lparr>tuples := m1(a \<mapsto> t'), list_tuple := if as @ bs = [] then None else Some (hd (as @ bs)), tuple_count := tuple_count db - 1\<rparr>"
    have "hmap_delete db (k @ u) (length k) = Some (HMAP_SUCCESS, db')"
      using se m1(1) f True unfolding hmap_delete_def lt by (simp add: t_mod_def db'_def t'_def)
    moreover have n: "nx t_list (m1(a \<mapsto> t')) = nx t_list m1" "pv t_list (m1(a \<mapsto> t')) = pv t_list m1"
        "nx t_hash (m1(a \<mapsto> t')) = nx t_hash ?m" "pv t_hash (m1(a \<mapsto> t')) = pv t_hash ?m"
      using nx_upd_same[of m1 a "t_list_update f t" t_list t'] nx_upd_same[of m1 a "t_list_update f t" t_hash t'] f t'(1,2) rl(2,3) by simp_all
    moreover have "hm_shape ?n (unused db) (contents (m1(a \<mapsto> t'))) (as @ bs) B"
      unfolding contents_upd rl(1)
      by (rule shape_dead[OF sh an _ C]) (use assms(4) k t' L' in simp_all)
    ultimately have "hm_wf db' (as @ bs) B" using m1(2) assms(1) by (simp add: hm_wf_def db'_def)
    moreover have "\<forall>b. b \<noteq> a \<longrightarrow> key_at (m1(a \<mapsto> t')) b = key_at ?m b \<and> val_at (m1(a \<mapsto> t')) b = val_at ?m b"
      by (rule kv) (simp add: contents_upd rl(1))
    moreover have "key_at (m1(a \<mapsto> t')) a = []" using t'(3) by (simp add: key_at_def)
    ultimately show ?thesis using \<open>hmap_delete db (k @ u) (length k) = Some (HMAP_SUCCESS, db')\<close>
      by (intro exI[of _ db'] exI[of _ B]) (simp add: db'_def)
  next
    case False
    define i where "i = t_index t"
    have i: "i < ?n" "a \<in> set (B i)" "i \<noteq> a" using ti False by (simp_all add: i_def)
    have rB: "ring (nx t_hash m1) (pv t_hash m1) (B j)" if "j < ?n" for j using assms(1) that rl(2,3) by (simp add: hm_wf_def)
    obtain xs ys where xy: "B i = xs @ a # ys" using split_list[OF i(2)] by blast
    have hd: "hd (B i) = i" using shapeD(5)[OF sh i(1)] xy by simp
    then have xs: "xs \<noteq> []" using i(3) xy by auto
    have dB: "distinct (B i)" using rB[OF i(1)] by (simp add: ring_def)
    have an: "\<not> a < ?n" using shapeD(7)[OF sh i(1), of a] xy xs by (cases xs) auto
    have r1: "ring (nx t_hash m1) (pv t_hash m1) (xs @ a # ys)" using rB[OF i(1)] xy by simp
    obtain m2 where m2: "ring_remove t_hash t_hash_update m1 (Some (hd (xs @ a # ys))) a = Some (m2, if xs @ ys = [] then None else Some (hd (xs @ ys)))"
        "ring (nx t_hash m2) (pv t_hash m2) (xs @ ys)" "relinked t_hash_update m1 m2 (set (xs @ a # ys))"
      using th.remove_ring[OF r1] by blast
    note rh = relinked_hash[OF m2(3)]
    define db' where "db' = db\<lparr>tuples := m2(a := None), list_tuple := if as @ bs = [] then None else Some (hd (as @ bs)),
        secondary_tuple_count := secondary_tuple_count db - 1, tuple_count := tuple_count db - 1\<rparr>"
    have m2': "ring_remove t_hash t_hash_update m1 (Some i) a = Some (m2, if xs @ ys = [] then None else Some (hd (xs @ ys)))"
      using m2(1) xy hd by simp
    have run: "hmap_delete db (k @ u) (length k) = Some (HMAP_SUCCESS, db')"
      using se m1(1) f False m2' unfolding hmap_delete_def lt by (simp add: db'_def i_def)
    have o: "nx lnk (m2(a := None)) b = nx lnk m2 b" "pv lnk (m2(a := None)) b = pv lnk m2 b" if "b \<noteq> a" for lnk b
      using that by (simp_all add: nx_def pv_def)
    have "ring (nx t_list (m2(a := None))) (pv t_list (m2(a := None))) (as @ bs)"
    proof (rule ring_cong[OF m1(2)])
      fix b assume "b \<in> set (as @ bs)"
      then have "b \<noteq> a" using L' by auto
      then show "nx t_list (m2(a := None)) b = nx t_list m1 b" "pv t_list (m2(a := None)) b = pv t_list m1 b"
        using o[of b t_list] rh(2,3) by simp_all
    qed
    moreover have "hm_shape ?n (unused db) (contents (m2(a := None))) (as @ bs) (B(i := xs @ ys))"
      unfolding contents_drop rh(1) rl(1)
      by (rule shape_gone[OF sh i(1) xy xs dB C]) (use t(2) k L' in simp_all)
    moreover have "ring (nx t_hash (m2(a := None))) (pv t_hash (m2(a := None))) ((B(i := xs @ ys)) j) \<and>
        ((B(i := xs @ ys)) j = [] \<longrightarrow> nx t_hash (m2(a := None)) j = None \<and> pv t_hash (m2(a := None)) j = None)" if j: "j < ?n" for j
    proof (cases "j = i")
      case True
      have "ring (nx t_hash (m2(a := None))) (pv t_hash (m2(a := None))) (xs @ ys)"
      proof (rule ring_cong[OF m2(2)])
        fix b assume "b \<in> set (xs @ ys)"
        then have "b \<noteq> a" using dB xy by auto
        then show "nx t_hash (m2(a := None)) b = nx t_hash m2 b" "pv t_hash (m2(a := None)) b = pv t_hash m2 b" by (rule o)+
      qed
      then show ?thesis using True xs by simp
    next
      case False
      have dis: "b \<notin> set (xs @ a # ys)" if "b \<in> set (B j)" for b
        using shapeD(8)[OF sh j that] shapeD(8)[OF sh i(1), of b] False xy by auto
      have "ring (nx t_hash (m2(a := None))) (pv t_hash (m2(a := None))) (B j)"
      proof (rule ring_cong[OF rB[OF j]])
        fix b assume "b \<in> set (B j)"
        then have "b \<notin> set (xs @ a # ys)" "b \<noteq> a" using dis by auto
        then show "nx t_hash (m2(a := None)) b = nx t_hash m1 b" "pv t_hash (m2(a := None)) b = pv t_hash m1 b"
          using o[of b t_hash] th.nx_outside[OF m2(3), of b] by simp_all
      qed
      moreover have "nx t_hash (m2(a := None)) j = None \<and> pv t_hash (m2(a := None)) j = None" if e: "B j = []"
      proof -
        have "j \<notin> set (xs @ a # ys)" "j \<noteq> a" using shape_root[OF sh j i(1)] False xy by auto
        moreover have "nx t_hash m1 j = None \<and> pv t_hash m1 j = None" using assms(1) j e rl(2,3) by (simp add: hm_wf_def)
        ultimately show ?thesis using o[of j t_hash] th.nx_outside[OF m2(3), of j] by simp
      qed
      ultimately show ?thesis using False by simp
    qed
    ultimately have "hm_wf db' (as @ bs) (B(i := xs @ ys))" by (simp add: hm_wf_def db'_def)
    moreover have "\<forall>b. b \<noteq> a \<longrightarrow> key_at (m2(a := None)) b = key_at ?m b \<and> val_at (m2(a := None)) b = val_at ?m b"
      by (rule kv) (simp add: contents_drop rh(1) rl(1))
    ultimately show ?thesis using run an by (intro exI[of _ db'] exI[of _ "B(i := xs @ ys)"]) (simp add: db'_def key_at_def)
  qed
qed

definition hm_sane :: "hmap_db \<Rightarrow> bool" where
  "hm_sane db \<longleftrightarrow> (\<exists>L B. hm_wf db L B)"

subsection \<open>What the map guarantees\<close>

lemma hm_ok_sane: "hm_ok db \<Longrightarrow> hm_sane db"
  by (auto simp: hm_ok_def hm_sane_def)

lemma hmap_get_sane:
  assumes "hm_sane db" "map_key k" "hm_value db k = Some x"
  shows "\<exists>q. hmap_get db k (length k) = Some q \<and> points_to q x"
proof -
  obtain L B where w: "hm_wf db L B" using assms(1) by (auto simp: hm_sane_def)
  then show ?thesis using hmap_get_wf[OF w assms(2)] assms(3) by auto
qed

text \<open>Nothing behind the \<open>d_len\<close> bytes is read.\<close>

lemma set_data_take: "d \<le> length v \<Longrightarrow> set_data ok (Arg_chars (take d v) d) t = set_data ok (Arg_chars v d) t"
  using set_data_chars[of d v t] set_data_chars[of d "take d v" t] by (cases ok) (simp_all add: set_data.simps(6))

lemma hmap_set_take:
  assumes "d \<le> length v"
  shows "hmap_set tok ok db k n (take d v) d = hmap_set tok ok db k n v d"
proof -
  have "hmap_add tok ok db k n (Arg_chars (take d v) d) = hmap_add tok ok db k n (Arg_chars v d)"
    unfolding hmap_add_def set_data_take[OF assms] arg_type.simps by (rule refl)
  moreover have "byte_copy (replicate d 0) 0 d (take d v) 0 = byte_copy (replicate d 0) 0 d v 0"
    using block_copied[of d v 0] block_copied[of d "take d v" 0] assms by simp
  ultimately show ?thesis by (simp only: hmap_set_def)
qed

text \<open>
  C8. \<open>hmap_set\<close> is the update of a list of pairs: a key that is there gets the \<open>d_len\<close> bytes at
  \<open>data\<close> as its new value in its place, a new key is visited last by \<open>hmap_foreach\<close>, whatever the
  keys hash to, and \<open>tuple_count\<close> grows by one exactly when the key is new.  After it, \<open>hmap_get\<close> returns
  a pointer to those bytes for that key, and for every other key one to its old value, or NULL
  where there is none.  Keys are not empty and fit their array, and allocations succeed.  It keeps the
  invariant, which a map from \<open>hmap_init\<close> has: the rings are intact and no bucket with further tuples
  has lost its first one.
\<close>
theorem hmap_set_exact:
  assumes "hm_ok db \<or> db = hmap_init n \<and> 0 < n" "map_key k" "map_key j" "d_len \<le> length data"
  shows "\<exists>p db' q. hmap_set True True db k (length k) data d_len = Some (Some p, db') \<and> hm_ok db' \<and>
     hm_items db' = AList.update k (take d_len data) (hm_items db) \<and>
     tuple_count db' = tuple_count db + (if k \<in> fst ` set (hm_items db) then 0 else 1) \<and>
     hmap_get db' j (length j) = Some q \<and> points_to q (if j = k then Some (take d_len data) else map_of (hm_items db) j)"
proof -
  have ok: "hm_ok db" using assms(1) hmap_init_wf[of n] by (auto simp: hm_ok_def)
  obtain p db' where s: "hmap_set True True db k (length k) data d_len = Some (Some p, db')" "hm_ok db'"
      "hm_items db' = AList.update k (take d_len data) (hm_items db)"
      "tuple_count db' = tuple_count db + (if k \<in> fst ` set (hm_items db) then 0 else 1)"
    using hmap_set_ok[OF ok assms(2,4), of "[]"] by auto
  have "hmap_set True True db k (length k) (take d_len data) (length (take d_len data)) = Some (Some p, db')"
    using s(1) hmap_set_take[OF assms(4)] assms(4) by simp
  then have "hm_value db' j = Some (if j = k then Some (take d_len data) else map_of (hm_items db) j)"
    using hm.get_after_put[OF ok, of k j "take d_len data" 1 db'] assms(2,3) by simp
  then show ?thesis using s hmap_get_sane[OF hm_ok_sane[OF s(2)] assms(3)] by blast
qed

theorem hmap_set_exact_witness:
  "\<exists>p db' q. hmap_set True True (hmap_init 4) [97] (length [97 :: byte]) [7, 8, 9] 2 = Some (Some p, db') \<and> hm_ok db' \<and>
     hm_items db' = [([97], [7, 8])] \<and> tuple_count db' = 1 \<and>
     hmap_get db' [97] (length [97 :: byte]) = Some q \<and> points_to q (Some [7, 8])"
proof -
  have "tuple_count (hmap_init 4) = 0" by (simp add: hmap_init_def)
  then show ?thesis using hmap_set_exact[of "hmap_init 4" 4 "[97]" "[97]" 2 "[7, 8, 9]"] hmap_init_wf(3)[of 4]
    by (simp add: map_key_def MAX_SIZE_KEY_def)
qed

lemma hmap_delete_missing:
  assumes "hm_wf db L B" "map_key k" "k \<notin> fst ` set (hm_items db)"
  shows "hmap_delete db k (length k) = Some (HMAP_TUPLE_NOT_FOUND, db)"
proof -
  have k: "k \<noteq> []" using assms(2) by (simp add: map_key_def)
  have "\<nexists>a. key_at (tuples db) a = k" using hm_items_key[OF assms(1)] assms(3) k by blast
  then have "hmap_search db k (length k) = Some (HMAP_TUPLE_NOT_FOUND, None)"
    using hmap_search_wf[OF assms(1) k, of "[]"] by (metis append_Nil2 not_Some_eq)
  then show ?thesis by (simp add: hmap_delete_def)
qed

lemma hmap_delete_present:
  assumes "hm_wf db L B" "map_key k" "k \<in> fst ` set (hm_items db)"
  shows "\<exists>db'. hmap_delete db k (length k) = Some (HMAP_SUCCESS, db') \<and> hm_sane db' \<and>
     hm_items db' = filter (\<lambda>(x, v). x \<noteq> k) (hm_items db) \<and> tuple_count db' = tuple_count db - 1"
proof -
  have k: "k \<noteq> []" using assms(2) by (simp add: map_key_def)
  obtain a where a: "key_at (tuples db) a = k" using hm_items_key[OF assms(1)] assms(3) by blast
  obtain as bs where L: "L = as @ a # bs" using hm_wf_live[OF assms(1), of a] a k split_list[of a L] by auto
  obtain db' B' where d: "hmap_delete db (k @ []) (length k) = Some (HMAP_SUCCESS, db')" "hm_wf db' (as @ bs) B'"
      "\<forall>b. b \<noteq> a \<longrightarrow> key_at (tuples db') b = key_at (tuples db) b \<and> val_at (tuples db') b = val_at (tuples db) b"
      "tuple_count db' = tuple_count db - 1"
    using hmap_delete_wf[OF assms(1,2) L a, of "[]"] by blast
  have dis: "distinct L" using assms(1) by (simp add: hm_wf_def ring_def)
  have ne: "key_at (tuples db) b \<noteq> k" if "b \<in> set (as @ bs)" for b
    using hm_wf_inj[OF assms(1)] that a L dis unfolding inj_on_def by auto
  have b: "b \<noteq> a" if "b \<in> set (as @ bs)" for b using that dis L by auto
  have e: "hm_items db = map (\<lambda>a. (key_at (tuples db) a, val_at (tuples db) a)) as @
      (k, val_at (tuples db) a) # map (\<lambda>a. (key_at (tuples db) a, val_at (tuples db) a)) bs"
    using a by (simp add: hm_items_wf[OF assms(1)] L)
  have "hm_items db' = map (\<lambda>a. (key_at (tuples db) a, val_at (tuples db) a)) (as @ bs)"
    unfolding hm_items_wf[OF d(2)] using d(3) b by auto
  also have "\<dots> = filter (\<lambda>(x, v). x \<noteq> k) (hm_items db)"
    unfolding e using ne by (simp add: filter_id_conv filter_map comp_def)
  finally show ?thesis using d(1,2,4) by (auto simp: hm_sane_def)
qed

text \<open>
  C9. On a map whose rings are intact (the invariant \<open>hm_sane\<close>, weaker than that of C8: maps from
  \<open>hmap_init\<close> and those \<open>hmap_set\<close> makes as in C8 have it, \<open>hmap_delete\<close> keeps it, and a map as in C40
  has lost it), \<open>hmap_delete\<close> of a key that is there returns success, removes the pair with
  this key and no other, keeps the order of the rest, takes one off \<open>tuple_count\<close>, and the key is
  no longer found by \<open>hmap_get\<close>; of a key that is not there it returns \<open>HMAP_TUPLE_NOT_FOUND\<close> and the map is
  the same as before.
\<close>
theorem hmap_delete_exact:
  assumes "hm_sane db" "map_key k"
  shows "if k \<in> fst ` set (hm_items db)
     then \<exists>db'. hmap_delete db k (length k) = Some (HMAP_SUCCESS, db') \<and> hm_sane db' \<and>
            hm_items db' = filter (\<lambda>(x, v). x \<noteq> k) (hm_items db) \<and> tuple_count db' = tuple_count db - 1 \<and>
            hmap_get db' k (length k) = Some None
     else hmap_delete db k (length k) = Some (HMAP_TUPLE_NOT_FOUND, db)"
proof (cases "k \<in> fst ` set (hm_items db)")
  case True
  obtain L B where w: "hm_wf db L B" using assms(1) by (auto simp: hm_sane_def)
  obtain db' where d: "hmap_delete db k (length k) = Some (HMAP_SUCCESS, db')" "hm_sane db'"
      "hm_items db' = filter (\<lambda>(x, v). x \<noteq> k) (hm_items db)" "tuple_count db' = tuple_count db - 1"
    using hmap_delete_present[OF w assms(2) True] by blast
  have "map_of (hm_items db') k = None" unfolding d(3) by (auto simp: map_of_eq_None_iff)
  then have "hm_value db' k = Some None" using d(2) hmap_get_wf(1)[OF _ assms(2)] by (auto simp: hm_sane_def)
  then show ?thesis using True d hmap_get_sane[OF d(2) assms(2)] by (auto simp: points_to_def)
next
  case False
  then show ?thesis using assms hmap_delete_missing[of db _ _ k] by (auto simp: hm_sane_def)
qed

theorem hmap_delete_exact_witness:
  "\<exists>p db db'. hmap_set True True (hmap_init 4) [97] (length [97 :: byte]) [7] (length [7 :: byte]) = Some (Some p, db) \<and>
     hmap_delete db [97] (length [97 :: byte]) = Some (HMAP_SUCCESS, db') \<and> hm_items db' = []"
proof -
  have k: "map_key [97]" by (simp add: map_key_def MAX_SIZE_KEY_def)
  have "hm_ok (hmap_init 4)" using hmap_init_wf[of 4] by (auto simp: hm_ok_def)
  then obtain p db where d: "hmap_set True True (hmap_init 4) [97] (length [97 :: byte]) [7] (length [7 :: byte]) = Some (Some p, db)" "hm_ok db"
      "hm_items db = [([97], [7])]"
    using hmap_set_ok[OF _ k, of "hmap_init 4" "length [7 :: byte]" "[7]" "[]"] hmap_init_wf(3)[of 4] by auto
  then show ?thesis using hmap_delete_exact[OF hm_ok_sane[OF d(2)] k] by auto
qed

text \<open>
  \<open>hmap_size\<close>, which \<open>map.h\<close> gives as \<open>MAP_SIZE\<close>, returns one less than the number of
  pairs.
\<close>
theorem hmap_size_one_short:
  assumes "hm_sane db" "hm_items db \<noteq> []"
  shows "hmap_size db = Some (of_nat (length (hm_items db) - 1))"
proof -
  obtain L B where w: "hm_wf db L B" using assms(1) by (auto simp: hm_sane_def)
  have l: "length (hm_items db) = length L" "L \<noteq> []" using assms(2) by (simp_all add: hm_items_wf[OF w])
  have r: "ring (nx t_list (tuples db)) (pv t_list (tuples db)) L" "list_tuple db = Some (hd L)"
    using w l(2) by (simp_all add: hm_wf_def)
  have "size_loop (tuples db) (Some (hd L)) (Some (hd L)) 0 = Some (0 + of_nat (length L - 1))"
    using r(1) l(2) tl_distinct[of L] by (intro size_path) (simp_all add: ring_def)
  then show ?thesis using r(2) l(1) by (simp add: hmap_size_def)
qed

theorem hmap_size_one_short_witness:
  "\<exists>p db. hmap_set True True (hmap_init 4) [97] (length [97 :: byte]) [7] (length [7 :: byte]) = Some (Some p, db) \<and>
     length (hm_items db) = 1 \<and> hmap_size db = Some 0"
proof -
  have k: "map_key [97]" by (simp add: map_key_def MAX_SIZE_KEY_def)
  have "hm_ok (hmap_init 4)" using hmap_init_wf[of 4] by (auto simp: hm_ok_def)
  then obtain p db where d: "hmap_set True True (hmap_init 4) [97] (length [97 :: byte]) [7] (length [7 :: byte]) = Some (Some p, db)" "hm_ok db"
      "hm_items db = [([97], [7])]"
    using hmap_set_ok[OF _ k, of "hmap_init 4" "length [7 :: byte]" "[7]" "[]"] hmap_init_wf(3)[of 4] by auto
  then show ?thesis using hmap_size_one_short[OF hm_ok_sane[OF d(2)]] by simp
qed

context ring_links
begin

text \<open>Appending the first tuple of a longer ring to it cuts the others off.\<close>

lemma append_first:
  assumes "pv lnk m p = Some q" "m q \<noteq> None"
  shows "\<exists>m'. ring_append lnk upd m (Some p) p = Some (m', Some p) \<and> nx lnk m' p = Some p \<and> relinked upd m m' {p, q}"
proof -
  obtain t where t: "m p = Some t" "lk_prev (lnk t) = Some q" using pv_load[OF assms(1)] by blast
  obtain m1 where m1: "t_mod m p (upd (\<lambda>l. l\<lparr>lk_prev := Some q\<rparr>)) = Some m1" "relinked upd m m1 {p}"
      "pv lnk m1 = (pv lnk m)(p := Some q)" "nx lnk m1 = nx lnk m"
    using mod_prev[of m p "Some q"] t by blast
  have "m1 p \<noteq> None" using relinked_some[OF m1(2), of p] t by simp
  then obtain m2 where m2: "t_mod m1 p (upd (\<lambda>l. l\<lparr>lk_next := Some p\<rparr>)) = Some m2" "relinked upd m1 m2 {p}"
      "nx lnk m2 = (nx lnk m1)(p := Some p)" "pv lnk m2 = pv lnk m1"
    using mod_next[of m1 p "Some p"] by blast
  have "pv lnk m2 p = Some q" using m1(3) m2(4) by simp
  then obtain t2 where t2: "m2 p = Some t2" "lk_prev (lnk t2) = Some q" using pv_load by blast
  have "m2 q \<noteq> None" using relinked_some[OF m2(2)] relinked_some[OF m1(2)] assms(2) by blast
  then obtain m3 where m3: "t_mod m2 q (upd (\<lambda>l. l\<lparr>lk_next := Some p\<rparr>)) = Some m3" "relinked upd m2 m3 {q}"
      "nx lnk m3 = (nx lnk m2)(q := Some p)" "pv lnk m3 = pv lnk m2"
    using mod_next[of m2 q "Some p"] by blast
  have "m3 p \<noteq> None" using relinked_some[OF m3(2)] t2(1) by simp
  then obtain m4 where m4: "t_mod m3 p (upd (\<lambda>l. l\<lparr>lk_prev := Some p\<rparr>)) = Some m4" "relinked upd m3 m4 {p}"
      "pv lnk m4 = (pv lnk m3)(p := Some p)" "nx lnk m4 = nx lnk m3"
    using mod_prev[of m3 p "Some p"] by blast
  have "relinked upd m m2 {p, q}" by (rule relinked_trans[OF m1(2) m2(2)]) simp
  then have "relinked upd m m3 {p, q}" by (rule relinked_trans[OF _ m3(2)]) simp
  then have "relinked upd m m4 {p, q}" by (rule relinked_trans[OF _ m4(2)]) simp
  moreover have "ring_append lnk upd m (Some p) p = Some (m4, Some p)"
    using t m1(1) m2(1) t2 m3(1) m4(1) by (simp add: ring_append_def)
  moreover have "nx lnk m4 p = Some p" using m4(4) m3(3) m2(3) by simp
  ultimately show ?thesis by blast
qed

end

text \<open>A search that starts at a tuple linked to itself sees no other.\<close>

lemma search_loop_self:
  assumes "m i = Some t" "lk_next (t_hash t) = Some i"
  shows "search_loop m (k @ u) (length k) i i = Some (if t_key t = k then Some i else None)"
proof -
  obtain d where d: "hmap_cmp (t_key t) (length (t_key t)) (k @ u) (length k) = Some d" "d = 0 \<longleftrightarrow> t_key t = k"
    using hmap_cmp_iff[OF refl] by blast
  have "search_from m (k @ u) (length k) i i = Some (if t_key t = k then Some i else None)"
    using assms d by (subst search_from.simps) simp
  then show ?thesis using assms by (subst search_loop.simps) simp
qed

lemma hmap_set_reused:
  assumes "hm_wf db L B" "i < bucket_size db" "key_at (tuples db) i = []" "B i = i # q # qs"
    and "map_key k" "bucket_of (bucket_size db) k = i" "\<And>a. key_at (tuples db) a \<noteq> k" "d \<le> length v"
  shows "\<exists>db'. hmap_set True True db k (length k) v d = Some (Some i, db') \<and> hm_items db' = hm_items db @ [(k, take d v)] \<and>
     (\<forall>j. map_key j \<longrightarrow> j \<noteq> k \<longrightarrow> bucket_of (bucket_size db) j = i \<longrightarrow> hmap_get db' j (length j) = Some None)"
proof -
  let ?m = "tuples db" and ?n = "bucket_size db"
  have sh: "hm_shape ?n (unused db) (contents ?m) L B" using assms(1) by (simp add: hm_wf_def)
  have k: "k \<noteq> []" "length k < MAX_SIZE_KEY" using assms(5) by (simp_all add: map_key_def)
  have n0: "0 < ?n" using assms(2) by simp
  have idx: "hmap_index db j (length j) = Some (bucket_of ?n j)" for j using hmap_index_is[OF n0, of j "[]"] by simp
  have se: "hmap_search db k (length k) = Some (HMAP_TUPLE_NOT_FOUND, None)"
    using hmap_search_wf[OF assms(1) k(1), of "[]"] assms(7) by (metis append_Nil2 not_Some_eq)
  obtain r where r: "?m i = Some r" using shapeD(4)[OF sh assms(2)] by (auto simp: contents_def)
  have rk: "t_key r = []" using assms(3) r by (simp add: key_at_def)
  define t where "t = r\<lparr>t_vals := Val_chars (Some (take d v @ [0])), t_data_len := d, t_key := k, t_index := i, t_secondary := False, t_data_type := T_CHARS\<rparr>"
  have t: "t_list t = t_list r" "t_hash t = t_hash r" "t_key t = k" "t_vals t = Val_chars (Some (take d v @ [0])) \<and> t_data_len t = d" by (simp_all add: t_def)
  define m1 where "m1 = ?m(i \<mapsto> t)"
  have n1: "nx t_list m1 = nx t_list ?m" "pv t_list m1 = pv t_list ?m" "nx t_hash m1 = nx t_hash ?m" "pv t_hash m1 = pv t_hash ?m"
    unfolding m1_def using t(1,2) by (auto intro!: nx_upd_same[of ?m i r] r)
  have rB: "ring (nx t_hash ?m) (pv t_hash ?m) (B i)" using assms(1,2) by (simp add: hm_wf_def)
  have pl: "pv t_hash m1 i = Some (last (B i))" "m1 (last (B i)) \<noteq> None"
  proof -
    show "pv t_hash m1 i = Some (last (B i))" using ring_path[OF rB] assms(4) n1(4) by simp
    have "last (B i) \<in> set (B i)" using assms(4) by simp
    then show "m1 (last (B i)) \<noteq> None" using shapeD(8)[OF sh assms(2)] by (auto simp: contents_def m1_def)
  qed
  have nl: "t_hash t \<noteq> no_links" using pl(1) by (auto simp: pv_def m1_def no_links_def)
  obtain m2 where m2: "ring_append t_hash t_hash_update m1 (Some i) i = Some (m2, Some i)" "nx t_hash m2 i = Some i"
      "relinked t_hash_update m1 m2 {i, last (B i)}"
    using th.append_first[OF pl(1)] pl(2) by blast
  have iL: "i \<notin> set L" using hm_wf_live[OF assms(1)] assms(3) by simp
  have r2: "ring (nx t_list m2) (pv t_list m2) L" using assms(1) n1 relinked_hash[OF m2(3)] by (simp add: hm_wf_def)
  have lt: "list_tuple db = (if L = [] then None else Some (hd L))" using assms(1) by (simp add: hm_wf_def)
  have "m2 i \<noteq> None" using th.relinked_some[OF m2(3), of i] by (simp add: m1_def)
  then obtain m3 where m3: "ring_append t_list t_list_update m2 (list_tuple db) i = Some (m3, Some (hd (L @ [i])))"
      "ring (nx t_list m3) (pv t_list m3) (L @ [i])" "relinked t_list_update m2 m3 (insert i (set L))"
    using tl.append_list[OF r2 iL] unfolding lt by blast
  define db' where "db' = db\<lparr>tuples := m3, list_tuple := Some (hd (L @ [i])), tuple_count := tuple_count db + 1\<rparr>"
  have add: "hmap_add True True db k (length k) (Arg_chars v d) = Some (int i, db')"
    using idx[of k] assms(6) k se r rk m2(1) m3(1) nl
    by (simp add: hmap_add_def set_data_chars[OF assms(8)] link_primary_def put_key_def t_def[symmetric] m1_def[symmetric] db'_def HMAP_TUPLE_NOT_FOUND_def HMAP_SUCCESS_def)
      (simp add: m1_def t_def)
  have "nx t_hash m3 i = Some i" using m2(2) relinked_list(2)[OF m3(3)] by simp
  then obtain s where s: "m3 i = Some s" "lk_next (t_hash s) = Some i" using th.nx_load by blast
  have C: "contents m3 = contents m1" using relinked_list(1)[OF m3(3)] relinked_hash(1)[OF m2(3)] by simp
  have ka: "key_at m3 = (key_at ?m)(i := k)" "val_at m3 = (val_at ?m)(i := take d v)"
  proof -
    have "key_at m3 = key_at m1" "val_at m3 = val_at m1" using C key_at_contents val_at_contents by metis+
    then show "key_at m3 = (key_at ?m)(i := k)" "val_at m3 = (val_at ?m)(i := take d v)"
      using t(3,4) assms(8) by (auto simp: m1_def key_at_def val_at_def fun_eq_iff)
  qed
  have sk: "t_key s = k" using ka(1) s(1) by (metis fun_upd_same key_at_def option.simps(5))
  have fin: "hmap_search db' j (length j) = Some (if j = k then (HMAP_SUCCESS, Some i) else (HMAP_TUPLE_NOT_FOUND, None))"
    if "j \<noteq> []" "bucket_of ?n j = i" for j
  proof -
    have "hmap_index db' j (length j) = Some i" using hmap_index_is[of db' j "[]"] n0 that(2) by (simp add: db'_def)
    then show ?thesis using that(1) search_loop_self[of m3 i s j "[]"] s sk by (auto simp: hmap_search_def db'_def)
  qed
  have "hmap_foreach db' = Some (L @ [i])" using foreach_ring[of db' "L @ [i]"] m3(2) by (simp add: db'_def)
  then have "hm_items db' = hm_items db @ [(k, take d v)]"
    unfolding hm_items_wf[OF assms(1)] using iL ka by (auto simp: hm_items_def db'_def)
  moreover have "hmap_set True True db k (length k) v d = Some (Some i, db')"
    using k se add fin[OF k(1) assms(6)] by (simp add: hmap_set_def)
  moreover have "hmap_get db' j (length j) = Some None" if "map_key j" "j \<noteq> k" "bucket_of ?n j = i" for j
    using fin[of j] that by (simp add: hmap_get_def map_key_def)
  ultimately show ?thesis by blast
qed

text \<open>
  C40. A map loses pairs when a key is deleted and its place in the table is used again: of two keys
  in one bucket the first is deleted, and a third one of that bucket is added; the second is then no
  longer found, although \<open>hmap_foreach\<close> still visits it.
\<close>
theorem hmap_reuse_loses_pairs:
  assumes "0 < n" "map_key i" "map_key j" "map_key k" "distinct [i, j, k]"
    and "bucket_of n i = bucket_of n k" "bucket_of n j = bucket_of n k"
  shows "\<exists>p1 p2 p3 q db1 db2 db3 db4.
     hmap_set True True (hmap_init n) i (length i) u (length u) = Some (Some p1, db1) \<and>
     hmap_set True True db1 j (length j) v (length v) = Some (Some p2, db2) \<and>
     hmap_delete db2 i (length i) = Some (HMAP_SUCCESS, db3) \<and> hmap_get db3 j (length j) = Some q \<and> points_to q (Some v) \<and>
     hmap_set True True db3 k (length k) w (length w) = Some (Some p3, db4) \<and>
     hmap_get db4 j (length j) = Some None \<and> hm_items db4 = [(j, v), (k, w)]"
proof -
  let ?b = "bucket_of n k"
  have b: "?b < n" by (rule bucket_of_less[OF assms(1)])
  have ne: "i \<noteq> []" "j \<noteq> []" "k \<noteq> []" "i \<noteq> j" "k \<noteq> i" "k \<noteq> j" using assms(2-5) by (auto simp: map_key_def)
  note w0 = hmap_init_wf[OF assms(1)]
  have k0: "key_at (tuples (hmap_init n)) a = []" for a by (simp add: key_at_def hmap_init_def zero_tuple_def)
  have n0: "bucket_size (hmap_init n) = n" by (simp add: hmap_init_def)
  have no0: "key_at (tuples (hmap_init n)) a \<noteq> i" for a using k0[of a] ne(1) by simp
  obtain db1 p1 B1 where e1: "hmap_set True True (hmap_init n) (i @ []) (length i) u (length u) = Some (Some p1, db1)"
      "hm_wf db1 ([] @ [p1]) B1" "hm_clean db1 B1" "hm_items db1 = hm_items (hmap_init n) @ [(i, u)]" "bucket_size db1 = bucket_size (hmap_init n)"
      "B1 = (\<lambda>_. [])(bucket_of n i := (if key_at (tuples (hmap_init n)) (bucket_of n i) = [] then [bucket_of n i] else [] @ [p1]))"
      "key_at (tuples (hmap_init n)) (bucket_of n i) = [] \<longrightarrow> p1 = bucket_of n i"
      "key_at (tuples db1) = (key_at (tuples (hmap_init n)))(p1 := i)"
    using hmap_set_new[OF w0(1,2) assms(2) no0 le_refl, of "[]" u] unfolding n0 take_all[OF le_refl] by blast
  have p1: "p1 = ?b" using e1(7) k0 assms(6) by simp
  have d1: "hmap_set True True (hmap_init n) i (length i) u (length u) = Some (Some ?b, db1)"
      "hm_wf db1 [?b] ((\<lambda>_. [])(?b := [?b]))" "hm_clean db1 ((\<lambda>_. [])(?b := [?b]))"
      "hm_items db1 = [(i, u)]" "bucket_size db1 = n" "key_at (tuples db1) = (key_at (tuples (hmap_init n)))(?b := i)"
    using e1(1-5,8) e1(6) k0 p1 w0(3) n0 assms(6) by simp_all
  have k1: "key_at (tuples db1) a = (if a = ?b then i else [])" for a using d1(6) k0[of a] by simp
  have no1: "key_at (tuples db1) a \<noteq> j" for a using k1[of a] ne by simp
  obtain db2 p B2 where e2: "hmap_set True True db1 (j @ []) (length j) v (length v) = Some (Some p, db2)"
      "hm_wf db2 ([?b] @ [p]) B2" "hm_items db2 = hm_items db1 @ [(j, v)]" "bucket_size db2 = bucket_size db1"
      "B2 = ((\<lambda>_. [])(?b := [?b]))(bucket_of (bucket_size db1) j := (if key_at (tuples db1) (bucket_of (bucket_size db1) j) = []
          then [bucket_of (bucket_size db1) j] else ((\<lambda>_. [])(?b := [?b])) (bucket_of (bucket_size db1) j) @ [p]))"
      "key_at (tuples db2) = (key_at (tuples db1))(p := j)"
    using hmap_set_new[OF d1(2,3) assms(3) no1 le_refl, of "[]" v] unfolding take_all[OF le_refl] by blast
  have B2: "B2 = (\<lambda>_. [])(?b := [?b, p])" using e2(5) d1(5) assms(7) k1 ne(1) by simp
  have d2: "hmap_set True True db1 j (length j) v (length v) = Some (Some p, db2)"
      "hm_wf db2 ([] @ ?b # [p]) ((\<lambda>_. [])(?b := [?b, p]))"
      "hm_items db2 = [(i, u), (j, v)]" "bucket_size db2 = n" "key_at (tuples db2) = (key_at (tuples db1))(p := j)"
    using e2(1-4,6) B2 d1(4,5) by simp_all
  have pb: "p \<noteq> ?b" using d2(2) by (auto simp: hm_wf_def ring_def)
  have ki: "key_at (tuples db2) ?b = i" using d2(5) pb k1 by simp
  obtain db3 where d3: "hmap_delete db2 i (length i) = Some (HMAP_SUCCESS, db3)" "hm_wf db3 [p] ((\<lambda>_. [])(?b := [?b, p]))"
      "\<forall>a. a \<noteq> ?b \<longrightarrow> key_at (tuples db3) a = key_at (tuples db2) a \<and> val_at (tuples db3) a = val_at (tuples db2) a"
      "bucket_size db3 = n" "key_at (tuples db3) ?b = []"
    using hmap_delete_wf[OF d2(2) assms(2) refl ki, of "[]"] d2(4) b by auto
  have i3: "hm_items db3 = [(j, v)]"
  proof -
    have "val_at (tuples db2) p = v" using d2(3) by (simp add: hm_items_wf[OF d2(2)])
    then show ?thesis using d3(3) pb d2(5) by (simp add: hm_items_wf[OF d3(2)])
  qed
  have no3: "\<And>a. key_at (tuples db3) a \<noteq> k" using d3(3,5) d2(5) k1 ne by (metis fun_upd_apply)
  obtain db4 where "hmap_set True True db3 k (length k) w (length w) = Some (Some ?b, db4)" "hm_items db4 = hm_items db3 @ [(k, w)]"
      "hmap_get db4 j (length j) = Some None"
    using hmap_set_reused[OF d3(2), of ?b p "[]" k "length w" w] b d3(4,5) assms(3,4,7) ne(6) no3 by auto
  moreover obtain q where "hmap_get db3 j (length j) = Some q" "points_to q (Some v)"
    using hmap_get_wf(2)[OF d3(2) assms(3)] i3 by auto
  ultimately show ?thesis using d1(1) d2(1) d3(1) i3 by auto
qed

theorem hmap_reuse_loses_pairs_witness:
  "\<exists>p1 p2 p3 q db1 db2 db3 db4.
     hmap_set True True (hmap_init 1) [97] (length [97 :: byte]) [1, 1] (length [1, 1 :: byte]) = Some (Some p1, db1) \<and>
     hmap_set True True db1 [98] (length [98 :: byte]) [2] (length [2 :: byte]) = Some (Some p2, db2) \<and>
     hmap_delete db2 [97] (length [97 :: byte]) = Some (HMAP_SUCCESS, db3) \<and> hmap_get db3 [98] (length [98 :: byte]) = Some q \<and> points_to q (Some [2]) \<and>
     hmap_set True True db3 [99] (length [99 :: byte]) [3, 3] (length [3, 3 :: byte]) = Some (Some p3, db4) \<and>
     hmap_get db4 [98] (length [98 :: byte]) = Some None \<and> hm_items db4 = [([98], [2]), ([99], [3, 3])]"
proof -
  have b: "bucket_of 1 x = 0" for x using bucket_of_less[of 1 x] by simp
  show ?thesis by (rule hmap_reuse_loses_pairs) (simp_all add: map_key_def MAX_SIZE_KEY_def b[unfolded One_nat_def])
qed

end
