(* ===== verification/Json.thy ===== *)
theory Json
  imports Charbuf Hmap Utf8
begin

text \<open>
  The JSON values, parser and printer of \<open>src/lib/json\<close> and the printers of \<open>src/jsonpp.c\<close>.  The
  parser reads from a character buffer of \<open>Charbuf\<close>.  A dynamic string is the text it holds, a list
  of items the list of its values and a map the pairs in the order in which a loop visits them:
  \<open>Stralloc\<close> and \<open>Hmap\<close> show that the operations on them are those on texts and lists of
  pairs, with memory granted.  Floating-point numbers are a type of their own, with the routines that
  scan and print them as arguments.  The output of the printer is the text put into the buffer.

  \<open>json_parse\<close> and the parsers of arrays and objects call each other: here those two take the
  parser of their values as an argument, and \<open>json_parse\<close> counts how deep values may nest, one level
  for each nested call.  \<open>None\<close> is undefined behaviour, a failed assertion, a loop without end, or a
  value that is nested deeper.
\<close>

subsection \<open>Values\<close>

text \<open>\<open>JSON_UNSET\<close> is a value whose type was set to a number, but whose number was never stored.\<close>

datatype 'd jsonval = JSON_UNDEFINED | JSON_NULL | JSON_BOOL bool | JSON_INT uint64 | JSON_DOUBLE 'd | JSON_STRING "byte list"
  | JSON_ARRAY "'d jsonval list" | JSON_OBJECT "(byte list \<times> 'd jsonval) list option" | JSON_UNSET

definition json_object :: "'d jsonval" where
  "json_object = JSON_OBJECT (Some [])"

definition json_null :: "'d jsonval" where
  "json_null = JSON_OBJECT None"

definition json_isnull :: "'d jsonval \<Rightarrow> bool" where
  "json_isnull v \<longleftrightarrow> v = JSON_NULL"

definition json_append :: "'d jsonval list \<Rightarrow> 'd jsonval \<Rightarrow> 'd jsonval list" where
  "json_append items value = items @ [value]"

definition json_array_push :: "'d jsonval \<Rightarrow> 'd jsonval \<Rightarrow> bool \<times> 'd jsonval" where
  "json_array_push val v = (case val of JSON_ARRAY items \<Rightarrow> (True, JSON_ARRAY (json_append items v)) | _ \<Rightarrow> (False, val))"

definition json_array_items :: "'d jsonval \<Rightarrow> 'd jsonval list" where
  "json_array_items val = (case val of JSON_ARRAY items \<Rightarrow> items | _ \<Rightarrow> [])"

text \<open>\<open>json_array_at\<close> looks behind the first item of an empty list.\<close>

fun array_at_loop :: "'d jsonval list \<Rightarrow> nat \<Rightarrow> 'd jsonval option option" where
  "array_at_loop items 0 = Some (case items of [] \<Rightarrow> None | v # _ \<Rightarrow> Some v)"
| "array_at_loop [] (Suc n) = None"
| "array_at_loop [v] (Suc n) = Some None"
| "array_at_loop (v # w # items) (Suc n) = array_at_loop (w # items) n"

definition json_array_at :: "'d jsonval \<Rightarrow> int \<Rightarrow> 'd jsonval option option" where
  "json_array_at val pos = array_at_loop (json_array_items val) (nat pos)"

text \<open>\<open>MAP_SIZE\<close> is \<open>hmap_size\<close>, one less than the number of pairs.\<close>

definition json_length :: "'d jsonval \<Rightarrow> nat option" where
  "json_length v =
     (case v of
        JSON_STRING s \<Rightarrow> Some (length s)
      | JSON_ARRAY items \<Rightarrow> Some (length items)
      | JSON_OBJECT kvs \<Rightarrow> Some (case kvs of None \<Rightarrow> 0 | Some kvs \<Rightarrow> length kvs - 1)
      | _ \<Rightarrow> Some 0)"

fun property_int_loop :: "'d jsonval list \<Rightarrow> int \<Rightarrow> 'd jsonval" where
  "property_int_loop [] i = JSON_UNDEFINED"
| "property_int_loop (v # items) i = (if i = 0 then v else property_int_loop items (i - 1))"

definition json_property_get_int :: "'d jsonval \<Rightarrow> int \<Rightarrow> 'd jsonval" where
  "json_property_get_int obj i = (case obj of JSON_ARRAY items \<Rightarrow> property_int_loop items i | _ \<Rightarrow> JSON_UNDEFINED)"

text \<open>The lookup of \<open>MAP_GET\<close>: the empty key is never there; a null map is not looked into.\<close>

definition map_get :: "(byte list \<times> 'v) list option \<Rightarrow> byte list \<Rightarrow> 'v option option" where
  "map_get kvs k = (case kvs of None \<Rightarrow> None | Some kvs \<Rightarrow> Some (if k = [] then None else map_of kvs k))"

text \<open>\<open>MAP_INSERT\<close>: the empty key is not inserted, one that does not fit the array overruns it.\<close>

definition map_insert :: "(byte list \<times> 'v) list \<Rightarrow> byte list \<Rightarrow> 'v \<Rightarrow> (byte list \<times> 'v) list option" where
  "map_insert kvs k v =
     (if k = [] then Some kvs else if length k < MAX_SIZE_KEY then Some (AList.update k v kvs) else None)"

text \<open>
  Over a hash map with its invariant these are the calls that the macros stand for.  A map holds the
  bytes of its values; \<open>enc\<close> gives the bytes of a value.
\<close>

lemma update_enc:
  "map (map_prod id enc) (AList.update k v kvs) = AList.update k (enc v) (map (map_prod id enc) kvs)"
  by (induction kvs) auto

lemma map_of_enc: "map_of (map (map_prod id enc) kvs) k = map_option enc (map_of kvs k)"
  by (induction kvs) auto

lemma pairs_are_map:
  assumes "hm_ok db" "map_key k" "map (map_prod id enc) kvs = hm_items db"
  shows "\<exists>q db' kvs'. hmap_set True True db k (length k) (enc v) (length (enc v)) = Some (Some q, db') \<and> hm_ok db' \<and>
       map_insert kvs k v = Some kvs' \<and> map (map_prod id enc) kvs' = hm_items db'"
    "\<exists>q x. hmap_get db k (length k) = Some q \<and> map_get (Some kvs) k = Some x \<and> points_to q (map_option enc x)"
proof -
  show "\<exists>q db' kvs'. hmap_set True True db k (length k) (enc v) (length (enc v)) = Some (Some q, db') \<and> hm_ok db' \<and>
       map_insert kvs k v = Some kvs' \<and> map (map_prod id enc) kvs' = hm_items db'"
    using hmap_set_ok[OF assms(1,2), of "length (enc v)" "enc v" "[]"] assms(2)
    by (auto simp: map_insert_def map_key_def update_enc assms(3)[symmetric])
  obtain L B where "hm_wf db L B" using assms(1) by (auto simp: hm_ok_def)
  then show "\<exists>q x. hmap_get db k (length k) = Some q \<and> map_get (Some kvs) k = Some x \<and> points_to q (map_option enc x)"
    using hmap_get_wf(2)[of db L B k] assms(2) by (auto simp: map_get_def map_key_def map_of_enc assms(3)[symmetric])
qed

definition json_property_get_str :: "'d jsonval \<Rightarrow> byte list \<Rightarrow> 'd jsonval option" where
  "json_property_get_str obj key =
     (case obj of
        JSON_OBJECT kvs \<Rightarrow> do { n \<leftarrow> str_len key;
                             r \<leftarrow> map_get kvs (take n key);
                             Some (case r of None \<Rightarrow> JSON_UNDEFINED | Some v \<Rightarrow> v) }
      | _ \<Rightarrow> Some JSON_UNDEFINED)"

subsection \<open>Scalars\<close>

definition isdigit :: "byte \<Rightarrow> bool" where
  "isdigit c \<longleftrightarrow> 48 \<le> c \<and> c \<le> 57"

definition isalnum :: "byte \<Rightarrow> bool" where
  "isalnum c \<longleftrightarrow> isdigit c \<or> isalpha c"

definition predicate_string :: "byte list \<Rightarrow> chpred" where
  "predicate_string str c pos \<longleftrightarrow> unat pos < length str \<and> str ! unat pos = c"

definition identifier_char :: "byte \<Rightarrow> bool" where
  "identifier_char c \<longleftrightarrow> isalnum c \<or> c = 0x24 \<or> c = 0x5f"

definition predicate_identifier :: "byte list \<Rightarrow> chpred" where
  "predicate_identifier str c pos =
     (if unat pos < length str then predicate_string str c pos
      else unat pos = length str \<and> \<not> identifier_char c)"

text \<open>The value is changed in place: the parsers take the old one and return the new one.\<close>

type_synonym 'd parsed = "(int \<times> 'd jsonval) ch_result"

definition json_parse_null :: "'d jsonval \<Rightarrow> charbuf \<Rightarrow> 'd parsed" where
  "json_parse_null j b =
     do { (n, b) \<leftarrow> charbuf_pred_lookahead b (predicate_identifier [0x6e, 0x75, 0x6c, 0x6c]);
          if n \<ge> 4 then do { (_, b) \<leftarrow> charbuf_skipn b 4; Some ((1, JSON_NULL), b) } else Some ((0, j), b) }"

fun skip_chars :: "byte list \<Rightarrow> charbuf \<Rightarrow> bool ch_result" where
  "skip_chars [] b = Some (True, b)"
| "skip_chars (c # cs) b =
     do { (r, b) \<leftarrow> charbuf_skip_ifeq b c; if r = 0 then Some (False, b) else skip_chars cs b }"

text \<open>\<open>junk\<close> is the uninitialised variable of \<open>charbuf_skip_ifset\<close>.\<close>

definition json_parse_boolean :: "byte \<Rightarrow> 'd jsonval \<Rightarrow> charbuf \<Rightarrow> 'd parsed" where
  "json_parse_boolean junk val b =
     do { (ret, b) \<leftarrow> charbuf_skip_ifset junk b [0x74, 0x66] 2;
          if ret > 0 then
            do { (c, b) \<leftarrow> charbuf_peek b;
                 let v = (c = 0x72);
                 (ok, b) \<leftarrow> skip_chars (if v then [0x72, 0x75, 0x65] else [0x61, 0x6c, 0x73, 0x65]) b;
                 if ok then Some ((1, JSON_BOOL v), b) else Some ((0, val), b) }
          else Some ((ret, val), b) }"

partial_function (option) number_loop :: "bool \<Rightarrow> byte list \<Rightarrow> byte \<Rightarrow> charbuf \<Rightarrow> (int + bool \<times> byte list) ch_result" where
  "number_loop dbl num c b =
     do { ((ret, d), b) \<leftarrow> charbuf_nextc b;
          if ret \<le> 0 then Some (Inl ret, b)
          else if \<not> isdigit d \<and> d \<noteq> 0x2e \<and> d \<noteq> 0x45 \<and> d \<noteq> 0x65 \<and> \<not> (dbl \<and> d = 0x2d) then Some (Inr (dbl, num @ [c]), b)
          else number_loop (dbl \<or> d = 0x2e \<or> d = 0x45 \<or> d = 0x65) (num @ [c]) d b }"

text \<open>\<open>sd\<close> is \<open>scan_double\<close>: the length and the number.\<close>

definition json_parse_number :: "(byte list \<Rightarrow> nat \<times> 'd) \<Rightarrow> 'd jsonval \<Rightarrow> charbuf \<Rightarrow> 'd parsed" where
  "json_parse_number sd val b =
     do { (ret, b) \<leftarrow> charbuf_peek b;
          if ret \<le> 0 then Some ((ret, val), b)
          else let c = of_int ret
               in if isdigit c \<or> c = 0x2d \<or> c = 0x2e \<or> c = 0x2b then
                    do { (r, b) \<leftarrow> number_loop False [] c b;
                         case r of
                           Inl ret \<Rightarrow> Some ((ret, JSON_UNSET), b)
                         | Inr (dbl, num) \<Rightarrow>
                             if dbl then
                               let (n, d) = sd (num @ [0])
                               in Some (if n > 0 then (1, JSON_DOUBLE d) else (0, JSON_UNSET), b)
                             else do { (n, l) \<leftarrow> scan_longlong (num @ [0]);
                                       Some (case l of None \<Rightarrow> (if n > 0 then 1 else 0, JSON_UNSET)
                                                     | Some i \<Rightarrow> (if n > 0 then 1 else 0, JSON_INT i), b) } }
                  else Some ((0, val), b) }"

subsection \<open>Strings\<close>

partial_function (option) string_loop :: "bool \<Rightarrow> byte list \<Rightarrow> charbuf \<Rightarrow> (int \<times> byte list) ch_result" where
  "string_loop quoted sa b =
     do { ((ret, ch), b) \<leftarrow> charbuf_peekc b;
          if ret \<le> 0 then Some ((ret, sa), b)
          else if ch = 0x5c then
            do { ((ret, ch), b) \<leftarrow> charbuf_nextc b;
                 if ret \<le> 0 then Some ((ret, sa), b)
                 else do { (_, b) \<leftarrow> charbuf_skip b; string_loop quoted (sa @ [ch]) b } }
          else if quoted \<and> ch = 0x22 then do { (_, b) \<leftarrow> charbuf_skip b; Some ((1, sa), b) }
          else if \<not> quoted \<and> ch = 0x3a then Some ((if sa = [] then 0 else 1, sa), b)
          else do { (_, b) \<leftarrow> charbuf_skip b; string_loop quoted (sa @ [ch]) b } }"

text \<open>
  Each character of more than one byte becomes \<open>\\u\<close> and its number in hexadecimal; a byte that is no
  character leaves the variable \<open>n\<close> that is read next without a value.
\<close>

definition xlong0 :: "uint64 \<Rightarrow> nat \<Rightarrow> byte list" where
  "xlong0 n pad = (let x = snd (fmt_xlong True n) in replicate (pad - length x) 0x30 @ x)"

function utf8_loop :: "byte list \<Rightarrow> byte list \<Rightarrow> byte list option" where
  "utf8_loop s out =
     (if s = [] then Some out
      else do { (r, n) \<leftarrow> scan_utf8 s (length s);
                case n of
                  None \<Rightarrow> None
                | Some n \<Rightarrow>
                    if r > 1 then
                      utf8_loop (drop r s) (out @ [0x5c, 0x75] @
                        xlong0 (ucast n) (if n > 0xffffff then 8 else if n > 0xffff then 6 else 4))
                    else utf8_loop (tl s) (out @ [ucast n]) })"
  by pat_completeness auto
termination by (relation "measure (\<lambda>(s, out). length s)") auto

declare utf8_loop.simps [simp del]

definition json_parse_stralloc :: "charbuf \<Rightarrow> byte list \<Rightarrow> bool \<Rightarrow> (int \<times> byte list) ch_result" where
  "json_parse_stralloc b out quoted =
     do { ((ret, sa), b) \<leftarrow> string_loop quoted [] b;
          out \<leftarrow> (if quoted \<or> sa \<noteq> [] then utf8_loop sa out else Some out);
          Some ((ret, out), b) }"

definition json_parse_string :: "'d jsonval \<Rightarrow> charbuf \<Rightarrow> 'd parsed" where
  "json_parse_string val b =
     do { (r, b) \<leftarrow> charbuf_skip_ifeq b 0x22;
          if r \<noteq> 0 then do { ((_, s), b) \<leftarrow> json_parse_stralloc b [] True; Some ((1, JSON_STRING s), b) }
          else Some ((0, val), b) }"

subsection \<open>Arrays and objects\<close>

text \<open>
  The key of a member: a string, or a number printed as an unsigned integer; anything else leaves the
  text empty.  The integer of a number with a point is other bytes of the union, which have no model.
\<close>

definition object_key :: "(byte list \<Rightarrow> nat \<times> 'd) \<Rightarrow> charbuf \<Rightarrow> byte list ch_result" where
  "object_key sd b =
     do { ((r, key), b) \<leftarrow> json_parse_string JSON_UNDEFINED b;
          if r > 0 then (case key of JSON_STRING s \<Rightarrow> Some (s, b) | _ \<Rightarrow> None)
          else do { ((r, key), b) \<leftarrow> json_parse_number sd (key :: 'd jsonval) b;
                    if r > 0 then (case key of JSON_INT i \<Rightarrow> Some (snd (fmt_ulong True i), b) | _ \<Rightarrow> None)
                    else Some ([], b) } }"

text \<open>What follows an item: true when a comma was taken.\<close>

definition item_end :: "byte \<Rightarrow> charbuf \<Rightarrow> bool ch_result" where
  "item_end close b =
     do { (_, b) \<leftarrow> charbuf_skip_ws b;
          ((r, c), b) \<leftarrow> charbuf_peekc b;
          if r > 0 \<and> (c = 0x2c \<or> c = close) then
            do { (_, b) \<leftarrow> charbuf_skip b;
                 (_, b) \<leftarrow> charbuf_skip_ws b;
                 Some (c = 0x2c, b) }
          else Some (False, b) }"

partial_function (option) array_loop :: "('d jsonval \<Rightarrow> charbuf \<Rightarrow> 'd parsed) \<Rightarrow> 'd jsonval list \<Rightarrow> charbuf \<Rightarrow> 'd jsonval list ch_result" where
  "array_loop parse items b =
     do { ((r, c), b) \<leftarrow> charbuf_peekc b;
          if r \<le> 0 \<or> c = 0x5d then Some (items, b)
          else do { ((_, v), b) \<leftarrow> parse JSON_UNDEFINED b;
                    (more, b) \<leftarrow> item_end 0x5d b;
                    if more then array_loop parse (json_append items v) b else Some (json_append items v, b) } }"

definition json_parse_array :: "('d jsonval \<Rightarrow> charbuf \<Rightarrow> 'd parsed) \<Rightarrow> 'd jsonval \<Rightarrow> charbuf \<Rightarrow> 'd parsed" where
  "json_parse_array parse val b =
     do { (r, b) \<leftarrow> charbuf_skip_ifeq b 0x5b;
          if r \<noteq> 0 then
            do { (_, b) \<leftarrow> charbuf_skip_ws b;
                 (items, b) \<leftarrow> array_loop parse [] b;
                 Some ((1, JSON_ARRAY items), b) }
          else Some ((0, val), b) }"

partial_function (option) object_loop :: "(byte list \<Rightarrow> nat \<times> 'd) \<Rightarrow> ('d jsonval \<Rightarrow> charbuf \<Rightarrow> 'd parsed) \<Rightarrow> (byte list \<times> 'd jsonval) list \<Rightarrow> charbuf \<Rightarrow>
    (byte list \<times> 'd jsonval) list ch_result" where
  "object_loop sd parse kvs b =
     do { ((r, c), b) \<leftarrow> charbuf_peekc b;
          if r \<le> 0 then Some (kvs, b)
          else if c = 0x7d then do { (_, b) \<leftarrow> charbuf_nextc b; Some (kvs, b) }
          else do { (str, b) \<leftarrow> object_key sd b;
                    (_, b) \<leftarrow> charbuf_skip_ws b;
                    (r, b) \<leftarrow> charbuf_skip_ifeq b 0x3a;
                    if r = 0 then Some (kvs, b)
                    else do { (_, b) \<leftarrow> charbuf_skip_ws b;
                              ((r, member), b) \<leftarrow> parse JSON_UNDEFINED b;
                              if r \<le> 0 then Some (kvs, b)
                              else do { kvs \<leftarrow> map_insert kvs str member;
                                        (more, b) \<leftarrow> item_end 0x7d b;
                                        if more then object_loop sd parse kvs b else Some (kvs, b) } } } }"

definition json_parse_object :: "(byte list \<Rightarrow> nat \<times> 'd) \<Rightarrow> ('d jsonval \<Rightarrow> charbuf \<Rightarrow> 'd parsed) \<Rightarrow> 'd jsonval \<Rightarrow> charbuf \<Rightarrow> 'd parsed" where
  "json_parse_object sd parse val b =
     do { (r, b) \<leftarrow> charbuf_skip_ifeq b 0x7b;
          if r \<noteq> 0 then
            do { (_, b) \<leftarrow> charbuf_skip_ws b;
                 (kvs, b) \<leftarrow> object_loop sd parse [] b;
                 Some ((1, JSON_OBJECT (Some kvs)), b) }
          else Some ((0, val), b) }"

text \<open>The nested conditionals of \<open>json_parse\<close>: the next parser is tried while the result is below 1.\<close>

fun first_of :: "('d jsonval \<Rightarrow> charbuf \<Rightarrow> 'd parsed) list \<Rightarrow> 'd jsonval \<Rightarrow> charbuf \<Rightarrow> 'd parsed" where
  "first_of [] j b = Some ((0, j), b)"
| "first_of [p] j b = p j b"
| "first_of (p # ps) j b = do { ((r, j), b) \<leftarrow> p j b; if r < 1 then first_of ps j b else Some ((r, j), b) }"

primrec json_parse :: "nat \<Rightarrow> byte \<Rightarrow> (byte list \<Rightarrow> nat \<times> 'd) \<Rightarrow> 'd jsonval \<Rightarrow> charbuf \<Rightarrow> 'd parsed" where
  "json_parse 0 junk sd = (\<lambda>j b. None)"
| "json_parse (Suc levels) junk sd = (\<lambda>j b.
     do { (_, b) \<leftarrow> charbuf_pred_skip b (charbuf_is_ctype isspace);
          first_of [json_parse_object sd (json_parse levels junk sd), json_parse_array (json_parse levels junk sd),
            json_parse_null, json_parse_boolean junk, json_parse_number sd, json_parse_string] j b })"

definition json_read_tree :: "nat \<Rightarrow> byte \<Rightarrow> (byte list \<Rightarrow> nat \<times> 'd) \<Rightarrow> charbuf \<Rightarrow> 'd jsonval ch_result" where
  "json_read_tree levels junk sd b =
     do { (_, b) \<leftarrow> charbuf_pred_skip b (charbuf_is_ctype isspace);
          ((_, v), b) \<leftarrow> json_parse levels junk sd JSON_UNDEFINED b;
          Some (v, b) }"

subsection \<open>Printing\<close>

definition fmt_hex4 :: "uint16 \<Rightarrow> byte list" where
  "fmt_hex4 w = map (\<lambda>s. fmt_tohex (ucast (drop_bit s w AND 0xf))) [12, 8, 4, 0]"

text \<open>With a null destination one of the two quotes, when it is not the quote in use, is stored through it.\<close>

definition fmt_escapecharjson :: "bool \<Rightarrow> uint32 \<Rightarrow> uint32 \<Rightarrow> (nat \<times> byte list) option" where
  "fmt_escapecharjson dest ch quote =
     (let quote = (if quote \<noteq> 0x22 \<and> quote \<noteq> 0x27 then 0x22 else quote)
      in if ch \<noteq> quote \<and> (ch = 0x27 \<or> ch = 0x22) then (if dest then Some (1, [ucast ch]) else None)
         else let ch' = (if ch = 8 then 0x62 else if ch = 10 then 0x6e else if ch = 13 then 0x72 else ch)
              in if ch' \<noteq> ch \<or> ch = 0x22 \<or> ch = 0x5c \<or> ch = 0x2f then Some (2, if dest then [0x5c, ucast ch'] else [])
                 else if ch > 0x10ffff then Some (0, [])
                 else let (n, out, ch) = (if ch > 0xffff
                        then (6, [0x5c, 0x75] @ fmt_hex4 (0xd800 OR ucast (drop_bit 10 (ch - 0x10000) AND 0x3ff)), (ch AND 0x3ff) OR 0xdc00)
                        else (0, [], ch))
                      in Some (n + 6, if dest then out @ [0x5c, 0x75] @ fmt_hex4 (ucast ch) else []))"

record jsonfmt =
  indent :: "byte list"
  newline :: "byte list"
  spacing :: "byte list"
  separat :: "byte list"
  quote0 :: byte
  quote1 :: byte
  precision :: int
  fmt_depth :: int
  fmt_index :: int
  compliant :: bool

type_synonym 'd json_print_fn = "'d jsonval option \<Rightarrow> int \<Rightarrow> int \<Rightarrow> byte \<Rightarrow> jsonfmt"

definition json_is_identifier_char :: "byte \<Rightarrow> bool" where
  "json_is_identifier_char c \<longleftrightarrow> isalnum c \<or> c = 0x24 \<or> c = 0x5f \<or> c = 0x40"

definition byte_fullfils_predicate :: "byte list \<Rightarrow> (byte \<Rightarrow> bool) \<Rightarrow> bool" where
  "byte_fullfils_predicate x pred \<longleftrightarrow> list_all pred x \<and> x \<noteq> []"

text \<open>The first argument is the entry of \<open>ws\<close>: \<open>newline\<close>, \<open>spacing\<close> or \<open>separat\<close>.\<close>

definition json_print_separator :: "(jsonfmt \<Rightarrow> byte list) \<Rightarrow> jsonfmt \<Rightarrow> byte list" where
  "json_print_separator what printer =
     what printer @ (if 0x0a \<in> set (what printer) then concat (replicate (nat (fmt_depth printer)) (indent printer)) else [])"

definition json_print_key :: "byte list \<Rightarrow> jsonfmt \<Rightarrow> byte list" where
  "json_print_key key fmt =
     (let quote = (if key \<noteq> [] \<and> \<not> isdigit (hd key) \<and> byte_fullfils_predicate key json_is_identifier_char then quote1 fmt else quote0 fmt);
          quote = (if compliant fmt then 0x22 else quote);
          q = (if quote \<noteq> 0 then [quote] else [])
      in q @ key @ q)"

fun print_chars :: "byte \<Rightarrow> byte list \<Rightarrow> byte list option" where
  "print_chars quote [] = Some []"
| "print_chars quote (c # x) =
     (if c = 0 then None
      else do { e \<leftarrow> (if c = quote \<or> c = 0x5c \<and> \<not> (x \<noteq> [] \<and> hd x = 0x75)
                      then map_option snd (fmt_escapecharjson True (scast c) (scast quote)) else Some [c]);
                r \<leftarrow> print_chars quote x;
                Some (e @ r) })"

definition json_print_str :: "byte list \<Rightarrow> jsonfmt \<Rightarrow> byte list option" where
  "json_print_str x fmt =
     (let q = (if quote0 fmt \<noteq> 0 then [quote0 fmt] else [])
      in map_option (\<lambda>w. q @ w @ q) (print_chars (quote0 fmt) x))"

text \<open>\<open>fd\<close> is \<open>fmt_double\<close> with the precision; the least integer overflows in \<open>fmt_longlong\<close>.\<close>

fun json_print_val :: "(int \<Rightarrow> 'd \<Rightarrow> byte list) \<Rightarrow> 'd json_print_fn \<Rightarrow> int \<Rightarrow> 'd jsonval \<Rightarrow> byte list option"
  and print_items :: "(int \<Rightarrow> 'd \<Rightarrow> byte list) \<Rightarrow> 'd json_print_fn \<Rightarrow> int \<Rightarrow> 'd jsonval \<Rightarrow> int \<Rightarrow> 'd jsonval list \<Rightarrow> byte list option"
  and print_members :: "(int \<Rightarrow> 'd \<Rightarrow> byte list) \<Rightarrow> 'd json_print_fn \<Rightarrow> int \<Rightarrow> 'd jsonval \<Rightarrow> int \<Rightarrow> (byte list \<times> 'd jsonval) list \<Rightarrow> byte list option" where
  "json_print_val fd p depth JSON_UNDEFINED = Some []"
| "json_print_val fd p depth JSON_NULL = Some [0x6e, 0x75, 0x6c, 0x6c]"
| "json_print_val fd p depth (JSON_STRING s) = json_print_str s (p (Some (JSON_STRING s)) depth 0 0)"
| "json_print_val fd p depth (JSON_DOUBLE d) = Some (fd (precision (p (Some (JSON_DOUBLE d)) depth 0 0)) d)"
| "json_print_val fd p depth (JSON_BOOL v) = Some (if v then [0x74, 0x72, 0x75, 0x65] else [0x66, 0x61, 0x6c, 0x73, 0x65])"
| "json_print_val fd p depth (JSON_INT i) = map_option snd (fmt_longlong True i)"
| "json_print_val fd p depth JSON_UNSET = None"
| "json_print_val fd p depth (JSON_OBJECT None) = Some [0x6e, 0x75, 0x6c, 0x6c]"
| "json_print_val fd p depth (JSON_OBJECT (Some kvs)) =
     do { w \<leftarrow> print_members fd p depth (JSON_OBJECT (Some kvs)) 0 kvs;
          Some ([0x7b] @ w @ json_print_separator newline (p (Some (JSON_OBJECT (Some kvs))) (depth + 1) (-2) 0) @ [0x7d]) }"
| "json_print_val fd p depth (JSON_ARRAY items) =
     (if items = [] then Some [0x5b, 0x5d]
      else do { w \<leftarrow> print_items fd p depth (JSON_ARRAY items) 0 items;
                Some ([0x5b] @ json_print_separator newline (p (Some (JSON_ARRAY items)) (depth + 1) 0 0) @ w @
                      json_print_separator newline (p (Some (JSON_ARRAY items)) (depth + 1) (-2) 0) @ [0x5d]) })"
| "print_items fd p depth val index [] = Some []"
| "print_items fd p depth val index (v # items) =
     do { w \<leftarrow> json_print_val fd p (depth + 1) v;
          r \<leftarrow> print_items fd p depth val (index + 1) items;
          Some ((if index > 0 then json_print_separator separat (p (Some val) (depth + 1) index 0) else []) @ w @ r) }"
| "print_members fd p depth val index [] = Some []"
| "print_members fd p depth val index ((k, v) # kvs) =
     do { w \<leftarrow> json_print_val fd p (depth + 1) v;
          r \<leftarrow> print_members fd p depth val (index + 1) kvs;
          let printer = p None (depth + 1) (index + 1) 0;
          Some ((if index = 0 then json_print_separator newline (p (Some val) (depth + 1) 0 0)
                 else json_print_separator separat (p None (depth + 1) index 0)) @
                json_print_key k printer @ [0x3a] @ json_print_separator spacing printer @ w @ r) }"

definition json_print :: "(int \<Rightarrow> 'd \<Rightarrow> byte list) \<Rightarrow> 'd json_print_fn \<Rightarrow> 'd jsonval \<Rightarrow> byte list option" where
  "json_print fd p v = map_option (\<lambda>w. w @ newline (p (Some v) 0 (-1) 0x22)) (json_print_val fd p 0 v)"

subsection \<open>The printers\<close>

text \<open>\<open>json_recurse\<close> calls a function for a value and for all values in it, with their depth.\<close>

fun json_recurse_val :: "('d jsonval \<Rightarrow> 'a \<Rightarrow> int \<Rightarrow> 'a) \<Rightarrow> int \<Rightarrow> 'd jsonval \<Rightarrow> 'a \<Rightarrow> 'a" where
  "json_recurse_val fn depth (JSON_OBJECT (Some kvs)) arg =
     fold (\<lambda>(k, v). json_recurse_val fn (depth + 1) v) kvs (fn (JSON_OBJECT (Some kvs)) arg depth)"
| "json_recurse_val fn depth (JSON_ARRAY items) arg =
     fold (json_recurse_val fn (depth + 1)) items (fn (JSON_ARRAY items) arg depth)"
| "json_recurse_val fn depth v arg = fn v arg depth"

definition json_recurse :: "('d jsonval \<Rightarrow> 'a \<Rightarrow> int \<Rightarrow> 'a) \<Rightarrow> 'd jsonval \<Rightarrow> 'a \<Rightarrow> 'a" where
  "json_recurse fn val arg = json_recurse_val fn 0 val arg"

definition depth_fn :: "'d jsonval \<Rightarrow> int \<Rightarrow> int \<Rightarrow> int" where
  "depth_fn v arg depth = (if arg < depth then depth else arg)"

definition get_depth :: "'d jsonval \<Rightarrow> int" where
  "get_depth v = json_recurse depth_fn v (-1)"

definition json_default_printer :: "'d json_print_fn" where
  "json_default_printer v depth index quote =
     (let pretty = (case v of None \<Rightarrow> False | Some v \<Rightarrow> get_depth v > 1)
      in \<lparr>indent = if pretty then [0x20] else [], newline = if pretty then [0x0a] else [],
          spacing = if pretty then [0x20] else [], separat = if pretty then [0x2c, 0x20] else [0x2c],
          quote0 = quote, quote1 = quote, precision = 10, fmt_depth = depth, fmt_index = index, compliant = True\<rparr>)"

definition json_compact_printer :: "'d json_print_fn" where
  "json_compact_printer v depth index quote =
     \<lparr>indent = [], newline = [0x20], spacing = [0x20], separat = [0x2c, 0x20],
      quote0 = quote, quote1 = quote, precision = 10, fmt_depth = depth, fmt_index = index, compliant = True\<rparr>"

text \<open>The printers of \<open>jsonpp\<close> depend on its options.\<close>

record jsonpp_options =
  opt_quote0 :: byte
  opt_quote1 :: byte
  one_line :: bool
  compact :: bool
  depth_arg :: int
  no_compliant :: bool
  indent_str :: "byte list"
  opt_spacing :: "byte list option"
  separator :: "byte list option"

text \<open>The options without any argument, as \<open>main\<close> sets them up.\<close>

definition jsonpp_defaults :: jsonpp_options where
  "jsonpp_defaults = \<lparr>opt_quote0 = 0x22, opt_quote1 = 0x22, one_line = False, compact = False, depth_arg = 3,
     no_compliant = False, indent_str = [0x20, 0x20], opt_spacing = None, separator = None\<rparr>"

text \<open>
  One option of the command line, with its argument up to the terminator; the number is the width of
  the indentation.  \<open>None\<close> ends the program with the usage.  The options for the output file do not
  change the format.  A number that cannot be scanned leaves the variable as it is.
\<close>

definition jsonpp_option :: "byte \<Rightarrow> byte list \<Rightarrow> jsonpp_options \<times> int \<Rightarrow> (jsonpp_options \<times> int) option" where
  "jsonpp_option c arg st =
     (let (o1, ind) = st; num = (\<lambda>old. case scan_int (arg @ [0]) of Some (_, Some n) \<Rightarrow> sint n | _ \<Rightarrow> old)
      in if c = 0x73 then Some (o1\<lparr>opt_quote0 := 0x27\<rparr>, ind)
         else if c = 0x64 then Some (o1\<lparr>opt_quote0 := 0x22\<rparr>, ind)
         else if c = 0x53 then Some (o1\<lparr>separator := Some arg\<rparr>, ind)
         else if c = 0x57 then Some (o1\<lparr>opt_spacing := Some arg\<rparr>, ind)
         else if c = 0x44 then Some (o1\<lparr>depth_arg := num (depth_arg o1)\<rparr>, ind)
         else if c = 0x4f then Some (o1\<lparr>one_line := True\<rparr>, ind)
         else if c = 0x63 then Some ((if compact o1 then o1\<lparr>opt_spacing := Some []\<rparr> else o1)\<lparr>compact := True\<rparr>, ind)
         else if c = 0x43 then Some (o1\<lparr>no_compliant := True\<rparr>, ind)
         else if c = 0x6c then Some (o1, num ind)
         else if c = 0x6f \<or> c = 0x69 then Some (o1, ind)
         else None)"

definition jsonpp_setup :: "jsonpp_options \<times> int \<Rightarrow> jsonpp_options" where
  "jsonpp_setup st =
     (let (o1, ind) = st; o1 = (if no_compliant o1 then o1 else o1\<lparr>opt_quote0 := 0x22, opt_quote1 := 0x22\<rparr>)
      in o1\<lparr>indent_str := replicate (nat ind) 0x20\<rparr>)"

definition opt_space :: "jsonpp_options \<Rightarrow> byte list" where
  "opt_space o1 = (case opt_spacing o1 of Some s \<Rightarrow> s | None \<Rightarrow> if compact o1 then [] else [0x20])"

definition opt_separat :: "jsonpp_options \<Rightarrow> bool \<Rightarrow> byte list" where
  "opt_separat o1 multi_line =
     (case separator o1 of
        Some s \<Rightarrow> s
      | None \<Rightarrow> if multi_line then [0x2c, 0x0a] else if opt_space o1 \<noteq> [] then [0x2c, 0x20] else [0x2c])"

definition compact_printer :: "jsonpp_options \<Rightarrow> 'd json_print_fn" where
  "compact_printer o1 v depth index q =
     (let multi_line = (\<not> one_line o1 \<and> depth < depth_arg o1)
      in \<lparr>indent = if \<not> multi_line \<or> depth > depth_arg o1 then [] else indent_str o1,
          newline = if multi_line then [0x0a] else [], spacing = opt_space o1, separat = opt_separat o1 multi_line,
          quote0 = opt_quote0 o1, quote1 = opt_quote1 o1, precision = 3, fmt_depth = depth, fmt_index = index,
          compliant = \<not> no_compliant o1\<rparr>)"

definition default_printer :: "jsonpp_options \<Rightarrow> 'd json_print_fn" where
  "default_printer o1 v depth index q =
     (let multi_line = (\<not> one_line o1 \<and> depth < depth_arg o1)
      in \<lparr>indent = if depth > depth_arg o1 then [] else indent_str o1,
          newline = if multi_line then [0x0a] else opt_space o1, spacing = opt_space o1, separat = opt_separat o1 multi_line,
          quote0 = opt_quote0 o1, quote1 = opt_quote1 o1, precision = 10, fmt_depth = depth - (if index = -2 then 1 else 0),
          fmt_index = index, compliant = \<not> no_compliant o1\<rparr>)"

definition json_pretty_print :: "(int \<Rightarrow> 'd \<Rightarrow> byte list) \<Rightarrow> jsonpp_options \<Rightarrow> 'd jsonval \<Rightarrow> byte list option" where
  "json_pretty_print fd o1 val = json_print fd (if compact o1 then compact_printer o1 else default_printer o1) val"

subsection \<open>Conversions and properties\<close>

text \<open>
  The printer of \<open>json_tostring\<close> sets four fields; \<open>fmt0\<close> is what the structure holds before.
\<close>

definition json_tostring_printer :: "jsonfmt \<Rightarrow> 'd json_print_fn" where
  "json_tostring_printer fmt0 v depth index q = fmt0\<lparr>indent := [], newline := [], spacing := [0x20], quote0 := 0x22\<rparr>"

definition json_tostring :: "jsonfmt \<Rightarrow> (int \<Rightarrow> 'd \<Rightarrow> byte list) \<Rightarrow> 'd jsonval \<Rightarrow> byte list option" where
  "json_tostring fmt0 fd val =
     (case val of
        JSON_UNDEFINED \<Rightarrow> Some [0x75, 0x6e, 0x64, 0x65, 0x66, 0x69, 0x6e, 0x65, 0x64]
      | JSON_DOUBLE d \<Rightarrow> Some (fd 0 d)
      | JSON_INT i \<Rightarrow> map_option snd (fmt_longlong True i)
      | JSON_STRING s \<Rightarrow> Some s
      | JSON_UNSET \<Rightarrow> None
      | _ \<Rightarrow> if json_isnull val then Some [0x6e, 0x75, 0x6c, 0x6c] else json_print fd (json_tostring_printer fmt0) val)"

text \<open>The text ends at its first null byte.\<close>

definition json_toint :: "jsonfmt \<Rightarrow> (int \<Rightarrow> 'd \<Rightarrow> byte list) \<Rightarrow> 'd jsonval \<Rightarrow> uint64 option" where
  "json_toint fmt0 fd val =
     do { w \<leftarrow> json_tostring fmt0 fd val;
          (n, l) \<leftarrow> scan_longlong (w @ [0]);
          if n = 0 then Some (-1) else l }"

text \<open>
  A name that is not a string is compared through a null pointer when the object is an array or a
  string; a key that is not there is read through one.
\<close>

definition json_property_get :: "jsonfmt \<Rightarrow> (int \<Rightarrow> 'd \<Rightarrow> byte list) \<Rightarrow> 'd jsonval \<Rightarrow> 'd jsonval \<Rightarrow> 'd jsonval option" where
  "json_property_get fmt0 fd obj name =
     (let by_name = (case obj of JSON_ARRAY _ \<Rightarrow> True | JSON_STRING _ \<Rightarrow> True | _ \<Rightarrow> False)
      in do { len \<leftarrow> (if by_name
                      then case name of JSON_STRING s \<Rightarrow> Some (takeWhile (\<lambda>c. c \<noteq> 0) s = [0x6c, 0x65, 0x6e, 0x67, 0x74, 0x68]) | _ \<Rightarrow> None
                      else Some False);
              if len then do { n \<leftarrow> json_length obj; Some (JSON_INT (of_nat n)) }
              else case obj of
                     JSON_OBJECT kvs \<Rightarrow> do { k \<leftarrow> json_tostring fmt0 fd name; r \<leftarrow> map_get kvs k; r }
                   | JSON_ARRAY _ \<Rightarrow> do { i \<leftarrow> json_toint fmt0 fd name; Some (json_property_get_int obj (sint i)) }
                   | _ \<Rightarrow> Some JSON_UNDEFINED })"

text \<open>
  The result says whether there is a place for the value.  For an array the index is a variable that
  was never set, here the argument \<open>i\<close>.
\<close>

definition json_property_set_str :: "int \<Rightarrow> 'd jsonval \<Rightarrow> byte list \<Rightarrow> 'd jsonval \<Rightarrow> (bool \<times> 'd jsonval) option" where
  "json_property_set_str i obj key value =
     (case obj of
        JSON_OBJECT kvs \<Rightarrow>
          do { n \<leftarrow> str_len key;
               kvs \<leftarrow> map_insert (case kvs of None \<Rightarrow> [] | Some kvs \<Rightarrow> kvs) (take n key) value;
               r \<leftarrow> map_get (Some kvs) (take n key);
               Some (r \<noteq> None, JSON_OBJECT (Some kvs)) }
      | JSON_ARRAY items \<Rightarrow>
          if int (length items) \<le> i then Some (True, JSON_ARRAY (items @ replicate (nat i - length items) JSON_UNDEFINED @ [value]))
          else if items = [] then None
          else Some (True, JSON_ARRAY (items[nat i := value]))
      | _ \<Rightarrow> Some (False, obj))"

definition json_property_set :: "jsonfmt \<Rightarrow> (int \<Rightarrow> 'd \<Rightarrow> byte list) \<Rightarrow> int \<Rightarrow> 'd jsonval \<Rightarrow> 'd jsonval \<Rightarrow> 'd jsonval \<Rightarrow> (bool \<times> 'd jsonval) option" where
  "json_property_set fmt0 fd i obj name value =
     do { key \<leftarrow> json_tostring fmt0 fd name; json_property_set_str i obj (key @ [0]) value }"

definition json_property_set_int :: "int \<Rightarrow> 'd jsonval \<Rightarrow> uint64 \<Rightarrow> 'd jsonval \<Rightarrow> (bool \<times> 'd jsonval) option" where
  "json_property_set_int i obj index value =
     do { (n, w) \<leftarrow> fmt_longlong True index; json_property_set_str i obj (w @ [0]) value }"

lemma property_set_get:
  assumes "map_key k" "nonul k" "nonul j"
  shows "\<exists>obj'. json_property_set_str i (JSON_OBJECT kvs) (k @ [0]) v = Some (True, obj') \<and>
     json_property_get_str obj' (j @ [0]) = (if j = k then Some v else json_property_get_str (JSON_OBJECT (Some (case kvs of None \<Rightarrow> [] | Some kvs \<Rightarrow> kvs))) (j @ [0]))"
proof -
  let ?kvs = "case kvs of None \<Rightarrow> [] | Some kvs \<Rightarrow> kvs"
  have s: "str_len (k @ [0]) = Some (length k)" "str_len (j @ [0]) = Some (length j)"
    using str_len_cstr[of k "[]"] str_len_cstr[of j "[]"] assms(2,3) by (simp_all add: cstr_def)
  have "json_property_set_str i (JSON_OBJECT kvs) (k @ [0]) v = Some (True, JSON_OBJECT (Some (AList.update k v ?kvs)))"
    using assms(1) s(1) by (simp add: json_property_set_str_def map_insert_def map_get_def map_key_def update_conv')
  then show ?thesis using assms(1) s(2)
    by (auto simp: json_property_get_str_def map_get_def map_key_def update_conv')
qed

subsection \<open>Reading text that is ahead\<close>

text \<open>
  \<open>at_text b w k\<close>: the window of \<open>b\<close> has at least eight characters, of which at most \<open>k\<close>
  are held, and \<open>w\<close> is ahead.
\<close>

definition at_text :: "charbuf \<Rightarrow> byte list \<Rightarrow> nat \<Rightarrow> bool" where
  "at_text b w k \<longleftrightarrow> (\<exists>a r. stands b a r k \<and> ahead r = w \<and> 8 \<le> unat a)"

lemma at_textI: "stands b a r k \<Longrightarrow> ahead r = w \<Longrightarrow> 8 \<le> unat a \<Longrightarrow> at_text b w k"
  unfolding at_text_def by blast

lemma at_text_mono: "at_text b w k \<Longrightarrow> k \<le> k' \<Longrightarrow> at_text b w k'"
  unfolding at_text_def using stands_mono by blast

lemma peekc_at:
  assumes "at_text b (c # w) k"
  shows "\<exists>b'. charbuf_peekc b = Some ((1, c), b') \<and> at_text b' (c # w) (max 1 k)"
  using assms unfolding at_text_def by (force dest: peekc_is)

lemma peek_at:
  assumes "at_text b (c # w) k"
  shows "\<exists>b'. charbuf_peek b = Some (uint c, b') \<and> at_text b' (c # w) (max 1 k)"
  using assms unfolding at_text_def by (force dest: peek_is)

lemma skip_at:
  assumes "at_text b (c # w) k"
  shows "\<exists>b'. charbuf_skip b = Some (uint c, b') \<and> at_text b' w (k - 1)"
proof -
  obtain a r where a: "stands b a r k" "ahead r = c # w" "8 \<le> unat a" using assms by (auto simp: at_text_def)
  then obtain b' where "charbuf_skip b = Some (uint c, b')" "stands b' a (advance r) (k - 1)"
    using skip_is[OF a(1)] by (auto simp: left_def)
  then show ?thesis using a by (auto intro!: at_textI)
qed

lemma nextc_at:
  assumes "at_text b (c # w) k" "c \<noteq> 0"
  shows "\<exists>x b'. charbuf_nextc b = Some (x, b') \<and> (\<forall>d u. w = d # u \<longrightarrow> x = (1, d)) \<and> at_text b' w (max 1 (k - 1))"
proof -
  obtain a r where a: "stands b a r k" "ahead r = c # w" "8 \<le> unat a" using assms(1) by (auto simp: at_text_def)
  then obtain b' where "charbuf_nextc b = Some (case w of [] \<Rightarrow> (ending r, 0) | d # _ \<Rightarrow> (1, d), b')" "stands b' a (advance r) (max 1 (k - 1))"
    using nextc_is[OF a(1,2) assms(2)] by blast
  then show ?thesis using a by (auto intro!: at_textI)
qed

lemma skip_ws_at:
  assumes "at_text b w k"
  shows "\<exists>v b'. charbuf_skip_ws b = Some (v, b') \<and> at_text b' (dropWhile isspace w) (max 1 k)"
proof -
  obtain a r where a: "stands b a r k" "ahead r = w" "8 \<le> unat a" using assms by (auto simp: at_text_def)
  obtain b' v where b': "charbuf_skip_ws b = Some (v, b')"
      "stands b' a (past (length (takeWhile isspace w)) r) (max 1 (k - length (takeWhile isspace w)))"
    using skip_ws_is[OF a(1)] a(2) by blast
  have "at_text b' (dropWhile isspace w) (max 1 (k - length (takeWhile isspace w)))"
    using b'(2) by (rule at_textI) (simp_all add: a dropWhile_eq_drop)
  then show ?thesis using b'(1) at_text_mono by (metis diff_le_self max.mono order_refl)
qed

lemma skip_ifeq_at:
  assumes "at_text b (c # w) k" "d \<noteq> 0" "c \<noteq> d \<or> w \<noteq> []"
  shows "\<exists>b'. charbuf_skip_ifeq b d = Some (if c = d then 1 else 0, b') \<and> at_text b' (if c = d then w else c # w) (max 1 k)"
proof -
  obtain a r where a: "stands b a r k" "ahead r = c # w" "8 \<le> unat a" using assms(1) by (auto simp: at_text_def)
  obtain b' where b': "charbuf_skip_ifeq b d = Some (if c = d then 1 else 0, b')"
      "if c = d then stands b' a (advance r) (max 1 (k - 1)) else stands b' a r (max 1 k)"
    using skip_ifeq_is[OF a(1) assms(2)] a(2) assms(3) by (auto split: if_splits)
  have "at_text b' (if c = d then w else c # w) (max 1 k)"
  proof (cases "c = d")
    case True
    then have "stands b' a (advance r) (max 1 (k - 1))" using b'(2) by simp
    then have "stands b' a (advance r) (max 1 k)" by (rule stands_mono) simp
    then show ?thesis using True a by (auto intro!: at_textI)
  next
    case False
    then show ?thesis using b'(2) a by (auto intro!: at_textI)
  qed
  then show ?thesis using b'(1) by blast
qed

lemma skip_ifset_at:
  assumes "at_text b (c # w) k" "setlen \<le> length cs"
  shows "\<exists>b'. charbuf_skip_ifset junk b cs setlen = Some (if c \<in> set (take setlen cs) then uint c else 0, b') \<and>
     at_text b' (if c \<in> set (take setlen cs) then w else c # w) (max 1 k)"
proof -
  obtain a r where a: "stands b a r k" "ahead r = c # w" "8 \<le> unat a" using assms(1) by (auto simp: at_text_def)
  obtain b' where b': "charbuf_skip_ifset junk b cs setlen = Some (if c \<in> set (take setlen cs) then uint c else 0, b')"
      "if c \<in> set (take setlen cs) then stands b' a (advance r) (max 1 k - 1) else stands b' a r (max 1 k)"
    using skip_ifset_is[OF a(1) assms(2) a(2)] by blast
  have "at_text b' (if c \<in> set (take setlen cs) then w else c # w) (max 1 k)"
  proof (cases "c \<in> set (take setlen cs)")
    case True
    then have "stands b' a (advance r) (max 1 k - 1)" using b'(2) by simp
    then have "stands b' a (advance r) (max 1 k)" by (rule stands_mono) simp
    then show ?thesis using True a by (auto intro!: at_textI)
  next
    case False
    then show ?thesis using b'(2) a by (auto intro!: at_textI)
  qed
  then show ?thesis using b'(1) by blast
qed

lemma skip_chars_at:
  assumes "at_text b (cs @ d # w) k" "nonul cs"
  shows "\<exists>b'. skip_chars cs b = Some (True, b') \<and> at_text b' (d # w) (max 1 k)"
  using assms
proof (induction cs arbitrary: b k)
  case (Cons c cs)
  obtain b1 where b1: "charbuf_skip_ifeq b c = Some (1, b1)" "at_text b1 (cs @ d # w) (max 1 k)"
    using skip_ifeq_at[of b c "cs @ d # w" k c] Cons.prems by auto
  then show ?case using Cons.IH[OF b1(2)] Cons.prems(2) by auto
qed (auto intro: at_text_mono)

subsection \<open>Scalars that were printed\<close>

lemma identifier_run:
  assumes "length s < 2 ^ 32" "n \<le> length s + 1"
  shows "n + prefix_run (predicate_identifier s) (of_nat n) w \<le> length s + 1"
  using assms(2)
proof (induction w arbitrary: n)
  case (Cons c w)
  have n: "unat (of_nat n :: uint64) = n" using assms(1) Cons.prems by (simp add: unat_of_nat take_bit_nat_eq_self)
  show ?case
  proof (cases "predicate_identifier s c (of_nat n)")
    case True
    then have "n \<le> length s" using n by (auto simp: predicate_identifier_def split: if_splits)
    then show ?thesis using True Cons.IH[of "n + 1"] by (simp add: add.commute)
  qed (use Cons.prems in simp)
qed simp

definition null_text :: "byte list" where
  "null_text = [0x6e, 0x75, 0x6c, 0x6c]"

lemma lookahead_at:
  assumes "at_text b w 1" "w \<noteq> []"
  shows "\<exists>b'. charbuf_pred_lookahead b (predicate_identifier null_text) = Some (int (prefix_run (predicate_identifier null_text) 0 w), b') \<and>
     at_text b' w (prefix_run (predicate_identifier null_text) 0 w + 1)"
proof -
  obtain a r where a: "stands b a r 1" "ahead r = w" "8 \<le> unat a" using assms(1) by (auto simp: at_text_def)
  have "prefix_run (predicate_identifier null_text) 0 w \<le> 5" using identifier_run[of null_text 0 w] by (simp add: null_text_def)
  then obtain b' where "lookahead_loop (predicate_identifier null_text) (of_nat 0) b = Some (int (0 + prefix_run (predicate_identifier null_text) (of_nat 0) (drop 0 (ahead r))), b')"
      "stands b' a r (0 + prefix_run (predicate_identifier null_text) (of_nat 0) (drop 0 (ahead r)) + 1)"
    using lookahead_loop_is[OF _ _ a(1), of 0 "predicate_identifier null_text"] a(2,3) by auto
  then show ?thesis using a by (auto simp: charbuf_pred_lookahead_def intro!: at_textI)
qed

lemma parse_null_other:
  assumes "at_text b (c # w) 1" "c \<noteq> 0x6e"
  shows "\<exists>b'. json_parse_null j b = Some ((0, j), b') \<and> at_text b' (c # w) 1"
proof -
  have "prefix_run (predicate_identifier null_text) 0 (c # w) = 0"
    using assms(2) by (simp add: predicate_identifier_def predicate_string_def null_text_def)
  then show ?thesis using lookahead_at[OF assms(1)] by (auto simp: json_parse_null_def null_text_def)
qed

lemma skipn_at:
  assumes "at_text b (u @ w) k" "nonul u"
  shows "\<exists>v b'. charbuf_skipn b (length u) = Some (v, b') \<and> at_text b' w (k - length u)"
proof -
  obtain a r where a: "stands b a r k" "ahead r = u @ w" "8 \<le> unat a" using assms(1) by (auto simp: at_text_def)
  then obtain b' where "charbuf_skipn_loop (length u) 0 b = Some (length u, b')" "stands b' a (past (length u) r) (k - length u)"
    using skipn_loop_is[OF a(1), of "length u" 0] assms(2) by auto
  then show ?thesis using a by (auto simp: charbuf_skipn_def intro!: at_textI)
qed

lemma parse_null_text:
  assumes "at_text b (null_text @ e # w) 1" "\<not> identifier_char e"
  shows "\<exists>b'. json_parse_null j b = Some ((1, JSON_NULL), b') \<and> at_text b' (e # w) 2"
proof -
  have u: "unat (1 :: uint64) = 1" "unat (2 :: uint64) = 2" "unat (3 :: uint64) = 3" "unat (4 :: uint64) = 4" "unat (5 :: uint64) = 5" by simp_all
  have "prefix_run (predicate_identifier null_text) 5 w = 0"
    by (cases w) (simp_all add: predicate_identifier_def null_text_def)
  then have p: "prefix_run (predicate_identifier null_text) 0 (null_text @ e # w) = 5"
    using assms(2) by (simp add: predicate_identifier_def predicate_string_def null_text_def)
  obtain b1 where b1: "charbuf_pred_lookahead b (predicate_identifier null_text) = Some (5, b1)" "at_text b1 (null_text @ e # w) 6"
    using lookahead_at[OF assms(1)] p by auto
  have l: "length null_text = 4" by (simp add: null_text_def)
  obtain v b2 where "charbuf_skipn b1 4 = Some (v, b2)" "at_text b2 (e # w) 2"
    using skipn_at[OF b1(2)] unfolding l by (auto simp: null_text_def)
  then show ?thesis using b1(1) by (auto simp: json_parse_null_def null_text_def)
qed

lemma parse_boolean_other:
  assumes "at_text b (c # w) 1" "c \<noteq> 0x74" "c \<noteq> 0x66"
  shows "\<exists>b'. json_parse_boolean junk j b = Some ((0, j), b') \<and> at_text b' (c # w) 1"
  using skip_ifset_at[OF assms(1), of 2 "[0x74, 0x66]" junk] assms(2,3) by (auto simp: json_parse_boolean_def)

lemma parse_boolean_text:
  assumes "at_text b ((if v then [0x74, 0x72, 0x75, 0x65] else [0x66, 0x61, 0x6c, 0x73, 0x65]) @ e # w) 1"
  shows "\<exists>b'. json_parse_boolean junk j b = Some ((1, JSON_BOOL v), b') \<and> at_text b' (e # w) 1"
proof -
  define cs :: "byte list" where "cs = (if v then [0x72, 0x75, 0x65] else [0x61, 0x6c, 0x73, 0x65])"
  define c :: byte where "c = (if v then 0x74 else 0x66)"
  have "at_text b (c # cs @ e # w) 1" using assms by (simp add: cs_def c_def split: if_splits)
  then obtain b1 where b1: "charbuf_skip_ifset junk b [0x74, 0x66] 2 = Some (uint c, b1)" "at_text b1 (cs @ e # w) 1"
    using skip_ifset_at[of b c "cs @ e # w" 1 2 "[0x74, 0x66]" junk] by (cases v) (auto simp: c_def)
  have cs: "hd cs # tl cs = cs" by (simp add: cs_def)
  then have "at_text b1 (hd cs # tl cs @ e # w) 1" using b1(2) by (simp flip: append_Cons)
  then obtain b2 where b2: "charbuf_peek b1 = Some (uint (hd cs), b2)" "at_text b2 (hd cs # tl cs @ e # w) 1"
    using peek_at[of b1 "hd cs" "tl cs @ e # w" 1] by auto
  then have "at_text b2 (cs @ e # w) 1" using cs by (simp flip: append_Cons)
  moreover have "nonul cs" by (simp add: cs_def)
  ultimately obtain b3 where "skip_chars cs b2 = Some (True, b3)" "at_text b3 (e # w) 1"
    using skip_chars_at[of b2 cs e w 1] by auto
  then show ?thesis using b1(1) b2(1) by (cases v) (simp_all add: json_parse_boolean_def cs_def c_def del: skip_chars.simps)
qed


text \<open>What may follow a value: space, or the end of an item.\<close>

definition delim :: "byte \<Rightarrow> bool" where
  "delim c \<longleftrightarrow> isspace c \<or> c = 0x2c \<or> c = 0x5d \<or> c = 0x7d"

lemma delim_char:
  "delim c \<Longrightarrow> \<not> isdigit c \<and> c \<noteq> 0x2e \<and> c \<noteq> 0x45 \<and> c \<noteq> 0x65 \<and> c \<noteq> 0x2d \<and> c \<noteq> 0 \<and> \<not> identifier_char c"
  unfolding delim_def isspace_def isdigit_def identifier_char_def isalnum_def isalpha_def
  by (auto simp: word_le_nat_alt)

lemma number_loop_at:
  assumes "at_text b (c # ds @ e # w) k" "c \<noteq> 0" "list_all isdigit ds" "delim e"
  shows "\<exists>b'. number_loop False num c b = Some (Inr (False, num @ c # ds), b') \<and> at_text b' (e # w) (max 1 k)"
  using assms
proof (induction ds arbitrary: b c k num)
  case Nil
  obtain b1 where b1: "charbuf_nextc b = Some ((1, e), b1)" "at_text b1 (e # w) (max 1 (k - 1))"
    using nextc_at[of b c "e # w" k] Nil by auto
  moreover have "at_text b1 (e # w) (max 1 k)" using b1(2) by (rule at_text_mono) simp
  ultimately show ?case using delim_char[OF Nil(4)] by (subst number_loop.simps) simp
next
  case (Cons d ds)
  obtain b1 where b1: "charbuf_nextc b = Some ((1, d), b1)" "at_text b1 (d # ds @ e # w) (max 1 (k - 1))"
    using nextc_at[of b c "d # ds @ e # w" k] Cons.prems by auto
  have d: "isdigit d" "d \<noteq> 0" "d \<noteq> 0x2e \<and> d \<noteq> 0x45 \<and> d \<noteq> 0x65" using Cons.prems(3) by (auto simp: isdigit_def word_le_nat_alt)
  have "at_text b1 (d # ds @ e # w) (max 1 k)" using b1(2) by (rule at_text_mono) simp
  then obtain b' where "number_loop False (num @ [c]) d b1 = Some (Inr (False, (num @ [c]) @ d # ds), b')" "at_text b' (e # w) (max 1 k)"
    using Cons.IH[of b1 d "max 1 k" "num @ [c]"] Cons.prems(3,4) d(2) by auto
  moreover have "number_loop False num c b = number_loop False (num @ [c]) d b1"
    using b1(1) d by (subst number_loop.simps) simp
  ultimately show ?case by simp
qed

lemma isdigit_dec: "dec_dig c \<noteq> None \<longleftrightarrow> isdigit c"
  unfolding isdigit_def dec_dig_def by (simp, uint_arith, auto)

lemma ulonglong_text:
  "\<exists>n c ds. fmt_ulonglong True i = (n, c # ds) \<and> isdigit c \<and> list_all isdigit ds \<and> 0 < n \<and>
     scan_ulonglong (c # ds @ [0]) = Some (n, Some i)"
proof -
  obtain n u where u: "fmt_ulonglong True i = (n, u)" by fastforce
  then have r: "u = dec.render (unat i)" "n = length u" by (auto simp: fmt_num_eq)
  have "list_all isdigit u" using dec.all_digits_render[of "unat i"] unfolding r all_digits_def isdigit_dec by simp
  moreover obtain c ds where "u = c # ds" using dec.render_ne[of "unat i"] unfolding r(1)[symmetric] by (cases u) auto
  moreover have "scan_ulonglong (u @ [0]) = Some (n, Some i)"
    using scan_ulonglong_fmt[of 0 i "[]"] u by (simp add: dec_dig_def)
  ultimately show ?thesis using u r(2) by auto
qed

lemma scan_longlong_fmt:
  assumes "i \<noteq> 0x8000000000000000"
  shows "\<exists>n c ds. fmt_longlong True i = Some (n, c # ds) \<and> (isdigit c \<or> c = 0x2d) \<and> list_all isdigit ds \<and>
     0 < n \<and> scan_longlong (c # ds @ [0]) = Some (n, Some i)"
proof (cases "sint i < 0")
  case True
  obtain n c ds where u: "fmt_ulonglong True (- i) = (n, c # ds)" "isdigit c" "list_all isdigit ds" "0 < n"
      "scan_ulonglong (c # ds @ [0]) = Some (n, Some (- i))"
    using ulonglong_text[of "- i"] by blast
  have "- i \<le> 0x8000000000000000"
    using unat_uminus_neg[OF True] sint_ge[of i] by (simp add: word_le_nat_alt)
  then have "scan_longlong (0x2d # (c # ds) @ [0]) = Some (n + 1, Some i)"
    using u by (simp add: scan_longlong_def not_less)
  then show ?thesis using True assms u by (intro exI[of _ "n + 1"] exI[of _ "0x2d"] exI[of _ "c # ds"]) (simp add: fmt_longlong_def)
next
  case False
  obtain n c ds where u: "fmt_ulonglong True i = (n, c # ds)" "isdigit c" "list_all isdigit ds" "0 < n"
      "scan_ulonglong (c # ds @ [0]) = Some (n, Some i)"
    using ulonglong_text[of i] by blast
  have "i \<le> 0x7fffffffffffffff" using False sint_neg_iff[of i] by (simp add: word_le_nat_alt)
  moreover have "c \<noteq> 0x2d" "c \<noteq> 0x2b" using u(2) by (auto simp: isdigit_def)
  ultimately have "scan_longlong (c # ds @ [0]) = Some (n, Some i)" using u by (simp add: scan_longlong_def not_less)
  then show ?thesis using False u by (intro exI[of _ n] exI[of _ c] exI[of _ ds]) (simp add: fmt_longlong_def)
qed

lemma parse_number_other:
  assumes "at_text b (c # w) 1" "c \<noteq> 0" "\<not> isdigit c" "c \<noteq> 0x2d" "c \<noteq> 0x2e" "c \<noteq> 0x2b"
  shows "\<exists>b'. json_parse_number sd j b = Some ((0, j), b') \<and> at_text b' (c # w) 1"
proof -
  have "0 < uint c" using assms(2) by (simp add: word_neq_0_conv word_less_def)
  then show ?thesis using peek_at[OF assms(1)] assms(3-) by (auto simp: json_parse_number_def Let_def)
qed

lemma parse_number_text:
  assumes "fmt_longlong True i = Some (n, u)" "at_text b (u @ e # w) 1" "delim e"
  shows "\<exists>b'. json_parse_number sd j b = Some ((1, JSON_INT i), b') \<and> at_text b' (e # w) 1"
proof -
  have "i \<noteq> 0x8000000000000000" using assms(1) by (auto simp: fmt_longlong_def)
  then obtain c ds where c: "u = c # ds" "isdigit c \<or> c = 0x2d" "list_all isdigit ds" "0 < n" "scan_longlong (c # ds @ [0]) = Some (n, Some i)"
    using scan_longlong_fmt[of i] assms(1) by auto
  have c0: "c \<noteq> 0" using c(2) by (auto simp: isdigit_def)
  then have "0 < uint c" by (simp add: word_neq_0_conv word_less_def)
  moreover obtain b1 where "charbuf_peek b = Some (uint c, b1)" "at_text b1 (c # ds @ e # w) 1"
    using peek_at[of b c "ds @ e # w" 1] assms(2) c(1) by auto
  moreover from this obtain b2 where "number_loop False [] c b1 = Some (Inr (False, c # ds), b2)" "at_text b2 (e # w) 1"
    using number_loop_at[of b1 c ds e w 1 "[]"] c0 c(3) assms(3) by auto
  ultimately show ?thesis using c(2,4,5) by (auto simp: json_parse_number_def Let_def)
qed

subsection \<open>Strings that were printed\<close>

text \<open>
  Text that comes back: characters of ASCII other than the null byte, and no backslash before a
  \<open>u\<close>, which the printer takes for an escape that is there already.
\<close>

fun plain_text :: "byte list \<Rightarrow> bool" where
  "plain_text [] = True"
| "plain_text (c # w) = (0 < c \<and> c < 0x80 \<and> \<not> (c = 0x5c \<and> w \<noteq> [] \<and> hd w = 0x75) \<and> plain_text w)"

definition escaped :: "byte list \<Rightarrow> byte list" where
  "escaped s = concat (map (\<lambda>c. if c = 0x22 \<or> c = 0x5c then [0x5c, c] else [c]) s)"

lemma escaped_simps [simp]:
  "escaped [] = []" "escaped (c # s) = (if c = 0x22 \<or> c = 0x5c then [0x5c, c] else [c]) @ escaped s"
  by (simp_all add: escaped_def)

lemma escape_quoted:
  "fmt_escapecharjson True 0x22 0x22 = Some (2, [0x5c, 0x22])"
  "fmt_escapecharjson True 0x5c 0x22 = Some (2, [0x5c, 0x5c])"
  by (simp_all add: fmt_escapecharjson_def)

lemma string_step_plain:
  assumes "at_text b (c # w) 1" "c \<noteq> 0x22" "c \<noteq> 0x5c"
  shows "\<exists>b'. string_loop True acc b = string_loop True (acc @ [c]) b' \<and> at_text b' w 1"
proof -
  obtain b1 where b1: "charbuf_peekc b = Some ((1, c), b1)" "at_text b1 (c # w) 1" using peekc_at[OF assms(1)] by auto
  obtain b2 where b2: "charbuf_skip b1 = Some (uint c, b2)" "at_text b2 w 0" using skip_at[OF b1(2)] by auto
  have "string_loop True acc b = string_loop True (acc @ [c]) b2"
    using b1(1) b2(1) assms(2,3) by (subst string_loop.simps) simp
  moreover have "at_text b2 w 1" using b2(2) by (rule at_text_mono) simp
  ultimately show ?thesis by blast
qed

lemma string_step_escape:
  assumes "at_text b (0x5c # c # w) 1" "c \<noteq> 0"
  shows "\<exists>b'. string_loop True acc b = string_loop True (acc @ [c]) b' \<and> at_text b' w 1"
proof -
  obtain b1 where b1: "charbuf_peekc b = Some ((1, 0x5c), b1)" "at_text b1 (0x5c # c # w) 1" using peekc_at[OF assms(1)] by auto
  obtain b2 where b2: "charbuf_nextc b1 = Some ((1, c), b2)" "at_text b2 (c # w) 1" using nextc_at[OF b1(2)] by auto
  obtain b3 where b3: "charbuf_skip b2 = Some (uint c, b3)" "at_text b3 w 0" using skip_at[OF b2(2)] by auto
  have "string_loop True acc b = string_loop True (acc @ [c]) b3"
    using b1(1) b2(1) b3(1) by (subst string_loop.simps) simp
  moreover have "at_text b3 w 1" using b3(2) by (rule at_text_mono) simp
  ultimately show ?thesis by blast
qed

lemma string_loop_end:
  assumes "at_text b (0x22 # w) 1"
  shows "\<exists>b'. string_loop True acc b = Some ((1, acc), b') \<and> at_text b' w 1"
proof -
  obtain b1 where b1: "charbuf_peekc b = Some ((1, 0x22), b1)" "at_text b1 (0x22 # w) 1" using peekc_at[OF assms(1)] by auto
  obtain b2 where b2: "charbuf_skip b1 = Some (uint (0x22 :: byte), b2)" "at_text b2 w 0" using skip_at[OF b1(2)] by auto
  have "at_text b2 w 1" using b2(2) by (rule at_text_mono) simp
  then show ?thesis using b1(1) b2(1) by (subst string_loop.simps) simp
qed

lemma print_chars_text:
  "plain_text s \<Longrightarrow> print_chars 0x22 s = Some (escaped s)"
  by (induction s) (auto simp: escape_quoted)

lemma string_loop_at:
  assumes "plain_text s" "at_text b (escaped s @ 0x22 # w) 1"
  shows "\<exists>b'. string_loop True acc b = Some ((1, acc @ s), b') \<and> at_text b' w 1"
  using assms
proof (induction s arbitrary: acc b)
  case Nil
  then show ?case using string_loop_end[of b w acc] by simp
next
  case (Cons c s)
  let ?u = "escaped s @ 0x22 # w"
  have "\<exists>b'. string_loop True acc b = string_loop True (acc @ [c]) b' \<and> at_text b' ?u 1"
  proof (cases "c = 0x22 \<or> c = 0x5c")
    case True
    then have "c \<noteq> 0" "at_text b (0x5c # c # ?u) 1" using Cons.prems(2) by auto
    then show ?thesis using string_step_escape by blast
  next
    case False
    then have "at_text b (c # ?u) 1" using Cons.prems(2) by simp
    then show ?thesis using string_step_plain False by blast
  qed
  then obtain b' where b': "string_loop True acc b = string_loop True (acc @ [c]) b'" "at_text b' ?u 1" by blast
  then show ?case using Cons.IH[OF _ b'(2), of "acc @ [c]"] Cons.prems(1) by simp
qed

lemma scan_utf8_ascii:
  assumes "c < 0x80"
  shows "scan_utf8 (c # w) (Suc n) = Some (1, Some (ucast c))"
  using ascii_byte[of c] assms by (simp add: scan_utf8_def word_less_nat_alt Let_def)

lemma utf8_loop_ascii: "list_all (\<lambda>c. c < 0x80) s \<Longrightarrow> utf8_loop s out = Some (out @ s)"
proof (induction s arbitrary: out)
  case Nil
  show ?case by (subst utf8_loop.simps) simp
next
  case (Cons c s)
  then show ?case by (subst utf8_loop.simps) (simp add: scan_utf8_ascii ucast_up_ucast_id is_up)
qed

lemma plain_text_ascii: "plain_text s \<Longrightarrow> list_all (\<lambda>c. c < 0x80) s"
  by (induction s) auto

text \<open>A string in double quotes, as a value and as a key.\<close>

lemma parse_string_text:
  assumes "plain_text s" "at_text b (0x22 # escaped s @ 0x22 # w) 1"
  shows "\<exists>b'. json_parse_string j b = Some ((1, JSON_STRING s), b') \<and> at_text b' w 1"
proof -
  obtain b1 where b1: "charbuf_skip_ifeq b 0x22 = Some (1, b1)"
      "at_text b1 (escaped s @ 0x22 # w) 1"
    using skip_ifeq_at[OF assms(2), of "0x22"] by auto
  obtain b2 where "string_loop True [] b1 = Some ((1, s), b2)" "at_text b2 w 1"
    using string_loop_at[OF assms(1) b1(2), of "[]"] by auto
  then show ?thesis using b1(1) utf8_loop_ascii[OF plain_text_ascii[OF assms(1)], of "[]"]
    by (simp add: json_parse_string_def json_parse_stralloc_def)
qed

lemma parse_string_other:
  assumes "at_text b (c # w) 1" "c \<noteq> 0x22"
  shows "\<exists>b'. json_parse_string j b = Some ((0, j), b') \<and> at_text b' (c # w) 1"
  using skip_ifeq_at[OF assms(1), of "0x22"] assms(2) by (auto simp: json_parse_string_def)

subsection \<open>Items and their ends\<close>

definition spaces :: "byte list \<Rightarrow> bool" where
  "spaces w \<longleftrightarrow> list_all isspace w"

lemma dropWhile_spaces [simp]: "spaces s \<Longrightarrow> dropWhile isspace (s @ w) = dropWhile isspace w"
  by (induction s) (simp_all add: spaces_def)

lemma spaces_simps [simp]: "spaces []" "spaces (c # s) \<longleftrightarrow> isspace c \<and> spaces s" "spaces (s @ s') \<longleftrightarrow> spaces s \<and> spaces s'"
  by (simp_all add: spaces_def)

text \<open>
  \<open>reads parse w v\<close>: the parser makes \<open>v\<close> of the text \<open>w\<close> of a value, and leaves what follows
  except for spaces in front of it.
\<close>

definition reads :: "('d jsonval \<Rightarrow> charbuf \<Rightarrow> 'd parsed) \<Rightarrow> byte list \<Rightarrow> 'd jsonval \<Rightarrow> bool" where
  "reads parse w v \<longleftrightarrow> w \<noteq> [] \<and> \<not> isspace (hd w) \<and> hd w \<noteq> 0x5d \<and>
     (\<forall>j b e u. at_text b (w @ e # u) 1 \<longrightarrow> delim e \<longrightarrow>
        (\<exists>b' u'. parse j b = Some ((1, v), b') \<and> at_text b' u' 2 \<and> dropWhile isspace u' = dropWhile isspace (e # u)))"

lemma readsD:
  assumes "reads parse w v" "at_text b (w @ u) 1" "u \<noteq> []" "delim (hd u)"
  shows "\<exists>b' u'. parse j b = Some ((1, v), b') \<and> at_text b' u' 2 \<and> dropWhile isspace u' = dropWhile isspace u"
  using assms unfolding reads_def by (cases u) auto

lemma item_end_at:
  assumes "at_text b u 2" "dropWhile isspace u = c # t" "c = 0x2c \<or> c = close"
  shows "\<exists>b'. item_end close b = Some (c = 0x2c, b') \<and> at_text b' (dropWhile isspace t) 1"
proof -
  obtain v1 b1 where b1: "charbuf_skip_ws b = Some (v1, b1)" "at_text b1 (c # t) 2"
    using skip_ws_at[OF assms(1)] assms(2) by (auto simp: numeral_2_eq_2)
  obtain b2 where b2: "charbuf_peekc b1 = Some ((1, c), b2)" "at_text b2 (c # t) 2" using peekc_at[OF b1(2)] by (auto simp: numeral_2_eq_2)
  obtain b3 where b3: "charbuf_skip b2 = Some (uint c, b3)" "at_text b3 t 1" using skip_at[OF b2(2)] by auto
  obtain v4 b4 where "charbuf_skip_ws b3 = Some (v4, b4)" "at_text b4 (dropWhile isspace t) 1"
    using skip_ws_at[OF b3(2)] by auto
  then show ?thesis using b1(1) b2(1) b3(1) assms(3) by (auto simp: item_end_def)
qed

text \<open>The loops after an item.\<close>

definition array_next :: "('d jsonval \<Rightarrow> charbuf \<Rightarrow> 'd parsed) \<Rightarrow> 'd jsonval list \<Rightarrow> charbuf \<Rightarrow> 'd jsonval list ch_result" where
  "array_next parse items b = do { (more, b) \<leftarrow> item_end 0x5d b; if more then array_loop parse items b else Some (items, b) }"

definition object_next :: "(byte list \<Rightarrow> nat \<times> 'd) \<Rightarrow> ('d jsonval \<Rightarrow> charbuf \<Rightarrow> 'd parsed) \<Rightarrow> (byte list \<times> 'd jsonval) list \<Rightarrow> charbuf \<Rightarrow>
    (byte list \<times> 'd jsonval) list ch_result" where
  "object_next sd parse kvs b = do { (more, b) \<leftarrow> item_end 0x7d b; if more then object_loop sd parse kvs b else Some (kvs, b) }"

lemma array_loop_value:
  assumes "reads parse w v" "at_text b (w @ u) 1" "u \<noteq> []" "delim (hd u)"
  shows "\<exists>b' u'. array_loop parse acc b = array_next parse (acc @ [v]) b' \<and> at_text b' u' 2 \<and> dropWhile isspace u' = dropWhile isspace u"
proof -
  obtain c cs where c: "w = c # cs" "c \<noteq> 0x5d" using assms(1) by (cases w) (auto simp: reads_def)
  obtain b1 where b1: "charbuf_peekc b = Some ((1, c), b1)" "at_text b1 (w @ u) 1"
    using peekc_at[of b c "cs @ u" 1] assms(2) c(1) by auto
  obtain b2 u' where b2: "parse JSON_UNDEFINED b1 = Some ((1, v), b2)" "at_text b2 u' 2" "dropWhile isspace u' = dropWhile isspace u"
    using readsD[OF assms(1) b1(2) assms(3,4)] by blast
  have "array_loop parse acc b = array_next parse (acc @ [v]) b2"
    using b1(1) b2(1) c(2) unfolding array_next_def json_append_def by (subst array_loop.simps, unfold json_append_def) simp
  then show ?thesis using b2(2,3) by blast
qed

text \<open>A key in quotes, with nothing in it that the parser takes apart.\<close>

definition plain_key :: "byte list \<Rightarrow> bool" where
  "plain_key k \<longleftrightarrow> map_key k \<and> list_all (\<lambda>c. 0 < c \<and> c < 0x80 \<and> c \<noteq> 0x22 \<and> c \<noteq> 0x5c) k"

lemma plain_key_text:
  assumes "list_all (\<lambda>c. 0 < c \<and> c < 0x80 \<and> c \<noteq> 0x22 \<and> c \<noteq> 0x5c) k"
  shows "plain_text k \<and> escaped k = k"
  using assms by (induction k) auto

lemma object_loop_member:
  assumes "reads parse w v" "plain_key k" "spaces s" "k \<notin> fst ` set acc"
    and "at_text b (0x22 # k @ 0x22 # 0x3a # s @ w @ u) 1" "u \<noteq> []" "delim (hd u)"
  shows "\<exists>b' u'. object_loop sd parse acc b = object_next sd parse (acc @ [(k, v)]) b' \<and> at_text b' u' 2 \<and>
     dropWhile isspace u' = dropWhile isspace u"
proof -
  obtain c cs where c: "w = c # cs" "\<not> isspace c" using assms(1) by (cases w) (auto simp: reads_def)
  obtain b1 where b1: "charbuf_peekc b = Some ((1, 0x22), b1)" "at_text b1 (0x22 # k @ 0x22 # 0x3a # s @ w @ u) 1"
    using peekc_at[OF assms(5)] by auto
  have k: "plain_text k" "escaped k = k" "k \<noteq> []" "length k < MAX_SIZE_KEY"
    using assms(2) plain_key_text[of k] by (auto simp: plain_key_def map_key_def)
  obtain b2 where b2: "json_parse_string JSON_UNDEFINED b1 = Some ((1, JSON_STRING k :: 'a jsonval), b2)" "at_text b2 (0x3a # s @ w @ u) 1"
    using parse_string_text[OF k(1), of b1] b1(2) k(2) by auto
  then have key: "object_key sd b1 = Some (k, b2)" by (simp add: object_key_def)
  obtain v3 b3 where b3: "charbuf_skip_ws b2 = Some (v3, b3)" "at_text b3 (0x3a # s @ w @ u) 1"
    using skip_ws_at[OF b2(2)] by (auto simp: isspace_def)
  obtain b4 where b4: "charbuf_skip_ifeq b3 0x3a = Some (1, b4)" "at_text b4 (s @ w @ u) 1"
    using skip_ifeq_at[OF b3(2), of "0x3a"] c(1) by auto
  obtain v5 b5 where b5: "charbuf_skip_ws b4 = Some (v5, b5)" "at_text b5 (w @ u) 1"
    using skip_ws_at[OF b4(2)] assms(3) c by auto
  obtain b6 u' where b6: "parse JSON_UNDEFINED b5 = Some ((1, v), b6)" "at_text b6 u' 2" "dropWhile isspace u' = dropWhile isspace u"
    using readsD[OF assms(1) b5(2) assms(6,7)] by blast
  have "map_insert acc k v = Some (acc @ [(k, v)])"
    using k(3,4) assms(4) by (simp add: map_insert_def update_new)
  then have "object_loop sd parse acc b = object_next sd parse (acc @ [(k, v)]) b6"
    using b1(1) key b3(1) b4(1) b5(1) b6(1) by (subst object_loop.simps) (simp add: object_next_def)
  then show ?thesis using b6(2,3) by blast
qed

subsection \<open>What a printed value is read as\<close>

text \<open>
  A format that keeps to JSON: spaces around the items, a comma first in the separator, double quotes.
\<close>

definition fair_fmt :: "jsonfmt \<Rightarrow> bool" where
  "fair_fmt f \<longleftrightarrow> spaces (newline f) \<and> spaces (spacing f) \<and> spaces (indent f) \<and> separat f \<noteq> [] \<and> hd (separat f) = 0x2c \<and>
     spaces (tl (separat f)) \<and> quote0 f = 0x22 \<and> compliant f"

definition fair_printer :: "'d json_print_fn \<Rightarrow> bool" where
  "fair_printer p \<longleftrightarrow> (\<forall>v depth index q. fair_fmt (p v depth index q))"

text \<open>
  The values that come back: no empty arrays, no numbers with a point, not the least integer, text and
  keys as above, no key twice.
\<close>

fun plain :: "'d jsonval \<Rightarrow> bool" where
  "plain JSON_NULL = True"
| "plain (JSON_BOOL v) = True"
| "plain (JSON_INT i) = (i \<noteq> 0x8000000000000000)"
| "plain (JSON_STRING s) = plain_text s"
| "plain (JSON_ARRAY items) = (items \<noteq> [] \<and> list_all plain items)"
| "plain (JSON_OBJECT (Some kvs)) = (distinct (map fst kvs) \<and> list_all (\<lambda>(k, v). plain_key k \<and> plain v) kvs)"
| "plain v = False"

fun levels :: "'d jsonval \<Rightarrow> nat" where
  "levels (JSON_ARRAY items) = Suc (foldr max (map levels items) 0)"
| "levels (JSON_OBJECT (Some kvs)) = Suc (foldr max (map (\<lambda>(k, v). levels v) kvs) 0)"
| "levels v = 1"

lemma foldr_max_ge: "x \<in> set xs \<Longrightarrow> (x :: nat) \<le> foldr max xs 0"
  by (induction xs) auto

lemma spaces_concat: "spaces s \<Longrightarrow> spaces (concat (replicate n s))"
  by (induction n) simp_all

lemma separator_fair:
  assumes "fair_fmt f"
  shows "spaces (json_print_separator newline f)" "spaces (json_print_separator spacing f)"
    "\<exists>s. json_print_separator separat f = 0x2c # s \<and> spaces s"
proof -
  show "spaces (json_print_separator newline f)" "spaces (json_print_separator spacing f)"
    using assms spaces_concat[of "indent f"] by (simp_all add: fair_fmt_def json_print_separator_def)
  have "separat f = 0x2c # tl (separat f)" using assms by (cases "separat f") (simp_all add: fair_fmt_def)
  then have "json_print_separator separat f = 0x2c # (tl (separat f) @ (if 0x0a \<in> set (separat f) then concat (replicate (nat (fmt_depth f)) (indent f)) else []))"
    unfolding json_print_separator_def by (metis append_Cons)
  then show "\<exists>s. json_print_separator separat f = 0x2c # s \<and> spaces s"
    using assms spaces_concat[of "indent f"] by (auto simp: fair_fmt_def)
qed

lemma print_key_fair: "fair_fmt f \<Longrightarrow> json_print_key k f = 0x22 # k @ [0x22]"
  by (simp add: json_print_key_def fair_fmt_def Let_def)

lemma print_items_at:
  assumes "fair_printer p" "0 < index"
    and "\<And>v. v \<in> set items \<Longrightarrow> \<exists>w. json_print_val fd p (depth + 1) v = Some w \<and> reads parse w v"
  shows "\<exists>r. print_items fd p depth val index items = Some r \<and> (r = [] \<or> hd r = 0x2c) \<and>
     (\<forall>acc b u s t. at_text b u 2 \<longrightarrow> dropWhile isspace u = dropWhile isspace (r @ s @ 0x5d # t) \<longrightarrow> spaces s \<longrightarrow>
        (\<exists>b'. array_next parse acc b = Some (acc @ items, b') \<and> at_text b' (dropWhile isspace t) 1))"
  using assms(2,3)
proof (induction items arbitrary: index)
  case Nil
  show ?case
  proof (intro exI[of _ "[]"] conjI allI impI)
    fix acc :: "'a jsonval list" and b u s t
    assume h: "at_text b u 2" "dropWhile isspace u = dropWhile isspace ([] @ s @ 0x5d # t)" "spaces s"
    then have "dropWhile isspace u = 0x5d # t" by (simp add: isspace_def)
    then show "\<exists>b'. array_next parse acc b = Some (acc @ [], b') \<and> at_text b' (dropWhile isspace t) 1"
      using item_end_at[OF h(1), of "0x5d" t "0x5d"] by (auto simp: array_next_def)
  qed simp_all
next
  case (Cons v items)
  obtain w where w: "json_print_val fd p (depth + 1) v = Some w" "reads parse w v" using Cons.prems(2)[of v] by auto
  obtain r where r: "print_items fd p depth val (index + 1) items = Some r" "r = [] \<or> hd r = 0x2c"
      "\<And>acc b u s t. at_text b u 2 \<Longrightarrow> dropWhile isspace u = dropWhile isspace (r @ s @ 0x5d # t) \<Longrightarrow> spaces s \<Longrightarrow>
        (\<exists>b'. array_next parse acc b = Some (acc @ items, b') \<and> at_text b' (dropWhile isspace t) 1)"
    using Cons.IH[of "index + 1"] Cons.prems by fastforce
  have "fair_fmt (p (Some val) (depth + 1) index 0)" using assms(1) by (simp add: fair_printer_def)
  then obtain s1 where s1: "json_print_separator separat (p (Some val) (depth + 1) index 0) = 0x2c # s1" "spaces s1"
    using separator_fair(3) by blast
  obtain c cs where c: "w = c # cs" "\<not> isspace c" using w(2) by (cases w) (auto simp: reads_def)
  show ?case
  proof (intro exI[of _ "0x2c # s1 @ w @ r"] conjI allI impI)
    show "print_items fd p depth val index (v # items) = Some (0x2c # s1 @ w @ r)"
      using w(1) r(1) s1(1) Cons.prems(1) by simp
    fix acc :: "'a jsonval list" and b u s t
    assume h: "at_text b u 2" "dropWhile isspace u = dropWhile isspace ((0x2c # s1 @ w @ r) @ s @ 0x5d # t)" "spaces s"
    then have "dropWhile isspace u = 0x2c # (s1 @ w @ r @ s @ 0x5d # t)" by (simp add: isspace_def)
    then obtain b1 where b1: "item_end 0x5d b = Some (True, b1)" "at_text b1 (w @ r @ s @ 0x5d # t) 1"
      using item_end_at[OF h(1), of "0x2c" _ "0x5d"] s1(2) c by auto
    have "delim (hd (r @ s @ 0x5d # t))" using r(2) h(3) by (cases r; cases s) (auto simp: delim_def)
    then obtain b2 u2 where b2: "array_loop parse acc b1 = array_next parse (acc @ [v]) b2" "at_text b2 u2 2"
        "dropWhile isspace u2 = dropWhile isspace (r @ s @ 0x5d # t)"
      using array_loop_value[OF w(2) b1(2)] by blast
    then show "\<exists>b'. array_next parse acc b = Some (acc @ v # items, b') \<and> at_text b' (dropWhile isspace t) 1"
      using r(3)[OF b2(2,3) h(3), of "acc @ [v]"] b1(1) by (auto simp: array_next_def)
  qed simp
qed

lemma print_members_at:
  assumes "fair_printer p" "0 < index" "list_all (\<lambda>(k, v). plain_key k) kvs"
    and "\<And>k v. (k, v) \<in> set kvs \<Longrightarrow> \<exists>w. json_print_val fd p (depth + 1) v = Some w \<and> reads parse w v"
  shows "\<exists>r. print_members fd p depth val index kvs = Some r \<and> (r = [] \<or> hd r = 0x2c) \<and>
     (\<forall>acc b u s t. at_text b u 2 \<longrightarrow> dropWhile isspace u = dropWhile isspace (r @ s @ 0x7d # t) \<longrightarrow> spaces s \<longrightarrow>
        distinct (map fst (acc @ kvs)) \<longrightarrow>
        (\<exists>b'. object_next sd parse acc b = Some (acc @ kvs, b') \<and> at_text b' (dropWhile isspace t) 1))"
  using assms(2-4)
proof (induction kvs arbitrary: index)
  case Nil
  show ?case
  proof (intro exI[of _ "[]"] conjI allI impI)
    fix acc :: "(byte list \<times> 'a jsonval) list" and b u s t
    assume h: "at_text b u 2" "dropWhile isspace u = dropWhile isspace ([] @ s @ 0x7d # t)" "spaces s"
    then have "dropWhile isspace u = 0x7d # t" by (simp add: isspace_def)
    then show "\<exists>b'. object_next sd parse acc b = Some (acc @ [], b') \<and> at_text b' (dropWhile isspace t) 1"
      using item_end_at[OF h(1), of "0x7d" t "0x7d"] by (auto simp: object_next_def)
  qed simp_all
next
  case (Cons kv kvs)
  obtain k v where kv: "kv = (k, v)" by fastforce
  obtain w where w: "json_print_val fd p (depth + 1) v = Some w" "reads parse w v" using Cons.prems(3)[of k v] kv by auto
  obtain r where r: "print_members fd p depth val (index + 1) kvs = Some r" "r = [] \<or> hd r = 0x2c"
      "\<And>acc b u s t. at_text b u 2 \<Longrightarrow> dropWhile isspace u = dropWhile isspace (r @ s @ 0x7d # t) \<Longrightarrow> spaces s \<Longrightarrow>
        distinct (map fst (acc @ kvs)) \<Longrightarrow>
        (\<exists>b'. object_next sd parse acc b = Some (acc @ kvs, b') \<and> at_text b' (dropWhile isspace t) 1)"
    using Cons.IH[of "index + 1"] Cons.prems by fastforce
  have f: "fair_fmt (p None (depth + 1) index 0)" "fair_fmt (p None (depth + 1) (index + 1) 0)" using assms(1) by (simp_all add: fair_printer_def)
  obtain s1 where s1: "json_print_separator separat (p None (depth + 1) index 0) = 0x2c # s1" "spaces s1"
    using separator_fair(3)[OF f(1)] by blast
  define s2 where "s2 = json_print_separator spacing (p None (depth + 1) (index + 1) 0)"
  have s2: "spaces s2" using separator_fair(2)[OF f(2)] by (simp add: s2_def)
  have k: "plain_key k" using Cons.prems(2) kv by simp
  show ?case
  proof (intro exI[of _ "0x2c # s1 @ (0x22 # k @ [0x22]) @ 0x3a # s2 @ w @ r"] conjI allI impI)
    show "print_members fd p depth val index (kv # kvs) = Some (0x2c # s1 @ (0x22 # k @ [0x22]) @ 0x3a # s2 @ w @ r)"
      using w(1) r(1) s1(1) Cons.prems(1) kv print_key_fair[OF f(2)] by (simp add: s2_def)
    fix acc :: "(byte list \<times> 'a jsonval) list" and b u s t
    assume h: "at_text b u 2" "dropWhile isspace u = dropWhile isspace ((0x2c # s1 @ (0x22 # k @ [0x22]) @ 0x3a # s2 @ w @ r) @ s @ 0x7d # t)" "spaces s"
      "distinct (map fst (acc @ kv # kvs))"
    then have "dropWhile isspace u = 0x2c # (s1 @ 0x22 # k @ 0x22 # 0x3a # s2 @ w @ r @ s @ 0x7d # t)" by (simp add: isspace_def)
    then obtain b1 where b1: "item_end 0x7d b = Some (True, b1)" "at_text b1 (0x22 # k @ 0x22 # 0x3a # s2 @ w @ r @ s @ 0x7d # t) 1"
      using item_end_at[OF h(1), of "0x2c" _ "0x7d"] s1(2) by (auto simp: isspace_def)
    have "delim (hd (r @ s @ 0x7d # t))" using r(2) h(3) by (cases r; cases s) (auto simp: delim_def)
    moreover have "k \<notin> fst ` set acc" "distinct (map fst ((acc @ [kv]) @ kvs))" using h(4) kv by auto
    ultimately obtain b2 u2 where b2: "object_loop sd parse acc b1 = object_next sd parse (acc @ [kv]) b2" "at_text b2 u2 2"
        "dropWhile isspace u2 = dropWhile isspace (r @ s @ 0x7d # t)"
      using object_loop_member[OF w(2) k s2 _ b1(2), of acc sd] kv by blast
    then show "\<exists>b'. object_next sd parse acc b = Some (acc @ kv # kvs, b') \<and> at_text b' (dropWhile isspace t) 1"
      using r(3)[OF b2(2,3) h(3), of "acc @ [kv]"] b1(1) h(4) by (auto simp: object_next_def)
  qed simp
qed

lemma reads_array:
  assumes "fair_printer p" "items \<noteq> []"
    and "\<And>v. v \<in> set items \<Longrightarrow> \<exists>w. json_print_val fd p (depth + 1) v = Some w \<and> reads parse w v"
  shows "\<exists>w. json_print_val fd p depth (JSON_ARRAY items) = Some w \<and> hd w = 0x5b \<and> reads (json_parse_array parse) w (JSON_ARRAY items)"
proof -
  obtain v vs where v: "items = v # vs" using assms(2) by (cases items) auto
  let ?val = "JSON_ARRAY items"
  obtain w where w: "json_print_val fd p (depth + 1) v = Some w" "reads parse w v" using assms(3)[of v] v by auto
  obtain r where r: "print_items fd p depth ?val 1 vs = Some r" "r = [] \<or> hd r = 0x2c"
      "\<And>acc b u s t. at_text b u 2 \<Longrightarrow> dropWhile isspace u = dropWhile isspace (r @ s @ 0x5d # t) \<Longrightarrow> spaces s \<Longrightarrow>
        (\<exists>b'. array_next parse acc b = Some (acc @ vs, b') \<and> at_text b' (dropWhile isspace t) 1)"
    using print_items_at[OF assms(1), of 1 vs fd depth parse ?val] assms(3) v by fastforce
  define s1 where "s1 = json_print_separator newline (p (Some ?val) (depth + 1) 0 0)"
  define s2 where "s2 = json_print_separator newline (p (Some ?val) (depth + 1) (-2) 0)"
  have s: "spaces s1" "spaces s2" using assms(1) separator_fair(1) by (auto simp: s1_def s2_def fair_printer_def)
  obtain c cs where c: "w = c # cs" "\<not> isspace c" using w(2) by (cases w) (auto simp: reads_def)
  have "reads (json_parse_array parse) (0x5b # s1 @ w @ r @ s2 @ [0x5d]) ?val"
    unfolding reads_def
  proof (intro conjI allI impI)
    fix j :: "'a jsonval" and b e u
    assume h: "at_text b ((0x5b # s1 @ w @ r @ s2 @ [0x5d]) @ e # u) 1" "delim e"
    obtain b1 where b1: "charbuf_skip_ifeq b 0x5b = Some (1, b1)" "at_text b1 (s1 @ w @ r @ s2 @ 0x5d # e # u) 1"
      using skip_ifeq_at[of b "0x5b" _ 1 "0x5b"] h(1) by fastforce
    obtain v2 b2 where b2: "charbuf_skip_ws b1 = Some (v2, b2)" "at_text b2 (w @ r @ s2 @ 0x5d # e # u) 1"
      using skip_ws_at[OF b1(2)] s(1) c by auto
    have "delim (hd (r @ s2 @ 0x5d # e # u))" using r(2) s(2) by (cases r; cases s2) (auto simp: delim_def)
    then obtain b3 u3 where b3: "array_loop parse [] b2 = array_next parse ([] @ [v]) b3" "at_text b3 u3 2"
        "dropWhile isspace u3 = dropWhile isspace (r @ s2 @ 0x5d # e # u)"
      using array_loop_value[OF w(2) b2(2)] by blast
    then obtain b4 where b4: "array_loop parse [] b2 = Some (items, b4)" "at_text b4 (dropWhile isspace (e # u)) 1"
      using r(3)[OF b3(2,3) s(2), of "[v]"] v by auto
    moreover have "at_text b4 (dropWhile isspace (e # u)) 2" using b4(2) by (rule at_text_mono) simp
    ultimately show "\<exists>b' u'. json_parse_array parse j b = Some ((1, ?val), b') \<and> at_text b' u' 2 \<and> dropWhile isspace u' = dropWhile isspace (e # u)"
      using b1(1) b2(1) by (auto simp: json_parse_array_def)
  qed (simp_all add: isspace_def)
  then show ?thesis using w(1) r(1) v by (auto simp: s1_def s2_def)
qed

lemma object_body_at:
  assumes "fair_printer p" "list_all (\<lambda>(k, v). plain_key k) kvs" "distinct (map fst kvs)"
    and "\<And>k v. (k, v) \<in> set kvs \<Longrightarrow> \<exists>w. json_print_val fd p (depth + 1) v = Some w \<and> reads parse w v"
    and "spaces s2"
  shows "\<exists>m. print_members fd p depth (JSON_OBJECT (Some kvs)) 0 kvs = Some m \<and>
     (\<forall>b e u. at_text b (m @ s2 @ 0x7d # e # u) 1 \<longrightarrow> delim e \<longrightarrow> (\<exists>v1 b1 b' u'. charbuf_skip_ws b = Some (v1, b1) \<and>
        object_loop sd parse [] b1 = Some (kvs, b') \<and> at_text b' u' 2 \<and> dropWhile isspace u' = dropWhile isspace (e # u)))"
proof (cases kvs)
  case Nil
  show ?thesis
  proof (intro exI[of _ "[]"] conjI allI impI)
    fix b e u
    assume h: "at_text b ([] @ s2 @ 0x7d # e # u) 1" "delim e"
    obtain v1 b1 where b1: "charbuf_skip_ws b = Some (v1, b1)" "at_text b1 (0x7d # e # u) 1"
      using skip_ws_at[OF h(1)] assms(5) by (auto simp: isspace_def)
    obtain b2 where b2: "charbuf_peekc b1 = Some ((1, 0x7d), b2)" "at_text b2 (0x7d # e # u) 1" using peekc_at[OF b1(2)] by auto
    obtain x b3 where b3: "charbuf_nextc b2 = Some (x, b3)" "at_text b3 (e # u) 1" using nextc_at[OF b2(2)] by auto
    have "at_text b3 (e # u) 2" using b3(2) by (rule at_text_mono) simp
    moreover have "object_loop sd parse [] b1 = Some (kvs, b3)" using b2(1) b3(1) Nil by (subst object_loop.simps) simp
    ultimately show "\<exists>v1 b1 b' u'. charbuf_skip_ws b = Some (v1, b1) \<and>
      object_loop sd parse [] b1 = Some (kvs, b') \<and> at_text b' u' 2 \<and> dropWhile isspace u' = dropWhile isspace (e # u)"
      using b1(1) by blast
  qed (simp add: Nil)
next
  case (Cons kv kvs')
  obtain k v where kv: "kv = (k, v)" by fastforce
  obtain w where w: "json_print_val fd p (depth + 1) v = Some w" "reads parse w v" using assms(4)[of k v] Cons kv by auto
  obtain r where r: "print_members fd p depth (JSON_OBJECT (Some kvs)) 1 kvs' = Some r" "r = [] \<or> hd r = 0x2c"
      "\<And>acc b u s t. at_text b u 2 \<Longrightarrow> dropWhile isspace u = dropWhile isspace (r @ s @ 0x7d # t) \<Longrightarrow> spaces s \<Longrightarrow>
        distinct (map fst (acc @ kvs')) \<Longrightarrow>
        (\<exists>b'. object_next sd parse acc b = Some (acc @ kvs', b') \<and> at_text b' (dropWhile isspace t) 1)"
    using print_members_at[OF assms(1), of 1 kvs' fd depth parse "JSON_OBJECT (Some kvs)" sd] assms(2,4) Cons by fastforce
  define s1 where "s1 = json_print_separator newline (p (Some (JSON_OBJECT (Some kvs))) (depth + 1) 0 0)"
  define s3 where "s3 = json_print_separator spacing (p None (depth + 1) 1 0)"
  have s: "spaces s1" "spaces s3" using assms(1) separator_fair(1,2) by (auto simp: s1_def s3_def fair_printer_def)
  have f: "fair_fmt (p None (depth + 1) 1 0)" using assms(1) by (simp add: fair_printer_def)
  have k: "plain_key k" using assms(2) Cons kv by simp
  show ?thesis
  proof (intro exI[of _ "s1 @ (0x22 # k @ [0x22]) @ 0x3a # s3 @ w @ r"] conjI allI impI)
    show "print_members fd p depth (JSON_OBJECT (Some kvs)) 0 kvs = Some (s1 @ (0x22 # k @ [0x22]) @ 0x3a # s3 @ w @ r)"
      using w(1) r(1) Cons kv print_key_fair[OF f] by (simp add: s1_def s3_def)
    fix b e u
    assume h: "at_text b ((s1 @ (0x22 # k @ [0x22]) @ 0x3a # s3 @ w @ r) @ s2 @ 0x7d # e # u) 1" "delim e"
    obtain v1 b1 where b1: "charbuf_skip_ws b = Some (v1, b1)" "at_text b1 (0x22 # k @ 0x22 # 0x3a # s3 @ w @ r @ s2 @ 0x7d # e # u) 1"
      using skip_ws_at[OF h(1)] s(1) by (auto simp: isspace_def)
    have d: "delim (hd (r @ s2 @ 0x7d # e # u))" using r(2) assms(5) by (cases r; cases s2) (auto simp: delim_def)
    obtain b2 u2 where b2: "object_loop sd parse [] b1 = object_next sd parse ([] @ [kv]) b2" "at_text b2 u2 2"
        "dropWhile isspace u2 = dropWhile isspace (r @ s2 @ 0x7d # e # u)"
      using object_loop_member[OF w(2) k s(2) _ b1(2) _ d, of "[]" sd] kv by auto
    then obtain b3 where b3: "object_loop sd parse [] b1 = Some (kvs, b3)" "at_text b3 (dropWhile isspace (e # u)) 1"
      using r(3)[OF b2(2,3) assms(5), of "[kv]"] assms(3) Cons by auto
    have "at_text b3 (dropWhile isspace (e # u)) 2" using b3(2) by (rule at_text_mono) simp
    then show "\<exists>v1 b1 b' u'. charbuf_skip_ws b = Some (v1, b1) \<and>
      object_loop sd parse [] b1 = Some (kvs, b') \<and> at_text b' u' 2 \<and> dropWhile isspace u' = dropWhile isspace (e # u)"
      using b1(1) b3(1) dropWhile_idem by blast
  qed
qed

lemma reads_object:
  assumes "fair_printer p" "list_all (\<lambda>(k, v). plain_key k) kvs" "distinct (map fst kvs)"
    and "\<And>k v. (k, v) \<in> set kvs \<Longrightarrow> \<exists>w. json_print_val fd p (depth + 1) v = Some w \<and> reads parse w v"
  shows "\<exists>w. json_print_val fd p depth (JSON_OBJECT (Some kvs)) = Some w \<and> hd w = 0x7b \<and>
     reads (json_parse_object sd parse) w (JSON_OBJECT (Some kvs))"
proof -
  let ?val = "JSON_OBJECT (Some kvs)"
  define s2 where "s2 = json_print_separator newline (p (Some ?val) (depth + 1) (-2) 0)"
  have s2: "spaces s2" using assms(1) separator_fair(1) by (auto simp: s2_def fair_printer_def)
  have "\<exists>m. print_members fd p depth ?val 0 kvs = Some m \<and>
     (\<forall>b e u. at_text b (m @ s2 @ 0x7d # e # u) 1 \<longrightarrow> delim e \<longrightarrow> (\<exists>v1 b1 b' u'. charbuf_skip_ws b = Some (v1, b1) \<and>
        object_loop sd parse [] b1 = Some (kvs, b') \<and> at_text b' u' 2 \<and> dropWhile isspace u' = dropWhile isspace (e # u)))"
    by (rule object_body_at[OF assms s2])
  then obtain m where m: "print_members fd p depth ?val 0 kvs = Some m"
      "\<And>b e u. at_text b (m @ s2 @ 0x7d # e # u) 1 \<Longrightarrow> delim e \<Longrightarrow> \<exists>v1 b1 b' u'. charbuf_skip_ws b = Some (v1, b1) \<and>
        object_loop sd parse [] b1 = Some (kvs, b') \<and> at_text b' u' 2 \<and> dropWhile isspace u' = dropWhile isspace (e # u)"
    by blast
  have "reads (json_parse_object sd parse) (0x7b # m @ s2 @ [0x7d]) ?val"
    unfolding reads_def
  proof (intro conjI allI impI)
    fix j :: "'a jsonval" and b e u
    assume h: "at_text b ((0x7b # m @ s2 @ [0x7d]) @ e # u) 1" "delim e"
    obtain b1 where b1: "charbuf_skip_ifeq b 0x7b = Some (1, b1)" "at_text b1 (m @ s2 @ 0x7d # e # u) 1"
      using skip_ifeq_at[of b "0x7b" _ 1 "0x7b"] h(1) by fastforce
    then show "\<exists>b' u'. json_parse_object sd parse j b = Some ((1, ?val), b') \<and> at_text b' u' 2 \<and> dropWhile isspace u' = dropWhile isspace (e # u)"
      using m(2)[OF b1(2) h(2)] by (auto simp: json_parse_object_def)
  qed (simp_all add: isspace_def)
  then show ?thesis using m(1) by (auto simp: s2_def)
qed

lemma first_of_next:
  assumes "f j b = Some ((0, j), b')" "ps \<noteq> []"
  shows "first_of (f # ps) j b = first_of ps j b'"
  using assms by (cases ps) simp_all

lemma first_of_done:
  assumes "f j b = Some ((1, v), b')"
  shows "first_of (f # ps) j b = Some ((1, v), b')"
  using assms by (cases ps) simp_all

lemma parse_object_other:
  assumes "at_text b (c # w) 1" "c \<noteq> 0x7b"
  shows "\<exists>b'. json_parse_object sd parse j b = Some ((0, j), b') \<and> at_text b' (c # w) 1"
  using skip_ifeq_at[OF assms(1), of "0x7b"] assms(2) by (auto simp: json_parse_object_def)

lemma parse_array_other:
  assumes "at_text b (c # w) 1" "c \<noteq> 0x5b"
  shows "\<exists>b'. json_parse_array parse j b = Some ((0, j), b') \<and> at_text b' (c # w) 1"
  using skip_ifeq_at[OF assms(1), of "0x5b"] assms(2) by (auto simp: json_parse_array_def)

lemma json_parse_start:
  assumes "at_text b (c # w) 1" "\<not> isspace c"
  shows "\<exists>b'. json_parse (Suc n) junk sd j b =
     first_of [json_parse_object sd (json_parse n junk sd), json_parse_array (json_parse n junk sd),
       json_parse_null, json_parse_boolean junk, json_parse_number sd, json_parse_string] j b' \<and> at_text b' (c # w) 1"
proof -
  obtain v b' where b': "charbuf_skip_ws b = Some (v, b')" "at_text b' (c # w) 1" using skip_ws_at[OF assms(1)] assms(2) by auto
  then have "charbuf_pred_skip b (charbuf_is_ctype isspace) = Some (v, b')" by (simp add: charbuf_skip_ws_def)
  then show ?thesis using b'(2) by (intro exI[of _ b']) simp
qed

declare json_parse.simps(2) [simp del] first_of.simps [simp del]

lemma reads_from_object:
  assumes "reads (json_parse_object sd (json_parse n junk sd)) w v" "hd w = 0x7b"
  shows "reads (json_parse (Suc n) junk sd) w v"
  unfolding reads_def
proof (intro conjI allI impI)
  fix j :: "'a jsonval" and b e u
  assume h: "at_text b (w @ e # u) 1" "delim e"
  obtain c cs where c: "w = c # cs" "\<not> isspace c" using assms(1) by (cases w) (auto simp: reads_def)
  have w: "w @ e # u = c # cs @ e # u" using c(1) by simp
  obtain b1 where b1: "json_parse (Suc n) junk sd j b =
     first_of [json_parse_object sd (json_parse n junk sd), json_parse_array (json_parse n junk sd),
       json_parse_null, json_parse_boolean junk, json_parse_number sd, json_parse_string] j b1" "at_text b1 (w @ e # u) 1"
    using json_parse_start[OF h(1)[unfolded w] c(2), of n junk sd j] unfolding w by blast
  obtain b' u' where "json_parse_object sd (json_parse n junk sd) j b1 = Some ((1, v), b')" "at_text b' u' 2"
      "dropWhile isspace u' = dropWhile isspace (e # u)"
    using readsD[OF assms(1) b1(2), of j] h(2) by (auto simp del: dropWhile.simps)
  then show "\<exists>b' u'. json_parse (Suc n) junk sd j b = Some ((1, v), b') \<and> at_text b' u' 2 \<and> dropWhile isspace u' = dropWhile isspace (e # u)"
    using b1(1) first_of_done by metis
qed (use assms(1) in \<open>auto simp: reads_def\<close>)

text \<open>After the parsers of objects and of arrays.\<close>

lemma json_parse_no_object:
  assumes "at_text b (c # w) 1" "\<not> isspace c" "c \<noteq> 0x7b"
  shows "\<exists>b'. json_parse (Suc n) junk sd j b =
     first_of [json_parse_array (json_parse n junk sd), json_parse_null, json_parse_boolean junk, json_parse_number sd, json_parse_string] j b' \<and>
     at_text b' (c # w) 1"
proof -
  obtain b1 where b1: "json_parse (Suc n) junk sd j b =
     first_of [json_parse_object sd (json_parse n junk sd), json_parse_array (json_parse n junk sd),
       json_parse_null, json_parse_boolean junk, json_parse_number sd, json_parse_string] j b1" "at_text b1 (c # w) 1"
    using json_parse_start[OF assms(1,2)] by blast
  obtain b2 where "json_parse_object sd (json_parse n junk sd) j b1 = Some ((0, j), b2)" "at_text b2 (c # w) 1"
    using parse_object_other[OF b1(2) assms(3)] by blast
  then show ?thesis using b1(1) first_of_next by (metis list.distinct(1))
qed

lemma json_parse_scalar:
  assumes "at_text b (c # w) 1" "\<not> isspace c" "c \<noteq> 0x7b" "c \<noteq> 0x5b"
  shows "\<exists>b'. json_parse (Suc n) junk sd j b =
     first_of [json_parse_null, json_parse_boolean junk, json_parse_number sd, json_parse_string] j b' \<and> at_text b' (c # w) 1"
proof -
  obtain b1 where b1: "json_parse (Suc n) junk sd j b =
     first_of [json_parse_array (json_parse n junk sd), json_parse_null, json_parse_boolean junk, json_parse_number sd, json_parse_string] j b1"
      "at_text b1 (c # w) 1"
    using json_parse_no_object[OF assms(1-3)] by blast
  obtain b2 where "json_parse_array (json_parse n junk sd) j b1 = Some ((0, j), b2)" "at_text b2 (c # w) 1"
    using parse_array_other[OF b1(2) assms(4)] by blast
  then show ?thesis using b1(1) first_of_next by (metis list.distinct(1))
qed

lemma reads_from_array:
  assumes "reads (json_parse_array (json_parse n junk sd)) w v" "hd w = 0x5b"
  shows "reads (json_parse (Suc n) junk sd) w v"
  unfolding reads_def
proof (intro conjI allI impI)
  fix j :: "'a jsonval" and b e u
  assume h: "at_text b (w @ e # u) 1" "delim e"
  obtain cs where c: "w = 0x5b # cs" using assms by (cases w) (auto simp: reads_def)
  have w: "w @ e # u = 0x5b # cs @ e # u" using c by simp
  have s: "\<not> isspace 0x5b" "(0x5b :: byte) \<noteq> 0x7b" by (simp_all add: isspace_def)
  obtain b1 where b1: "json_parse (Suc n) junk sd j b =
     first_of [json_parse_array (json_parse n junk sd), json_parse_null, json_parse_boolean junk, json_parse_number sd, json_parse_string] j b1"
      "at_text b1 (w @ e # u) 1"
    using json_parse_no_object[OF h(1)[unfolded w] s, of n junk sd j] unfolding w by blast
  obtain b' u' where "json_parse_array (json_parse n junk sd) j b1 = Some ((1, v), b')" "at_text b' u' 2"
      "dropWhile isspace u' = dropWhile isspace (e # u)"
    using readsD[OF assms(1) b1(2), of j] h(2) by (auto simp del: dropWhile.simps)
  then show "\<exists>b' u'. json_parse (Suc n) junk sd j b = Some ((1, v), b') \<and> at_text b' u' 2 \<and> dropWhile isspace u' = dropWhile isspace (e # u)"
    using b1(1) first_of_done by metis
qed (use assms(1) in \<open>auto simp: reads_def\<close>)


text \<open>A value whose text does not begin like an array or an object.\<close>

lemma reads_scalar:
  assumes "w = c # cs" "\<not> isspace c" "c \<noteq> 0x7b" "c \<noteq> 0x5b" "c \<noteq> 0x5d"
    and "\<And>j b e u. at_text b (w @ e # u) 1 \<Longrightarrow> delim e \<Longrightarrow>
       \<exists>b'. first_of [json_parse_null, json_parse_boolean junk, json_parse_number sd, json_parse_string] j b = Some ((1, v), b') \<and>
            at_text b' (e # u) 2"
  shows "reads (json_parse (Suc n) junk sd) w v"
  unfolding reads_def
proof (intro conjI allI impI)
  fix j :: "'a jsonval" and b e u
  assume h: "at_text b (w @ e # u) 1" "delim e"
  have w: "w @ e # u = c # cs @ e # u" using assms(1) by simp
  obtain b1 where b1: "json_parse (Suc n) junk sd j b =
      first_of [json_parse_null, json_parse_boolean junk, json_parse_number sd, json_parse_string] j b1" "at_text b1 (w @ e # u) 1"
    using json_parse_scalar[OF h(1)[unfolded w] assms(2-4), of n junk sd j] unfolding w by blast
  then show "\<exists>b' u'. json_parse (Suc n) junk sd j b = Some ((1, v), b') \<and> at_text b' u' 2 \<and> dropWhile isspace u' = dropWhile isspace (e # u)"
    using assms(6)[OF b1(2) h(2), of j] by (metis (no_types))
qed (use assms in auto)

lemma reads_null: "reads (json_parse (Suc n) junk sd) [0x6e, 0x75, 0x6c, 0x6c] JSON_NULL"
proof (rule reads_scalar[where c = "0x6e" and cs = "[0x75, 0x6c, 0x6c]"])
  fix j :: "'a jsonval" and b e u
  assume h: "at_text b ([0x6e, 0x75, 0x6c, 0x6c] @ e # u) 1" "delim e"
  then obtain b' where "json_parse_null j b = Some ((1, JSON_NULL), b')" "at_text b' (e # u) 2"
    using parse_null_text[of b e u j] delim_char[OF h(2)] by (auto simp: null_text_def)
  then show "\<exists>b'. first_of [json_parse_null, json_parse_boolean junk, json_parse_number sd, json_parse_string] j b = Some ((1, JSON_NULL), b') \<and>
      at_text b' (e # u) 2"
    using first_of_done by metis
qed (simp_all add: isspace_def)

text \<open>The other scalars get past \<open>json_parse_null\<close>, and then past the parsers before their own.\<close>

lemma scalar_no_null:
  assumes "at_text b (c # w) 1" "c \<noteq> 0x6e"
  shows "\<exists>b'. first_of [json_parse_null, json_parse_boolean junk, json_parse_number sd, json_parse_string] j b =
     first_of [json_parse_boolean junk, json_parse_number sd, json_parse_string] j b' \<and> at_text b' (c # w) 1"
  using parse_null_other[OF assms, of j] first_of_next by (metis list.distinct(1))

lemma scalar_no_boolean:
  assumes "at_text b (c # w) 1" "c \<noteq> 0x6e" "c \<noteq> 0x74" "c \<noteq> 0x66"
  shows "\<exists>b'. first_of [json_parse_null, json_parse_boolean junk, json_parse_number sd, json_parse_string] j b =
     first_of [json_parse_number sd, json_parse_string] j b' \<and> at_text b' (c # w) 1"
proof -
  obtain b1 where b1: "first_of [json_parse_null, json_parse_boolean junk, json_parse_number sd, json_parse_string] j b =
     first_of [json_parse_boolean junk, json_parse_number sd, json_parse_string] j b1" "at_text b1 (c # w) 1"
    using scalar_no_null[OF assms(1,2)] by blast
  then show ?thesis using parse_boolean_other[OF b1(2) assms(3,4), of junk j] first_of_next by (metis list.distinct(1))
qed

lemma reads_bool: "reads (json_parse (Suc n) junk sd) (if v then [0x74, 0x72, 0x75, 0x65] else [0x66, 0x61, 0x6c, 0x73, 0x65]) (JSON_BOOL v)"
proof (rule reads_scalar[where c = "if v then 0x74 else 0x66" and cs = "if v then [0x72, 0x75, 0x65] else [0x61, 0x6c, 0x73, 0x65]"])
  let ?w = "if v then [0x74, 0x72, 0x75, 0x65] else [0x66, 0x61, 0x6c, 0x73, 0x65] :: byte list"
  let ?c = "if v then 0x74 else 0x66 :: byte"
  have w: "?w @ x = ?c # tl ?w @ x" for x by simp
  fix j :: "'a jsonval" and b e u
  assume h: "at_text b (?w @ e # u) 1" "delim e"
  have c: "?c \<noteq> 0x6e" by simp
  obtain b1 where b1: "first_of [json_parse_null, json_parse_boolean junk, json_parse_number sd, json_parse_string] j b =
     first_of [json_parse_boolean junk, json_parse_number sd, json_parse_string] j b1" "at_text b1 (?w @ e # u) 1"
    using scalar_no_null[OF h(1)[unfolded w] c, of junk sd j] unfolding w by blast
  obtain b2 where b2: "json_parse_boolean junk j b1 = Some ((1, JSON_BOOL v), b2)" "at_text b2 (e # u) 1"
    using parse_boolean_text[OF b1(2)] by blast
  have "at_text b2 (e # u) 2" using b2(2) by (rule at_text_mono) simp
  then show "\<exists>b'. first_of [json_parse_null, json_parse_boolean junk, json_parse_number sd, json_parse_string] j b = Some ((1, JSON_BOOL v), b') \<and>
      at_text b' (e # u) 2"
    using b1(1) b2(1) first_of_done by metis
qed (simp_all add: isspace_def)

lemma reads_int:
  assumes "i \<noteq> 0x8000000000000000"
  shows "\<exists>w. map_option snd (fmt_longlong True i) = Some w \<and> reads (json_parse (Suc n) junk sd) w (JSON_INT i)"
proof -
  obtain m c cs where w: "fmt_longlong True i = Some (m, c # cs)" "isdigit c \<or> c = 0x2d"
    using scan_longlong_fmt[OF assms] by blast
  have c: "\<not> isspace c" "c \<noteq> 0x7b" "c \<noteq> 0x5b" "c \<noteq> 0x5d" "c \<noteq> 0x6e" "c \<noteq> 0x74" "c \<noteq> 0x66"
    using w(2) by (auto simp: isdigit_def isspace_def word_le_nat_alt)
  have "reads (json_parse (Suc n) junk sd) (c # cs) (JSON_INT i)"
  proof (rule reads_scalar[OF refl c(1-4)])
    fix j :: "'a jsonval" and b e u
    assume h: "at_text b ((c # cs) @ e # u) 1" "delim e"
    obtain b1 where b1: "first_of [json_parse_null, json_parse_boolean junk, json_parse_number sd, json_parse_string] j b =
       first_of [json_parse_number sd, json_parse_string] j b1" "at_text b1 ((c # cs) @ e # u) 1"
      using scalar_no_boolean[of b c "cs @ e # u" junk sd j] h(1) c(5-7) by auto
    obtain b2 where b2: "json_parse_number sd j b1 = Some ((1, JSON_INT i), b2)" "at_text b2 (e # u) 1"
      using parse_number_text[OF w(1) b1(2) h(2), of sd j] by blast
    have "at_text b2 (e # u) 2" using b2(2) by (rule at_text_mono) simp
    then show "\<exists>b'. first_of [json_parse_null, json_parse_boolean junk, json_parse_number sd, json_parse_string] j b = Some ((1, JSON_INT i), b') \<and>
        at_text b' (e # u) 2"
      using b1(1) b2(1) first_of_done by metis
  qed
  then show ?thesis using w(1) by simp
qed

lemma reads_string:
  assumes "plain_text s"
  shows "reads (json_parse (Suc n) junk sd) (0x22 # escaped s @ [0x22]) (JSON_STRING s)"
proof (rule reads_scalar[where c = "0x22" and cs = "escaped s @ [0x22]"])
  fix j :: "'a jsonval" and b e u
  assume h: "at_text b ((0x22 # escaped s @ [0x22]) @ e # u) 1" "delim e"
  obtain b1 where b1: "first_of [json_parse_null, json_parse_boolean junk, json_parse_number sd, json_parse_string] j b =
     first_of [json_parse_number sd, json_parse_string] j b1" "at_text b1 (0x22 # escaped s @ 0x22 # e # u) 1"
    using scalar_no_boolean[of b "0x22" "escaped s @ 0x22 # e # u" junk sd j] h(1) by auto
  obtain b2 where b2: "json_parse_number sd j b1 = Some ((0, j), b2)" "at_text b2 (0x22 # escaped s @ 0x22 # e # u) 1"
    using parse_number_other[OF b1(2), of sd j] by (auto simp: isdigit_def)
  obtain b3 where b3: "json_parse_string j b2 = Some ((1, JSON_STRING s), b3)" "at_text b3 (e # u) 1"
    using parse_string_text[OF assms b2(2), of j] by blast
  have "at_text b3 (e # u) 2" using b3(2) by (rule at_text_mono) simp
  then show "\<exists>b'. first_of [json_parse_null, json_parse_boolean junk, json_parse_number sd, json_parse_string] j b = Some ((1, JSON_STRING s), b') \<and>
      at_text b' (e # u) 2"
    using b1(1) first_of_next[of "json_parse_number sd" j b1 b2 "[json_parse_string]"] b2(1) first_of_done[of json_parse_string j b2 _ b3 "[]"] b3(1) by auto
qed (simp_all add: isspace_def)

text \<open>The text of a value that comes back, at any depth of the printer.\<close>

lemma printed_reads:
  assumes "fair_printer p"
  shows "plain v \<Longrightarrow> levels v \<le> n \<Longrightarrow> \<exists>w. json_print_val fd p depth v = Some w \<and> reads (json_parse n junk sd) w v"
proof (induction v arbitrary: depth n)
  case JSON_NULL
  then show ?case using reads_null by (cases n) auto
next
  case (JSON_BOOL x)
  then obtain m where "n = Suc m" by (cases n) auto
  then show ?case using reads_bool[of m junk sd x] by simp
next
  case (JSON_INT x)
  then show ?case using reads_int[of x] by (cases n) auto
next
  case (JSON_STRING x)
  have "fair_fmt (p (Some (JSON_STRING x)) depth 0 0)" using assms by (simp add: fair_printer_def)
  then have "json_print_val fd p depth (JSON_STRING x) = Some (0x22 # escaped x @ [0x22])"
    using JSON_STRING.prems(1) print_chars_text[of x] by (simp add: json_print_str_def fair_fmt_def escaped_def)
  then show ?case using JSON_STRING.prems reads_string[of x] by (cases n) auto
next
  case (JSON_ARRAY x)
  obtain m where n: "n = Suc m" using JSON_ARRAY.prems(2) by (cases n) auto
  have "levels v \<le> m" if "v \<in> set x" for v
    using foldr_max_ge[of "levels v" "map levels x"] that JSON_ARRAY.prems(2) n by simp
  then have "\<exists>w. json_print_val fd p (depth + 1) v = Some w \<and> reads (json_parse m junk sd) w v" if "v \<in> set x" for v
    using JSON_ARRAY.IH[OF that] JSON_ARRAY.prems(1) that by (auto simp: list_all_iff)
  then obtain w where "json_print_val fd p depth (JSON_ARRAY x) = Some w" "hd w = 0x5b" "reads (json_parse_array (json_parse m junk sd)) w (JSON_ARRAY x)"
    using reads_array[OF assms, of x fd depth "json_parse m junk sd"] JSON_ARRAY.prems(1) by auto
  then show ?case using reads_from_array n by blast
next
  case (JSON_OBJECT x)
  obtain kvs where x: "x = Some kvs" using JSON_OBJECT.prems(1) by (cases x) auto
  obtain m where n: "n = Suc m" using JSON_OBJECT.prems(2) x by (cases n) auto
  have "levels v \<le> m" if "(k, v) \<in> set kvs" for k v
  proof -
    have "levels v \<in> set (map (\<lambda>(k, v). levels v) kvs)" using that by force
    then show ?thesis using foldr_max_ge JSON_OBJECT.prems(2) n x by fastforce
  qed
  moreover have "plain v" if "(k, v) \<in> set kvs" for k v using JSON_OBJECT.prems(1) x that by (auto simp: list_all_iff)
  ultimately have "\<exists>w. json_print_val fd p (depth + 1) v = Some w \<and> reads (json_parse m junk sd) w v" if "(k, v) \<in> set kvs" for k v
    using JSON_OBJECT.IH[of kvs "(k, v)" v] x that by (auto simp: snds.simps)
  moreover have "list_all (\<lambda>(k, v). plain_key k) kvs" "distinct (map fst kvs)" using JSON_OBJECT.prems(1) x by (auto simp: list_all_iff)
  ultimately obtain w where "json_print_val fd p depth (JSON_OBJECT x) = Some w" "hd w = 0x7b"
      "reads (json_parse_object sd (json_parse m junk sd)) w (JSON_OBJECT x)"
    using reads_object[OF assms, of kvs fd depth "json_parse m junk sd" sd] x by blast
  then show ?case using reads_from_object n by blast
qed simp_all


subsection \<open>Printing and reading documents\<close>

text \<open>
  What \<open>jsonpp\<close> does with one input: it reads a document and prints it, with a newline after it
  when it prints on one line.
\<close>

definition jsonpp_text :: "(int \<Rightarrow> 'd \<Rightarrow> byte list) \<Rightarrow> jsonpp_options \<Rightarrow> 'd jsonval \<Rightarrow> byte list option" where
  "jsonpp_text fd o1 v = map_option (\<lambda>w. w @ (if one_line o1 then [0x0a] else [])) (json_pretty_print fd o1 v)"

definition jsonpp_file :: "allocator \<Rightarrow> nat \<Rightarrow> byte \<Rightarrow> (byte list \<Rightarrow> nat \<times> 'd) \<Rightarrow> (int \<Rightarrow> 'd \<Rightarrow> byte list) \<Rightarrow> jsonpp_options \<Rightarrow> src \<Rightarrow> byte list option" where
  "jsonpp_file al n junk sd fd o1 s =
     do { (v, _) \<leftarrow> json_read_tree n junk sd (charbuf_init al (Fd s) 5); jsonpp_text fd o1 v }"

text \<open>The options with which the output is JSON and ends in space.\<close>

definition fair_options :: "jsonpp_options \<Rightarrow> bool" where
  "fair_options o1 \<longleftrightarrow> opt_quote0 o1 = 0x22 \<and> \<not> no_compliant o1 \<and> spaces (indent_str o1) \<and>
     (case opt_spacing o1 of None \<Rightarrow> True | Some s \<Rightarrow> spaces s) \<and>
     (case separator o1 of None \<Rightarrow> True | Some s \<Rightarrow> s \<noteq> [] \<and> hd s = 0x2c \<and> spaces (tl s)) \<and>
     (one_line o1 \<or> 0 < depth_arg o1)"

lemma setup_fair:
  assumes "\<not> no_compliant o1" "case opt_spacing o1 of None \<Rightarrow> True | Some s \<Rightarrow> spaces s"
    "case separator o1 of None \<Rightarrow> True | Some s \<Rightarrow> s \<noteq> [] \<and> hd s = 0x2c \<and> spaces (tl s)" "one_line o1 \<or> 0 < depth_arg o1"
  shows "fair_options (jsonpp_setup (o1, ind))"
proof -
  have "spaces (replicate k 0x20)" for k by (induction k) (simp_all add: isspace_def)
  then show ?thesis using assms by (simp add: fair_options_def jsonpp_setup_def)
qed

lemma opt_fair:
  assumes "fair_options o1"
  shows "spaces (opt_space o1)" "opt_separat o1 m \<noteq> [] \<and> hd (opt_separat o1 m) = 0x2c \<and> spaces (tl (opt_separat o1 m))"
  using assms by (auto simp: fair_options_def opt_space_def opt_separat_def isspace_def split: option.splits)

lemma jsonpp_fair:
  assumes "fair_options o1"
  shows "fair_printer (compact_printer o1)" "fair_printer (default_printer o1)"
  using assms opt_fair[OF assms]
  by (auto simp: fair_printer_def fair_fmt_def compact_printer_def default_printer_def fair_options_def Let_def isspace_def)

lemma jsonpp_text_reads:
  assumes "fair_options o1" "plain v" "levels v \<le> n"
  shows "\<exists>w e u. jsonpp_text fd o1 v = Some (w @ e # u) \<and> isspace e \<and> reads (json_parse n junk sd) w v"
proof -
  define p :: "'a json_print_fn" where "p = (if compact o1 then compact_printer o1 else default_printer o1)"
  have f: "fair_printer p" unfolding p_def by (simp add: jsonpp_fair[OF assms(1)])
  then have nl: "spaces (newline (p (Some v) 0 (-1) 0x22))" by (simp add: fair_printer_def fair_fmt_def)
  obtain w where w: "json_print_val fd p 0 v = Some w" "reads (json_parse n junk sd) w v"
    using printed_reads[OF f assms(2,3), of fd 0 junk sd] by blast
  define u where "u = newline (p (Some v) 0 (-1) 0x22) @ (if one_line o1 then [0x0a] else [])"
  have "jsonpp_text fd o1 v = Some (w @ u)"
    using w(1) by (simp add: jsonpp_text_def json_pretty_print_def json_print_def u_def flip: p_def)
  moreover have "spaces u" using nl by (simp add: u_def isspace_def)
  moreover have "u \<noteq> []" using assms(1) by (auto simp: u_def p_def fair_options_def compact_printer_def default_printer_def Let_def)
  ultimately show ?thesis using w(2) by (cases u) auto
qed

lemma read_tree_at:
  assumes "reads (json_parse n junk sd) w v" "at_text b (w @ e # u) 1" "delim e"
  shows "\<exists>b'. json_read_tree n junk sd b = Some (v, b')"
proof -
  obtain c cs where c: "w = c # cs" "\<not> isspace c" using assms(1) by (cases w) (auto simp: reads_def)
  obtain x b1 where b1: "charbuf_skip_ws b = Some (x, b1)" "at_text b1 (w @ e # u) 1" using skip_ws_at[OF assms(2)] c by auto
  obtain b2 where "json_parse n junk sd JSON_UNDEFINED b1 = Some ((1, v), b2)" using readsD[OF assms(1) b1(2)] assms(3) by auto
  then show ?thesis using b1(1) by (simp add: json_read_tree_def flip: charbuf_skip_ws_def)
qed

lemma fresh_at:
  assumes "grants al" "pending (rreplies s) = w"
  shows "at_text (charbuf_init al (Fd s) 5) w 0"
proof -
  have "window 5 = 8" by (simp add: window_def)
  then have "stands (charbuf_init al (Fd s) 5) 8 (fresh (Fd s)) 0" using charbuf_init_stands[OF assms(1), of "Fd s" 5] by simp
  then show ?thesis by (rule at_textI) (use assms(2) in \<open>simp_all add: fresh_def\<close>)
qed

text \<open>
  C5. What \<open>jsonpp\<close> prints it reads back as the same value, however the input arrives: run on its
  own output it prints exactly what it prints for the value, whatever the options of the second run.
  The first run has to print JSON (\<open>fair_options\<close>): double quotes, not \<open>-C\<close>, an indentation and a
  spacing of white space only, no separator or one that is a comma and white space, and a positive
  depth or one line.  The value is made of nested arrays and objects of null, booleans, integers and
  strings of ASCII characters other than NUL (\<open>plain\<close>), without empty arrays, the least integer and
  text with a backslash before a \<open>u\<close>; the keys of an object are distinct, not empty, shorter than
  1024 bytes and hold no quotes or backslashes.
\<close>
theorem jsonpp_round_trip:
  assumes "grants al" "fair_options o1" "plain v" "levels v \<le> n"
    and "jsonpp_text fd o1 v = Some w" "pending (rreplies s) = w"
  shows "(\<exists>b'. json_read_tree n junk sd (charbuf_init al (Fd s) 5) = Some (v, b')) \<and>
    jsonpp_file al n junk sd fd o2 s = jsonpp_text fd o2 v"
proof -
  obtain w' e u where w: "w = w' @ e # u" "isspace e" "reads (json_parse n junk sd) w' v"
    using jsonpp_text_reads[OF assms(2-4), of fd junk sd] assms(5) by auto
  have "at_text (charbuf_init al (Fd s) 5) (w' @ e # u) 1"
    using fresh_at[OF assms(1,6), unfolded w(1)] by (rule at_text_mono) simp
  then have "\<exists>b'. json_read_tree n junk sd (charbuf_init al (Fd s) 5) = Some (v, b')"
    using read_tree_at[OF w(3)] w(2) by (simp add: delim_def)
  then show ?thesis by (auto simp: jsonpp_file_def)
qed

definition js_sample :: "unit jsonval" where
  "js_sample = JSON_ARRAY [JSON_INT 7, JSON_OBJECT (Some [([97], JSON_STRING [0x22])])]"

theorem jsonpp_round_trip_witness:
  "\<exists>w. jsonpp_text (\<lambda>_ _. []) jsonpp_defaults js_sample = Some w \<and>
     jsonpp_file plenty 3 0 (\<lambda>_. (0, ())) (\<lambda>_ _. []) jsonpp_defaults \<lparr>rreplies = [Data w], rerrno = 0\<rparr> = Some w"
proof -
  have o: "fair_options jsonpp_defaults" by (simp add: fair_options_def jsonpp_defaults_def isspace_def)
  have v: "plain js_sample" "levels js_sample \<le> 3" by (simp_all add: js_sample_def plain_key_def map_key_def MAX_SIZE_KEY_def)
  obtain w where w: "jsonpp_text (\<lambda>_ _. []) jsonpp_defaults js_sample = Some w" using jsonpp_text_reads[OF o v] by blast
  have s: "pending (rreplies \<lparr>rreplies = [Data w], rerrno = 0\<rparr>) = w" by simp
  have "jsonpp_file plenty 3 0 (\<lambda>_. (0, ())) (\<lambda>_ _. []) jsonpp_defaults \<lparr>rreplies = [Data w], rerrno = 0\<rparr> = Some w"
    unfolding w[symmetric] by (rule conjunct2[OF jsonpp_round_trip[OF grants_plenty o v w s]])
  then show ?thesis using w by (intro exI[of _ w]) simp
qed

lemma empty_array_at:
  assumes "at_text b (0x5b # 0x5d # u) 1"
  shows "\<exists>b'. json_parse (Suc n) junk sd j b = Some ((1, JSON_ARRAY []), b') \<and> at_text b' (0x5d # u) 1"
proof -
  have c: "\<not> isspace 0x5b" "(0x5b :: byte) \<noteq> 0x7b" by (simp_all add: isspace_def)
  obtain b1 where b1: "json_parse (Suc n) junk sd j b =
     first_of [json_parse_array (json_parse n junk sd), json_parse_null, json_parse_boolean junk, json_parse_number sd, json_parse_string] j b1"
      "at_text b1 (0x5b # 0x5d # u) 1"
    using json_parse_no_object[OF assms c, of n junk sd j] by blast
  obtain b2 where b2: "charbuf_skip_ifeq b1 0x5b = Some (1, b2)" "at_text b2 (0x5d # u) 1"
    using skip_ifeq_at[OF b1(2), of "0x5b"] by auto
  obtain x b3 where b3: "charbuf_skip_ws b2 = Some (x, b3)" "at_text b3 (0x5d # u) 1"
    using skip_ws_at[OF b2(2)] by (auto simp: isspace_def)
  obtain b4 where b4: "charbuf_peekc b3 = Some ((1, 0x5d), b4)" "at_text b4 (0x5d # u) 1" using peekc_at[OF b3(2)] by auto
  have "array_loop (json_parse n junk sd) [] b3 = Some ([], b4)" using b4(1) by (subst array_loop.simps) simp
  then have "json_parse_array (json_parse n junk sd) j b1 = Some ((1, JSON_ARRAY []), b4)"
    using b2(1) b3(1) by (simp add: json_parse_array_def)
  then show ?thesis using b1(1) b4(2) first_of_done by metis
qed

text \<open>
  C39. An empty array inside an array ends the outer one: its bracket is not taken, so that it closes the array
  around it, and what follows is left unread.  The document \<open>[[],1]\<close> is read as \<open>[[]]\<close>.
\<close>
theorem json_empty_array_ends_outer:
  assumes "grants al" "pending (rreplies s) = 0x5b # 0x5b # 0x5d # u" "2 \<le> n"
  shows "\<exists>b'. json_read_tree n junk sd (charbuf_init al (Fd s) 5) = Some (JSON_ARRAY [JSON_ARRAY []], b') \<and>
     ahead (ch_abs b') = dropWhile isspace u"
proof -
  obtain m where "n = 2 + m" using le_Suc_ex[OF assms(3)] by blast
  then have n: "n = Suc (Suc m)" by simp
  have c: "\<not> isspace 0x5b" "(0x5b :: byte) \<noteq> 0x7b" by (simp_all add: isspace_def)
  obtain x1 b1 where b1: "charbuf_skip_ws (charbuf_init al (Fd s) 5) = Some (x1, b1)" "at_text b1 (0x5b # 0x5b # 0x5d # u) 1"
    using skip_ws_at[OF fresh_at[OF assms(1,2)]] c(1) by auto
  obtain b2 where b2: "json_parse n junk sd JSON_UNDEFINED b1 =
     first_of [json_parse_array (json_parse (Suc m) junk sd), json_parse_null, json_parse_boolean junk, json_parse_number sd, json_parse_string] JSON_UNDEFINED b2"
      "at_text b2 (0x5b # 0x5b # 0x5d # u) 1"
    using json_parse_no_object[OF b1(2) c] unfolding n by blast
  obtain b3 where b3: "charbuf_skip_ifeq b2 0x5b = Some (1, b3)" "at_text b3 (0x5b # 0x5d # u) 1"
    using skip_ifeq_at[OF b2(2), of "0x5b"] by auto
  obtain x4 b4 where b4: "charbuf_skip_ws b3 = Some (x4, b4)" "at_text b4 (0x5b # 0x5d # u) 1"
    using skip_ws_at[OF b3(2)] c(1) by auto
  obtain b5 where b5: "charbuf_peekc b4 = Some ((1, 0x5b), b5)" "at_text b5 (0x5b # 0x5d # u) 1" using peekc_at[OF b4(2)] by auto
  obtain b6 where b6: "json_parse (Suc m) junk sd JSON_UNDEFINED b5 = Some ((1, JSON_ARRAY []), b6)" "at_text b6 (0x5d # u) 1"
    using empty_array_at[OF b5(2)] by blast
  have "at_text b6 (0x5d # u) 2" using b6(2) by (rule at_text_mono) simp
  then obtain b7 where b7: "item_end 0x5d b6 = Some (False, b7)" "at_text b7 (dropWhile isspace u) 1"
    using item_end_at[of b6 "0x5d # u" "0x5d" u "0x5d"] by (auto simp: isspace_def)
  have "array_loop (json_parse (Suc m) junk sd) [] b4 = Some ([JSON_ARRAY []], b7)"
    using b5(1) b6(1) b7(1) by (subst array_loop.simps) (simp add: json_append_def)
  then have "json_parse_array (json_parse (Suc m) junk sd) JSON_UNDEFINED b2 = Some ((1, JSON_ARRAY [JSON_ARRAY []]), b7)"
    using b3(1) b4(1) by (simp add: json_parse_array_def)
  then have "json_parse n junk sd JSON_UNDEFINED b1 = Some ((1, JSON_ARRAY [JSON_ARRAY []]), b7)" using b2(1) first_of_done by metis
  moreover have "ahead (ch_abs b7) = dropWhile isspace u" using b7(2) by (auto simp: at_text_def stands_def)
  ultimately show ?thesis using b1(1) by (simp add: json_read_tree_def flip: charbuf_skip_ws_def)
qed

theorem json_empty_array_ends_outer_witness:
  "\<exists>b'. json_read_tree 2 0 (\<lambda>_. (0, ())) (charbuf_init plenty (Fd \<lparr>rreplies = [Data [0x5b, 0x5b], Data [0x5d, 0x2c, 0x31, 0x5d]], rerrno = 0\<rparr>) 5) =
       Some (JSON_ARRAY [JSON_ARRAY []], b') \<and> ahead (ch_abs b') = [0x2c, 0x31, 0x5d]"
proof -
  have p: "pending (rreplies \<lparr>rreplies = [Data [0x5b, 0x5b], Data [0x5d, 0x2c, 0x31, 0x5d]], rerrno = 0\<rparr>) =
      0x5b # 0x5b # 0x5d # [0x2c, 0x31, 0x5d]" by simp
  have u: "dropWhile isspace [0x2c, 0x31, 0x5d] = [0x2c, 0x31, 0x5d]" by (simp add: isspace_def)
  show ?thesis using json_empty_array_ends_outer[OF grants_plenty p order_refl, of 0 "\<lambda>_. (0, ())", unfolded u] .
qed

end
