(* ===== verification/Dlist.thy ===== *)
theory Dlist
  imports Prelude
begin

text \<open>
  The doubly linked list of \<open>src/lib/dlist\<close>.  Nodes live in memory that lists share: \<open>heap\<close> gives
  the links of the node at an address, a pointer is \<open>None\<close> for NULL, and reading or writing through
  NULL or an address without a node is \<open>None\<close>.  A list is the structure with its two pointers; an
  operation takes the memory and the lists it works on and returns them changed.

  \<open>dl_is\<close> relates a structure in memory to the list of its nodes, from head to tail.
\<close>

type_synonym addr = nat

record node =
  nd_prev :: "addr option"
  nd_next :: "addr option"

record dlist =
  dl_head :: "addr option"
  dl_tail :: "addr option"

type_synonym nodes = "addr \<Rightarrow> node option"

definition nd_load :: "nodes \<Rightarrow> addr option \<Rightarrow> node option" where
  "nd_load h p = (case p of None \<Rightarrow> None | Some a \<Rightarrow> h a)"

definition set_next :: "nodes \<Rightarrow> addr option \<Rightarrow> addr option \<Rightarrow> nodes option" where
  "set_next h p v = (case p of None \<Rightarrow> None
     | Some a \<Rightarrow> (case h a of None \<Rightarrow> None | Some n \<Rightarrow> Some (h(a := Some (n\<lparr>nd_next := v\<rparr>)))))"

definition set_prev :: "nodes \<Rightarrow> addr option \<Rightarrow> addr option \<Rightarrow> nodes option" where
  "set_prev h p v = (case p of None \<Rightarrow> None
     | Some a \<Rightarrow> (case h a of None \<Rightarrow> None | Some n \<Rightarrow> Some (h(a := Some (n\<lparr>nd_prev := v\<rparr>)))))"

subsection \<open>Operations\<close>

definition dlist_init :: dlist where
  "dlist_init = \<lparr>dl_head = None, dl_tail = None\<rparr>"

definition dlist_push :: "nodes \<Rightarrow> dlist \<Rightarrow> addr \<Rightarrow> (nodes \<times> dlist) option" where
  "dlist_push h l p =
     do { h \<leftarrow> set_next h (Some p) None;
          h \<leftarrow> set_prev h (Some p) (dl_tail l);
          (h, l) \<leftarrow> (if dl_tail l \<noteq> None then map_option (\<lambda>h. (h, l)) (set_next h (dl_tail l) (Some p))
                     else Some (h, l\<lparr>dl_head := Some p\<rparr>));
          Some (h, l\<lparr>dl_tail := Some p\<rparr>) }"

definition dlist_unshift :: "nodes \<Rightarrow> dlist \<Rightarrow> addr \<Rightarrow> (nodes \<times> dlist) option" where
  "dlist_unshift h l p =
     do { h \<leftarrow> set_prev h (Some p) None;
          h \<leftarrow> set_next h (Some p) (dl_head l);
          (h, l) \<leftarrow> (if dl_head l \<noteq> None then map_option (\<lambda>h. (h, l)) (set_prev h (dl_head l) (Some p))
                     else Some (h, l\<lparr>dl_tail := Some p\<rparr>));
          Some (h, l\<lparr>dl_head := Some p\<rparr>) }"

definition dlist_add_after :: "nodes \<Rightarrow> dlist \<Rightarrow> addr \<Rightarrow> addr option \<Rightarrow> (nodes \<times> dlist) option" where
  "dlist_add_after h l p after =
     (if after = dl_tail l then dlist_push h l p
      else do { n \<leftarrow> nd_load h after;
                h \<leftarrow> set_next h (Some p) (nd_next n);
                h \<leftarrow> set_prev h (Some p) after;
                n \<leftarrow> nd_load h after;
                h \<leftarrow> set_prev h (nd_next n) (Some p);
                h \<leftarrow> set_next h after (Some p);
                Some (h, l) })"

definition dlist_add_before :: "nodes \<Rightarrow> dlist \<Rightarrow> addr \<Rightarrow> addr option \<Rightarrow> (nodes \<times> dlist) option" where
  "dlist_add_before h l p before =
     (if before = dl_head l then dlist_unshift h l p
      else do { h \<leftarrow> set_next h (Some p) before;
                n \<leftarrow> nd_load h before;
                h \<leftarrow> set_prev h (Some p) (nd_prev n);
                n \<leftarrow> nd_load h before;
                h \<leftarrow> set_next h (nd_prev n) (Some p);
                h \<leftarrow> set_prev h before (Some p);
                Some (h, l) })"

definition dlist_remove :: "nodes \<Rightarrow> dlist \<Rightarrow> addr \<Rightarrow> (nodes \<times> dlist) option" where
  "dlist_remove h l p =
     do { n \<leftarrow> nd_load h (Some p);
          (h, l) \<leftarrow> (if Some p = dl_head l then Some (h, l\<lparr>dl_head := nd_next n\<rparr>)
                     else map_option (\<lambda>h. (h, l)) (set_next h (nd_prev n) (nd_next n)));
          n \<leftarrow> nd_load h (Some p);
          (h, l) \<leftarrow> (if dl_tail l = Some p then Some (h, l\<lparr>dl_tail := nd_prev n\<rparr>)
                     else map_option (\<lambda>h. (h, l)) (set_prev h (nd_next n) (nd_prev n)));
          h \<leftarrow> set_next h (Some p) None;
          h \<leftarrow> set_prev h (Some p) None;
          Some (h, l) }"

text \<open>The loop of \<open>dlist_foreach\<close>: nodes until the predicate holds.  A cyclic chain may never end.\<close>

partial_function (option) dlist_search :: "nodes \<Rightarrow> (addr \<Rightarrow> bool) \<Rightarrow> addr option \<Rightarrow> addr option option" where
  "dlist_search h pred p =
     (case p of
        None \<Rightarrow> Some None
      | Some a \<Rightarrow> if pred a then Some (Some a)
                  else do { n \<leftarrow> h a; dlist_search h pred (nd_next n) })"

definition dlist_find :: "nodes \<Rightarrow> dlist \<Rightarrow> (addr \<Rightarrow> bool) \<Rightarrow> addr option option" where
  "dlist_find h l pred = dlist_search h pred (dl_head l)"

definition dlist_find_delete :: "nodes \<Rightarrow> dlist \<Rightarrow> (addr \<Rightarrow> bool) \<Rightarrow> (addr option \<times> nodes \<times> dlist) option" where
  "dlist_find_delete h l pred =
     do { r \<leftarrow> dlist_search h pred (dl_head l);
          case r of
            None \<Rightarrow> Some (None, h, l)
          | Some p \<Rightarrow>
              do { n \<leftarrow> h p;
                   (h, l) \<leftarrow> (if nd_prev n \<noteq> None then map_option (\<lambda>h. (h, l)) (set_next h (nd_prev n) (nd_next n))
                              else Some (h, l\<lparr>dl_head := nd_next n\<rparr>));
                   n \<leftarrow> h p;
                   (h, l) \<leftarrow> (if nd_next n \<noteq> None then map_option (\<lambda>h. (h, l)) (set_prev h (nd_next n) (nd_prev n))
                              else Some (h, l\<lparr>dl_tail := nd_prev n\<rparr>));
                   h \<leftarrow> set_next h (Some p) None;
                   h \<leftarrow> set_prev h (Some p) None;
                   Some (Some p, h, l) } }"

partial_function (option) dlist_count :: "nodes \<Rightarrow> addr option \<Rightarrow> uint64 \<Rightarrow> uint64 option" where
  "dlist_count h p count =
     (case p of None \<Rightarrow> Some count | Some a \<Rightarrow> do { n \<leftarrow> h a; dlist_count h (nd_next n) (count + 1) })"

definition dlist_length :: "nodes \<Rightarrow> dlist \<Rightarrow> uint64 option" where
  "dlist_length h l = dlist_count h (dl_head l) 0"

definition dlist_move_head :: "nodes \<Rightarrow> dlist \<Rightarrow> dlist \<Rightarrow> (nodes \<times> dlist \<times> dlist) option" where
  "dlist_move_head h from' to =
     do { (h, to) \<leftarrow>
            (if dl_head to = None then Some (h, to\<lparr>dl_head := dl_head from', dl_tail := dl_tail from'\<rparr>)
             else if dl_tail from' \<noteq> None then
               do { h \<leftarrow> set_next h (dl_tail from') (dl_head to);
                    h \<leftarrow> set_prev h (dl_head to) (dl_tail from');
                    Some (h, to\<lparr>dl_head := dl_head from'\<rparr>) }
             else Some (h, to));
          Some (h, \<lparr>dl_head = None, dl_tail = None\<rparr>, to) }"

definition dlist_move_tail :: "nodes \<Rightarrow> dlist \<Rightarrow> dlist \<Rightarrow> (nodes \<times> dlist \<times> dlist) option" where
  "dlist_move_tail h from' to =
     do { (h, to) \<leftarrow>
            (if dl_tail to = None then Some (h, to\<lparr>dl_head := dl_head from', dl_tail := dl_tail from'\<rparr>)
             else if dl_head from' \<noteq> None then
               do { h \<leftarrow> set_prev h (dl_head from') (dl_tail to);
                    h \<leftarrow> set_next h (dl_tail to) (dl_head from');
                    Some (h, to\<lparr>dl_tail := dl_tail from'\<rparr>) }
             else Some (h, to));
          Some (h, \<lparr>dl_head = None, dl_tail = None\<rparr>, to) }"

definition dlist_swap :: "nodes \<Rightarrow> dlist \<Rightarrow> addr \<Rightarrow> addr \<Rightarrow> (nodes \<times> dlist) option" where
  "dlist_swap h l p1 p2 =
     (if p1 = p2 then Some (h, l)
      else do {
        l1 \<leftarrow> h p1;
        l2 \<leftarrow> h p2;
        (h, l) \<leftarrow> (if nd_next l2 \<noteq> None then map_option (\<lambda>h. (h, l)) (set_prev h (nd_next l2) (Some p1))
                   else Some (h, l\<lparr>dl_tail := Some p1\<rparr>));
        (h, l) \<leftarrow> (if nd_prev l2 \<noteq> None then map_option (\<lambda>h. (h, l)) (set_next h (nd_prev l2) (Some p1))
                   else Some (h, l\<lparr>dl_head := Some p1\<rparr>));
        (h, l) \<leftarrow> (if nd_next l1 \<noteq> None then map_option (\<lambda>h. (h, l)) (set_prev h (nd_next l1) (Some p2))
                   else Some (h, l\<lparr>dl_tail := Some p2\<rparr>));
        (h, l) \<leftarrow> (if nd_prev l1 \<noteq> None then map_option (\<lambda>h. (h, l)) (set_next h (nd_prev l1) (Some p2))
                   else Some (h, l\<lparr>dl_head := Some p2\<rparr>));
        n1 \<leftarrow> h p1;
        n2 \<leftarrow> h p2;
        Some (h(p1 := Some \<lparr>nd_prev = nd_prev n2, nd_next = nd_next n2\<rparr>,
                p2 := Some \<lparr>nd_prev = nd_prev n1, nd_next = nd_next n1\<rparr>), l) })"

subsection \<open>Lists in memory\<close>

definition first :: "'a list \<Rightarrow> 'a option \<Rightarrow> 'a option" where
  "first xs b = (case xs of [] \<Rightarrow> b | x # _ \<Rightarrow> Some x)"

definition final :: "'a option \<Rightarrow> 'a list \<Rightarrow> 'a option" where
  "final a xs = (if xs = [] then a else Some (last xs))"

lemma first_simps [simp]: "first [] b = b" "first (x # xs) b = Some x" "first (xs @ ys) b = first xs (first ys b)"
  by (auto simp: first_def split: list.splits)

lemma final_simps [simp]: "final a [] = a" "final a (x # xs) = final (Some x) xs" "final a (xs @ ys) = final (final a xs) ys"
  by (auto simp: final_def)

fun dseg :: "nodes \<Rightarrow> addr option \<Rightarrow> addr list \<Rightarrow> addr option \<Rightarrow> bool" where
  "dseg h a [] b = True"
| "dseg h a (x # xs) b = (h x = Some \<lparr>nd_prev = a, nd_next = first xs b\<rparr> \<and> dseg h (Some x) xs b)"

definition dl_is :: "nodes \<Rightarrow> dlist \<Rightarrow> addr list \<Rightarrow> bool" where
  "dl_is h l xs \<longleftrightarrow> distinct xs \<and> dseg h None xs None \<and> dl_head l = first xs None \<and> dl_tail l = final None xs"

lemma dseg_append [simp]: "dseg h a (xs @ ys) b \<longleftrightarrow> dseg h a xs (first ys b) \<and> dseg h (final a xs) ys b"
  by (induction xs arbitrary: a) auto

lemma dseg_upd [simp]: "x \<notin> set xs \<Longrightarrow> dseg (h(x := v)) a xs b = dseg h a xs b"
  by (induction xs arbitrary: a) auto

lemmas link_defs = set_next_def set_prev_def nd_load_def

lemma dlist_push_is:
  assumes "dl_is h l xs" "p \<notin> set xs" "h p \<noteq> None"
  shows "\<exists>h' l'. dlist_push h l p = Some (h', l') \<and> dl_is h' l' (xs @ [p]) \<and> (\<forall>a. a \<notin> insert p (set xs) \<longrightarrow> h' a = h a)"
  using assms by (cases xs rule: rev_cases) (auto simp: dlist_push_def dl_is_def link_defs)

lemma dlist_unshift_is:
  assumes "dl_is h l xs" "p \<notin> set xs" "h p \<noteq> None"
  shows "\<exists>h' l'. dlist_unshift h l p = Some (h', l') \<and> dl_is h' l' (p # xs) \<and> (\<forall>a. a \<notin> insert p (set xs) \<longrightarrow> h' a = h a)"
  using assms by (cases xs) (auto simp: dlist_unshift_def dl_is_def link_defs)

lemma dlist_add_after_is:
  assumes "dl_is h l (xs @ y # ys)" "p \<notin> set (xs @ y # ys)" "h p \<noteq> None"
  shows "\<exists>h' l'. dlist_add_after h l p (Some y) = Some (h', l') \<and> dl_is h' l' (xs @ y # p # ys)"
proof (cases ys)
  case Nil
  then have "dlist_add_after h l p (Some y) = dlist_push h l p"
    using assms(1) by (simp add: dlist_add_after_def dl_is_def)
  then show ?thesis using dlist_push_is[OF assms] Nil by auto
next
  case (Cons z zs)
  then have "Some y \<noteq> dl_tail l" using assms(1) by (auto simp: dl_is_def final_def)
  then show ?thesis using assms Cons by (auto simp: dlist_add_after_def dl_is_def link_defs)
qed

lemma dlist_add_before_is:
  assumes "dl_is h l (xs @ y # ys)" "p \<notin> set (xs @ y # ys)" "h p \<noteq> None"
  shows "\<exists>h' l'. dlist_add_before h l p (Some y) = Some (h', l') \<and> dl_is h' l' (xs @ p # y # ys)"
proof (cases xs rule: rev_cases)
  case Nil
  then have "dlist_add_before h l p (Some y) = dlist_unshift h l p"
    using assms(1) by (simp add: dlist_add_before_def dl_is_def)
  then show ?thesis using dlist_unshift_is[OF assms] Nil by auto
next
  case (snoc zs z)
  then have "Some y \<noteq> dl_head l" using assms(1) by (cases zs) (auto simp: dl_is_def)
  then show ?thesis using assms snoc by (auto simp: dlist_add_before_def dl_is_def link_defs)
qed

lemma final_in: "final a xs = Some p \<Longrightarrow> a = Some p \<or> p \<in> set xs"
  by (auto simp: final_def split: if_splits)

lemma dlist_remove_is:
  assumes "dl_is h l (xs @ p # ys)"
  shows "\<exists>h' l'. dlist_remove h l p = Some (h', l') \<and> dl_is h' l' (xs @ ys) \<and> h' p = Some \<lparr>nd_prev = None, nd_next = None\<rparr> \<and>
    (\<forall>a. a \<notin> set (xs @ p # ys) \<longrightarrow> h' a = h a)"
proof -
  have head: "Some p = dl_head l \<longleftrightarrow> xs = []" using assms by (cases xs) (auto simp: dl_is_def)
  have tail: "dl_tail l = Some p \<longleftrightarrow> ys = []" using assms by (cases ys rule: rev_cases) (auto simp: dl_is_def)
  show ?thesis
    using assms unfolding dlist_remove_def head tail
    by (cases xs rule: rev_cases; cases ys) (auto simp: dl_is_def link_defs dest: final_in)
qed

lemma dlist_search_eq:
  "dseg h a xs None \<Longrightarrow> dlist_search h pred (first xs None) = Some (List.find pred xs)"
proof (induction xs arbitrary: a)
  case Nil
  then show ?case by (subst dlist_search.simps) simp
next
  case (Cons x xs)
  then show ?case by (subst dlist_search.simps) auto
qed

lemma dlist_count_eq:
  "dseg h a xs None \<Longrightarrow> dlist_count h (first xs None) n = Some (n + of_nat (length xs))"
proof (induction xs arbitrary: a n)
  case Nil
  then show ?case by (subst dlist_count.simps) simp
next
  case (Cons x xs)
  then show ?case by (subst dlist_count.simps) (auto simp: algebra_simps)
qed

lemma dlist_find_delete_is:
  assumes "dl_is h l xs"
  shows "case List.find pred xs of
      None \<Rightarrow> dlist_find_delete h l pred = Some (None, h, l)
    | Some p \<Rightarrow> \<exists>h' l'. dlist_find_delete h l pred = Some (Some p, h', l') \<and> dl_is h' l' (remove1 p xs) \<and>
        h' p = Some \<lparr>nd_prev = None, nd_next = None\<rparr>"
proof (cases "List.find pred xs")
  case None
  then show ?thesis using assms dlist_search_eq[of h None xs pred] by (simp add: dlist_find_delete_def dl_is_def)
next
  case (Some p)
  then have "p \<in> set xs" by (metis find_Some_iff nth_mem)
  then obtain ys zs where xs: "xs = ys @ p # zs" "p \<notin> set ys" by (metis split_list_first)
  have s: "dlist_search h pred (dl_head l) = Some (Some p)"
    using assms Some dlist_search_eq[of h None xs pred] by (simp add: dl_is_def)
  have r: "remove1 p xs = ys @ zs" using xs by (simp add: remove1_append)
  have "\<exists>h' l'. dlist_find_delete h l pred = Some (Some p, h', l') \<and> dl_is h' l' (ys @ zs) \<and>
        h' p = Some \<lparr>nd_prev = None, nd_next = None\<rparr>"
    using assms s xs(1)
    by (cases ys rule: rev_cases; cases zs) (auto simp: dlist_find_delete_def dl_is_def link_defs)
  then show ?thesis by (simp add: Some r)
qed

lemma dlist_move_head_is:
  assumes "dl_is h f xs" "dl_is h t ys" "set xs \<inter> set ys = {}"
  shows "\<exists>h' f' t'. dlist_move_head h f t = Some (h', f', t') \<and> dl_is h' f' [] \<and> dl_is h' t' (xs @ ys)"
  using assms by (cases xs rule: rev_cases; cases ys) (auto simp: dlist_move_head_def dl_is_def link_defs)

lemma dlist_move_tail_is:
  assumes "dl_is h f xs" "dl_is h t ys" "set xs \<inter> set ys = {}"
  shows "\<exists>h' f' t'. dlist_move_tail h f t = Some (h', f', t') \<and> dl_is h' f' [] \<and> dl_is h' t' (ys @ xs)"
  using assms by (cases xs; cases ys rule: rev_cases) (auto simp: dlist_move_tail_def dl_is_def link_defs)

lemma dlist_swap_is:
  assumes "dl_is h l (xs @ p # ys @ q # zs)"
  shows "\<exists>h' l'. dlist_swap h l p q = Some (h', l') \<and> dl_is h' l' (xs @ q # ys @ p # zs)"
proof -
  have pq: "p \<noteq> q" using assms by (auto simp: dl_is_def)
  consider "ys = []" | y where "ys = [y]" | y us z where "ys = y # us @ [z]" by (metis list.exhaust rev_exhaust)
  then show ?thesis
  proof cases
    case 1
    then show ?thesis using assms pq
      by (cases xs rule: rev_cases; cases zs) (auto simp: dlist_swap_def dl_is_def link_defs)
  next
    case 2
    then show ?thesis using assms pq
      by (cases xs rule: rev_cases; cases zs) (auto simp: dlist_swap_def dl_is_def link_defs)
  next
    case 3
    then show ?thesis using assms pq
      by (cases xs rule: rev_cases; cases zs) (auto simp: dlist_swap_def dl_is_def link_defs)
  qed
qed

lemma dlist_swap_back_is:
  assumes "dl_is h l (xs @ p # ys @ q # zs)"
  shows "\<exists>h' l'. dlist_swap h l q p = Some (h', l') \<and> dl_is h' l' (xs @ q # ys @ p # zs)"
proof -
  have pq: "p \<noteq> q" using assms by (auto simp: dl_is_def)
  consider "ys = []" | y where "ys = [y]" | y us z where "ys = y # us @ [z]" by (metis list.exhaust rev_exhaust)
  then show ?thesis using assms pq
    by cases (cases xs rule: rev_cases; cases zs; auto simp: dlist_swap_def dl_is_def link_defs)+
qed

subsection \<open>The contract of a chain of nodes\<close>

locale node_chain =
  fixes holds :: "'s \<Rightarrow> addr list \<Rightarrow> bool"
    and spare :: "'s \<Rightarrow> addr \<Rightarrow> bool"
    and at_head :: "'s \<Rightarrow> addr \<Rightarrow> 's option"
    and at_tail :: "'s \<Rightarrow> addr \<Rightarrow> 's option"
  assumes head_law: "holds s xs \<Longrightarrow> p \<notin> set xs \<Longrightarrow> spare s p \<Longrightarrow>
      \<exists>s'. at_head s p = Some s' \<and> holds s' (p # xs) \<and> (\<forall>q. spare s q \<longrightarrow> q \<noteq> p \<longrightarrow> q \<notin> set xs \<longrightarrow> spare s' q)"
    and tail_law: "holds s xs \<Longrightarrow> p \<notin> set xs \<Longrightarrow> spare s p \<Longrightarrow>
      \<exists>s'. at_tail s p = Some s' \<and> holds s' (xs @ [p]) \<and> (\<forall>q. spare s q \<longrightarrow> q \<noteq> p \<longrightarrow> q \<notin> set xs \<longrightarrow> spare s' q)"
begin

fun build :: "('s \<Rightarrow> addr \<Rightarrow> 's option) \<Rightarrow> addr list \<Rightarrow> 's \<Rightarrow> 's option" where
  "build f [] s = Some s"
| "build f (p # ps) s = do { s \<leftarrow> f s p; build f ps s }"

lemma build_tail:
  "holds s xs \<Longrightarrow> distinct ps \<Longrightarrow> set ps \<inter> set xs = {} \<Longrightarrow> \<forall>p\<in>set ps. spare s p \<Longrightarrow>
     \<exists>s'. build at_tail ps s = Some s' \<and> holds s' (xs @ ps)"
proof (induction ps arbitrary: s xs)
  case (Cons p ps)
  obtain s1 where s1: "at_tail s p = Some s1" "holds s1 (xs @ [p])"
      "\<forall>q. spare s q \<longrightarrow> q \<noteq> p \<longrightarrow> q \<notin> set xs \<longrightarrow> spare s1 q"
    using tail_law[of s xs p] Cons.prems by auto
  have "\<forall>q\<in>set ps. spare s1 q" using s1(3) Cons.prems by auto
  then show ?case using Cons.IH[OF s1(2)] s1(1) Cons.prems by auto
qed simp

lemma build_head:
  "holds s xs \<Longrightarrow> distinct ps \<Longrightarrow> set ps \<inter> set xs = {} \<Longrightarrow> \<forall>p\<in>set ps. spare s p \<Longrightarrow>
     \<exists>s'. build at_head ps s = Some s' \<and> holds s' (rev ps @ xs)"
proof (induction ps arbitrary: s xs)
  case (Cons p ps)
  obtain s1 where s1: "at_head s p = Some s1" "holds s1 (p # xs)"
      "\<forall>q. spare s q \<longrightarrow> q \<noteq> p \<longrightarrow> q \<notin> set xs \<longrightarrow> spare s1 q"
    using head_law[of s xs p] Cons.prems by auto
  have "\<forall>q\<in>set ps. spare s1 q" using s1(3) Cons.prems by auto
  then show ?case using Cons.IH[OF s1(2)] s1(1) Cons.prems by auto
qed simp

end

interpretation dlc: node_chain "\<lambda>s. dl_is (fst s) (snd s)" "\<lambda>s p. fst s p \<noteq> None"
  "\<lambda>s. dlist_unshift (fst s) (snd s)" "\<lambda>s. dlist_push (fst s) (snd s)"
proof
  fix s :: "nodes \<times> dlist" and xs p
  assume a: "dl_is (fst s) (snd s) xs" "p \<notin> set xs" "fst s p \<noteq> None"
  show "\<exists>s'. dlist_unshift (fst s) (snd s) p = Some s' \<and> dl_is (fst s') (snd s') (p # xs) \<and>
      (\<forall>q. fst s q \<noteq> None \<longrightarrow> q \<noteq> p \<longrightarrow> q \<notin> set xs \<longrightarrow> fst s' q \<noteq> None)"
    using dlist_unshift_is[OF a] by force
  show "\<exists>s'. dlist_push (fst s) (snd s) p = Some s' \<and> dl_is (fst s') (snd s') (xs @ [p]) \<and>
      (\<forall>q. fst s q \<noteq> None \<longrightarrow> q \<noteq> p \<longrightarrow> q \<notin> set xs \<longrightarrow> fst s' q \<noteq> None)"
    using dlist_push_is[OF a] by force
qed

subsection \<open>Claims\<close>

text \<open>
  C27. Every operation on a doubly linked list has the effect of its name on the list of nodes, and leaves
  both directions of the links consistent: adding after and before a node, and removing one, whose own
  links become NULL.
\<close>

theorem dlist_edit_exact:
  assumes "dl_is h l (xs @ y # ys)" "p \<notin> set (xs @ y # ys)" "h p \<noteq> None"
  shows "(\<exists>h' l'. dlist_add_after h l p (Some y) = Some (h', l') \<and> dl_is h' l' (xs @ y # p # ys)) \<and>
    (\<exists>h' l'. dlist_add_before h l p (Some y) = Some (h', l') \<and> dl_is h' l' (xs @ p # y # ys)) \<and>
    (\<exists>h' l'. dlist_remove h l y = Some (h', l') \<and> dl_is h' l' (xs @ ys) \<and> h' y = Some \<lparr>nd_prev = None, nd_next = None\<rparr>)"
  using dlist_add_after_is[OF assms] dlist_add_before_is[OF assms] dlist_remove_is[OF assms(1)] by blast

definition dl_sample :: nodes where
  "dl_sample = (\<lambda>a. None)(1 := Some \<lparr>nd_prev = None, nd_next = Some 2\<rparr>, 2 := Some \<lparr>nd_prev = Some 1, nd_next = None\<rparr>,
     3 := Some \<lparr>nd_prev = None, nd_next = None\<rparr>)"

theorem dlist_edit_exact_witness:
  "(\<exists>h' l'. dlist_add_after dl_sample \<lparr>dl_head = Some 1, dl_tail = Some 2\<rparr> 3 (Some 1) = Some (h', l') \<and> dl_is h' l' ([] @ 1 # 3 # [2])) \<and>
    (\<exists>h' l'. dlist_add_before dl_sample \<lparr>dl_head = Some 1, dl_tail = Some 2\<rparr> 3 (Some 1) = Some (h', l') \<and> dl_is h' l' ([] @ 3 # 1 # [2])) \<and>
    (\<exists>h' l'. dlist_remove dl_sample \<lparr>dl_head = Some 1, dl_tail = Some 2\<rparr> 1 = Some (h', l') \<and> dl_is h' l' ([] @ [2]) \<and>
       h' 1 = Some \<lparr>nd_prev = None, nd_next = None\<rparr>)"
  by (rule dlist_edit_exact) (simp_all add: dl_is_def dl_sample_def)

text \<open>
  C26. \<open>dlist_swap\<close> exchanges two nodes of a list, adjacent ones too, in whichever order they are given.
\<close>
theorem dlist_swap_exact:
  assumes "dl_is h l (xs @ p # ys @ q # zs)"
  shows "(\<exists>h' l'. dlist_swap h l p q = Some (h', l') \<and> dl_is h' l' (xs @ q # ys @ p # zs)) \<and>
    (\<exists>h' l'. dlist_swap h l q p = Some (h', l') \<and> dl_is h' l' (xs @ q # ys @ p # zs))"
  using dlist_swap_is[OF assms] dlist_swap_back_is[OF assms] by blast

theorem dlist_swap_exact_witness:
  "(\<exists>h' l'. dlist_swap dl_sample \<lparr>dl_head = Some 1, dl_tail = Some 2\<rparr> 1 2 = Some (h', l') \<and> dl_is h' l' ([] @ 2 # [] @ 1 # [])) \<and>
    (\<exists>h' l'. dlist_swap dl_sample \<lparr>dl_head = Some 1, dl_tail = Some 2\<rparr> 2 1 = Some (h', l') \<and> dl_is h' l' ([] @ 2 # [] @ 1 # []))"
  by (rule dlist_swap_exact) (simp add: dl_is_def dl_sample_def)

text \<open>
  Splicing lists: \<open>dlist_move_head\<close> and \<open>dlist_move_tail\<close> put all nodes of one list in front of or
  behind those of another and leave the first empty.
\<close>

theorem dlist_move_exact:
  assumes "dl_is h f xs" "dl_is h t ys" "set xs \<inter> set ys = {}"
  shows "(\<exists>h' f' t'. dlist_move_head h f t = Some (h', f', t') \<and> dl_is h' f' [] \<and> dl_is h' t' (xs @ ys)) \<and>
    (\<exists>h' f' t'. dlist_move_tail h f t = Some (h', f', t') \<and> dl_is h' f' [] \<and> dl_is h' t' (ys @ xs))"
  using dlist_move_head_is[OF assms] dlist_move_tail_is[OF assms] by blast

theorem dlist_move_exact_witness:
  "(\<exists>h' f' t'. dlist_move_head dl_sample \<lparr>dl_head = Some 1, dl_tail = Some 2\<rparr> \<lparr>dl_head = Some 3, dl_tail = Some 3\<rparr> = Some (h', f', t') \<and>
      dl_is h' f' [] \<and> dl_is h' t' ([1, 2] @ [3])) \<and>
    (\<exists>h' f' t'. dlist_move_tail dl_sample \<lparr>dl_head = Some 1, dl_tail = Some 2\<rparr> \<lparr>dl_head = Some 3, dl_tail = Some 3\<rparr> = Some (h', f', t') \<and>
      dl_is h' f' [] \<and> dl_is h' t' ([3] @ [1, 2]))"
  by (rule dlist_move_exact) (simp_all add: dl_is_def dl_sample_def)

text \<open>
  Building a list by pushing nodes gives them in order, by unshifting in reverse; searching it ends and
  finds the first node that satisfies the predicate, and its length is the number of nodes.
\<close>

theorem dlist_build_search:
  assumes "distinct ps" "\<forall>p\<in>set ps. h p \<noteq> None"
  shows "(\<exists>h' l'. dlc.build (\<lambda>s. dlist_push (fst s) (snd s)) ps (h, dlist_init) = Some (h', l') \<and> dl_is h' l' ps \<and>
      dlist_find h' l' pred = Some (List.find pred ps) \<and> dlist_length h' l' = Some (of_nat (length ps))) \<and>
    (\<exists>h' l'. dlc.build (\<lambda>s. dlist_unshift (fst s) (snd s)) ps (h, dlist_init) = Some (h', l') \<and> dl_is h' l' (rev ps))"
proof
  have empty: "dl_is h dlist_init []" by (simp add: dl_is_def dlist_init_def)
  obtain h' l' where "dlc.build (\<lambda>s. dlist_push (fst s) (snd s)) ps (h, dlist_init) = Some (h', l')" "dl_is h' l' ps"
    using dlc.build_tail[of "(h, dlist_init)" "[]" ps] empty assms by auto
  then show "\<exists>h' l'. dlc.build (\<lambda>s. dlist_push (fst s) (snd s)) ps (h, dlist_init) = Some (h', l') \<and> dl_is h' l' ps \<and>
      dlist_find h' l' pred = Some (List.find pred ps) \<and> dlist_length h' l' = Some (of_nat (length ps))"
    using dlist_search_eq[of h' None ps pred] dlist_count_eq[of h' None ps 0]
    by (auto simp: dlist_find_def dlist_length_def dl_is_def)
  show "\<exists>h' l'. dlc.build (\<lambda>s. dlist_unshift (fst s) (snd s)) ps (h, dlist_init) = Some (h', l') \<and> dl_is h' l' (rev ps)"
    using dlc.build_head[of "(h, dlist_init)" "[]" ps] empty assms by auto
qed

theorem dlist_build_search_witness:
  "(\<exists>h' l'. dlc.build (\<lambda>s. dlist_push (fst s) (snd s)) [3, 1] (dl_sample, dlist_init) = Some (h', l') \<and> dl_is h' l' [3, 1] \<and>
      dlist_find h' l' even = Some (List.find even [3, 1]) \<and> dlist_length h' l' = Some (of_nat (length [3, 1 :: nat]))) \<and>
    (\<exists>h' l'. dlc.build (\<lambda>s. dlist_unshift (fst s) (snd s)) [3, 1] (dl_sample, dlist_init) = Some (h', l') \<and> dl_is h' l' (rev [3, 1]))"
  by (rule dlist_build_search) (simp_all add: dl_sample_def)

end
