(* ===== verification/Slist.thy ===== *)
theory Slist
  imports Dlist Strs
begin

text \<open>
  The singly linked list of \<open>src/lib/slist\<close>.  The functions take a pointer to a link, that is to the
  caller's head variable (\<open>Root\<close>) or to the \<open>next\<close> field of a node (\<open>Link\<close>); the state is the head
  together with the nodes in memory.  \<open>fresh\<close> is the address that \<open>alloc\<close> gives in a memory, or
  \<open>None\<close> when it fails.  What a node carries behind its link is \<open>sk_data\<close>.
\<close>

record slink =
  sk_next :: "addr option"
  sk_data :: "byte list option"

type_synonym links = "addr \<Rightarrow> slink option"
type_synonym slist = "addr option \<times> links"

datatype loc = Root | Link addr

fun ld :: "slist \<Rightarrow> loc \<Rightarrow> addr option option" where
  "ld (r, h) Root = Some r"
| "ld (r, h) (Link a) = map_option sk_next (h a)"

fun st :: "slist \<Rightarrow> loc \<Rightarrow> addr option \<Rightarrow> slist option" where
  "st (r, h) Root v = Some (v, h)"
| "st (r, h) (Link a) v = map_option (\<lambda>n. (r, h(a := Some (n\<lparr>sk_next := v\<rparr>)))) (h a)"

text \<open>\<open>while(*l) l = &(*l)->next\<close>\<close>

partial_function (option) slink_end :: "slist \<Rightarrow> loc \<Rightarrow> loc option" where
  "slink_end s l = do { p \<leftarrow> ld s l; case p of None \<Rightarrow> Some l | Some a \<Rightarrow> slink_end s (Link a) }"

subsection \<open>Operations\<close>

definition slist_init :: "slist \<Rightarrow> slist" where
  "slist_init s = (None, snd s)"

definition slink_insert :: "slist \<Rightarrow> loc \<Rightarrow> addr \<Rightarrow> (slist \<times> loc) option" where
  "slink_insert s at link =
     do { p \<leftarrow> ld s at; s \<leftarrow> st s (Link link) p; s \<leftarrow> st s at (Some link); Some (s, Link link) }"

definition slist_add :: "slist \<Rightarrow> addr \<Rightarrow> slist option" where
  "slist_add s link = do { p \<leftarrow> ld s Root; s \<leftarrow> st s (Link link) p; st s Root (Some link) }"

definition slist_push :: "slist \<Rightarrow> addr \<Rightarrow> (slist \<times> loc) option" where
  "slist_push s link = do { l \<leftarrow> slink_end s Root; s \<leftarrow> st s l (Some link); Some (s, Link link) }"

definition slist_add_after :: "slist \<Rightarrow> addr \<Rightarrow> addr option \<Rightarrow> slist option" where
  "slist_add_after s p after =
     (case after of
        None \<Rightarrow> do { l \<leftarrow> slink_end s Root; s \<leftarrow> st s l (Some p); st s (Link p) None }
      | Some a \<Rightarrow> do { n \<leftarrow> ld s (Link a); s \<leftarrow> st s (Link p) n; st s (Link a) (Some p) })"

partial_function (option) slist_before :: "slist \<Rightarrow> loc \<Rightarrow> addr option \<Rightarrow> loc option" where
  "slist_before s l before =
     do { p \<leftarrow> ld s l;
          case p of
            None \<Rightarrow> Some l
          | Some a \<Rightarrow> if before \<noteq> None \<and> Some a \<noteq> before then slist_before s (Link a) before else Some l }"

definition slist_add_before :: "slist \<Rightarrow> addr \<Rightarrow> addr option \<Rightarrow> slist option" where
  "slist_add_before s p before =
     do { l \<leftarrow> slist_before s Root before; n \<leftarrow> ld s l; s \<leftarrow> st s (Link p) n; st s l (Some p) }"

text \<open>The loop of \<open>slist_find\<close> does not advance.\<close>

partial_function (option) slist_find :: "slist \<Rightarrow> loc \<Rightarrow> (addr \<Rightarrow> bool) \<Rightarrow> loc option option" where
  "slist_find s l pred =
     do { p \<leftarrow> ld s l;
          case p of None \<Rightarrow> Some None | Some a \<Rightarrow> if pred a then Some (Some l) else slist_find s l pred }"

partial_function (option) slist_until :: "slist \<Rightarrow> loc \<Rightarrow> (addr \<Rightarrow> bool) \<Rightarrow> loc option" where
  "slist_until s l pred =
     do { p \<leftarrow> ld s l;
          case p of None \<Rightarrow> Some l | Some a \<Rightarrow> if pred a then Some l else slist_until s (Link a) pred }"

text \<open>Taking the node at a link out of the chain; a NULL link is dereferenced.\<close>

definition slist_remove :: "slist \<Rightarrow> loc \<Rightarrow> (addr \<times> slist) option" where
  "slist_remove s l =
     do { ret \<leftarrow> ld s l;
          case ret of
            None \<Rightarrow> None
          | Some a \<Rightarrow> do { n \<leftarrow> ld s (Link a); s \<leftarrow> st s l n; s \<leftarrow> st s (Link a) None; Some (a, s) } }"

definition slist_find_delete :: "slist \<Rightarrow> (addr \<Rightarrow> bool) \<Rightarrow> (addr \<times> slist) option" where
  "slist_find_delete s pred = do { l \<leftarrow> slist_until s Root pred; slist_remove s l }"

definition slist_shift :: "slist \<Rightarrow> (addr \<times> slist) option" where
  "slist_shift s = slist_remove s Root"

partial_function (option) slist_count :: "slist \<Rightarrow> addr option \<Rightarrow> uint64 \<Rightarrow> uint64 option" where
  "slist_count s p count =
     (case p of None \<Rightarrow> Some count | Some a \<Rightarrow> do { n \<leftarrow> ld s (Link a); slist_count s n (count + 1) })"

definition slist_length :: "slist \<Rightarrow> uint64 option" where
  "slist_length s = do { p \<leftarrow> ld s Root; slist_count s p 0 }"

subsection \<open>Nodes with data\<close>

definition slist_pushb :: "(links \<Rightarrow> addr option) \<Rightarrow> slist \<Rightarrow> byte list \<Rightarrow> nat \<Rightarrow> (addr option \<times> slist) option" where
  "slist_pushb fresh s x len =
     (case fresh (snd s) of
        None \<Rightarrow> Some (None, s)
      | Some n \<Rightarrow>
          do { let s1 = (fst s, (snd s)(n := Some \<lparr>sk_next = None, sk_data = Some []\<rparr>));
               l \<leftarrow> slink_end s1 Root;
               (r, h) \<leftarrow> st s1 l (Some n);
               w \<leftarrow> byte_copy (replicate len 0) 0 len x 0;
               Some (Some n, (r, h(n := Some \<lparr>sk_next = None, sk_data = Some w\<rparr>))) })"

definition slist_unshiftb :: "(links \<Rightarrow> addr option) \<Rightarrow> slist \<Rightarrow> byte list \<Rightarrow> nat \<Rightarrow> (int \<times> slist) option" where
  "slist_unshiftb fresh s x len =
     (case fresh (snd s) of
        None \<Rightarrow> Some (0, s)
      | Some n \<Rightarrow>
          do { w \<leftarrow> byte_copy (replicate len 0) 0 len x 0;
               Some (1, (Some n, (snd s)(n := Some \<lparr>sk_next = fst s, sk_data = Some w\<rparr>))) })"

text \<open>\<open>dup\<close> says whether \<open>str_dup\<close> finds memory; its failure is stored like its success.\<close>

definition slist_pushs :: "(links \<Rightarrow> addr option) \<Rightarrow> bool \<Rightarrow> slist \<Rightarrow> byte list \<Rightarrow> (int \<times> slist) option" where
  "slist_pushs fresh dup s str =
     (case fresh (snd s) of
        None \<Rightarrow> Some (0, s)
      | Some n \<Rightarrow>
          do { let s1 = (fst s, (snd s)(n := Some \<lparr>sk_next = None, sk_data = None\<rparr>));
               l \<leftarrow> slink_end s1 Root;
               (r, h) \<leftarrow> st s1 l (Some n);
               len \<leftarrow> str_len str;
               Some (1, (r, h(n := Some \<lparr>sk_next = None, sk_data = (if dup then Some (take (Suc len) str) else None)\<rparr>))) })"

definition slist_unshifts :: "(links \<Rightarrow> addr option) \<Rightarrow> bool \<Rightarrow> slist \<Rightarrow> byte list \<Rightarrow> (int \<times> slist) option" where
  "slist_unshifts fresh dup s str =
     (case fresh (snd s) of
        None \<Rightarrow> Some (0, s)
      | Some n \<Rightarrow>
          do { len \<leftarrow> str_len str;
               Some (1, (Some n, (snd s)(n := Some \<lparr>sk_next = fst s, sk_data = (if dup then Some (take (Suc len) str) else None)\<rparr>))) })"

text \<open>Taking a node out and freeing it, with the string it points to.\<close>

definition slist_removes :: "slist \<Rightarrow> loc \<Rightarrow> slist option" where
  "slist_removes s l = do { (a, s) \<leftarrow> slist_remove s l; Some (fst s, (snd s)(a := None)) }"

definition slist_shifts :: "slist \<Rightarrow> (int \<times> slist) option" where
  "slist_shifts s =
     do { p \<leftarrow> ld s Root;
          case p of
            None \<Rightarrow> None
          | Some a \<Rightarrow> do { n \<leftarrow> ld s (Link a); s \<leftarrow> st s Root n; Some (0, (fst s, (snd s)(a := None))) } }"

subsection \<open>Chains\<close>

fun chain :: "links \<Rightarrow> addr option \<Rightarrow> addr list \<Rightarrow> addr option \<Rightarrow> bool" where
  "chain h p [] q = (p = q)"
| "chain h p (x # xs) q = (p = Some x \<and> (\<exists>n. h x = Some n \<and> chain h (sk_next n) xs q))"

definition sl_is :: "slist \<Rightarrow> addr list \<Rightarrow> bool" where
  "sl_is s xs \<longleftrightarrow> distinct xs \<and> chain (snd s) (fst s) xs None"

definition after_loc :: "addr list \<Rightarrow> loc" where
  "after_loc xs = (if xs = [] then Root else Link (last xs))"

lemma chain_append [simp]: "chain h p (xs @ ys) q \<longleftrightarrow> (\<exists>r. chain h p xs r \<and> chain h r ys q)"
  by (induction xs arbitrary: p) auto

lemma chain_upd [simp]: "x \<notin> set xs \<Longrightarrow> chain (h(x := v)) p xs q = chain h p xs q"
  by (induction xs arbitrary: p) auto

lemma after_loc_simps [simp]: "after_loc [] = Root" "after_loc (xs @ [x]) = Link x"
  by (simp_all add: after_loc_def)

lemma ld_after:
  assumes "chain (snd s) (fst s) xs q"
  shows "ld s (after_loc xs) = Some q"
  using assms by (cases s; cases xs rule: rev_cases) auto

text \<open>Storing at the link behind a part of the list leaves that part and changes where it leads.\<close>

lemma st_after:
  assumes "chain (snd s) (fst s) xs q" "distinct xs"
  shows "\<exists>s'. st s (after_loc xs) v = Some s' \<and> chain (snd s') (fst s') xs v \<and>
     (\<forall>a. a \<notin> set xs \<longrightarrow> snd s' a = snd s a) \<and> (\<forall>a. snd s' a = None \<longleftrightarrow> snd s a = None)"
proof (cases xs rule: rev_cases)
  case Nil
  then show ?thesis using assms by (cases s) auto
next
  case (snoc ys y)
  then show ?thesis using assms by (cases s) auto
qed

lemma chain_same: "\<forall>a\<in>set xs. h' a = h a \<Longrightarrow> chain h' p xs q = chain h p xs q"
  by (induction xs arbitrary: p) auto

lemma slink_end_eq:
  assumes "chain (snd s) (fst s) (xs @ ys) None"
  shows "slink_end s (after_loc xs) = Some (after_loc (xs @ ys))"
  using assms
proof (induction ys arbitrary: xs)
  case Nil
  then show ?case using ld_after[of s xs None] by (subst slink_end.simps) simp
next
  case (Cons y ys)
  then have "ld s (after_loc xs) = Some (Some y)" using ld_after[of s xs "Some y"] by auto
  then show ?case using Cons.IH[of "xs @ [y]"] Cons.prems by (subst slink_end.simps) simp
qed

subsection \<open>Effects\<close>

lemma slist_add_is:
  assumes "sl_is s xs" "p \<notin> set xs" "snd s p \<noteq> None"
  shows "\<exists>s'. slist_add s p = Some s' \<and> sl_is s' (p # xs) \<and> (\<forall>a. a \<noteq> p \<longrightarrow> snd s' a = snd s a)"
  using assms by (cases s) (auto simp: slist_add_def sl_is_def)

lemma slist_push_is:
  assumes "sl_is s xs" "p \<notin> set xs" "snd s p = Some n" "sk_next n = None"
  shows "\<exists>s'. slist_push s p = Some (s', Link p) \<and> sl_is s' (xs @ [p]) \<and> (\<forall>a. a \<notin> set xs \<longrightarrow> snd s' a = snd s a)"
proof -
  have c: "chain (snd s) (fst s) xs None" "distinct xs" using assms(1) by (simp_all add: sl_is_def)
  obtain s' where s': "st s (after_loc xs) (Some p) = Some s'" "chain (snd s') (fst s') xs (Some p)"
      "\<forall>a. a \<notin> set xs \<longrightarrow> snd s' a = snd s a"
    using st_after[OF c] by blast
  have "slist_push s p = Some (s', Link p)"
    using slink_end_eq[of s "[]" xs] c(1) s'(1) by (simp add: slist_push_def)
  moreover have "snd s' p = Some n" using s'(3) assms(2,3) by simp
  then have "sl_is s' (xs @ [p])" using s'(2) c(2) assms(2,4) by (auto simp: sl_is_def)
  ultimately show ?thesis using s'(3) by blast
qed

text \<open>Putting a node behind a part of the list, through the link that leads to the rest.\<close>

lemma link_in:
  assumes "chain (snd s) (fst s) xs (first ys None)" "chain (snd s) (first ys None) ys None" "distinct (xs @ ys)"
    and "p \<notin> set (xs @ ys)" "snd s p \<noteq> None"
  shows "\<exists>s1 s2. st s (Link p) (first ys None) = Some s1 \<and> st s1 (after_loc xs) (Some p) = Some s2 \<and> sl_is s2 (xs @ p # ys)"
proof -
  obtain r h where s: "s = (r, h)" by (cases s)
  obtain n where n: "h p = Some n" using assms(5) s by auto
  let ?s1 = "(r, h(p := Some (n\<lparr>sk_next := first ys None\<rparr>)))"
  have c: "chain (snd ?s1) (fst ?s1) xs (first ys None)" "distinct xs" using assms(1,3,4) s by auto
  obtain s2 where s2: "st ?s1 (after_loc xs) (Some p) = Some s2" "chain (snd s2) (fst s2) xs (Some p)"
      "\<forall>a. a \<notin> set xs \<longrightarrow> snd s2 a = snd ?s1 a"
    using st_after[OF c] by blast
  have "snd s2 a = h a" if "a \<in> set ys" for a
  proof -
    have "a \<notin> set xs" "a \<noteq> p" using that assms(3,4) by auto
    then show ?thesis using s2(3) by simp
  qed
  then have "chain (snd s2) (first ys None) ys None"
    using chain_same[of ys "snd s2" h "first ys None" None] assms(2) s by simp
  then have "sl_is s2 (xs @ p # ys)"
    using s2(2,3) assms(3,4) by (auto simp: sl_is_def)
  moreover have "st s (Link p) (first ys None) = Some ?s1" using n s by simp
  ultimately show ?thesis using s2(1) by blast
qed

lemma chain_first: "chain h p ys None \<Longrightarrow> p = first ys None"
  by (cases ys) auto

lemma sl_is_split:
  assumes "sl_is s (xs @ ys)"
  shows "chain (snd s) (fst s) xs (first ys None)" "chain (snd s) (first ys None) ys None" "distinct (xs @ ys)"
proof -
  obtain r where r: "chain (snd s) (fst s) xs r" "chain (snd s) r ys None" "distinct (xs @ ys)"
    using assms by (auto simp: sl_is_def)
  then show "chain (snd s) (fst s) xs (first ys None)" "chain (snd s) (first ys None) ys None" "distinct (xs @ ys)"
    using chain_first[of "snd s" r ys] by auto
qed

lemma slist_add_after_is:
  assumes "sl_is s (xs @ y # ys)" "p \<notin> set (xs @ y # ys)" "snd s p \<noteq> None"
  shows "\<exists>s'. slist_add_after s p (Some y) = Some s' \<and> sl_is s' (xs @ y # p # ys)"
proof -
  have sl: "sl_is s ((xs @ [y]) @ ys)" "p \<notin> set ((xs @ [y]) @ ys)" using assms by simp_all
  note sp = sl_is_split[OF sl(1)]
  have "ld s (Link y) = Some (first ys None)" using ld_after[OF sp(1)] by simp
  then show ?thesis
    using link_in[OF sp sl(2) assms(3)] by (auto simp: slist_add_after_def)
qed

lemma slist_before_eq:
  assumes "sl_is s (xs @ zs @ ys)" "b = first ys None" "ys \<noteq> []"
  shows "slist_before s (after_loc xs) b = Some (after_loc (xs @ zs))"
  using assms
proof (induction zs arbitrary: xs)
  case Nil
  then show ?case using ld_after[OF sl_is_split(1)[of s xs ys]]
    by (subst slist_before.simps) (auto split: option.splits)
next
  case (Cons z zs)
  have "ld s (after_loc xs) = Some (Some z)" using ld_after[OF sl_is_split(1)[of s xs "z # zs @ ys"]] Cons.prems(1) by simp
  moreover have "b \<noteq> None" "Some z \<noteq> b" using Cons.prems by (cases ys; auto simp: sl_is_def)+
  ultimately show ?case using Cons.IH[of "xs @ [z]"] Cons.prems by (subst slist_before.simps) simp
qed

lemma slist_add_before_is:
  assumes "sl_is s (xs @ y # ys)" "p \<notin> set (xs @ y # ys)" "snd s p \<noteq> None"
  shows "\<exists>s'. slist_add_before s p (Some y) = Some s' \<and> sl_is s' (xs @ p # y # ys)"
proof -
  note sp = sl_is_split[OF assms(1)]
  have "slist_before s Root (Some y) = Some (after_loc xs)"
    using slist_before_eq[of s "[]" xs "y # ys" "Some y"] assms(1) by simp
  then show ?thesis
    using link_in[OF sp assms(2,3)] ld_after[OF sp(1)] by (auto simp: slist_add_before_def)
qed

lemma slist_remove_is:
  assumes "sl_is s (xs @ y # ys)"
  shows "\<exists>s'. slist_remove s (after_loc xs) = Some (y, s') \<and> sl_is s' (xs @ ys) \<and>
    (\<exists>n. snd s' y = Some n \<and> sk_next n = None)"
proof -
  note sp = sl_is_split[OF assms]
  obtain n where n: "snd s y = Some n" "chain (snd s) (sk_next n) ys None" using sp(2) by auto
  then have next': "ld s (Link y) = Some (first ys None)" using chain_first by (cases s) auto
  obtain s1 where s1: "st s (after_loc xs) (first ys None) = Some s1" "chain (snd s1) (fst s1) xs (first ys None)"
      "\<forall>a. a \<notin> set xs \<longrightarrow> snd s1 a = snd s a"
    using st_after[OF sp(1), of "first ys None"] sp(3) by auto
  have y: "snd s1 y = Some n" using s1(3) n(1) sp(3) by auto
  have ys: "chain (snd s1) (first ys None) ys None"
    using chain_same[of ys "snd s1" "snd s" "first ys None" None] s1(3) n(2) chain_first[OF n(2)] sp(3) by auto
  let ?s2 = "(fst s1, (snd s1)(y := Some (n\<lparr>sk_next := None\<rparr>)))"
  have "st s1 (Link y) None = Some ?s2" using y by (cases s1) simp
  moreover have "sl_is ?s2 (xs @ ys)" using s1(2) ys sp(3) by (auto simp: sl_is_def)
  ultimately show ?thesis using ld_after[OF sp(1)] next' s1(1) by (auto simp: slist_remove_def)
qed

lemma slist_until_eq:
  assumes "sl_is s (xs @ zs @ ys)" "\<forall>z\<in>set zs. \<not> pred z" "ys = [] \<or> pred (hd ys)"
  shows "slist_until s (after_loc xs) pred = Some (after_loc (xs @ zs))"
  using assms
proof (induction zs arbitrary: xs)
  case Nil
  then show ?case using ld_after[OF sl_is_split(1)[of s xs ys]] by (subst slist_until.simps) (cases ys; auto)
next
  case (Cons z zs)
  have "ld s (after_loc xs) = Some (Some z)" using ld_after[OF sl_is_split(1)[of s xs "z # zs @ ys"]] Cons.prems(1) by simp
  then show ?case using Cons.IH[of "xs @ [z]"] Cons.prems by (subst slist_until.simps) simp
qed

lemma slist_count_eq: "chain (snd s) p xs None \<Longrightarrow> slist_count s p n = Some (n + of_nat (length xs))"
proof (induction xs arbitrary: p n)
  case Nil
  then show ?case by (subst slist_count.simps) simp
next
  case (Cons x xs)
  then obtain m where m: "p = Some x" "snd s x = Some m" "chain (snd s) (sk_next m) xs None" by auto
  have "ld s (Link x) = Some (sk_next m)" using m(2) by (cases s) simp
  then show ?case using Cons.IH[OF m(3)] m(1) by (subst slist_count.simps) (simp add: algebra_simps)
qed

interpretation slc: node_chain sl_is "\<lambda>s p. \<exists>n. snd s p = Some n \<and> sk_next n = None" slist_add
  "\<lambda>s p. map_option fst (slist_push s p)"
proof
  fix s xs p
  assume a: "sl_is s xs" "p \<notin> set xs" "\<exists>n. snd s p = Some n \<and> sk_next n = None"
  then show "\<exists>s'. slist_add s p = Some s' \<and> sl_is s' (p # xs) \<and>
      (\<forall>q. (\<exists>n. snd s q = Some n \<and> sk_next n = None) \<longrightarrow> q \<noteq> p \<longrightarrow> q \<notin> set xs \<longrightarrow> (\<exists>n. snd s' q = Some n \<and> sk_next n = None))"
    using slist_add_is[OF a(1,2)] by fastforce
  from a show "\<exists>s'. map_option fst (slist_push s p) = Some s' \<and> sl_is s' (xs @ [p]) \<and>
      (\<forall>q. (\<exists>n. snd s q = Some n \<and> sk_next n = None) \<longrightarrow> q \<noteq> p \<longrightarrow> q \<notin> set xs \<longrightarrow> (\<exists>n. snd s' q = Some n \<and> sk_next n = None))"
    using slist_push_is[OF a(1,2)] by fastforce
qed

subsection \<open>Claims\<close>

text \<open>
  The operations on a singly linked list that work through a link have the effect of their names on
  the list of nodes: adding behind and in front of a node, taking out the first node that satisfies a
  predicate, and counting.
\<close>

theorem slist_edit_exact:
  assumes "sl_is s (xs @ y # ys)" "p \<notin> set (xs @ y # ys)" "snd s p \<noteq> None" "\<forall>x\<in>set xs. \<not> pred x" "pred y"
  shows "(\<exists>s'. slist_add_after s p (Some y) = Some s' \<and> sl_is s' (xs @ y # p # ys)) \<and>
    (\<exists>s'. slist_add_before s p (Some y) = Some s' \<and> sl_is s' (xs @ p # y # ys)) \<and>
    (\<exists>s'. slist_find_delete s pred = Some (y, s') \<and> sl_is s' (xs @ ys)) \<and>
    slist_length s = Some (of_nat (length (xs @ y # ys)))"
proof (intro conjI)
  have "slist_until s Root pred = Some (after_loc xs)"
    using slist_until_eq[of s "[]" xs "y # ys" pred] assms(1,4,5) by simp
  then show "\<exists>s'. slist_find_delete s pred = Some (y, s') \<and> sl_is s' (xs @ ys)"
    using slist_remove_is[OF assms(1)] by (auto simp: slist_find_delete_def)
  have "ld s Root = Some (fst s)" by (cases s) simp
  then show "slist_length s = Some (of_nat (length (xs @ y # ys)))"
    using slist_count_eq[of s "fst s" "xs @ y # ys" 0] assms(1) by (simp add: slist_length_def sl_is_def del: chain_append)
qed (use slist_add_after_is[OF assms(1-3)] slist_add_before_is[OF assms(1-3)] in blast)+

definition sl_sample :: slist where
  "sl_sample = (Some 1, (\<lambda>a. None)(1 := Some \<lparr>sk_next = Some 2, sk_data = None\<rparr>, 2 := Some \<lparr>sk_next = None, sk_data = None\<rparr>,
     3 := Some \<lparr>sk_next = Some 1, sk_data = None\<rparr>))"

theorem slist_edit_exact_witness:
  "(\<exists>s'. slist_add_after sl_sample 3 (Some 2) = Some s' \<and> sl_is s' ([1] @ 2 # 3 # [])) \<and>
    (\<exists>s'. slist_add_before sl_sample 3 (Some 2) = Some s' \<and> sl_is s' ([1] @ 3 # 2 # [])) \<and>
    (\<exists>s'. slist_find_delete sl_sample even = Some (2, s') \<and> sl_is s' ([1] @ [])) \<and>
    slist_length sl_sample = Some (of_nat (length ([1] @ 2 # [] :: nat list)))"
  by (rule slist_edit_exact) (simp_all add: sl_is_def sl_sample_def)

text \<open>
  \<open>slist_find\<close> does not return unless the predicate holds of the first node or the list is empty: its
  loop never goes to the next node.
\<close>

theorem slist_find_hangs:
  assumes "ld s l = Some (Some a)" "\<not> pred a"
  shows "slist_find s l pred = None"
proof -
  have "\<not> (ld s l = Some (Some a) \<and> \<not> pred a)" if "slist_find s l pred = Some r" for r
    by (rule slist_find.raw_induct[of "\<lambda>s l pred r. \<not> (ld s l = Some (Some a) \<and> \<not> pred a)", OF _ that])
      (fastforce split: option.splits Option.bind_splits if_splits)
  then show ?thesis using assms by (cases "slist_find s l pred") auto
qed

theorem slist_find_hangs_witness: "slist_find sl_sample Root even = None"
  by (rule slist_find_hangs[of _ _ 1]) (simp_all add: sl_sample_def)

text \<open>
  \<open>slist_push\<close> does not clear the link of the node it appends: the list goes on wherever that link
  leads, here back to its own first node, so that walking it never ends.
\<close>

theorem slist_push_keeps_link:
  assumes "sl_is s xs" "p \<notin> set xs" "snd s p = Some n"
  shows "\<exists>s'. slist_push s p = Some (s', Link p) \<and> chain (snd s') (fst s') (xs @ [p]) (sk_next n)"
proof -
  have c: "chain (snd s) (fst s) xs None" "distinct xs" using assms(1) by (simp_all add: sl_is_def)
  obtain s' where s': "st s (after_loc xs) (Some p) = Some s'" "chain (snd s') (fst s') xs (Some p)"
      "\<forall>a. a \<notin> set xs \<longrightarrow> snd s' a = snd s a"
    using st_after[OF c] by blast
  then show ?thesis
    using slink_end_eq[of s "[]" xs] c(1) assms(2,3) by (auto simp: slist_push_def)
qed

theorem slist_push_keeps_link_witness:
  "\<exists>s'. slist_push sl_sample 3 = Some (s', Link 3) \<and>
     chain (snd s') (fst s') ([1, 2] @ [3]) (sk_next \<lparr>sk_next = Some 1, sk_data = None\<rparr>)"
  by (rule slist_push_keeps_link) (simp_all add: sl_is_def sl_sample_def)

end
