(* ===== verification/Fnmatch.thy ===== *)
theory Fnmatch
  imports Prelude
begin

text \<open>
  File name patterns: \<open>path_fnmatch\<close> of \<open>src/lib/path\<close>, which matches a block against a
  pattern with \<open>*\<close>, \<open>?\<close>, \<open>[...]\<close> and \<open>\\<close>.

  The pattern is the block from the pattern pointer on, the string an object with a position in it, since
  the code looks at the character before the current one.  The lengths are \<open>unsigned int\<close>, the flags
  an \<open>int\<close> kept as a word.  The loop over a character class need not end, so it and the matcher are
  partial functions; \<open>None\<close> also stands for a read outside an object.
\<close>

subsection \<open>The code\<close>

definition PATH_FNM_PATHNAME :: uint32 where
  "PATH_FNM_PATHNAME = 1"

definition PATH_FNM_NOESCAPE :: uint32 where
  "PATH_FNM_NOESCAPE = 2"

definition PATH_FNM_PERIOD :: uint32 where
  "PATH_FNM_PERIOD = 4"

definition PATH_FNM_NOTFIRST :: uint32 where
  "PATH_FNM_NOTFIRST = 0x80"

definition PATH_FNM_NOMATCH :: int where
  "PATH_FNM_NOMATCH = 1"

text \<open>Skipping asterisks when the string is at its end; the number of pattern characters left.\<close>

fun fnmatch_stars :: "byte list \<Rightarrow> uint32 \<Rightarrow> uint32 option" where
  "fnmatch_stars [] plen = (if plen = 0 then Some 0 else None)"
| "fnmatch_stars (x # p) plen =
     (if plen = 0 then Some 0 else if x = 42 then fnmatch_stars p (plen - 1) else Some plen)"

text \<open>Going behind the bracket that closes a class.\<close>

fun fnmatch_close :: "byte list \<Rightarrow> uint32 \<Rightarrow> (byte list \<times> uint32) option" where
  "fnmatch_close [] plen = (if plen = 0 then Some ([], 0) else None)"
| "fnmatch_close (x # p) plen =
     (if plen = 0 then Some (x # p, 0) else if x = 93 then Some (p, plen - 1) else fnmatch_close p (plen - 1))"

text \<open>
  The loop over the members of a class: \<open>Some None\<close> leaves it without a match, \<open>Some (Some (p, n))\<close>
  goes on behind the class.  \<open>at_start\<close> says that the pattern pointer is still \<open>start\<close>.
\<close>

partial_function (option) fnmatch_class ::
  "bool \<Rightarrow> byte \<Rightarrow> bool \<Rightarrow> byte list \<Rightarrow> uint32 \<Rightarrow> (byte list \<times> uint32) option option" where
  "fnmatch_class neg c at_start p plen =
     (if plen = 0 then Some None
      else do {
        x \<leftarrow> rd p 0;
        if x = 93 \<and> \<not> at_start then Some None
        else do {
          posix \<leftarrow> (if x = 91 then map_option (\<lambda>y. y = 58) (rd p 1) else Some False);
          (res, at_start, p, plen) \<leftarrow>
            (if posix then Some (False, at_start, p, plen)
             else do {
               range \<leftarrow> (if plen > 1 then
                            do { y \<leftarrow> rd p 1; if y = 45 then map_option (\<lambda>z. z \<noteq> 93) (rd p 2) else Some False }
                          else Some False);
               if range then
                 do { z \<leftarrow> rd p 2;
                      Some (sint c \<ge> sint x \<and> sint c \<le> sint z, False, drop 3 p, plen - 3) }
               else Some (x = c, False, drop 1 p, plen - 1) });
          ends \<leftarrow> (if \<not> res \<and> neg then map_option (\<lambda>y. y = 93) (rd p 0) else Some False);
          if (res \<and> \<not> neg) \<or> ends then map_option Some (fnmatch_close p plen)
          else if res \<and> neg then Some None
          else fnmatch_class neg c at_start p plen } })"

text \<open>
  What the \<open>switch\<close> decides for the character \<open>c\<close>: no match, the pattern behind the part that
  matched \<open>c\<close>, or an asterisk.
\<close>

datatype fnm_move = Fail | Next "byte list" uint32 | Asterisk

definition fnmatch_literal :: "byte list \<Rightarrow> uint32 \<Rightarrow> byte \<Rightarrow> fnm_move option" where
  "fnmatch_literal p plen c =
     do { x \<leftarrow> rd p 0; Some (if x = c then Next (drop 1 p) (plen - 1) else Fail) }"

definition fnmatch_switch :: "byte list \<Rightarrow> uint32 \<Rightarrow> byte \<Rightarrow> uint32 \<Rightarrow> fnm_move option" where
  "fnmatch_switch p plen c flags =
     do { x \<leftarrow> rd p 0;
          let slash = (c = 47 \<and> flags AND PATH_FNM_PATHNAME \<noteq> 0);
          if x = 91 then
            (if slash then Some Fail
             else do {
               y \<leftarrow> rd p 1;
               let neg = (y = 33);
               let n = (if neg then 2 else 1);
               r \<leftarrow> fnmatch_class neg c True (drop n p) (plen - of_nat n);
               Some (case r of None \<Rightarrow> Fail | Some (p, plen) \<Rightarrow> Next p plen) })
          else if x = 92 then
            (if flags AND PATH_FNM_NOESCAPE = 0 then
               (if plen - 1 \<noteq> 0 then fnmatch_literal (drop 1 p) (plen - 1) c else Some Fail)
             else fnmatch_literal p plen c)
          else if x = 42 then Some Asterisk
          else if x = 63 then Some (if slash then Fail else Next (drop 1 p) (plen - 1))
          else fnmatch_literal p plen c }"

definition fnmatch_hidden :: "byte list \<Rightarrow> byte list \<Rightarrow> nat \<Rightarrow> uint32 \<Rightarrow> bool option" where
  "fnmatch_hidden p str i flags =
     do { c \<leftarrow> rd str i;
          if c \<noteq> 46 then Some False
          else do {
            x \<leftarrow> rd p 0;
            if x = 46 \<or> flags AND PATH_FNM_PERIOD = 0 then Some False
            else if flags AND PATH_FNM_NOTFIRST = 0 then Some True
            else if flags AND PATH_FNM_PATHNAME = 0 then Some False
            else if i = 0 then None
            else map_option (\<lambda>b. b = 47) (rd str (i - 1)) } }"

partial_function (option) path_fnmatch ::
  "byte list \<Rightarrow> uint32 \<Rightarrow> byte list \<Rightarrow> nat \<Rightarrow> uint32 \<Rightarrow> uint32 \<Rightarrow> int option" where
  "path_fnmatch p plen str i slen flags =
     (if slen = 0 then map_option (\<lambda>n. if n \<noteq> 0 then PATH_FNM_NOMATCH else 0) (fnmatch_stars p plen)
      else if plen = 0 then Some PATH_FNM_NOMATCH
      else do {
        hidden \<leftarrow> fnmatch_hidden p str i flags;
        if hidden then Some PATH_FNM_NOMATCH
        else do {
          let flags = flags OR PATH_FNM_NOTFIRST;
          c \<leftarrow> rd str i;
          move \<leftarrow> fnmatch_switch p plen c flags;
          case move of
            Fail \<Rightarrow> Some PATH_FNM_NOMATCH
          | Next p plen \<Rightarrow> path_fnmatch p plen str (i + 1) (slen - 1) flags
          | Asterisk \<Rightarrow>
              do { r \<leftarrow> (if c = 47 \<and> flags AND PATH_FNM_PATHNAME \<noteq> 0 then Some 1
                          else path_fnmatch p plen str (i + 1) (slen - 1) flags);
                   if r \<noteq> 0 then path_fnmatch (drop 1 p) (plen - 1) str i slen flags else Some 0 } } })"

subsection \<open>Patterns and what they match\<close>

text \<open>
  A pattern is a list of tokens; each matches a piece of the string, and the pattern matches what the
  pieces make together.
\<close>

datatype fnm_item = One byte | Span byte byte

datatype fnm_token = Lit byte | AnyOne | AnyMany | OneOf bool "fnm_item list"

fun item_text :: "fnm_item \<Rightarrow> byte list" where
  "item_text (One x) = [x]"
| "item_text (Span x y) = [x, 45, y]"

fun item_has :: "byte \<Rightarrow> fnm_item \<Rightarrow> bool" where
  "item_has c (One x) \<longleftrightarrow> x = c"
| "item_has c (Span x y) \<longleftrightarrow> sint x \<le> sint c \<and> sint c \<le> sint y"

definition plain_char :: "byte \<Rightarrow> bool" where
  "plain_char x \<longleftrightarrow> x \<notin> {33, 45, 91, 93}"

fun member_ok :: "fnm_item \<Rightarrow> bool" where
  "member_ok (One x) \<longleftrightarrow> plain_char x"
| "member_ok (Span x y) \<longleftrightarrow> plain_char x \<and> y \<noteq> 93"

fun token_text :: "fnm_token \<Rightarrow> byte list" where
  "token_text (Lit x) = (if x \<in> {42, 63, 91, 92} then [92, x] else [x])"
| "token_text AnyOne = [63]"
| "token_text AnyMany = [42]"
| "token_text (OneOf neg is') = 91 # (if neg then [33] else []) @ concat (map item_text is') @ [93]"

fun token_ok :: "fnm_token \<Rightarrow> bool" where
  "token_ok (OneOf neg is') \<longleftrightarrow> is' \<noteq> [] \<and> list_all member_ok is'"
| "token_ok _ \<longleftrightarrow> True"

definition pattern_text :: "fnm_token list \<Rightarrow> byte list" where
  "pattern_text ts = concat (map token_text ts)"

fun piece :: "bool \<Rightarrow> fnm_token \<Rightarrow> byte list \<Rightarrow> bool" where
  "piece pathname (Lit x) w \<longleftrightarrow> w = [x]"
| "piece pathname AnyOne w \<longleftrightarrow> length w = 1 \<and> (pathname \<longrightarrow> 47 \<notin> set w)"
| "piece pathname AnyMany w \<longleftrightarrow> (pathname \<longrightarrow> 47 \<notin> set w)"
| "piece pathname (OneOf neg is') w \<longleftrightarrow>
     length w = 1 \<and> (pathname \<longrightarrow> 47 \<notin> set w) \<and> (list_ex (item_has (hd w)) is' \<noteq> neg)"

definition globs :: "bool \<Rightarrow> fnm_token list \<Rightarrow> byte list \<Rightarrow> bool" where
  "globs pathname ts s \<longleftrightarrow> (\<exists>ws. s = concat ws \<and> list_all2 (piece pathname) ts ws)"

subsection \<open>What a pattern matches, character by character\<close>

lemma globs_Nil [simp]: "globs pn [] s \<longleftrightarrow> s = []"
  by (auto simp: globs_def)

lemma globs_Cons: "globs pn (t # ts) s \<longleftrightarrow> (\<exists>u v. s = u @ v \<and> piece pn t u \<and> globs pn ts v)"
proof
  assume "globs pn (t # ts) s"
  then obtain w ws where "s = concat (w # ws)" "piece pn t w" "list_all2 (piece pn) ts ws"
    by (auto simp: globs_def list_all2_Cons1)
  then show "\<exists>u v. s = u @ v \<and> piece pn t u \<and> globs pn ts v" by (auto simp: globs_def)
next
  assume "\<exists>u v. s = u @ v \<and> piece pn t u \<and> globs pn ts v"
  then obtain u ws where "s = u @ concat ws" "piece pn t u" "list_all2 (piece pn) ts ws"
    by (auto simp: globs_def)
  then show "globs pn (t # ts) s" by (auto simp: globs_def intro!: exI[of _ "u # ws"])
qed

lemma globs_end: "globs pn ts [] \<longleftrightarrow> list_all (\<lambda>t. t = AnyMany) ts"
proof (induction ts)
  case (Cons t ts)
  then show ?case by (cases t) (auto simp: globs_Cons)
qed simp

lemma globs_many:
  "globs pn (AnyMany # ts) (c # s) \<longleftrightarrow>
     globs pn ts (c # s) \<or> (\<not> (pn \<and> c = 47) \<and> globs pn (AnyMany # ts) s)" (is "?l \<longleftrightarrow> ?r")
proof
  assume ?l
  then obtain u v where s: "c # s = u @ v" "pn \<longrightarrow> 47 \<notin> set u" "globs pn ts v" by (auto simp: globs_Cons)
  show ?r
  proof (cases u)
    case (Cons d u')
    then have "s = u' @ v" "pn \<longrightarrow> c \<noteq> 47 \<and> 47 \<notin> set u'" using s by auto
    then show ?thesis using s(3) by (auto simp: globs_Cons)
  qed (use s in simp)
next
  assume ?r
  then show ?l
  proof
    assume "globs pn ts (c # s)"
    moreover have "piece pn AnyMany []" by simp
    ultimately show ?l unfolding globs_Cons by (metis append_Nil)
  next
    assume "\<not> (pn \<and> c = 47) \<and> globs pn (AnyMany # ts) s"
    then obtain u v where "s = u @ v" "piece pn AnyMany (c # u)" "globs pn ts v" by (auto simp: globs_Cons)
    then show ?l unfolding globs_Cons by (metis append_Cons)
  qed
qed

definition token_one :: "bool \<Rightarrow> fnm_token \<Rightarrow> byte \<Rightarrow> bool" where
  "token_one pn t c \<longleftrightarrow> piece pn t [c]"

lemma globs_one:
  assumes "t \<noteq> AnyMany"
  shows "globs pn (t # ts) (c # s) \<longleftrightarrow> token_one pn t c \<and> globs pn ts s"
proof -
  have one: "length u = 1" if "piece pn t u" for u using that assms by (cases t) auto
  show ?thesis
  proof
    assume "globs pn (t # ts) (c # s)"
    then obtain u v where "c # s = u @ v" "piece pn t u" "globs pn ts v" by (auto simp: globs_Cons)
    moreover from this one[of u] have "u = [c]" by (cases u) auto
    ultimately show "token_one pn t c \<and> globs pn ts s" by (simp add: token_one_def)
  next
    assume "token_one pn t c \<and> globs pn ts s"
    then have "c # s = [c] @ s" "piece pn t [c]" "globs pn ts s" by (simp_all add: token_one_def)
    then show "globs pn (t # ts) (c # s)" unfolding globs_Cons by blast
  qed
qed

subsection \<open>The code on the text of a pattern\<close>

lemma word_of_Suc: "of_nat (Suc n) - (1 :: uint32) = of_nat n"
  by simp

lemma of_nat_32_0: "n < 2 ^ 32 \<Longrightarrow> (of_nat n :: uint32) = 0 \<longleftrightarrow> n = 0"
  by (simp add: word_of_nat_eq_0_iff nat_dvd_not_less) (use nat_dvd_not_less in force)

lemma fnmatch_stars_text:
  assumes "length (pattern_text ts) < 2 ^ 32"
  shows "\<exists>n. fnmatch_stars (pattern_text ts @ r) (of_nat (length (pattern_text ts))) = Some n \<and>
     (n = 0 \<longleftrightarrow> list_all (\<lambda>t. t = AnyMany) ts)"
  using assms
proof (induction ts)
  case Nil
  then show ?case by (cases r) (simp_all add: pattern_text_def)
next
  case (Cons t ts)
  show ?case
  proof (cases "t = AnyMany")
    case True
    then have p: "pattern_text (t # ts) = 42 # pattern_text ts" by (simp add: pattern_text_def)
    then have "(of_nat (length (pattern_text (t # ts))) :: uint32) \<noteq> 0" using Cons.prems by (subst of_nat_32_0) simp_all
    then show ?thesis using Cons p True by (simp del: of_nat_Suc add: word_of_Suc)
  next
    case False
    have "\<exists>x q. token_text t = x # q \<and> x \<noteq> 42" using False by (cases t) simp_all
    then obtain x q where t: "token_text t = x # q" "x \<noteq> 42" by blast
    then have p: "pattern_text (t # ts) = x # q @ pattern_text ts" by (simp add: pattern_text_def)
    then have "(of_nat (length (pattern_text (t # ts))) :: uint32) \<noteq> 0" using Cons.prems by (subst of_nat_32_0) simp_all
    then show ?thesis using p False t by simp
  qed
qed

lemma fnmatch_close_text:
  assumes "93 \<notin> set w" "Suc (length w + n) < 2 ^ 32"
  shows "fnmatch_close (w @ 93 # q) (of_nat (length w + Suc n)) = Some (q, of_nat n)"
  using assms
proof (induction w)
  case Nil
  then have "(of_nat (Suc n) :: uint32) \<noteq> 0" by (subst of_nat_32_0) simp_all
  then show ?case by simp
next
  case (Cons x w)
  then have "(of_nat (Suc (length w + Suc n)) :: uint32) \<noteq> 0" by (subst of_nat_32_0) simp_all
  then show ?case using Cons by (simp del: of_nat_Suc add: word_of_Suc)
qed

lemma unat_of_nat_32: "n < 2 ^ 32 \<Longrightarrow> unat (of_nat n :: uint32) = n"
  by (simp add: unat_of_nat)

lemma fnmatch_class_item:
  assumes "member_ok it" "y \<noteq> 45" "length (item_text it) + Suc m < 2 ^ 32"
  shows "fnmatch_class neg c st (item_text it @ y # ys) (of_nat (length (item_text it) + Suc m)) =
    (if item_has c it \<and> neg then Some None
     else if item_has c it \<or> (neg \<and> y = 93) then map_option Some (fnmatch_close (y # ys) (of_nat (Suc m)))
     else fnmatch_class neg c False (y # ys) (of_nat (Suc m)))"
proof (cases it)
  case (One x)
  have ne: "(of_nat (Suc (Suc m)) :: uint32) \<noteq> 0" using assms(3) One by (subst of_nat_32_0) simp_all
  have x: "x \<noteq> 91" "x \<noteq> 93" using assms One by (auto simp: plain_char_def)
  show ?thesis using ne x assms(2) One
    by (subst fnmatch_class.simps) (simp del: of_nat_Suc add: word_of_Suc)
next
  case (Span x z)
  have ne: "(of_nat (Suc (Suc (Suc (Suc m)))) :: uint32) \<noteq> 0"
    using assms(3) Span by (subst of_nat_32_0) simp_all
  have one: "1 < (of_nat (Suc (Suc (Suc (Suc m)))) :: uint32)"
    using assms(3) Span by (subst word_less_nat_alt, subst unat_of_nat_32) simp_all
  have three: "of_nat (Suc (Suc (Suc (Suc m)))) - 3 = (of_nat (Suc m) :: uint32)" by simp
  have x: "x \<noteq> 91" "x \<noteq> 93" "z \<noteq> 93" using assms Span by (auto simp: plain_char_def)
  show ?thesis using ne one x assms(2) Span
    by (subst fnmatch_class.simps) (simp del: of_nat_Suc add: three)
qed

lemma items_text:
  assumes "list_all member_ok is'"
  shows "93 \<notin> set (concat (map item_text is'))"
    and "is' \<noteq> [] \<Longrightarrow> \<exists>x w. concat (map item_text is') = x # w \<and> plain_char x"
proof -
  have "93 \<notin> set (item_text it)" if "member_ok it" for it using that by (cases it) (auto simp: plain_char_def)
  then show "93 \<notin> set (concat (map item_text is'))" using assms by (induction is') auto
  have "\<exists>x w. item_text it = x # w \<and> plain_char x" if "member_ok it" for it using that by (cases it) auto
  then show "is' \<noteq> [] \<Longrightarrow> \<exists>x w. concat (map item_text is') = x # w \<and> plain_char x"
    using assms by (cases is') fastforce+
qed

lemma fnmatch_class_text:
  assumes "list_all member_ok is'" "is' \<noteq> []" "length (concat (map item_text is')) + Suc n < 2 ^ 32"
  shows "fnmatch_class neg c st (concat (map item_text is') @ 93 # q) (of_nat (length (concat (map item_text is')) + Suc n)) =
    Some (if list_ex (item_has c) is' \<noteq> neg then Some (q, of_nat n) else None)"
  using assms
proof (induction is' arbitrary: st)
  case (Cons it is')
  define W where "W = concat (map item_text is')"
  have ok: "member_ok it" "list_all member_ok is'" using Cons.prems by simp_all
  have len: "length (item_text it) + (length W + Suc n) < 2 ^ 32" using Cons.prems by (simp add: W_def)
  obtain y ys where y: "W @ 93 # q = y # ys" "y \<noteq> 45" "y = 93 \<longleftrightarrow> is' = []"
  proof (cases "is' = []")
    case True
    then show ?thesis using that[of 93 q] by (simp add: W_def)
  next
    case False
    then obtain x w where "W = x # w" "plain_char x" using items_text(2)[OF ok(2)] by (auto simp: W_def)
    then show ?thesis using that[of x "w @ 93 # q"] False by (simp add: plain_char_def)
  qed
  have close: "fnmatch_close (y # ys) (of_nat (length W + Suc n)) = Some (q, of_nat n)"
    using fnmatch_close_text[of W n q] items_text(1)[OF ok(2)] len y(1) by (simp add: W_def)
  have stop: "fnmatch_class neg c False (93 # ys) (of_nat (Suc n)) = Some None" if "is' = []"
  proof -
    have "(of_nat (Suc n) :: uint32) \<noteq> 0" using len by (subst of_nat_32_0) simp_all
    then show ?thesis by (subst fnmatch_class.simps) simp
  qed
  have rest: "fnmatch_class neg c False (y # ys) (of_nat (length W + Suc n)) =
      Some (if list_ex (item_has c) is' \<noteq> neg then Some (q, of_nat n) else None)" if "is' \<noteq> []"
    using Cons.IH[OF ok(2) that, of False] len y(1) by (simp add: W_def)
  have "fnmatch_class neg c st (concat (map item_text (it # is')) @ 93 # q)
        (of_nat (length (concat (map item_text (it # is'))) + Suc n)) =
      fnmatch_class neg c st (item_text it @ y # ys) (of_nat (length (item_text it) + Suc (length W + n)))"
    using y(1) by (simp add: W_def add.assoc)
  also have "\<dots> = (if item_has c it \<and> neg then Some None
     else if item_has c it \<or> (neg \<and> y = 93) then map_option Some (fnmatch_close (y # ys) (of_nat (Suc (length W + n))))
     else fnmatch_class neg c False (y # ys) (of_nat (Suc (length W + n))))"
    by (rule fnmatch_class_item) (use ok y len in simp_all)
  also have "\<dots> = Some (if list_ex (item_has c) (it # is') \<noteq> neg then Some (q, of_nat n) else None)"
  proof (cases "is' = []")
    case True
    then show ?thesis using close stop y by (auto simp: W_def simp del: of_nat_Suc)
  next
    case False
    then show ?thesis using close rest y by (auto simp del: of_nat_Suc)
  qed
  finally show ?case .
qed simp

lemma fnmatch_literal_text:
  "fnmatch_literal (x # q) (of_nat (Suc n)) c = Some (if x = c then Next q (of_nat n) else Fail)"
  by (simp add: fnmatch_literal_def)

lemma fnmatch_switch_text:
  assumes "t \<noteq> AnyMany" "token_ok t" "flags AND PATH_FNM_NOESCAPE = 0" "length (token_text t) + n < 2 ^ 32"
  shows "fnmatch_switch (token_text t @ q) (of_nat (length (token_text t) + n)) c flags =
    Some (if token_one (flags AND PATH_FNM_PATHNAME \<noteq> 0) t c then Next q (of_nat n) else Fail)"
proof (cases t)
  case (Lit x)
  show ?thesis
  proof (cases "x \<in> {42, 63, 91, 92}")
    case True
    then have "of_nat (Suc n) \<noteq> (0 :: uint32)" using assms(4) Lit by (subst of_nat_32_0) auto
    then have "fnmatch_switch (92 # x # q) (of_nat (Suc (Suc n))) c flags = fnmatch_literal (x # q) (of_nat (Suc n)) c"
      using assms(3) by (simp del: of_nat_Suc add: fnmatch_switch_def word_of_Suc)
    then show ?thesis using True Lit fnmatch_literal_text[of x q n c]
      by (auto simp del: of_nat_Suc simp: token_one_def)
  next
    case False
    then have "fnmatch_switch (x # q) (of_nat (Suc n)) c flags = fnmatch_literal (x # q) (of_nat (Suc n)) c"
      by (simp del: of_nat_Suc add: fnmatch_switch_def)
    then show ?thesis using False Lit fnmatch_literal_text[of x q n c]
      by (auto simp del: of_nat_Suc simp: token_one_def)
  qed
next
  case AnyOne
  then show ?thesis by (auto simp: fnmatch_switch_def token_one_def)
next
  case (OneOf neg is')
  define W where "W = concat (map item_text is')"
  have items: "list_all member_ok is'" "is' \<noteq> []" using assms(2) OneOf by simp_all
  have len: "length W + Suc n < 2 ^ 32" using assms(4) OneOf by (auto simp: W_def split: if_splits)
  have cls: "fnmatch_class neg c True (W @ 93 # q) (of_nat (length W + Suc n)) =
      Some (if list_ex (item_has c) is' \<noteq> neg then Some (q, of_nat n) else None)"
    using fnmatch_class_text[OF items, of n neg c True q] len by (simp add: W_def)
  obtain x w where x: "W = x # w" "x \<noteq> 33" using items_text(2)[OF items] by (auto simp: W_def plain_char_def)
  have "fnmatch_switch (token_text t @ q) (of_nat (length (token_text t) + n)) c flags =
      (if c = 47 \<and> flags AND PATH_FNM_PATHNAME \<noteq> 0 then Some Fail
       else do { r \<leftarrow> fnmatch_class neg c True (W @ 93 # q) (of_nat (length W + Suc n));
                 Some (case r of None \<Rightarrow> Fail | Some (p, plen) \<Rightarrow> Next p plen) })"
    using x OneOf by (cases neg) (simp_all add: fnmatch_switch_def W_def)
  then show ?thesis using cls OneOf by (auto simp: token_one_def)
qed (use assms in simp)

lemma fnm_flag_kept:
  "(flags OR PATH_FNM_NOTFIRST) AND PATH_FNM_PATHNAME = flags AND PATH_FNM_PATHNAME"
  "(flags OR PATH_FNM_NOTFIRST) AND PATH_FNM_NOESCAPE = flags AND PATH_FNM_NOESCAPE"
  "(flags OR PATH_FNM_NOTFIRST) AND PATH_FNM_PERIOD = flags AND PATH_FNM_PERIOD"
  by (simp_all add: PATH_FNM_NOTFIRST_def PATH_FNM_PATHNAME_def PATH_FNM_NOESCAPE_def PATH_FNM_PERIOD_def
      bit.conj_disj_distrib2)

lemma fnmatch_hidden_off:
  assumes "flags AND PATH_FNM_PERIOD = 0" "p \<noteq> []"
  shows "fnmatch_hidden p (b @ c # r) (length b) flags = Some False"
  using assms by (auto simp: fnmatch_hidden_def)

text \<open>One character of the string against one token.\<close>

lemma path_fnmatch_one:
  assumes "t \<noteq> AnyMany" "token_ok t" "flags AND PATH_FNM_NOESCAPE = 0" "flags AND PATH_FNM_PERIOD = 0"
    and "length (token_text t) + n < 2 ^ 32" "Suc m < 2 ^ 32"
  shows "path_fnmatch (token_text t @ q) (of_nat (length (token_text t) + n)) (b @ c # r) (length b) (of_nat (Suc m)) flags =
    (if token_one (flags AND PATH_FNM_PATHNAME \<noteq> 0) t c
     then path_fnmatch q (of_nat n) (b @ c # r) (Suc (length b)) (of_nat m) (flags OR PATH_FNM_NOTFIRST)
     else Some PATH_FNM_NOMATCH)"
proof -
  have "token_text t \<noteq> []" by (cases t) simp_all
  moreover from this have "of_nat (length (token_text t) + n) \<noteq> (0 :: uint32)" "of_nat (Suc m) \<noteq> (0 :: uint32)"
    using assms by (subst of_nat_32_0; simp)+
  moreover have "fnmatch_switch (token_text t @ q) (of_nat (length (token_text t) + n)) c (flags OR PATH_FNM_NOTFIRST) =
      Some (if token_one (flags AND PATH_FNM_PATHNAME \<noteq> 0) t c then Next q (of_nat n) else Fail)"
    using fnmatch_switch_text[of t "flags OR PATH_FNM_NOTFIRST" n q c] assms by (simp add: fnm_flag_kept)
  ultimately show ?thesis using assms(4)
    by (subst path_fnmatch.simps) (simp add: fnmatch_hidden_off word_of_Suc del: of_nat_Suc of_nat_add)
qed

lemma path_fnmatch_many:
  assumes "flags AND PATH_FNM_PERIOD = 0" "Suc n < 2 ^ 32" "Suc m < 2 ^ 32"
  shows "path_fnmatch (42 # q) (of_nat (Suc n)) (b @ c # r) (length b) (of_nat (Suc m)) flags =
    do { r' \<leftarrow> (if c = 47 \<and> flags AND PATH_FNM_PATHNAME \<noteq> 0 then Some 1
                 else path_fnmatch (42 # q) (of_nat (Suc n)) (b @ c # r) (Suc (length b)) (of_nat m) (flags OR PATH_FNM_NOTFIRST));
         if r' \<noteq> 0 then path_fnmatch q (of_nat n) (b @ c # r) (length b) (of_nat (Suc m)) (flags OR PATH_FNM_NOTFIRST)
         else Some 0 }"
proof -
  have "of_nat (Suc n) \<noteq> (0 :: uint32)" "of_nat (Suc m) \<noteq> (0 :: uint32)"
    using assms by (subst of_nat_32_0; simp)+
  moreover have "fnmatch_switch (42 # q) (of_nat (Suc n)) c (flags OR PATH_FNM_NOTFIRST) = Some Asterisk"
      "drop 1 (42 # q) = q" "of_nat (Suc n) - (1 :: uint32) = of_nat n"
    by (simp_all add: fnmatch_switch_def)
  ultimately show ?thesis using assms(1)
    by (subst path_fnmatch.simps) (simp add: Let_def fnmatch_hidden_off fnm_flag_kept word_of_Suc del: of_nat_Suc cong: if_cong)
qed

lemma path_fnmatch_text:
  assumes "list_all token_ok ts" "flags AND PATH_FNM_NOESCAPE = 0" "flags AND PATH_FNM_PERIOD = 0"
    and "length (pattern_text ts) < 2 ^ 32" "length s < 2 ^ 32"
  shows "path_fnmatch (pattern_text ts @ q) (of_nat (length (pattern_text ts))) (b @ s @ r) (length b) (of_nat (length s)) flags =
    Some (if globs (flags AND PATH_FNM_PATHNAME \<noteq> 0) ts s then 0 else PATH_FNM_NOMATCH)"
  using assms
proof (induction "length ts + length s" arbitrary: ts s b flags rule: less_induct)
  case less
  show ?case
  proof (cases s)
    case Nil
    then show ?thesis using fnmatch_stars_text[OF less.prems(4), of q]
      by (subst path_fnmatch.simps) (auto simp: globs_end PATH_FNM_NOMATCH_def)
  next
    case s: (Cons c s')
    show ?thesis
    proof (cases ts)
      case Nil
      have "of_nat (length s) \<noteq> (0 :: uint32)" using less.prems(5) s by (subst of_nat_32_0) simp_all
      then show ?thesis using Nil s by (subst path_fnmatch.simps) (simp add: pattern_text_def)
    next
      case (Cons t ts')
      have p: "pattern_text ts = token_text t @ pattern_text ts'" using Cons by (simp add: pattern_text_def)
      note flag = fnm_flag_kept[of flags]
      have adv: "path_fnmatch (pattern_text us @ q) (of_nat (length (pattern_text us))) (b @ c # s' @ r)
            (Suc (length b)) (of_nat (length s')) (flags OR PATH_FNM_NOTFIRST) =
          Some (if globs (flags AND PATH_FNM_PATHNAME \<noteq> 0) us s' then 0 else PATH_FNM_NOMATCH)"
        if "length us \<le> length ts" "list_all token_ok us" "length (pattern_text us) < 2 ^ 32" for us
        using less.hyps[of us s' "flags OR PATH_FNM_NOTFIRST" "b @ [c]"] that less.prems s by (simp add: flag)
      show ?thesis
      proof (cases "t = AnyMany")
        case True
        have "path_fnmatch (pattern_text ts' @ q) (of_nat (length (pattern_text ts'))) (b @ s @ r) (length b)
            (of_nat (length s)) (flags OR PATH_FNM_NOTFIRST) =
          Some (if globs (flags AND PATH_FNM_PATHNAME \<noteq> 0) ts' s then 0 else PATH_FNM_NOMATCH)"
          using less.hyps[of ts' s "flags OR PATH_FNM_NOTFIRST" b] less.prems Cons p by (simp add: flag)
        then show ?thesis
          using path_fnmatch_many[of flags "length (pattern_text ts')" "length s'" "pattern_text ts' @ q" b c "s' @ r"]
            adv[of ts] less.prems s p True Cons
          by (auto simp: globs_many PATH_FNM_NOMATCH_def simp del: of_nat_Suc)
      next
        case False
        then show ?thesis
          using path_fnmatch_one[OF False, of flags "length (pattern_text ts')" "length s'" "pattern_text ts' @ q" b c "s' @ r"]
            adv[of ts'] less.prems s p Cons
          by (simp add: globs_one del: of_nat_Suc of_nat_add)
      qed
    qed
  qed
qed

lemma fnmatch_class_posix:
  assumes "plen \<noteq> 0"
  shows "fnmatch_class neg c st (91 # 58 # q) plen = None"
proof -
  have "\<not> (p = 91 # 58 # q \<and> plen \<noteq> 0)" if "fnmatch_class neg c st p plen = Some v" for p v
    by (rule fnmatch_class.raw_induct[of "\<lambda>neg c st p plen v. \<not> (p = 91 # 58 # q \<and> plen \<noteq> 0)", OF _ that])
      (auto split: if_splits)
  then show ?thesis using assms by (cases "fnmatch_class neg c st (91 # 58 # q) plen") auto
qed

subsection \<open>Properties\<close>

text \<open>
  C7. Matching is exact: given the text of a pattern of literals, \<open>?\<close>, \<open>*\<close> and character classes,
  and flags without \<open>PATH_FNM_PERIOD\<close> and \<open>PATH_FNM_NOESCAPE\<close>, \<open>path_fnmatch\<close> returns, reads only
  the pattern and the string, and returns 0 exactly when the string is made of pieces that the tokens
  match one by one, where with \<open>PATH_FNM_PATHNAME\<close> only a literal matches a slash.  Literals that are
  special are escaped by a backslash; a class (\<open>token_ok\<close>) is not empty, its members and the starts of
  its ranges are none of \<open>! - [ ]\<close>, so that it holds no POSIX class, and its ranges do not end in \<open>]\<close>.
  Pattern and string are shorter than 4 GiB, the range of their lengths.
\<close>
theorem path_fnmatch_exact:
  assumes "list_all token_ok ts" "flags AND PATH_FNM_NOESCAPE = 0" "flags AND PATH_FNM_PERIOD = 0"
    and "length (pattern_text ts) < 2 ^ 32" "length s < 2 ^ 32"
  shows "path_fnmatch (pattern_text ts @ q) (of_nat (length (pattern_text ts))) (s @ r) 0 (of_nat (length s)) flags =
    Some (if \<exists>ws. s = concat ws \<and> list_all2 (piece (flags AND PATH_FNM_PATHNAME \<noteq> 0)) ts ws then 0 else PATH_FNM_NOMATCH)"
  using path_fnmatch_text[OF assms, of q "[]" r] by (simp add: globs_def)

theorem path_fnmatch_exact_witness:
  "path_fnmatch [42, 46, 91, 97, 45, 122, 93] 7 [97, 98, 46, 99] 0 4 0 = Some 0"
proof -
  let ?ts = "[AnyMany, Lit 46, OneOf False [Span 97 122]]"
  have ok: "list_all token_ok ?ts" "(0 :: uint32) AND PATH_FNM_NOESCAPE = 0" "(0 :: uint32) AND PATH_FNM_PERIOD = 0"
    "length (pattern_text ?ts) < 2 ^ 32" "length [97, 98, 46, 99 :: byte] < 2 ^ 32"
    by (simp_all add: plain_char_def pattern_text_def)
  have "list_all2 (piece (0 AND PATH_FNM_PATHNAME \<noteq> 0)) ?ts [[97, 98], [46], [99]]" by simp
  then have "\<exists>ws. [97, 98, 46, 99 :: byte] = concat ws \<and> list_all2 (piece (0 AND PATH_FNM_PATHNAME \<noteq> 0)) ?ts ws"
    by (intro exI[of _ "[[97, 98], [46], [99]]"]) simp
  then show ?thesis using path_fnmatch_exact[OF ok, of "[]" "[]"] by (simp add: pattern_text_def)
qed

text \<open>
  With \<open>PATH_FNM_PERIOD\<close> a name that begins with a period is only matched by a pattern that begins
  with one.
\<close>

theorem path_fnmatch_hides_dot_files:
  assumes "flags AND PATH_FNM_PERIOD \<noteq> 0" "flags AND PATH_FNM_NOTFIRST = 0" "x \<noteq> 46" "plen \<noteq> 0" "slen \<noteq> 0"
  shows "path_fnmatch (x # q) plen (46 # r) 0 slen flags = Some PATH_FNM_NOMATCH"
  using assms by (subst path_fnmatch.simps) (simp add: fnmatch_hidden_def)

theorem path_fnmatch_hides_dot_files_witness:
  "path_fnmatch [42] 1 [46, 103] 0 2 PATH_FNM_PERIOD = Some PATH_FNM_NOMATCH"
  by (rule path_fnmatch_hides_dot_files) (simp_all add: PATH_FNM_PERIOD_def PATH_FNM_NOTFIRST_def)

text \<open>
  A POSIX character class such as \<open>[[:alpha:]]\<close> makes \<open>path_fnmatch\<close> run forever, without
  \<open>PATH_FNM_PERIOD\<close> and on a string that does not begin with a slash: the loop over the members neither
  advances nor leaves.
\<close>

theorem path_fnmatch_posix_class_hangs:
  assumes "1 < plen" "slen \<noteq> 0" "flags AND PATH_FNM_PERIOD = 0" "c \<noteq> 47"
  shows "path_fnmatch (91 # 91 # 58 # q) plen (c # r) 0 slen flags = None"
proof -
  have "plen \<noteq> 0" "plen - 1 \<noteq> 0" using assms(1) by auto
  then show ?thesis using assms fnmatch_hidden_off[of flags "91 # 91 # 58 # q" "[]" c r]
    by (subst path_fnmatch.simps) (simp add: Let_def fnmatch_switch_def fnmatch_class_posix)
qed

theorem path_fnmatch_posix_class_hangs_witness:
  "path_fnmatch [91, 91, 58, 97, 108, 112, 104, 97, 58, 93, 93] 11 [97] 0 1 0 = None"
  by (rule path_fnmatch_posix_class_hangs) simp_all

end
