(* ===== verification/Strlist.thy ===== *)
theory Strlist
  imports BufferIn "HOL-Library.Multiset"
begin

text \<open>
  The string list \<open>strlist\<close> (\<open>src/lib/strlist\<close>): strings in one dynamic string, with a
  separator byte between them.  Pointers into the text are offsets, \<open>None\<close> inside a result is the
  pointer 0; positions and counts are natural numbers below the length of the text.  The routines that
  append do not look at the result of the allocation, so they return 1 in any case.
\<close>

subsection \<open>The structure\<close>

record strlist =
  sl_sa :: stralloc
  sl_sep :: byte

definition sl_mem :: "strlist \<Rightarrow> byte list" where
  "sl_mem sl = sa_mem (sl_sa sl)"

definition sl_len :: "strlist \<Rightarrow> nat" where
  "sl_len sl = unat (sa_len (sl_sa sl))"

definition strlist_init :: "strlist \<Rightarrow> byte \<Rightarrow> strlist" where
  "strlist_init sl s = \<lparr>sl_sa = stralloc_init (sl_sa sl), sl_sep = s\<rparr>"

definition strlist_zero :: "strlist \<Rightarrow> strlist" where
  "strlist_zero sl = sl\<lparr>sl_sa := stralloc_zero (sl_sa sl)\<rparr>"

definition strlist_free :: "strlist \<Rightarrow> strlist" where
  "strlist_free sl = sl\<lparr>sl_sa := stralloc_free (sl_sa sl)\<rparr>"

definition strlist_copy :: "allocator \<Rightarrow> strlist \<Rightarrow> strlist \<Rightarrow> (bool \<times> strlist) option" where
  "strlist_copy al d s =
     map_option (\<lambda>(ok, sa). (ok, \<lparr>sl_sa = sa, sl_sep = sl_sep s\<rparr>)) (stralloc_copy al (sl_sa d) (sl_sa s))"

text \<open>Appending to the text and dropping the result.\<close>

definition sl_catc :: "allocator \<Rightarrow> strlist \<Rightarrow> byte \<Rightarrow> strlist option" where
  "sl_catc al sl c = map_option (\<lambda>(ok, sa). sl\<lparr>sl_sa := sa\<rparr>) (stralloc_catc al (sl_sa sl) c)"

definition sl_catb :: "allocator \<Rightarrow> strlist \<Rightarrow> byte list \<Rightarrow> nat \<Rightarrow> strlist option" where
  "sl_catb al sl x n = map_option (\<lambda>(ok, sa). sl\<lparr>sl_sa := sa\<rparr>) (stralloc_catb al (sl_sa sl) x (of_nat n))"

subsection \<open>Walking over the strings\<close>

text \<open>\<open>strlist_foreach\<close>: the pointer and the length of every string it visits; it stops at an empty one.\<close>

function foreach_loop :: "byte list \<Rightarrow> nat \<Rightarrow> nat \<Rightarrow> byte \<Rightarrow> (byte list \<times> nat) list option" where
  "foreach_loop m p len sep =
     (if p < len then
        do { n \<leftarrow> byte_chr (drop p m) (len - p) sep;
             if n > 0 then map_option (\<lambda>xs. (drop p m, n) # xs) (foreach_loop m (p + n + 1) len sep) else Some [] }
      else Some [])"
  by pat_completeness auto
termination by (relation "measure (\<lambda>(m, p, len, sep). len - p)") auto

declare foreach_loop.simps [simp del]

definition strlist_foreach :: "strlist \<Rightarrow> (byte list \<times> nat) list option" where
  "strlist_foreach sl = foreach_loop (sl_mem sl) 0 (sl_len sl) (sl_sep sl)"

text \<open>\<open>strlist_at\<close> looks at every byte up to and including the one behind the text.\<close>

primrec at_loop :: "nat \<Rightarrow> byte list \<Rightarrow> nat \<Rightarrow> nat \<Rightarrow> nat \<Rightarrow> byte \<Rightarrow> nat option option" where
  "at_loop 0 m p l i sep = Some None"
| "at_loop (Suc k) m p l i sep =
     (if l = i then Some (Some p)
      else do { c \<leftarrow> rd m p; at_loop k m (p + 1) (if c = sep then l + 1 else l) i sep })"

definition strlist_at :: "strlist \<Rightarrow> nat \<Rightarrow> nat option option" where
  "strlist_at sl i =
     (if sa_s (sl_sa sl) = None then Some None else at_loop (sl_len sl + 1) (sl_mem sl) 0 0 i (sl_sep sl))"

definition strlist_at_n :: "strlist \<Rightarrow> nat \<Rightarrow> (nat option \<times> nat) option" where
  "strlist_at_n sl i =
     do { r \<leftarrow> at_loop (sl_len sl) (sl_mem sl) 0 0 i (sl_sep sl);
          case r of
            None \<Rightarrow> Some (None, 0)
          | Some p \<Rightarrow> map_option (\<lambda>n. (Some p, n)) (byte_chr (drop p (sl_mem sl)) (sl_len sl - p) (sl_sep sl)) }"

text \<open>The result borrows its text from the list.\<close>

definition strlist_at_sa :: "strlist \<Rightarrow> nat \<Rightarrow> stralloc option" where
  "strlist_at_sa sl i =
     do { (r, n) \<leftarrow> strlist_at_n sl i;
          Some (case r of
                  None \<Rightarrow> \<lparr>sa_s = None, sa_len = 0, sa_a = 0\<rparr>
                | Some p \<Rightarrow> \<lparr>sa_s = Some (drop p (sl_mem sl)), sa_len = of_nat n, sa_a = 0\<rparr>) }"

definition strlist_copyat :: "allocator \<Rightarrow> strlist \<Rightarrow> nat \<Rightarrow> stralloc \<Rightarrow> (bool \<times> stralloc) option" where
  "strlist_copyat al sl i out =
     do { x \<leftarrow> strlist_at sl i;
          pos \<leftarrow> x;
          len \<leftarrow> byte_chr (drop pos (sl_mem sl)) (sl_len sl - pos) (sl_sep sl);
          if len > 0 \<and> pos + len \<le> sl_len sl
          then map_option (\<lambda>(ok, sa). (True, sa)) (stralloc_copyb al out (drop pos (sl_mem sl)) (of_nat len))
          else Some (False, out) }"

partial_function (option) count_loop :: "byte list \<Rightarrow> nat \<Rightarrow> nat \<Rightarrow> byte \<Rightarrow> nat option" where
  "count_loop x n l sep =
     (if n > 0 then
        do { p \<leftarrow> byte_chr x n sep;
             if p = n then Some l
             else do { c \<leftarrow> rd x p;
                       if c = sep then
                         if p + 1 = n then Some l else count_loop (drop (p + 1) x) (n - (p + 1)) (l + 1) sep
                       else count_loop (drop p x) (n - p) (l + 1) sep } }
      else Some l)"

definition strlist_count :: "strlist \<Rightarrow> nat option" where
  "strlist_count sl = (if sl_len sl = 0 then Some 0 else count_loop (sl_mem sl) (sl_len sl) 1 (sl_sep sl))"

text \<open>\<open>strlist_pos\<close> never moves \<open>x\<close>: every round measures the first string again.\<close>

function pos_loop :: "byte list \<Rightarrow> nat \<Rightarrow> nat \<Rightarrow> nat \<Rightarrow> nat \<Rightarrow> byte \<Rightarrow> int option" where
  "pos_loop x n pos cnt index sep =
     (if n = 0 then Some (-1)
      else if index = cnt then Some (int pos)
      else do { i \<leftarrow> byte_chr x n sep;
                let i = (if i < n then i + 1 else i);
                if i = 0 then None else pos_loop x (n - i) (pos + i) (cnt + 1) index sep })"
  by pat_completeness auto
termination by (relation "measure (\<lambda>(x, n, pos, cnt, index, sep). n)") auto

declare pos_loop.simps [simp del]

definition strlist_pos :: "strlist \<Rightarrow> nat \<Rightarrow> int option" where
  "strlist_pos sl index = pos_loop (sl_mem sl) (sl_len sl) 0 0 index (sl_sep sl)"

subsection \<open>Searching\<close>

function contains_loop :: "byte list \<Rightarrow> nat \<Rightarrow> nat \<Rightarrow> byte \<Rightarrow> byte list \<Rightarrow> nat \<Rightarrow> bool option" where
  "contains_loop m i len sep x l =
     (if i < len then
        do { n \<leftarrow> byte_chr (drop i m) (len - i) sep;
             e \<leftarrow> (if n = l then byte_equal (drop i m) l x else Some False);
             if e then Some True else contains_loop m (i + n + 1) len sep x l }
      else Some False)"
  by pat_completeness auto
termination by (relation "measure (\<lambda>(m, i, len, sep, x, l). len - i)") auto

declare contains_loop.simps [simp del]

definition strlist_containsb :: "strlist \<Rightarrow> byte list \<Rightarrow> nat \<Rightarrow> bool option" where
  "strlist_containsb sl x len = contains_loop (sl_mem sl) 0 (sl_len sl) (sl_sep sl) x len"

definition strlist_contains :: "strlist \<Rightarrow> byte list \<Rightarrow> bool option" where
  "strlist_contains sl s =
     do { len \<leftarrow> str_len s; contains_loop (sl_mem sl) 0 (sl_len sl) (sl_sep sl) s len }"

definition strlist_contains_sa :: "strlist \<Rightarrow> stralloc \<Rightarrow> bool option" where
  "strlist_contains_sa sl sa = contains_loop (sl_mem sl) 0 (sl_len sl) (sl_sep sl) (sa_mem sa) (unat (sa_len sa))"

function indexof_loop :: "byte list \<Rightarrow> nat \<Rightarrow> nat \<Rightarrow> byte \<Rightarrow> byte list \<Rightarrow> nat \<Rightarrow> nat option option" where
  "indexof_loop m p len sep x n =
     (if p < len then
        do { l \<leftarrow> byte_chr (drop p m) (len - p) sep;
             if l = 0 \<and> p + 1 = len then Some None
             else do { e \<leftarrow> (if n = l then byte_equal (drop p m) l x else Some False);
                       if e then Some (Some p) else indexof_loop m (p + l + 1) len sep x n } }
      else Some None)"
  by pat_completeness auto
termination by (relation "measure (\<lambda>(m, p, len, sep, x, n). len - p)") auto

declare indexof_loop.simps [simp del]

text \<open>\<open>None\<close> stands for -1.\<close>

definition strlist_indexofb :: "strlist \<Rightarrow> byte list \<Rightarrow> nat \<Rightarrow> nat option option" where
  "strlist_indexofb sl x n = indexof_loop (sl_mem sl) 0 (sl_len sl) (sl_sep sl) x n"

definition strlist_index_of :: "strlist \<Rightarrow> byte list \<Rightarrow> nat option option" where
  "strlist_index_of sl str = do { l \<leftarrow> str_len str; indexof_loop (sl_mem sl) 0 (sl_len sl) (sl_sep sl) str l }"

subsection \<open>Adding strings\<close>

definition strlist_pushb :: "allocator \<Rightarrow> strlist \<Rightarrow> byte list \<Rightarrow> nat \<Rightarrow> strlist option" where
  "strlist_pushb al sl s n =
     do { sl \<leftarrow> (if sl_len sl \<noteq> 0 then sl_catc al sl (sl_sep sl) else Some sl);
          if n \<noteq> 0 then sl_catb al sl s n else Some sl }"

definition sl_separate :: "allocator \<Rightarrow> strlist \<Rightarrow> strlist option" where
  "sl_separate al sl =
     (if sl_len sl \<noteq> 0 then
        do { c \<leftarrow> rd (sl_mem sl) (sl_len sl - 1);
             if c \<noteq> sl_sep sl then sl_catc al sl (sl_sep sl) else Some sl }
      else Some sl)"

definition strlist_push :: "allocator \<Rightarrow> strlist \<Rightarrow> byte list option \<Rightarrow> strlist option" where
  "strlist_push al sl s =
     do { sl \<leftarrow> sl_separate al sl;
          case s of
            None \<Rightarrow> Some sl
          | Some s \<Rightarrow> do { c \<leftarrow> rd s 0;
                           if c \<noteq> 0 then do { n \<leftarrow> str_len s; sl_catb al sl s n } else Some sl } }"

definition strlist_push_sa :: "allocator \<Rightarrow> strlist \<Rightarrow> stralloc \<Rightarrow> (bool \<times> strlist) option" where
  "strlist_push_sa al sl sa =
     do { sl \<leftarrow> sl_separate al sl;
          if sa_len sa \<noteq> 0 then map_option (\<lambda>sl. (True, sl)) (sl_catb al sl (sa_mem sa) (unat (sa_len sa)))
          else Some (False, sl) }"

primrec strlist_pushm_internal :: "allocator \<Rightarrow> strlist \<Rightarrow> byte list list \<Rightarrow> strlist option" where
  "strlist_pushm_internal al sl [] = Some sl"
| "strlist_pushm_internal al sl (s # ss) =
     do { sl \<leftarrow> strlist_push al sl (Some s); strlist_pushm_internal al sl ss }"

primrec strlist_fromv :: "allocator \<Rightarrow> strlist \<Rightarrow> byte list option list \<Rightarrow> strlist option" where
  "strlist_fromv al sl [] = Some sl"
| "strlist_fromv al sl (s # ss) = do { sl \<leftarrow> strlist_push al sl s; strlist_fromv al sl ss }"

definition strlist_push_unique :: "allocator \<Rightarrow> strlist \<Rightarrow> byte list \<Rightarrow> (bool \<times> strlist) option" where
  "strlist_push_unique al sl s =
     do { i \<leftarrow> strlist_index_of sl s;
          if i \<noteq> None then Some (False, sl) else map_option (\<lambda>sl. (True, sl)) (strlist_push al sl (Some s)) }"

definition strlist_pushb_unique :: "allocator \<Rightarrow> strlist \<Rightarrow> byte list \<Rightarrow> nat \<Rightarrow> (bool \<times> strlist) option" where
  "strlist_pushb_unique al sl s n =
     do { i \<leftarrow> strlist_indexofb sl s n;
          if i \<noteq> None then Some (False, sl) else map_option (\<lambda>sl. (True, sl)) (strlist_pushb al sl s n) }"

definition strlist_push_unique_sa :: "allocator \<Rightarrow> strlist \<Rightarrow> stralloc \<Rightarrow> (bool \<times> strlist) option" where
  "strlist_push_unique_sa al sl sa = strlist_pushb_unique al sl (sa_mem sa) (unat (sa_len sa))"

text \<open>\<open>p\<close> is the offset of the next token; the loop reads \<open>s[p]\<close> wherever that is.\<close>

partial_function (option) push_tokens_loop ::
  "allocator \<Rightarrow> strlist \<Rightarrow> byte list \<Rightarrow> byte list \<Rightarrow> nat \<Rightarrow> nat \<Rightarrow> strlist option" where
  "push_tokens_loop al sl s delim len p =
     do { c \<leftarrow> rd s p;
          if c = 0 then Some sl
          else do { n \<leftarrow> str_find (drop p s) delim;
                    sl \<leftarrow> strlist_pushb al sl (drop p s) n;
                    push_tokens_loop al sl s delim len (p + n + len) } }"

definition strlist_push_tokens :: "allocator \<Rightarrow> strlist \<Rightarrow> byte list \<Rightarrow> byte list \<Rightarrow> strlist option" where
  "strlist_push_tokens al sl s delim = do { len \<leftarrow> str_len delim; push_tokens_loop al sl s delim len 0 }"

partial_function (option) fromb_loop ::
  "allocator \<Rightarrow> strlist \<Rightarrow> byte list \<Rightarrow> nat \<Rightarrow> byte list \<Rightarrow> nat \<Rightarrow> strlist option" where
  "fromb_loop al sl x n delim len =
     (if n = 0 then Some sl
      else do { i \<leftarrow> byte_finds x n delim;
                sl \<leftarrow> strlist_pushb al sl x i;
                if i + len > n then Some sl
                else fromb_loop al sl (drop (i + len) x) (n - (i + len)) delim len })"

definition strlist_fromb :: "allocator \<Rightarrow> strlist \<Rightarrow> byte list option \<Rightarrow> nat \<Rightarrow> byte list \<Rightarrow> strlist option" where
  "strlist_fromb al sl x n delim =
     do { len \<leftarrow> str_len delim;
          case x of None \<Rightarrow> Some sl | Some x \<Rightarrow> fromb_loop al sl x n delim len }"

text \<open>The loops that exchange one byte of the text for another, from position \<open>i\<close> on.\<close>

definition sl_replace :: "strlist \<Rightarrow> nat \<Rightarrow> byte \<Rightarrow> byte \<Rightarrow> strlist option" where
  "sl_replace sl i a b =
     (if sl_len sl \<le> length (sl_mem sl)
      then Some (sl\<lparr>sl_sa := sa_store (sl_sa sl)
                   (take i (sl_mem sl) @ map (\<lambda>c. if c = a then b else c) (drop i (take (sl_len sl) (sl_mem sl))) @
                    drop (max i (sl_len sl)) (sl_mem sl))\<rparr>)
      else None)"

definition strlist_froms :: "allocator \<Rightarrow> strlist \<Rightarrow> byte list option \<Rightarrow> byte \<Rightarrow> strlist option" where
  "strlist_froms al sl s delim =
     (case s of
        None \<Rightarrow> Some sl
      | Some s \<Rightarrow>
          do { sl \<leftarrow> (if sl_len sl \<noteq> 0 then sl_catc al sl (sl_sep sl) else Some sl);
               n \<leftarrow> str_len s;
               sl \<leftarrow> sl_catb al sl s n;
               sl \<leftarrow> sl_replace sl 0 delim (sl_sep sl);
               sl_separate al sl })"

definition strlist_cat :: "allocator \<Rightarrow> strlist \<Rightarrow> strlist \<Rightarrow> strlist option" where
  "strlist_cat al sl l =
     do { let n = sl_len sl;
          sl \<leftarrow> sl_separate al sl;
          sl \<leftarrow> sl_catb al sl (sl_mem l) (sl_len l);
          sl_replace sl n (sl_sep l) (sl_sep sl) }"

definition strlist_prependb :: "allocator \<Rightarrow> strlist \<Rightarrow> byte list \<Rightarrow> nat \<Rightarrow> (bool \<times> strlist) option" where
  "strlist_prependb al sl b n =
     do { (ok, sa) \<leftarrow> stralloc_readyplus al (sl_sa sl) (of_nat n + 2);
          if ok then
            do { m \<leftarrow> byte_copyr_within (sa_mem sa) (n + 1) (unat (sa_len sa)) 0;
                 m \<leftarrow> byte_copy m 0 n b 0;
                 m \<leftarrow> wr m n (sl_sep sl);
                 Some (True, sl\<lparr>sl_sa := (sa_store sa m)\<lparr>sa_len := sa_len sa + of_nat (n + 1)\<rparr>\<rparr>) }
          else Some (False, sl\<lparr>sl_sa := sa\<rparr>) }"

definition strlist_prepends :: "allocator \<Rightarrow> strlist \<Rightarrow> byte list \<Rightarrow> (bool \<times> strlist) option" where
  "strlist_prepends al sl s = do { n \<leftarrow> str_len s; strlist_prependb al sl s n }"

definition strlist_prepend_sa :: "allocator \<Rightarrow> strlist \<Rightarrow> stralloc \<Rightarrow> (bool \<times> strlist) option" where
  "strlist_prepend_sa al sl sa = strlist_prependb al sl (sa_mem sa) (unat (sa_len sa))"

text \<open>\<open>strlist_append_sa\<close> copies one byte more than the string has, and writes a NUL behind it.\<close>

definition strlist_append_sa :: "allocator \<Rightarrow> strlist \<Rightarrow> stralloc \<Rightarrow> (bool \<times> strlist) option" where
  "strlist_append_sa al sl sa =
     do { (ok, s) \<leftarrow> stralloc_readyplus al (sl_sa sl) (sa_len sa + 2);
          if ok then
            do { m \<leftarrow> byte_copy (sa_mem s) (unat (sa_len s)) (unat (sa_len sa + 1)) (sa_mem sa) 0;
                 m \<leftarrow> wr m (unat (sa_len s + (sa_len sa + 1))) 0;
                 Some (True, sl\<lparr>sl_sa := (sa_store s m)\<lparr>sa_len := sa_len s + (sa_len sa + 1)\<rparr>\<rparr>) }
          else Some (False, sl\<lparr>sl_sa := s\<rparr>) }"

text \<open>Both unshift routines store through the text after an insertion that may have failed.\<close>

definition strlist_unshift :: "allocator \<Rightarrow> strlist \<Rightarrow> byte list \<Rightarrow> strlist option" where
  "strlist_unshift al sl s =
     do { len \<leftarrow> str_len s;
          (ok, sa) \<leftarrow> stralloc_insertb al (sl_sa sl) s 0 (of_nat len + 1);
          m \<leftarrow> wr (sa_mem sa) len (sl_sep sl);
          Some (sl\<lparr>sl_sa := sa_store sa m\<rparr>) }"

definition strlist_unshiftb :: "allocator \<Rightarrow> strlist \<Rightarrow> byte list \<Rightarrow> nat \<Rightarrow> strlist option" where
  "strlist_unshiftb al sl x len =
     do { tmp \<leftarrow> malloc al (len + 1);
          tmp \<leftarrow> byte_copy tmp 0 len x 0;
          tmp \<leftarrow> wr tmp len (sl_sep sl);
          (ok, sa) \<leftarrow> stralloc_insertb al (sl_sa sl) tmp 0 (of_nat len + 1);
          Some (sl\<lparr>sl_sa := sa\<rparr>) }"

subsection \<open>Removing strings\<close>

text \<open>The loop of \<open>strlist_pop\<close> runs off the front of a text without separator.\<close>

primrec pop_loop :: "nat \<Rightarrow> byte list \<Rightarrow> byte \<Rightarrow> nat option" where
  "pop_loop 0 m sep = None"
| "pop_loop (Suc i) m sep = do { c \<leftarrow> rd m i; if c = sep then Some i else pop_loop i m sep }"

definition strlist_pop :: "strlist \<Rightarrow> strlist option" where
  "strlist_pop sl =
     do { i \<leftarrow> pop_loop (sl_len sl) (sl_mem sl) (sl_sep sl);
          Some (sl\<lparr>sl_sa := (sl_sa sl)\<lparr>sa_len := of_nat i\<rparr>\<rparr>) }"

definition sl_remove :: "strlist \<Rightarrow> nat \<Rightarrow> nat \<Rightarrow> strlist option" where
  "sl_remove sl pos n =
     map_option (\<lambda>(r, sa). sl\<lparr>sl_sa := sa\<rparr>) (stralloc_remove (sl_sa sl) (of_nat pos) (of_nat n))"

definition strlist_removeb :: "strlist \<Rightarrow> byte list \<Rightarrow> nat \<Rightarrow> (bool \<times> strlist) option" where
  "strlist_removeb l x n =
     do { r \<leftarrow> strlist_indexofb l x n;
          case r of
            None \<Rightarrow> Some (False, l)
          | Some i \<Rightarrow>
              do { n \<leftarrow> (if i + n < sl_len l
                           then do { c \<leftarrow> rd (sl_mem l) (i + n); Some (if c = sl_sep l then n + 1 else n) }
                           else Some n);
                   map_option (\<lambda>l. (True, l)) (sl_remove l i n) } }"

definition strlist_removes :: "strlist \<Rightarrow> byte list \<Rightarrow> (bool \<times> strlist) option" where
  "strlist_removes l s = do { n \<leftarrow> str_len s; strlist_removeb l s n }"

text \<open>\<open>strlist_remove_at\<close> takes the number of the string for its length.\<close>

definition strlist_remove_at :: "strlist \<Rightarrow> nat \<Rightarrow> (bool \<times> strlist) option" where
  "strlist_remove_at l n =
     do { x \<leftarrow> strlist_at l n;
          case x of
            None \<Rightarrow> Some (False, l)
          | Some i \<Rightarrow>
              do { (i, n) \<leftarrow>
                     (if i + n < sl_len l
                      then do { c \<leftarrow> rd (sl_mem l) (i + n); Some (i, if c = sl_sep l then n + 1 else n) }
                      else if i > 0
                      then do { c \<leftarrow> rd (sl_mem l) (i - 1); Some (if c = sl_sep l then (i - 1, n + 1) else (i, n)) }
                      else Some (i, n));
                   map_option (\<lambda>l. (True, l)) (sl_remove l i n) } }"

text \<open>The string taken off is a fresh copy; \<open>mem\<close> is the block \<open>malloc\<close> gives for it.\<close>

definition strlist_shift :: "allocator \<Rightarrow> strlist \<Rightarrow> (byte list option \<times> strlist) option" where
  "strlist_shift al sl =
     (if sl_len sl = 0 then Some (None, sl)
      else do { x \<leftarrow> strlist_at sl 1;
                offs \<leftarrow> x;
                m \<leftarrow> wr (sl_mem sl) (offs - 1) 0;
                s \<leftarrow> str_ndup (malloc al offs) m (offs - 1);
                m \<leftarrow> byte_copy_within m 0 (sl_len sl - offs) offs;
                Some (s, sl\<lparr>sl_sa := (sa_store (sl_sa sl) m)\<lparr>sa_len := sa_len (sl_sa sl) - of_nat offs\<rparr>\<rparr>) })"

definition strlist_shift_n :: "allocator \<Rightarrow> strlist \<Rightarrow> nat \<Rightarrow> (bool \<times> strlist) option" where
  "strlist_shift_n al sl i =
     do { x \<leftarrow> strlist_at sl i;
          n \<leftarrow> x;
          if n < sl_len sl then
            do { m \<leftarrow> byte_copy_within (sl_mem sl) 0 (sl_len sl - n) n;
                 Some (True, sl\<lparr>sl_sa := snd (stralloc_shrink al ((sa_store (sl_sa sl) m)\<lparr>sa_len := sa_len (sl_sa sl) - of_nat n\<rparr>))\<rparr>) }
          else Some (False, sl) }"

definition strlist_trunc :: "allocator \<Rightarrow> strlist \<Rightarrow> nat \<Rightarrow> (nat \<times> strlist) option" where
  "strlist_trunc al l items =
     (if items = 0 then map_option (\<lambda>(ok, sa). (0, l\<lparr>sl_sa := sa\<rparr>)) (stralloc_trunc al (sl_sa l) 0)
      else do { (x, n) \<leftarrow> strlist_at_n l (items - 1);
                case x of
                  None \<Rightarrow> Some (0, l)
                | Some p \<Rightarrow> map_option (\<lambda>(ok, sa). (items, l\<lparr>sl_sa := sa\<rparr>)) (stralloc_trunc al (sl_sa l) (of_nat (n + p))) })"

text \<open>The result borrows its text; a difference with the pointer 0 is undefined.\<close>

definition strlist_range :: "strlist \<Rightarrow> nat \<Rightarrow> nat \<Rightarrow> strlist option" where
  "strlist_range sl from' to =
     do { x \<leftarrow> strlist_at sl from';
          s \<leftarrow> x;
          y \<leftarrow> strlist_at sl to;
          e \<leftarrow> y;
          Some \<lparr>sl_sa = \<lparr>sa_s = Some (drop s (sl_mem sl)), sa_len = of_nat e - of_nat s, sa_a = 0\<rparr>, sl_sep = sl_sep sl\<rparr> }"

text \<open>
  \<open>strlist_splice\<close> compares its signed position with the unsigned end of the text, so that the
  position -1 of a string that is not there is behind the end.
\<close>

function splice_loop :: "byte list \<Rightarrow> nat \<Rightarrow> nat \<Rightarrow> nat \<Rightarrow> byte \<Rightarrow> nat option" where
  "splice_loop x p end' ndelete sep =
     (if p < end' then
        if ndelete = 0 then Some p
        else do { i \<leftarrow> byte_chr (drop p x) (end' - p) sep;
                  let i = (if p + i < end' then i + 1 else i);
                  if i = 0 then None else splice_loop x (p + i) end' (ndelete - 1) sep }
      else Some p)"
  by pat_completeness auto
termination by (relation "measure (\<lambda>(x, p, end', ndelete, sep). ndelete)") auto

declare splice_loop.simps [simp del]

definition strlist_splice :: "allocator \<Rightarrow> strlist \<Rightarrow> nat \<Rightarrow> nat \<Rightarrow> byte list \<Rightarrow> nat \<Rightarrow> (bool \<times> strlist) option" where
  "strlist_splice al l pos ndelete buf len =
     do { start \<leftarrow> strlist_pos l pos;
          p \<leftarrow> (if start < 0 then Some start
                  else map_option int (splice_loop (sl_mem l) (nat start) (sl_len l) ndelete (sl_sep l)));
          map_option (\<lambda>(ok, sa). (ok, l\<lparr>sl_sa := sa\<rparr>))
            (stralloc_replace al (sl_sa l) (of_int start) (of_int (p - start)) buf (of_nat len)) }"

subsection \<open>Lists as sets\<close>

primrec cat_unique_loop :: "allocator \<Rightarrow> (byte list \<times> nat) list \<Rightarrow> strlist \<Rightarrow> nat \<Rightarrow> (nat \<times> strlist) option" where
  "cat_unique_loop al [] sl ret = Some (ret, sl)"
| "cat_unique_loop al (y # ys) sl ret =
     do { c \<leftarrow> strlist_containsb sl (fst y) (snd y);
          if c then cat_unique_loop al ys sl ret
          else do { sl \<leftarrow> strlist_pushb al sl (fst y) (snd y); cat_unique_loop al ys sl (ret + 1) } }"

definition strlist_cat_unique :: "allocator \<Rightarrow> strlist \<Rightarrow> strlist \<Rightarrow> (nat \<times> strlist) option" where
  "strlist_cat_unique al sl l = do { ys \<leftarrow> strlist_foreach l; cat_unique_loop al ys sl 0 }"

primrec filter_loop :: "allocator \<Rightarrow> (byte list \<Rightarrow> nat \<Rightarrow> bool option) \<Rightarrow> (byte list \<times> nat) list \<Rightarrow> strlist \<Rightarrow> nat \<Rightarrow> (nat \<times> strlist) option" where
  "filter_loop al f [] out c = Some (c, out)"
| "filter_loop al f (y # ys) out c =
     do { e \<leftarrow> f (fst y) (snd y);
          if e then do { out \<leftarrow> strlist_pushb al out (fst y) (snd y); filter_loop al f ys out (c + 1) }
          else filter_loop al f ys out c }"

definition strlist_filter :: "allocator \<Rightarrow> strlist \<Rightarrow> (byte list \<Rightarrow> nat \<Rightarrow> bool option) \<Rightarrow> strlist \<Rightarrow> (nat \<times> strlist) option" where
  "strlist_filter al sl filter_fn out = do { ys \<leftarrow> strlist_foreach sl; filter_loop al filter_fn ys out 0 }"

definition strlist_diff :: "allocator \<Rightarrow> strlist \<Rightarrow> strlist \<Rightarrow> strlist \<Rightarrow> (nat \<times> strlist) option" where
  "strlist_diff al a b out =
     do { ys \<leftarrow> strlist_foreach a;
          filter_loop al (\<lambda>x n. map_option Not (strlist_containsb b x n)) ys (strlist_zero out) 0 }"

primrec remove_loop :: "(byte list \<times> nat) list \<Rightarrow> strlist \<Rightarrow> nat \<Rightarrow> (nat \<times> strlist) option" where
  "remove_loop [] sl cnt = Some (cnt, sl)"
| "remove_loop (y # ys) sl cnt =
     do { c \<leftarrow> strlist_containsb sl (fst y) (snd y);
          if c then do { (r, sl) \<leftarrow> strlist_removeb sl (fst y) (snd y); remove_loop ys sl (cnt + 1) }
          else remove_loop ys sl cnt }"

definition strlist_remove_all :: "strlist \<Rightarrow> strlist \<Rightarrow> (nat \<times> strlist) option" where
  "strlist_remove_all sl remove = do { ys \<leftarrow> strlist_foreach remove; remove_loop ys sl 0 }"

primrec sub_loop :: "(byte list \<times> nat) list \<Rightarrow> strlist \<Rightarrow> nat \<Rightarrow> (nat \<times> strlist) option" where
  "sub_loop [] l r = Some (r, l)"
| "sub_loop (y # ys) l r =
     do { (ok, l) \<leftarrow> strlist_removeb l (fst y) (snd y); sub_loop ys l (if ok then r + 1 else r) }"

definition strlist_sub :: "strlist \<Rightarrow> strlist \<Rightarrow> (nat \<times> strlist) option" where
  "strlist_sub l o' = do { ys \<leftarrow> strlist_foreach o'; sub_loop ys l 0 }"

subsection \<open>Joining and printing\<close>

primrec join_loop :: "allocator \<Rightarrow> (byte list \<times> nat) list \<Rightarrow> bool \<Rightarrow> stralloc \<Rightarrow> byte \<Rightarrow> stralloc option" where
  "join_loop al [] first sa delim = Some sa"
| "join_loop al (y # ys) first sa delim =
     do { sa \<leftarrow> (if first then Some sa else map_option snd (stralloc_catc al sa delim));
          sa \<leftarrow> map_option snd (stralloc_catb al sa (fst y) (of_nat (snd y)));
          join_loop al ys False sa delim }"

definition strlist_join :: "allocator \<Rightarrow> strlist \<Rightarrow> stralloc \<Rightarrow> byte \<Rightarrow> stralloc option" where
  "strlist_join al sl sa delim = do { ys \<leftarrow> strlist_foreach sl; join_loop al ys True sa delim }"

function joins_loop :: "allocator \<Rightarrow> byte list \<Rightarrow> nat \<Rightarrow> nat \<Rightarrow> byte \<Rightarrow> stralloc \<Rightarrow> byte list \<Rightarrow> stralloc option" where
  "joins_loop al m i len sep sa delim =
     (if i < len then
        do { n \<leftarrow> byte_chr (drop i m) (len - i) sep;
             sa \<leftarrow> (if i > 0 then map_option snd (stralloc_cats al sa delim) else Some sa);
             sa \<leftarrow> map_option snd (stralloc_catb al sa (drop i m) (of_nat n));
             joins_loop al m (i + n + 1) len sep sa delim }
      else Some sa)"
  by pat_completeness auto
termination by (relation "measure (\<lambda>(al, m, i, len, sep, sa, delim). len - i)") auto

declare joins_loop.simps [simp del]

definition strlist_joins :: "allocator \<Rightarrow> strlist \<Rightarrow> stralloc \<Rightarrow> byte list \<Rightarrow> stralloc option" where
  "strlist_joins al sl sa delim = joins_loop al (sl_mem sl) 0 (sl_len sl) (sl_sep sl) sa delim"

text \<open>A do-while loop: an empty list prints one empty string.\<close>

function putsl_loop :: "buffer \<Rightarrow> dev \<Rightarrow> byte list \<Rightarrow> nat \<Rightarrow> byte \<Rightarrow> byte list \<Rightarrow> bool \<Rightarrow> (buffer \<times> dev) option" where
  "putsl_loop out d x n sep separator first =
     do { p \<leftarrow> byte_chr x n sep;
          (out, d) \<leftarrow> (if first then Some (out, d) else map_option snd (buffer_puts out d separator));
          (out, d) \<leftarrow> map_option snd (buffer_put out d x (of_nat p));
          let p = (if p < n then p + 1 else p);
          if 0 < p \<and> p < n then putsl_loop out d (drop p x) (n - p) sep separator False
          else Some (out, d) }"
  by pat_completeness auto
termination by (relation "measure (\<lambda>(out, d, x, n, sep, separator, first). n)") auto

declare putsl_loop.simps [simp del]

definition buffer_putsl :: "buffer \<Rightarrow> dev \<Rightarrow> strlist \<Rightarrow> byte list \<Rightarrow> (buffer \<times> dev) option" where
  "buffer_putsl out d sl separator =
     do { cnt \<leftarrow> strlist_count sl; putsl_loop out d (sl_mem sl) (sl_len sl) (sl_sep sl) separator True }"

text \<open>
  \<open>strlist_sort\<close> terminates every string in place, sorts the pointers with \<open>qsort\<close> by
  \<open>str_diff\<close> whatever function it was given, and pushes them into a fresh text.  \<open>qsort\<close> is
  an insertion sort here: strings that compare equal are equal, so every sorting gives the same texts.
  The code does not look whether there is memory for the pointers; it has room for one per string.
\<close>

function sort_split :: "byte list \<Rightarrow> nat \<Rightarrow> nat \<Rightarrow> byte \<Rightarrow> (byte list \<times> nat list) option" where
  "sort_split m p len sep =
     (if p < len then
        do { n \<leftarrow> byte_chr (drop p m) (len - p) sep;
             m \<leftarrow> wr m (p + n) 0;
             (m, ps) \<leftarrow> sort_split m (p + n + 1) len sep;
             Some (m, p # ps) }
      else Some (m, []))"
  by pat_completeness auto
termination by (relation "measure (\<lambda>(m, p, len, sep). len - p)") auto

declare sort_split.simps [simp del]

primrec sort_insert :: "byte list \<Rightarrow> byte list list \<Rightarrow> byte list list option" where
  "sort_insert s [] = Some [s]"
| "sort_insert s (t # ts) =
     do { c \<leftarrow> str_diff s t; if c \<le> 0 then Some (s # t # ts) else map_option (\<lambda>ts. t # ts) (sort_insert s ts) }"

primrec sort_strings :: "byte list list \<Rightarrow> byte list list option" where
  "sort_strings [] = Some []"
| "sort_strings (s # ss) = do { ss \<leftarrow> sort_strings ss; sort_insert s ss }"

definition strlist_sort :: "allocator \<Rightarrow> strlist \<Rightarrow> (nat \<times> strlist) option" where
  "strlist_sort al sl =
     do { (ok, sa) \<leftarrow> stralloc_readyplus al (sl_sa sl) 1;
          let sl = sl\<lparr>sl_sa := sa\<rparr>;
          p \<leftarrow> strlist_count sl;
          if p \<le> 1 then Some (p, sl)
          else do { b \<leftarrow> malloc al (8 * p);
                    (m, ps) \<leftarrow> sort_split (sl_mem sl) 0 (sl_len sl) (sl_sep sl);
                    _ \<leftarrow> (if length ps > p then None else Some ());
                    ss \<leftarrow> sort_strings (map (\<lambda>p. drop p m) ps);
                    sl \<leftarrow> strlist_pushm_internal al (sl\<lparr>sl_sa := stralloc_init (sl_sa sl)\<rparr>) ss;
                    Some (length ps, sl) } }"

subsection \<open>What a list holds\<close>

fun joined :: "byte \<Rightarrow> byte list list \<Rightarrow> byte list" where
  "joined sep [] = []"
| "joined sep [x] = x"
| "joined sep (x # y # ys) = x @ sep # joined sep (y # ys)"

definition item_ok :: "byte \<Rightarrow> byte list \<Rightarrow> bool" where
  "item_ok sep x \<longleftrightarrow> x \<noteq> [] \<and> sep \<notin> set x"

definition sl_is :: "strlist \<Rightarrow> byte list list \<Rightarrow> bool" where
  "sl_is sl xs \<longleftrightarrow> sa_is (sl_sa sl) (joined (sl_sep sl) xs) \<and> list_all (item_ok (sl_sep sl)) xs"

lemma joined_Cons: "joined sep (x # xs) = (if xs = [] then x else x @ sep # joined sep xs)"
  by (cases xs) simp_all

lemma joined_snoc: "joined sep (xs @ [x]) = (if xs = [] then x else joined sep xs @ sep # x)"
  by (induction xs) (auto simp: joined_Cons)

lemma joined_append: "xs \<noteq> [] \<Longrightarrow> ys \<noteq> [] \<Longrightarrow> joined sep (xs @ ys) = joined sep xs @ sep # joined sep ys"
  by (induction xs) (auto simp: joined_Cons)

lemma joined_Nil_iff: "list_all (item_ok sep) xs \<Longrightarrow> joined sep xs = [] \<longleftrightarrow> xs = []"
  by (cases xs) (auto simp: joined_Cons item_ok_def)

text \<open>From position \<open>p\<close> on, the text of length \<open>len\<close> in \<open>m\<close> is the list \<open>xs\<close>.\<close>

definition tail_is :: "byte list \<Rightarrow> nat \<Rightarrow> nat \<Rightarrow> byte \<Rightarrow> byte list list \<Rightarrow> bool" where
  "tail_is m len p sep xs \<longleftrightarrow>
     len \<le> length m \<and> drop p (take len m) = joined sep xs \<and> list_all (item_ok sep) xs"

lemma tail_done: "tail_is m len p sep [] \<Longrightarrow> \<not> p < len"
  by (auto simp: tail_is_def)

lemma tail_more:
  assumes "tail_is m len p sep (x # xs)"
  shows "p < len" "item_ok sep x" "byte_chr (drop p m) (len - p) sep = Some (length x)" "take (length x) (drop p m) = x"
    "p + length x \<le> len" "tail_is m len (p + length x + 1) sep xs" "xs = [] \<longrightarrow> p + length x = len"
    "xs \<noteq> [] \<longrightarrow> p + length x < len \<and> rd m (p + length x) = Some sep"
proof -
  let ?r = "if xs = [] then [] else sep # joined sep xs"
  have d: "take (len - p) (drop p m) = x @ ?r" and le: "len \<le> length m" and ok: "item_ok sep x" "list_all (item_ok sep) xs"
    using assms by (auto simp: tail_is_def joined_Cons drop_take)
  have pos: "0 < length x" using ok(1) by (simp add: item_ok_def)
  have l: "len - p = length x + length ?r"
  proof -
    have "length (take (len - p) (drop p m)) = len - p" using le by simp
    then show ?thesis unfolding d by simp
  qed
  then show lt: "p < len" using pos by linarith
  show "item_ok sep x" by (rule ok)
  have "takeWhile (\<lambda>c. c \<noteq> sep) (x @ ?r) = x" using ok(1) by (subst takeWhile_append2) (auto simp: item_ok_def)
  then show "byte_chr (drop p m) (len - p) sep = Some (length x)"
    using byte_chr_takeWhile[of "len - p" "drop p m" sep] le lt unfolding d by simp
  have "take (length x) (take (len - p) (drop p m)) = x" unfolding d by simp
  then show "take (length x) (drop p m) = x" using l by (simp add: min_absorb1)
  show le2: "p + length x \<le> len" using l lt by linarith
  show "xs = [] \<longrightarrow> p + length x = len" using l lt by auto
  have "drop (p + length x + 1) (take len m) = drop (length x + 1) (drop p (take len m))" by (simp add: add.commute)
  also have "\<dots> = joined sep xs" using d by (simp add: drop_take)
  finally show "tail_is m len (p + length x + 1) sep xs" using le ok(2) by (simp add: tail_is_def)
  show "xs \<noteq> [] \<longrightarrow> p + length x < len \<and> rd m (p + length x) = Some sep"
  proof
    assume xs: "xs \<noteq> []"
    then have "length x < len - p" using l by (simp split: if_splits)
    moreover have "take (len - p) (drop p m) ! length x = sep" unfolding d using xs by simp
    ultimately show "p + length x < len \<and> rd m (p + length x) = Some sep" using le by simp
  qed
qed

lemma sl_is_tail: "sl_is sl xs \<Longrightarrow> tail_is (sl_mem sl) (sl_len sl) 0 (sl_sep sl) xs"
  using sa_is_len[of "sl_sa sl"] sa_is_text[of "sl_sa sl"] sa_is_le_mem[of "sl_sa sl"]
  by (auto simp: sl_is_def tail_is_def sl_mem_def sl_len_def)

subsection \<open>The loops visit the strings\<close>

definition is_block :: "byte list \<times> nat \<Rightarrow> byte list \<Rightarrow> bool" where
  "is_block b x \<longleftrightarrow> snd b = length x \<and> take (snd b) (fst b) = x"

lemma foreach_loop_items:
  "tail_is m len p sep xs \<Longrightarrow> \<exists>ys. foreach_loop m p len sep = Some ys \<and> list_all2 is_block ys xs"
proof (induction xs arbitrary: p)
  case Nil
  then show ?case using tail_done by (subst foreach_loop.simps) auto
next
  case (Cons x xs)
  note t = tail_more[OF Cons.prems]
  obtain ys where "foreach_loop m (p + length x + 1) len sep = Some ys" "list_all2 is_block ys xs"
    using Cons.IH[OF t(6)] by blast
  moreover have "0 < length x" using t(2) by (simp add: item_ok_def)
  ultimately show ?case using t by (subst foreach_loop.simps) (auto simp: is_block_def)
qed

lemma strlist_foreach_items: "sl_is sl xs \<Longrightarrow> \<exists>ys. strlist_foreach sl = Some ys \<and> list_all2 is_block ys xs"
  using foreach_loop_items[OF sl_is_tail] by (simp add: strlist_foreach_def)

lemma byte_equal_block:
  assumes "is_block (d, n) x" "is_block (e, n) y"
  shows "byte_equal d n e = Some (x = y)"
proof -
  have "n \<le> length d" "n \<le> length e" using assms by (auto simp: is_block_def dest!: arg_cong[where f = length])
  then show ?thesis using assms by (auto simp: is_block_def byte_equal_iff)
qed

lemma contains_loop_iff:
  assumes "is_block (b, n) y"
  shows "tail_is m len p sep xs \<Longrightarrow> contains_loop m p len sep b n = Some (y \<in> set xs)"
proof (induction xs arbitrary: p)
  case Nil
  then show ?case using tail_done by (subst contains_loop.simps) auto
next
  case (Cons x xs)
  note t = tail_more[OF Cons.prems]
  have "(if length x = n then byte_equal (drop p m) n b else Some False) = Some (x = y)"
    using byte_equal_block[of "drop p m" n x b y] assms t(4) by (auto simp: is_block_def)
  then show ?case using t Cons.IH[OF t(6)] by (subst contains_loop.simps) auto
qed

lemma strlist_containsb_iff: "sl_is sl xs \<Longrightarrow> is_block (b, n) y \<Longrightarrow> strlist_containsb sl b n = Some (y \<in> set xs)"
  using contains_loop_iff[OF _ sl_is_tail] by (simp add: strlist_containsb_def)

definition offset_of :: "byte \<Rightarrow> byte list list \<Rightarrow> nat" where
  "offset_of sep us = length (concat us) + length us"

lemma indexof_loop_eq:
  assumes "is_block (b, n) y"
  shows "tail_is m len p sep xs \<Longrightarrow> indexof_loop m p len sep b n =
     Some (if y \<in> set xs then Some (p + offset_of sep (takeWhile (\<lambda>x. x \<noteq> y) xs)) else None)"
proof (induction xs arbitrary: p)
  case Nil
  then show ?case using tail_done by (subst indexof_loop.simps) auto
next
  case (Cons x xs)
  note t = tail_more[OF Cons.prems]
  have "length x \<noteq> 0" using t(2) by (simp add: item_ok_def)
  moreover have "(if n = length x then byte_equal (drop p m) (length x) b else Some False) = Some (x = y)"
    using byte_equal_block[of "drop p m" n x b y] assms t(4) by (auto simp: is_block_def)
  ultimately show ?case using t Cons.IH[OF t(6)] by (subst indexof_loop.simps) (auto simp: offset_of_def)
qed

lemma count_loop_eq:
  "tail_is m len p sep (x # xs) \<Longrightarrow> count_loop (drop p m) (len - p) l sep = Some (l + length xs)"
proof (induction xs arbitrary: x p l)
  case Nil
  note t = tail_more[OF Nil]
  show ?case by (subst count_loop.simps) (use t in auto)
next
  case (Cons y ys)
  note t = tail_more[OF Cons.prems]
  have "0 < length y" using tail_more(2)[OF t(6)] by (simp add: item_ok_def)
  then have "p + length x + 1 < len" using tail_more(1)[OF t(6)] by simp
  moreover have "drop (length x + 1) (drop p m) = drop (p + length x + 1) m" by (simp add: add.commute)
  moreover have "rd (drop p m) (length x) = Some sep" using t(8) by (simp add: rd_drop add.commute)
  ultimately show ?case using Cons.IH[OF t(6), of "l + 1"] t by (subst count_loop.simps) auto
qed

lemma strlist_count_eq: "sl_is sl xs \<Longrightarrow> strlist_count sl = Some (length xs)"
  using sl_is_tail[of sl xs] count_loop_eq[of "sl_mem sl" "sl_len sl" 0 "sl_sep sl" "hd xs" "tl xs" 1] tail_more(1)
  by (cases xs) (fastforce simp: strlist_count_def dest: tail_done)+

lemma offset_Cons: "offset_of sep (x # xs) = length x + 1 + offset_of sep xs"
  by (simp add: offset_of_def)

lemma tail_drop:
  "tail_is m len p sep xs \<Longrightarrow> j < length xs \<Longrightarrow> tail_is m len (p + offset_of sep (take j xs)) sep (drop j xs)"
proof (induction j arbitrary: p xs)
  case 0
  then show ?case by (simp add: offset_of_def)
next
  case (Suc j)
  then obtain x ys where xs: "xs = x # ys" by (cases xs) auto
  then have "tail_is m len (p + length x + 1) sep ys" using tail_more(6) Suc.prems(1) by blast
  from Suc.IH[OF this] show ?case using Suc.prems(2) xs by (simp add: offset_Cons add.assoc)
qed

lemma at_skip:
  "l \<noteq> i \<Longrightarrow> sep \<notin> set x \<Longrightarrow> take (length x) (drop p m) = x \<Longrightarrow>
     at_loop (length x + k) m p l i sep = at_loop k m (p + length x) l i sep"
proof (induction x arbitrary: p)
  case (Cons c x)
  then have "p < length m" by (cases "p < length m") auto
  moreover from this have "m ! p = c" "take (length x) (drop (Suc p) m) = x"
    using Cons.prems(3) by (auto simp: Cons_nth_drop_Suc[symmetric])
  ultimately show ?case using Cons.IH[of "Suc p"] Cons.prems by auto
qed simp

lemma at_loop_item:
  "tail_is m len p sep xs \<Longrightarrow> j < length xs \<Longrightarrow> len - p \<le> k \<Longrightarrow>
     at_loop k m p l (l + j) sep = Some (Some (p + offset_of sep (take j xs)))"
proof (induction xs arbitrary: p j k l)
  case (Cons x xs)
  note t = tail_more[OF Cons.prems(1)]
  show ?case
  proof (cases j)
    case 0
    then show ?thesis using t(1) Cons.prems(3) by (cases k) (auto simp: offset_of_def)
  next
    case (Suc i)
    then have xs: "xs \<noteq> []" using Cons.prems(2) by auto
    obtain k' where k: "k = length x + Suc k'" "len - (p + length x + 1) \<le> k'"
    proof
      show "k = length x + Suc (k - length x - 1)" using t(8) xs Cons.prems(3) by auto
    qed (use Cons.prems(3) in auto)
    have "at_loop k m p l (l + j) sep = at_loop (Suc k') m (p + length x) l (l + j) sep"
      unfolding k(1) using t(2,4) Suc by (intro at_skip) (auto simp: item_ok_def)
    then show ?thesis using Cons.IH[OF t(6) _ k(2), of i "l + 1"] Cons.prems(2) Suc t(8) xs by (simp add: offset_Cons)
  qed
qed simp

lemma at_loop_beyond:
  "tail_is m len p sep xs \<Longrightarrow> length xs \<le> j \<Longrightarrow> at_loop (len - p) m p l (l + j) sep = Some None"
proof (induction xs arbitrary: p j l)
  case Nil
  then show ?case using tail_done by fastforce
next
  case (Cons x xs)
  note t = tail_more[OF Cons.prems(1)]
  obtain i where i: "j = Suc i" "length xs \<le> i" using Cons.prems(2) by (cases j) auto
  show ?case
  proof (cases "xs = []")
    case True
    then have "len - p = length x + 0" using t(1,7) by simp
    then show ?thesis using at_skip[of l "l + j" sep x p m 0] t(2,4) i by (simp add: item_ok_def)
  next
    case False
    then have k: "len - p = length x + Suc (len - (p + length x + 1))" using t(8) by auto
    have "at_loop (len - p) m p l (l + j) sep = at_loop (Suc (len - (p + length x + 1))) m (p + length x) l (l + j) sep"
      unfolding k using t(2,4) i by (intro at_skip) (auto simp: item_ok_def)
    then show ?thesis using Cons.IH[OF t(6) i(2), of "l + 1"] False i(1) t(8) by simp
  qed
qed

lemma strlist_at_n_eq:
  assumes "sl_is sl xs"
  shows "strlist_at_n sl j =
     Some (if j < length xs then (Some (offset_of (sl_sep sl) (take j xs)), length (xs ! j)) else (None, 0))"
proof (cases "j < length xs")
  case True
  note s = sl_is_tail[OF assms]
  have "drop j xs = xs ! j # drop (Suc j) xs" using True by (simp add: Cons_nth_drop_Suc)
  then show ?thesis using True at_loop_item[OF s True, of "sl_len sl" 0] tail_more(3)[of "sl_mem sl"] tail_drop[OF s True]
    by (simp add: strlist_at_n_def)
next
  case False
  then show ?thesis using at_loop_beyond[OF sl_is_tail[OF assms], of j 0] by (simp add: strlist_at_n_def)
qed

lemma strlist_at_eq:
  assumes "sl_is sl xs" "j < length xs"
  shows "strlist_at sl j = Some (Some (offset_of (sl_sep sl) (take j xs)))"
proof -
  have "xs \<noteq> []" using assms(2) by auto
  then have "joined (sl_sep sl) xs \<noteq> []" using assms(1) joined_Nil_iff by (auto simp: sl_is_def)
  then have "sa_s (sl_sa sl) \<noteq> None" using sa_is_len[of "sl_sa sl"] assms(1) by (cases "sa_s (sl_sa sl)") (auto simp: sl_is_def sa_is_def sa_wf_def)
  then show ?thesis using at_loop_item[OF sl_is_tail[OF assms(1)] assms(2), of "sl_len sl + 1" 0] by (simp add: strlist_at_def)
qed

subsection \<open>Adding strings\<close>

lemma sl_catc_is:
  assumes "sa_is (sl_sa sl) w" "length w + 1 < sa_max" "grants al"
  shows "\<exists>sl'. sl_catc al sl c = Some sl' \<and> sa_is (sl_sa sl') (w @ [c]) \<and> sl_sep sl' = sl_sep sl"
  using stralloc_catc_out[OF assms(1), of al c] assms(2,3) by (auto simp: sl_catc_def sa_out_def)

lemma sl_catb_is:
  assumes "sa_is (sl_sa sl) w" "is_block (b, n) x" "length w + n < sa_max" "grants al"
  shows "\<exists>sl'. sl_catb al sl b n = Some sl' \<and> sa_is (sl_sa sl') (w @ x) \<and> sl_sep sl' = sl_sep sl"
proof -
  have n: "unat (of_nat n :: uint64) = n" using assms(3) by (intro unat_of_nat_sa) simp
  have "n \<le> length b" using assms(2) by (auto simp: is_block_def dest!: arg_cong[where f = length])
  then show ?thesis using stralloc_catb_out[OF assms(1), of "of_nat n" b al] n assms by (auto simp: sl_catb_def sa_out_def is_block_def)
qed

definition sl_size :: "byte \<Rightarrow> byte list list \<Rightarrow> nat" where
  "sl_size sep xs = length (joined sep xs)"

lemma sl_is_len: "sl_is sl xs \<Longrightarrow> sl_len sl = sl_size (sl_sep sl) xs"
  using sa_is_len by (auto simp: sl_is_def sl_len_def sl_size_def)

lemma strlist_pushb_is:
  assumes "sl_is sl xs" "is_block (b, n) x" "item_ok (sl_sep sl) x" "sl_size (sl_sep sl) xs + n + 1 < sa_max" "grants al"
  shows "\<exists>sl'. strlist_pushb al sl b n = Some sl' \<and> sl_is sl' (xs @ [x]) \<and> sl_sep sl' = sl_sep sl"
proof -
  let ?w = "joined (sl_sep sl) xs"
  have w: "sa_is (sl_sa sl) ?w" "list_all (item_ok (sl_sep sl)) xs" using assms(1) by (auto simp: sl_is_def)
  have len: "sl_len sl \<noteq> 0 \<longleftrightarrow> xs \<noteq> []" using sl_is_len[OF assms(1)] joined_Nil_iff[OF w(2)] by (simp add: sl_size_def)
  obtain sl1 where s1: "(if sl_len sl \<noteq> 0 then sl_catc al sl (sl_sep sl) else Some sl) = Some sl1"
      "sa_is (sl_sa sl1) (?w @ (if xs = [] then [] else [sl_sep sl]))" "sl_sep sl1 = sl_sep sl"
    using sl_catc_is[OF w(1), of al "sl_sep sl"] w(1) len assms(4,5) by (cases "xs = []") (auto simp: sl_size_def)
  have n: "n \<noteq> 0" using assms(2,3) by (auto simp: is_block_def item_ok_def)
  obtain sl2 where "sl_catb al sl1 b n = Some sl2" "sa_is (sl_sa sl2) ((?w @ (if xs = [] then [] else [sl_sep sl])) @ x)" "sl_sep sl2 = sl_sep sl1"
    using sl_catb_is[OF s1(2) assms(2) _ assms(5)] assms(4) by (cases "xs = []") (auto simp: sl_size_def)
  moreover have "(?w @ (if xs = [] then [] else [sl_sep sl])) @ x = joined (sl_sep sl) (xs @ [x])" by (simp add: joined_snoc)
  ultimately show ?thesis using s1 n w(2) assms(3) by (simp add: strlist_pushb_def sl_is_def)
qed

lemma sl_separate_is:
  assumes "sl_is sl xs" "sl_size (sl_sep sl) xs + 1 < sa_max" "grants al"
  shows "\<exists>sl'. sl_separate al sl = Some sl' \<and> sl_sep sl' = sl_sep sl \<and>
     sa_is (sl_sa sl') (joined (sl_sep sl) xs @ (if xs = [] then [] else [sl_sep sl]))"
proof (cases "xs = []")
  case True
  then show ?thesis using assms(1) sl_is_len[OF assms(1)] by (auto simp: sl_separate_def sl_is_def sl_size_def)
next
  case False
  let ?w = "joined (sl_sep sl) xs"
  have w: "sa_is (sl_sa sl) ?w" "list_all (item_ok (sl_sep sl)) xs" using assms(1) by (auto simp: sl_is_def)
  obtain ys x where xs: "xs = ys @ [x]" using False by (cases xs rule: rev_cases) auto
  have x: "x \<noteq> []" "sl_sep sl \<notin> set x" using w(2) xs by (auto simp: item_ok_def)
  have last: "last ?w \<noteq> sl_sep sl" "?w \<noteq> []" using x by (auto simp: xs joined_snoc) (metis last_in_set)+
  have len: "sl_len sl = length ?w" using sl_is_len[OF assms(1)] by (simp add: sl_size_def)
  obtain r where "sl_mem sl = ?w @ r" using sa_is_mem[OF w(1)] by (auto simp: sl_mem_def)
  moreover have "length ?w - 1 < length ?w" using last(2) by (cases ?w) simp_all
  ultimately have "rd (sl_mem sl) (sl_len sl - 1) = Some (last ?w)" using last(2) len by (simp add: rd_append_left last_conv_nth)
  then show ?thesis using sl_catc_is[OF w(1), of al "sl_sep sl"] last len assms(2,3) False
    by (auto simp: sl_separate_def sl_size_def)
qed

lemma strlist_push_is:
  assumes "sl_is sl xs" "nonul x" "item_ok (sl_sep sl) x" "sl_size (sl_sep sl) xs + length x + 1 < sa_max" "grants al"
  shows "\<exists>sl'. strlist_push al sl (Some (cstr x r)) = Some sl' \<and> sl_is sl' (xs @ [x]) \<and> sl_sep sl' = sl_sep sl"
proof -
  obtain sl1 where s1: "sl_separate al sl = Some sl1" "sl_sep sl1 = sl_sep sl"
      "sa_is (sl_sa sl1) (joined (sl_sep sl) xs @ (if xs = [] then [] else [sl_sep sl]))"
    using sl_separate_is[OF assms(1) _ assms(5)] assms(4) by auto
  have b: "is_block (cstr x r, length x) x" by (simp add: is_block_def take_cstr)
  have c: "rd (cstr x r) 0 = Some (hd x)" "hd x \<noteq> 0" using assms(2,3) by (cases x; simp add: item_ok_def)+
  obtain sl2 where "sl_catb al sl1 (cstr x r) (length x) = Some sl2" "sl_sep sl2 = sl_sep sl1"
      "sa_is (sl_sa sl2) ((joined (sl_sep sl) xs @ (if xs = [] then [] else [sl_sep sl])) @ x)"
    using sl_catb_is[OF s1(3) b _ assms(5)] assms(4) by (cases "xs = []") (auto simp: sl_size_def)
  moreover have "(joined (sl_sep sl) xs @ (if xs = [] then [] else [sl_sep sl])) @ x = joined (sl_sep sl) (xs @ [x])"
    by (simp add: joined_snoc)
  ultimately show ?thesis using s1 c assms(1,2,3) by (simp add: strlist_push_def sl_is_def)
qed

subsection \<open>The contract of a collection of strings\<close>

text \<open>
  What the routines that treat lists as sets rely on: a test for membership and a routine that adds a
  string at the end.  Strings are passed as a pointer and a length.
\<close>

fun union_list :: "'a list \<Rightarrow> 'a list \<Rightarrow> 'a list" where
  "union_list xs [] = xs"
| "union_list xs (y # ys) = union_list (if y \<in> set xs then xs else xs @ [y]) ys"

lemma set_union_list: "set (union_list xs ys) = set xs \<union> set ys"
  by (induction xs ys rule: union_list.induct) auto

lemma distinct_union_list: "distinct xs \<Longrightarrow> distinct (union_list xs ys)"
  by (induction xs ys rule: union_list.induct) auto

lemma length_union_list: "length xs \<le> length (union_list xs ys)"
  by (induction xs ys rule: union_list.induct) (auto split: if_splits)

definition total :: "byte list list \<Rightarrow> nat" where
  "total xs = length (concat xs) + length xs"

lemma total_append: "total (xs @ ys) = total xs + total ys"
  by (simp add: total_def)

locale string_list =
  fixes holds :: "'s \<Rightarrow> byte list list \<Rightarrow> bool"
    and good :: "byte list \<Rightarrow> bool"
    and has :: "'s \<Rightarrow> byte list \<times> nat \<Rightarrow> bool option"
    and push :: "'s \<Rightarrow> byte list \<times> nat \<Rightarrow> 's option"
    and cap :: nat
  assumes has_law: "holds s xs \<Longrightarrow> is_block b x \<Longrightarrow> has s b = Some (x \<in> set xs)"
    and push_law: "holds s xs \<Longrightarrow> is_block b x \<Longrightarrow> good x \<Longrightarrow> total (xs @ [x]) < cap \<Longrightarrow>
      \<exists>s'. push s b = Some s' \<and> holds s' (xs @ [x])"
begin

primrec add_new :: "(byte list \<times> nat) list \<Rightarrow> 's \<Rightarrow> nat \<Rightarrow> (nat \<times> 's) option" where
  "add_new [] s n = Some (n, s)"
| "add_new (b # bs) s n =
     do { c \<leftarrow> has s b; if c then add_new bs s n else do { s \<leftarrow> push s b; add_new bs s (n + 1) } }"

lemma add_new_law:
  "list_all2 is_block bs ys \<Longrightarrow> holds s xs \<Longrightarrow> list_all good ys \<Longrightarrow> total (xs @ ys) < cap \<Longrightarrow>
     \<exists>s'. add_new bs s n = Some (n + length (union_list xs ys) - length xs, s') \<and> holds s' (union_list xs ys)"
proof (induction bs ys arbitrary: s xs n rule: list_all2_induct)
  case (Cons b bs y ys)
  have h: "has s b = Some (y \<in> set xs)" by (rule has_law) (rule Cons)+
  show ?case
  proof (cases "y \<in> set xs")
    case True
    then show ?thesis using h Cons.IH[OF Cons.prems(1), of n] Cons.prems(2,3) by (simp add: total_append total_def)
  next
    case False
    obtain s1 where s1: "push s b = Some s1" "holds s1 (xs @ [y])"
      using push_law[OF Cons.prems(1) Cons.hyps(1)] Cons.prems(2,3) by (auto simp: total_append total_def)
    have "total ((xs @ [y]) @ ys) < cap" using Cons.prems(3) by simp
    then obtain s2 where s2: "add_new bs s1 (n + 1) = Some (n + 1 + length (union_list (xs @ [y]) ys) - length (xs @ [y]), s2)"
        "holds s2 (union_list (xs @ [y]) ys)"
      using Cons.IH[OF s1(2), of "n + 1"] Cons.prems(2) by auto
    then show ?thesis using h False s1(1) by simp
  qed
qed simp

primrec select :: "(byte list \<times> nat \<Rightarrow> bool option) \<Rightarrow> (byte list \<times> nat) list \<Rightarrow> 's \<Rightarrow> nat \<Rightarrow> (nat \<times> 's) option" where
  "select f [] s n = Some (n, s)"
| "select f (b # bs) s n =
     do { e \<leftarrow> f b; if e then do { s \<leftarrow> push s b; select f bs s (n + 1) } else select f bs s n }"

lemma select_law:
  assumes "\<And>b y. is_block b y \<Longrightarrow> f b = Some (P y)"
  shows "list_all2 is_block bs ys \<Longrightarrow> holds s xs \<Longrightarrow> list_all good ys \<Longrightarrow> total (xs @ ys) < cap \<Longrightarrow>
     \<exists>s'. select f bs s n = Some (n + length (filter P ys), s') \<and> holds s' (xs @ filter P ys)"
proof (induction bs ys arbitrary: s xs n rule: list_all2_induct)
  case (Cons b bs y ys)
  have f: "f b = Some (P y)" by (rule assms) (rule Cons)
  show ?case
  proof (cases "P y")
    case False
    then show ?thesis using f Cons.IH[OF Cons.prems(1), of n] Cons.prems(2,3) by (simp add: total_append total_def)
  next
    case True
    obtain s1 where s1: "push s b = Some s1" "holds s1 (xs @ [y])"
      using push_law[OF Cons.prems(1) Cons.hyps(1)] Cons.prems(2,3) by (auto simp: total_append total_def)
    have "total ((xs @ [y]) @ ys) < cap" using Cons.prems(3) by simp
    then show ?thesis using f True s1(1) Cons.IH[OF s1(2), of "n + 1"] Cons.prems(2) by simp
  qed
qed simp

end

lemma sl_size_total: "sl_size sep xs \<le> total xs"
  by (induction xs) (auto simp: sl_size_def total_def joined_Cons)

interpretation sl: string_list "\<lambda>sl xs. sl_is sl xs \<and> sl_sep sl = sep \<and> grants al" "item_ok sep"
  "\<lambda>sl b. strlist_containsb sl (fst b) (snd b)" "\<lambda>sl b. strlist_pushb al sl (fst b) (snd b)" sa_max for sep al
proof (unfold_locales, goal_cases)
  case (1 sl xs b x)
  then show ?case using strlist_containsb_iff[of sl xs "fst b" "snd b" x] by simp
next
  case (2 sl xs b x)
  then have "sl_size sep xs + snd b + 1 < sa_max" using sl_size_total[of sep xs] by (simp add: total_def is_block_def)
  then show ?case using 2 strlist_pushb_is[of sl xs "fst b" "snd b" x al] by auto
qed

lemma cat_unique_loop_add_new: "cat_unique_loop al ys sl n = sl.add_new al ys sl n"
  by (induction ys arbitrary: sl n) (auto split: Option.bind_split)

lemma filter_loop_select: "filter_loop al f ys sl n = sl.select al (\<lambda>b. f (fst b) (snd b)) ys sl n"
  by (induction ys arbitrary: sl n) (auto split: Option.bind_split)

lemma strlist_cat_unique_is:
  assumes "sl_is sl xs" "sl_is l ys" "sl_sep l = sl_sep sl" "total (xs @ ys) < sa_max" "grants al"
  shows "\<exists>sl'. strlist_cat_unique al sl l = Some (length (union_list xs ys) - length xs, sl') \<and> sl_is sl' (union_list xs ys)"
proof -
  obtain bs where bs: "strlist_foreach l = Some bs" "list_all2 is_block bs ys" using strlist_foreach_items[OF assms(2)] by blast
  have "list_all (item_ok (sl_sep sl)) ys" using assms(2,3) by (simp add: sl_is_def)
  then show ?thesis using sl.add_new_law[OF bs(2), of sl xs "sl_sep sl" al 0] assms bs(1)
    by (auto simp: strlist_cat_unique_def cat_unique_loop_add_new)
qed

lemma strlist_diff_is:
  assumes "sl_is a xs" "sl_is b ys" "sl_is out zs" "sl_sep out = sl_sep a" "total xs < sa_max" "grants al"
  shows "\<exists>sl'. strlist_diff al a b out = Some (length (filter (\<lambda>x. x \<notin> set ys) xs), sl') \<and> sl_is sl' (filter (\<lambda>x. x \<notin> set ys) xs)"
proof -
  obtain bs where bs: "strlist_foreach a = Some bs" "list_all2 is_block bs xs" using strlist_foreach_items[OF assms(1)] by blast
  have ok: "list_all (item_ok (sl_sep a)) xs" using assms(1) by (simp add: sl_is_def)
  have z: "sl_is (strlist_zero out) []" using assms(3) stralloc_zero_is by (auto simp: sl_is_def strlist_zero_def)
  have f: "map_option Not (strlist_containsb b (fst c) (snd c)) = Some (x \<notin> set ys)" if "is_block c x" for c x
    using strlist_containsb_iff[OF assms(2), of "fst c" "snd c" x] that by simp
  show ?thesis
    using sl.select_law[of "\<lambda>c. map_option Not (strlist_containsb b (fst c) (snd c))" "\<lambda>x. x \<notin> set ys", OF f bs(2),
        of "strlist_zero out" "[]" "sl_sep a" al 0] z ok assms(4-) bs(1)
    by (auto simp: strlist_diff_def filter_loop_select strlist_zero_def)
qed

subsection \<open>Splitting and joining\<close>

lemma sa_catb_block:
  assumes "sa_is sa w" "is_block (b, n) x" "length w + n < sa_max" "grants al"
  shows "\<exists>sa'. map_option snd (stralloc_catb al sa b (of_nat n)) = Some sa' \<and> sa_is sa' (w @ x)"
proof -
  have n: "unat (of_nat n :: uint64) = n" using assms(3) by (intro unat_of_nat_sa) simp
  have "n \<le> length b" using assms(2) by (auto simp: is_block_def dest!: arg_cong[where f = length])
  then show ?thesis using stralloc_catb_out[OF assms(1), of "of_nat n" b al] n assms by (auto simp: sa_out_def is_block_def)
qed

lemma join_loop_is:
  "list_all2 is_block bs xs \<Longrightarrow> sa_is sa w \<Longrightarrow> length w + total xs < sa_max \<Longrightarrow> grants al \<Longrightarrow>
     \<exists>sa'. join_loop al bs first sa delim = Some sa' \<and>
       sa_is sa' (w @ (if first \<or> xs = [] then [] else [delim]) @ joined delim xs)"
proof (induction bs xs arbitrary: sa w first rule: list_all2_induct)
  case (Cons b bs x xs)
  let ?v = "w @ (if first then [] else [delim])"
  obtain sa1 where s1: "(if first then Some sa else map_option snd (stralloc_catc al sa delim)) = Some sa1" "sa_is sa1 ?v"
  proof (cases first)
    case False
    then show ?thesis using that stralloc_catc_out[OF Cons.prems(1), of al delim] Cons.prems by (force simp: sa_out_def total_def)
  qed (use that Cons.prems in simp)
  have n: "snd b = length x" using Cons.hyps(1) by (simp add: is_block_def)
  obtain sa2 where s2: "map_option snd (stralloc_catb al sa1 (fst b) (of_nat (snd b))) = Some sa2" "sa_is sa2 (?v @ x)"
  proof -
    have "is_block (fst b, snd b) x" using Cons.hyps(1) by simp
    moreover have "length ?v + snd b < sa_max" using Cons.prems(2) n by (cases first) (simp_all add: total_def)
    ultimately show ?thesis using that sa_catb_block[OF s1(2) _ _ Cons.prems(3)] by blast
  qed
  have "length (?v @ x) + total xs < sa_max" using Cons.prems(2) by (cases first) (auto simp: total_def)
  from Cons.IH[OF s2(2) this Cons.prems(3), of False] show ?case using s1(1) s2(1) by (auto simp: joined_Cons)
qed simp

lemma strlist_join_is:
  assumes "sl_is sl xs" "sa_is sa w" "length w + total xs < sa_max" "grants al"
  shows "\<exists>sa'. strlist_join al sl sa delim = Some sa' \<and> sa_is sa' (w @ joined delim xs)"
  using strlist_foreach_items[OF assms(1)] join_loop_is[OF _ assms(2-4), of _ True delim] by (auto simp: strlist_join_def)

lemma byte_finds_char:
  assumes "n \<le> length x" "d \<noteq> 0"
  shows "byte_finds x n (cstr [d] r) = Some (length (takeWhile (\<lambda>c. c \<noteq> d) (take n x)))"
proof -
  have l: "str_len (cstr [d] r) = Some (length [d])" using assms(2) by (intro str_len_cstr) simp
  have occ: "occurs_at [d] w j \<longleftrightarrow> j < length w \<and> w ! j = d" for w j
    by (auto simp: occurs_at_def take_Suc hd_drop_conv_nth)
  have tw: "takeWhile (\<lambda>c. c \<noteq> d) (u @ [d] @ v) = u" if "\<forall>j < length u. \<not> occurs_at [d] (u @ [d] @ v) j" for u v
  proof -
    have "d \<notin> set u" using that by (auto simp: occ in_set_conv_nth nth_append)
    then show ?thesis by (subst takeWhile_append2) auto
  qed
  have tall: "takeWhile (\<lambda>c. c \<noteq> d) (take n x) = take n x" if "\<forall>j. \<not> occurs_at [d] (take n x) j"
    using that by (force simp: occ in_set_conv_nth takeWhile_eq_all_conv)
  have "take (length [d]) (cstr [d] r) = [d]" by (rule take_cstr)
  from byte_findb_split[OF not_Cons_self2 assms(1) this] show ?thesis
  proof (elim disjE)
    assume "\<exists>u v. take n x = u @ [d] @ v \<and> byte_findb x n (cstr [d] r) (length [d]) = Some (length u) \<and>
        (\<forall>j<length u. \<not> occurs_at [d] (u @ [d] @ v) j)"
    then show ?thesis using tw assms(2) by (auto simp: byte_finds_def l)
  next
    assume a: "byte_findb x n (cstr [d] r) (length [d]) = Some n \<and> (\<forall>j. \<not> occurs_at [d] (take n x) j)"
    have "length (takeWhile (\<lambda>c. c \<noteq> d) (take n x)) = n"
      unfolding tall[OF conjunct2[OF a]] using assms(1) by simp
    then show ?thesis using a assms(2) by (simp add: byte_finds_def l)
  qed
qed

lemma fromb_loop_is:
  assumes "d \<noteq> 0" "grants al"
  shows "list_all (\<lambda>y. item_ok d y \<and> item_ok (sl_sep sl) y) ys \<Longrightarrow> sl_is sl xs \<Longrightarrow> total (xs @ ys) < sa_max \<Longrightarrow>
     n = length (joined d ys) \<Longrightarrow> take n x = joined d ys \<Longrightarrow>
     \<exists>sl'. fromb_loop al sl x n (cstr [d] r) 1 = Some sl' \<and> sl_is sl' (xs @ ys) \<and> sl_sep sl' = sl_sep sl"
proof (induction ys arbitrary: sl xs x n)
  case Nil
  then show ?case by (subst fromb_loop.simps) simp
next
  case (Cons y ys)
  have y: "item_ok d y" "item_ok (sl_sep sl) y" using Cons.prems(1) by auto
  let ?rest = "if ys = [] then [] else d # joined d ys"
  have j: "joined d (y # ys) = y @ ?rest" by (simp add: joined_Cons)
  have n: "n = length y + length ?rest" "n \<noteq> 0" "n \<le> length x"
  proof -
    show "n = length y + length ?rest" using Cons.prems(4) j by simp
    then show "n \<noteq> 0" using y(1) by (simp add: item_ok_def)
    show "n \<le> length x" using Cons.prems(4,5) by (metis length_take min.cobounded1)
  qed
  have tx: "take n x = y @ ?rest" using Cons.prems(5) j by simp
  have "takeWhile (\<lambda>c. c \<noteq> d) (y @ ?rest) = y" using y(1) by (subst takeWhile_append2) (auto simp: item_ok_def)
  then have i: "byte_finds x n (cstr [d] r) = Some (length y)" using byte_finds_char[OF n(3) assms(1), of r] tx by simp
  have "take (length y) (take n x) = y" unfolding tx by simp
  then have "is_block (x, length y) y" using n(1) by (simp add: is_block_def min_absorb1)
  moreover have "sl_size (sl_sep sl) xs + length y + 1 < sa_max"
    using Cons.prems(3) sl_size_total[of "sl_sep sl" xs] by (simp add: total_def)
  ultimately obtain sl1 where s1: "strlist_pushb al sl x (length y) = Some sl1" "sl_is sl1 (xs @ [y])" "sl_sep sl1 = sl_sep sl"
    using strlist_pushb_is[OF Cons.prems(2) _ y(2) _ assms(2)] by blast
  show ?case
  proof (cases "ys = []")
    case True
    then show ?thesis using n i s1 by (subst fromb_loop.simps) simp
  next
    case False
    have "drop (length y + 1) (take n x) = joined d ys" unfolding tx using False by simp
    then have t: "take (n - (length y + 1)) (drop (length y + 1) x) = joined d ys" by (simp add: drop_take)
    have run: "fromb_loop al sl x n (cstr [d] r) 1 = fromb_loop al sl1 (drop (length y + 1) x) (n - (length y + 1)) (cstr [d] r) 1"
      using n i s1(1) False by (subst fromb_loop.simps) simp
    have "list_all (\<lambda>y. item_ok d y \<and> item_ok (sl_sep sl1) y) ys" "total ((xs @ [y]) @ ys) < sa_max"
        "n - (length y + 1) = length (joined d ys)"
      using Cons.prems(1,3) s1(3) n(1) False by simp_all
    from Cons.IH[OF this(1) s1(2) this(2,3) t] show ?thesis unfolding run using s1(3) by simp
  qed
qed

subsection \<open>Sorting\<close>

text \<open>What a client of a comparison routine gets: an insertion sort.\<close>

context comparator
begin

primrec insert_cmp :: "'a \<Rightarrow> 'a list \<Rightarrow> 'a list option" where
  "insert_cmp s [] = Some [s]"
| "insert_cmp s (t # ts) =
     do { c \<leftarrow> cmp s t; if c \<le> 0 then Some (s # t # ts) else map_option (\<lambda>ts. t # ts) (insert_cmp s ts) }"

primrec sort_cmp :: "'a list \<Rightarrow> 'a list option" where
  "sort_cmp [] = Some []"
| "sort_cmp (s # ss) = do { ss \<leftarrow> sort_cmp ss; insert_cmp s ss }"

lemma insert_cmp_law:
  "dom s \<Longrightarrow> list_all dom ts \<Longrightarrow> sorted (map key ts) \<Longrightarrow>
     \<exists>us. insert_cmp s ts = Some us \<and> list_all dom us \<and> mset us = add_mset s (mset ts) \<and> sorted (map key us)"
proof (induction ts)
  case (Cons t ts)
  obtain d where d: "cmp s t = Some d" using cmp_returns[of s t] Cons.prems by auto
  show ?case
  proof (cases "d \<le> 0")
    case True
    then have "key s \<le> key t" using cmp_pos[OF _ _ d] Cons.prems by (auto simp: not_less[symmetric])
    then show ?thesis using d True Cons.prems by auto
  next
    case False
    then have "key t \<le> key s" using cmp_pos[OF _ _ d] Cons.prems by auto
    moreover obtain us where us: "insert_cmp s ts = Some us" "list_all dom us" "mset us = add_mset s (mset ts)" "sorted (map key us)"
      using Cons by auto
    moreover have "set us = insert s (set ts)" using us(3) by (metis set_mset_add_mset_insert set_mset_mset)
    ultimately show ?thesis using d False Cons.prems by auto
  qed
qed simp

lemma sort_cmp_law:
  "list_all dom ss \<Longrightarrow> \<exists>us. sort_cmp ss = Some us \<and> list_all dom us \<and> mset us = mset ss \<and> sorted (map key us)"
proof (induction ss)
  case (Cons s ss)
  then show ?case using insert_cmp_law by fastforce
qed simp

end

lemma sort_strings_cmp: "sort_strings ss = sd.sort_cmp ss"
proof -
  have "sort_insert s ts = sd.insert_cmp s ts" for s ts by (induction ts) (auto split: Option.bind_split)
  then show ?thesis by (induction ss) auto
qed

lemma sort_split_is:
  "tail_is m len p sep xs \<Longrightarrow> len < length m \<Longrightarrow> list_all nonul xs \<Longrightarrow>
     \<exists>m' ps. sort_split m p len sep = Some (m', ps) \<and> length m' = length m \<and> take p m' = take p m \<and>
       list_all2 (\<lambda>q x. \<exists>r. drop q m' = cstr x r) ps xs"
proof (induction xs arbitrary: m p)
  case Nil
  then show ?case using tail_done by (subst sort_split.simps) auto
next
  case (Cons x xs)
  note t = tail_more[OF Cons.prems(1)]
  let ?e = "p + length x"
  let ?m = "m[?e := 0]"
  have lt: "?e < length m" using t(5) Cons.prems(2) by simp
  have "drop (?e + 1) (take len ?m) = drop (?e + 1) (take len m)" by (simp add: take_update_swap)
  then have "tail_is ?m len (?e + 1) sep xs" using t(6) Cons.prems(2) by (simp add: tail_is_def)
  then obtain m' ps where ih: "sort_split ?m (?e + 1) len sep = Some (m', ps)" "length m' = length m"
      "take (?e + 1) m' = take (?e + 1) ?m" "list_all2 (\<lambda>q x. \<exists>r. drop q m' = cstr x r) ps xs"
    using Cons.IH[of ?m "?e + 1"] Cons.prems(2,3) by auto
  have pre: "take p m' = take p m"
    using arg_cong[OF ih(3), of "take p"] by (simp add: min_def)
  have "take (length x + 1) (drop p m') = take (length x + 1) (drop p ?m)"
    using arg_cong[OF ih(3), of "drop p"] by (simp add: drop_take add.commute)
  also have "\<dots> = x @ [0]" using t(4) lt by (simp add: drop_update_swap take_Suc_conv_app_nth take_update_swap)
  finally have "drop p m' = cstr x (drop (length x + 1) (drop p m'))"
    using append_take_drop_id[of "length x + 1" "drop p m'"] by (simp add: cstr_def)
  then show ?case using t(1,3) lt ih pre by (subst sort_split.simps) auto
qed

lemma pushm_is:
  "list_all terminated ss \<Longrightarrow> sl_is sl xs \<Longrightarrow> list_all (\<lambda>s. item_ok (sl_sep sl) (text_of s)) ss \<Longrightarrow>
     total (xs @ map text_of ss) < sa_max \<Longrightarrow> grants al \<Longrightarrow>
     \<exists>sl'. strlist_pushm_internal al sl ss = Some sl' \<and> sl_is sl' (xs @ map text_of ss)"
proof (induction ss arbitrary: sl xs)
  case (Cons s ss)
  have "terminated s" using Cons.prems(1) by simp
  then obtain w r where s: "s = cstr w r" "nonul w" by (rule terminatedE)
  then have w: "text_of s = w" by (simp add: text_of_cstr)
  have "sl_size (sl_sep sl) xs + length w + 1 < sa_max"
    using Cons.prems(4) sl_size_total[of "sl_sep sl" xs] w by (simp add: total_def)
  then obtain sl1 where s1: "strlist_push al sl (Some s) = Some sl1" "sl_is sl1 (xs @ [w])" "sl_sep sl1 = sl_sep sl"
    using strlist_push_is[OF Cons.prems(2) s(2), of al r] Cons.prems(3,5) s(1) w by auto
  show ?case using Cons.IH[OF _ s1(2)] Cons.prems s1 w by simp
qed simp

lemma sorted_texts:
  assumes "sorted (map f us)" "mset us = mset ss" "map f ss = xs"
  shows "map f us = sort xs"
proof -
  have "mset (map f us) = mset xs" using assms(2,3) by (metis mset_map)
  then show ?thesis using assms(1) properties_for_sort by metis
qed

lemma total_sort: "total (sort xs) = total xs"
proof -
  have "mset (map length (sort xs)) = mset (map length xs)" by simp
  then have "sum_list (map length (sort xs)) = sum_list (map length xs)" by (metis sum_mset_sum_list)
  then show ?thesis by (simp add: total_def length_concat)
qed

lemma strlist_sort_is:
  assumes "sl_is sl xs" "list_all nonul xs" "total xs + 1 < sa_max" "grants al"
  shows "\<exists>sl'. strlist_sort al sl = Some (length xs, sl') \<and> sl_is sl' (sort xs)"
proof -
  let ?w = "joined (sl_sep sl) xs"
  have size: "length ?w \<le> total xs" using sl_size_total[of "sl_sep sl" xs] by (simp add: sl_size_def)
  have w: "sa_is (sl_sa sl) ?w" "list_all (item_ok (sl_sep sl)) xs" using assms(1) by (auto simp: sl_is_def)
  obtain sa where sa: "stralloc_readyplus al (sl_sa sl) 1 = Some (True, sa)" "sa_room sa ?w (length ?w + 1)"
    using stralloc_readyplus_room[OF w(1), of 1 al] size assms(3,4) by (auto simp: sa_out_def)
  let ?sl = "sl\<lparr>sl_sa := sa\<rparr>"
  have hl: "sl_is ?sl xs" using sa_room_is[OF sa(2)] w(2) by (simp add: sl_is_def)
  have cnt: "strlist_count ?sl = Some (length xs)" by (rule strlist_count_eq) fact
  show ?thesis
  proof (cases "length xs \<le> 1")
    case True
    then have "sort xs = xs" by (cases xs) auto
    then show ?thesis using sa(1) hl cnt True by (simp add: strlist_sort_def)
  next
    case False
    have "sl_len ?sl = length ?w" using sl_is_len[OF hl] by (simp add: sl_size_def)
    then have "sl_len ?sl < length (sl_mem ?sl)" using sa_room_mem[OF sa(2)] by (simp add: sl_mem_def)
    then obtain m ps where sp: "sort_split (sl_mem ?sl) 0 (sl_len ?sl) (sl_sep ?sl) = Some (m, ps)"
        "list_all2 (\<lambda>q x. \<exists>r. drop q m = cstr x r) ps xs"
      using sort_split_is[OF sl_is_tail[OF hl]] assms(2) by auto
    let ?ss = "map (\<lambda>p. drop p m) ps"
    have ps: "length ps = length xs" by (rule list_all2_lengthD) (rule sp(2))
    have each: "\<exists>r. drop (ps ! i) m = cstr (xs ! i) r" "nonul (xs ! i)" if "i < length xs" for i
      using list_all2_nthD2[OF sp(2) that] assms(2) that by (auto simp: list_all_length)
    have tm: "list_all terminated ?ss" using each ps by (auto simp: list_all_length) (metis terminated_cstr)
    have texts: "map text_of ?ss = xs" 
    proof (rule nth_equalityI)
      fix i assume "i < length (map text_of ?ss)"
      then have i: "i < length ps" "i < length xs" using ps by simp_all
      then show "map text_of ?ss ! i = xs ! i" using each[OF i(2)] by auto
    qed (simp add: ps)
    obtain us where us: "sort_strings ?ss = Some us" "list_all terminated us" "mset us = mset ?ss" "sorted (map text_of us)"
      using sd.sort_cmp_law[OF tm] by (auto simp: sort_strings_cmp)
    have sorted: "map text_of us = sort xs" by (rule sorted_texts[OF us(4,3) texts])
    have fresh: "sl_is (?sl\<lparr>sl_sa := stralloc_init sa\<rparr>) []" using stralloc_init_is by (simp add: sl_is_def)
    have "list_all (item_ok (sl_sep sl)) (map text_of us)" unfolding sorted using w(2) by (simp add: list_all_iff)
    then have "list_all (\<lambda>s. item_ok (sl_sep sl) (text_of s)) us" by (simp add: list_all_iff)
    moreover have "total (sort xs) = total xs" by (rule total_sort)
    ultimately obtain sl' where "strlist_pushm_internal al (?sl\<lparr>sl_sa := stralloc_init sa\<rparr>) us = Some sl'" "sl_is sl' (sort xs)"
      using pushm_is[OF us(2) fresh _ _ assms(4)] sorted assms(3) by auto
    moreover obtain b where "malloc al (8 * length xs) = Some b" using grants_malloc(1)[OF assms(4)] by auto
    ultimately show ?thesis using sa(1) cnt False sp(1) us(1) ps by (simp add: strlist_sort_def)
  qed
qed

subsection \<open>Removing strings\<close>

lemma pop_loop_last:
  "sep \<notin> set x \<Longrightarrow> take (length u + 1 + length x) m = u @ sep # x \<Longrightarrow> length u + 1 + length x \<le> length m \<Longrightarrow>
     pop_loop (length u + 1 + length x) m sep = Some (length u)"
proof (induction x rule: rev_induct)
  case Nil
  then have "m ! length u = sep" by (metis append_Nil2 length_0_conv add.right_neutral nth_append_length nth_take less_add_one)
  then show ?case using Nil.prems(3) by simp
next
  case (snoc c x)
  have lt: "length u + 1 + length x < length m" using snoc.prems(3) by simp
  have t: "take (length u + 1 + length x) m = u @ sep # x" "m ! (length u + 1 + length x) = c"
  proof -
    have "take (Suc (length u + 1 + length x)) m = (u @ sep # x) @ [c]" using snoc.prems(2) by simp
    then show "take (length u + 1 + length x) m = u @ sep # x" "m ! (length u + 1 + length x) = c"
      using lt by (simp_all add: take_Suc_conv_app_nth)
  qed
  then show ?case using snoc lt by auto
qed

lemma strlist_pop_is:
  assumes "sl_is sl (xs @ [x])" "xs \<noteq> []"
  shows "\<exists>sl'. strlist_pop sl = Some sl' \<and> sl_is sl' xs"
proof -
  let ?u = "joined (sl_sep sl) xs"
  have w: "sa_is (sl_sa sl) (?u @ sl_sep sl # x)" "list_all (item_ok (sl_sep sl)) xs" "sl_sep sl \<notin> set x"
    using assms by (auto simp: sl_is_def joined_snoc item_ok_def)
  have len: "sl_len sl = length ?u + 1 + length x" using sa_is_len[OF w(1)] by (simp add: sl_len_def)
  have "pop_loop (length ?u + 1 + length x) (sl_mem sl) (sl_sep sl) = Some (length ?u)"
    using sa_is_text[OF w(1)] sa_is_le_mem[OF w(1)] w(3) by (intro pop_loop_last) (simp_all add: sl_mem_def)
  moreover have "sa_is ((sl_sa sl)\<lparr>sa_len := of_nat (length ?u)\<rparr>) ?u"
  proof -
    have "unat (of_nat (length ?u) :: uint64) = length ?u"
      using len unat_lt_2p[of "sa_len (sl_sa sl)"] by (simp add: sl_len_def unat_of_nat)
    then show ?thesis using sa_is_cut[OF w(1), of "of_nat (length ?u)"] by simp
  qed
  ultimately show ?thesis using w(2) len by (simp add: strlist_pop_def sl_is_def)
qed

definition front :: "byte \<Rightarrow> byte list list \<Rightarrow> byte list" where
  "front sep us = concat (map (\<lambda>u. u @ [sep]) us)"

lemma length_front: "length (front sep us) = offset_of sep us"
  by (induction us) (auto simp: front_def offset_of_def)

lemma joined_front: "vs \<noteq> [] \<Longrightarrow> joined sep (us @ vs) = front sep us @ joined sep vs"
  by (induction us) (auto simp: front_def joined_Cons)

lemma strlist_removeb_is:
  assumes "sl_is sl (us @ x # vs)" "is_block (b, n) x" "x \<notin> set us" "vs \<noteq> []"
  shows "\<exists>sl'. strlist_removeb sl b n = Some (True, sl') \<and> sl_is sl' (us @ vs) \<and> sl_sep sl' = sl_sep sl"
proof -
  let ?sep = "sl_sep sl" and ?p = "offset_of (sl_sep sl) us"
  let ?w = "front ?sep us @ x @ ?sep # joined ?sep vs"
  have ok: "list_all (item_ok ?sep) (us @ vs)" and sa: "sa_is (sl_sa sl) ?w"
    using assms(1,4) by (auto simp: sl_is_def joined_front joined_Cons)
  have n: "n = length x" using assms(2) by (simp add: is_block_def)
  have len: "sl_len sl = length ?w" using sa_is_len[OF sa] by (simp add: sl_len_def)
  have idx: "strlist_indexofb sl b n = Some (Some ?p)"
  proof -
    have "takeWhile (\<lambda>y. y \<noteq> x) (us @ x # vs) = us" using assms(3) by (subst takeWhile_append2) auto
    then show ?thesis using indexof_loop_eq[OF assms(2) sl_is_tail[OF assms(1)]] by (simp add: strlist_indexofb_def)
  qed
  obtain r where r: "sl_mem sl = ?w @ r" using sa_is_mem[OF sa] by (auto simp: sl_mem_def)
  have lf: "length (front ?sep us) = ?p" by (rule length_front)
  have "rd (sl_mem sl) (?p + n) = Some ?sep" unfolding r n lf[symmetric] by (simp add: rd_def nth_append)
  moreover have lt: "?p + n < sl_len sl" using len n lf by simp
  ultimately have run: "strlist_removeb sl b n = map_option (\<lambda>l. (True, l)) (sl_remove sl ?p (n + 1))"
    using idx by (simp add: strlist_removeb_def)
  have big: "sl_len sl < 2 ^ 64" using unat_lt_2p[of "sa_len (sl_sa sl)"] by (simp add: sl_len_def)
  have un: "unat (of_nat k :: uint64) = k" if "k < 2 ^ 64" for k using that by (simp add: unat_of_nat)
  have u: "unat (of_nat ?p :: uint64) = ?p" "unat (of_nat (n + 1) :: uint64) = n + 1"
    by (rule un, use lt len n lf big in simp)+
  obtain q sa' where "stralloc_remove (sl_sa sl) (of_nat ?p) (of_nat (n + 1)) = Some (q, sa')"
      "sa_is sa' (take ?p ?w @ drop (?p + (n + 1)) ?w)"
    using stralloc_remove_is[OF sa, of "of_nat ?p" "of_nat (n + 1)"] u lf n lt len big by (auto simp del: of_nat_add of_nat_Suc)
  moreover have "take ?p ?w @ drop (?p + (n + 1)) ?w = joined ?sep (us @ vs)" using lf n assms(4) by (simp add: joined_front)
  ultimately show ?thesis unfolding run using ok by (simp add: sl_remove_def sl_is_def)
qed

subsection \<open>Properties\<close>

text \<open>
  The routines that look into a list agree with the list it stands for: \<open>strlist_count\<close> is its
  length, \<open>strlist_at_n\<close> finds string number \<open>j\<close> with its length and nothing behind the end,
  \<open>strlist_containsb\<close> is membership and \<open>strlist_indexofb\<close> the offset of the first equal string.
\<close>
theorem strlist_access_exact:
  assumes "sl_is sl xs" "is_block (b, n) y"
  shows "strlist_count sl = Some (length xs) \<and> strlist_containsb sl b n = Some (y \<in> set xs) \<and>
     strlist_at_n sl j = Some (if j < length xs then (Some (offset_of (sl_sep sl) (take j xs)), length (xs ! j)) else (None, 0)) \<and>
     strlist_indexofb sl b n = Some (if y \<in> set xs then Some (offset_of (sl_sep sl) (takeWhile (\<lambda>x. x \<noteq> y) xs)) else None) \<and>
     (j < length xs \<longrightarrow> take (length (xs ! j)) (drop (offset_of (sl_sep sl) (take j xs)) (sl_mem sl)) = xs ! j)"
proof (intro conjI)
  note t = sl_is_tail[OF assms(1)]
  show "strlist_indexofb sl b n = Some (if y \<in> set xs then Some (offset_of (sl_sep sl) (takeWhile (\<lambda>x. x \<noteq> y) xs)) else None)"
    using indexof_loop_eq[OF assms(2) t] by (simp add: strlist_indexofb_def)
  show "j < length xs \<longrightarrow> take (length (xs ! j)) (drop (offset_of (sl_sep sl) (take j xs)) (sl_mem sl)) = xs ! j"
  proof
    assume j: "j < length xs"
    then have "drop j xs = xs ! j # drop (Suc j) xs" by (simp add: Cons_nth_drop_Suc)
    then show "take (length (xs ! j)) (drop (offset_of (sl_sep sl) (take j xs)) (sl_mem sl)) = xs ! j"
      using tail_more(4)[of "sl_mem sl"] tail_drop[OF t j] by simp
  qed
qed (simp_all add: strlist_count_eq[OF assms(1)] strlist_containsb_iff[OF assms] strlist_at_n_eq[OF assms(1)])

theorem strlist_access_exact_witness:
  "strlist_count \<lparr>sl_sa = \<lparr>sa_s = Some [97, 0, 98, 99], sa_len = 4, sa_a = 4\<rparr>, sl_sep = 0\<rparr> = Some 2 \<and>
   strlist_at_n \<lparr>sl_sa = \<lparr>sa_s = Some [97, 0, 98, 99], sa_len = 4, sa_a = 4\<rparr>, sl_sep = 0\<rparr> 1 = Some (Some 2, 2) \<and>
   strlist_indexofb \<lparr>sl_sa = \<lparr>sa_s = Some [97, 0, 98, 99], sa_len = 4, sa_a = 4\<rparr>, sl_sep = 0\<rparr> [98, 99] 2 = Some (Some 2)"
  using strlist_access_exact[of "\<lparr>sl_sa = \<lparr>sa_s = Some [97, 0, 98, 99], sa_len = 4, sa_a = 4\<rparr>, sl_sep = 0\<rparr>" "[[97], [98, 99]]"
      "[98, 99]" 2 "[98, 99]" 1]
  by (simp add: sl_is_def sa_is_def sa_wf_def sa_text_def sa_mem_def item_ok_def is_block_def offset_of_def)

text \<open>
  C14. Lists as sets: \<open>strlist_cat_unique\<close> adds exactly the strings that are not there yet, each once,
  and returns their number; \<open>strlist_diff\<close> keeps exactly the strings of the first list that are not
  in the second, in their order.  Both hold what the same operation on lists gives.
\<close>
theorem strlist_set_operations:
  assumes "sl_is a xs" "sl_is b ys" "sl_is out zs" "sl_sep b = sl_sep a" "sl_sep out = sl_sep a" "total (xs @ ys) < sa_max" "grants al"
  shows "(\<exists>a'. strlist_cat_unique al a b = Some (length (union_list xs ys) - length xs, a') \<and> sl_is a' (union_list xs ys)) \<and>
     (\<exists>o'. strlist_diff al a b out = Some (length (filter (\<lambda>x. x \<notin> set ys) xs), o') \<and> sl_is o' (filter (\<lambda>x. x \<notin> set ys) xs)) \<and>
     set (union_list xs ys) = set xs \<union> set ys \<and> (distinct xs \<longrightarrow> distinct (union_list xs ys))"
proof -
  have "total xs < sa_max" using assms(6) by (simp add: total_append)
  note d = strlist_diff_is[OF assms(1,2,3,5) this assms(7)]
  show ?thesis by (intro conjI impI strlist_cat_unique_is[OF assms(1,2,4,6,7)] d set_union_list distinct_union_list)
qed

theorem strlist_set_operations_witness:
  "\<exists>a'. strlist_cat_unique (\<lambda>n. Some (replicate n 0)) \<lparr>sl_sa = \<lparr>sa_s = Some [97, 0, 98], sa_len = 3, sa_a = 3\<rparr>, sl_sep = 0\<rparr>
     \<lparr>sl_sa = \<lparr>sa_s = Some [98, 0, 99], sa_len = 3, sa_a = 3\<rparr>, sl_sep = 0\<rparr> = Some (1, a') \<and> sl_is a' [[97], [98], [99]]"
proof -
  let ?a = "\<lparr>sl_sa = \<lparr>sa_s = Some [97, 0, 98], sa_len = 3, sa_a = 3\<rparr>, sl_sep = 0\<rparr>"
  let ?b = "\<lparr>sl_sa = \<lparr>sa_s = Some [98, 0, 99], sa_len = 3, sa_a = 3\<rparr>, sl_sep = 0\<rparr>"
  let ?o = "\<lparr>sl_sa = \<lparr>sa_s = None, sa_len = 0, sa_a = 0\<rparr>, sl_sep = 0\<rparr>"
  have "sl_is ?a [[97], [98]]" "sl_is ?b [[98], [99]]" "sl_is ?o []"
    by (simp_all add: sl_is_def sa_is_def sa_wf_def sa_text_def sa_mem_def item_ok_def)
  from strlist_set_operations[OF this, of "\<lambda>n. Some (replicate n 0)"] show ?thesis
    by (simp add: total_def sa_max_def grants_def)
qed

text \<open>
  Splitting and joining are inverse: \<open>strlist_fromb\<close> splits a text at a delimiter into its pieces,
  and \<open>strlist_join\<close> with the same delimiter gives the text back, whatever separator the list uses
  between them.
\<close>
theorem strlist_split_join:
  assumes "d \<noteq> 0" "list_all (\<lambda>y. item_ok d y \<and> item_ok (sl_sep sl) y) ys" "sl_is sl []" "sa_is sa []" "total ys < sa_max" "grants al"
  shows "\<exists>sl' sa'. strlist_fromb al sl (Some (joined d ys)) (length (joined d ys)) (cstr [d] []) = Some sl' \<and> sl_is sl' ys \<and>
           strlist_join al sl' sa d = Some sa' \<and> sa_text sa' = joined d ys"
proof -
  obtain sl' where s: "fromb_loop al sl (joined d ys) (length (joined d ys)) (cstr [d] []) 1 = Some sl'" "sl_is sl' ys"
    using fromb_loop_is[OF assms(1,6,2,3) _ refl, of "joined d ys" "[]"] assms(5) by auto
  moreover have "str_len (cstr [d] []) = Some 1" using assms(1) str_len_cstr[of "[d]" "[]"] by simp
  moreover obtain sa' where "strlist_join al sl' sa d = Some sa'" "sa_is sa' (joined d ys)"
    using strlist_join_is[OF s(2) assms(4) _ assms(6), of d] assms(5) by auto
  ultimately show ?thesis by (simp add: strlist_fromb_def sa_is_def)
qed

theorem strlist_split_join_witness:
  "\<exists>sl' sa'. strlist_fromb (\<lambda>n. Some (replicate n 0)) \<lparr>sl_sa = \<lparr>sa_s = None, sa_len = 0, sa_a = 0\<rparr>, sl_sep = 0\<rparr>
       (Some [97, 44, 98, 99]) 4 [44, 0] = Some sl' \<and> sl_is sl' [[97], [98, 99]] \<and>
     strlist_join (\<lambda>n. Some (replicate n 0)) sl' \<lparr>sa_s = None, sa_len = 0, sa_a = 0\<rparr> 44 = Some sa' \<and> sa_text sa' = [97, 44, 98, 99]"
proof -
  let ?l = "\<lparr>sl_sa = \<lparr>sa_s = None, sa_len = 0, sa_a = 0\<rparr>, sl_sep = 0\<rparr>"
  have h: "list_all (\<lambda>y. item_ok 44 y \<and> item_ok (sl_sep ?l) y) [[97], [98, 99]]" "sl_is ?l []"
      "sa_is \<lparr>sa_s = None, sa_len = 0, sa_a = 0\<rparr> []" "total [[97], [98, 99]] < sa_max" "grants (\<lambda>n. Some (replicate n 0))"
      "(44 :: byte) \<noteq> 0"
    by (simp_all add: sl_is_def sa_is_def sa_wf_def sa_text_def sa_mem_def item_ok_def total_def sa_max_def grants_def)
  have l: "joined 44 [[97], [98, 99]] = [97, 44, 98, 99]" "length [97, 44, 98, 99 :: byte] = 4" "cstr [44] [] = [44, 0]"
    by simp_all
  show ?thesis using strlist_split_join[OF h(6,1,2,3,4,5)] unfolding l .
qed

text \<open>
  C32. \<open>strlist_sort\<close> sorts: afterwards the list holds the same strings in the order of \<open>str_diff\<close>,
  and the result is their number.
\<close>
theorem strlist_sort_sorts:
  assumes "sl_is sl xs" "list_all nonul xs" "total xs + 1 < sa_max" "grants al"
  shows "\<exists>sl' ys. strlist_sort al sl = Some (length xs, sl') \<and> sl_is sl' ys \<and> sorted ys \<and> mset ys = mset xs"
  using strlist_sort_is[OF assms] by (metis mset_sort sorted_sort)

theorem strlist_sort_sorts_witness:
  "\<exists>sl' ys. strlist_sort (\<lambda>n. Some (replicate n 0)) \<lparr>sl_sa = \<lparr>sa_s = Some [98, 44, 97, 99], sa_len = 4, sa_a = 4\<rparr>, sl_sep = 44\<rparr> =
     Some (2, sl') \<and> sl_is sl' ys \<and> sorted ys \<and> mset ys = {#[98], [97, 99]#}"
proof -
  let ?l = "\<lparr>sl_sa = \<lparr>sa_s = Some [98, 44, 97, 99], sa_len = 4, sa_a = 4\<rparr>, sl_sep = 44\<rparr>"
  have "sl_is ?l [[98], [97, 99]]" "list_all nonul [[98], [97, 99 :: byte]]"
    by (simp_all add: sl_is_def sa_is_def sa_wf_def sa_text_def sa_mem_def item_ok_def)
  moreover have "total [[98], [97, 99]] + 1 < sa_max" "grants (\<lambda>n. Some (replicate n 0))"
    by (simp_all add: total_def sa_max_def grants_def)
  ultimately show ?thesis using strlist_sort_sorts[of ?l "[[98], [97, 99]]"] by (simp add: numeral_eq_Suc)
qed

text \<open>
  Where the code goes wrong: \<open>strlist_pos\<close> counts with the length of the first string only,
  \<open>strlist_push_tokens\<close> reads behind the terminator of a text that does not end in a delimiter,
  \<open>strlist_remove_at\<close> removes as many bytes as the number it was given, and removing the last string
  leaves its separator behind.
\<close>
lemma strlist_pos_wrong:
  "strlist_pos \<lparr>sl_sa = \<lparr>sa_s = Some [97, 0, 98, 99, 0, 100], sa_len = 6, sa_a = 6\<rparr>, sl_sep = 0\<rparr> 2 = Some 4"
  by code_simp

lemma strlist_push_tokens_overruns:
  assumes "strlist_pushb al sl [97, 0] 1 = Some sl'"
  shows "strlist_push_tokens al sl [97, 0] [44, 0] = None"
proof -
  have l: "str_len [44, 0] = Some 1" "str_find [97, 0] [44, 0] = Some 1" by code_simp+
  show ?thesis unfolding strlist_push_tokens_def l
    by (simp, subst push_tokens_loop.simps, simp add: l assms, subst push_tokens_loop.simps, simp add: rd_def)
qed

lemma strlist_remove_at_wrong:
  "map_option (\<lambda>(r, l). sa_text (sl_sa l))
     (strlist_remove_at \<lparr>sl_sa = \<lparr>sa_s = Some [97, 0, 98, 99, 0, 100], sa_len = 6, sa_a = 6\<rparr>, sl_sep = 0\<rparr> 1) = Some [97, 0, 99, 0, 100]"
  by code_simp

lemma strlist_removeb_keeps_separator:
  "map_option (\<lambda>(r, l). sa_text (sl_sa l))
     (strlist_removeb \<lparr>sl_sa = \<lparr>sa_s = Some [97, 0, 98], sa_len = 3, sa_a = 3\<rparr>, sl_sep = 0\<rparr> [98] 1) = Some [97, 0]"
  by code_simp

end
