(* ===== verification/Path.thy ===== *)
theory Path
  imports Strlist
begin

text \<open>
  Paths (\<open>src/lib/path\<close>): components and separators, the directory and the name of a path,
  joining, relative paths, and removal of \<open>..\<close> in place.  The separator is \<open>/\<close>, as everywhere but on
  Windows.

  Results of the dynamic-string routines that the code ignores are ignored here too.  The current
  directory is a parameter, the text that \<open>getcwd\<close> delivers when it fits; a directory is the list of
  names that reading it gives, or \<open>None\<close> when it cannot be opened.  Loops that need not end are partial
  functions.
\<close>

subsection \<open>Separators and components\<close>

definition PATHSEP_C :: byte where
  "PATHSEP_C = 47"

definition path_issep :: "byte \<Rightarrow> bool" where
  "path_issep c \<longleftrightarrow> c = 47"

definition path_is_separator :: "byte \<Rightarrow> bool" where
  "path_is_separator c = path_issep c"

definition path_isabs :: "byte list \<Rightarrow> bool option" where
  "path_isabs p =
     do { a \<leftarrow> rd p 0;
          if path_issep a then Some True
          else do { b \<leftarrow> rd p 1; if b = 58 then map_option path_issep (rd p 2) else Some False } }"

definition path_is_absolute_b :: "byte list \<Rightarrow> nat \<Rightarrow> bool option" where
  "path_is_absolute_b x n = (if n > 0 then map_option (\<lambda>c. c = 47) (rd x 0) else Some False)"

definition path_is_absolute :: "byte list \<Rightarrow> bool option" where
  "path_is_absolute p = do { n \<leftarrow> str_len p; path_is_absolute_b p n }"

definition path_is_absolute_sa :: "stralloc \<Rightarrow> bool option" where
  "path_is_absolute_sa p = path_is_absolute_b (sa_mem p) (unat (sa_len p))"

fun path_getsep :: "byte list \<Rightarrow> byte option" where
  "path_getsep [] = None"
| "path_getsep (c # s) = (if c = 0 then Some 0 else if path_issep c then Some c else path_getsep s)"

fun path_len :: "byte list \<Rightarrow> nat \<Rightarrow> nat option" where
  "path_len s 0 = Some 0"
| "path_len [] (Suc n) = None"
| "path_len (c # s) (Suc n) = (if path_issep c then Some 0 else map_option Suc (path_len s n))"

fun path_len_s :: "byte list \<Rightarrow> nat option" where
  "path_len_s [] = None"
| "path_len_s (c # s) = (if c = 0 \<or> path_issep c then Some 0 else map_option Suc (path_len_s s))"

fun path_skip_component :: "byte list \<Rightarrow> nat \<Rightarrow> nat option" where
  "path_skip_component s 0 = Some 0"
| "path_skip_component [] (Suc n) = None"
| "path_skip_component (c # s) (Suc n) = (if path_issep c then Some 0 else map_option Suc (path_skip_component s n))"

fun path_skip_separator :: "byte list \<Rightarrow> nat \<Rightarrow> nat option" where
  "path_skip_separator s 0 = Some 0"
| "path_skip_separator [] (Suc n) = None"
| "path_skip_separator (c # s) (Suc n) = (if \<not> path_issep c then Some 0 else map_option Suc (path_skip_separator s n))"

text \<open>The second loop of \<open>path_skip\<close> stops one byte before the end.\<close>

fun skip_inner_seps :: "byte list \<Rightarrow> nat \<Rightarrow> nat option" where
  "skip_inner_seps s 0 = Some 0"
| "skip_inner_seps s (Suc 0) = Some 0"
| "skip_inner_seps [] (Suc (Suc n)) = None"
| "skip_inner_seps (c # s) (Suc (Suc n)) =
     (if path_issep c then map_option Suc (skip_inner_seps s (Suc n)) else Some 0)"

definition path_skip :: "byte list \<Rightarrow> nat \<Rightarrow> nat option" where
  "path_skip s n =
     do { i \<leftarrow> path_skip_component s n;
          j \<leftarrow> skip_inner_seps (drop i s) (n - i);
          Some (i + j) }"

fun skip_seps_s :: "byte list \<Rightarrow> nat option" where
  "skip_seps_s [] = None"
| "skip_seps_s (c # s) = (if c \<noteq> 0 \<and> path_issep c then map_option Suc (skip_seps_s s) else Some 0)"

definition path_skips :: "byte list \<Rightarrow> nat option" where
  "path_skips s = do { i \<leftarrow> path_len_s s; j \<leftarrow> skip_seps_s (drop i s); Some (i + j) }"

text \<open>
  \<open>path_right\<close> walks back from the last byte; \<open>k\<close> is \<open>p + 1 - s\<close>, so that the result
  \<open>p - s\<close> is \<open>SIZE_MAX\<close> when there is nothing to keep.
\<close>

fun right_while :: "(byte \<Rightarrow> bool) \<Rightarrow> byte list \<Rightarrow> nat \<Rightarrow> nat option" where
  "right_while f s 0 = Some 0"
| "right_while f s (Suc k) = do { c \<leftarrow> rd s k; if f c then right_while f s k else Some (Suc k) }"

definition path_right :: "byte list \<Rightarrow> uint64 \<Rightarrow> uint64 option" where
  "path_right s n =
     do { k \<leftarrow> right_while path_issep s (unat n);
          k \<leftarrow> right_while (\<lambda>c. \<not> path_issep c) s k;
          Some (of_nat k - 1) }"

function path_num_loop :: "byte list \<Rightarrow> nat \<Rightarrow> nat \<Rightarrow> int \<Rightarrow> nat option" where
  "path_num_loop p s len n =
     (if s < len then
        do { i \<leftarrow> path_skip (drop s p) (len - s);
             if n - 1 \<le> 0 then Some (s + i) else path_num_loop p (s + i) len (n - 1) }
      else Some s)"
  by pat_completeness auto
termination by (relation "measure (\<lambda>(p, s, len, n). nat n)") auto

definition path_num :: "byte list \<Rightarrow> nat \<Rightarrow> int \<Rightarrow> nat option" where
  "path_num p len n = path_num_loop p 0 len n"

definition path_num_sa :: "allocator \<Rightarrow> byte list \<Rightarrow> nat \<Rightarrow> stralloc \<Rightarrow> int \<Rightarrow> (nat \<times> stralloc) option" where
  "path_num_sa al p len sa n =
     do { r \<leftarrow> path_num p len n; (_, sa) \<leftarrow> stralloc_copyb al sa p (of_nat r); Some (r, sa) }"

subsection \<open>Directory and name\<close>

text \<open>\<open>path_basename\<close> cuts trailing separators off the string it is given; the result is an offset.\<close>

partial_function (option) path_basename :: "byte list \<Rightarrow> (nat \<times> byte list) option" where
  "path_basename x =
     do { n \<leftarrow> str_rchrs x [47, 92] 2;
          c \<leftarrow> rd x n;
          if c = 0 then Some (0, x)
          else do {
            d \<leftarrow> rd x (n + 1);
            if d = 0 then
              if n = 0 then Some (0, x)
              else do { x \<leftarrow> wr x n 0; path_basename x }
            else Some (n + 1, x) } }"

fun dirname_trim :: "byte list \<Rightarrow> nat \<Rightarrow> nat option" where
  "dirname_trim path 0 = Some 0"
| "dirname_trim path (Suc i) = do { c \<leftarrow> rd path i; if path_issep c then dirname_trim path i else Some (Suc i) }"

text \<open>The test for \<open>NULL\<close> comes after the string was searched.\<close>

definition path_dirname :: "allocator \<Rightarrow> byte list option \<Rightarrow> stralloc \<Rightarrow> stralloc option" where
  "path_dirname al path dir =
     do { let dir = stralloc_zero dir;
          path \<leftarrow> path;
          i \<leftarrow> str_rchrs path [47, 92] 2;
          c \<leftarrow> rd path i;
          (_, dir) \<leftarrow> (if c = 0 then stralloc_copys al dir [46, 0]
                       else do { i \<leftarrow> dirname_trim path i; stralloc_copyb al dir path (of_nat i) });
          (_, dir) \<leftarrow> stralloc_nul al dir;
          Some dir }"

subsection \<open>Joining\<close>

definition path_separate :: "allocator \<Rightarrow> stralloc \<Rightarrow> stralloc option" where
  "path_separate al out =
     (if sa_len out > 0 then
        do { c \<leftarrow> rd (sa_mem out) (unat (sa_len out - 1));
             if c \<noteq> PATHSEP_C then map_option snd (stralloc_catc al out PATHSEP_C) else Some out }
      else Some out)"

text \<open>The number of bytes to skip where a block of length \<open>len\<close> begins with \<open>./\<close>.\<close>

definition path_dot_skip :: "byte list \<Rightarrow> nat \<Rightarrow> nat option" where
  "path_dot_skip x len =
     (if len > 2 then
        do { a \<leftarrow> rd x 0;
             if a = 46 then map_option (\<lambda>b. if b = PATHSEP_C then 2 else 0) (rd x 1) else Some 0 }
      else Some 0)"

definition path_append :: "allocator \<Rightarrow> byte list \<Rightarrow> nat \<Rightarrow> stralloc \<Rightarrow> stralloc option" where
  "path_append al x len out =
     do { out \<leftarrow> path_separate al out;
          k \<leftarrow> path_dot_skip x len;
          (_, out) \<leftarrow> stralloc_catb al out (drop k x) (of_nat (len - k));
          Some out }"

partial_function (option) appends_skip :: "byte list \<Rightarrow> byte list option" where
  "appends_skip s =
     do { dot \<leftarrow> str_start s [46, 47, 0];
          if dot then appends_skip (drop 2 s) else Some s }"

definition path_appends :: "allocator \<Rightarrow> byte list \<Rightarrow> stralloc \<Rightarrow> stralloc option" where
  "path_appends al s out =
     do { out \<leftarrow> path_separate al out;
          s \<leftarrow> appends_skip s;
          (_, out) \<leftarrow> stralloc_cats al out s;
          Some out }"

definition path_concat :: "allocator \<Rightarrow> byte list \<Rightarrow> nat \<Rightarrow> byte list \<Rightarrow> nat \<Rightarrow> stralloc \<Rightarrow> stralloc option" where
  "path_concat al a alen b blen out =
     do { sa \<leftarrow> path_append al a alen (stralloc_init \<lparr>sa_s = None, sa_len = 0, sa_a = 0\<rparr>);
          sa \<leftarrow> path_append al b blen sa;
          k \<leftarrow> path_dot_skip (sa_mem sa) (unat (sa_len sa));
          (_, out) \<leftarrow> stralloc_copyb al out (drop k (sa_mem sa)) (sa_len sa - of_nat k);
          (_, out) \<leftarrow> stralloc_nul al out;
          Some out }"

definition path_split :: "allocator \<Rightarrow> byte list \<Rightarrow> strlist \<Rightarrow> (bool \<times> strlist) option" where
  "path_split al p sl =
     do { _ \<leftarrow> str_len p;
          sl \<leftarrow> strlist_froms al sl (Some p) 58;
          n \<leftarrow> strlist_count sl;
          Some (n > 1, sl) }"

fun find_name :: "byte list list \<Rightarrow> byte list \<Rightarrow> byte list option option" where
  "find_name [] name = Some None"
| "find_name (s # names) name =
     do { eq \<leftarrow> str_case_equal s name; if eq then Some (Some s) else find_name names name }"

definition path_find :: "allocator \<Rightarrow> byte list list option \<Rightarrow> byte list \<Rightarrow> byte list \<Rightarrow> stralloc \<Rightarrow> (bool \<times> stralloc) option" where
  "path_find al dir path name out =
     (case dir of
        None \<Rightarrow> Some (False, out)
      | Some names \<Rightarrow>
          do { s \<leftarrow> find_name names name;
               case s of
                 None \<Rightarrow> Some (False, out)
               | Some s \<Rightarrow>
                   do { (_, out) \<leftarrow> stralloc_copys al out path;
                        (_, out) \<leftarrow> stralloc_catc al out PATHSEP_C;
                        (_, out) \<leftarrow> stralloc_cats al out s;
                        Some (True, out) } })"

subsection \<open>Relative paths\<close>

partial_function (option) common_prefix_loop ::
  "byte list \<Rightarrow> nat \<Rightarrow> byte list \<Rightarrow> nat \<Rightarrow> nat \<Rightarrow> nat \<Rightarrow> (nat \<times> nat) option" where
  "common_prefix_loop s1 n1 s2 n2 sz1 sz2 =
     (if sz1 \<noteq> n1 \<and> sz2 \<noteq> n2 then
        do { i1 \<leftarrow> path_skip_separator (drop sz1 s1) (n1 - sz1);
             i2 \<leftarrow> path_skip_separator (drop sz2 s2) (n2 - sz2);
             if (i1 \<noteq> 0) \<noteq> (i2 \<noteq> 0) then Some (sz1, sz2)
             else do {
               let sz1 = sz1 + i1;
               let sz2 = sz2 + i2;
               i1 \<leftarrow> path_skip_component (drop sz1 s1) (n1 - sz1);
               i2 \<leftarrow> path_skip_component (drop sz2 s2) (n2 - sz2);
               if i1 \<noteq> i2 then Some (sz1, sz2)
               else do {
                 d \<leftarrow> byte_diff (drop sz1 s1) i1 (drop sz2 s2);
                 if d \<noteq> 0 then Some (sz1, sz2)
                 else common_prefix_loop s1 n1 s2 n2 (sz1 + i1) (sz2 + i2) } } }
      else Some (sz1, sz2))"

definition path_common_prefix :: "byte list \<Rightarrow> nat \<Rightarrow> byte list \<Rightarrow> nat \<Rightarrow> (nat \<times> nat) option" where
  "path_common_prefix s1 n1 s2 n2 = common_prefix_loop s1 n1 s2 n2 0 0"

partial_function (option) relative_ups :: "allocator \<Rightarrow> byte list \<Rightarrow> nat \<Rightarrow> stralloc \<Rightarrow> stralloc option" where
  "relative_ups al s2 n2 out =
     do { i \<leftarrow> path_skip s2 n2;
          if i \<noteq> 0 then
            do { (_, out) \<leftarrow> stralloc_cats al out [46, 46, 47, 0];
                 relative_ups al (drop i s2) (n2 - i) out }
          else Some out }"

definition path_relative_b :: "allocator \<Rightarrow> byte list \<Rightarrow> nat \<Rightarrow> byte list \<Rightarrow> nat \<Rightarrow> stralloc \<Rightarrow> stralloc option" where
  "path_relative_b al s1 n1 s2 n2 out =
     do { (sz1, sz2) \<leftarrow> path_common_prefix s1 n1 s2 n2;
          let out = stralloc_zero out;
          let s1 = drop sz1 s1;
          let n1 = n1 - sz1;
          out \<leftarrow> relative_ups al (drop sz2 s2) (n2 - sz2) out;
          i \<leftarrow> path_skip_separator s1 n1;
          (_, out) \<leftarrow> stralloc_catb al out (drop i s1) (of_nat (n1 - i));
          (_, out) \<leftarrow> (if sa_len out = 0 then stralloc_catc al out 46 else Some (True, out));
          (_, out) \<leftarrow> stralloc_nul al out;
          Some out }"

definition path_relative :: "allocator \<Rightarrow> byte list \<Rightarrow> byte list \<Rightarrow> stralloc \<Rightarrow> stralloc option" where
  "path_relative al path relative_to out =
     do { n1 \<leftarrow> str_len path; n2 \<leftarrow> str_len relative_to; path_relative_b al path n1 relative_to n2 out }"

subsection \<open>Removing dot-dot in place\<close>

definition memmove :: "byte list \<Rightarrow> nat \<Rightarrow> nat \<Rightarrow> nat \<Rightarrow> byte list option" where
  "memmove m d s n =
     (if d + n \<le> length m \<and> s + n \<le> length m then Some (splice m d (take n (drop s m))) else None)"

fun collapse_skip :: "byte list \<Rightarrow> byte \<Rightarrow> nat option" where
  "collapse_skip [] sep = None"
| "collapse_skip (c # s) sep = (if c = sep then map_option Suc (collapse_skip s sep) else Some 0)"

text \<open>The two loops that go back to the component before; the first reads \<open>x[-1]\<close> when \<open>i\<close> is 0.\<close>

fun collapse_back :: "byte list \<Rightarrow> byte \<Rightarrow> nat \<Rightarrow> nat option" where
  "collapse_back x sep 0 = None"
| "collapse_back x sep (Suc i) = do { c \<leftarrow> rd x i; if c = sep then collapse_back x sep i else Some i }"

fun collapse_start :: "byte list \<Rightarrow> byte \<Rightarrow> nat \<Rightarrow> nat option" where
  "collapse_start x sep 0 = Some 0"
| "collapse_start x sep (Suc i) = do { c \<leftarrow> rd x (Suc i); if c \<noteq> sep then collapse_start x sep i else Some (Suc i) }"

definition collapse_dotdot :: "byte list \<Rightarrow> nat \<Rightarrow> byte \<Rightarrow> nat \<Rightarrow> bool option" where
  "collapse_dotdot x n sep l =
     (if l + 2 \<le> n then
        do { a \<leftarrow> rd x l;
             if a \<noteq> 46 then Some False
             else do { b \<leftarrow> rd x (l + 1);
                       if b \<noteq> 46 then Some False
                       else if l + 2 \<ge> n then Some True
                       else map_option (\<lambda>c. c = sep) (rd x (l + 2)) } }
      else Some False)"

partial_function (option) collapse_loop :: "byte list \<Rightarrow> byte \<Rightarrow> nat \<Rightarrow> nat \<Rightarrow> (nat \<times> byte list) option" where
  "collapse_loop x sep n i =
     (if i < n then
        do { k \<leftarrow> collapse_skip (drop i x) sep;
             let i = i + k;
             k \<leftarrow> byte_chr (drop i x) (unat (of_nat n - of_nat i :: uint64)) sep;
             let l = i + k;
             dd \<leftarrow> (if l < n then collapse_dotdot x n sep (l + 1) else Some False);
             let l = (if l < n then l + 1 else l);
             if dd then
               do { let l = l + 3;
                    x \<leftarrow> (if l < n then memmove x i l (n - l) else Some x);
                    if i + n < l then None
                    else do {
                      let n = i + n - l;
                      x \<leftarrow> wr x n 0;
                      i \<leftarrow> collapse_back x sep i;
                      i \<leftarrow> collapse_start x sep i;
                      collapse_loop x sep n i } }
             else collapse_loop x sep n l }
      else Some (n, x))"

definition path_collapse :: "byte list \<Rightarrow> nat \<Rightarrow> (nat \<times> byte list) option" where
  "path_collapse path n = do { sep \<leftarrow> path_getsep path; collapse_loop path sep n 0 }"

definition path_collapse_sa :: "allocator \<Rightarrow> stralloc \<Rightarrow> (nat \<times> stralloc) option" where
  "path_collapse_sa al path =
     do { (ret, m) \<leftarrow> path_collapse (sa_mem path) (unat (sa_len path));
          (_, path) \<leftarrow> stralloc_nul al ((sa_store path m)\<lparr>sa_len := of_nat ret\<rparr>);
          Some (ret, path) }"

definition path_canonical_sa :: "allocator \<Rightarrow> stralloc \<Rightarrow> stralloc option" where
  "path_canonical_sa al sa =
     do { (n, m) \<leftarrow> path_collapse (sa_mem sa) (unat (sa_len sa));
          (_, sa) \<leftarrow> stralloc_nul al ((sa_store sa m)\<lparr>sa_len := of_nat n\<rparr>);
          Some sa }"

definition path_canonical :: "allocator \<Rightarrow> byte list \<Rightarrow> stralloc \<Rightarrow> stralloc option" where
  "path_canonical al path out =
     do { let out = stralloc_zero out;
          (_, out) \<leftarrow> stralloc_copys al out path;
          (_, out) \<leftarrow> stralloc_nul al out;
          path_canonical_sa al out }"

subsection \<open>The current directory and links\<close>

definition PATH_MAX :: nat where
  "PATH_MAX = 4096"

text \<open>\<open>getcwd\<close> delivers the name with its terminator when it fits; what it leaves behind otherwise is not specified.\<close>

definition getcwd :: "byte list \<Rightarrow> byte list \<Rightarrow> nat \<Rightarrow> byte list option" where
  "getcwd cwd m a = (if length cwd < a \<and> a \<le> length m then Some (splice m 0 (cwd @ [0])) else None)"

definition path_getcwd :: "allocator \<Rightarrow> byte list \<Rightarrow> stralloc \<Rightarrow> stralloc option" where
  "path_getcwd al cwd sa =
     do { let sa = stralloc_zero sa;
          (_, sa) \<leftarrow> stralloc_ready al sa (of_nat PATH_MAX);
          m \<leftarrow> getcwd cwd (sa_mem sa) (unat (sa_a sa));
          n \<leftarrow> str_len m;
          let sa = (sa_store sa m)\<lparr>sa_len := of_nat n\<rparr>;
          sep \<leftarrow> path_getsep m;
          if sep \<noteq> 0 \<and> sep \<noteq> PATHSEP_C then stralloc_replacec sa sep PATHSEP_C else Some sa }"

definition path_absolute :: "allocator \<Rightarrow> byte list \<Rightarrow> byte list \<Rightarrow> stralloc \<Rightarrow> (int \<times> stralloc) option" where
  "path_absolute al cwd path sa =
     do { let sa = stralloc_zero sa;
          abs \<leftarrow> path_isabs path;
          if \<not> abs then
            do { sa \<leftarrow> path_getcwd al cwd sa;
                 dot \<leftarrow> str_equal path [46, 0];
                 if \<not> dot then
                   do { (_, sa) \<leftarrow> stralloc_catc al sa PATHSEP_C;
                        (_, sa) \<leftarrow> stralloc_cats al sa path;
                        Some (1, sa) }
                 else Some (1, sa) }
          else do { (_, sa) \<leftarrow> stralloc_copys al sa path; Some (0, sa) } }"

definition path_absolute_s :: "allocator \<Rightarrow> byte list \<Rightarrow> byte list \<Rightarrow> byte list option option" where
  "path_absolute_s al cwd path =
     do { (_, sa) \<leftarrow> path_absolute al cwd path (stralloc_init \<lparr>sa_s = None, sa_len = 0, sa_a = 0\<rparr>);
          (_, sa) \<leftarrow> stralloc_nul al sa;
          Some (sa_s sa) }"

definition path_absolute_sa :: "allocator \<Rightarrow> byte list \<Rightarrow> stralloc \<Rightarrow> (int \<times> stralloc) option" where
  "path_absolute_sa al cwd sa =
     do { (_, sa) \<leftarrow> stralloc_nul al sa;
          abs \<leftarrow> path_isabs (sa_mem sa);
          (ret, sa) \<leftarrow>
            (if \<not> abs then
               do { (_, tmp) \<leftarrow> stralloc_copy al (stralloc_init \<lparr>sa_s = None, sa_len = 0, sa_a = 0\<rparr>) sa;
                    sa \<leftarrow> path_getcwd al cwd (stralloc_zero sa);
                    (_, sa) \<leftarrow> stralloc_catc al sa PATHSEP_C;
                    (_, sa) \<leftarrow> stralloc_cat al sa tmp;
                    Some (1, sa) }
             else Some (0, sa));
          sa \<leftarrow> (if sa_len sa \<noteq> 0 then
                   do { c \<leftarrow> rd (sa_mem sa) (unat (sa_len sa - 1));
                        Some (if path_issep c then sa\<lparr>sa_len := sa_len sa - 1\<rparr> else sa) }
                 else Some sa);
          (_, sa) \<leftarrow> stralloc_nul al sa;
          Some (ret, sa) }"

text \<open>
  \<open>readlink\<close> stores as much of the target as fits and returns how much that was, or \<open>-1\<close>; the target
  is a parameter.
\<close>

definition readlink :: "byte list option \<Rightarrow> byte list \<Rightarrow> nat \<Rightarrow> (int \<times> byte list) option" where
  "readlink target m n =
     (case target of
        None \<Rightarrow> Some (-1, m)
      | Some t \<Rightarrow> if min n (length t) \<le> length m then Some (int (min n (length t)), splice m 0 (take n t)) else None)"

partial_function (option) readlink_loop :: "allocator \<Rightarrow> byte list option \<Rightarrow> stralloc \<Rightarrow> nat \<Rightarrow> (int \<times> stralloc) option" where
  "readlink_loop al target sa n =
     do { let n = 2 * n;
          (_, sa) \<leftarrow> stralloc_ready al sa (of_nat n);
          (sz, m) \<leftarrow> readlink target (sa_mem sa) n;
          let sa = sa_store sa m;
          if sz = int n then readlink_loop al target sa n else Some (sz, sa) }"

definition path_readlink :: "allocator \<Rightarrow> byte list option \<Rightarrow> stralloc \<Rightarrow> (int \<times> stralloc) option" where
  "path_readlink al target sa =
     do { (sz, sa) \<leftarrow> readlink_loop al target sa ((PATH_MAX + 1) div 2 ^ 7);
          let sa = sa\<lparr>sa_len := of_int sz\<rparr>;
          Some (sint (ucast (sa_len sa) :: uint32), sa) }"

subsection \<open>Paths as lists of components\<close>

text \<open>
  A component is not empty and has no separator; \<open>joined 47\<close> puts one separator between the
  components, \<open>led\<close> one before each.
\<close>

abbreviation comps :: "byte list list \<Rightarrow> bool" where
  "comps cs \<equiv> list_all (item_ok 47) cs"

fun led :: "byte list list \<Rightarrow> byte list" where
  "led [] = []"
| "led (c # cs) = 47 # c @ led cs"

lemma joined_led: "joined 47 (c # cs) = c @ led cs"
  by (induction cs arbitrary: c) simp_all

lemma led_joined: "led cs = (if cs = [] then [] else 47 # joined 47 cs)"
  by (cases cs) (simp_all add: joined_led)

lemma led_append [simp]: "led (xs @ ys) = led xs @ led ys"
  by (induction xs) simp_all

lemma joined_led_append: "ps \<noteq> [] \<Longrightarrow> joined 47 (ps @ xs) = joined 47 ps @ led xs"
  by (cases ps) (simp_all add: joined_led)

lemma path_skip_component_eq:
  "n \<le> length s \<Longrightarrow> path_skip_component s n = Some (length (takeWhile (\<lambda>c. \<not> path_issep c) (take n s)))"
  by (induction s n rule: path_skip_component.induct) simp_all

lemma path_skip_separator_eq:
  "n \<le> length s \<Longrightarrow> path_skip_separator s n = Some (length (takeWhile path_issep (take n s)))"
  by (induction s n rule: path_skip_separator.induct) simp_all

lemma skip_inner_seps_eq:
  "n \<le> length s \<Longrightarrow> skip_inner_seps s n = Some (length (takeWhile path_issep (take (n - 1) s)))"
proof (induction s n rule: skip_inner_seps.induct)
  case (4 c s n)
  then show ?case by (cases n) simp_all
qed simp_all

lemma component_at:
  assumes "item_ok 47 c"
  shows "takeWhile (\<lambda>x. \<not> path_issep x) (c @ led cs) = c" "takeWhile path_issep (c @ w) = []"
proof -
  have n: "\<forall>x\<in>set c. \<not> path_issep x" "c \<noteq> []" using assms by (auto simp: item_ok_def path_issep_def)
  then show "takeWhile (\<lambda>x. \<not> path_issep x) (c @ led cs) = c"
    by (cases cs) (simp_all add: takeWhile_append2 path_issep_def)
  show "takeWhile path_issep (c @ w) = []" using n by (cases c) auto
qed

lemma skip_component_at:
  assumes "item_ok 47 c"
  shows "path_skip_component (c @ led cs @ r) (length c + length (led cs)) = Some (length c)"
  using path_skip_component_eq[of "length c + length (led cs)" "c @ led cs @ r"] component_at(1)[OF assms, of cs] by simp

lemma skip_separator_at:
  assumes "item_ok 47 c"
  shows "path_skip_separator (c @ w @ r) (length c + length w) = Some 0"
    and "path_skip_separator (47 # c @ w @ r) (Suc (length c + length w)) = Some 1"
  using path_skip_separator_eq[of "length c + length w" "c @ w @ r"] component_at(2)[OF assms, of w]
  by (simp_all add: path_issep_def)

subsection \<open>Relative paths on components\<close>

text \<open>One round of the comparison; \<open>k\<close> is the number of separators in front of the components.\<close>

lemma common_prefix_step:
  assumes "item_ok 47 c" "item_ok 47 d" "pre = [] \<or> pre = [47]"
  shows "common_prefix_loop (u @ pre @ c @ led cs @ r) (length u + length pre + length c + length (led cs))
      (v @ pre @ d @ led ds @ q) (length v + length pre + length d + length (led ds)) (length u) (length v) =
    (if c = d then common_prefix_loop (u @ pre @ c @ led cs @ r) (length u + length pre + length c + length (led cs))
      (v @ pre @ d @ led ds @ q) (length v + length pre + length d + length (led ds))
      (length (u @ pre @ c)) (length (v @ pre @ d))
     else Some (length (u @ pre), length (v @ pre)))"
proof -
  have ne: "c \<noteq> []" "d \<noteq> []" using assms by (simp_all add: item_ok_def)
  have sep: "path_skip_separator (pre @ c @ led cs @ r) (length pre + (length c + length (led cs))) = Some (length pre)"
    "path_skip_separator (pre @ d @ led ds @ q) (length pre + (length d + length (led ds))) = Some (length pre)"
    using assms skip_separator_at by auto
  have diff: "\<exists>x. byte_diff (c @ led cs @ r) (length c) (d @ led ds @ q) = Some x \<and> (x = 0 \<longleftrightarrow> c = d)"
    if "length c = length d"
    using byte_diff_key[of "length c" "c @ led cs @ r" "d @ led ds @ q"] that by fastforce
  consider "c = d" | "c \<noteq> d" "length c = length d" | "length c \<noteq> length d" by blast
  then show ?thesis
  proof cases
    case 1
    then have "byte_diff (d @ led cs @ r) (length d) (d @ led ds @ q) = Some 0" using diff by auto
    then show ?thesis using ne sep 1 assms
      by (subst common_prefix_loop.simps) (simp add: add.assoc Let_def skip_component_at)
  next
    case 2
    then obtain x where "byte_diff (c @ led cs @ r) (length d) (d @ led ds @ q) = Some x" "x \<noteq> 0"
      using diff by auto
    moreover have "path_skip_component (c @ led cs @ r) (length d + length (led cs)) = Some (length d)"
      using skip_component_at[OF assms(1), of cs r] 2 by simp
    ultimately show ?thesis using ne sep 2 assms
      by (subst common_prefix_loop.simps) (simp add: add.assoc Let_def skip_component_at)
  next
    case 3
    then show ?thesis using ne sep assms
      by (subst common_prefix_loop.simps) (auto simp add: add.assoc Let_def skip_component_at)
  qed
qed

lemma common_prefix_led:
  assumes "comps (ps @ as)" "comps (ps @ bs)" "as = [] \<or> bs = [] \<or> hd as \<noteq> hd bs"
  shows "common_prefix_loop (u @ led (ps @ as) @ r) (length u + length (led (ps @ as)))
      (v @ led (ps @ bs) @ q) (length v + length (led (ps @ bs))) (length u) (length v) =
    (let k = length (led ps) + (if as = [] \<or> bs = [] then 0 else 1) in Some (length u + k, length v + k))"
  using assms
proof (induction ps arbitrary: u v)
  case Nil
  show ?case
  proof (cases "as = [] \<or> bs = []")
    case True
    then show ?thesis by (subst common_prefix_loop.simps) auto
  next
    case False
    then obtain a as' b bs' where "as = a # as'" "bs = b # bs'" by (auto simp: neq_Nil_conv)
    then show ?thesis using common_prefix_step[of a b "[47]" u as' r v bs' q] Nil by (simp add: add.assoc)
  qed
next
  case (Cons p ps)
  have c: "item_ok 47 p" using Cons.prems by simp
  show ?case using common_prefix_step[OF c c, of "[47]" u "ps @ as" r v "ps @ bs" q]
      Cons.IH[of "u @ 47 # p" "v @ 47 # p"] Cons.prems by (simp add: add.assoc Let_def)
qed

lemma path_common_prefix_eq:
  assumes "comps (ps @ as)" "comps (ps @ bs)" "as = [] \<or> bs = [] \<or> hd as \<noteq> hd bs"
  shows "path_common_prefix (joined 47 (ps @ as) @ r) (length (joined 47 (ps @ as)))
      (joined 47 (ps @ bs) @ q) (length (joined 47 (ps @ bs))) =
    (let k = length (joined 47 ps) + (if ps = [] \<or> as = [] \<or> bs = [] then 0 else 1) in Some (k, k))"
proof (cases ps)
  case Nil
  show ?thesis
  proof (cases "as = [] \<or> bs = []")
    case True
    then show ?thesis using Nil by (auto simp: path_common_prefix_def common_prefix_loop.simps)
  next
    case False
    then obtain a as' b bs' where "as = a # as'" "bs = b # bs'" by (auto simp: neq_Nil_conv)
    then show ?thesis using Nil common_prefix_step[of a b "[]" "[]" as' r "[]" bs' q] assms
      by (simp add: path_common_prefix_def joined_led)
  qed
next
  case (Cons p ps')
  have c: "item_ok 47 p" using assms Cons by simp
  show ?thesis using common_prefix_step[OF c c, of "[]" "[]" "ps' @ as" r "[]" "ps' @ bs" q]
      common_prefix_led[of ps' as bs p r p q] assms Cons
    by (simp add: path_common_prefix_def joined_led Let_def add.assoc)
qed

lemma path_common_prefix_root:
  assumes "comps (ps @ as)" "comps (ps @ bs)" "as = [] \<or> bs = [] \<or> hd as \<noteq> hd bs"
  shows "path_common_prefix (47 # joined 47 (ps @ as) @ r) (Suc (length (joined 47 (ps @ as))))
      (47 # joined 47 (ps @ bs) @ q) (Suc (length (joined 47 (ps @ bs)))) =
    (let k = Suc (length (joined 47 ps) + (if ps = [] \<or> as = [] \<or> bs = [] then 0 else 1)) in Some (k, k))"
proof (cases "ps = [] \<and> (as = [] \<or> bs = [])")
  case True
  have sk: "path_skip_separator (47 # joined 47 cs @ x) (Suc (length (joined 47 cs))) = Some 1"
    "path_skip_component (joined 47 cs @ x) (length (joined 47 cs)) = Some (length (if cs = [] then [] else hd cs))"
    "path_skip_separator (joined 47 cs @ x) (length (joined 47 cs)) = Some 0"
    if "comps cs" for cs and x :: "byte list"
    using that skip_separator_at[of _ "led _" x] skip_component_at[of _ _ x]
    by (cases cs; simp add: joined_led path_issep_def)+
  have ne: "x = [] \<longleftrightarrow> length x = 0" for x :: "byte list" by simp
  have "comps as" "comps bs" using assms by simp_all
  then show ?thesis using True sk[of as r] sk[of bs q]
    by (cases as; cases bs) (auto simp: path_common_prefix_def common_prefix_loop.simps[of _ _ _ _ 0 0] common_prefix_loop.simps[of _ _ _ _ "Suc 0" "Suc 0"] item_ok_def Let_def)
next
  case False
  then have "ps @ as \<noteq> []" "ps @ bs \<noteq> []" by auto
  then show ?thesis using common_prefix_led[OF assms, of "[]" r "[]" q] False
    by (auto simp: path_common_prefix_def led_joined Let_def)
qed

lemma path_skip_at:
  assumes "comps (c # cs)"
  shows "path_skip (joined 47 (c # cs) @ r) (length (joined 47 (c # cs))) = Some (length c + (if cs = [] then 0 else 1))"
    and "path_skip (led (c # cs) @ r) (length (led (c # cs))) = Some 1"
proof -
  have c: "item_ok 47 c" using assms by simp
  have "skip_inner_seps (led cs @ r) (length (led cs)) = Some (if cs = [] then 0 else 1)"
  proof (cases cs)
    case (Cons d ds)
    then have "d \<noteq> []" "item_ok 47 d" using assms by (auto simp: item_ok_def)
    then have "takeWhile path_issep (take (length d + length (led ds)) (led cs @ r)) = [47]"
      using Cons by (cases d) (auto simp: path_issep_def item_ok_def take_Cons')
    then show ?thesis using Cons by (simp add: skip_inner_seps_eq)
  qed simp
  then show "path_skip (joined 47 (c # cs) @ r) (length (joined 47 (c # cs))) = Some (length c + (if cs = [] then 0 else 1))"
    using skip_component_at[OF c, of cs r] by (simp add: path_skip_def joined_led)
  have "takeWhile path_issep (take (length c + length (led cs)) (led (c # cs) @ r)) = [47]"
    using c by (cases c) (auto simp: path_issep_def item_ok_def take_Cons')
  then show "path_skip (led (c # cs) @ r) (length (led (c # cs))) = Some 1"
    by (simp add: path_skip_def path_issep_def skip_inner_seps_eq)
qed

definition ups :: "nat \<Rightarrow> byte list" where
  "ups n = concat (replicate n [46, 46, 47])"

lemma ups_simps [simp]: "ups 0 = []" "ups (Suc n) = [46, 46, 47] @ ups n" "length (ups n) = 3 * n"
  by (simp_all add: ups_def length_concat sum_list_replicate)

lemma relative_ups_joined:
  assumes "grants al" "comps bs" "sa_is out w" "length w + 3 * length bs < sa_max"
  shows "\<exists>out'. relative_ups al (joined 47 bs @ r) (length (joined 47 bs)) out = Some out' \<and> sa_is out' (w @ ups (length bs))"
  using assms
proof (induction bs arbitrary: out w)
  case Nil
  then show ?case by (subst relative_ups.simps) (simp add: path_skip_def)
next
  case (Cons c cs)
  have c: "c \<noteq> []" using Cons.prems by (simp add: item_ok_def)
  obtain out1 where out1: "stralloc_cats al out [46, 46, 47, 0] = Some (True, out1)" "sa_is out1 (w @ [46, 46, 47])"
    using cats_granted[OF Cons.prems(1,3), of "[46, 46, 47]" "[]"] Cons.prems(4) by auto
  obtain out' where out': "relative_ups al (joined 47 cs @ r) (length (joined 47 cs)) out1 = Some out'"
    "sa_is out' (w @ ups (length (c # cs)))"
    using Cons.IH[OF Cons.prems(1) _ out1(2)] Cons.prems by auto
  have "drop (length c + (if cs = [] then 0 else 1)) (joined 47 (c # cs) @ r) = joined 47 cs @ r"
    "length (joined 47 (c # cs)) - (length c + (if cs = [] then 0 else 1)) = length (joined 47 cs)"
    by (simp_all add: joined_Cons)
  then show ?case using path_skip_at(1)[OF Cons.prems(2), of r] out1 out' c
    by (subst relative_ups.simps) simp
qed

lemma relative_ups_led:
  assumes "grants al" "comps bs" "bs \<noteq> []" "sa_is out w" "length w + 3 * Suc (length bs) < sa_max"
  shows "\<exists>out'. relative_ups al (led bs @ r) (length (led bs)) out = Some out' \<and> sa_is out' (w @ ups (Suc (length bs)))"
proof -
  obtain c cs where b: "bs = c # cs" using assms(3) by (cases bs) auto
  obtain out1 where out1: "stralloc_cats al out [46, 46, 47, 0] = Some (True, out1)" "sa_is out1 (w @ [46, 46, 47])"
    using cats_granted[OF assms(1,4), of "[46, 46, 47]" "[]"] assms(5) by auto
  obtain out' where "relative_ups al (joined 47 bs @ r) (length (joined 47 bs)) out1 = Some out'"
    "sa_is out' (w @ ups (Suc (length bs)))"
    using relative_ups_joined[OF assms(1,2) out1(2)] assms(5) by auto
  then show ?thesis using path_skip_at(2)[of c cs r] out1 b assms(2)
    by (subst relative_ups.simps) (simp add: joined_led)
qed

text \<open>
  What follows the comparison.  The rests \<open>A\<close> and \<open>B\<close> of the two paths begin with their separators
  (\<open>lead\<close>) when one of them is empty.
\<close>

lemma path_relative_b_rest:
  assumes "grants al" "sa_is out w" "comps as" "comps bs" "lead \<longrightarrow> as = [] \<or> bs = []"
    and "length (joined 47 as) + 3 * length bs + 4 < sa_max"
    and AB: "A = (if lead then led as else joined 47 as)" "B = (if lead then led bs else joined 47 bs)"
    and cp: "path_common_prefix (u @ A @ r) (length u + length A) (u @ B @ q) (length u + length B) = Some (length u, length u)"
  defines "n \<equiv> length bs + (if lead \<and> bs \<noteq> [] then 1 else 0)"
  shows "\<exists>out'. path_relative_b al (u @ A @ r) (length u + length A) (u @ B @ q) (length u + length B) out = Some out' \<and>
    sa_is out' (if as = [] \<and> bs = [] then [46] else ups n @ joined 47 as)"
proof -
  have zero: "sa_is (stralloc_zero out) []" by (rule stralloc_zero_is) fact
  obtain out1 where out1: "relative_ups al (B @ q) (length B) (stralloc_zero out) = Some out1" "sa_is out1 (ups n)"
  proof (cases "lead \<and> bs \<noteq> []")
    case True
    then show ?thesis using relative_ups_led[OF assms(1) _ _ zero, of bs q] assms that by (auto simp: n_def)
  next
    case False
    then have "B = joined 47 bs" "n = length bs" by (auto simp: n_def AB)
    then show ?thesis using relative_ups_joined[OF assms(1) _ zero, of bs q] assms that by auto
  qed
  define j where "j = (if lead \<and> as \<noteq> [] then 1 else 0 :: nat)"
  have sep: "path_skip_separator (A @ r) (length A) = Some j"
    using assms(3) skip_separator_at[of _ "led _" r] by (cases as) (auto simp: joined_led AB j_def)
  have tail: "drop j (A @ r) = joined 47 as @ r" "length A - j = length (joined 47 as)"
    by (auto simp: led_joined AB j_def)
  have small: "3 * n + length (joined 47 as) + 1 < sa_max" using assms(6) by (auto simp: n_def)
  obtain out2 where out2: "stralloc_catb al out1 (joined 47 as @ r) (of_nat (length (joined 47 as))) = Some (True, out2)"
    "sa_is out2 (ups n @ joined 47 as)"
    using catb_granted[OF assms(1) out1(2), of "joined 47 as" r] small by auto
  have len0: "sa_len out2 = 0 \<longleftrightarrow> as = [] \<and> bs = []"
    using sa_is_len[OF out2(2)] assms(3) joined_Nil_iff[of 47 as] unat_eq_zero[of "sa_len out2"]
    by (auto simp: n_def split: if_splits)
  let ?res = "if as = [] \<and> bs = [] then [46] else ups n @ joined 47 as"
  obtain out3 where out3: "(if sa_len out2 = 0 then stralloc_catc al out2 46 else Some (True, out2)) = Some (True, out3)" "sa_is out3 ?res"
    using catc_granted[OF assms(1) out2(2), of 46] out2(2) len0 by (cases "sa_len out2 = 0") (auto simp: sa_max_def n_def)
  have "Suc (length ?res) < sa_max" using small by (simp add: sa_max_def)
  then obtain out4 where out4: "stralloc_nul al out3 = Some (True, out4)" "sa_is out4 ?res"
    using nul_granted[OF assms(1) out3(2)] by auto
  have "path_relative_b al (u @ A @ r) (length u + length A) (u @ B @ q) (length u + length B) out = Some out4"
    using cp out1(1) sep tail out2(1) out3(1) out4(1)
    by (simp add: path_relative_b_def Let_def del: drop_drop diff_diff_left)
  then show ?thesis using out4(2) by blast
qed

lemma path_relative_b_eq:
  assumes "grants al" "sa_is out w" "comps (ps @ as)" "comps (ps @ bs)" "as = [] \<or> bs = [] \<or> hd as \<noteq> hd bs" "pre = [] \<or> pre = [47]"
    and "length (joined 47 (ps @ as)) + 3 * length bs + 4 < sa_max"
  defines "n \<equiv> length bs + (if ps \<noteq> [] \<and> as = [] \<and> bs \<noteq> [] then 1 else 0)"
  shows "\<exists>out'. path_relative_b al (pre @ joined 47 (ps @ as) @ r) (length pre + length (joined 47 (ps @ as)))
      (pre @ joined 47 (ps @ bs) @ q) (length pre + length (joined 47 (ps @ bs))) out = Some out' \<and>
    sa_is out' (if as = [] \<and> bs = [] then [46] else ups n @ joined 47 as)"
proof -
  define lead where "lead \<longleftrightarrow> ps \<noteq> [] \<and> (as = [] \<or> bs = [])"
  define A B where "A = (if lead then led as else joined 47 as)" and "B = (if lead then led bs else joined 47 bs)"
  define u where "u = pre @ joined 47 ps @ (if ps = [] \<or> as = [] \<or> bs = [] then [] else [47])"
  have tx: "pre @ joined 47 (ps @ as) @ x = u @ A @ x" "pre @ joined 47 (ps @ bs) @ x = u @ B @ x"
    "length pre + length (joined 47 (ps @ as)) = length u + length A" "length pre + length (joined 47 (ps @ bs)) = length u + length B" for x
    by (auto simp: u_def A_def B_def lead_def joined_led_append led_joined)
  have lu: "length u = length pre + (length (joined 47 ps) + (if ps = [] \<or> as = [] \<or> bs = [] then 0 else 1))" by (simp add: u_def)
  have len: "length (joined 47 as) \<le> length (joined 47 (ps @ as))" by (cases "ps = []") (auto simp: joined_led_append led_joined)
  have cp: "path_common_prefix (u @ A @ r) (length u + length A) (u @ B @ q) (length u + length B) = Some (length u, length u)"
    using assms(6)
  proof
    assume "pre = []"
    then show ?thesis unfolding tx[symmetric] unfolding lu using path_common_prefix_eq[OF assms(3-5), of r q] by (simp add: Let_def)
  next
    assume "pre = [47]"
    then show ?thesis unfolding tx[symmetric] unfolding lu using path_common_prefix_root[OF assms(3-5), of r q] by (simp add: Let_def)
  qed
  have "comps as" "comps bs" "lead \<longrightarrow> as = [] \<or> bs = []" "length (joined 47 as) + 3 * length bs + 4 < sa_max"
    using assms(3,4,7) len by (auto simp: lead_def)
  from path_relative_b_rest[OF assms(1,2) this A_def B_def cp]
  have "\<exists>out'. path_relative_b al (u @ A @ r) (length u + length A) (u @ B @ q) (length u + length B) out = Some out' \<and>
      sa_is out' (if as = [] \<and> bs = [] then [46] else ups (length bs + (if lead \<and> bs \<noteq> [] then 1 else 0)) @ joined 47 as)" .
  moreover have n: "(lead \<and> bs \<noteq> []) = (ps \<noteq> [] \<and> as = [] \<and> bs \<noteq> [])" by (auto simp: lead_def)
  ultimately show ?thesis unfolding tx n_def n by blast
qed

text \<open>Where a path leads from a directory, both given by their components.\<close>

fun follow :: "byte list list \<Rightarrow> byte list list \<Rightarrow> byte list list" where
  "follow dir [] = dir"
| "follow dir (c # cs) = follow (if c = [46, 46] then butlast dir else if c = [46] then dir else dir @ [c]) cs"

lemma follow_append [simp]: "follow dir (xs @ ys) = follow (follow dir xs) ys"
  by (induction xs arbitrary: dir) simp_all

lemma follow_names: "[46, 46] \<notin> set cs \<Longrightarrow> [46] \<notin> set cs \<Longrightarrow> follow dir cs = dir @ cs"
  by (induction cs arbitrary: dir) auto

lemma follow_ups: "follow (ps @ bs) (replicate (length bs) [46, 46]) = ps"
proof (induction bs rule: rev_induct)
  case (snoc b bs)
  then show ?case by (simp add: butlast_append)
qed simp

lemma joined_ups: "as \<noteq> [] \<Longrightarrow> joined 47 (replicate n [46, 46] @ as) = ups n @ joined 47 as"
  by (induction n) (auto simp: joined_Cons)

subsection \<open>Properties\<close>

text \<open>
  C16. Relative paths lead back: for two absolute or two relative paths of ordinary components (neither
  \<open>.\<close> nor \<open>..\<close>, joined by single slashes), the result of \<open>path_relative\<close> leads from the directory
  \<open>relative_to\<close> to \<open>path\<close>, unless \<open>path\<close> is a proper ancestor of \<open>relative_to\<close>.  The components in
  front that both have are \<open>ps\<close>, what follows them is \<open>as\<close> and \<open>bs\<close>.
\<close>
theorem path_relative_leads_back:
  assumes "grants al" "sa_is out w" "comps (ps @ as)" "comps (ps @ bs)" "as = [] \<or> bs = [] \<or> hd as \<noteq> hd bs"
    and "as \<noteq> [] \<or> bs = []" "pre = [] \<or> pre = [47]" "{[46], [46, 46]} \<inter> set (ps @ as @ bs) = {}"
    and "nonul (joined 47 (ps @ as))" "nonul (joined 47 (ps @ bs))"
    and "length (joined 47 (ps @ as)) + 3 * length bs + 4 < sa_max"
  shows "\<exists>out' rs. path_relative al (cstr (pre @ joined 47 (ps @ as)) r) (cstr (pre @ joined 47 (ps @ bs)) q) out = Some out' \<and>
    sa_is out' (joined 47 rs) \<and> follow (ps @ bs) rs = ps @ as"
proof -
  let ?rs = "if as = [] then [[46]] else replicate (length bs) [46, 46] @ as"
  have "joined 47 ?rs = (if as = [] \<and> bs = [] then [46] else ups (length bs) @ joined 47 as)"
    using assms(6) joined_ups by auto
  moreover have "follow (ps @ bs) ?rs = ps @ as"
    using assms(6,8) follow_ups[of ps bs] follow_names[of as] by auto
  moreover have "path_relative al (cstr (pre @ joined 47 (ps @ as)) r) (cstr (pre @ joined 47 (ps @ bs)) q) out =
      path_relative_b al (pre @ joined 47 (ps @ as) @ 0 # r) (length pre + length (joined 47 (ps @ as)))
        (pre @ joined 47 (ps @ bs) @ 0 # q) (length pre + length (joined 47 (ps @ bs))) out"
    using assms(7,9,10) str_len_cstr[of "pre @ joined 47 (ps @ as)" r] str_len_cstr[of "pre @ joined 47 (ps @ bs)" q]
    by (auto simp: path_relative_def) (simp_all add: cstr_def)
  ultimately show ?thesis
    using path_relative_b_eq[OF assms(1-5,7,11), of "0 # r" "0 # q"] assms(6) by (auto intro!: exI[of _ ?rs])
qed

theorem path_relative_leads_back_witness:
  "\<exists>out' rs. path_relative plenty (cstr [47, 97, 47, 98] []) (cstr [47, 97, 47, 99, 47, 100] []) \<lparr>sa_s = None, sa_len = 0, sa_a = 0\<rparr> = Some out' \<and>
    sa_is out' (joined 47 rs) \<and> follow [[97], [99], [100]] rs = [[97], [98]]"
proof -
  have g: "grants plenty" by simp
  have e: "sa_is \<lparr>sa_s = None, sa_len = 0, sa_a = 0\<rparr> []" by (simp add: sa_is_def sa_wf_def sa_text_def sa_mem_def)
  show ?thesis using path_relative_leads_back[OF g e, of "[[97]]" "[[98]]" "[[99], [100]]" "[47]" "[]" "[]"]
    by (simp add: item_ok_def sa_max_def)
qed

text \<open>
  Where \<open>path\<close> is a proper ancestor of \<open>relative_to\<close>, \<open>path_relative\<close> goes up one level too many:
  its result leads to the parent of \<open>path\<close>.
\<close>

theorem path_relative_ancestor_wrong:
  assumes "grants al" "sa_is out w" "comps (ps @ bs)" "ps \<noteq> []" "bs \<noteq> []"
    and "nonul (joined 47 (ps @ bs))" "length (joined 47 (ps @ bs)) + 3 * length bs + 4 < sa_max"
  shows "\<exists>out'. path_relative al (cstr (joined 47 ps) r) (cstr (joined 47 (ps @ bs)) q) out = Some out' \<and>
    sa_is out' (concat (replicate (Suc (length bs)) [46, 46, 47])) \<and>
    follow (ps @ bs) (replicate (Suc (length bs)) [46, 46]) = butlast ps"
proof -
  have j: "joined 47 (ps @ bs) = joined 47 ps @ 47 # joined 47 bs" using assms(4,5) by (rule joined_append)
  have "replicate (Suc (length bs)) [46, 46 :: byte] = replicate (length bs) [46, 46] @ [[46, 46]]"
    by (simp add: replicate_append_same)
  then have f: "follow (ps @ bs) (replicate (Suc (length bs)) [46, 46]) = butlast ps"
    by (simp only: follow_append follow_ups follow.simps) simp
  have "path_relative al (cstr (joined 47 ps) r) (cstr (joined 47 (ps @ bs)) q) out =
      path_relative_b al (joined 47 ps @ 0 # r) (length (joined 47 ps))
        (joined 47 (ps @ bs) @ 0 # q) (length (joined 47 (ps @ bs))) out"
    using assms(6) j by (simp add: path_relative_def) (simp add: cstr_def)
  then show ?thesis
    using path_relative_b_eq[of al out w ps "[]" bs "[]" "0 # r" "0 # q"] assms j f by (auto simp: ups_def)
qed

theorem path_relative_ancestor_wrong_witness:
  "\<exists>out'. path_relative plenty (cstr [97] []) (cstr [97, 47, 98] []) \<lparr>sa_s = None, sa_len = 0, sa_a = 0\<rparr> = Some out' \<and>
    sa_is out' [46, 46, 47, 46, 46, 47] \<and> follow [[97], [98]] [[46, 46], [46, 46]] = []"
proof -
  have g: "grants plenty" by simp
  have e: "sa_is \<lparr>sa_s = None, sa_len = 0, sa_a = 0\<rparr> []" by (simp add: sa_is_def sa_wf_def sa_text_def sa_mem_def)
  show ?thesis using path_relative_ancestor_wrong[OF g e, of "[[97]]" "[[98]]" "[]" "[]"]
    by (simp add: item_ok_def sa_max_def)
qed

subsection \<open>Removing dot-dot, on components\<close>

text \<open>
  What the code makes of the components, with those already passed in reverse: it takes a component out
  together with a dot-dot behind it and goes back by one, which it cannot at the first.
\<close>

function collapsed :: "byte list list \<Rightarrow> byte list list \<Rightarrow> byte list list option" where
  "collapsed ds [] = Some (rev ds)"
| "collapsed ds [c] = Some (rev (c # ds))"
| "collapsed ds (c # e # cs) =
     (if e = [46, 46] then (case ds of [] \<Rightarrow> None | d # ds' \<Rightarrow> collapsed ds' (d # cs))
      else collapsed (c # ds) (e # cs))"
  by pat_completeness auto
termination by (relation "measure (\<lambda>(ds, cs). 2 * length cs + length ds)") auto

definition trail :: "byte list list \<Rightarrow> byte list" where
  "trail ds = concat (map (\<lambda>d. d @ [47]) ds)"

lemma trail_simps [simp]: "trail [] = []" "trail (xs @ ys) = trail xs @ trail ys" "trail [d] = d @ [47]"
  by (simp_all add: trail_def)

lemma trail_joined: "trail ds @ joined 47 (c # cs) = joined 47 (ds @ c # cs)"
  by (induction ds) (simp_all add: trail_def joined_Cons)

lemma collapse_skip_eq: "\<forall>y\<in>set w. y = 47 \<Longrightarrow> z \<noteq> 47 \<Longrightarrow> collapse_skip (w @ z # q) 47 = Some (length w)"
  by (induction w) auto

lemma unat_small64: "k < 2 ^ 64 \<Longrightarrow> unat (of_nat k :: uint64) = k"
  by (simp add: unat_of_nat)

lemma size_diff: "i \<le> n \<Longrightarrow> n < 2 ^ 64 \<Longrightarrow> unat (of_nat n - of_nat i :: uint64) = n - i"
proof -
  assume "i \<le> n" "n < 2 ^ 64"
  have "unat (of_nat (n - i) :: uint64) = n - i" by (rule unat_small64) (use \<open>n < 2 ^ 64\<close> in simp)
  then show ?thesis using \<open>i \<le> n\<close> by (simp add: of_nat_diff)
qed

lemma collapse_dotdot_eq:
  assumes "item_ok 47 e"
  shows "collapse_dotdot (w @ e @ led cs @ q) (length w + length e + length (led cs)) 47 (length w) = Some (e = [46, 46])"
proof -
  consider a where "e = [a]" "a \<noteq> 47" | a b where "e = [a, b]" "a \<noteq> 47" "b \<noteq> 47"
    | a b c e' where "e = a # b # c # e'" "c \<noteq> 47"
    using assms by (cases e rule: remdups_adj.cases; cases "tl (tl e)") (auto simp: item_ok_def)
  then show ?thesis
  proof cases
    case 1
    then show ?thesis by (cases cs) (auto simp: collapse_dotdot_def nth_append)
  next
    case 2
    then show ?thesis by (cases cs) (auto simp: collapse_dotdot_def nth_append)
  next
    case 3
    then show ?thesis by (auto simp: collapse_dotdot_def nth_append)
  qed
qed

text \<open>The start of a round: the position of the component and of its end.\<close>

lemma collapse_at:
  fixes q :: "byte list"
  assumes "item_ok 47 c" "i \<le> length w" "\<forall>y\<in>set (drop i w). y = 47"
    and "length w + length c + length (led cs) < 2 ^ 64"
  defines "x \<equiv> w @ c @ led cs @ 0 # q" and "n \<equiv> length w + length c + length (led cs)"
  shows "i < n" "collapse_skip (drop i x) 47 = Some (length w - i)"
    "byte_chr (drop (length w) x) (unat (of_nat n - of_nat (length w) :: uint64)) 47 = Some (length c)"
proof -
  obtain y c' where c: "c = y # c'" "y \<noteq> 47" using assms(1) by (cases c) (auto simp: item_ok_def)
  then show "i < n" using assms(2) by (simp add: n_def)
  have "drop i x = drop i w @ y # c' @ led cs @ 0 # q" using assms(2) c by (simp add: x_def)
  then show "collapse_skip (drop i x) 47 = Some (length w - i)"
    using collapse_skip_eq[OF assms(3) c(2), of "c' @ led cs @ 0 # q"] by simp
  have "takeWhile (\<lambda>y. y \<noteq> 47) (c @ led cs) = c" using component_at(1)[OF assms(1), of cs] by (simp add: path_issep_def)
  then show "byte_chr (drop (length w) x) (unat (of_nat n - of_nat (length w) :: uint64)) 47 = Some (length c)"
    using size_diff[of "length w" n] assms(4) by (simp add: x_def n_def byte_chr_takeWhile)
qed

text \<open>A component that stays.\<close>

lemma collapse_keep:
  assumes "comps (c # cs)" "cs = [] \<or> hd cs \<noteq> [46, 46]" "i \<le> length w" "\<forall>y\<in>set (drop i w). y = 47"
    and "length w + length c + length (led cs) < 2 ^ 64"
  shows "collapse_loop (w @ c @ led cs @ 0 # q) 47 (length w + length c + length (led cs)) i =
    (if cs = [] then Some (length w + length c, w @ c @ 0 # q)
     else collapse_loop (w @ c @ led cs @ 0 # q) 47 (length w + length c + length (led cs)) (length w + length c + 1))"
proof -
  have c: "item_ok 47 c" using assms(1) by simp
  note at = collapse_at(1)[OF c assms(3-5)] collapse_at(2,3)[OF c assms(3-5), of q]
  show ?thesis
  proof (cases cs)
    case Nil
    then show ?thesis using at assms(3) by (subst collapse_loop.simps) (simp add: Let_def collapse_loop.simps)
  next
    case (Cons e cs')
    then have "collapse_dotdot (w @ c @ led cs @ 0 # q) (length w + length c + length (led cs)) 47 (length w + length c + 1) = Some False"
      using collapse_dotdot_eq[of e "w @ c @ [47]" cs' "0 # q"] assms(1,2) by (simp add: add.assoc)
    then show ?thesis using at assms(3) Cons by (subst collapse_loop.simps) (simp add: Let_def)
  qed
qed

lemma collapse_dd:
  assumes "i < n" "collapse_skip (drop i x) sep = Some (p - i)" "i \<le> p"
    and "byte_chr (drop p x) (unat (of_nat n - of_nat p :: uint64)) sep = Some k" "p + k < n"
    and "collapse_dotdot x n sep (p + k + 1) = Some True" "l = p + k + 4"
  shows "collapse_loop x sep n i =
    do { x \<leftarrow> (if l < n then memmove x p l (n - l) else Some x);
         if p + n < l then None
         else do { x \<leftarrow> wr x (p + n - l) 0;
                   j \<leftarrow> collapse_back x sep p;
                   j \<leftarrow> collapse_start x sep j;
                   collapse_loop x sep (p + n - l) j } }"
proof -
  have "p + k + 1 + 3 = l" using assms(7) by simp
  then show ?thesis using assms(1-6) by (subst collapse_loop.simps) (simp add: Let_def)
qed

lemma wr_at: "wr (w @ v @ y # q) (length w + length v) z = Some (w @ v @ z # q)"
  by (simp add: wr_def list_update_append)

text \<open>A component with a dot-dot behind it: what is behind takes its place.\<close>

lemma collapse_cut:
  assumes "comps (c # [46, 46] # cs)" "i \<le> length w" "\<forall>y\<in>set (drop i w). y = 47"
    and "length w + length c + length (led ([46, 46] # cs)) < 2 ^ 64" "w \<noteq> [] \<or> cs \<noteq> []"
  defines "x' \<equiv> \<lambda>q. if cs = [] then butlast w @ 0 # q else w @ joined 47 cs @ 0 # q"
  shows "\<exists>q'. collapse_loop (w @ c @ led ([46, 46] # cs) @ 0 # q) 47 (length w + length c + length (led ([46, 46] # cs))) i =
    do { j \<leftarrow> collapse_back (x' q') 47 (length w);
         j \<leftarrow> collapse_start (x' q') 47 j;
         collapse_loop (x' q') 47 (if cs = [] then length w - 1 else length w + length (joined 47 cs)) j } \<and>
    (cs = [] \<longrightarrow> q' \<noteq> [])"
proof -
  let ?x = "w @ c @ led ([46, 46] # cs) @ 0 # q" and ?n = "length w + length c + length (led ([46, 46] # cs))"
  have c: "item_ok 47 c" using assms(1) by simp
  note at = collapse_at(1)[OF c assms(2-4)] collapse_at(2,3)[OF c assms(2-4), of q]
  have dd: "collapse_dotdot ?x ?n 47 (length w + length c + 1) = Some True"
    using collapse_dotdot_eq[of "[46, 46]" "w @ c @ [47]" cs "0 # q"] assms(1) by simp
  define l where "l = length w + length c + 4"
  have lt: "length w + length c < ?n" by simp
  note loop = collapse_dd[OF at(1,2) assms(2) at(3) lt dd l_def]
  show ?thesis
  proof (cases "cs = []")
    case True
    then have w: "w \<noteq> []" using assms(5) by simp
    have n: "\<not> l < ?n" "\<not> length w + ?n < l" "length w + ?n - l = length w - 1"
      using w True by (auto simp: l_def)
    have "wr ?x (length w - 1) 0 = Some (butlast w @ 0 # drop (length w) ?x)"
      using w by (cases w rule: rev_cases) (simp_all add: wr_def list_update_append)
    then show ?thesis using loop n True by (intro exI[of _ "drop (length w) ?x"]) (simp add: x'_def)
  next
    case False
    have led: "led cs = 47 # joined 47 cs" using False by (simp add: led_joined)
    have n: "?n = l + length (joined 47 cs)" by (simp add: l_def led)
    have d: "drop l ?x = joined 47 cs @ 0 # q" by (simp add: l_def led)
    obtain y q' where y: "drop (length (joined 47 cs)) (drop (length w) ?x) = y # q'"
      by (cases "drop (length (joined 47 cs)) (drop (length w) ?x)") (auto simp: led)
    have "splice ?x (length w) (joined 47 cs) = w @ joined 47 cs @ drop (length (joined 47 cs)) (drop (length w) ?x)"
      by (simp add: splice_def add.commute)
    then have "splice ?x (length w) (joined 47 cs) = w @ joined 47 cs @ y # q'" unfolding y .
    moreover have "memmove ?x (length w) l (?n - l) = Some (splice ?x (length w) (joined 47 cs))"
      unfolding memmove_def d using n by (simp add: led)
    moreover have "l < ?n" using n joined_Nil_iff[of 47 cs] assms(1) False by auto
    moreover have "length w + ?n - l = length w + length (joined 47 cs)" "\<not> length w + ?n < l" using n by simp_all
    ultimately show ?thesis using loop False wr_at[of w "joined 47 cs" y q' 0]
      by (intro exI[of _ q']) (simp add: x'_def del: led.simps)
  qed
qed

text \<open>Going back to the component before, which begins behind \<open>v\<close>.\<close>

lemma collapse_start_at:
  assumes "\<forall>y\<in>set d. y \<noteq> 47" "v = [] \<or> last v = 47" "j < length d"
  shows "\<exists>i. collapse_start (v @ d @ q) 47 (length v + j) = Some i \<and> i \<le> length v \<and> (\<forall>y\<in>set (drop i v). y = 47)"
  using assms(3)
proof (induction j)
  case 0
  show ?case
  proof (cases v rule: rev_cases)
    case Nil
    then show ?thesis by simp
  next
    case (snoc v' y)
    obtain z where "rd (v @ d @ q) (length v) = Some z" "z \<noteq> 47" using assms(1) 0 by (cases d) auto
    moreover have "collapse_start (v @ d @ q) 47 (length v') = Some (length v')"
      using snoc assms(2) by (cases "length v'") (auto simp: nth_append)
    ultimately show ?thesis using snoc assms(2) by (intro exI[of _ "length v'"]) auto
  qed
next
  case (Suc j)
  have "rd (v @ d @ q) (length v + Suc j) = Some (d ! Suc j)" using Suc.prems by (auto simp: nth_append)
  moreover have "d ! Suc j \<noteq> 47" using Suc.prems assms(1) by auto
  ultimately show ?case using Suc by simp
qed

lemma collapse_goes_back:
  assumes "item_ok 47 d" "v = [] \<or> last v = 47"
  shows "\<exists>i. collapse_back (v @ d @ 0 # q) 47 (length v + length d + 1) \<bind> collapse_start (v @ d @ 0 # q) 47 = Some i \<and>
      i \<le> length v \<and> (\<forall>y\<in>set (drop i v). y = 47)"
    and "\<exists>i. collapse_back (v @ d @ 47 # q) 47 (length v + length d + 1) \<bind> collapse_start (v @ d @ 47 # q) 47 = Some i \<and>
      i \<le> length v \<and> (\<forall>y\<in>set (drop i v). y = 47)"
proof -
  have d: "\<forall>y\<in>set d. y \<noteq> 47" "d \<noteq> []" using assms(1) by (auto simp: item_ok_def)
  show "\<exists>i. collapse_back (v @ d @ 0 # q) 47 (length v + length d + 1) \<bind> collapse_start (v @ d @ 0 # q) 47 = Some i \<and>
      i \<le> length v \<and> (\<forall>y\<in>set (drop i v). y = 47)"
    using collapse_start_at[of "d @ [0]" v "length d" q] d assms(2) by simp
  obtain d' y where dy: "d = d' @ [y]" "y \<noteq> 47" using d by (cases d rule: rev_cases) auto
  then have "collapse_back (v @ d @ 47 # q) 47 (length v + length d + 1) = Some (length v + length d')"
    by (simp add: nth_append)
  then show "\<exists>i. collapse_back (v @ d @ 47 # q) 47 (length v + length d + 1) \<bind> collapse_start (v @ d @ 47 # q) 47 = Some i \<and>
      i \<le> length v \<and> (\<forall>y\<in>set (drop i v). y = 47)"
    using collapse_start_at[of d v "length d'" "47 # q"] d assms(2) dy by simp
qed

lemma collapse_cut_back:
  assumes "comps (rev (d # ds) @ c # [46, 46] # cs)" "pre = [] \<or> pre = [47]"
  defines "v \<equiv> pre @ trail (rev ds)" and "w \<equiv> pre @ trail (rev (d # ds))"
  assumes "i \<le> length w" "\<forall>y\<in>set (drop i w). y = 47" "length w + length c + length (led ([46, 46] # cs)) < 2 ^ 64"
  shows "\<exists>q' j. collapse_loop (w @ c @ led ([46, 46] # cs) @ 0 # q) 47 (length w + length c + length (led ([46, 46] # cs))) i =
      collapse_loop (v @ d @ led cs @ 0 # q') 47 (length v + length d + length (led cs)) j \<and>
    j \<le> length v \<and> (\<forall>y\<in>set (drop j v). y = 47)"
proof -
  have w: "w = v @ d @ [47]" by (simp add: w_def v_def)
  have v: "v = [] \<or> last v = 47" using assms(2) by (cases ds) (auto simp: v_def)
  have d: "item_ok 47 d" "comps (c # [46, 46] # cs)" using assms(1) by simp_all
  define x' where "x' = (\<lambda>q. if cs = [] then butlast w @ 0 # q else w @ joined 47 cs @ 0 # q)"
  obtain q' where q': "collapse_loop (w @ c @ led ([46, 46] # cs) @ 0 # q) 47 (length w + length c + length (led ([46, 46] # cs))) i =
    do { j \<leftarrow> collapse_back (x' q') 47 (length w);
         j \<leftarrow> collapse_start (x' q') 47 j;
         collapse_loop (x' q') 47 (if cs = [] then length w - 1 else length w + length (joined 47 cs)) j }"
    using collapse_cut[OF d(2) assms(5-7), of q] w by (auto simp: x'_def)
  have x': "x' q' = v @ d @ led cs @ 0 # q'" by (simp add: x'_def w led_joined butlast_append)
  have n: "(if cs = [] then length w - 1 else length w + length (joined 47 cs)) = length v + length d + length (led cs)"
    by (simp add: w led_joined)
  obtain j where "collapse_back (x' q') 47 (length w) \<bind> collapse_start (x' q') 47 = Some j"
    "j \<le> length v" "\<forall>y\<in>set (drop j v). y = 47"
    using collapse_goes_back(1)[OF d(1) v, of q'] collapse_goes_back(2)[OF d(1) v, of "joined 47 cs @ 0 # q'"]
    by (cases "cs = []") (auto simp: x' w led_joined)
  then show ?thesis using q' x' n by (auto simp: Option.bind_assoc[symmetric] intro!: exI[of _ q'] exI[of _ j])
qed

lemma collapse_loop_eq:
  assumes "collapsed ds (c # cs) = Some cs'" "comps (rev ds @ c # cs)" "pre = [] \<or> pre = [47]"
    and "i \<le> length (pre @ trail (rev ds))" "\<forall>y\<in>set (drop i (pre @ trail (rev ds))). y = 47"
    and "length (pre @ trail (rev ds)) + length c + length (led cs) < 2 ^ 64"
  shows "\<exists>q'. collapse_loop ((pre @ trail (rev ds)) @ c @ led cs @ 0 # q) 47 (length (pre @ trail (rev ds)) + length c + length (led cs)) i =
    Some (length (pre @ joined 47 cs'), pre @ joined 47 cs' @ 0 # q')"
  using assms
proof (induction ds "c # cs" arbitrary: c cs i q rule: collapsed.induct)
  case (2 ds c)
  have "joined 47 (rev ds @ [c]) = trail (rev ds) @ c" using trail_joined[of "rev ds" c "[]"] by simp
  then show ?case using collapse_keep[of c "[]" i "pre @ trail (rev ds)" q] "2.prems" by auto
next
  case (3 ds c e cs)
  show ?case
  proof (cases "e = [46, 46]")
    case True
    then obtain d ds' where ds: "ds = d # ds'" using "3.prems"(1) by (cases ds) auto
    obtain q' j where q': "collapse_loop ((pre @ trail (rev ds)) @ c @ led (e # cs) @ 0 # q) 47
        (length (pre @ trail (rev ds)) + length c + length (led (e # cs))) i =
      collapse_loop ((pre @ trail (rev ds')) @ d @ led cs @ 0 # q') 47 (length (pre @ trail (rev ds')) + length d + length (led cs)) j"
      "j \<le> length (pre @ trail (rev ds'))" "\<forall>y\<in>set (drop j (pre @ trail (rev ds'))). y = 47"
      using collapse_cut_back[OF "3.prems"(2)[unfolded ds True] "3.prems"(3) "3.prems"(4-6)[unfolded ds True], of q]
      unfolding ds True by blast
    have h: "collapsed ds' (d # cs) = Some cs'" "comps (rev ds' @ d # cs)"
      "length (pre @ trail (rev ds')) + length d + length (led cs) < 2 ^ 64"
      using "3.prems"(1,2,6) True ds by simp_all
    show ?thesis unfolding q'(1) by (rule "3.hyps"(1)[OF True ds h(1,2) "3.prems"(3) q'(2,3) h(3)])
  next
    case False
    let ?w = "pre @ trail (rev ds)" and ?w' = "pre @ trail (rev (c # ds))"
    have c: "comps (c # e # cs)" "e # cs = [] \<or> hd (e # cs) \<noteq> [46, 46]" using "3.prems"(2) False by simp_all
    have keep: "collapse_loop (?w @ c @ led (e # cs) @ 0 # q) 47 (length ?w + length c + length (led (e # cs))) i =
        collapse_loop (?w' @ e @ led cs @ 0 # q) 47 (length ?w' + length e + length (led cs)) (length ?w')"
      using collapse_keep[OF c "3.prems"(4-6), of q] by (simp add: add.assoc)
    have h: "collapsed (c # ds) (e # cs) = Some cs'" "comps (rev (c # ds) @ e # cs)"
      "length ?w' \<le> length ?w'" "\<forall>y\<in>set (drop (length ?w') ?w'). y = 47" "length ?w' + length e + length (led cs) < 2 ^ 64"
      using "3.prems"(1,2,6) False by simp_all
    show ?thesis unfolding keep by (rule "3.hyps"(2)[OF False h(1,2) "3.prems"(3) h(3-5)])
  qed
qed

lemma collapsed_meaning:
  assumes "collapsed ds cs = Some cs'" "[46] \<notin> set ds" "[46] \<notin> set cs" "[46, 46] \<notin> set (butlast ds)"
    and "ds \<noteq> [] \<Longrightarrow> cs \<noteq> [] \<Longrightarrow> hd cs \<noteq> [46, 46]"
  shows "follow dir cs' = follow dir (rev ds @ cs)" "[46, 46] \<notin> set (tl cs')"
proof -
  have "follow dir cs' = follow dir (rev ds @ cs) \<and> [46, 46] \<notin> set (tl cs')"
    using assms
  proof (induction ds cs rule: collapsed.induct)
    case (1 ds)
    then show ?case by (cases ds rule: rev_cases) auto
  next
    case (2 ds c)
    then show ?case by (cases ds rule: rev_cases) auto
  next
    case (3 ds c e cs)
    show ?case
    proof (cases "e = [46, 46]")
      case True
      then obtain d ds' where ds: "ds = d # ds'" using "3.prems"(1) by (cases ds) auto
      have c: "c \<noteq> [46, 46]" "c \<noteq> [46]" using "3.prems" ds by auto
      have "follow dir cs' = follow dir (rev ds' @ d # cs) \<and> [46, 46] \<notin> set (tl cs')"
        by (rule "3.IH"(1)[OF True ds]) (use "3.prems" True ds in \<open>auto split: if_splits\<close>)
      then show ?thesis using True ds c by simp
    next
      case False
      have "follow dir cs' = follow dir (rev (c # ds) @ e # cs) \<and> [46, 46] \<notin> set (tl cs')"
        by (rule "3.IH"(2)[OF False]) (use "3.prems" False in auto)
      then show ?thesis by simp
    qed
  qed
  then show "follow dir cs' = follow dir (rev ds @ cs)" "[46, 46] \<notin> set (tl cs')" by blast+
qed

lemma path_getsep_text:
  assumes "nonul w" "47 \<in> set w"
  shows "path_getsep (w @ q) = Some 47"
  using assms by (induction w) (auto simp: path_issep_def)

subsection \<open>Properties of collapsing\<close>

text \<open>
  C24. Removing \<open>..\<close> in place: for a path of named components, absolute or not, in which no \<open>..\<close> meets the
  first component, \<open>path_collapse\<close> returns, stays inside the string, leaves a path with no \<open>..\<close> behind the
  first component, and that path leads where the given one did.
\<close>

theorem path_collapse_exact:
  assumes "comps (c # cs)" "collapsed [] (c # cs) = Some cs'" "pre = [] \<and> cs \<noteq> [] \<or> pre = [47]" "[46] \<notin> set (c # cs)"
    and "nonul (joined 47 (c # cs))" "length (joined 47 (c # cs)) + 1 < 2 ^ 64"
  shows "\<exists>q'. path_collapse (pre @ joined 47 (c # cs) @ 0 # q) (length (pre @ joined 47 (c # cs))) =
      Some (length (pre @ joined 47 cs'), pre @ joined 47 cs' @ 0 # q') \<and>
    follow dir cs' = follow dir (c # cs) \<and> [46, 46] \<notin> set (tl cs')"
proof -
  have "path_getsep (pre @ joined 47 (c # cs) @ 0 # q) = Some 47"
    using path_getsep_text[of "pre @ joined 47 (c # cs)" "0 # q"] assms(3,5) by (cases cs) (auto simp: joined_led)
  moreover have "length pre \<le> 1" using assms(3) by auto
  moreover have "\<exists>q'. collapse_loop ((pre @ trail (rev [])) @ c @ led cs @ 0 # q) 47 (length (pre @ trail (rev [])) + length c + length (led cs)) 0 =
      Some (length (pre @ joined 47 cs'), pre @ joined 47 cs' @ 0 # q')"
    by (rule collapse_loop_eq) (use assms \<open>length pre \<le> 1\<close> in \<open>auto simp: joined_led\<close>)
  moreover have "follow dir cs' = follow dir (c # cs)" "[46, 46] \<notin> set (tl cs')"
    using collapsed_meaning(1)[OF assms(2), of dir] collapsed_meaning(2)[OF assms(2)] assms(4) by simp_all
  ultimately show ?thesis by (auto simp: path_collapse_def joined_led add.assoc)
qed

theorem path_collapse_exact_witness:
  "\<exists>q'. path_collapse (cstr [47, 97, 47, 98, 47, 46, 46, 47, 99] []) 9 = Some (4, [47, 97, 47, 99] @ 0 # q')"
proof -
  have ok: "comps [[97], [98], [46, 46], [99]]" "collapsed [] [[97], [98], [46, 46], [99]] = Some [[97], [99]]"
    "[46] \<notin> set [[97], [98], [46, 46], [99 :: byte]]" "nonul (joined 47 [[97], [98], [46, 46], [99]])"
    "length (joined 47 [[97], [98], [46, 46], [99 :: byte]]) + 1 < 2 ^ 64" "[47 :: byte] = [] \<and> [[98], [46, 46], [99 :: byte]] \<noteq> [] \<or> [47 :: byte] = [47]"
    by (simp_all add: item_ok_def)
  show ?thesis using path_collapse_exact[OF ok(1,2,6,3,4,5), of "[]" "[]"] by (simp add: cstr_def numeral_eq_Suc)
qed

text \<open>
  A \<open>..\<close> behind the first component makes \<open>path_collapse\<close> read before the start of the string.
\<close>

theorem path_collapse_first_underruns:
  assumes "comps (c # [46, 46] # e # cs)" "pre = [] \<or> pre = [47]"
    and "nonul (joined 47 (c # [46, 46] # e # cs))" "length (joined 47 (c # [46, 46] # e # cs)) + 1 < 2 ^ 64"
  shows "path_collapse (pre @ joined 47 (c # [46, 46] # e # cs) @ 0 # q) (length (pre @ joined 47 (c # [46, 46] # e # cs))) = None"
proof -
  let ?cs = "[46, 46] # e # cs"
  have "path_getsep (pre @ joined 47 (c # ?cs) @ 0 # q) = Some 47"
    using path_getsep_text[of "pre @ joined 47 (c # ?cs)" "0 # q"] assms(2,3) by (auto simp: joined_led)
  moreover have len: "length pre + length c + length (led ?cs) < 2 ^ 64" using assms(2,4) by (auto simp: joined_led)
  have "\<forall>y\<in>set (drop 0 pre). y = 47" using assms(2) by auto
  from collapse_cut[OF assms(1) _ this len, of q]
  have "collapse_loop (pre @ c @ led ?cs @ 0 # q) 47 (length pre + length c + length (led ?cs)) 0 = None"
    using assms(2) by auto
  ultimately show ?thesis by (simp add: path_collapse_def joined_led add.assoc)
qed

theorem path_collapse_first_underruns_witness: "path_collapse (cstr [97, 47, 46, 46, 47, 98] []) 6 = None"
proof -
  have ok: "comps [[97], [46, 46], [98]]" "[] = [] \<or> [] = [47 :: byte]" "nonul (joined 47 [[97], [46, 46], [98]])"
    "length (joined 47 [[97], [46, 46], [98 :: byte]]) + 1 < 2 ^ 64" by (simp_all add: item_ok_def)
  show ?thesis using path_collapse_first_underruns[OF ok, of "[]"] by (simp add: cstr_def numeral_eq_Suc)
qed

subsection \<open>Joining, directory and name\<close>

definition undot :: "byte list \<Rightarrow> byte list" where
  "undot x = (if length x > 2 \<and> take 2 x = [46, 47] then drop 2 x else x)"

definition put_sep :: "byte list \<Rightarrow> byte list" where
  "put_sep w = (if w \<noteq> [] \<and> last w \<noteq> 47 then w @ [47] else w)"

lemma path_dot_skip_eq: "path_dot_skip (x @ r) (length x) = Some (length x - length (undot x))"
proof -
  consider "length x \<le> 2" | a b c x' where "x = a # b # c # x'"
    by (cases x rule: remdups_adj.cases; cases "tl (tl x)") auto
  then show ?thesis by cases (auto simp: path_dot_skip_def undot_def PATHSEP_C_def)
qed

lemma undot_drop: "drop (length x - length (undot x)) (x @ r) = undot x @ r" "length (undot x) \<le> length x"
  by (auto simp: undot_def)

lemma path_separate_granted:
  assumes "grants al" "sa_is out w" "Suc (length w) < sa_max"
  shows "\<exists>out'. path_separate al out = Some out' \<and> sa_is out' (put_sep w)"
proof (cases w rule: rev_cases)
  case Nil
  then show ?thesis using assms(2) sa_is_len[OF assms(2)] unat_eq_zero[of "sa_len out"]
    by (auto simp: path_separate_def put_sep_def)
next
  case (snoc v y)
  obtain r where m: "sa_mem out = w @ r" using sa_is_mem[OF assms(2)] by blast
  have u: "unat (sa_len out) = Suc (length v)" using sa_is_len[OF assms(2)] snoc by simp
  then have "sa_len out > 0" by (metis nat.distinct(1) unat_0 word_gt_0)
  moreover have "unat (sa_len out - 1) = length v" using sa_len_minus[OF assms(2), of 1] snoc by simp
  moreover obtain out' where "stralloc_catc al out 47 = Some (True, out')" "sa_is out' (w @ [47])"
    using catc_granted[OF assms] by blast
  ultimately show ?thesis using assms(2) m snoc by (auto simp: path_separate_def put_sep_def PATHSEP_C_def)
qed

lemma path_append_granted:
  assumes "grants al" "sa_is out w" "length w + length x + 2 < sa_max"
  shows "\<exists>out'. path_append al (x @ r) (length x) out = Some out' \<and> sa_is out' (put_sep w @ undot x)"
proof -
  obtain out1 where out1: "path_separate al out = Some out1" "sa_is out1 (put_sep w)"
    using path_separate_granted[OF assms(1,2)] assms(3) by auto
  have le: "length (put_sep w) + length (undot x) < sa_max" using assms(3) undot_drop(2)[of x] by (auto simp: put_sep_def)
  have "length x - (length x - length (undot x)) = length (undot x)" using undot_drop(2)[of x] by simp
  then show ?thesis using out1 catb_granted[OF assms(1) out1(2) le, of r] undot_drop(1)[of x r]
    by (auto simp: path_append_def path_dot_skip_eq simp del: drop_append)
qed

lemma path_concat_granted:
  assumes "grants al" "sa_is out w" "length x + length y + 4 < sa_max"
  shows "\<exists>out'. path_concat al (x @ r) (length x) (y @ q) (length y) out = Some out' \<and>
    sa_is out' (undot (put_sep (undot x) @ undot y)) \<and> (\<exists>r. sa_mem out' = cstr (undot (put_sep (undot x) @ undot y)) r)"
proof -
  define t where "t = put_sep (undot x) @ undot y"
  have le: "length t + 1 < sa_max" "length (undot t) \<le> length t"
    using assms(3) undot_drop(2)[of x] undot_drop(2)[of y] undot_drop(2)[of t] by (auto simp: t_def put_sep_def)
  obtain sa where sa: "path_append al (x @ r) (length x) (stralloc_init \<lparr>sa_s = None, sa_len = 0, sa_a = 0\<rparr>) = Some sa"
    "sa_is sa (undot x)" using path_append_granted[OF assms(1) stralloc_init_is, of x] assms(3) by (auto simp: put_sep_def)
  obtain sb where sb: "path_append al (y @ q) (length y) sa = Some sb" "sa_is sb t"
    using path_append_granted[OF assms(1) sa(2), of y q] assms(3) undot_drop(2)[of x] by (auto simp: t_def)
  obtain m where m: "sa_mem sb = t @ m" using sa_is_mem[OF sb(2)] by blast
  have u: "unat (sa_len sb) = length t" by (rule sa_is_len) fact
  have l: "sa_len sb - of_nat (length t - length (undot t)) = of_nat (length (undot t))"
    using sa_len_minus[OF sb(2), of "length t - length (undot t)"] le
    by (simp add: word_unat_eq_iff unat_of_nat_sa del: length_append)
  obtain o1 where o1: "stralloc_copyb al out (undot t @ m) (of_nat (length (undot t))) = Some (True, o1)" "sa_is o1 (undot t)"
    using copyb_granted[OF assms(1,2), of "undot t" m] le by auto
  obtain o2 where "stralloc_nul al o1 = Some (True, o2)" "sa_is o2 (undot t)" "\<exists>r. sa_mem o2 = cstr (undot t) r"
    using nul_granted[OF assms(1) o1(2)] le by auto
  moreover from this(1) have "path_concat al (x @ r) (length x) (y @ q) (length y) out = Some o2"
    using sa(1) sb(1) o1(1) m u l undot_drop(1)[of t m] path_dot_skip_eq[of t m]
    by (simp add: path_concat_def del: drop_append)
  ultimately show ?thesis unfolding t_def by blast
qed

lemma str_rchrs_skip:
  "nonul u \<Longrightarrow> \<exists>found'. str_rchrs_loop (u @ s) [47, 92] 2 i found = str_rchrs_loop s [47, 92] 2 (i + length u) found'"
proof (induction u arbitrary: i found)
  case (Cons x u)
  then obtain h where "needle_hit x [47, 92] 0 2 = Some h" using needle_hit_iff[of 0 2 "[47, 92]" x] by simp
  then show ?case using Cons.IH[of "Suc i" "if h then Some i else found"] Cons.prems by simp
qed auto

lemma str_rchrs_none:
  assumes "nonul v" "\<forall>x\<in>set v. x \<noteq> 47 \<and> x \<noteq> 92"
  shows "str_rchrs_loop (cstr v r) [47, 92] 2 i found = Some (case found of Some f \<Rightarrow> f | None \<Rightarrow> i + length v)"
  using assms
proof (induction v arbitrary: i)
  case (Cons x v)
  then have "needle_hit x [47, 92] 0 2 = Some False" using needle_hit_iff[of 0 2 "[47, 92]" x] by simp
  then show ?case using Cons by (simp split: option.splits)
qed (simp split: option.splits)

lemma str_rchrs_last:
  assumes "nonul (u @ s # v)" "s \<in> {47, 92}" "\<forall>x\<in>set v. x \<noteq> 47 \<and> x \<noteq> 92"
  shows "str_rchrs (cstr (u @ s # v) r) [47, 92] 2 = Some (length u)"
proof -
  obtain f where f: "str_rchrs_loop (u @ s # cstr v r) [47, 92] 2 0 None = str_rchrs_loop (s # cstr v r) [47, 92] 2 (length u) f"
    using str_rchrs_skip[of u "s # cstr v r" 0 None] assms(1) by auto
  have "needle_hit s [47, 92] 0 2 = Some True" using needle_hit_iff[of 0 2 "[47, 92]" s] assms(2) by auto
  then show ?thesis using f assms str_rchrs_none[of v r "Suc (length u)" "Some (length u)"]
    by (simp add: str_rchrs_def cstr_def)
qed

text \<open>Trailing separators are cut off one by one.\<close>

lemma path_basename_eq:
  assumes "nonul (d @ b)" "b \<noteq> []" "\<forall>x\<in>set b. x \<noteq> 47 \<and> x \<noteq> 92" "d = [] \<or> last d \<in> {47, 92}"
  shows "\<exists>r'. path_basename (cstr (d @ b @ replicate k 47) r) = Some (length d, cstr (d @ b) r')"
proof (induction k arbitrary: r)
  case 0
  show ?case
  proof (cases d rule: rev_cases)
    case Nil
    then have "str_rchrs (cstr b r) [47, 92] 2 = Some (length b)"
      using str_rchrs_none[of b r 0 None] assms by (simp add: str_rchrs_def)
    then show ?thesis using Nil by (subst path_basename.simps) (auto simp: cstr_def)
  next
    case (snoc u s)
    obtain y b' where b: "b = y # b'" "y \<noteq> 0" using assms(1,2) by (cases b) auto
    have "s \<noteq> 0" using assms(1) snoc by simp
    moreover have "str_rchrs (cstr (d @ b) r) [47, 92] 2 = Some (length u)"
      using str_rchrs_last[of u s b r] assms snoc by simp
    ultimately show ?thesis using snoc b by (subst path_basename.simps) (auto simp: cstr_def nth_append)
  qed
next
  case (Suc k)
  let ?u = "d @ b @ replicate k 47"
  have w: "d @ b @ replicate (Suc k) 47 = ?u @ [47]" by (simp add: replicate_append_same)
  have "nonul (?u @ [47])" using assms(1) by (auto simp: nonul_def)
  then have f: "str_rchrs (cstr (?u @ [47]) r) [47, 92] 2 = Some (length ?u)" using str_rchrs_last[of ?u 47 "[]" r] by simp
  have "(?u @ 47 # 0 # r)[length ?u := 0] = ?u @ 0 # 0 # r" by (simp only: list_update_length)
  then have "wr (cstr (?u @ [47]) r) (length ?u) 0 = Some (cstr ?u (0 # r))" by (simp add: wr_def cstr_def)
  then show ?case using Suc.IH[of "0 # r"] f assms(2) unfolding w
    by (subst path_basename.simps) (simp add: cstr_def nth_append)
qed

lemma dirname_trim_eq: "d = [] \<or> last d \<noteq> 47 \<Longrightarrow> dirname_trim (d @ replicate k 47 @ r) (length d + k) = Some (length d)"
proof (induction k arbitrary: r)
  case 0
  then show ?case by (cases d rule: rev_cases) (auto simp: path_issep_def nth_append)
next
  case (Suc k)
  have "d @ replicate (Suc k) 47 @ r = d @ replicate k 47 @ (47 # r)"
    using replicate_append_same[of k "47 :: byte"] by (metis append_Cons append_assoc append_Nil replicate_Suc)
  then show ?case using Suc.IH[of "47 # r"] Suc.prems by (simp add: path_issep_def nth_append)
qed

lemma path_dirname_granted:
  assumes "grants al" "sa_is dir w" "d = [] \<or> last d \<noteq> 47" "nonul (d @ b)" "\<forall>x\<in>set b. x \<noteq> 47 \<and> x \<noteq> 92" "length d + 1 < sa_max"
  shows "\<exists>dir'. path_dirname al (Some (cstr (d @ replicate (Suc k) 47 @ b) r)) dir = Some dir' \<and> sa_is dir' d \<and> (\<exists>r. sa_mem dir' = cstr d r)"
proof -
  let ?p = "cstr (d @ replicate (Suc k) 47 @ b) r" and ?u = "d @ replicate k 47"
  have p: "d @ replicate (Suc k) 47 @ b = ?u @ 47 # b"
    by (metis append_Cons append_assoc append_Nil replicate_Suc replicate_append_same)
  have "nonul (?u @ 47 # b)" using assms(4) by (auto simp: nonul_def)
  then have i: "str_rchrs ?p [47, 92] 2 = Some (length ?u)" using str_rchrs_last[of ?u 47 b r] assms(5) p by simp
  have c: "rd ?p (length ?u) = Some 47" unfolding p cstr_def by (simp add: nth_append rd_def)
  have t: "dirname_trim ?p (length ?u) = Some (length d)"
    using dirname_trim_eq[OF assms(3), of k "47 # b @ 0 # r"] unfolding p cstr_def by simp
  obtain d1 where d1: "stralloc_copyb al (stralloc_zero dir) ?p (of_nat (length d)) = Some (True, d1)" "sa_is d1 d"
    using copyb_granted[OF assms(1) stralloc_zero_is[OF assms(2)], of d "replicate (Suc k) 47 @ b @ 0 # r"] assms(6)
    by (auto simp: cstr_def)
  obtain d2 where "stralloc_nul al d1 = Some (True, d2)" "sa_is d2 d" "\<exists>r. sa_mem d2 = cstr d r"
    using nul_granted[OF assms(1) d1(2)] assms(6) by auto
  then show ?thesis using i c t d1(1) by (auto simp: path_dirname_def Let_def)
qed

lemma undot_name: "47 \<notin> set b \<Longrightarrow> undot b = b"
  using set_take_subset[of 2 b] by (auto simp: undot_def)

lemma undot_joined:
  assumes "comps cs" "cs = [] \<or> hd cs \<noteq> [46]"
  shows "undot (joined 47 cs) = joined 47 cs"
proof (rule ccontr)
  assume "undot (joined 47 cs) \<noteq> joined 47 cs"
  then obtain y where y: "joined 47 cs = 46 # 47 # y"
    by (cases "joined 47 cs" rule: remdups_adj.cases) (auto simp: undot_def split: if_splits)
  then obtain c cs' where c: "cs = c # cs'" by (cases cs) auto
  then show False using y assms by (cases c; cases "tl c"; cases cs') (auto simp: joined_led item_ok_def)
qed

text \<open>
  C25. Directory, name and joining fit together: for a relative path of at least two components joined by
  single slashes, the first of which is not \<open>.\<close> and the last of which holds no backslash,
  \<open>path_dirname\<close> gives all but the last, \<open>path_basename\<close> the last, and \<open>path_concat\<close> makes the path
  of them again.
\<close>
theorem path_taken_apart_and_joined:
  assumes "grants al" "sa_is dir v" "sa_is out w" "comps (cs @ [b])" "cs \<noteq> []" "hd cs \<noteq> [46]" "92 \<notin> set b"
    and "nonul (joined 47 (cs @ [b]))" "length (joined 47 (cs @ [b])) + 4 < sa_max"
  shows "\<exists>dir' off x' out'. path_dirname al (Some (cstr (joined 47 (cs @ [b])) r)) dir = Some dir' \<and> sa_is dir' (joined 47 cs) \<and>
    path_basename (cstr (joined 47 (cs @ [b])) r) = Some (off, x') \<and>
    path_concat al (sa_mem dir') (unat (sa_len dir')) (drop off x') (length b) out = Some out' \<and> sa_is out' (joined 47 (cs @ [b]))"
proof -
  have j: "joined 47 (cs @ [b]) = joined 47 cs @ 47 # b" using assms(5) by (simp add: joined_snoc)
  have b: "b \<noteq> []" "\<forall>x\<in>set b. x \<noteq> 47 \<and> x \<noteq> 92" using assms(4,7) by (auto simp: item_ok_def)
  have l: "joined 47 cs \<noteq> []" "last (joined 47 cs) \<noteq> 47"
  proof -
    obtain ds d where cs: "cs = ds @ [d]" using assms(5) by (cases cs rule: rev_cases) auto
    then have d: "d \<noteq> []" "47 \<notin> set d" using assms(4) by (auto simp: item_ok_def)
    then have "last d \<noteq> 47" using last_in_set[OF d(1)] by metis
    then show "joined 47 cs \<noteq> []" "last (joined 47 cs) \<noteq> 47" using cs d by (simp_all add: joined_snoc)
  qed
  obtain dir' q where dir': "path_dirname al (Some (cstr (joined 47 (cs @ [b])) r)) dir = Some dir'"
    "sa_is dir' (joined 47 cs)" "sa_mem dir' = joined 47 cs @ q"
    using path_dirname_granted[OF assms(1,2), of "joined 47 cs" b 0 r] l b(2) assms(8,9) j by (auto simp: cstr_def)
  obtain x' where x': "path_basename (cstr (joined 47 (cs @ [b])) r) = Some (length (joined 47 cs @ [47]), cstr (joined 47 (cs @ [b])) x')"
    using path_basename_eq[of "joined 47 cs @ [47]" b 0 r] assms(8) b j by auto
  have u: "undot (joined 47 cs) = joined 47 cs" "undot b = b" "undot (joined 47 (cs @ [b])) = joined 47 (cs @ [b])"
    using undot_joined[of cs] undot_joined[of "cs @ [b]"] undot_name[of b] assms(4-6) b by auto
  have d: "drop (length (joined 47 cs @ [47])) (cstr (joined 47 (cs @ [b])) x') = b @ 0 # x'" by (simp add: cstr_def j)
  have n: "unat (sa_len dir') = length (joined 47 cs)" by (rule sa_is_len) fact
  obtain out' where "path_concat al (joined 47 cs @ q) (length (joined 47 cs)) (b @ 0 # x') (length b) out = Some out'"
    "sa_is out' (joined 47 (cs @ [b]))"
    using path_concat_granted[OF assms(1,3), of "joined 47 cs" b q "0 # x'"] assms(9) u l j by (auto simp: put_sep_def)
  then show ?thesis using dir' x' d n by auto
qed

theorem path_taken_apart_and_joined_witness:
  "\<exists>dir' off x' out'. path_dirname plenty (Some (cstr [97, 47, 98] [])) \<lparr>sa_s = None, sa_len = 0, sa_a = 0\<rparr> = Some dir' \<and>
    sa_is dir' [97] \<and> path_basename (cstr [97, 47, 98] []) = Some (off, x') \<and>
    path_concat plenty (sa_mem dir') (unat (sa_len dir')) (drop off x') 1 \<lparr>sa_s = None, sa_len = 0, sa_a = 0\<rparr> = Some out' \<and>
    sa_is out' [97, 47, 98]"
proof -
  have g: "grants plenty" by simp
  have e: "sa_is \<lparr>sa_s = None, sa_len = 0, sa_a = 0\<rparr> []" by (simp add: sa_is_def sa_wf_def sa_text_def sa_mem_def)
  show ?thesis using path_taken_apart_and_joined[OF g e e, of "[[97]]" "[98]" "[]"]
    by (simp add: item_ok_def sa_max_def)
qed

text \<open>
  The directory of \<open>/\<close> comes out empty and that of \<open>/usr/\<close> as \<open>/usr\<close>, where the table in the
  comment of \<open>path_dirname\<close> has \<open>/\<close> for both.
\<close>

theorem path_dirname_not_as_documented:
  "(\<exists>dir. path_dirname plenty (Some (cstr [47] [])) \<lparr>sa_s = None, sa_len = 0, sa_a = 0\<rparr> = Some dir \<and> sa_is dir []) \<and>
   (\<exists>dir. path_dirname plenty (Some (cstr [47, 117, 115, 114, 47] [])) \<lparr>sa_s = None, sa_len = 0, sa_a = 0\<rparr> = Some dir \<and>
     sa_is dir [47, 117, 115, 114])"
proof -
  have g: "grants plenty" by simp
  have e: "sa_is \<lparr>sa_s = None, sa_len = 0, sa_a = 0\<rparr> []" by (simp add: sa_is_def sa_wf_def sa_text_def sa_mem_def)
  have "\<exists>dir. path_dirname plenty (Some (cstr [47] [])) \<lparr>sa_s = None, sa_len = 0, sa_a = 0\<rparr> = Some dir \<and> sa_is dir []"
    using path_dirname_granted[OF g e, of "[]" "[]" 0 "[]"] by (auto simp: sa_max_def)
  moreover have "\<exists>dir. path_dirname plenty (Some (cstr [47, 117, 115, 114, 47] [])) \<lparr>sa_s = None, sa_len = 0, sa_a = 0\<rparr> = Some dir \<and>
     sa_is dir [47, 117, 115, 114]"
    using path_dirname_granted[OF g e, of "[47, 117, 115, 114]" "[]" 0 "[]"] by (auto simp: sa_max_def)
  ultimately show ?thesis by blast
qed

end
