(* ===== verification/Canonical.thy ===== *)
theory Canonical
  imports Path
begin

text \<open>
  Canonical paths (\<open>path_canonicalize\<close>, \<open>path_realpath\<close> of \<open>src/lib/path\<close>): the path is copied
  component by component, \<open>.\<close> and \<open>..\<close> are resolved on the way, and every prefix that is a symbolic
  link is replaced by its target.

  The file system is a parameter: for each path, whether \<open>stat\<close> and \<open>lstat\<close> succeed, whether it is
  a link, and what \<open>readlink\<close> reads.  \<open>path\<close> points into the argument or, after an absolute link,
  into the local array \<open>buf\<close>, which the same function goes on writing to; so the pointer says which of the
  two it is in.  What \<open>buf\<close> holds at first is a parameter, too.  The function calls itself for relative
  links and need not return for a cycle of links.
\<close>

record filesys =
  fs_stat :: "byte list \<Rightarrow> bool"
  fs_lstat :: "byte list \<Rightarrow> bool"
  fs_islnk :: "byte list \<Rightarrow> bool"
  fs_target :: "byte list \<Rightarrow> byte list option"

definition is_link :: "filesys \<Rightarrow> byte list \<Rightarrow> bool" where
  "is_link fs path = (fs_lstat fs path \<and> fs_islnk fs path)"

datatype cursor = Arg nat | Buf nat

fun at :: "byte list \<Rightarrow> byte list \<Rightarrow> cursor \<Rightarrow> byte list" where
  "at arg buf (Arg i) = drop i arg"
| "at arg buf (Buf i) = drop i buf"

fun advance :: "cursor \<Rightarrow> nat \<Rightarrow> cursor" where
  "advance (Arg i) n = Arg (i + n)"
| "advance (Buf i) n = Buf (i + n)"

text \<open>\<open>str_copyn\<close> with both pointers into one array.\<close>

fun str_copyn_within :: "byte list \<Rightarrow> nat \<Rightarrow> nat \<Rightarrow> nat \<Rightarrow> byte list option" where
  "str_copyn_within m s t 0 = wr m s 0"
| "str_copyn_within m s t (Suc n) =
     do { x \<leftarrow> rd m t;
          m \<leftarrow> wr m s x;
          if x = 0 then Some m else str_copyn_within m (Suc s) (Suc t) n }"

definition canon_rest :: "byte list \<Rightarrow> byte list \<Rightarrow> nat \<Rightarrow> cursor \<Rightarrow> byte list option" where
  "canon_rest arg buf n cur =
     (case cur of
        Arg i \<Rightarrow> map_option fst (str_copyn_loop buf n (drop i arg) (PATH_MAX - n))
      | Buf i \<Rightarrow> str_copyn_within buf n i (PATH_MAX - n))"

definition canon_enter :: "allocator \<Rightarrow> byte list \<Rightarrow> stralloc \<Rightarrow> (nat \<times> stralloc \<times> byte) option" where
  "canon_enter al path sa =
     do { c \<leftarrow> rd path 0;
          if path_issep c then do { (_, sa) \<leftarrow> stralloc_catc al sa c; Some (1, sa, c) }
          else Some (0, sa, PATHSEP_C) }"

text \<open>The separators in front of a component; they are all the same.\<close>

fun canon_seps :: "byte list \<Rightarrow> byte \<Rightarrow> (nat \<times> byte) option" where
  "canon_seps [] sep = None"
| "canon_seps (c # s) sep =
     (if path_issep c then map_option (\<lambda>(n, sep). (Suc n, sep)) (canon_seps s c) else Some (0, sep))"

datatype dots = Name | Here | Up

definition canon_dots :: "byte list \<Rightarrow> dots option" where
  "canon_dots s =
     do { a \<leftarrow> rd s 0;
          if a \<noteq> 46 then Some Name
          else do {
            b \<leftarrow> rd s 1;
            if path_issep b \<or> b = 0 then Some Here
            else if b \<noteq> 46 then Some Name
            else do { c \<leftarrow> rd s 2; Some (if path_issep c \<or> c = 0 then Up else Name) } } }"

definition canon_component :: "allocator \<Rightarrow> byte list \<Rightarrow> stralloc \<Rightarrow> byte \<Rightarrow> (nat \<times> stralloc) option" where
  "canon_component al s sa sep =
     do { sa \<leftarrow> (if sa_len sa \<noteq> 0 then
                   do { c \<leftarrow> rd (sa_mem sa) (unat (sa_len sa - 1));
                        if c \<noteq> 47 \<and> c \<noteq> 92 then map_option snd (stralloc_catc al sa sep) else Some sa }
                 else Some sa);
          n \<leftarrow> path_len_s s;
          (_, sa) \<leftarrow> stralloc_catb al sa s (of_nat n);
          drive \<leftarrow> (if n = 2 then map_option (\<lambda>c. c = 58) (rd s 1) else Some False);
          (_, sa) \<leftarrow> (if drive then stralloc_catc al sa sep else Some (True, sa));
          (_, sa) \<leftarrow> stralloc_nul al sa;
          Some (n, sa) }"

text \<open>
  What a component does to the loop: the function returns, the loop goes on with new values of its
  variables, or the function calls itself on \<open>buf\<close> and goes on after that.
\<close>

datatype canon_act =
    Return int stralloc
  | Continue "byte list" cursor stralloc byte int
  | Recurse "byte list" nat stralloc byte cursor byte int

definition canon_finish :: "allocator \<Rightarrow> stralloc \<Rightarrow> byte \<Rightarrow> int \<Rightarrow> canon_act option" where
  "canon_finish al sa sep ret =
     do { (_, sa) \<leftarrow> (if sa_len sa = 0 then stralloc_catc al sa sep else Some (True, sa)); Some (Return ret sa) }"

definition canon_link :: "allocator \<Rightarrow> byte list option \<Rightarrow> byte list \<Rightarrow> byte list \<Rightarrow> cursor \<Rightarrow> stralloc \<Rightarrow> byte \<Rightarrow> int \<Rightarrow> canon_act option" where
  "canon_link al target arg buf path sa sep ret =
     (case target of
        None \<Rightarrow> Some (Return 0 sa)
      | Some t \<Rightarrow>
          do { let n = min (length t) PATH_MAX;
               let buf = splice buf 0 (take PATH_MAX t);
               abs \<leftarrow> path_is_absolute buf;
               if abs then
                 do { buf \<leftarrow> canon_rest arg buf n path;
                      (_, sa) \<leftarrow> stralloc_catc al (stralloc_zero sa) sep;
                      Some (Continue buf (Buf 0) sa sep ret) }
               else
                 do { l \<leftarrow> path_right (sa_mem sa) (sa_len sa);
                      buf \<leftarrow> wr buf n 0;
                      (i, sa, sep') \<leftarrow> canon_enter al buf (sa\<lparr>sa_len := l\<rparr>);
                      Some (Recurse buf i sa sep' path sep ret) } })"

definition canon_name :: "filesys \<Rightarrow> allocator \<Rightarrow> bool \<Rightarrow> byte list \<Rightarrow> byte list \<Rightarrow> cursor \<Rightarrow> stralloc \<Rightarrow> byte \<Rightarrow> int \<Rightarrow> canon_act option" where
  "canon_name fs al symbolic arg buf path sa sep ret =
     do { (n, sa) \<leftarrow> canon_component al (at arg buf path) sa sep;
          let path = advance path n;
          len \<leftarrow> str_len (sa_mem sa);
          let name = take len (sa_mem sa);
          if (if symbolic then fs_lstat fs name else fs_stat fs name) \<and> is_link fs name
          then canon_link al (fs_target fs name) arg buf path sa sep (ret + 1)
          else Some (Continue buf path sa sep ret) }"

definition canon_step :: "filesys \<Rightarrow> allocator \<Rightarrow> bool \<Rightarrow> byte list \<Rightarrow> byte list \<Rightarrow> cursor \<Rightarrow> stralloc \<Rightarrow> byte \<Rightarrow> int \<Rightarrow> canon_act option" where
  "canon_step fs al symbolic arg buf path sa sep ret =
     do { c \<leftarrow> rd (at arg buf path) 0;
          if c = 0 then canon_finish al sa sep ret
          else do {
            (k, sep) \<leftarrow> canon_seps (at arg buf path) sep;
            let path = advance path k;
            what \<leftarrow> canon_dots (at arg buf path);
            case what of
              Here \<Rightarrow> Some (Continue buf (advance path 1) sa sep ret)
            | Up \<Rightarrow>
                do { l \<leftarrow> path_right (sa_mem sa) (sa_len sa);
                     Some (Continue buf (advance path 2) (sa\<lparr>sa_len := l\<rparr>) sep ret) }
            | Name \<Rightarrow>
                do { c \<leftarrow> rd (at arg buf path) 0;
                     if c = 0 then canon_finish al sa sep ret
                     else canon_name fs al symbolic arg buf path sa sep ret } } }"

partial_function (option) canon_loop ::
  "filesys \<Rightarrow> allocator \<Rightarrow> byte list \<Rightarrow> bool \<Rightarrow> byte list \<Rightarrow> byte list \<Rightarrow> cursor \<Rightarrow> stralloc \<Rightarrow> byte \<Rightarrow> int \<Rightarrow> (int \<times> stralloc) option" where
  "canon_loop fs al junk symbolic arg buf path sa sep ret =
     do { act \<leftarrow> canon_step fs al symbolic arg buf path sa sep ret;
          case act of
            Return r sa \<Rightarrow> Some (r, sa)
          | Continue buf path sa sep ret \<Rightarrow> canon_loop fs al junk symbolic arg buf path sa sep ret
          | Recurse buf i sa sep' path sep ret \<Rightarrow>
              do { (rret, sa) \<leftarrow> canon_loop fs al junk symbolic buf junk (Arg i) sa sep' 1;
                   if rret = 0 then Some (0, sa)
                   else canon_loop fs al junk symbolic arg buf path sa sep ret } }"

definition path_canonicalize :: "filesys \<Rightarrow> allocator \<Rightarrow> byte list \<Rightarrow> byte list \<Rightarrow> stralloc \<Rightarrow> bool \<Rightarrow> (int \<times> stralloc) option" where
  "path_canonicalize fs al junk path sa symbolic =
     do { (i, sa, sep) \<leftarrow> canon_enter al path sa;
          canon_loop fs al junk symbolic path junk (Arg i) sa sep 1 }"

text \<open>\<open>tmpcwd\<close> is the static string of \<open>path_realpath\<close>, \<open>cwd\<close> its argument.\<close>

definition path_realpath ::
  "filesys \<Rightarrow> allocator \<Rightarrow> byte list \<Rightarrow> byte list \<Rightarrow> byte list \<Rightarrow> stralloc \<Rightarrow> bool \<Rightarrow> stralloc option \<Rightarrow> stralloc \<Rightarrow> (int \<times> stralloc) option" where
  "path_realpath fs al junk dir path sa symbolic cwd tmpcwd =
     do { cwd \<leftarrow> (case cwd of
                    Some c \<Rightarrow> Some c
                  | None \<Rightarrow> do { t \<leftarrow> path_getcwd al dir tmpcwd; map_option snd (stralloc_nul al t) });
          abs \<leftarrow> path_is_absolute path;
          if \<not> abs \<and> sa_len sa = 0 then
            do { n \<leftarrow> str_len path;
                 if sa_len cwd + of_nat n + 1 > of_nat PATH_MAX then Some (0, sa)
                 else do {
                   buf \<leftarrow> byte_copy junk 0 (unat (sa_len cwd)) (sa_mem cwd) 0;
                   buf \<leftarrow> wr buf (unat (sa_len cwd)) PATHSEP_C;
                   buf \<leftarrow> byte_copy buf (unat (sa_len cwd) + 1) (n + 1) path 0;
                   path_canonicalize fs al junk buf sa symbolic } }
          else path_canonicalize fs al junk path sa symbolic }"

subsection \<open>The parts of a round\<close>

definition plain_comps :: "byte list list \<Rightarrow> bool" where
  "plain_comps cs \<longleftrightarrow> comps cs \<and> list_all (\<lambda>c. nonul c \<and> 92 \<notin> set c \<and> (\<forall>x. c \<noteq> [x, 58])) cs"

lemma plain_comps_Cons [simp]:
  "plain_comps (c # cs) \<longleftrightarrow> item_ok 47 c \<and> nonul c \<and> 92 \<notin> set c \<and> (\<forall>x. c \<noteq> [x, 58]) \<and> plain_comps cs"
  by (auto simp: plain_comps_def)

lemma plain_comps_append [simp]: "plain_comps (cs @ ds) \<longleftrightarrow> plain_comps cs \<and> plain_comps ds"
  by (auto simp: plain_comps_def)

lemma plain_comps_Nil [simp]: "plain_comps []"
  by (simp add: plain_comps_def)

lemma canon_seps_at:
  assumes "item_ok 47 c" "pre = [] \<or> pre = [47]"
  shows "canon_seps (pre @ c @ s) 47 = Some (length pre, 47)"
  using assms by (cases c) (auto simp: item_ok_def path_issep_def)

lemma canon_dots_at:
  assumes "item_ok 47 c" "nonul c"
  shows "canon_dots (c @ led cs @ 0 # r) = Some (if c = [46] then Here else if c = [46, 46] then Up else Name)"
proof -
  consider a where "c = [a]" | a b where "c = [a, b]" | a b d c' where "c = a # b # d # c'"
    using assms(1) by (cases c rule: remdups_adj.cases; cases "tl (tl c)") (auto simp: item_ok_def)
  then show ?thesis using assms
    by cases (cases cs; auto simp: canon_dots_def path_issep_def item_ok_def)+
qed

lemma path_len_s_at:
  assumes "item_ok 47 c" "nonul c"
  shows "path_len_s (c @ led cs @ 0 # r) = Some (length c)"
proof -
  have "47 \<notin> set c" using assms(1) by (simp add: item_ok_def)
  then show ?thesis using assms(2) by (induction c) (cases cs, auto simp: path_issep_def)
qed

lemma right_while_all:
  assumes "\<forall>x\<in>set d. f x"
  shows "right_while f (v @ d @ q) (length v + length d) = right_while f (v @ d @ q) (length v)"
  using assms
proof (induction d arbitrary: q rule: rev_induct)
  case (snoc x d)
  then show ?case using snoc.IH[of "x # q"] by (simp add: nth_append)
qed simp

lemma path_right_at:
  assumes "sa_is sa w" "w = v @ 47 # d" "d \<noteq> []" "47 \<notin> set d"
  shows "path_right (sa_mem sa) (sa_len sa) = Some (of_nat (length v))"
proof -
  obtain q where m: "sa_mem sa = w @ q" using sa_is_mem[OF assms(1)] by blast
  have n: "unat (sa_len sa) = length w" by (rule sa_is_len) fact
  obtain d' x where d: "d = d' @ [x]" "x \<noteq> 47" using assms(3,4) by (cases d rule: rev_cases) auto
  have "right_while path_issep (w @ q) (length w) = Some (length w)"
    using d assms(2) by (simp add: path_issep_def nth_append)
  moreover have "right_while (\<lambda>c. \<not> path_issep c) ((v @ [47]) @ d @ q) (length (v @ [47]) + length d) =
      right_while (\<lambda>c. \<not> path_issep c) ((v @ [47]) @ d @ q) (length (v @ [47]))"
    by (rule right_while_all) (use assms(4) in \<open>auto simp: path_issep_def\<close>)
  then have "right_while (\<lambda>c. \<not> path_issep c) (w @ q) (length w) = Some (Suc (length v))"
    using assms(2) by (simp add: path_issep_def nth_append)
  ultimately show ?thesis by (simp add: path_right_def m n)
qed

lemma path_right_none:
  assumes "sa_is sa w" "47 \<notin> set w \<or> w = [47]"
  shows "path_right (sa_mem sa) (sa_len sa) = Some (- 1)"
proof -
  obtain q where m: "sa_mem sa = w @ q" using sa_is_mem[OF assms(1)] by blast
  have n: "unat (sa_len sa) = length w" by (rule sa_is_len) fact
  have "\<exists>k. right_while path_issep (w @ q) (length w) = Some k \<and> right_while (\<lambda>c. \<not> path_issep c) (w @ q) k = Some 0"
  proof (cases "w = [47]")
    case True
    then show ?thesis by (simp add: path_issep_def)
  next
    case False
    then have no: "\<forall>x\<in>set w. \<not> path_issep x" using assms(2) by (auto simp: path_issep_def)
    then have "right_while path_issep (w @ q) (length w) = Some (length w)"
      by (cases w rule: rev_cases) (auto simp: nth_append)
    then show ?thesis using right_while_all[of w "\<lambda>c. \<not> path_issep c" "[]" q] no by simp
  qed
  then show ?thesis by (auto simp: path_right_def m n)
qed

lemma canon_component_at:
  assumes "grants al" "sa_is sa w" "plain_comps [c]" "length w + length c + 3 < sa_max" "last w \<noteq> 92 \<or> w = []"
  shows "\<exists>sa'. canon_component al (c @ led cs @ 0 # r) sa 47 = Some (length c, sa') \<and>
    sa_is sa' (put_sep w @ c) \<and> (\<exists>q. sa_mem sa' = cstr (put_sep w @ c) q)"
proof -
  have c: "item_ok 47 c" "nonul c" "\<not> (length c = 2 \<and> c ! 1 = 58)"
    using assms(3) by (auto simp: length_Suc_conv numeral_eq_Suc)
  obtain sa1 where sa1: "(if sa_len sa \<noteq> 0 then
                   do { c \<leftarrow> rd (sa_mem sa) (unat (sa_len sa - 1));
                        if c \<noteq> 47 \<and> c \<noteq> 92 then map_option snd (stralloc_catc al sa 47) else Some sa }
                 else Some sa) = Some sa1" "sa_is sa1 (put_sep w)"
  proof (cases w rule: rev_cases)
    case Nil
    then have "sa_len sa = 0" using sa_is_len[OF assms(2)] by (simp add: unat_eq_zero)
    then show ?thesis using that assms(2) Nil by (simp add: put_sep_def)
  next
    case (snoc v y)
    obtain q where m: "sa_mem sa = w @ q" using sa_is_mem[OF assms(2)] by blast
    have "sa_len sa \<noteq> 0" using sa_is_len[OF assms(2)] snoc by auto
    moreover have "unat (sa_len sa - 1) = length v" using sa_len_minus[OF assms(2), of 1] snoc by simp
    moreover obtain sa2 where "stralloc_catc al sa 47 = Some (True, sa2)" "sa_is sa2 (w @ [47])"
      using catc_granted[OF assms(1,2), of 47] assms(4) by auto
    ultimately show ?thesis using that[of sa] that[of sa2] assms(2,5) m snoc
      by (cases "y = 47") (simp_all add: put_sep_def nth_append)
  qed
  have len: "length (put_sep w) \<le> Suc (length w)" by (simp add: put_sep_def)
  obtain sa2 where sa2: "stralloc_catb al sa1 (c @ led cs @ 0 # r) (of_nat (length c)) = Some (True, sa2)" "sa_is sa2 (put_sep w @ c)"
    using catb_granted[OF assms(1) sa1(2), of c "led cs @ 0 # r"] assms(4) len by auto
  obtain sa3 where "stralloc_nul al sa2 = Some (True, sa3)" "sa_is sa3 (put_sep w @ c)" "\<exists>q. sa_mem sa3 = cstr (put_sep w @ c) q"
    using nul_granted[OF assms(1) sa2(2)] assms(4) len by auto
  moreover have "(if length c = 2 then map_option (\<lambda>c. c = 58) (rd (c @ led cs @ 0 # r) 1) else Some False) = Some False"
    using c(3) by (auto simp: nth_append rd_def)
  ultimately show ?thesis using sa1(1) sa2(1) path_len_s_at[OF c(1,2), of cs r] by (simp add: canon_component_def)
qed

text \<open>One component of the argument, where no path is a link.\<close>

lemma canon_step_at:
  fixes buf :: "byte list" and ret :: int
  assumes "grants al" "\<forall>p. \<not> fs_islnk fs p" "plain_comps (c # cs)" "pre = [] \<or> pre = [47]" "sa_is sa w"
    and "drop k arg = pre @ c @ led cs @ 0 # r" "length w + length c + 3 < sa_max" "w = [] \<or> last w \<noteq> 92" "nonul w"
  defines "go \<equiv> \<lambda>sa'. Some (Continue buf (Arg (k + length pre + length c)) sa' 47 ret)"
  shows "c = [46] \<Longrightarrow> canon_step fs al symbolic arg buf (Arg k) sa 47 ret = go sa"
    and "c = [46, 46] \<Longrightarrow> canon_step fs al symbolic arg buf (Arg k) sa 47 ret =
      do { l \<leftarrow> path_right (sa_mem sa) (sa_len sa); go (sa\<lparr>sa_len := l\<rparr>) }"
    and "c \<noteq> [46] \<Longrightarrow> c \<noteq> [46, 46] \<Longrightarrow>
      \<exists>sa'. canon_step fs al symbolic arg buf (Arg k) sa 47 ret = go sa' \<and> sa_is sa' (put_sep w @ c)"
proof -
  have c: "item_ok 47 c" "nonul c" "plain_comps [c]" using assms(3) by simp_all
  obtain y c' where y: "c = y # c'" "y \<noteq> 0" using c by (cases c) (auto simp: item_ok_def)
  have k: "drop (k + length pre) arg = c @ led cs @ 0 # r" using assms(6) by (metis append_eq_conv_conj drop_drop add.commute)
  have first: "rd (drop k arg) 0 \<noteq> Some 0" "rd (drop k arg) 0 \<noteq> None" "rd (drop (k + length pre) arg) 0 = Some y"
    using assms(4,6) y k by auto
  note parts = canon_seps_at[OF c(1) assms(4), of "led cs @ 0 # r", folded assms(6)] canon_dots_at[OF c(1,2), of cs r, folded k]
  show "canon_step fs al symbolic arg buf (Arg k) sa 47 ret = go sa" if "c = [46]"
    using that first parts by (auto simp: canon_step_def go_def Let_def simp del: drop_drop)
  show "canon_step fs al symbolic arg buf (Arg k) sa 47 ret = do { l \<leftarrow> path_right (sa_mem sa) (sa_len sa); go (sa\<lparr>sa_len := l\<rparr>) }"
    if "c = [46, 46]"
    using that first parts by (auto simp: canon_step_def go_def Let_def numeral_2_eq_2 simp del: drop_drop)
  assume n: "c \<noteq> [46]" "c \<noteq> [46, 46]"
  obtain sa' q where sa': "canon_component al (c @ led cs @ 0 # r) sa 47 = Some (length c, sa')" "sa_is sa' (put_sep w @ c)"
    "sa_mem sa' = cstr (put_sep w @ c) q"
    using canon_component_at[OF assms(1,5) c(3) assms(7), of cs r] assms(8) by auto
  have "str_len (sa_mem sa') \<noteq> None" using sa'(3) c(2) assms(9) by (auto simp: put_sep_def)
  then have "canon_step fs al symbolic arg buf (Arg k) sa 47 ret = go sa'"
    using n first parts sa'(1)[folded k] y(2) assms(2)
    by (auto simp: canon_step_def canon_name_def go_def Let_def is_link_def simp del: drop_drop)
  then show "\<exists>sa'. canon_step fs al symbolic arg buf (Arg k) sa 47 ret = go sa' \<and> sa_is sa' (put_sep w @ c)"
    using sa'(2) by blast
qed

subsection \<open>Whole paths\<close>

text \<open>Every \<open>..\<close> meets at least two components.\<close>

fun ups_ok :: "byte list list \<Rightarrow> byte list list \<Rightarrow> bool" where
  "ups_ok st [] \<longleftrightarrow> True"
| "ups_ok st (c # cs) \<longleftrightarrow>
     (if c = [46, 46] then 2 \<le> length st \<and> ups_ok (butlast st) cs
      else ups_ok (if c = [46] then st else st @ [c]) cs)"

lemma last_joined:
  assumes "comps st" "st \<noteq> []"
  shows "joined 47 st \<noteq> []" "last (joined 47 st) = last (last st)" "last (joined 47 st) \<noteq> 47"
proof -
  obtain ds d where st: "st = ds @ [d]" using assms(2) by (cases st rule: rev_cases) auto
  then have d: "d \<noteq> []" "47 \<notin> set d" using assms(1) by (auto simp: item_ok_def)
  then have "last d \<noteq> 47" using last_in_set[OF d(1)] by metis
  then show "joined 47 st \<noteq> []" "last (joined 47 st) = last (last st)" "last (joined 47 st) \<noteq> 47"
    using st d by (simp_all add: joined_snoc)
qed

lemma plain_text:
  assumes "plain_comps st" "pre = [] \<or> pre = [47]"
  defines "w \<equiv> pre @ joined 47 st"
  shows "nonul w" "w = [] \<or> last w \<noteq> 92" "put_sep w @ c = pre @ joined 47 (st @ [c])"
proof -
  have st: "comps st" "\<forall>c\<in>set st. nonul c \<and> 92 \<notin> set c" using assms(1) by (auto simp: plain_comps_def list_all_iff)
  then have "nonul (joined 47 st)" by (induction st) (auto simp: joined_Cons)
  then show "nonul w" using assms(2) by (auto simp: w_def)
  have "(w = [] \<or> last w \<noteq> 92) \<and> put_sep w @ c = pre @ joined 47 (st @ [c])"
  proof (cases "st = []")
    case True
    then show ?thesis using assms(2) by (auto simp: w_def put_sep_def)
  next
    case False
    note l = last_joined[OF st(1) False]
    have "last st \<in> set st" "last st \<noteq> []" using False st(1) by (auto simp: list_all_iff item_ok_def)
    then have "last (last st) \<noteq> 92" using st(2) last_in_set[of "last st"] by metis
    then show ?thesis using l False by (simp add: w_def put_sep_def joined_snoc)
  qed
  then show "w = [] \<or> last w \<noteq> 92" "put_sep w @ c = pre @ joined 47 (st @ [c])" by blast+
qed

lemma sa_is_front:
  assumes "sa_is sa (v @ w)"
  shows "sa_is (sa\<lparr>sa_len := of_nat (length v)\<rparr>) v"
proof -
  have "unat (of_nat (length v) :: uint64) = length v"
    using sa_is_len[OF assms] unat_lt_2p[of "sa_len sa"] by (intro unat_small64) simp
  then show ?thesis using sa_is_cut[OF assms, of "of_nat (length v)"] by simp
qed

lemma canon_loop_eq:
  assumes "grants al" "\<forall>p. \<not> fs_islnk fs p" "plain_comps (st @ cs)" "pre = [] \<or> pre = [47]" "lead = [] \<or> lead = [47]"
    and "sa_is sa (pre @ joined 47 st)" "drop k arg = (if cs = [] then [] else lead @ joined 47 cs) @ 0 # r"
    and "ups_ok st cs" "length (pre @ joined 47 st) + length (led cs) + 4 < sa_max"
  shows "\<exists>sa'. canon_loop fs al junk symbolic arg buf (Arg k) sa 47 ret = Some (ret, sa') \<and>
    sa_is sa' (let w = pre @ joined 47 (follow st cs) in if w = [] then [47] else w)"
  using assms
proof (induction cs arbitrary: st sa k lead)
  case Nil
  then have "rd (drop k arg) 0 = Some 0" by simp
  moreover have "\<exists>sa'. (if sa_len sa = 0 then stralloc_catc al sa 47 else Some (True, sa)) = Some (True, sa') \<and>
      sa_is sa' (let w = pre @ joined 47 st in if w = [] then [47] else w)"
    using catc_granted[OF Nil(1,6), of 47] Nil(6,9) sa_len_eq_0[OF Nil(6)] by (auto simp: Let_def)
  ultimately show ?case by (subst canon_loop.simps) (auto simp: canon_step_def canon_finish_def)
next
  case (Cons c cs)
  let ?w = "pre @ joined 47 st" and ?k = "k + length lead + length c"
  have st: "plain_comps st" "plain_comps (c # cs)" using Cons.prems(3) by simp_all
  have d: "drop k arg = lead @ c @ led cs @ 0 # r" using Cons.prems(7) by (simp add: joined_led)
  have "drop ?k arg = drop (length lead + length c) (drop k arg)" by (simp add: add.commute add.left_commute)
  also have "\<dots> = led cs @ 0 # r" by (simp add: d)
  finally have d': "drop ?k arg = (if cs = [] then [] else [47] @ joined 47 cs) @ 0 # r" by (simp add: led_joined)
  have len: "length ?w + length c + 3 < sa_max" using Cons.prems(9) by simp
  note step = canon_step_at[OF Cons.prems(1,2) st(2) Cons.prems(5,6) d len plain_text(2,1)[OF st(1) Cons.prems(4)], of symbolic buf ret]
  have go: "\<exists>sa'. canon_loop fs al junk symbolic arg buf (Arg ?k) sa1 47 ret = Some (ret, sa') \<and>
      sa_is sa' (let w = pre @ joined 47 (follow st' cs) in if w = [] then [47] else w)"
    if "plain_comps st'" "sa_is sa1 (pre @ joined 47 st')" "ups_ok st' cs"
      "length (pre @ joined 47 st') \<le> Suc (length ?w + length c)" for st' sa1
    by (rule Cons.IH[OF Cons.prems(1,2) _ Cons.prems(4) _ that(2) d' that(3)]) (use st(2) that(1,4) Cons.prems(9) in simp_all)
  consider "c = [46]" | "c = [46, 46]" | "c \<noteq> [46]" "c \<noteq> [46, 46]" by blast
  then show ?case
  proof cases
    case 1
    then show ?thesis using go[OF st(1) Cons.prems(6)] Cons.prems(8) step(1)
      by (subst canon_loop.simps) simp
  next
    case 2
    then have "2 \<le> length st" "ups_ok (butlast st) cs" using Cons.prems(8) by simp_all
    then obtain ds e where e: "st = ds @ [e]" "ds \<noteq> []" by (cases st rule: rev_cases) (auto, fastforce)
    have w: "?w = (pre @ joined 47 ds) @ 47 # e" using e by (simp add: joined_snoc)
    have ok: "plain_comps ds" "e \<noteq> []" "47 \<notin> set e" using st(1) e by (auto simp: item_ok_def)
    have "path_right (sa_mem sa) (sa_len sa) = Some (of_nat (length (pre @ joined 47 ds)))"
      by (rule path_right_at[OF Cons.prems(6) w ok(2,3)])
    moreover have "sa_is (sa\<lparr>sa_len := of_nat (length (pre @ joined 47 ds))\<rparr>) (pre @ joined 47 ds)"
      by (rule sa_is_front) (use Cons.prems(6) w in simp)
    ultimately show ?thesis using go[OF ok(1), of "sa\<lparr>sa_len := of_nat (length (pre @ joined 47 ds))\<rparr>"] step(2)[OF 2] 2 w e
        \<open>ups_ok (butlast st) cs\<close> by (subst canon_loop.simps) simp
  next
    case 3
    obtain sa' where sa': "canon_step fs al symbolic arg buf (Arg k) sa 47 ret = Some (Continue buf (Arg ?k) sa' 47 ret)"
      "sa_is sa' (pre @ joined 47 (st @ [c]))"
      using step(3)[OF 3] plain_text(3)[OF st(1) Cons.prems(4), of c] by auto
    have "length (pre @ joined 47 (st @ [c])) \<le> Suc (length ?w + length c)" by (simp add: joined_snoc)
    then show ?thesis using go[of "st @ [c]" sa'] sa' 3 st Cons.prems(8) by (subst canon_loop.simps) simp
  qed
qed

lemma canon_enter_at:
  assumes "grants al" "sa_is sa []" "plain_comps cs" "pre = [] \<or> pre = [47]"
  shows "\<exists>sa'. canon_enter al (cstr (pre @ joined 47 cs) r) sa = Some (length pre, sa', 47) \<and> sa_is sa' pre"
proof (cases "pre = []")
  case True
  have "\<exists>y. rd (cstr (joined 47 cs) r) 0 = Some y \<and> y \<noteq> 47"
  proof (cases cs)
    case (Cons c cs')
    then show ?thesis using assms(3) by (cases c) (auto simp: joined_led item_ok_def cstr_def)
  qed simp
  then show ?thesis using True assms(2) by (auto simp: canon_enter_def path_issep_def PATHSEP_C_def)
next
  case False
  then show ?thesis using catc_granted[OF assms(1,2), of 47] assms(4)
    by (auto simp: canon_enter_def path_issep_def sa_max_def)
qed

lemma canon_loop_continue:
  "canon_step fs al symbolic arg buf path sa sep ret = Some (Continue buf' path' sa' sep' ret') \<Longrightarrow>
     canon_loop fs al junk symbolic arg buf path sa sep ret = canon_loop fs al junk symbolic arg buf' path' sa' sep' ret'"
  by (subst canon_loop.simps) simp

lemma canon_loop_return:
  "canon_step fs al symbolic arg buf path sa sep ret = Some (Return n sa') \<Longrightarrow>
     canon_loop fs al junk symbolic arg buf path sa sep ret = Some (n, sa')"
  by (subst canon_loop.simps) simp

text \<open>A dot-dot with a separator before it.\<close>

lemma canon_step_up:
  assumes "grants al" "\<forall>p. \<not> fs_islnk fs p" "plain_comps cs" "sa_is sa w" "drop k arg = 47 # [46, 46] @ led cs @ 0 # r"
    and "length w + 5 < sa_max" "w = [] \<or> last w \<noteq> 92" "nonul w" "path_right (sa_mem sa) (sa_len sa) = Some l"
  shows "canon_step fs al symbolic arg buf (Arg k) sa 47 ret = Some (Continue buf (Arg (k + 3)) (sa\<lparr>sa_len := l\<rparr>) 47 ret)"
proof -
  have e: "k + length [47 :: byte] + length [46, 46 :: byte] = k + 3" by simp
  have pl: "plain_comps ([46, 46] # cs)" "[47] = [] \<or> [47 :: byte] = [47]" "drop k arg = [47] @ [46, 46] @ led cs @ 0 # r"
    "length w + length [46, 46 :: byte] + 3 < sa_max"
    using assms(3,5,6) by (simp_all add: item_ok_def)
  show ?thesis using canon_step_at(2)[OF assms(1,2) pl(1,2) assms(4) pl(3,4) assms(7,8) refl, of symbolic buf ret]
    unfolding e assms(9) by simp
qed

lemma comps_butlast: "comps st \<Longrightarrow> comps (butlast st)"
  by (cases st rule: rev_cases) simp_all

lemma comps_follow: "comps st \<Longrightarrow> comps cs \<Longrightarrow> comps (follow st cs)"
  by (induction cs arbitrary: st) (auto intro: comps_butlast)

subsection \<open>Properties\<close>

text \<open>
  C6. Canonical paths: where no path is a link and every \<open>..\<close> meets at least two components,
  \<open>path_canonicalize\<close> returns 1 and delivers the path with every \<open>.\<close> and \<open>..\<close> resolved, absolute
  when the given one is; a relative path that resolves to nothing, as \<open>.\<close> does, becomes the absolute
  path \<open>/\<close>, and any other relative path stays relative.  The components are joined by single slashes,
  hold no backslash and are not drive letters (\<open>x:\<close>).
\<close>
theorem path_canonicalize_exact:
  assumes "grants al" "\<forall>p. \<not> fs_islnk fs p" "plain_comps cs" "pre = [] \<or> pre = [47]" "sa_is sa []" "ups_ok [] cs"
    and "length (joined 47 cs) + 6 < sa_max"
  shows "\<exists>sa'. path_canonicalize fs al junk (cstr (pre @ joined 47 cs) r) sa symbolic = Some (1, sa') \<and>
    sa_is sa' (if pre = [] \<and> follow [] cs = [] then [47] else pre @ joined 47 (follow [] cs))"
proof -
  obtain sa1 where sa1: "canon_enter al (cstr (pre @ joined 47 cs) r) sa = Some (length pre, sa1, 47)" "sa_is sa1 pre"
    using canon_enter_at[OF assms(1,5,3,4)] by blast
  have l: "length (pre @ joined 47 []) + length (led cs) + 4 < sa_max"
    using assms(4,7) by (auto simp: led_joined)
  have d: "drop (length pre) (cstr (pre @ joined 47 cs) r) = (if cs = [] then [] else [] @ joined 47 cs) @ 0 # r"
    by (simp add: cstr_def)
  have "joined 47 (follow [] cs) = [] \<longleftrightarrow> follow [] cs = []"
    using last_joined(1)[OF comps_follow[of "[]" cs]] assms(3) by (auto simp: plain_comps_def)
  then show ?thesis
    using canon_loop_eq[OF assms(1,2) _ assms(4) _ _ d assms(6) l, of sa1 junk symbolic junk 1] sa1 assms(3)
    by (auto simp: path_canonicalize_def Let_def split: if_splits)
qed

theorem path_canonicalize_exact_witness:
  "(\<exists>sa'. path_canonicalize \<lparr>fs_stat = \<lambda>_. True, fs_lstat = \<lambda>_. True, fs_islnk = \<lambda>_. False, fs_target = \<lambda>_. None\<rparr>
      plenty [] (cstr [47, 97, 47, 46, 47, 98, 47, 46, 46, 47, 99] []) \<lparr>sa_s = None, sa_len = 0, sa_a = 0\<rparr> False = Some (1, sa') \<and>
    sa_is sa' [47, 97, 47, 99]) \<and>
   (\<exists>sa'. path_canonicalize \<lparr>fs_stat = \<lambda>_. True, fs_lstat = \<lambda>_. True, fs_islnk = \<lambda>_. False, fs_target = \<lambda>_. None\<rparr>
      plenty [] (cstr [46] []) \<lparr>sa_s = None, sa_len = 0, sa_a = 0\<rparr> False = Some (1, sa') \<and> sa_is sa' [47])"
proof -
  let ?fs = "\<lparr>fs_stat = \<lambda>_. True, fs_lstat = \<lambda>_. True, fs_islnk = \<lambda>_. False, fs_target = \<lambda>_. None\<rparr>"
  have g: "grants plenty" by simp
  have e: "sa_is \<lparr>sa_s = None, sa_len = 0, sa_a = 0\<rparr> []" by (simp add: sa_is_def sa_wf_def sa_text_def sa_mem_def)
  have c: "plain_comps [[97], [46], [98], [46, 46], [99]]" "plain_comps [[46]]" by (simp_all add: item_ok_def)
  show ?thesis
    using path_canonicalize_exact[OF g _ c(1) _ e, of ?fs "[47]" "[]" "[]" False]
      path_canonicalize_exact[OF g _ c(2) _ e, of ?fs "[]" "[]" "[]" False]
    by (simp add: sa_max_def)
qed

text \<open>
  C38. A \<open>..\<close> behind the first component of an absolute path takes the root away with it: the canonical form
  of \<open>/a/../b\<close> is the relative path \<open>b\<close>.
\<close>

theorem path_canonicalize_loses_root:
  assumes "grants al" "\<forall>p. \<not> fs_islnk fs p" "plain_comps [a, b]" "{a, b} \<inter> {[46], [46, 46]} = {}" "sa_is sa []"
    and "length a + length b + 12 < sa_max"
  shows "\<exists>sa'. path_canonicalize fs al junk (cstr ([47] @ joined 47 [a, [46, 46], b]) r) sa symbolic = Some (1, sa') \<and> sa_is sa' b"
proof -
  let ?arg = "cstr ([47] @ joined 47 [a, [46, 46], b]) r"
  have pl: "plain_comps [a, [46, 46], b]" "plain_comps [[46, 46], b]" "plain_comps [b]" using assms(3) by (simp_all add: item_ok_def)
  obtain sa1 where sa1: "canon_enter al ?arg sa = Some (1, sa1, 47)" "sa_is sa1 [47]"
    using canon_enter_at[OF assms(1,5) pl(1), of "[47]" r] by auto
  have d: "drop 1 ?arg = [] @ a @ led [[46, 46], b] @ 0 # r" "drop (1 + length a) ?arg = [47] @ [46, 46] @ led [b] @ 0 # r"
    by (simp_all add: cstr_def)
  have "drop (1 + length a + 3) ?arg = drop 3 (drop (1 + length a) ?arg)" by (simp only: drop_drop add.commute)
  then have d3: "drop (1 + length a + 3) ?arg = (if [b] = [] then [] else [47] @ joined 47 [b]) @ 0 # r"
    by (simp only: d(2)) simp
  obtain sa2 where sa2: "canon_step fs al symbolic ?arg junk (Arg 1) sa1 47 1 = Some (Continue junk (Arg (1 + length a)) sa2 47 1)"
    "sa_is sa2 ([47] @ a)"
    using canon_step_at(3)[OF assms(1,2) pl(1) _ sa1(2) d(1), of symbolic junk 1] assms(4,6) by (auto simp: put_sep_def)
  have a: "a \<noteq> []" "47 \<notin> set a" "nonul a" "92 \<notin> set a" using assms(3) by (auto simp: item_ok_def)
  have l: "last a \<noteq> 92" using last_in_set[OF a(1)] a(4) by metis
  have r: "path_right (sa_mem sa2) (sa_len sa2) = Some 0"
    using path_right_at[OF sa2(2), of "[]" a] a by simp
  have z: "sa_is (sa2\<lparr>sa_len := 0\<rparr>) []" using sa_is_front[of sa2 "[]" "[47] @ a"] sa2(2) by simp
  have s3: "canon_step fs al symbolic ?arg junk (Arg (1 + length a)) sa2 47 1 =
      Some (Continue junk (Arg (1 + length a + 3)) (sa2\<lparr>sa_len := 0\<rparr>) 47 1)"
    by (rule canon_step_up[OF assms(1,2) pl(3) sa2(2) _ _ _ _ r]) (use d(2) assms(6) a l in simp_all)
  have "\<exists>sa'. canon_loop fs al junk symbolic ?arg junk (Arg (1 + length a + 3)) (sa2\<lparr>sa_len := 0\<rparr>) 47 1 = Some (1, sa') \<and>
      sa_is sa' (let w = [] @ joined 47 (follow [] [b]) in if w = [] then [47] else w)"
    by (rule canon_loop_eq[OF assms(1,2) _ _ _ _ d3]) (use pl(3) z assms(4,6) in auto)
  then obtain sa' where "canon_loop fs al junk symbolic ?arg junk (Arg (1 + length a + 3)) (sa2\<lparr>sa_len := 0\<rparr>) 47 1 = Some (1, sa')"
    "sa_is sa' b" using assms(3,4) by (auto simp: item_ok_def)
  then show ?thesis using sa1(1) sa2(1) s3
    by (auto simp: path_canonicalize_def canon_loop_continue)
qed

theorem path_canonicalize_loses_root_witness:
  "\<exists>sa'. path_canonicalize \<lparr>fs_stat = \<lambda>_. True, fs_lstat = \<lambda>_. True, fs_islnk = \<lambda>_. False, fs_target = \<lambda>_. None\<rparr>
      plenty [] (cstr [47, 97, 47, 46, 46, 47, 98] []) \<lparr>sa_s = None, sa_len = 0, sa_a = 0\<rparr> False = Some (1, sa') \<and> sa_is sa' [98]"
proof -
  have g: "grants plenty" by simp
  have e: "sa_is \<lparr>sa_s = None, sa_len = 0, sa_a = 0\<rparr> []" by (simp add: sa_is_def sa_wf_def sa_text_def sa_mem_def)
  have c: "plain_comps [[97], [98]]" by (simp add: item_ok_def)
  show ?thesis
    using path_canonicalize_loses_root[OF g _ c _ e, of "\<lparr>fs_stat = \<lambda>_. True, fs_lstat = \<lambda>_. True, fs_islnk = \<lambda>_. False, fs_target = \<lambda>_. None\<rparr>" "[]" "[]" False]
    by (simp add: sa_max_def)
qed

text \<open>
  Going up from a single component gives the string the length \<open>SIZE_MAX\<close>: the canonical form of \<open>a/..\<close>
  cannot be used.
\<close>

theorem path_canonicalize_underflows:
  assumes "grants al" "\<forall>p. \<not> fs_islnk fs p" "plain_comps [a]" "a \<noteq> [46]" "a \<noteq> [46, 46]" "sa_is sa []" "length a + 12 < sa_max"
  shows "\<exists>sa'. path_canonicalize fs al junk (cstr (joined 47 [a, [46, 46]]) r) sa symbolic = Some (1, sa') \<and> sa_len sa' = - 1"
proof -
  let ?arg = "cstr (joined 47 [a, [46, 46]]) r"
  have pl: "plain_comps [a, [46, 46]]" "plain_comps [[46, 46]]" using assms(3) by (simp_all add: item_ok_def)
  obtain sa1 where sa1: "canon_enter al ?arg sa = Some (0, sa1, 47)" "sa_is sa1 []"
    using canon_enter_at[OF assms(1,6) pl(1), of "[]" r] by auto
  have d: "drop 0 ?arg = [] @ a @ led [[46, 46]] @ 0 # r" "drop (length a) ?arg = [47] @ [46, 46] @ led [] @ 0 # r"
    by (simp_all add: cstr_def)
  obtain sa2 where sa2: "canon_step fs al symbolic ?arg junk (Arg 0) sa1 47 1 = Some (Continue junk (Arg (length a)) sa2 47 1)" "sa_is sa2 a"
    using canon_step_at(3)[OF assms(1,2) pl(1) _ sa1(2) d(1), of symbolic junk 1] assms(4,5,7) by (auto simp: put_sep_def)
  have a: "a \<noteq> []" "47 \<notin> set a" "nonul a" "92 \<notin> set a" using assms(3) by (auto simp: item_ok_def)
  have l: "last a \<noteq> 92" using last_in_set[OF a(1)] a(4) by metis
  have r: "path_right (sa_mem sa2) (sa_len sa2) = Some (- 1)" by (rule path_right_none[OF sa2(2)]) (use a in simp)
  have "canon_step fs al symbolic ?arg junk (Arg (length a)) sa2 47 1 =
      Some (Continue junk (Arg (length a + 3)) (sa2\<lparr>sa_len := - 1\<rparr>) 47 1)"
    by (rule canon_step_up[OF assms(1,2) plain_comps_Nil sa2(2) _ _ _ _ r]) (use d(2) assms(7) a l in simp_all)
  moreover have "drop (length a + 3) ?arg = drop 3 (drop (length a) ?arg)" by (simp only: drop_drop add.commute)
  then have "rd (drop (length a + 3) ?arg) 0 = Some 0" by (simp only: d(2)) simp
  then have "canon_step fs al symbolic ?arg junk (Arg (length a + 3)) (sa2\<lparr>sa_len := - 1\<rparr>) 47 1 = Some (Return 1 (sa2\<lparr>sa_len := - 1\<rparr>))"
    by (simp add: canon_step_def canon_finish_def)
  ultimately show ?thesis using sa1(1) sa2(1)
    by (auto simp: path_canonicalize_def canon_loop_continue canon_loop_return)
qed

theorem path_canonicalize_underflows_witness:
  "\<exists>sa'. path_canonicalize \<lparr>fs_stat = \<lambda>_. True, fs_lstat = \<lambda>_. True, fs_islnk = \<lambda>_. False, fs_target = \<lambda>_. None\<rparr>
      plenty [] (cstr [97, 47, 46, 46] []) \<lparr>sa_s = None, sa_len = 0, sa_a = 0\<rparr> False = Some (1, sa') \<and> sa_len sa' = - 1"
proof -
  have g: "grants plenty" by simp
  have e: "sa_is \<lparr>sa_s = None, sa_len = 0, sa_a = 0\<rparr> []" by (simp add: sa_is_def sa_wf_def sa_text_def sa_mem_def)
  have c: "plain_comps [[97]]" by (simp add: item_ok_def)
  show ?thesis
    using path_canonicalize_underflows[OF g _ c _ _ e, of "\<lparr>fs_stat = \<lambda>_. True, fs_lstat = \<lambda>_. True, fs_islnk = \<lambda>_. False, fs_target = \<lambda>_. None\<rparr>" "[]" "[]" False]
    by (simp add: sa_max_def)
qed

end
