(* ===== verification/Spec2Isabelle.thy ===== *)
theory Spec2Isabelle
  imports Comparator Encodings Cescape Base64 Pack Array Cbmap Hashset Json Slist Fnmatch Canonical
begin

text \<open>
  A verification of the utility library of the \<open>dirlist\<close> repository (\<open>src/lib\<close>), a C library
  in the style of \<open>libowfat\<close> on which the directory lister \<open>list-r\<close>, the build-file generator
  \<open>genmakefile\<close> and the other programs of the repository are built.

  \<^bold>\<open>The program and its parts.\<close>  At the bottom are routines over blocks of memory
  (\<open>byte\<close>), over NUL-terminated strings (\<open>str\<close>, \<open>case\<close>) and over machine integers
  (\<open>uint16\<close>, \<open>uint32\<close>, \<open>uint64\<close>, \<open>safemult\<close>, \<open>rangecheck.h\<close>, \<open>tai\<close>,
  \<open>taia\<close>).  On them rest the formatters \<open>fmt\<close> and their inverses \<open>scan\<close>, and on these
  the text encodings \<open>textcode\<close>.  \<open>stralloc\<close> is a string that grows; \<open>buffer\<close> collects
  output for a device and input from one, and its readers fill dynamic strings.  \<open>array\<close> is a vector
  of elements of any size, \<open>strlist\<close> a list of strings with a separator.  \<open>cb\<close> and
  \<open>cbmap\<close> are crit-bit trees of keys and of keys with values, \<open>set\<close> is a hash set that doubles, \<open>hmap\<close> a hash map that keeps the order of insertion,
  \<open>dlist\<close> and \<open>slist\<close> are intrusive linked lists.  \<open>path\<close> works on file names: it takes
  them apart and joins them, makes them relative, canonical, and matches them against patterns.
  \<open>charbuf\<close> gives a parser characters to look at and to take; \<open>json\<close> is such a parser, with a printer,
  and \<open>jsonpp\<close> the program that reads a document with the one and prints it with the other.

  \<^bold>\<open>Theories.\<close>
  \<^item> \<open>Prelude\<close>: bytes and machine words, reading and storing in a block (\<open>rd\<close>, \<open>wr\<close>,
    \<open>splice\<close>), NUL-terminated strings (\<open>cstr\<close>, \<open>nonul\<close>), shared rule collections.
  \<^item> \<open>Comparator\<close>: the contract of the three-way comparisons as a locale, with the order facts a
    client gets from it.
  \<^item> \<open>Bytes\<close>, \<open>Strs\<close>: search, comparison, copying and filling of blocks and strings.
  \<^item> \<open>Pack\<close>, \<open>Times\<close>, \<open>Ranges\<close>: integers as bytes, TAI arithmetic, products and buffer
    ranges checked for overflow.
  \<^item> \<open>Numerals\<close>: digits in a base, as a locale that the decimal, octal and hexadecimal
    formatters and scanners interpret.
  \<^item> \<open>Fmt\<close>, \<open>Scan\<close>, \<open>Encodings\<close>, \<open>Utf8\<close>: the two directions for numbers, netstrings,
    ASN.1 tags and lengths, UTF-8.
  \<^item> \<open>Textcode\<close>, \<open>Cescape\<close>, \<open>Base64\<close>: the encoders and decoders for text.
  \<^item> \<open>Sinks\<close>: the contract of what text is appended to, as a locale; dynamic strings and output
    buffers interpret it.
  \<^item> \<open>Stralloc\<close>, \<open>StrallocEdit\<close>, \<open>StrallocQuery\<close>: dynamic strings.
  \<^item> \<open>Buffer\<close>: output through a buffer; \<open>BufferIn\<close>: input, with the contract of a source of
    bytes as a locale; \<open>Charbuf\<close>: character buffers with a window to look ahead in, a second such
    source.
  \<^item> \<open>Array\<close>: growing arrays, a third sink of text; \<open>Strlist\<close>: lists of strings kept in one
    dynamic string, with the contract of a list of strings as a locale.
  \<^item> \<open>Critbit\<close>: the tree both crit-bit libraries use, its invariant and the effect of grafting and
    cutting; \<open>Dictionary\<close>: the contract of a collection of keys, without and with deletion, as
    locales; \<open>Cb\<close>, \<open>Cbmap\<close>, \<open>Hashset\<close> and \<open>Hmap\<close> interpret them.  \<open>Hmap\<close> also has the rings of
    tuples as a locale, with the two pairs of links of a tuple as its interpretations.
  \<^item> \<open>Dlist\<close>, \<open>Slist\<close>: linked lists over an explicit heap of nodes, so that every store to a
    link is visible through every path to the node.
  \<^item> \<open>Path\<close>, \<open>Canonical\<close>, \<open>Fnmatch\<close>: paths as lists of components, \<open>path_canonicalize\<close> over a
    parameter for the file system, and the patterns.
  \<^item> \<open>Json\<close>: values, parser and printer of JSON, over \<open>Charbuf\<close> and over the pairs of \<open>Hmap\<close>, and the
    options, printers and reading of \<open>jsonpp\<close>.

  \<^bold>\<open>How code becomes definitions.\<close>  A definition has the name of the C function it models.  A
  pointer argument is the list of bytes from where it points to the end of the object it points into, so
  that a read or a store outside the object is the value \<open>None\<close>; undefined behaviour and endless
  loops are \<open>None\<close> too.  A routine that writes through a destination returns the bytes it stored (or
  the block after the store), and where the C code accepts a NULL destination in order to measure, a
  flag says whether there is one.  A pointer result is an offset.  \<open>size_t\<close> and the other integer
  types are words of their width wherever the code computes with them; \<open>char\<close> is signed.  The
  structures \<open>stralloc\<close> and \<open>buffer\<close> are records with the fields of the C ones.

  \<^bold>\<open>The environment.\<close>  The allocator is a parameter, a function that says for each size whether
  memory is granted and with which contents; theorems that need memory assume \<open>grants\<close>, the others
  hold for any allocator.  The device behind an output buffer is a script of its answers, each the
  number of bytes it accepts or an error; \<open>willing\<close> says that it always makes progress.  Whether
  \<open>buffer_putflush\<close> may use \<open>writev\<close>, which depends on the build and on the operation of the buffer, is
  an argument.  The source
  behind an input buffer is a script of the chunks that arrive, of errors and of the end of the file.

  \<^bold>\<open>What is shown.\<close>  For each formatter and scanner pair that reading gives back what was written,
  and that reading stays inside its input; that decoders accept only canonical input where the code
  promises it (UTF-8); that the overflow tests of the scanners and of \<open>umult64\<close> are exact; that the
  comparison routines are orders.  For dynamic strings, that any program of editing operations behaves
  as the same program over lists, with running out of memory reported and harmless (refinement).  For
  buffers, that any sequence of successful output calls delivers exactly the text of the calls in order
  (an invariant of a step relation) as long as no \<open>writev\<close> is partial, and what a partial one does; that a device that makes progress receives everything, and that
  the readers give the bytes of the stream in order whatever the sizes of the reads.  Character buffers
  hand out the characters of their source in order, however far the parser looks ahead.  For crit-bit trees
  and hash sets, that any program of insertions and deletions behaves as over a mathematical map or set,
  and that searching and iterating give the right keys in the right order; for hash maps, that setting, which
  copies the bytes of a value, and deleting are the update and the removal in a list of pairs; for linked lists, that each
  operation has its effect on the list of nodes and keeps both directions consistent; for paths, that
  relative, collapsed and canonical paths lead where the given ones did, with the exceptions that the
  properties state, and that a pattern matches
  exactly the strings made of pieces its tokens match; for JSON, that a printed document is read back as
  the same value, for every format that is JSON and however it arrives.  Theorems of the
  kind \<open>error\<close> show where the code does not do what it means to.

  \<^bold>\<open>Loops and fuel.\<close>  Loops are structural or terminating recursion; loops that need not end are
  \<open>partial_function\<close>s in the option monad, and the lemmas about them show that they return.
  \<open>buffer_prefetch\<close> has a counter, one more than the number of bytes asked for: every round that does
  not return adds a byte.  \<open>set_add\<close> has one for the doublings of its table, 33: the table size is a
  32-bit number, so that no run doubles it more often.  \<open>json_parse\<close> counts the levels of nesting it may
  enter; the theorems hold for every number that is at least the nesting of the value (\<open>levels\<close>).

  \<^bold>\<open>Not modelled.\<close>  System calls and everything that only wraps them; floating point; the Windows
  branches; the compression filters; object-file formats, the preprocessor and the network clients; and
  the programs themselves other than \<open>jsonpp\<close>, which are drivers over the file system.  The XML
  trees and the playlists, which are built from the same parts as JSON, are not modelled.
\<close>

end
